(* ===== verification/KUT_Prelude.thy ===== *)
theory KUT_Prelude
  imports Main "HOL-Library.Word"
begin

text \<open>
  The vocabulary every component of the development shares: machine integers of the width
  the sources use (the 64-bit configuration, so a \<^verbatim>\<open>long\<close> and a pointer have 64 bits), the
  byte-addressed memory that C pointers range over, little-endian loads and stores, the
  outcome of a C function that may hit a failing \<^verbatim>\<open>assert\<close>, and the library lemmas on
  alignment, address arithmetic and memory update that carry the component proofs.
\<close>

unbundle bit_operations_syntax

section \<open>Machine types\<close>

type_synonym u8 = "8 word"
type_synonym u16 = "16 word"
type_synonym u32 = "32 word"
type_synonym u64 = "64 word"

abbreviation NL :: char where
  "NL \<equiv> CHR 0x0A"

text \<open>A memory maps every address of the 64-bit space to the byte stored there.\<close>

type_synonym mem = "u64 \<Rightarrow> u8"

text \<open>
  A C function either returns a value or stops the machine: \<open>Abort\<close> carries the
  condition of the \<^verbatim>\<open>assert\<close> that failed (\<^verbatim>\<open>abort()\<close> never returns). Functions whose
  loops need not end have type \<open>'a option\<close> or \<open>'a outcome option\<close>, where \<open>None\<close> means that the
  call does not return.
\<close>

datatype 'a outcome = Ret 'a | Abort string

primrec bind_outcome :: "'a outcome \<Rightarrow> ('a \<Rightarrow> 'b outcome) \<Rightarrow> 'b outcome" where
  "bind_outcome (Ret x) f = f x"
| "bind_outcome (Abort e) f = Abort e"

definition assert_that :: "bool \<Rightarrow> string \<Rightarrow> unit outcome" where
  "assert_that c msg = (if c then Ret () else Abort msg)"

lemma bind_outcome_Ret_iff:
  "bind_outcome r f = Ret y \<longleftrightarrow> (\<exists>x. r = Ret x \<and> f x = Ret y)"
  by (cases r) auto

lemma assert_that_True [simp]: "assert_that True msg = Ret ()"
  by (simp add: assert_that_def)

lemma assert_that_False [simp]: "assert_that False msg = Abort msg"
  by (simp add: assert_that_def)

lemma assert_that_Ret_iff [simp]: "assert_that c msg = Ret u \<longleftrightarrow> c"
  by (simp add: assert_that_def)

section \<open>Collections of rewrite rules\<close>

named_theorems mem_simps \<open>reading back what a store or a loop of stores wrote\<close>
named_theorems align_simps \<open>alignment and page arithmetic on addresses\<close>

lemma take_bit_word_small:
  fixes w :: "'a::len word"
  assumes "unat w < 2 ^ k"
  shows "take_bit k w = w"
proof -
  have "unat (take_bit k w) = unat w"
    using assms by (simp add: unsigned_take_bit_eq take_bit_nat_eq_self)
  then show ?thesis
    by (simp only: word_unat_eq_iff)
qed

lemma take_bit_word_add:
  fixes a b :: "'a::len word"
  shows "take_bit k (take_bit k a + take_bit k b) = take_bit k (a + b)"
  unfolding take_bit_eq_mask by (simp add: mask_eqs)

lemma unat_of_nat_u64 [simp]: "n < 2 ^ 64 \<Longrightarrow> unat (of_nat n :: u64) = n"
  by (simp add: unat_of_nat)

lemma of_nat_eq_0_iff_u64: "n < 2 ^ 64 \<Longrightarrow> (of_nat n :: u64) = 0 \<longleftrightarrow> n = 0"
  using unat_of_nat_u64 [of n] unat_eq_0 [of "of_nat n :: u64"] by simp

lemma offset_eq_iff:
  fixes a s :: u64
  assumes "k < 2 ^ 64"
  shows "a = s + of_nat k \<longleftrightarrow> unat (a - s) = k"
proof
  assume "a = s + of_nat k"
  then show "unat (a - s) = k"
    using assms by simp
next
  assume "unat (a - s) = k"
  then have "a - s = of_nat k"
    by auto
  then show "a = s + of_nat k"
    by (simp add: diff_eq_eq add.commute)
qed

lemma unat_less_u64 [simp]: "unat (x :: u64) < 2 ^ 64"
proof -
  have "unat x < 2 ^ LENGTH(64)"
    by (rule unsigned_less)
  then show ?thesis
    by simp
qed

lemma unat_uminus:
  fixes x :: u64
  assumes "x \<noteq> 0"
  shows "unat (- x) + unat x = 2 ^ 64"
proof -
  have "unat (0 - x) = 2 ^ 64 + unat (0 :: u64) - unat x"
    using assms by (simp only: unat_sub_if_size word_size) (simp add: unat_eq_0)
  then show ?thesis
    using unat_less_u64 [of x] by simp
qed

lemma unat_minus_Suc:
  assumes "a \<noteq> (s :: u64)"
  shows "unat (a - s) = Suc (unat (a - (s + 1)))"
  using assms unat_minus_one [of "a - s"] by (simp add: diff_diff_eq unat_gt_0)

lemma unat_minus_one_eq: "unat (- 1 :: u64) = 2 ^ 64 - 1"
  by (simp add: unsigned_minus_1_eq_mask mask_eq_exp_minus_1)

section \<open>Loads and stores of little-endian values\<close>

primrec loadn :: "nat \<Rightarrow> mem \<Rightarrow> u64 \<Rightarrow> u64" where
  "loadn 0 m a = 0"
| "loadn (Suc k) m a = ucast (m a) OR push_bit 8 (loadn k m (a + 1))"

primrec storen :: "nat \<Rightarrow> mem \<Rightarrow> u64 \<Rightarrow> u64 \<Rightarrow> mem" where
  "storen 0 m a v = m"
| "storen (Suc k) m a v = storen k (m(a := ucast v)) (a + 1) (drop_bit 8 v)"

abbreviation load64 :: "mem \<Rightarrow> u64 \<Rightarrow> u64" where
  "load64 \<equiv> loadn 8"

abbreviation store64 :: "mem \<Rightarrow> u64 \<Rightarrow> u64 \<Rightarrow> mem" where
  "store64 \<equiv> storen 8"

lemma bit_loadn:
  "bit (loadn k m a) n \<longleftrightarrow> n < 64 \<and> n < 8 * k \<and> bit (m (a + of_nat (n div 8))) (n mod 8)"
proof (induction k arbitrary: a n)
  case 0
  then show ?case by simp
next
  case (Suc k)
  show ?case
  proof (cases "n < 8")
    case True
    then show ?thesis
      by (auto simp: bit_or_iff bit_push_bit_iff bit_ucast_iff)
  next
    case False
    define j where "j = n - 8"
    have n: "n = j + 8" and d: "n div 8 = Suc (j div 8)" and r: "n mod 8 = j mod 8"
      using False by (auto simp: j_def le_mod_geq le_div_geq)
    have "\<not> bit (m a) n"
      using False bit_imp_le_length [of "m a" n] by auto
    then show ?thesis
      using False Suc.IH [of "a + 1" j] unfolding d r
      by (auto simp: bit_or_iff bit_push_bit_iff bit_ucast_iff j_def ac_simps)
  qed
qed

lemma storen_apply:
  assumes "k \<le> 8"
  shows "storen k m a v b
    = (if unat (b - a) < k then ucast (drop_bit (8 * unat (b - a)) v) else m b)"
  using assms
proof (induction k arbitrary: m a v)
  case 0
  then show ?case by simp
next
  case (Suc k)
  show ?case
  proof (cases "b = a")
    case True
    have "a - (a + 1) = - 1"
      by simp
    moreover have "\<not> unat (- 1 :: u64) < k"
      using Suc.prems by (simp add: unat_minus_one_eq)
    ultimately show ?thesis
      using True Suc by simp
  next
    case False
    have "b - a \<noteq> 0"
      using False by simp
    then have u: "unat (b - a) = Suc (unat (b - (a + 1)))"
      using unat_minus_one [of "b - a"] by (simp add: diff_diff_eq unat_gt_0)
    show ?thesis
      using False Suc by (simp add: u add.commute)
  qed
qed

section \<open>Alignment\<close>

definition aligned :: "nat \<Rightarrow> u64 \<Rightarrow> bool" where
  "aligned k a \<longleftrightarrow> take_bit k a = 0"

text \<open>An address has one aligned base within distance \<open>2 ^ k\<close>.\<close>

lemma aligned_base:
  assumes "aligned k a" and "unat (x - a) < 2 ^ k"
  shows "a = x - take_bit k x"
proof -
  have "take_bit k (x - a) = x - a"
    using assms(2) by (rule take_bit_word_small)
  moreover have "take_bit k (take_bit k (x - a) + take_bit k a) = take_bit k x"
    by (simp add: take_bit_word_add)
  ultimately have "take_bit k x = x - a"
    using assms(1) by (simp add: aligned_def)
  then show ?thesis
    by simp
qed

lemma aligned_blocks_disjoint:
  assumes "aligned k a" and "aligned k b" and "unat (x - a) < 2 ^ k" and "unat (x - b) < 2 ^ k"
  shows "a = b"
  using aligned_base [OF assms(1,3)] aligned_base [OF assms(2,4)] by simp

lemma loadn_cong:
  assumes "\<And>i. i < k \<Longrightarrow> m (a + of_nat i) = m' (a + of_nat i)"
  shows "loadn k m a = loadn k m' a"
proof (rule bit_word_eqI)
  fix n
  have "n < 8 * k \<Longrightarrow> n div 8 < k"
    by (simp add: div_less_iff_less_mult mult.commute)
  then show "bit (loadn k m a) n = bit (loadn k m' a) n"
    using assms by (auto simp: bit_loadn)
qed

lemma unat_offset_less:
  assumes "i < 8"
  shows "unat (of_nat i :: u64) = i"
  using assms by simp

lemma load64_store64_same [mem_simps]: "load64 (store64 m a v) a = v"
proof (rule bit_word_eqI)
  fix n :: nat
  assume "n < LENGTH(64)"
  then have n: "n < 64" and d: "n div 8 < 8"
    by (simp_all add: div_less_iff_less_mult)
  have "store64 m a v (a + of_nat (n div 8)) = ucast (drop_bit (8 * (n div 8)) v)"
    using d by (simp add: storen_apply unat_offset_less)
  then show "bit (load64 (store64 m a v) a) n = bit v n"
    using n by (simp add: bit_loadn bit_ucast_iff bit_drop_bit_eq)
qed

lemma load64_store64_other [mem_simps]:
  assumes "aligned 3 a" and "aligned 3 b" and "a \<noteq> b"
  shows "load64 (store64 m a v) b = load64 m b"
proof (rule loadn_cong)
  fix i :: nat
  assume i: "i < 8"
  have "\<not> unat (b + of_nat i - a) < 8"
    using aligned_blocks_disjoint [OF assms(1,2), of "b + of_nat i"] i assms(3)
    by (auto simp: unat_offset_less)
  then show "store64 m a v (b + of_nat i) = m (b + of_nat i)"
    by (simp add: storen_apply)
qed

lemma store64_outside:
  assumes "\<not> unat (b - a) < 8"
  shows "store64 m a v b = m b"
  using assms by (simp add: storen_apply)

lemma loadn_storen_same:
  assumes "k \<le> 8" and "take_bit (8 * k) v = (v :: u64)"
  shows "loadn k (storen k m a v) a = v"
proof (rule bit_word_eqI)
  fix n :: nat
  assume "n < LENGTH(64)"
  then have n: "n < 64"
    by simp
  show "bit (loadn k (storen k m a v) a) n = bit v n"
  proof (cases "n < 8 * k")
    case True
    then have d: "n div 8 < k" "n div 8 < 8"
      using assms(1) by auto
    have "unat (of_nat (n div 8) :: u64) = n div 8"
      using n by (intro unat_of_nat_u64) simp
    then show ?thesis
      using d n True assms(1) by (simp add: bit_loadn storen_apply bit_ucast_iff bit_drop_bit_eq)
  next
    case False
    then have "\<not> bit v n"
      using assms(2) bit_take_bit_iff [of "8 * k" v n] by simp
    then show ?thesis
      using False by (simp add: bit_loadn)
  qed
qed

lemma loadn_shift:
  assumes "\<And>i. i < k \<Longrightarrow> m (a + of_nat i) = m' (b + of_nat i)"
  shows "loadn k m a = loadn k m' b"
proof (rule bit_word_eqI)
  fix n
  have "n < 8 * k \<Longrightarrow> n div 8 < k"
    by (simp add: div_less_iff_less_mult mult.commute)
  then show "bit (loadn k m a) n = bit (loadn k m' b) n"
    using assms by (auto simp: bit_loadn)
qed

lemma and_nonzero_iff: "x AND y \<noteq> 0 \<longleftrightarrow> (\<exists>n. bit x n \<and> bit y n)" for x y :: u64
proof -
  have "n < 64" if "bit x n" for n
    using bit_imp_le_length [OF that] by simp
  then show ?thesis
    by (auto simp: bit_eq_iff bit_and_iff)
qed

text \<open>Addresses given by their offset from a common base.\<close>

lemma unat_offset_diff:
  assumes "x < 2 ^ 64" and "y < 2 ^ 64"
  shows "unat (p + of_nat x - (p + of_nat y) :: u64) = (if y \<le> x then x - y else 2 ^ 64 - (y - x))"
proof (cases "y \<le> x")
  case True
  then have "p + of_nat x - (p + of_nat y) = (of_nat (x - y) :: u64)"
    by (simp add: of_nat_diff)
  then show ?thesis
    using True assms(1) unat_of_nat_u64 [of "x - y"] by simp
next
  case False
  then have d: "p + of_nat x - (p + of_nat y) = (- of_nat (y - x) :: u64)"
    by (simp add: of_nat_diff)
  have u: "unat (of_nat (y - x) :: u64) = y - x"
    using assms(2) by (intro unat_of_nat_u64) simp
  then have "(of_nat (y - x) :: u64) \<noteq> 0"
    using False by (metis diff_is_0_eq unat_0)
  then show ?thesis
    using unat_uminus [of "of_nat (y - x)"] u False unfolding d by simp
qed

lemma storen_apart:
  assumes "j \<le> 8" and "x < y \<or> y + j \<le> x" and "x < 2 ^ 64" and "y + j \<le> 2 ^ 64"
  shows "storen j m (p + of_nat y) v (p + of_nat x) = m (p + of_nat x)"
proof (cases "j = 0")
  case False
  then have "y < 2 ^ 64"
    using assms(4) by simp
  then have "\<not> unat (p + of_nat x - (p + of_nat y)) < j"
    unfolding unat_offset_diff [OF assms(3) \<open>y < 2 ^ 64\<close>] using assms(2,4) by auto
  then show ?thesis
    using assms(1) by (simp add: storen_apply)
qed simp

lemma loadn_storen_apart:
  assumes "j \<le> 8" and "x + k \<le> y \<or> y + j \<le> x" and "x + k \<le> 2 ^ 64" and "y + j \<le> 2 ^ 64"
  shows "loadn k (storen j m (p + of_nat y) v) (p + of_nat x) = loadn k m (p + of_nat x)"
proof (rule loadn_cong)
  fix i
  assume "i < k"
  then show "storen j m (p + of_nat y) v (p + of_nat x + of_nat i) = m (p + of_nat x + of_nat i)"
    using storen_apart [of j "x + i" y m p v] assms by (auto simp: add.assoc)
qed

end
