(* ===== verification/Bitops.thy ===== *)
theory Bitops
  imports KUT_Prelude
begin

text \<open>
  The bit-twiddling layer: \<^verbatim>\<open>lib/bitops.h\<close> (\<open>GENMASK_ULL\<close>, the portable \<open>fls\<close> and the one on
  top of the compiler's count-leading-zeros builtin) and the alignment macros and
  \<open>is_power_of_2\<close> of \<^verbatim>\<open>lib/libcflat.h\<close>. The lemmas give their meaning over the natural numbers:
  rounding up to a power of two, the position of the highest set bit, and when a word is a
  power of two.
\<close>

section \<open>Definitions\<close>

text \<open>\<^verbatim>\<open>ALIGN(x, a)\<close>: round \<open>x\<close> up with the mask \<open>a - 1\<close>.\<close>

definition ALIGN_MASK :: "u64 \<Rightarrow> u64 \<Rightarrow> u64" where
  "ALIGN_MASK x msk = (x + msk) AND NOT msk"

definition ALIGN :: "u64 \<Rightarrow> u64 \<Rightarrow> u64" where
  "ALIGN x a = ALIGN_MASK x (a - 1)"

definition IS_ALIGNED :: "u64 \<Rightarrow> u64 \<Rightarrow> bool" where
  "IS_ALIGNED x a \<longleftrightarrow> x AND (a - 1) = 0"

definition is_power_of_2 :: "u64 \<Rightarrow> bool" where
  "is_power_of_2 n \<longleftrightarrow> n \<noteq> 0 \<and> n AND (n - 1) = 0"

definition GENMASK_ULL :: "nat \<Rightarrow> nat \<Rightarrow> u64" where
  "GENMASK_ULL h l = push_bit l (NOT 0) AND drop_bit (64 - 1 - h) (NOT 0)"

text \<open>One of the five halving steps of the portable \<open>fls\<close>: if the top \<open>s\<close> bits are clear, shift them out.\<close>

definition fls_step :: "nat \<Rightarrow> u64 \<times> nat \<Rightarrow> u64 \<times> nat" where
  "fls_step s = (\<lambda>(word, num).
     if word AND push_bit (64 - s) (NOT 0) = 0 then (push_bit s word, num - s) else (word, num))"

definition fls_generic :: "u64 \<Rightarrow> nat" where
  "fls_generic word =
     (let (w, num) = fls_step 2 (fls_step 4 (fls_step 8 (fls_step 16 (fls_step 32 (word, 63)))))
      in if w AND push_bit 63 (NOT 0) = 0 then num - 1 else num)"

text \<open>The builtin: the number of zero bits above the highest set bit.\<close>

definition builtin_clzl :: "u64 \<Rightarrow> nat" where
  "builtin_clzl w = length (takeWhile (\<lambda>i. \<not> bit w i) (rev [0..<64]))"

definition fls :: "u64 \<Rightarrow> nat" where
  "fls word = 64 - builtin_clzl word - 1"

section \<open>Masking with the low bits\<close>

lemma and_not_mask_eq: "w AND NOT (mask k) = w - take_bit k w" for w :: "'a::len word"
proof -
  have "w AND NOT (mask k) = push_bit k (drop_bit k w)"
    by (rule bit_word_eqI) (auto simp: bit_push_bit_iff bit_drop_bit_eq bit_and_iff bit_not_iff bit_mask_iff)
  then show ?thesis
    using bits_ident [of k w] by (simp add: eq_diff_eq)
qed

lemma unat_take_bit: "unat (take_bit k w) = unat w mod 2 ^ k" for w :: "'a::len word"
  by (simp only: unsigned_take_bit_eq) (simp add: take_bit_eq_mod)

lemma unat_and_not_mask: "unat (w AND NOT (mask k)) = unat w div 2 ^ k * 2 ^ k" for w :: "'a::len word"
proof -
  have "take_bit k w \<le> w"
    by (simp add: word_le_nat_alt unat_take_bit)
  then have "unat (w - take_bit k w) = unat w - unat w mod 2 ^ k"
    by (simp add: unat_sub unat_take_bit)
  then show ?thesis
    by (simp add: and_not_mask_eq minus_mod_eq_div_mult)
qed

lemma mask_eq_pow: "mask k = (2 ^ k - 1 :: 'a::len word)"
  by (simp add: mask_eq_decr_exp)

section \<open>The highest set bit\<close>

lemma and_not_mask_eq_0_iff: "w AND NOT (mask k) = 0 \<longleftrightarrow> unat w < 2 ^ k" for w :: u64
proof -
  have "w AND NOT (mask k) = 0 \<longleftrightarrow> unat (w AND NOT (mask k)) = 0"
    by (simp only: unat_eq_0)
  then show ?thesis
    by (simp only: unat_and_not_mask) (simp add: div_eq_0_iff)
qed

lemma fls_step_eq:
  "fls_step s (w, num) = (if unat w < 2 ^ (64 - s) then (push_bit s w, num - s) else (w, num))"
  by (simp add: fls_step_def and_not_mask_eq_0_iff)

lemma unat_push_bit_u64:
  assumes "unat w * 2 ^ s < 2 ^ 64"
  shows "unat (push_bit s w :: u64) = unat w * 2 ^ s"
proof -
  have "unat (push_bit s w) = take_bit 64 (push_bit s (unat w))"
    by (simp only: unsigned_push_bit_eq) simp
  then show ?thesis
    using assms by (simp add: push_bit_eq_mult take_bit_nat_eq_self)
qed

lemma unat_two_power [simp]: "k < 64 \<Longrightarrow> unat (2 ^ k :: u64) = 2 ^ k"
  using unat_push_bit_u64 [of 1 k] power_strict_increasing [of k 64 "2 :: nat"]
  by (simp add: push_bit_eq_mult)

lemma fls_step_spec:
  assumes w: "unat w = x * 2 ^ (63 - num)" "2 ^ (64 - 2 * s) \<le> unat w"
    and num: "num \<le> 63" "2 * s \<le> num + 1" and s: "0 < s" "s \<le> 32"
    and step: "fls_step s (w, num) = (w', num')"
  shows "unat w' = x * 2 ^ (63 - num')" and "2 ^ (64 - s) \<le> unat w'"
    and "num' \<le> 63" and "s \<le> num' + 1"
proof -
  have "unat w' = x * 2 ^ (63 - num') \<and> 2 ^ (64 - s) \<le> unat w' \<and> num' \<le> 63 \<and> s \<le> num' + 1"
  proof (cases "unat w < 2 ^ (64 - s)")
    case True
    then have w': "w' = push_bit s w" and n: "num' = num - s"
      using step by (auto simp: fls_step_eq)
    have "unat w * 2 ^ s < 2 ^ (64 - s) * 2 ^ s"
      using True by simp
    also have "\<dots> = 2 ^ 64"
      using s by (simp flip: power_add)
    finally have u: "unat (push_bit s w) = unat w * 2 ^ s"
      by (rule unat_push_bit_u64)
    have "2 ^ (64 - s) = (2 :: nat) ^ (64 - 2 * s) * 2 ^ s"
      using s by (simp flip: power_add)
    also have "\<dots> \<le> unat w * 2 ^ s"
      using w(2) by simp
    finally have "2 ^ (64 - s) \<le> unat w * 2 ^ s" .
    moreover have "63 - (num - s) = 63 - num + s"
      using num s by linarith
    then have "unat w * 2 ^ s = x * 2 ^ (63 - (num - s))"
      using w(1) by (simp add: power_add mult.assoc)
    moreover have "num - s \<le> 63" and "s \<le> num - s + 1"
      using num s by linarith+
    ultimately show ?thesis
      by (simp only: u w' n simp_thms)
  next
    case False
    then show ?thesis
      using w num step by (auto simp: fls_step_eq)
  qed
  then show "unat w' = x * 2 ^ (63 - num')" and "2 ^ (64 - s) \<le> unat w'"
    and "num' \<le> 63" and "s \<le> num' + 1"
    by blast+
qed


lemma fls_generic_bounds:
  assumes "w \<noteq> 0"
  shows "2 ^ fls_generic w \<le> unat w" and "unat w < 2 ^ Suc (fls_generic w)" and "fls_generic w \<le> 63"
proof -
  define x where "x = unat w"
  have x: "1 \<le> x"
    using assms by (simp add: x_def Suc_le_eq unat_gt_0)
  obtain w1 n1 where 1: "fls_step 32 (w, 63) = (w1, n1)" by fastforce
  obtain w2 n2 where 2: "fls_step 16 (w1, n1) = (w2, n2)" by fastforce
  obtain w3 n3 where 3: "fls_step 8 (w2, n2) = (w3, n3)" by fastforce
  obtain w4 n4 where 4: "fls_step 4 (w3, n3) = (w4, n4)" by fastforce
  obtain w5 n5 where 5: "fls_step 2 (w4, n4) = (w5, n5)" by fastforce
  note s1 = fls_step_spec [where x = x, OF _ _ _ _ _ _ 1]
  have i1: "unat w1 = x * 2 ^ (63 - n1)" "2 ^ 32 \<le> unat w1" "n1 \<le> 63" "32 \<le> n1 + 1"
    using s1 x by (simp_all add: x_def)
  note s2 = fls_step_spec [where x = x, OF i1(1) _ i1(3) _ _ _ 2]
  have i2: "unat w2 = x * 2 ^ (63 - n2)" "2 ^ 48 \<le> unat w2" "n2 \<le> 63" "16 \<le> n2 + 1"
    using s2 i1(2,4) by simp_all
  note s3 = fls_step_spec [where x = x, OF i2(1) _ i2(3) _ _ _ 3]
  have i3: "unat w3 = x * 2 ^ (63 - n3)" "2 ^ 56 \<le> unat w3" "n3 \<le> 63" "8 \<le> n3 + 1"
    using s3 i2(2,4) by simp_all
  note s4 = fls_step_spec [where x = x, OF i3(1) _ i3(3) _ _ _ 4]
  have i4: "unat w4 = x * 2 ^ (63 - n4)" "2 ^ 60 \<le> unat w4" "n4 \<le> 63" "4 \<le> n4 + 1"
    using s4 i3(2,4) by simp_all
  note s5 = fls_step_spec [where x = x, OF i4(1) _ i4(3) _ _ _ 5]
  have i5: "unat w5 = x * 2 ^ (63 - n5)" "2 ^ 62 \<le> unat w5" "n5 \<le> 63" "2 \<le> n5 + 1"
    using s5 i4(2,4) by simp_all
  have f: "fls_generic w = (if unat w5 < 2 ^ 63 then n5 - 1 else n5)"
    using 1 2 3 4 5 by (simp add: fls_generic_def and_not_mask_eq_0_iff)
  define c :: nat where "c = 2 ^ (63 - n5)"
  have c: "0 < c" and w5: "unat w5 = x * c"
    using i5(1) by (simp_all add: c_def)
  have p63: "(2 :: nat) ^ 63 = 2 ^ n5 * c" and p62: "(2 :: nat) ^ 62 = 2 ^ (n5 - 1) * c"
    and p64: "(2 :: nat) ^ 64 = 2 ^ Suc n5 * c"
    unfolding c_def using i5(3,4) by (simp_all flip: power_add)
  have "unat w5 < 2 ^ 64"
    using unsigned_less [of w5] by simp
  then have lo: "2 ^ (n5 - 1) * c \<le> x * c" and hi: "x * c < 2 ^ Suc n5 * c"
    and mid: "unat w5 < 2 ^ 63 \<longleftrightarrow> x * c < 2 ^ n5 * c"
    using i5(2) by (simp_all only: w5 p62 p63 p64)
  have *: "2 ^ (n5 - 1) \<le> x" "x < 2 ^ Suc n5" and m: "unat w5 < 2 ^ 63 \<longleftrightarrow> x < 2 ^ n5"
    using c lo hi mid by (auto simp only: mult_le_cancel2 mult_less_cancel2)
  have "Suc (n5 - 1) = n5"
    using i5(4) by simp
  then show "2 ^ fls_generic w \<le> unat w" and "unat w < 2 ^ Suc (fls_generic w)"
    unfolding f m x_def [symmetric] using * by (auto simp only: not_less split: if_splits)
  show "fls_generic w \<le> 63"
    unfolding f using i5(3) by (auto split: if_splits)
qed


lemma bit_of_range:
  fixes w :: u64
  assumes "2 ^ k \<le> unat w" and "unat w < 2 ^ Suc k"
  shows "bit w k" and "k < i \<Longrightarrow> \<not> bit w i"
proof -
  have "unat w div 2 ^ k = 1"
    using assms by (auto intro: div_nat_eqI)
  then have "bit (unat w) k"
    by (simp add: bit_iff_odd)
  then show "bit w k"
    by (simp add: bit_unsigned_iff)
  assume "k < i"
  then have "(2 :: nat) ^ Suc k \<le> 2 ^ i"
    by (intro power_increasing) auto
  then have "unat w div 2 ^ i = 0"
    using assms(2) by (simp add: div_less)
  then have "\<not> bit (unat w) i"
    by (simp add: bit_iff_odd)
  then show "\<not> bit w i"
    using bit_imp_le_length [of w i] by (auto simp: bit_unsigned_iff)
qed

lemma fls_unique:
  assumes "bit w k" and "\<And>i. k < i \<Longrightarrow> \<not> bit w i"
  shows "fls w = k"
proof -
  have k: "k < 64"
    using bit_imp_le_length [OF assms(1)] by simp
  have "[0..<64] = [0..<k] @ k # [Suc k..<64]"
    using k upt_add_eq_append [of 0 k "64 - k"] by (simp add: upt_conv_Cons)
  then have "rev [0..<64] = rev [Suc k..<64] @ k # rev [0..<k]"
    by (simp only: rev_append rev.simps append_assoc append_Cons append_Nil)
  then have "takeWhile (\<lambda>i. \<not> bit w i) (rev [0..<64]) = rev [Suc k..<64]"
    using assms by (simp only:) (subst takeWhile_append2; auto)
  then show ?thesis
    using k by (simp add: fls_def builtin_clzl_def)
qed

lemma fls_eq_fls_generic:
  assumes "w \<noteq> 0"
  shows "fls w = fls_generic w"
  using bit_of_range [OF fls_generic_bounds(1,2) [OF assms]] by (rule fls_unique)

lemma fls_bounds:
  assumes "w \<noteq> 0"
  shows "2 ^ fls w \<le> unat w" and "unat w < 2 ^ Suc (fls w)" and "fls w \<le> 63"
  using fls_generic_bounds [OF assms] by (simp_all only: fls_eq_fls_generic [OF assms])

section \<open>Powers of two and alignment\<close>

lemma is_power_of_2_iff: "is_power_of_2 n \<longleftrightarrow> (\<exists>k < 64. n = 2 ^ k)"
proof
  assume n: "is_power_of_2 n"
  then have "n \<noteq> 0" and and0: "n AND (n - 1) = 0"
    by (auto simp: is_power_of_2_def)
  note b = fls_bounds [OF this(1)]
  have "n = 2 ^ fls n"
  proof (rule ccontr)
    assume "n \<noteq> 2 ^ fls n"
    then have "unat n \<noteq> 2 ^ fls n"
      using b(3) by (simp add: word_unat_eq_iff)
    then have "2 ^ fls n \<le> unat (n - 1)" and "unat (n - 1) < 2 ^ Suc (fls n)"
      using b \<open>n \<noteq> 0\<close> by (auto simp: unat_minus_one)
    then have "bit (n - 1) (fls n)"
      by (rule bit_of_range)
    moreover have "bit n (fls n)"
      using b(1,2) by (rule bit_of_range)
    ultimately have "bit (n AND (n - 1)) (fls n)"
      by (simp add: bit_and_iff)
    with and0 show False
      by simp
  qed
  with b(3) show "\<exists>k < 64. n = 2 ^ k"
    by (intro exI [of _ "fls n"]) simp
next
  assume "\<exists>k < 64. n = 2 ^ k"
  then obtain k where k: "k < 64" "n = 2 ^ k"
    by blast
  have "n AND (n - 1) = 0"
    unfolding k(2) mask_eq_pow [symmetric]
    by (rule bit_word_eqI) (auto simp: bit_and_iff bit_exp_iff bit_mask_iff)
  moreover have "n \<noteq> 0"
    using k by simp
  ultimately show "is_power_of_2 n"
    by (simp add: is_power_of_2_def)
qed

lemma unat_ALIGN:
  assumes "k < 64" and "unat x + 2 ^ k - 1 < 2 ^ 64"
  shows "unat (ALIGN x (2 ^ k)) = (unat x + 2 ^ k - 1) div 2 ^ k * 2 ^ k"
proof -
  have "unat (mask k :: u64) = 2 ^ k - 1"
    using assms(1) by (simp add: mask_eq_pow unat_minus_one)
  then have "unat (x + mask k) = unat x + 2 ^ k - 1"
    using assms by (simp add: unat_word_ariths)
  then show ?thesis
    by (simp add: ALIGN_def ALIGN_MASK_def unat_and_not_mask flip: mask_eq_pow)
qed

lemma IS_ALIGNED_iff: "k < 64 \<Longrightarrow> IS_ALIGNED x (2 ^ k) \<longleftrightarrow> aligned k x"
  by (simp add: IS_ALIGNED_def aligned_def take_bit_eq_mask flip: mask_eq_pow)

lemma aligned_iff_dvd: "aligned k x \<longleftrightarrow> 2 ^ k dvd unat x"
proof -
  have "aligned k x \<longleftrightarrow> unat (take_bit k x) = 0"
    by (simp only: aligned_def unat_eq_0)
  then show ?thesis
    by (simp add: unat_take_bit dvd_eq_mod_eq_0)
qed

lemma aligned_ALIGN: "aligned k (ALIGN x (2 ^ k))"
  unfolding aligned_iff_dvd ALIGN_def ALIGN_MASK_def mask_eq_pow [symmetric] unat_and_not_mask
  by simp

text \<open>\<open>ALIGN\<close> gives the least multiple of \<open>2 ^ k\<close> that is not below its argument.\<close>

lemma ALIGN_least:
  assumes "k < 64" and "unat x + 2 ^ k - 1 < 2 ^ 64"
  shows "unat x \<le> unat (ALIGN x (2 ^ k))" and "unat (ALIGN x (2 ^ k)) < unat x + 2 ^ k"
    and "2 ^ k dvd y \<Longrightarrow> unat x \<le> y \<Longrightarrow> unat (ALIGN x (2 ^ k)) \<le> y"
proof -
  let ?p = "2 ^ k :: nat"
  define q where "q = (unat x + ?p - 1) div ?p"
  have p: "0 < ?p" by simp
  have a: "unat (ALIGN x (2 ^ k)) = q * ?p"
    using unat_ALIGN [OF assms] by (simp add: q_def)
  have r: "q * ?p + (unat x + ?p - 1) mod ?p = unat x + ?p - 1" "(unat x + ?p - 1) mod ?p < ?p"
    using p unfolding q_def by (simp_all only: div_mult_mod_eq mod_less_divisor)
  show "unat x \<le> unat (ALIGN x (2 ^ k))" and "unat (ALIGN x (2 ^ k)) < unat x + 2 ^ k"
    unfolding a using r p by linarith+
  assume y: "2 ^ k dvd y" "unat x \<le> y"
  then obtain z where z: "y = z * ?p"
    by (auto simp: dvd_def mult.commute)
  have "q * ?p < (z + 1) * ?p"
    using r(1) y(2) p unfolding z distrib_right by linarith
  then have "q \<le> z"
    unfolding mult_less_cancel2 by linarith
  then show "unat (ALIGN x (2 ^ k)) \<le> y"
    unfolding a z by simp
qed

lemma bit_GENMASK_ULL: "h < 64 \<Longrightarrow> bit (GENMASK_ULL h l) n \<longleftrightarrow> l \<le> n \<and> n \<le> h"
  by (auto simp: GENMASK_ULL_def bit_simps)

section \<open>Properties\<close>

text \<open>
  C40: on every nonzero word the portable binary search for the highest set bit and the
  version on the compiler builtin agree, and both return its position.
\<close>

theorem fls_versions_agree:
  assumes "w \<noteq> 0"
  shows "fls w = fls_generic w \<and> 2 ^ fls w \<le> unat w \<and> unat w < 2 ^ Suc (fls w)"
  using fls_eq_fls_generic [OF assms] fls_bounds(1,2) [OF assms] by simp_all

theorem fls_versions_agree_witness:
  "(12345 :: u64) \<noteq> 0 \<and> fls 12345 = fls_generic 12345 \<and> 2 ^ fls 12345 \<le> unat (12345 :: u64)
    \<and> unat (12345 :: u64) < 2 ^ Suc (fls 12345)"
proof -
  have "(12345 :: u64) \<noteq> 0"
    by simp
  then show ?thesis
    using fls_versions_agree [of 12345] by blast
qed

text \<open>
  \<open>ALIGN\<close> with a power of two rounds up to the least multiple that is not below its
  argument, as long as the sum with the mask does not wrap.
\<close>

theorem ALIGN_rounds_up:
  assumes "is_power_of_2 a" and "unat x + unat a - 1 < 2 ^ 64"
  shows "unat a dvd unat (ALIGN x a) \<and> unat x \<le> unat (ALIGN x a)
    \<and> (\<forall>y. unat a dvd y \<and> unat x \<le> y \<longrightarrow> unat (ALIGN x a) \<le> y)"
proof -
  obtain k where k: "k < 64" and a: "a = 2 ^ k"
    using assms(1) by (auto simp: is_power_of_2_iff)
  have le: "unat x + 2 ^ k - 1 < 2 ^ 64"
    using assms(2) k unfolding a by simp
  have "unat a dvd unat (ALIGN x a)"
    using aligned_ALIGN [of k x] k unfolding a by (simp add: aligned_iff_dvd)
  moreover have "unat x \<le> unat (ALIGN x a)"
    and "\<And>y. unat a dvd y \<Longrightarrow> unat x \<le> y \<Longrightarrow> unat (ALIGN x a) \<le> y"
    using ALIGN_least [OF k le] k unfolding a by simp_all
  ultimately show ?thesis
    by blast
qed

end
