(* ===== verification/Cmem.thy ===== *)
theory Cmem
  imports Bitops "HOL-Library.Sublist"
begin

text \<open>
  The libc memory and string primitives of \<^verbatim>\<open>lib/string.c\<close> that work on raw memory: a pointer is
  an address, a loop over bytes is a fold or a recursion over the byte count, and a scan for
  the terminating NUL is a \<^theory_text>\<open>partial_function\<close> into \<open>option\<close> (\<open>None\<close>: the memory holds no NUL and
  the call does not return). \<open>cstr m p s\<close> says that the NUL-terminated string \<open>s\<close> is stored at
  \<open>p\<close>; under it every primitive is related to the operation on lists that it implements.
\<close>

section \<open>Block operations\<close>

definition memset :: "mem \<Rightarrow> u64 \<Rightarrow> u8 \<Rightarrow> u64 \<Rightarrow> mem" where
  "memset m s c n = fold (\<lambda>i m. m(s + of_nat i := c)) [0..<unat n] m"

definition memcpy :: "mem \<Rightarrow> u64 \<Rightarrow> u64 \<Rightarrow> u64 \<Rightarrow> mem" where
  "memcpy m dest src n = fold (\<lambda>i m. m(dest + of_nat i := m (src + of_nat i))) [0..<unat n] m"

primrec memmove_up :: "mem \<Rightarrow> u64 \<Rightarrow> u64 \<Rightarrow> nat \<Rightarrow> mem" where
  "memmove_up m d s 0 = m"
| "memmove_up m d s (Suc n) = memmove_up (m(d := m s)) (d + 1) (s + 1) n"

primrec memmove_down :: "mem \<Rightarrow> u64 \<Rightarrow> u64 \<Rightarrow> nat \<Rightarrow> mem" where
  "memmove_down m d s 0 = m"
| "memmove_down m d s (Suc n) = memmove_down (m(d - 1 := m (s - 1))) (d - 1) (s - 1) n"

definition memmove :: "mem \<Rightarrow> u64 \<Rightarrow> u64 \<Rightarrow> u64 \<Rightarrow> mem" where
  "memmove m dest src n =
     (if dest \<le> src then memmove_up m dest src (unat n)
      else memmove_down m (dest + n) (src + n) (unat n))"

primrec memcmp_loop :: "mem \<Rightarrow> u64 \<Rightarrow> u64 \<Rightarrow> int \<Rightarrow> nat \<Rightarrow> int" where
  "memcmp_loop m a b ret 0 = ret"
| "memcmp_loop m a b ret (Suc n) =
     (let ret = uint (m a) - uint (m b)
      in if ret \<noteq> 0 then ret else memcmp_loop m (a + 1) (b + 1) ret n)"

definition memcmp :: "mem \<Rightarrow> u64 \<Rightarrow> u64 \<Rightarrow> u64 \<Rightarrow> int" where
  "memcmp m s1 s2 n = memcmp_loop m s1 s2 0 (unat n)"

primrec memchr_loop :: "mem \<Rightarrow> u64 \<Rightarrow> u8 \<Rightarrow> nat \<Rightarrow> u64" where
  "memchr_loop m str chr 0 = 0"
| "memchr_loop m str chr (Suc n) = (if m str = chr then str else memchr_loop m (str + 1) chr n)"

definition memchr :: "mem \<Rightarrow> u64 \<Rightarrow> u32 \<Rightarrow> u64 \<Rightarrow> u64" where
  "memchr m s c n = memchr_loop m s (ucast c) (unat n)"

section \<open>NUL-terminated strings\<close>

partial_function (option) strlen_loop :: "mem \<Rightarrow> u64 \<Rightarrow> u64 \<Rightarrow> u64 option" where
  "strlen_loop m buf len = (if m buf = 0 then Some len else strlen_loop m (buf + 1) (len + 1))"

definition strlen :: "mem \<Rightarrow> u64 \<Rightarrow> u64 option" where
  "strlen m buf = strlen_loop m buf 0"

partial_function (option) strcat_end :: "mem \<Rightarrow> u64 \<Rightarrow> u64 option" where
  "strcat_end m p = (if m p = 0 then Some p else strcat_end m (p + 1))"

partial_function (option) strcat_copy :: "mem \<Rightarrow> u64 \<Rightarrow> u64 \<Rightarrow> mem option" where
  "strcat_copy m p src =
     (if m src = 0 then Some (m(p := 0)) else strcat_copy (m(p := m src)) (p + 1) (src + 1))"

definition strcat :: "mem \<Rightarrow> u64 \<Rightarrow> u64 \<Rightarrow> mem option" where
  "strcat m dest src = Option.bind (strcat_end m dest) (\<lambda>p. strcat_copy m p src)"

definition strcpy :: "mem \<Rightarrow> u64 \<Rightarrow> u64 \<Rightarrow> mem option" where
  "strcpy m dest src = strcat (m(dest := 0)) dest src"

text \<open>A \<^verbatim>\<open>char\<close> is signed in this configuration, so a difference of characters is one of \<open>sint\<close>s.\<close>

primrec strncmp_loop :: "mem \<Rightarrow> u64 \<Rightarrow> u64 \<Rightarrow> nat \<Rightarrow> int" where
  "strncmp_loop m a b 0 = 0"
| "strncmp_loop m a b (Suc n) =
     (if m a \<noteq> m b \<or> m a = 0 then sint (m a) - sint (m b) else strncmp_loop m (a + 1) (b + 1) n)"

definition strncmp :: "mem \<Rightarrow> u64 \<Rightarrow> u64 \<Rightarrow> u64 \<Rightarrow> int" where
  "strncmp m a b n = strncmp_loop m a b (unat n)"

definition SIZE_MAX :: u64 where
  "SIZE_MAX = NOT 0"

definition strcmp :: "mem \<Rightarrow> u64 \<Rightarrow> u64 \<Rightarrow> int" where
  "strcmp m a b = strncmp m a b SIZE_MAX"

partial_function (option) strchr_loop :: "mem \<Rightarrow> u64 \<Rightarrow> u8 \<Rightarrow> u64 option" where
  "strchr_loop m s c =
     (if m s = c then Some s else if m s = 0 then Some 0 else strchr_loop m (s + 1) c)"

definition strchr :: "mem \<Rightarrow> u64 \<Rightarrow> u32 \<Rightarrow> u64 option" where
  "strchr m s c = strchr_loop m s (ucast c)"

text \<open>The search loop of \<open>strstr\<close>; it runs with \<open>l2\<close> positive, so with \<open>l1 = 0\<close> its guard is false.\<close>

primrec strstr_loop :: "mem \<Rightarrow> u64 \<Rightarrow> u64 \<Rightarrow> u64 \<Rightarrow> nat \<Rightarrow> u64" where
  "strstr_loop m s1 s2 l2 0 = 0"
| "strstr_loop m s1 s2 l2 (Suc l1) =
     (if unat l2 \<le> Suc l1
      then if memcmp m s1 s2 l2 = 0 then s1 else strstr_loop m (s1 + 1) s2 l2 l1
      else 0)"

definition strstr :: "mem \<Rightarrow> u64 \<Rightarrow> u64 \<Rightarrow> u64 option" where
  "strstr m s1 s2 =
     Option.bind (strlen m s2) (\<lambda>l2.
       if l2 = 0 then Some s1
       else Option.bind (strlen m s1) (\<lambda>l1. Some (strstr_loop m s1 s2 l2 (unat l1))))"

section \<open>What the block operations do\<close>

lemma memset_fold:
  fixes s :: u64
  assumes "k \<le> 2 ^ 64"
  shows "fold (\<lambda>i m. m(s + of_nat i := c)) [0..<k] m a = (if unat (a - s) < k then c else m a)"
  using assms
proof (induction k)
  case 0
  then show ?case by simp
next
  case (Suc k)
  have "a = s + of_nat k \<longleftrightarrow> unat (a - s) = k"
    by (rule offset_eq_iff) (use Suc.prems in simp)
  then show ?case
    using Suc by (auto simp: less_Suc_eq)
qed

lemma memset_apply [mem_simps]: "memset m s c n a = (if unat (a - s) < unat n then c else m a)"
  unfolding memset_def by (rule memset_fold [OF less_imp_le [OF unat_less_u64]])

lemma memmove_up_apply:
  assumes "unat (s - d) + n \<le> 2 ^ 64"
  shows "memmove_up m d s n a = (if unat (a - d) < n then m (s + (a - d)) else m a)"
  using assms
proof (induction n arbitrary: m d s)
  case 0
  then show ?case by simp
next
  case (Suc n)
  let ?m = "m(d := m s)"
  have IH: "memmove_up ?m (d + 1) (s + 1) n a
      = (if unat (a - (d + 1)) < n then ?m (s + (a - d)) else ?m a)"
    using Suc by (simp add: algebra_simps)
  show ?case
  proof (cases "a = d")
    case True
    have "\<not> unat (- 1 :: u64) < n"
      using Suc.prems by (simp add: unat_minus_one_eq)
    then show ?thesis
      using IH True by simp
  next
    case False
    then have u: "unat (a - d) = Suc (unat (a - (d + 1)))"
      by (rule unat_minus_Suc)
    have "s + (a - d) \<noteq> d" if "unat (a - (d + 1)) < n"
    proof
      assume "s + (a - d) = d"
      then have e: "a - d = - (s - d)"
        by (simp add: algebra_simps)
      then have "s - d \<noteq> 0"
        using False by auto
      then have "unat (a - d) + unat (s - d) = 2 ^ 64"
        unfolding e by (rule unat_uminus)
      with that u Suc.prems show False
        by simp
    qed
    then show ?thesis
      using IH False u by auto
  qed
qed

lemma memmove_down_apply:
  assumes "unat (d - s) + n \<le> 2 ^ 64"
  shows "memmove_down m d s n a = (if unat (a - (d - of_nat n)) < n then m (s + (a - d)) else m a)"
  using assms
proof (induction n arbitrary: m d s)
  case 0
  then show ?case by simp
next
  case (Suc n)
  define m' where "m' = m(d - 1 := m (s - 1))"
  have base: "d - 1 - of_nat n = d - of_nat (Suc n)"
    by (simp add: algebra_simps)
  have shift: "s - 1 + (a - (d - 1)) = s + (a - d)"
    by (simp add: algebra_simps)
  have IH: "memmove_down m' (d - 1) (s - 1) n a
      = (if unat (a - (d - of_nat (Suc n))) < n then m' (s + (a - d)) else m' a)"
    using Suc.IH [of "d - 1" "s - 1" m'] Suc.prems unfolding base shift by simp
  have n: "n < 2 ^ 64"
    using Suc.prems by simp
  have last: "a = d - 1 \<longleftrightarrow> unat (a - (d - of_nat (Suc n))) = n"
    using offset_eq_iff [OF n, of a "d - of_nat (Suc n)"] by simp
  have "s + (a - d) \<noteq> d - 1" if "unat (a - (d - of_nat (Suc n))) < n"
  proof
    assume "s + (a - d) = d - 1"
    then have e: "a - (d - of_nat (Suc n)) = (d - s) + of_nat n"
      by (simp add: algebra_simps)
    have "unat ((d - s) + of_nat n) = unat (d - s) + n"
      using Suc.prems n by (simp add: unat_word_ariths)
    with that show False
      unfolding e by simp
  qed
  then show ?case
    using IH last by (auto simp: less_Suc_eq m'_def [symmetric]) (auto simp: m'_def)
qed


lemma memcmp_loop_eq_0_iff:
  "memcmp_loop m a b 0 n = 0 \<longleftrightarrow> (\<forall>i < n. m (a + of_nat i) = m (b + of_nat i))"
proof (induction n arbitrary: a b)
  case 0
  then show ?case by simp
next
  case (Suc n)
  have "(\<forall>i < Suc n. m (a + of_nat i) = m (b + of_nat i))
      \<longleftrightarrow> m a = m b \<and> (\<forall>i < n. m (a + 1 + of_nat i) = m (b + 1 + of_nat i))"
    by (simp add: All_less_Suc2 ac_simps)
  then show ?case
    using Suc.IH [of "a + 1" "b + 1"] by (auto simp: word_uint_eq_iff Let_def)
qed

section \<open>Strings in memory\<close>

primrec cstr :: "mem \<Rightarrow> u64 \<Rightarrow> u8 list \<Rightarrow> bool" where
  "cstr m p [] \<longleftrightarrow> m p = 0"
| "cstr m p (c # s) \<longleftrightarrow> m p = c \<and> c \<noteq> 0 \<and> cstr m (p + 1) s"

primrec put :: "mem \<Rightarrow> u64 \<Rightarrow> u8 list \<Rightarrow> mem" where
  "put m p [] = m"
| "put m p (b # bs) = put (m(p := b)) (p + 1) bs"

definition span :: "u64 \<Rightarrow> nat \<Rightarrow> u64 set" where
  "span p n = (\<lambda>i. p + of_nat i) ` {..<n}"

text \<open>The first position at which \<open>t\<close> occurs in \<open>s\<close>.\<close>

primrec first_occ :: "'a list \<Rightarrow> 'a list \<Rightarrow> nat option" where
  "first_occ t [] = (if t = [] then Some 0 else None)"
| "first_occ t (c # s) = (if prefix t (c # s) then Some 0 else map_option Suc (first_occ t s))"

lemma span_0 [simp]: "span p 0 = {}"
  by (simp add: span_def)

lemma span_Suc: "span p (Suc n) = insert p (span (p + 1) n)"
proof -
  have "{..<Suc n} = insert 0 (Suc ` {..<n})"
    by (simp add: lessThan_Suc_eq_insert_0)
  then show ?thesis
    by (simp add: span_def image_image ac_simps)
qed

lemma in_span_iff: "n \<le> 2 ^ 64 \<Longrightarrow> a \<in> span p n \<longleftrightarrow> unat (a - p) < n"
  unfolding span_def
proof (intro iffI)
  assume n: "n \<le> 2 ^ 64" and "a \<in> (\<lambda>i. p + of_nat i) ` {..<n}"
  then obtain i where "i < n" "a = p + of_nat i"
    by auto
  with n show "unat (a - p) < n"
    by (simp add: offset_eq_iff)
next
  assume n: "n \<le> 2 ^ 64" and "unat (a - p) < n"
  then show "a \<in> (\<lambda>i. p + of_nat i) ` {..<n}"
    by (auto intro!: image_eqI [of _ _ "unat (a - p)"])
qed

lemma cstr_nth: "cstr m p s \<Longrightarrow> i < length s \<Longrightarrow> m (p + of_nat i) = s ! i \<and> s ! i \<noteq> 0"
  by (induction s arbitrary: p i) (auto simp: less_Suc_eq_0_disj simp flip: add.assoc)

lemma cstr_nul: "cstr m p s \<Longrightarrow> m (p + of_nat (length s)) = 0"
  by (induction s arbitrary: p) (auto simp flip: add.assoc)

lemma cstr_no_nul: "cstr m p s \<Longrightarrow> 0 \<notin> set s"
  by (induction s arbitrary: p) auto

text \<open>A stored string is shorter than the address space: its NUL is not one of its characters.\<close>

lemma cstr_length:
  assumes "cstr m p s"
  shows "length s < 2 ^ 64"
proof (rule ccontr)
  assume "\<not> length s < 2 ^ 64"
  then obtain j where j: "length s = j + 2 ^ 64"
    by (metis add.commute le_add_diff_inverse linorder_not_le)
  have "(of_nat (j + 2 ^ 64) :: u64) = of_nat j"
    by (simp only: of_nat_add) simp
  then have "m (p + of_nat j) = 0"
    using cstr_nul [OF assms] unfolding j by metis
  moreover have "j < length s"
    by (simp add: j)
  ultimately show False
    using cstr_nth [OF assms, of j] by auto
qed

lemma cstr_cong: "(\<And>a. a \<in> span p (Suc (length s)) \<Longrightarrow> m' a = m a) \<Longrightarrow> cstr m' p s = cstr m p s"
proof (induction s arbitrary: p)
  case Nil
  then show ?case by (simp add: span_Suc)
next
  case (Cons c s)
  have "cstr m' (p + 1) s = cstr m (p + 1) s"
    using Cons.prems by (intro Cons.IH) (simp add: span_Suc)
  then show ?case
    using Cons.prems [of p] by (simp add: span_Suc)
qed

lemma cstr_upd: "q \<notin> span p (Suc (length s)) \<Longrightarrow> cstr (m(q := c)) p s = cstr m p s"
  by (rule cstr_cong) auto

lemma put_other: "a \<notin> span p (length bs) \<Longrightarrow> put m p bs a = m a"
  by (induction bs arbitrary: m p) (auto simp: span_Suc)


lemma cstr_put:
  assumes "length s < 2 ^ 64" and "0 \<notin> set s"
  shows "cstr (put m p (s @ [0])) p s"
  using assms
proof (induction s arbitrary: m p)
  case Nil
  then show ?case by simp
next
  case (Cons c s)
  have "p \<notin> span (p + 1) (length (s @ [0]))"
    using Cons.prems(1) by (subst in_span_iff) (auto simp: unat_minus_one_eq)
  then have "put (m(p := c)) (p + 1) (s @ [0]) p = c"
    using put_other [of p "p + 1" "s @ [0]" "m(p := c)"] by simp
  then show ?case
    using Cons by simp
qed

lemma strlen_loop_cstr: "cstr m p s \<Longrightarrow> strlen_loop m p k = Some (k + of_nat (length s))"
proof (induction s arbitrary: p k)
  case Nil
  then show ?case by (simp add: strlen_loop.simps)
next
  case (Cons c s)
  then show ?case by (subst strlen_loop.simps) (auto simp: ac_simps)
qed

lemma strlen_cstr: "cstr m p s \<Longrightarrow> strlen m p = Some (of_nat (length s))"
  by (simp add: strlen_def strlen_loop_cstr)

lemma strcat_end_cstr: "cstr m p s \<Longrightarrow> strcat_end m p = Some (p + of_nat (length s))"
proof (induction s arbitrary: p)
  case Nil
  then show ?case by (simp add: strcat_end.simps)
next
  case (Cons c s)
  then show ?case by (subst strcat_end.simps) (auto simp: ac_simps)
qed

lemma strcat_copy_cstr:
  assumes "cstr m src s" and "span p (Suc (length s)) \<inter> span src (Suc (length s)) = {}"
  shows "strcat_copy m p src = Some (put m p (s @ [0]))"
  using assms
proof (induction s arbitrary: m p src)
  case Nil
  then show ?case by (simp add: strcat_copy.simps fun_upd_def)
next
  case (Cons c s)
  have disj: "span (p + 1) (Suc (length s)) \<inter> span (src + 1) (Suc (length s)) = {}"
    and p: "p \<notin> span (src + 1) (Suc (length s))"
    using Cons.prems(2) by (auto simp: span_Suc [of p] span_Suc [of src])
  have "cstr (m(p := c)) (src + 1) s"
    using Cons.prems(1) p by (simp add: cstr_upd)
  then have "strcat_copy (m(p := c)) (p + 1) (src + 1) = Some (put (m(p := c)) (p + 1) (s @ [0]))"
    using disj by (rule Cons.IH)
  then show ?case
    using Cons.prems(1) by (subst strcat_copy.simps) simp
qed

lemma strcat_cstr:
  assumes "cstr m dest s" and "cstr m src t"
    and "span (dest + of_nat (length s)) (Suc (length t)) \<inter> span src (Suc (length t)) = {}"
  shows "strcat m dest src = Some (put m (dest + of_nat (length s)) (t @ [0]))"
  using strcat_end_cstr [OF assms(1)] strcat_copy_cstr [OF assms(2,3)] by (simp add: strcat_def)

lemma strcpy_cstr:
  assumes "cstr m src s" and "span dest (Suc (length s)) \<inter> span src (Suc (length s)) = {}"
  shows "strcpy m dest src = Some (put (m(dest := 0)) dest (s @ [0]))"
proof -
  have "cstr (m(dest := 0)) src s"
    using assms by (subst cstr_upd) (auto simp: span_Suc [of dest])
  then have "strcat_copy (m(dest := 0)) dest src = Some (put (m(dest := 0)) dest (s @ [0]))"
    using assms(2) by (rule strcat_copy_cstr)
  then show ?thesis
    by (simp add: strcpy_def strcat_def strcat_end.simps)
qed

lemma strncmp_loop_eq_0_iff:
  "cstr m a s \<Longrightarrow> cstr m b t \<Longrightarrow> strncmp_loop m a b n = 0 \<longleftrightarrow> take n s = take n t"
proof (induction n arbitrary: a b s t)
  case 0
  then show ?case by simp
next
  case (Suc n)
  show ?case
  proof (cases s; cases t)
    fix c s' d t'
    assume st: "s = c # s'" "t = d # t'"
    show ?thesis
      using Suc.IH [of "a + 1" s' "b + 1" t'] Suc.prems st by (auto dest: signed_word_eqI)
  qed (use Suc.prems in \<open>auto simp: signed_eq_0_iff\<close>)
qed


lemma strncmp_cstr:
  "cstr m a s \<Longrightarrow> cstr m b t \<Longrightarrow> strncmp m a b n = 0 \<longleftrightarrow> take (unat n) s = take (unat n) t"
  by (simp add: strncmp_def strncmp_loop_eq_0_iff)

lemma strcmp_cstr:
  assumes "cstr m a s" and "cstr m b t"
  shows "strcmp m a b = 0 \<longleftrightarrow> s = t"
proof -
  have "unat SIZE_MAX = 2 ^ 64 - 1"
    by (simp add: SIZE_MAX_def unat_minus_one_eq)
  then show ?thesis
    using strncmp_cstr [OF assms] cstr_length [OF assms(1)] cstr_length [OF assms(2)]
    by (simp add: strcmp_def)
qed

lemma strchr_loop_cstr:
  assumes "c \<noteq> 0"
  shows "cstr m p s \<Longrightarrow> strchr_loop m p c =
    Some (case first_occ [c] s of None \<Rightarrow> 0 | Some i \<Rightarrow> p + of_nat i)"
proof (induction s arbitrary: p)
  case Nil
  then show ?case using assms by (simp add: strchr_loop.simps)
next
  case (Cons d s)
  then show ?case
    by (subst strchr_loop.simps) (auto split: option.splits simp: ac_simps)
qed

lemma memcmp_cstr:
  assumes "cstr m a s" and "cstr m b t" and "length t \<le> length s"
  shows "memcmp m a b (of_nat (length t)) = 0 \<longleftrightarrow> prefix t s"
proof -
  have "unat (of_nat (length t) :: u64) = length t"
    using cstr_length [OF assms(2)] by simp
  then have "memcmp m a b (of_nat (length t)) = 0
      \<longleftrightarrow> (\<forall>i < length t. m (a + of_nat i) = m (b + of_nat i))"
    by (simp add: memcmp_def memcmp_loop_eq_0_iff)
  also have "\<dots> \<longleftrightarrow> (\<forall>i < length t. s ! i = t ! i)"
    using cstr_nth [OF assms(1)] cstr_nth [OF assms(2)] assms(3) by auto
  also have "\<dots> \<longleftrightarrow> prefix t s"
    using assms(3) by (auto simp: prefix_def list_eq_iff_nth_eq nth_append
        intro!: exI [of _ "drop (length t) s"])
  finally show ?thesis .
qed

lemma first_occ_short: "length s < length t \<Longrightarrow> first_occ t s = None"
  by (induction s) (auto dest: prefix_length_le)

lemma strstr_loop_cstr:
  assumes "cstr m b t" and "t \<noteq> []"
  shows "cstr m a s \<Longrightarrow> strstr_loop m a b (of_nat (length t)) (length s)
    = (case first_occ t s of None \<Rightarrow> 0 | Some i \<Rightarrow> a + of_nat i)"
proof (induction s arbitrary: a)
  case Nil
  then show ?case using assms(2) by simp
next
  case (Cons c s)
  have l: "unat (of_nat (length t) :: u64) = length t"
    using cstr_length [OF assms(1)] by simp
  show ?case
  proof (cases "length t \<le> Suc (length s)")
    case True
    then show ?thesis
      using Cons memcmp_cstr [OF Cons.prems assms(1)] by (auto simp: l ac_simps split: option.splits)
  next
    case False
    then show ?thesis
      using first_occ_short [of "c # s" t] by (auto simp: l)
  qed
qed

lemma strstr_cstr:
  assumes "cstr m a s" and "cstr m b t"
  shows "strstr m a b = Some (case first_occ t s of None \<Rightarrow> 0 | Some i \<Rightarrow> a + of_nat i)"
proof (cases t)
  case Nil
  then have "first_occ t s = Some 0"
    by (cases s) auto
  then show ?thesis
    using Nil strlen_cstr [OF assms(2)] by (simp add: strstr_def)
next
  case (Cons c t')
  have nz: "(of_nat (length t) :: u64) \<noteq> 0"
    using of_nat_eq_0_iff_u64 [OF cstr_length [OF assms(2)]] Cons by (simp only:) simp
  have l: "unat (of_nat (length s) :: u64) = length s"
    using cstr_length [OF assms(1)] by simp
  show ?thesis
    using strlen_cstr [OF assms(2)] strlen_cstr [OF assms(1)] nz l Cons
      strstr_loop_cstr [OF assms(2) _ assms(1)] by (simp add: strstr_def)
qed

lemma first_occ_Some_iff:
  "first_occ t s = Some i \<longleftrightarrow> prefix t (drop i s) \<and> i \<le> length s \<and> (\<forall>j < i. \<not> prefix t (drop j s))"
proof (induction s arbitrary: i)
  case Nil
  then show ?case by auto
next
  case (Cons c s)
  show ?case
    using Cons.IH by (cases i) (auto simp: All_less_Suc2)
qed

lemma first_occ_None_iff: "first_occ t s = None \<longleftrightarrow> \<not> sublist t s"
  by (induction s) (auto simp: sublist_Cons_right)

section \<open>Properties\<close>

text \<open>
  \<open>memmove\<close> copies correctly whether or not the two blocks overlap: every byte of the
  destination block gets the byte the source block held before the call, and no other byte
  changes, for any two blocks that do not run past the end of the address space.
\<close>

theorem memmove_overlap_safe:
  assumes "unat dest + unat n \<le> 2 ^ 64" and "unat src + unat n \<le> 2 ^ 64"
  shows "memmove m dest src n a = (if unat (a - dest) < unat n then m (src + (a - dest)) else m a)"
proof (cases "dest \<le> src")
  case True
  then have "unat (src - dest) + unat n \<le> 2 ^ 64"
    using assms by (simp add: unat_sub)
  then show ?thesis
    using True by (simp add: memmove_def memmove_up_apply)
next
  case False
  then have "unat (dest + n - (src + n)) + unat n \<le> 2 ^ 64"
    using assms by (simp add: unat_sub)
  then show ?thesis
    using False memmove_down_apply [of "dest + n" "src + n" "unat n" m a]
    by (simp add: memmove_def algebra_simps)
qed

text \<open>
  on two strings stored in memory \<open>strstr\<close> returns, and what it returns is the address of the
  first occurrence of the second string in the first, or NULL exactly when there is none.
\<close>

theorem strstr_first_occurrence:
  assumes "cstr m a s" and "cstr m b t"
  shows "strstr m a b = Some (case first_occ t s of None \<Rightarrow> 0 | Some i \<Rightarrow> a + of_nat i)
    \<and> (first_occ t s = None \<longleftrightarrow> \<not> sublist t s)
    \<and> (\<forall>i. first_occ t s = Some i
          \<longleftrightarrow> prefix t (drop i s) \<and> i \<le> length s \<and> (\<forall>j < i. \<not> prefix t (drop j s)))"
  using strstr_cstr [OF assms] by (simp_all add: first_occ_None_iff first_occ_Some_iff)

text \<open>
  copying a string with \<open>strcpy\<close> to a block that does not overlap it returns, leaves an
  equal string at the destination and changes no byte outside the destination block.
\<close>

theorem strcpy_copies:
  assumes "cstr m src s" and "span dest (Suc (length s)) \<inter> span src (Suc (length s)) = {}"
  shows "\<exists>m'. strcpy m dest src = Some m' \<and> cstr m' dest s
    \<and> (\<forall>a. a \<notin> span dest (Suc (length s)) \<longrightarrow> m' a = m a)"
proof (intro exI conjI)
  show "strcpy m dest src = Some (put (m(dest := 0)) dest (s @ [0]))"
    using assms by (rule strcpy_cstr)
  show "cstr (put (m(dest := 0)) dest (s @ [0])) dest s"
    using cstr_length [OF assms(1)] cstr_no_nul [OF assms(1)] by (rule cstr_put)
  show "\<forall>a. a \<notin> span dest (Suc (length s)) \<longrightarrow> put (m(dest := 0)) dest (s @ [0]) a = m a"
    by (auto simp: put_other span_Suc)
qed

section \<open>Blocks of memory as lists\<close>

definition bytes_at :: "mem \<Rightarrow> u64 \<Rightarrow> nat \<Rightarrow> u8 list" where
  "bytes_at m p n = map (\<lambda>i. m (p + of_nat i)) [0..<n]"

lemma length_bytes_at [simp]: "length (bytes_at m p n) = n"
  by (simp add: bytes_at_def)

lemma bytes_at_0 [simp]: "bytes_at m p 0 = []"
  by (simp add: bytes_at_def)

lemma bytes_at_Suc: "bytes_at m p (Suc n) = m p # bytes_at m (p + 1) n"
  by (rule nth_equalityI) (auto simp: bytes_at_def nth_Cons ac_simps split: nat.split simp del: upt_Suc)

lemma bytes_at_add: "bytes_at m p (k + n) = bytes_at m p k @ bytes_at m (p + of_nat k) n"
  by (induction k arbitrary: p) (simp_all add: bytes_at_Suc ac_simps)

lemma bytes_at_cong: "(\<And>i. i < n \<Longrightarrow> m' (p + of_nat i) = m (p + of_nat i)) \<Longrightarrow> bytes_at m' p n = bytes_at m p n"
  by (simp add: bytes_at_def)

lemma bytes_at_nth: "bytes_at m p n = bs \<Longrightarrow> i < n \<Longrightarrow> m (p + of_nat i) = bs ! i"
  by (auto simp: bytes_at_def)

lemma bytes_at_append:
  assumes "bytes_at m p (length (xs @ ys)) = xs @ ys"
  shows "bytes_at m p (length xs) = xs" and "bytes_at m (p + of_nat (length xs)) (length ys) = ys"
  using assms by (simp_all add: bytes_at_add)

lemma bytes_at_put: "length bs \<le> 2 ^ 64 \<Longrightarrow> bytes_at (put m p bs) p (length bs) = bs"
proof (induction bs arbitrary: m p)
  case (Cons b bs)
  have "p \<notin> span (p + 1) (length bs)"
    using Cons.prems by (subst in_span_iff) (simp_all add: unat_minus_one_eq)
  then show ?case
    using Cons by (simp add: bytes_at_Suc put_other)
qed simp

lemma bytes_at_cstr: "cstr m p bs \<Longrightarrow> bytes_at m p (length bs) = bs"
  using cstr_nth [of m p bs] by (auto simp: bytes_at_def intro!: nth_equalityI)

lemma cstr_bytes_at: "bytes_at m p (Suc (length bs)) = bs @ [0] \<Longrightarrow> 0 \<notin> set bs \<Longrightarrow> cstr m p bs"
  by (induction bs arbitrary: p) (auto simp: bytes_at_Suc)

end
