(* ===== verification/Cstring.thy ===== *)
theory Cstring
  imports Cmem
begin

text \<open>
  The text utilities built on the string primitives: \<open>atol\<close>, \<open>getenv\<close> and \<open>simple_glob\<close> of
  \<^verbatim>\<open>lib/string.c\<close>, \<open>parse_keyval\<close> of \<^verbatim>\<open>lib/util.c\<close> and the errata switches of \<^verbatim>\<open>lib/errata.h\<close>. A
  \<^verbatim>\<open>char *\<close> is represented by the characters from the pointer up to the NUL (the \<open>s\<close> of \<open>cstr\<close>), so
  a test \<^verbatim>\<open>strncmp(a, b, n) == 0\<close> is \<open>take n a = take n b\<close>, \<^verbatim>\<open>strcmp\<close> is equality, \<^verbatim>\<open>strchr\<close> and \<^verbatim>\<open>strstr\<close>
  are \<open>first_occ\<close>, as \<open>strncmp_cstr\<close>, \<open>strcmp_cstr\<close>, \<open>strchr_loop_cstr\<close> and \<open>strstr_cstr\<close> show.
\<close>

section \<open>Characters\<close>

abbreviation NUL :: char where
  "NUL \<equiv> CHR 0x00"

text \<open>The value of a signed \<^verbatim>\<open>char\<close>.\<close>

definition cval :: "char \<Rightarrow> int" where
  "cval c = (let n = of_char c in if n < 128 then n else n - 256)"

text \<open>\<^verbatim>\<open>*s\<close>: the character a pointer into a NUL-terminated string designates.\<close>

definition cur :: "string \<Rightarrow> char" where
  "cur s = (case s of [] \<Rightarrow> NUL | c # _ \<Rightarrow> c)"

section \<open>The library functions\<close>

fun atol_digits :: "u64 \<Rightarrow> string \<Rightarrow> u64" where
  "atol_digits acc [] = acc"
| "atol_digits acc (c # s) =
     (if cval c < 48 \<or> cval c > 57 then acc
      else atol_digits (acc * 10 + word_of_int (cval c - 48)) s)"

definition atol :: "string \<Rightarrow> u64" where
  "atol ptr =
     (let s = dropWhile (\<lambda>c. c = CHR '' '' \<or> c = CHR 0x09) ptr;
          neg = (cur s = CHR ''-'');
          s = (if neg then tl s else if cur s = CHR ''+'' then tl s else s);
          acc = atol_digits 0 s
      in if neg then - acc else acc)"

fun getenv :: "string list \<Rightarrow> string \<Rightarrow> string option" where
  "getenv [] name = None"
| "getenv (e # envp) name =
     (case first_occ ''='' e of
        Some delim \<Rightarrow> if take delim name = take delim e then Some (drop (Suc delim) e) else getenv envp name
      | None \<Rightarrow> getenv envp name)"

definition simple_glob :: "string \<Rightarrow> string \<Rightarrow> bool" where
  "simple_glob text pattern0 =
     (let star_start = (cur pattern0 = CHR ''*'');
          pattern = (if star_start then tl pattern0 else pattern0);
          n0 = length pattern;
          star_end = (n0 > 0 \<and> pattern ! (n0 - 1) = CHR ''*'');
          copy = (if star_end then take (n0 - 1) pattern else pattern);
          n = (if star_end then n0 - 1 else n0)
      in if star_start \<and> star_end then first_occ copy text \<noteq> None
         else if star_end then first_occ copy text = Some 0
         else if star_start then
           (if n > length text then False else drop (length text - n) text = copy)
         else text = copy)"

text \<open>\<open>parse_keyval\<close> returns the offset of the \<^verbatim>\<open>=\<close> and the number after it, or \<open>- 1\<close> and no number.\<close>

definition parse_keyval :: "string \<Rightarrow> int \<times> u64 option" where
  "parse_keyval s =
     (case first_occ ''='' s of
        None \<Rightarrow> (- 1, None)
      | Some p \<Rightarrow> (int p, Some (atol (drop (p + 1) s))))"

definition errata_yes :: "string option \<Rightarrow> bool" where
  "errata_yes s = (case s of None \<Rightarrow> False
     | Some v \<Rightarrow> cur v = CHR ''1'' \<or> cur v = CHR ''y'' \<or> cur v = CHR ''Y'')"

text \<open>\<open>cfg\<close> is the build-time constant \<^verbatim>\<open>CONFIG_ERRATA_FORCE == 1\<close>.\<close>

definition errata_force :: "bool \<Rightarrow> string list \<Rightarrow> bool" where
  "errata_force cfg environ = (if cfg then True else errata_yes (getenv environ ''ERRATA_FORCE''))"

definition errata :: "bool \<Rightarrow> string list \<Rightarrow> string \<Rightarrow> bool" where
  "errata cfg environ erratum =
     (if errata_force cfg environ then True else errata_yes (getenv environ erratum))"

definition errata_relaxed :: "bool \<Rightarrow> string list \<Rightarrow> string \<Rightarrow> bool" where
  "errata_relaxed cfg environ erratum =
     (if errata_force cfg environ then True
      else \<not> (case getenv environ erratum of None \<Rightarrow> False
            | Some v \<Rightarrow> cur v = CHR ''0'' \<or> cur v = CHR ''n'' \<or> cur v = CHR ''N''))"

section \<open>Environment lookup\<close>

text \<open>The key of an environment entry is the text before its first \<^verbatim>\<open>=\<close>.\<close>

definition env_key :: "string \<Rightarrow> string" where
  "env_key e = takeWhile (\<lambda>c. c \<noteq> CHR ''='') e"

definition env_val :: "string \<Rightarrow> string" where
  "env_val e = tl (dropWhile (\<lambda>c. c \<noteq> CHR ''='') e)"

lemma first_occ_singleton:
  "first_occ [c] s = (if c \<in> set s then Some (length (takeWhile (\<lambda>d. d \<noteq> c) s)) else None)"
  by (induction s) auto

lemma getenv_Cons:
  "getenv (e # es) name =
     (if CHR ''='' \<in> set e \<and> prefix (env_key e) name then Some (env_val e) else getenv es name)"
proof (cases "CHR ''='' \<in> set e")
  case True
  let ?d = "length (env_key e)"
  have "take ?d e = env_key e"
    by (simp add: env_key_def takeWhile_eq_take [symmetric])
  moreover have "drop (Suc ?d) e = env_val e"
    by (simp add: env_key_def env_val_def dropWhile_eq_drop drop_Suc tl_drop)
  moreover have "take ?d name = env_key e \<longleftrightarrow> prefix (env_key e) name"
    by (metis append_eq_conv_conj prefix_def take_is_prefix)
  ultimately show ?thesis
    using True by (simp add: first_occ_singleton env_key_def)
next
  case False
  then show ?thesis
    by (simp add: first_occ_singleton)
qed

text \<open>
  \<open>getenv\<close> returns the value of the first entry whose key is a \<^emph>\<open>prefix\<close> of the requested name:
  the comparison is bounded by the key's length and never looks at the rest of the name.
\<close>

lemma getenv_find:
  "getenv es name =
     map_option env_val (List.find (\<lambda>e. CHR ''='' \<in> set e \<and> prefix (env_key e) name) es)"
proof (induction es)
  case Nil
  then show ?case by simp
next
  case (Cons e es)
  then show ?case by (simp only: getenv_Cons) simp
qed

section \<open>Glob matching\<close>

lemma first_occ_0_iff: "first_occ t s = Some 0 \<longleftrightarrow> prefix t s"
  by (simp add: first_occ_Some_iff)

definition glob_core :: "string \<Rightarrow> string" where
  "glob_core pat =
     (let p = (if prefix ''*'' pat then tl pat else pat) in if suffix ''*'' p then butlast p else p)"

definition glob_stars :: "string \<Rightarrow> bool \<times> bool" where
  "glob_stars pat = (prefix ''*'' pat, suffix ''*'' (if prefix ''*'' pat then tl pat else pat))"

lemma cur_star_iff: "cur s = CHR ''*'' \<longleftrightarrow> prefix ''*'' s"
  by (cases s) (auto simp: cur_def)

lemma last_star_iff: "0 < length s \<and> s ! (length s - 1) = CHR ''*'' \<longleftrightarrow> suffix ''*'' s"
  by (cases s rule: rev_cases) (auto simp: suffix_def)

lemma simple_glob_iff:
  "simple_glob text pat \<longleftrightarrow>
     (\<exists>a b. text = a @ glob_core pat @ b \<and> (a = [] \<or> fst (glob_stars pat)) \<and> (b = [] \<or> snd (glob_stars pat)))"
proof -
  define p where "p = (if prefix ''*'' pat then tl pat else pat)"
  define ss where "ss = prefix ''*'' pat"
  define se where "se = suffix ''*'' p"
  define core where "core = (if se then butlast p else p)"
  have spec: "glob_core pat = core" "fst (glob_stars pat) = ss" "snd (glob_stars pat) = se"
    by (simp_all add: glob_core_def glob_stars_def core_def se_def p_def ss_def Let_def)
  have "simple_glob text pat =
     (if ss \<and> se then first_occ core text \<noteq> None
      else if se then first_occ core text = Some 0
      else if ss then (if length core > length text then False else drop (length text - length core) text = core)
      else text = core)"
    unfolding simple_glob_def cur_star_iff Let_def last_star_iff
    by (cases "prefix ''*'' pat"; cases "suffix ''*'' p")
      (simp_all add: p_def ss_def se_def core_def butlast_conv_take)
  moreover have "(\<not> length core > length text \<and> drop (length text - length core) text = core) = suffix core text"
    by (auto simp: suffix_def) (metis append_take_drop_id)
  ultimately show ?thesis
    unfolding spec by (auto simp: first_occ_0_iff first_occ_None_iff sublist_def prefix_def suffix_def)
qed

section \<open>Properties\<close>

text \<open>
  \<open>simple_glob\<close> decides glob matching with a star allowed at either end of the pattern: the
  text matches when it is the pattern without its stars, preceded by anything if the pattern
  starts with a star and followed by anything if it ends with one.
\<close>

theorem simple_glob_correct:
  "simple_glob text pat \<longleftrightarrow>
     (\<exists>a b. text = a @ glob_core pat @ b \<and> (a = [] \<or> fst (glob_stars pat)) \<and> (b = [] \<or> snd (glob_stars pat)))"
  by (rule simple_glob_iff)

text \<open>
  \<open>getenv\<close> returns the value of the first entry whose key is a prefix of the requested name.
  In particular a variable that is not set is found when an entry's key is a proper prefix of it.
\<close>

theorem getenv_first_key_prefix:
  "getenv es name =
     map_option env_val (List.find (\<lambda>e. CHR ''='' \<in> set e \<and> prefix (env_key e) name) es)
   \<and> getenv [''MEM=64''] ''MEMSIZE'' = Some ''64''"
  by (rule conjI, rule getenv_find) (simp add: first_occ_singleton)

end
