(* ===== verification/Printf.thy ===== *)
theory Printf
  imports Cstring
begin

text \<open>
  The formatted output of \<^verbatim>\<open>lib/printf.c\<close>. A \<open>pstream\<close> holds the write pointer into the memory, the
  room left and the count of characters produced; every conversion goes through \<open>addchar\<close>.
  The reference \<open>vtext\<close> is the text a format and its arguments denote, and the refinement
  lemmas show that \<open>vsnprintf\<close> stores a truncated copy of it and returns its full length, as far as this is an \<^verbatim>\<open>int\<close>.
  The stream counters are of the C type \<^verbatim>\<open>int\<close>: \<open>s32\<close> reduces every result to 32 bits in two's complement, also where C leaves the overflow
  undefined. The pad width, which mixes \<^verbatim>\<open>int\<close> and \<^verbatim>\<open>size_t\<close> arithmetic, is reduced in the same way.
\<close>

section \<open>Streams\<close>

record pstream =
  ps_mem :: mem
  ps_buffer :: u64
  ps_remain :: int
  ps_added :: int

record strprops =
  pad :: char
  npad :: int
  alternate :: bool

definition s32 :: "int \<Rightarrow> int" where
  "s32 i = signed_take_bit 31 i"

definition byte :: "char \<Rightarrow> u8" where
  "byte c = of_nat (of_char c)"

definition addchar :: "pstream \<Rightarrow> char \<Rightarrow> pstream" where
  "addchar p c =
     (let p = (if ps_remain p \<noteq> 0
               then p\<lparr>ps_mem := (ps_mem p)(ps_buffer p := byte c), ps_buffer := ps_buffer p + 1,
                      ps_remain := s32 (ps_remain p - 1)\<rparr>
               else p)
      in p\<lparr>ps_added := s32 (ps_added p + 1)\<rparr>)"

definition addchars :: "pstream \<Rightarrow> string \<Rightarrow> pstream" where
  "addchars p s = foldl addchar p s"

definition print_str :: "pstream \<Rightarrow> string \<Rightarrow> strprops \<Rightarrow> pstream" where
  "print_str p s props =
     (let n = npad props;
          k = (if n > 0 then s32 (n - int (length s)) else n);
          p = (if n > 0 then addchars p (replicate (nat k) (pad props)) else p);
          n = (if n > 0 \<and> k > 0 then 0 else k);
          p = addchars p s
      in if n < 0 then addchars p (replicate (nat (- s32 (n + int (length s)))) (CHR '' '')) else p)"

section \<open>Numbers\<close>

definition digits :: string where
  "digits = ''0123456789abcdef''"

text \<open>
  The loop \<^verbatim>\<open>while (n)\<close> that stores the digits, least significant first. The callers' bases
  are 10 and 16; below 2 the C loop would not end.
\<close>

fun digit_loop :: "nat \<Rightarrow> nat \<Rightarrow> string" where
  "digit_loop base n =
     (if n = 0 \<or> base < 2 then [] else digits ! (n mod base) # digit_loop base (n div base))"

declare digit_loop.simps [simp del]

text \<open>The loop that swaps \<^verbatim>\<open>buf[i]\<close> and \<^verbatim>\<open>p[-1-i]\<close> over the first half of the buffer.\<close>

definition swap_ends :: "string \<Rightarrow> nat \<Rightarrow> string" where
  "swap_ends buf i =
     (let tmp = buf ! i in buf[i := buf ! (length buf - 1 - i), length buf - 1 - i := tmp])"

definition reverse_buf :: "string \<Rightarrow> string" where
  "reverse_buf buf = foldl swap_ends buf [0..<length buf div 2]"

definition print_int :: "pstream \<Rightarrow> int \<Rightarrow> nat \<Rightarrow> strprops \<Rightarrow> pstream outcome" where
  "print_int ps n base props =
     (if n = - (2 ^ 63) then Abort ''signed overflow in -n''
      else
        let s = (n < 0);
            n = (if s then - n else n);
            buf = digit_loop base (nat n);
            buf = (if s then buf @ ''-'' else buf);
            buf = (if buf = [] then ''0'' else buf)
        in Ret (print_str ps (reverse_buf buf) props))"

definition print_unsigned :: "pstream \<Rightarrow> nat \<Rightarrow> nat \<Rightarrow> strprops \<Rightarrow> pstream" where
  "print_unsigned ps n base props =
     (let buf = digit_loop base n
      in if buf = [] then print_str ps (reverse_buf ''0'') props
         else if alternate props \<and> base = 16 then
           if pad props = CHR ''0'' then
             let ps = addchar (addchar ps (CHR ''0'')) (CHR ''x'');
                 props = (if npad props > 0 then props\<lparr>npad := max (npad props - 2) 0\<rparr> else props)
             in print_str ps (reverse_buf buf) props
           else print_str ps (reverse_buf (buf @ ''x0'')) props
         else print_str ps (reverse_buf buf) props)"

section \<open>The format loop\<close>

text \<open>
  A \<^verbatim>\<open>va_list\<close> is the list of its 8-byte slots: an integer or pointer value, or a pointer to a
  string, given by its characters. Reading a slot that is missing or of the other kind is
  undefined in C and stops the model.
\<close>

datatype vararg = VInt u64 | VStr string

definition va_int :: "nat \<Rightarrow> u64 \<Rightarrow> int" where
  "va_int nlong w = (if nlong = 0 then sint (ucast w :: u32) else sint w)"

definition va_unsigned :: "nat \<Rightarrow> u64 \<Rightarrow> nat" where
  "va_unsigned nlong w = (if nlong = 0 then unat (ucast w :: u32) else unat w)"

definition is_digit :: "char \<Rightarrow> bool" where
  "is_digit c = (cval c \<ge> 48 \<and> cval c \<le> 57)"

definition fmtnum :: "string \<Rightarrow> int \<times> string" where
  "fmtnum fmt =
     (let neg = (cur fmt = CHR ''-'');
          f = (if neg then tl fmt else fmt);
          len = (if neg then 1 else 0) + length (takeWhile is_digit f)
      in (s32 (sint (atol fmt)), drop len fmt))"

definition props0 :: strprops where
  "props0 = \<lparr>pad = CHR '' '', npad = 0, alternate = False\<rparr>"

text \<open>One conversion letter, with its argument: \<open>conv\<close> returns the stream and the remaining slots.\<close>

definition conv ::
  "char \<Rightarrow> nat \<Rightarrow> strprops \<Rightarrow> vararg list \<Rightarrow> pstream \<Rightarrow> (pstream \<times> vararg list) outcome" where
  "conv f nlong props va s =
     (if f = CHR ''%'' then Ret (addchar s (CHR ''%''), va)
      else if f \<in> {CHR ''c'', CHR ''d'', CHR ''u'', CHR ''x'', CHR ''p''} then
        (case va of
           VInt w # va' \<Rightarrow>
             if f = CHR ''c'' then Ret (addchar s (char_of (unat w)), va')
             else if f = CHR ''d'' then
               bind_outcome (print_int s (va_int nlong w) 10 props) (\<lambda>s. Ret (s, va'))
             else if f = CHR ''u'' then Ret (print_unsigned s (va_unsigned nlong w) 10 props, va')
             else if f = CHR ''x'' then Ret (print_unsigned s (va_unsigned nlong w) 16 props, va')
             else Ret (print_unsigned s (unat w) 16 (props\<lparr>alternate := True\<rparr>), va')
         | _ \<Rightarrow> Abort ''va_arg'')
      else if f = CHR ''s'' then
        (case va of VStr t # va' \<Rightarrow> Ret (print_str s t props, va') | _ \<Rightarrow> Abort ''va_arg'')
      else Ret (addchar s f, va))"

lemma fmtnum_shorter:
  "length (snd (fmtnum fmt)) \<le> length fmt"
  "is_digit f \<or> f = CHR ''-'' \<Longrightarrow> length (snd (fmtnum (f # fmt))) \<le> length fmt"
  by (auto simp: fmtnum_def cur_def Let_def)

lemma fmtnum_measure:
  "2 * length (snd (fmtnum fmt)) \<le> Suc (2 * length fmt)"
  "is_digit f \<or> f = CHR ''-'' \<Longrightarrow> 2 * length (snd (fmtnum (f # fmt))) \<le> Suc (2 * length fmt)"
  using fmtnum_shorter(1) [of fmt] fmtnum_shorter(2) [of f fmt] by linarith+

text \<open>
  \<open>vsn_loop\<close> is the loop \<^verbatim>\<open>while (*fmt)\<close> of \<open>vsnprintf\<close>, \<open>morefmt\<close> the code from the label
  \<^verbatim>\<open>morefmt\<close> on.
\<close>

function vsn_loop :: "string \<Rightarrow> vararg list \<Rightarrow> pstream \<Rightarrow> pstream outcome"
  and morefmt :: "string \<Rightarrow> nat \<Rightarrow> strprops \<Rightarrow> vararg list \<Rightarrow> pstream \<Rightarrow> pstream outcome" where
  "vsn_loop fmt va s =
     (case fmt of
        [] \<Rightarrow> Ret s
      | f # fmt \<Rightarrow> if f \<noteq> CHR ''%'' then vsn_loop fmt va (addchar s f) else morefmt fmt 0 props0 va s)"
| "morefmt fmt nlong props va s =
     (case fmt of
        [] \<Rightarrow> vsn_loop [] va s
      | f # fmt' \<Rightarrow>
          if f = CHR ''#'' then morefmt fmt' nlong (props\<lparr>alternate := True\<rparr>) va s
          else if f = CHR ''0'' then
            morefmt (snd (fmtnum fmt')) nlong (props\<lparr>pad := CHR ''0'', npad := fst (fmtnum fmt')\<rparr>) va s
          else if is_digit f \<or> f = CHR ''-'' then
            morefmt (snd (fmtnum fmt)) nlong (props\<lparr>npad := fst (fmtnum fmt)\<rparr>) va s
          else if f = CHR ''l'' then morefmt fmt' (nlong + 1) props va s
          else if f = CHR ''t'' \<or> f = CHR ''z'' then morefmt fmt' 1 props va s
          else bind_outcome (conv f nlong props va s) (\<lambda>(s, va). vsn_loop fmt' va s))"
  by pat_completeness auto

termination
  by (relation "measure (\<lambda>x. case x of Inl (fmt, _, _) \<Rightarrow> 2 * length fmt
      | Inr (fmt, _, _, _, _) \<Rightarrow> 2 * length fmt + 1)")
    (simp_all add: less_Suc_eq_le fmtnum_measure)

declare vsn_loop.simps [simp del] morefmt.simps [simp del]

definition vsnprintf ::
  "mem \<Rightarrow> u64 \<Rightarrow> int \<Rightarrow> string \<Rightarrow> vararg list \<Rightarrow> (mem \<times> int) outcome" where
  "vsnprintf m buf sz fmt va =
     bind_outcome (vsn_loop fmt va \<lparr>ps_mem = m, ps_buffer = buf, ps_remain = s32 (sz - 1), ps_added = 0\<rparr>)
       (\<lambda>s. Ret ((ps_mem s)(ps_buffer s := 0), ps_added s))"

definition snprintf where
  "snprintf m buf sz fmt va = vsnprintf m buf sz fmt va"

text \<open>
  The \<^verbatim>\<open>printf\<close> functions format into a stack buffer at \<open>buf\<close> and hand it to \<^verbatim>\<open>puts\<close>; the result
  also has the characters sent to the console.
\<close>

definition BUFSZ :: int where
  "BUFSZ = 2000"

definition cstr_text :: "mem \<Rightarrow> u64 \<Rightarrow> nat \<Rightarrow> string" where
  "cstr_text m p n =
     takeWhile (\<lambda>c. c \<noteq> NUL) (map (\<lambda>i. char_of (unat (m (p + of_nat i)))) [0..<n])"

definition vprintf :: "mem \<Rightarrow> u64 \<Rightarrow> string \<Rightarrow> vararg list \<Rightarrow> (mem \<times> string \<times> int) outcome" where
  "vprintf m buf fmt va =
     bind_outcome (vsnprintf m buf BUFSZ fmt va) (\<lambda>(m, r). Ret (m, cstr_text m buf (nat BUFSZ), r))"

definition printf :: "mem \<Rightarrow> u64 \<Rightarrow> string \<Rightarrow> vararg list \<Rightarrow> (mem \<times> string \<times> int) outcome" where
  "printf m buf fmt va =
     bind_outcome (vsnprintf m buf BUFSZ fmt va) (\<lambda>(m, r). Ret (m, cstr_text m buf (nat BUFSZ), r))"

text \<open>
  \<open>binstr\<close>: \<open>k\<close> counts the bits still to print, so the bit index \<^verbatim>\<open>n - i - 1\<close> of the loop is \<open>k\<close>
  after the step. The last bit is followed by the NUL, which the list does not hold.
\<close>

definition BINSTR_SZ :: nat where
  "BINSTR_SZ = 8 * 8 + 8 * 2"

primrec binstr_loop :: "u64 \<Rightarrow> nat \<Rightarrow> string" where
  "binstr_loop x 0 = []"
| "binstr_loop x (Suc k) =
     (if x AND push_bit k 1 \<noteq> 0 then CHR ''1'' else CHR ''0'') #
     (if k = 0 then [] else (if (64 - k) mod 4 = 0 then [CHR 0x27] else []) @ binstr_loop x k)"

definition binstr :: "u64 \<Rightarrow> string outcome" where
  "binstr x =
     (let out = binstr_loop x 64
      in bind_outcome (assert_that (length out + 1 = BINSTR_SZ) ''c + 1 - &out[0] == BINSTR_SZ'')
           (\<lambda>_. Ret out))"

definition print_binstr :: "mem \<Rightarrow> u64 \<Rightarrow> u64 \<Rightarrow> (mem \<times> string \<times> int) outcome" where
  "print_binstr m buf x = bind_outcome (binstr x) (\<lambda>out. printf m buf ''%s'' [VStr out])"

section \<open>The text a conversion denotes\<close>

definition pad_text :: "string \<Rightarrow> strprops \<Rightarrow> string" where
  "pad_text s props =
     (if npad props > 0 then replicate (nat (npad props) - length s) (pad props) @ s
      else s @ replicate (nat (- npad props) - length s) (CHR '' ''))"

fun nat_text :: "nat \<Rightarrow> nat \<Rightarrow> string" where
  "nat_text b n =
     (if n < b \<or> b < 2 then [digits ! n] else nat_text b (n div b) @ [digits ! (n mod b)])"

declare nat_text.simps [simp del]

definition int_text :: "int \<Rightarrow> string" where
  "int_text n = (if n < 0 then ''-'' @ nat_text 10 (nat (- n)) else nat_text 10 (nat n))"

definition uns_text :: "nat \<Rightarrow> nat \<Rightarrow> strprops \<Rightarrow> string" where
  "uns_text b n props =
     (if alternate props \<and> b = 16 \<and> n \<noteq> 0 then
        if pad props = CHR ''0''
        then ''0x'' @ pad_text (nat_text b n) (props\<lparr>npad := (if npad props > 0 then max (npad props - 2) 0 else npad props)\<rparr>)
        else pad_text (''0x'' @ nat_text b n) props
      else pad_text (nat_text b n) props)"

definition conv_text :: "char \<Rightarrow> nat \<Rightarrow> strprops \<Rightarrow> vararg list \<Rightarrow> (string \<times> vararg list) outcome" where
  "conv_text f nlong props va =
     (if f = CHR ''%'' then Ret (''%'', va)
      else if f \<in> {CHR ''c'', CHR ''d'', CHR ''u'', CHR ''x'', CHR ''p''} then
        (case va of
           VInt w # va' \<Rightarrow>
             if f = CHR ''d'' \<and> va_int nlong w = - (2 ^ 63) then Abort ''signed overflow in -n''
             else Ret
               (if f = CHR ''c'' then [char_of (unat w)]
                else if f = CHR ''d'' then pad_text (int_text (va_int nlong w)) props
                else if f = CHR ''u'' then uns_text 10 (va_unsigned nlong w) props
                else if f = CHR ''x'' then uns_text 16 (va_unsigned nlong w) props
                else uns_text 16 (unat w) (props\<lparr>alternate := True\<rparr>), va')
         | _ \<Rightarrow> Abort ''va_arg'')
      else if f = CHR ''s'' then
        (case va of VStr t # va' \<Rightarrow> Ret (pad_text t props, va') | _ \<Rightarrow> Abort ''va_arg'')
      else Ret ([f], va))"

text \<open>A format is a list of literal characters and conversions, rendered from left to right.\<close>

datatype directive = Lit char | Conv char nat strprops

function parse_fmt :: "string \<Rightarrow> directive list"
  and parse_conv :: "string \<Rightarrow> nat \<Rightarrow> strprops \<Rightarrow> directive list" where
  "parse_fmt fmt =
     (case fmt of
        [] \<Rightarrow> []
      | f # fmt \<Rightarrow> if f = CHR ''%'' then parse_conv fmt 0 props0 else Lit f # parse_fmt fmt)"
| "parse_conv fmt nlong props =
     (case fmt of
        [] \<Rightarrow> []
      | f # fmt' \<Rightarrow>
          if f = CHR ''#'' then parse_conv fmt' nlong (props\<lparr>alternate := True\<rparr>)
          else if f = CHR ''0'' then
            parse_conv (snd (fmtnum fmt')) nlong (props\<lparr>pad := CHR ''0'', npad := fst (fmtnum fmt')\<rparr>)
          else if is_digit f \<or> f = CHR ''-'' then
            parse_conv (snd (fmtnum fmt)) nlong (props\<lparr>npad := fst (fmtnum fmt)\<rparr>)
          else if f = CHR ''l'' then parse_conv fmt' (nlong + 1) props
          else if f = CHR ''t'' \<or> f = CHR ''z'' then parse_conv fmt' 1 props
          else Conv f nlong props # parse_fmt fmt')"
  by pat_completeness auto

termination
  by (relation "measure (\<lambda>x. case x of Inl fmt \<Rightarrow> 2 * length fmt
      | Inr (fmt, _, _) \<Rightarrow> 2 * length fmt + 1)")
    (simp_all add: less_Suc_eq_le fmtnum_measure)

declare parse_fmt.simps [simp del] parse_conv.simps [simp del]

primrec render :: "directive list \<Rightarrow> vararg list \<Rightarrow> string outcome" where
  "render [] va = Ret []"
| "render (d # ds) va =
     bind_outcome (case d of Lit c \<Rightarrow> Ret ([c], va) | Conv f nlong props \<Rightarrow> conv_text f nlong props va)
       (\<lambda>(t, va). bind_outcome (render ds va) (\<lambda>u. Ret (t @ u)))"

definition vtext :: "string \<Rightarrow> vararg list \<Rightarrow> string outcome" where
  "vtext fmt va = render (parse_fmt fmt) va"

section \<open>Streams append text\<close>

lemma addchars_simps [simp]:
  "addchars p [] = p"
  "addchars (addchars p s) t = addchars p (s @ t)"
  "addchar (addchars p s) c = addchars p (s @ [c])"
  by (simp_all add: addchars_def)

lemma addchar_addchars: "addchar p c = addchars p [c]"
  by (simp add: addchars_def)

lemma s32_id: "- (2 ^ 31) \<le> i \<Longrightarrow> i < 2 ^ 31 \<Longrightarrow> s32 i = i"
  unfolding s32_def by (subst signed_take_bit_int_eq_self) auto

lemma s32_add: "s32 (s32 a + b) = s32 (a + b)"
  using signed_take_bit_add [of 31 "signed_take_bit 31 a" b] signed_take_bit_add [of 31 a b] by (simp add: s32_def)

lemma addchars_room:
  assumes "0 \<le> ps_remain p" and "ps_remain p < 2 ^ 31" and "s32 (ps_added p) = ps_added p"
  shows "addchars p s =
    (let t = take (nat (ps_remain p)) s
     in p\<lparr>ps_mem := put (ps_mem p) (ps_buffer p) (map byte t), ps_buffer := ps_buffer p + of_nat (length t),
          ps_remain := ps_remain p - int (length t), ps_added := s32 (ps_added p + int (length s))\<rparr>)"
  using assms
proof (induction s arbitrary: p)
  case Nil
  then show ?case by (simp add: Let_def)
next
  case (Cons c s)
  have step: "addchars p (c # s) = addchars (addchar p c) s"
    by (simp add: addchars_def)
  have n: "s32 (ps_added (addchar p c)) = ps_added (addchar p c)"
    using s32_add [of "ps_added p + 1" 0] by (simp add: addchar_def Let_def)
  have a: "s32 (s32 (ps_added p + 1) + int (length s)) = s32 (ps_added p + (1 + int (length s)))"
    by (simp add: s32_add add.assoc)
  show ?case
  proof (cases "ps_remain p = 0")
    case True
    then show ?thesis
      unfolding step using Cons.IH [of "addchar p c", OF _ _ n] a by (simp add: addchar_def Let_def)
  next
    case False
    then have r: "nat (ps_remain p) = Suc (nat (ps_remain p - 1))" "s32 (ps_remain p - 1) = ps_remain p - 1"
      using Cons.prems by (simp_all add: s32_id)
    have q: "addchar p c = p\<lparr>ps_mem := (ps_mem p)(ps_buffer p := byte c), ps_buffer := ps_buffer p + 1, ps_remain := ps_remain p - 1,
        ps_added := s32 (ps_added p + 1)\<rparr>"
      using False r(2) by (simp add: addchar_def Let_def)
    show ?thesis
      unfolding step r(1) using Cons.IH [of "addchar p c", OF _ _ n] Cons.prems False a
      by (simp add: q Let_def fun_upd_def algebra_simps)
  qed
qed

section \<open>The in-place reversal\<close>

lemma nth_swap_ends:
  assumes "i < length buf div 2" and "j < length buf"
  shows "swap_ends buf i ! j =
    (if j = i \<or> j = length buf - 1 - i then buf ! (length buf - 1 - j) else buf ! j)"
  using assms by (auto simp: swap_ends_def Let_def nth_list_update)

lemma length_swap_ends [simp]: "length (swap_ends buf i) = length buf"
  by (simp add: swap_ends_def Let_def)

lemma reverse_buf_prefix:
  assumes "k \<le> length buf div 2"
  shows "length (foldl swap_ends buf [0..<k]) = length buf \<and> (\<forall>j < length buf.
    foldl swap_ends buf [0..<k] ! j = (if j < k \<or> length buf - 1 - j < k then buf ! (length buf - 1 - j) else buf ! j))"
  using assms
proof (induction k)
  case 0
  then show ?case by simp
next
  case (Suc k)
  let ?b = "foldl swap_ends buf [0..<k]"
  have IH: "length ?b = length buf"
    "\<And>j. j < length buf \<Longrightarrow> ?b ! j = (if j < k \<or> length buf - 1 - j < k then buf ! (length buf - 1 - j) else buf ! j)"
    using Suc by auto
  have "swap_ends ?b k ! j = (if j < Suc k \<or> length buf - 1 - j < Suc k then buf ! (length buf - 1 - j) else buf ! j)"
    if j: "j < length buf" for j
  proof (cases "j = k \<or> j = length buf - 1 - k")
    case True
    then have "length buf - 1 - j = k \<or> length buf - 1 - j = length buf - 1 - k" "\<not> length buf - 1 - j < k" "\<not> j < k"
      using Suc.prems j by auto
    then show ?thesis
      using True Suc.prems j IH nth_swap_ends [of k ?b j] by auto
  next
    case False
    then have "(j < Suc k \<or> length buf - 1 - j < Suc k) = (j < k \<or> length buf - 1 - j < k)"
      using Suc.prems j by auto
    then show ?thesis
      using False Suc.prems j IH nth_swap_ends [of k ?b j] by simp
  qed
  then show ?case
    using IH(1) by simp
qed

lemma reverse_buf_rev: "reverse_buf buf = rev buf"
proof (rule nth_equalityI)
  show len: "length (reverse_buf buf) = length (rev buf)"
    using reverse_buf_prefix [OF order_refl, of buf] by (simp add: reverse_buf_def)
  fix j
  assume "j < length (reverse_buf buf)"
  then have j: "j < length buf"
    using len by simp
  have "length buf - Suc j = j" if "\<not> j < length buf div 2" "\<not> length buf - 1 - j < length buf div 2"
    using that j by linarith
  then show "reverse_buf buf ! j = rev buf ! j"
    using reverse_buf_prefix [OF order_refl, of buf] j
    by (auto simp: reverse_buf_def rev_nth)
qed

section \<open>Digits\<close>

lemma rev_digit_loop:
  assumes "0 < n" and "1 < b"
  shows "rev (digit_loop b n) = nat_text b n"
  using assms
proof (induction b n rule: digit_loop.induct)
  case (1 b n)
  show ?case
  proof (cases "n < b")
    case True
    then show ?thesis
      using 1 by (simp add: digit_loop.simps [of b n] digit_loop.simps [of b 0] nat_text.simps [of b n])
  next
    case False
    then have "0 < n div b"
      using 1 by (simp add: div_greater_zero_iff)
    then show ?thesis
      using 1 False by (simp add: digit_loop.simps [of b n] nat_text.simps [of b n])
  qed
qed

lemma digit_loop_0 [simp]: "digit_loop b 0 = []"
  by (simp add: digit_loop.simps)

lemma digit_loop_empty [simp]: "1 < b \<Longrightarrow> digit_loop b n = [] \<longleftrightarrow> n = 0"
  by (simp add: digit_loop.simps [of b n])

lemma nat_text_0: "1 < b \<Longrightarrow> nat_text b 0 = ''0''"
  by (simp add: nat_text.simps digits_def)

lemma length_nat_text:
  assumes "n < b ^ Suc k" and "1 < b"
  shows "length (nat_text b n) \<le> Suc k"
  using assms
proof (induction k arbitrary: n)
  case 0
  then show ?case by (simp add: nat_text.simps)
next
  case (Suc k)
  have "n div b < b ^ Suc k"
    using Suc.prems by (simp add: div_less_iff_less_mult mult.commute)
  then show ?case
    using Suc by (simp add: nat_text.simps [of b n])
qed

lemma length_nat_text_u64:
  assumes "n < 2 ^ 64" and "b = 10 \<or> b = 16"
  shows "length (nat_text b n) \<le> 64"
proof -
  have "(2 :: nat) ^ 64 \<le> b ^ Suc 63"
    using assms(2) power_mono [of 2 b 64] by auto
  then show ?thesis
    using length_nat_text [of n b 63] assms by auto
qed

section \<open>Refinement of the conversions\<close>

lemma s32_range: "- (2 ^ 31) \<le> s32 i" "s32 i < 2 ^ 31"
  unfolding s32_def
  using signed_take_bit_int_greater_eq_minus_exp [of 31 i] signed_take_bit_int_less_exp [of 31 i] by auto

definition props_ok :: "strprops \<Rightarrow> bool" where
  "props_ok props \<longleftrightarrow> - (2 ^ 31) \<le> npad props \<and> npad props < 2 ^ 31"

lemma print_str_text:
  assumes "props_ok props" and "length s < 2 ^ 31"
  shows "print_str p s props = addchars p (pad_text s props)"
proof -
  let ?n = "npad props" and ?l = "int (length s)"
  have l: "?l < 2 ^ 31"
    using assms(2) by simp
  have n: "- (2 ^ 31) \<le> ?n" "?n < 2 ^ 31"
    using assms(1) by (simp_all add: props_ok_def)
  show ?thesis
  proof (cases "?n > 0")
    case True
    have k: "s32 (?n - ?l) = ?n - ?l" "s32 ?n = ?n"
      using n l True by (simp_all add: s32_id)
    have r: "nat ?n - length s = nat (?n - ?l)"
      by (simp add: nat_diff_distrib')
    show ?thesis
      unfolding print_str_def pad_text_def Let_def r using True k by (simp add: diff_add_cancel)
  next
    case False
    have k: "s32 (?n + ?l) = ?n + ?l"
      using n l False by (simp add: s32_id)
    have r: "nat (- ?n) - length s = nat (- (?n + ?l))"
      by simp
    show ?thesis
      unfolding print_str_def pad_text_def Let_def r using False k by auto
  qed
qed

lemma print_int_text:
  assumes "props_ok props" and "- (2 ^ 63) < n" and "n < 2 ^ 63"
  shows "print_int p n 10 props = Ret (addchars p (pad_text (int_text n) props))"
proof -
  have "nat (if n < 0 then - n else n) < 2 ^ 64"
    using assms by auto
  then have l: "length (nat_text 10 (nat (if n < 0 then - n else n))) \<le> 64"
    by (rule length_nat_text_u64) simp
  have "length (int_text n) < 2 ^ 31"
    using l by (auto simp: int_text_def split: if_splits)
  then have "print_str p (int_text n) props = addchars p (pad_text (int_text n) props)"
    using assms(1) by (rule print_str_text [rotated])
  moreover have "print_int p n 10 props = Ret (print_str p (int_text n) props)"
    using assms(2) by (auto simp: print_int_def Let_def reverse_buf_rev int_text_def rev_digit_loop nat_text_0)
  ultimately show ?thesis
    by simp
qed

lemma print_unsigned_text:
  assumes "props_ok props" and "n < 2 ^ 64" and "b = 10 \<or> b = 16"
  shows "print_unsigned p n b props = addchars p (uns_text b n props)"
proof -
  have l: "length (nat_text b n) \<le> 64"
    using assms(2,3) by (rule length_nat_text_u64)
  have b: "1 < b"
    using assms(3) by auto
  have ps: "print_str q s pr = addchars q (pad_text s pr)" if "length s \<le> 66" "props_ok pr" for q s pr
    using that by (intro print_str_text) auto
  have pok: "props_ok (props\<lparr>npad := max (npad props - 2) 0\<rparr>)"
    using assms(1) by (auto simp: props_ok_def)
  show ?thesis
    using l b assms(1) pok
    by (cases "n = 0")
      (auto simp: print_unsigned_def uns_text_def Let_def reverse_buf_rev rev_digit_loop nat_text_0 ps addchar_addchars)
qed

definition va_ok :: "vararg list \<Rightarrow> bool" where
  "va_ok va = list_all (\<lambda>a. case a of VInt _ \<Rightarrow> True | VStr t \<Rightarrow> length t < 2 ^ 31) va"

lemma va_ok_Cons [simp]:
  "va_ok []" "va_ok (VInt w # va) = va_ok va" "va_ok (VStr t # va) = (length t < 2 ^ 31 \<and> va_ok va)"
  by (simp_all add: va_ok_def)

lemma va_int_range: "- (2 ^ 63) \<le> va_int nlong w" "va_int nlong w < 2 ^ 63"
  using sint_greater_eq [of w] sint_less [of w] sint_greater_eq [of "ucast w :: u32"]
    sint_less [of "ucast w :: u32"]
  by (simp_all add: va_int_def)

lemma va_unsigned_range: "va_unsigned nlong w < 2 ^ 64"
  using unsigned_less [of w, where ?'a = nat] unsigned_less [of "ucast w :: u32", where ?'a = nat]
  by (simp add: va_unsigned_def)

lemma conv_refines:
  assumes "props_ok props" and "va_ok va"
  shows "conv f nlong props va p =
    bind_outcome (conv_text f nlong props va) (\<lambda>(t, va'). Ret (addchars p t, va'))"
proof -
  have i: "print_int p (va_int nlong w) 10 props = Ret (addchars p (pad_text (int_text (va_int nlong w)) props))"
    if "va_int nlong w \<noteq> - (2 ^ 63)" for w
    using that va_int_range [of nlong w] by (intro print_int_text assms) auto
  have o: "print_int p (- (2 ^ 63)) 10 props = Abort ''signed overflow in -n''"
    by (simp add: print_int_def)
  have u: "print_unsigned p (va_unsigned nlong w) b props = addchars p (uns_text b (va_unsigned nlong w) props)"
    if "b = 10 \<or> b = 16" for w b
    using that by (intro print_unsigned_text assms va_unsigned_range)
  have h: "print_unsigned p (unat w) 16 (props\<lparr>alternate := True\<rparr>)
      = addchars p (uns_text 16 (unat w) (props\<lparr>alternate := True\<rparr>))" for w :: u64
    using assms(1) unat_less_u64 [of w] by (intro print_unsigned_text) (simp_all add: props_ok_def)
  have s: "print_str p t props = addchars p (pad_text t props)" if "length t < 2 ^ 31" for t
    using that by (intro print_str_text assms)
  show ?thesis
  proof (cases va)
    case Nil
    then show ?thesis
      by (simp add: conv_def conv_text_def addchar_addchars)
  next
    case (Cons a va')
    then show ?thesis
      using assms(2) i o u h s
      by (cases a) (auto simp: conv_def conv_text_def addchar_addchars)
  qed
qed

lemma conv_text_va_ok: "conv_text f nlong props va = Ret (t, va') \<Longrightarrow> va_ok va \<Longrightarrow> va_ok va'"
  by (auto simp: conv_text_def split: if_splits list.splits vararg.splits)

lemma fmtnum_props_ok: "props_ok (props\<lparr>npad := fst (fmtnum fmt)\<rparr>)"
  using s32_range by (simp add: props_ok_def fmtnum_def Let_def)

lemma props_ok_simps [simp]:
  "props_ok props0" "props_ok (props\<lparr>alternate := b\<rparr>) = props_ok props"
  "props_ok (props\<lparr>pad := c\<rparr>) = props_ok props" "props_ok (props\<lparr>pad := c, npad := k\<rparr>) = props_ok (props\<lparr>npad := k\<rparr>)"
  by (simp_all add: props_ok_def props0_def)

lemma bind_outcome_assoc: "bind_outcome (bind_outcome r f) g = bind_outcome r (\<lambda>x. bind_outcome (f x) g)"
  by (cases r) simp_all

lemma conv_then_loop:
  assumes "props_ok props" and "va_ok va"
    and "\<And>va' q. va_ok va' \<Longrightarrow> vsn_loop fmt va' q = bind_outcome (render (parse_fmt fmt) va') (\<lambda>t. Ret (addchars q t))"
  shows "bind_outcome (conv f nlong props va p) (\<lambda>(s, va). vsn_loop fmt va s) =
    bind_outcome (render (Conv f nlong props # parse_fmt fmt) va) (\<lambda>t. Ret (addchars p t))"
proof (cases "conv_text f nlong props va")
  case (Ret r)
  obtain t va' where r: "r = (t, va')"
    by (cases r)
  have "va_ok va'"
    using conv_text_va_ok Ret assms(2) unfolding r .
  then show ?thesis
    using Ret assms unfolding r by (simp add: conv_refines bind_outcome_assoc)
qed (simp add: conv_refines [OF assms(1,2)])

lemma vsn_loop_refines:
  "va_ok va \<Longrightarrow> vsn_loop fmt va p = bind_outcome (render (parse_fmt fmt) va) (\<lambda>t. Ret (addchars p t))"
  "props_ok props \<Longrightarrow> va_ok va \<Longrightarrow> morefmt fmt nlong props va p =
     bind_outcome (render (parse_conv fmt nlong props) va) (\<lambda>t. Ret (addchars p t))"
proof (induction fmt va p and fmt nlong props va p rule: vsn_loop_morefmt.induct)
  case (1 fmt va s)
  then show ?case
    by (subst vsn_loop.simps, subst parse_fmt.simps)
      (auto split: list.split simp: addchar_addchars bind_outcome_assoc)
next
  case (2 fmt nlong props va s)
  show ?case
  proof (cases fmt)
    case Nil
    then show ?thesis
      by (simp add: morefmt.simps parse_conv.simps vsn_loop.simps)
  next
    case (Cons f fmt')
    note IH = "2.IH"(2-) [OF Cons]
    show ?thesis
    proof (cases "f \<in> {CHR ''#'', CHR ''0'', CHR ''l'', CHR ''t'', CHR ''z''} \<or> is_digit f \<or> f = CHR ''-''")
      case True
      then show ?thesis
        using IH(1-5) "2.prems" Cons fmtnum_props_ok
        by (subst morefmt.simps, subst parse_conv.simps) auto
    next
      case False
      then have loop: "vsn_loop fmt' va' q = bind_outcome (render (parse_fmt fmt') va') (\<lambda>t. Ret (addchars q t))"
        if "va_ok va'" for va' q
        using IH(6) that by auto
      show ?thesis
        using conv_then_loop [OF "2.prems" loop, where f = f and nlong = nlong] False Cons
        by (simp add: morefmt.simps [of "f # fmt'"] parse_conv.simps [of "f # fmt'"])
    qed
  qed
qed

section \<open>Reading a formatted number back\<close>

lemma char_of_byte [simp]: "char_of (unat (byte c)) = c"
  by (simp add: byte_def unat_of_nat)

lemma char_of_0 [simp]: "char_of (0 :: nat) = NUL"
  by (simp add: char_of_def)

lemma byte_NUL_iff: "byte c = 0 \<longleftrightarrow> c = NUL"
  using char_of_byte [of c] by (auto simp: byte_def)

lemma cstr_text_cstr:
  assumes "cstr m p (map byte t)" and "length t < n"
  shows "cstr_text m p n = t"
proof -
  have "map (\<lambda>i. char_of (unat (m (p + of_nat i)))) [0..<length t] = t"
    using cstr_nth [OF assms(1)] by (intro nth_equalityI) simp_all
  moreover have "NUL \<notin> set t"
    using cstr_no_nul [OF assms(1)] by (auto simp: byte_NUL_iff image_iff)
  moreover have "char_of (unat (m (p + of_nat (length t)))) = NUL"
    using cstr_nul [OF assms(1)] by simp
  moreover have "[0..<n] = [0..<length t] @ length t # [Suc (length t)..<n]"
    using assms(2) upt_add_eq_append [of 0 "length t" "n - length t"] upt_conv_Cons [of "length t" n] by simp
  ultimately show ?thesis
    unfolding cstr_text_def by (simp add: takeWhile_append)
qed

lemma cstr_text_put:
  assumes "NUL \<notin> set t" and "length t < n" and "n \<le> 2 ^ 64"
  shows "cstr_text (put m p (map byte t @ [0])) p n = t"
proof (rule cstr_text_cstr [OF _ assms(2)])
  show "cstr (put m p (map byte t @ [0])) p (map byte t)"
    using assms by (intro cstr_put) (auto simp: byte_NUL_iff)
qed

lemma digits_nth:
  assumes "d < 10"
  shows "cval (digits ! d) = 48 + int d"
proof -
  have "d \<in> set [0..<10]"
    using assms by simp
  then show ?thesis
    by (auto simp: digits_def cval_def upt_rec)
qed

lemma atol_digits_append:
  "list_all is_digit s \<Longrightarrow> atol_digits acc (s @ t) = atol_digits (atol_digits acc s) t"
  by (induction s arbitrary: acc) (auto simp: is_digit_def)

lemma not_is_digit_NUL: "\<not> is_digit NUL"
  by (simp add: is_digit_def cval_def)

lemma nat_text_digits: "list_all is_digit (nat_text 10 n)"
proof (induction n rule: less_induct)
  case (less n)
  have "is_digit (digits ! d)" if "d < 10" for d
    using that by (simp add: is_digit_def digits_nth)
  then show ?case
    using less [of "n div 10"] by (cases "n < 10") (simp_all add: nat_text.simps [of 10 n])
qed

lemma atol_digits_nat_text: "atol_digits 0 (nat_text 10 n) = of_nat n"
proof (induction n rule: less_induct)
  case (less n)
  show ?case
  proof (cases "n < 10")
    case True
    then show ?thesis
      by (simp add: nat_text.simps [of 10 n] digits_nth)
  next
    case False
    have "of_nat n = of_nat (n div 10) * 10 + (of_nat (n mod 10) :: u64)"
      by (metis div_mult_mod_eq of_nat_add of_nat_mult of_nat_numeral)
    then show ?thesis
      using False less [of "n div 10"] nat_text_digits [of "n div 10"]
      by (simp add: nat_text.simps [of 10 n] atol_digits_append digits_nth)
  qed
qed

lemma nat_text_Cons: "\<exists>c s. nat_text 10 n = c # s \<and> is_digit c"
  using nat_text_digits [of n] by (cases "nat_text 10 n") (auto simp: nat_text.simps [of 10 n] split: if_splits)

lemma atol_int_text: "atol (int_text (sint w)) = (w :: u64)"
proof (cases "sint w < 0")
  case True
  then have "(of_nat (nat (- sint w)) :: u64) = - w"
    by (simp add: of_nat_nat)
  then show ?thesis
    using True by (simp add: int_text_def atol_def cur_def Let_def atol_digits_nat_text)
next
  case False
  obtain c s where cs: "nat_text 10 (nat (sint w)) = c # s" "is_digit c"
    using nat_text_Cons by blast
  then have "c \<notin> {CHR '' '', CHR 0x09, CHR ''-'', CHR ''+''}"
    by (auto simp: is_digit_def cval_def)
  then have "atol (int_text (sint w)) = atol_digits 0 (nat_text 10 (nat (sint w)))"
    using False unfolding int_text_def atol_def cs(1) by (simp add: cur_def Let_def)
  then show ?thesis
    using False by (simp add: atol_digits_nat_text)
qed

section \<open>Binary strings\<close>

lemma binstr_bit: "x AND 2 ^ k \<noteq> 0 \<longleftrightarrow> bit (x :: u64) k" "x AND 1 \<noteq> 0 \<longleftrightarrow> bit x 0"
  using and_exp_eq_0_iff_not_bit [of x k] and_exp_eq_0_iff_not_bit [of x 0] by simp_all

lemma binstr_loop_digits:
  assumes "k \<le> 64"
  shows "filter (\<lambda>c. c \<noteq> CHR 0x27) (binstr_loop x k) = map (\<lambda>i. if bit x i then CHR ''1'' else CHR ''0'') (rev [0..<k])"
  using assms by (induction k) (auto simp: binstr_bit)

lemma binstr_loop_length:
  assumes "k \<le> 64"
  shows "length (binstr_loop x k) = k + (k - 1) div 4"
  using assms
proof (induction k)
  case (Suc k)
  have "(64 - k) mod 4 = 0 \<longleftrightarrow> k mod 4 = 0"
    using dvd_add_right_iff [of 4 k "64 - k"] dvd_add_left_iff [of 4 "64 - k" k] Suc.prems
    by (auto simp: mod_eq_0_iff_dvd dvd_def)
  moreover have "k div 4 = (k - 1) div 4 + (if k mod 4 = 0 \<and> 0 < k then 1 else 0)"
    using div_Suc [of "k - 1" 4] by (cases k) (auto simp: mod_Suc)
  ultimately show ?case
    using Suc by auto
qed simp

section \<open>Properties\<close>

text \<open>The one statement about \<open>vsnprintf\<close> its users rely on.\<close>

lemma vsnprintf_refines:
  assumes "va_ok va" and "1 \<le> sz" and "sz < 2 ^ 31"
  shows "vsnprintf m buf sz fmt va =
    bind_outcome (vtext fmt va) (\<lambda>t. Ret (put m buf (map byte (take (nat (sz - 1)) t) @ [0]), s32 (int (length t))))"
proof -
  have put_snoc: "put m' p (bs @ [0]) = (put m' p bs)(p + of_nat (length bs) := 0)" for m' p bs
    by (induction bs arbitrary: m' p) (simp_all add: ac_simps)
  show ?thesis
    unfolding vsnprintf_def vtext_def vsn_loop_refines(1) [OF assms(1)]
    using assms(2,3) s32_id [of "sz - 1"] s32_id [of 0] by (cases "render (parse_fmt fmt) va") (simp_all add: addchars_room Let_def put_snoc)
qed

text \<open>
  What \<open>vprintf\<close> sends to the console, at the level of texts: the other components use this view of
  \<open>printf\<close>, and \<open>vprintf_console\<close> shows that it is what the function on the memory prints.
\<close>

definition printf_out :: "string \<Rightarrow> vararg list \<Rightarrow> string outcome" where
  "printf_out fmt va =
     bind_outcome (vtext fmt va) (\<lambda>t. Ret (takeWhile (\<lambda>c. c \<noteq> NUL) (take (nat BUFSZ - 1) t)))"

lemma cstr_text_put_takeWhile:
  assumes "length t < n" and "n \<le> 2 ^ 64"
  shows "cstr_text (put m p (map byte t @ [0])) p n = takeWhile (\<lambda>c. c \<noteq> NUL) t"
proof (cases "NUL \<in> set t")
  case False
  then have "takeWhile (\<lambda>c. c \<noteq> NUL) t = t"
    by (auto simp: takeWhile_eq_all_conv)
  then show ?thesis
    by (simp only: cstr_text_put [OF False assms])
next
  case True
  then obtain u v where t: "t = u @ NUL # v" and nul: "NUL \<notin> set u"
    by (auto dest: split_list_first)
  have u: "takeWhile (\<lambda>c. c \<noteq> NUL) t = u"
    using nul by (auto simp: t takeWhile_append)
  have bytes: "map byte t @ [0] = (map byte u @ [0]) @ (map byte v @ [0])"
    by (simp add: t byte_NUL_iff)
  have put_append: "put m p (as @ bs) = put (put m p as) (p + of_nat (length as)) bs" for as bs :: "u8 list"
    by (induction as arbitrary: m p) (simp_all add: ac_simps)
  have l: "length u + Suc (length (map byte v @ [0])) \<le> 2 ^ 64"
    using assms by (simp add: t)
  have "cstr (put m p (map byte t @ [0])) p (map byte u)
      = cstr (put m p (map byte u @ [0])) p (map byte u)"
  proof (rule cstr_cong)
    fix a
    assume "a \<in> span p (Suc (length (map byte u)))"
    then obtain i where i: "i < Suc (length u)" "a = p + of_nat i"
      by (auto simp: span_def)
    have "a \<notin> span (p + of_nat (length (map byte u @ [0 :: u8]))) (length (map byte v @ [0 :: u8]))"
    proof
      assume "a \<in> span (p + of_nat (length (map byte u @ [0 :: u8]))) (length (map byte v @ [0 :: u8]))"
      then obtain j where j: "j < length (map byte v @ [0 :: u8])" "a = p + of_nat (Suc (length u) + j)"
        by (auto simp: span_def ac_simps)
      have "unat (of_nat i :: u64) = unat (of_nat (Suc (length u) + j) :: u64)"
        using i(2) j(2) by simp
      moreover have "unat (of_nat i :: u64) = i"
        using i(1) l by (intro unat_of_nat_u64) simp
      moreover have "unat (of_nat (Suc (length u) + j) :: u64) = Suc (length u) + j"
        using j(1) l by (intro unat_of_nat_u64) simp
      ultimately show False
        using i(1) by simp
    qed
    then show "put m p (map byte t @ [0]) a = put m p (map byte u @ [0]) a"
      unfolding bytes put_append [of "map byte u @ [0]"] by (rule put_other)
  qed
  moreover have "cstr (put m p (map byte u @ [0])) p (map byte u)"
    using nul l by (intro cstr_put) (auto simp: byte_NUL_iff image_iff)
  moreover have "length u < n"
    using assms(1) by (simp add: t)
  ultimately show ?thesis
    using cstr_text_cstr by (simp add: u)
qed

lemma vprintf_console:
  assumes "va_ok va" and "vtext fmt va = Ret t"
  shows "vprintf m buf fmt va = Ret (put m buf (map byte (take 1999 t) @ [0]),
    takeWhile (\<lambda>c. c \<noteq> NUL) (take 1999 t), s32 (int (length t)))"
    and "printf_out fmt va = Ret (takeWhile (\<lambda>c. c \<noteq> NUL) (take 1999 t))"
  using vsnprintf_refines [OF assms(1), of BUFSZ m buf fmt] assms(2)
    cstr_text_put_takeWhile [of "take 1999 t" 2000 m buf]
  by (simp_all add: vprintf_def printf_out_def BUFSZ_def)

text \<open>
  C35: for a buffer of at least one byte \<open>vsnprintf\<close> stores the text its format denotes, cut to fit,
  with a terminating NUL, and writes no byte beyond the buffer's \<open>sz\<close> bytes. It returns the length of the whole text when this is an \<^verbatim>\<open>int\<close>; the count
  of a longer text overflows.
\<close>

theorem vsnprintf_truncates:
  assumes "va_ok va" and "1 \<le> sz" and "sz < 2 ^ 31" and "vtext fmt va = Ret t"
  shows "\<exists>m'. vsnprintf m buf sz fmt va = Ret (m', s32 (int (length t))) \<and> (length t < 2 ^ 31 \<longrightarrow> s32 (int (length t)) = int (length t))
    \<and> m' = put m buf (map byte (take (nat (sz - 1)) t) @ [0])
    \<and> (\<forall>a. \<not> unat (a - buf) < nat sz \<longrightarrow> m' a = m a)"
proof (intro exI conjI allI impI)
  let ?bs = "map byte (take (nat (sz - 1)) t) @ [0]"
  show "vsnprintf m buf sz fmt va = Ret (put m buf ?bs, s32 (int (length t)))"
    using vsnprintf_refines [OF assms(1-3)] assms(4) by simp
  show "s32 (int (length t)) = int (length t)" if "length t < 2 ^ 31"
    using that by (intro s32_id) auto
  fix a
  assume "\<not> unat (a - buf) < nat sz"
  moreover have "length ?bs \<le> nat sz" "length ?bs \<le> 2 ^ 64"
    using assms(2,3) by auto
  ultimately show "put m buf ?bs a = m a"
    by (intro put_other) (auto simp only: in_span_iff)
qed simp

theorem vsnprintf_truncates_witness:
  "va_ok [VInt 7, VStr ''ab''] \<and> vtext ''%d:%s'' [VInt 7, VStr ''ab''] = Ret ''7:ab''
   \<and> (\<exists>m'. vsnprintf (\<lambda>_. 1) 0 3 ''%d:%s'' [VInt 7, VStr ''ab''] = Ret (m', 4) \<and> cstr_text m' 0 3 = ''7:'')"
proof -
  have p: "parse_fmt ''%d:%s'' = [Conv (CHR ''d'') 0 props0, Lit (CHR '':''), Conv (CHR ''s'') 0 props0]"
    by (simp add: parse_fmt.simps parse_conv.simps is_digit_def cval_def)
  have t: "vtext ''%d:%s'' [VInt 7, VStr ''ab''] = Ret ''7:ab''"
    unfolding vtext_def p
    by (simp add: conv_text_def va_int_def pad_text_def props0_def int_text_def nat_text.simps digits_def)
  have v: "va_ok [VInt 7, VStr ''ab'']"
    by simp
  have c: "cstr_text (put (\<lambda>_. 1) 0 (map byte ''7:'' @ [0])) 0 3 = ''7:''"
    by (rule cstr_text_put) simp_all
  have l: "nat (3 - 1) = Suc (Suc 0)" "length ''7:ab'' < 2 ^ 31" "int (length ''7:ab'') = 4" "take (Suc (Suc 0)) ''7:ab'' = ''7:''"
    by simp_all
  obtain m' where "vsnprintf (\<lambda>_. 1) 0 3 ''%d:%s'' [VInt 7, VStr ''ab''] = Ret (m', 4)" "m' = put (\<lambda>_. 1) 0 (map byte ''7:'' @ [0])"
    using vsnprintf_truncates [OF v _ _ t, of 3 "\<lambda>_. 1" 0] l by auto
  then show ?thesis
    using v t c by blast
qed

text \<open>
  printing a \<^verbatim>\<open>long\<close> with \<^verbatim>\<open>snprintf(buf, size, "%ld", n)\<close> into a buffer of 24 bytes or more and reading
  the buffer back with \<open>atol\<close> gives the number again, for every value but the most negative one.
\<close>

theorem snprintf_atol_roundtrip:
  assumes "sint w \<noteq> - (2 ^ 63)" and "24 \<le> sz" and "sz < 2 ^ 31"
  shows "\<exists>m' r. snprintf m buf sz ''%ld'' [VInt w] = Ret (m', r) \<and> atol (cstr_text m' buf (nat sz)) = w"
proof -
  have p: "parse_fmt ''%ld'' = [Conv (CHR ''d'') 1 props0]"
    by (simp add: parse_fmt.simps parse_conv.simps is_digit_def cval_def)
  let ?t = "int_text (sint w)"
  have t: "vtext ''%ld'' [VInt w] = Ret ?t"
    unfolding vtext_def p using assms(1) by (simp add: conv_text_def va_int_def pad_text_def props0_def)
  have "nat \<bar>sint w\<bar> < 10 ^ Suc 19"
    using sint_greater_eq [of w] sint_less [of w] by auto
  then have "length (nat_text 10 (nat \<bar>sint w\<bar>)) \<le> 20"
    using length_nat_text [of "nat \<bar>sint w\<bar>" 10 19] by simp
  then have l: "length ?t < 23"
    by (auto simp: int_text_def)
  have "NUL \<notin> set ?t"
    using nat_text_digits not_is_digit_NUL by (auto simp: int_text_def list_all_iff)
  then have "cstr_text (put m buf (map byte ?t @ [0])) buf (nat sz) = ?t"
    using l assms by (intro cstr_text_put) auto
  moreover have "snprintf m buf sz ''%ld'' [VInt w] = Ret (put m buf (map byte ?t @ [0]), s32 (int (length ?t)))"
    using vsnprintf_refines [of "[VInt w]" sz m buf "''%ld''"] t l assms by (simp add: snprintf_def)
  ultimately show ?thesis
    by (auto simp: atol_int_text)
qed

text \<open>
  \<open>binstr\<close> never fails its size assertion, and its output without the group separators is the
  binary representation of the word, most significant bit first.
\<close>

theorem binstr_shows_bits:
  "\<exists>out. binstr x = Ret out \<and> length out = BINSTR_SZ - 1
     \<and> map (\<lambda>c. c = CHR ''1'') (filter (\<lambda>c. c \<noteq> CHR 0x27) out) = map (bit x) (rev [0..<64])"
proof (intro exI conjI)
  have l: "length (binstr_loop x 64) = 79"
    using binstr_loop_length [of 64 x] by simp
  show "binstr x = Ret (binstr_loop x 64)"
    using l by (simp add: binstr_def Let_def BINSTR_SZ_def del: binstr_loop.simps)
  show "length (binstr_loop x 64) = BINSTR_SZ - 1"
    using l by (simp add: BINSTR_SZ_def)
  show "map (\<lambda>c. c = CHR ''1'') (filter (\<lambda>c. c \<noteq> CHR 0x27) (binstr_loop x 64)) = map (bit x) (rev [0..<64])"
    unfolding binstr_loop_digits [OF order_refl] map_map o_def by (rule map_cong) auto
qed

end
