(* ===== verification/Report.thy ===== *)
theory Report
  imports Printf
begin

text \<open>
  The result reporting of \<^verbatim>\<open>lib/report.c\<close>: the counters, the stack of prefixes kept in one character
  array, and the exit code of the summary. The array keeps its characters past the NUL, as in the
  C code; \<open>cstr_at\<close> reads the string that starts at an index. The spinlock protects each call from
  the other processors and is left out: a call is one atomic step.
\<close>

section \<open>Character arrays\<close>

definition cstr_at :: "string \<Rightarrow> nat \<Rightarrow> string" where
  "cstr_at arr i = takeWhile (\<lambda>c. c \<noteq> NUL) (drop i arr)"

definition arr_write :: "string \<Rightarrow> nat \<Rightarrow> string \<Rightarrow> string" where
  "arr_write arr i s = take i arr @ s @ drop (i + length s) arr"

lemma cstr_at_nonempty: "cstr_at arr q \<noteq> [] \<Longrightarrow> q < length arr"
  by (rule ccontr) (simp add: cstr_at_def)

section \<open>State and operations\<close>

record report_state =
  tests :: u32
  failures :: u32
  xfailures :: u32
  skipped :: u32
  prefixes :: string
  console :: string

definition PREFIX_DELIMITER :: string where
  "PREFIX_DELIMITER = '': ''"

definition PREFIXES_SZ :: nat where
  "PREFIXES_SZ = 256"

definition report_init :: report_state where
  "report_init = \<lparr>tests = 0, failures = 0, xfailures = 0, skipped = 0,
     prefixes = replicate PREFIXES_SZ NUL, console = []\<rparr>"

definition report_pass :: "report_state \<Rightarrow> report_state" where
  "report_pass s = s\<lparr>tests := tests s + 1\<rparr>"

definition puts :: "report_state \<Rightarrow> string \<Rightarrow> report_state" where
  "puts s t = s\<lparr>console := console s @ t\<rparr>"

definition report_prefix_pushf ::
  "report_state \<Rightarrow> string \<Rightarrow> vararg list \<Rightarrow> report_state outcome" where
  "report_prefix_pushf s prefix_fmt va =
     (let len = length (cstr_at (prefixes s) 0); start = len in
      bind_outcome (assert_that (len < PREFIXES_SZ) ''len < sizeof(prefixes)'') (\<lambda>_.
      bind_outcome (vtext prefix_fmt va) (\<lambda>t.
      let arr = arr_write (prefixes s) len (take (PREFIXES_SZ - len - 1) t @ [NUL]);
          len = len + length t in
      bind_outcome (assert_that (len < PREFIXES_SZ) ''len < sizeof(prefixes)'') (\<lambda>_.
      bind_outcome (assert_that (first_occ PREFIX_DELIMITER (cstr_at arr start) = None)
        ''!strstr(&prefixes[start], PREFIX_DELIMITER)'') (\<lambda>_.
      bind_outcome (vtext PREFIX_DELIMITER []) (\<lambda>d.
      let arr = arr_write arr len (take (PREFIXES_SZ - len - 1) d @ [NUL]);
          len = len + length d in
      bind_outcome (assert_that (len < PREFIXES_SZ) ''len < sizeof(prefixes)'') (\<lambda>_.
      Ret (s\<lparr>prefixes := arr\<rparr>))))))))"

definition report_prefix_push :: "report_state \<Rightarrow> string \<Rightarrow> report_state outcome" where
  "report_prefix_push s pfx = report_prefix_pushf s ''%s'' [VStr pfx]"

text \<open>
  The loop of \<open>report_prefix_pop\<close>: \<open>p\<close> is the index of the last prefix found so far. A string
  without delimiter would make \<^verbatim>\<open>strstr\<close> return NULL, which the code then dereferences.
\<close>

function pop_loop :: "string \<Rightarrow> nat \<Rightarrow> nat outcome" where
  "pop_loop arr p =
     (case first_occ PREFIX_DELIMITER (cstr_at arr p) of
        None \<Rightarrow> Abort ''NULL dereference''
      | Some i \<Rightarrow> let q = p + i + 2 in if cstr_at arr q = [] then Ret p else pop_loop arr q)"
  by pat_completeness auto

termination
  by (relation "measure (\<lambda>(arr, p). length arr - p)") (auto dest: cstr_at_nonempty)

declare pop_loop.simps [simp del]

definition report_prefix_pop :: "report_state \<Rightarrow> report_state outcome" where
  "report_prefix_pop s =
     (if cstr_at (prefixes s) 0 = [] then Ret s
      else bind_outcome (pop_loop (prefixes s) 0) (\<lambda>p. Ret (s\<lparr>prefixes := (prefixes s)[p := NUL]\<rparr>)))"

definition va_report ::
  "report_state \<Rightarrow> string \<Rightarrow> bool \<Rightarrow> bool \<Rightarrow> bool \<Rightarrow> vararg list \<Rightarrow> report_state outcome" where
  "va_report s msg_fmt pass xfail skip va =
     (let prefix = (if skip then ''SKIP''
                    else if xfail then (if pass then ''XPASS'' else ''XFAIL'')
                    else (if pass then ''PASS'' else ''FAIL''));
          s = s\<lparr>tests := tests s + 1\<rparr> in
      bind_outcome (printf_out ''%s: '' [VStr prefix]) (\<lambda>h.
      let s = puts (puts s h) (cstr_at (prefixes s) 0) in
      bind_outcome (printf_out msg_fmt va) (\<lambda>msg.
      let s = puts (puts s msg) [CHR 0x0A] in
      Ret (if skip then s\<lparr>skipped := skipped s + 1\<rparr>
           else if xfail \<and> \<not> pass then s\<lparr>xfailures := xfailures s + 1\<rparr>
           else if xfail \<or> \<not> pass then s\<lparr>failures := failures s + 1\<rparr>
           else s))))"

definition report where
  "report s msg_fmt pass va = va_report s msg_fmt pass False False va"

definition report_xfail where
  "report_xfail s msg_fmt xfail pass va = va_report s msg_fmt pass xfail False va"

definition report_skip where
  "report_skip s msg_fmt va = va_report s msg_fmt False False True va"

definition report_info :: "report_state \<Rightarrow> string \<Rightarrow> vararg list \<Rightarrow> report_state outcome" where
  "report_info s msg_fmt va =
     (let s = puts (puts s ''INFO: '') (cstr_at (prefixes s) 0) in
      bind_outcome (printf_out msg_fmt va) (\<lambda>msg. Ret (puts (puts s msg) [CHR 0x0A])))"

definition count_line :: "report_state \<Rightarrow> string \<Rightarrow> u32 \<Rightarrow> report_state outcome" where
  "count_line s fmt n =
     (if n \<noteq> 0 then bind_outcome (printf_out fmt [VInt (ucast n)]) (\<lambda>t. Ret (puts s t)) else Ret s)"

definition report_summary :: "report_state \<Rightarrow> (report_state \<times> int) outcome" where
  "report_summary s =
     bind_outcome (printf_out ''SUMMARY: %d tests'' [VInt (ucast (tests s))]) (\<lambda>t.
     bind_outcome (count_line (puts s t) '', %d unexpected failures'' (failures s)) (\<lambda>s.
     bind_outcome (count_line s '', %d expected failures'' (xfailures s)) (\<lambda>s.
     bind_outcome (count_line s '', %d skipped'' (skipped s)) (\<lambda>s.
     let s = puts s [CHR 0x0A] in
     if tests s = skipped s then Ret (s, 38)
     else Ret (s, if failures s > 0 then 1 else 0)))))"

definition report_abort :: "report_state \<Rightarrow> string \<Rightarrow> vararg list \<Rightarrow> report_state outcome" where
  "report_abort s msg_fmt va =
     (let s = puts (puts s ''ABORT: '') (cstr_at (prefixes s) 0) in
      bind_outcome (printf_out msg_fmt va) (\<lambda>msg.
      bind_outcome (report_summary (puts (puts s msg) [CHR 0x0A])) (\<lambda>_. Abort ''abort'')))"

section \<open>The prefix array as a stack\<close>

definition join :: "string list \<Rightarrow> string" where
  "join ps = concat (map (\<lambda>p. p @ PREFIX_DELIMITER) ps)"

definition piece_ok :: "string \<Rightarrow> bool" where
  "piece_ok p \<longleftrightarrow> NUL \<notin> set p \<and> \<not> sublist PREFIX_DELIMITER p"

text \<open>The array holds the pushed prefixes \<open>ps\<close>, each followed by the delimiter.\<close>

definition holds :: "string \<Rightarrow> string list \<Rightarrow> bool" where
  "holds arr ps \<longleftrightarrow> length arr = PREFIXES_SZ \<and> (\<forall>p \<in> set ps. piece_ok p)
     \<and> length (join ps) < PREFIXES_SZ \<and> take (Suc (length (join ps))) arr = join ps @ [NUL]"

lemma join_simps [simp]:
  "join [] = []" "join (ps @ qs) = join ps @ join qs" "join [p] = p @ PREFIX_DELIMITER"
  "join (p # ps) = p @ PREFIX_DELIMITER @ join ps"
  by (simp_all add: join_def)

lemma join_no_NUL: "(\<forall>p \<in> set ps. piece_ok p) \<Longrightarrow> NUL \<notin> set (join ps)"
  by (induction ps) (auto simp: piece_ok_def PREFIX_DELIMITER_def)

lemma holdsE:
  assumes "holds arr ps"
  obtains rest where "arr = join ps @ NUL # rest" and "NUL \<notin> set (join ps)"
    and "length rest = PREFIXES_SZ - 1 - length (join ps)"
proof -
  define rest where "rest = drop (Suc (length (join ps))) arr"
  have "take (Suc (length (join ps))) arr @ rest = arr"
    by (simp add: rest_def)
  then have "arr = join ps @ NUL # rest"
    using assms by (simp add: holds_def)
  then show thesis
    using that assms join_no_NUL by (simp add: holds_def rest_def)
qed

lemma cstr_at_append:
  assumes "NUL \<notin> set t" and "i \<le> length t"
  shows "cstr_at (t @ NUL # rest) i = drop i t"
proof -
  have "\<forall>c \<in> set (drop i t). c \<noteq> NUL"
    using assms(1) set_drop_subset [of i t] by auto
  then show ?thesis
    using assms(2) by (simp add: cstr_at_def takeWhile_append2)
qed

lemma holds_string: "holds arr ps \<Longrightarrow> cstr_at arr 0 = join ps"
  by (erule holdsE) (simp add: cstr_at_append)

lemma first_occ_piece:
  assumes "piece_ok p"
  shows "first_occ PREFIX_DELIMITER (p @ PREFIX_DELIMITER @ t) = Some (length p)"
  unfolding first_occ_Some_iff
proof (intro conjI allI impI)
  fix j
  assume j: "j < length p"
  show "\<not> prefix PREFIX_DELIMITER (drop j (p @ PREFIX_DELIMITER @ t))"
  proof (cases "Suc j < length p")
    case True
    have "drop j p = p ! j # p ! Suc j # drop (Suc (Suc j)) p"
      using True j by (simp add: Cons_nth_drop_Suc)
    moreover have "\<not> prefix PREFIX_DELIMITER (drop j p)"
      using assms suffix_drop [of j p] by (auto simp: piece_ok_def sublist_altdef')
    ultimately show ?thesis
      using j by (simp add: PREFIX_DELIMITER_def)
  next
    case False
    then have "drop j p = [p ! j]"
      using j Cons_nth_drop_Suc [of j p] by simp
    then show ?thesis
      using j by (simp add: PREFIX_DELIMITER_def)
  qed
qed simp_all

lemma arr_write_end:
  assumes "length s \<le> Suc (length rest)"
  shows "arr_write (t @ NUL # rest) (length t) s = t @ s @ drop (length s) (NUL # rest)"
  by (simp add: arr_write_def)

lemma vtext_delimiter [simp]: "vtext PREFIX_DELIMITER [] = Ret PREFIX_DELIMITER"
  by (simp add: vtext_def PREFIX_DELIMITER_def parse_fmt.simps)

lemma pushf_holds:
  assumes "holds (prefixes s) ps" and "vtext fmt va = Ret t" and "NUL \<notin> set t"
  shows "report_prefix_pushf s fmt va =
    (if \<not> length (join ps) + length t < PREFIXES_SZ then Abort ''len < sizeof(prefixes)''
     else if sublist PREFIX_DELIMITER t then Abort ''!strstr(&prefixes[start], PREFIX_DELIMITER)''
     else if \<not> length (join ps) + length t + 2 < PREFIXES_SZ then Abort ''len < sizeof(prefixes)''
     else Ret (s\<lparr>prefixes := join (ps @ [t]) @ NUL # drop (Suc (length (join (ps @ [t])))) (prefixes s)\<rparr>))"
proof -
  obtain rest where r: "prefixes s = join ps @ NUL # rest" "NUL \<notin> set (join ps)"
      "length rest = PREFIXES_SZ - 1 - length (join ps)"
    using holdsE [OF assms(1)] .
  let ?l = "length (join ps)" and ?D = PREFIX_DELIMITER
  have len: "?l < PREFIXES_SZ"
    using assms(1) by (simp add: holds_def)
  have str: "cstr_at (prefixes s) 0 = join ps"
    using assms(1) by (rule holds_string)
  show ?thesis
  proof (cases "?l + length t < PREFIXES_SZ")
    case False
    then show ?thesis
      by (simp add: report_prefix_pushf_def str len assms(2) Let_def)
  next
    case True
    define arr where "arr = (join ps @ t) @ NUL # drop (length t) rest"
    have w: "arr_write (prefixes s) ?l (t @ [NUL]) = arr"
      using True r(3) by (simp add: r(1) arr_write_end arr_def)
    have c: "first_occ ?D (cstr_at arr ?l) = None \<longleftrightarrow> \<not> sublist ?D t"
      unfolding arr_def using r(2) assms(3) by (subst cstr_at_append) (auto simp: first_occ_None_iff)
    have d: "arr_write arr (?l + length t) (?D @ [NUL])
        = join (ps @ [t]) @ NUL # drop (Suc (length (join (ps @ [t])))) (prefixes s)"
      if "?l + length t + 2 < PREFIXES_SZ"
      using that r arr_write_end [of "?D @ [NUL]" "drop (length t) rest" "join ps @ t"]
      by (simp add: arr_def PREFIX_DELIMITER_def numeral_3_eq_3)
    have D: "length ?D = 2"
      by (simp add: PREFIX_DELIMITER_def)
    show ?thesis
      using True len d by (simp add: report_prefix_pushf_def str assms(2) Let_def w c D)
  qed
qed

lemma pushf_keeps_holds:
  assumes "holds (prefixes s) ps" and "vtext fmt va = Ret t" and "NUL \<notin> set t"
    and "report_prefix_pushf s fmt va = Ret s'"
  shows "holds (prefixes s') (ps @ [t])"
proof -
  have c: "length (join ps) + length t + 2 < PREFIXES_SZ" "\<not> sublist PREFIX_DELIMITER t"
    and s': "s' = s\<lparr>prefixes := join (ps @ [t]) @ NUL # drop (Suc (length (join (ps @ [t])))) (prefixes s)\<rparr>"
    using assms(4) unfolding pushf_holds [OF assms(1-3)] by (auto split: if_splits)
  then show ?thesis
    using assms(1,3) by (auto simp: holds_def piece_ok_def PREFIX_DELIMITER_def)
qed

lemma pop_loop_holds:
  assumes "holds arr (qs @ rs @ [t])"
  shows "pop_loop arr (length (join qs)) = Ret (length (join (qs @ rs)))"
  using assms
proof (induction rs arbitrary: qs)
  case Nil
  obtain rest where r: "arr = join (qs @ [t]) @ NUL # rest" "NUL \<notin> set (join (qs @ [t]))"
    using Nil by (auto elim: holdsE)
  have "piece_ok t"
    using Nil by (simp add: holds_def)
  then have "first_occ PREFIX_DELIMITER (cstr_at arr (length (join qs))) = Some (length t)"
    using first_occ_piece [of t "[]"] r(2) unfolding r(1) by (subst cstr_at_append) simp_all
  moreover have "cstr_at arr (length (join qs) + length t + 2) = []"
    using r(2) unfolding r(1) by (subst cstr_at_append) (simp_all add: PREFIX_DELIMITER_def)
  ultimately show ?case
    by (simp add: pop_loop.simps [of arr "length (join qs)"] Let_def)
next
  case (Cons p rs)
  let ?T = "join (qs @ (p # rs) @ [t])"
  obtain rest where r: "arr = ?T @ NUL # rest" "NUL \<notin> set ?T"
    using Cons.prems by (auto elim: holdsE)
  have "piece_ok p"
    using Cons.prems by (simp add: holds_def)
  then have "first_occ PREFIX_DELIMITER (cstr_at arr (length (join qs))) = Some (length p)"
    using first_occ_piece [of p "join (rs @ [t])"] r(2) unfolding r(1) by (subst cstr_at_append) simp_all
  moreover have "cstr_at arr (length (join qs) + length p + 2) \<noteq> []"
    using r(2) unfolding r(1) by (subst cstr_at_append) (simp_all add: PREFIX_DELIMITER_def)
  moreover have "pop_loop arr (length (join (qs @ [p]))) = Ret (length (join ((qs @ [p]) @ rs)))"
    using Cons.prems by (intro Cons.IH) simp
  ultimately show ?case
    by (simp add: pop_loop.simps [of arr "length (join qs)"] Let_def PREFIX_DELIMITER_def add.assoc)
qed

lemma pop_holds:
  assumes "holds (prefixes s) (ps @ [t])"
  shows "report_prefix_pop s = Ret (s\<lparr>prefixes := (prefixes s)[length (join ps) := NUL]\<rparr>)"
    and "holds ((prefixes s)[length (join ps) := NUL]) ps"
proof -
  obtain rest where r: "prefixes s = join (ps @ [t]) @ NUL # rest"
    using assms by (auto elim: holdsE)
  have "cstr_at (prefixes s) 0 \<noteq> []"
    using holds_string [OF assms] by (simp add: PREFIX_DELIMITER_def)
  then show "report_prefix_pop s = Ret (s\<lparr>prefixes := (prefixes s)[length (join ps) := NUL]\<rparr>)"
    using pop_loop_holds [of "prefixes s" "[]" ps t] assms by (simp add: report_prefix_pop_def)
  show "holds ((prefixes s)[length (join ps) := NUL]) ps"
    using assms by (cases t) (auto simp: holds_def r PREFIX_DELIMITER_def list_update_append)
qed

section \<open>Sequences of reports\<close>

datatype event =
    EvPass
  | EvReport string bool "vararg list"
  | EvXfail string bool bool "vararg list"
  | EvSkip string "vararg list"
  | EvInfo string "vararg list"
  | EvPush string "vararg list"
  | EvPop

primrec event_step :: "report_state \<Rightarrow> event \<Rightarrow> report_state outcome" where
  "event_step s EvPass = Ret (report_pass s)"
| "event_step s (EvReport fmt pass va) = report s fmt pass va"
| "event_step s (EvXfail fmt xfail pass va) = report_xfail s fmt xfail pass va"
| "event_step s (EvSkip fmt va) = report_skip s fmt va"
| "event_step s (EvInfo fmt va) = report_info s fmt va"
| "event_step s (EvPush fmt va) = report_prefix_pushf s fmt va"
| "event_step s EvPop = report_prefix_pop s"

primrec run_events :: "report_state \<Rightarrow> event list \<Rightarrow> report_state outcome" where
  "run_events s [] = Ret s"
| "run_events s (e # es) = bind_outcome (event_step s e) (\<lambda>s. run_events s es)"

text \<open>Which events count as a test, as an unexpected result, as an expected failure, as skipped.\<close>

primrec is_test :: "event \<Rightarrow> bool" where
  "is_test EvPass = True"
| "is_test (EvReport fmt pass va) = True"
| "is_test (EvXfail fmt xfail pass va) = True"
| "is_test (EvSkip fmt va) = True"
| "is_test (EvInfo fmt va) = False"
| "is_test (EvPush fmt va) = False"
| "is_test EvPop = False"

definition is_unexpected :: "event \<Rightarrow> bool" where
  "is_unexpected e = (case e of EvReport _ pass _ \<Rightarrow> \<not> pass | EvXfail _ xfail pass _ \<Rightarrow> xfail = pass | _ \<Rightarrow> False)"

definition is_expected_failure :: "event \<Rightarrow> bool" where
  "is_expected_failure e = (case e of EvXfail _ xfail pass _ \<Rightarrow> xfail \<and> \<not> pass | _ \<Rightarrow> False)"

definition is_skip :: "event \<Rightarrow> bool" where
  "is_skip e = (case e of EvSkip _ _ \<Rightarrow> True | _ \<Rightarrow> False)"

abbreviation count_if :: "('a \<Rightarrow> bool) \<Rightarrow> 'a list \<Rightarrow> nat" where
  "count_if P xs \<equiv> length (filter P xs)"

lemma puts_sel [simp]:
  "tests (puts s t) = tests s" "failures (puts s t) = failures s" "xfailures (puts s t) = xfailures s"
  "skipped (puts s t) = skipped s" "prefixes (puts s t) = prefixes s"
  by (simp_all add: puts_def)

lemma va_report_counts:
  assumes "va_report s fmt pass xfail skip va = Ret s'"
  shows "tests s' = tests s + 1"
    and "skipped s' = skipped s + (if skip then 1 else 0)"
    and "xfailures s' = xfailures s + (if \<not> skip \<and> xfail \<and> \<not> pass then 1 else 0)"
    and "failures s' = failures s + (if \<not> skip \<and> xfail = pass then 1 else 0)"
  using assms
  by (cases skip; cases xfail; cases pass; auto simp: va_report_def Let_def bind_outcome_Ret_iff)+

lemma pushf_counts:
  assumes "report_prefix_pushf s fmt va = Ret s'"
  shows "tests s' = tests s" "skipped s' = skipped s" "xfailures s' = xfailures s" "failures s' = failures s"
  using assms by (auto simp: report_prefix_pushf_def Let_def bind_outcome_Ret_iff)

lemma event_step_counts:
  assumes "event_step s e = Ret s'"
  shows "tests s' = tests s + of_nat (count_if is_test [e])"
    and "failures s' = failures s + of_nat (count_if is_unexpected [e])"
    and "xfailures s' = xfailures s + of_nat (count_if is_expected_failure [e])"
    and "skipped s' = skipped s + of_nat (count_if is_skip [e])"
  using assms
  by (cases e; auto simp: report_pass_def report_def report_xfail_def report_skip_def report_info_def
      report_prefix_pop_def Let_def bind_outcome_Ret_iff va_report_counts pushf_counts
      is_unexpected_def is_expected_failure_def is_skip_def split: if_splits)+

lemma run_events_counts:
  assumes "run_events s es = Ret s'"
  shows "tests s' = tests s + of_nat (count_if is_test es)
    \<and> failures s' = failures s + of_nat (count_if is_unexpected es)
    \<and> xfailures s' = xfailures s + of_nat (count_if is_expected_failure es)
    \<and> skipped s' = skipped s + of_nat (count_if is_skip es)"
  using assms
proof (induction es arbitrary: s)
  case (Cons e es)
  then obtain s1 where s1: "event_step s e = Ret s1" "run_events s1 es = Ret s'"
    by (auto simp: bind_outcome_Ret_iff)
  show ?case
    using Cons.IH [OF s1(2)] event_step_counts [OF s1(1)] by (auto simp: ac_simps)
qed simp

section \<open>The summary\<close>

lemma render_count:
  "\<exists>t. render (map Lit a @ Conv (CHR ''d'') 0 pr # map Lit b) [VInt w] = Ret t"
proof (induction a)
  case Nil
  have "\<exists>t. render (map Lit b) va = Ret t" for va
    by (induction b) auto
  moreover have "va_int 0 w \<noteq> - (2 ^ 63)"
    using sint_greater_eq [of "ucast w :: u32"] by (simp add: va_int_def)
  ultimately show ?case
    by (simp add: conv_text_def) (metis bind_outcome.simps(1))
qed auto

lemma summary_formats:
  "\<exists>a b. parse_fmt ''SUMMARY: %d tests'' = map Lit a @ Conv (CHR ''d'') 0 props0 # map Lit b"
  "\<exists>a b. parse_fmt '', %d unexpected failures'' = map Lit a @ Conv (CHR ''d'') 0 props0 # map Lit b"
  "\<exists>a b. parse_fmt '', %d expected failures'' = map Lit a @ Conv (CHR ''d'') 0 props0 # map Lit b"
  "\<exists>a b. parse_fmt '', %d skipped'' = map Lit a @ Conv (CHR ''d'') 0 props0 # map Lit b"
  subgoal by (rule exI [of _ "''SUMMARY: ''"], rule exI [of _ "'' tests''"])
      (simp add: parse_fmt.simps parse_conv.simps is_digit_def cval_def)
  subgoal by (rule exI [of _ "'', ''"], rule exI [of _ "'' unexpected failures''"])
      (simp add: parse_fmt.simps parse_conv.simps is_digit_def cval_def)
  subgoal by (rule exI [of _ "'', ''"], rule exI [of _ "'' expected failures''"])
      (simp add: parse_fmt.simps parse_conv.simps is_digit_def cval_def)
  subgoal by (rule exI [of _ "'', ''"], rule exI [of _ "'' skipped''"])
      (simp add: parse_fmt.simps parse_conv.simps is_digit_def cval_def)
  done

lemma printf_count:
  assumes "\<exists>a b. parse_fmt fmt = map Lit a @ Conv (CHR ''d'') 0 props0 # map Lit b"
  shows "\<exists>t. printf_out fmt [VInt w] = Ret t"
proof -
  obtain a b where ab: "parse_fmt fmt = map Lit a @ Conv (CHR ''d'') 0 props0 # map Lit b"
    using assms by blast
  show ?thesis
    using render_count [of a props0 b w] by (auto simp: printf_out_def vtext_def ab)
qed

lemma count_line_keeps:
  assumes "\<exists>a b. parse_fmt fmt = map Lit a @ Conv (CHR ''d'') 0 props0 # map Lit b"
  shows "\<exists>t. count_line s fmt n = Ret (puts s t)"
  using printf_count [OF assms, of "ucast n"]
  by (cases "n = 0") (auto simp: count_line_def puts_def intro: exI [of _ "[]"])

lemma report_summary_code:
  "\<exists>s'. report_summary s = Ret (s', if tests s = skipped s then 38 else if failures s > 0 then 1 else 0)"
proof -
  obtain t0 where t0: "printf_out ''SUMMARY: %d tests'' [VInt (ucast (tests s))] = Ret t0"
    using printf_count [OF summary_formats(1)] by blast
  obtain t1 where t1: "count_line (puts s t0) '', %d unexpected failures'' (failures s) = Ret (puts (puts s t0) t1)"
    using count_line_keeps [OF summary_formats(2)] by blast
  obtain t2 where t2: "count_line (puts (puts s t0) t1) '', %d expected failures'' (xfailures s) = Ret (puts (puts (puts s t0) t1) t2)"
    using count_line_keeps [OF summary_formats(3)] by blast
  obtain t3 where t3: "count_line (puts (puts (puts s t0) t1) t2) '', %d skipped'' (skipped s)
      = Ret (puts (puts (puts (puts s t0) t1) t2) t3)"
    using count_line_keeps [OF summary_formats(4)] by blast
  show ?thesis
    by (auto simp: report_summary_def t0 t1 t2 t3 Let_def)
qed

section \<open>Properties\<close>



text \<open>
  C37: after any sequence of fewer than \<open>2 ^ 32\<close> reports from the initial state, the summary returns
  and its exit code is 38 when every test was skipped (or there was none), else 1 when some result
  was unexpected (a plain failure, or an expected failure that passed), else 0.
\<close>

theorem summary_exit_code:
  assumes "run_events report_init es = Ret s" and "length es < 2 ^ 32"
  shows "\<exists>s'. report_summary s = Ret (s',
    if count_if is_test es = count_if is_skip es then 38
    else if \<exists>e \<in> set es. is_unexpected e then 1 else 0)"
proof -
  have le: "count_if P es < 2 ^ 32" for P :: "event \<Rightarrow> bool"
    using length_filter_le [of P es] assms(2) by (rule le_less_trans)
  have inj: "(of_nat (count_if P es) :: u32) = of_nat (count_if Q es) \<longleftrightarrow> count_if P es = count_if Q es"
    for P Q :: "event \<Rightarrow> bool"
    using le [of P] le [of Q] by (simp add: word_of_nat_eq_iff take_bit_nat_eq_self)
  have "(of_nat (count_if is_unexpected es) :: u32) = 0 \<longleftrightarrow> \<not> (\<exists>e \<in> set es. is_unexpected e)"
    using inj [of is_unexpected "\<lambda>_. False"] by (simp add: filter_empty_conv)
  moreover have "tests s = of_nat (count_if is_test es)" "skipped s = of_nat (count_if is_skip es)"
      "failures s = of_nat (count_if is_unexpected es)"
    using run_events_counts [OF assms(1)] by (simp_all add: report_init_def)
  ultimately show ?thesis
    using report_summary_code [of s] inj [of is_test is_skip] by (auto simp: word_gt_0 split: if_splits)
qed

theorem summary_exit_code_witness:
  "\<exists>s s'. run_events report_init [EvPass, EvSkip ''x'' [], EvReport ''y'' False []] = Ret s
     \<and> report_summary s = Ret (s', 1)"
proof -
  have p: "printf_out ''%s: '' [VStr t] = Ret (takeWhile (\<lambda>c. c \<noteq> NUL) (take 1999 (t @ '': '')))" for t
    by (simp add: printf_out_def BUFSZ_def vtext_def parse_fmt.simps parse_conv.simps is_digit_def cval_def
        conv_text_def pad_text_def props0_def)
  have q: "printf_out [c] [] = Ret (takeWhile (\<lambda>c. c \<noteq> NUL) [c])" if "c \<noteq> CHR ''%''" for c
    using that by (simp add: printf_out_def BUFSZ_def vtext_def parse_fmt.simps)
  have "\<exists>s. run_events report_init [EvPass, EvSkip ''x'' [], EvReport ''y'' False []] = Ret s"
    by (simp add: report_skip_def report_def va_report_def Let_def p q)
  then show ?thesis
    using summary_exit_code [of "[EvPass, EvSkip ''x'' [], EvReport ''y'' False []]"]
    by (auto simp: is_skip_def is_unexpected_def)
qed

end
