(* ===== verification/Argv.thy ===== *)
theory Argv
  imports Report
begin

text \<open>
  Arguments and environment of a guest, from \<^verbatim>\<open>lib/argv.c\<close>. The argument copies live in one buffer,
  and an entry of \<^verbatim>\<open>__argv\<close> or \<^verbatim>\<open>__environ\<close> is the offset of its first character. Reading past
  the end of the environment text gives NUL, as the loader leaves it.
\<close>

section \<open>Character classes\<close>

definition isblank :: "char \<Rightarrow> bool" where
  "isblank c \<longleftrightarrow> c = CHR '' '' \<or> c = CHR 0x09"

definition isalpha :: "char \<Rightarrow> bool" where
  "isalpha c \<longleftrightarrow> (cval c \<ge> 65 \<and> cval c \<le> 90) \<or> (cval c \<ge> 97 \<and> cval c \<le> 122) \<or> c = CHR ''_''"

definition isalnum :: "char \<Rightarrow> bool" where
  "isalnum c \<longleftrightarrow> isalpha c \<or> (cval c \<ge> 48 \<and> cval c \<le> 57)"

section \<open>Arguments\<close>

text \<open>\<open>args_copy\<close> holds the characters up to \<^verbatim>\<open>copy_ptr\<close>.\<close>

record args_state =
  argv :: "nat list"
  args_copy :: string

definition skip_blanks :: "string \<Rightarrow> string" where
  "skip_blanks p = dropWhile isblank p"

lemma skip_word_shorter:
  assumes "skip_blanks args \<noteq> []"
  shows "length (dropWhile (\<lambda>c. \<not> isblank c) (skip_blanks args)) < length args"
proof -
  have "\<not> isblank (hd (skip_blanks args))"
    using assms hd_dropWhile [of isblank args] by (simp add: skip_blanks_def)
  then have "length (dropWhile (\<lambda>c. \<not> isblank c) (skip_blanks args)) < length (skip_blanks args)"
    using assms by (cases "skip_blanks args") (simp_all add: length_dropWhile_le less_Suc_eq_le)
  then show ?thesis
    using length_dropWhile_le [of isblank args] by (simp add: skip_blanks_def)
qed

function setup_args_loop :: "string \<Rightarrow> args_state \<Rightarrow> args_state" where
  "setup_args_loop args s =
     (let args = skip_blanks args
      in if args = [] then s
         else setup_args_loop (dropWhile (\<lambda>c. \<not> isblank c) args)
           \<lparr>argv = argv s @ [length (args_copy s)],
            args_copy = args_copy s @ takeWhile (\<lambda>c. \<not> isblank c) args @ [NUL]\<rparr>)"
  by pat_completeness auto

termination
  by (relation "measure (\<lambda>(args, s). length args)") (use skip_word_shorter in auto)

declare setup_args_loop.simps [simp del]

definition setup_args :: "string option \<Rightarrow> args_state \<Rightarrow> args_state" where
  "setup_args args s = (case args of None \<Rightarrow> s | Some a \<Rightarrow> setup_args_loop a s)"

definition add_setup_arg :: "string \<Rightarrow> args_state \<Rightarrow> args_state" where
  "add_setup_arg arg s =
     \<lparr>argv = argv s @ [length (args_copy s)], args_copy = args_copy s @ arg @ [NUL]\<rparr>"

definition setup_args_progname :: "string \<Rightarrow> string option \<Rightarrow> args_state \<Rightarrow> args_state" where
  "setup_args_progname progname args s = setup_args args (add_setup_arg progname s)"

definition argv_strings :: "args_state \<Rightarrow> string list" where
  "argv_strings s = map (cstr_at (args_copy s)) (argv s)"

section \<open>Environment\<close>

text \<open>The scans return the number of characters they move the pointer by.\<close>

definition env_eol :: "string \<Rightarrow> nat" where
  "env_eol env = length (takeWhile (\<lambda>c. c \<noteq> NUL \<and> c \<noteq> NL) env)"

text \<open>The line is terminated for the message and restored after it.\<close>

definition env_invalid_eol :: "string \<Rightarrow> nat \<times> string" where
  "env_invalid_eol env =
     (let eol = env_eol env
      in (eol, case printf_out (''Invalid environment variable: %s'' @ [NL]) [VStr (take eol env)] of
                 Ret t \<Rightarrow> t | Abort _ \<Rightarrow> []))"

function env_next :: "string \<Rightarrow> nat \<times> string" where
  "env_next env =
     (if cur env = NUL then (0, [])
      else if isalpha (cur env) then
        let name = takeWhile (\<lambda>c. c \<noteq> NUL \<and> c \<noteq> CHR ''='' \<and> c \<noteq> NL) (tl env);
            p = drop (length name) (tl env);
            invalid = (\<not> list_all isalnum name \<or> cur p \<noteq> CHR ''='')
        in if invalid then
             let (e, out) = env_invalid_eol env
             in if cur (drop e env) \<noteq> NUL
                then let (k, out') = env_next (drop (e + 1) env) in (e + 1 + k, out @ out')
                else (e, out)
           else (0, [])
      else
        let b = length (takeWhile isblank env); p = drop b env
        in if cur p = NL then let (k, out) = env_next (drop (b + 1) env) in (b + 1 + k, out)
           else
             let (e, out) = (if cur p = CHR ''#'' then (env_eol env, []) else env_invalid_eol env)
             in if cur (drop e env) \<noteq> NUL
                then let (k, out') = env_next (drop (e + 1) env) in (e + 1 + k, out @ out')
                else (e, out))"
  by pat_completeness auto

termination
  by (relation "measure length") (auto simp: cur_def diff_less split: list.splits)

declare env_next.simps [simp del]

record env_state =
  env_buf :: string
  environ :: "nat list"
  env_out :: string

definition env_char :: "string \<Rightarrow> nat \<Rightarrow> char" where
  "env_char buf i = cur (drop i buf)"

text \<open>One entry ends at the end of the text, at a NUL, or at a newline in newline mode.\<close>

definition env_entry_end :: "string \<Rightarrow> nat \<Rightarrow> bool \<Rightarrow> nat \<Rightarrow> nat" where
  "env_entry_end buf eof newline env =
     env + length (takeWhile (\<lambda>c. c \<noteq> NUL \<and> \<not> (newline \<and> c = NL)) (take (eof - env) (drop env buf)))"

function setup_env_loop :: "nat \<Rightarrow> bool \<Rightarrow> nat \<Rightarrow> env_state \<Rightarrow> env_state" where
  "setup_env_loop eof newline env s =
     (if env < eof then
        let (k, out) = (if newline then env_next (drop env (env_buf s)) else (0, []));
            env = env + k;
            s = s\<lparr>env_out := env_out s @ out\<rparr>
        in if env_char (env_buf s) env = NUL \<or> env \<ge> eof then s
           else
             let s = s\<lparr>environ := environ s @ [env]\<rparr>;
                 e = env_entry_end (env_buf s) eof newline env
             in setup_env_loop eof newline (e + 1) (s\<lparr>env_buf := (env_buf s)[e := NUL]\<rparr>)
      else s)"
  by pat_completeness auto

termination
  by (relation "measure (\<lambda>(eof, newline, env, s). eof - env)") (auto simp: env_entry_end_def split: if_splits)

declare setup_env_loop.simps [simp del]

definition setup_env :: "string \<Rightarrow> nat \<Rightarrow> env_state" where
  "setup_env env sz =
     (let newline = (length (takeWhile (\<lambda>c. c \<noteq> NUL) env) = sz)
      in setup_env_loop sz newline 0 \<lparr>env_buf = env, environ = [], env_out = []\<rparr>)"

definition environ_strings :: "env_state \<Rightarrow> string list" where
  "environ_strings s = map (cstr_at (env_buf s)) (environ s)"

section \<open>Splitting at blanks\<close>

lemma cstr_at_extend: "NUL \<in> set (drop i a) \<Longrightarrow> cstr_at (a @ b) i = cstr_at a i"
  by (cases "i \<le> length a") (auto simp: cstr_at_def takeWhile_append1)

text \<open>Every argument recorded so far has its NUL in the buffer.\<close>

definition args_ok :: "args_state \<Rightarrow> bool" where
  "args_ok s \<longleftrightarrow> list_all (\<lambda>i. NUL \<in> set (drop i (args_copy s))) (argv s)"

lemma add_arg_strings:
  assumes "args_ok s" and "NUL \<notin> set arg"
  shows "argv_strings (add_setup_arg arg s) = argv_strings s @ [arg]" and "args_ok (add_setup_arg arg s)"
proof -
  have "NUL \<in> set (drop i (args_copy s))" if "i \<in> set (argv s)" for i
    using that assms(1) by (simp add: args_ok_def list_all_iff)
  then show "argv_strings (add_setup_arg arg s) = argv_strings s @ [arg]"
    using cstr_at_append [of arg 0 "[]"] assms(2)
    by (auto simp: argv_strings_def add_setup_arg_def cstr_at_extend) (simp add: cstr_at_def)
  show "args_ok (add_setup_arg arg s)"
    using assms(1) by (auto simp: args_ok_def add_setup_arg_def list_all_iff)
qed

lemma setup_args_loop_word:
  "setup_args_loop args s =
     (let args = skip_blanks args
      in if args = [] then s
         else setup_args_loop (dropWhile (\<lambda>c. \<not> isblank c) args)
           (add_setup_arg (takeWhile (\<lambda>c. \<not> isblank c) args) s))"
  by (subst setup_args_loop.simps) (simp add: add_setup_arg_def Let_def)

text \<open>A command line is a sequence of blank runs and words, and a trailing blank run.\<close>

definition words_ok :: "(string \<times> string) list \<Rightarrow> bool" where
  "words_ok bws \<longleftrightarrow>
     list_all (\<lambda>(b, w). list_all isblank b \<and> w \<noteq> [] \<and> list_all (\<lambda>c. \<not> isblank c \<and> c \<noteq> NUL) w) bws
     \<and> list_all (\<lambda>(b, w). b \<noteq> []) (tl bws)"

definition args_text :: "(string \<times> string) list \<Rightarrow> string \<Rightarrow> string" where
  "args_text bws trail = concat (map (\<lambda>(b, w). b @ w) bws) @ trail"

lemma skip_blanks_append: "list_all isblank b \<Longrightarrow> skip_blanks (b @ t) = skip_blanks t"
  by (induction b) (auto simp: skip_blanks_def)

lemma args_text_hd:
  assumes "words_ok bws" and "list_all (\<lambda>(b, w). b \<noteq> []) bws" and "list_all isblank trail"
  shows "args_text bws trail = [] \<or> isblank (hd (args_text bws trail))"
proof (cases bws)
  case Nil
  then show ?thesis
    using assms(3) by (cases trail) (auto simp: args_text_def)
next
  case (Cons bw r)
  then show ?thesis
    using assms by (cases bw; cases "fst bw") (auto simp: args_text_def words_ok_def)
qed

lemma word_split:
  assumes "list_all (\<lambda>c. \<not> isblank c) w" and "t = [] \<or> isblank (hd t)"
  shows "takeWhile (\<lambda>c. \<not> isblank c) (w @ t) = w" and "dropWhile (\<lambda>c. \<not> isblank c) (w @ t) = t"
  using assms by (induction w) (cases t; auto)+

lemma setup_args_loop_words:
  assumes "words_ok bws" and "list_all isblank trail" and "args_ok s"
  shows "argv_strings (setup_args_loop (args_text bws trail) s) = argv_strings s @ map snd bws"
  using assms
proof (induction bws arbitrary: s)
  case Nil
  then have "skip_blanks trail = []"
    by (simp add: skip_blanks_def list_all_iff)
  then show ?case
    by (simp add: args_text_def setup_args_loop_word [of trail])
next
  case (Cons bw bws)
  obtain b w where bw: "bw = (b, w)"
    by (cases bw)
  let ?t = "args_text bws trail"
  have ok: "words_ok bws" "list_all (\<lambda>(b, w). b \<noteq> []) bws"
    using Cons.prems(1) by (cases bws; auto simp: words_ok_def)+
  have w: "list_all isblank b" "w \<noteq> []" "list_all (\<lambda>c. \<not> isblank c) w" "NUL \<notin> set w"
    using Cons.prems(1) by (auto simp: words_ok_def bw list_all_iff)
  have t: "?t = [] \<or> isblank (hd ?t)"
    using args_text_hd [OF ok Cons.prems(2)] .
  have "\<not> isblank (hd w)"
    using w(2,3) by (cases w) auto
  then have sk: "skip_blanks (args_text (bw # bws) trail) = w @ ?t"
    using w(1,2) by (cases w) (simp_all add: bw args_text_def skip_blanks_append, simp add: skip_blanks_def)
  have "setup_args_loop (args_text (bw # bws) trail) s = setup_args_loop ?t (add_setup_arg w s)"
    using w(2) word_split [OF w(3) t]
    by (subst setup_args_loop_word) (simp only: sk Let_def, simp)
  then show ?case
    using Cons.IH [OF ok(1) Cons.prems(2), of "add_setup_arg w s"] add_arg_strings [OF Cons.prems(3) w(4)]
    by (simp add: bw)
qed

text \<open>The copies need one byte more than the command line at most.\<close>

lemma setup_args_loop_room:
  "length (args_copy (setup_args_loop args s))
     \<le> length (args_copy s) + length args + (if args \<noteq> [] \<and> \<not> isblank (hd args) then 1 else 0)"
proof (induction args s rule: setup_args_loop.induct)
  case (1 args s)
  let ?a = "skip_blanks args" and ?nb = "\<lambda>c. \<not> isblank c"
  show ?case
  proof (cases "?a = []")
    case True
    then show ?thesis
      by (simp add: setup_args_loop_word [of args])
  next
    case False
    let ?t = "dropWhile ?nb ?a" and ?w = "takeWhile ?nb ?a"
    have hd: "?t \<noteq> [] \<Longrightarrow> isblank (hd ?t)"
      using hd_dropWhile [of ?nb ?a] by simp
    have len: "length ?w + length ?t = length ?a"
      by (metis length_append takeWhile_dropWhile_id)
    have "length (args_copy (setup_args_loop ?t (add_setup_arg ?w s)))
        \<le> length (args_copy (add_setup_arg ?w s)) + length ?t"
      using 1 [OF refl] False hd by (auto simp: add_setup_arg_def split: if_splits)
    then have le: "length (args_copy (setup_args_loop args s)) \<le> length (args_copy s) + length ?a + 1"
      using False len by (simp add: setup_args_loop_word [of args] add_setup_arg_def Let_def)
    show ?thesis
    proof (cases "isblank (hd args)")
      case True
      then have "length ?a < length args"
        using False length_dropWhile_le [of isblank "tl args"] by (cases args) (auto simp: skip_blanks_def)
      then show ?thesis
        using le by simp
    next
      case nb: False
      then have "?a = args" "args \<noteq> []"
        using False by (cases args; auto simp: skip_blanks_def)+
      then show ?thesis
        using le nb by simp
    qed
  qed
qed

section \<open>Parsing an environment file\<close>

definition env_line_ok :: "string \<Rightarrow> bool" where
  "env_line_ok l \<longleftrightarrow> l \<noteq> [] \<and> isalpha (hd l) \<and> CHR ''='' \<in> set (tl l)
     \<and> list_all isalnum (takeWhile (\<lambda>c. c \<noteq> CHR ''='') (tl l))"

definition plain_line :: "string \<Rightarrow> bool" where
  "plain_line l \<longleftrightarrow> NUL \<notin> set l \<and> NL \<notin> set l"

definition lines_text :: "string list \<Rightarrow> string" where
  "lines_text ls = concat (map (\<lambda>l. l @ [NL]) ls)"

lemma lines_text_simps [simp]:
  "lines_text [] = []" "lines_text (l # ls) = l @ NL # lines_text ls"
  "lines_text (ls @ ls') = lines_text ls @ lines_text ls'"
  by (simp_all add: lines_text_def)

lemma not_isalpha_NL [simp]: "\<not> isalpha NL" "\<not> isblank NL"
  by (simp_all add: isalpha_def isblank_def cval_def)

lemma env_eol_line: "plain_line l \<Longrightarrow> env_eol (l @ NL # t) = length l"
  by (induction l) (auto simp: env_eol_def plain_line_def)

lemma name_scan:
  assumes "plain_line l"
  shows "takeWhile (\<lambda>c. c \<noteq> NUL \<and> c \<noteq> CHR ''='' \<and> c \<noteq> NL) (l @ NL # t) = takeWhile (\<lambda>c. c \<noteq> CHR ''='') l"
    and "cur (drop (length (takeWhile (\<lambda>c. c \<noteq> CHR ''='') l)) (l @ NL # t)) = CHR ''='' \<longleftrightarrow> CHR ''='' \<in> set l"
  using assms by (induction l) (auto simp: plain_line_def cur_def)

lemma blank_scan:
  assumes "plain_line l"
  shows "length (takeWhile isblank (l @ NL # t)) = length (takeWhile isblank l)"
    and "cur (drop (length (takeWhile isblank l)) (l @ NL # t)) = NL \<longleftrightarrow> list_all isblank l"
  using assms by (induction l) (auto simp: plain_line_def cur_def)

lemma env_next_line:
  assumes "plain_line l"
  shows "fst (env_next (l @ NL # t)) =
    (if env_line_ok l then 0 else length l + 1 + fst (env_next t))"
proof -
  let ?s = "l @ NL # t"
  have e: "env_eol ?s = length l" "fst (env_invalid_eol ?s) = length l"
    using env_eol_line [OF assms] by (simp_all add: env_invalid_eol_def Let_def)
  have d: "drop (Suc (length l)) ?s = t" "cur (drop (length l) ?s) = NL"
    by (simp_all add: cur_def)
  have "cur ?s = (if l = [] then NL else hd l)"
    by (cases l) (simp_all add: cur_def)
  moreover from this have "cur ?s \<noteq> NUL"
    using assms by (cases l) (auto simp: plain_line_def)
  ultimately have c: "cur ?s = (if l = [] then NL else hd l)" "cur ?s \<noteq> NUL"
    by blast+
  show ?thesis
  proof (cases "isalpha (cur ?s)")
    case True
    then obtain c l' where l: "l = c # l'" "isalpha c"
      using c(1) by (cases l) auto
    have p: "plain_line l'"
      using assms by (simp add: plain_line_def l)
    have "env_line_ok l \<longleftrightarrow> list_all isalnum (takeWhile (\<lambda>c. c \<noteq> CHR ''='') l') \<and> CHR ''='' \<in> set l'"
      using l by (auto simp: env_line_ok_def)
    moreover have n: "takeWhile (\<lambda>c. c \<noteq> NUL \<and> c \<noteq> CHR ''='' \<and> c \<noteq> NL) (tl ?s) = takeWhile (\<lambda>c. c \<noteq> CHR ''='') l'"
        "cur (drop (length (takeWhile (\<lambda>c. c \<noteq> CHR ''='') l')) (tl ?s)) = CHR ''='' \<longleftrightarrow> CHR ''='' \<in> set l'"
      using name_scan [OF p, of t] by (simp_all add: l)
    ultimately show ?thesis
      using True c(2) unfolding env_next.simps [of ?s]
      by (simp add: Let_def n split_beta e d del: append.simps drop_append)
  next
    case False
    then have "\<not> env_line_ok l"
      using c(1) by (auto simp: env_line_ok_def)
    moreover have "list_all isblank l \<Longrightarrow> length (takeWhile isblank l) = length l"
      by (induction l) auto
    ultimately show ?thesis
      using False c(2) blank_scan [OF assms, of t] unfolding env_next.simps [of ?s]
      by (auto simp: Let_def split_beta e d simp del: append.simps drop_append)
  qed
qed

lemma env_next_lines:
  assumes "list_all plain_line ls"
  shows "fst (env_next (lines_text ls @ [NUL])) = length (lines_text (takeWhile (\<lambda>l. \<not> env_line_ok l) ls))"
  using assms
proof (induction ls)
  case Nil
  then show ?case
    by (simp add: env_next.simps cur_def)
next
  case (Cons l ls)
  then show ?case
    using env_next_line [of l "lines_text ls @ [NUL]"] by simp
qed

lemma takeWhile_upto: "list_all P xs \<Longrightarrow> \<not> P y \<Longrightarrow> takeWhile P (xs @ y # ys) = xs"
  by (induction xs) auto

lemma setup_env_entry:
  assumes "env_buf s = pre @ lines_text (skip @ l # ls) @ [NUL]" and "list_all plain_line (skip @ l # ls)"
    and "list_all (\<lambda>l. \<not> env_line_ok l) skip" and "env_line_ok l"
  shows "\<exists>out. setup_env_loop (length pre + length (lines_text (skip @ l # ls))) True (length pre) s =
    setup_env_loop (length pre + length (lines_text (skip @ l # ls))) True
      (length (pre @ lines_text skip @ l @ [NUL]))
      \<lparr>env_buf = (pre @ lines_text skip @ l @ [NUL]) @ lines_text ls @ [NUL],
       environ = environ s @ [length (pre @ lines_text skip)], env_out = env_out s @ out\<rparr>"
proof -
  let ?p = "pre @ lines_text skip" and ?e = "length pre + length (lines_text (skip @ l # ls))"
  obtain out where out: "env_next (lines_text (skip @ l # ls) @ [NUL]) = (length (lines_text skip), out)"
    using env_next_lines [OF assms(2)] takeWhile_upto [OF assms(3), of l ls] assms(4)
    by (cases "env_next (lines_text (skip @ l # ls) @ [NUL])") simp
  obtain c l' where l: "l = c # l'" "c \<noteq> NUL"
    using assms(2,4) by (cases l) (auto simp: env_line_ok_def plain_line_def)
  have buf: "env_buf s = ?p @ l @ NL # lines_text ls @ [NUL]"
    by (simp add: assms(1))
  have tw: "takeWhile (\<lambda>c. c \<noteq> NUL \<and> \<not> (True \<and> c = NL)) (l @ NL # x) = l" for x
    using assms(2) by (intro takeWhile_upto) (auto simp: plain_line_def list_all_iff)
  have ee: "env_entry_end (env_buf s) ?e True (length ?p) = length (?p @ l)"
    unfolding env_entry_end_def buf using tw by simp
  have up: "(env_buf s)[length (?p @ l) := NUL] = (?p @ l @ [NUL]) @ lines_text ls @ [NUL]"
    unfolding buf by (simp add: list_update_append)
  have rec: "s\<lparr>env_out := o', environ := e', env_buf := b'\<rparr> = \<lparr>env_buf = b', environ = e', env_out = o'\<rparr>" for o' e' b'
    by (cases s) simp
  show ?thesis
    by (rule exI [of _ out], subst setup_env_loop.simps)
      (use out l ee up in \<open>simp add: assms(1) env_char_def cur_def Let_def rec\<close>)
qed

lemma setup_env_lines:
  assumes "env_buf s = pre @ lines_text ls @ [NUL]" and "list_all plain_line ls"
    and "list_all (\<lambda>i. NUL \<in> set (drop i pre)) (environ s)"
  shows "environ_strings (setup_env_loop (length pre + length (lines_text ls)) True (length pre) s) =
    environ_strings s @ filter env_line_ok ls"
  using assms
proof (induction "length ls" arbitrary: ls pre s rule: less_induct)
  case less
  show ?case
  proof (cases "\<exists>l \<in> set ls. env_line_ok l")
    case False
    then have all: "takeWhile (\<lambda>l. \<not> env_line_ok l) ls = ls"
      by (intro takeWhile_eq_all_conv [THEN iffD2]) blast
    have "fst (env_next (lines_text ls @ [NUL])) = length (lines_text ls)"
      using env_next_lines [OF less.prems(2)] unfolding all .
    then have "environ_strings (setup_env_loop (length pre + length (lines_text ls)) True (length pre) s)
        = environ_strings s"
      by (subst setup_env_loop.simps)
        (simp add: less.prems(1) env_char_def cur_def Let_def split_beta environ_strings_def)
    then show ?thesis
      using False by (simp add: filter_empty_conv)
  next
    case True
    then obtain skip l ls' where ls: "ls = skip @ l # ls'" and l: "env_line_ok l"
        and skip: "\<forall>x \<in> set skip. \<not> env_line_ok x"
      using split_list_first_prop [OF True] by blast
    let ?p = "pre @ lines_text skip @ l @ [NUL]"
    obtain out where step: "setup_env_loop (length pre + length (lines_text ls)) True (length pre) s =
        setup_env_loop (length pre + length (lines_text ls)) True (length ?p)
          \<lparr>env_buf = ?p @ lines_text ls' @ [NUL], environ = environ s @ [length (pre @ lines_text skip)],
           env_out = env_out s @ out\<rparr>"
      using setup_env_entry [of s pre skip l ls'] less.prems l skip by (auto simp: ls list_all_iff)
    have nul: "list_all (\<lambda>i. NUL \<in> set (drop i ?p)) (environ s @ [length (pre @ lines_text skip)])"
      using less.prems(3) by (auto simp: list_all_iff)
    have "cstr_at (?p @ x) i = cstr_at (pre @ y) i" if "i \<in> set (environ s)" for i x y
      using that less.prems(3) cstr_at_extend [of i pre] by (simp add: list_all_iff)
    moreover have "cstr_at (?p @ x) (length (pre @ lines_text skip)) = l" for x
      using less.prems(2) cstr_at_append [of l 0 x] by (simp add: ls plain_line_def cstr_at_def)
    ultimately have old: "map (cstr_at (?p @ x)) (environ s @ [length (pre @ lines_text skip)])
        = environ_strings s @ [l]" for x
      by (simp add: environ_strings_def less.prems(1) del: append_assoc)
    have len: "length pre + length (lines_text ls) = length ?p + length (lines_text ls')"
      by (simp add: ls)
    define s2 where "s2 = \<lparr>env_buf = ?p @ lines_text ls' @ [NUL],
      environ = environ s @ [length (pre @ lines_text skip)], env_out = env_out s @ out\<rparr>"
    have "environ_strings (setup_env_loop (length ?p + length (lines_text ls')) True (length ?p) s2)
        = environ_strings s2 @ filter env_line_ok ls'"
    proof (rule less.hyps)
      show "length ls' < length ls" "list_all plain_line ls'"
        using less.prems(2) by (simp_all add: ls)
      show "env_buf s2 = ?p @ lines_text ls' @ [NUL]"
        by (simp add: s2_def)
      show "list_all (\<lambda>i. NUL \<in> set (drop i ?p)) (environ s2)"
        using nul by (simp add: s2_def)
    qed
    moreover have "environ_strings s2 = environ_strings s @ [l]"
      unfolding s2_def environ_strings_def env_state.select_convs
      using old unfolding environ_strings_def .
    moreover have "filter env_line_ok ls = l # filter env_line_ok ls'"
      using l skip by (simp add: ls)
    ultimately show ?thesis
      using step unfolding s2_def [symmetric] len by simp
  qed
qed

section \<open>Properties\<close>

text \<open>
  the command line is split into its words. For any words separated by nonempty blank runs, with
  optional blanks at both ends, the arguments are the ones set up before followed by exactly these
  words, and the copies take at most one byte more than the command line.
\<close>

theorem setup_args_splits:
  assumes "words_ok bws" and "list_all isblank trail" and "args_ok s"
  shows "argv_strings (setup_args (Some (args_text bws trail)) s) = argv_strings s @ map snd bws
    \<and> length (args_copy (setup_args (Some (args_text bws trail)) s))
        \<le> length (args_copy s) + length (args_text bws trail) + 1"
proof (rule conjI)
  show "argv_strings (setup_args (Some (args_text bws trail)) s) = argv_strings s @ map snd bws"
    using setup_args_loop_words [OF assms] by (simp add: setup_args_def)
  show "length (args_copy (setup_args (Some (args_text bws trail)) s))
      \<le> length (args_copy s) + length (args_text bws trail) + 1"
    using setup_args_loop_room [of "args_text bws trail" s] by (simp add: setup_args_def split: if_splits)
qed

text \<open>
  an environment file with one assignment per line is parsed into exactly its well-formed lines,
  in order; blank lines, comments and malformed lines are left out.
\<close>

theorem setup_env_parses_lines:
  assumes "list_all plain_line ls"
  shows "environ_strings (setup_env (lines_text ls @ [NUL]) (length (lines_text ls))) = filter env_line_ok ls"
proof -
  have "NUL \<notin> set (lines_text ls)"
    using assms by (induction ls) (auto simp: plain_line_def)
  then have "length (takeWhile (\<lambda>c. c \<noteq> NUL) (lines_text ls @ [NUL])) = length (lines_text ls)"
    by (subst takeWhile_append2) auto
  then show ?thesis
    using setup_env_lines [of "\<lparr>env_buf = lines_text ls @ [NUL], environ = [], env_out = []\<rparr>" "[]" ls] assms
    by (simp add: setup_env_def environ_strings_def)
qed

end
