(* ===== verification/Machine.thy ===== *)
theory Machine
  imports Printf
begin

text \<open>
  The state the memory components share: the RAM, the text sent to the console, and the static
  variables of \<^verbatim>\<open>lib/alloc_phys.c\<close>, \<^verbatim>\<open>lib/alloc_page.c\<close> and \<^verbatim>\<open>lib/vmalloc.c\<close>. On x86 the functions
  \<^verbatim>\<open>virt_to_phys\<close> and \<^verbatim>\<open>phys_to_virt\<close> are the identity, and the spinlocks around each operation
  make it one atomic step.
\<close>

record machine =
  ram :: mem
  con :: string
  pa_base :: u64
  pa_top :: u64
  pa_regions :: "(u64 \<times> u64) list"
  pa_warned :: bool
  pa_align_min :: u64
  freelist :: u64
  vfree_top :: u64
  page_root :: u64

text \<open>The state in which the statics have their initial values and the memory is cleared.\<close>

definition reset_machine :: machine where
  "reset_machine = \<lparr>ram = \<lambda>_. 0, con = [], pa_base = 0, pa_top = 0, pa_regions = [], pa_warned = False,
     pa_align_min = 32, freelist = 0, vfree_top = 0, page_root = 0\<rparr>"

definition kprintf :: "string \<Rightarrow> vararg list \<Rightarrow> machine \<Rightarrow> machine outcome" where
  "kprintf fmt va s = bind_outcome (printf_out fmt va) (\<lambda>t. Ret (s\<lparr>con := con s @ t\<rparr>))"

text \<open>A loop that does not end is an outcome of its own.\<close>

definition returns :: "'a option \<Rightarrow> 'a outcome" where
  "returns r = (case r of None \<Rightarrow> Abort ''does not return'' | Some x \<Rightarrow> Ret x)"

lemma returns_simps [simp]: "returns (Some x) = Ret x" "returns None = Abort ''does not return''"
  by (simp_all add: returns_def)

definition PAGE_SHIFT :: nat where
  "PAGE_SHIFT = 12"

definition PAGE_SIZE :: u64 where
  "PAGE_SIZE = 4096"

definition PAGE_MASK :: u64 where
  "PAGE_MASK = NOT (PAGE_SIZE - 1)"

definition sizeof_long :: nat where
  "sizeof_long = 8"

section \<open>Formats whose conversions all print\<close>

text \<open>
  A format with number and string conversions only, applied to arguments of matching kinds,
  always returns.
\<close>

fun printable :: "directive list \<Rightarrow> vararg list \<Rightarrow> bool" where
  "printable [] va = True"
| "printable (Lit c # ds) va = printable ds va"
| "printable (Conv f nlong pr # ds) (VInt w # va) =
     ((f \<in> {CHR ''x'', CHR ''u'', CHR ''p''} \<or> f = CHR ''d'' \<and> va_int nlong w \<noteq> - (2 ^ 63)) \<and> printable ds va)"
| "printable (Conv f nlong pr # ds) (VStr t # va) = (f = CHR ''s'' \<and> printable ds va)"
| "printable (Conv f nlong pr # ds) [] = False"

lemma printable_render: "printable ds va \<Longrightarrow> \<exists>t. render ds va = Ret t"
  by (induction ds va rule: printable.induct) (auto simp: conv_text_def)

lemma printable_kprintf:
  "printable (parse_fmt fmt) va \<Longrightarrow> \<exists>t. kprintf fmt va s = Ret (s\<lparr>con := con s @ t\<rparr>)"
  using printable_render [of "parse_fmt fmt" va] by (auto simp: kprintf_def printf_out_def vtext_def)

lemma printable_kprintf_text:
  "printable (parse_fmt fmt) va \<Longrightarrow> \<exists>t. \<forall>s. kprintf fmt va s = Ret (s\<lparr>con := con s @ t\<rparr>)"
  using printable_render [of "parse_fmt fmt" va] by (auto simp: kprintf_def printf_out_def vtext_def)

lemmas parse_simps = parse_fmt.simps parse_conv.simps is_digit_def cval_def fmtnum_def atol_def cur_def s32_def

lemma status_text: "printf_out ''%s: '' [VStr ''PASS''] = Ret ''PASS: ''"
  by (simp add: printf_out_def vtext_def parse_simps conv_text_def props0_def pad_text_def BUFSZ_def)

end
