(* ===== verification/Alloc_Page.thy ===== *)
theory Alloc_Page
  imports Machine
begin

text \<open>
  The page allocator of \<^verbatim>\<open>lib/alloc_page.c\<close>: a list of free pages, linked through the first word of
  each page. The lemmas relate the linked list in memory to the list of its pages, show that
  every operation keeps the list well formed, and refine the search of \<open>alloc_pages\<close> for a run of
  pages to a search on the abstract list.
\<close>

section \<open>Operations\<close>

definition page_alloc_initialized :: "machine \<Rightarrow> bool" where
  "page_alloc_initialized s \<longleftrightarrow> freelist s \<noteq> 0"

text \<open>The loop that links the pages from \<open>p\<close> up to \<open>e\<close> returns the memory and the last page.\<close>

partial_function (option) free_loop :: "mem \<Rightarrow> u64 \<Rightarrow> u64 \<Rightarrow> (mem \<times> u64) option" where
  "free_loop m p e =
     (if p + PAGE_SIZE \<noteq> e then free_loop (store64 m p (p + PAGE_SIZE)) (p + PAGE_SIZE) e else Some (m, p))"

definition free_pages :: "u64 \<Rightarrow> u64 \<Rightarrow> machine \<Rightarrow> machine outcome" where
  "free_pages p sz s =
     bind_outcome (assert_that (p mod PAGE_SIZE = 0) ''mem not page aligned'') (\<lambda>_.
     bind_outcome (assert_that (sz mod PAGE_SIZE = 0) ''size not page aligned'') (\<lambda>_.
     bind_outcome (assert_that (sz = 0 \<or> p = - sz \<or> p + sz > p) ''mem + size overflow'') (\<lambda>_.
     if sz = 0 then Ret (s\<lparr>freelist := 0\<rparr>)
     else
       let old_freelist = freelist s in
       bind_outcome (returns (free_loop (ram s) p (p + sz))) (\<lambda>(m, last).
       Ret (s\<lparr>ram := store64 m last old_freelist, freelist := p\<rparr>)))))"

definition free_pages_by_order :: "u64 \<Rightarrow> nat \<Rightarrow> machine \<Rightarrow> machine outcome" where
  "free_pages_by_order p order s = free_pages p (push_bit (order + PAGE_SHIFT) 1) s"

definition alloc_page :: "machine \<Rightarrow> u64 \<times> machine" where
  "alloc_page s =
     (if freelist s = 0 then (0, s)
      else
        let p = freelist s;
            s = s\<lparr>freelist := load64 (ram s) p\<rparr>
        in (p, if p \<noteq> 0 then s\<lparr>ram := memset (ram s) p 0 PAGE_SIZE\<rparr> else s))"

text \<open>
  The search loop of \<open>alloc_pages\<close>. It returns the memory and the free list after the run was
  unlinked, and the first page of the run or NULL.
\<close>

partial_function (option) alloc_pages_loop ::
  "u64 \<Rightarrow> u64 \<Rightarrow> mem \<Rightarrow> u64 \<Rightarrow> u64 \<Rightarrow> u64 \<Rightarrow> u64 \<Rightarrow> u64 \<Rightarrow> u64 \<Rightarrow> u64 \<Rightarrow> (mem \<times> u64 \<times> u64) option" where
  "alloc_pages_loop n align_mask m fl cp next run run_start run_prev run_next_pa =
     (let prev = cp; cp = next in
      if cp = 0 then Some (m, fl, 0)
      else
        let next = load64 m cp;
            pa = cp;
            (run, run_start, run_prev, run_next_pa) =
              (if run = 0 then
                 (if pa AND align_mask = 0 then (1, cp, prev, pa + PAGE_SIZE)
                  else (run, run_start, run_prev, run_next_pa))
               else if pa = run_next_pa then (run + 1, run_start, run_prev, run_next_pa + PAGE_SIZE)
               else (0, run_start, run_prev, run_next_pa))
        in if run = n then
             (if run_prev \<noteq> 0 then Some (store64 m run_prev next, fl, run_start)
              else Some (m, next, run_start))
           else alloc_pages_loop n align_mask m fl cp next run run_start run_prev run_next_pa)"

definition alloc_pages :: "nat \<Rightarrow> machine \<Rightarrow> (u64 \<times> machine) outcome" where
  "alloc_pages order s =
     (let n = push_bit order 1; align_mask = push_bit PAGE_SHIFT n - 1 in
      bind_outcome (assert_that (order < sizeof_long * 8) ''order < sizeof(unsigned long) * 8'') (\<lambda>_.
      bind_outcome (returns (alloc_pages_loop n align_mask (ram s) (freelist s) 0 (freelist s) 0 0 0 0))
        (\<lambda>(m, fl, run_start).
      Ret (run_start,
        s\<lparr>ram := (if run_start \<noteq> 0 then memset m run_start 0 (n * PAGE_SIZE) else m), freelist := fl\<rparr>))))"

definition free_page :: "u64 \<Rightarrow> machine \<Rightarrow> machine" where
  "free_page page s = s\<lparr>ram := store64 (ram s) page (freelist s), freelist := page\<rparr>"

definition page_memalign :: "u64 \<Rightarrow> u64 \<Rightarrow> machine \<Rightarrow> (u64 \<times> machine) outcome" where
  "page_memalign alignment sz s =
     (let n = drop_bit PAGE_SHIFT (ALIGN sz PAGE_SIZE) in
      if sz = 0 then Ret (0, s)
      else alloc_pages (if is_power_of_2 n then fls n else fls n + 1) s)"

definition page_free :: "u64 \<Rightarrow> u64 \<Rightarrow> machine \<Rightarrow> machine outcome" where
  "page_free p sz s = free_pages p sz s"

section \<open>The list of free pages\<close>

fun chain :: "mem \<Rightarrow> u64 \<Rightarrow> u64 list \<Rightarrow> bool" where
  "chain m p [] \<longleftrightarrow> p = 0"
| "chain m p (q # qs) \<longleftrightarrow> p = q \<and> q \<noteq> 0 \<and> chain m (load64 m q) qs"

abbreviation page_aligned :: "u64 \<Rightarrow> bool" where
  "page_aligned \<equiv> aligned 12"

definition pages_ok :: "u64 list \<Rightarrow> bool" where
  "pages_ok ps \<longleftrightarrow> distinct ps \<and> (\<forall>p \<in> set ps. page_aligned p \<and> p \<noteq> 0)"

text \<open>The free pages of a machine are \<open>ps\<close>, in the order of the list.\<close>

definition free_list :: "machine \<Rightarrow> u64 list \<Rightarrow> bool" where
  "free_list s ps \<longleftrightarrow> chain (ram s) (freelist s) ps \<and> pages_ok ps"

definition in_page :: "u64 \<Rightarrow> u64 \<Rightarrow> bool" where
  "in_page a p \<longleftrightarrow> unat (a - p) < 4096"

lemma chain_unique: "chain m p ps \<Longrightarrow> chain m p qs \<Longrightarrow> ps = qs"
proof (induction ps arbitrary: p qs)
  case Nil
  then show ?case by (cases qs) auto
next
  case (Cons q ps)
  then show ?case by (cases qs) auto
qed

lemma chain_cong:
  "(\<And>q. q \<in> set ps \<Longrightarrow> load64 m' q = load64 m q) \<Longrightarrow> chain m' p ps = chain m p ps"
  by (induction ps arbitrary: p) auto

lemma in_page_self: "i < 4096 \<Longrightarrow> in_page (p + of_nat i) p"
  by (simp add: in_page_def)

lemma in_page_unique: "page_aligned p \<Longrightarrow> page_aligned q \<Longrightarrow> in_page a p \<Longrightarrow> in_page a q \<Longrightarrow> p = q"
  using aligned_blocks_disjoint [of 12 p q a] by (simp add: in_page_def)

lemma aligned_weaken: "aligned k a \<Longrightarrow> j \<le> k \<Longrightarrow> aligned j a"
  using take_bit_take_bit [of j k a] by (simp add: aligned_def min_def split: if_splits)

text \<open>A page keeps its contents when only other pages are written.\<close>

lemma load64_other_page:
  assumes "page_aligned q" and "\<And>a. in_page a q \<Longrightarrow> m' a = m a"
  shows "load64 m' q = load64 m q"
  by (rule loadn_cong) (simp add: assms(2) in_page_self)

lemma store64_other_page:
  assumes "page_aligned p" and "page_aligned q" and "p \<noteq> q" and "in_page a q"
  shows "store64 m p v a = m a"
proof (rule store64_outside)
  show "\<not> unat (a - p) < 8"
    using in_page_unique [OF assms(1,2) _ assms(4)] assms(3) by (auto simp: in_page_def)
qed

lemma memset_other_page:
  assumes "page_aligned p" and "page_aligned q" and "p \<noteq> q" and "in_page a q"
  shows "memset m p c PAGE_SIZE a = m a"
  using in_page_unique [OF assms(1,2) _ assms(4)] assms(3)
  by (auto simp: memset_apply in_page_def PAGE_SIZE_def)

lemmas other_page = store64_other_page memset_other_page

section \<open>Single pages\<close>

lemma alloc_page_empty: "free_list s [] \<Longrightarrow> alloc_page s = (0, s)"
  by (simp add: free_list_def alloc_page_def)

lemma alloc_page_pop:
  assumes "free_list s (p # ps)"
  shows "fst (alloc_page s) = p" and "free_list (snd (alloc_page s)) ps"
    and "in_page a p \<Longrightarrow> ram (snd (alloc_page s)) a = 0"
    and "\<not> in_page a p \<Longrightarrow> ram (snd (alloc_page s)) a = ram s a"
proof -
  have c: "freelist s = p" "p \<noteq> 0" "chain (ram s) (load64 (ram s) p) ps" and ok: "pages_ok (p # ps)"
    using assms by (simp_all add: free_list_def)
  let ?s = "s\<lparr>freelist := load64 (ram s) p, ram := memset (ram s) p 0 PAGE_SIZE\<rparr>"
  have eq: "alloc_page s = (p, ?s)"
    using c by (simp add: alloc_page_def Let_def)
  show "fst (alloc_page s) = p"
    by (simp add: eq)
  show "in_page a p \<Longrightarrow> ram (snd (alloc_page s)) a = 0"
    and "\<not> in_page a p \<Longrightarrow> ram (snd (alloc_page s)) a = ram s a"
    by (simp_all add: eq memset_apply in_page_def PAGE_SIZE_def)
  have "load64 (memset (ram s) p 0 PAGE_SIZE) q = load64 (ram s) q" if "q \<in> set ps" for q
    using that ok by (intro load64_other_page other_page(2)) (auto simp: pages_ok_def)
  then show "free_list (snd (alloc_page s)) ps"
    using c(3) ok chain_cong [of ps "memset (ram s) p 0 PAGE_SIZE" "ram s"]
    by (simp add: eq free_list_def pages_ok_def)
qed

lemma free_page_push:
  assumes "free_list s ps" and "page_aligned p" and "p \<noteq> 0" and "p \<notin> set ps"
  shows "free_list (free_page p s) (p # ps)" and "\<not> in_page a p \<Longrightarrow> ram (free_page p s) a = ram s a"
proof -
  have "load64 (store64 (ram s) p v) q = load64 (ram s) q" if "q \<in> set ps" for q v
    using that assms by (intro load64_other_page other_page(1)) (auto simp: free_list_def pages_ok_def)
  then show "free_list (free_page p s) (p # ps)"
    using assms chain_cong [of ps "store64 (ram s) p (freelist s)" "ram s"]
    by (simp add: free_list_def free_page_def pages_ok_def load64_store64_same)
  show "\<not> in_page a p \<Longrightarrow> ram (free_page p s) a = ram s a"
    by (simp add: free_page_def in_page_def store64_outside)
qed

section \<open>Freeing a block of pages\<close>

text \<open>The pages of a block: \<open>n\<close> pages from \<open>p\<close> on.\<close>

definition run :: "u64 \<Rightarrow> nat \<Rightarrow> u64 list" where
  "run p n = map (\<lambda>i. p + of_nat i * PAGE_SIZE) [0..<n]"

lemma run_simps [simp]:
  "run p 0 = []" "run p (Suc n) = p # run (p + PAGE_SIZE) n" "length (run p n) = n"
proof -
  show "run p (Suc n) = p # run (p + PAGE_SIZE) n"
    by (simp add: run_def upt_conv_Cons map_Suc_upt [symmetric] algebra_simps del: upt_Suc)
qed (simp_all add: run_def)

lemma run_snoc: "run p (Suc n) = run p n @ [p + of_nat n * PAGE_SIZE]"
  by (simp add: run_def)

lemma unat_page_offset: "i < 2 ^ 52 \<Longrightarrow> unat (of_nat i * PAGE_SIZE :: u64) = i * 4096"
proof -
  assume "i < 2 ^ 52"
  then have "i * 4096 < 2 ^ 64"
    by simp
  moreover have "of_nat i * PAGE_SIZE = (of_nat (i * 4096) :: u64)"
    by (simp add: PAGE_SIZE_def)
  ultimately show ?thesis
    by (simp only: unat_of_nat_u64)
qed

lemma page_aligned_add: "page_aligned p \<Longrightarrow> page_aligned (p + of_nat i * PAGE_SIZE)"
proof -
  assume p: "page_aligned p"
  have "take_bit 12 (of_nat i * PAGE_SIZE :: u64) = 0"
    using take_bit_push_bit [of 12 12 "of_nat i :: u64"] by (simp add: PAGE_SIZE_def push_bit_eq_mult)
  then show ?thesis
    using p take_bit_word_add [of 12 p "of_nat i * PAGE_SIZE"] by (simp add: aligned_def)
qed

lemma unat_run_page:
  assumes "i < n" and "unat p + n * 4096 \<le> 2 ^ 64"
  shows "unat (p + of_nat i * PAGE_SIZE) = unat p + i * 4096"
proof -
  have "i < 2 ^ 52" "unat p + i * 4096 < 2 ^ 64"
    using assms by simp_all
  then show ?thesis
    using unat_page_offset [of i] by (simp add: unat_word_ariths)
qed

lemma run_pages_ok:
  assumes "page_aligned p" and "p \<noteq> 0" and "unat p + n * 4096 \<le> 2 ^ 64"
  shows "pages_ok (run p n)"
proof -
  have "inj_on (\<lambda>i. p + of_nat i * PAGE_SIZE) {0..<n}"
  proof (rule inj_onI)
    fix i j
    assume i: "i \<in> {0..<n}" and j: "j \<in> {0..<n}" and eq: "p + of_nat i * PAGE_SIZE = p + of_nat j * PAGE_SIZE"
    have "unat (p + of_nat i * PAGE_SIZE) = unat p + i * 4096" "unat (p + of_nat j * PAGE_SIZE) = unat p + j * 4096"
      using i j by (intro unat_run_page [OF _ assms(3)]; simp)+
    then show "i = j"
      unfolding eq by simp
  qed
  moreover have "p + of_nat i * PAGE_SIZE \<noteq> 0" if "i < n" for i
  proof
    assume z: "p + of_nat i * PAGE_SIZE = 0"
    have "unat p = 0"
      using unat_run_page [OF that assms(3)] unfolding z by simp
    then show False
      using assms(2) by (simp add: unat_eq_0)
  qed
  ultimately show ?thesis
    using page_aligned_add [OF assms(1)] by (auto simp: pages_ok_def run_def distinct_map)
qed

lemma free_loop_links:
  assumes "pages_ok (run p (Suc n) @ ps)" and "n < 2 ^ 52 - 1" and "chain m old ps"
  shows "\<exists>m'. free_loop m p (p + of_nat (Suc n) * PAGE_SIZE) = Some (m', p + of_nat n * PAGE_SIZE)
    \<and> chain (store64 m' (p + of_nat n * PAGE_SIZE) old) p (run p (Suc n) @ ps)
    \<and> (\<forall>a. (\<forall>q \<in> set (run p (Suc n)). \<not> in_page a q) \<longrightarrow> store64 m' (p + of_nat n * PAGE_SIZE) old a = m a)"
  using assms
proof (induction n arbitrary: p m)
  case 0
  have "load64 (store64 m p old) q = load64 m q" if "q \<in> set ps" for q
    using that 0(1) by (intro load64_other_page other_page(1)) (auto simp: pages_ok_def)
  then have "chain (store64 m p old) old ps"
    using chain_cong [of ps "store64 m p old" m] 0(3) by simp
  then show ?case
    using 0(1) by (subst free_loop.simps)
      (auto simp: load64_store64_same store64_outside in_page_def pages_ok_def)
next
  case (Suc n)
  let ?e = "p + of_nat (Suc (Suc n)) * PAGE_SIZE" and ?m = "store64 m p (p + PAGE_SIZE)"
    and ?l = "p + of_nat (Suc n) * PAGE_SIZE"
  have ok: "pages_ok (run (p + PAGE_SIZE) (Suc n) @ ps)" "p \<noteq> 0" "page_aligned p"
      "p \<notin> set (run (p + PAGE_SIZE) (Suc n) @ ps)"
    using Suc.prems(1) by (simp_all add: pages_ok_def)
  have e: "?e = (p + PAGE_SIZE) + of_nat (Suc n) * PAGE_SIZE" "?l = (p + PAGE_SIZE) + of_nat n * PAGE_SIZE"
    by (simp_all add: algebra_simps)
  have "unat (of_nat (Suc n) * PAGE_SIZE :: u64) = Suc n * 4096"
    using Suc.prems(2) by (intro unat_page_offset) simp
  then have "of_nat (Suc n) * PAGE_SIZE \<noteq> (0 :: u64)"
    by (intro notI) (simp only: unat_0, simp)
  then have ne: "p + PAGE_SIZE \<noteq> ?e"
    unfolding e(1) by (simp only: add_cancel_right_right not_False_eq_True)
  have "load64 ?m q = load64 m q" if "q \<in> set ps" for q
    using that ok Suc.prems(1) by (intro load64_other_page other_page(1)) (auto simp: pages_ok_def)
  then have "chain ?m old ps"
    using chain_cong [of ps ?m m] Suc.prems(3) by simp
  then obtain m' where m': "free_loop ?m (p + PAGE_SIZE) ?e = Some (m', ?l)"
      "chain (store64 m' ?l old) (p + PAGE_SIZE) (run (p + PAGE_SIZE) (Suc n) @ ps)"
      "\<And>a. (\<forall>q \<in> set (run (p + PAGE_SIZE) (Suc n)). \<not> in_page a q) \<Longrightarrow> store64 m' ?l old a = ?m a"
    using Suc.IH [of "p + PAGE_SIZE" ?m] ok(1) Suc.prems(2) unfolding e by auto
  have "store64 m' ?l old a = ?m a" if a: "in_page a p" for a
  proof (rule m'(3), rule ballI)
    fix q
    assume "q \<in> set (run (p + PAGE_SIZE) (Suc n))"
    then have "page_aligned q" "q \<noteq> p"
      using ok(1,4) unfolding pages_ok_def set_append by blast+
    then show "\<not> in_page a q"
      using in_page_unique [OF ok(3) _ a] by blast
  qed
  then have "load64 (store64 m' ?l old) p = p + PAGE_SIZE"
    using load64_other_page [OF ok(3), of "store64 m' ?l old" ?m] by (simp add: load64_store64_same)
  then have "chain (store64 m' ?l old) p (run p (Suc (Suc n)) @ ps)"
    using m'(2) ok(2) by simp
  moreover have "free_loop m p ?e = Some (m', ?l)"
    using ne m'(1) by (subst free_loop.simps) simp
  moreover have "store64 m' ?l old a = m a" if "\<forall>q \<in> set (run p (Suc (Suc n))). \<not> in_page a q" for a
    using that m'(3) [of a] by (simp add: in_page_def store64_outside)
  ultimately show ?case
    by blast
qed

lemma mod_PAGE_SIZE: "(a :: u64) mod PAGE_SIZE = 0 \<longleftrightarrow> page_aligned a"
  using take_bit_eq_mod [of 12 a] by (simp add: aligned_def PAGE_SIZE_def)

text \<open>
  Freeing a block puts its pages in front of the list; the block must be page-aligned, not wrap
  around, and have no page in common with the list.
\<close>

lemma free_pages_push:
  assumes "free_list s ps" and "pages_ok (run p n @ ps)" and "0 < n" and "n < 2 ^ 52"
    and "unat p + n * 4096 \<le> 2 ^ 64"
  shows "\<exists>s'. free_pages p (of_nat n * PAGE_SIZE) s = Ret s' \<and> free_list s' (run p n @ ps)
    \<and> s' = s\<lparr>ram := ram s', freelist := p\<rparr>
    \<and> (\<forall>a. (\<forall>q \<in> set (run p n). \<not> in_page a q) \<longrightarrow> ram s' a = ram s a)"
proof -
  let ?sz = "of_nat n * PAGE_SIZE :: u64"
  obtain k where k: "n = Suc k"
    using assms(3) by (cases n) auto
  have u: "unat ?sz = n * 4096"
    using assms(4) by (rule unat_page_offset)
  have p: "page_aligned p"
    using assms(2) by (simp add: pages_ok_def k)
  have a1: "p mod PAGE_SIZE = 0" "?sz mod PAGE_SIZE = 0" "?sz \<noteq> 0"
    using p page_aligned_add [of 0 n] u assms(3) by (auto simp: mod_PAGE_SIZE aligned_def)
  have a2: "?sz = 0 \<or> p = - ?sz \<or> p + ?sz > p"
  proof (cases "unat p + n * 4096 = 2 ^ 64")
    case True
    then have "p + ?sz = 0"
      using u by (simp add: word_unat_eq_iff unat_word_ariths)
    then show ?thesis
      by (simp add: eq_neg_iff_add_eq_0)
  next
    case False
    then show ?thesis
      using u assms(3,5) by (simp add: word_less_nat_alt unat_word_ariths)
  qed
  obtain m' where m': "free_loop (ram s) p (p + ?sz) = Some (m', p + of_nat k * PAGE_SIZE)"
      "chain (store64 m' (p + of_nat k * PAGE_SIZE) (freelist s)) p (run p n @ ps)"
      "\<forall>a. (\<forall>q \<in> set (run p n). \<not> in_page a q) \<longrightarrow> store64 m' (p + of_nat k * PAGE_SIZE) (freelist s) a = ram s a"
    using free_loop_links [of p k ps "ram s" "freelist s"] assms(1,2,4) unfolding k free_list_def by auto
  show ?thesis
    using a1 a2 m' assms(2) by (simp add: free_pages_def Let_def free_list_def)
qed

section \<open>Searching for a run of pages\<close>

text \<open>
  The search on the abstract list: \<open>xs\<close> was passed, \<open>r\<close> is the run being collected, \<open>ts\<close> remains. A page
  that does not continue the run is passed together with the run.
\<close>

fun find_run :: "nat \<Rightarrow> u64 \<Rightarrow> u64 list \<Rightarrow> u64 list \<Rightarrow> u64 list \<Rightarrow> (u64 list \<times> u64 list \<times> u64 list) option" where
  "find_run n msk xs r [] = None"
| "find_run n msk xs r (t # ts) =
     (let (xs, r) = (if r = [] then (if t AND msk = 0 then (xs, [t]) else (xs @ [t], []))
                     else if t = hd r + of_nat (length r) * PAGE_SIZE then (xs, r @ [t])
                     else (xs @ r @ [t], []))
      in if length r = n then Some (xs, r, ts) else find_run n msk xs r ts)"

definition head0 :: "u64 list \<Rightarrow> u64" where
  "head0 ps = (if ps = [] then 0 else hd ps)"

definition last0 :: "u64 list \<Rightarrow> u64" where
  "last0 ps = (if ps = [] then 0 else last ps)"

definition unlink :: "mem \<Rightarrow> u64 \<Rightarrow> (u64 list \<times> u64 list \<times> u64 list) option \<Rightarrow> mem \<times> u64 \<times> u64" where
  "unlink m fl f = (case f of None \<Rightarrow> (m, fl, 0)
     | Some (xs, r, ts) \<Rightarrow> if xs = [] then (m, head0 ts, hd r) else (store64 m (last xs) (head0 ts), fl, hd r))"

lemma chain_head0: "chain m p ps \<Longrightarrow> p = head0 ps"
  by (cases ps) (auto simp: head0_def)

lemma last0_snoc [simp]: "last0 (xs @ [x]) = x"
  by (simp add: last0_def)

lemma last0_nonzero: "(\<And>x. x \<in> set xs \<Longrightarrow> x \<noteq> 0) \<Longrightarrow> last0 xs \<noteq> 0 \<longleftrightarrow> xs \<noteq> []"
  by (auto simp: last0_def)

lemma alloc_pages_loop_find_run:
  assumes "chain m nx ts" and "cp = last0 (xs @ r)" and "rn = of_nat (length r)"
    and "r \<noteq> [] \<Longrightarrow> rs = hd r \<and> rp = last0 xs \<and> rnext = hd r + of_nat (length r) * PAGE_SIZE"
    and "length (r @ ts) < 2 ^ 64" and "0 < N" and "N < 2 ^ 64" and "\<And>x. x \<in> set (xs @ r @ ts) \<Longrightarrow> x \<noteq> 0"
  shows "alloc_pages_loop (of_nat N) msk m fl cp nx rn rs rp rnext = Some (unlink m fl (find_run N msk xs r ts))"
  using assms
proof (induction ts arbitrary: nx cp xs r rn rs rp rnext)
  case Nil
  then show ?case
    by (subst alloc_pages_loop.simps) (simp add: unlink_def)
next
  case (Cons t ts)
  note nz = Cons.prems(8)
  have t: "nx = t" "t \<noteq> 0" "chain m (load64 m t) ts"
    using Cons.prems(1) by simp_all
  have rn0: "rn = 0 \<longleftrightarrow> r = []"
    using Cons.prems(3,5) of_nat_eq_0_iff_u64 [of "length r"] by simp
  define upd where "upd = (if r = [] then (if t AND msk = 0 then (xs, [t]) else (xs @ [t], []))
      else if t = hd r + of_nat (length r) * PAGE_SIZE then (xs, r @ [t]) else (xs @ r @ [t], []))"
  obtain xs' r' where u: "upd = (xs', r')"
    by (cases upd)
  define regs where "regs = (if rn = 0 then (if t AND msk = 0 then (1, t, cp, t + PAGE_SIZE) else (rn, rs, rp, rnext))
      else if t = rnext then (rn + 1, rs, rp, rnext + PAGE_SIZE) else (0, rs, rp, rnext))"
  obtain rn' rs' rp' rnext' where rg: "regs = (rn', rs', rp', rnext')"
    by (cases regs)
  have rel: "t = last0 (xs' @ r')" "rn' = of_nat (length r')" "set (xs' @ r') \<subseteq> set (xs @ r @ [t])"
      "length (r' @ ts) < 2 ^ 64"
      "r' \<noteq> [] \<Longrightarrow> rs' = hd r' \<and> rp' = last0 xs' \<and> rnext' = hd r' + of_nat (length r') * PAGE_SIZE"
    using u rg Cons.prems(2-5) rn0 unfolding upd_def regs_def
    by (auto simp: algebra_simps hd_append last0_def split: if_splits)
  have eqN: "rn' = of_nat N \<longleftrightarrow> length r' = N"
    unfolding rel(2) using rel(4) Cons.prems(7) by (simp add: word_of_nat_eq_iff take_bit_nat_eq_self)
  have step: "alloc_pages_loop (of_nat N) msk m fl cp nx rn rs rp rnext =
      (if length r' = N then Some (if rp' \<noteq> 0 then (store64 m rp' (load64 m t), fl, rs') else (m, load64 m t, rs'))
       else alloc_pages_loop (of_nat N) msk m fl t (load64 m t) rn' rs' rp' rnext')"
    using t(1,2) eqN rg unfolding regs_def by (subst alloc_pages_loop.simps) (simp add: Let_def)
  have find: "find_run N msk xs r (t # ts) = (if length r' = N then Some (xs', r', ts) else find_run N msk xs' r' ts)"
    using u by (simp add: upd_def [symmetric])
  show ?case
  proof (cases "length r' = N")
    case True
    then have "r' \<noteq> []"
      using Cons.prems(6) by auto
    then have "rp' = last0 xs'" "rs' = hd r'"
      using rel(5) by simp_all
    moreover have "last0 xs' \<noteq> 0 \<longleftrightarrow> xs' \<noteq> []"
      using rel(3) nz by (intro last0_nonzero) auto
    ultimately show ?thesis
      using True chain_head0 [OF t(3)] unfolding step find by (simp add: unlink_def last0_def)
  next
    case False
    then show ?thesis
      unfolding step find using Cons.IH [OF t(3) rel(1,2,5,4)] Cons.prems(6,7) rel(3) nz by auto
  qed
qed

lemma find_run_Some:
  assumes "find_run n msk xs r ts = Some (xs', r', ts')" and "length r < n"
    and "r = [] \<or> r = run (hd r) (length r) \<and> hd r AND msk = 0"
  shows "xs @ r @ ts = xs' @ r' @ ts' \<and> r' = run (hd r') n \<and> hd r' AND msk = 0"
  using assms
proof (induction n msk xs r ts rule: find_run.induct)
  case (1 n msk xs r)
  then show ?case by simp
next
  case (2 n msk xs r t ts)
  define upd where "upd = (if r = [] then (if t AND msk = 0 then (xs, [t]) else (xs @ [t], []))
      else if t = hd r + of_nat (length r) * PAGE_SIZE then (xs, r @ [t]) else (xs @ r @ [t], []))"
  obtain xs1 r1 where u: "upd = (xs1, r1)"
    by (cases upd)
  have find: "(if length r1 = n then Some (xs1, r1, ts) else find_run n msk xs1 r1 ts) = Some (xs', r', ts')"
    using 2(2) u by (simp add: upd_def [symmetric])
  have r1: "r1 = [] \<or> r1 = run (hd r1) (length r1) \<and> hd r1 AND msk = 0" "length r1 \<le> n"
      "xs @ r @ t # ts = xs1 @ r1 @ ts"
    using u 2(3,4) unfolding upd_def by (auto simp: run_snoc split: if_splits simp del: run_simps(2))
  show ?case
  proof (cases "length r1 = n")
    case True
    then show ?thesis
      using find r1 2(3) by auto
  next
    case False
    then have "xs1 @ r1 @ ts = xs' @ r' @ ts' \<and> r' = run (hd r') n \<and> hd r' AND msk = 0"
      using find r1(1,2) by (intro 2(1) [OF u [unfolded upd_def, symmetric] refl]) auto
    then show ?thesis
      using r1(3) by simp
  qed
qed

section \<open>Unlinking a run\<close>

lemma chain_suffix: "chain m p (xs @ ys) \<Longrightarrow> chain m (head0 ys) ys"
  by (induction xs arbitrary: p) (auto dest: chain_head0)

lemma chain_relink:
  assumes "chain m p (xs @ l # zs @ ys)" and "pages_ok (xs @ l # zs @ ys)"
  shows "chain (store64 m l (head0 ys)) p (xs @ l # ys)"
  using assms
proof (induction xs arbitrary: p)
  case Nil
  have "load64 (store64 m l (head0 ys)) q = load64 m q" if "q \<in> set ys" for q
    using that Nil(2) by (intro load64_other_page other_page(1)) (auto simp: pages_ok_def)
  then have "chain (store64 m l (head0 ys)) (head0 ys) ys"
    using chain_cong [of ys "store64 m l (head0 ys)" m] chain_suffix [of m p "l # zs" ys] Nil(1) by simp
  then show ?case
    using Nil(1) by (simp add: load64_store64_same)
next
  case (Cons x xs)
  have "load64 (store64 m l (head0 ys)) x = load64 m x"
    using Cons.prems(2) by (intro load64_other_page other_page(1)) (auto simp: pages_ok_def)
  then show ?case
    using Cons by (simp add: pages_ok_def)
qed

lemma in_run_iff:
  assumes "n < 2 ^ 52"
  shows "(\<exists>q \<in> set (run p n). in_page a q) \<longleftrightarrow> unat (a - p) < n * 4096"
proof
  assume "\<exists>q \<in> set (run p n). in_page a q"
  then obtain i where i: "i < n" "unat (a - p - of_nat i * PAGE_SIZE) < 4096"
    by (auto simp: run_def in_page_def diff_diff_eq)
  define e where "e = unat (a - p - of_nat i * PAGE_SIZE)"
  have "i * 4096 + e < n * 4096"
    using i by (simp add: e_def)
  have "a - p = of_nat i * PAGE_SIZE + of_nat e"
    by (simp add: e_def)
  then have "a - p = of_nat (i * 4096 + e)"
    by (simp add: PAGE_SIZE_def)
  moreover have "i * 4096 + e < 2 ^ 64"
    using \<open>i * 4096 + e < n * 4096\<close> assms by simp
  ultimately have "unat (a - p) = i * 4096 + e"
    by (simp only: unat_of_nat_u64)
  then show "unat (a - p) < n * 4096"
    using \<open>i * 4096 + e < n * 4096\<close> by simp
next
  assume l: "unat (a - p) < n * 4096"
  define i where "i = unat (a - p) div 4096"
  have i: "i < n"
    using l by (simp add: i_def div_less_iff_less_mult)
  have "of_nat i * PAGE_SIZE + of_nat (unat (a - p) mod 4096) = (of_nat (i * 4096 + unat (a - p) mod 4096) :: u64)"
    by (simp add: PAGE_SIZE_def)
  also have "\<dots> = a - p"
    by (simp add: i_def)
  finally have "a - (p + of_nat i * PAGE_SIZE) = of_nat (unat (a - p) mod 4096)"
    by (simp add: algebra_simps)
  then have "in_page a (p + of_nat i * PAGE_SIZE)"
    by (simp add: in_page_def)
  then show "\<exists>q \<in> set (run p n). in_page a q"
    using i by (auto simp: run_def)
qed

lemma pages_ok_length: "pages_ok ps \<Longrightarrow> length ps < 2 ^ 64"
proof -
  assume "pages_ok ps"
  then have "length ps = card (set ps)" "set ps \<subset> (UNIV :: u64 set)"
    by (auto simp: pages_ok_def distinct_card)
  moreover have "card (UNIV :: u64 set) = 2 ^ 64"
    by (simp add: card_word)
  ultimately show ?thesis
    using psubset_card_mono [of "UNIV :: u64 set" "set ps"] by simp
qed

lemma unlink_frees:
  assumes "chain m fl (xs @ r @ ts)" and "pages_ok (xs @ r @ ts)" and "r \<noteq> []"
    and "unlink m fl (Some (xs, r, ts)) = (m', fl', p)"
  shows "chain m' fl' (xs @ ts)" and "p = hd r"
    and "(\<And>q. q \<in> set xs \<Longrightarrow> \<not> in_page a q) \<Longrightarrow> m' a = m a"
proof -
  show "p = hd r"
    using assms(4) by (auto simp: unlink_def split: if_splits)
  show "chain m' fl' (xs @ ts)"
  proof (cases xs rule: rev_cases)
    case Nil
    then show ?thesis
      using assms(4) chain_suffix [of m fl r ts] assms(1) by (simp add: unlink_def)
  next
    case (snoc ys l)
    then show ?thesis
      using assms chain_relink [of m fl ys l r ts] by (simp add: unlink_def)
  qed
  show "m' a = m a" if "\<And>q. q \<in> set xs \<Longrightarrow> \<not> in_page a q"
    using assms(4) that [of "last xs"]
    by (cases "xs = []") (auto simp: unlink_def in_page_def store64_outside)
qed

lemma align_mask_eq: "order < 52 \<Longrightarrow> push_bit PAGE_SHIFT (push_bit order 1) - 1 = (mask (order + 12) :: u64)"
  by (simp add: PAGE_SHIFT_def mask_eq_pow push_bit_eq_mult power_add mult.commute)

text \<open>
  A successful search takes one aligned run out of the list and clears it; an unsuccessful one
  changes nothing. The search always ends.
\<close>

lemma alloc_pages_spec:
  assumes "free_list s ps" and "order < 52"
  shows "\<exists>p s'. alloc_pages order s = Ret (p, s') \<and>
    (if find_run (2 ^ order) (mask (order + 12)) [] [] ps = None then p = 0 \<and> s' = s
     else \<exists>xs ys. ps = xs @ run p (2 ^ order) @ ys \<and> p \<noteq> 0 \<and> aligned (order + 12) p \<and> free_list s' (xs @ ys)
       \<and> s' = s\<lparr>ram := ram s', freelist := freelist s'\<rparr>
       \<and> (\<forall>a. unat (a - p) < 2 ^ order * 4096 \<longrightarrow> ram s' a = 0)
       \<and> (\<forall>a. (\<forall>q \<in> set ps. \<not> in_page a q) \<longrightarrow> ram s' a = ram s a))"
proof -
  let ?n = "2 ^ order :: nat" and ?mk = "mask (order + 12) :: u64"
  have c: "chain (ram s) (freelist s) ps" and ok: "pages_ok ps"
    using assms(1) by (simp_all add: free_list_def)
  have nn: "(push_bit order 1 :: u64) = of_nat ?n" and nlt: "?n < 2 ^ 52"
    using power_strict_increasing [OF assms(2), of "2 :: nat"] by (simp_all add: push_bit_eq_mult)
  obtain m fl p where mfp: "unlink (ram s) (freelist s) (find_run ?n ?mk [] [] ps) = (m, fl, p)"
    by (cases "unlink (ram s) (freelist s) (find_run ?n ?mk [] [] ps)")
  have loop: "alloc_pages_loop (of_nat ?n) ?mk (ram s) (freelist s) 0 (freelist s) 0 0 0 0 = Some (m, fl, p)"
    using alloc_pages_loop_find_run [OF c, of 0 "[]" "[]" 0 0 0 0 ?n ?mk "freelist s"] pages_ok_length [OF ok]
      nlt ok mfp by (auto simp: last0_def pages_ok_def)
  let ?s = "s\<lparr>ram := (if p \<noteq> 0 then memset m p 0 (of_nat ?n * PAGE_SIZE) else m), freelist := fl\<rparr>"
  have al: "push_bit PAGE_SHIFT (of_nat ?n :: u64) - 1 = ?mk"
    using align_mask_eq [OF assms(2)] unfolding nn .
  have eq: "alloc_pages order s = Ret (p, ?s)"
    using assms(2) loop unfolding alloc_pages_def Let_def nn al by (simp add: sizeof_long_def)
  show ?thesis
  proof (cases "find_run ?n ?mk [] [] ps")
    case None
    then show ?thesis
      using mfp eq by (simp add: unlink_def)
  next
    case (Some f)
    then obtain xs r ts where f: "find_run ?n ?mk [] [] ps = Some (xs, r, ts)"
      by (cases f) auto
    have r: "ps = xs @ r @ ts" "r = run (hd r) ?n" "hd r AND ?mk = 0"
      using find_run_Some [OF f] by auto
    then have ne: "r \<noteq> []"
      using run_simps(3) [of "hd r" ?n] by auto
    have un: "chain m fl (xs @ ts)" "p = hd r" "\<And>a. (\<And>q. q \<in> set xs \<Longrightarrow> \<not> in_page a q) \<Longrightarrow> m a = ram s a"
      using unlink_frees [of "ram s" "freelist s" xs r ts m fl p] c ok ne mfp f r(1) by auto
    have rp: "r = run p ?n"
      using r(2) un(2) by simp
    have p: "p \<noteq> 0" "aligned (order + 12) p"
      using ok r(1,3) ne un(2) by (auto simp: pages_ok_def aligned_def take_bit_eq_mask)
    have ms: "memset m p 0 (of_nat ?n * PAGE_SIZE) a = (if unat (a - p) < ?n * 4096 then 0 else m a)" for a
      using unat_page_offset [OF nlt] by (simp add: memset_apply)
    have out: "\<not> unat (a - p) < ?n * 4096" if "\<And>q. q \<in> set r \<Longrightarrow> \<not> in_page a q" for a
      using that in_run_iff [OF nlt, of p a] rp by auto
    have "load64 (memset m p 0 (of_nat ?n * PAGE_SIZE)) q = load64 m q" if q: "q \<in> set (xs @ ts)" for q
    proof (rule load64_other_page)
      show "page_aligned q"
        using q ok r(1) by (auto simp: pages_ok_def)
      fix a
      assume "in_page a q"
      then have "\<not> in_page a q'" if "q' \<in> set r" for q'
        using that q ok r(1) in_page_unique [of q q' a] by (auto simp: pages_ok_def)
      then show "memset m p 0 (of_nat ?n * PAGE_SIZE) a = m a"
        using out ms by simp
    qed
    then have "free_list ?s (xs @ ts)"
      using chain_cong [of "xs @ ts" "memset m p 0 (of_nat ?n * PAGE_SIZE)" m fl] un(1) ok r(1) p(1)
      by (auto simp: free_list_def pages_ok_def)
    then have unl: "ps = xs @ run p ?n @ ts \<and> p \<noteq> 0 \<and> aligned (order + 12) p \<and> free_list ?s (xs @ ts)
       \<and> ?s = s\<lparr>ram := ram ?s, freelist := freelist ?s\<rparr>
       \<and> (\<forall>a. unat (a - p) < ?n * 4096 \<longrightarrow> ram ?s a = 0)
       \<and> (\<forall>a. (\<forall>q \<in> set ps. \<not> in_page a q) \<longrightarrow> ram ?s a = ram s a)"
      using r(1) rp p ms out un(3) by auto
    show ?thesis
    proof (intro exI conjI)
      show "alloc_pages order s = Ret (p, ?s)"
        by (rule eq)
      have g: "(find_run ?n ?mk [] [] ps = None) = False"
        by (simp add: f)
      show "if find_run ?n ?mk [] [] ps = None then p = 0 \<and> ?s = s
         else \<exists>xs ys. ps = xs @ run p ?n @ ys \<and> p \<noteq> 0 \<and> aligned (order + 12) p \<and> free_list ?s (xs @ ys)
           \<and> ?s = s\<lparr>ram := ram ?s, freelist := freelist ?s\<rparr>
           \<and> (\<forall>a. unat (a - p) < ?n * 4096 \<longrightarrow> ram ?s a = 0)
           \<and> (\<forall>a. (\<forall>q \<in> set ps. \<not> in_page a q) \<longrightarrow> ram ?s a = ram s a)"
        unfolding g if_False by (rule exI [of _ xs], rule exI [of _ ts], rule unl)
    qed
  qed
qed

section \<open>Completeness of the search\<close>

text \<open>
  The search passes over a page that breaks a run without considering it as the start of the
  next one. On a list of consecutive pages no run breaks, so an aligned run is found.
\<close>

lemma run_hd: "0 < n \<Longrightarrow> hd (run p n) = p"
  by (cases n) simp_all

lemma find_run_collect:
  assumes "r = run p (length r)" and "r \<noteq> []" and "length r \<le> n" and "n \<le> length r + k" and "length r < n"
  shows "find_run n msk xs r (run (p + of_nat (length r) * PAGE_SIZE) k @ ys) \<noteq> None"
  using assms
proof (induction k arbitrary: r)
  case (Suc k)
  have hd: "hd r = p"
    using run_hd [of "length r" p] Suc.prems(2) by (simp flip: Suc.prems(1))
  let ?r = "r @ [p + of_nat (length r) * PAGE_SIZE]"
  have r: "?r = run p (length ?r)"
    using Suc.prems(1) run_snoc [of p "length r"] by (simp del: run_simps(2))
  have k: "p + of_nat (length r) * PAGE_SIZE + PAGE_SIZE = p + of_nat (length ?r) * PAGE_SIZE"
    by (simp add: algebra_simps)
  have step: "find_run n msk xs r ((p + of_nat (length r) * PAGE_SIZE) # ts) =
      (if length ?r = n then Some (xs, ?r, ts) else find_run n msk xs ?r ts)" for ts
    using Suc.prems(2) by (simp add: hd)
  show ?case
  proof (cases "length ?r = n")
    case True
    then show ?thesis
      unfolding run_simps(2) append_Cons k step by simp
  next
    case False
    have "find_run n msk xs ?r (run (p + of_nat (length ?r) * PAGE_SIZE) k @ ys) \<noteq> None"
      using Suc.prems(3-5) False by (intro Suc.IH [OF r]) simp_all
    then show ?thesis
      unfolding run_simps(2) append_Cons k step using False by (simp only: if_False not_False_eq_True)
  qed
qed simp

lemma find_run_consecutive:
  assumes "i < n" and "p + of_nat i * PAGE_SIZE = q" and "q AND msk = 0" and "i + k \<le> n" and "0 < k"
  shows "find_run k msk xs [] (run p n @ ys) \<noteq> None"
  using assms
proof (induction n arbitrary: p i xs)
  case (Suc n)
  show ?case
  proof (cases "p AND msk = 0")
    case True
    show ?thesis
    proof (cases "k = 1")
      case False
      then have "find_run k msk xs [p] (run (p + of_nat (length [p]) * PAGE_SIZE) n @ ys) \<noteq> None"
        using Suc.prems(4,5) by (intro find_run_collect) simp_all
      then show ?thesis
        using True False by (simp add: Let_def)
    qed (use True in \<open>simp add: Let_def\<close>)
  next
    case False
    then obtain j where j: "i = Suc j"
      using Suc.prems(2,3) by (cases i) simp_all
    have "find_run k msk (xs @ [p]) [] (run (p + PAGE_SIZE) n @ ys) \<noteq> None"
    proof (rule Suc.IH [of j])
      show "p + PAGE_SIZE + of_nat j * PAGE_SIZE = q"
        using Suc.prems(2) by (simp add: j distrib_right add.assoc)
    qed (use Suc.prems j in simp_all)
    then show ?thesis
      using False Suc.prems(5) by (auto simp: Let_def)
  qed
qed simp

section \<open>Properties\<close>

text \<open>A cleared machine whose free list is one block, for examples.\<close>

lemma reset_free: "free_list reset_machine []"
  by (simp add: reset_machine_def free_list_def pages_ok_def)

lemma run_machine:
  assumes "page_aligned p" and "p \<noteq> 0" and "0 < n" and "n < 2 ^ 52" and "unat p + n * 4096 \<le> 2 ^ 64"
  shows "\<exists>s. free_list s (run p n) \<and> (\<forall>a. \<not> unat (a - p) < n * 4096 \<longrightarrow> ram s a = 0)"
proof -
  have "pages_ok (run p n @ [])"
    using run_pages_ok [OF assms(1,2,5)] by simp
  then obtain s where "free_list s (run p n @ [])" "\<forall>a. (\<forall>q \<in> set (run p n). \<not> in_page a q) \<longrightarrow> ram s a = ram reset_machine a"
    using free_pages_push [OF reset_free _ assms(3-5)] by blast
  then show ?thesis
    using in_run_iff [OF assms(4), of p] by (intro exI [of _ s] conjI allI impI) (simp_all add: reset_machine_def, blast)
qed

text \<open>
  freeing a page-aligned block that does not wrap around and shares no page with the list
  returns, and puts the pages of the block in front of the free list in ascending order; memory
  outside the block keeps its contents.
\<close>

theorem free_pages_correct:
  assumes "free_list s ps" and "pages_ok (run p n @ ps)" and "0 < n" and "n < 2 ^ 52" and "unat p + n * 4096 \<le> 2 ^ 64"
  shows "\<exists>s'. free_pages p (of_nat n * PAGE_SIZE) s = Ret s' \<and> free_list s' (run p n @ ps)
    \<and> (\<forall>a. \<not> unat (a - p) < n * 4096 \<longrightarrow> ram s' a = ram s a)"
  using free_pages_push [OF assms] in_run_iff [OF assms(4)] by blast

lemma find_run_head:
  assumes "ps = run r n @ ys" and "i + 2 ^ order \<le> n" and "aligned (order + 12) (r + of_nat i * PAGE_SIZE)"
  shows "find_run (2 ^ order) (mask (order + 12)) [] [] ps \<noteq> None"
proof -
  have "(r + of_nat i * PAGE_SIZE) AND mask (order + 12) = 0"
    using assms(3) by (simp add: aligned_def take_bit_eq_mask)
  moreover have "i < n"
    using assms(2) less_le_trans [of i "i + 2 ^ order" n] by simp
  ultimately show ?thesis
    unfolding assms(1) using assms(2) by (intro find_run_consecutive) simp_all
qed

text \<open>
  C5: \<open>alloc_pages\<close> always returns. It does not return NULL when the free list begins with a block of consecutive
  pages in which \<open>2 ^ order\<close> pages start at an aligned address, as it does after a block was freed; for a single page this is
  every list that is not empty. When it does not return NULL it took an aligned run of
  \<open>2 ^ order\<close> consecutive pages out of the free list: the remaining pages stay on the list in
  order, the run is cleared, and memory outside the free pages keeps its contents. When it returns NULL nothing has changed.
\<close>

theorem alloc_pages_takes_run:
  assumes "free_list s ps" and "order < 52"
  shows "\<exists>p s'. alloc_pages order s = Ret (p, s') \<and> (p = 0 \<longrightarrow> s' = s)
    \<and> (\<forall>r n i ys. ps = run r n @ ys \<and> i + 2 ^ order \<le> n \<and> aligned (order + 12) (r + of_nat i * PAGE_SIZE) \<longrightarrow> p \<noteq> 0)
    \<and> (p \<noteq> 0 \<longrightarrow> aligned (order + 12) p
        \<and> (\<exists>xs ys. ps = xs @ run p (2 ^ order) @ ys \<and> free_list s' (xs @ ys))
        \<and> (\<forall>a. unat (a - p) < 2 ^ order * 4096 \<longrightarrow> ram s' a = 0)
        \<and> (\<forall>a. (\<forall>q \<in> set ps. \<not> in_page a q) \<longrightarrow> ram s' a = ram s a))"
proof -
  obtain p s' where eq: "alloc_pages order s = Ret (p, s')"
    and post: "if find_run (2 ^ order) (mask (order + 12)) [] [] ps = None then p = 0 \<and> s' = s
     else \<exists>xs ys. ps = xs @ run p (2 ^ order) @ ys \<and> p \<noteq> 0 \<and> aligned (order + 12) p \<and> free_list s' (xs @ ys)
       \<and> s' = s\<lparr>ram := ram s', freelist := freelist s'\<rparr>
       \<and> (\<forall>a. unat (a - p) < 2 ^ order * 4096 \<longrightarrow> ram s' a = 0)
       \<and> (\<forall>a. (\<forall>q \<in> set ps. \<not> in_page a q) \<longrightarrow> ram s' a = ram s a)"
    using alloc_pages_spec [OF assms] by (elim exE conjE)
  show ?thesis
  proof (cases "find_run (2 ^ order) (mask (order + 12)) [] [] ps = None")
    case True
    have "\<not> (ps = run r n @ ys \<and> i + 2 ^ order \<le> n \<and> aligned (order + 12) (r + of_nat i * PAGE_SIZE))" for r n i ys
      using True find_run_head by blast
    then show ?thesis
      using True eq post by (intro exI [of _ p] exI [of _ s']) simp
  next
    case False
    then obtain xs ys where "ps = xs @ run p (2 ^ order) @ ys" "p \<noteq> 0" "aligned (order + 12) p" "free_list s' (xs @ ys)"
       "\<forall>a. unat (a - p) < 2 ^ order * 4096 \<longrightarrow> ram s' a = 0"
       "\<forall>a. (\<forall>q \<in> set ps. \<not> in_page a q) \<longrightarrow> ram s' a = ram s a"
      using post by (simp only: if_False) blast
    then show ?thesis
      using eq by blast
  qed
qed

theorem alloc_pages_takes_run_witness:
  "\<exists>s p s' xs ys. free_list s (run 0x1000 4) \<and> alloc_pages 1 s = Ret (p, s') \<and> p \<noteq> 0 \<and> aligned 13 p
    \<and> run 0x1000 4 = xs @ run p 2 @ ys \<and> free_list s' (xs @ ys)"
proof -
  obtain s where s: "free_list s (run 0x1000 4)"
    using run_machine [of "0x1000" 4] by (auto simp: aligned_def)
  have o: "(1 :: nat) < 52"
    by simp
  have "run 0x1000 4 = run 0x1000 4 @ [] \<and> 1 + 2 ^ 1 \<le> (4 :: nat) \<and> aligned (1 + 12) (0x1000 + of_nat 1 * PAGE_SIZE)"
    by (simp add: aligned_def PAGE_SIZE_def)
  then obtain p s' where p: "alloc_pages 1 s = Ret (p, s')" "p \<noteq> 0" "aligned (1 + 12) p"
      "\<exists>xs ys. run 0x1000 4 = xs @ run p (2 ^ 1) @ ys \<and> free_list s' (xs @ ys)"
    using alloc_pages_takes_run [OF s o] by blast
  have "(2 :: nat) ^ 1 = 2" "(1 :: nat) + 12 = 13"
    by simp_all
  then show ?thesis
    using s p by metis
qed

text \<open>
  the search can miss a run: with the free pages \<^verbatim>\<open>0x2000, 0x4000, 0x5000\<close> the aligned pair at
  \<^verbatim>\<open>0x4000\<close> is free, and \<open>alloc_pages\<close> for a pair returns NULL, because the page that breaks the run
  at \<^verbatim>\<open>0x2000\<close> is not taken as the start of the next one.
\<close>

theorem alloc_pages_misses_run:
  assumes "free_list s [0x2000, 0x4000, 0x5000]"
  shows "alloc_pages 1 s = Ret (0, s) \<and> [0x4000, 0x5000] = run 0x4000 (2 ^ 1) \<and> aligned (1 + 12) 0x4000"
proof -
  have m: "mask (1 + 12) = (0x1fff :: u64)"
    by (simp add: mask_eq_pow)
  have "find_run (2 ^ 1) (mask (1 + 12)) [] [] [0x2000, 0x4000, 0x5000] = None"
    unfolding m by (simp add: PAGE_SIZE_def)
  then have "alloc_pages 1 s = Ret (0, s)"
    using alloc_pages_spec [OF assms, of 1] by (simp only: if_True) auto
  then show ?thesis
    by (simp add: numeral_2_eq_2 PAGE_SIZE_def aligned_def)
qed

end
