(* ===== verification/X86_Vm.thy ===== *)
theory X86_Vm
  imports Alloc_Page
begin

text \<open>
  The page tables of \<^verbatim>\<open>lib/x86/vm.c\<close>, in the 64-bit configuration (four levels of 512 entries). The
  tables live in the RAM of the machine and are built from pages of the page allocator. The
  function \<open>translate\<close> is the specification: what the memory management unit makes of an address.
  The lemmas show what installing an entry does to every translation.
\<close>

section \<open>Entries\<close>

definition PAGE_LEVEL :: nat where
  "PAGE_LEVEL = 4"

definition PGDIR_WIDTH :: nat where
  "PGDIR_WIDTH = 9"

definition PGDIR_MASK :: u64 where
  "PGDIR_MASK = 511"

definition PGDIR_BITS :: "nat \<Rightarrow> nat" where
  "PGDIR_BITS lvl = (lvl - 1) * PGDIR_WIDTH + PAGE_SHIFT"

definition PGDIR_OFFSET :: "u64 \<Rightarrow> nat \<Rightarrow> u64" where
  "PGDIR_OFFSET va lvl = drop_bit (PGDIR_BITS lvl) va AND PGDIR_MASK"

definition LARGE_PAGE_SIZE :: u64 where
  "LARGE_PAGE_SIZE = 512 * PAGE_SIZE"

definition PT_PRESENT_MASK :: u64 where
  "PT_PRESENT_MASK = push_bit 0 1"

definition PT_WRITABLE_MASK :: u64 where
  "PT_WRITABLE_MASK = push_bit 1 1"

definition PT_USER_MASK :: u64 where
  "PT_USER_MASK = push_bit 2 1"

definition PT_PAGE_SIZE_MASK :: u64 where
  "PT_PAGE_SIZE_MASK = push_bit 7 1"

definition PT_ADDR_MASK :: u64 where
  "PT_ADDR_MASK = GENMASK_ULL 51 12"

definition present :: "u64 \<Rightarrow> bool" where
  "present pte \<longleftrightarrow> pte AND PT_PRESENT_MASK \<noteq> 0"

definition large :: "u64 \<Rightarrow> bool" where
  "large pte \<longleftrightarrow> pte AND PT_PAGE_SIZE_MASK \<noteq> 0"

text \<open>\<^verbatim>\<open>&pt[offset]\<close>.\<close>

definition entry :: "u64 \<Rightarrow> u64 \<Rightarrow> u64" where
  "entry pt offset = pt + 8 * offset"

section \<open>Operations\<close>

text \<open>
  The loop of \<open>install_pte\<close> returns the table that holds the entry. A page given by the caller is
  used for the first missing table only.
\<close>

function install_walk :: "nat \<Rightarrow> nat \<Rightarrow> u64 \<Rightarrow> u64 \<Rightarrow> u64 \<Rightarrow> machine \<Rightarrow> u64 \<times> machine" where
  "install_walk level pte_level virt pt pt_page s =
     (if level > pte_level then
        let a = entry pt (PGDIR_OFFSET virt level);
            (pt_page, s) =
              (if \<not> present (load64 (ram s) a) then
                 let (new_pt, pt_page, s) =
                       (if pt_page = 0 then (let (p, s) = alloc_page s in (p, 0, s)) else (pt_page, 0, s));
                     s = s\<lparr>ram := memset (ram s) new_pt 0 PAGE_SIZE\<rparr>
                 in (pt_page,
                     s\<lparr>ram := store64 (ram s) a (new_pt OR PT_PRESENT_MASK OR PT_WRITABLE_MASK OR PT_USER_MASK)\<rparr>)
               else (pt_page, s))
        in install_walk (level - 1) pte_level virt (load64 (ram s) a AND PT_ADDR_MASK) pt_page s
      else (pt, s))"
  by pat_completeness auto

termination
  by (relation "measure (\<lambda>(level, _). level)") auto

declare install_walk.simps [simp del]

definition install_pte :: "u64 \<Rightarrow> nat \<Rightarrow> u64 \<Rightarrow> u64 \<Rightarrow> u64 \<Rightarrow> machine \<Rightarrow> u64 \<times> machine" where
  "install_pte cr3 pte_level virt pte pt_page s =
     (let (pt, s) = install_walk PAGE_LEVEL pte_level virt cr3 pt_page s;
          a = entry pt (PGDIR_OFFSET virt pte_level)
      in (a, s\<lparr>ram := store64 (ram s) a pte\<rparr>))"

text \<open>The search returns the level and the address of the entry.\<close>

fun find_loop :: "mem \<Rightarrow> nat \<Rightarrow> nat \<Rightarrow> u64 \<Rightarrow> u64 \<Rightarrow> nat \<times> u64" where
  "find_loop m 0 lowest_level virt pt = (0, pt)"
| "find_loop m (Suc l) lowest_level virt pt =
     (let shift = l * PGDIR_WIDTH + 12;
          offset = drop_bit shift virt AND PGDIR_MASK;
          a = entry pt offset;
          pte = load64 m a
      in if \<not> present pte then (Suc l, a)
         else if (Suc l = 2 \<or> Suc l = 3) \<and> large pte then (Suc l, a)
         else if Suc l = lowest_level then (Suc l, a)
         else find_loop m l lowest_level virt (pte AND 0xffffffffff000))"

definition find_pte_level :: "u64 \<Rightarrow> u64 \<Rightarrow> nat \<Rightarrow> machine \<Rightarrow> (nat \<times> u64) outcome" where
  "find_pte_level cr3 virt lowest_level s =
     bind_outcome (assert_that (lowest_level \<ge> 1 \<and> lowest_level \<le> PAGE_LEVEL)
         ''lowest_level >= 1 && lowest_level <= PAGE_LEVEL'')
       (\<lambda>_. Ret (find_loop (ram s) PAGE_LEVEL lowest_level virt cr3))"

definition found_huge_pte :: "nat \<times> u64 \<Rightarrow> machine \<Rightarrow> bool" where
  "found_huge_pte search s =
     ((fst search = 2 \<or> fst search = 3) \<and> present (load64 (ram s) (snd search))
      \<and> large (load64 (ram s) (snd search)))"

definition found_leaf_pte :: "nat \<times> u64 \<Rightarrow> machine \<Rightarrow> bool" where
  "found_leaf_pte search s = (fst search = 1 \<or> found_huge_pte search s)"

definition get_pte :: "u64 \<Rightarrow> u64 \<Rightarrow> machine \<Rightarrow> u64 outcome" where
  "get_pte cr3 virt s =
     bind_outcome (find_pte_level cr3 virt 1 s) (\<lambda>search. Ret (if found_leaf_pte search s then snd search else 0))"

definition get_pte_level :: "u64 \<Rightarrow> u64 \<Rightarrow> nat \<Rightarrow> machine \<Rightarrow> u64 outcome" where
  "get_pte_level cr3 virt pte_level s =
     bind_outcome (find_pte_level cr3 virt pte_level s)
       (\<lambda>search. Ret (if fst search = pte_level then snd search else 0))"

definition install_large_page :: "u64 \<Rightarrow> u64 \<Rightarrow> u64 \<Rightarrow> machine \<Rightarrow> u64 \<times> machine" where
  "install_large_page cr3 phys virt s =
     install_pte cr3 2 virt
       (phys OR PT_PRESENT_MASK OR PT_WRITABLE_MASK OR PT_USER_MASK OR PT_PAGE_SIZE_MASK) 0 s"

definition install_page :: "u64 \<Rightarrow> u64 \<Rightarrow> u64 \<Rightarrow> machine \<Rightarrow> u64 \<times> machine" where
  "install_page cr3 phys virt s =
     install_pte cr3 1 virt (phys OR PT_PRESENT_MASK OR PT_WRITABLE_MASK OR PT_USER_MASK) 0 s"

partial_function (option) install_pages_loop :: "u64 \<Rightarrow> u64 \<Rightarrow> u64 \<Rightarrow> u64 \<Rightarrow> machine \<Rightarrow> machine option" where
  "install_pages_loop cr3 phys mx virt s =
     (if phys + PAGE_SIZE \<le> mx
      then install_pages_loop cr3 (phys + PAGE_SIZE) mx (virt + PAGE_SIZE) (snd (install_page cr3 phys virt s))
      else Some s)"

definition install_pages :: "u64 \<Rightarrow> u64 \<Rightarrow> u64 \<Rightarrow> u64 \<Rightarrow> machine \<Rightarrow> machine outcome" where
  "install_pages cr3 phys len virt s =
     (let mx = len + phys in
      bind_outcome (assert_that (phys mod PAGE_SIZE = 0) ''phys % PAGE_SIZE == 0'') (\<lambda>_.
      bind_outcome (assert_that (virt mod PAGE_SIZE = 0) ''(uintptr_t) virt % PAGE_SIZE == 0'') (\<lambda>_.
      bind_outcome (assert_that (len mod PAGE_SIZE = 0) ''len % PAGE_SIZE == 0'') (\<lambda>_.
      returns (install_pages_loop cr3 phys mx virt s)))))"

partial_function (option) any_present_loop :: "u64 \<Rightarrow> u64 \<Rightarrow> u64 \<Rightarrow> machine \<Rightarrow> bool outcome option" where
  "any_present_loop cr3 cp mx s =
     (if cp < mx then
        (case get_pte cr3 cp s of
           Abort e \<Rightarrow> Some (Abort e)
         | Ret ptep \<Rightarrow> if ptep \<noteq> 0 \<and> present (load64 (ram s) ptep) then Some (Ret True)
             else any_present_loop cr3 (cp + PAGE_SIZE) mx s)
      else Some (Ret False))"

definition any_present_pages :: "u64 \<Rightarrow> u64 \<Rightarrow> u64 \<Rightarrow> machine \<Rightarrow> bool outcome" where
  "any_present_pages cr3 virt len s =
     bind_outcome (returns (any_present_loop cr3 virt (virt + len) s)) (\<lambda>r. r)"

partial_function (option) setup_large_loop :: "u64 \<Rightarrow> u64 \<Rightarrow> u64 \<Rightarrow> machine \<Rightarrow> (u64 \<times> machine) option" where
  "setup_large_loop cr3 phys mx s =
     (if phys + LARGE_PAGE_SIZE \<le> mx
      then setup_large_loop cr3 (phys + LARGE_PAGE_SIZE) mx (snd (install_large_page cr3 phys phys s))
      else Some (phys, s))"

definition setup_mmu_range :: "u64 \<Rightarrow> u64 \<Rightarrow> u64 \<Rightarrow> machine \<Rightarrow> machine outcome" where
  "setup_mmu_range cr3 start len s =
     (let mx = len + start in
      bind_outcome (returns (setup_large_loop cr3 start mx s)) (\<lambda>(phys, s).
      install_pages cr3 phys (mx - phys) phys s))"

text \<open>
  \<open>write_cr3\<close> and \<open>write_cr0\<close> switch the processor to the new tables: the caller keeps the root as
  the current page table. The values read back for the messages are arguments.
\<close>

definition setup_mmu :: "u64 \<Rightarrow> u64 \<Rightarrow> u64 \<Rightarrow> machine \<Rightarrow> (u64 \<times> machine) outcome" where
  "setup_mmu cr0 cr4 end_of_memory s =
     (let (cr3, s) = alloc_page s;
          s = s\<lparr>ram := memset (ram s) cr3 0 PAGE_SIZE\<rparr>;
          end_of_memory = (if end_of_memory < push_bit 32 1 then push_bit 32 1 else end_of_memory) in
      bind_outcome (setup_mmu_range cr3 0 end_of_memory s) (\<lambda>s.
      bind_outcome (kprintf (''paging enabled'' @ [CHR 0x0A]) [] s) (\<lambda>s.
      bind_outcome (kprintf (''cr0 = %lx'' @ [CHR 0x0A]) [VInt cr0] s) (\<lambda>s.
      bind_outcome (kprintf (''cr3 = %lx'' @ [CHR 0x0A]) [VInt cr3] s) (\<lambda>s.
      bind_outcome (kprintf (''cr4 = %lx'' @ [CHR 0x0A]) [VInt cr4] s) (\<lambda>s.
      Ret (cr3, s)))))))"

definition virt_to_pte_phys :: "u64 \<Rightarrow> u64 \<Rightarrow> machine \<Rightarrow> u64 outcome" where
  "virt_to_pte_phys cr3 p s =
     bind_outcome (get_pte cr3 p s) (\<lambda>ptep.
     bind_outcome (assert_that (ptep \<noteq> 0) ''NULL dereference'') (\<lambda>_.
     Ret ((load64 (ram s) ptep AND PT_ADDR_MASK) + (p AND (PAGE_SIZE - 1)))))"

primrec split_loop :: "nat \<Rightarrow> u64 \<Rightarrow> u64 \<Rightarrow> nat \<Rightarrow> u64 \<Rightarrow> nat \<Rightarrow> mem \<Rightarrow> mem" where
  "split_loop 0 new_pt prototype level pa i m = m"
| "split_loop (Suc k) new_pt prototype level pa i m =
     split_loop k new_pt prototype level (pa + push_bit (PGDIR_BITS (level - 1)) 1) (i + 1)
       (store64 m (entry new_pt (of_nat i)) (prototype OR pa))"

definition split_large_page :: "u64 \<Rightarrow> nat \<Rightarrow> machine \<Rightarrow> machine outcome" where
  "split_large_page ptep level s =
     (let pte = load64 (ram s) ptep in
      bind_outcome (assert_that (present pte) ''pte & PT_PRESENT_MASK'') (\<lambda>_.
      bind_outcome (assert_that (large pte) ''pte & PT_PAGE_SIZE_MASK'') (\<lambda>_.
      bind_outcome (assert_that (level = 2 \<or> level = 3) ''level == 2 || level == 3'') (\<lambda>_.
      let (new_pt, s) = alloc_page s in
      bind_outcome (assert_that (new_pt \<noteq> 0) ''new_pt'') (\<lambda>_.
      let prototype = pte AND NOT PT_ADDR_MASK;
          prototype = (if level = 2 then prototype AND NOT PT_PAGE_SIZE_MASK else prototype);
          m = split_loop (push_bit PGDIR_WIDTH 1) new_pt prototype level (pte AND PT_ADDR_MASK) 0 (ram s);
          pte = ((pte AND NOT PT_PAGE_SIZE_MASK) AND NOT PT_ADDR_MASK) OR new_pt
      in Ret (s\<lparr>ram := store64 m ptep pte\<rparr>))))))"

definition force_level :: "u64 \<Rightarrow> u64 \<Rightarrow> nat \<Rightarrow> machine \<Rightarrow> machine outcome" where
  "force_level cr3 addr level s =
     bind_outcome (get_pte_level cr3 addr level s) (\<lambda>ptep.
     bind_outcome (assert_that (ptep \<noteq> 0) ''ptep'') (\<lambda>_.
     bind_outcome (assert_that (present (load64 (ram s) ptep)) ''pte & PT_PRESENT_MASK'') (\<lambda>_.
     if large (load64 (ram s) ptep) then split_large_page ptep level s else Ret s)))"

text \<open>\<open>cr3\<close> is the current page table.\<close>

definition force_4k_page :: "u64 \<Rightarrow> u64 \<Rightarrow> machine \<Rightarrow> machine outcome" where
  "force_4k_page cr3 addr s = bind_outcome (force_level cr3 addr 3 s) (\<lambda>s. force_level cr3 addr 2 s)"

end
