(* ===== verification/Radix.thy ===== *)
theory Radix
  imports X86_Vm
begin

text \<open>
  Radix trees of tables with 512 entries: the page tables of the processor (\<^verbatim>\<open>lib/x86/vm.c\<close>), the extended page
  tables of a guest (\<^verbatim>\<open>x86/vmx.c\<close>) and the tables of the IOMMU (\<^verbatim>\<open>lib/x86/intel-iommu.c\<close>) all have this form and
  differ in the entries that count as present, the predicate \<open>pr\<close>. The tables live in the RAM of the machine
  and are built from pages of the page allocator. The function \<open>gtranslate\<close> is the specification: what the
  hardware makes of an address. The locale \<open>table_installer\<close> is the contract of a routine that installs an
  entry and makes the missing tables; in it, what such a routine does to every lookup is proved once.
\<close>

section \<open>The tables as a tree, and what they translate to\<close>

text \<open>The entry maps a large page.\<close>

definition huge :: "nat \<Rightarrow> u64 \<Rightarrow> bool" where
  "huge lvl e \<longleftrightarrow> (lvl = 2 \<or> lvl = 3) \<and> large e"

abbreviation pte_at :: "mem \<Rightarrow> u64 \<Rightarrow> nat \<Rightarrow> u64" where
  "pte_at m pt i \<equiv> load64 m (entry pt (of_nat i))"

text \<open>The pages that hold the tables of the tree below \<open>pt\<close>, a table of the given level.\<close>

primrec gtabs :: "(u64 \<Rightarrow> bool) \<Rightarrow> mem \<Rightarrow> nat \<Rightarrow> u64 \<Rightarrow> u64 list" where
  "gtabs pr m 0 pt = []"
| "gtabs pr m (Suc l) pt = pt # concat (map (\<lambda>i. let e = pte_at m pt i
     in if pr e \<and> \<not> huge (Suc l) e then gtabs pr m l (e AND PT_ADDR_MASK) else []) [0..<512])"

definition gsubtree :: "(u64 \<Rightarrow> bool) \<Rightarrow> mem \<Rightarrow> nat \<Rightarrow> u64 \<Rightarrow> u64 list" where
  "gsubtree pr m l e = (if pr e \<and> \<not> huge (Suc l) e then gtabs pr m l (e AND PT_ADDR_MASK) else [])"

text \<open>
  What the memory management unit does: the address is looked up level by level until a leaf, given
  by its level and its entry. The leaf gives the frame, and the low bits of the address are the
  offset in it.
\<close>

primrec glookup :: "(u64 \<Rightarrow> bool) \<Rightarrow> mem \<Rightarrow> nat \<Rightarrow> u64 \<Rightarrow> u64 \<Rightarrow> (nat \<times> u64) option" where
  "glookup pr m 0 pt va = None"
| "glookup pr m (Suc l) pt va =
     (let e = load64 m (entry pt (PGDIR_OFFSET va (Suc l)))
      in if \<not> pr e then None
         else if l = 0 \<or> huge (Suc l) e then Some (Suc l, e)
         else glookup pr m l (e AND PT_ADDR_MASK) va)"

definition leaf :: "nat \<Rightarrow> u64 \<Rightarrow> u64 \<Rightarrow> u64" where
  "leaf lvl e va = ((e AND PT_ADDR_MASK) AND NOT (mask (PGDIR_BITS lvl))) OR take_bit (PGDIR_BITS lvl) va"

definition frame_of :: "(nat \<times> u64) option \<Rightarrow> u64 \<Rightarrow> u64 option" where
  "frame_of r va = map_option (\<lambda>(l, e). leaf l e va) r"

definition gtranslate :: "(u64 \<Rightarrow> bool) \<Rightarrow> mem \<Rightarrow> nat \<Rightarrow> u64 \<Rightarrow> u64 \<Rightarrow> u64 option" where
  "gtranslate pr m lvl pt va = frame_of (glookup pr m lvl pt va) va"

text \<open>The two addresses use the same entries from level \<open>lvl\<close> down to level \<open>t\<close>.\<close>

definition same_path :: "nat \<Rightarrow> nat \<Rightarrow> u64 \<Rightarrow> u64 \<Rightarrow> bool" where
  "same_path t lvl va vb \<longleftrightarrow> (\<forall>l \<in> {t..lvl}. PGDIR_OFFSET va l = PGDIR_OFFSET vb l)"

text \<open>No large page is mapped above level \<open>t\<close> on the path of the address.\<close>

primrec gpath_free :: "(u64 \<Rightarrow> bool) \<Rightarrow> mem \<Rightarrow> nat \<Rightarrow> nat \<Rightarrow> u64 \<Rightarrow> u64 \<Rightarrow> bool" where
  "gpath_free pr m 0 t pt va = True"
| "gpath_free pr m (Suc l) t pt va =
     (Suc l > t \<longrightarrow> (let e = load64 m (entry pt (PGDIR_OFFSET va (Suc l)))
        in pr e \<longrightarrow> \<not> huge (Suc l) e \<and> gpath_free pr m l t (e AND PT_ADDR_MASK) va))"

text \<open>The entry at which the search for level \<open>t\<close> ends: its level and its address.\<close>

primrec gfind :: "(u64 \<Rightarrow> bool) \<Rightarrow> mem \<Rightarrow> nat \<Rightarrow> nat \<Rightarrow> u64 \<Rightarrow> u64 \<Rightarrow> nat \<times> u64" where
  "gfind pr m 0 t virt pt = (0, pt)"
| "gfind pr m (Suc l) t virt pt =
     (let a = entry pt (PGDIR_OFFSET virt (Suc l)); e = load64 m a
      in if \<not> pr e \<or> huge (Suc l) e \<or> Suc l = t then (Suc l, a) else gfind pr m l t virt (e AND PT_ADDR_MASK))"

text \<open>A page that can hold a table: its address fits the address field of an entry.\<close>

definition table_page :: "u64 \<Rightarrow> bool" where
  "table_page p \<longleftrightarrow> p AND PT_ADDR_MASK = p \<and> p \<noteq> 0"

text \<open>The tables below a root and the free pages are pairwise different pages.\<close>

definition gtree :: "(u64 \<Rightarrow> bool) \<Rightarrow> mem \<Rightarrow> nat \<Rightarrow> u64 \<Rightarrow> u64 list \<Rightarrow> bool" where
  "gtree pr m lvl pt fs \<longleftrightarrow> distinct (gtabs pr m lvl pt @ fs) \<and> (\<forall>p \<in> set (gtabs pr m lvl pt @ fs). table_page p)"

section \<open>Bits and entries\<close>

lemma bit_PT_ADDR_MASK: "bit PT_ADDR_MASK n \<longleftrightarrow> 12 \<le> n \<and> n < 52"
  by (auto simp: PT_ADDR_MASK_def bit_GENMASK_ULL)

lemma PT_ADDR_MASK_eq: "PT_ADDR_MASK = 0xffffffffff000"
proof -
  have "push_bit 12 (mask 40) = (0xffffffffff000 :: u64)"
    by (simp add: push_bit_eq_mult mask_eq_exp_minus_1)
  moreover have "PT_ADDR_MASK = push_bit 12 (mask 40)"
    by (rule bit_word_eqI) (auto simp: bit_PT_ADDR_MASK bit_push_bit_iff bit_mask_iff)
  ultimately show ?thesis
    by simp
qed

lemma table_page_aligned: "table_page p \<Longrightarrow> page_aligned p"
proof -
  assume "table_page p"
  then have "p AND PT_ADDR_MASK = p"
    by (simp add: table_page_def)
  moreover have "take_bit 12 PT_ADDR_MASK = 0"
    by (rule bit_word_eqI) (auto simp: bit_take_bit_iff bit_PT_ADDR_MASK)
  ultimately show ?thesis
    using take_bit_and [of 12 p PT_ADDR_MASK] by (simp add: aligned_def)
qed

lemma bit_flags:
  "bit PT_PRESENT_MASK n \<longleftrightarrow> n = 0" "bit PT_WRITABLE_MASK n \<longleftrightarrow> n = 1" "bit PT_USER_MASK n \<longleftrightarrow> n = 2"
  "bit PT_PAGE_SIZE_MASK n \<longleftrightarrow> n = 7"
  unfolding PT_PRESENT_MASK_def PT_WRITABLE_MASK_def PT_USER_MASK_def PT_PAGE_SIZE_MASK_def push_bit_of_1 bit_exp_iff
  by auto

lemma large_iff: "large e \<longleftrightarrow> bit e 7"
  using and_exp_eq_0_iff_not_bit [of e 7] by (simp add: large_def PT_PAGE_SIZE_MASK_def push_bit_eq_mult)

lemma unat_offset_512: "unat (PGDIR_OFFSET va l) < 512"
proof -
  have "PGDIR_OFFSET va l = take_bit 9 (drop_bit (PGDIR_BITS l) va)"
    by (simp add: PGDIR_OFFSET_def PGDIR_MASK_def take_bit_eq_mask mask_eq_exp_minus_1)
  then show ?thesis
    by (simp add: unsigned_take_bit_eq take_bit_nat_eq_self take_bit_nat_less_exp [of 9, simplified])
qed

lemma bit_leaf: "bit (leaf l e va) n \<longleftrightarrow> (if n < PGDIR_BITS l then bit va n else bit e n \<and> n < 52)"
  if "0 < l"
proof -
  have "12 \<le> PGDIR_BITS l"
    by (simp add: PGDIR_BITS_def PAGE_SHIFT_def)
  then show ?thesis
    using bit_imp_le_length [of e n] bit_imp_le_length [of va n]
    by (auto simp: leaf_def bit_or_iff bit_and_iff bit_not_iff bit_mask_iff bit_take_bit_iff bit_PT_ADDR_MASK)
qed

lemma bit_offset: "bit (unat (PGDIR_OFFSET va l)) k \<longleftrightarrow> k < 9 \<and> bit va (PGDIR_BITS l + k)"
proof -
  have "PGDIR_OFFSET va l = take_bit 9 (drop_bit (PGDIR_BITS l) va)"
    by (simp add: PGDIR_OFFSET_def PGDIR_MASK_def take_bit_eq_mask mask_eq_exp_minus_1)
  then have "bit (PGDIR_OFFSET va l) k \<longleftrightarrow> k < 9 \<and> bit va (PGDIR_BITS l + k)"
    by (simp add: bit_take_bit_iff bit_drop_bit_eq)
  moreover have "k < 9 \<Longrightarrow> possible_bit TYPE(nat) k"
    by simp
  ultimately show ?thesis
    by (simp add: bit_unsigned_iff)
qed

lemma entry_offset: "entry pt (PGDIR_OFFSET va l) = entry pt (of_nat (unat (PGDIR_OFFSET va l)))"
  by simp

lemma aligned_entry: "page_aligned pt \<Longrightarrow> aligned 3 (entry pt x)"
proof -
  assume "page_aligned pt"
  then have "aligned 3 pt"
    by (rule aligned_weaken) simp
  moreover have "take_bit 3 (8 * x) = 0"
    using take_bit_push_bit [of 3 3 x] by (simp add: push_bit_eq_mult mult.commute)
  ultimately show ?thesis
    using take_bit_word_add [of 3 pt "8 * x"] by (simp add: aligned_def entry_def)
qed

lemma unat_entry: "i < 512 \<Longrightarrow> j < 8 \<Longrightarrow> unat (entry pt (of_nat i) + of_nat j - pt) = 8 * i + j"
proof -
  assume "i < 512" "j < 8"
  moreover have "entry pt (of_nat i) + of_nat j - pt = of_nat (8 * i + j)"
    by (simp add: entry_def)
  moreover have "8 * i + j < 2 ^ 64"
    using calculation by simp
  ultimately show ?thesis
    by (simp only: unat_of_nat_u64)
qed

lemma entry_inj: "i < 512 \<Longrightarrow> j < 512 \<Longrightarrow> entry pt (of_nat i) = entry pt (of_nat j) \<longleftrightarrow> i = j"
proof
  assume i: "i < 512" and j: "j < 512" and "entry pt (of_nat i) = entry pt (of_nat j)"
  then have "8 * i = 8 * j"
    using unat_entry [OF i, of 0 pt] unat_entry [OF j, of 0 pt] by simp
  then show "i = j"
    by simp
qed simp

lemma pte_at_cong:
  assumes "\<And>a. in_page a pt \<Longrightarrow> m' a = m a" and "i < 512"
  shows "pte_at m' pt i = pte_at m pt i"
  by (rule loadn_cong) (use assms in \<open>simp add: in_page_def unat_entry\<close>)

lemma pte_at_store:
  assumes "page_aligned pt" and "i < 512" and "j < 512"
  shows "pte_at (store64 m (entry pt (of_nat i)) v) pt j = (if i = j then v else pte_at m pt j)"
  using assms entry_inj [of i j pt] aligned_entry [OF assms(1)]
  by (simp add: load64_store64_same load64_store64_other)

lemma store_entry_outside:
  assumes "page_aligned pt" and "i < 512" and "\<not> in_page a pt"
  shows "store64 m (entry pt (of_nat i)) v a = m a"
proof (rule store64_outside)
  show "\<not> unat (a - entry pt (of_nat i)) < 8"
  proof
    assume u: "unat (a - entry pt (of_nat i)) < 8"
    have "a = entry pt (of_nat i) + of_nat (unat (a - entry pt (of_nat i)))"
      by simp
    then have "unat (a - pt) = 8 * i + unat (a - entry pt (of_nat i))"
      using unat_entry [OF assms(2) u, of pt] by simp
    then show False
      using assms(2,3) u by (simp add: in_page_def)
  qed
qed

section \<open>The tree depends on its tables only\<close>

definition agree :: "u64 set \<Rightarrow> mem \<Rightarrow> mem \<Rightarrow> bool" where
  "agree ps m' m \<longleftrightarrow> (\<forall>p \<in> ps. \<forall>a. in_page a p \<longrightarrow> m' a = m a)"

lemma agreeD: "agree ps m' m \<Longrightarrow> p \<in> ps \<Longrightarrow> in_page a p \<Longrightarrow> m' a = m a"
  by (simp add: agree_def)

lemma agree_subset: "agree ps m' m \<Longrightarrow> qs \<subseteq> ps \<Longrightarrow> agree qs m' m"
  by (auto simp: agree_def)

lemma agree_pte_at: "agree ps m' m \<Longrightarrow> pt \<in> ps \<Longrightarrow> i < 512 \<Longrightarrow> pte_at m' pt i = pte_at m pt i"
  by (rule pte_at_cong) (simp_all add: agreeD)

lemma tabs_Suc: "gtabs pr m (Suc l) pt = pt # concat (map (\<lambda>i. gsubtree pr m l (pte_at m pt i)) [0..<512])"
  by (simp add: gsubtree_def Let_def)

declare gtabs.simps(2) [simp del]

lemma set_tabs_Suc: "set (gtabs pr m (Suc l) pt) = insert pt (\<Union>i \<in> {..<512}. set (gsubtree pr m l (pte_at m pt i)))"
  by (auto simp: tabs_Suc)

lemma root_in_tabs: "pt \<in> set (gtabs pr m (Suc l) pt)"
  by (simp add: tabs_Suc)

lemma subtree_subset: "i < 512 \<Longrightarrow> set (gsubtree pr m l (pte_at m pt i)) \<subseteq> set (gtabs pr m (Suc l) pt)"
  unfolding set_tabs_Suc by blast

lemma tabs_cong: "agree (set (gtabs pr m l pt)) m' m \<Longrightarrow> gtabs pr m' l pt = gtabs pr m l pt"
proof (induction l arbitrary: pt)
  case 0
  then show ?case by simp
next
  case (Suc l)
  have "gsubtree pr m' l (pte_at m' pt i) = gsubtree pr m l (pte_at m pt i)" if i: "i < 512" for i
  proof -
    have e: "pte_at m' pt i = pte_at m pt i"
      using Suc.prems root_in_tabs i by (rule agree_pte_at)
    have "agree (set (gsubtree pr m l (pte_at m pt i))) m' m"
      using Suc.prems subtree_subset [OF i] by (rule agree_subset)
    then show ?thesis
      using Suc.IH [of "pte_at m pt i AND PT_ADDR_MASK"] unfolding e by (auto simp: gsubtree_def)
  qed
  then have "map (\<lambda>i. gsubtree pr m' l (pte_at m' pt i)) [0..<512] = map (\<lambda>i. gsubtree pr m l (pte_at m pt i)) [0..<512]"
    by (intro map_cong refl) simp
  then show ?case
    by (simp only: tabs_Suc)
qed

lemma subtree_cong: "agree (set (gsubtree pr m l e)) m' m \<Longrightarrow> gsubtree pr m' l e = gsubtree pr m l e"
  using tabs_cong [of pr m l "e AND PT_ADDR_MASK" m'] by (auto simp: gsubtree_def)

lemma lookup_entry:
  "glookup pr m (Suc l) pt va = (let e = pte_at m pt (unat (PGDIR_OFFSET va (Suc l)))
      in if \<not> pr e then None
         else if l = 0 \<or> huge (Suc l) e then Some (Suc l, e)
         else glookup pr m l (e AND PT_ADDR_MASK) va)"
  by simp

declare glookup.simps(2) [simp del]

lemma translate_entry:
  "gtranslate pr m (Suc l) pt va = (let e = pte_at m pt (unat (PGDIR_OFFSET va (Suc l)))
      in if \<not> pr e then None
         else if l = 0 \<or> huge (Suc l) e then Some (leaf (Suc l) e va)
         else gtranslate pr m l (e AND PT_ADDR_MASK) va)"
  by (simp add: gtranslate_def frame_of_def lookup_entry Let_def)

lemma translate_None [simp]: "gtranslate pr m l pt va = None \<longleftrightarrow> glookup pr m l pt va = None"
  by (simp add: gtranslate_def frame_of_def)

lemma lookup_cong: "agree (set (gtabs pr m l pt)) m' m \<Longrightarrow> glookup pr m' l pt va = glookup pr m l pt va"
proof (induction l arbitrary: pt)
  case 0
  then show ?case by simp
next
  case (Suc l)
  define i where "i = unat (PGDIR_OFFSET va (Suc l))"
  have i: "i < 512"
    unfolding i_def by (rule unat_offset_512)
  have e: "pte_at m' pt i = pte_at m pt i"
    using Suc.prems root_in_tabs i by (rule agree_pte_at)
  have "agree (set (gsubtree pr m l (pte_at m pt i))) m' m"
    using Suc.prems subtree_subset [OF i] by (rule agree_subset)
  then show ?case
    using Suc.IH [of "pte_at m pt i AND PT_ADDR_MASK"]
    unfolding lookup_entry i_def [symmetric] e by (auto simp: gsubtree_def Let_def)
qed

section \<open>Replacing one subtree\<close>

lemma distinct_concat_upt:
  "distinct (concat (map f [0..<n])) \<longleftrightarrow>
     (\<forall>i < n. distinct (f i)) \<and> (\<forall>i < n. \<forall>j < n. i \<noteq> j \<longrightarrow> set (f i) \<inter> set (f j) = {})"
proof (induction n)
  case 0
  then show ?case by simp
next
  case (Suc n)
  have "set (concat (map f [0..<n])) \<inter> set (f n) = {} \<longleftrightarrow> (\<forall>i < n. set (f i) \<inter> set (f n) = {})"
    by (simp add: disjoint_iff Bex_def) blast
  moreover have "(\<forall>i < Suc n. \<forall>j < Suc n. i \<noteq> j \<longrightarrow> set (f i) \<inter> set (f j) = {}) \<longleftrightarrow>
      (\<forall>i < n. \<forall>j < n. i \<noteq> j \<longrightarrow> set (f i) \<inter> set (f j) = {}) \<and> (\<forall>i < n. set (f i) \<inter> set (f n) = {})"
    unfolding less_Suc_eq by blast
  ultimately show ?case
    using Suc.IH by (auto simp: less_Suc_eq)
qed

text \<open>The tables below every entry of a table but one.\<close>

definition gsiblings :: "(u64 \<Rightarrow> bool) \<Rightarrow> mem \<Rightarrow> nat \<Rightarrow> u64 \<Rightarrow> nat \<Rightarrow> u64 set" where
  "gsiblings pr m l pt i = (\<Union>j \<in> {..<512} - {i}. set (gsubtree pr m l (pte_at m pt j)))"

lemma distinct_tabs_Suc:
  "distinct (gtabs pr m (Suc l) pt) \<longleftrightarrow> (\<forall>i < 512. pt \<notin> set (gsubtree pr m l (pte_at m pt i)))
     \<and> (\<forall>i < 512. distinct (gsubtree pr m l (pte_at m pt i)))
     \<and> (\<forall>i < 512. \<forall>j < 512. i \<noteq> j \<longrightarrow> set (gsubtree pr m l (pte_at m pt i)) \<inter> set (gsubtree pr m l (pte_at m pt j)) = {})"
  unfolding tabs_Suc distinct.simps distinct_concat_upt by auto

lemma set_tabs_split:
  "i < 512 \<Longrightarrow> set (gtabs pr m (Suc l) pt) = insert pt (set (gsubtree pr m l (pte_at m pt i)) \<union> gsiblings pr m l pt i)"
  by (auto simp: set_tabs_Suc gsiblings_def)

lemma siblings_disjoint:
  assumes "distinct (gtabs pr m (Suc l) pt)" and "i < 512"
  shows "set (gsubtree pr m l (pte_at m pt i)) \<inter> gsiblings pr m l pt i = {}" and "pt \<notin> gsiblings pr m l pt i"
    and "pt \<notin> set (gsubtree pr m l (pte_at m pt i))" and "distinct (gsubtree pr m l (pte_at m pt i))"
  using assms unfolding distinct_tabs_Suc gsiblings_def by blast+

text \<open>
  A change that leaves the other entries of the table and the tables below them alone replaces one
  subtree.
\<close>

lemma replace_subtree:
  assumes "distinct (gtabs pr m (Suc l) pt)" and i: "i < 512"
    and "\<forall>j < 512. j \<noteq> i \<longrightarrow> pte_at m' pt j = pte_at m pt j"
    and sib': "agree (gsiblings pr m l pt i) m' m"
    and new: "set (gsubtree pr m' l (pte_at m' pt i)) \<inter> insert pt (gsiblings pr m l pt i) = {}"
      "distinct (gsubtree pr m' l (pte_at m' pt i))"
  shows "distinct (gtabs pr m' (Suc l) pt)"
    and "set (gtabs pr m' (Suc l) pt) = insert pt (set (gsubtree pr m' l (pte_at m' pt i)) \<union> gsiblings pr m l pt i)"
    and "unat (PGDIR_OFFSET va (Suc l)) \<noteq> i \<Longrightarrow> glookup pr m' (Suc l) pt va = glookup pr m (Suc l) pt va"
proof -
  have others: "pte_at m' pt j = pte_at m pt j" if "j < 512" "j \<noteq> i" for j
    using assms(3) that by blast
  have sub: "gsubtree pr m' l (pte_at m' pt j) = gsubtree pr m l (pte_at m pt j)" if j: "j < 512" "j \<noteq> i" for j
  proof -
    have "agree (set (gsubtree pr m l (pte_at m pt j))) m' m"
      by (rule agree_subset [OF sib']) (use j in \<open>auto simp: gsiblings_def\<close>)
    then show ?thesis
      unfolding others [OF j] by (rule subtree_cong)
  qed
  have sib: "gsiblings pr m' l pt i = gsiblings pr m l pt i"
    unfolding gsiblings_def using sub by simp
  have old: "distinct (gsubtree pr m l (pte_at m pt j))" "pt \<notin> set (gsubtree pr m l (pte_at m pt j))" if "j < 512" for j
    using assms(1) that by (simp_all add: distinct_tabs_Suc)
  have dj: "set (gsubtree pr m l (pte_at m pt j)) \<inter> set (gsubtree pr m l (pte_at m pt k)) = {}"
    if "j < 512" "k < 512" "j \<noteq> k" for j k
    using assms(1) that unfolding distinct_tabs_Suc by blast
  have sb: "set (gsubtree pr m l (pte_at m pt j)) \<subseteq> gsiblings pr m l pt i" if "j < 512" "j \<noteq> i" for j
    using that by (auto simp: gsiblings_def)
  show "set (gtabs pr m' (Suc l) pt) = insert pt (set (gsubtree pr m' l (pte_at m' pt i)) \<union> gsiblings pr m l pt i)"
    unfolding set_tabs_split [OF i] sib ..
  show "distinct (gtabs pr m' (Suc l) pt)"
    unfolding distinct_tabs_Suc
  proof (intro conjI allI impI)
    fix j k :: nat
    assume j: "j < 512"
    show "pt \<notin> set (gsubtree pr m' l (pte_at m' pt j))" "distinct (gsubtree pr m' l (pte_at m' pt j))"
      using new old [OF j] sub [OF j] by (cases "j = i"; auto)+
    assume k: "k < 512" and ne: "j \<noteq> k"
    show "set (gsubtree pr m' l (pte_at m' pt j)) \<inter> set (gsubtree pr m' l (pte_at m' pt k)) = {}"
      using new(1) sb [OF j] sb [OF k] sub [OF j] sub [OF k] dj [OF j k ne] ne
      by (cases "j = i"; cases "k = i") auto
  qed
  show "glookup pr m' (Suc l) pt va = glookup pr m (Suc l) pt va" if ne: "unat (PGDIR_OFFSET va (Suc l)) \<noteq> i"
  proof -
    let ?j = "unat (PGDIR_OFFSET va (Suc l))"
    have "agree (set (gsubtree pr m l (pte_at m pt ?j))) m' m"
      by (rule agree_subset [OF sib' sb [OF unat_offset_512 ne]])
    then show ?thesis
      using lookup_cong [of pr m l "pte_at m pt ?j AND PT_ADDR_MASK" m' va]
      unfolding lookup_entry others [OF unat_offset_512 ne] by (auto simp: gsubtree_def Let_def)
  qed
qed

section \<open>Installing an entry\<close>

text \<open>A missing table: a page of the allocator, which clears it, and the entry that points to it.\<close>

definition new_table :: "u64 \<Rightarrow> u64 \<Rightarrow> machine \<Rightarrow> machine" where
  "new_table tf a s = (let (p, s) = alloc_page s in s\<lparr>ram := store64 (ram s) a (p OR tf)\<rparr>)"

lemma table_page_bit: "table_page p \<Longrightarrow> bit p n \<Longrightarrow> 12 \<le> n \<and> n < 52"
  by (metis table_page_def bit_and_iff bit_PT_ADDR_MASK)

lemma new_table_spec:
  fixes tf :: u64
  assumes fl: "free_list s (p # fs)" and pt: "page_aligned pt" "pt \<noteq> p" "pt \<notin> set fs" and i: "i < 512"
  defines "s1 \<equiv> new_table tf (entry pt (of_nat i)) s"
  shows "free_list s1 fs" and "in_page x p \<Longrightarrow> ram s1 x = 0" and "pte_at (ram s1) pt i = p OR tf"
    and "j < 512 \<Longrightarrow> j \<noteq> i \<Longrightarrow> pte_at (ram s1) pt j = pte_at (ram s) pt j"
    and "\<not> in_page x p \<Longrightarrow> \<not> in_page x pt \<Longrightarrow> ram s1 x = ram s x"
    and "s1 = s\<lparr>ram := ram s1, freelist := freelist s1\<rparr>"
proof -
  obtain s0 where s0: "alloc_page s = (p, s0)"
    using alloc_page_pop(1) [OF fl] by (cases "alloc_page s") simp
  have a: "free_list s0 fs" "\<And>x. in_page x p \<Longrightarrow> ram s0 x = 0" "\<And>x. \<not> in_page x p \<Longrightarrow> ram s0 x = ram s x"
    using alloc_page_pop [OF fl] by (simp_all add: s0)
  have pok: "page_aligned p" "p \<notin> set fs" "\<forall>q \<in> set fs. page_aligned q"
    using fl by (simp_all add: free_list_def pages_ok_def)
  have s1: "s1 = s0\<lparr>ram := store64 (ram s0) (entry pt (of_nat i)) ((p OR tf))\<rparr>"
    by (simp add: s1_def new_table_def s0)
  have np: "\<not> in_page x q" if "in_page x pt" "page_aligned q" "q \<noteq> pt" for x q
    using in_page_unique [OF pt(1) that(2,1)] that(3) by blast
  have out: "ram s1 x = ram s0 x" if "\<not> in_page x pt" for x
    using store_entry_outside [OF pt(1) i that] by (simp add: s1)
  show "in_page x p \<Longrightarrow> ram s1 x = 0"
    using np [of x p] pok(1) pt(2) out [of x] a(2) [of x] by (metis (full_types))
  show "\<not> in_page x p \<Longrightarrow> \<not> in_page x pt \<Longrightarrow> ram s1 x = ram s x"
    using out a(3) by simp
  show "pte_at (ram s1) pt i = p OR tf"
    by (simp add: s1 load64_store64_same)
  have "pte_at (ram s0) pt j = pte_at (ram s) pt j" if "j < 512" for j
    using a(3) np [OF _ pok(1)] pt(2) that by (intro pte_at_cong) auto
  then show "j < 512 \<Longrightarrow> j \<noteq> i \<Longrightarrow> pte_at (ram s1) pt j = pte_at (ram s) pt j"
    using pte_at_store [OF pt(1) i, of j] by (simp add: s1)
  have "load64 (ram s1) q = load64 (ram s0) q" if q: "q \<in> set fs" for q
  proof (rule load64_other_page)
    show "page_aligned q"
      using pok(3) q by blast
    show "ram s1 x = ram s0 x" if "in_page x q" for x
      using out [of x] np [of x q] q pt(3) pok(3) that by blast
  qed
  then show "free_list s1 fs"
    using a(1) chain_cong [of fs "ram s1" "ram s0"] by (simp add: free_list_def s1)
  show "s1 = s\<lparr>ram := ram s1, freelist := freelist s1\<rparr>"
    using s0 by (auto simp: s1 alloc_page_def Let_def split: if_splits)
qed

text \<open>The lookup that ends at an entry.\<close>

definition gmaps :: "(u64 \<Rightarrow> bool) \<Rightarrow> nat \<Rightarrow> u64 \<Rightarrow> u64 \<Rightarrow> (nat \<times> u64) option" where
  "gmaps pr t pte va = (if pr pte then Some (t, pte) else None)"

text \<open>
  The tree below \<open>pt\<close> changed: the pages in \<open>used\<close> may have become tables, nothing outside the tree and
  these pages changed, and \<open>T\<close> is the result of the lookups now.
\<close>

definition gupdated :: "(u64 \<Rightarrow> bool) \<Rightarrow> nat \<Rightarrow> u64 \<Rightarrow> machine \<Rightarrow> u64 list \<Rightarrow> u64 list \<Rightarrow> machine \<Rightarrow> (u64 \<Rightarrow> (nat \<times> u64) option) \<Rightarrow> bool" where
  "gupdated pr lvl pt s used fs' s' T \<longleftrightarrow>
     free_list s' fs' \<and> s' = s\<lparr>ram := ram s', freelist := freelist s'\<rparr>
     \<and> distinct (gtabs pr (ram s') lvl pt) \<and> set (gtabs pr (ram s') lvl pt) \<subseteq> set (gtabs pr (ram s) lvl pt) \<union> set used
     \<and> (\<forall>x. (\<forall>p \<in> set (gtabs pr (ram s) lvl pt) \<union> set used. \<not> in_page x p) \<longrightarrow> ram s' x = ram s x)
     \<and> (\<forall>va. glookup pr (ram s') lvl pt va = T va)"

lemma updated_tree_ok:
  assumes "gtree pr (ram s) lvl pt (used @ fs')" and "gupdated pr lvl pt s used fs' s' T"
  shows "gtree pr (ram s') lvl pt fs'"
proof -
  have "set (gtabs pr (ram s') lvl pt) \<subseteq> set (gtabs pr (ram s) lvl pt) \<union> set used" "distinct (gtabs pr (ram s') lvl pt)"
    using assms(2) unfolding gupdated_def by blast+
  then show ?thesis
    using assms(1) unfolding gtree_def by auto
qed

lemma unmapped_path_free: "glookup pr m lvl pt va = None \<Longrightarrow> gpath_free pr m lvl t pt va"
proof (induction lvl arbitrary: pt)
  case 0
  then show ?case by simp
next
  case (Suc l)
  show ?case
    using Suc.prems Suc.IH by (cases "l = 0") (auto simp: lookup_entry Let_def split: if_splits)
qed

text \<open>
  The entry \<open>pte\<close> is installed for \<open>virt\<close> at level \<open>t\<close>, at address \<open>a\<close>: the addresses it covers are
  mapped by it and every other address is looked up as before.
\<close>

definition groot_small :: "(u64 \<Rightarrow> bool) \<Rightarrow> mem \<Rightarrow> u64 \<Rightarrow> bool" where
  "groot_small pr m pt \<longleftrightarrow> (\<forall>i < 512. pr (pte_at m pt i) \<longrightarrow> \<not> large (pte_at m pt i))"

definition ginstalled :: "(u64 \<Rightarrow> bool) \<Rightarrow> nat \<Rightarrow> nat \<Rightarrow> u64 \<Rightarrow> u64 \<Rightarrow> u64 \<Rightarrow> machine \<Rightarrow> u64 list \<Rightarrow> u64 list \<Rightarrow> u64 \<Rightarrow> machine \<Rightarrow> bool" where
  "ginstalled pr t lvl pt virt pte s used fs' a s' \<longleftrightarrow>
     gupdated pr lvl pt s used fs' s'
       (\<lambda>va. if same_path t lvl va virt then gmaps pr t pte va else glookup pr (ram s) lvl pt va)
     \<and> gfind pr (ram s') lvl t virt pt = (t, a) \<and> load64 (ram s') a = pte
     \<and> (t < lvl \<longrightarrow> groot_small pr (ram s) pt \<longrightarrow> groot_small pr (ram s') pt)"

lemma outside_agree:
  assumes "\<forall>x. (\<forall>p \<in> ps. \<not> in_page x p) \<longrightarrow> m' x = m x" and "ps \<inter> qs = {}" and "\<forall>p \<in> ps \<union> qs. page_aligned p"
  shows "agree qs m' m"
  unfolding agree_def
proof (intro ballI allI impI)
  fix q x
  assume q: "q \<in> qs" and x: "in_page x q"
  have "\<not> in_page x p" if p: "p \<in> ps" for p
    using in_page_unique [of p q x] assms(2,3) p q x by blast
  then show "m' x = m x"
    using assms(1) by blast
qed

lemma same_path_Suc:
  "t \<le> Suc l \<Longrightarrow> same_path t (Suc l) va vb \<longleftrightarrow> PGDIR_OFFSET va (Suc l) = PGDIR_OFFSET vb (Suc l) \<and> same_path t l va vb"
  by (simp add: same_path_def atLeastAtMostSuc_conv)

lemma find_down:
  "pte_at m pt (unat (PGDIR_OFFSET virt (Suc l))) = e \<Longrightarrow> pr e \<Longrightarrow> \<not> huge (Suc l) e \<Longrightarrow> t < Suc l
   \<Longrightarrow> gfind pr m (Suc l) t virt pt = gfind pr m l t virt (e AND PT_ADDR_MASK)"
  by auto

lemma find_at: "gfind pr m (Suc l) (Suc l) virt pt = (Suc l, entry pt (PGDIR_OFFSET virt (Suc l)))"
  by (simp add: Let_def)

text \<open>A change of one entry of a table and of what is below it.\<close>

lemma update_entry:
  assumes tree: "gtree pr (ram s) (Suc l) pt (used @ fs')" and i: "i < 512"
    and others: "\<forall>j < 512. j \<noteq> i \<longrightarrow> pte_at (ram s') pt j = pte_at (ram s) pt j"
    and frame: "\<forall>x. (\<forall>p \<in> insert pt (set (gsubtree pr (ram s) l (pte_at (ram s) pt i)) \<union> set used). \<not> in_page x p)
      \<longrightarrow> ram s' x = ram s x"
    and new: "set (gsubtree pr (ram s') l (pte_at (ram s') pt i)) \<subseteq> set (gsubtree pr (ram s) l (pte_at (ram s) pt i)) \<union> set used"
      "distinct (gsubtree pr (ram s') l (pte_at (ram s') pt i))"
    and s': "free_list s' fs'" "s' = s\<lparr>ram := ram s', freelist := freelist s'\<rparr>"
    and T: "\<And>va. unat (PGDIR_OFFSET va (Suc l)) = i \<Longrightarrow> glookup pr (ram s') (Suc l) pt va = T va"
      "\<And>va. unat (PGDIR_OFFSET va (Suc l)) \<noteq> i \<Longrightarrow> glookup pr (ram s) (Suc l) pt va = T va"
  shows "gupdated pr (Suc l) pt s used fs' s' T"
proof -
  let ?m = "ram s" and ?m' = "ram s'" and ?sib = "gsiblings pr (ram s) l pt i"
    and ?sub = "set (gsubtree pr (ram s) l (pte_at (ram s) pt i))"
  note set0 = set_tabs_split [OF i, of pr ?m l pt]
  have dist: "distinct (gtabs pr ?m (Suc l) pt)" and used: "set (gtabs pr ?m (Suc l) pt) \<inter> set used = {}"
      and al: "\<forall>p \<in> set (gtabs pr ?m (Suc l) pt) \<union> set used. page_aligned p"
    using tree table_page_aligned unfolding gtree_def by auto
  note sd = siblings_disjoint [OF dist i]
  have disj: "insert pt (?sub \<union> set used) \<inter> ?sib = {}" "pt \<notin> ?sub \<union> set used"
    using sd used unfolding set0 by blast+
  have "agree ?sib ?m' ?m"
    using al unfolding set0 by (intro outside_agree [OF frame disj(1)]) blast
  moreover have "set (gsubtree pr ?m' l (pte_at ?m' pt i)) \<inter> insert pt ?sib = {}"
    using new(1) disj by blast
  ultimately have rep: "distinct (gtabs pr ?m' (Suc l) pt)"
      "set (gtabs pr ?m' (Suc l) pt) = insert pt (set (gsubtree pr ?m' l (pte_at ?m' pt i)) \<union> ?sib)"
      "\<And>va. unat (PGDIR_OFFSET va (Suc l)) \<noteq> i \<Longrightarrow> glookup pr ?m' (Suc l) pt va = glookup pr ?m (Suc l) pt va"
    using replace_subtree [OF dist i others _ _ new(2)] by blast+
  have "set (gtabs pr ?m' (Suc l) pt) \<subseteq> set (gtabs pr ?m (Suc l) pt) \<union> set used"
    using new(1) unfolding rep(2) set0 by blast
  moreover have "\<forall>x. (\<forall>p \<in> set (gtabs pr ?m (Suc l) pt) \<union> set used. \<not> in_page x p) \<longrightarrow> ?m' x = ?m x"
    using frame unfolding set0 by blast
  moreover have "glookup pr ?m' (Suc l) pt va = T va" for va
    using T [of va] rep(3) [of va] by (cases "unat (PGDIR_OFFSET va (Suc l)) = i") simp_all
  ultimately show ?thesis
    using rep(1) s' unfolding gupdated_def by blast
qed

text \<open>
  From the table below an entry to the table that holds the entry. In between, \<open>s1\<close>, the entry points
  to the table below.
\<close>

lemma update_up:
  assumes tree: "gtree pr (ram s) (Suc l) pt (used0 @ fs')" and l: "0 < l" and i: "i < 512"
    and e1: "pte_at (ram s1) pt i = e1" "pr e1" "\<not> huge (Suc l) e1"
    and others: "\<And>j. j < 512 \<Longrightarrow> j \<noteq> i \<Longrightarrow> pte_at (ram s1) pt j = pte_at (ram s) pt j"
    and sub: "set (gtabs pr (ram s1) l (e1 AND PT_ADDR_MASK)) \<union> set used \<subseteq>
      set (gsubtree pr (ram s) l (pte_at (ram s) pt i)) \<union> set used0"
    and upd: "gupdated pr l (e1 AND PT_ADDR_MASK) s1 used fs' s' T"
    and frame: "\<And>x. (\<forall>p \<in> insert pt (set used0). \<not> in_page x p) \<Longrightarrow> ram s1 x = ram s x"
    and s1: "s1 = s\<lparr>ram := ram s1, freelist := freelist s1\<rparr>"
  shows "gupdated pr (Suc l) pt s used0 fs' s'
      (\<lambda>va. if unat (PGDIR_OFFSET va (Suc l)) = i then T va else glookup pr (ram s) (Suc l) pt va)"
    and "pte_at (ram s') pt i = e1"
    and "j < 512 \<Longrightarrow> j \<noteq> i \<Longrightarrow> pte_at (ram s') pt j = pte_at (ram s) pt j"
proof -
  let ?c = "e1 AND PT_ADDR_MASK" and ?m = "ram s" and ?m1 = "ram s1" and ?m' = "ram s'"
  let ?sub = "set (gsubtree pr ?m l (pte_at ?m pt i))" and ?low = "set (gtabs pr ?m1 l ?c) \<union> set used"
  note set0 = set_tabs_split [OF i, of pr ?m l pt]
  have dist: "distinct (gtabs pr ?m (Suc l) pt)" and used0: "set (gtabs pr ?m (Suc l) pt) \<inter> set used0 = {}"
      and al: "\<forall>p \<in> set (gtabs pr ?m (Suc l) pt) \<union> set used0. page_aligned p"
    using tree table_page_aligned unfolding gtree_def by auto
  have below: "distinct (gtabs pr ?m' l ?c)" "set (gtabs pr ?m' l ?c) \<subseteq> ?low"
      "\<forall>x. (\<forall>p \<in> ?low. \<not> in_page x p) \<longrightarrow> ?m' x = ?m1 x"
      "\<And>va. glookup pr ?m' l ?c va = T va" "free_list s' fs'" "s' = s1\<lparr>ram := ram s', freelist := freelist s'\<rparr>"
    using upd unfolding gupdated_def by blast+
  have "?low \<inter> {pt} = {}" "\<forall>p \<in> ?low \<union> {pt}. page_aligned p"
    using sub siblings_disjoint(3) [OF dist i] used0 al unfolding set0 by blast+
  then have "agree {pt} ?m' ?m1"
    by (rule outside_agree [OF below(3)])
  then have e': "pte_at ?m' pt j = pte_at ?m1 pt j" if "j < 512" for j
    using agree_pte_at [of "{pt}" ?m' ?m1 pt j] that by simp
  show e1': "pte_at ?m' pt i = e1"
    using e' [OF i] e1(1) by simp
  show "pte_at ?m' pt j = pte_at ?m pt j" if "j < 512" "j \<noteq> i"
    using e' others that by simp
  have sub': "gsubtree pr ?m' l (pte_at ?m' pt i) = gtabs pr ?m' l ?c"
    using e1' e1 by (simp add: gsubtree_def)
  show "gupdated pr (Suc l) pt s used0 fs' s'
      (\<lambda>va. if unat (PGDIR_OFFSET va (Suc l)) = i then T va else glookup pr (ram s) (Suc l) pt va)"
  proof (rule update_entry [OF tree i])
    show "\<forall>x. (\<forall>p \<in> insert pt (?sub \<union> set used0). \<not> in_page x p) \<longrightarrow> ?m' x = ?m x"
    proof (intro allI impI)
      fix x
      assume x: "\<forall>p \<in> insert pt (?sub \<union> set used0). \<not> in_page x p"
      then have "?m1 x = ?m x"
        by (intro frame) blast
      moreover have "\<forall>p \<in> ?low. \<not> in_page x p"
        using x sub by blast
      ultimately show "?m' x = ?m x"
        using below(3) by simp
    qed
    show "\<forall>j < 512. j \<noteq> i \<longrightarrow> pte_at ?m' pt j = pte_at ?m pt j"
      using e' others by simp
    show "glookup pr ?m' (Suc l) pt va = (if unat (PGDIR_OFFSET va (Suc l)) = i then T va else glookup pr ?m (Suc l) pt va)"
      if "unat (PGDIR_OFFSET va (Suc l)) = i" for va
      using e1 l below(4) unfolding lookup_entry that e1' by simp
    show "set (gsubtree pr ?m' l (pte_at ?m' pt i)) \<subseteq> ?sub \<union> set used0"
      unfolding sub' using below(2) sub by blast
    show "s' = s\<lparr>ram := ram s', freelist := freelist s'\<rparr>"
      using below(6) s1 by (cases s, cases s1, cases s') simp
  qed (use below(1,5) sub' in simp_all)
qed

lemma offset_unat: "PGDIR_OFFSET va l = PGDIR_OFFSET vb l \<longleftrightarrow> unat (PGDIR_OFFSET va l) = unat (PGDIR_OFFSET vb l)"
  by (simp only: word_unat_eq_iff)

lemma install_up:
  assumes tree: "gtree pr (ram s) (Suc l) pt (used0 @ fs')" and t: "t \<le> l" "0 < t"
    and i: "i = unat (PGDIR_OFFSET virt (Suc l))"
    and e1: "pte_at (ram s1) pt i = e1" "pr e1" "\<not> huge (Suc l) e1"
    and others: "\<And>j. j < 512 \<Longrightarrow> j \<noteq> i \<Longrightarrow> pte_at (ram s1) pt j = pte_at (ram s) pt j"
    and sub: "set (gtabs pr (ram s1) l (e1 AND PT_ADDR_MASK)) \<union> set used \<subseteq>
      set (gsubtree pr (ram s) l (pte_at (ram s) pt i)) \<union> set used0"
    and inst: "ginstalled pr t l (e1 AND PT_ADDR_MASK) virt pte s1 used fs' a s'"
    and old: "\<And>va. unat (PGDIR_OFFSET va (Suc l)) = i \<Longrightarrow>
      glookup pr (ram s1) l (e1 AND PT_ADDR_MASK) va = glookup pr (ram s) (Suc l) pt va"
    and frame: "\<And>x. (\<forall>p \<in> insert pt (set used0). \<not> in_page x p) \<Longrightarrow> ram s1 x = ram s x"
    and s1: "s1 = s\<lparr>ram := ram s1, freelist := freelist s1\<rparr>"
    and small: "large e1 \<longrightarrow> pte_at (ram s) pt i = e1"
  shows "ginstalled pr t (Suc l) pt virt pte s used0 fs' a s'"
proof -
  let ?c = "e1 AND PT_ADDR_MASK"
  let ?T = "\<lambda>va. if same_path t l va virt then gmaps pr t pte va else glookup pr (ram s1) l ?c va"
  have i512: "i < 512" and l: "0 < l"
    unfolding i using unat_offset_512 t by auto
  have upd: "gupdated pr l ?c s1 used fs' s' ?T" and low: "gfind pr (ram s') l t virt ?c = (t, a)" "load64 (ram s') a = pte"
    using inst unfolding ginstalled_def by simp_all
  note up = update_up [OF tree l i512 e1 others sub upd frame s1]
  have "(if unat (PGDIR_OFFSET va (Suc l)) = i then ?T va else glookup pr (ram s) (Suc l) pt va)
      = (if same_path t (Suc l) va virt then gmaps pr t pte va else glookup pr (ram s) (Suc l) pt va)" for va
    using old [of va] t by (auto simp: i offset_unat same_path_Suc)
  then have "gupdated pr (Suc l) pt s used0 fs' s'
      (\<lambda>va. if same_path t (Suc l) va virt then gmaps pr t pte va else glookup pr (ram s) (Suc l) pt va)"
    using up(1) by simp
  moreover have "gfind pr (ram s') (Suc l) t virt pt = (t, a)"
    using find_down [of "ram s'" pt virt l e1 pr t] up(2) e1(2,3) t low(1) unfolding i by simp
  moreover have "groot_small pr (ram s) pt \<longrightarrow> groot_small pr (ram s') pt"
    using up(2,3) small e1(2) unfolding groot_small_def by metis
  ultimately show ?thesis
    using low(2) unfolding ginstalled_def by blast
qed

lemma free_list_kept:
  assumes "free_list s fs" and "agree (set fs) (ram s') (ram s)" and "freelist s' = freelist s"
  shows "free_list s' fs"
proof -
  have "load64 (ram s') q = load64 (ram s) q" if "q \<in> set fs" for q
    using that assms(1,2) by (intro load64_other_page) (auto simp: free_list_def pages_ok_def agreeD)
  then show ?thesis
    using assms(1,3) chain_cong [of fs "ram s'" "ram s"] by (simp add: free_list_def)
qed

lemma install_leaf:
  fixes virt :: u64
  assumes fl: "free_list s fs" and tree: "gtree pr (ram s) (Suc l) pt fs"
    and pte: "pr pte \<longrightarrow> l = 0 \<or> huge (Suc l) pte"
  defines "a \<equiv> entry pt (PGDIR_OFFSET virt (Suc l))"
  shows "ginstalled pr (Suc l) (Suc l) pt virt pte s [] fs a (s\<lparr>ram := store64 (ram s) a pte\<rparr>)"
proof -
  let ?m = "ram s" and ?s' = "s\<lparr>ram := store64 (ram s) a pte\<rparr>"
  define i where "i = unat (PGDIR_OFFSET virt (Suc l))"
  have i512: "i < 512" and a: "a = entry pt (of_nat i)"
    unfolding i_def a_def using unat_offset_512 by simp_all
  have root: "pt \<in> set (gtabs pr ?m (Suc l) pt)"
    by (rule root_in_tabs)
  have al: "\<forall>p \<in> set (gtabs pr ?m (Suc l) pt) \<union> set fs. page_aligned p" and "set (gtabs pr ?m (Suc l) pt) \<inter> set fs = {}"
    using tree table_page_aligned unfolding gtree_def by auto
  then have pt: "page_aligned pt" "pt \<notin> set fs"
    using root by blast+
  have frame: "\<forall>x. (\<forall>p \<in> {pt}. \<not> in_page x p) \<longrightarrow> ram ?s' x = ?m x"
    using store_entry_outside [OF pt(1) i512] by (simp add: a)
  have e': "pte_at (ram ?s') pt j = (if j = i then pte else pte_at ?m pt j)" if "j < 512" for j
    using pte_at_store [OF pt(1) i512 that] unfolding a by simp
  have "agree (set fs) (ram ?s') ?m"
    using pt al by (intro outside_agree [OF frame]) blast+
  then have fl': "free_list ?s' fs"
    using free_list_kept [OF fl, of ?s'] by simp
  have tree': "gtree pr (ram s) (Suc l) pt ([] @ fs)"
    using tree by simp
  have sub: "gsubtree pr (ram ?s') l (pte_at (ram ?s') pt i) = []"
    unfolding e' [OF i512] using pte by (auto simp: gsubtree_def)
  have "gupdated pr (Suc l) pt s [] fs ?s'
      (\<lambda>va. if same_path (Suc l) (Suc l) va virt then gmaps pr (Suc l) pte va else glookup pr ?m (Suc l) pt va)"
  proof (rule update_entry [OF tree' i512])
    fix va
    assume va: "unat (PGDIR_OFFSET va (Suc l)) = i"
    have "glookup pr (ram ?s') (Suc l) pt va = gmaps pr (Suc l) pte va"
      unfolding lookup_entry va e' [OF i512] using pte by (auto simp: gmaps_def)
    then show "glookup pr (ram ?s') (Suc l) pt va =
        (if same_path (Suc l) (Suc l) va virt then gmaps pr (Suc l) pte va else glookup pr ?m (Suc l) pt va)"
      using va by (simp add: same_path_def offset_unat i_def)
  next
    show "\<forall>x. (\<forall>p \<in> insert pt (set (gsubtree pr ?m l (pte_at ?m pt i)) \<union> set []). \<not> in_page x p) \<longrightarrow> ram ?s' x = ?m x"
      using frame by blast
  qed (use e' fl' sub in \<open>simp_all add: same_path_def offset_unat i_def\<close>)
  then show ?thesis
    using find_at [of pr "ram ?s'" l virt pt] unfolding ginstalled_def a_def [symmetric]
    by (simp add: load64_store64_same del: gfind.simps)
qed

lemma zero_page_pte: "(\<And>x. in_page x p \<Longrightarrow> m x = 0) \<Longrightarrow> i < 512 \<Longrightarrow> pte_at m p i = 0"
  using pte_at_cong [of p m "\<lambda>_. 0" i] by (simp add: numeral_eq_Suc)

lemma tree_ok_subtree:
  assumes "gtree pr m (Suc l) pt fs" and "i < 512" and "pr (pte_at m pt i)" and "\<not> huge (Suc l) (pte_at m pt i)"
  shows "gtree pr m l (pte_at m pt i AND PT_ADDR_MASK) fs"
proof -
  have sub: "gtabs pr m l (pte_at m pt i AND PT_ADDR_MASK) = gsubtree pr m l (pte_at m pt i)"
    using assms(3,4) by (simp add: gsubtree_def)
  have "distinct (gtabs pr m (Suc l) pt)"
    using assms(1) by (simp add: gtree_def)
  then show ?thesis
    using assms(1) siblings_disjoint(4) [OF _ assms(2)] subtree_subset [OF assms(2), of pr m l pt]
    unfolding gtree_def sub by (auto simp del: gtabs.simps)
qed

section \<open>What all entries have in common\<close>

text \<open>Every entry of the pages in \<open>ps\<close> satisfies \<open>Q\<close>.\<close>

definition entries_all :: "(u64 \<Rightarrow> bool) \<Rightarrow> u64 set \<Rightarrow> mem \<Rightarrow> bool" where
  "entries_all Q ps m \<longleftrightarrow> (\<forall>p \<in> ps. \<forall>i < 512. Q (pte_at m p i))"

text \<open>
  An installation of \<open>pte\<close> keeps what all entries have in common with \<open>pte\<close>, the empty entry and the entries
  that point to a table.
\<close>

definition keeps_entries :: "u64 \<Rightarrow> u64 \<Rightarrow> u64 set \<Rightarrow> u64 list \<Rightarrow> mem \<Rightarrow> u64 list \<Rightarrow> mem \<Rightarrow> bool" where
  "keeps_entries tf pte T fs m used m' \<longleftrightarrow>
     (\<forall>Q ps. Q 0 \<longrightarrow> Q pte \<longrightarrow> (\<forall>p. table_page p \<longrightarrow> Q (p OR tf)) \<longrightarrow> T \<subseteq> ps \<longrightarrow> ps \<inter> set fs = {}
       \<longrightarrow> (\<forall>p \<in> ps. page_aligned p) \<longrightarrow> entries_all Q ps m \<longrightarrow> entries_all Q (ps \<union> set used) m')"

lemma keeps_entriesD:
  assumes "keeps_entries tf pte T fs m used m'" and "Q 0" and "Q pte" and "\<And>p. table_page p \<Longrightarrow> Q (p OR tf)" and "T \<subseteq> ps"
    and "ps \<inter> set fs = {}" and "\<And>p. p \<in> ps \<Longrightarrow> page_aligned p" and "entries_all Q ps m"
  shows "entries_all Q (ps \<union> set used) m'"
  using assms(1) [unfolded keeps_entries_def, THEN spec [of _ Q], THEN spec [of _ ps]] assms(2-) by simp

lemma keeps_entries_subset: "keeps_entries tf pte T fs m used m' \<Longrightarrow> T \<subseteq> T' \<Longrightarrow> keeps_entries tf pte T' fs m used m'"
  unfolding keeps_entries_def by (meson order_trans)

lemma entries_all_store:
  assumes "entries_all Q ps m" and "\<And>p. p \<in> ps \<Longrightarrow> page_aligned p" and "pt \<in> ps" and "i < 512" and "Q pte"
  shows "entries_all Q ps (store64 m (entry pt (of_nat i)) pte)"
  unfolding entries_all_def
proof (intro ballI allI impI)
  fix p j
  assume p: "p \<in> ps" and j: "j < (512 :: nat)"
  let ?m = "store64 m (entry pt (of_nat i)) pte"
  show "Q (pte_at ?m p j)"
  proof (cases "p = pt")
    case True
    then show ?thesis
      using pte_at_store [OF assms(2) [OF assms(3)] assms(4) j, of m pte] assms(1,5) p j by (auto simp: entries_all_def)
  next
    case False
    have "pte_at ?m p j = pte_at m p j"
      using store_entry_outside [OF assms(2) [OF assms(3)] assms(4)] in_page_unique [OF assms(2) [OF p] assms(2) [OF assms(3)]] False j
      by (intro pte_at_cong) blast+
    then show ?thesis
      using assms(1) p j by (simp add: entries_all_def)
  qed
qed

lemma keeps_entries_leaf:
  "i < 512 \<Longrightarrow> pt \<in> T \<Longrightarrow> keeps_entries tf pte T fs m [] (store64 m (entry pt (of_nat i)) pte)"
  unfolding keeps_entries_def by (auto intro!: entries_all_store)

lemma keeps_entries_new:
  fixes tf :: u64
  assumes fl: "free_list s (p # fs)" and p: "table_page p" and i: "i < 512" and pt: "pt \<in> T"
  defines "s1 \<equiv> new_table tf (entry pt (of_nat i)) s"
  assumes k: "keeps_entries tf pte {p} fs (ram s1) used m'"
  shows "keeps_entries tf pte T (p # fs) (ram s) (p # used) m'"
  unfolding keeps_entries_def
proof (intro allI impI)
  fix Q ps
  assume Q: "Q 0" "Q pte" "\<forall>p. table_page p \<longrightarrow> Q (p OR tf)" and ps: "T \<subseteq> ps" "ps \<inter> set (p # fs) = {}" "\<forall>p \<in> ps. page_aligned p"
    and all: "entries_all Q ps (ram s)"
  have fs: "p \<notin> set fs"
    using fl by (simp add: free_list_def pages_ok_def)
  have pt': "pt \<in> ps" "page_aligned pt" "pt \<noteq> p" "pt \<notin> set fs"
    using pt ps by auto
  note nt = new_table_spec [OF fl pt'(2-4) i, where tf = tf, folded s1_def]
  have np: "\<not> in_page x r" if "in_page x q" "q \<in> ps" "r \<in> insert p ps" "r \<noteq> q" for x q r
    using in_page_unique [of q r x] that ps(3) table_page_aligned [OF p] by blast
  have "Q (pte_at (ram s1) q j)" if q: "q \<in> insert p ps" and j: "j < 512" for q j
  proof -
    consider "q = p" | "q = pt" | "q \<in> ps" "q \<noteq> pt" "q \<noteq> p"
      using q by blast
    then show ?thesis
    proof cases
      case 1
      then show ?thesis
        using zero_page_pte [OF nt(2) j] Q(1) by simp
    next
      case 2
      then show ?thesis
        using nt(3) nt(4) [of j] Q(3) p all pt'(1) j by (cases "j = i") (simp_all add: entries_all_def)
    next
      case 3
      have "pte_at (ram s1) q j = pte_at (ram s) q j"
        using nt(5) np [OF _ 3(1)] 3 pt'(1) j by (intro pte_at_cong) blast+
      then show ?thesis
        using all 3(1) j by (simp add: entries_all_def)
    qed
  qed
  then have "entries_all Q (insert p ps) (ram s1)"
    by (simp add: entries_all_def)
  then have "entries_all Q (insert p ps \<union> set used) m'"
    using ps fs p table_page_aligned Q by (intro keeps_entriesD [OF k]) auto
  then show "entries_all Q (ps \<union> set (p # used)) m'"
    by simp
qed

section \<open>The contract of an installation\<close>

text \<open>
  The form of the entries: a zero entry is not present, and an entry that points to a table has the bits \<open>tf\<close>
  next to the address of the table. Only the three lowest bits tell whether an entry is present.
\<close>

locale radix =
  fixes pr :: "u64 \<Rightarrow> bool" and tf :: u64
  assumes pr_zero: "\<not> pr 0"
    and pr_table: "\<And>p. pr (p OR tf)"
    and tf_bits: "\<And>n. bit tf n \<Longrightarrow> n < 7"
    and pr_low: "\<And>x y. (\<And>n. n < 3 \<Longrightarrow> bit x n = bit y n) \<Longrightarrow> pr x = pr y"
begin

lemma table_entry_simps:
  assumes "table_page p"
  shows "pr (p OR tf)" and "\<not> huge l (p OR tf)" and "(p OR tf) AND PT_ADDR_MASK = p" and "\<not> large (p OR tf)"
proof -
  show "pr (p OR tf)"
    by (rule pr_table)
  show "\<not> large (p OR tf)"
    using table_page_bit [OF assms, of 7] tf_bits [of 7] by (auto simp: large_iff bit_or_iff)
  then show "\<not> huge l (p OR tf)"
    by (simp add: huge_def)
  show "(p OR tf) AND PT_ADDR_MASK = p"
  proof (rule bit_word_eqI)
    fix n :: nat
    show "bit ((p OR tf) AND PT_ADDR_MASK) n = bit p n"
      using table_page_bit [OF assms, of n] tf_bits [of n] by (auto simp: bit_or_iff bit_and_iff bit_PT_ADDR_MASK)
  qed
qed

lemma zero_page_tree:
  assumes "\<And>x. in_page x p \<Longrightarrow> m x = 0"
  shows "gtabs pr m (Suc l) p = [p]" and "glookup pr m (Suc l) p va = None" and "gpath_free pr m (Suc l) t p va"
proof -
  have z: "pte_at m p i = 0" if "i < 512" for i
    using zero_page_pte [OF assms that] .
  have "map (\<lambda>i. gsubtree pr m l (pte_at m p i)) [0..<512] = map (\<lambda>i. []) [0..<512]"
    using z by (intro map_cong refl) (simp add: gsubtree_def pr_zero)
  then show "gtabs pr m (Suc l) p = [p]"
    by (simp add: tabs_Suc)
  show "glookup pr m (Suc l) p va = None" "gpath_free pr m (Suc l) t p va"
    using z [OF unat_offset_512] by (simp_all add: lookup_entry Let_def pr_zero)
qed

lemma install_below_new:
  assumes fl: "free_list s (p # fs)" and tree: "gtree pr (ram s) (Suc (Suc l)) pt (p # fs)" and i: "i < 512"
    and np: "\<not> pr (pte_at (ram s) pt i)"
  defines "s1 \<equiv> new_table tf (entry pt (of_nat i)) s"
  shows "free_list s1 fs" and "gtree pr (ram s1) (Suc l) p fs" and "gpath_free pr (ram s1) (Suc l) t p virt"
    and "gtabs pr (ram s1) (Suc l) p = [p]" and "glookup pr (ram s1) (Suc l) p va = None"
    and "pte_at (ram s1) pt i = p OR tf"
    and "agree (gsiblings pr (ram s) (Suc l) pt i) (ram s1) (ram s)"
    and "j < 512 \<Longrightarrow> j \<noteq> i \<Longrightarrow> pte_at (ram s1) pt j = pte_at (ram s) pt j"
    and "\<not> in_page x p \<Longrightarrow> \<not> in_page x pt \<Longrightarrow> ram s1 x = ram s x"
    and "s1 = s\<lparr>ram := ram s1, freelist := freelist s1\<rparr>"
proof -
  let ?T = "set (gtabs pr (ram s) (Suc (Suc l)) pt)"
  have root: "pt \<in> ?T"
    by (rule root_in_tabs)
  have dist: "distinct (gtabs pr (ram s) (Suc (Suc l)) pt)" and out: "p \<notin> ?T" "?T \<inter> set fs = {}"
      and fs: "p \<notin> set fs" "distinct fs" "\<forall>q \<in> insert p (set fs). table_page q" "\<forall>q \<in> ?T. table_page q"
    using tree unfolding gtree_def by auto
  have pt: "page_aligned pt" "pt \<noteq> p" "pt \<notin> set fs"
    using root out fs(4) table_page_aligned by blast+
  note nt = new_table_spec [OF fl pt i, where tf = tf, folded s1_def]
  show "free_list s1 fs" "pte_at (ram s1) pt i = p OR tf" "s1 = s\<lparr>ram := ram s1, freelist := freelist s1\<rparr>"
    by (rule nt)+
  show "j < 512 \<Longrightarrow> j \<noteq> i \<Longrightarrow> pte_at (ram s1) pt j = pte_at (ram s) pt j"
    and "\<not> in_page x p \<Longrightarrow> \<not> in_page x pt \<Longrightarrow> ram s1 x = ram s x"
    by (rule nt; assumption)+
  note z = zero_page_tree [of p "ram s1", OF nt(2)]
  show t: "gtabs pr (ram s1) (Suc l) p = [p]"
    by (rule z)
  show "glookup pr (ram s1) (Suc l) p va = None"
    by (rule z)
  show "gpath_free pr (ram s1) (Suc l) t p virt"
    by (rule z)
  show "gtree pr (ram s1) (Suc l) p fs"
    unfolding gtree_def t using fs by simp
  have frame: "\<forall>x. (\<forall>q \<in> {p, pt}. \<not> in_page x q) \<longrightarrow> ram s1 x = ram s x"
    using nt(5) by blast
  have sib: "gsiblings pr (ram s) (Suc l) pt i \<subseteq> ?T"
    unfolding set_tabs_split [OF i] by blast
  then have "p \<notin> gsiblings pr (ram s) (Suc l) pt i" "\<forall>q \<in> {p, pt} \<union> gsiblings pr (ram s) (Suc l) pt i. page_aligned q"
    using out(1) fs(3,4) root table_page_aligned by blast+
  then show "agree (gsiblings pr (ram s) (Suc l) pt i) (ram s1) (ram s)"
    using siblings_disjoint(2) [OF dist i] by (intro outside_agree [OF frame]) blast+
qed

end

text \<open>
  A routine that installs the entry \<open>pte\<close> for \<open>virt\<close> at level \<open>t\<close>, starting at the table \<open>pt\<close> of the level that is its
  first argument: it goes down through present entries, makes a table where the entry is missing, and stores
  the entry at the target level. The trees have at most four levels. \<open>ret\<close> is the form of its result.
\<close>

locale table_installer = radix +
  fixes inst :: "nat \<Rightarrow> nat \<Rightarrow> u64 \<Rightarrow> u64 \<Rightarrow> u64 \<Rightarrow> machine \<Rightarrow> 'r" and ret :: "u64 \<Rightarrow> machine \<Rightarrow> 'r"
  assumes inst_here: "\<And>l virt pte pt s. inst (Suc l) (Suc l) virt pte pt s =
      (let a = entry pt (PGDIR_OFFSET virt (Suc l)) in ret a (s\<lparr>ram := store64 (ram s) a pte\<rparr>))"
    and inst_down: "\<And>l t virt pte pt s e. 0 < t \<Longrightarrow> t < Suc l \<Longrightarrow> Suc l \<le> 4 \<Longrightarrow> load64 (ram s) (entry pt (PGDIR_OFFSET virt (Suc l))) = e \<Longrightarrow> pr e
      \<Longrightarrow> \<not> huge (Suc l) e \<Longrightarrow> inst (Suc l) t virt pte pt s = inst l t virt pte (e AND PT_ADDR_MASK) s"
    and inst_new: "\<And>l t virt pte pt s p fs. 0 < t \<Longrightarrow> t < Suc l \<Longrightarrow> Suc l \<le> 4 \<Longrightarrow> \<not> pr (load64 (ram s) (entry pt (PGDIR_OFFSET virt (Suc l)))) \<Longrightarrow> free_list s (p # fs)
      \<Longrightarrow> (let s1 = new_table tf (entry pt (PGDIR_OFFSET virt (Suc l))) s
           in inst (Suc l) t virt pte pt s = inst l t virt pte (load64 (ram s1) (entry pt (PGDIR_OFFSET virt (Suc l))) AND PT_ADDR_MASK) s1)"
begin

lemma inst_installed_keeps:
  assumes "free_list s fs" and "gtree pr (ram s) lvl pt fs" and "0 < t" and "t \<le> lvl" and "lvl - t \<le> length fs"
    and "gpath_free pr (ram s) lvl t pt virt" and "lvl \<le> 4" and pte: "pr pte \<longrightarrow> t = 1 \<or> huge t pte"
  shows "\<exists>used fs' a s'. inst lvl t virt pte pt s = ret a s' \<and> fs = used @ fs' \<and> length used \<le> lvl - t
    \<and> ginstalled pr t lvl pt virt pte s used fs' a s' \<and> keeps_entries tf pte (set (gtabs pr (ram s) lvl pt)) fs (ram s) used (ram s')"
  using assms(1-7)
proof (induction lvl arbitrary: pt s fs)
  case 0
  then show ?case by simp
next
  case (Suc l)
  let ?a = "entry pt (PGDIR_OFFSET virt (Suc l))" and ?i = "unat (PGDIR_OFFSET virt (Suc l))"
  show ?case
  proof (cases "t = Suc l")
    case True
    have "pr pte \<longrightarrow> l = 0 \<or> huge (Suc l) pte"
      using pte True by simp
    then have "ginstalled pr t (Suc l) pt virt pte s [] fs ?a (s\<lparr>ram := store64 (ram s) ?a pte\<rparr>)"
      unfolding True by (rule install_leaf [OF Suc.prems(1,2)])
    moreover have "inst (Suc l) t virt pte pt s = ret ?a (s\<lparr>ram := store64 (ram s) ?a pte\<rparr>)"
      using True by (simp add: inst_here Let_def)
    moreover have "keeps_entries tf pte (set (gtabs pr (ram s) (Suc l) pt)) fs (ram s) [] (store64 (ram s) ?a pte)"
      using keeps_entries_leaf [OF unat_offset_512 root_in_tabs] by simp
    ultimately show ?thesis
      by (intro exI [of _ "[]"] exI [of _ fs] exI [of _ ?a] exI [of _ "s\<lparr>ram := store64 (ram s) ?a pte\<rparr>"]) simp
  next
    case False
    then have t: "t \<le> l" "t < Suc l"
      using Suc.prems(4) by simp_all
    obtain l' where l': "l = Suc l'"
      using t(1) Suc.prems(3) by (cases l) auto
    show ?thesis
    proof (cases "pr (load64 (ram s) ?a)")
      case True
      let ?e = "pte_at (ram s) pt ?i"
      have nh: "\<not> huge (Suc l) ?e" "gpath_free pr (ram s) l t (?e AND PT_ADDR_MASK) virt" and pe: "pr ?e"
        using Suc.prems(6) t True by (simp_all add: Let_def)
      have tr: "gtree pr (ram s) l (?e AND PT_ADDR_MASK) fs"
        using Suc.prems(2) unat_offset_512 pe nh(1) by (rule tree_ok_subtree)
      have len: "l - t \<le> length fs"
        using Suc.prems(5) by simp
      obtain used fs' a s' where r: "inst l t virt pte (?e AND PT_ADDR_MASK) s = ret a s'" "fs = used @ fs'"
          "length used \<le> l - t" "ginstalled pr t l (?e AND PT_ADDR_MASK) virt pte s used fs' a s'"
          "keeps_entries tf pte (set (gtabs pr (ram s) l (?e AND PT_ADDR_MASK))) fs (ram s) used (ram s')"
        using Suc.IH [OF Suc.prems(1) tr Suc.prems(3) t(1) len nh(2)] Suc.prems(7) by auto
      have "ginstalled pr t (Suc l) pt virt pte s used fs' a s'"
      proof (rule install_up [where pr = pr, OF _ t(1) Suc.prems(3) refl refl pe nh(1) _ _ r(4)])
        show "gtree pr (ram s) (Suc l) pt (used @ fs')"
          using Suc.prems(2) r(2) by simp
      qed (use pe nh t l' in \<open>auto simp: gsubtree_def lookup_entry Let_def\<close>)
      moreover have "inst (Suc l) t virt pte pt s = ret a s'"
        using inst_down [OF Suc.prems(3) t(2) Suc.prems(7) _ pe nh(1)] r(1) by simp
      moreover have "length used \<le> Suc l - t"
        using r(3) by simp
      moreover have "keeps_entries tf pte (set (gtabs pr (ram s) (Suc l) pt)) fs (ram s) used (ram s')"
        using subtree_subset [OF unat_offset_512 [of virt "Suc l"], of pr "ram s" l pt] pe nh(1)
        by (intro keeps_entries_subset [OF r(5)]) (simp add: gsubtree_def del: gtabs.simps)
      ultimately show ?thesis
        using r(2) by blast
    next
      case False
      obtain p fs1 where fs: "fs = p # fs1"
        using Suc.prems(5) t by (cases fs) auto
      define s1 where "s1 = new_table tf (entry pt (of_nat ?i)) s"
      have np: "\<not> pr (pte_at (ram s) pt ?i)"
        using False by simp
      note b = install_below_new [OF Suc.prems(1,2) [unfolded fs l'] unat_offset_512 np [unfolded l'],
          folded l', folded s1_def]
      have tp: "table_page p"
        using Suc.prems(2) unfolding fs gtree_def by simp
      note te = table_entry_simps [OF tp]
      have len: "l - t \<le> length fs1"
        using Suc.prems(5) t unfolding fs by simp
      obtain used fs' a s' where r: "inst l t virt pte p s1 = ret a s'" "fs1 = used @ fs'"
          "length used \<le> l - t" "ginstalled pr t l p virt pte s1 used fs' a s'"
          "keeps_entries tf pte (set (gtabs pr (ram s1) l p)) fs1 (ram s1) used (ram s')"
        using Suc.IH [OF b(1,2) Suc.prems(3) t(1) len b(3)] Suc.prems(7) by auto
      have "ginstalled pr t (Suc l) pt virt pte s (p # used) fs' a s'"
      proof (rule install_up [where pr = pr, OF _ t(1) Suc.prems(3) refl b(6) te(1,2)])
        show "gtree pr (ram s) (Suc l) pt ((p # used) @ fs')"
          using Suc.prems(2) r(2) unfolding fs by simp
        show "ginstalled pr t l ((p OR tf) AND PT_ADDR_MASK) virt pte s1 used fs' a s'"
          unfolding te(3) by (rule r(4))
        show "s1 = s\<lparr>ram := ram s1, freelist := freelist s1\<rparr>"
          by (rule b)
        show "large (p OR tf) \<longrightarrow> pte_at (ram s) pt ?i = p OR tf"
          using te(4) by blast
      qed (use b te(3) np in \<open>auto simp: lookup_entry Let_def\<close>)
      moreover have "inst (Suc l) t virt pte pt s = ret a s'"
        using inst_new [OF Suc.prems(3) t(2) Suc.prems(7) False Suc.prems(1) [unfolded fs]] r(1) b(6) te(3) by (simp add: Let_def s1_def)
      moreover have "length (p # used) \<le> Suc l - t" "fs = (p # used) @ fs'"
        using r(2,3) t fs by auto
      moreover have "keeps_entries tf pte (set (gtabs pr (ram s) (Suc l) pt)) fs (ram s) (p # used) (ram s')"
        unfolding fs using r(5) b(4)
        by (intro keeps_entries_new [OF Suc.prems(1) [unfolded fs] tp unat_offset_512 root_in_tabs]) (simp add: s1_def)
      ultimately show ?thesis
        by blast
    qed
  qed
qed

lemma inst_installed:
  assumes "free_list s fs" and "gtree pr (ram s) lvl pt fs" and "0 < t" and "t \<le> lvl" and "lvl - t \<le> length fs"
    and "gpath_free pr (ram s) lvl t pt virt" and "lvl \<le> 4" and "pr pte \<longrightarrow> t = 1 \<or> huge t pte"
  shows "\<exists>used fs' a s'. inst lvl t virt pte pt s = ret a s' \<and> fs = used @ fs' \<and> length used \<le> lvl - t
    \<and> ginstalled pr t lvl pt virt pte s used fs' a s'"
  using inst_installed_keeps [OF assms] by blast

end

end
