(* ===== verification/Radix_Rights.thy ===== *)
theory Radix_Rights
  imports Radix
begin

text \<open>
  What the hardware allows: the rights of an address are those that every entry on its way grants, so they are the conjunction of the
  three lowest bits of the entries of all levels. \<open>grights\<close> is this conjunction for the levels above \<open>t\<close>; with \<open>t = 0\<close> it includes the
  leaf. Where an entry is missing, it counts the rights \<open>tf\<close> of an entry that points to a new table. The lemmas say what an
  installation does to the rights of every address.
\<close>

unbundle bit_operations_syntax

section \<open>Rights\<close>

primrec grights :: "u64 \<Rightarrow> (u64 \<Rightarrow> bool) \<Rightarrow> mem \<Rightarrow> nat \<Rightarrow> nat \<Rightarrow> u64 \<Rightarrow> u64 \<Rightarrow> u64" where
  "grights tf pr m 0 t pt va = mask 3"
| "grights tf pr m (Suc l) t pt va =
     (if Suc l \<le> t then mask 3
      else let e = load64 m (entry pt (PGDIR_OFFSET va (Suc l)))
        in if \<not> pr e then take_bit 3 tf
           else if l = 0 \<or> huge (Suc l) e then take_bit 3 e
           else take_bit 3 e AND grights tf pr m l t (e AND PT_ADDR_MASK) va)"

lemma rights_entry:
  "grights tf pr m (Suc l) t pt va =
     (if Suc l \<le> t then mask 3
      else let e = pte_at m pt (unat (PGDIR_OFFSET va (Suc l)))
        in if \<not> pr e then take_bit 3 tf
           else if l = 0 \<or> huge (Suc l) e then take_bit 3 e
           else take_bit 3 e AND grights tf pr m l t (e AND PT_ADDR_MASK) va)"
  by simp

declare grights.simps(2) [simp del]

lemma rights_above: "lvl \<le> t \<Longrightarrow> grights tf pr m lvl t pt va = mask 3"
  by (cases lvl) (simp_all add: rights_entry)

lemma and_mask3: "mask 3 AND take_bit 3 x = take_bit 3 (x :: u64)" "take_bit 3 x AND mask 3 = take_bit 3 (x :: u64)"
  by (simp_all add: take_bit_eq_mask and.commute and.left_commute)

lemma rights_low: "take_bit 3 (grights tf pr m lvl t pt va) = grights tf pr m lvl t pt va"
  by (induction lvl arbitrary: pt) (simp_all add: rights_entry Let_def)

text \<open>The levels above \<open>t\<close> grant at least what the whole path grants.\<close>

lemma rights_upper: "grights tf pr m lvl 0 pt va AND grights tf pr m lvl t pt va = grights tf pr m lvl 0 pt va"
proof (induction lvl arbitrary: pt)
  case (Suc l)
  show ?case
  proof (cases "Suc l \<le> t")
    case True
    then show ?thesis
      using and_mask3(2) [of "grights tf pr m (Suc l) 0 pt va"] by (simp add: rights_above rights_low)
  next
    case False
    have "(x AND r0) AND (x AND rt) = x AND (r0 AND rt)" for x r0 rt :: u64
      by (simp add: ac_simps and.left_idem)
    then show ?thesis
      using False Suc by (simp add: rights_entry Let_def)
  qed
qed simp

lemma rights_cong: "agree (set (gtabs pr m l pt)) m' m \<Longrightarrow> grights tf pr m' l t pt va = grights tf pr m l t pt va"
proof (induction l arbitrary: pt)
  case 0
  then show ?case by simp
next
  case (Suc l)
  define i where "i = unat (PGDIR_OFFSET va (Suc l))"
  have i: "i < 512"
    unfolding i_def by (rule unat_offset_512)
  have e: "pte_at m' pt i = pte_at m pt i"
    using Suc.prems root_in_tabs i by (rule agree_pte_at)
  have "agree (set (gsubtree pr m l (pte_at m pt i))) m' m"
    using Suc.prems subtree_subset [OF i] by (rule agree_subset)
  then show ?case
    using Suc.IH [of "pte_at m pt i AND PT_ADDR_MASK"]
    unfolding rights_entry i_def [symmetric] e by (auto simp: gsubtree_def Let_def)
qed

text \<open>A change of one entry and of what is below it leaves the rights of the addresses behind the other entries alone.\<close>

lemma rights_other:
  assumes tree: "gtree pr (ram s) (Suc l) pt (used @ fs')" and i: "i < 512"
    and others: "\<And>j. j < 512 \<Longrightarrow> j \<noteq> i \<Longrightarrow> pte_at (ram s') pt j = pte_at (ram s) pt j"
    and frame: "\<And>x. (\<forall>p \<in> insert pt (set (gsubtree pr (ram s) l (pte_at (ram s) pt i)) \<union> set used). \<not> in_page x p) \<Longrightarrow> ram s' x = ram s x"
    and va: "unat (PGDIR_OFFSET va (Suc l)) \<noteq> i"
  shows "grights tf pr (ram s') (Suc l) t pt va = grights tf pr (ram s) (Suc l) t pt va"
proof -
  let ?m = "ram s" and ?m' = "ram s'" and ?j = "unat (PGDIR_OFFSET va (Suc l))"
  note set0 = set_tabs_split [OF i, of pr ?m l pt]
  have dist: "distinct (gtabs pr ?m (Suc l) pt)" and used: "set (gtabs pr ?m (Suc l) pt) \<inter> set used = {}"
      and al: "\<forall>p \<in> set (gtabs pr ?m (Suc l) pt) \<union> set used. page_aligned p"
    using tree table_page_aligned unfolding gtree_def by auto
  have disj: "insert pt (set (gsubtree pr ?m l (pte_at ?m pt i)) \<union> set used) \<inter> gsiblings pr ?m l pt i = {}"
    using siblings_disjoint [OF dist i] used unfolding set0 by blast
  have fr: "\<forall>x. (\<forall>p \<in> insert pt (set (gsubtree pr ?m l (pte_at ?m pt i)) \<union> set used). \<not> in_page x p) \<longrightarrow> ?m' x = ?m x"
    using frame by blast
  have "agree (gsiblings pr ?m l pt i) ?m' ?m"
    using al unfolding set0 by (intro outside_agree [OF fr disj]) blast
  then have "agree (set (gsubtree pr ?m l (pte_at ?m pt ?j))) ?m' ?m"
    unfolding gsiblings_def by (rule agree_subset) (use va unat_offset_512 in blast)
  then show ?thesis
    using rights_cong [of pr ?m l "pte_at ?m pt ?j AND PT_ADDR_MASK" ?m' tf t va]
    unfolding rights_entry others [OF unat_offset_512 va] by (auto simp: gsubtree_def Let_def)
qed

lemma rights_up:
  assumes tree: "gtree pr (ram s) (Suc l) pt (used0 @ fs')" and l: "0 < l" and i: "i < 512"
    and e1: "pte_at (ram s1) pt i = e1" "pr e1" "\<not> huge (Suc l) e1"
    and others: "\<And>j. j < 512 \<Longrightarrow> j \<noteq> i \<Longrightarrow> pte_at (ram s1) pt j = pte_at (ram s) pt j"
    and sub: "set (gtabs pr (ram s1) l (e1 AND PT_ADDR_MASK)) \<union> set used \<subseteq>
      set (gsubtree pr (ram s) l (pte_at (ram s) pt i)) \<union> set used0"
    and upd: "gupdated pr l (e1 AND PT_ADDR_MASK) s1 used fs' s' T"
    and frame: "\<And>x. (\<forall>p \<in> insert pt (set used0). \<not> in_page x p) \<Longrightarrow> ram s1 x = ram s x"
    and s1: "s1 = s\<lparr>ram := ram s1, freelist := freelist s1\<rparr>"
  shows "unat (PGDIR_OFFSET va (Suc l)) = i \<Longrightarrow> t < Suc l
      \<Longrightarrow> grights tf pr (ram s') (Suc l) t pt va = take_bit 3 e1 AND grights tf pr (ram s') l t (e1 AND PT_ADDR_MASK) va"
    and "unat (PGDIR_OFFSET va (Suc l)) \<noteq> i \<Longrightarrow> grights tf pr (ram s') (Suc l) t pt va = grights tf pr (ram s) (Suc l) t pt va"
proof -
  note up = update_up [OF tree l i e1 others sub upd frame s1]
  show "grights tf pr (ram s') (Suc l) t pt va = take_bit 3 e1 AND grights tf pr (ram s') l t (e1 AND PT_ADDR_MASK) va"
    if "unat (PGDIR_OFFSET va (Suc l)) = i" "t < Suc l"
    using that l e1(2,3) up(2) unfolding rights_entry by simp
  have low: "\<forall>x. (\<forall>p \<in> set (gtabs pr (ram s1) l (e1 AND PT_ADDR_MASK)) \<union> set used. \<not> in_page x p) \<longrightarrow> ram s' x = ram s1 x"
    using upd unfolding gupdated_def by blast
  show "grights tf pr (ram s') (Suc l) t pt va = grights tf pr (ram s) (Suc l) t pt va" if va: "unat (PGDIR_OFFSET va (Suc l)) \<noteq> i"
  proof (rule rights_other [OF tree i up(3) _ va])
    fix x
    assume x: "\<forall>p \<in> insert pt (set (gsubtree pr (ram s) l (pte_at (ram s) pt i)) \<union> set used0). \<not> in_page x p"
    then have "ram s1 x = ram s x"
      by (intro frame) blast
    moreover have "ram s' x = ram s1 x"
      using low x sub by blast
    ultimately show "ram s' x = ram s x"
      by simp
  qed
qed

section \<open>What an installation does to the rights\<close>

lemma install_rights_up:
  assumes tree: "gtree pr (ram s) (Suc l) pt (used0 @ fs')" and t: "t \<le> l" "0 < t"
    and i: "i = unat (PGDIR_OFFSET virt (Suc l))"
    and e1: "pte_at (ram s1) pt i = e1" "pr e1" "\<not> huge (Suc l) e1"
    and others: "\<And>j. j < 512 \<Longrightarrow> j \<noteq> i \<Longrightarrow> pte_at (ram s1) pt j = pte_at (ram s) pt j"
    and sub: "set (gtabs pr (ram s1) l (e1 AND PT_ADDR_MASK)) \<union> set used \<subseteq>
      set (gsubtree pr (ram s) l (pte_at (ram s) pt i)) \<union> set used0"
    and inst: "ginstalled pr t l (e1 AND PT_ADDR_MASK) virt pte s1 used fs' a s'"
    and frame: "\<And>x. (\<forall>p \<in> insert pt (set used0). \<not> in_page x p) \<Longrightarrow> ram s1 x = ram s x"
    and s1: "s1 = s\<lparr>ram := ram s1, freelist := freelist s1\<rparr>"
    and low: "grights tf pr (ram s') l 0 (e1 AND PT_ADDR_MASK) va =
      (if same_path t l va virt then grights tf pr (ram s1) l t (e1 AND PT_ADDR_MASK) virt AND take_bit 3 pte
       else grights tf pr (ram s1) l 0 (e1 AND PT_ADDR_MASK) va)"
    and old: "\<And>u vb. u \<le> l \<Longrightarrow> unat (PGDIR_OFFSET vb (Suc l)) = i
      \<Longrightarrow> take_bit 3 e1 AND grights tf pr (ram s1) l u (e1 AND PT_ADDR_MASK) vb = grights tf pr (ram s) (Suc l) u pt vb"
  shows "grights tf pr (ram s') (Suc l) 0 pt va = (if same_path t (Suc l) va virt
    then grights tf pr (ram s) (Suc l) t pt virt AND take_bit 3 pte else grights tf pr (ram s) (Suc l) 0 pt va)"
proof -
  have l: "0 < l" and i512: "i < 512"
    using t unat_offset_512 unfolding i by auto
  obtain T where upd: "gupdated pr l (e1 AND PT_ADDR_MASK) s1 used fs' s' T"
    using inst unfolding ginstalled_def by blast
  note up = rights_up [where tf = tf and va = va, OF tree l i512 e1 others sub upd frame s1]
  show ?thesis
  proof (cases "unat (PGDIR_OFFSET va (Suc l)) = i")
    case True
    then have "grights tf pr (ram s') (Suc l) 0 pt va = take_bit 3 e1 AND grights tf pr (ram s') l 0 (e1 AND PT_ADDR_MASK) va"
      by (intro up(1)) simp_all
    moreover have "PGDIR_OFFSET va (Suc l) = PGDIR_OFFSET virt (Suc l)"
      using True i by (simp add: offset_unat)
    ultimately show ?thesis
      using t low old [of 0 va, OF _ True] old [of t virt, OF _ i [symmetric]]
      by (simp add: same_path_Suc and.assoc [symmetric])
  next
    case False
    moreover have "\<not> same_path t (Suc l) va virt"
      using False t i by (auto simp: same_path_Suc)
    ultimately show ?thesis
      using up(2) by simp
  qed
qed

context table_installer
begin

lemma new_table_rights:
  assumes tp: "table_page p" and zero: "\<And>x. in_page x p \<Longrightarrow> m x = 0"
  shows "take_bit 3 (p OR tf) AND grights tf pr m l u p va = take_bit 3 tf"
proof -
  have "take_bit 3 (p OR tf) = take_bit 3 tf"
    by (rule bit_word_eqI) (use table_page_bit [OF tp] in \<open>fastforce simp: bit_take_bit_iff bit_or_iff\<close>)
  moreover have "grights tf pr m l u p va = (if l \<le> u then mask 3 else take_bit 3 tf)"
    using zero_page_pte [OF zero unat_offset_512] pr_zero by (cases l) (auto simp: rights_entry rights_above)
  ultimately show ?thesis
    by (simp add: and_mask3)
qed

lemma inst_rights:
  assumes ret_inj: "\<And>a s b s'. ret a s = ret b s' \<Longrightarrow> s = s'"
    and "free_list s fs" and "gtree pr (ram s) lvl pt fs" and "0 < t" and "t \<le> lvl" and "lvl - t \<le> length fs"
    and "gpath_free pr (ram s) lvl t pt virt" and "lvl \<le> 4" and pte: "pr pte" "t = 1 \<or> huge t pte"
    and "inst lvl t virt pte pt s = ret a s'"
  shows "grights tf pr (ram s') lvl 0 pt va = (if same_path t lvl va virt
    then grights tf pr (ram s) lvl t pt virt AND take_bit 3 pte else grights tf pr (ram s) lvl 0 pt va)"
  using assms(2-8,11)
proof (induction lvl arbitrary: pt s fs)
  case 0
  then show ?case by simp
next
  case (Suc l)
  let ?a = "entry pt (PGDIR_OFFSET virt (Suc l))" and ?i = "unat (PGDIR_OFFSET virt (Suc l))"
  have pte': "pr pte \<longrightarrow> t = 1 \<or> huge t pte"
    using pte by simp
  show ?case
  proof (cases "t = Suc l")
    case True
    have "ret ?a (s\<lparr>ram := store64 (ram s) ?a pte\<rparr>) = ret a s'"
      using Suc.prems(8) True by (simp add: inst_here Let_def)
    then have s': "ram s' = store64 (ram s) ?a pte"
      by (auto dest: ret_inj)
    have pt: "page_aligned pt"
      using Suc.prems(2) root_in_tabs [of pt pr "ram s" l] table_page_aligned unfolding gtree_def by auto
    have eq: "pte_at (ram s') pt j = (if j = ?i then pte else pte_at (ram s) pt j)" if "j < 512" for j
      using pte_at_store [OF pt unat_offset_512 that, of "ram s" virt "Suc l" pte] unfolding s' by simp
    show ?thesis
    proof (cases "unat (PGDIR_OFFSET va (Suc l)) = ?i")
      case same: True
      have "grights tf pr (ram s') (Suc l) 0 pt va = take_bit 3 pte"
        using pte True eq [OF unat_offset_512] unfolding rights_entry same by auto
      moreover have "same_path t (Suc l) va virt"
        using same True by (simp add: same_path_def offset_unat)
      ultimately show ?thesis
        using True by (simp add: rights_above and_mask3)
    next
      case other: False
      have "grights tf pr (ram s') (Suc l) 0 pt va = grights tf pr (ram s) (Suc l) 0 pt va"
      proof (rule rights_other [where used = "[]" and i = ?i, OF _ unat_offset_512 _ _ other])
        show "gtree pr (ram s) (Suc l) pt ([] @ fs)"
          using Suc.prems(2) by simp
      qed (use eq store_entry_outside [OF pt unat_offset_512] s' in auto)
      moreover have "\<not> same_path t (Suc l) va virt"
        using other True by (auto simp: same_path_def)
      ultimately show ?thesis
        by simp
    qed
  next
    case False
    then have t: "t \<le> l" "t < Suc l"
      using Suc.prems(4) by simp_all
    obtain l' where l': "l = Suc l'"
      using t(1) Suc.prems(3) by (cases l) auto
    show ?thesis
    proof (cases "pr (load64 (ram s) ?a)")
      case True
      let ?e = "pte_at (ram s) pt ?i"
      have nh: "\<not> huge (Suc l) ?e" "gpath_free pr (ram s) l t (?e AND PT_ADDR_MASK) virt" and pe: "pr ?e"
        using Suc.prems(6) t True by (simp_all add: Let_def)
      have tr: "gtree pr (ram s) l (?e AND PT_ADDR_MASK) fs"
        using Suc.prems(2) unat_offset_512 pe nh(1) by (rule tree_ok_subtree)
      have len: "l - t \<le> length fs" "l \<le> 4"
        using Suc.prems(5,7) by simp_all
      have down: "inst l t virt pte (?e AND PT_ADDR_MASK) s = ret a s'"
        using inst_down [OF Suc.prems(3) t(2) Suc.prems(7) _ pe nh(1)] Suc.prems(8) by simp
      obtain used fs' a where r: "fs = used @ fs'" "ginstalled pr t l (?e AND PT_ADDR_MASK) virt pte s used fs' a s'"
        using inst_installed [OF Suc.prems(1) tr Suc.prems(3) t(1) len(1) nh(2) len(2) pte'] down by (auto dest: ret_inj)
      show ?thesis
      proof (rule install_rights_up [OF _ t(1) Suc.prems(3) refl refl pe nh(1) _ _ r(2)])
        show "gtree pr (ram s) (Suc l) pt (used @ fs')"
          using Suc.prems(2) r(1) by simp
      qed (use pe nh t l' Suc.IH [OF Suc.prems(1) tr Suc.prems(3) t(1) len(1) nh(2) len(2) down] in
          \<open>auto simp: gsubtree_def rights_entry Let_def simp del: gtabs.simps\<close>)
    next
      case False
      obtain p fs1 where fs: "fs = p # fs1"
        using Suc.prems(5) t by (cases fs) auto
      define s1 where "s1 = new_table tf (entry pt (of_nat ?i)) s"
      have np: "\<not> pr (pte_at (ram s) pt ?i)"
        using False by simp
      note b = install_below_new [OF Suc.prems(1,2) [unfolded fs l'] unat_offset_512 np [unfolded l'],
          folded l', folded s1_def]
      have tp: "table_page p"
        using Suc.prems(2) unfolding fs gtree_def by simp
      note te = table_entry_simps [OF tp]
      have len: "l - t \<le> length fs1" "l \<le> 4"
        using Suc.prems(5,7) t unfolding fs by simp_all
      have down: "inst l t virt pte p s1 = ret a s'"
        using inst_new [OF Suc.prems(3) t(2) Suc.prems(7) False Suc.prems(1) [unfolded fs]] Suc.prems(8) b(6) te(3)
        by (simp add: Let_def s1_def)
      obtain used fs' a where r: "fs1 = used @ fs'" "ginstalled pr t l p virt pte s1 used fs' a s'"
        using inst_installed [OF b(1,2) Suc.prems(3) t(1) len(1) b(3) len(2) pte', of virt] down by (auto dest: ret_inj)
      have "pt \<in> set (gtabs pr (ram s) (Suc l) pt)"
        by (rule root_in_tabs)
      then have pt: "page_aligned pt" "pt \<noteq> p" "pt \<notin> set fs1"
        using Suc.prems(2) table_page_aligned unfolding gtree_def fs by auto
      have zero: "ram s1 x = 0" if "in_page x p" for x
        unfolding s1_def by (rule new_table_spec(2) [OF Suc.prems(1) [unfolded fs] pt unat_offset_512 that])
      show ?thesis
      proof (rule install_rights_up [where pr = pr, OF _ t(1) Suc.prems(3) refl b(6) te(1,2)])
        show "gtree pr (ram s) (Suc l) pt ((p # used) @ fs')"
          using Suc.prems(2) r(1) unfolding fs by simp
        show "ginstalled pr t l ((p OR tf) AND PT_ADDR_MASK) virt pte s1 used fs' a s'"
          unfolding te(3) by (rule r(2))
        show "s1 = s\<lparr>ram := ram s1, freelist := freelist s1\<rparr>"
          by (rule b)
        show "grights tf pr (ram s') l 0 ((p OR tf) AND PT_ADDR_MASK) va = (if same_path t l va virt
            then grights tf pr (ram s1) l t ((p OR tf) AND PT_ADDR_MASK) virt AND take_bit 3 pte
            else grights tf pr (ram s1) l 0 ((p OR tf) AND PT_ADDR_MASK) va)"
          unfolding te(3) by (rule Suc.IH [OF b(1,2) Suc.prems(3) t(1) len(1) b(3) len(2) down])
        show "take_bit 3 (p OR tf) AND grights tf pr (ram s1) l u ((p OR tf) AND PT_ADDR_MASK) vb = grights tf pr (ram s) (Suc l) u pt vb"
          if "u \<le> l" "unat (PGDIR_OFFSET vb (Suc l)) = ?i" for u vb
          using that np new_table_rights [where m = "ram s1" and l = l and u = u and va = vb, OF tp zero] unfolding te(3) rights_entry by (simp del: take_bit_or)
      qed (use b te(3) in auto)
    qed
  qed
qed

end

end
