(* ===== verification/Radix_Split.thy ===== *)
theory Radix_Split
  imports Radix_Rights
begin

text \<open>
  Splitting a large page in a radix tree of tables: the table of smaller entries that replaces it translates
  every address as the large page did, with the same attributes. The loop that fills the table is
  \<open>split_loop\<close> of the page tables; the extended page tables are split by the same loop.
\<close>

section \<open>What an address is mapped to\<close>

text \<open>
  The address and the attribute bits of the leaf. These are what the leaf says; what the hardware allows also depends on the entries
  above it (\<open>grights\<close>).
\<close>

definition access :: "(nat \<times> u64) option \<Rightarrow> u64 \<Rightarrow> (u64 \<times> u64) option" where
  "access r va = map_option (\<lambda>(l, e). (leaf l e va, e AND NOT PT_ADDR_MASK AND NOT PT_PAGE_SIZE_MASK)) r"

lemma frame_of_access: "frame_of r va = map_option fst (access r va)"
  by (simp add: frame_of_def access_def option.map_comp comp_def split_def)

section \<open>The table on the path of an address\<close>

text \<open>The table of level \<open>t\<close> on the path of the address, when all entries above it point to tables.\<close>

primrec gtable_at :: "(u64 \<Rightarrow> bool) \<Rightarrow> mem \<Rightarrow> nat \<Rightarrow> nat \<Rightarrow> u64 \<Rightarrow> u64 \<Rightarrow> u64 option" where
  "gtable_at pr m 0 t va pt = None"
| "gtable_at pr m (Suc l) t va pt =
     (if t = Suc l then Some pt
      else let e = pte_at m pt (unat (PGDIR_OFFSET va (Suc l)))
        in if pr e \<and> \<not> huge (Suc l) e then gtable_at pr m l t va (e AND PT_ADDR_MASK) else None)"

lemma table_at_lookup:
  assumes "gtable_at pr m lvl t va pt = Some q" and "0 < t"
  shows "glookup pr m lvl pt va = glookup pr m t q va"
  using assms(1)
proof (induction lvl arbitrary: pt)
  case 0
  then show ?case by simp
next
  case (Suc l)
  have "l \<noteq> 0" if "t \<noteq> Suc l"
    using Suc.prems assms(2) that by (cases l) (auto simp: Let_def split: if_splits)
  then show ?case
    using Suc by (cases "t = Suc l") (auto simp: lookup_entry Let_def split: if_splits)
qed

lemma table_at_mapped:
  assumes "gtranslate pr m lvl pt va = Some pa" and "gtable_at pr m lvl t va pt = Some q" and "0 < t"
  shows "gtranslate pr m t q va = Some pa" and "pr (pte_at m q (unat (PGDIR_OFFSET va t)))"
proof -
  show "gtranslate pr m t q va = Some pa"
    using assms(1) table_at_lookup [OF assms(2,3)] by (simp add: gtranslate_def)
  then show "pr (pte_at m q (unat (PGDIR_OFFSET va t)))"
    using assms(3) by (cases t) (auto simp: translate_entry Let_def split: if_splits)
qed

lemma table_at_above: "lvl < t \<Longrightarrow> gtable_at pr m lvl t va pt = None"
  by (induction lvl arbitrary: pt) (auto simp: Let_def)

lemma tree_ok_table_at: "gtable_at pr m lvl t va pt = Some q \<Longrightarrow> gtree pr m lvl pt fs \<Longrightarrow> gtree pr m t q fs"
proof (induction lvl arbitrary: pt)
  case 0
  then show ?case by simp
next
  case (Suc l)
  show ?case
  proof (cases "t = Suc l")
    case False
    let ?e = "pte_at m pt (unat (PGDIR_OFFSET va (Suc l)))"
    have "pr ?e" "\<not> huge (Suc l) ?e" "gtable_at pr m l t va (?e AND PT_ADDR_MASK) = Some q"
      using Suc.prems(1) False by (simp_all add: Let_def split: if_splits)
    then show ?thesis
      using Suc.IH tree_ok_subtree [OF Suc.prems(2) unat_offset_512] by blast
  qed (use Suc.prems in simp)
qed

lemma table_at_step:
  assumes "gtable_at pr m lvl (Suc k) va pt = Some q" and "pr (pte_at m q (unat (PGDIR_OFFSET va (Suc k))))"
    and "\<not> huge (Suc k) (pte_at m q (unat (PGDIR_OFFSET va (Suc k))))" and "0 < k"
  shows "gtable_at pr m lvl k va pt = Some (pte_at m q (unat (PGDIR_OFFSET va (Suc k))) AND PT_ADDR_MASK)"
  using assms(1)
proof (induction lvl arbitrary: pt)
  case 0
  then show ?case by simp
next
  case (Suc l)
  show ?case
  proof (cases "k = l")
    case True
    then show ?thesis
      using Suc.prems assms(2-4) by (cases l) (simp_all add: Let_def)
  next
    case False
    have "k \<noteq> Suc l"
      using Suc.prems table_at_above [of l "Suc k" pr m va] by (auto simp: Let_def split: if_splits)
    then show ?thesis
      using False Suc by (auto simp: Let_def split: if_splits)
  qed
qed

lemma table_at_huge:
  assumes "gtable_at pr m lvl (Suc k) va pt = Some q" and "huge (Suc k) (pte_at m q (unat (PGDIR_OFFSET va (Suc k))))"
  shows "gtable_at pr m lvl k va pt = None"
  using assms(1)
proof (induction lvl arbitrary: pt)
  case 0
  then show ?case by simp
next
  case (Suc l)
  show ?case
  proof (cases "k = l")
    case True
    then show ?thesis
      using Suc.prems assms(2) by (simp add: Let_def)
  next
    case False
    have "k \<noteq> Suc l"
      using Suc.prems table_at_above [of l "Suc k" pr m va] by (auto simp: Let_def split: if_splits)
    then show ?thesis
      using False Suc by (auto simp: Let_def split: if_splits)
  qed
qed

lemma table_entry_nonzero: "table_page q \<Longrightarrow> entry q (PGDIR_OFFSET va t) \<noteq> 0"
proof
  assume q: "table_page q" and "entry q (PGDIR_OFFSET va t) = 0"
  then have "in_page 0 q"
    using unat_entry [OF unat_offset_512, of 0 q va t] unat_offset_512 [of va t] by (simp add: in_page_def)
  then have "q = 0"
    using in_page_unique [of q 0 0] table_page_aligned [OF q] by (simp add: in_page_def aligned_def)
  then show False
    using q by (simp add: table_page_def)
qed

text \<open>A change below the table of level \<open>t\<close> on a path is a change of the whole tree.\<close>

lemma update_path:
  assumes "gtable_at pr (ram s) lvl t va pt = Some q" and "gtree pr (ram s) lvl pt (used @ fs')" and "0 < t"
    and "gtree pr (ram s) t q (used @ fs') \<Longrightarrow> gupdated pr t q s used fs' s' T" and "\<forall>va. V (T va) va = V (glookup pr (ram s) t q va) va"
  shows "\<exists>T. gupdated pr lvl pt s used fs' s' T \<and> (\<forall>va. V (T va) va = V (glookup pr (ram s) lvl pt va) va)
    \<and> gtable_at pr (ram s') lvl t va pt = Some q \<and> (t < lvl \<longrightarrow> (\<forall>i < 512. pte_at (ram s') pt i = pte_at (ram s) pt i))"
  using assms(1,2)
proof (induction lvl arbitrary: pt)
  case 0
  then show ?case by simp
next
  case (Suc l)
  show ?case
  proof (cases "t = Suc l")
    case True
    then show ?thesis
      using Suc.prems assms(4,5) by auto
  next
    case False
    let ?i = "unat (PGDIR_OFFSET va (Suc l))"
    define e where "e = pte_at (ram s) pt ?i"
    have e: "pr e" "\<not> huge (Suc l) e" and low: "gtable_at pr (ram s) l t va (e AND PT_ADDR_MASK) = Some q"
      using Suc.prems(1) False unfolding e_def by (simp_all add: Let_def split: if_splits)
    have l: "0 < l"
      using low by (cases l) auto
    have tr: "gtree pr (ram s) l (e AND PT_ADDR_MASK) (used @ fs')"
      using tree_ok_subtree [OF Suc.prems(2) unat_offset_512] e unfolding e_def by blast
    obtain T where IH: "gupdated pr l (e AND PT_ADDR_MASK) s used fs' s' T"
        "\<forall>va. V (T va) va = V (glookup pr (ram s) l (e AND PT_ADDR_MASK) va) va"
        "gtable_at pr (ram s') l t va (e AND PT_ADDR_MASK) = Some q"
      using Suc.IH [OF low tr] by blast
    have sub: "set (gtabs pr (ram s) l (e AND PT_ADDR_MASK)) \<union> set used \<subseteq>
        set (gsubtree pr (ram s) l (pte_at (ram s) pt ?i)) \<union> set used"
      using e unfolding gsubtree_def e_def by simp
    note up = update_up [OF Suc.prems(2) l unat_offset_512 e_def [symmetric] e refl sub IH(1) refl]
    let ?T = "\<lambda>vb. if unat (PGDIR_OFFSET vb (Suc l)) = ?i then T vb else glookup pr (ram s) (Suc l) pt vb"
    have "V (?T vb) vb = V (glookup pr (ram s) (Suc l) pt vb) vb" for vb
    proof (cases "unat (PGDIR_OFFSET vb (Suc l)) = ?i")
      case True
      then show ?thesis
        using IH(2) e l unfolding lookup_entry e_def by simp
    qed simp
    moreover have "pte_at (ram s') pt j = pte_at (ram s) pt j" if "j < 512" for j
      using up(2) up(3) [OF _ that] unfolding e_def by (cases "j = ?i") simp_all
    ultimately show ?thesis
      using up(1,2) IH(3) e False by (intro exI [of _ ?T]) (simp add: Let_def)
  qed
qed

text \<open>It keeps the rights of every address if it keeps those below the table.\<close>

lemma rights_path:
  assumes "gtable_at pr (ram s) lvl t va pt = Some q" and "gtree pr (ram s) lvl pt (used @ fs')" and "0 < t"
    and upd: "gupdated pr t q s used fs' s' T" and "u < t" and low: "\<And>vb. grights tf pr (ram s') t u q vb = grights tf pr (ram s) t u q vb"
  shows "grights tf pr (ram s') lvl u pt vb = grights tf pr (ram s) lvl u pt vb"
  using assms(1,2)
proof (induction lvl arbitrary: pt)
  case 0
  then show ?case by simp
next
  case (Suc l)
  show ?case
  proof (cases "t = Suc l")
    case True
    then show ?thesis
      using Suc.prems(1) low by simp
  next
    case False
    let ?i = "unat (PGDIR_OFFSET va (Suc l))"
    define e where "e = pte_at (ram s) pt ?i"
    have e: "pr e" "\<not> huge (Suc l) e" and q: "gtable_at pr (ram s) l t va (e AND PT_ADDR_MASK) = Some q"
      using Suc.prems(1) False unfolding e_def by (simp_all add: Let_def split: if_splits)
    have tr: "gtree pr (ram s) l (e AND PT_ADDR_MASK) (used @ fs')"
      using tree_ok_subtree [OF Suc.prems(2) unat_offset_512] e unfolding e_def by blast
    have tl: "t < Suc l"
      using q table_at_above [of l t pr "ram s" va] by (cases "l < t") auto
    have l: "0 < l"
      using q by (cases l) auto
    obtain T' where sub: "gupdated pr l (e AND PT_ADDR_MASK) s used fs' s' T'"
      using update_path [OF q tr assms(3) upd, of "\<lambda>_ _. ()"] by auto
    have top: "\<forall>i < 512. pte_at (ram s') pt i = pte_at (ram s) pt i"
      using update_path [OF Suc.prems assms(3) upd, of "\<lambda>_ _. ()"] tl by auto
    show ?thesis
    proof (cases "unat (PGDIR_OFFSET vb (Suc l)) = ?i")
      case True
      have "pte_at (ram s') pt ?i = e"
        using top unat_offset_512 [of va "Suc l"] unfolding e_def by blast
      then show ?thesis
        using e l tl assms(5) Suc.IH [OF q tr] unfolding rights_entry True e_def [symmetric] by simp
    next
      case other: False
      show ?thesis
      proof (rule rights_other [OF Suc.prems(2) unat_offset_512 _ _ other])
        fix x
        assume "\<forall>p \<in> insert pt (set (gsubtree pr (ram s) l (pte_at (ram s) pt ?i)) \<union> set used). \<not> in_page x p"
        then show "ram s' x = ram s x"
          using sub e unfolding gupdated_def gsubtree_def e_def by simp
      qed (use top in simp)
    qed
  qed
qed

lemma split_loop_entries:
  assumes "page_aligned np" and "i + k \<le> 512"
  shows "j < 512 \<Longrightarrow> pte_at (split_loop k np proto t pa i m) np j =
      (if i \<le> j \<and> j < i + k then proto OR (pa + push_bit (PGDIR_BITS (t - 1)) (of_nat (j - i))) else pte_at m np j)"
    and "\<not> in_page x np \<Longrightarrow> split_loop k np proto t pa i m x = m x"
proof -
  show "j < 512 \<Longrightarrow> pte_at (split_loop k np proto t pa i m) np j =
      (if i \<le> j \<and> j < i + k then proto OR (pa + push_bit (PGDIR_BITS (t - 1)) (of_nat (j - i))) else pte_at m np j)"
    using assms(2)
  proof (induction k arbitrary: pa i m)
    case 0
    then show ?case by auto
  next
    case (Suc k)
    have i: "i < 512"
      using Suc.prems by simp
    let ?B = "PGDIR_BITS (t - 1)"
    have step: "pte_at (split_loop (Suc k) np proto t pa i m) np j =
        (if i + 1 \<le> j \<and> j < i + 1 + k then proto OR (pa + push_bit ?B 1 + push_bit ?B (of_nat (j - (i + 1))))
         else if i = j then proto OR pa else pte_at m np j)"
      using Suc.IH [of "i + 1"] Suc.prems pte_at_store [OF assms(1) i Suc.prems(1)]
      by (simp add: load64_store64_same)
    show ?case
    proof (cases "i < j")
      case True
      then obtain d where d: "j = Suc (i + d)"
        using less_imp_Suc_add by blast
      have "pa + push_bit ?B 1 + push_bit ?B (of_nat (j - (i + 1))) = pa + push_bit ?B (of_nat (j - i) :: u64)"
        unfolding d by (simp add: push_bit_add)
      then show ?thesis
        unfolding step using True by (simp only:) auto
    next
      case False
      then show ?thesis
        unfolding step by auto
    qed
  qed
  show "\<not> in_page x np \<Longrightarrow> split_loop k np proto t pa i m x = m x"
    using assms(2)
  proof (induction k arbitrary: pa i m)
    case 0
    then show ?case by simp
  next
    case (Suc k)
    then show ?case
      using store_entry_outside [OF assms(1), of i x] by simp
  qed
qed

text \<open>The entries of the new table.\<close>

definition small_entry :: "nat \<Rightarrow> u64 \<Rightarrow> nat \<Rightarrow> u64" where
  "small_entry t pte j =
     (let proto = pte AND NOT PT_ADDR_MASK; proto = (if t = 2 then proto AND NOT PT_PAGE_SIZE_MASK else proto)
      in proto OR ((pte AND PT_ADDR_MASK) + push_bit (PGDIR_BITS (t - 1)) (of_nat j)))"

definition frame_aligned :: "nat \<Rightarrow> u64 \<Rightarrow> bool" where
  "frame_aligned t pte \<longleftrightarrow> aligned (PGDIR_BITS t) (pte AND PT_ADDR_MASK)"

lemma bit_small_entry:
  assumes t: "t = 2 \<or> t = 3" and al: "frame_aligned t pte" and j: "j < 512"
  defines "b \<equiv> PGDIR_BITS (t - 1)"
  shows "bit (small_entry t pte j) n \<longleftrightarrow> n < 64 \<and>
    (if n < 12 \<or> 52 \<le> n then bit pte n \<and> \<not> (t = 2 \<and> n = 7)
     else if n < b + 9 then b \<le> n \<and> bit j (n - b) else bit pte n)"
proof -
  let ?base = "pte AND PT_ADDR_MASK" and ?ofs = "push_bit b (of_nat j) :: u64"
  have b: "PGDIR_BITS t = b + 9" "b = 12 \<or> b = 21"
    using t by (auto simp: b_def PGDIR_BITS_def PGDIR_WIDTH_def PAGE_SHIFT_def)
  have lo: "\<not> bit ?base k" if "k < b + 9" for k
  proof -
    have "bit (take_bit (b + 9) ?base) k \<longleftrightarrow> bit ?base k"
      using that by (simp add: bit_take_bit_iff del: take_bit_and)
    then show ?thesis
      using al unfolding frame_aligned_def aligned_def b(1) by simp
  qed
  have jb: "\<not> bit j k" if "9 \<le> k" for k
  proof -
    have "j < 2 ^ 9"
      using j by simp
    also have "(2 :: nat) ^ 9 \<le> 2 ^ k"
      using that by (intro power_increasing) simp_all
    finally show ?thesis
      by (simp add: bit_iff_odd)
  qed
  have hi: "bit ?ofs k \<longleftrightarrow> k < 64 \<and> b \<le> k \<and> bit j (k - b)" for k
    by (auto simp: bit_push_bit_iff bit_of_nat_iff)
  have top: "\<not> bit ?ofs k" if "b + 9 \<le> k" for k
    using that hi [of k] jb [of "k - b"] by simp
  have "?base AND ?ofs = 0"
  proof (rule bit_word_eqI)
    fix k :: nat
    show "bit (?base AND ?ofs) k = bit (0 :: u64) k"
      using lo [of k] top [of k] unfolding bit_and_iff [of ?base] by (cases "k < b + 9") auto
  qed
  then have "?base + ?ofs = ?base OR ?ofs"
    by (rule disjunctive_add_eq_or)
  moreover have base: "bit ?base n \<longleftrightarrow> bit pte n \<and> 12 \<le> n \<and> n < 52"
    by (simp add: bit_and_iff bit_PT_ADDR_MASK)
  moreover have "bit (small_entry t pte j) n \<longleftrightarrow>
      (bit pte n \<and> n < 64 \<and> (n < 12 \<or> 52 \<le> n) \<and> \<not> (t = 2 \<and> n = 7)) \<or> bit (?base + ?ofs) n"
    unfolding small_entry_def b_def [symmetric] Let_def
    by (auto simp: bit_or_iff [of _ "?base + ?ofs"] bit_and_iff bit_not_iff bit_flags bit_PT_ADDR_MASK)
  ultimately have core: "bit (small_entry t pte j) n \<longleftrightarrow>
      (bit pte n \<and> n < 64 \<and> (n < 12 \<or> 52 \<le> n) \<and> \<not> (t = 2 \<and> n = 7)) \<or> bit ?base n \<or> bit ?ofs n"
    by (simp only: bit_or_iff)
  have b': "12 \<le> b" "b + 9 \<le> 30"
    using b(2) by auto
  show ?thesis
  proof (cases "n < 12 \<or> 52 \<le> n")
    case True
    moreover have "\<not> bit ?ofs n"
      using True hi [of n] top [of n] b' by (cases "n < 12") simp_all
    ultimately show ?thesis
      unfolding core base by auto
  next
    case out: False
    show ?thesis
    proof (cases "n < b + 9")
      case True
      then show ?thesis
        using out lo [OF True] b' unfolding core hi by auto
    next
      case False
      then show ?thesis
        using out top [of n] b' bit_imp_le_length [of pte n] unfolding core base by auto
    qed
  qed
qed

text \<open>The state after the entry \<open>e\<close> at address \<open>a\<close>, of level \<open>t\<close>, is split into the new table \<open>p\<close>.\<close>

definition split_result :: "nat \<Rightarrow> u64 \<Rightarrow> u64 \<Rightarrow> u64 \<Rightarrow> machine \<Rightarrow> machine" where
  "split_result t p e a s = s\<lparr>ram := store64 (split_loop 512 p
       (if t = 2 then (e AND NOT PT_ADDR_MASK) AND NOT PT_PAGE_SIZE_MASK else e AND NOT PT_ADDR_MASK) t (e AND PT_ADDR_MASK) 0 (ram s))
     a (((e AND NOT PT_PAGE_SIZE_MASK) AND NOT PT_ADDR_MASK) OR p)\<rparr>"

context radix
begin

lemma small_entry_props:
  assumes t: "t = 2 \<or> t = 3" and pte: "pr pte" "huge t pte" "frame_aligned t pte" and j: "j < 512"
  shows "pr (small_entry t pte j)" and "small_entry t pte j AND NOT PT_ADDR_MASK AND NOT PT_PAGE_SIZE_MASK = pte AND NOT PT_ADDR_MASK AND NOT PT_PAGE_SIZE_MASK"
    and "t = 3 \<Longrightarrow> huge 2 (small_entry t pte j)"
    and "t = 3 \<Longrightarrow> frame_aligned 2 (small_entry t pte j)"
    and "j = unat (PGDIR_OFFSET va (t - 1)) \<Longrightarrow> leaf (t - 1) (small_entry t pte j) va = leaf t pte va"
proof -
  note bits = bit_small_entry [OF t pte(3) j]
  have b: "PGDIR_BITS t = PGDIR_BITS (t - 1) + 9" "12 \<le> PGDIR_BITS (t - 1)" "PGDIR_BITS (t - 1) + 9 \<le> 30"
    using t by (auto simp: PGDIR_BITS_def PGDIR_WIDTH_def PAGE_SHIFT_def)
  have "pr (small_entry t pte j) = pr pte"
    by (rule pr_low) (simp add: bits)
  then show "pr (small_entry t pte j)"
    using pte(1) by simp
  show "small_entry t pte j AND NOT PT_ADDR_MASK AND NOT PT_PAGE_SIZE_MASK = pte AND NOT PT_ADDR_MASK AND NOT PT_PAGE_SIZE_MASK"
  proof (rule bit_word_eqI)
    fix n :: nat
    assume "n < LENGTH(64)"
    then show "bit (small_entry t pte j AND NOT PT_ADDR_MASK AND NOT PT_PAGE_SIZE_MASK) n
        = bit (pte AND NOT PT_ADDR_MASK AND NOT PT_PAGE_SIZE_MASK) n"
      by (auto simp: bit_and_iff bit_not_iff bit_PT_ADDR_MASK bit_flags bits)
  qed
  show "huge 2 (small_entry t pte j)" if "t = 3"
    using pte(2) that unfolding huge_def large_iff bits by simp
  show "frame_aligned 2 (small_entry t pte j)" if t3: "t = 3"
    unfolding frame_aligned_def aligned_def
  proof (rule bit_word_eqI)
    fix n :: nat
    show "bit (take_bit (PGDIR_BITS 2) (small_entry t pte j AND PT_ADDR_MASK)) n = bit (0 :: u64) n"
      unfolding bit_take_bit_iff bit_and_iff bit_PT_ADDR_MASK bits using t3 by simp
  qed
  show "leaf (t - 1) (small_entry t pte j) va = leaf t pte va" if off: "j = unat (PGDIR_OFFSET va (t - 1))"
  proof (rule bit_word_eqI)
    fix n :: nat
    assume n: "n < LENGTH(64)"
    have t1: "0 < t - 1" "0 < t"
      using t by auto
    show "bit (leaf (t - 1) (small_entry t pte j) va) n = bit (leaf t pte va) n"
      unfolding bit_leaf [OF t1(1)] bit_leaf [OF t1(2)] b(1) bits unfolding off bit_offset using n b by auto
  qed
qed

lemma small_entry_rights:
  assumes "t = 2 \<or> t = 3" and "frame_aligned t pte" and "j < 512"
  shows "take_bit 3 (small_entry t pte j) = take_bit 3 pte"
proof (rule bit_word_eqI)
  fix n :: nat
  assume "n < LENGTH(64)"
  then show "bit (take_bit 3 (small_entry t pte j)) n = bit (take_bit 3 pte) n"
    by (auto simp: bit_take_bit_iff bit_small_entry [OF assms])
qed

section \<open>Splitting one page\<close>

lemma split_entry:
  assumes "pr e" and "table_page p"
  defines "e' \<equiv> ((e AND NOT PT_PAGE_SIZE_MASK) AND NOT PT_ADDR_MASK) OR p"
  shows "pr e'" and "\<not> huge t e'" and "e' AND PT_ADDR_MASK = p" and "take_bit 3 e' = take_bit 3 e"
proof -
  have bits: "bit e' n \<longleftrightarrow> n < 64 \<and> (if 12 \<le> n \<and> n < 52 then bit p n else bit e n \<and> n \<noteq> 7)" for n
    using table_page_bit [OF assms(2), of n] bit_imp_le_length [of p n] bit_imp_le_length [of e n]
    by (auto simp: e'_def bit_or_iff bit_and_iff bit_not_iff bit_flags bit_PT_ADDR_MASK)
  have "pr e' = pr e"
    by (rule pr_low) (simp add: bits)
  then show "pr e'"
    using assms(1) by simp
  show "\<not> huge t e'"
    by (simp add: huge_def large_iff bits)
  show "e' AND PT_ADDR_MASK = p"
  proof (rule bit_word_eqI)
    fix n :: nat
    show "bit (e' AND PT_ADDR_MASK) n = bit p n"
      using table_page_bit [OF assms(2), of n] by (auto simp: bit_and_iff bit_PT_ADDR_MASK bits)
  qed
  show "take_bit 3 e' = take_bit 3 e"
    by (rule bit_word_eqI) (auto simp: bit_take_bit_iff bits)
qed

text \<open>The new table is a leaf of the tree and translates as the large page did.\<close>

lemma small_table_tree:
  assumes t: "t = 2 \<or> t = 3" and e: "pr e" "huge t e" "frame_aligned t e"
    and ep: "\<And>j. j < 512 \<Longrightarrow> pte_at m p j = small_entry t e j"
  shows "gtabs pr m (t - 1) p = [p]" 
    and "access (glookup pr m (t - 1) p va) va = Some (leaf t e va, e AND NOT PT_ADDR_MASK AND NOT PT_PAGE_SIZE_MASK)"
proof -
  obtain k where k: "t = Suc (Suc k)" "k = 0 \<or> k = 1"
    using t by (metis numeral_2_eq_2 numeral_3_eq_3 One_nat_def)
  have leafs: "k = 0 \<or> huge (Suc k) (small_entry t e j)" if "j < 512" for j
    using small_entry_props(3) [OF t e that] k by (auto simp: numeral_2_eq_2 numeral_3_eq_3)
  have "gsubtree pr m k (pte_at m p j) = []" if "j < 512" for j
    using leafs [OF that] ep [OF that] by (auto simp: gsubtree_def)
  then have "map (\<lambda>i. gsubtree pr m k (pte_at m p i)) [0..<512] = map (\<lambda>i. []) [0..<512]"
    by (intro map_cong refl) simp
  then show "gtabs pr m (t - 1) p = [p]"
    by (simp add: k tabs_Suc)
  let ?j = "unat (PGDIR_OFFSET va (Suc k))"
  have j: "?j < 512"
    by (rule unat_offset_512)
  have "leaf (Suc k) (small_entry t e ?j) va = leaf t e va"
    using small_entry_props(5) [OF t e j, of va] k(1) by simp
  moreover have "pr (small_entry t e ?j)"
    by (rule small_entry_props(1) [OF t e j])
  ultimately show "access (glookup pr m (t - 1) p va) va = Some (leaf t e va, e AND NOT PT_ADDR_MASK AND NOT PT_PAGE_SIZE_MASK)"
    using leafs [OF j] small_entry_props(2) [OF t e j] k(1) unfolding k(1) diff_Suc_1 lookup_entry ep [OF j] access_def by auto
qed

lemma split_result_updated:
  assumes fl: "free_list s (p # fs)" and tree: "gtree pr (ram s) t q (p # fs)" and t: "t = 2 \<or> t = 3" and i: "i < 512"
    and e: "pte_at (ram s) q i = e" "pr e" "large e" "frame_aligned t e"
  shows "\<exists>s' e'. s' = split_result t p e (entry q (of_nat i)) (snd (alloc_page s))
    \<and> (\<exists>T. gupdated pr t q s [p] fs s' T \<and> (\<forall>va. access (T va) va = access (glookup pr (ram s) t q va) va))
    \<and> pte_at (ram s') q i = e' \<and> pr e' \<and> \<not> huge t e' \<and> e' AND PT_ADDR_MASK = p
    \<and> (\<forall>j < 512. pte_at (ram s') p j = small_entry t e j)
    \<and> take_bit 3 e' = take_bit 3 e \<and> (\<forall>j < 512. j \<noteq> i \<longrightarrow> pte_at (ram s') q j = pte_at (ram s) q j)
    \<and> (\<forall>x. \<not> in_page x q \<and> \<not> in_page x p \<longrightarrow> ram s' x = ram s x)"
proof -
  obtain s0 where s0: "alloc_page s = (p, s0)"
    using alloc_page_pop(1) [OF fl] by (cases "alloc_page s") simp
  note pop = alloc_page_pop [OF fl, unfolded s0 snd_conv]
  obtain l where l: "t = Suc l"
    using t by auto
  have p: "table_page p" "page_aligned p" "p \<noteq> 0" "p \<notin> set fs" "p \<notin> set (gtabs pr (ram s) t q)"
      "\<forall>x \<in> set (gtabs pr (ram s) t q). page_aligned x" "\<forall>x \<in> set fs. page_aligned x"
      "set (gtabs pr (ram s) t q) \<inter> set fs = {}"
    using tree table_page_aligned unfolding gtree_def by (auto simp: table_page_def)
  have root: "q \<in> set (gtabs pr (ram s) t q)"
    unfolding l by (rule root_in_tabs)
  have q: "page_aligned q" "q \<noteq> p" "q \<notin> set fs"
    using root p by blast+
  define e' where "e' = ((e AND NOT PT_PAGE_SIZE_MASK) AND NOT PT_ADDR_MASK) OR p"
  note e' = split_entry [OF e(2) p(1), folded e'_def]
  define proto where "proto = (if t = 2 then (e AND NOT PT_ADDR_MASK) AND NOT PT_PAGE_SIZE_MASK else e AND NOT PT_ADDR_MASK)"
  define m1 where "m1 = split_loop 512 p proto t (e AND PT_ADDR_MASK) 0 (ram s0)"
  define s' where "s' = s0\<lparr>ram := store64 m1 (entry q (of_nat i)) e'\<rparr>"
  have huge: "huge t e"
    using e(3) t by (simp add: huge_def)
  have ret: "s' = split_result t p e (entry q (of_nat i)) (snd (alloc_page s))"
    using s0 by (simp add: split_result_def s'_def m1_def e'_def proto_def)
  have np: "\<not> in_page x a" if "in_page x b" "page_aligned a" "page_aligned b" "a \<noteq> b" for x a b
    using in_page_unique [OF that(2,3) _ that(1)] that(4) by blast
  have loop: "pte_at m1 p j = small_entry t e j" if "j < 512" for j
    using split_loop_entries(1) [OF p(2), of 0 512 j] that by (simp add: m1_def small_entry_def proto_def Let_def)
  have out1: "m1 x = ram s x" if "\<not> in_page x p" for x
    using split_loop_entries(2) [OF p(2), of 0 512 x] that pop(4) by (simp add: m1_def)
  have out: "ram s' x = m1 x" if "\<not> in_page x q" for x
    using store_entry_outside [OF q(1) i that] by (simp add: s'_def)
  have ep: "pte_at (ram s') p j = small_entry t e j" if "j < 512" for j
  proof -
    have "pte_at (ram s') p j = pte_at m1 p j"
      using that np [OF _ q(1) p(2) q(2)] by (intro pte_at_cong out) blast+
    then show ?thesis
      using loop [OF that] by simp
  qed
  have eq: "pte_at (ram s') q j = (if j = i then e' else pte_at (ram s) q j)" if "j < 512" for j
  proof -
    have "pte_at m1 q j = pte_at (ram s) q j"
      using that np [OF _ p(2) q(1)] q(2) by (intro pte_at_cong out1) blast+
    then show ?thesis
      using pte_at_store [OF q(1) i that] by (simp add: s'_def)
  qed
  have frame: "\<forall>x. (\<forall>y \<in> {q, p}. \<not> in_page x y) \<longrightarrow> ram s' x = ram s x"
    using out out1 by simp
  have "\<forall>x. (\<forall>y \<in> {q, p}. \<not> in_page x y) \<longrightarrow> ram s' x = ram s0 x"
    using out out1 pop(4) by simp
  then have "agree (set fs) (ram s') (ram s0)"
    using p(2,4,7) q by (intro outside_agree) blast+
  then have fl': "free_list s' fs"
    using free_list_kept [OF pop(2), of s'] by (simp add: s'_def)
  have upd: "gupdated pr t q s [p] fs s' (\<lambda>va. if unat (PGDIR_OFFSET va t) = i then glookup pr (ram s') t q va else glookup pr (ram s) t q va)"
    unfolding l
  proof (rule update_entry)
    show "i < 512" "free_list s' fs" "gtree pr (ram s) (Suc l) q ([p] @ fs)"
      using i fl' tree l by simp_all
    show "s' = s\<lparr>ram := ram s', freelist := freelist s'\<rparr>"
      using s0 by (auto simp: s'_def alloc_page_def Let_def split: if_splits)
    show "\<forall>j < 512. j \<noteq> i \<longrightarrow> pte_at (ram s') q j = pte_at (ram s) q j"
      using eq by simp
    show "\<forall>x. (\<forall>y \<in> insert q (set (gsubtree pr (ram s) l (pte_at (ram s) q i)) \<union> set [p]). \<not> in_page x y)
        \<longrightarrow> ram s' x = ram s x"
      using frame by simp
    have "gsubtree pr (ram s') l (pte_at (ram s') q i) = [p]"
      using small_table_tree(1) [OF t e(2) huge e(4) ep] e' eq [OF i] l by (simp add: gsubtree_def)
    then show "distinct (gsubtree pr (ram s') l (pte_at (ram s') q i))"
      and "set (gsubtree pr (ram s') l (pte_at (ram s') q i)) \<subseteq> set (gsubtree pr (ram s) l (pte_at (ram s) q i)) \<union> set [p]"
      by simp_all
  qed simp_all
  have "access (glookup pr (ram s') t q va) va = access (glookup pr (ram s) t q va) va" if va: "unat (PGDIR_OFFSET va t) = i" for va
  proof -
    have "access (glookup pr (ram s') (Suc l) q va) va = access (glookup pr (ram s') (t - 1) p va) va"
      using e' t l unfolding lookup_entry va [unfolded l] eq [OF i] by auto
    also have "\<dots> = access (glookup pr (ram s) (Suc l) q va) va"
      using small_table_tree(2) [OF t e(2) huge e(4) ep] e(1,2) huge l
      unfolding lookup_entry va [unfolded l] by (simp add: access_def)
    finally show ?thesis
      by (simp only: l)
  qed
  then have "\<forall>va. access (if unat (PGDIR_OFFSET va t) = i then glookup pr (ram s') t q va else glookup pr (ram s) t q va) va
      = access (glookup pr (ram s) t q va) va"
    by simp
  then show ?thesis
    using ret upd e' eq [OF i] eq ep frame by (intro exI [of _ s'] exI [of _ e'] conjI) (blast | simp)+
qed

lemma small_table_rights:
  assumes t: "t = 2 \<or> t = 3" and e: "pr e" "huge t e" "frame_aligned t e"
    and ep: "\<And>j. j < 512 \<Longrightarrow> pte_at m p j = small_entry t e j"
  shows "take_bit 3 e AND grights tf pr m (t - 1) u p va = take_bit 3 e"
proof -
  obtain k where k: "t = Suc (Suc k)" "k = 0 \<or> k = 1"
    using t by (metis numeral_2_eq_2 numeral_3_eq_3 One_nat_def)
  let ?j = "unat (PGDIR_OFFSET va (Suc k))"
  have j: "?j < 512"
    by (rule unat_offset_512)
  have "k = 0 \<or> huge (Suc k) (small_entry t e ?j)"
    using small_entry_props(3) [OF t e j] k by (auto simp: numeral_2_eq_2 numeral_3_eq_3)
  then have "grights tf pr m (Suc k) u p va = (if Suc k \<le> u then mask 3 else take_bit 3 e)"
    using small_entry_props(1) [OF t e j] small_entry_rights [OF t e(3) j] unfolding rights_entry ep [OF j] by auto
  then show ?thesis
    unfolding k(1) by (simp add: and_mask3)
qed

lemma split_result_rights:
  assumes fl: "free_list s (p # fs)" and tree: "gtree pr (ram s) t q (p # fs)" and t: "t = 2 \<or> t = 3" and i: "i < 512"
    and e: "pte_at (ram s) q i = e" "pr e" "large e" "frame_aligned t e" and u: "u < t"
  defines "s' \<equiv> split_result t p e (entry q (of_nat i)) (snd (alloc_page s))"
  shows "grights tf pr (ram s') t u q va = grights tf pr (ram s) t u q va"
proof -
  obtain l where l: "t = Suc l" "0 < l"
    using t by (cases t) auto
  have huge: "huge t e"
    using e(3) t by (simp add: huge_def)
  obtain e' where s': "pte_at (ram s') q i = e'" "pr e'" "\<not> huge t e'" "e' AND PT_ADDR_MASK = p" "take_bit 3 e' = take_bit 3 e"
      "\<And>j. j < 512 \<Longrightarrow> pte_at (ram s') p j = small_entry t e j" "\<And>j. j < 512 \<Longrightarrow> j \<noteq> i \<Longrightarrow> pte_at (ram s') q j = pte_at (ram s) q j"
      "\<And>x. \<not> in_page x q \<Longrightarrow> \<not> in_page x p \<Longrightarrow> ram s' x = ram s x"
    using split_result_updated [OF fl tree t i e] unfolding s'_def by blast
  have tree1: "gtree pr (ram s) (Suc l) q ([p] @ fs)"
    using tree l by simp
  show ?thesis
  proof (cases "unat (PGDIR_OFFSET va t) = i")
    case True
    have "grights tf pr (ram s') t u q va = take_bit 3 e AND grights tf pr (ram s') (t - 1) u p va"
      using s' l u True unfolding l(1) rights_entry by simp
    also have "\<dots> = take_bit 3 e"
      by (rule small_table_rights [OF t e(2) huge e(4) s'(6)])
    also have "\<dots> = grights tf pr (ram s) t u q va"
      using e huge u True unfolding l(1) rights_entry by simp
    finally show ?thesis .
  next
    case False
    show ?thesis
      unfolding l(1) by (rule rights_other [OF tree1 i s'(7) s'(8)]) (use False l in auto)
  qed
qed

text \<open>One split on the path of an address.\<close>

lemma split_level:
  assumes fl: "free_list s (p # fs)" and tree: "gtree pr (ram s) 4 cr3 (p # fs)" and t: "t = 2 \<or> t = 3"
    and q: "gtable_at pr (ram s) 4 t va cr3 = Some q"
    and e: "pte_at (ram s) q (unat (PGDIR_OFFSET va t)) = e" "pr e" "large e" "frame_aligned t e"
  defines "s' \<equiv> split_result t p e (entry q (PGDIR_OFFSET va t)) (snd (alloc_page s))"
  shows "free_list s' fs" and "gtree pr (ram s') 4 cr3 fs"
    and "\<forall>vb. access (glookup pr (ram s') 4 cr3 vb) vb = access (glookup pr (ram s) 4 cr3 vb) vb"
    and "gtable_at pr (ram s') 4 t va cr3 = Some q" and "gtable_at pr (ram s') 4 (t - 1) va cr3 = Some p"
    and "pr (pte_at (ram s') q (unat (PGDIR_OFFSET va t)))" and "\<not> huge t (pte_at (ram s') q (unat (PGDIR_OFFSET va t)))"
    and "pte_at (ram s') q (unat (PGDIR_OFFSET va t)) AND PT_ADDR_MASK = p"
    and "\<forall>j < 512. pte_at (ram s') p j = small_entry t e j"
    and "s' = s\<lparr>ram := ram s', freelist := freelist s'\<rparr>"
    and "groot_small pr (ram s) cr3 \<longrightarrow> groot_small pr (ram s') cr3"
    and "u < t \<Longrightarrow> grights tf pr (ram s') 4 u cr3 vb = grights tf pr (ram s) 4 u cr3 vb"
proof -
  let ?i = "unat (PGDIR_OFFSET va t)"
  obtain k where k: "t = Suc k" "0 < k"
    using t by (cases t) auto
  obtain T where s': "gupdated pr t q s [p] fs s' T" "\<forall>va. access (T va) va = access (glookup pr (ram s) t q va) va"
      "pr (pte_at (ram s') q ?i)" "\<not> huge t (pte_at (ram s') q ?i)" "pte_at (ram s') q ?i AND PT_ADDR_MASK = p"
      "\<forall>j < 512. pte_at (ram s') p j = small_entry t e j"
    using split_result_updated [OF fl tree_ok_table_at [OF q tree] t unat_offset_512 e]
    unfolding s'_def entry_offset [of q va t] by blast
  have tree0: "gtree pr (ram s) 4 cr3 ([p] @ fs)"
    using tree by simp
  obtain T' where up: "gupdated pr 4 cr3 s [p] fs s' T'" "gtable_at pr (ram s') 4 t va cr3 = Some q"
      "\<forall>vb. access (T' vb) vb = access (glookup pr (ram s) 4 cr3 vb) vb"
      "\<forall>i < 512. pte_at (ram s') cr3 i = pte_at (ram s) cr3 i"
    using update_path [OF q tree0 _ s'(1,2)] k t by auto
  show "groot_small pr (ram s) cr3 \<longrightarrow> groot_small pr (ram s') cr3"
    using up(4) unfolding groot_small_def by simp
  show "free_list s' fs" "\<forall>vb. access (glookup pr (ram s') 4 cr3 vb) vb = access (glookup pr (ram s) 4 cr3 vb) vb"
      "s' = s\<lparr>ram := ram s', freelist := freelist s'\<rparr>"
    using up(1,3) unfolding gupdated_def by simp_all
  show "gtree pr (ram s') 4 cr3 fs"
    by (rule updated_tree_ok [OF tree0 up(1)])
  show "gtable_at pr (ram s') 4 (t - 1) va cr3 = Some p"
    using table_at_step [of pr "ram s'" 4 k va cr3 q] up(2) s'(3-5) k by simp
  show "gtable_at pr (ram s') 4 t va cr3 = Some q"
    by (rule up)
  show "pr (pte_at (ram s') q ?i)" "\<not> huge t (pte_at (ram s') q ?i)" "pte_at (ram s') q ?i AND PT_ADDR_MASK = p"
      "\<forall>j < 512. pte_at (ram s') p j = small_entry t e j"
    by (rule s')+
  show "grights tf pr (ram s') 4 u cr3 vb = grights tf pr (ram s) 4 u cr3 vb" if "u < t"
    using split_result_rights [OF fl tree_ok_table_at [OF q tree] t unat_offset_512 e that] that k(1)
    unfolding entry_offset [of q va t, symmetric] s'_def [symmetric] by (intro rights_path [OF q tree0 _ s'(1) that]) simp_all
qed

end

section \<open>Installations that split the large pages on the way\<close>

text \<open>The large pages on the path of an address above level \<open>t\<close> have frames aligned to their size.\<close>

definition galigned :: "(u64 \<Rightarrow> bool) \<Rightarrow> mem \<Rightarrow> nat \<Rightarrow> u64 \<Rightarrow> u64 \<Rightarrow> bool" where
  "galigned pr m t cr3 va \<longleftrightarrow> (\<forall>l q. (l = 2 \<or> l = 3) \<and> t < l \<and> gtable_at pr m 4 l va cr3 = Some q
     \<and> pr (pte_at m q (unat (PGDIR_OFFSET va l))) \<and> large (pte_at m q (unat (PGDIR_OFFSET va l)))
     \<longrightarrow> frame_aligned l (pte_at m q (unat (PGDIR_OFFSET va l))))"

definition gclear :: "(u64 \<Rightarrow> bool) \<Rightarrow> mem \<Rightarrow> nat \<Rightarrow> nat \<Rightarrow> u64 \<Rightarrow> u64 \<Rightarrow> bool" where
  "gclear pr m lvl t pt va \<longleftrightarrow> (\<forall>l q. t < l \<and> gtable_at pr m lvl l va pt = Some q \<and> pr (pte_at m q (unat (PGDIR_OFFSET va l)))
     \<longrightarrow> \<not> huge l (pte_at m q (unat (PGDIR_OFFSET va l))))"

lemma gclear_path_free: "gclear pr m lvl t pt va \<Longrightarrow> gpath_free pr m lvl t pt va"
proof (induction lvl arbitrary: pt)
  case 0
  then show ?case by simp
next
  case (Suc l)
  let ?e = "pte_at m pt (unat (PGDIR_OFFSET va (Suc l)))"
  have "gpath_free pr m l t (?e AND PT_ADDR_MASK) va" if "pr ?e" "\<not> huge (Suc l) ?e"
  proof (rule Suc.IH)
    have "gtable_at pr m (Suc l) k va pt = gtable_at pr m l k va (?e AND PT_ADDR_MASK)" if "k \<noteq> Suc l" for k
      using \<open>pr ?e\<close> \<open>\<not> huge (Suc l) ?e\<close> that by (simp add: Let_def)
    moreover have "gtable_at pr m l (Suc l) va x = None" for x
      by (rule table_at_above) simp
    ultimately show "gclear pr m l t (?e AND PT_ADDR_MASK) va"
      using Suc.prems unfolding gclear_def by (metis option.distinct(1))
  qed
  moreover have "\<not> huge (Suc l) ?e" if "t < Suc l" "pr ?e"
    using Suc.prems that unfolding gclear_def by (metis gtable_at.simps(2))
  ultimately show ?case
    by (auto simp: Let_def)
qed

lemma table_at_between:
  "gtable_at pr m lvl k va pt = Some p \<Longrightarrow> k < l \<Longrightarrow> gtable_at pr m lvl l va pt = Some q
   \<Longrightarrow> \<not> huge l (pte_at m q (unat (PGDIR_OFFSET va l)))"
proof (induction lvl arbitrary: pt)
  case 0
  then show ?case by simp
next
  case (Suc n)
  have "k \<noteq> Suc n"
    using Suc.prems(2,3) table_at_above [of "Suc n" l pr m va pt] by (cases "l = Suc n") (auto simp del: gtable_at.simps)
  then show ?case
    using Suc by (cases "l = Suc n") (auto simp: Let_def split: if_splits)
qed

locale splitting_installer = table_installer +
  assumes inst_split: "\<And>l t virt pte pt s e p fs. 0 < t \<Longrightarrow> t < Suc l \<Longrightarrow> load64 (ram s) (entry pt (PGDIR_OFFSET virt (Suc l))) = e \<Longrightarrow> pr e
      \<Longrightarrow> huge (Suc l) e \<Longrightarrow> free_list s (p # fs) \<Longrightarrow> p \<noteq> 0
      \<Longrightarrow> (let a = entry pt (PGDIR_OFFSET virt (Suc l)); s1 = split_result (Suc l) p e a (snd (alloc_page s))
           in inst (Suc l) t virt pte pt s = inst l t virt pte (load64 (ram s1) a AND PT_ADDR_MASK) s1)"
    and ret_inj: "\<And>a s b s'. ret a s = ret b s' \<Longrightarrow> s = s'"
begin

lemma inst_path:
  "gtable_at pr (ram s) lvl k virt pt = Some q \<Longrightarrow> 0 < t \<Longrightarrow> t \<le> k \<Longrightarrow> lvl \<le> 4 \<Longrightarrow> inst lvl t virt pte pt s = inst k t virt pte q s"
proof (induction lvl arbitrary: pt)
  case 0
  then show ?case by simp
next
  case (Suc l)
  let ?e = "pte_at (ram s) pt (unat (PGDIR_OFFSET virt (Suc l)))"
  show ?case
  proof (cases "k = Suc l")
    case False
    then have "k \<le> l"
      using Suc.prems(1) table_at_above [of l k pr "ram s" virt] by (cases "k \<le> l") (auto simp: Let_def split: if_splits)
    then have "t < Suc l"
      using Suc.prems(3) by simp
    moreover have "pr ?e" "\<not> huge (Suc l) ?e" "gtable_at pr (ram s) l k virt (?e AND PT_ADDR_MASK) = Some q"
      using Suc.prems(1) False by (simp_all add: Let_def split: if_splits)
    ultimately show ?thesis
      using Suc.IH [of "?e AND PT_ADDR_MASK"] Suc.prems(2-4) inst_down [of t l s pt virt ?e] by simp
  qed (use Suc.prems in simp)
qed

lemma inst_split_level:
  assumes fl: "free_list s (p # fs)" and tree: "gtree pr (ram s) 4 cr3 (p # fs)" and l: "l = 2 \<or> l = 3" and t: "0 < t" "t < l"
    and q: "gtable_at pr (ram s) 4 l virt cr3 = Some q"
    and e: "pte_at (ram s) q (unat (PGDIR_OFFSET virt l)) = e" "pr e" "large e" "frame_aligned l e"
  shows "inst 4 t virt pte cr3 s = inst 4 t virt pte cr3 (split_result l p e (entry q (PGDIR_OFFSET virt l)) (snd (alloc_page s)))"
proof -
  let ?s = "split_result l p e (entry q (PGDIR_OFFSET virt l)) (snd (alloc_page s))"
  note sl = split_level [OF fl tree l q e]
  obtain k where k: "l = Suc k" "t \<le> k"
    using t by (cases l) auto
  have h: "huge (Suc k) e"
    using e(3) l k(1) by (auto simp: huge_def)
  have "p \<noteq> 0"
    using tree by (simp add: gtree_def table_page_def)
  have "inst 4 t virt pte cr3 s = inst l t virt pte q s"
    using q t by (intro inst_path) auto
  also have "\<dots> = inst k t virt pte p ?s"
    using inst_split [of t k s q virt e p fs pte] t k e(1,2) h fl \<open>p \<noteq> 0\<close> sl(8) by (simp add: Let_def)
  also have "\<dots> = inst 4 t virt pte cr3 ?s"
    using sl(5) k t by (intro inst_path [symmetric]) auto
  finally show ?thesis .
qed

text \<open>Each of the steps clears one level of the path.\<close>

lemma inst_clear_level:
  assumes fl: "free_list s fs" and tree: "gtree pr (ram s) 4 cr3 fs" and al: "galigned pr (ram s) t cr3 virt"
    and cl: "gclear pr (ram s) 4 (Suc k) cr3 virt" and k: "t \<le> k" "0 < t" "fs \<noteq> []"
  shows "\<exists>s' fs'. inst 4 t virt pte cr3 s = inst 4 t virt pte cr3 s' \<and> free_list s' fs' \<and> gtree pr (ram s') 4 cr3 fs'
    \<and> galigned pr (ram s') t cr3 virt \<and> gclear pr (ram s') 4 k cr3 virt \<and> (fs' = fs \<or> fs' = tl fs)
    \<and> (\<forall>vb. access (glookup pr (ram s') 4 cr3 vb) vb = access (glookup pr (ram s) 4 cr3 vb) vb)
    \<and> s' = s\<lparr>ram := ram s', freelist := freelist s'\<rparr> \<and> (groot_small pr (ram s) cr3 \<longrightarrow> groot_small pr (ram s') cr3)
    \<and> (\<forall>u vb. u \<le> t \<longrightarrow> grights tf pr (ram s') 4 u cr3 vb = grights tf pr (ram s) 4 u cr3 vb)"
proof (cases "gclear pr (ram s) 4 k cr3 virt")
  case True
  then show ?thesis
    using fl tree al by (intro exI [of _ s] exI [of _ fs]) simp
next
  case False
  then obtain l q where q: "k < l" "gtable_at pr (ram s) 4 l virt cr3 = Some q"
      "pr (pte_at (ram s) q (unat (PGDIR_OFFSET virt l)))" "huge l (pte_at (ram s) q (unat (PGDIR_OFFSET virt l)))"
    unfolding gclear_def by blast
  then have lk: "l = Suc k"
    using cl unfolding gclear_def by (metis Suc_lessI)
  define e where "e = pte_at (ram s) q (unat (PGDIR_OFFSET virt l))"
  have l: "l = 2 \<or> l = 3" "t < l" and e: "pr e" "large e" "huge l e"
    using q k lk by (auto simp: huge_def e_def)
  have fa: "frame_aligned l e"
    using al l q(2) e(1,2) unfolding galigned_def e_def by blast
  obtain p fs' where fs: "fs = p # fs'"
    using k(3) by (cases fs) auto
  let ?s = "split_result l p e (entry q (PGDIR_OFFSET virt l)) (snd (alloc_page s))"
  note pre = fl [unfolded fs] tree [unfolded fs] l(1)
  note sl = split_level [OF pre q(2) e_def [symmetric] e(1,2) fa]
  have nh: "\<not> huge n (pte_at (ram ?s) q' (unat (PGDIR_OFFSET virt n)))"
    if "k < n" "gtable_at pr (ram ?s) 4 n virt cr3 = Some q'" for n q'
    using table_at_between [OF sl(5) _ that(2)] that(1) lk by simp
  have "galigned pr (ram ?s) t cr3 virt"
    unfolding galigned_def
  proof (intro allI impI)
    fix n q'
    let ?e = "pte_at (ram ?s) q' (unat (PGDIR_OFFSET virt n))"
    assume n: "(n = 2 \<or> n = 3) \<and> t < n \<and> gtable_at pr (ram ?s) 4 n virt cr3 = Some q' \<and> pr ?e \<and> large ?e"
    then have "n \<le> k"
      using nh [of n q'] by (force simp: huge_def)
    then have n2: "n = 2" "l = 3" "q' = p"
      using n l(1) lk sl(5) by auto
    then have "?e = small_entry l e (unat (PGDIR_OFFSET virt 2))"
      using sl(9) unat_offset_512 [of virt 2] by blast
    then show "frame_aligned n ?e"
      using small_entry_props(4) [OF l(1) e(1,3) fa unat_offset_512 n2(2), of virt 2] n2(1) by simp
  qed
  moreover have "gclear pr (ram ?s) 4 k cr3 virt"
    using nh unfolding gclear_def by blast
  moreover have "inst 4 t virt pte cr3 s = inst 4 t virt pte cr3 ?s"
    by (rule inst_split_level [OF pre k(2) l(2) q(2) e_def [symmetric] e(1,2) fa])
  ultimately show ?thesis
    using sl(1-3,10-12) fs l(2) by (intro exI [of _ ?s] exI [of _ fs']) simp
qed

text \<open>
  An installation through large pages: the addresses of the new entry are mapped by it, and every other
  address keeps its frame and its attributes.
\<close>

lemma inst_clears:
  assumes "free_list s fs" and "gtree pr (ram s) 4 cr3 fs" and "galigned pr (ram s) t cr3 virt" and "0 < t"
    and "gclear pr (ram s) 4 (t + d) cr3 virt" and "d \<le> length fs"
  shows "\<exists>s' used fs'. inst 4 t virt pte cr3 s = inst 4 t virt pte cr3 s' \<and> fs = used @ fs' \<and> length used \<le> d
    \<and> free_list s' fs' \<and> gtree pr (ram s') 4 cr3 fs' \<and> gclear pr (ram s') 4 t cr3 virt
    \<and> (\<forall>vb. access (glookup pr (ram s') 4 cr3 vb) vb = access (glookup pr (ram s) 4 cr3 vb) vb)
    \<and> s' = s\<lparr>ram := ram s', freelist := freelist s'\<rparr> \<and> (groot_small pr (ram s) cr3 \<longrightarrow> groot_small pr (ram s') cr3)
    \<and> (\<forall>u vb. u \<le> t \<longrightarrow> grights tf pr (ram s') 4 u cr3 vb = grights tf pr (ram s) 4 u cr3 vb)"
  using assms
proof (induction d arbitrary: s fs)
  case 0
  then show ?case
    by (intro exI [of _ s] exI [of _ "[]"] exI [of _ fs]) simp
next
  case (Suc d)
  have ne: "fs \<noteq> []"
    using Suc.prems(6) by auto
  obtain s1 fs1 where s1: "inst 4 t virt pte cr3 s = inst 4 t virt pte cr3 s1" "free_list s1 fs1" "gtree pr (ram s1) 4 cr3 fs1"
      "galigned pr (ram s1) t cr3 virt" "gclear pr (ram s1) 4 (t + d) cr3 virt" "fs1 = fs \<or> fs1 = tl fs"
      "\<forall>vb. access (glookup pr (ram s1) 4 cr3 vb) vb = access (glookup pr (ram s) 4 cr3 vb) vb"
      "s1 = s\<lparr>ram := ram s1, freelist := freelist s1\<rparr>" "groot_small pr (ram s) cr3 \<longrightarrow> groot_small pr (ram s1) cr3"
      "\<forall>u vb. u \<le> t \<longrightarrow> grights tf pr (ram s1) 4 u cr3 vb = grights tf pr (ram s) 4 u cr3 vb"
    using inst_clear_level [OF Suc.prems(1-3), of "t + d" pte] Suc.prems(4,5) ne by (simp add: add.commute) blast
  have "d \<le> length fs1"
    using s1(6) Suc.prems(6) by auto
  then obtain s' used fs' where r: "inst 4 t virt pte cr3 s1 = inst 4 t virt pte cr3 s'" "fs1 = used @ fs'" "length used \<le> d"
      "free_list s' fs'" "gtree pr (ram s') 4 cr3 fs'" "gclear pr (ram s') 4 t cr3 virt"
      "\<forall>vb. access (glookup pr (ram s') 4 cr3 vb) vb = access (glookup pr (ram s1) 4 cr3 vb) vb"
      "s' = s1\<lparr>ram := ram s', freelist := freelist s'\<rparr>" "groot_small pr (ram s1) cr3 \<longrightarrow> groot_small pr (ram s') cr3"
      "\<forall>u vb. u \<le> t \<longrightarrow> grights tf pr (ram s') 4 u cr3 vb = grights tf pr (ram s1) 4 u cr3 vb"
    using Suc.IH [OF s1(2-4) Suc.prems(4) s1(5)] by auto
  have "\<exists>used'. fs = used' @ fs' \<and> length used' \<le> Suc d"
  proof (cases "fs1 = fs")
    case True
    then show ?thesis using r(2,3) by (intro exI [of _ used]) simp
  next
    case False
    then show ?thesis using s1(6) r(2,3) ne by (intro exI [of _ "hd fs # used"]) simp
  qed
  moreover have "s' = s\<lparr>ram := ram s', freelist := freelist s'\<rparr>"
    using r(8) s1(8) by (cases s, cases s1, cases s') simp
  moreover have "inst 4 t virt pte cr3 s = inst 4 t virt pte cr3 s'"
      "\<forall>vb. access (glookup pr (ram s') 4 cr3 vb) vb = access (glookup pr (ram s) 4 cr3 vb) vb"
      "\<forall>u vb. u \<le> t \<longrightarrow> grights tf pr (ram s') 4 u cr3 vb = grights tf pr (ram s) 4 u cr3 vb"
    using s1(1,7,10) r(1,7,10) by simp_all
  ultimately show ?case
    using r(4-6,9) s1(9) by blast
qed

lemma inst_splits:
  assumes "free_list s fs" and "gtree pr (ram s) 4 cr3 fs" and "galigned pr (ram s) t cr3 virt" and t: "0 < t" "t \<le> 3"
    and len: "7 - 2 * t \<le> length fs" and pte: "pr pte" "t = 1 \<or> huge t pte"
  shows "\<exists>used fs' a s'. inst 4 t virt pte cr3 s = ret a s' \<and> fs = used @ fs' \<and> length used \<le> 7 - 2 * t \<and> free_list s' fs' \<and> gtree pr (ram s') 4 cr3 fs'
    \<and> (\<forall>va. access (glookup pr (ram s') 4 cr3 va) va =
        (if same_path t 4 va virt then access (Some (t, pte)) va else access (glookup pr (ram s) 4 cr3 va) va))
    \<and> gfind pr (ram s') 4 t virt cr3 = (t, a) \<and> load64 (ram s') a = pte \<and> s' = s\<lparr>ram := ram s', freelist := freelist s'\<rparr>
    \<and> (groot_small pr (ram s) cr3 \<longrightarrow> groot_small pr (ram s') cr3)
    \<and> (\<forall>va. grights tf pr (ram s') 4 0 cr3 va =
        (if same_path t 4 va virt then grights tf pr (ram s) 4 t cr3 virt AND take_bit 3 pte else grights tf pr (ram s) 4 0 cr3 va))"
proof -
  have "gclear pr (ram s) 4 (t + (3 - t)) cr3 virt"
    using t unfolding gclear_def huge_def by auto
  then obtain s1 used fs1 where s1: "inst 4 t virt pte cr3 s = inst 4 t virt pte cr3 s1" "fs = used @ fs1" "length used \<le> 3 - t"
      "free_list s1 fs1" "gtree pr (ram s1) 4 cr3 fs1" "gclear pr (ram s1) 4 t cr3 virt"
      "\<forall>vb. access (glookup pr (ram s1) 4 cr3 vb) vb = access (glookup pr (ram s) 4 cr3 vb) vb"
      "s1 = s\<lparr>ram := ram s1, freelist := freelist s1\<rparr>" "groot_small pr (ram s) cr3 \<longrightarrow> groot_small pr (ram s1) cr3"
      "\<forall>u vb. u \<le> t \<longrightarrow> grights tf pr (ram s1) 4 u cr3 vb = grights tf pr (ram s) 4 u cr3 vb"
    using inst_clears [OF assms(1-3) t(1), of "3 - t" pte] len t by fastforce
  have len1: "4 - t \<le> length fs1"
    using s1(2,3) len t by auto
  then obtain used' fs' a s' where r: "inst 4 t virt pte cr3 s1 = ret a s'" "fs1 = used' @ fs'" "length used' \<le> 4 - t"
      "ginstalled pr t 4 cr3 virt pte s1 used' fs' a s'"
    using inst_installed [OF s1(4,5) t(1) _ _ gclear_path_free [OF s1(6)] order.refl, of pte] t pte by auto
  have up: "gupdated pr 4 cr3 s1 used' fs' s' (\<lambda>va. if same_path t 4 va virt then Some (t, pte) else glookup pr (ram s1) 4 cr3 va)"
      "gfind pr (ram s') 4 t virt cr3 = (t, a)" "load64 (ram s') a = pte"
      "groot_small pr (ram s1) cr3 \<longrightarrow> groot_small pr (ram s') cr3"
    using r(4) pte(1) t unfolding ginstalled_def gmaps_def by (simp_all cong: if_cong)
  then have f: "free_list s' fs'" "s' = s1\<lparr>ram := ram s', freelist := freelist s'\<rparr>"
      "glookup pr (ram s') 4 cr3 va = (if same_path t 4 va virt then Some (t, pte) else glookup pr (ram s1) 4 cr3 va)" for va
    unfolding gupdated_def by blast+
  have "gtree pr (ram s') 4 cr3 fs'"
    using updated_tree_ok [OF _ up(1)] s1(5) r(2) by simp
  moreover have "s' = s\<lparr>ram := ram s', freelist := freelist s'\<rparr>"
    using f(2) s1(8) by (cases s, cases s1, cases s') simp
  moreover have "grights tf pr (ram s') 4 0 cr3 va =
      (if same_path t 4 va virt then grights tf pr (ram s) 4 t cr3 virt AND take_bit 3 pte else grights tf pr (ram s) 4 0 cr3 va)" for va
    using inst_rights [where va = va, OF ret_inj s1(4,5) t(1) _ len1 gclear_path_free [OF s1(6)] order.refl pte r(1)] s1(10) t by simp
  ultimately show ?thesis
    using s1(1-3,7,9) r(1-3) f(1,3) up(2-4) t by (intro exI [of _ "used @ used'"] exI [of _ fs'] exI [of _ a] exI [of _ s']) auto
qed

end

end
