(* ===== verification/X86_Tree.thy ===== *)
theory X86_Tree
  imports Radix_Split
begin

text \<open>
  The page tables of the processor as a radix tree: an entry is present when its lowest bit is set.
  \<open>install_pte\<close> meets the contract of an installation.
\<close>

abbreviation tabs :: "mem \<Rightarrow> nat \<Rightarrow> u64 \<Rightarrow> u64 list" where
  "tabs \<equiv> gtabs present"

abbreviation subtree :: "mem \<Rightarrow> nat \<Rightarrow> u64 \<Rightarrow> u64 list" where
  "subtree \<equiv> gsubtree present"

abbreviation lookup :: "mem \<Rightarrow> nat \<Rightarrow> u64 \<Rightarrow> u64 \<Rightarrow> (nat \<times> u64) option" where
  "lookup \<equiv> glookup present"

abbreviation translate :: "mem \<Rightarrow> nat \<Rightarrow> u64 \<Rightarrow> u64 \<Rightarrow> u64 option" where
  "translate \<equiv> gtranslate present"

abbreviation path_free :: "mem \<Rightarrow> nat \<Rightarrow> nat \<Rightarrow> u64 \<Rightarrow> u64 \<Rightarrow> bool" where
  "path_free \<equiv> gpath_free present"

abbreviation tree_ok :: "mem \<Rightarrow> nat \<Rightarrow> u64 \<Rightarrow> u64 list \<Rightarrow> bool" where
  "tree_ok \<equiv> gtree present"

abbreviation updated :: "nat \<Rightarrow> u64 \<Rightarrow> machine \<Rightarrow> u64 list \<Rightarrow> u64 list \<Rightarrow> machine \<Rightarrow> (u64 \<Rightarrow> (nat \<times> u64) option) \<Rightarrow> bool" where
  "updated \<equiv> gupdated present"

abbreviation installed :: "nat \<Rightarrow> nat \<Rightarrow> u64 \<Rightarrow> u64 \<Rightarrow> u64 \<Rightarrow> machine \<Rightarrow> u64 list \<Rightarrow> u64 list \<Rightarrow> u64 \<Rightarrow> machine \<Rightarrow> bool" where
  "installed \<equiv> ginstalled present"

abbreviation maps_to :: "nat \<Rightarrow> u64 \<Rightarrow> u64 \<Rightarrow> (nat \<times> u64) option" where
  "maps_to \<equiv> gmaps present"

abbreviation table_entry :: "u64 \<Rightarrow> u64" where
  "table_entry p \<equiv> p OR PT_PRESENT_MASK OR PT_WRITABLE_MASK OR PT_USER_MASK"

lemma present_iff: "present e \<longleftrightarrow> bit e 0"
  using and_exp_eq_0_iff_not_bit [of e 0] by (simp add: present_def PT_PRESENT_MASK_def)

section \<open>The search\<close>

lemma find_loop_gfind: "find_loop m l t virt pt = gfind present m l t virt pt"
proof (induction l arbitrary: pt)
  case (Suc l)
  then show ?case
    by (auto simp: PGDIR_OFFSET_def PGDIR_BITS_def PAGE_SHIFT_def huge_def Let_def PT_ADDR_MASK_eq)
qed simp

lemma find_loop_at: "find_loop m (Suc l) (Suc l) virt pt = (Suc l, entry pt (PGDIR_OFFSET virt (Suc l)))"
  unfolding find_loop_gfind by (rule find_at)

lemma find_loop_down:
  "pte_at m pt (unat (PGDIR_OFFSET virt (Suc l))) = e \<Longrightarrow> present e \<Longrightarrow> \<not> huge (Suc l) e \<Longrightarrow> t < Suc l
   \<Longrightarrow> find_loop m (Suc l) t virt pt = find_loop m l t virt (e AND PT_ADDR_MASK)"
  unfolding find_loop_gfind by (rule find_down)

section \<open>Installing an entry\<close>

definition install_from :: "nat \<Rightarrow> nat \<Rightarrow> u64 \<Rightarrow> u64 \<Rightarrow> u64 \<Rightarrow> machine \<Rightarrow> u64 \<times> machine" where
  "install_from level pte_level virt pte pt s =
     (let (pt, s) = install_walk level pte_level virt pt 0 s; a = entry pt (PGDIR_OFFSET virt pte_level)
      in (a, s\<lparr>ram := store64 (ram s) a pte\<rparr>))"

lemma install_pte_from: "install_pte cr3 pte_level virt pte 0 s = install_from PAGE_LEVEL pte_level virt pte cr3 s"
  by (simp add: install_pte_def install_from_def)

text \<open>A page of the allocator is clear already.\<close>

lemma alloc_page_clear:
  assumes "free_list s (p # fs)"
  shows "memset (ram (snd (alloc_page s))) (fst (alloc_page s)) 0 PAGE_SIZE = ram (snd (alloc_page s))"
  using alloc_page_pop [OF assms] by (auto simp: memset_apply in_page_def PAGE_SIZE_def)

interpretation x86_tree: radix present "PT_PRESENT_MASK OR PT_WRITABLE_MASK OR PT_USER_MASK"
  by unfold_locales (auto simp: present_iff bit_or_iff bit_flags)

interpretation x86_install: table_installer present "PT_PRESENT_MASK OR PT_WRITABLE_MASK OR PT_USER_MASK" install_from Pair
proof
  fix l t :: nat and virt pte pt e p :: u64 and s :: machine and fs
  let ?a = "entry pt (PGDIR_OFFSET virt (Suc l))"
  show "install_from (Suc l) (Suc l) virt pte pt s = (let a = ?a in (a, s\<lparr>ram := store64 (ram s) a pte\<rparr>))"
    unfolding install_from_def by (subst install_walk.simps) (simp add: Let_def)
  assume t: "t < Suc l"
  show "install_from (Suc l) t virt pte pt s = install_from l t virt pte (e AND PT_ADDR_MASK) s"
    if "load64 (ram s) ?a = e" "present e"
    using that t unfolding install_from_def by (subst install_walk.simps) (simp add: Let_def)
  assume n: "\<not> present (load64 (ram s) ?a)" "free_list s (p # fs)"
  obtain q s1 where q: "alloc_page s = (q, s1)"
    by (cases "alloc_page s")
  show "let s1 = new_table (PT_PRESENT_MASK OR PT_WRITABLE_MASK OR PT_USER_MASK) ?a s
      in install_from (Suc l) t virt pte pt s = install_from l t virt pte (load64 (ram s1) ?a AND PT_ADDR_MASK) s1"
    using t n(1) alloc_page_clear [OF n(2)] q unfolding install_from_def
    by (subst install_walk.simps) (simp add: Let_def new_table_def)
qed

lemmas install_from_installed = x86_install.inst_installed
lemmas zero_page_tree = x86_tree.zero_page_tree
lemmas table_entry_simps = x86_tree.table_entry_simps

end
