(* ===== verification/X86_Map.thy ===== *)
theory X86_Map
  imports X86_Tree
begin

text \<open>
  What the mapping operations of \<^verbatim>\<open>lib/x86/vm.c\<close> make of the address space: \<open>install_page\<close> and
  \<open>install_large_page\<close> map one page and leave the rest alone, and \<open>setup_mmu\<close> maps the memory one to one.
\<close>

section \<open>Page numbers\<close>

text \<open>The page number of an address for pages of level \<open>t\<close>; the upper sixteen bits take no part.\<close>

definition vpn :: "nat \<Rightarrow> u64 \<Rightarrow> u64" where
  "vpn t va = take_bit (48 - PGDIR_BITS t) (drop_bit (PGDIR_BITS t) va)"

lemma offset_eq_bits:
  "PGDIR_OFFSET va l = PGDIR_OFFSET vb l \<longleftrightarrow> (\<forall>k < 9. bit va (PGDIR_BITS l + k) = bit vb (PGDIR_BITS l + k))"
proof -
  have "unat (PGDIR_OFFSET va l) = unat (PGDIR_OFFSET vb l) \<longleftrightarrow>
      (\<forall>k. bit (unat (PGDIR_OFFSET va l)) k = bit (unat (PGDIR_OFFSET vb l)) k)"
    using bit_eqI by metis
  then show ?thesis
    unfolding offset_unat bit_offset by blast
qed

lemma same_path_vpn:
  assumes "0 < t" and "t \<le> 4"
  shows "same_path t 4 va vb \<longleftrightarrow> vpn t va = vpn t vb"
proof -
  let ?B = "PGDIR_BITS t"
  have bits: "PGDIR_BITS l = (l - 1) * 9 + 12" for l
    by (simp add: PGDIR_BITS_def PGDIR_WIDTH_def PAGE_SHIFT_def)
  have vpn: "bit (vpn t x) k \<longleftrightarrow> k < 48 - ?B \<and> bit x (?B + k)" for x k
    by (simp add: vpn_def bit_take_bit_iff bit_drop_bit_eq)
  have "same_path t 4 va vb" if eq: "vpn t va = vpn t vb"
    unfolding same_path_def offset_eq_bits
  proof (intro ballI allI impI)
    fix l k :: nat
    assume l: "l \<in> {t..4}" and k: "k < 9"
    have "(t - 1) * 9 \<le> (l - 1) * 9" "(l - 1) * 9 \<le> 27"
      using l by auto
    then have "?B + (PGDIR_BITS l + k - ?B) = PGDIR_BITS l + k" "PGDIR_BITS l + k - ?B < 48 - ?B"
      using k unfolding bits by auto
    then show "bit va (PGDIR_BITS l + k) = bit vb (PGDIR_BITS l + k)"
      using vpn [of va "PGDIR_BITS l + k - ?B"] vpn [of vb "PGDIR_BITS l + k - ?B"] eq by simp
  qed
  moreover have "vpn t va = vpn t vb" if sp: "same_path t 4 va vb"
  proof (rule bit_eqI)
    fix k :: nat
    define q where "q = t + k div 9"
    have "k = 9 * (k div 9) + k mod 9"
      by simp
    then have n: "?B + k = PGDIR_BITS q + k mod 9"
      using assms(1) unfolding bits q_def by (cases t) simp_all
    have "q \<in> {t..4}" if "k < 48 - ?B"
    proof -
      have "k div 9 * 9 < 36 - (t - 1) * 9"
        using that unfolding bits by (simp add: less_le_trans [of _ k])
      then show ?thesis
        using assms unfolding q_def by (cases t) auto
    qed
    moreover have "k mod 9 < 9"
      by simp
    ultimately show "bit (vpn t va) k = bit (vpn t vb) k"
      using sp unfolding vpn n same_path_def offset_eq_bits by blast
  qed
  ultimately show ?thesis
    by blast
qed

section \<open>Installing one page\<close>

text \<open>A frame address for a page of level \<open>t\<close>.\<close>

definition frame_ok :: "nat \<Rightarrow> u64 \<Rightarrow> bool" where
  "frame_ok t phys \<longleftrightarrow> phys AND PT_ADDR_MASK = phys \<and> aligned (PGDIR_BITS t) phys"

abbreviation large_entry :: "u64 \<Rightarrow> u64" where
  "large_entry phys \<equiv> phys OR PT_PRESENT_MASK OR PT_WRITABLE_MASK OR PT_USER_MASK OR PT_PAGE_SIZE_MASK"

lemma aligned_bit: "aligned k p \<Longrightarrow> bit p n \<Longrightarrow> k \<le> n"
  using bit_take_bit_iff [of k p n] by (auto simp: aligned_def)

lemma PGDIR_BITS_simps: "PGDIR_BITS 1 = 12" "PGDIR_BITS (Suc 0) = 12" "PGDIR_BITS 2 = 21" "PGDIR_BITS 3 = 30"
  by (simp_all add: PGDIR_BITS_def PGDIR_WIDTH_def PAGE_SHIFT_def)

lemma aligned_plus_take_bit: "aligned k p \<Longrightarrow> p + take_bit k va = p OR take_bit k va"
proof (rule disjunctive_add_eq_or, rule bit_word_eqI)
  fix n :: nat
  assume "aligned k p"
  then show "bit (p AND take_bit k va) n = bit (0 :: u64) n"
    using aligned_bit [of k p n] by (auto simp: bit_and_iff bit_take_bit_iff)
qed

lemma leaf_frame:
  assumes "frame_ok t phys" and "0 < t" and e: "\<And>n. 12 \<le> n \<Longrightarrow> n < 52 \<Longrightarrow> bit e n = bit phys n"
  shows "leaf t e va = phys + take_bit (PGDIR_BITS t) va"
proof -
  have f: "phys AND PT_ADDR_MASK = phys" "aligned (PGDIR_BITS t) phys"
    using assms(1) by (simp_all add: frame_ok_def)
  have "12 \<le> PGDIR_BITS t"
    by (simp add: PGDIR_BITS_def PAGE_SHIFT_def)
  have b: "bit phys n \<Longrightarrow> n < 52 \<and> PGDIR_BITS t \<le> n" for n
    using f(1) aligned_bit [OF f(2), of n] bit_and_iff [of phys PT_ADDR_MASK n] bit_PT_ADDR_MASK by metis
  show ?thesis
    unfolding aligned_plus_take_bit [OF f(2)]
  proof (rule bit_word_eqI)
    fix n :: nat
    show "bit (leaf t e va) n = bit (phys OR take_bit (PGDIR_BITS t) va) n"
      using b [of n] \<open>12 \<le> PGDIR_BITS t\<close> e [of n] unfolding bit_leaf [OF assms(2)] bit_or_iff bit_take_bit_iff by auto
  qed
qed

text \<open>One installation at level \<open>t\<close> of an entry that maps \<open>phys\<close>.\<close>

lemma install_maps:
  assumes fl: "free_list s fs" and tree: "tree_ok (ram s) 4 cr3 fs" and t: "t = 1 \<or> t = 2" and len: "4 - t \<le> length fs"
    and path: "path_free (ram s) 4 t cr3 virt" and phys: "frame_ok t phys"
    and e: "\<And>n. bit e n \<longleftrightarrow> bit phys n \<or> n \<in> {0, 1, 2} \<or> n = 7 \<and> t = 2"
  shows "\<exists>used fs' a s'. install_pte cr3 t virt e 0 s = (a, s') \<and> fs = used @ fs' \<and> length used \<le> 4 - t
    \<and> tree_ok (ram s') 4 cr3 fs'
    \<and> updated 4 cr3 s used fs' s' (\<lambda>va. if vpn t va = vpn t virt then Some (t, e) else lookup (ram s) 4 cr3 va)
    \<and> (\<forall>va. translate (ram s') 4 cr3 va =
        (if vpn t va = vpn t virt then Some (phys + take_bit (PGDIR_BITS t) va) else translate (ram s) 4 cr3 va))
    \<and> find_loop (ram s') 4 t virt cr3 = (t, a) \<and> load64 (ram s') a = e"
proof -
  have t': "0 < t" "t \<le> 4"
    using t by auto
  have pr: "present e" and lf: "present e \<longrightarrow> t = 1 \<or> huge t e"
    using t by (auto simp: present_iff e huge_def large_iff)
  have m: "maps_to t e va = Some (t, e)" for va
    using pr by (simp add: gmaps_def)
  obtain used fs' a s' where r: "install_from 4 t virt e cr3 s = (a, s')" "fs = used @ fs'" "length used \<le> 4 - t"
      "installed t 4 cr3 virt e s used fs' a s'"
    using install_from_installed [OF fl tree t' len path order.refl lf] by blast
  have up: "updated 4 cr3 s used fs' s' (\<lambda>va. if vpn t va = vpn t virt then Some (t, e) else lookup (ram s) 4 cr3 va)"
      "find_loop (ram s') 4 t virt cr3 = (t, a)" "load64 (ram s') a = e"
    using r(4) unfolding ginstalled_def m find_loop_gfind same_path_vpn [OF t'] by blast+
  moreover have "tree_ok (ram s') 4 cr3 fs'"
    by (rule updated_tree_ok [OF _ up(1)]) (use tree r(2) in simp)
  moreover have "leaf t e va = phys + take_bit (PGDIR_BITS t) va" for va
    by (rule leaf_frame [OF phys t'(1)]) (simp add: e)
  then have "\<forall>va. translate (ram s') 4 cr3 va =
      (if vpn t va = vpn t virt then Some (phys + take_bit (PGDIR_BITS t) va) else translate (ram s) 4 cr3 va)"
    using up(1) unfolding gupdated_def by (simp add: gtranslate_def frame_of_def)
  ultimately show ?thesis
    using r(1-3) by (simp only: install_pte_from PAGE_LEVEL_def) blast
qed

lemma small_entry_bits: "frame_ok 1 phys \<Longrightarrow> bit (table_entry phys) n \<longleftrightarrow> bit phys n \<or> n \<in> {0, 1, 2} \<or> n = 7 \<and> (1 :: nat) = 2"
  by (auto simp: bit_or_iff bit_flags)

lemma large_entry_bits: "bit (large_entry phys) n \<longleftrightarrow> bit phys n \<or> n \<in> {0, 1, 2} \<or> n = 7 \<and> (2 :: nat) = 2"
  by (auto simp: bit_or_iff bit_flags)

lemmas install_page_maps =
  install_maps [where t = 1, OF _ _ _ _ _ _ small_entry_bits, folded install_page_def]
lemmas install_large_page_maps =
  install_maps [where t = 2, OF _ _ _ _ _ _ large_entry_bits, folded install_large_page_def]

section \<open>Mapping the memory one to one\<close>

definition identity_upto :: "mem \<Rightarrow> u64 \<Rightarrow> u64 \<Rightarrow> bool" where
  "identity_upto m cr3 p \<longleftrightarrow>
     (\<forall>va. translate m 4 cr3 va = (if take_bit 48 va < p then Some (take_bit 48 va) else None))"

lemma same_block_iff:
  fixes P X S :: nat
  assumes "S dvd P" and "0 < S"
  shows "X div S = P div S \<longleftrightarrow> P \<le> X \<and> X < P + S"
proof -
  obtain k where k: "P = S * k"
    using assms(1) by blast
  show ?thesis
    using assms(2) unfolding k by (auto simp: div_nat_eqI dividend_less_times_div algebra_simps
        intro: div_nat_eqI dest: sym)
qed

lemma unat_take_bit_mod: "unat (take_bit k (p :: u64)) = unat p mod 2 ^ k"
  unfolding unsigned_take_bit_eq by (rule take_bit_eq_mod)

lemma aligned_dvd: "aligned k p \<longleftrightarrow> 2 ^ k dvd unat p"
  using unat_take_bit_mod [of k p] unat_eq_0 [of "take_bit k p"] by (simp add: aligned_def dvd_eq_mod_eq_0)

lemma unat_2_power: "k < 64 \<Longrightarrow> unat (2 ^ k :: u64) = 2 ^ k"
proof -
  assume "k < 64"
  then have "(2 :: nat) ^ k < 2 ^ 64"
    by (intro power_strict_increasing) simp_all
  then show ?thesis
    using unat_of_nat_u64 [of "2 ^ k"] by simp
qed

lemma identity_extend:
  assumes t: "0 < t" "t \<le> 3" and al: "aligned (PGDIR_BITS t) phys" and lim: "unat phys + 2 ^ PGDIR_BITS t \<le> 2 ^ 47"
  shows "(if vpn t va = vpn t phys then Some (phys + take_bit (PGDIR_BITS t) va)
      else if take_bit 48 va < phys then Some (take_bit 48 va) else None)
    = (if take_bit 48 va < phys + 2 ^ PGDIR_BITS t then Some (take_bit 48 va) else None)"
proof -
  define B where "B = PGDIR_BITS t"
  define x where "x = take_bit 48 va"
  have B: "B \<le> 30"
    using t by (simp add: B_def PGDIR_BITS_def PGDIR_WIDTH_def PAGE_SHIFT_def)
  have phys: "take_bit 48 phys = phys"
    using lim by (intro take_bit_word_small) simp
  have vpn: "vpn t y = drop_bit B (take_bit 48 y)" for y
    unfolding vpn_def B_def [symmetric] using B by (intro bit_word_eqI) (auto simp: bit_take_bit_iff bit_drop_bit_eq)
  have dd: "drop_bit B x = drop_bit B phys \<longleftrightarrow> unat x div 2 ^ B = unat phys div 2 ^ B"
    by (simp only: word_unat_eq_iff unsigned_drop_bit_eq) (simp add: drop_bit_eq_div take_bit_nat_eq_self [OF unat_less_u64, simplified])
  have blk: "vpn t va = vpn t phys \<longleftrightarrow> unat phys \<le> unat x \<and> unat x < unat phys + 2 ^ B"
    using same_block_iff [of "2 ^ B" "unat phys" "unat x"] al
    unfolding vpn phys x_def [symmetric] dd by (simp add: aligned_dvd B_def)
  have p2: "unat (2 ^ B :: u64) = 2 ^ B"
    using B by (intro unat_2_power) simp
  then have sum: "unat (phys + 2 ^ B) = unat phys + 2 ^ B"
    using lim by (simp add: unat_word_ariths B_def)
  have low: "take_bit B va = take_bit B x"
    using B by (simp add: x_def min_def)
  have "phys + take_bit B va = x" if "vpn t va = vpn t phys"
  proof -
    obtain k where k: "unat phys = 2 ^ B * k"
      using al unfolding aligned_dvd B_def by blast
    have "unat x div 2 ^ B = k"
      using that dd k unfolding vpn phys x_def [symmetric] by simp
    then have "unat phys + unat x mod 2 ^ B = unat x"
      unfolding k by (metis mult_div_mod_eq)
    then have "unat (phys + take_bit B x) = unat x"
      using unat_less_u64 [of x] by (simp only: unat_word_ariths unat_take_bit_mod) simp
    then show ?thesis
      unfolding low by (simp only: word_unat_eq_iff)
  qed
  then show ?thesis
    using blk unfolding B_def [symmetric] x_def [symmetric] word_less_nat_alt sum by auto
qed

lemma frame_ok_small:
  assumes "aligned (PGDIR_BITS t) phys" and "0 < t" and "unat phys < 2 ^ 52"
  shows "frame_ok t phys"
proof -
  have "12 \<le> PGDIR_BITS t"
    by (simp add: PGDIR_BITS_def PAGE_SHIFT_def)
  moreover have "take_bit 52 phys = phys"
    using assms(3) by (rule take_bit_word_small)
  ultimately have "bit phys n \<Longrightarrow> 12 \<le> n \<and> n < 52" for n
    using aligned_bit [OF assms(1), of n] bit_take_bit_iff [of 52 phys n] by auto
  then have "phys AND PT_ADDR_MASK = phys"
    by (intro bit_word_eqI) (auto simp: bit_and_iff bit_PT_ADDR_MASK)
  then show ?thesis
    using assms(1) by (simp add: frame_ok_def)
qed

lemma run_table_pages:
  assumes "page_aligned p" and "p \<noteq> 0" and "unat p + n * 4096 \<le> 2 ^ 52"
  shows "\<forall>q \<in> set (run p n). table_page q"
proof
  fix q
  assume "q \<in> set (run p n)"
  then obtain i where i: "i < n" "q = p + of_nat i * PAGE_SIZE"
    by (auto simp: run_def)
  then have u: "unat q = unat p + i * 4096"
    using unat_run_page [of i n p] assms(3) by simp
  have "page_aligned q"
    using page_aligned_add [OF assms(1)] i by simp
  moreover have "unat q < 2 ^ 52"
    using u i(1) assms(3) by simp
  moreover have "q \<noteq> 0"
    using u assms(2) by (auto simp: unat_eq_0)
  ultimately show "table_page q"
    using frame_ok_small [of 1 q] by (simp add: table_page_def frame_ok_def PGDIR_BITS_simps)
qed

text \<open>The memory below \<open>p\<close> is mapped one to one, and \<open>fs\<close> are the pages left.\<close>

definition mapped_upto :: "u64 \<Rightarrow> u64 \<Rightarrow> u64 list \<Rightarrow> machine \<Rightarrow> bool" where
  "mapped_upto cr3 p fs s \<longleftrightarrow> free_list s fs \<and> tree_ok (ram s) 4 cr3 fs \<and> identity_upto (ram s) cr3 p"

lemma map_step:
  assumes inv: "mapped_upto cr3 phys fs s" and t: "t = 1 \<or> t = 2" and len: "4 - t \<le> length fs"
    and al: "aligned (PGDIR_BITS t) phys" and lim: "unat phys + 2 ^ PGDIR_BITS t \<le> 2 ^ 47"
  defines "r \<equiv> (if t = 1 then install_page cr3 phys phys s else install_large_page cr3 phys phys s)"
  shows "\<exists>fs'. mapped_upto cr3 (phys + 2 ^ PGDIR_BITS t) fs' (snd r) \<and> length fs \<le> 4 - t + length fs'
    \<and> snd r = s\<lparr>ram := ram (snd r), freelist := freelist (snd r)\<rparr>"
proof -
  have i: "free_list s fs" "tree_ok (ram s) 4 cr3 fs" "identity_upto (ram s) cr3 phys"
    using inv by (simp_all add: mapped_upto_def)
  have "take_bit 48 phys = phys"
    using lim by (intro take_bit_word_small) simp
  then have "translate (ram s) 4 cr3 phys = None"
    using i(3) by (simp add: identity_upto_def)
  then have path: "path_free (ram s) 4 t cr3 phys"
    by (intro unmapped_path_free) simp
  have frame: "frame_ok t phys"
    using al t lim by (intro frame_ok_small) auto
  obtain used fs' s' T where r: "snd r = s'" "fs = used @ fs'" "length used \<le> 4 - t" "tree_ok (ram s') 4 cr3 fs'"
      "updated 4 cr3 s used fs' s' T" "\<forall>va. translate (ram s') 4 cr3 va =
        (if vpn t va = vpn t phys then Some (phys + take_bit (PGDIR_BITS t) va) else translate (ram s) 4 cr3 va)"
  proof (cases "t = 1")
    case True
    then show ?thesis
      using that install_page_maps [OF i(1,2) _ _ path [unfolded True] frame [unfolded True] frame [unfolded True]] len
      unfolding r_def True by auto
  next
    case False
    then have t2: "t = 2"
      using t by simp
    then show ?thesis
      using that install_large_page_maps [OF i(1,2) _ _ path [unfolded t2] frame [unfolded t2]] len
      unfolding r_def t2 by auto
  qed
  have "identity_upto (ram s') cr3 (phys + 2 ^ PGDIR_BITS t)"
    unfolding identity_upto_def
  proof
    fix va
    have "translate (ram s') 4 cr3 va = (if vpn t va = vpn t phys then Some (phys + take_bit (PGDIR_BITS t) va)
        else translate (ram s) 4 cr3 va)"
      using r(6) by blast
    also have "translate (ram s) 4 cr3 va = (if take_bit 48 va < phys then Some (take_bit 48 va) else None)"
      using i(3) unfolding identity_upto_def by blast
    finally show "translate (ram s') 4 cr3 va =
        (if take_bit 48 va < phys + 2 ^ PGDIR_BITS t then Some (take_bit 48 va) else None)"
      using t by (subst identity_extend [OF _ _ al lim, symmetric]) auto
  qed
  then have "mapped_upto cr3 (phys + 2 ^ PGDIR_BITS t) fs' s'"
    using r(4,5) unfolding mapped_upto_def gupdated_def by blast
  moreover have "s' = s\<lparr>ram := ram s', freelist := freelist s'\<rparr>"
    using r(5) unfolding gupdated_def by blast
  ultimately show ?thesis
    unfolding r(1) using r(2,3) by (intro exI [of _ fs'] conjI) (assumption | simp)+
qed

lemma page_sizes: "LARGE_PAGE_SIZE = 2 ^ PGDIR_BITS 2" "PAGE_SIZE = 2 ^ PGDIR_BITS 1"
  by (simp_all add: LARGE_PAGE_SIZE_def PAGE_SIZE_def PGDIR_BITS_simps)

lemma unat_next_block:
  fixes phys :: u64
  assumes "k \<le> 30" and "unat phys + 2 ^ k \<le> 2 ^ 47"
  shows "unat (phys + 2 ^ k) = unat phys + 2 ^ k"
  using assms unat_2_power [of k] by (simp add: unat_word_ariths)

lemma aligned_next_block: "aligned k p \<Longrightarrow> aligned k (p + 2 ^ k)"
  using take_bit_word_add [of k p "2 ^ k"] take_bit_push_bit [of k k "1 :: u64"] by (simp add: aligned_def)

lemma loop_guard:
  fixes phys mx :: u64
  assumes "k \<le> 30" and "unat phys \<le> unat mx" and "unat mx \<le> 2 ^ 47"
  shows "phys + 2 ^ k \<le> mx \<longleftrightarrow> 0 < (unat mx - unat phys) div 2 ^ k"
proof -
  have "(2 :: nat) ^ k \<le> 2 ^ 30"
    using assms(1) by (intro power_increasing) simp_all
  then have "unat (phys + 2 ^ k) = unat phys + 2 ^ k"
    using assms unat_2_power [of k] by (simp add: unat_word_ariths)
  then show ?thesis
    using assms(2) by (auto simp: word_le_nat_alt div_greater_zero_iff)
qed

lemma setup_large_loop_maps:
  assumes "mapped_upto cr3 phys fs s" and "aligned 21 phys" and "unat mx \<le> 2 ^ 47" and "unat phys \<le> unat mx"
    and "n = (unat mx - unat phys) div 2 ^ 21" and "2 * n \<le> length fs"
  shows "\<exists>phys' s' fs'. setup_large_loop cr3 phys mx s = Some (phys', s') \<and> mapped_upto cr3 phys' fs' s'
    \<and> unat phys' = unat phys + n * 2 ^ 21 \<and> aligned 21 phys' \<and> length fs \<le> 2 * n + length fs'
    \<and> s' = s\<lparr>ram := ram s', freelist := freelist s'\<rparr>"
  using assms
proof (induction n arbitrary: phys fs s)
  case 0
  then have "\<not> phys + LARGE_PAGE_SIZE \<le> mx"
    unfolding page_sizes PGDIR_BITS_simps using loop_guard [of 21 phys mx] by simp
  then have "setup_large_loop cr3 phys mx s = Some (phys, s)"
    by (simp add: setup_large_loop.simps)
  then show ?case
    using 0 by auto
next
  case (Suc n)
  have g: "phys + LARGE_PAGE_SIZE \<le> mx"
    unfolding page_sizes PGDIR_BITS_simps using Suc.prems loop_guard [of 21 phys mx] by simp
  have sz: "unat phys + 2 ^ 21 \<le> unat mx"
    using Suc.prems(4,5) div_greater_zero_iff [of "unat mx - unat phys"] by fastforce
  have u: "unat (phys + 2 ^ 21) = unat phys + 2 ^ 21"
    using sz Suc.prems(3) by (intro unat_next_block) simp_all
  let ?s1 = "snd (install_large_page cr3 phys phys s)"
  obtain fs1 where fs1: "mapped_upto cr3 (phys + 2 ^ 21) fs1 ?s1" "length fs \<le> 2 + length fs1"
      "?s1 = s\<lparr>ram := ram ?s1, freelist := freelist ?s1\<rparr>"
    using map_step [OF Suc.prems(1), of 2] Suc.prems(2,3,6) sz by (auto simp: PGDIR_BITS_simps)
  have n: "n = (unat mx - unat (phys + 2 ^ 21)) div 2 ^ 21"
    using Suc.prems(5) sz le_div_geq [of "2 ^ 21" "unat mx - unat phys"] unfolding u by simp
  obtain phys' s' fs' where r: "setup_large_loop cr3 (phys + 2 ^ 21) mx ?s1 = Some (phys', s')" "mapped_upto cr3 phys' fs' s'"
      "unat phys' = unat (phys + 2 ^ 21) + n * 2 ^ 21" "aligned 21 phys'" "length fs1 \<le> 2 * n + length fs'"
      "s' = ?s1\<lparr>ram := ram s', freelist := freelist s'\<rparr>"
    using Suc.IH [OF fs1(1) aligned_next_block [OF Suc.prems(2)] Suc.prems(3) _ n] sz fs1(2) Suc.prems(6)
    unfolding u by auto
  have "setup_large_loop cr3 phys mx s = Some (phys', s')"
    using g r(1) unfolding page_sizes PGDIR_BITS_simps by (subst setup_large_loop.simps) (simp add: page_sizes PGDIR_BITS_simps)
  moreover have "s' = s\<lparr>ram := ram s', freelist := freelist s'\<rparr>"
    using r(6) fs1(3) by (cases s, cases ?s1, cases s') simp
  ultimately show ?case
    using r(2-5) fs1(2) u by (intro exI [of _ phys'] exI [of _ s'] exI [of _ fs']) simp
qed

lemma install_pages_loop_maps:
  assumes "mapped_upto cr3 phys fs s" and "aligned 12 phys" and "unat mx \<le> 2 ^ 47" and "unat phys \<le> unat mx"
    and "n = (unat mx - unat phys) div 2 ^ 12" and "3 * n \<le> length fs"
  shows "\<exists>s' fs'. install_pages_loop cr3 phys mx phys s = Some s' \<and> mapped_upto cr3 (phys + of_nat (n * 2 ^ 12)) fs' s'
    \<and> length fs \<le> 3 * n + length fs' \<and> s' = s\<lparr>ram := ram s', freelist := freelist s'\<rparr>"
  using assms
proof (induction n arbitrary: phys fs s)
  case 0
  then have "\<not> phys + PAGE_SIZE \<le> mx"
    unfolding page_sizes PGDIR_BITS_simps using loop_guard [of 12 phys mx] by simp
  then have "install_pages_loop cr3 phys mx phys s = Some s"
    by (simp add: install_pages_loop.simps)
  then show ?case
    using 0 by auto
next
  case (Suc n)
  have g: "phys + PAGE_SIZE \<le> mx"
    unfolding page_sizes PGDIR_BITS_simps using Suc.prems loop_guard [of 12 phys mx] by simp
  have sz: "unat phys + 2 ^ 12 \<le> unat mx"
    using Suc.prems(4,5) div_greater_zero_iff [of "unat mx - unat phys"] by fastforce
  have u: "unat (phys + 2 ^ 12) = unat phys + 2 ^ 12"
    using sz Suc.prems(3) by (intro unat_next_block) simp_all
  let ?s1 = "snd (install_page cr3 phys phys s)"
  obtain fs1 where fs1: "mapped_upto cr3 (phys + 2 ^ 12) fs1 ?s1" "length fs \<le> 3 + length fs1"
      "?s1 = s\<lparr>ram := ram ?s1, freelist := freelist ?s1\<rparr>"
    using map_step [OF Suc.prems(1), of 1] Suc.prems(2,3,6) sz by (auto simp: PGDIR_BITS_simps)
  have n: "n = (unat mx - unat (phys + 2 ^ 12)) div 2 ^ 12"
    using Suc.prems(5) sz le_div_geq [of "2 ^ 12" "unat mx - unat phys"] unfolding u by simp
  obtain s' fs' where r: "install_pages_loop cr3 (phys + 2 ^ 12) mx (phys + 2 ^ 12) ?s1 = Some s'"
      "mapped_upto cr3 (phys + 2 ^ 12 + of_nat (n * 2 ^ 12)) fs' s'" "length fs1 \<le> 3 * n + length fs'"
      "s' = ?s1\<lparr>ram := ram s', freelist := freelist s'\<rparr>"
    using Suc.IH [OF fs1(1) aligned_next_block [OF Suc.prems(2)] Suc.prems(3) _ n] sz fs1(2) Suc.prems(6)
    unfolding u by auto
  have "install_pages_loop cr3 phys mx phys s = Some s'"
    using g r(1) by (subst install_pages_loop.simps) (simp add: page_sizes PGDIR_BITS_simps)
  moreover have "s' = s\<lparr>ram := ram s', freelist := freelist s'\<rparr>"
    using r(4) fs1(3) by (cases s, cases ?s1, cases s') simp
  moreover have "phys + 2 ^ 12 + of_nat (n * 2 ^ 12) = phys + of_nat (Suc n * 2 ^ 12)"
    by simp
  ultimately show ?case
    using r(2,3) fs1(2) by (intro exI [of _ s'] exI [of _ fs']) (simp add: add.assoc)
qed

lemma aligned_diff: "aligned k a \<Longrightarrow> aligned k b \<Longrightarrow> b \<le> a \<Longrightarrow> aligned k (a - b)"
  unfolding aligned_dvd word_le_nat_alt by (simp add: unat_sub word_le_nat_alt)

lemma setup_mmu_range_maps:
  assumes inv: "mapped_upto cr3 0 fs s" and al: "aligned 12 len" and lim: "unat len \<le> 2 ^ 47"
    and pages: "2 * (unat len div 2 ^ 21) + 3 * 511 \<le> length fs"
  shows "\<exists>s' fs'. setup_mmu_range cr3 0 len s = Ret s' \<and> mapped_upto cr3 len fs' s'
    \<and> s' = s\<lparr>ram := ram s', freelist := freelist s'\<rparr>"
proof -
  define n where "n = unat len div 2 ^ 21"
  have n: "n = (unat len - unat (0 :: u64)) div 2 ^ 21"
    by (simp add: n_def)
  obtain phys s1 fs1 where l: "setup_large_loop cr3 0 len s = Some (phys, s1)" "mapped_upto cr3 phys fs1 s1"
      "unat phys = n * 2 ^ 21" "aligned 21 phys" "length fs \<le> 2 * n + length fs1"
      "s1 = s\<lparr>ram := ram s1, freelist := freelist s1\<rparr>"
    using setup_large_loop_maps [OF inv _ lim _ n] pages by (auto simp: n_def aligned_def)
  have le: "unat phys \<le> unat len"
    unfolding l(3) n_def by (rule div_times_less_eq_dividend)
  have al12: "aligned 12 phys"
    using l(4) by (rule aligned_weaken) simp
  define k where "k = (unat len - unat phys) div 2 ^ 12"
  have "unat len - unat phys = unat len mod 2 ^ 21"
    unfolding l(3) n_def by (simp add: minus_div_mult_eq_mod)
  then have "unat len - unat phys < 2 ^ 21"
    by simp
  then have k: "k \<le> 511"
    unfolding k_def by (simp add: div_le_mono less_mult_imp_div_less less_Suc_eq_le [symmetric])
  have "3 * k \<le> length fs1"
    using k pages l(5) unfolding n_def by simp
  then obtain s' fs' where r: "install_pages_loop cr3 phys len phys s1 = Some s'"
      "mapped_upto cr3 (phys + of_nat (k * 2 ^ 12)) fs' s'" "s' = s1\<lparr>ram := ram s', freelist := freelist s'\<rparr>"
    using install_pages_loop_maps [OF l(2) al12 lim le k_def] by auto
  have "aligned 12 (len - phys)"
    using al al12 le by (intro aligned_diff) (simp_all add: word_le_nat_alt)
  then have d: "2 ^ 12 dvd unat len - unat phys"
    using le unfolding aligned_dvd by (simp add: unat_sub word_le_nat_alt)
  then have "k * 2 ^ 12 = unat (len - phys)"
    using le unfolding k_def by (simp add: unat_sub word_le_nat_alt)
  then have "phys + of_nat (k * 2 ^ 12) = len"
    by simp
  moreover have "install_pages cr3 phys (len - phys) phys s1 = Ret s'"
    using r(1) al12 \<open>aligned 12 (len - phys)\<close> by (simp add: install_pages_def mod_PAGE_SIZE)
  moreover have "s' = s\<lparr>ram := ram s', freelist := freelist s'\<rparr>"
    using r(3) l(6) by (cases s, cases s1, cases s') simp
  ultimately show ?thesis
    using l(1) r(2) by (auto simp: setup_mmu_range_def)
qed

text \<open>An empty table and eight free pages, for examples.\<close>

lemma empty_root_page:
  "\<exists>s. free_list s (run 0x2000 8) \<and> (\<forall>x. in_page x 0x1000 \<longrightarrow> ram s x = 0)
     \<and> (\<forall>p \<in> set (0x1000 # run 0x2000 8). table_page p) \<and> distinct (0x1000 # run 0x2000 8)"
proof -
  obtain s0 where s0: "free_list s0 (run 0x2000 8)" "\<forall>a. \<not> unat (a - 0x2000) < 8 * 4096 \<longrightarrow> ram s0 a = 0"
    using run_machine [of "0x2000" 8] by (auto simp: aligned_def)
  have zero: "ram s0 x = 0" if x: "in_page x 0x1000" for x
  proof -
    define i where "i = unat (x - 0x1000)"
    have i: "i < 4096" "x = 0x1000 + of_nat i"
      using x unfolding in_page_def i_def by simp_all
    have "unat (0x1000 - of_nat i :: u64) = 0x1000 - i"
      using i(1) by (simp add: unat_sub word_le_nat_alt)
    moreover have "x - 0x2000 = - (0x1000 - of_nat i)"
      using i(2) by simp
    moreover have "unat (- (0x1000 - of_nat i) :: u64) + unat (0x1000 - of_nat i :: u64) = 2 ^ 64"
      using i(1) calculation(1) by (intro unat_uminus) auto
    ultimately have "\<not> unat (x - 0x2000) < 8 * 4096"
      by simp
    then show ?thesis
      using s0(2) by blast
  qed
  have tp: "\<forall>p \<in> set (run 0x2000 8). table_page p"
    by (rule run_table_pages) (simp_all add: aligned_def)
  have "0x1000 \<notin> set (run 0x2000 8)"
  proof
    assume "0x1000 \<in> set (run 0x2000 8)"
    then obtain i where i: "i < 8" and eq: "0x1000 = 0x2000 + of_nat i * PAGE_SIZE"
      unfolding run_def by (auto simp only: set_map set_upt image_iff atLeastLessThan_iff)
    have "unat (0x2000 + of_nat i * PAGE_SIZE :: u64) = unat (0x2000 :: u64) + i * 4096"
      by (rule unat_run_page [OF i]) simp
    then show False
      unfolding eq [symmetric]
      by simp
  qed
  moreover have "table_page 0x1000"
    by (simp add: table_page_def PT_ADDR_MASK_eq)
  moreover have "distinct (run 0x2000 8)"
    using s0(1) by (simp add: free_list_def pages_ok_def)
  ultimately show ?thesis
    using tp zero s0(1) by (intro exI [of _ s0]) simp
qed

lemma empty_root_machine:
  "\<exists>s. free_list s (run 0x2000 8) \<and> tree_ok (ram s) 4 0x1000 (run 0x2000 8) \<and> (\<forall>va. translate (ram s) 4 0x1000 va = None)"
proof -
  obtain s where s: "free_list s (run 0x2000 8)" "\<And>x. in_page x 0x1000 \<Longrightarrow> ram s x = 0"
      "\<forall>p \<in> set (0x1000 # run 0x2000 8). table_page p" "distinct (0x1000 # run 0x2000 8)"
    using empty_root_page by blast
  note z = zero_page_tree [of "0x1000" "ram s" 3, OF s(2), simplified]
  have "tree_ok (ram s) 4 0x1000 (run 0x2000 8)"
    using s(3,4) z(1) by (simp add: gtree_def)
  then show ?thesis
    using s(1) z(2) by (intro exI [of _ s]) simp
qed

text \<open>
  C7: Mapping one page. With three free pages for missing tables and no large page in the way,
  \<open>install_page\<close> maps the 4K page of the address to the frame, leaves the translation of every other
  page alone, keeps the tables well formed, and returns the entry that the search finds.
\<close>

theorem install_page_maps_one_page:
  assumes "free_list s fs" and "tree_ok (ram s) 4 cr3 fs" and "3 \<le> length fs" and "path_free (ram s) 4 1 cr3 virt"
    and "phys AND PT_ADDR_MASK = phys"
  shows "\<exists>a s' fs'. install_page cr3 phys virt s = (a, s') \<and> free_list s' fs' \<and> tree_ok (ram s') 4 cr3 fs'
    \<and> (\<forall>va. translate (ram s') 4 cr3 va =
        (if vpn 1 va = vpn 1 virt then Some (phys + take_bit 12 va) else translate (ram s) 4 cr3 va))
    \<and> find_pte_level cr3 virt 1 s' = Ret (1, a)"
proof -
  have "take_bit 12 PT_ADDR_MASK = 0"
    by (rule bit_word_eqI) (auto simp: bit_take_bit_iff bit_PT_ADDR_MASK)
  then have fo: "frame_ok 1 phys"
    using assms(5) take_bit_and [of 12 phys PT_ADDR_MASK] by (simp add: frame_ok_def aligned_def PGDIR_BITS_simps)
  obtain used fs' a s' T where r: "install_page cr3 phys virt s = (a, s')" "tree_ok (ram s') 4 cr3 fs'"
      "updated 4 cr3 s used fs' s' T" "\<forall>va. translate (ram s') 4 cr3 va =
        (if vpn 1 va = vpn 1 virt then Some (phys + take_bit (PGDIR_BITS 1) va) else translate (ram s) 4 cr3 va)"
      "find_loop (ram s') 4 1 virt cr3 = (1, a)"
    using install_page_maps [OF assms(1,2) _ _ assms(4) fo fo] assms(3) by auto
  then show ?thesis
    unfolding gupdated_def PGDIR_BITS_simps find_pte_level_def PAGE_LEVEL_def
    by (intro exI [of _ a] exI [of _ s'] exI [of _ fs']) simp
qed

theorem install_page_maps_one_page_witness:
  "\<exists>s a s'. install_page 0x1000 0x7000 0xfffffa000123 s = (a, s') \<and> translate (ram s) 4 0x1000 0xfffffa000456 = None
    \<and> translate (ram s') 4 0x1000 0xfffffa000456 = Some 0x7456 \<and> translate (ram s') 4 0x1000 0xfffffb000456 = None"
proof -
  obtain s where s: "free_list s (run 0x2000 8)" "tree_ok (ram s) 4 0x1000 (run 0x2000 8)"
      "\<forall>va. translate (ram s) 4 0x1000 va = None"
    using empty_root_machine by blast
  have "path_free (ram s) 4 1 0x1000 0xfffffa000123"
    using s(3) by (intro unmapped_path_free) simp
  then obtain a s' where "install_page 0x1000 0x7000 0xfffffa000123 s = (a, s')"
      "\<forall>va. translate (ram s') 4 0x1000 va =
        (if vpn 1 va = vpn 1 0xfffffa000123 then Some (0x7000 + take_bit 12 va) else translate (ram s) 4 0x1000 va)"
    using install_page_maps_one_page [OF s(1,2), of "0xfffffa000123" "0x7000"] by (auto simp: PT_ADDR_MASK_eq)
  then show ?thesis
    using s(3) by (intro exI [of _ s] exI [of _ a] exI [of _ s']) (simp add: vpn_def PGDIR_BITS_simps drop_bit_eq_div)
qed

text \<open>
  C8: The initial page tables. With enough free pages, \<open>setup_mmu\<close> returns the first free page as the
  root of tables that map every address below the end of memory, and at least the first four
  gigabytes, to itself, and nothing else; the tables and the pages still free are all different.
\<close>

theorem setup_mmu_identity:
  assumes fl: "free_list s (r # fs)" and pages: "\<forall>p \<in> set (r # fs). table_page p"
    and al: "aligned 12 end_of_memory" and lim: "unat end_of_memory \<le> 2 ^ 47"
    and E: "E = max end_of_memory (2 ^ 32)" and len: "2 * (unat E div 2 ^ 21) + 3 * 511 \<le> length fs"
  shows "\<exists>s' fs'. setup_mmu cr0 cr4 end_of_memory s = Ret (r, s') \<and> free_list s' fs' \<and> tree_ok (ram s') 4 r fs'
    \<and> (\<forall>va. translate (ram s') 4 r va = (if take_bit 48 va < E then Some (take_bit 48 va) else None))"
proof -
  obtain s0 where s0: "alloc_page s = (r, s0)"
    using alloc_page_pop(1) [OF fl] by (cases "alloc_page s") simp
  note pop = alloc_page_pop [OF fl, unfolded s0 snd_conv]
  have ms: "memset (ram s0) r 0 PAGE_SIZE = ram s0"
    using pop(3) by (auto simp: memset_apply in_page_def PAGE_SIZE_def)
  note z = zero_page_tree [of r "ram s0" 3, OF pop(3), simplified]
  have "distinct (r # fs)"
    using fl by (simp add: free_list_def pages_ok_def)
  then have "tree_ok (ram s0) 4 r fs"
    using z(1) pages by (simp add: gtree_def)
  then have inv: "mapped_upto r 0 fs s0"
    using pop(2) z(2) by (simp add: mapped_upto_def identity_upto_def)
  have E': "(if end_of_memory < push_bit 32 1 then push_bit 32 1 else end_of_memory) = E"
    by (auto simp: E max_def push_bit_eq_mult)
  have "aligned 12 E" "unat E \<le> 2 ^ 47"
    using al lim by (auto simp: E max_def aligned_def)
  then obtain s1 fs1 where s1: "setup_mmu_range r 0 E s0 = Ret s1" "mapped_upto r E fs1 s1"
    using setup_mmu_range_maps [OF inv _ _ len] by blast
  obtain t1 t2 t3 t4 where
      p: "\<And>s. kprintf (''paging enabled'' @ [CHR 0x0A]) [] s = Ret (s\<lparr>con := con s @ t1\<rparr>)"
         "\<And>s. kprintf (''cr0 = %lx'' @ [CHR 0x0A]) [VInt cr0] s = Ret (s\<lparr>con := con s @ t2\<rparr>)"
         "\<And>s. kprintf (''cr3 = %lx'' @ [CHR 0x0A]) [VInt r] s = Ret (s\<lparr>con := con s @ t3\<rparr>)"
         "\<And>s. kprintf (''cr4 = %lx'' @ [CHR 0x0A]) [VInt cr4] s = Ret (s\<lparr>con := con s @ t4\<rparr>)"
    using printable_kprintf_text [of "''paging enabled'' @ [CHR 0x0A]" "[]"]
      printable_kprintf_text [of "''cr0 = %lx'' @ [CHR 0x0A]" "[VInt cr0]"]
      printable_kprintf_text [of "''cr3 = %lx'' @ [CHR 0x0A]" "[VInt r]"]
      printable_kprintf_text [of "''cr4 = %lx'' @ [CHR 0x0A]" "[VInt cr4]"]
    by (auto simp: parse_simps)
  let ?s' = "s1\<lparr>con := con s1 @ t1 @ t2 @ t3 @ t4\<rparr>"
  have "setup_mmu cr0 cr4 end_of_memory s = Ret (r, ?s')"
    unfolding setup_mmu_def s0 Let_def split E' by (simp add: ms s1(1) p del: append.simps)
  moreover have "mapped_upto r E fs1 ?s'"
    using s1(2) by (simp add: mapped_upto_def free_list_def)
  ultimately show ?thesis
    unfolding mapped_upto_def identity_upto_def by blast
qed

theorem setup_mmu_identity_witness:
  "\<exists>s s'. free_list s (run 0x100000 6000) \<and> setup_mmu 0 0 0x8000000 s = Ret (0x100000, s')
    \<and> translate (ram s') 4 0x100000 0xfee00020 = Some 0xfee00020"
proof -
  obtain s where s: "free_list s (run 0x100000 6000)"
    using run_machine [of "0x100000" 6000] by (auto simp: aligned_def)
  have r: "run 0x100000 6000 = 0x100000 # run (0x100000 + PAGE_SIZE) 5999"
    using run_simps(2) [of "0x100000" 5999] by (simp del: run_simps)
  have "\<forall>p \<in> set (run 0x100000 6000). table_page p"
    by (rule run_table_pages) (simp_all add: aligned_def)
  then have "\<exists>s' fs'. setup_mmu 0 0 0x8000000 s = Ret (0x100000, s') \<and> free_list s' fs' \<and> tree_ok (ram s') 4 0x100000 fs'
    \<and> (\<forall>va. translate (ram s') 4 0x100000 va = (if take_bit 48 va < 0x100000000 then Some (take_bit 48 va) else None))"
    using s unfolding r by (intro setup_mmu_identity) (auto simp: aligned_def)
  then obtain s' where "setup_mmu 0 0 0x8000000 s = Ret (0x100000, s')"
      "\<forall>va. translate (ram s') 4 0x100000 va = (if take_bit 48 va < 0x100000000 then Some (take_bit 48 va) else None)"
    by blast
  then show ?thesis
    using s by (intro exI [of _ s] exI [of _ s']) simp
qed

end
