(* ===== verification/X86_Split.thy ===== *)
theory X86_Split
  imports X86_Map
begin

text \<open>
  Splitting large pages, \<open>split_large_page\<close> and \<open>force_4k_page\<close> of \<^verbatim>\<open>lib/x86/vm.c\<close>: the table of smaller
  entries that replaces a large page translates every address as the large page did.
\<close>

abbreviation table_at :: "mem \<Rightarrow> nat \<Rightarrow> nat \<Rightarrow> u64 \<Rightarrow> u64 \<Rightarrow> u64 option" where
  "table_at \<equiv> gtable_at present"

section \<open>Splitting one page\<close>

lemma split_large_page_result:
  assumes fl: "free_list s (p # fs)" and "p \<noteq> 0" and "load64 (ram s) a = e" and "present e" and "large e" and "t = 2 \<or> t = 3"
  shows "split_large_page a t s = Ret (split_result t p e a (snd (alloc_page s)))"
  using assms alloc_page_pop(1) [OF fl]
  by (cases "alloc_page s") (auto simp: split_large_page_def split_result_def Let_def PGDIR_WIDTH_def)

lemma split_large_page_updated:
  assumes fl: "free_list s (p # fs)" and tree: "tree_ok (ram s) t q (p # fs)" and t: "t = 2 \<or> t = 3" and i: "i < 512"
    and e: "pte_at (ram s) q i = e" "present e" "large e" "frame_aligned t e"
  shows "\<exists>s' e'. split_large_page (entry q (of_nat i)) t s = Ret s'
    \<and> (\<exists>T. updated t q s [p] fs s' T \<and> (\<forall>va. access (T va) va = access (lookup (ram s) t q va) va))
    \<and> pte_at (ram s') q i = e' \<and> present e' \<and> \<not> huge t e' \<and> e' AND PT_ADDR_MASK = p
    \<and> (\<forall>j < 512. pte_at (ram s') p j = small_entry t e j)"
proof -
  have "p \<noteq> 0"
    using tree by (simp add: gtree_def table_page_def)
  then show ?thesis
    using x86_tree.split_result_updated [OF fl tree t i e] split_large_page_result [OF fl _ e(1-3) t] by auto
qed

lemma find_loop_table_at:
  "1 \<le> t \<Longrightarrow> t \<le> lvl \<Longrightarrow> (case table_at m lvl t va pt of
     Some q \<Rightarrow> find_loop m lvl t va pt = (t, entry q (PGDIR_OFFSET va t)) | None \<Rightarrow> fst (find_loop m lvl t va pt) \<noteq> t)"
proof (induction lvl arbitrary: pt)
  case 0
  then show ?case by simp
next
  case (Suc l)
  show ?case
  proof (cases "t = Suc l")
    case True
    then show ?thesis
      using find_loop_at [of m l va pt] by (simp del: find_loop.simps)
  next
    case False
    let ?e = "pte_at m pt (unat (PGDIR_OFFSET va (Suc l)))"
    have t: "t \<le> l" "t < Suc l"
      using False Suc.prems by simp_all
    show ?thesis
    proof (cases "present ?e \<and> \<not> huge (Suc l) ?e")
      case True
      then show ?thesis
        using Suc.IH [OF Suc.prems(1) t(1), of "?e AND PT_ADDR_MASK"] find_loop_down [OF refl _ _ t(2), of m pt va] False
        by (auto simp del: find_loop.simps split: option.splits)
    next
      case out: False
      then have "fst (find_loop m (Suc l) t va pt) = Suc l"
        by (auto simp: PGDIR_OFFSET_def PGDIR_BITS_def PAGE_SHIFT_def huge_def Let_def)
      then show ?thesis
        using out False by (auto simp del: find_loop.simps)
    qed
  qed
qed

section \<open>Forcing a 4K page\<close>

lemma get_pte_level_table_at:
  assumes "1 \<le> t" and "t \<le> 4" and "table_at (ram s) 4 t va cr3 = Some q"
  shows "get_pte_level cr3 va t s = Ret (entry q (PGDIR_OFFSET va t))"
  using find_loop_table_at [OF assms(1,2), of "ram s" va cr3] assms
  by (simp add: get_pte_level_def find_pte_level_def PAGE_LEVEL_def)

lemma force_level_forces:
  assumes fl: "free_list s fs" and tree: "tree_ok (ram s) 4 cr3 fs" and t: "t = 2 \<or> t = 3"
    and q: "table_at (ram s) 4 t addr cr3 = Some q" and map: "translate (ram s) 4 cr3 addr = Some pa"
    and e: "e = pte_at (ram s) q (unat (PGDIR_OFFSET addr t))" "large e \<longrightarrow> frame_aligned t e \<and> fs \<noteq> []"
  shows "\<exists>s' fs' q'. force_level cr3 addr t s = Ret s' \<and> free_list s' fs' \<and> tree_ok (ram s') 4 cr3 fs'
    \<and> length fs \<le> Suc (length fs') \<and> (\<forall>va. translate (ram s') 4 cr3 va = translate (ram s) 4 cr3 va)
    \<and> table_at (ram s') 4 (t - 1) addr cr3 = Some q'
    \<and> (if large e then t = 3 \<longrightarrow> frame_aligned 2 (pte_at (ram s') q' (unat (PGDIR_OFFSET addr 2))) else s' = s)"
proof -
  let ?i = "unat (PGDIR_OFFSET addr t)"
  obtain k where k: "t = Suc k" "0 < k"
    using t by (cases t) auto
  have pr: "present e"
    unfolding e(1) by (rule table_at_mapped(2) [OF map q]) (use k in simp)
  have get: "get_pte_level cr3 addr t s = Ret (entry q (PGDIR_OFFSET addr t))"
    using t by (intro get_pte_level_table_at q) auto
  have root: "table_page q"
    using tree_ok_table_at [OF q tree] k root_in_tabs [of q present "ram s" k] unfolding gtree_def by simp
  have nz: "entry q (PGDIR_OFFSET addr t) \<noteq> 0"
    using table_entry_nonzero [OF root] .
  show ?thesis
  proof (cases "large e")
    case False
    then have "force_level cr3 addr t s = Ret s"
      using get nz pr unfolding e(1) by (simp add: force_level_def)
    moreover have "table_at (ram s) 4 (t - 1) addr cr3 = Some (e AND PT_ADDR_MASK)"
      using table_at_step [of present "ram s" 4 k addr cr3 q] q pr False k unfolding e(1) by (simp add: huge_def)
    ultimately show ?thesis
      using fl tree False by auto
  next
    case True
    then obtain p fs' where fs: "fs = p # fs'" and al: "frame_aligned t e"
      using e(2) by (cases fs) auto
    have tq: "tree_ok (ram s) t q (p # fs')"
      using tree_ok_table_at [OF q tree] unfolding fs .
    obtain s' e' T where s': "split_large_page (entry q (of_nat ?i)) t s = Ret s'"
        "updated t q s [p] fs' s' T \<and> (\<forall>va. access (T va) va = access (lookup (ram s) t q va) va)"
        "pte_at (ram s') q ?i = e'" "present e'" "\<not> huge t e'" "e' AND PT_ADDR_MASK = p"
        "\<forall>j < 512. pte_at (ram s') p j = small_entry t e j"
      using split_large_page_updated [OF fl [unfolded fs] tq t unat_offset_512 e(1) [symmetric] pr True al] by blast
    have tree0: "tree_ok (ram s) 4 cr3 ([p] @ fs')"
      using tree unfolding fs by simp
    obtain T' where up: "updated 4 cr3 s [p] fs' s' T'" "table_at (ram s') 4 t addr cr3 = Some q"
        "\<forall>va. access (T' va) va = access (lookup (ram s) 4 cr3 va) va"
      using update_path [OF q tree0 _ conjunct1 [OF s'(2)] conjunct2 [OF s'(2)]] k by auto
    have "\<forall>va. translate (ram s') 4 cr3 va = translate (ram s) 4 cr3 va"
      using up(1,3) unfolding gupdated_def by (simp add: gtranslate_def frame_of_access)
    moreover have "force_level cr3 addr t s = Ret s'"
      using get nz pr True s'(1) unfolding e(1) by (simp add: force_level_def)
    moreover have "table_at (ram s') 4 (t - 1) addr cr3 = Some p"
      using table_at_step [of present "ram s'" 4 k addr cr3 q] up(2) s'(3-6) k by simp
    moreover have "frame_aligned 2 (pte_at (ram s') p (unat (PGDIR_OFFSET addr 2)))" if "t = 3"
    proof -
      have "huge t e"
        using True t by (simp add: huge_def)
      then show ?thesis
        using x86_tree.small_entry_props(4) [OF t pr _ al unat_offset_512 that, of addr 2] s'(7) unat_offset_512 [of addr 2]
        by metis
    qed
    moreover have "tree_ok (ram s') 4 cr3 fs'"
      by (rule updated_tree_ok [OF tree0 up(1)])
    ultimately show ?thesis
      using up(1) True fs unfolding gupdated_def by auto
  qed
qed

text \<open>The large pages on the path of an address have frames aligned to their size.\<close>

definition path_aligned :: "mem \<Rightarrow> u64 \<Rightarrow> u64 \<Rightarrow> bool" where
  "path_aligned m cr3 va \<longleftrightarrow> (\<forall>t q. (t = 2 \<or> t = 3) \<and> table_at m 4 t va cr3 = Some q \<and>
     large (pte_at m q (unat (PGDIR_OFFSET va t))) \<longrightarrow> frame_aligned t (pte_at m q (unat (PGDIR_OFFSET va t))))"

text \<open>
  C6: Forcing a 4K page. When the address is mapped and two free pages are available, \<open>force_4k_page\<close>
  returns, every address is translated exactly as before, the tables stay well formed, and the
  search for the address ends at a 4K entry.
\<close>

theorem force_4k_page_keeps_translation:
  assumes fl: "free_list s fs" and tree: "tree_ok (ram s) 4 cr3 fs" and len: "2 \<le> length fs"
    and map: "translate (ram s) 4 cr3 addr = Some pa" and al: "path_aligned (ram s) cr3 addr"
  shows "\<exists>s' fs' a. force_4k_page cr3 addr s = Ret s' \<and> free_list s' fs' \<and> tree_ok (ram s') 4 cr3 fs'
    \<and> (\<forall>va. translate (ram s') 4 cr3 va = translate (ram s) 4 cr3 va) \<and> find_pte_level cr3 addr 1 s' = Ret (1, a)"
proof -
  have "table_at (ram s) 4 4 addr cr3 = Some cr3"
    by (simp add: eval_nat_numeral)
  moreover have "present (pte_at (ram s) cr3 (unat (PGDIR_OFFSET addr 4)))"
    using table_at_mapped(2) [OF map calculation] by simp
  ultimately obtain q3 where q3: "table_at (ram s) 4 3 addr cr3 = Some q3"
    using table_at_step [of present "ram s" 4 3 addr cr3 cr3] by (simp add: huge_def)
  define e3 where "e3 = pte_at (ram s) q3 (unat (PGDIR_OFFSET addr 3))"
  have ok3: "large e3 \<longrightarrow> frame_aligned 3 e3 \<and> fs \<noteq> []"
    using al q3 len unfolding e3_def path_aligned_def by auto
  obtain s1 fs1 q2 where s1: "force_level cr3 addr 3 s = Ret s1" "free_list s1 fs1" "tree_ok (ram s1) 4 cr3 fs1"
      "length fs \<le> Suc (length fs1)" "\<forall>va. translate (ram s1) 4 cr3 va = translate (ram s) 4 cr3 va"
      "table_at (ram s1) 4 (3 - 1) addr cr3 = Some q2"
      "if large e3 then 3 = (3 :: nat) \<longrightarrow> frame_aligned 2 (pte_at (ram s1) q2 (unat (PGDIR_OFFSET addr 2))) else s1 = s"
    using force_level_forces [OF fl tree _ q3 map e3_def ok3] by blast
  define e2 where "e2 = pte_at (ram s1) q2 (unat (PGDIR_OFFSET addr 2))"
  have q2: "table_at (ram s1) 4 2 addr cr3 = Some q2"
    using s1(6) by simp
  have ok2: "large e2 \<longrightarrow> frame_aligned 2 e2 \<and> fs1 \<noteq> []"
    using s1(4,7) q2 al len unfolding e2_def path_aligned_def by (auto split: if_splits)
  have map1: "translate (ram s1) 4 cr3 addr = Some pa"
    using s1(5) map by simp
  obtain s' fs' q1 where s': "force_level cr3 addr 2 s1 = Ret s'" "free_list s' fs'" "tree_ok (ram s') 4 cr3 fs'"
      "\<forall>va. translate (ram s') 4 cr3 va = translate (ram s1) 4 cr3 va" "table_at (ram s') 4 (2 - 1) addr cr3 = Some q1"
    using force_level_forces [OF s1(2,3) _ q2 map1 e2_def ok2] by blast
  have "find_loop (ram s') 4 1 addr cr3 = (1, entry q1 (PGDIR_OFFSET addr 1))"
    using find_loop_table_at [of 1 4 "ram s'" addr cr3] s'(5) by simp
  then have "find_pte_level cr3 addr 1 s' = Ret (1, entry q1 (PGDIR_OFFSET addr 1))"
    by (simp add: find_pte_level_def PAGE_LEVEL_def)
  moreover have "force_4k_page cr3 addr s = Ret s'"
    using s1(1) s'(1) by (simp add: force_4k_page_def)
  ultimately show ?thesis
    using s'(2-4) s1(5) by auto
qed

lemma path_aligned_2M:
  assumes "table_at m 4 2 va cr3 = Some q" and "frame_aligned 2 (pte_at m q (unat (PGDIR_OFFSET va 2)))"
  shows "path_aligned m cr3 va"
  unfolding path_aligned_def
proof (intro allI impI, elim conjE)
  fix t q'
  assume t: "t = 2 \<or> t = 3" and q': "table_at m 4 t va cr3 = Some q'" "large (pte_at m q' (unat (PGDIR_OFFSET va t)))"
  have "t \<noteq> 3"
  proof
    assume t3: "t = 3"
    have "huge (Suc 2) (pte_at m q' (unat (PGDIR_OFFSET va (Suc 2))))"
      using q'(2) t3 by (simp add: huge_def)
    then have "table_at m 4 2 va cr3 = None"
      using q'(1) t3 by (intro table_at_huge [of _ _ _ _ _ _ q']) simp_all
    then show False
      using assms(1) by simp
  qed
  then show "frame_aligned t (pte_at m q' (unat (PGDIR_OFFSET va t)))"
    using t q'(1) assms by simp
qed

theorem force_4k_page_keeps_translation_witness:
  "\<exists>s s'. force_4k_page 0x1000 0x234567 s = Ret s' \<and> translate (ram s) 4 0x1000 0x234567 = Some 0x234567
    \<and> (\<forall>va. translate (ram s') 4 0x1000 va = translate (ram s) 4 0x1000 va)"
proof -
  obtain s0 where s0: "free_list s0 (run 0x2000 8)" and tree: "tree_ok (ram s0) 4 0x1000 (run 0x2000 8)"
      and z: "\<forall>va. translate (ram s0) 4 0x1000 va = None"
    using empty_root_machine by blast
  have pf: "path_free (ram s0) 4 2 0x1000 0x234567"
    using z by (intro unmapped_path_free) simp
  have fo: "frame_ok 2 0x200000"
    by (simp add: frame_ok_def PT_ADDR_MASK_eq PGDIR_BITS_simps aligned_def)
  obtain used fs' a s T where s: "run 0x2000 8 = used @ fs'" "length used \<le> 2" "tree_ok (ram s) 4 0x1000 fs'"
      "\<forall>va. translate (ram s) 4 0x1000 va = (if vpn 2 va = vpn 2 0x234567 then Some (0x200000 + take_bit (PGDIR_BITS 2) va)
        else translate (ram s0) 4 0x1000 va)"
      "find_loop (ram s) 4 2 0x234567 0x1000 = (2, a)" "load64 (ram s) a = large_entry 0x200000"
      "updated 4 0x1000 s0 used fs' s T"
    using install_large_page_maps [OF s0(1) tree _ _ pf fo] by auto
  have tr: "translate (ram s) 4 0x1000 0x234567 = Some 0x234567"
    using s(4) unfolding PGDIR_BITS_simps by simp
  obtain q where q: "table_at (ram s) 4 2 0x234567 0x1000 = Some q" "a = entry q (PGDIR_OFFSET 0x234567 2)"
    using find_loop_table_at [of 2 4 "ram s" "0x234567" "0x1000"] s(5) by (auto split: option.splits)
  have "frame_aligned 2 (large_entry 0x200000)"
    by (simp add: frame_aligned_def aligned_def PGDIR_BITS_simps PT_ADDR_MASK_eq PT_PRESENT_MASK_def
        PT_WRITABLE_MASK_def PT_USER_MASK_def PT_PAGE_SIZE_MASK_def push_bit_eq_mult)
  then have al: "path_aligned (ram s) 0x1000 0x234567"
    using q s(6) by (intro path_aligned_2M [OF q(1)]) simp
  have "length (used @ fs') = 8"
    unfolding s(1) [symmetric] by simp
  then have len: "2 \<le> length fs'"
    using s(2) by simp
  have "free_list s fs'"
    using s(7) unfolding gupdated_def by blast
  from force_4k_page_keeps_translation [OF this s(3) len tr al] show ?thesis
    using tr by blast
qed

end
