(* ===== verification/Alloc_Phys.thy ===== *)
theory Alloc_Phys
  imports Machine
begin

text \<open>
  The early allocator of \<^verbatim>\<open>lib/alloc_phys.c\<close>: it hands out the memory between \<open>pa_base\<close> and \<open>pa_top\<close> from
  below, aligned as asked, and logs up to 256 allocations. The number of logged regions is the
  length of \<open>pa_regions\<close>.
\<close>

section \<open>Operations\<close>

definition PHYS_ALLOC_NR_REGIONS :: nat where
  "PHYS_ALLOC_NR_REGIONS = 256"

definition DEFAULT_MINIMUM_ALIGNMENT :: u64 where
  "DEFAULT_MINIMUM_ALIGNMENT = 32"

definition INVALID_PHYS_ADDR :: u64 where
  "INVALID_PHYS_ADDR = NOT 0"

primrec show_regions :: "(u64 \<times> u64) list \<Rightarrow> machine \<Rightarrow> machine outcome" where
  "show_regions [] s = Ret s"
| "show_regions (r # rs) s =
     bind_outcome (kprintf (''%016lx-%016lx [%s]'' @ [CHR 0x0A])
         [VInt (fst r), VInt (fst r + snd r - 1), VStr ''USED''] s) (show_regions rs)"

definition phys_alloc_show :: "machine \<Rightarrow> machine outcome" where
  "phys_alloc_show s =
     bind_outcome (kprintf (''phys_alloc minimum alignment: %#lx'' @ [CHR 0x0A]) [VInt (pa_align_min s)] s) (\<lambda>s.
     bind_outcome (show_regions (pa_regions s) s) (\<lambda>s.
     kprintf (''%016lx-%016lx [%s]'' @ [CHR 0x0A]) [VInt (pa_base s), VInt (pa_top s - 1), VStr ''FREE''] s))"

definition phys_alloc_init :: "u64 \<Rightarrow> u64 \<Rightarrow> machine \<Rightarrow> machine" where
  "phys_alloc_init base_addr sz s =
     s\<lparr>pa_base := base_addr, pa_top := base_addr + sz, pa_regions := []\<rparr>"

definition phys_alloc_set_minimum_alignment :: "u64 \<Rightarrow> machine \<Rightarrow> machine outcome" where
  "phys_alloc_set_minimum_alignment align s =
     bind_outcome (assert_that (align \<noteq> 0 \<and> align AND (align - 1) = 0) ''align && !(align & (align - 1))'')
       (\<lambda>_. Ret (s\<lparr>pa_align_min := align\<rparr>))"

definition phys_alloc_aligned_safe :: "u64 \<Rightarrow> u64 \<Rightarrow> bool \<Rightarrow> machine \<Rightarrow> (u64 \<times> machine) outcome" where
  "phys_alloc_aligned_safe sz align safe s =
     (let size_orig = sz;
          top_safe = (if safe \<and> sizeof_long = 4 then min (pa_top s) (push_bit 32 1) else pa_top s) in
      bind_outcome (assert_that (pa_base s < top_safe) ''base < top_safe'') (\<lambda>_.
      let addr = ALIGN (pa_base s) align;
          sz = sz + (addr - pa_base s) in
      if top_safe - pa_base s < sz then
        bind_outcome (kprintf (''phys_alloc: requested=%#lx (align=%#lx), need=%#lx, but free=%#lx. ''
              @ ''top=%#lx, top_safe=%#lx'' @ [CHR 0x0A])
            [VInt size_orig, VInt align, VInt sz, VInt (top_safe - pa_base s), VInt (pa_top s), VInt top_safe] s)
          (\<lambda>s. Ret (INVALID_PHYS_ADDR, s))
      else
        let s = s\<lparr>pa_base := pa_base s + sz\<rparr> in
        if length (pa_regions s) < PHYS_ALLOC_NR_REGIONS then
          Ret (addr, s\<lparr>pa_regions := pa_regions s @ [(addr, size_orig)]\<rparr>)
        else if \<not> pa_warned s then
          bind_outcome (kprintf (''WARNING: phys_alloc: No free log entries, ''
              @ ''can no longer log allocations...'' @ [CHR 0x0A]) [] s)
            (\<lambda>s. Ret (addr, s\<lparr>pa_warned := True\<rparr>))
        else Ret (addr, s)))"

text \<open>The log has room for 256 entries; writing past its end is out of the array.\<close>

definition phys_alloc_get_unused :: "machine \<Rightarrow> ((u64 \<times> u64) \<times> machine) outcome" where
  "phys_alloc_get_unused s =
     (let p_base = pa_base s; p_top = pa_top s in
      if pa_base s = pa_top s then Ret ((p_base, p_top), s)
      else bind_outcome (assert_that (length (pa_regions s) < PHYS_ALLOC_NR_REGIONS) ''regions[nr_regions]'') (\<lambda>_.
        Ret ((p_base, p_top),
          s\<lparr>pa_regions := pa_regions s @ [(pa_base s, pa_top s - pa_base s)], pa_base := pa_top s\<rparr>)))"

definition early_memalign :: "u64 \<Rightarrow> u64 \<Rightarrow> machine \<Rightarrow> (u64 \<times> machine) outcome" where
  "early_memalign alignment sz s =
     bind_outcome (assert_that (alignment \<noteq> 0 \<and> alignment AND (alignment - 1) = 0)
        ''alignment && !(alignment & (alignment - 1))'') (\<lambda>_.
     bind_outcome (phys_alloc_aligned_safe sz alignment True s) (\<lambda>(addr, s).
     Ret (if addr = INVALID_PHYS_ADDR then 0 else addr, s)))"

section \<open>What an allocation does\<close>

text \<open>The bytes of a block.\<close>

definition blk :: "u64 \<Rightarrow> u64 \<Rightarrow> nat set" where
  "blk p sz = {unat p ..< unat p + unat sz}"

text \<open>
  The memory that was free from \<open>lo\<close> on: the logged regions lie between \<open>lo\<close> and \<open>pa_base\<close> in
  ascending order, without overlap.
\<close>

fun ascending :: "nat \<Rightarrow> (u64 \<times> u64) list \<Rightarrow> nat \<Rightarrow> bool" where
  "ascending lo [] hi = (lo \<le> hi)"
| "ascending lo ((p, sz) # rs) hi = (lo \<le> unat p \<and> ascending (unat p + unat sz) rs hi)"

definition phys_inv :: "nat \<Rightarrow> machine \<Rightarrow> bool" where
  "phys_inv lo s \<longleftrightarrow> pa_base s \<le> pa_top s \<and> ascending lo (pa_regions s) (unat (pa_base s))"

lemma ascending_le: "ascending lo rs hi \<Longrightarrow> lo \<le> hi"
  by (induction lo rs hi rule: ascending.induct) auto

lemma ascending_snoc:
  "ascending lo rs hi \<Longrightarrow> hi \<le> unat p \<Longrightarrow> unat p + unat sz \<le> hi' \<Longrightarrow> ascending lo (rs @ [(p, sz)]) hi'"
  by (induction lo rs hi rule: ascending.induct) auto

lemma ascending_weaken: "ascending lo rs hi \<Longrightarrow> hi \<le> hi' \<Longrightarrow> ascending lo rs hi'"
  by (induction lo rs hi rule: ascending.induct) auto

lemma ascending_blk: "ascending lo rs hi \<Longrightarrow> (p, sz) \<in> set rs \<Longrightarrow> blk p sz \<subseteq> {lo ..< hi}"
proof (induction lo rs hi rule: ascending.induct)
  case (2 lo q qs rs hi)
  then show ?case
    using ascending_le [of "unat q + unat qs" rs hi] by (fastforce simp: blk_def)
qed simp

lemma requested_printable:
  "printable (parse_fmt (''phys_alloc: requested=%#lx (align=%#lx), need=%#lx, but free=%#lx. ''
      @ ''top=%#lx, top_safe=%#lx'' @ [CHR 0x0A])) [VInt a, VInt b, VInt c, VInt d, VInt e, VInt f]"
  by (simp add: parse_fmt.simps parse_conv.simps is_digit_def cval_def)

lemma warning_printable:
  "printable (parse_fmt (''WARNING: phys_alloc: No free log entries, ''
     @ ''can no longer log allocations...'' @ [CHR 0x0A])) []"
  by (simp add: parse_fmt.simps)

lemma ALIGN_gap:
  assumes "k < 64" and "unat b + 2 ^ k - 1 < 2 ^ 64"
  shows "unat (ALIGN b (2 ^ k) - b) = unat (ALIGN b (2 ^ k)) - unat b"
    and "unat b \<le> unat (ALIGN b (2 ^ k))" and "unat (ALIGN b (2 ^ k)) - unat b < 2 ^ k"
  using ALIGN_least(1,2) [OF assms] by (auto simp: unat_sub word_le_nat_alt)

lemma phys_alloc_spec:
  assumes "pa_base s < pa_top s" and "k < 64" and "unat (pa_base s) + 2 ^ k - 1 < 2 ^ 64"
    and "unat sz + 2 ^ k \<le> 2 ^ 64"
  defines "a \<equiv> ALIGN (pa_base s) (2 ^ k)"
  shows "\<exists>s' t w rs. phys_alloc_aligned_safe sz (2 ^ k) safe s =
      Ret (if unat a + unat sz \<le> unat (pa_top s) then a else INVALID_PHYS_ADDR, s')
    \<and> s' = (if unat a + unat sz \<le> unat (pa_top s)
        then s\<lparr>pa_base := sz + a, pa_regions := pa_regions s @ rs, con := con s @ t, pa_warned := w\<rparr>
        else s\<lparr>con := con s @ t\<rparr>)
    \<and> (rs = [(a, sz)] \<or> rs = [] \<and> length (pa_regions s) \<ge> PHYS_ALLOC_NR_REGIONS)"
proof -
  let ?g = "a - pa_base s"
  have g: "unat ?g = unat a - unat (pa_base s)" "unat (pa_base s) \<le> unat a" "unat ?g < 2 ^ k"
    using ALIGN_gap [OF assms(2,3)] by (simp_all add: a_def)
  have sz: "unat (sz + ?g) = unat sz + unat ?g"
    using g(3) assms(4) by (simp add: unat_word_ariths)
  have free: "unat (pa_top s - pa_base s) = unat (pa_top s) - unat (pa_base s)"
    using assms(1) by (simp add: unat_sub less_imp_le)
  have full: "pa_top s - pa_base s < sz + ?g \<longleftrightarrow> \<not> unat a + unat sz \<le> unat (pa_top s)"
    using g sz free assms(1) by (auto simp: word_less_nat_alt)
  have base: "pa_base s + (sz + ?g) = sz + a"
    by simp
  obtain t1 where t1: "kprintf (''phys_alloc: requested=%#lx (align=%#lx), need=%#lx, but free=%#lx. ''
      @ ''top=%#lx, top_safe=%#lx'' @ [CHR 0x0A])
      [VInt sz, VInt (2 ^ k), VInt (sz + ?g), VInt (pa_top s - pa_base s), VInt (pa_top s), VInt (pa_top s)] s
      = Ret (s\<lparr>con := con s @ t1\<rparr>)"
    using printable_kprintf [OF requested_printable] by blast
  obtain t2 where t2: "kprintf (''WARNING: phys_alloc: No free log entries, ''
      @ ''can no longer log allocations...'' @ [CHR 0x0A]) [] (s\<lparr>pa_base := sz + a\<rparr>)
      = Ret (s\<lparr>pa_base := sz + a, con := con s @ t2\<rparr>)"
    using printable_kprintf [OF warning_printable, of "s\<lparr>pa_base := sz + a\<rparr>"] by auto
  have eq: "phys_alloc_aligned_safe sz (2 ^ k) safe s =
     (if \<not> unat a + unat sz \<le> unat (pa_top s) then Ret (INVALID_PHYS_ADDR, s\<lparr>con := con s @ t1\<rparr>)
      else if length (pa_regions s) < PHYS_ALLOC_NR_REGIONS
      then Ret (a, s\<lparr>pa_base := sz + a, pa_regions := pa_regions s @ [(a, sz)]\<rparr>)
      else if \<not> pa_warned s then Ret (a, s\<lparr>pa_base := sz + a, con := con s @ t2, pa_warned := True\<rparr>)
      else Ret (a, s\<lparr>pa_base := sz + a\<rparr>))"
    unfolding phys_alloc_aligned_safe_def Let_def sizeof_long_def
    using assms(1) t1 t2 base by (simp add: full flip: a_def)
  show ?thesis
  proof (cases "unat a + unat sz \<le> unat (pa_top s)")
    case False
    then show ?thesis
      unfolding eq by (intro exI [of _ "s\<lparr>con := con s @ t1\<rparr>"] exI [of _ t1] exI [of _ False] exI [of _ "[(a, sz)]"]) simp
  next
    case True
    then show ?thesis
      unfolding eq
      by (intro exI [of _ "snd (case phys_alloc_aligned_safe sz (2 ^ k) safe s of Ret r \<Rightarrow> r)"]
          exI [of _ "if length (pa_regions s) < PHYS_ALLOC_NR_REGIONS \<or> pa_warned s then [] else t2"]
          exI [of _ "pa_warned s \<or> \<not> length (pa_regions s) < PHYS_ALLOC_NR_REGIONS"]
          exI [of _ "if length (pa_regions s) < PHYS_ALLOC_NR_REGIONS then [(a, sz)] else []"])
        (simp add: eq)
  qed
qed

lemma alloc_end:
  fixes a sz t :: u64
  assumes "unat a + unat sz \<le> unat t"
  shows "unat (sz + a) = unat a + unat sz"
  using assms unat_less_u64 [of t] by (simp add: unat_word_ariths)

lemma phys_alloc_keeps_inv:
  assumes "phys_inv lo s" and "pa_base s < pa_top s" and "k < 64" and "unat (pa_base s) + 2 ^ k - 1 < 2 ^ 64"
    and "unat sz + 2 ^ k \<le> 2 ^ 64" and "phys_alloc_aligned_safe sz (2 ^ k) safe s = Ret (r, s')"
  shows "phys_inv lo s'"
proof -
  let ?a = "ALIGN (pa_base s) (2 ^ k)"
  have g: "unat (pa_base s) \<le> unat ?a"
    using ALIGN_gap [OF assms(3,4)] by simp
  have inv: "pa_base s \<le> pa_top s" "ascending lo (pa_regions s) (unat (pa_base s))"
    using assms(1) by (simp_all add: phys_inv_def)
  obtain t w rs where s': "s' = (if unat ?a + unat sz \<le> unat (pa_top s)
        then s\<lparr>pa_base := sz + ?a, pa_regions := pa_regions s @ rs, con := con s @ t, pa_warned := w\<rparr>
        else s\<lparr>con := con s @ t\<rparr>)" and rs: "rs = [(?a, sz)] \<or> rs = []"
    using phys_alloc_spec [OF assms(2-5), of safe] assms(6) by auto
  show ?thesis
  proof (cases "unat ?a + unat sz \<le> unat (pa_top s)")
    case True
    have "unat (sz + ?a) = unat ?a + unat sz"
      using True by (rule alloc_end)
    then show ?thesis
      using rs inv(2) True g ascending_snoc [OF inv(2) g, of sz] ascending_weaken [OF inv(2)]
      by (auto simp: s' phys_inv_def word_le_nat_alt)
  next
    case False
    then show ?thesis
      using inv by (simp add: s' phys_inv_def)
  qed
qed

section \<open>Properties\<close>

text \<open>
  an allocation of the early allocator returns the lowest suitably aligned address of the unused
  memory and takes exactly the bytes up to the end of the block when they fit below the top, and
  otherwise reports failure and takes nothing; the log of regions stays sorted, without overlap
  and below the unused memory.
\<close>

theorem phys_alloc_correct:
  assumes "phys_inv lo s" and "pa_base s < pa_top s" and "k < 64" and "unat (pa_base s) + 2 ^ k - 1 < 2 ^ 64"
    and "unat sz + 2 ^ k \<le> 2 ^ 64"
  shows "\<exists>r s'. phys_alloc_aligned_safe sz (2 ^ k) safe s = Ret (r, s') \<and> phys_inv lo s'
    \<and> (let a = ALIGN (pa_base s) (2 ^ k) in
       if unat a + unat sz \<le> unat (pa_top s)
       then r = a \<and> aligned k a \<and> pa_base s \<le> a \<and> unat (pa_base s') = unat a + unat sz \<and> pa_top s' = pa_top s
         \<and> (\<forall>(p, n) \<in> set (pa_regions s). blk p n \<inter> blk a sz = {})
       else r = INVALID_PHYS_ADDR \<and> pa_base s' = pa_base s \<and> pa_regions s' = pa_regions s)"
proof -
  let ?a = "ALIGN (pa_base s) (2 ^ k)"
  obtain t w rs s' where r: "phys_alloc_aligned_safe sz (2 ^ k) safe s =
      Ret (if unat ?a + unat sz \<le> unat (pa_top s) then ?a else INVALID_PHYS_ADDR, s')"
    and s': "s' = (if unat ?a + unat sz \<le> unat (pa_top s)
        then s\<lparr>pa_base := sz + ?a, pa_regions := pa_regions s @ rs, con := con s @ t, pa_warned := w\<rparr>
        else s\<lparr>con := con s @ t\<rparr>)"
    using phys_alloc_spec [OF assms(2-5), of safe] by auto
  have "phys_inv lo s'"
    using phys_alloc_keeps_inv [OF assms r] .
  moreover have "blk p n \<inter> blk ?a sz = {}" if "(p, n) \<in> set (pa_regions s)" for p n
  proof -
    have "blk p n \<subseteq> {lo ..< unat (pa_base s)}"
      using assms(1) ascending_blk [OF _ that] by (simp add: phys_inv_def)
    then show ?thesis
      using ALIGN_gap(2) [OF assms(3,4)] by (auto simp: blk_def)
  qed
  ultimately show ?thesis
    using r s' ALIGN_gap(2) [OF assms(3,4)] aligned_ALIGN [of k "pa_base s"] alloc_end [of ?a sz "pa_top s"]
    by (auto simp: Let_def word_le_nat_alt)
qed

text \<open>
  handing over the unused memory is possible only while the log has a free entry. After 256
  logged allocations \<open>phys_alloc_get_unused\<close> writes behind the end of the array \<^verbatim>\<open>regions\<close>.
\<close>

theorem get_unused_needs_log_entry:
  "(\<exists>r s'. phys_alloc_get_unused s = Ret (r, s'))
     \<longleftrightarrow> pa_base s = pa_top s \<or> length (pa_regions s) < PHYS_ALLOC_NR_REGIONS"
  by (auto simp: phys_alloc_get_unused_def Let_def bind_outcome_Ret_iff)

end
