(* ===== verification/Alloc.thy ===== *)
theory Alloc
  imports Alloc_Phys Alloc_Page
begin

text \<open>
  The allocation functions of \<^verbatim>\<open>lib/alloc.c\<close>, which sit on top of a block provider, the
  \<^verbatim>\<open>struct alloc_ops\<close>. The provider in use (the value of the pointer \<^verbatim>\<open>alloc_ops\<close>) is the argument \<open>ops\<close>,
  and \<open>tr\<close> is the translation of addresses in force, the identity before paging. The locale
  \<open>block_provider\<close> states what the functions rely on; the early allocator and the page allocator
  are shown to meet it, and the heap lemmas proved once in the locale hold for both.
\<close>

section \<open>Operations\<close>

record alloc_ops =
  ops_memalign :: "u64 \<Rightarrow> u64 \<Rightarrow> machine \<Rightarrow> (u64 \<times> machine) outcome"
  ops_free :: "(u64 \<Rightarrow> u64 \<Rightarrow> machine \<Rightarrow> machine outcome) option"
  ops_align_min :: u64

type_synonym translation = "machine \<Rightarrow> u64 \<Rightarrow> u64"

definition ld64 :: "translation \<Rightarrow> machine \<Rightarrow> u64 \<Rightarrow> u64" where
  "ld64 tr s a = load64 (ram s) (tr s a)"

definition st64 :: "translation \<Rightarrow> u64 \<Rightarrow> u64 \<Rightarrow> machine \<Rightarrow> machine" where
  "st64 tr a v s = s\<lparr>ram := store64 (ram s) (tr s a) v\<rparr>"

definition METADATA_EXTRA :: u64 where
  "METADATA_EXTRA = 2 * 8"

definition OFS_SLACK :: u64 where
  "OFS_SLACK = - (2 * 8)"

definition OFS_SIZE :: u64 where
  "OFS_SIZE = - 8"

definition block_begin :: "translation \<Rightarrow> u64 \<Rightarrow> machine \<Rightarrow> u64" where
  "block_begin tr p s = p - ld64 tr s (p + OFS_SLACK)"

definition block_size :: "translation \<Rightarrow> u64 \<Rightarrow> machine \<Rightarrow> u64" where
  "block_size tr p s = ld64 tr s (p + OFS_SIZE)"

definition free :: "alloc_ops \<Rightarrow> translation \<Rightarrow> u64 \<Rightarrow> machine \<Rightarrow> machine outcome" where
  "free ops tr ptr s =
     (case ops_free ops of
        None \<Rightarrow> Ret s
      | Some f \<Rightarrow> f (block_begin tr ptr s) (block_size tr ptr s) s)"

definition memalign :: "alloc_ops \<Rightarrow> translation \<Rightarrow> u64 \<Rightarrow> u64 \<Rightarrow> machine \<Rightarrow> (u64 \<times> machine) outcome" where
  "memalign ops tr alignment sz s =
     (if sz = 0 then Ret (0, s)
      else
        bind_outcome (assert_that (alignment \<ge> 8 \<and> is_power_of_2 alignment)
          ''alignment >= sizeof(void *) && is_power_of_2(alignment)'') (\<lambda>_.
        let sz = sz + (alignment - 1);
            blkalign = max alignment (ops_align_min ops);
            sz = ALIGN (sz + METADATA_EXTRA) (ops_align_min ops) in
        bind_outcome (ops_memalign ops blkalign sz s) (\<lambda>(p, s).
        bind_outcome (assert_that (p \<noteq> 0) ''p'') (\<lambda>_.
        let mem = ALIGN (p + METADATA_EXTRA) alignment;
            s = st64 tr (mem + OFS_SLACK) (mem - p) s;
            s = st64 tr (mem + OFS_SIZE) sz s in
        Ret (mem, s)))))"

definition malloc :: "alloc_ops \<Rightarrow> translation \<Rightarrow> u64 \<Rightarrow> machine \<Rightarrow> (u64 \<times> machine) outcome" where
  "malloc ops tr sz s = memalign ops tr 8 sz s"

text \<open>The clearing loop of \<^verbatim>\<open>memset\<close> goes through the translation byte by byte.\<close>

definition memset_tr :: "translation \<Rightarrow> u64 \<Rightarrow> u8 \<Rightarrow> u64 \<Rightarrow> machine \<Rightarrow> machine" where
  "memset_tr tr p c n s =
     fold (\<lambda>i s. s\<lparr>ram := (ram s)(tr s (p + of_nat i) := c)\<rparr>) [0..<unat n] s"

definition calloc :: "alloc_ops \<Rightarrow> translation \<Rightarrow> u64 \<Rightarrow> u64 \<Rightarrow> machine \<Rightarrow> (u64 \<times> machine) outcome" where
  "calloc ops tr nmemb sz s =
     bind_outcome (malloc ops tr (nmemb * sz) s) (\<lambda>(ptr, s).
     Ret (ptr, if ptr \<noteq> 0 then memset_tr tr ptr 0 (nmemb * sz) s else s))"

definition early_alloc_ops :: "u64 \<Rightarrow> alloc_ops" where
  "early_alloc_ops amin = \<lparr>ops_memalign = early_memalign, ops_free = None, ops_align_min = amin\<rparr>"

definition page_alloc_ops :: alloc_ops where
  "page_alloc_ops = \<lparr>ops_memalign = page_memalign, ops_free = Some page_free, ops_align_min = PAGE_SIZE\<rparr>"

section \<open>The interface of a block provider\<close>

text \<open>
  \<open>inv s L\<close> says that the provider is in order and that \<open>L\<close> is the set of blocks, as pairs of address
  and size, that are handed out.
\<close>

definition byte_at :: "translation \<Rightarrow> machine \<Rightarrow> u64 \<Rightarrow> u8" where
  "byte_at tr s a = ram s (tr s a)"

definition apart :: "(u64 \<times> u64) set \<Rightarrow> bool" where
  "apart L \<longleftrightarrow> pairwise (\<lambda>x y. blk (fst x) (snd x) \<inter> blk (fst y) (snd y) = {}) L"

lemma apartD: "apart L \<Longrightarrow> (p, n) \<in> L \<Longrightarrow> (q, k) \<in> L \<Longrightarrow> (p, n) \<noteq> (q, k) \<Longrightarrow> blk p n \<inter> blk q k = {}"
  unfolding apart_def by (drule (3) pairwiseD) simp

lemma apart_mono: "apart L \<Longrightarrow> L' \<subseteq> L \<Longrightarrow> apart L'"
  unfolding apart_def by (rule pairwise_subset)

lemma apart_insert: "apart L \<Longrightarrow> \<forall>(q, k) \<in> L. blk p n \<inter> blk q k = {} \<Longrightarrow> apart (insert (p, n) L)"
  unfolding apart_def pairwise_insert by (fastforce simp: case_prod_beta)

definition in_live :: "(u64 \<times> u64) set \<Rightarrow> u64 \<Rightarrow> bool" where
  "in_live L a \<longleftrightarrow> (\<exists>(p, n) \<in> L. unat a \<in> blk p n)"

locale block_provider =
  fixes ops :: alloc_ops
    and tr :: translation
    and inv :: "machine \<Rightarrow> (u64 \<times> u64) set \<Rightarrow> bool"
    and lim :: nat
  assumes align_min_pow: "is_power_of_2 (ops_align_min ops)" "8 \<le> ops_align_min ops"
    and lim_bound: "lim \<le> 2 ^ 62"
    and inv_mono: "inv s L \<Longrightarrow> L' \<subseteq> L \<Longrightarrow> inv s L'"
    and live_disjoint: "inv s L \<Longrightarrow> (p, n) \<in> L \<Longrightarrow> (q, k) \<in> L \<Longrightarrow> (p, n) \<noteq> (q, k) \<Longrightarrow> blk p n \<inter> blk q k = {}"
    and live_bounded: "inv s L \<Longrightarrow> (p, n) \<in> L \<Longrightarrow> unat p + unat n \<le> 2 ^ 64"
    and tr_live: "inv s L \<Longrightarrow> in_live L a \<Longrightarrow> in_live L b \<Longrightarrow> tr s a = tr s b \<longleftrightarrow> a = b"
    and tr_word: "inv s L \<Longrightarrow> in_live L a \<Longrightarrow> aligned 3 a \<Longrightarrow> i < 8 \<Longrightarrow> tr s (a + of_nat i) = tr s a + of_nat i"
    and write_live: "inv s L \<Longrightarrow> in_live L a
      \<Longrightarrow> inv (s\<lparr>ram := (ram s)(tr s a := c)\<rparr>) L \<and> tr (s\<lparr>ram := (ram s)(tr s a := c)\<rparr>) = tr s"
    and memalign_gives: "inv s L \<Longrightarrow> is_power_of_2 al \<Longrightarrow> ops_align_min ops \<le> al \<Longrightarrow> unat al \<le> lim
      \<Longrightarrow> IS_ALIGNED n (ops_align_min ops) \<Longrightarrow> al \<le> n \<Longrightarrow> unat n \<le> lim
      \<Longrightarrow> ops_memalign ops al n s = Ret (p, s') \<Longrightarrow> p \<noteq> 0
      \<Longrightarrow> inv s' (insert (p, n) L) \<and> IS_ALIGNED p al \<and> (\<forall>(q, k) \<in> L. blk p n \<inter> blk q k = {})
        \<and> (\<forall>a. in_live L a \<longrightarrow> byte_at tr s' a = byte_at tr s a)"
    and free_takes: "inv s L \<Longrightarrow> (p, n) \<in> L \<Longrightarrow> ops_free ops = Some f
      \<Longrightarrow> \<exists>s'. f p n s = Ret s' \<and> inv s' (L - {(p, n)})
        \<and> (\<forall>a. in_live (L - {(p, n)}) a \<longrightarrow> byte_at tr s' a = byte_at tr s a)"
begin

lemma storen_live:
  assumes "inv s L" and "in_live L a" and "aligned 3 a" and "j + k \<le> 8"
    and "\<And>i. i < 8 \<Longrightarrow> in_live L (a + of_nat i)"
  shows "inv (s\<lparr>ram := storen k (ram s) (tr s (a + of_nat j)) v\<rparr>) L
    \<and> tr (s\<lparr>ram := storen k (ram s) (tr s (a + of_nat j)) v\<rparr>) = tr s"
  using assms(1,4)
proof (induction k arbitrary: s j v)
  case 0
  then show ?case by simp
next
  case (Suc k)
  let ?x = "tr s (a + of_nat j)"
  let ?s = "s\<lparr>ram := (ram s)(?x := ucast v)\<rparr>"
  have w: "inv ?s L" "tr ?s = tr s"
    using write_live [OF Suc.prems(1), of "a + of_nat j"] assms(5) Suc.prems(2) by auto
  show ?case
  proof (cases "k = 0")
    case True
    then show ?thesis
      using w by (simp del: fun_upd_apply)
  next
    case False
    have "tr s (a + of_nat (Suc j)) = ?x + 1"
      using tr_word [OF Suc.prems(1) assms(2,3), of j] tr_word [OF Suc.prems(1) assms(2,3), of "Suc j"]
        Suc.prems(2) False by (simp add: add.commute add.left_commute)
    then show ?thesis
      using Suc.IH [OF w(1), of "Suc j" "drop_bit 8 v"] w(2) Suc.prems(2) by (simp del: fun_upd_apply)
  qed
qed

lemma st64_live:
  assumes "inv s L" and "aligned 3 a" and live: "\<forall>i < 8. in_live L (a + of_nat i)"
  shows "inv (st64 tr a v s) L" and "tr (st64 tr a v s) = tr s" and "ld64 tr (st64 tr a v s) a = v"
    and "in_live L b \<Longrightarrow> \<not> unat (b - a) < 8 \<Longrightarrow> byte_at tr (st64 tr a v s) b = byte_at tr s b"
proof -
  have l: "in_live L a"
    using live [rule_format, of 0] by simp
  show i: "inv (st64 tr a v s) L" and t: "tr (st64 tr a v s) = tr s"
    using storen_live [OF assms(1) l assms(2), of 0 8 v] live by (auto simp: st64_def)
  show "ld64 tr (st64 tr a v s) a = v"
    using t by (simp add: ld64_def st64_def load64_store64_same)
  assume b: "in_live L b" "\<not> unat (b - a) < 8"
  have "\<not> unat (tr s b - tr s a) < 8"
  proof
    assume u: "unat (tr s b - tr s a) < 8"
    then obtain i where i: "tr s b = tr s a + of_nat i" "i < 8"
      by (intro that [of "unat (tr s b - tr s a)"]) simp_all
    then have "tr s b = tr s (a + of_nat i)"
      using tr_word [OF assms(1) l assms(2) i(2)] by simp
    then have "b = a + of_nat i"
      using tr_live [OF assms(1) b(1) live [rule_format, OF i(2)]] by simp
    then show False
      using b(2) i(2) by simp
  qed
  then show "byte_at tr (st64 tr a v s) b = byte_at tr s b"
    using t by (simp add: byte_at_def st64_def store64_outside)
qed

lemma ld64_cong:
  assumes "inv s L" and "inv s' L" and "aligned 3 a" and "\<And>i. i < 8 \<Longrightarrow> in_live L (a + of_nat i)"
    and "\<And>i. i < 8 \<Longrightarrow> byte_at tr s' (a + of_nat i) = byte_at tr s (a + of_nat i)"
  shows "ld64 tr s' a = ld64 tr s a"
proof -
  have "in_live L a"
    using assms(4) [of 0] by simp
  then have "ram s' (tr s' a + of_nat i) = ram s (tr s a + of_nat i)" if "i < 8" for i
    using assms(5) [OF that] tr_word [OF assms(1) _ assms(3) that] tr_word [OF assms(2) _ assms(3) that]
    by (simp add: byte_at_def)
  then show ?thesis
    unfolding ld64_def by (intro bit_word_eqI) (auto simp: bit_loadn div_less_iff_less_mult)
qed

end

section \<open>The heap\<close>

text \<open>
  An allocation is a pointer \<open>q\<close> with its size \<open>n\<close>, and the block \<open>(p, N)\<close> of the provider it lies in. Its
  header, the two words below \<open>q\<close>, holds the distance to the block's begin and the block's size.
\<close>

type_synonym alloc = "u64 \<times> u64 \<times> u64 \<times> u64"

definition block_of :: "alloc \<Rightarrow> u64 \<times> u64" where
  "block_of u = (case u of (q, n, p, N) \<Rightarrow> (p, N))"

definition placed :: "alloc \<Rightarrow> bool" where
  "placed u = (case u of (q, n, p, N) \<Rightarrow> aligned 3 q \<and> unat p + 16 \<le> unat q \<and> unat q + unat n \<le> unat p + unat N)"

definition header_ok :: "translation \<Rightarrow> machine \<Rightarrow> alloc \<Rightarrow> bool" where
  "header_ok tr s u = (case u of (q, n, p, N) \<Rightarrow>
     ld64 tr s (q + OFS_SLACK) = q - p \<and> ld64 tr s (q + OFS_SIZE) = N)"

definition heap_inv ::
  "translation \<Rightarrow> (machine \<Rightarrow> (u64 \<times> u64) set \<Rightarrow> bool) \<Rightarrow> machine \<Rightarrow> alloc set \<Rightarrow> bool" where
  "heap_inv tr ok s U \<longleftrightarrow> ok s (block_of ` U) \<and> inj_on block_of U \<and> (\<forall>u \<in> U. placed u \<and> header_ok tr s u)"

lemma header_offset:
  assumes "unat p + 16 \<le> unat q" and "i < 16"
  shows "unat (q + OFS_SLACK + of_nat i) = unat q - 16 + i"
proof -
  have e: "q + OFS_SLACK = q - 16"
    by (simp add: OFS_SLACK_def)
  have u: "unat (q - 16) = unat q - 16"
    using assms(1) by (simp add: unat_sub word_le_nat_alt)
  have "unat (q - 16 + of_nat i) = unat (q - 16) + i"
    using assms unat_less_u64 [of q] u by (simp add: unat_word_ariths unat_of_nat)
  then show ?thesis
    unfolding e u .
qed

lemma header_words:
  "q + OFS_SIZE + of_nat i = q + OFS_SLACK + of_nat (i + 8)" "aligned 3 q \<Longrightarrow> aligned 3 (q + OFS_SLACK)"
  "aligned 3 q \<Longrightarrow> aligned 3 (q + OFS_SIZE)"
proof -
  show "q + OFS_SIZE + of_nat i = q + OFS_SLACK + of_nat (i + 8)"
    by (simp add: OFS_SIZE_def OFS_SLACK_def)
  have e: "aligned 3 OFS_SLACK" "aligned 3 OFS_SIZE"
    by (simp_all add: aligned_def OFS_SLACK_def OFS_SIZE_def take_bit_eq_mask mask_eq_pow)
  show "aligned 3 q \<Longrightarrow> aligned 3 (q + OFS_SLACK)" and "aligned 3 q \<Longrightarrow> aligned 3 (q + OFS_SIZE)"
    using e take_bit_word_add [of 3 q OFS_SLACK] take_bit_word_add [of 3 q OFS_SIZE] by (simp_all add: aligned_def)
qed

lemma placed_header:
  assumes "placed (q, n, p, N)" and "i < 16"
  shows "unat (q + OFS_SLACK + of_nat i) \<in> blk p N"
  using assms header_offset [of p q i] by (auto simp: placed_def blk_def)

lemma placed_header_live:
  assumes "placed u" and "u \<in> U" and "u = (q, n, p, N)"
  shows "i < 8 \<Longrightarrow> in_live (block_of ` U) (q + OFS_SLACK + of_nat i)"
    and "i < 8 \<Longrightarrow> in_live (block_of ` U) (q + OFS_SIZE + of_nat i)"
proof -
  have "(p, N) \<in> block_of ` U"
    using assms(2,3) by (force simp: block_of_def)
  then have live: "in_live (block_of ` U) (q + OFS_SLACK + of_nat j)" if "j < 16" for j
    using placed_header [of q n p N j] assms(1,3) that unfolding in_live_def by (intro bexI [of _ "(p, N)"]) auto
  show "i < 8 \<Longrightarrow> in_live (block_of ` U) (q + OFS_SLACK + of_nat i)"
    using live [of i] by simp
  show "i < 8 \<Longrightarrow> in_live (block_of ` U) (q + OFS_SIZE + of_nat i)"
    using live [of "i + 8"] unfolding header_words(1) by linarith
qed

context block_provider begin

lemma header_kept:
  assumes "inv s (block_of ` U)" and "inv s' (block_of ` U)" and "placed u" and "u \<in> U"
    and "\<And>a. unat a \<in> blk (fst (block_of u)) (snd (block_of u)) \<Longrightarrow> byte_at tr s' a = byte_at tr s a"
  shows "header_ok tr s' u = header_ok tr s u"
proof -
  obtain q n p N where u: "u = (q, n, p, N)"
    by (cases u)
  have b: "byte_at tr s' (q + OFS_SLACK + of_nat i) = byte_at tr s (q + OFS_SLACK + of_nat i)" if "i < 16" for i
    using assms(3,5) placed_header [of q n p N i] that by (simp add: u block_of_def)
  have al: "aligned 3 q"
    using assms(3) by (simp add: u placed_def)
  have "ld64 tr s' (q + OFS_SLACK) = ld64 tr s (q + OFS_SLACK)"
    using b by (intro ld64_cong [OF assms(1,2)] header_words(2) [OF al] placed_header_live(1) [OF assms(3,4) u]) simp_all
  moreover have "ld64 tr s' (q + OFS_SIZE) = ld64 tr s (q + OFS_SIZE)"
  proof (intro ld64_cong [OF assms(1,2)] header_words(3) [OF al] placed_header_live(2) [OF assms(3,4) u])
    fix i :: nat
    assume "i < 8"
    then show "byte_at tr s' (q + OFS_SIZE + of_nat i) = byte_at tr s (q + OFS_SIZE + of_nat i)"
      unfolding header_words(1) by (intro b) simp
  qed
  ultimately show ?thesis
    by (simp add: header_ok_def u)
qed

lemma heap_free:
  assumes "heap_inv tr inv s U" and "(q, n, p, N) \<in> U"
  shows "\<exists>s'. free ops tr q s = Ret s' \<and> heap_inv tr inv s' (U - {(q, n, p, N)})
    \<and> (\<forall>a. in_live (block_of ` (U - {(q, n, p, N)})) a \<longrightarrow> byte_at tr s' a = byte_at tr s a)"
proof -
  let ?u = "(q, n, p, N)"
  have inv: "inv s (block_of ` U)" and inj: "inj_on block_of U" and hd: "\<forall>u \<in> U. placed u \<and> header_ok tr s u"
    using assms(1) by (simp_all add: heap_inv_def)
  have blocks: "block_of ` (U - {?u}) = block_of ` U - {(p, N)}"
    using inj_on_image_set_diff [OF inj, of U "{?u}"] assms(2) by (simp add: block_of_def)
  have args: "block_begin tr q s = p" "block_size tr q s = N"
    using bspec [OF hd assms(2)] by (simp_all add: block_begin_def block_size_def header_ok_def)
  have mem: "(p, N) \<in> block_of ` U"
    using assms(2) by (force simp: block_of_def)
  obtain s' where s': "free ops tr q s = Ret s'" "inv s' (block_of ` (U - {?u}))"
      "\<And>a. in_live (block_of ` (U - {?u})) a \<Longrightarrow> byte_at tr s' a = byte_at tr s a"
  proof (cases "ops_free ops")
    case None
    then show thesis
      using that [of s] inv_mono [OF inv, of "block_of ` (U - {?u})"] by (auto simp: free_def)
  next
    case (Some f)
    obtain s1 where "f p N s = Ret s1" "inv s1 (block_of ` U - {(p, N)})"
        "\<forall>a. in_live (block_of ` U - {(p, N)}) a \<longrightarrow> byte_at tr s1 a = byte_at tr s a"
      using free_takes [OF inv mem Some] by blast
    then show thesis
      using that [of s1] unfolding blocks by (simp add: free_def args Some)
  qed
  have "header_ok tr s' u" if "u \<in> U - {?u}" for u
  proof -
    have "byte_at tr s' a = byte_at tr s a" if "unat a \<in> blk (fst (block_of u)) (snd (block_of u))" for a
      using that \<open>u \<in> U - {?u}\<close>
      by (intro s'(3), unfold in_live_def, intro bexI [of _ "block_of u"]) (simp_all add: case_prod_beta)
    moreover have "inv s (block_of ` (U - {?u}))"
      using inv_mono [OF inv image_mono [OF Diff_subset]] .
    ultimately show ?thesis
      using header_kept [of s "U - {?u}" s' u] s'(2) that hd by auto
  qed
  then have "heap_inv tr inv s' (U - {?u})"
    using s'(2) inj_on_subset [OF inj Diff_subset] hd by (simp add: heap_inv_def)
  then show ?thesis
    using s' by blast
qed

end

lemma request_size:
  assumes "al = 2 ^ k" and "3 \<le> k" and "am = 2 ^ j" and "k < 63" and "j < 63" and "0 < sz"
    and "unat sz + unat al + unat am + 16 \<le> 2 ^ 62"
  defines "n \<equiv> ALIGN (sz + (al - 1) + METADATA_EXTRA) am"
  shows "unat sz + unat al + 15 \<le> unat n" and "unat n \<le> unat sz + unat al + 15 + unat am"
    and "IS_ALIGNED n am" and "max al am \<le> n"
proof -
  have al: "unat al = 2 ^ k" "unat am = 2 ^ j"
    using assms(1,3-5) by simp_all
  have "al \<noteq> 0"
    using al(1) by (metis power_not_zero unat_0 zero_neq_numeral)
  then have "unat (al - 1) = unat al - 1"
    by (rule unat_minus_one)
  moreover have "0 < unat al"
    by (simp add: al)
  ultimately have r: "unat (sz + (al - 1) + METADATA_EXTRA) = unat sz + unat al + 15"
    using assms(7) by (simp add: METADATA_EXTRA_def unat_word_ariths)
  have b: "unat (sz + (al - 1) + METADATA_EXTRA) + 2 ^ j - 1 < 2 ^ 64"
    using assms(7) unfolding r al(2) by simp
  show n: "unat sz + unat al + 15 \<le> unat n" and "unat n \<le> unat sz + unat al + 15 + unat am"
    using ALIGN_least(1,2) [OF _ b] assms(5) r by (simp_all add: n_def assms(3))
  have a: "aligned j n"
    by (simp add: n_def assms(3) aligned_ALIGN)
  then show "IS_ALIGNED n am"
    using assms(3,5) by (simp add: IS_ALIGNED_iff)
  have "unat am \<le> unat n"
    using a n al(2) by (intro dvd_imp_le) (simp_all add: aligned_iff_dvd)
  then show "max al am \<le> n"
    using n by (simp add: word_le_nat_alt)
qed

lemma place_in_block:
  assumes "al = 2 ^ k" and "3 \<le> k" and "k < 63" and "0 < sz" and "unat sz + unat al + 15 \<le> unat n"
    and "unat p + unat n \<le> 2 ^ 64"
  defines "q \<equiv> ALIGN (p + METADATA_EXTRA) al"
  shows "placed (q, sz, p, n)" and "IS_ALIGNED q al"
proof -
  have al: "unat al = 2 ^ k"
    using assms(1,3) by simp
  have sz: "0 < unat sz"
    using assms(4) by (simp add: word_less_nat_alt)
  have r: "unat (p + METADATA_EXTRA) = unat p + 16"
  proof -
    have "0 < unat al"
      by (simp add: al)
    then have "unat p + 16 < 2 ^ 64"
      using assms(5,6) sz by linarith
    then show ?thesis
      by (simp add: METADATA_EXTRA_def unat_word_ariths)
  qed
  have b: "unat (p + METADATA_EXTRA) + 2 ^ k - 1 < 2 ^ 64"
    using assms(5,6) sz unfolding r al by simp
  have q: "unat p + 16 \<le> unat q" "unat q < unat p + 16 + 2 ^ k"
    using ALIGN_least(1,2) [OF _ b] assms(3) r by (simp_all add: q_def assms(1))
  have a: "aligned k q"
    by (simp add: q_def assms(1) aligned_ALIGN)
  then show "IS_ALIGNED q al"
    using assms(1,3) by (simp add: IS_ALIGNED_iff)
  show "placed (q, sz, p, n)"
    using q a assms(2,5) al aligned_weaken [of k q 3] by (simp add: placed_def)
qed

context block_provider begin

lemma header_stored:
  assumes "inv s L" and "(p, n) \<in> L" and "placed (q, sz, p, n)"
  defines "s' \<equiv> st64 tr (q + OFS_SIZE) n (st64 tr (q + OFS_SLACK) (q - p) s)"
  shows "inv s' L" and "header_ok tr s' (q, sz, p, n)"
    and "in_live L b \<Longrightarrow> unat b \<notin> blk p n \<Longrightarrow> byte_at tr s' b = byte_at tr s b"
proof -
  have al: "aligned 3 q"
    using assms(3) by (simp add: placed_def)
  have live: "in_live L (q + OFS_SLACK + of_nat i)" "unat (q + OFS_SLACK + of_nat i) \<in> blk p n" if "i < 16" for i
    using placed_header [OF assms(3) that] assms(2) by (auto simp: in_live_def)
  have l1: "\<forall>i < 8. in_live L (q + OFS_SLACK + of_nat i)" and l2: "\<forall>i < 8. in_live L (q + OFS_SIZE + of_nat i)"
    unfolding header_words(1) by (intro allI impI live(1), simp)+
  let ?s1 = "st64 tr (q + OFS_SLACK) (q - p) s"
  note one = st64_live [OF assms(1) header_words(2) [OF al] l1, where v = "q - p"]
  note two = st64_live [OF one(1) header_words(3) [OF al] l2, where v = n]
  show inv': "inv s' L"
    unfolding s'_def by (rule two(1))
  have far: "\<not> unat (q + OFS_SLACK + of_nat i - (q + OFS_SIZE)) < 8" if "i < 8" for i
  proof -
    have e: "q + OFS_SLACK + of_nat i - (q + OFS_SIZE) = of_nat i - 8"
      by (simp add: OFS_SLACK_def OFS_SIZE_def)
    have "unat (of_nat i - 8 :: u64) = 2 ^ 64 + i - 8"
      using that by (simp add: unat_sub_if_size word_size unat_of_nat)
    then show ?thesis
      using that unfolding e by simp
  qed
  have "ld64 tr s' (q + OFS_SLACK) = ld64 tr ?s1 (q + OFS_SLACK)"
    unfolding s'_def using two(4) far l1 by (intro ld64_cong [OF one(1) two(1)] header_words(2) [OF al]) auto
  then show "header_ok tr s' (q, sz, p, n)"
    using one(3) two(3) by (simp add: header_ok_def s'_def)
  assume b: "in_live L b" "unat b \<notin> blk p n"
  have out: "\<not> unat (b - (q + OFS_SLACK + of_nat j)) < 8" if "j = 0 \<or> j = 8" for j
  proof
    assume u: "unat (b - (q + OFS_SLACK + of_nat j)) < 8"
    define i where "i = unat (b - (q + OFS_SLACK + of_nat j))"
    have "b = q + OFS_SLACK + of_nat (j + i)"
      by (simp add: i_def)
    then show False
      using b(2) live(2) [of "j + i"] u that by (auto simp: i_def simp del: of_nat_add)
  qed
  have "byte_at tr s' b = byte_at tr ?s1 b"
    unfolding s'_def
    by (rule two(4) [OF b(1)]) (use out [of 8] in \<open>simp add: OFS_SIZE_def OFS_SLACK_def\<close>)
  also have "\<dots> = byte_at tr s b"
    using one(4) [OF b(1)] out [of 0] by simp
  finally show "byte_at tr s' b = byte_at tr s b" .
qed

end

context block_provider begin

lemma heap_memalign:
  assumes "heap_inv tr inv s U" and "0 < sz" and "unat sz + unat al + unat (ops_align_min ops) + 16 \<le> lim"
    and "memalign ops tr al sz s = Ret (q, s')"
  shows "\<exists>p n. heap_inv tr inv s' (insert (q, sz, p, n) U) \<and> IS_ALIGNED q al
    \<and> (\<forall>u \<in> U. blk p n \<inter> blk (fst (block_of u)) (snd (block_of u)) = {})
    \<and> (\<forall>a. in_live (block_of ` U) a \<longrightarrow> byte_at tr s' a = byte_at tr s a)"
proof -
  let ?am = "ops_align_min ops"
  define n where "n = ALIGN (sz + (al - 1) + METADATA_EXTRA) ?am"
  have inv: "inv s (block_of ` U)" and inj: "inj_on block_of U" and hd: "\<forall>u \<in> U. placed u \<and> header_ok tr s u"
    using assms(1) by (simp_all add: heap_inv_def)
  have pow: "8 \<le> al" "is_power_of_2 al"
    and run: "bind_outcome (ops_memalign ops (max al ?am) n s) (\<lambda>(p, s). bind_outcome (assert_that (p \<noteq> 0) ''p'')
      (\<lambda>_. let mem = ALIGN (p + METADATA_EXTRA) al; s = st64 tr (mem + OFS_SLACK) (mem - p) s;
            s = st64 tr (mem + OFS_SIZE) n s in Ret (mem, s))) = Ret (q, s')"
    using assms(2,4) by (auto simp: memalign_def Let_def n_def bind_outcome_Ret_iff word_gt_0)
  obtain p s1 where p: "ops_memalign ops (max al ?am) n s = Ret (p, s1)" "p \<noteq> 0"
    and q: "q = ALIGN (p + METADATA_EXTRA) al"
    and s': "s' = st64 tr (q + OFS_SIZE) n (st64 tr (q + OFS_SLACK) (q - p) s1)"
    using run by (auto simp: bind_outcome_Ret_iff Let_def)
  obtain k where k: "k < 64" "al = 2 ^ k"
    using pow(2) by (auto simp: is_power_of_2_iff)
  obtain j where j: "j < 64" "?am = 2 ^ j"
    using align_min_pow(1) by (auto simp: is_power_of_2_iff)
  have le: "unat sz + unat al + unat ?am + 16 \<le> 2 ^ 62"
    using assms(3) lim_bound by linarith
  have "unat (2 ^ k :: u64) < 2 ^ 62" "unat (2 ^ j :: u64) < 2 ^ 62"
    using le unfolding k(2) [symmetric] j(2) [symmetric] by linarith+
  then have "(2 :: nat) ^ k < 2 ^ 62" "(2 :: nat) ^ j < 2 ^ 62"
    using k(1) j(1) by simp_all
  then have kj: "k < 63" "j < 63"
    using power_less_imp_less_exp [of "2 :: nat" k 62] power_less_imp_less_exp [of "2 :: nat" j 62] by auto
  have k3: "3 \<le> k"
  proof (rule ccontr)
    assume "\<not> 3 \<le> k"
    then have "k \<in> {0, 1, 2}"
      by auto
    then show False
      using pow(1) by (auto simp: k(2) word_le_nat_alt)
  qed
  note sizes = request_size [OF k(2) k3 j(2) kj assms(2) le, folded n_def]
  have "unat al \<le> lim" "unat ?am \<le> lim" and nlim: "unat n \<le> lim"
    using sizes(2) assms(3) by linarith+
  then have mx: "unat (max al ?am) \<le> lim" "?am \<le> max al ?am" "is_power_of_2 (max al ?am)"
    using pow(2) align_min_pow(1) max.cobounded2 [of ?am al] by (simp_all add: max_def)
  have given: "inv s1 (insert (p, n) (block_of ` U))" "IS_ALIGNED p (max al ?am)"
      "\<forall>(q, k) \<in> block_of ` U. blk p n \<inter> blk q k = {}"
      "\<And>a. in_live (block_of ` U) a \<Longrightarrow> byte_at tr s1 a = byte_at tr s a"
    using memalign_gives [OF inv mx(3,2,1) sizes(3,4) nlim p] by blast+
  have "unat p + unat n \<le> 2 ^ 64"
    using live_bounded [OF given(1), of p n] by simp
  note pl = place_in_block [OF k(2) k3 kj(1) assms(2) sizes(1) this, folded q]
  note st = header_stored [OF given(1) insertI1 pl(1), folded s']
  have apart: "\<forall>u \<in> U. blk p n \<inter> blk (fst (block_of u)) (snd (block_of u)) = {}"
    using given(3) by (simp add: case_prod_beta)
  have new: "(p, n) \<notin> block_of ` U"
  proof
    assume "(p, n) \<in> block_of ` U"
    then obtain u where "u \<in> U" "block_of u = (p, n)"
      by auto
    then have "blk p n \<inter> blk p n = {}"
      using bspec [OF apart, of u] by simp
    then show False
      using sizes(1) by (simp add: blk_def)
  qed
  have bytes: "byte_at tr s' a = byte_at tr s a" if a: "in_live (block_of ` U) a" for a
  proof -
    have "in_live (insert (p, n) (block_of ` U)) a" "unat a \<notin> blk p n"
      using a apart by (auto simp: in_live_def case_prod_beta)
    then show ?thesis
      using st(3) given(4) [OF a] by simp
  qed
  have inv': "inv s' (block_of ` U)"
    using inv_mono [OF st(1)] by blast
  have "header_ok tr s' u" if u: "u \<in> U" for u
  proof -
    have "byte_at tr s' a = byte_at tr s a" if "unat a \<in> blk (fst (block_of u)) (snd (block_of u))" for a
      using that u by (intro bytes, unfold in_live_def, intro bexI [of _ "block_of u"]) (simp_all add: case_prod_beta)
    then show ?thesis
      using header_kept [OF inv inv' _ u] hd u by auto
  qed
  then have "heap_inv tr inv s' (insert (q, sz, p, n) U)"
    using st(1,2) pl(1) new inj hd by (auto simp: heap_inv_def block_of_def [of "(q, sz, p, n)"])
  then show ?thesis
    using pl(2) apart bytes by blast
qed

end

section \<open>The early allocator as a provider\<close>

definition idmap :: translation where
  "idmap s a = a"

text \<open>Blocks handed out lie below the unused memory.\<close>

definition early_inv :: "machine \<Rightarrow> (u64 \<times> u64) set \<Rightarrow> bool" where
  "early_inv s L \<longleftrightarrow> pa_base s \<le> pa_top s \<and> unat (pa_top s) + 2 ^ 62 \<le> 2 ^ 64
     \<and> (\<forall>(p, n) \<in> L. unat p + unat n \<le> unat (pa_base s)) \<and> apart L"

lemma early_memalign_gives:
  assumes "early_inv s L" and "is_power_of_2 al" and "unat al \<le> 2 ^ 62" and "unat n \<le> 2 ^ 62"
    and "early_memalign al n s = Ret (p, s')" and "p \<noteq> 0"
  shows "early_inv s' (insert (p, n) L)" and "IS_ALIGNED p al" and "\<forall>(q, k) \<in> L. blk p n \<inter> blk q k = {}"
    and "ram s' = ram s"
proof -
  obtain k where k: "k < 64" "al = 2 ^ k"
    using assms(2) by (auto simp: is_power_of_2_iff)
  have al: "unat al = 2 ^ k"
    using k by simp
  obtain r where r: "phys_alloc_aligned_safe n al True s = Ret (r, s')" "r \<noteq> INVALID_PHYS_ADDR" "p = r"
    using assms(5,6) by (auto simp: early_memalign_def bind_outcome_Ret_iff split: if_splits prod.splits)
  have lt: "pa_base s < pa_top s"
    using r(1) by (auto simp: phys_alloc_aligned_safe_def Let_def sizeof_long_def bind_outcome_Ret_iff)
  have inv: "unat (pa_top s) + 2 ^ 62 \<le> 2 ^ 64" "\<forall>(p, n) \<in> L. unat p + unat n \<le> unat (pa_base s)"
      "apart L"
    using assms(1) by (simp_all add: early_inv_def)
  have b: "unat (pa_base s) + 2 ^ k - 1 < 2 ^ 64" "unat n + 2 ^ k \<le> 2 ^ 64"
    using lt inv(1) assms(3,4) by (auto simp: al word_less_nat_alt)
  let ?a = "ALIGN (pa_base s) (2 ^ k)"
  obtain t w rs where post: "r = (if unat ?a + unat n \<le> unat (pa_top s) then ?a else INVALID_PHYS_ADDR)"
      "s' = (if unat ?a + unat n \<le> unat (pa_top s)
        then s\<lparr>pa_base := n + ?a, pa_regions := pa_regions s @ rs, con := con s @ t, pa_warned := w\<rparr>
        else s\<lparr>con := con s @ t\<rparr>)"
    using phys_alloc_spec [OF lt k(1) b, of True] r(1) k(2) by auto
  have fits: "unat ?a + unat n \<le> unat (pa_top s)"
    using post(1) r(2) by (auto split: if_splits)
  have p: "p = ?a"
    using post(1) fits r(3) by simp
  have s': "s' = s\<lparr>pa_base := n + ?a, pa_regions := pa_regions s @ rs, con := con s @ t, pa_warned := w\<rparr>"
    using post(2) fits by simp
  have e: "unat (n + ?a) = unat ?a + unat n"
    using fits by (rule alloc_end)
  have g: "unat (pa_base s) \<le> unat ?a"
    using ALIGN_gap(2) [OF k(1) b(1)] .
  show "IS_ALIGNED p al"
    using aligned_ALIGN [of k "pa_base s"] k by (simp add: p IS_ALIGNED_iff)
  show new: "\<forall>(q, k) \<in> L. blk p n \<inter> blk q k = {}"
    using inv(2) g by (auto simp: blk_def p)
  show "ram s' = ram s"
    by (simp add: s')
  show "early_inv s' (insert (p, n) L)"
    unfolding early_inv_def
  proof (intro conjI)
    show "pa_base s' \<le> pa_top s'" "unat (pa_top s') + 2 ^ 62 \<le> 2 ^ 64"
      using fits inv(1) e by (simp_all add: s' word_le_nat_alt)
    show "\<forall>(q, k) \<in> insert (p, n) L. unat q + unat k \<le> unat (pa_base s')"
      using inv(2) g e by (auto simp: s' p)
    show "apart (insert (p, n) L)"
      using inv(3) new by (rule apart_insert)
  qed
qed

lemma early_inv_mono: "early_inv s L \<Longrightarrow> L' \<subseteq> L \<Longrightarrow> early_inv s L'"
  using apart_mono [of L L'] by (auto simp: early_inv_def)

lemma early_live_bounded: "early_inv s L \<Longrightarrow> (p, n) \<in> L \<Longrightarrow> unat p + unat n \<le> 2 ^ 64"
  using unat_less_u64 [of "pa_base s"] by (fastforce simp: early_inv_def)

interpretation early_heap: block_provider "early_alloc_ops DEFAULT_MINIMUM_ALIGNMENT" idmap early_inv "2 ^ 62"
proof (unfold_locales, goal_cases)
  case (4 s L L')
  then show ?case by (rule early_inv_mono)
next
  case (5 s L p n q k)
  then show ?case using apartD [of L p n q k] by (simp add: early_inv_def)
next
  case (6 s L p n)
  then show ?case by (rule early_live_bounded)
next
  case (10 s L al n p s')
  then show ?case
    using early_memalign_gives [of s L al n p s'] by (simp add: early_alloc_ops_def byte_at_def idmap_def)
qed (auto simp: early_alloc_ops_def DEFAULT_MINIMUM_ALIGNMENT_def is_power_of_2_def early_inv_def idmap_def)

section \<open>The page allocator as a provider\<close>

lemma aligned_no_wrap:
  assumes "aligned k p" and "k \<le> 64"
  shows "unat p + 2 ^ k \<le> 2 ^ 64"
proof -
  obtain i where i: "unat p = 2 ^ k * i"
    using assms(1) by (auto simp: aligned_iff_dvd dvd_def)
  have "(2 :: nat) ^ 64 = 2 ^ k * 2 ^ (64 - k)"
    using assms(2) by (simp flip: power_add)
  then have "2 ^ k * i < 2 ^ k * (2 :: nat) ^ (64 - k)"
    using unat_less_u64 [of p] i by (simp only:)
  then have "i + 1 \<le> 2 ^ (64 - k)"
    by simp
  then have "2 ^ k * (i + 1) \<le> 2 ^ k * (2 :: nat) ^ (64 - k)"
    by (rule mult_le_mono2)
  then show ?thesis
    unfolding \<open>(2 :: nat) ^ 64 = 2 ^ k * 2 ^ (64 - k)\<close> i by (simp add: distrib_left)
qed

lemma in_page_blk: "page_aligned q \<Longrightarrow> in_page a q \<longleftrightarrow> unat a \<in> blk q PAGE_SIZE"
proof -
  assume "page_aligned q"
  then have w: "unat q + 4096 \<le> 2 ^ 64"
    using aligned_no_wrap [of 12 q] by simp
  show ?thesis
  proof (cases "q \<le> a")
    case True
    then show ?thesis
      by (auto simp: in_page_def blk_def PAGE_SIZE_def unat_sub word_le_nat_alt)
  next
    case False
    then have "unat a < unat q"
      by (simp add: word_le_nat_alt)
    moreover have "unat (a - q) = 2 ^ 64 + unat a - unat q"
      using False by (simp add: unat_sub_if_size word_size word_le_nat_alt)
    ultimately show ?thesis
      using w by (auto simp: in_page_def blk_def PAGE_SIZE_def)
  qed
qed

text \<open>A block of \<open>n\<close> pages that does not wrap consists of the pages of \<open>run\<close>.\<close>

lemma run_blk:
  assumes "page_aligned p" and "unat p + n * 4096 \<le> 2 ^ 64"
  shows "(\<exists>q \<in> set (run p n). x \<in> blk q PAGE_SIZE) \<longleftrightarrow> unat p \<le> x \<and> x < unat p + n * 4096"
proof
  assume "\<exists>q \<in> set (run p n). x \<in> blk q PAGE_SIZE"
  then obtain i where i: "i < n" "x \<in> blk (p + of_nat i * PAGE_SIZE) PAGE_SIZE"
    by (auto simp: run_def)
  then have "unat p + i * 4096 \<le> x" "x < unat p + i * 4096 + 4096"
    using unat_run_page [OF i(1) assms(2)] by (simp_all add: blk_def PAGE_SIZE_def)
  then show "unat p \<le> x \<and> x < unat p + n * 4096"
    using i(1) by linarith
next
  assume x: "unat p \<le> x \<and> x < unat p + n * 4096"
  define i where "i = (x - unat p) div 4096"
  have i: "i < n"
    using x by (auto simp: i_def div_less_iff_less_mult)
  have "i * 4096 + (x - unat p) mod 4096 = x - unat p" "(x - unat p) mod 4096 < 4096"
    by (simp_all add: i_def)
  then have "unat p + i * 4096 \<le> x" "x < unat p + i * 4096 + 4096"
    using x by linarith+
  then have "x \<in> blk (p + of_nat i * PAGE_SIZE) PAGE_SIZE"
    using unat_run_page [OF i assms(2)] by (simp add: blk_def PAGE_SIZE_def)
  then show "\<exists>q \<in> set (run p n). x \<in> blk q PAGE_SIZE"
    using i by (auto simp: run_def)
qed

definition page_inv :: "machine \<Rightarrow> (u64 \<times> u64) set \<Rightarrow> bool" where
  "page_inv s L \<longleftrightarrow> (\<exists>ps. free_list s ps \<and> apart L
     \<and> (\<forall>(p, n) \<in> L. page_aligned p \<and> p \<noteq> 0 \<and> page_aligned n \<and> n \<noteq> 0 \<and> unat p + unat n \<le> 2 ^ 64
          \<and> (\<forall>q \<in> set ps. blk q PAGE_SIZE \<inter> blk p n = {})))"

lemma page_inv_mono: "page_inv s L \<Longrightarrow> L' \<subseteq> L \<Longrightarrow> page_inv s L'"
  unfolding page_inv_def using apart_mono [of L L'] by (meson subset_iff)

lemma page_order:
  assumes "page_aligned n" and "n \<noteq> 0" and "unat n \<le> 2 ^ 62"
  defines "N \<equiv> drop_bit PAGE_SHIFT (ALIGN n PAGE_SIZE)"
  defines "order \<equiv> (if is_power_of_2 N then fls N else fls N + 1)"
  shows "unat N * 4096 = unat n" and "unat N \<le> 2 ^ order" and "order < 52"
proof -
  have "ALIGN n (2 ^ 12) = n"
  proof (rule order_antisym)
    have b: "unat n + 2 ^ 12 - 1 < 2 ^ 64"
      using assms(3) by simp
    show "ALIGN n (2 ^ 12) \<le> n"
      using ALIGN_least(3) [of 12 n "unat n", OF _ b] assms(1) by (simp add: word_le_nat_alt aligned_iff_dvd)
    show "n \<le> ALIGN n (2 ^ 12)"
      using ALIGN_least(1) [of 12 n, OF _ b] by (simp add: word_le_nat_alt)
  qed
  then have "N = drop_bit 12 n"
    by (simp add: N_def PAGE_SHIFT_def PAGE_SIZE_def)
  then have uN: "unat N = unat n div 4096"
    by (simp add: drop_bit_eq_div unat_div)
  then show mul: "unat N * 4096 = unat n"
    using assms(1) by (simp add: aligned_iff_dvd)
  have N0: "N \<noteq> 0"
    using mul assms(2) by (intro notI) (simp add: unat_eq_0)
  have f: "2 ^ fls N \<le> unat N" "unat N < 2 ^ Suc (fls N)"
    using fls_bounds(1,2) [OF N0] by simp_all
  have "unat N = 2 ^ fls N" if "is_power_of_2 N"
  proof -
    obtain k where k: "k < 64" "N = 2 ^ k"
      using \<open>is_power_of_2 N\<close> by (auto simp: is_power_of_2_iff)
    then have "unat N = 2 ^ k"
      by simp
    moreover have "fls N = k"
      using k by (intro fls_unique) (auto simp: bit_exp_iff)
    ultimately show ?thesis
      by simp
  qed
  then show "unat N \<le> 2 ^ order"
    using f(2) by (auto simp: order_def)
  have "(2 :: nat) ^ fls N < 2 ^ 51"
    using f(1) mul assms(3) by simp
  then have "fls N < 51"
    by (rule power_less_imp_less_exp [rotated]) simp
  then show "order < 52"
    by (simp add: order_def)
qed

lemma page_invE:
  assumes "page_inv s L"
  obtains ps where "free_list s ps" and "apart L"
    and "\<And>p n. (p, n) \<in> L \<Longrightarrow> page_aligned p \<and> p \<noteq> 0 \<and> page_aligned n \<and> n \<noteq> 0 \<and> unat p + unat n \<le> 2 ^ 64"
    and "\<And>p n q. (p, n) \<in> L \<Longrightarrow> q \<in> set ps \<Longrightarrow> blk q PAGE_SIZE \<inter> blk p n = {}"
  using assms unfolding page_inv_def by (elim exE conjE) (rule that; fastforce)

lemma page_invI:
  assumes "free_list s ps" and "apart L"
    and "\<And>p n. (p, n) \<in> L \<Longrightarrow> page_aligned p \<and> p \<noteq> 0 \<and> page_aligned n \<and> n \<noteq> 0 \<and> unat p + unat n \<le> 2 ^ 64"
    and "\<And>p n q. (p, n) \<in> L \<Longrightarrow> q \<in> set ps \<Longrightarrow> blk q PAGE_SIZE \<inter> blk p n = {}"
  shows "page_inv s L"
  unfolding page_inv_def
proof (intro exI [of _ ps] conjI assms(1,2) ballI)
  fix x
  assume "x \<in> L"
  then show "case x of (p, n) \<Rightarrow> page_aligned p \<and> p \<noteq> 0 \<and> page_aligned n \<and> n \<noteq> 0 \<and> unat p + unat n \<le> 2 ^ 64
      \<and> (\<forall>q \<in> set ps. blk q PAGE_SIZE \<inter> blk p n = {})"
    using assms(3) [of "fst x" "snd x"] assms(4) [of "fst x" "snd x"] by (simp add: case_prod_beta)
qed

text \<open>A byte of a live block lies in no free page.\<close>

lemma live_not_free:
  assumes "in_live L a" and "\<And>p n q. (p, n) \<in> L \<Longrightarrow> q \<in> set ps \<Longrightarrow> blk q PAGE_SIZE \<inter> blk p n = {}"
    and "pages_ok ps" and "q \<in> set ps"
  shows "\<not> in_page a q"
proof -
  obtain p n where pn: "(p, n) \<in> L" "unat a \<in> blk p n"
    using assms(1) by (auto simp: in_live_def)
  have "page_aligned q"
    using assms(3,4) by (simp add: pages_ok_def)
  then show ?thesis
    using assms(2) [OF pn(1) assms(4)] pn(2) by (auto simp: in_page_blk)
qed

lemma pages_apart:
  assumes "page_aligned p" and "page_aligned q" and "p \<noteq> q"
  shows "blk p PAGE_SIZE \<inter> blk q PAGE_SIZE = {}"
proof (rule ccontr)
  assume "blk p PAGE_SIZE \<inter> blk q PAGE_SIZE \<noteq> {}"
  then obtain x where x: "x \<in> blk p PAGE_SIZE" "x \<in> blk q PAGE_SIZE"
    by auto
  have "x < 2 ^ 64"
    using x(1) aligned_no_wrap [OF assms(1)] by (simp add: blk_def PAGE_SIZE_def)
  then have "unat (of_nat x :: u64) = x"
    by simp
  then show False
    using in_page_unique [OF assms(1,2), of "of_nat x"] assms x by (simp add: in_page_blk)
qed

lemma page_memalign_gives:
  assumes "page_inv s L" and "is_power_of_2 al" and "page_aligned n" and "al \<le> n" and "unat n \<le> 2 ^ 62"
    and "page_memalign al n s = Ret (p, s')" and "p \<noteq> 0"
  shows "page_inv s' (insert (p, n) L)" and "IS_ALIGNED p al" and "\<forall>(q, k) \<in> L. blk p n \<inter> blk q k = {}"
    and "in_live L a \<Longrightarrow> ram s' a = ram s a"
proof -
  obtain ps where ps: "free_list s ps" "apart L"
    and L: "\<And>p n. (p, n) \<in> L \<Longrightarrow> page_aligned p \<and> p \<noteq> 0 \<and> page_aligned n \<and> n \<noteq> 0 \<and> unat p + unat n \<le> 2 ^ 64"
    and fr: "\<And>p n q. (p, n) \<in> L \<Longrightarrow> q \<in> set ps \<Longrightarrow> blk q PAGE_SIZE \<inter> blk p n = {}"
    using page_invE [OF assms(1)] by blast
  obtain k where k: "k < 64" "al = 2 ^ k"
    using assms(2) by (auto simp: is_power_of_2_iff)
  have n0: "n \<noteq> 0"
    using assms(4) k by (intro notI) (simp add: word_le_nat_alt)
  define N where "N = drop_bit PAGE_SHIFT (ALIGN n PAGE_SIZE)"
  define order where "order = (if is_power_of_2 N then fls N else fls N + 1)"
  note ord = page_order [OF assms(3) n0 assms(5), folded N_def, folded order_def]
  have run: "alloc_pages order s = Ret (p, s')"
    using assms(6) unfolding page_memalign_def Let_def order_def N_def by (simp only: n0 if_False)
  then obtain xs ys where sp: "ps = xs @ Alloc_Page.run p (2 ^ order) @ ys" "aligned (order + 12) p" "free_list s' (xs @ ys)"
      "\<And>a. (\<forall>q \<in> set ps. \<not> in_page a q) \<Longrightarrow> ram s' a = ram s a"
    using alloc_pages_spec [OF ps(1) ord(3)] assms(7) by (auto split: if_splits)
  have ok: "pages_ok ps"
    using ps(1) by (simp add: free_list_def)
  have bytes: "unat n \<le> 2 ^ order * 4096"
    using ord(1,2) by (metis mult_le_mono1)
  have al12: "page_aligned p"
    using aligned_weaken [OF sp(2)] by simp
  have wrap: "unat p + 2 ^ order * 4096 \<le> 2 ^ 64"
    using aligned_no_wrap [OF sp(2)] ord(3) by (simp add: power_add)
  have cover: "\<exists>q \<in> set (Alloc_Page.run p (2 ^ order)). x \<in> blk q PAGE_SIZE" if "x \<in> blk p n" for x
    using run_blk [OF al12 wrap, of x] that bytes by (auto simp: blk_def)
  show new: "\<forall>(q, k) \<in> L. blk p n \<inter> blk q k = {}"
  proof (clarify, rule ccontr)
    fix q k
    assume qk: "(q, k) \<in> L" and "blk p n \<inter> blk q k \<noteq> {}"
    then obtain x where x: "x \<in> blk p n" "x \<in> blk q k"
      by auto
    then show False
      using cover [OF x(1)] fr [OF qk] sp(1) by auto
  qed
  have "(2 :: nat) ^ k \<le> 2 ^ (order + 12)"
    using assms(4) bytes k by (simp add: word_le_nat_alt power_add)
  then have "k \<le> order + 12"
    by simp
  then show "IS_ALIGNED p al"
    using k aligned_weaken [OF sp(2)] by (simp add: IS_ALIGNED_iff)
  show "in_live L a \<Longrightarrow> ram s' a = ram s a"
    using live_not_free [OF _ fr ok] sp(4) by blast
  have rest: "blk q PAGE_SIZE \<inter> blk p n = {}" if q: "q \<in> set (xs @ ys)" for q
  proof (rule ccontr)
    assume "blk q PAGE_SIZE \<inter> blk p n \<noteq> {}"
    then obtain y where y: "y \<in> blk q PAGE_SIZE" "y \<in> blk p n"
      by auto
    then obtain x r where x: "x \<in> blk q PAGE_SIZE" "r \<in> set (Alloc_Page.run p (2 ^ order))" "x \<in> blk r PAGE_SIZE"
      using cover [OF y(2)] by auto
    have "page_aligned q" "page_aligned r" "q \<noteq> r"
      using ok q x(2) by (auto simp: pages_ok_def sp(1))
    then show False
      using pages_apart x(1,3) by blast
  qed
  show "page_inv s' (insert (p, n) L)"
  proof (rule page_invI [OF sp(3) apart_insert [OF ps(2) new]], goal_cases)
    case (1 q k)
    then show ?case
      using L [of q k] al12 assms(3,7) n0 wrap bytes by auto
  next
    case (2 q k r)
    then show ?case
      using rest fr [of q k r] sp(1) by auto
  qed
qed

lemma page_free_takes:
  assumes "page_inv s L" and "(p, n) \<in> L"
  shows "\<exists>s'. page_free p n s = Ret s' \<and> page_inv s' (L - {(p, n)})
    \<and> (\<forall>a. in_live (L - {(p, n)}) a \<longrightarrow> ram s' a = ram s a)
    \<and> (\<exists>ps. free_list s ps \<and> free_list s' (run p (unat n div 4096) @ ps))"
proof -
  obtain ps where ps: "free_list s ps" "apart L"
    and L: "\<And>p n. (p, n) \<in> L \<Longrightarrow> page_aligned p \<and> p \<noteq> 0 \<and> page_aligned n \<and> n \<noteq> 0 \<and> unat p + unat n \<le> 2 ^ 64"
    and fr: "\<And>p n q. (p, n) \<in> L \<Longrightarrow> q \<in> set ps \<Longrightarrow> blk q PAGE_SIZE \<inter> blk p n = {}"
    using page_invE [OF assms(1)] by blast
  have pn: "page_aligned p" "p \<noteq> 0" "page_aligned n" "n \<noteq> 0" "unat p + unat n \<le> 2 ^ 64"
    using L [OF assms(2)] by auto
  define N where "N = unat n div 4096"
  have N: "N * 4096 = unat n"
    using pn(3) by (simp add: N_def aligned_iff_dvd)
  have Nlt: "N < 2 ^ 52"
    using unat_less_u64 [of n] N by simp
  have N0: "0 < N"
    using N pn(4) by (cases N) (auto simp: unat_eq_0)
  have nN: "of_nat N * PAGE_SIZE = n"
    using unat_page_offset [OF Nlt] N by (simp add: word_unat_eq_iff)
  have wrap: "unat p + N * 4096 \<le> 2 ^ 64"
    using pn(5) N by simp
  have cover: "(\<exists>q \<in> set (run p N). x \<in> blk q PAGE_SIZE) \<longleftrightarrow> x \<in> blk p n" for x
    using run_blk [OF pn(1) wrap, of x] N by (simp add: blk_def)
  have page: "unat q \<in> blk q PAGE_SIZE" for q :: u64
    by (simp add: blk_def PAGE_SIZE_def)
  have "set (run p N) \<inter> set ps = {}"
  proof (rule ccontr)
    assume "set (run p N) \<inter> set ps \<noteq> {}"
    then obtain q where q: "q \<in> set (run p N)" "q \<in> set ps"
      by auto
    then have "unat q \<in> blk p n"
      using cover page by blast
    then show False
      using fr [OF assms(2) q(2)] page [of q] by auto
  qed
  then have ok: "pages_ok (run p N @ ps)"
    using run_pages_ok [OF pn(1,2) wrap] ps(1) by (auto simp: pages_ok_def free_list_def)
  obtain s' where s': "free_pages p n s = Ret s'" "free_list s' (run p N @ ps)"
      "\<And>a. (\<forall>q \<in> set (run p N). \<not> in_page a q) \<Longrightarrow> ram s' a = ram s a"
    using free_pages_push [OF ps(1) ok N0 Nlt wrap] unfolding nN by auto
  have other: "blk r PAGE_SIZE \<inter> blk q k = {}" if "r \<in> set (run p N)" "(q, k) \<in> L - {(p, n)}" for q k r
  proof -
    have "blk p n \<inter> blk q k = {}"
      using apartD [OF ps(2) assms(2)] that(2) by auto
    moreover have "blk r PAGE_SIZE \<subseteq> blk p n"
      using cover that(1) by blast
    ultimately show ?thesis
      by blast
  qed
  have run_ok: "pages_ok (run p N)"
    using run_pages_ok [OF pn(1,2) wrap] .
  have "page_inv s' (L - {(p, n)})"
  proof (rule page_invI [OF s'(2) apart_mono [OF ps(2) Diff_subset]], goal_cases)
    case (1 q k)
    then show ?case
      using L [of q k] by auto
  next
    case (2 q k r)
    then show ?case
      using other [of r q k] fr [of q k r] by auto
  qed
  moreover have "ram s' a = ram s a" if "in_live (L - {(p, n)}) a" for a
    using live_not_free [OF that other run_ok] s'(3) by blast
  ultimately show ?thesis
    using s'(1,2) ps(1) by (auto simp: page_free_def N_def)
qed

lemma page_write_live:
  assumes "page_inv s L" and "in_live L a"
  shows "page_inv (s\<lparr>ram := (ram s)(a := c)\<rparr>) L"
proof -
  obtain ps where ps: "free_list s ps" "apart L"
    and L: "\<And>p n. (p, n) \<in> L \<Longrightarrow> page_aligned p \<and> p \<noteq> 0 \<and> page_aligned n \<and> n \<noteq> 0 \<and> unat p + unat n \<le> 2 ^ 64"
    and fr: "\<And>p n q. (p, n) \<in> L \<Longrightarrow> q \<in> set ps \<Longrightarrow> blk q PAGE_SIZE \<inter> blk p n = {}"
    using page_invE [OF assms(1)] by blast
  have ok: "pages_ok ps"
    using ps(1) by (simp add: free_list_def)
  have "load64 ((ram s)(a := c)) q = load64 (ram s) q" if "q \<in> set ps" for q
  proof (rule load64_other_page)
    show "page_aligned q"
      using ok that by (simp add: pages_ok_def)
    show "((ram s)(a := c)) b = ram s b" if "in_page b q" for b
      using live_not_free [OF assms(2) fr ok \<open>q \<in> set ps\<close>] that by auto
  qed
  then have "free_list (s\<lparr>ram := (ram s)(a := c)\<rparr>) ps"
    using ps(1) chain_cong [of ps "(ram s)(a := c)" "ram s"] by (simp add: free_list_def)
  then show ?thesis
    using ps(2) L fr by (rule page_invI)
qed

interpretation page_heap: block_provider page_alloc_ops idmap page_inv "2 ^ 62"
proof (unfold_locales, goal_cases)
  case (4 s L L')
  then show ?case by (rule page_inv_mono)
next
  case (5 s L p n q k)
  then show ?case using apartD [of L p n q k] by (auto elim: page_invE)
next
  case (6 s L p n)
  then show ?case by (auto elim!: page_invE)
next
  case (9 s L a c)
  then show ?case using page_write_live [of s L a c] by (auto simp: idmap_def)
next
  case (10 s L al n p s')
  have "page_aligned n"
    using 10 IS_ALIGNED_iff [of 12 n] by (simp add: page_alloc_ops_def PAGE_SIZE_def)
  then show ?case
    using 10 page_memalign_gives [of s L al n p s'] by (simp add: page_alloc_ops_def byte_at_def idmap_def)
next
  case (11 s L p n f)
  then show ?case
    using page_free_takes [of s L p n] by (auto simp: page_alloc_ops_def byte_at_def idmap_def)
qed (auto simp: page_alloc_ops_def PAGE_SIZE_def is_power_of_2_def idmap_def)

section \<open>Properties\<close>

lemma placed_blk: "placed (q, sz, p, n) \<Longrightarrow> blk q sz \<subseteq> blk p n"
  by (auto simp: placed_def blk_def)

lemma heap_areas_apart:
  assumes "heap_inv tr ok s (insert (q, sz, p, n) U)"
    and "\<forall>u \<in> U. blk p n \<inter> blk (fst (block_of u)) (snd (block_of u)) = {}"
  shows "\<forall>(q', n', p', N') \<in> U. blk q sz \<inter> blk q' n' = {}"
proof (clarify)
  fix q' n' p' N'
  assume u: "(q', n', p', N') \<in> U"
  have "blk q sz \<subseteq> blk p n" "blk q' n' \<subseteq> blk p' N'"
    using assms(1) u by (auto simp: heap_inv_def intro: placed_blk [THEN subsetD])
  moreover have "blk p n \<inter> blk p' N' = {}"
    using bspec [OF assms(2) u] by (simp add: block_of_def)
  ultimately show "blk q sz \<inter> blk q' n' = {}"
    by blast
qed

text \<open>
  C2: on the page allocator \<open>memalign\<close> returns a pointer aligned as asked, to an area that overlaps no
  area allocated before; it leaves the contents of the earlier blocks alone, and the heap
  stays well formed, so that the header of every area still names its block.
\<close>

theorem page_heap_memalign:
  assumes "heap_inv idmap page_inv s U" and "0 < sz" and "unat sz + unat al + 4096 + 16 \<le> 2 ^ 62"
    and "memalign page_alloc_ops idmap al sz s = Ret (q, s')"
  shows "\<exists>p n. heap_inv idmap page_inv s' (insert (q, sz, p, n) U) \<and> IS_ALIGNED q al
    \<and> (\<forall>(q', n', p', N') \<in> U. blk q sz \<inter> blk q' n' = {})
    \<and> (\<forall>a. in_live (block_of ` U) a \<longrightarrow> ram s' a = ram s a)"
proof -
  have le: "unat sz + unat al + unat (ops_align_min page_alloc_ops) + 16 \<le> 2 ^ 62"
    using assms(3) by (simp add: page_alloc_ops_def PAGE_SIZE_def)
  obtain p n where pn: "heap_inv idmap page_inv s' (insert (q, sz, p, n) U)" "IS_ALIGNED q al"
      "\<forall>u \<in> U. blk p n \<inter> blk (fst (block_of u)) (snd (block_of u)) = {}"
      "\<forall>a. in_live (block_of ` U) a \<longrightarrow> byte_at idmap s' a = byte_at idmap s a"
    using page_heap.heap_memalign [OF assms(1,2) le assms(4)] by auto
  show ?thesis
    using pn heap_areas_apart [OF pn(1,3)] by (auto simp: byte_at_def idmap_def)
qed

theorem page_heap_memalign_witness:
  "\<exists>s q s'. memalign page_alloc_ops idmap 64 100 s = Ret (q, s') \<and> IS_ALIGNED q 64"
proof -
  define s0 where "s0 = \<lparr>ram = (\<lambda>_. 0), con = [], pa_base = 0, pa_top = 0, pa_regions = [],
    pa_warned = False, pa_align_min = 32, freelist = 0, vfree_top = 0, page_root = 0\<rparr>"
  define s where "s = free_page 4096 s0"
  have "free_list s0 []"
    by (simp add: s0_def free_list_def pages_ok_def)
  then have fl: "free_list s [4096]"
    unfolding s_def by (rule free_page_push) (simp_all add: aligned_def)
  then have inv: "heap_inv idmap page_inv s {}"
    using page_invI [OF fl, of "{}"] by (simp add: heap_inv_def apart_def)
  have "find_run (2 ^ 0) (mask (0 + 12)) [] [] [4096] \<noteq> None"
    by (simp add: mask_eq_pow)
  then obtain p s1 where p: "alloc_pages 0 s = Ret (p, s1)" "p \<noteq> 0"
    using alloc_pages_spec [OF fl, of 0] by (simp only: if_False) auto
  have n: "ALIGN (100 + (64 - 1) + METADATA_EXTRA) PAGE_SIZE = 4096"
    by (simp add: ALIGN_def ALIGN_MASK_def METADATA_EXTRA_def PAGE_SIZE_def)
  have one: "drop_bit PAGE_SHIFT (ALIGN 4096 PAGE_SIZE) = 1" "is_power_of_2 1" "is_power_of_2 64"
    by (simp_all add: ALIGN_def ALIGN_MASK_def PAGE_SIZE_def PAGE_SHIFT_def is_power_of_2_def drop_bit_eq_div)
  have f: "fls 1 = 0"
    by (rule fls_unique) (simp_all add: bit_1_iff)
  have "page_memalign 4096 4096 s = Ret (p, s1)"
    using p(1) by (simp add: page_memalign_def Let_def one f)
  then have "\<exists>q s'. memalign page_alloc_ops idmap 64 100 s = Ret (q, s')"
    using p(2) n one by (simp add: memalign_def Let_def page_alloc_ops_def PAGE_SIZE_def max_def)
  then show ?thesis
    using page_heap_memalign [OF inv, of 100 64] by auto
qed

text \<open>
  C3: freeing an area of a well-formed heap on the page allocator returns: the header leads
  back to exactly the block that was taken; the free list then consists of the pages of this block, in order, followed
  by the pages that were free before; and the heap without the area is well formed with the contents of the other blocks unchanged.
\<close>

theorem page_heap_free:
  assumes "heap_inv idmap page_inv s U" and "(q, n, p, N) \<in> U"
  shows "block_begin idmap q s = p \<and> block_size idmap q s = N
    \<and> (\<exists>s' fs. free page_alloc_ops idmap q s = Ret s' \<and> heap_inv idmap page_inv s' (U - {(q, n, p, N)})
      \<and> free_list s fs \<and> free_list s' (run p (unat N div 4096) @ fs)
      \<and> (\<forall>a. in_live (block_of ` (U - {(q, n, p, N)})) a \<longrightarrow> ram s' a = ram s a))"
proof -
  have "header_ok idmap s (q, n, p, N)" "page_inv s (block_of ` U)" "(p, N) \<in> block_of ` U"
    using assms by (auto simp: heap_inv_def block_of_def intro: rev_image_eqI)
  then have b: "block_begin idmap q s = p" "block_size idmap q s = N"
    and f: "\<exists>s' fs. page_free p N s = Ret s' \<and> free_list s fs \<and> free_list s' (run p (unat N div 4096) @ fs)"
    using page_free_takes [of s "block_of ` U" p N] by (auto simp: block_begin_def block_size_def header_ok_def)
  have "free page_alloc_ops idmap q s = page_free p N s"
    using b by (simp add: free_def page_alloc_ops_def)
  then show ?thesis
    using page_heap.heap_free [OF assms] b f by (auto simp: byte_at_def idmap_def)
qed

theorem page_heap_free_witness:
  "\<exists>s s' q n p N. heap_inv idmap page_inv s {(q, n, p, N)} \<and> free page_alloc_ops idmap q s = Ret s'
     \<and> heap_inv idmap page_inv s' {} \<and> free_list s [] \<and> free_list s' [8192]"
proof -
  define s0 where "s0 = \<lparr>ram = (\<lambda>_. 0), con = [], pa_base = 0, pa_top = 0, pa_regions = [],
    pa_warned = False, pa_align_min = 32, freelist = 0, vfree_top = 0, page_root = 0\<rparr>"
  define s where "s = s0\<lparr>ram := store64 (store64 (ram s0) 8192 16) 8200 4096\<rparr>"
  have fl: "free_list s []"
    by (simp add: s_def s0_def free_list_def pages_ok_def)
  have "page_inv s {(8192, 4096)}"
    by (rule page_invI [OF fl]) (auto simp: apart_def aligned_def)
  moreover have "load64 (ram s) 8192 = 16" "load64 (ram s) 8200 = 4096"
    by (simp_all add: s_def load64_store64_same load64_store64_other aligned_def)
  ultimately have h: "heap_inv idmap page_inv s {(8208, 64, 8192, 4096)}"
    by (simp add: heap_inv_def block_of_def placed_def header_ok_def ld64_def idmap_def OFS_SLACK_def
        OFS_SIZE_def aligned_def)
  have "fs = []" if "free_list s fs" for fs
    using that fl chain_unique unfolding free_list_def by blast
  then have "\<exists>s'. free page_alloc_ops idmap 8208 s = Ret s' \<and> heap_inv idmap page_inv s' {} \<and> free_list s' (run 8192 1 @ [])"
    using page_heap_free [OF h insertI1] by auto
  then obtain s' where "free page_alloc_ops idmap 8208 s = Ret s'" "heap_inv idmap page_inv s' {}" "free_list s' [8192]"
    by auto
  then show ?thesis
    using h fl by blast
qed

text \<open>
  C4: on the early allocator \<open>memalign\<close> gives the same guarantees: alignment, no overlap with earlier
  areas, earlier blocks untouched.
\<close>

theorem early_heap_memalign:
  assumes "heap_inv idmap early_inv s U" and "0 < sz" and "unat sz + unat al + 32 + 16 \<le> 2 ^ 62"
    and "memalign (early_alloc_ops DEFAULT_MINIMUM_ALIGNMENT) idmap al sz s = Ret (q, s')"
  shows "\<exists>p n. heap_inv idmap early_inv s' (insert (q, sz, p, n) U) \<and> IS_ALIGNED q al
    \<and> (\<forall>(q', n', p', N') \<in> U. blk q sz \<inter> blk q' n' = {})
    \<and> (\<forall>a. in_live (block_of ` U) a \<longrightarrow> ram s' a = ram s a)"
proof -
  let ?ops = "early_alloc_ops DEFAULT_MINIMUM_ALIGNMENT"
  have le: "unat sz + unat al + unat (ops_align_min ?ops) + 16 \<le> 2 ^ 62"
    using assms(3) by (simp add: early_alloc_ops_def DEFAULT_MINIMUM_ALIGNMENT_def)
  obtain p n where pn: "heap_inv idmap early_inv s' (insert (q, sz, p, n) U)" "IS_ALIGNED q al"
      "\<forall>u \<in> U. blk p n \<inter> blk (fst (block_of u)) (snd (block_of u)) = {}"
      "\<forall>a. in_live (block_of ` U) a \<longrightarrow> byte_at idmap s' a = byte_at idmap s a"
    using early_heap.heap_memalign [OF assms(1,2) le assms(4)] by auto
  show ?thesis
    using pn heap_areas_apart [OF pn(1,3)] by (auto simp: byte_at_def idmap_def)
qed

theorem early_heap_memalign_witness:
  "\<exists>s q s'. memalign (early_alloc_ops DEFAULT_MINIMUM_ALIGNMENT) idmap 8 100 s = Ret (q, s') \<and> IS_ALIGNED q 8"
proof -
  let ?ops = "early_alloc_ops DEFAULT_MINIMUM_ALIGNMENT"
  define s where "s = \<lparr>ram = (\<lambda>_. 0), con = [], pa_base = 4096, pa_top = 65536, pa_regions = [],
    pa_warned = False, pa_align_min = 32, freelist = 0, vfree_top = 0, page_root = 0\<rparr>"
  have inv: "heap_inv idmap early_inv s {}"
    by (simp add: heap_inv_def early_inv_def apart_def s_def)
  have "\<exists>s'. early_memalign 32 128 s = Ret (4096, s')"
    by (simp add: early_memalign_def phys_alloc_aligned_safe_def Let_def s_def sizeof_long_def ALIGN_def
        ALIGN_MASK_def INVALID_PHYS_ADDR_def PHYS_ALLOC_NR_REGIONS_def)
  then obtain s1 where s1: "early_memalign 32 128 s = Ret (4096, s1)"
    by blast
  have "\<exists>q s'. memalign ?ops idmap 8 100 s = Ret (q, s')"
    by (simp add: memalign_def Let_def early_alloc_ops_def DEFAULT_MINIMUM_ALIGNMENT_def is_power_of_2_def
        max_def METADATA_EXTRA_def ALIGN_def ALIGN_MASK_def s1)
  then show ?thesis
    using early_heap_memalign [OF inv, of 100 8] by auto
qed

end
