(* ===== verification/Vmalloc.thy ===== *)
theory Vmalloc
  imports X86_Split Alloc
begin

text \<open>
  The virtual memory allocator \<^verbatim>\<open>lib/vmalloc.c\<close> and \<open>ioremap\<close> of \<^verbatim>\<open>lib/x86/io.c\<close>. Virtual pages are
  taken downwards from \<open>vfree_top\<close>, backed by pages of the page allocator and entered in the page
  tables at \<open>page_root\<close>. The lemmas show which frames back an allocation and that freeing returns
  exactly these.
\<close>

section \<open>Operations\<close>

definition alloc_vpages :: "u64 \<Rightarrow> machine \<Rightarrow> u64 \<times> machine" where
  "alloc_vpages nr s = (let s = s\<lparr>vfree_top := vfree_top s - PAGE_SIZE * nr\<rparr> in (vfree_top s, s))"

definition alloc_vpage :: "machine \<Rightarrow> u64 \<times> machine" where
  "alloc_vpage s = alloc_vpages 1 s"

definition init_alloc_vpage :: "u64 \<Rightarrow> machine \<Rightarrow> machine" where
  "init_alloc_vpage t s = s\<lparr>vfree_top := t\<rparr>"

primrec vmap_loop :: "nat \<Rightarrow> u64 \<Rightarrow> u64 \<Rightarrow> machine \<Rightarrow> machine" where
  "vmap_loop 0 phys p s = s"
| "vmap_loop (Suc pages) phys p s =
     vmap_loop pages (phys + PAGE_SIZE) (p + PAGE_SIZE) (snd (install_page (page_root s) phys p s))"

text \<open>The number of pages is an \<^verbatim>\<open>unsigned\<close>.\<close>

definition vmap :: "u64 \<Rightarrow> u64 \<Rightarrow> machine \<Rightarrow> u64 \<times> machine" where
  "vmap phys sz s =
     (let sz = (sz + PAGE_SIZE - 1) AND NOT (PAGE_SIZE - 1);
          pages = (ucast (sz div PAGE_SIZE) :: u32);
          (p, s) = alloc_vpages (ucast pages) s;
          phys = phys AND NOT (PAGE_SIZE - 1)
      in (p, vmap_loop (unat pages) phys p s))"

primrec vm_memalign_loop :: "nat \<Rightarrow> u64 \<Rightarrow> machine \<Rightarrow> machine" where
  "vm_memalign_loop 0 p s = s"
| "vm_memalign_loop (Suc pages) p s =
     (let (pa, s) = alloc_page s
      in vm_memalign_loop pages (p + PAGE_SIZE) (snd (install_page (page_root s) pa p s)))"

definition vm_memalign :: "u64 \<Rightarrow> u64 \<Rightarrow> machine \<Rightarrow> (u64 \<times> machine) outcome" where
  "vm_memalign alignment sz s =
     bind_outcome (assert_that (alignment \<le> PAGE_SIZE) ''alignment <= PAGE_SIZE'') (\<lambda>_.
       let sz = (sz + PAGE_SIZE - 1) AND NOT (PAGE_SIZE - 1);
           pages = (ucast (sz div PAGE_SIZE) :: u32);
           (p, s) = alloc_vpages (ucast pages) s
       in Ret (p, vm_memalign_loop (unat pages) p s))"

partial_function (option) vm_free_loop :: "u64 \<Rightarrow> u64 \<Rightarrow> machine \<Rightarrow> machine outcome option" where
  "vm_free_loop p sz s =
     (if sz = 0 then Some (Ret s)
      else (case virt_to_pte_phys (page_root s) p s of
              Abort e \<Rightarrow> Some (Abort e)
            | Ret pa \<Rightarrow> vm_free_loop (p + PAGE_SIZE) (sz - PAGE_SIZE) (free_page pa s)))"

definition vm_free :: "u64 \<Rightarrow> u64 \<Rightarrow> machine \<Rightarrow> machine outcome" where
  "vm_free p sz s = bind_outcome (returns (vm_free_loop p sz s)) (\<lambda>r. r)"

definition vmalloc_ops :: alloc_ops where
  "vmalloc_ops = \<lparr>ops_memalign = vm_memalign, ops_free = Some vm_free, ops_align_min = PAGE_SIZE\<rparr>"

text \<open>\<open>vm_on\<close> says whether \<^verbatim>\<open>alloc_ops\<close> points to \<open>vmalloc_ops\<close> already.\<close>

definition setup_vm :: "u64 \<Rightarrow> u64 \<Rightarrow> bool \<Rightarrow> machine \<Rightarrow> (bool \<times> machine) outcome" where
  "setup_vm cr0 cr4 vm_on s =
     (if vm_on then Ret (vm_on, s)
      else bind_outcome (phys_alloc_get_unused s) (\<lambda>((base, tp), s).
        bind_outcome (assert_that (base \<noteq> tp \<or> page_alloc_initialized s) ''base != top || page_alloc_initialized()'') (\<lambda>_.
        bind_outcome
          (if \<not> page_alloc_initialized s then
             let base = (base + PAGE_SIZE - 1) AND - PAGE_SIZE; tp = tp AND - PAGE_SIZE
             in bind_outcome (free_pages base (tp - base) s) (\<lambda>s. Ret (tp, s))
           else Ret (tp, s)) (\<lambda>(tp, s).
        bind_outcome (setup_mmu cr0 cr4 tp s) (\<lambda>(root, s).
        Ret (True, s\<lparr>page_root := root\<rparr>))))))"

definition ioremap :: "u64 \<Rightarrow> u64 \<Rightarrow> machine \<Rightarrow> u64 \<times> machine" where
  "ioremap phys_addr sz s =
     (let base = phys_addr AND PAGE_MASK; offset = phys_addr - base; (p, s) = vmap phys_addr sz s in (p + offset, s))"

section \<open>Pages of a range\<close>

lemma vpn_page:
  assumes "page_aligned p"
  shows "vpn 1 (p + of_nat i * PAGE_SIZE) = take_bit 36 (drop_bit 12 p + of_nat i)"
proof -
  have "push_bit 12 (drop_bit 12 p) = p"
    using assms bits_ident [of 12 p] by (simp add: aligned_def)
  then have "p + of_nat i * PAGE_SIZE = push_bit 12 (drop_bit 12 p + of_nat i)"
    by (simp add: push_bit_add push_bit_eq_mult PAGE_SIZE_def)
  moreover have "drop_bit 12 (push_bit 12 x) = take_bit 52 x" for x :: u64
    by (rule bit_word_eqI) (auto simp: bit_drop_bit_eq bit_push_bit_iff bit_take_bit_iff)
  ultimately show ?thesis
    by (simp add: vpn_def PGDIR_BITS_simps min_def)
qed

lemma vpn_page_inj:
  assumes "page_aligned p" and "i < 2 ^ 36" and "j < 2 ^ 36"
  shows "vpn 1 (p + of_nat i * PAGE_SIZE) = vpn 1 (p + of_nat j * PAGE_SIZE) \<longleftrightarrow> i = j"
proof
  let ?a = "drop_bit 12 p"
  assume "vpn 1 (p + of_nat i * PAGE_SIZE) = vpn 1 (p + of_nat j * PAGE_SIZE)"
  then have "take_bit 36 (?a + of_nat i) = take_bit 36 (?a + of_nat j)"
    by (simp only: vpn_page [OF assms(1)])
  then have "take_bit 36 (take_bit 36 (- ?a) + take_bit 36 (?a + of_nat i))
      = take_bit 36 (take_bit 36 (- ?a) + take_bit 36 (?a + of_nat j))"
    by (simp only:)
  then have "take_bit 36 (of_nat i :: u64) = take_bit 36 (of_nat j)"
    by (simp only: take_bit_word_add add.assoc [symmetric] add.left_inverse add_0_left)
  then have "unat (take_bit 36 (of_nat i :: u64)) = unat (take_bit 36 (of_nat j :: u64))"
    by (rule arg_cong)
  moreover have "unat (take_bit 36 (of_nat k :: u64)) = k" if "k < 2 ^ 36" for k
    using that unfolding unat_take_bit_mod by simp
  ultimately show "i = j"
    using assms(2,3) by (simp only:)
qed simp

lemma page_range_aligned: "page_aligned t \<Longrightarrow> page_aligned (t - PAGE_SIZE * of_nat n)"
proof -
  assume "page_aligned t"
  moreover have "take_bit 12 (- (of_nat n * PAGE_SIZE) :: u64) = 0"
    using page_aligned_add [of 0 n] take_bit_word_add [of 12 "of_nat n * PAGE_SIZE" "- (of_nat n * PAGE_SIZE)"]
    by (simp add: aligned_def)
  ultimately show ?thesis
    using take_bit_word_add [of 12 t "- (of_nat n * PAGE_SIZE)"] by (simp add: aligned_def mult.commute)
qed

section \<open>Backing pages\<close>

text \<open>The tables, the frames handed out and the free pages are pairwise different pages.\<close>

definition vm_inv :: "u64 \<Rightarrow> u64 list \<Rightarrow> u64 list \<Rightarrow> machine \<Rightarrow> bool" where
  "vm_inv root frames fs s \<longleftrightarrow> free_list s fs \<and> tree_ok (ram s) 4 root (frames @ fs) \<and> page_root s = root"

lemma tree_ok_weaken: "tree_ok m l pt (xs @ ys) \<Longrightarrow> tree_ok m l pt ys" "tree_ok m l pt (xs @ ys) \<Longrightarrow> tree_ok m l pt xs"
  by (auto simp: gtree_def)

lemma tree_ok_agree:
  assumes "tree_ok m 4 root fs" and "agree (set (tabs m 4 root)) m' m"
  shows "tree_ok m' 4 root fs" and "lookup m' 4 root va = lookup m 4 root va"
  using tabs_cong [OF assms(2)] lookup_cong [OF assms(2)] assms(1) by (simp_all add: gtree_def)

lemma alloc_page_tree:
  assumes "free_list s (pa # fs)" and "tree_ok (ram s) 4 root (frames @ pa # fs)"
  shows "agree (set (tabs (ram s) 4 root)) (ram (snd (alloc_page s))) (ram s)"
proof (rule outside_agree)
  show "\<forall>x. (\<forall>p \<in> {pa}. \<not> in_page x p) \<longrightarrow> ram (snd (alloc_page s)) x = ram s x"
    using alloc_page_pop(4) [OF assms(1)] by simp
  show "{pa} \<inter> set (tabs (ram s) 4 root) = {}" "\<forall>p \<in> {pa} \<union> set (tabs (ram s) 4 root). page_aligned p"
    using assms(2) table_page_aligned unfolding gtree_def by auto
qed

lemma alloc_page_fields: "snd (alloc_page s) = s\<lparr>ram := ram (snd (alloc_page s)), freelist := freelist (snd (alloc_page s))\<rparr>"
  by (auto simp: alloc_page_def Let_def)

lemma table_page_frame: "table_page p \<Longrightarrow> frame_ok 1 p"
  using table_page_aligned [of p] by (simp add: frame_ok_def table_page_def PGDIR_BITS_simps)

text \<open>One page: a frame is taken and mapped.\<close>

lemma vm_step:
  assumes inv: "vm_inv root frames (pa # fs) s" and len: "3 \<le> length fs" and un: "lookup (ram s) 4 root p = None"
  defines "s1 \<equiv> snd (alloc_page s)"
  defines "s2 \<equiv> snd (install_page root pa p s1)"
  shows "\<exists>fs'. vm_inv root (frames @ [pa]) fs' s2 \<and> length fs \<le> 3 + length fs' \<and> set fs' \<subseteq> set fs
    \<and> (\<forall>va. lookup (ram s2) 4 root va = (if vpn 1 va = vpn 1 p then Some (1, table_entry pa) else lookup (ram s) 4 root va))
    \<and> s2 = s\<lparr>ram := ram s2, freelist := freelist s2\<rparr>"
proof -
  have i: "free_list s (pa # fs)" "tree_ok (ram s) 4 root (frames @ pa # fs)" "page_root s = root"
    using inv by (simp_all add: vm_inv_def)
  note ag = alloc_page_tree [OF i(1,2), folded s1_def]
  note t1 = tree_ok_agree [OF i(2) ag]
  have fl: "free_list s1 fs"
    using alloc_page_pop(2) [OF i(1)] by (simp add: s1_def)
  have "tree_ok (ram s1) 4 root ((frames @ [pa]) @ fs)"
    using t1(1) by simp
  then have tr: "tree_ok (ram s1) 4 root fs"
    by (rule tree_ok_weaken)
  have pf: "path_free (ram s1) 4 1 root p"
    using un t1(2) by (intro unmapped_path_free) simp
  have fo: "frame_ok 1 pa"
    using i(2) by (intro table_page_frame) (simp add: gtree_def)
  obtain used fs' a where r: "install_page root pa p s1 = (a, s2)" "fs = used @ fs'" "length used \<le> 3"
      "updated 4 root s1 used fs' s2 (\<lambda>va. if vpn 1 va = vpn 1 p then Some (1, table_entry pa) else lookup (ram s1) 4 root va)"
    using install_page_maps [OF fl tr _ _ pf fo fo] len unfolding s2_def by auto
  have up: "free_list s2 fs'" "s2 = s1\<lparr>ram := ram s2, freelist := freelist s2\<rparr>" "distinct (tabs (ram s2) 4 root)"
      "set (tabs (ram s2) 4 root) \<subseteq> set (tabs (ram s1) 4 root) \<union> set used"
      "\<forall>va. lookup (ram s2) 4 root va = (if vpn 1 va = vpn 1 p then Some (1, table_entry pa) else lookup (ram s1) 4 root va)"
    using r(4) unfolding gupdated_def by blast+
  have "tree_ok (ram s2) 4 root ((frames @ [pa]) @ fs')"
    using t1(1) up(3,4) unfolding gtree_def r(2) by auto
  moreover have "s2 = s\<lparr>ram := ram s2, freelist := freelist s2\<rparr>"
    using up(2) alloc_page_fields [of s, folded s1_def] by (cases s, cases s1, cases s2) simp
  moreover have "page_root s2 = root"
    using arg_cong [OF calculation(2), of page_root] i(3) by simp
  ultimately show ?thesis
    using up(1,5) t1(2) r(2,3) unfolding vm_inv_def by (intro exI [of _ fs']) auto
qed

text \<open>The frames that back the pages from \<open>p\<close> on.\<close>

definition backed :: "mem \<Rightarrow> u64 \<Rightarrow> u64 \<Rightarrow> u64 list \<Rightarrow> bool" where
  "backed m root p frames \<longleftrightarrow>
     (\<forall>i < length frames. lookup m 4 root (p + of_nat i * PAGE_SIZE) = Some (1, table_entry (frames ! i)))"

lemma page_shift: "p + PAGE_SIZE + of_nat i * PAGE_SIZE = p + of_nat (Suc i) * PAGE_SIZE"
  by (simp add: algebra_simps)

lemma vm_memalign_loop_backs:
  assumes "vm_inv root frames fs s" and "4 * n \<le> length fs" and "page_aligned p" and "n \<le> 2 ^ 35"
    and "\<forall>i < n. lookup (ram s) 4 root (p + of_nat i * PAGE_SIZE) = None"
  shows "\<exists>new fs' s'. vm_memalign_loop n p s = s' \<and> length new = n \<and> vm_inv root (frames @ new) fs' s'
    \<and> set new \<subseteq> set fs \<and> set fs' \<subseteq> set fs \<and> backed (ram s') root p new
    \<and> (\<forall>va. (\<forall>i < n. vpn 1 va \<noteq> vpn 1 (p + of_nat i * PAGE_SIZE)) \<longrightarrow> lookup (ram s') 4 root va = lookup (ram s) 4 root va)
    \<and> s' = s\<lparr>ram := ram s', freelist := freelist s'\<rparr>"
  using assms
proof (induction n arbitrary: frames fs s p)
  case 0
  then show ?case
    by (intro exI [of _ "[]"] exI [of _ fs] exI [of _ s]) (simp add: backed_def)
next
  case (Suc n)
  obtain pa fs0 where fs: "fs = pa # fs0"
    using Suc.prems(2) by (cases fs) auto
  have root: "page_root s = root" and fl: "free_list s (pa # fs0)"
    using Suc.prems(1) unfolding fs vm_inv_def by simp_all
  have un: "lookup (ram s) 4 root p = None"
    using spec [OF Suc.prems(5), of 0] by simp
  define s2 where "s2 = snd (install_page root pa p (snd (alloc_page s)))"
  obtain fs2 where st: "vm_inv root (frames @ [pa]) fs2 s2" "length fs0 \<le> 3 + length fs2" "set fs2 \<subseteq> set fs0"
      "\<forall>va. lookup (ram s2) 4 root va = (if vpn 1 va = vpn 1 p then Some (1, table_entry pa) else lookup (ram s) 4 root va)"
      "s2 = s\<lparr>ram := ram s2, freelist := freelist s2\<rparr>"
    using vm_step [OF Suc.prems(1) [unfolded fs] _ un] Suc.prems(2) unfolding fs s2_def by auto
  have ne: "vpn 1 (p + of_nat (Suc i) * PAGE_SIZE) \<noteq> vpn 1 p" if "i < n" for i
    using vpn_page_inj [OF Suc.prems(3), of "Suc i" 0] that Suc.prems(4) by simp
  have un2: "\<forall>i < n. lookup (ram s2) 4 root (p + PAGE_SIZE + of_nat i * PAGE_SIZE) = None"
    unfolding page_shift using st(4) ne Suc.prems(5) by (simp del: of_nat_Suc)
  have al: "page_aligned (p + PAGE_SIZE)"
    using page_aligned_add [OF Suc.prems(3), of 1] by simp
  have len: "4 * n \<le> length fs2" "n \<le> 2 ^ 35"
    using Suc.prems(2,4) st(2) unfolding fs by simp_all
  obtain new fs' s' where IH: "vm_memalign_loop n (p + PAGE_SIZE) s2 = s'" "length new = n"
      "vm_inv root ((frames @ [pa]) @ new) fs' s'" "set new \<subseteq> set fs2" "set fs' \<subseteq> set fs2"
      "backed (ram s') root (p + PAGE_SIZE) new"
      "\<forall>va. (\<forall>i < n. vpn 1 va \<noteq> vpn 1 (p + PAGE_SIZE + of_nat i * PAGE_SIZE)) \<longrightarrow> lookup (ram s') 4 root va = lookup (ram s2) 4 root va"
      "s' = s2\<lparr>ram := ram s', freelist := freelist s'\<rparr>"
    using Suc.IH [OF st(1) len(1) al len(2) un2] by blast
  have "vm_memalign_loop (Suc n) p s = s'"
    using IH(1) root alloc_page_pop(1) [OF fl] arg_cong [OF alloc_page_fields [of s], of page_root]
    by (simp add: s2_def split_def Let_def)
  moreover have "lookup (ram s') 4 root p = Some (1, table_entry pa)"
  proof -
    have "\<forall>i < n. vpn 1 p \<noteq> vpn 1 (p + PAGE_SIZE + of_nat i * PAGE_SIZE)"
      unfolding page_shift using ne by (auto simp del: of_nat_Suc dest: sym)
    then show ?thesis
      using IH(7) st(4) by simp
  qed
  then have "backed (ram s') root p (pa # new)"
    using IH(6) unfolding backed_def page_shift
    by (auto simp: less_Suc_eq_0_disj nth_Cons' simp del: of_nat_Suc)
  moreover have "lookup (ram s') 4 root va = lookup (ram s) 4 root va"
    if va: "\<forall>i < Suc n. vpn 1 va \<noteq> vpn 1 (p + of_nat i * PAGE_SIZE)" for va
  proof -
    have "\<forall>i < n. vpn 1 va \<noteq> vpn 1 (p + PAGE_SIZE + of_nat i * PAGE_SIZE)" "vpn 1 va \<noteq> vpn 1 p"
      unfolding page_shift using va spec [OF va, of 0] by (simp_all del: of_nat_Suc)
    then show ?thesis
      using IH(7) st(4) by simp
  qed
  moreover have "s' = s\<lparr>ram := ram s', freelist := freelist s'\<rparr>"
    using IH(8) st(5) by (cases s, cases s2, cases s') simp
  ultimately show ?case
    using IH(2-5) st(3) unfolding fs
    by (intro exI [of _ "pa # new"] exI [of _ fs'] exI [of _ s'] conjI) auto
qed

section \<open>Giving the frames back\<close>

lemma lookup_table_at:
  "lookup m lvl pt va = Some (t, e) \<Longrightarrow>
     0 < t \<and> t \<le> lvl \<and> (\<exists>q. table_at m lvl t va pt = Some q \<and> pte_at m q (unat (PGDIR_OFFSET va t)) = e)"
proof (induction lvl arbitrary: pt)
  case 0
  then show ?case by simp
next
  case (Suc l)
  show ?case
  proof (cases "l = 0 \<or> huge (Suc l) (pte_at m pt (unat (PGDIR_OFFSET va (Suc l))))")
    case True
    then show ?thesis
      using Suc.prems by (auto simp: lookup_entry Let_def split: if_splits)
  next
    case False
    let ?e = "pte_at m pt (unat (PGDIR_OFFSET va (Suc l)))"
    have "present ?e" "lookup m l (?e AND PT_ADDR_MASK) va = Some (t, e)"
      using Suc.prems False by (auto simp: lookup_entry Let_def split: if_splits)
    then show ?thesis
      using Suc.IH [of "?e AND PT_ADDR_MASK"] False by (auto simp: Let_def)
  qed
qed

lemma virt_to_pte_phys_4k:
  assumes "tree_ok (ram s) 4 root fs" and "lookup (ram s) 4 root va = Some (1, table_entry f)" and "table_page f"
    and "page_aligned va"
  shows "virt_to_pte_phys root va s = Ret f"
proof -
  obtain q where q: "table_at (ram s) 4 1 va root = Some q" "pte_at (ram s) q (unat (PGDIR_OFFSET va 1)) = table_entry f"
    using lookup_table_at [OF assms(2)] by auto
  have fl: "find_loop (ram s) 4 1 va root = (1, entry q (PGDIR_OFFSET va 1))"
    using find_loop_table_at [of 1 4 "ram s" va root] q(1) by simp
  have "table_page q"
    using tree_ok_table_at [OF q(1) assms(1)] root_in_tabs [of q present "ram s" 0] unfolding gtree_def by simp
  then have "entry q (PGDIR_OFFSET va 1) \<noteq> 0"
    by (rule table_entry_nonzero)
  moreover have "get_pte root va s = Ret (entry q (PGDIR_OFFSET va 1))"
    using fl by (simp add: get_pte_def find_pte_level_def PAGE_LEVEL_def found_leaf_pte_def)
  moreover have "va AND (PAGE_SIZE - 1) = 0"
    using assms(4) by (simp add: aligned_def take_bit_eq_mask PAGE_SIZE_def mask_eq_exp_minus_1)
  ultimately show ?thesis
    using q(2) table_entry_simps(3) [OF assms(3)] by (simp add: virt_to_pte_phys_def)
qed

lemma free_page_inv:
  assumes "vm_inv root (xs @ f # ys) fs s"
  shows "vm_inv root (xs @ ys) (f # fs) (free_page f s)" and "lookup (ram (free_page f s)) 4 root va = lookup (ram s) 4 root va"
proof -
  have i: "free_list s fs" "tree_ok (ram s) 4 root ((xs @ f # ys) @ fs)" "page_root s = root"
    using assms by (simp_all add: vm_inv_def)
  have f: "table_page f" "f \<notin> set fs" "f \<notin> set (tabs (ram s) 4 root)" "\<forall>p \<in> set (tabs (ram s) 4 root). table_page p"
    using i(2) unfolding gtree_def by auto
  have "agree (set (tabs (ram s) 4 root)) (ram (free_page f s)) (ram s)"
  proof (rule outside_agree)
    show "\<forall>x. (\<forall>p \<in> {f}. \<not> in_page x p) \<longrightarrow> ram (free_page f s) x = ram s x"
      using free_page_push(2) [OF i(1) table_page_aligned [OF f(1)] _ f(2)] f(1) by (simp add: table_page_def)
  qed (use f table_page_aligned in auto)
  note t = tree_ok_agree [OF i(2) this]
  show "lookup (ram (free_page f s)) 4 root va = lookup (ram s) 4 root va"
    by (rule t)
  have "tree_ok (ram (free_page f s)) 4 root ((xs @ ys) @ f # fs)"
    using t(1) by (auto simp: gtree_def)
  moreover have "free_list (free_page f s) (f # fs)"
    using free_page_push(1) [OF i(1) table_page_aligned [OF f(1)] _ f(2)] f(1) by (simp add: table_page_def)
  ultimately show "vm_inv root (xs @ ys) (f # fs) (free_page f s)"
    using i(3) by (simp add: vm_inv_def free_page_def)
qed

lemma vm_free_loop_returns:
  assumes "vm_inv root (frames @ new) fs s" and "backed (ram s) root p new" and "page_aligned p" and "length new < 2 ^ 52"
  shows "\<exists>s'. vm_free_loop p (of_nat (length new) * PAGE_SIZE) s = Some (Ret s') \<and> vm_inv root frames (rev new @ fs) s'
    \<and> (\<forall>va. lookup (ram s') 4 root va = lookup (ram s) 4 root va)"
  using assms
proof (induction new arbitrary: p fs s)
  case Nil
  then show ?case
    by (subst vm_free_loop.simps) simp
next
  case (Cons f new)
  have tr: "tree_ok (ram s) 4 root ((frames @ f # new) @ fs)" and root: "page_root s = root"
    using Cons.prems(1) by (simp_all add: vm_inv_def)
  have "lookup (ram s) 4 root p = Some (1, table_entry f)"
    using Cons.prems(2) unfolding backed_def by (metis length_greater_0_conv list.discI nth_Cons_0 of_nat_0 mult_zero_left add_0_right)
  then have v: "virt_to_pte_phys root p s = Ret f"
    using tr Cons.prems(3) by (intro virt_to_pte_phys_4k [OF tr]) (simp_all add: gtree_def)
  note fp = free_page_inv [OF Cons.prems(1)]
  have "backed (ram (free_page f s)) root (p + PAGE_SIZE) new"
    unfolding backed_def page_shift fp(2)
  proof (intro allI impI)
    fix i
    assume "i < length new"
    then show "lookup (ram s) 4 root (p + of_nat (Suc i) * PAGE_SIZE) = Some (1, table_entry (new ! i))"
      using spec [OF Cons.prems(2) [unfolded backed_def], of "Suc i"] by (simp del: of_nat_Suc)
  qed
  moreover have "page_aligned (p + PAGE_SIZE)"
    using page_aligned_add [OF Cons.prems(3), of 1] by simp
  moreover have "length new < 2 ^ 52"
    using Cons.prems(4) by simp
  ultimately obtain s' where IH: "vm_free_loop (p + PAGE_SIZE) (of_nat (length new) * PAGE_SIZE) (free_page f s) = Some (Ret s')"
      "vm_inv root frames (rev new @ f # fs) s'"
      "\<forall>va. lookup (ram s') 4 root va = lookup (ram (free_page f s)) 4 root va"
    using Cons.IH [OF fp(1)] by blast
  have "unat (of_nat (length (f # new)) * PAGE_SIZE :: u64) = length (f # new) * 4096"
    using Cons.prems(4) by (rule unat_page_offset)
  then have "of_nat (length (f # new)) * PAGE_SIZE \<noteq> (0 :: u64)"
    by (intro notI) (simp only: unat_0, simp)
  moreover have "of_nat (length (f # new)) * PAGE_SIZE - PAGE_SIZE = of_nat (length new) * (PAGE_SIZE :: u64)"
    by (simp add: algebra_simps)
  ultimately have "vm_free_loop p (of_nat (length (f # new)) * PAGE_SIZE) s = Some (Ret s')"
    using v root IH(1) by (subst vm_free_loop.simps) simp
  then show ?case
    using IH(2,3) fp(2) by simp
qed

section \<open>Allocation and release\<close>

lemma page_count:
  assumes "unat sz + 4095 < 2 ^ 64" and "n = (unat sz + 4095) div 4096" and "n < 2 ^ 32"
  shows "(ucast (((sz + PAGE_SIZE - 1) AND NOT (PAGE_SIZE - 1)) div PAGE_SIZE) :: u32) = of_nat n"
proof -
  have m: "PAGE_SIZE - 1 = mask 12"
    by (simp add: PAGE_SIZE_def mask_eq_exp_minus_1)
  have "unat (sz + 4095) = unat sz + 4095"
    using assms(1) by (simp add: unat_word_ariths)
  moreover have "sz + PAGE_SIZE - 1 = sz + 4095"
    by (simp add: PAGE_SIZE_def)
  ultimately have u: "unat (sz + PAGE_SIZE - 1) = unat sz + 4095"
    by (simp only:)
  have "unat (((sz + PAGE_SIZE - 1) AND NOT (PAGE_SIZE - 1)) div PAGE_SIZE) = n"
    unfolding m unat_div unat_and_not_mask u using assms(2) by (simp add: PAGE_SIZE_def)
  moreover have "unat (of_nat n :: u64) = n"
    using assms(3) by simp
  ultimately have "((sz + PAGE_SIZE - 1) AND NOT (PAGE_SIZE - 1)) div PAGE_SIZE = of_nat n"
    by (simp only: word_unat_eq_iff)
  then show ?thesis
    using assms(3) by (simp add: unsigned_of_nat take_bit_nat_eq_self)
qed

text \<open>The virtual pages that are left: none of the \<open>k\<close> pages below \<open>vfree_top\<close> is mapped.\<close>

definition vfree_room :: "u64 \<Rightarrow> nat \<Rightarrow> machine \<Rightarrow> bool" where
  "vfree_room root k s \<longleftrightarrow> page_aligned (vfree_top s)
     \<and> (\<forall>i < k. lookup (ram s) 4 root (vfree_top s - PAGE_SIZE * of_nat (Suc i)) = None)"

lemma room_page: "j \<le> k \<Longrightarrow> t - PAGE_SIZE * of_nat j = t - PAGE_SIZE * of_nat k + of_nat (k - j) * (PAGE_SIZE :: u64)"
  by (simp add: of_nat_diff algebra_simps)

lemma room_block:
  assumes "vfree_room root k s" and "n \<le> k" and "p = vfree_top s - PAGE_SIZE * of_nat n"
  shows "\<forall>i < n. lookup (ram s) 4 root (p + of_nat i * PAGE_SIZE) = None"
proof (intro allI impI)
  fix i
  assume i: "i < n"
  then have "p + of_nat i * PAGE_SIZE = vfree_top s - PAGE_SIZE * of_nat (Suc (n - Suc i))"
    using room_page [of "n - i" n "vfree_top s"] assms(3) by (simp add: Suc_diff_Suc del: of_nat_Suc)
  then show "lookup (ram s) 4 root (p + of_nat i * PAGE_SIZE) = None"
    using assms(1,2) i unfolding vfree_room_def by (simp del: of_nat_Suc)
qed

text \<open>The pages of a block and those below it are different ones.\<close>

lemma room_below:
  assumes "page_aligned t" and "n \<le> k" and "k \<le> 2 ^ 36" and "p = t - PAGE_SIZE * of_nat n" and "i < n" and "j < k - n"
  shows "vpn 1 (p - PAGE_SIZE * of_nat (Suc j)) \<noteq> vpn 1 (p + of_nat i * PAGE_SIZE)"
proof -
  define b where "b = t - PAGE_SIZE * of_nat k"
  have b: "page_aligned b"
    unfolding b_def using assms(1) by (rule page_range_aligned)
  have "p - PAGE_SIZE * of_nat (Suc j) = t - PAGE_SIZE * of_nat (Suc (n + j))"
    using assms(4) by (simp add: algebra_simps)
  then have "p - PAGE_SIZE * of_nat (Suc j) = b + of_nat (k - Suc (n + j)) * PAGE_SIZE"
    using room_page [of "Suc (n + j)" k t] assms(6) unfolding b_def by simp
  moreover have "p + of_nat i * PAGE_SIZE = b + of_nat (k - n + i) * PAGE_SIZE"
    using room_page [OF assms(2), of t] assms(4) unfolding b_def by (simp add: algebra_simps)
  moreover have "k - Suc (n + j) < 2 ^ 36" "k - n + i < 2 ^ 36" "k - Suc (n + j) \<noteq> k - n + i"
    using assms(2,3,5,6) by linarith+
  ultimately show "vpn 1 (p - PAGE_SIZE * of_nat (Suc j)) \<noteq> vpn 1 (p + of_nat i * PAGE_SIZE)"
    using vpn_page_inj [OF b, of "k - Suc (n + j)" "k - n + i"] by (simp only: not_False_eq_True)
qed

text \<open>
  C25: A virtual allocation. When none of the \<open>k\<close> virtual pages below \<open>vfree_top\<close> is mapped, the block needs no more of them, and enough pages are
  free, \<open>vm_memalign\<close> returns the address of a block right below \<open>vfree_top\<close>, and \<open>vfree_top\<close> is this address afterwards; the pages of the block
  were not mapped, they are mapped to pairwise
  different frames taken from the free list, which are no page tables and back no earlier block,
  every other translation is as before, and none of the remaining virtual pages below \<open>vfree_top\<close> is mapped, so the next allocation
  starts from the same situation and takes other pages.
\<close>

theorem vm_memalign_backs:
  assumes "vm_inv root frames fs s" and "alignment \<le> PAGE_SIZE" and "unat sz + 4095 < 2 ^ 64"
    and "n = (unat sz + 4095) div 4096" and "n < 2 ^ 32" and "4 * n \<le> length fs" and room: "vfree_room root k s"
    and "p = vfree_top s - PAGE_SIZE * of_nat n" and k: "n \<le> k" "k \<le> 2 ^ 36"
  shows "\<exists>new fs' s'. vm_memalign alignment sz s = Ret (p, s') \<and> length new = n \<and> vm_inv root (frames @ new) fs' s'
    \<and> vfree_top s' = p \<and> vfree_room root (k - n) s'
    \<and> (\<forall>i < n. lookup (ram s) 4 root (p + of_nat i * PAGE_SIZE) = None)
    \<and> set new \<subseteq> set fs \<and> (\<forall>i < n. lookup (ram s') 4 root (p + of_nat i * PAGE_SIZE) = Some (1, table_entry (new ! i)))
    \<and> (\<forall>va. (\<forall>i < n. vpn 1 va \<noteq> vpn 1 (p + of_nat i * PAGE_SIZE)) \<longrightarrow> translate (ram s') 4 root va = translate (ram s) 4 root va)"
proof -
  let ?s1 = "s\<lparr>vfree_top := p\<rparr>"
  have inv: "vm_inv root frames fs ?s1"
    using assms(1) by (simp add: vm_inv_def free_list_def)
  have al: "page_aligned p" "page_aligned (vfree_top s)"
    unfolding assms(8) using room by (simp_all add: vfree_room_def page_range_aligned)
  have n: "n \<le> 2 ^ 35"
    using assms(5) by simp
  have un: "\<forall>i < n. lookup (ram ?s1) 4 root (p + of_nat i * PAGE_SIZE) = None"
    using room_block [OF room k(1) assms(8)] by simp
  obtain new fs' s' where r: "vm_memalign_loop n p ?s1 = s'" "length new = n" "vm_inv root (frames @ new) fs' s'"
      "set new \<subseteq> set fs" "backed (ram s') root p new"
      "\<forall>va. (\<forall>i < n. vpn 1 va \<noteq> vpn 1 (p + of_nat i * PAGE_SIZE)) \<longrightarrow> lookup (ram s') 4 root va = lookup (ram ?s1) 4 root va"
      "s' = ?s1\<lparr>ram := ram s', freelist := freelist s'\<rparr>"
    using vm_memalign_loop_backs [OF inv assms(6) al(1) n un] by blast
  have top: "vfree_top s' = p"
    using arg_cong [OF r(7), of vfree_top] by simp
  have "lookup (ram s') 4 root (p - PAGE_SIZE * of_nat (Suc j)) = None" if j: "j < k - n" for j
  proof -
    have "lookup (ram s') 4 root (p - PAGE_SIZE * of_nat (Suc j)) = lookup (ram s) 4 root (p - PAGE_SIZE * of_nat (Suc j))"
      using r(6) room_below [OF al(2) k assms(8) _ j] by simp
    also have "\<dots> = lookup (ram s) 4 root (vfree_top s - PAGE_SIZE * of_nat (Suc (n + j)))"
      by (rule arg_cong [where f = "lookup (ram s) 4 root"]) (simp add: assms(8) algebra_simps)
    also have "\<dots> = None"
      using room j unfolding vfree_room_def by (simp del: of_nat_Suc)
    finally show ?thesis .
  qed
  then have room': "vfree_room root (k - n) s'"
    using al(1) top by (simp add: vfree_room_def)
  have u: "unat (of_nat n :: u32) = n" "(ucast (of_nat n :: u32) :: u64) = of_nat n"
    using assms(5) by (simp_all add: unat_of_nat take_bit_nat_eq_self unsigned_of_nat)
  have "vm_memalign alignment sz s = Ret (p, s')"
    unfolding vm_memalign_def page_count [OF assms(3-5)] Let_def u alloc_vpages_def
    using assms(2,8) r(1) by (simp add: mult.commute)
  then show ?thesis
    using r(2-6) top room' un unfolding backed_def gtranslate_def by (intro exI [of _ new] exI [of _ fs'] exI [of _ s']) simp
qed

theorem vm_memalign_backs_witness:
  "\<exists>s s' f0 f1. vm_memalign 8 5000 s = Ret (- 8192, s') \<and> translate (ram s) 4 0x1000 (- 8000) = None
    \<and> lookup (ram s') 4 0x1000 (- 8192) = Some (1, table_entry f0)
    \<and> lookup (ram s') 4 0x1000 (- 4096) = Some (1, table_entry f1) \<and> f0 \<noteq> f1
    \<and> vfree_top s' = - 8192 \<and> vfree_room 0x1000 98 s'"
proof -
  obtain s0 where s0: "free_list s0 (run 0x2000 8)" "tree_ok (ram s0) 4 0x1000 (run 0x2000 8)"
      "\<forall>va. translate (ram s0) 4 0x1000 va = None"
    using empty_root_machine by blast
  define s where "s = s0\<lparr>vfree_top := 0, page_root := 0x1000\<rparr>"
  have inv: "vm_inv 0x1000 [] (run 0x2000 8) s"
    using s0 by (simp add: s_def vm_inv_def free_list_def)
  have room: "vfree_room 0x1000 100 s"
    using s0(3) by (simp add: s_def vfree_room_def aligned_def)
  have h: "(8 :: u64) \<le> PAGE_SIZE" "unat (5000 :: u64) + 4095 < 2 ^ 64" "2 = (unat (5000 :: u64) + 4095) div 4096"
      "(2 :: nat) < 2 ^ 32" "4 * 2 \<le> length (run 0x2000 8)"
    by (simp_all add: PAGE_SIZE_def del: run_simps(1,2))
  have "- 8192 = vfree_top s - PAGE_SIZE * of_nat 2" "(2 :: nat) \<le> 100" "(100 :: nat) \<le> 2 ^ 36"
    by (simp_all add: PAGE_SIZE_def s_def)
  from vm_memalign_backs [OF inv h room this]
  obtain new fs' s' where r: "vm_memalign 8 5000 s = Ret (- 8192, s')" "length new = 2" "vm_inv 0x1000 ([] @ new) fs' s'"
      "\<forall>i < 2. lookup (ram s') 4 0x1000 (- 8192 + of_nat i * PAGE_SIZE) = Some (1, table_entry (new ! i))"
      "vfree_top s' = - 8192" "vfree_room 0x1000 (100 - 2) s'"
    by blast
  obtain f0 f1 where new: "new = [f0, f1]"
    using r(2) by (metis (no_types, opaque_lifting) One_nat_def Suc_1 length_0_conv length_Suc_conv)
  have "f0 \<noteq> f1"
    using r(3) unfolding new vm_inv_def gtree_def by auto
  moreover have "lookup (ram s') 4 0x1000 (- 8192) = Some (1, table_entry f0)"
    using spec [OF r(4), of 0] by (simp add: new)
  moreover have "lookup (ram s') 4 0x1000 (- 4096) = Some (1, table_entry f1)"
    using spec [OF r(4), of 1] by (simp add: new PAGE_SIZE_def)
  ultimately show ?thesis
    using r(1,5,6) s0(3) by (intro exI [of _ s] exI [of _ s'] exI [of _ f0] exI [of _ f1]) (simp add: s_def)
qed

text \<open>
  C26: Release. Freeing a block of whole pages returns exactly the frames that back it to the free
  list, keeps the frames of all other blocks, and leaves the mappings of the block in the tables.
\<close>

theorem vm_free_returns_frames:
  assumes "vm_inv root (frames @ new) fs s" and "page_aligned p" and "length new < 2 ^ 52"
    and "\<forall>i < length new. lookup (ram s) 4 root (p + of_nat i * PAGE_SIZE) = Some (1, table_entry (new ! i))"
  shows "\<exists>s'. vm_free p (of_nat (length new) * PAGE_SIZE) s = Ret s' \<and> vm_inv root frames (rev new @ fs) s'
    \<and> (\<forall>va. translate (ram s') 4 root va = translate (ram s) 4 root va)"
proof -
  have "backed (ram s) root p new"
    using assms(4) by (simp add: backed_def)
  then obtain s' where "vm_free_loop p (of_nat (length new) * PAGE_SIZE) s = Some (Ret s')"
      "vm_inv root frames (rev new @ fs) s'" "\<forall>va. lookup (ram s') 4 root va = lookup (ram s) 4 root va"
    using vm_free_loop_returns [OF assms(1) _ assms(2,3)] by blast
  then show ?thesis
    by (auto simp: vm_free_def gtranslate_def)
qed

theorem vm_free_returns_frames_witness:
  "\<exists>s f fs s'. vm_inv 0x1000 [f] fs s \<and> vm_free (- 4096) 4096 s = Ret s' \<and> vm_inv 0x1000 [] (f # fs) s'"
proof -
  obtain s0 where s0: "free_list s0 (run 0x2000 8)" "tree_ok (ram s0) 4 0x1000 (run 0x2000 8)"
      "\<forall>va. translate (ram s0) 4 0x1000 va = None"
    using empty_root_machine by blast
  define s1 where "s1 = s0\<lparr>vfree_top := 0, page_root := 0x1000\<rparr>"
  have inv: "vm_inv 0x1000 [] (run 0x2000 8) s1"
    using s0 by (simp add: s1_def vm_inv_def free_list_def)
  obtain new fs s where r: "length new = 1" "vm_inv 0x1000 ([] @ new) fs s" "backed (ram s) 0x1000 (- 4096) new"
    using vm_memalign_loop_backs [OF inv, of 1 "- 4096"] s0(3) by (auto simp: s1_def aligned_def)
  obtain f where new: "new = [f]"
    using r(1) by (cases new) auto
  show ?thesis
    using vm_free_returns_frames [OF r(2), of "- 4096"] r(2,3) unfolding new backed_def
    by (simp add: aligned_def PAGE_SIZE_def) blast
qed

end
