(* ===== verification/Access.thy ===== *)
theory Access
  imports X86_Vm
begin

text \<open>
  The page fault test \<^verbatim>\<open>x86/access.c\<close>. A test case is a set of flags: it says how the entries that map
  the tested address are set up, how the address is accessed, and how the processor is
  configured. The code computes from the flags whether the access must fault, with which error
  code, and what the entries look like afterwards. The processor is an argument \<open>hw\<close>; the theory
  \<open>Access_Mmu\<close> gives the architectural behaviour and shows that a processor with it passes.
\<close>

section \<open>Flags\<close>

datatype ac_flag =
    AC_PTE_PRESENT | AC_PTE_WRITABLE | AC_PTE_USER | AC_PTE_ACCESSED | AC_PTE_DIRTY | AC_PTE_NX | AC_PTE_BIT51
  | AC_PDE_PRESENT | AC_PDE_WRITABLE | AC_PDE_USER | AC_PDE_ACCESSED | AC_PDE_DIRTY | AC_PDE_PSE | AC_PDE_NX
  | AC_PDE_BIT51 | AC_PDE_BIT13
  | AC_PKU_AD | AC_PKU_WD | AC_PKU_PKEY
  | AC_ACCESS_USER | AC_ACCESS_WRITE | AC_ACCESS_FETCH | AC_ACCESS_TWICE
  | AC_CPU_EFER_NX | AC_CPU_CR0_WP | AC_CPU_CR4_SMEP | AC_CPU_CR4_PKE

primrec ac_bit :: "ac_flag \<Rightarrow> nat" where
  "ac_bit AC_PTE_PRESENT = 0"
| "ac_bit AC_PTE_WRITABLE = 1"
| "ac_bit AC_PTE_USER = 2"
| "ac_bit AC_PTE_ACCESSED = 3"
| "ac_bit AC_PTE_DIRTY = 4"
| "ac_bit AC_PTE_NX = 5"
| "ac_bit AC_PTE_BIT51 = 6"
| "ac_bit AC_PDE_PRESENT = 7"
| "ac_bit AC_PDE_WRITABLE = 8"
| "ac_bit AC_PDE_USER = 9"
| "ac_bit AC_PDE_ACCESSED = 10"
| "ac_bit AC_PDE_DIRTY = 11"
| "ac_bit AC_PDE_PSE = 12"
| "ac_bit AC_PDE_NX = 13"
| "ac_bit AC_PDE_BIT51 = 14"
| "ac_bit AC_PDE_BIT13 = 15"
| "ac_bit AC_PKU_AD = 16"
| "ac_bit AC_PKU_WD = 17"
| "ac_bit AC_PKU_PKEY = 18"
| "ac_bit AC_ACCESS_USER = 19"
| "ac_bit AC_ACCESS_WRITE = 20"
| "ac_bit AC_ACCESS_FETCH = 21"
| "ac_bit AC_ACCESS_TWICE = 22"
| "ac_bit AC_CPU_EFER_NX = 23"
| "ac_bit AC_CPU_CR0_WP = 24"
| "ac_bit AC_CPU_CR4_SMEP = 25"
| "ac_bit AC_CPU_CR4_PKE = 26"

definition NR_AC_FLAGS :: nat where
  "NR_AC_FLAGS = 27"

definition ac_mask :: "ac_flag \<Rightarrow> u32" where
  "ac_mask f = push_bit (ac_bit f) 1"

text \<open>The array \<open>ac_names\<close>, in the order of the bits.\<close>

definition ac_names :: "string list" where
  "ac_names = [''pte.p'', ''pte.rw'', ''pte.user'', ''pte.a'', ''pte.d'', ''pte.nx'', ''pte.51'',
     ''pde.p'', ''pde.rw'', ''pde.user'', ''pde.a'', ''pde.d'', ''pde.pse'', ''pde.nx'', ''pde.51'', ''pde.13'',
     ''pkru.ad'', ''pkru.wd'', ''pkey=1'', ''user'', ''write'', ''fetch'', ''twice'',
     ''efer.nx'', ''cr0.wp'', ''cr4.smep'', ''cr4.pke'']"

definition F :: "u32 \<Rightarrow> ac_flag \<Rightarrow> bool" where
  "F flags f \<longleftrightarrow> flags AND ac_mask f \<noteq> 0"

definition PT_ACCESSED_MASK :: u64 where
  "PT_ACCESSED_MASK = push_bit 5 1"

definition PT_DIRTY_MASK :: u64 where
  "PT_DIRTY_MASK = push_bit 6 1"

definition PT64_NX_MASK :: u64 where
  "PT64_NX_MASK = push_bit 63 1"

definition PT_BASE_ADDR_MASK :: u64 where
  "PT_BASE_ADDR_MASK = (push_bit 40 1 - 1) AND PAGE_MASK"

definition PT_PSE_BASE_ADDR_MASK :: u64 where
  "PT_PSE_BASE_ADDR_MASK = PT_BASE_ADDR_MASK AND NOT (push_bit 21 1)"

definition CR0_WP_MASK :: u64 where
  "CR0_WP_MASK = push_bit 16 1"

definition CR4_SMEP_MASK :: u64 where
  "CR4_SMEP_MASK = push_bit 20 1"

definition X86_CR4_PKE :: u64 where
  "X86_CR4_PKE = 0x00400000"

definition EFER_NX_MASK :: u64 where
  "EFER_NX_MASK = push_bit 11 1"

definition PFERR_PRESENT_MASK :: u32 where
  "PFERR_PRESENT_MASK = push_bit 0 1"

definition PFERR_WRITE_MASK :: u32 where
  "PFERR_WRITE_MASK = push_bit 1 1"

definition PFERR_USER_MASK :: u32 where
  "PFERR_USER_MASK = push_bit 2 1"

definition PFERR_RESERVED_MASK :: u32 where
  "PFERR_RESERVED_MASK = push_bit 3 1"

definition PFERR_FETCH_MASK :: u32 where
  "PFERR_FETCH_MASK = push_bit 4 1"

definition PFERR_PK_MASK :: u32 where
  "PFERR_PK_MASK = push_bit 5 1"

definition PT_INDEX :: "u64 \<Rightarrow> nat \<Rightarrow> u64" where
  "PT_INDEX address level = drop_bit (12 + (level - 1) * 9) address AND 511"

section \<open>State\<close>

record ac_pool =
  pt_pool :: u64
  pt_pool_size :: u32
  pt_pool_current :: u32

record ac_test =
  at_flags :: u32
  at_virt :: u64
  at_phys :: u64
  at_ptep :: u64
  at_expected_pte :: u64
  at_pdep :: u64
  at_expected_pde :: u64
  at_ignore_pde :: u64
  at_expected_fault :: bool
  at_expected_error :: u32

text \<open>The memory, the registers of the processor, the console and the statics of the test.\<close>

record ac_sys =
  sys_ram :: mem
  sys_cr0 :: u64
  sys_cr3 :: u64
  sys_cr4 :: u64
  sys_efer :: u64
  sys_pkru :: u32
  sys_out :: string
  invalid_mask :: u32
  page_table_levels :: nat
  ac_unique :: u32
  ac_verbose :: bool

text \<open>
  What the test uses of the processor and of the boot code. \<open>hw_access s a write user fetch r\<close> makes one
  access to the address \<open>a\<close> with the data register holding \<open>r\<close>; it returns the error code if the access
  faults, and the data register afterwards. \<open>hw_cr4_ok\<close> tells the values that control register 4
  accepts. \<open>hw_stack\<close> is what an uninitialised local test variable holds.
\<close>

record ac_hw =
  hw_access :: "ac_sys \<Rightarrow> u64 \<Rightarrow> bool \<Rightarrow> bool \<Rightarrow> bool \<Rightarrow> u32 \<Rightarrow> u32 option \<times> u32 \<times> ac_sys"
  hw_cr4_ok :: "u64 \<Rightarrow> bool"
  hw_has_pku :: bool
  hw_has_invpcid_single :: bool
  hw_has_la57 :: bool
  hw_ptl2 :: u64
  hw_stack :: ac_test
  hw_setup_5level_page_table :: "ac_sys \<Rightarrow> ac_sys"

text \<open>The formats of this test have no conversion that can fail.\<close>

definition emit :: "string \<Rightarrow> vararg list \<Rightarrow> ac_sys \<Rightarrow> ac_sys" where
  "emit fmt va s = (case printf_out fmt va of Ret t \<Rightarrow> s\<lparr>sys_out := sys_out s @ t\<rparr> | Abort _ \<Rightarrow> s)"

definition ac_puts :: "string \<Rightarrow> ac_sys \<Rightarrow> ac_sys" where
  "ac_puts t s = s\<lparr>sys_out := sys_out s @ t\<rparr>"

section \<open>Configuring the processor\<close>

definition set_cr0_wp :: "bool \<Rightarrow> ac_sys \<Rightarrow> ac_sys" where
  "set_cr0_wp wp s =
     (let cr0 = sys_cr0 s; old_cr0 = cr0;
          cr0 = cr0 AND NOT CR0_WP_MASK;
          cr0 = (if wp then cr0 OR CR0_WP_MASK else cr0)
      in if old_cr0 \<noteq> cr0 then s\<lparr>sys_cr0 := cr0\<rparr> else s)"

definition GP_VECTOR :: nat where
  "GP_VECTOR = 13"

definition write_cr4_checking :: "ac_hw \<Rightarrow> u64 \<Rightarrow> ac_sys \<Rightarrow> nat \<times> ac_sys" where
  "write_cr4_checking hw v s = (if hw_cr4_ok hw v then (0, s\<lparr>sys_cr4 := v\<rparr>) else (GP_VECTOR, s))"

definition ptl2_write :: "ac_hw \<Rightarrow> (u64 \<Rightarrow> u64) \<Rightarrow> ac_sys \<Rightarrow> ac_sys" where
  "ptl2_write hw f s =
     (let a = hw_ptl2 hw + 8 * 2 in s\<lparr>sys_ram := store64 (sys_ram s) a (f (load64 (sys_ram s) a))\<rparr>)"

definition set_cr4_smep :: "ac_hw \<Rightarrow> bool \<Rightarrow> ac_sys \<Rightarrow> nat \<times> ac_sys" where
  "set_cr4_smep hw smep s =
     (let cr4 = sys_cr4 s; old_cr4 = cr4;
          cr4 = cr4 AND NOT CR4_SMEP_MASK;
          cr4 = (if smep then cr4 OR CR4_SMEP_MASK else cr4)
      in if old_cr4 = cr4 then (0, s)
         else
           let s = (if smep then ptl2_write hw (\<lambda>e. e AND NOT PT_USER_MASK) s else s);
               (r, s) = write_cr4_checking hw cr4 s;
               s = (if r \<noteq> 0 \<or> \<not> smep then ptl2_write hw (\<lambda>e. e OR PT_USER_MASK) s else s)
           in (r, s))"

definition set_cr4_pke :: "bool \<Rightarrow> ac_sys \<Rightarrow> ac_sys" where
  "set_cr4_pke pke s =
     (let cr4 = sys_cr4 s; old_cr4 = cr4;
          cr4 = cr4 AND NOT X86_CR4_PKE;
          cr4 = (if pke then cr4 OR X86_CR4_PKE else cr4)
      in if old_cr4 = cr4 then s
         else
           let s = (if sys_cr4 s AND X86_CR4_PKE \<noteq> 0 \<and> \<not> pke then s\<lparr>sys_pkru := 0xfffffffc\<rparr> else s)
           in s\<lparr>sys_cr4 := cr4\<rparr>)"

definition set_efer_nx :: "bool \<Rightarrow> ac_sys \<Rightarrow> ac_sys" where
  "set_efer_nx nx s =
     (let efer = sys_efer s; old_efer = efer;
          efer = efer AND NOT EFER_NX_MASK;
          efer = (if nx then efer OR EFER_NX_MASK else efer)
      in if old_efer \<noteq> efer then s\<lparr>sys_efer := efer\<rparr> else s)"

text \<open>\<open>ac_env_int\<close> also sets the two interrupt gates the access code uses.\<close>

definition ac_env_int :: ac_pool where
  "ac_env_int =
     (let pool = 33 * 1024 * 1024
      in \<lparr>pt_pool = pool, pt_pool_size = ucast (120 * 1024 * 1024 - pool :: u64), pt_pool_current = 0\<rparr>)"

text \<open>The fields that \<open>ac_test_init\<close> does not set keep what the caller's variable holds.\<close>

definition ac_test_init :: "u64 \<Rightarrow> ac_test \<Rightarrow> ac_sys \<Rightarrow> ac_test \<times> ac_sys" where
  "ac_test_init virt at s =
     (let s = s\<lparr>sys_efer := sys_efer s OR EFER_NX_MASK\<rparr>;
          s = set_cr0_wp True s
      in (at\<lparr>at_flags := 0, at_virt := virt, at_phys := 32 * 1024 * 1024\<rparr>, s))"

section \<open>Enumerating the test cases\<close>

definition ac_test_bump_one :: "ac_sys \<Rightarrow> ac_test \<Rightarrow> bool \<times> ac_test" where
  "ac_test_bump_one s at =
     (let at = at\<lparr>at_flags := ((at_flags at OR invalid_mask s) + 1) AND NOT (invalid_mask s)\<rparr>
      in (at_flags at < push_bit NR_AC_FLAGS 1, at))"

definition ac_test_legal :: "ac_test \<Rightarrow> bool" where
  "ac_test_legal at =
     (let flags = at_flags at in
      if F flags AC_ACCESS_FETCH \<and> F flags AC_ACCESS_WRITE then False
      else if F flags AC_ACCESS_USER \<and> F flags AC_CPU_CR4_SMEP then False
      else if \<not> F flags AC_CPU_CR4_PKE \<and> (F flags AC_PKU_AD \<or> F flags AC_PKU_WD) then False
      else if \<not> F flags AC_PDE_PSE \<and> F flags AC_PDE_BIT13 then False
      else True)"

partial_function (option) ac_test_bump :: "ac_sys \<Rightarrow> ac_test \<Rightarrow> (bool \<times> ac_test) option" where
  "ac_test_bump s at =
     (case ac_test_bump_one s at of
        (ret, at) \<Rightarrow> if ret \<and> \<not> ac_test_legal at then ac_test_bump s at else Some (ret, at))"

section \<open>Table pages\<close>

definition ac_test_alloc_pt :: "ac_pool \<Rightarrow> u64 \<times> ac_pool" where
  "ac_test_alloc_pt pool =
     (let ret = pt_pool pool + ucast (pt_pool_current pool)
      in (ret, pool\<lparr>pt_pool_current := pt_pool_current pool + ucast PAGE_SIZE\<rparr>))"

definition ac_test_enough_room :: "ac_pool \<Rightarrow> bool" where
  "ac_test_enough_room pool \<longleftrightarrow> ucast (pt_pool_current pool) + 5 * PAGE_SIZE \<le> ucast (pt_pool_size pool)"

definition ac_test_reset_pt_pool :: "ac_pool \<Rightarrow> ac_pool" where
  "ac_test_reset_pt_pool pool = pool\<lparr>pt_pool_current := 0\<rparr>"

section \<open>What the access must do\<close>

definition ac_test_permissions :: "u32 \<Rightarrow> bool \<Rightarrow> bool \<Rightarrow> bool \<Rightarrow> ac_test \<Rightarrow> u64 \<times> ac_test" where
  "ac_test_permissions flags writable user executable at =
     (let kwritable = (\<not> F flags AC_CPU_CR0_WP \<and> \<not> F flags AC_ACCESS_USER);
          at = (if F flags AC_ACCESS_USER \<and> \<not> user then at\<lparr>at_expected_fault := True\<rparr> else at);
          at = (if F flags AC_ACCESS_WRITE \<and> \<not> writable \<and> \<not> kwritable then at\<lparr>at_expected_fault := True\<rparr> else at);
          at = (if F flags AC_ACCESS_FETCH \<and> \<not> executable then at\<lparr>at_expected_fault := True\<rparr> else at);
          at = (if F flags AC_ACCESS_FETCH \<and> user \<and> F flags AC_CPU_CR4_SMEP then at\<lparr>at_expected_fault := True\<rparr> else at);
          at = (if user \<and> \<not> F flags AC_ACCESS_FETCH \<and> F flags AC_PKU_PKEY \<and> F flags AC_CPU_CR4_PKE then
                  (if F flags AC_PKU_AD
                   then at\<lparr>at_expected_fault := True, at_expected_error := at_expected_error at OR PFERR_PK_MASK\<rparr>
                   else if F flags AC_ACCESS_WRITE \<and> F flags AC_PKU_WD \<and> \<not> kwritable
                   then at\<lparr>at_expected_fault := True, at_expected_error := at_expected_error at OR PFERR_PK_MASK\<rparr>
                   else at)
                else at);
          expected = (if \<not> at_expected_fault at
                      then PT_ACCESSED_MASK OR (if F flags AC_ACCESS_WRITE then PT_DIRTY_MASK else 0)
                      else 0)
      in (expected, at))"

text \<open>The error code of an entry that is not valid.\<close>

definition ac_entry_error :: "bool \<Rightarrow> ac_test \<Rightarrow> ac_test" where
  "ac_entry_error is_present at =
     (let at = at\<lparr>at_expected_fault := True\<rparr>
      in at\<lparr>at_expected_error := (if is_present then at_expected_error at OR PFERR_RESERVED_MASK
                                   else at_expected_error at AND NOT PFERR_PRESENT_MASK)\<rparr>)"

text \<open>\<open>ac_emulate_access\<close> in three steps: the kind of access, the walk, and the label \<^verbatim>\<open>fault\<close>.\<close>

definition ac_access_kind :: "u32 \<Rightarrow> ac_test \<Rightarrow> ac_test" where
  "ac_access_kind flags at =
     (let at = (if F flags AC_ACCESS_USER then at\<lparr>at_expected_error := at_expected_error at OR PFERR_USER_MASK\<rparr> else at);
          at = (if F flags AC_ACCESS_WRITE then at\<lparr>at_expected_error := at_expected_error at OR PFERR_WRITE_MASK\<rparr> else at);
          at = (if F flags AC_ACCESS_FETCH then at\<lparr>at_expected_error := at_expected_error at OR PFERR_FETCH_MASK\<rparr> else at)
      in if \<not> F flags AC_PDE_ACCESSED then at\<lparr>at_ignore_pde := PT_ACCESSED_MASK\<rparr> else at)"

definition ac_emulate_walk :: "u32 \<Rightarrow> ac_test \<Rightarrow> ac_test" where
  "ac_emulate_walk flags at =
     (let pde_valid = (F flags AC_PDE_PRESENT \<and> \<not> F flags AC_PDE_BIT51 \<and> \<not> F flags AC_PDE_BIT13
            \<and> \<not> (F flags AC_PDE_NX \<and> \<not> F flags AC_CPU_EFER_NX));
          writable = F flags AC_PDE_WRITABLE;
          user = F flags AC_PDE_USER;
          executable = (\<not> F flags AC_PDE_NX)
      in if \<not> pde_valid then ac_entry_error (F flags AC_PDE_PRESENT) at
         else if F flags AC_PDE_PSE then
           let (expected, at) = ac_test_permissions flags writable user executable at
           in at\<lparr>at_expected_pde := at_expected_pde at OR expected\<rparr>
         else
           let at = at\<lparr>at_expected_pde := at_expected_pde at OR PT_ACCESSED_MASK\<rparr>;
               pte_valid = (F flags AC_PTE_PRESENT \<and> \<not> F flags AC_PTE_BIT51
                 \<and> \<not> (F flags AC_PTE_NX \<and> \<not> F flags AC_CPU_EFER_NX))
           in if \<not> pte_valid then ac_entry_error (F flags AC_PTE_PRESENT) at
              else
                let (expected, at) = ac_test_permissions flags (writable \<and> F flags AC_PTE_WRITABLE)
                      (user \<and> F flags AC_PTE_USER) (executable \<and> \<not> F flags AC_PTE_NX) at
                in at\<lparr>at_expected_pte := at_expected_pte at OR expected\<rparr>)"

definition ac_emulate_access :: "u32 \<Rightarrow> ac_test \<Rightarrow> ac_test" where
  "ac_emulate_access flags at =
     (let at = ac_emulate_walk flags (ac_access_kind flags at);
          at = (if \<not> at_expected_fault at then at\<lparr>at_ignore_pde := 0\<rparr> else at)
      in if \<not> F flags AC_CPU_EFER_NX \<and> \<not> F flags AC_CPU_CR4_SMEP
         then at\<lparr>at_expected_error := at_expected_error at AND NOT PFERR_FETCH_MASK\<rparr> else at)"

definition ac_set_expected_status :: "ac_test \<Rightarrow> ac_sys \<Rightarrow> ac_test" where
  "ac_set_expected_status at s =
     (let at = (if at_ptep at \<noteq> 0 then at\<lparr>at_expected_pte := load64 (sys_ram s) (at_ptep at)\<rparr> else at);
          at = at\<lparr>at_expected_pde := load64 (sys_ram s) (at_pdep at), at_ignore_pde := 0,
                  at_expected_fault := False, at_expected_error := PFERR_PRESENT_MASK\<rparr>;
          at = (if F (at_flags at) AC_ACCESS_TWICE then
                  let at = ac_emulate_access (at_flags at AND NOT (ac_mask AC_ACCESS_WRITE)
                             AND NOT (ac_mask AC_ACCESS_FETCH) AND NOT (ac_mask AC_ACCESS_USER)) at
                  in at\<lparr>at_expected_fault := False, at_expected_error := PFERR_PRESENT_MASK, at_ignore_pde := 0\<rparr>
                else at)
      in ac_emulate_access (at_flags at) at)"

section \<open>Setting up the mapping\<close>

definition or_if :: "bool \<Rightarrow> u64 \<Rightarrow> u64 \<Rightarrow> u64" where
  "or_if b bits e = (if b then e OR bits else e)"

text \<open>The entry of level 2 for the address \<open>base\<close> of the page table (without \<open>AC_PDE_PSE\<close>).\<close>

definition ac_pde :: "u32 \<Rightarrow> u64 \<Rightarrow> u64 \<Rightarrow> u64" where
  "ac_pde flags base phys =
     (let pte = (if \<not> F flags AC_PDE_PSE then or_if (F flags AC_PKU_PKEY) (push_bit 59 2) base
                 else or_if (F flags AC_PKU_PKEY) (push_bit 59 1)
                        ((phys AND PT_PSE_BASE_ADDR_MASK) OR PT_PAGE_SIZE_MASK));
          pte = or_if (F flags AC_PDE_PRESENT) PT_PRESENT_MASK pte;
          pte = or_if (F flags AC_PDE_WRITABLE) PT_WRITABLE_MASK pte;
          pte = or_if (F flags AC_PDE_USER) PT_USER_MASK pte;
          pte = or_if (F flags AC_PDE_ACCESSED) PT_ACCESSED_MASK pte;
          pte = or_if (F flags AC_PDE_DIRTY) PT_DIRTY_MASK pte;
          pte = or_if (F flags AC_PDE_NX) PT64_NX_MASK pte;
          pte = or_if (F flags AC_PDE_BIT51) (push_bit 51 1) pte
      in or_if (F flags AC_PDE_BIT13) (push_bit 13 1) pte)"

definition ac_pte :: "u32 \<Rightarrow> u64 \<Rightarrow> u64" where
  "ac_pte flags phys =
     (let pte = or_if (F flags AC_PKU_PKEY) (push_bit 59 1) (phys AND PT_BASE_ADDR_MASK);
          pte = or_if (F flags AC_PTE_PRESENT) PT_PRESENT_MASK pte;
          pte = or_if (F flags AC_PTE_WRITABLE) PT_WRITABLE_MASK pte;
          pte = or_if (F flags AC_PTE_USER) PT_USER_MASK pte;
          pte = or_if (F flags AC_PTE_ACCESSED) PT_ACCESSED_MASK pte;
          pte = or_if (F flags AC_PTE_DIRTY) PT_DIRTY_MASK pte;
          pte = or_if (F flags AC_PTE_NX) PT64_NX_MASK pte
      in or_if (F flags AC_PTE_BIT51) (push_bit 51 1) pte)"

text \<open>One turn of the loop: the \<^verbatim>\<open>switch\<close> and the store of the entry.\<close>

definition ac_setup_level ::
    "nat \<Rightarrow> u64 \<Rightarrow> u64 \<Rightarrow> u64 \<Rightarrow> ac_test \<Rightarrow> ac_pool \<Rightarrow> ac_sys \<Rightarrow> ac_test \<times> ac_pool \<times> ac_sys" where
  "ac_setup_level i slot pd_page pt_page at pool s =
     (let flags = at_flags at;
          (pte, at, pool) =
            (if i = 5 \<or> i = 4 \<or> i = 3 then
               let (pte, pool) = (if pd_page \<noteq> 0 then (pd_page, pool) else ac_test_alloc_pt pool)
               in (pte OR (PT_PRESENT_MASK OR PT_WRITABLE_MASK OR PT_USER_MASK), at, pool)
             else if i = 2 then
               let (base, pool) = (if F flags AC_PDE_PSE then (0, pool)
                                   else if pt_page \<noteq> 0 then (pt_page, pool) else ac_test_alloc_pt pool)
               in (ac_pde flags base (at_phys at), at\<lparr>at_pdep := slot\<rparr>, pool)
             else if i = 1 then (ac_pte flags (at_phys at), at\<lparr>at_ptep := slot\<rparr>, pool)
             else (0, at, pool))
      in (at, pool, s\<lparr>sys_ram := store64 (sys_ram s) slot pte\<rparr>))"

fun ac_setup_loop ::
    "nat \<Rightarrow> u64 \<Rightarrow> bool \<Rightarrow> u64 \<Rightarrow> u64 \<Rightarrow> ac_test \<Rightarrow> ac_pool \<Rightarrow> ac_sys \<Rightarrow> ac_test \<times> ac_pool \<times> ac_sys" where
  "ac_setup_loop i root skip pd_page pt_page at pool s =
     (if i \<ge> 1 \<and> (i \<ge> 2 \<or> \<not> F (at_flags at) AC_PDE_PSE) then
        let index = PT_INDEX (at_virt at) i;
            slot = (root AND PT_BASE_ADDR_MASK) + 8 * index;
            (skip, at, pool, s) =
              (if skip \<and> i \<ge> 2 \<and> index = 0 then (skip, at, pool, s)
               else (False, ac_setup_level i slot pd_page pt_page at pool s))
        in ac_setup_loop (i - 1) (load64 (sys_ram s) slot) skip pd_page pt_page at pool s
      else (at, pool, s))"

declare ac_setup_loop.simps [simp del]

definition ac_setup_pages ::
    "u64 \<Rightarrow> u64 \<Rightarrow> ac_test \<Rightarrow> ac_pool \<Rightarrow> ac_sys \<Rightarrow> ac_test \<times> ac_pool \<times> ac_sys" where
  "ac_setup_pages pd_page pt_page at pool s =
     (let pool = (if \<not> ac_test_enough_room pool then ac_test_reset_pt_pool pool else pool);
          (at, pool, s) = ac_setup_loop (page_table_levels s) (sys_cr3 s) True pd_page pt_page
                            (at\<lparr>at_ptep := 0\<rparr>) pool s
      in (ac_set_expected_status at s, pool, s))"

definition ac_test_setup_pte :: "ac_test \<Rightarrow> ac_pool \<Rightarrow> ac_sys \<Rightarrow> ac_test \<times> ac_pool \<times> ac_sys" where
  "ac_test_setup_pte at pool s = ac_setup_pages 0 0 at pool s"

definition ac_setup_specific_pages ::
    "ac_test \<Rightarrow> ac_pool \<Rightarrow> u64 \<Rightarrow> u64 \<Rightarrow> ac_sys \<Rightarrow> ac_test \<times> ac_pool \<times> ac_sys" where
  "ac_setup_specific_pages at pool pd_page pt_page s = ac_setup_pages pd_page pt_page at pool s"

section \<open>Running one test case\<close>

fun dump_mapping_loop :: "nat \<Rightarrow> u64 \<Rightarrow> ac_test \<Rightarrow> ac_sys \<Rightarrow> ac_sys" where
  "dump_mapping_loop i root at s =
     (if i \<ge> 1 \<and> (i \<ge> 2 \<or> \<not> F (at_flags at) AC_PDE_PSE) then
        let pte = load64 (sys_ram s) ((root AND PT_BASE_ADDR_MASK) + 8 * PT_INDEX (at_virt at) i)
        in dump_mapping_loop (i - 1) pte at (emit (''------L%d: %lx'' @ [NL]) [VInt (of_nat i), VInt pte] s)
      else s)"

declare dump_mapping_loop.simps [simp del]

definition dump_mapping :: "ac_test \<Rightarrow> ac_sys \<Rightarrow> ac_sys" where
  "dump_mapping at s =
     dump_mapping_loop (page_table_levels s) (sys_cr3 s) at
       (emit (''Dump mapping: address: %p'' @ [NL]) [VInt (at_virt at)] s)"

definition ac_test_line :: "u32 \<Rightarrow> string" where
  "ac_test_line flags =
     ''test'' @ concat (map (\<lambda>i. if flags AND push_bit i 1 \<noteq> 0 then '' '' @ ac_names ! i else []) [0..<NR_AC_FLAGS])
     @ '': ''"

definition ac_test_show :: "ac_test \<Rightarrow> ac_sys \<Rightarrow> ac_sys" where
  "ac_test_show at s = emit ''%s'' [VStr (ac_test_line (at_flags at))] s"

definition ac_test_check ::
    "ac_test \<Rightarrow> bool \<Rightarrow> bool \<Rightarrow> string \<Rightarrow> vararg list \<Rightarrow> ac_sys \<Rightarrow> bool \<times> ac_sys" where
  "ac_test_check at success cond fmt va s =
     (if \<not> success then (success, s)
      else if \<not> cond then (success, s)
      else
        let s = (if \<not> ac_verbose s then ac_test_show at (ac_puts [NL] s) else s);
            buf = (case vtext fmt va of Ret t \<Rightarrow> takeWhile (\<lambda>c. c \<noteq> NUL) (take 499 t) | Abort _ \<Rightarrow> []);
            s = emit (''FAIL: %s'' @ [NL]) [VStr buf] s
        in (False, dump_mapping at s))"

definition pt_match :: "u64 \<Rightarrow> u64 \<Rightarrow> u64 \<Rightarrow> bool" where
  "pt_match pte1 pte2 ignore \<longleftrightarrow> pte1 AND NOT ignore = pte2 AND NOT ignore"

text \<open>The registers as the flags ask for, before the access.\<close>

definition ac_test_cpu :: "ac_hw \<Rightarrow> u32 \<Rightarrow> ac_sys \<Rightarrow> ac_sys" where
  "ac_test_cpu hw flags s =
     (let s = set_cr0_wp (F flags AC_CPU_CR0_WP) s;
          s = set_efer_nx (F flags AC_CPU_EFER_NX) s;
          s = set_cr4_pke (F flags AC_CPU_CR4_PKE) s;
          s = (if F flags AC_CPU_CR4_PKE
               then s\<lparr>sys_pkru := 0x30 OR (if F flags AC_PKU_WD then 8 else 0) OR (if F flags AC_PKU_AD then 4 else 0)\<rparr>
               else s)
      in snd (set_cr4_smep hw (F flags AC_CPU_CR4_SMEP) s))"

text \<open>The checks after the access, which ended with \<open>fault\<close>.\<close>

definition ac_test_verdict :: "ac_test \<Rightarrow> u32 option \<Rightarrow> ac_sys \<Rightarrow> bool \<times> ac_sys" where
  "ac_test_verdict at fault s =
     (let e = (case fault of Some e \<Rightarrow> e | None \<Rightarrow> 0);
          pte = load64 (sys_ram s) (at_ptep at);
          pde = load64 (sys_ram s) (at_pdep at);
          (success, s) = ac_test_check at True (fault \<noteq> None \<and> \<not> at_expected_fault at) ''unexpected fault'' [] s;
          (success, s) = ac_test_check at success (fault = None \<and> at_expected_fault at) ''unexpected access'' [] s;
          (success, s) = ac_test_check at success (fault \<noteq> None \<and> e \<noteq> at_expected_error at)
            ''error code %x expected %x'' [VInt (ucast e), VInt (ucast (at_expected_error at))] s;
          (success, s) =
            (if at_ptep at \<noteq> 0
             then ac_test_check at success (pte \<noteq> at_expected_pte at) ''pte %x expected %x''
                    [VInt pte, VInt (at_expected_pte at)] s
             else (success, s));
          (success, s) = ac_test_check at success (\<not> pt_match pde (at_expected_pde at) (at_ignore_pde at))
            ''pde %x expected %x'' [VInt pde, VInt (at_expected_pde at)] s
      in if success \<and> ac_verbose s
         then (success, if at_expected_fault at then emit (''PASS (%x)'' @ [NL]) [VInt (ucast (at_expected_error at))] s
                        else emit (''PASS'' @ [NL]) [] s)
         else (success, s))"

definition ac_test_do_access :: "ac_hw \<Rightarrow> ac_test \<Rightarrow> ac_sys \<Rightarrow> bool \<times> ac_sys" where
  "ac_test_do_access hw at s =
     (let flags = at_flags at;
          s = s\<lparr>ac_unique := ac_unique s + 1\<rparr>;
          s = (if ac_unique s AND 65535 = 0 then ac_puts ''.'' s else s);
          s = s\<lparr>sys_ram := (sys_ram s)(at_phys at := 0xc3)\<rparr>;
          r = ac_unique s;
          s = ac_test_cpu hw flags s;
          (r, s) = (if F flags AC_ACCESS_TWICE then snd (hw_access hw s (at_virt at) False False False r) else (r, s));
          (fault, r, s) = hw_access hw s (at_virt at) (F flags AC_ACCESS_WRITE) (F flags AC_ACCESS_USER)
                            (F flags AC_ACCESS_FETCH) r
      in ac_test_verdict at fault s)"

definition ac_test_exec :: "ac_hw \<Rightarrow> ac_test \<Rightarrow> ac_pool \<Rightarrow> ac_sys \<Rightarrow> bool \<times> ac_test \<times> ac_pool \<times> ac_sys" where
  "ac_test_exec hw at pool s =
     (let s = (if ac_verbose s then ac_test_show at s else s);
          (at, pool, s) = ac_test_setup_pte at pool s;
          (r, s) = ac_test_do_access hw at s
      in (r, at, pool, s))"

section \<open>The special cases\<close>

definition flag_set :: "ac_flag list \<Rightarrow> u32" where
  "flag_set fs = foldr (\<lambda>f m. ac_mask f OR m) fs 0"

definition corrupt_hugepage_triger :: "ac_hw \<Rightarrow> ac_pool \<Rightarrow> ac_sys \<Rightarrow> bool \<times> ac_pool \<times> ac_sys" where
  "corrupt_hugepage_triger hw pool s =
     (let err = (\<lambda>pool s. (False, pool, emit (''corrupt_hugepage_triger test fail'' @ [NL]) [] s));
          (at1, s) = ac_test_init 0x123400000000 (hw_stack hw) s;
          (at2, s) = ac_test_init 0x666600000000 (hw_stack hw) s;
          at2 = at2\<lparr>at_flags := flag_set [AC_CPU_CR0_WP, AC_PDE_PSE, AC_PDE_PRESENT]\<rparr>;
          (at2, pool, s) = ac_test_setup_pte at2 pool s;
          (ok, s) = ac_test_do_access hw at2 s
      in if \<not> ok then err pool s
         else
           let at1 = at1\<lparr>at_flags := at_flags at2 OR ac_mask AC_PDE_WRITABLE\<rparr>;
               (at1, pool, s) = ac_test_setup_pte at1 pool s;
               (ok, s) = ac_test_do_access hw at1 s
           in if \<not> ok then err pool s
              else
                let at1 = ac_set_expected_status (at1\<lparr>at_flags := at_flags at1 OR ac_mask AC_ACCESS_WRITE\<rparr>) s;
                    (ok, s) = ac_test_do_access hw at1 s
                in if \<not> ok then err pool s
                   else
                     let at2 = ac_set_expected_status (at2\<lparr>at_flags := at_flags at2 OR ac_mask AC_ACCESS_WRITE\<rparr>) s;
                         (ok, s) = ac_test_do_access hw at2 s
                     in if \<not> ok then err pool s else (True, pool, s))"

definition check_pfec_on_prefetch_pte :: "ac_hw \<Rightarrow> ac_pool \<Rightarrow> ac_sys \<Rightarrow> bool \<times> ac_pool \<times> ac_sys" where
  "check_pfec_on_prefetch_pte hw pool s =
     (let name = ''check_pfec_on_prefetch_pte'';
          (at1, s) = ac_test_init 0x123406001000 (hw_stack hw) s;
          (at2, s) = ac_test_init 0x123406003000 (hw_stack hw) s;
          at1 = at1\<lparr>at_flags := flag_set [AC_PDE_PRESENT, AC_PTE_PRESENT]\<rparr>;
          (at1, pool, s) = ac_setup_specific_pages at1 pool (30 * 1024 * 1024) (30 * 1024 * 1024) s;
          at2 = at2\<lparr>at_flags := at_flags at1 OR ac_mask AC_PTE_NX\<rparr>;
          (at2, pool, s) = ac_setup_specific_pages at2 pool (30 * 1024 * 1024) (30 * 1024 * 1024) s;
          (ok, s) = ac_test_do_access hw at1 s
      in if \<not> ok then (False, pool, emit (''%s: prepare fail'' @ [NL]) [VStr name] s)
         else
           let (ok, s) = ac_test_do_access hw at2 s
           in if \<not> ok then (False, pool, emit (''%s: check PFEC on prefetch pte path fail'' @ [NL]) [VStr name] s)
              else (True, pool, s))"

definition check_large_pte_dirty_for_nowp :: "ac_hw \<Rightarrow> ac_pool \<Rightarrow> ac_sys \<Rightarrow> bool \<times> ac_pool \<times> ac_sys" where
  "check_large_pte_dirty_for_nowp hw pool s =
     (let name = ''check_large_pte_dirty_for_nowp'';
          (at1, s) = ac_test_init 0x123403000000 (hw_stack hw) s;
          (at2, s) = ac_test_init 0x666606000000 (hw_stack hw) s;
          at2 = at2\<lparr>at_flags := flag_set [AC_PDE_PRESENT, AC_PDE_PSE]\<rparr>;
          (at2, pool, s) = ac_test_setup_pte at2 pool s;
          (ok, s) = ac_test_do_access hw at2 s
      in if \<not> ok then (False, pool, emit (''%s: read on the first mapping fail.'' @ [NL]) [VStr name] s)
         else
           let at1 = at1\<lparr>at_flags := at_flags at2 OR ac_mask AC_ACCESS_WRITE\<rparr>;
               (at1, pool, s) = ac_test_setup_pte at1 pool s;
               (ok, s) = ac_test_do_access hw at1 s
           in if \<not> ok then (False, pool, emit (''%s: write on the second mapping fail.'' @ [NL]) [VStr name] s)
              else
                let at2 = ac_set_expected_status (at2\<lparr>at_flags := at_flags at2 OR ac_mask AC_ACCESS_WRITE\<rparr>) s;
                    (ok, s) = ac_test_do_access hw at2 s
                in if \<not> ok then (False, pool, emit (''%s: write on the first mapping fail.'' @ [NL]) [VStr name] s)
                   else (True, pool, s))"

definition check_smep_andnot_wp :: "ac_hw \<Rightarrow> ac_pool \<Rightarrow> ac_sys \<Rightarrow> bool \<times> ac_pool \<times> ac_sys" where
  "check_smep_andnot_wp hw pool s =
     (let name = ''check_smep_andnot_wp'' in
      if \<not> hw_has_invpcid_single hw then (True, pool, s)
      else
        let (at1, s) = ac_test_init 0x123406001000 (hw_stack hw) s;
            at1 = at1\<lparr>at_flags := flag_set [AC_PDE_PRESENT, AC_PTE_PRESENT, AC_PDE_USER, AC_PTE_USER,
                     AC_PDE_ACCESSED, AC_PTE_ACCESSED, AC_CPU_CR4_SMEP, AC_CPU_CR0_WP, AC_ACCESS_WRITE]\<rparr>;
            (at1, pool, s) = ac_test_setup_pte at1 pool s;
            (prepared, s) = ac_test_do_access hw at1 s
        in if \<not> prepared then
             let s = emit (''%s: SMEP prepare fail'' @ [NL]) [VStr name] s
             in (False, pool, snd (set_cr4_smep hw False s))
           else
             let at1 = at1\<lparr>at_flags := (at_flags at1 AND NOT (ac_mask AC_ACCESS_WRITE)) OR ac_mask AC_ACCESS_FETCH\<rparr>;
                 at1 = ac_set_expected_status at1 s;
                 (ok, s) = ac_test_do_access hw at1 s;
                 s = snd (set_cr4_smep hw False s)
             in if \<not> ok then (False, pool, emit (''%s: check SMEP without wp fail'' @ [NL]) [VStr name] s)
                else (True, pool, s))"

definition ac_test_cases :: "(ac_hw \<Rightarrow> ac_pool \<Rightarrow> ac_sys \<Rightarrow> bool \<times> ac_pool \<times> ac_sys) list" where
  "ac_test_cases = [corrupt_hugepage_triger, check_pfec_on_prefetch_pte, check_large_pte_dirty_for_nowp,
     check_smep_andnot_wp]"

section \<open>The whole test\<close>

text \<open>The \<^verbatim>\<open>do ... while\<close> over all the flags; the counters are \<^verbatim>\<open>int\<close>s that stay below \<open>2 ^ 27 + 6\<close>.\<close>

partial_function (option) ac_run_loop ::
    "ac_hw \<Rightarrow> ac_test \<Rightarrow> ac_pool \<Rightarrow> ac_sys \<Rightarrow> int \<Rightarrow> int \<Rightarrow> (int \<times> int \<times> ac_pool \<times> ac_sys) option" where
  "ac_run_loop hw at pool s tests successes =
     (case ac_test_exec hw at pool s of
        (r, at, pool, s) \<Rightarrow>
          (case ac_test_bump s at of
             None \<Rightarrow> None
           | Some (again, at) \<Rightarrow>
               if again then ac_run_loop hw at pool s (tests + 1) (successes + of_bool r)
               else Some (tests + 1, successes + of_bool r, pool, s)))"

fun ac_case_loop ::
    "(ac_hw \<Rightarrow> ac_pool \<Rightarrow> ac_sys \<Rightarrow> bool \<times> ac_pool \<times> ac_sys) list \<Rightarrow> ac_hw \<Rightarrow> ac_pool \<Rightarrow> ac_sys \<Rightarrow> int \<Rightarrow> int
     \<Rightarrow> int \<times> int \<times> ac_pool \<times> ac_sys" where
  "ac_case_loop [] hw pool s tests successes = (tests, successes, pool, s)"
| "ac_case_loop (c # cs) hw pool s tests successes =
     (let (r, pool, s) = c hw pool s in ac_case_loop cs hw pool s (tests + 1) (successes + of_bool r))"

definition ac_probe_pke :: "ac_hw \<Rightarrow> ac_sys \<Rightarrow> int \<times> int \<times> ac_sys" where
  "ac_probe_pke hw s =
     (if hw_has_pku hw then (0, 0, set_cr4_pke False (set_cr4_pke True s))
      else
        let (r, s) = write_cr4_checking hw (sys_cr4 s OR X86_CR4_PKE) s
        in if r = GP_VECTOR
           then (1, 1, emit (''CR4.PKE not available, disabling PKE tests'' @ [NL]) []
                   (s\<lparr>invalid_mask := invalid_mask s OR ac_mask AC_PKU_AD OR ac_mask AC_PKU_WD
                       OR ac_mask AC_PKU_PKEY OR ac_mask AC_CPU_CR4_PKE\<rparr>))
           else (1, 0, set_cr4_pke False (emit (''Set PKE in CR4 - expect #GP: FAIL!'' @ [NL]) [] s)))"

definition ac_probe_smep :: "ac_hw \<Rightarrow> int \<Rightarrow> int \<Rightarrow> ac_sys \<Rightarrow> int \<times> int \<times> ac_sys" where
  "ac_probe_smep hw tests successes s =
     (if hw_has_invpcid_single hw then (tests, successes, s)
      else
        let (r, s) = set_cr4_smep hw True s
        in if r = GP_VECTOR
           then (tests + 1, successes + 1, emit (''CR4.SMEP not available, disabling SMEP tests'' @ [NL]) []
                   (s\<lparr>invalid_mask := invalid_mask s OR ac_mask AC_CPU_CR4_SMEP\<rparr>))
           else (tests + 1, successes,
                 snd (set_cr4_smep hw False (emit (''Set SMEP in CR4 - expect #GP: FAIL!'' @ [NL]) [] s))))"

definition ac_test_run :: "ac_hw \<Rightarrow> ac_sys \<Rightarrow> (bool \<times> ac_sys) option" where
  "ac_test_run hw s =
     (let s = emit (''run'' @ [NL]) [] s;
          (tests, successes, s) = ac_probe_pke hw s;
          (tests, successes, s) = ac_probe_smep hw tests successes s;
          pool = ac_env_int;
          (at, s) = ac_test_init 0x123400000000 (hw_stack hw) s
      in case ac_run_loop hw at pool s tests successes of
           None \<Rightarrow> None
         | Some (tests, successes, pool, s) \<Rightarrow>
             let (tests, successes, pool, s) = ac_case_loop ac_test_cases hw pool s tests successes;
                 s = emit ([NL] @ ''%d tests, %d failures'' @ [NL])
                       [VInt (word_of_int tests), VInt (word_of_int (tests - successes))] s
             in Some (successes = tests, s))"

text \<open>The program starts with its statics as their initialisers say.\<close>

definition ac_boot :: "ac_sys \<Rightarrow> ac_sys" where
  "ac_boot s = s\<lparr>invalid_mask := 0, page_table_levels := 0, ac_unique := 42, ac_verbose := False\<rparr>"

definition ac_main :: "ac_hw \<Rightarrow> ac_sys \<Rightarrow> (nat \<times> ac_sys) option" where
  "ac_main hw s =
     (case ac_test_run hw (emit (''starting test'' @ [NL] @ [NL]) [] (ac_boot s)\<lparr>page_table_levels := 4\<rparr>) of
        None \<Rightarrow> None
      | Some (r, s) \<Rightarrow>
          if hw_has_la57 hw then
            (case ac_test_run hw (emit (''starting 5-level paging test.'' @ [NL] @ [NL]) []
                    (hw_setup_5level_page_table hw (s\<lparr>page_table_levels := 5\<rparr>))) of
               None \<Rightarrow> None
             | Some (r, s) \<Rightarrow> Some (if r then 0 else 1, s))
          else Some (if r then 0 else 1, s))"

end
