(* ===== verification/Access_Enum.thy ===== *)
theory Access_Enum
  imports Access
begin

text \<open>
  The enumeration of the test cases by \<open>ac_test_bump\<close>: it visits the legal flag sets that avoid
  the bits of \<open>invalid_mask\<close> in increasing order, each once, and ends after the last. The loop of
  \<open>ac_test_run\<close> is therefore a fold over the sorted list of these sets.
\<close>

section \<open>Counting with masked bits\<close>

text \<open>\<open>masked_next m f\<close> counts up from \<open>f\<close> while the bits of \<open>m\<close> stay clear.\<close>

definition masked_next :: "int \<Rightarrow> int \<Rightarrow> int" where
  "masked_next m f = ((f OR m) + 1) AND NOT m"

lemma masked_next_rec:
  fixes f m :: int
  assumes "f AND m = 0"
  shows "masked_next m f =
    (if even m \<and> even f then f + 1 else 2 * masked_next (m div 2) (f div 2))"
    and "f div 2 AND m div 2 = 0" and "\<not> (odd f \<and> odd m)"
proof -
  have r: "f AND m = of_bool (odd f \<and> odd m) + 2 * (f div 2 AND m div 2)"
    by (rule and_rec)
  show o: "\<not> (odd f \<and> odd m)"
    using r assms by (cases "odd f \<and> odd m") (simp_all, presburger)
  then show z: "f div 2 AND m div 2 = 0"
    using r assms by auto
  have nm: "NOT m div 2 = NOT (m div 2)" and on: "odd (NOT m) \<longleftrightarrow> even m"
    by (simp_all add: not_int_div_2)
  have or: "f OR m = of_bool (odd f \<or> odd m) + 2 * (f div 2 OR m div 2)"
    by (rule or_rec)
  have zz: "(f div 2 OR m div 2) AND NOT (m div 2) = f div 2"
  proof (rule bit_eqI)
    fix n
    have "\<not> (bit (f div 2) n \<and> bit (m div 2) n)"
      using z by (metis bit_and_iff bit_0_eq bot_apply bot_bool_def)
    then show "bit ((f div 2 OR m div 2) AND NOT (m div 2)) n = bit (f div 2) n"
      by (auto simp: bit_and_iff bit_or_iff bit_not_iff)
  qed
  show "masked_next m f = (if even m \<and> even f then f + 1 else 2 * masked_next (m div 2) (f div 2))"
  proof (cases "even m \<and> even f")
    case True
    then have s: "(f OR m) + 1 = 1 + 2 * (f div 2 OR m div 2)"
      using or by simp
    have "masked_next m f = of_bool (odd (1 + 2 * (f div 2 OR m div 2)) \<and> odd (NOT m))
        + 2 * ((1 + 2 * (f div 2 OR m div 2)) div 2 AND NOT m div 2)"
      unfolding masked_next_def s by (rule and_rec)
    also have "\<dots> = f + 1"
      using True nm zz by simp
    finally show ?thesis
      using True by simp
  next
    case False
    then have s: "(f OR m) + 1 = 2 * ((f div 2 OR m div 2) + 1)"
      using or by auto
    have "masked_next m f = of_bool (odd (2 * ((f div 2 OR m div 2) + 1)) \<and> odd (NOT m))
        + 2 * (2 * ((f div 2 OR m div 2) + 1) div 2 AND NOT m div 2)"
      unfolding masked_next_def s by (rule and_rec)
    also have "\<dots> = 2 * masked_next (m div 2) (f div 2)"
      using nm by (simp add: masked_next_def)
    finally show ?thesis
      using False by auto
  qed
qed

lemma masked_next_least:
  fixes f m h :: int
  assumes "f AND m = 0" and "h AND m = 0" and "f < h" and "0 \<le> f" and "0 \<le> m"
  shows "masked_next m f \<le> h"
  using assms
proof (induction "nat h" arbitrary: f m h rule: less_induct)
  case less
  note f = masked_next_rec [OF less.prems(1)] and h = masked_next_rec [OF less.prems(2)]
  show ?case
  proof (cases "even m \<and> even f")
    case True
    then show ?thesis
      using f(1) less.prems(3) by simp
  next
    case False
    have lt: "f div 2 < h div 2"
    proof (cases "odd m")
      case True
      then have "even f" "even h"
        using f(3) h(3) by auto
      then show ?thesis
        using less.prems(3) by auto
    next
      case e: False
      then have "odd f"
        using False by simp
      then show ?thesis
        using less.prems(3) by presburger
    qed
    have "masked_next (m div 2) (f div 2) \<le> h div 2"
      using less.hyps [of "h div 2" "f div 2" "m div 2"] f(2) h(2) lt less.prems(3-5) by auto
    then show ?thesis
      using False f(1) by auto
  qed
qed

lemma masked_next_greater:
  fixes f m :: int
  assumes "f AND m = 0" and "0 \<le> f" and "0 \<le> m"
  shows "f < masked_next m f"
  using assms
proof (induction "nat (f + m)" arbitrary: f m rule: less_induct)
  case less
  note f = masked_next_rec [OF less.prems(1)]
  show ?case
  proof (cases "even m \<and> even f")
    case True
    then show ?thesis
      using f(1) by simp
  next
    case False
    then have "f + m > 0"
      using less.prems by (cases "m = 0"; cases "f = 0") auto
    then have "f div 2 + m div 2 < f + m"
      using less.prems by presburger
    then have "f div 2 < masked_next (m div 2) (f div 2)"
      using less.hyps [of "f div 2" "m div 2"] f(2) less.prems by simp
    then show ?thesis
      using False f(1) by auto
  qed
qed

lemma masked_next_clear: "masked_next m f AND m = 0"
  unfolding masked_next_def by (rule bit_eqI) (auto simp: bit_and_iff bit_not_iff)

lemma masked_next_bound:
  fixes f m :: int
  assumes "f AND m = 0" and "0 \<le> f" and "0 \<le> m" and "f < 2 ^ n" and "m < 2 ^ n"
  shows "masked_next m f \<le> 2 ^ n"
proof -
  have "(2 ^ n :: int) AND m = 0"
  proof (rule bit_eqI)
    fix k
    have "take_bit n m = m"
      using assms by (simp add: take_bit_int_eq_self)
    then have "bit m k \<Longrightarrow> k < n"
      by (metis bit_take_bit_iff)
    then show "bit ((2 ^ n :: int) AND m) k = bit (0 :: int) k"
      by (auto simp: bit_and_iff bit_exp_iff)
  qed
  then show ?thesis
    using masked_next_least [OF assms(1) _ _ assms(2,3), of "2 ^ n"] assms(4) by simp
qed

section \<open>The next test case\<close>

text \<open>The flag sets that the test runs when the bits of \<open>m\<close> are disabled.\<close>

definition legal_flags :: "u32 \<Rightarrow> bool" where
  "legal_flags f \<longleftrightarrow> \<not> (F f AC_ACCESS_FETCH \<and> F f AC_ACCESS_WRITE) \<and> \<not> (F f AC_ACCESS_USER \<and> F f AC_CPU_CR4_SMEP)
     \<and> (F f AC_PKU_AD \<or> F f AC_PKU_WD \<longrightarrow> F f AC_CPU_CR4_PKE) \<and> (F f AC_PDE_BIT13 \<longrightarrow> F f AC_PDE_PSE)"

definition test_flags :: "u32 \<Rightarrow> u32 set" where
  "test_flags m = {f. f < push_bit NR_AC_FLAGS 1 \<and> f AND m = 0 \<and> legal_flags f}"

lemma ac_test_legal_iff: "ac_test_legal at \<longleftrightarrow> legal_flags (at_flags at)"
  by (auto simp: ac_test_legal_def legal_flags_def Let_def)

lemma flag_limit: "push_bit NR_AC_FLAGS (1 :: u32) = 2 ^ 27" and uint_flag_limit: "uint (2 ^ 27 :: u32) = 2 ^ 27"
  by (simp_all add: NR_AC_FLAGS_def push_bit_of_1)

lemma in_test_flags: "f \<in> test_flags m \<longleftrightarrow> f < 2 ^ 27 \<and> f AND m = 0 \<and> legal_flags f"
  by (simp only: test_flags_def flag_limit mem_Collect_eq)

lemma flags_measure: "f < g \<Longrightarrow> g \<le> 2 ^ 27 \<Longrightarrow> unat (2 ^ 27 - g) < unat (2 ^ 27 - (f :: u32))"
  by (subst (1 2) unat_sub) (auto simp: word_less_nat_alt word_le_nat_alt)

lemma uint_masked_next:
  fixes f m :: u32
  assumes "f < 2 ^ 27" and "m < 2 ^ 27"
  shows "uint (((f OR m) + 1) AND NOT m) = masked_next (uint m) (uint f)"
proof -
  have b: "uint f < 2 ^ 27" "uint m < 2 ^ 27"
    using assms by (simp_all add: word_less_def)
  have "uint f OR uint m < 2 ^ 27"
    using OR_upper [OF _ b] by simp
  then have s: "uint ((f OR m) + 1) = (uint f OR uint m) + 1"
    by (simp add: uint_word_ariths unsigned_or_eq or_nonnegative_int_iff)
  have "uint (x AND NOT m) = uint x AND NOT (uint m)" for x :: u32
    by (rule bit_eqI) (auto simp: bit_and_iff bit_not_iff bit_uint_iff)
  then show ?thesis
    by (simp add: s masked_next_def)
qed

lemma uint_disjoint: "f AND m = (0 :: u32) \<Longrightarrow> uint f AND uint m = 0"
  by (metis uint_0_eq unsigned_and_eq)

lemma bump_one:
  assumes "at_flags at < 2 ^ 27" and "invalid_mask s < 2 ^ 27" and "at_flags at AND invalid_mask s = 0"
  obtains g where "ac_test_bump_one s at = (g < 2 ^ 27, at\<lparr>at_flags := g\<rparr>)"
    and "at_flags at < g" and "g \<le> 2 ^ 27" and "g AND invalid_mask s = 0"
    and "\<forall>h. at_flags at < h \<longrightarrow> h AND invalid_mask s = 0 \<longrightarrow> g \<le> h"
proof -
  let ?f = "at_flags at" and ?m = "invalid_mask s"
  let ?g = "((?f OR ?m) + 1) AND NOT ?m"
  note u = uint_masked_next [OF assms(1,2)] and d = uint_disjoint [OF assms(3)]
  have b: "uint ?f < 2 ^ 27" "uint ?m < 2 ^ 27"
    using assms by (simp_all add: word_less_def)
  show ?thesis
  proof (rule that [of ?g])
    show "ac_test_bump_one s at = (?g < 2 ^ 27, at\<lparr>at_flags := ?g\<rparr>)"
      by (simp add: ac_test_bump_one_def Let_def NR_AC_FLAGS_def)
    show "?f < ?g"
      unfolding word_less_def u using masked_next_greater [OF d] by simp
    show "?g \<le> 2 ^ 27"
      unfolding word_le_def u uint_flag_limit using masked_next_bound [OF d _ _ b] by simp
    show "?g AND ?m = 0"
      by (rule bit_eqI) (auto simp: bit_and_iff bit_not_iff)
    show "\<forall>h. ?f < h \<longrightarrow> h AND ?m = 0 \<longrightarrow> ?g \<le> h"
    proof (intro allI impI)
      fix h assume "?f < h" "h AND ?m = 0"
      then show "?g \<le> h"
        unfolding word_le_def u using masked_next_least [OF d uint_disjoint] by (simp add: word_less_def)
    qed
  qed
qed

text \<open>The result of \<open>ac_test_bump\<close>: the least test case above the current one, or none.\<close>

definition bump_spec :: "ac_sys \<Rightarrow> ac_test \<Rightarrow> bool \<Rightarrow> ac_test \<Rightarrow> bool" where
  "bump_spec s at ret at' \<longleftrightarrow>
     (\<exists>g. at' = at\<lparr>at_flags := g\<rparr>
        \<and> (if ret then g \<in> test_flags (invalid_mask s) \<and> at_flags at < g
                       \<and> (\<forall>h \<in> test_flags (invalid_mask s). at_flags at < h \<longrightarrow> g \<le> h)
           else (\<forall>h \<in> test_flags (invalid_mask s). h \<le> at_flags at)))"

lemma ac_test_bump_spec:
  assumes "at_flags at < 2 ^ 27" and "invalid_mask s < 2 ^ 27" and "at_flags at AND invalid_mask s = 0"
  shows "\<exists>ret at'. ac_test_bump s at = Some (ret, at') \<and> bump_spec s at ret at'"
  using assms(1,3)
proof (induction "unat (2 ^ 27 - at_flags at)" arbitrary: at rule: less_induct)
  case less
  obtain g where g: "ac_test_bump_one s at = (g < 2 ^ 27, at\<lparr>at_flags := g\<rparr>)"
    "at_flags at < g" "g \<le> 2 ^ 27" "g AND invalid_mask s = 0"
    "\<forall>h. at_flags at < h \<longrightarrow> h AND invalid_mask s = 0 \<longrightarrow> g \<le> h"
    using bump_one [OF less.prems(1) assms(2) less.prems(2)] .
  have next_test: "g \<le> h" if "h \<in> test_flags (invalid_mask s)" "at_flags at < h" for h
    using that g(5) by (simp add: in_test_flags)
  consider "g < 2 ^ 27" "\<not> legal_flags g" | "g < 2 ^ 27" "legal_flags g" | "\<not> g < 2 ^ 27"
    by blast
  then show ?case
  proof cases
    case 1
    let ?at = "at\<lparr>at_flags := g\<rparr>"
    have "unat (2 ^ 27 - g) < unat (2 ^ 27 - at_flags at)"
      by (rule flags_measure [OF g(2,3)])
    then obtain ret at' where r: "ac_test_bump s ?at = Some (ret, at')" "bump_spec s ?at ret at'"
      using less.hyps [of ?at] 1(1) g(4) by auto
    have "at_flags at < h \<longleftrightarrow> g < h" if "h \<in> test_flags (invalid_mask s)" for h
      using next_test [OF that] that g(2) 1(2) by (cases "h = g") (auto simp: in_test_flags)
    then have "bump_spec s at ret at'"
      using r(2) unfolding bump_spec_def by (cases ret) (auto simp: not_less [symmetric])
    then show ?thesis
      using r(1) 1 g(1) ac_test_bump.simps [of s at] by (auto simp: ac_test_legal_iff)
  next
    case 2
    then have "ac_test_bump s at = Some (True, at\<lparr>at_flags := g\<rparr>)"
      using g(1) ac_test_bump.simps [of s at] by (simp add: ac_test_legal_iff)
    moreover have "bump_spec s at True (at\<lparr>at_flags := g\<rparr>)"
      unfolding bump_spec_def using 2 g(2,4) next_test by (intro exI [of _ g]) (simp add: in_test_flags)
    ultimately show ?thesis
      by blast
  next
    case 3
    then have "ac_test_bump s at = Some (False, at\<lparr>at_flags := g\<rparr>)"
      using g(1) ac_test_bump.simps [of s at] by simp
    moreover have "h \<le> at_flags at" if "h \<in> test_flags (invalid_mask s)" for h
      using next_test [OF that] 3 that by (cases "at_flags at < h") (auto simp: in_test_flags)
    then have "bump_spec s at False (at\<lparr>at_flags := g\<rparr>)"
      by (auto simp: bump_spec_def)
    ultimately show ?thesis
      by blast
  qed
qed

section \<open>The loop over all test cases\<close>

text \<open>What every part of a test case leaves alone: the flags of the test, and the mask.\<close>

lemma mask_print [simp]:
  "invalid_mask (emit fmt va s) = invalid_mask s" "invalid_mask (ac_puts t s) = invalid_mask s"
  "invalid_mask (ac_test_show at s) = invalid_mask s"
  by (simp_all add: emit_def ac_puts_def ac_test_show_def split: outcome.splits)

lemma mask_dump_loop [simp]: "invalid_mask (dump_mapping_loop i root at s) = invalid_mask s"
  by (induction i root at s rule: dump_mapping_loop.induct) (subst dump_mapping_loop.simps, simp add: Let_def)

lemma mask_check [simp]: "invalid_mask (snd (ac_test_check at ok c fmt va s)) = invalid_mask s"
  by (simp add: ac_test_check_def dump_mapping_def Let_def)

lemma mask_check_pair: "ac_test_check at ok c fmt va s = (ok', s') \<Longrightarrow> invalid_mask s' = invalid_mask s"
  by (metis mask_check snd_conv)

lemma mask_verdict [simp]: "invalid_mask (snd (ac_test_verdict at fault s)) = invalid_mask s"
  unfolding ac_test_verdict_def Let_def
  by (auto split: prod.splits dest!: mask_check_pair split: if_splits)

lemma mask_registers [simp]:
  "invalid_mask (set_cr0_wp b s) = invalid_mask s" "invalid_mask (set_efer_nx b s) = invalid_mask s"
  "invalid_mask (set_cr4_pke b s) = invalid_mask s" "invalid_mask (ptl2_write hw h s) = invalid_mask s"
  "invalid_mask (snd (write_cr4_checking hw v s)) = invalid_mask s"
  by (simp_all add: set_cr4_pke_def set_efer_nx_def set_cr0_wp_def write_cr4_checking_def ptl2_write_def Let_def)

lemma mask_smep [simp]: "invalid_mask (snd (set_cr4_smep hw b s)) = invalid_mask s"
  by (simp add: set_cr4_smep_def Let_def case_prod_beta)

lemma mask_cpu [simp]: "invalid_mask (ac_test_cpu hw flags s) = invalid_mask s"
  unfolding ac_test_cpu_def Let_def by simp

definition hw_keeps_mask :: "ac_hw \<Rightarrow> bool" where
  "hw_keeps_mask hw \<longleftrightarrow>
     (\<forall>s a w u f r. invalid_mask (snd (snd (hw_access hw s a w u f r))) = invalid_mask s)"

lemma mask_do_access:
  assumes "hw_keeps_mask hw"
  shows "invalid_mask (snd (ac_test_do_access hw at s)) = invalid_mask s"
  using assms by (simp add: ac_test_do_access_def hw_keeps_mask_def Let_def case_prod_beta)

lemma permissions_keep [simp]:
  "at_flags (snd (ac_test_permissions fl w u x at)) = at_flags at"
  "at_ptep (snd (ac_test_permissions fl w u x at)) = at_ptep at"
  "at_pdep (snd (ac_test_permissions fl w u x at)) = at_pdep at"
  unfolding ac_test_permissions_def Let_def snd_conv by (simp_all cong: if_cong)

lemma access_kind_keeps [simp]:
  "at_flags (ac_access_kind fl at) = at_flags at" "at_ptep (ac_access_kind fl at) = at_ptep at"
  "at_pdep (ac_access_kind fl at) = at_pdep at"
  by (simp_all add: ac_access_kind_def Let_def)

lemma emulate_walk_keeps [simp]:
  "at_flags (ac_emulate_walk fl at) = at_flags at" "at_ptep (ac_emulate_walk fl at) = at_ptep at"
  "at_pdep (ac_emulate_walk fl at) = at_pdep at"
  by (simp_all add: ac_emulate_walk_def ac_entry_error_def Let_def case_prod_beta)

lemma emulate_keeps [simp]:
  "at_flags (ac_emulate_access fl at) = at_flags at" "at_ptep (ac_emulate_access fl at) = at_ptep at"
  "at_pdep (ac_emulate_access fl at) = at_pdep at"
  by (simp_all add: ac_emulate_access_def Let_def)

lemma status_keeps [simp]: "at_flags (ac_set_expected_status at s) = at_flags at"
  by (simp add: ac_set_expected_status_def Let_def)

lemma setup_level_keeps:
  "ac_setup_level i slot pd pt at pool s = (at', pool', s') \<Longrightarrow>
     at_flags at' = at_flags at \<and> at_virt at' = at_virt at \<and> at_phys at' = at_phys at
     \<and> invalid_mask s' = invalid_mask s"
  by (auto simp: ac_setup_level_def Let_def split: if_splits prod.splits)

lemma setup_loop_keeps:
  "ac_setup_loop i root skip pd pt at pool s = (at', pool', s') \<Longrightarrow>
     at_flags at' = at_flags at \<and> at_virt at' = at_virt at \<and> at_phys at' = at_phys at
     \<and> invalid_mask s' = invalid_mask s"
proof (induction i arbitrary: root skip at pool s)
  case 0
  then show ?case
    by (simp add: ac_setup_loop.simps)
next
  case (Suc i)
  let ?slot = "(root AND PT_BASE_ADDR_MASK) + 8 * PT_INDEX (at_virt at) (Suc i)"
  obtain at1 pool1 s1 where l: "ac_setup_level (Suc i) ?slot pd pt at pool s = (at1, pool1, s1)"
    by (metis prod_cases3)
  note p = Suc.prems [unfolded ac_setup_loop.simps [of "Suc i"] Let_def]
  show ?case
    using p setup_level_keeps [OF l] Suc.IH by (fastforce simp: l split: if_splits)
qed

lemma exec_keeps:
  assumes "hw_keeps_mask hw" and "ac_test_exec hw at pool s = (r, at', pool', s')"
  shows "at_flags at' = at_flags at" and "invalid_mask s' = invalid_mask s"
proof -
  let ?s = "if ac_verbose s then ac_test_show at s else s"
  let ?p = "if \<not> ac_test_enough_room pool then ac_test_reset_pt_pool pool else pool"
  obtain at1 p1 s1 where l: "ac_setup_loop (page_table_levels ?s) (sys_cr3 ?s) True 0 0 (at\<lparr>at_ptep := 0\<rparr>) ?p ?s
      = (at1, p1, s1)"
    by (metis prod_cases3)
  have "at' = ac_set_expected_status at1 s1" "s' = snd (ac_test_do_access hw at' s1)"
    using assms(2) l by (auto simp: ac_test_exec_def ac_test_setup_pte_def ac_setup_pages_def Let_def split: prod.splits)
  then show "at_flags at' = at_flags at" "invalid_mask s' = invalid_mask s"
    using setup_loop_keeps [OF l] mask_do_access [OF assms(1)] by auto
qed

text \<open>The reference: the cases of a list are run one after the other.\<close>

fun run_cases ::
    "ac_hw \<Rightarrow> u32 list \<Rightarrow> ac_test \<Rightarrow> ac_pool \<Rightarrow> ac_sys \<Rightarrow> int \<Rightarrow> int \<Rightarrow> int \<times> int \<times> ac_pool \<times> ac_sys" where
  "run_cases hw [] at pool s tests successes = (tests, successes, pool, s)"
| "run_cases hw (f # fs) at pool s tests successes =
     (let (r, at, pool, s) = ac_test_exec hw (at\<lparr>at_flags := f\<rparr>) pool s
      in run_cases hw fs at pool s (tests + 1) (successes + of_bool r))"

definition cases_from :: "u32 \<Rightarrow> u32 \<Rightarrow> u32 list" where
  "cases_from m f = sorted_list_of_set {g \<in> test_flags m. f \<le> g}"

lemma finite_u32 [simp]: "finite (A :: u32 set)"
  by (rule finite_subset [OF subset_UNIV]) (rule finite)

lemma cases_from_last:
  assumes "f \<in> test_flags m" and "\<forall>h \<in> test_flags m. h \<le> f"
  shows "cases_from m f = [f]"
proof -
  have "{g \<in> test_flags m. f \<le> g} = {f}"
    using assms by (auto intro: antisym)
  then show ?thesis
    by (simp add: cases_from_def)
qed

lemma cases_from_next:
  assumes "f \<in> test_flags m" and "g \<in> test_flags m" and "f < g" and "\<forall>h \<in> test_flags m. f < h \<longrightarrow> g \<le> h"
  shows "cases_from m f = f # cases_from m g"
proof -
  have e: "{g \<in> test_flags m. f \<le> g} = insert f {h \<in> test_flags m. g \<le> h}"
    using assms by (auto simp: order_le_less)
  have "sorted_list_of_set (insert f {h \<in> test_flags m. g \<le> h}) = insort f (sorted_list_of_set {h \<in> test_flags m. g \<le> h})"
  proof -
    have "{h \<in> test_flags m. g \<le> h} - {f} = {h \<in> test_flags m. g \<le> h}"
      using assms(3) by auto
    then show ?thesis
      by (simp only: sorted_list_of_set_insert_remove [OF finite_u32])
  qed
  also have "\<dots> = f # sorted_list_of_set {h \<in> test_flags m. g \<le> h}"
    by (rule insort_is_Cons) (use assms(3) in auto)
  finally show ?thesis
    by (simp add: cases_from_def e)
qed

lemma run_loop_cases:
  assumes hw: "hw_keeps_mask hw" and m: "m < 2 ^ 27"
  shows "at_flags at \<in> test_flags m \<Longrightarrow> invalid_mask s = m
    \<Longrightarrow> ac_run_loop hw at pool s t n = Some (run_cases hw (cases_from m (at_flags at)) at pool s t n)"
proof (induction "unat (2 ^ 27 - at_flags at)" arbitrary: at pool s t n rule: less_induct)
  case less
  have self: "at\<lparr>at_flags := at_flags at\<rparr> = at"
    by simp
  obtain r at1 pool1 s1 where x: "ac_test_exec hw at pool s = (r, at1, pool1, s1)"
    by (cases "ac_test_exec hw at pool s") blast
  note k = exec_keeps [OF hw x]
  have k1: "invalid_mask s1 = m"
    using k less.prems by simp
  obtain ret at2 where b: "ac_test_bump s1 at1 = Some (ret, at2)" "bump_spec s1 at1 ret at2"
    using ac_test_bump_spec [of at1 s1] less.prems m k by (auto simp: in_test_flags)
  show ?case
  proof (cases ret)
    case True
    then obtain g where g: "at2 = at1\<lparr>at_flags := g\<rparr>" "g \<in> test_flags m" "at_flags at < g"
      "\<forall>h \<in> test_flags m. at_flags at < h \<longrightarrow> g \<le> h"
      using b(2) k k1 by (auto simp: bump_spec_def)
    have "unat (2 ^ 27 - g) < unat (2 ^ 27 - at_flags at)"
      using flags_measure [OF g(3)] g(2) by (simp add: in_test_flags order_less_imp_le)
    then have "ac_run_loop hw at2 pool1 s1 (t + 1) (n + of_bool r)
        = Some (run_cases hw (cases_from m g) at2 pool1 s1 (t + 1) (n + of_bool r))"
      using less.hyps [of at2 s1] g(1,2) k1 by simp
    moreover have "run_cases hw (cases_from m g) at2 = run_cases hw (cases_from m g) at1"
      using g(1) by (intro ext) (cases "cases_from m g"; simp)
    ultimately show ?thesis
      by (subst ac_run_loop.simps)
        (simp only: x b(1) True cases_from_next [OF less.prems(1) g(2-4)] run_cases.simps self prod.case
          option.case Let_def if_True)
  next
    case False
    then have l: "\<forall>h \<in> test_flags m. h \<le> at_flags at"
      using b(2) k k1 by (auto simp: bump_spec_def)
    show ?thesis
      by (subst ac_run_loop.simps)
        (simp only: x b(1) False cases_from_last [OF less.prems(1) l] run_cases.simps self prod.case
          option.case Let_def if_False)
  qed
qed

lemma test_flags_0: "0 \<in> test_flags m"
  by (simp add: in_test_flags legal_flags_def F_def)

text \<open>
  C34: the main loop of the test ends, on any processor. Started with no flags it has then run each
  legal set of flags that avoids the disabled bits exactly once, in increasing order.
\<close>

theorem ac_run_loop_runs_each_case_once:
  assumes "hw_keeps_mask hw" and "invalid_mask s < 2 ^ 27" and "at_flags at = 0"
  shows "ac_run_loop hw at pool s tests successes =
    Some (run_cases hw (sorted_list_of_set (test_flags (invalid_mask s))) at pool s tests successes)"
  using run_loop_cases [OF assms(1,2), of at s pool tests successes] test_flags_0 assms(3) by (simp add: cases_from_def)

text \<open>A processor that never faults, with all flags but the first disabled: two cases are run.\<close>

definition idle_hw :: ac_hw where
  "idle_hw = \<lparr>hw_access = (\<lambda>s a w u f r. (None, r, s)), hw_cr4_ok = (\<lambda>_. True), hw_has_pku = True,
     hw_has_invpcid_single = True, hw_has_la57 = False, hw_ptl2 = 0,
     hw_stack = \<lparr>at_flags = 0, at_virt = 0x123400000000, at_phys = 0x2000000, at_ptep = 0, at_expected_pte = 0,
       at_pdep = 0, at_expected_pde = 0, at_ignore_pde = 0, at_expected_fault = False, at_expected_error = 0\<rparr>,
     hw_setup_5level_page_table = (\<lambda>s. s)\<rparr>"

definition idle_sys :: ac_sys where
  "idle_sys = \<lparr>sys_ram = (\<lambda>_. 0), sys_cr0 = 0, sys_cr3 = 0x1000, sys_cr4 = 0, sys_efer = 0, sys_pkru = 0,
     sys_out = [], invalid_mask = 0x7fffffe, page_table_levels = 4, ac_unique = 42, ac_verbose = False\<rparr>"

lemma idle_cases: "sorted_list_of_set (test_flags (invalid_mask idle_sys)) = [0, 1]"
proof -
  have "f \<in> test_flags 0x7fffffe \<longleftrightarrow> f = 0 \<or> f = 1" for f
  proof
    assume "f \<in> test_flags 0x7fffffe"
    then have f: "f < 2 ^ 27" "f AND 0x7fffffe = 0"
      by (simp_all add: in_test_flags)
    have "unat (take_bit 27 f) = unat f"
      using f(1) unfolding unsigned_take_bit_eq by (simp add: take_bit_nat_eq_self word_less_nat_alt)
    then have "f = f AND (0x7fffffe OR 1)"
      by (simp add: word_unat_eq_iff take_bit_eq_mask mask_numeral)
    also have "\<dots> = f AND 1"
      using f(2) by (simp only: bit.conj_disj_distrib or.left_neutral)
    finally have "f = f AND 1" .
    then show "f = 0 \<or> f = 1"
      by (metis and_one_eq parity_cases)
  next
    assume "f = 0 \<or> f = 1"
    then show "f \<in> test_flags 0x7fffffe"
      by (auto simp: in_test_flags legal_flags_def F_def ac_mask_def)
  qed
  then have "test_flags (invalid_mask idle_sys) = {0, 1}"
    by (auto simp: idle_sys_def)
  then show ?thesis
    by simp
qed

theorem ac_run_loop_runs_each_case_once_witness:
  "ac_run_loop idle_hw (hw_stack idle_hw) ac_env_int idle_sys 0 0 = Some (run_cases idle_hw [0, 1] (hw_stack idle_hw) ac_env_int idle_sys 0 0)"
  using ac_run_loop_runs_each_case_once [of idle_hw idle_sys "hw_stack idle_hw" ac_env_int 0 0] idle_cases
  by (simp add: idle_hw_def idle_sys_def hw_keeps_mask_def)

end
