(* ===== verification/Access_Mmu.thy ===== *)
theory Access_Mmu
  imports Access_Enum
begin

text \<open>
  The architectural behaviour of a memory access with paging, as the processor manuals give it, and the
  proof that the expectations of \<^verbatim>\<open>x86/access.c\<close> are right: on a processor that behaves so, every test
  case of the main loop passes. What the manuals leave open is a parameter: the number \<open>mp\<close> of physical
  address bits, and whether a faulting access marks the tables on its way as accessed (\<open>early\<close>).
\<close>

section \<open>The memory management unit\<close>

definition addr_bits :: "nat \<Rightarrow> u64" where
  "addr_bits mp = mask mp AND NOT (mask 12)"

text \<open>Reserved bits of a present entry at level \<open>lvl\<close>.\<close>

definition pt_reserved :: "nat \<Rightarrow> bool \<Rightarrow> nat \<Rightarrow> u64 \<Rightarrow> bool" where
  "pt_reserved mp nxe lvl e \<longleftrightarrow>
     e AND (mask 52 AND NOT (mask mp)) \<noteq> 0 \<or> (bit e 63 \<and> \<not> nxe)
     \<or> (bit e 7 \<and> (lvl \<ge> 4 \<or> (lvl = 3 \<and> e AND (mask 30 AND NOT (mask 13)) \<noteq> 0) \<or> (lvl = 2 \<and> e AND (mask 21 AND NOT (mask 13)) \<noteq> 0)))"

text \<open>
  A walk ends at a missing entry, at a malformed one, or with a mapping: level and value of the last entry,
  and whether all entries allow writing, user access, and execution.
\<close>

datatype walk_end = Missing | Malformed | Mapped nat u64 bool bool bool

text \<open>The walk returns the addresses of the valid entries on its way.\<close>

primrec mmu_walk ::
    "nat \<Rightarrow> bool \<Rightarrow> mem \<Rightarrow> nat \<Rightarrow> u64 \<Rightarrow> u64 \<Rightarrow> bool \<Rightarrow> bool \<Rightarrow> bool \<Rightarrow> u64 list \<times> walk_end" where
  "mmu_walk mp nxe m 0 tbl va w u x = ([], Missing)"
| "mmu_walk mp nxe m (Suc l) tbl va w u x =
     (let a = tbl + 8 * (drop_bit (12 + 9 * l) va AND 511);
          e = load64 m a
      in if \<not> bit e 0 then ([], Missing)
         else if pt_reserved mp nxe (Suc l) e then ([], Malformed)
         else
           let w = (w \<and> bit e 1); u = (u \<and> bit e 2); x = (x \<and> \<not> bit e 63)
           in if l = 0 \<or> (l \<le> 2 \<and> bit e 7) then ([a], Mapped (Suc l) e w u x)
              else let (path, r) = mmu_walk mp nxe m l (e AND addr_bits mp) va w u x in (a # path, r))"

text \<open>The error code of a page fault.\<close>

definition fault_code :: "bool \<Rightarrow> bool \<Rightarrow> bool \<Rightarrow> bool \<Rightarrow> bool \<Rightarrow> bool \<Rightarrow> u32" where
  "fault_code p wr us rsvd fetch pk =
     (if p then 1 else 0) OR (if wr then 2 else 0) OR (if us then 4 else 0) OR (if rsvd then 8 else 0)
     OR (if fetch then 16 else 0) OR (if pk then 32 else 0)"

text \<open>The protection key of the last entry forbids the access.\<close>

definition pkey_denies :: "u32 \<Rightarrow> bool \<Rightarrow> u64 \<Rightarrow> bool \<Rightarrow> bool \<Rightarrow> bool" where
  "pkey_denies pkru wp e wr us =
     (let k = unat (drop_bit 59 e AND 15)
      in bit pkru (2 * k) \<or> (wr \<and> bit pkru (2 * k + 1) \<and> (us \<or> wp)))"

definition mark :: "u64 list \<Rightarrow> u64 \<Rightarrow> mem \<Rightarrow> mem" where
  "mark as v m = fold (\<lambda>a m. store64 m a (load64 m a OR v)) as m"

text \<open>One access to \<open>va\<close>: write, user mode or instruction fetch; \<open>r\<close> is the data register.\<close>

definition mmu_access ::
    "nat \<Rightarrow> bool \<Rightarrow> ac_sys \<Rightarrow> u64 \<Rightarrow> bool \<Rightarrow> bool \<Rightarrow> bool \<Rightarrow> u32 \<Rightarrow> u32 option \<times> u32 \<times> ac_sys" where
  "mmu_access mp early s va wr us fe r =
     (let m = sys_ram s; wp = bit (sys_cr0 s) 16; nxe = bit (sys_efer s) 11;
          smep = bit (sys_cr4 s) 20; pke = bit (sys_cr4 s) 22;
          (path, res) = mmu_walk mp nxe m (if bit (sys_cr4 s) 12 then 5 else 4) (sys_cr3 s AND addr_bits mp) va True True True;
          i = (fe \<and> (nxe \<or> smep))
      in case res of
           Missing \<Rightarrow> (Some (fault_code False wr us False i False), r,
                       if early then s\<lparr>sys_ram := mark path PT_ACCESSED_MASK m\<rparr> else s)
         | Malformed \<Rightarrow> (Some (fault_code True wr us True i False), r,
                         if early then s\<lparr>sys_ram := mark path PT_ACCESSED_MASK m\<rparr> else s)
         | Mapped lvl e w u x \<Rightarrow>
             let pk = (pke \<and> u \<and> \<not> fe \<and> pkey_denies (sys_pkru s) wp e wr us)
             in if (us \<and> \<not> u) \<or> (wr \<and> \<not> w \<and> (us \<or> wp)) \<or> (fe \<and> \<not> x) \<or> (fe \<and> \<not> us \<and> smep \<and> u) \<or> pk
                then (Some (fault_code True wr us False i pk), r,
                      if early then s\<lparr>sys_ram := mark (butlast path) PT_ACCESSED_MASK m\<rparr> else s)
                else
                  let m = mark path PT_ACCESSED_MASK m;
                      m = (if wr then mark [last path] PT_DIRTY_MASK m else m);
                      size_bits = 12 + 9 * (lvl - 1);
                      pa = (e AND addr_bits mp AND NOT (mask size_bits)) OR (va AND mask size_bits)
                  in if wr then (None, r, s\<lparr>sys_ram := storen 4 m pa (ucast r)\<rparr>)
                     else (None, if fe then r else ucast (loadn 4 m pa), s\<lparr>sys_ram := m\<rparr>))"

section \<open>Bits of the entries\<close>

lemma bit_or_if [simp]: "bit (or_if b m e) n \<longleftrightarrow> bit e n \<or> b \<and> bit m n"
  by (simp add: or_if_def bit_or_iff)

lemma bit_single: "bit (push_bit k 1 :: u64) n \<longleftrightarrow> n = k \<and> k < 64"
  by (auto simp: bit_exp_iff)

lemma bit_single2: "bit (push_bit 59 2 :: u64) n \<longleftrightarrow> n = 60"
proof -
  have "push_bit 59 2 = (push_bit 60 1 :: u64)"
    by simp
  then show ?thesis
    by (simp only: bit_single) simp
qed

lemmas bit_pt_masks = PT_PRESENT_MASK_def PT_WRITABLE_MASK_def PT_USER_MASK_def PT_ACCESSED_MASK_def PT_DIRTY_MASK_def
  PT64_NX_MASK_def PT_PAGE_SIZE_MASK_def

text \<open>The frame of the tested page is at 32M.\<close>

lemma frame_bits:
  "0x2000000 AND PT_BASE_ADDR_MASK = (push_bit 25 1 :: u64)" "0x2000000 AND PT_PSE_BASE_ADDR_MASK = (push_bit 25 1 :: u64)"
  by (simp_all add: PT_BASE_ADDR_MASK_def PT_PSE_BASE_ADDR_MASK_def PAGE_MASK_def PAGE_SIZE_def PAGE_SHIFT_def)

lemma bit_ac_pte:
  "bit (ac_pte fl 0x2000000) n \<longleftrightarrow>
     n = 25 \<or> n = 59 \<and> F fl AC_PKU_PKEY \<or> n = 0 \<and> F fl AC_PTE_PRESENT \<or> n = 1 \<and> F fl AC_PTE_WRITABLE
     \<or> n = 2 \<and> F fl AC_PTE_USER \<or> n = 5 \<and> F fl AC_PTE_ACCESSED \<or> n = 6 \<and> F fl AC_PTE_DIRTY
     \<or> n = 63 \<and> F fl AC_PTE_NX \<or> n = 51 \<and> F fl AC_PTE_BIT51"
  unfolding ac_pte_def Let_def frame_bits bit_or_if bit_pt_masks bit_single by auto

lemma bit_ac_pde:
  "bit (ac_pde fl base 0x2000000) n \<longleftrightarrow>
     (if F fl AC_PDE_PSE then n = 25 \<or> n = 7 \<or> n = 59 \<and> F fl AC_PKU_PKEY else bit base n \<or> n = 60 \<and> F fl AC_PKU_PKEY)
     \<or> n = 0 \<and> F fl AC_PDE_PRESENT \<or> n = 1 \<and> F fl AC_PDE_WRITABLE
     \<or> n = 2 \<and> F fl AC_PDE_USER \<or> n = 5 \<and> F fl AC_PDE_ACCESSED \<or> n = 6 \<and> F fl AC_PDE_DIRTY
     \<or> n = 63 \<and> F fl AC_PDE_NX \<or> n = 51 \<and> F fl AC_PDE_BIT51 \<or> n = 13 \<and> F fl AC_PDE_BIT13"
  unfolding ac_pde_def Let_def frame_bits bit_or_if bit_pt_masks bit_single
  by (cases "F fl AC_PDE_PSE") (simp_all only: if_True if_False not_True_eq_False not_False_eq_True bit_or_if bit_or_iff bit_single bit_single2, auto)

text \<open>Entries that differ only in the accessed and the dirty bit.\<close>

definition like :: "u64 \<Rightarrow> u64 \<Rightarrow> bool" where
  "like x y \<longleftrightarrow> (\<forall>n. n \<noteq> 5 \<and> n \<noteq> 6 \<longrightarrow> bit x n = bit y n)"

lemma like_refl [simp]: "like x x"
  by (simp add: like_def)

lemma like_mark: "like x y \<Longrightarrow> like (x OR PT_ACCESSED_MASK) y" "like x y \<Longrightarrow> like (x OR PT_DIRTY_MASK) y"
  by (auto simp: like_def bit_or_iff bit_pt_masks bit_single simp del: push_bit_of_1)

definition table_base :: "u64 \<Rightarrow> bool" where
  "table_base p \<longleftrightarrow> (\<forall>n. bit p n \<longrightarrow> 12 \<le> n \<and> n < 40)"

lemma bit_addr_bits: "bit (addr_bits mp) n \<longleftrightarrow> 12 \<le> n \<and> n < mp \<and> n < 64"
  by (auto simp: addr_bits_def bit_simps)

lemma pde_flags:
  assumes "like d (ac_pde fl base 0x2000000)" and "table_base base"
  shows "bit d 0 = F fl AC_PDE_PRESENT" and "bit d 1 = F fl AC_PDE_WRITABLE" and "bit d 2 = F fl AC_PDE_USER"
    and "bit d 7 = F fl AC_PDE_PSE" and "bit d 63 = F fl AC_PDE_NX"
  using assms unfolding like_def bit_ac_pde table_base_def by auto

lemma pte_flags:
  assumes "like t (ac_pte fl 0x2000000)"
  shows "bit t 0 = F fl AC_PTE_PRESENT" and "bit t 1 = F fl AC_PTE_WRITABLE" and "bit t 2 = F fl AC_PTE_USER"
    and "bit t 63 = F fl AC_PTE_NX"
  using assms unfolding like_def bit_ac_pte by auto

lemma pde_reserved:
  assumes "like d (ac_pde fl base 0x2000000)" and "table_base base" and "40 \<le> mp" and "mp \<le> 51" and "legal_flags fl"
  shows "pt_reserved mp nxe 2 d \<longleftrightarrow> F fl AC_PDE_BIT51 \<or> F fl AC_PDE_NX \<and> \<not> nxe \<or> F fl AC_PDE_BIT13"
proof -
  have b: "bit d n = bit (ac_pde fl base 0x2000000) n" if "12 \<le> n" for n
    using assms(1) that by (auto simp: like_def)
  have "d AND (mask 52 AND NOT (mask mp)) \<noteq> 0 \<longleftrightarrow> F fl AC_PDE_BIT51"
    unfolding and_nonzero_iff using assms(2-4) b
    by (auto simp: bit_simps bit_ac_pde table_base_def intro!: exI [of _ 51] split: if_splits)
  moreover have "d AND (mask 21 AND NOT (mask 13)) \<noteq> 0 \<longleftrightarrow> F fl AC_PDE_BIT13" if "F fl AC_PDE_PSE"
    unfolding and_nonzero_iff using that b
    by (auto simp: bit_simps bit_ac_pde intro!: exI [of _ 13])
  moreover have "F fl AC_PDE_BIT13 \<Longrightarrow> F fl AC_PDE_PSE"
    using assms(5) by (simp add: legal_flags_def)
  ultimately show ?thesis
    unfolding pt_reserved_def pde_flags [OF assms(1,2)] by auto
qed

lemma pte_reserved:
  assumes "like t (ac_pte fl 0x2000000)" and "40 \<le> mp" and "mp \<le> 51"
  shows "pt_reserved mp nxe 1 t \<longleftrightarrow> F fl AC_PTE_BIT51 \<or> F fl AC_PTE_NX \<and> \<not> nxe"
proof -
  have b: "bit t n = bit (ac_pte fl 0x2000000) n" if "12 \<le> n" for n
    using assms(1) that by (auto simp: like_def)
  have "t AND (mask 52 AND NOT (mask mp)) \<noteq> 0 \<longleftrightarrow> F fl AC_PTE_BIT51"
    unfolding and_nonzero_iff using assms(2,3) b by (auto simp: bit_simps bit_ac_pte intro!: exI [of _ 51])
  then show ?thesis
    unfolding pt_reserved_def pte_flags [OF assms(1)] by auto
qed

lemma pde_addr:
  assumes "like d (ac_pde fl base 0x2000000)" and "40 \<le> mp" and "mp \<le> 51" and "\<not> F fl AC_PDE_BIT51" and "\<not> F fl AC_PDE_BIT13"
  shows "\<not> F fl AC_PDE_PSE \<Longrightarrow> table_base base \<Longrightarrow> d AND addr_bits mp = base"
    and "F fl AC_PDE_PSE \<Longrightarrow> d AND addr_bits mp AND NOT (mask 21) = 0x2000000"
    and "F fl AC_PDE_PSE \<Longrightarrow> drop_bit 59 d AND 15 = (if F fl AC_PKU_PKEY then 1 else 0)"
proof -
  have b: "bit d n = bit (ac_pde fl base 0x2000000) n" if "7 \<le> n" for n
    using assms(1) that by (auto simp: like_def)
  show "\<not> F fl AC_PDE_PSE \<Longrightarrow> table_base base \<Longrightarrow> d AND addr_bits mp = base"
    by (rule bit_word_eqI) (use b assms(2-5) in \<open>auto simp: bit_and_iff bit_addr_bits bit_ac_pde table_base_def\<close>)
  have f: "0x2000000 = (push_bit 25 1 :: u64)" and k: "15 = (mask 4 :: u64)"
    by (simp_all add: mask_numeral)
  show "F fl AC_PDE_PSE \<Longrightarrow> d AND addr_bits mp AND NOT (mask 21) = 0x2000000"
    unfolding f by (rule bit_word_eqI)
      (use b assms(2-5) in \<open>auto simp: bit_simps bit_addr_bits bit_ac_pde bit_single simp del: push_bit_of_1\<close>)
  show "F fl AC_PDE_PSE \<Longrightarrow> drop_bit 59 d AND 15 = (if F fl AC_PKU_PKEY then 1 else 0)"
    unfolding k by (rule bit_word_eqI) (use b in \<open>auto simp: bit_simps bit_ac_pde bit_1_iff\<close>)
qed

lemma pte_addr:
  assumes "like t (ac_pte fl 0x2000000)" and "40 \<le> mp" and "mp \<le> 51" and "\<not> F fl AC_PTE_BIT51"
  shows "t AND addr_bits mp AND NOT (mask 12) = 0x2000000"
    and "drop_bit 59 t AND 15 = (if F fl AC_PKU_PKEY then 1 else 0)"
proof -
  have b: "bit t n = bit (ac_pte fl 0x2000000) n" if "7 \<le> n" for n
    using assms(1) that by (auto simp: like_def)
  have f: "0x2000000 = (push_bit 25 1 :: u64)" and k: "15 = (mask 4 :: u64)"
    by (simp_all add: mask_numeral)
  show "t AND addr_bits mp AND NOT (mask 12) = 0x2000000"
    unfolding f by (rule bit_word_eqI)
      (use b assms(2-4) in \<open>auto simp: bit_simps bit_addr_bits bit_ac_pte bit_single simp del: push_bit_of_1\<close>)
  show "drop_bit 59 t AND 15 = (if F fl AC_PKU_PKEY then 1 else 0)"
    unfolding k by (rule bit_word_eqI) (use b in \<open>auto simp: bit_simps bit_ac_pte bit_1_iff\<close>)
qed

section \<open>What a test case must do\<close>

text \<open>
  The outcome of an access in terms of the flags: validity of the entries, the permissions, the
  protection key, and the error code.
\<close>

definition pde_ok :: "u32 \<Rightarrow> bool" where
  "pde_ok fl \<longleftrightarrow> F fl AC_PDE_PRESENT \<and> \<not> F fl AC_PDE_BIT51 \<and> \<not> F fl AC_PDE_BIT13 \<and> \<not> (F fl AC_PDE_NX \<and> \<not> F fl AC_CPU_EFER_NX)"

definition pte_ok :: "u32 \<Rightarrow> bool" where
  "pte_ok fl \<longleftrightarrow> F fl AC_PTE_PRESENT \<and> \<not> F fl AC_PTE_BIT51 \<and> \<not> (F fl AC_PTE_NX \<and> \<not> F fl AC_CPU_EFER_NX)"

definition kwrite :: "u32 \<Rightarrow> bool" where
  "kwrite fl \<longleftrightarrow> \<not> F fl AC_CPU_CR0_WP \<and> \<not> F fl AC_ACCESS_USER"

definition key_fault :: "u32 \<Rightarrow> bool \<Rightarrow> bool" where
  "key_fault fl u \<longleftrightarrow> u \<and> \<not> F fl AC_ACCESS_FETCH \<and> F fl AC_PKU_PKEY \<and> F fl AC_CPU_CR4_PKE
     \<and> (F fl AC_PKU_AD \<or> F fl AC_ACCESS_WRITE \<and> F fl AC_PKU_WD \<and> \<not> kwrite fl)"

definition denied :: "u32 \<Rightarrow> bool \<Rightarrow> bool \<Rightarrow> bool \<Rightarrow> bool" where
  "denied fl w u x \<longleftrightarrow> F fl AC_ACCESS_USER \<and> \<not> u \<or> F fl AC_ACCESS_WRITE \<and> \<not> w \<and> \<not> kwrite fl
     \<or> F fl AC_ACCESS_FETCH \<and> \<not> x \<or> F fl AC_ACCESS_FETCH \<and> u \<and> F fl AC_CPU_CR4_SMEP \<or> key_fault fl u"

definition may_write :: "u32 \<Rightarrow> bool" where
  "may_write fl \<longleftrightarrow> F fl AC_PDE_WRITABLE \<and> (F fl AC_PDE_PSE \<or> F fl AC_PTE_WRITABLE)"

definition may_user :: "u32 \<Rightarrow> bool" where
  "may_user fl \<longleftrightarrow> F fl AC_PDE_USER \<and> (F fl AC_PDE_PSE \<or> F fl AC_PTE_USER)"

definition may_exec :: "u32 \<Rightarrow> bool" where
  "may_exec fl \<longleftrightarrow> \<not> F fl AC_PDE_NX \<and> (F fl AC_PDE_PSE \<or> \<not> F fl AC_PTE_NX)"

definition walk_ok :: "u32 \<Rightarrow> bool" where
  "walk_ok fl \<longleftrightarrow> pde_ok fl \<and> (F fl AC_PDE_PSE \<or> pte_ok fl)"

definition faults :: "u32 \<Rightarrow> bool" where
  "faults fl \<longleftrightarrow> \<not> walk_ok fl \<or> denied fl (may_write fl) (may_user fl) (may_exec fl)"

text \<open>The entry at which the walk fails is present.\<close>

definition bad_present :: "u32 \<Rightarrow> bool" where
  "bad_present fl \<longleftrightarrow> (if pde_ok fl then F fl AC_PTE_PRESENT else F fl AC_PDE_PRESENT)"

definition code_of :: "u32 \<Rightarrow> u32" where
  "code_of fl =
     (let i = (F fl AC_ACCESS_FETCH \<and> (F fl AC_CPU_EFER_NX \<or> F fl AC_CPU_CR4_SMEP))
      in if walk_ok fl then fault_code True (F fl AC_ACCESS_WRITE) (F fl AC_ACCESS_USER) False i (key_fault fl (may_user fl))
         else fault_code (bad_present fl) (F fl AC_ACCESS_WRITE) (F fl AC_ACCESS_USER) (bad_present fl) i False)"

definition used_bits :: "u32 \<Rightarrow> u64" where
  "used_bits fl = PT_ACCESSED_MASK OR (if F fl AC_ACCESS_WRITE then PT_DIRTY_MASK else 0)"

section \<open>The emulation of an access\<close>

lemma permissions_spec:
  assumes "\<not> at_expected_fault at"
  shows "ac_test_permissions fl w u x at =
    (if denied fl w u x then 0 else used_bits fl,
     at\<lparr>at_expected_fault := denied fl w u x,
        at_expected_error := at_expected_error at OR (if key_fault fl u then PFERR_PK_MASK else 0)\<rparr>)"
proof -
  let ?k = "key_fault fl u"
  have k: "(if user \<and> \<not> a \<and> b \<and> c then (if d then e1 else if f \<and> g \<and> h then e1 else e0) else e0)
      = (if user \<and> \<not> a \<and> b \<and> c \<and> (d \<or> f \<and> g \<and> h) then e1 else e0)" for user a b c d f g h and e0 e1 :: ac_test
    by auto
  show ?thesis
    using assms
    unfolding ac_test_permissions_def Let_def k key_fault_def [of fl u, unfolded kwrite_def, symmetric]
    by (cases at) (auto simp: denied_def kwrite_def used_bits_def)
qed

text \<open>The expected error code as a set of bits.\<close>

lemma access_kind_spec:
  assumes "at_expected_error at = 1"
  shows "ac_access_kind fl at =
    at\<lparr>at_expected_error := fault_code True (F fl AC_ACCESS_WRITE) (F fl AC_ACCESS_USER) False (F fl AC_ACCESS_FETCH) False,
       at_ignore_pde := (if F fl AC_PDE_ACCESSED then at_ignore_pde at else PT_ACCESSED_MASK)\<rparr>"
  using assms
  by (cases at; cases "F fl AC_ACCESS_WRITE"; cases "F fl AC_ACCESS_USER"; cases "F fl AC_ACCESS_FETCH"; cases "F fl AC_PDE_ACCESSED")
    (simp_all add: ac_access_kind_def fault_code_def PFERR_USER_MASK_def PFERR_WRITE_MASK_def PFERR_FETCH_MASK_def)

lemma fault_code_ops:
  "fault_code True wr us False fe False OR PFERR_RESERVED_MASK = fault_code True wr us True fe False"
  "fault_code True wr us False fe False AND NOT PFERR_PRESENT_MASK = fault_code False wr us False fe False"
  "fault_code True wr us False fe False OR (if pk then PFERR_PK_MASK else 0) = fault_code True wr us False fe pk"
  "fault_code p wr us rs fe pk AND NOT PFERR_FETCH_MASK = fault_code p wr us rs False pk"
  by (cases wr; cases us; cases fe; cases p; cases rs; cases pk;
      simp add: fault_code_def PFERR_RESERVED_MASK_def PFERR_PRESENT_MASK_def PFERR_PK_MASK_def PFERR_FETCH_MASK_def)+

definition walk_error :: "u32 \<Rightarrow> u32" where
  "walk_error fl =
     (if walk_ok fl then fault_code True (F fl AC_ACCESS_WRITE) (F fl AC_ACCESS_USER) False (F fl AC_ACCESS_FETCH) (key_fault fl (may_user fl))
      else fault_code (bad_present fl) (F fl AC_ACCESS_WRITE) (F fl AC_ACCESS_USER) (bad_present fl) (F fl AC_ACCESS_FETCH) False)"

definition pde_used :: "u32 \<Rightarrow> u64" where
  "pde_used fl = (if \<not> pde_ok fl then 0 else if \<not> F fl AC_PDE_PSE then PT_ACCESSED_MASK else if faults fl then 0 else used_bits fl)"

definition pte_used :: "u32 \<Rightarrow> u64" where
  "pte_used fl = (if F fl AC_PDE_PSE \<or> faults fl then 0 else used_bits fl)"

lemma entry_error_spec:
  assumes "at_expected_error at = fault_code True wr us False fe False"
  shows "ac_entry_error p at = at\<lparr>at_expected_fault := True, at_expected_error := fault_code p wr us p fe False\<rparr>"
  using assms fault_code_ops(1,2) by (simp add: ac_entry_error_def Let_def)

lemma emulate_walk_spec:
  assumes "\<not> at_expected_fault at"
    and "at_expected_error at = fault_code True (F fl AC_ACCESS_WRITE) (F fl AC_ACCESS_USER) False (F fl AC_ACCESS_FETCH) False"
  shows "ac_emulate_walk fl at =
    at\<lparr>at_expected_fault := faults fl, at_expected_error := walk_error fl,
       at_expected_pde := at_expected_pde at OR pde_used fl, at_expected_pte := at_expected_pte at OR pte_used fl\<rparr>"
proof -
  note e = entry_error_spec and f = fault_code_ops(3)
  have pde: "(F fl AC_PDE_PRESENT \<and> \<not> F fl AC_PDE_BIT51 \<and> \<not> F fl AC_PDE_BIT13 \<and> \<not> (F fl AC_PDE_NX \<and> \<not> F fl AC_CPU_EFER_NX)) = pde_ok fl"
    and pte: "(F fl AC_PTE_PRESENT \<and> \<not> F fl AC_PTE_BIT51 \<and> \<not> (F fl AC_PTE_NX \<and> \<not> F fl AC_CPU_EFER_NX)) = pte_ok fl"
    by (simp_all only: pde_ok_def pte_ok_def)
  note start = ac_emulate_walk_def Let_def pde pte
  consider "\<not> pde_ok fl" | "pde_ok fl" "F fl AC_PDE_PSE" | "pde_ok fl" "\<not> F fl AC_PDE_PSE" "\<not> pte_ok fl"
    | "pde_ok fl" "\<not> F fl AC_PDE_PSE" "pte_ok fl"
    by blast
  then show ?thesis
  proof cases
    case 1
    then show ?thesis
      using assms unfolding start
      by (cases at) (simp add: e faults_def walk_ok_def walk_error_def bad_present_def pde_used_def pte_used_def)
  next
    case 2
    then show ?thesis
      using assms unfolding start
      by (cases at) (simp add: permissions_spec f faults_def walk_ok_def walk_error_def pde_used_def pte_used_def
          may_write_def may_user_def may_exec_def)
  next
    case 3
    then show ?thesis
      using assms unfolding start
      by (cases at) (simp add: e faults_def walk_ok_def walk_error_def bad_present_def pde_used_def pte_used_def)
  next
    case 4
    then show ?thesis
      using assms unfolding start
      by (cases at) (simp add: permissions_spec f faults_def walk_ok_def walk_error_def pde_used_def pte_used_def
          may_write_def may_user_def may_exec_def)
  qed
qed

lemma emulate_spec:
  assumes "\<not> at_expected_fault at" and "at_expected_error at = 1"
  shows "ac_emulate_access fl at =
    at\<lparr>at_expected_fault := faults fl, at_expected_error := code_of fl,
       at_expected_pde := at_expected_pde at OR pde_used fl, at_expected_pte := at_expected_pte at OR pte_used fl,
       at_ignore_pde := (if faults fl then if F fl AC_PDE_ACCESSED then at_ignore_pde at else PT_ACCESSED_MASK else 0)\<rparr>"
proof -
  have k: "\<not> at_expected_fault (ac_access_kind fl at)"
    using assms by (simp add: access_kind_spec)
  have c: "code_of fl = (if \<not> F fl AC_CPU_EFER_NX \<and> \<not> F fl AC_CPU_CR4_SMEP then walk_error fl AND NOT PFERR_FETCH_MASK else walk_error fl)"
    by (simp add: code_of_def walk_error_def fault_code_ops Let_def)
  show ?thesis
    unfolding ac_emulate_access_def Let_def c
    using emulate_walk_spec [OF k] assms
    by (cases at) (simp add: access_kind_spec)
qed

end
