(* ===== verification/Access_Walk.thy ===== *)
theory Access_Walk
  imports Access_Mmu
begin

text \<open>
  The walk of the memory management unit through the tables of a test case, and the effect of an access on
  the entries of the tested address.
\<close>

section \<open>Addresses of the entries\<close>

text \<open>The index into the table of level \<open>l + 1\<close>.\<close>

definition idx :: "nat \<Rightarrow> u64 \<Rightarrow> u64" where
  "idx l va = drop_bit (12 + 9 * l) va AND 511"

text \<open>
  \<open>slot R p va l\<close> is the address of the entry of level \<open>l + 1\<close>: the root is at \<open>R\<close>, the tables below it are the
  pages at \<open>p\<close>.
\<close>

primrec tab :: "u64 \<Rightarrow> u64 \<Rightarrow> nat \<Rightarrow> u64" where
  "tab R p 0 = p + 0x2000"
| "tab R p (Suc l) = (if l = 0 then p + 0x1000 else if l = 1 then p else R)"

definition slot :: "u64 \<Rightarrow> u64 \<Rightarrow> u64 \<Rightarrow> nat \<Rightarrow> u64" where
  "slot R p va l = tab R p l + 8 * idx l va"

text \<open>
  The root lies below 32M; the tables of the test are in the pool from 33M to 120M. The tested page is
  at 32M and is accessed below 33M.
\<close>

definition layout :: "u64 \<Rightarrow> u64 \<Rightarrow> u64 \<Rightarrow> bool" where
  "layout R p va \<longleftrightarrow> aligned 12 R \<and> unat R + 4096 \<le> 0x2000000 \<and> aligned 12 p \<and> 0x2100000 \<le> unat p
     \<and> unat p + 0x3000 \<le> 0x7800000 \<and> idx 3 va \<noteq> 0 \<and> unat (take_bit 21 va) + 4 \<le> 0x100000"

lemma unat_idx: "unat (idx l va) < 512"
proof -
  have "idx l va = take_bit 9 (drop_bit (12 + 9 * l) va)"
    by (simp add: idx_def take_bit_eq_mask mask_numeral)
  then show ?thesis
    by (simp add: unat_take_bit)
qed

lemma level_cases: "l < 4 \<Longrightarrow> l = 0 \<or> l = 1 \<or> l = 2 \<or> l = (3 :: nat)"
  by arith

lemma unat_add_small: "unat a + unat b < 2 ^ 64 \<Longrightarrow> unat (a + b :: u64) = unat a + unat b"
  by (rule unat_add_lem [THEN iffD1]) simp

lemma unat_tab:
  assumes "layout R p va"
  shows "unat (tab R p 0) = unat p + 0x2000" "unat (tab R p 1) = unat p + 0x1000" "unat (tab R p 2) = unat p"
    "unat (tab R p 3) = unat R" "unat (tab R p (Suc 0)) = unat p + 0x1000"
proof -
  have "unat (p + 0x2000) = unat p + 0x2000" "unat (p + 0x1000) = unat p + 0x1000"
    using assms unat_add_small [of p "0x2000"] unat_add_small [of p "0x1000"] by (simp_all add: layout_def)
  then show "unat (tab R p 0) = unat p + 0x2000" "unat (tab R p 1) = unat p + 0x1000" "unat (tab R p 2) = unat p"
    "unat (tab R p 3) = unat R" "unat (tab R p (Suc 0)) = unat p + 0x1000"
    by (simp_all add: numeral_2_eq_2 numeral_3_eq_3)
qed

lemma tab_bounds:
  assumes "layout R p va" and "l < 4"
  shows "aligned 12 (tab R p l)" and "unat (tab R p l) + 4096 \<le> 0x7800000"
    and "unat (tab R p l) + 4096 \<le> 0x2000000 \<or> 0x2100000 \<le> unat (tab R p l)"
proof -
  note u = unat_tab [OF assms(1)]
  have d: "4096 dvd unat R" "4096 dvd unat p"
    using assms(1) by (simp_all add: layout_def aligned_iff_dvd)
  have "4096 dvd unat p + 0x2000" "4096 dvd unat p + 0x1000"
    by (rule dvd_add [OF d(2)], simp)+
  then have "4096 dvd unat (tab R p l)"
    using level_cases [OF assms(2)] d by (auto simp only: u)
  then show "aligned 12 (tab R p l)"
    by (simp add: aligned_iff_dvd)
  show "unat (tab R p l) + 4096 \<le> 0x7800000" "unat (tab R p l) + 4096 \<le> 0x2000000 \<or> 0x2100000 \<le> unat (tab R p l)"
    using level_cases [OF assms(2)] assms(1) u by (auto simp: layout_def simp del: tab.simps)
qed

lemma tab_inj:
  assumes "layout R p va" and "k < 4" and "l < 4" and "unat (tab R p k) div 4096 = unat (tab R p l) div 4096"
  shows "k = l"
proof -
  have p: "(unat p + 0x2000) div 4096 = unat p div 4096 + 2" "(unat p + 0x1000) div 4096 = unat p div 4096 + 1"
    by simp_all
  have "unat R div 4096 < unat p div 4096"
    using assms(1) by (auto simp: layout_def)
  then show ?thesis
    using level_cases [OF assms(2)] level_cases [OF assms(3)] assms(4)
    by (auto simp: unat_tab [OF assms(1)] p simp del: tab.simps)
qed

lemma unat_slot:
  assumes "layout R p va" and "l < 4"
  shows "unat (slot R p va l) = unat (tab R p l) + 8 * unat (idx l va)"
proof -
  have i: "unat (8 * idx l va) = 8 * unat (idx l va)"
    using unat_idx [of l va] by (subst unat_mult_lem [THEN iffD1]) simp_all
  show ?thesis
    unfolding slot_def using tab_bounds(2) [OF assms] unat_idx [of l va]
    by (subst unat_add_small) (simp_all only: i, simp)
qed

lemma slot_props:
  assumes "layout R p va" and "l < 4"
  shows "aligned 3 (slot R p va l)" and "unat (slot R p va l) + 8 \<le> 0x2000000 \<or> 0x2100000 \<le> unat (slot R p va l)"
    and "unat (slot R p va l) + 8 \<le> 0x7800000" and "unat (slot R p va l) div 4096 = unat (tab R p l) div 4096"
proof -
  note u = unat_slot [OF assms] and t = tab_bounds [OF assms] and i = unat_idx [of l va]
  have d: "4096 dvd unat (tab R p l)"
    using t(1) by (simp add: aligned_iff_dvd)
  have "8 dvd unat (tab R p l)"
    by (rule dvd_trans [OF _ d]) simp
  then show "aligned 3 (slot R p va l)"
    unfolding aligned_iff_dvd u by simp
  show "unat (slot R p va l) + 8 \<le> 0x2000000 \<or> 0x2100000 \<le> unat (slot R p va l)" "unat (slot R p va l) + 8 \<le> 0x7800000"
    unfolding u using t(2,3) i by auto
  show "unat (slot R p va l) div 4096 = unat (tab R p l) div 4096"
  proof -
    obtain q where "unat (tab R p l) = 4096 * q"
      using d by blast
    then show ?thesis
      unfolding u using i by simp
  qed
qed

lemma slot_inj: "layout R p va \<Longrightarrow> k < 4 \<Longrightarrow> l < 4 \<Longrightarrow> slot R p va k = slot R p va l \<longleftrightarrow> k = l"
  using tab_inj [of R p va k l] slot_props(4) [of R p va k] slot_props(4) [of R p va l] by auto

lemma table_base_small:
  assumes "aligned 12 q" and "unat q < 2 ^ 40"
  shows "table_base q"
proof -
  have "take_bit 40 q = q"
    using assms(2) by (rule take_bit_word_small)
  then have "bit q n \<Longrightarrow> n < 40" for n
    by (metis bit_take_bit_iff)
  moreover have "\<not> bit q n" if "n < 12" for n
    using arg_cong [OF assms(1) [unfolded aligned_def], of "\<lambda>x. bit x n"] that by (simp add: bit_take_bit_iff)
  ultimately show ?thesis
    by (auto simp: table_base_def not_less [symmetric])
qed

lemma table_base_tab: "layout R p va \<Longrightarrow> l < 4 \<Longrightarrow> table_base (tab R p l)"
  using tab_bounds [of R p va l] by (intro table_base_small) auto

section \<open>The walk\<close>

definition table_bits :: u64 where
  "table_bits = PT_PRESENT_MASK OR PT_WRITABLE_MASK OR PT_USER_MASK"

lemma bit_table_bits: "bit table_bits n \<longleftrightarrow> n \<le> 2"
  unfolding table_bits_def bit_or_iff bit_pt_masks bit_single by auto

lemma table_entry:
  assumes "like e (q OR table_bits)" and "table_base q" and "40 \<le> mp" and "mp \<le> 51"
  shows "bit e 0" "bit e 1" "bit e 2" "\<not> bit e 7" "\<not> bit e 63" "\<not> pt_reserved mp nxe lvl e" "e AND addr_bits mp = q"
proof -
  have b: "bit e n \<longleftrightarrow> bit q n \<or> n \<le> 2" if "n \<noteq> 5" "n \<noteq> 6" for n
    using assms(1) that by (simp add: like_def bit_or_iff bit_table_bits)
  have q: "bit q n \<Longrightarrow> 12 \<le> n \<and> n < 40" for n
    using assms(2) by (simp add: table_base_def)
  show e: "bit e 0" "bit e 1" "bit e 2" "\<not> bit e 7" "\<not> bit e 63"
    using b [of 0] b [of 1] b [of 2] b [of 7] b [of 63] q [of 7] q [of 63] by auto
  have "e AND (mask 52 AND NOT (mask mp)) = 0"
  proof (rule ccontr)
    assume "e AND (mask 52 AND NOT (mask mp)) \<noteq> 0"
    then obtain n where "bit e n" "mp \<le> n"
      unfolding and_nonzero_iff by (auto simp: bit_simps)
    then show False
      using b [of n] q [of n] assms(3) by auto
  qed
  then show "\<not> pt_reserved mp nxe lvl e"
    using e by (simp add: pt_reserved_def)
  show "e AND addr_bits mp = q"
  proof (rule bit_word_eqI)
    fix n assume "n < LENGTH(64)"
    then show "bit (e AND addr_bits mp) n = bit q n"
      using b [of n] q [of n] assms(3) by (auto simp: bit_and_iff bit_addr_bits)
  qed
qed

text \<open>The entries of the tested address: the two upper ones point to tables, \<open>d\<close> and \<open>t\<close> are the lower ones.\<close>

definition entries :: "mem \<Rightarrow> u64 \<Rightarrow> u64 \<Rightarrow> u64 \<Rightarrow> u32 \<Rightarrow> u64 \<Rightarrow> u64 \<Rightarrow> bool" where
  "entries m R p va fl d t \<longleftrightarrow>
     like (load64 m (slot R p va 3)) (tab R p 2 OR table_bits) \<and> like (load64 m (slot R p va 2)) (tab R p 1 OR table_bits)
     \<and> load64 m (slot R p va 1) = d \<and> like d (ac_pde fl (tab R p 0) 0x2000000)
     \<and> (\<not> F fl AC_PDE_PSE \<longrightarrow> load64 m (slot R p va 0) = t \<and> like t (ac_pte fl 0x2000000))"

lemma walk_next:
  assumes "like (load64 m (tbl + 8 * idx (Suc l) va)) (q OR table_bits)" and "table_base q" and "40 \<le> mp" and "mp \<le> 51"
  shows "mmu_walk mp nxe m (Suc (Suc l)) tbl va w u x =
    (let (path, r) = mmu_walk mp nxe m (Suc l) q va w u x in ((tbl + 8 * idx (Suc l) va) # path, r))"
  using table_entry [OF assms] by (simp add: idx_def Let_def)

lemma walk_entries:
  assumes "layout R p va" and "entries m R p va fl d t" and "40 \<le> mp" and "mp \<le> 51" and "legal_flags fl"
  shows "mmu_walk mp (F fl AC_CPU_EFER_NX) m 4 R va True True True =
    (if \<not> pde_ok fl then ([slot R p va 3, slot R p va 2], if F fl AC_PDE_PRESENT then Malformed else Missing)
     else if F fl AC_PDE_PSE then
       ([slot R p va 3, slot R p va 2, slot R p va 1], Mapped 2 d (may_write fl) (may_user fl) (may_exec fl))
     else if \<not> pte_ok fl then
       ([slot R p va 3, slot R p va 2, slot R p va 1], if F fl AC_PTE_PRESENT then Malformed else Missing)
     else ([slot R p va 3, slot R p va 2, slot R p va 1, slot R p va 0], Mapped 1 t (may_write fl) (may_user fl) (may_exec fl)))"
  proof -
  let ?nx = "F fl AC_CPU_EFER_NX"
  let ?W = "\<lambda>n q. mmu_walk mp ?nx m n q va True True True"
  have E: "like (load64 m (slot R p va 3)) (tab R p 2 OR table_bits)" "like (load64 m (slot R p va 2)) (tab R p 1 OR table_bits)"
    "load64 m (slot R p va 1) = d" "like d (ac_pde fl (tab R p 0) 0x2000000)"
    "\<not> F fl AC_PDE_PSE \<Longrightarrow> load64 m (slot R p va 0) = t" "\<not> F fl AC_PDE_PSE \<Longrightarrow> like t (ac_pte fl 0x2000000)"
    using assms(2) by (auto simp: entries_def)
  have B: "table_base (tab R p 2)" "table_base (tab R p 1)" "table_base (tab R p 0)"
    by (rule table_base_tab [OF assms(1)]; simp)+
  have s: "slot R p va 3 = R + 8 * idx 3 va" "slot R p va 2 = tab R p 2 + 8 * idx 2 va" "slot R p va 1 = tab R p 1 + 8 * idx 1 va"
    "slot R p va 0 = tab R p 0 + 8 * idx 0 va"
    by (simp_all add: slot_def numeral_3_eq_3)
  have n: "Suc (Suc 2) = 4" "Suc 3 = 4" "Suc 2 = 3" "Suc (Suc 1) = 3" "Suc 1 = 2"
    by simp_all
  have w4: "?W 4 R = (let (path, r) = ?W 3 (tab R p 2) in (slot R p va 3 # path, r))"
    using walk_next [where tbl = R and l = 2, unfolded n, OF E(1) [unfolded s] B(1) assms(3,4)] by (simp only: s)
  have w3: "?W 3 (tab R p 2) = (let (path, r) = ?W 2 (tab R p 1) in (slot R p va 2 # path, r))"
    using walk_next [where tbl = "tab R p 2" and l = 1, unfolded n, OF E(2) [unfolded s] B(2) assms(3,4)] by (simp only: s)
  note df = pde_flags [OF E(4) B(3)] and dr = pde_reserved [OF E(4) B(3) assms(3-5), of ?nx]
  have l2: "?W 2 (tab R p 1) = (if \<not> bit d 0 then ([], Missing) else if pt_reserved mp ?nx 2 d then ([], Malformed)
      else if bit d 7 then ([slot R p va 1], Mapped 2 d (bit d 1) (bit d 2) (\<not> bit d 63))
      else let (path, r) = mmu_walk mp ?nx m 1 (d AND addr_bits mp) va (bit d 1) (bit d 2) (\<not> bit d 63) in (slot R p va 1 # path, r))"
    using E(3) unfolding s by (simp add: numeral_2_eq_2 idx_def Let_def)
  have l1: "mmu_walk mp ?nx m 1 (tab R p 0) va w u x = (if \<not> bit t 0 then ([], Missing) else if pt_reserved mp ?nx 1 t then ([], Malformed)
      else ([slot R p va 0], Mapped 1 t (w \<and> bit t 1) (u \<and> bit t 2) (x \<and> \<not> bit t 63)))" if "\<not> F fl AC_PDE_PSE" for w u x
    using E(5) [OF that] unfolding s by (simp add: idx_def Let_def)
  consider "\<not> pde_ok fl" | "pde_ok fl" "F fl AC_PDE_PSE" | "pde_ok fl" "\<not> F fl AC_PDE_PSE"
    by blast
  then show ?thesis
  proof cases
    case 1
    then have "?W 2 (tab R p 1) = ([], if F fl AC_PDE_PRESENT then Malformed else Missing)"
      unfolding l2 df dr by (auto simp: pde_ok_def)
    then show ?thesis
      unfolding w4 w3 using 1 by simp
  next
    case 2
    then have "?W 2 (tab R p 1) = ([slot R p va 1], Mapped 2 d (may_write fl) (may_user fl) (may_exec fl))"
      unfolding l2 df dr by (auto simp: pde_ok_def may_write_def may_user_def may_exec_def)
    then show ?thesis
      unfolding w4 w3 using 2 by simp
  next
    case 3
    note t = E(6) [OF 3(2)]
    note tf = pte_flags [OF t] and tr = pte_reserved [OF t assms(3,4), of ?nx]
    have a: "d AND addr_bits mp = tab R p 0"
      by (rule pde_addr(1) [OF E(4) assms(3,4) _ _ 3(2) B(3)]) (use 3 in \<open>auto simp: pde_ok_def\<close>)
    have "?W 2 (tab R p 1) = (let (path, r) = mmu_walk mp ?nx m 1 (tab R p 0) va (F fl AC_PDE_WRITABLE) (F fl AC_PDE_USER) (\<not> F fl AC_PDE_NX)
        in (slot R p va 1 # path, r))"
      unfolding l2 df dr a using 3 by (auto simp: pde_ok_def)
    also have "\<dots> = (if \<not> pte_ok fl then ([slot R p va 1], if F fl AC_PTE_PRESENT then Malformed else Missing)
        else ([slot R p va 1, slot R p va 0], Mapped 1 t (may_write fl) (may_user fl) (may_exec fl)))"
      unfolding l1 [OF 3(2)] tf tr using 3(2) by (auto simp: pte_ok_def may_write_def may_user_def may_exec_def)
    finally show ?thesis
      unfolding w4 w3 using 3 by simp
  qed
qed

section \<open>The effect of an access\<close>

text \<open>The registers are set up as the flags ask for.\<close>

definition regs_ok :: "u32 \<Rightarrow> ac_sys \<Rightarrow> bool" where
  "regs_ok fl s \<longleftrightarrow> bit (sys_cr0 s) 16 = F fl AC_CPU_CR0_WP \<and> bit (sys_efer s) 11 = F fl AC_CPU_EFER_NX
     \<and> bit (sys_cr4 s) 20 = F fl AC_CPU_CR4_SMEP \<and> bit (sys_cr4 s) 22 = F fl AC_CPU_CR4_PKE \<and> \<not> bit (sys_cr4 s) 12
     \<and> (F fl AC_CPU_CR4_PKE \<longrightarrow> \<not> bit (sys_pkru s) 0 \<and> \<not> bit (sys_pkru s) 1
          \<and> bit (sys_pkru s) 2 = F fl AC_PKU_AD \<and> bit (sys_pkru s) 3 = F fl AC_PKU_WD)"

lemma load_mark:
  assumes "\<forall>a \<in> set as. aligned 3 a" and "aligned 3 b"
  shows "load64 (mark as v m) b = (if b \<in> set as then load64 m b OR v else load64 m b)"
  using assms(1)
proof (induction as arbitrary: m)
  case (Cons a as)
  have "load64 (store64 m a (load64 m a OR v)) b = (if b = a then load64 m b OR v else load64 m b)"
    using Cons.prems assms(2) by (auto simp: load64_store64_same load64_store64_other)
  then show ?case
    using Cons by (auto simp: mark_def or.assoc)
qed (simp add: mark_def)

text \<open>The data of the tested page and the entries do not overlap.\<close>

definition in_page_area :: "u64 \<Rightarrow> bool" where
  "in_page_area a \<longleftrightarrow> 0x2000000 \<le> unat a \<and> unat a + 4 \<le> 0x2100000"

lemma load_slot_storen:
  assumes "in_page_area a" and "unat b + 8 \<le> 0x2000000 \<or> 0x2100000 \<le> unat b" and "unat b + 8 \<le> 0x7800000" and "k \<le> 4"
  shows "load64 (storen k m a v) b = load64 m b"
proof (rule loadn_cong)
  fix i :: nat
  assume i: "i < 8"
  have u: "unat (b + of_nat i) = unat b + i"
    using assms(3) i by (subst unat_add_small) simp_all
  have "\<not> unat (b + of_nat i - a) < k"
  proof (cases "a \<le> b + of_nat i")
    case True
    then have "unat (b + of_nat i - a) = unat b + i - unat a"
      by (simp add: unat_sub u)
    moreover have "0x2100000 \<le> unat b + i"
      using True assms(1,2) i u by (auto simp: word_le_nat_alt in_page_area_def)
    ultimately show ?thesis
      using assms(1,4) by (auto simp: in_page_area_def)
  next
    case False
    then have "unat (b + of_nat i - a) + unat a = unat b + i + 2 ^ 64"
      using u unat_sub_if_size [of "b + of_nat i" a] unat_less_u64 [of a]
      by (simp add: word_le_nat_alt word_size)
    then show ?thesis
      using assms(1,4) by (auto simp: in_page_area_def)
  qed
  then show "storen k m a v (b + of_nat i) = m (b + of_nat i)"
    using assms(4) by (simp add: storen_apply)
qed

lemma page_area:
  assumes "layout R p va" and "j \<le> 21" and "j \<ge> 12"
  shows "in_page_area (0x2000000 OR (va AND mask j))"
proof -
  have t: "va AND mask j = take_bit j va"
    by (simp add: take_bit_eq_mask)
  have "unat (take_bit j va) = unat (take_bit 21 va) mod 2 ^ j"
    using assms(2) mod_mod_cancel [OF le_imp_power_dvd [of j 21 "2 :: nat"], of "unat va"] by (simp add: unat_take_bit)
  then have le: "unat (take_bit j va) \<le> unat (take_bit 21 va)"
    by simp
  then have b: "unat (take_bit j va) + 4 \<le> 0x100000"
    using assms(1) by (simp add: layout_def)
  have "(0x2000000 :: u64) AND take_bit j va = 0"
  proof -
    have f: "0x2000000 = (push_bit 25 1 :: u64)"
      by simp
    show ?thesis
      unfolding f using assms(2) by (intro bit_word_eqI) (auto simp: bit_and_iff bit_take_bit_iff bit_single simp del: push_bit_of_1)
  qed
  then have "0x2000000 OR take_bit j va = 0x2000000 + take_bit j va"
    by (rule disjunctive_add_eq_or [symmetric])
  moreover have "unat (0x2000000 + take_bit j va) = 0x2000000 + unat (take_bit j va)"
    using b by (subst unat_add_small) simp_all
  ultimately show ?thesis
    using b unfolding t in_page_area_def by simp
qed

lemma entries_cong:
  assumes "\<And>l. l < 4 \<Longrightarrow> load64 m' (slot R p va l) = load64 m (slot R p va l)"
  shows "entries m' R p va fl d t = entries m R p va fl d t"
  unfolding entries_def using assms [of 0] assms [of 1] assms [of 2] assms [of 3] by simp

lemma entries_mark:
  assumes "layout R p va" and "entries m R p va fl d t" and "set ls \<subseteq> {..<4}" and "v = PT_ACCESSED_MASK \<or> v = PT_DIRTY_MASK"
  shows "entries (mark (map (slot R p va) ls) v m) R p va fl
    (if 1 \<in> set ls then d OR v else d) (if 0 \<in> set ls then t OR v else t)"
proof -
  have "load64 (mark (map (slot R p va) ls) v m) (slot R p va l)
      = (if l \<in> set ls then load64 m (slot R p va l) OR v else load64 m (slot R p va l))" if "l < 4" for l
  proof (subst load_mark)
    show "\<forall>a\<in>set (map (slot R p va) ls). aligned 3 a" "aligned 3 (slot R p va l)"
      using slot_props(1) [OF assms(1)] assms(3) that by auto
    show "(if slot R p va l \<in> set (map (slot R p va) ls) then load64 m (slot R p va l) OR v else load64 m (slot R p va l))
        = (if l \<in> set ls then load64 m (slot R p va l) OR v else load64 m (slot R p va l))"
      using slot_inj [OF assms(1) that] assms(3) by auto
  qed
  then have load: "load64 (mark (map (slot R p va) ls) v m) (slot R p va l)
      = (if l \<in> set ls then load64 m (slot R p va l) OR v else load64 m (slot R p va l))" if "l \<in> {0, 1, 2, 3}" for l
    using that by auto
  have "like x y \<Longrightarrow> like (x OR v) y" for x y
    using assms(4) like_mark by auto
  then show ?thesis
    using assms(2) unfolding entries_def by (auto simp: load simp del: One_nat_def tab.simps)
qed

lemma entries_store_page:
  assumes "layout R p va" and "in_page_area a" and "k \<le> 4"
  shows "entries (storen k m a v) R p va fl d t = entries m R p va fl d t"
  using load_slot_storen [OF assms(2) slot_props(2,3) [OF assms(1)] assms(3)] by (rule entries_cong [OF _])

lemma pkey_spec:
  assumes "regs_ok fl s" and "drop_bit 59 e AND 15 = (if F fl AC_PKU_PKEY then 1 else 0)"
  shows "(bit (sys_cr4 s) 22 \<and> u \<and> \<not> F fl AC_ACCESS_FETCH
      \<and> pkey_denies (sys_pkru s) (bit (sys_cr0 s) 16) e (F fl AC_ACCESS_WRITE) (F fl AC_ACCESS_USER)) = key_fault fl u"
  using assms by (auto simp: regs_ok_def pkey_denies_def key_fault_def kwrite_def Let_def numeral_3_eq_3 numeral_2_eq_2)

text \<open>An access for each end of the walk, with the registers as the flags ask for.\<close>

definition regs_walk :: "nat \<Rightarrow> u32 \<Rightarrow> ac_sys \<Rightarrow> u64 \<Rightarrow> u64 list \<times> walk_end" where
  "regs_walk mp fl s va = mmu_walk mp (F fl AC_CPU_EFER_NX) (sys_ram s) 4 (sys_cr3 s AND addr_bits mp) va True True True"

definition fetch_bit :: "u32 \<Rightarrow> bool" where
  "fetch_bit fl \<longleftrightarrow> F fl AC_ACCESS_FETCH \<and> (F fl AC_CPU_EFER_NX \<or> F fl AC_CPU_CR4_SMEP)"

definition flag_access :: "nat \<Rightarrow> bool \<Rightarrow> u32 \<Rightarrow> ac_sys \<Rightarrow> u64 \<Rightarrow> u32 \<Rightarrow> u32 option \<times> u32 \<times> ac_sys" where
  "flag_access mp early fl s va r =
     mmu_access mp early s va (F fl AC_ACCESS_WRITE) (F fl AC_ACCESS_USER) (F fl AC_ACCESS_FETCH) r"

lemma access_bad:
  assumes "regs_ok fl s" and "regs_walk mp fl s va = (path, if b then Malformed else Missing)"
  shows "flag_access mp early fl s va r =
    (Some (fault_code b (F fl AC_ACCESS_WRITE) (F fl AC_ACCESS_USER) b (fetch_bit fl) False), r,
     if early then s\<lparr>sys_ram := mark path PT_ACCESSED_MASK (sys_ram s)\<rparr> else s)"
proof -
  have r: "bit (sys_efer s) 11 = F fl AC_CPU_EFER_NX" "bit (sys_cr4 s) 20 = F fl AC_CPU_CR4_SMEP" "bit (sys_cr4 s) 12 = False"
    using assms(1) by (auto simp: regs_ok_def)
  show ?thesis
    unfolding flag_access_def mmu_access_def Let_def r if_False assms(2) [unfolded regs_walk_def]
    by (cases b) (simp_all add: fetch_bit_def)
qed

lemma access_mapped:
  assumes "regs_ok fl s" and "regs_walk mp fl s va = (path, Mapped lvl e w u x)"
    and "drop_bit 59 e AND 15 = (if F fl AC_PKU_PKEY then 1 else 0)" and "legal_flags fl"
  shows "denied fl w u x \<Longrightarrow> flag_access mp early fl s va r =
      (Some (fault_code True (F fl AC_ACCESS_WRITE) (F fl AC_ACCESS_USER) False (fetch_bit fl) (key_fault fl u)), r,
       if early then s\<lparr>sys_ram := mark (butlast path) PT_ACCESSED_MASK (sys_ram s)\<rparr> else s)"
    and "\<not> denied fl w u x \<Longrightarrow> \<exists>r'. flag_access mp early fl s va r =
      (let m = mark path PT_ACCESSED_MASK (sys_ram s);
           m = (if F fl AC_ACCESS_WRITE then mark [last path] PT_DIRTY_MASK m else m);
           pa = (e AND addr_bits mp AND NOT (mask (12 + 9 * (lvl - 1)))) OR (va AND mask (12 + 9 * (lvl - 1)))
       in (None, r', s\<lparr>sys_ram := if F fl AC_ACCESS_WRITE then storen 4 m pa (ucast r) else m\<rparr>))"
proof -
  have r: "bit (sys_efer s) 11 = F fl AC_CPU_EFER_NX" "bit (sys_cr4 s) 20 = F fl AC_CPU_CR4_SMEP" "bit (sys_cr4 s) 12 = False"
    and wp: "bit (sys_cr0 s) 16 = F fl AC_CPU_CR0_WP"
    using assms(1) by (auto simp: regs_ok_def)
  note k = pkey_spec [OF assms(1,3), of u, unfolded wp]
  have d: "((F fl AC_ACCESS_USER \<and> \<not> u) \<or> (F fl AC_ACCESS_WRITE \<and> \<not> w \<and> (F fl AC_ACCESS_USER \<or> F fl AC_CPU_CR0_WP))
      \<or> (F fl AC_ACCESS_FETCH \<and> \<not> x) \<or> (F fl AC_ACCESS_FETCH \<and> \<not> F fl AC_ACCESS_USER \<and> F fl AC_CPU_CR4_SMEP \<and> u)
      \<or> key_fault fl u) = denied fl w u x"
    using assms(4) by (auto simp: denied_def kwrite_def legal_flags_def)
  note unf = flag_access_def mmu_access_def Let_def r wp if_False assms(2) [unfolded regs_walk_def] prod.case walk_end.case k d
  show "denied fl w u x \<Longrightarrow> flag_access mp early fl s va r =
      (Some (fault_code True (F fl AC_ACCESS_WRITE) (F fl AC_ACCESS_USER) False (fetch_bit fl) (key_fault fl u)), r,
       if early then s\<lparr>sys_ram := mark (butlast path) PT_ACCESSED_MASK (sys_ram s)\<rparr> else s)"
    unfolding unf by (simp add: fetch_bit_def)
  show "\<not> denied fl w u x \<Longrightarrow> \<exists>r'. flag_access mp early fl s va r =
      (let m = mark path PT_ACCESSED_MASK (sys_ram s);
           m = (if F fl AC_ACCESS_WRITE then mark [last path] PT_DIRTY_MASK m else m);
           pa = (e AND addr_bits mp AND NOT (mask (12 + 9 * (lvl - 1)))) OR (va AND mask (12 + 9 * (lvl - 1)))
       in (None, r', s\<lparr>sys_ram := if F fl AC_ACCESS_WRITE then storen 4 m pa (ucast r) else m\<rparr>))"
    unfolding unf by (cases "F fl AC_ACCESS_WRITE") auto
qed

end
