(* ===== verification/Access_Step.thy ===== *)
theory Access_Step
  imports Access_Walk Radix
begin

text \<open>
  The outcome of one access and what it leaves in the entries, in terms of the flags; and the entries
  that the setup of a test case (\<open>ac_setup_loop\<close>) makes.
\<close>

section \<open>One access\<close>

text \<open>The conditions under which an access is made.\<close>

definition ready :: "nat \<Rightarrow> u32 \<Rightarrow> ac_sys \<Rightarrow> u64 \<Rightarrow> u64 \<Rightarrow> u64 \<Rightarrow> u64 \<Rightarrow> u64 \<Rightarrow> bool" where
  "ready mp fl s R p va d t \<longleftrightarrow> layout R p va \<and> entries (sys_ram s) R p va fl d t \<and> 40 \<le> mp \<and> mp \<le> 51 \<and> legal_flags fl
     \<and> regs_ok fl s \<and> sys_cr3 s = R"

lemma ready_walk:
  assumes "ready mp fl s R p va d t"
  shows "regs_walk mp fl s va =
    (if \<not> pde_ok fl then (map (slot R p va) [3, 2], if F fl AC_PDE_PRESENT then Malformed else Missing)
     else if F fl AC_PDE_PSE then
       (map (slot R p va) [3, 2, 1], Mapped 2 d (may_write fl) (may_user fl) (may_exec fl))
     else if \<not> pte_ok fl then
       (map (slot R p va) [3, 2, 1], if F fl AC_PTE_PRESENT then Malformed else Missing)
     else (map (slot R p va) [3, 2, 1, 0], Mapped 1 t (may_write fl) (may_user fl) (may_exec fl)))"
proof -
  have a: "layout R p va" "entries (sys_ram s) R p va fl d t" "40 \<le> mp" "mp \<le> 51" "legal_flags fl" and c: "sys_cr3 s = R"
    using assms by (simp_all add: ready_def)
  have "table_base (tab R p 3)"
    by (rule table_base_tab [OF a(1)]) simp
  then have "R AND addr_bits mp = R"
    using a(3) by (intro bit_word_eqI) (auto simp: bit_and_iff bit_addr_bits table_base_def numeral_3_eq_3)
  then show ?thesis
    unfolding regs_walk_def c using walk_entries [OF a] by simp
qed

lemma ready_entry:
  assumes "ready mp fl s R p va d t" and "walk_ok fl"
  shows "F fl AC_PDE_PSE \<Longrightarrow> drop_bit 59 d AND 15 = (if F fl AC_PKU_PKEY then 1 else 0)"
    and "F fl AC_PDE_PSE \<Longrightarrow> d AND addr_bits mp AND NOT (mask 21) = 0x2000000"
    and "\<not> F fl AC_PDE_PSE \<Longrightarrow> drop_bit 59 t AND 15 = (if F fl AC_PKU_PKEY then 1 else 0)"
    and "\<not> F fl AC_PDE_PSE \<Longrightarrow> t AND addr_bits mp AND NOT (mask 12) = 0x2000000"
proof -
  have a: "entries (sys_ram s) R p va fl d t" "40 \<le> mp" "mp \<le> 51"
    using assms by (simp_all add: ready_def)
  have d: "like d (ac_pde fl (tab R p 0) 0x2000000)" "\<not> F fl AC_PDE_BIT51" "\<not> F fl AC_PDE_BIT13"
    using a(1) assms(2) by (simp_all add: entries_def walk_ok_def pde_ok_def del: tab.simps)
  note D = pde_addr [OF d(1) a(2,3) d(2,3)]
  show "F fl AC_PDE_PSE \<Longrightarrow> drop_bit 59 d AND 15 = (if F fl AC_PKU_PKEY then 1 else 0)"
    "F fl AC_PDE_PSE \<Longrightarrow> d AND addr_bits mp AND NOT (mask 21) = 0x2000000"
    by (rule D(3), assumption) (rule D(2), assumption)
  assume n: "\<not> F fl AC_PDE_PSE"
  have t: "like t (ac_pte fl 0x2000000)" "\<not> F fl AC_PTE_BIT51"
    using a(1) assms(2) n by (simp_all add: entries_def walk_ok_def pte_ok_def)
  show "drop_bit 59 t AND 15 = (if F fl AC_PKU_PKEY then 1 else 0)" "t AND addr_bits mp AND NOT (mask 12) = 0x2000000"
    using pte_addr [OF t(1) a(2,3) t(2)] by simp_all
qed

text \<open>The outcome of the access, and what it leaves in the two entries.\<close>

definition step_ok :: "u32 \<Rightarrow> u64 \<Rightarrow> u64 \<Rightarrow> u64 \<Rightarrow> u64 \<Rightarrow> u64 \<Rightarrow> ac_sys \<Rightarrow> u32 option \<times> u32 \<times> ac_sys \<Rightarrow> bool" where
  "step_ok fl R p va d t s res \<longleftrightarrow>
     (\<exists>r m d'. res = (if faults fl then Some (code_of fl) else None, r, s\<lparr>sys_ram := m\<rparr>)
        \<and> entries m R p va fl d' (t OR pte_used fl)
        \<and> (d' = d OR pde_used fl \<or> d' = d \<and> faults fl \<and> pde_used fl = PT_ACCESSED_MASK))"

lemma step_fault:
  assumes "ready mp fl s R p va d t" and "faults fl" and "set ls \<subseteq> {1, 2, 3}" and "1 \<in> set ls \<longrightarrow> pde_ok fl \<and> \<not> F fl AC_PDE_PSE"
  shows "step_ok fl R p va d t s
    (Some (code_of fl), r, if early then s\<lparr>sys_ram := mark (map (slot R p va) ls) PT_ACCESSED_MASK (sys_ram s)\<rparr> else s)"
proof -
  have a: "layout R p va" "entries (sys_ram s) R p va fl d t"
    using assms(1) by (simp_all add: ready_def)
  let ?d = "if early \<and> 1 \<in> set ls then d OR PT_ACCESSED_MASK else d"
  have "set ls \<subseteq> {..<4}" "0 \<notin> set ls"
    using assms(3) by auto
  then have "entries (mark (map (slot R p va) ls) PT_ACCESSED_MASK (sys_ram s)) R p va fl (if 1 \<in> set ls then d OR PT_ACCESSED_MASK else d) t"
    using entries_mark [OF a, of ls PT_ACCESSED_MASK] by simp
  then have e: "entries (if early then mark (map (slot R p va) ls) PT_ACCESSED_MASK (sys_ram s) else sys_ram s) R p va fl ?d (t OR pte_used fl)"
    using a(2) assms(2) by (simp add: pte_used_def split: if_splits)
  have "?d = d OR pde_used fl \<or> ?d = d \<and> faults fl \<and> pde_used fl = PT_ACCESSED_MASK"
    using assms(2,4) by (auto simp: pde_used_def)
  then show ?thesis
    unfolding step_ok_def using assms(2) e
    by (intro exI [of _ r] exI [of _ "if early then mark (map (slot R p va) ls) PT_ACCESSED_MASK (sys_ram s) else sys_ram s"] exI [of _ ?d]) simp
qed

lemma step_done:
  assumes "ready mp fl s R p va d t" and "\<not> faults fl" and "b = (if F fl AC_PDE_PSE then 21 else 12)"
    and "e AND addr_bits mp AND NOT (mask b) = 0x2000000"
    and "ls = (if F fl AC_PDE_PSE then [3, 2, 1] else [3, 2, 1, 0])"
    and "res = (let m = mark (map (slot R p va) ls) PT_ACCESSED_MASK (sys_ram s);
           m = (if F fl AC_ACCESS_WRITE then mark [last (map (slot R p va) ls)] PT_DIRTY_MASK m else m);
           pa = (e AND addr_bits mp AND NOT (mask b)) OR (va AND mask b)
       in (None, r, s\<lparr>sys_ram := if F fl AC_ACCESS_WRITE then storen 4 m pa (ucast r0) else m\<rparr>))"
  shows "step_ok fl R p va d t s res"
proof -
  have a: "layout R p va" "entries (sys_ram s) R p va fl d t"
    using assms(1) by (simp_all add: ready_def)
  let ?A = "PT_ACCESSED_MASK" and ?D = "PT_DIRTY_MASK" and ?p = "F fl AC_PDE_PSE"
  let ?m = "mark (map (slot R p va) ls) ?A (sys_ram s)"
  let ?m' = "if F fl AC_ACCESS_WRITE then mark (map (slot R p va) [last ls]) ?D ?m else ?m"
  have ls: "set ls \<subseteq> {..<4}" "set [last ls] \<subseteq> {..<4}" "last ls = (if ?p then 1 else 0)" "1 \<in> set ls" "0 \<in> set ls \<longleftrightarrow> \<not> ?p"
    using assms(5) by auto
  have "entries ?m R p va fl (d OR ?A) (if ?p then t else t OR ?A)"
    using entries_mark [OF a ls(1), of ?A] ls(4,5) by (simp split: if_splits)
  note e = this entries_mark [OF a(1) this ls(2), of ?D]
  have "d OR pde_used fl = (if F fl AC_ACCESS_WRITE \<and> ?p then d OR ?A OR ?D else d OR ?A)"
    "t OR pte_used fl = (if ?p then t else if F fl AC_ACCESS_WRITE then t OR ?A OR ?D else t OR ?A)"
    using assms(2) by (auto simp: pde_used_def pte_used_def used_bits_def faults_def walk_ok_def or.assoc)
  then have e': "entries ?m' R p va fl (d OR pde_used fl) (t OR pte_used fl)"
    using e ls(3) by (simp add: or.assoc split: if_splits)
  have "in_page_area (0x2000000 OR (va AND mask b))"
    using page_area [OF a(1), of b] assms(3) by simp
  then have "entries (if F fl AC_ACCESS_WRITE then storen 4 ?m' (0x2000000 OR (va AND mask b)) (ucast r0) else ?m') R p va fl
      (d OR pde_used fl) (t OR pte_used fl)"
    using e' entries_store_page [OF a(1)] by (cases "F fl AC_ACCESS_WRITE") simp_all
  moreover have "last (map (slot R p va) ls) = slot R p va (last ls)"
    using assms(5) by simp
  ultimately show ?thesis
    unfolding step_ok_def assms(4,6) Let_def using assms(2) by auto
qed

lemma step_mapped:
  assumes "ready mp fl s R p va d t" and "walk_ok fl"
    and "regs_walk mp fl s va = (map (slot R p va) ls, Mapped lvl e (may_write fl) (may_user fl) (may_exec fl))"
    and "drop_bit 59 e AND 15 = (if F fl AC_PKU_PKEY then 1 else 0)" and "e AND addr_bits mp AND NOT (mask b) = 0x2000000"
    and "b = 12 + 9 * (lvl - 1)" and "b = (if F fl AC_PDE_PSE then 21 else 12)"
    and "ls = (if F fl AC_PDE_PSE then [3, 2, 1] else [3, 2, 1, 0])"
  shows "step_ok fl R p va d t s (flag_access mp early fl s va r)"
proof -
  have a: "regs_ok fl s" "legal_flags fl"
    using assms by (simp_all add: ready_def)
  note x = access_mapped [OF a(1) assms(3,4) a(2), of early r]
  show ?thesis
  proof (cases "faults fl")
    case True
    have c: "code_of fl = fault_code True (F fl AC_ACCESS_WRITE) (F fl AC_ACCESS_USER) False (fetch_bit fl) (key_fault fl (may_user fl))"
      using assms(2) by (simp add: code_of_def fetch_bit_def Let_def)
    have d: "denied fl (may_write fl) (may_user fl) (may_exec fl)"
      using True assms(2) by (simp add: faults_def)
    have "set (butlast ls) \<subseteq> {1, 2, 3}" "1 \<in> set (butlast ls) \<longrightarrow> pde_ok fl \<and> \<not> F fl AC_PDE_PSE"
      using assms(2,8) by (auto simp: walk_ok_def)
    then show ?thesis
      unfolding x(1) [OF d] c [symmetric] map_butlast [symmetric] by (rule step_fault [OF assms(1) True])
  next
    case False
    then obtain r' where "flag_access mp early fl s va r = (let m = mark (map (slot R p va) ls) PT_ACCESSED_MASK (sys_ram s);
         m = (if F fl AC_ACCESS_WRITE then mark [last (map (slot R p va) ls)] PT_DIRTY_MASK m else m);
         pa = (e AND addr_bits mp AND NOT (mask b)) OR (va AND mask b)
       in (None, r', s\<lparr>sys_ram := if F fl AC_ACCESS_WRITE then storen 4 m pa (ucast r) else m\<rparr>))"
      using x(2) assms(2) unfolding faults_def assms(6) by blast
    then show ?thesis
      by (rule step_done [OF assms(1) False assms(7,5,8)])
  qed
qed

lemma mmu_step:
  assumes "ready mp fl s R p va d t"
  shows "step_ok fl R p va d t s (flag_access mp early fl s va r)"
proof -
  note w = ready_walk [OF assms]
  consider "\<not> walk_ok fl" | "walk_ok fl" "F fl AC_PDE_PSE" | "walk_ok fl" "\<not> F fl AC_PDE_PSE"
    by blast
  then show ?thesis
  proof cases
    case 1
    let ?ls = "if pde_ok fl then [3, 2, 1] else [3, 2 :: nat]"
    have x: "regs_walk mp fl s va = (map (slot R p va) ?ls, if bad_present fl then Malformed else Missing)"
      using 1 w by (auto simp: walk_ok_def bad_present_def)
    have c: "code_of fl = fault_code (bad_present fl) (F fl AC_ACCESS_WRITE) (F fl AC_ACCESS_USER) (bad_present fl) (fetch_bit fl) False"
      using 1 by (simp add: code_of_def fetch_bit_def Let_def)
    have "regs_ok fl s"
      using assms by (simp add: ready_def)
    from access_bad [OF this x, of early r] show ?thesis
      unfolding c [symmetric] using step_fault [OF assms, of ?ls r early] 1 by (auto simp: faults_def walk_ok_def)
  next
    case 2
    then have "regs_walk mp fl s va = (map (slot R p va) [3, 2, 1], Mapped 2 d (may_write fl) (may_user fl) (may_exec fl))"
      using w by (simp add: walk_ok_def)
    then show ?thesis
      by (rule step_mapped [OF assms 2(1) _ ready_entry(1,2) [OF assms 2]]) (simp_all add: 2)
  next
    case 3
    then have "regs_walk mp fl s va = (map (slot R p va) [3, 2, 1, 0], Mapped 1 t (may_write fl) (may_user fl) (may_exec fl))"
      using w by (simp add: walk_ok_def)
    then show ?thesis
      by (rule step_mapped [OF assms 3(1) _ ready_entry(3,4) [OF assms 3]]) (simp_all add: 3)
  qed
qed

section \<open>Setting up the mapping\<close>

lemma bit_base_mask: "bit PT_BASE_ADDR_MASK n \<longleftrightarrow> 12 \<le> n \<and> n < 40"
proof -
  have m: "PT_BASE_ADDR_MASK = mask 40 AND NOT (mask 12)"
    by (simp add: PT_BASE_ADDR_MASK_def PAGE_MASK_def PAGE_SIZE_def PAGE_SHIFT_def mask_numeral)
  show ?thesis
    unfolding m by (auto simp: bit_simps)
qed

lemma base_of_table: "table_base q \<Longrightarrow> q AND PT_BASE_ADDR_MASK = q" "table_base q \<Longrightarrow> (q OR table_bits) AND PT_BASE_ADDR_MASK = q"
  by (auto intro!: bit_word_eqI simp: bit_and_iff bit_or_iff bit_base_mask bit_table_bits table_base_def)

lemma base_of_pde:
  "table_base q \<Longrightarrow> \<not> F fl AC_PDE_PSE \<Longrightarrow> legal_flags fl \<Longrightarrow> ac_pde fl q 0x2000000 AND PT_BASE_ADDR_MASK = q"
  by (rule bit_word_eqI) (auto simp: bit_and_iff bit_base_mask bit_ac_pde table_base_def legal_flags_def)

lemma setup_next:
  assumes "i \<ge> 2 \<or> i = 1 \<and> \<not> F (at_flags at) AC_PDE_PSE" and "root AND PT_BASE_ADDR_MASK = tb"
    and "tb + 8 * idx (i - 1) (at_virt at) = a" and "skip \<longrightarrow> idx (i - 1) (at_virt at) \<noteq> 0"
    and "ac_setup_level i a pd pt at pool s = (at1, pool1, s1)" and "load64 (sys_ram s1) a = e"
  shows "ac_setup_loop i root skip pd pt at pool s = ac_setup_loop (i - 1) e False pd pt at1 pool1 s1"
proof -
  have "PT_INDEX (at_virt at) i = idx (i - 1) (at_virt at)"
    by (simp add: PT_INDEX_def idx_def mult.commute)
  then show ?thesis
    using assms by (subst ac_setup_loop.simps) (auto simp: Let_def)
qed

text \<open>The pool of table pages: from 33M to 120M, taken page by page.\<close>

definition pool_at :: "u64 \<Rightarrow> ac_pool \<Rightarrow> bool" where
  "pool_at p pool \<longleftrightarrow> pt_pool pool = 0x2100000 \<and> pt_pool_size pool = 0x5700000 \<and> 4096 dvd unat (pt_pool_current pool)
     \<and> unat (pt_pool_current pool) \<le> 0x5700000 \<and> unat p = 0x2100000 + unat (pt_pool_current pool)"

lemma alloc_pt:
  assumes "pool_at p pool" and "unat p + 4096 \<le> 0x7800000"
  obtains pool' where "ac_test_alloc_pt pool = (p, pool')" and "pool_at (p + 0x1000) pool'"
proof -
  let ?c = "pt_pool_current pool"
  have c: "unat p = 0x2100000 + unat ?c" "4096 dvd unat ?c"
    using assms(1) by (simp_all add: pool_at_def)
  have u: "unat (?c + 0x1000) = unat ?c + 0x1000"
    using assms(2) c by (subst unat_word_ariths) simp
  have v: "unat (p + 0x1000) = unat p + 0x1000"
    using assms(2) by (subst unat_add_small) simp_all
  have "unat (0x2100000 + ucast ?c :: u64) = 0x2100000 + unat ?c"
    using assms(2) c by (subst unat_add_small) (simp_all add: unsigned_ucast_eq take_bit_nat_eq_self)
  then have p: "p = 0x2100000 + ucast ?c"
    using c by (simp add: word_unat_eq_iff)
  have "4096 dvd unat ?c + 0x1000"
    by (rule dvd_add [OF c(2)]) simp
  then have "pool_at (p + 0x1000) (pool\<lparr>pt_pool_current := ?c + ucast PAGE_SIZE\<rparr>)"
    using assms u v c by (simp add: pool_at_def PAGE_SIZE_def PAGE_SHIFT_def)
  moreover have "ac_test_alloc_pt pool = (p, pool\<lparr>pt_pool_current := ?c + ucast PAGE_SIZE\<rparr>)"
    using assms(1) p by (simp add: ac_test_alloc_pt_def pool_at_def Let_def)
  ultimately show thesis
    using that by blast
qed

lemma setup_upper:
  assumes "ac_test_alloc_pt pool = (p, pool')" and "i = 3 \<or> i = 4"
  shows "ac_setup_level i a 0 0 at pool s = (at, pool', s\<lparr>sys_ram := store64 (sys_ram s) a (p OR table_bits)\<rparr>)"
  using assms by (auto simp: ac_setup_level_def table_bits_def Let_def)

lemma pde_large: "F fl AC_PDE_PSE \<Longrightarrow> ac_pde fl b phys = ac_pde fl c phys"
  by (simp add: ac_pde_def)

lemma setup_pde:
  assumes "ac_test_alloc_pt pool = (p, pool')"
  shows "ac_setup_level 2 a 0 0 at pool s =
    (at\<lparr>at_pdep := a\<rparr>, if F (at_flags at) AC_PDE_PSE then pool else pool',
     s\<lparr>sys_ram := store64 (sys_ram s) a (ac_pde (at_flags at) p (at_phys at))\<rparr>)"
  using assms pde_large [of "at_flags at" 0 "at_phys at" p] by (simp add: ac_setup_level_def Let_def)

lemma setup_last:
  assumes "at_flags at = fl" and "at_phys at = 0x2000000" and "root AND PT_BASE_ADDR_MASK = tb \<or> F fl AC_PDE_PSE"
    and "tb + 8 * idx 0 (at_virt at) = a"
  shows "ac_setup_loop 1 root False 0 0 at pool s =
    (if F fl AC_PDE_PSE then (at, pool, s)
     else (at\<lparr>at_ptep := a\<rparr>, pool, s\<lparr>sys_ram := store64 (sys_ram s) a (ac_pte fl 0x2000000)\<rparr>))"
proof (cases "F fl AC_PDE_PSE")
  case False
  have l: "ac_setup_level 1 a 0 0 at pool s = (at\<lparr>at_ptep := a\<rparr>, pool, s\<lparr>sys_ram := store64 (sys_ram s) a (ac_pte fl 0x2000000)\<rparr>)"
    using assms by (simp add: ac_setup_level_def Let_def)
  show ?thesis
    using setup_next [OF _ _ _ _ l refl, of root tb False] assms False by (simp add: ac_setup_loop.simps [of 0])
qed (simp add: ac_setup_loop.simps [of "Suc 0"] assms)

text \<open>The memory after the loop.\<close>

definition tables :: "mem \<Rightarrow> u64 \<Rightarrow> u64 \<Rightarrow> u64 \<Rightarrow> u32 \<Rightarrow> mem" where
  "tables m R p va fl =
     (let m = store64 m (slot R p va 3) (tab R p 2 OR table_bits);
          m = store64 m (slot R p va 2) (tab R p 1 OR table_bits);
          m = store64 m (slot R p va 1) (ac_pde fl (tab R p 0) 0x2000000)
      in if F fl AC_PDE_PSE then m else store64 m (slot R p va 0) (ac_pte fl 0x2000000))"

lemma tables_entries:
  assumes "layout R p va"
  shows "entries (tables m R p va fl) R p va fl (ac_pde fl (tab R p 0) 0x2000000) (ac_pte fl 0x2000000)"
proof -
  have l: "load64 (store64 m (slot R p va j) v) (slot R p va k) = (if j = k then v else load64 m (slot R p va k))"
    if "j \<in> {0, 1, 2, 3}" "k \<in> {0, 1, 2, 3}" for m v and j k :: nat
  proof -
    have b: "j < 4" "k < 4"
      using that by auto
    show ?thesis
      using slot_inj [OF assms b] slot_props(1) [OF assms b(1)] slot_props(1) [OF assms b(2)]
      by (simp add: load64_store64_same load64_store64_other)
  qed
  show ?thesis
    unfolding entries_def tables_def Let_def by (simp add: l del: tab.simps One_nat_def)
qed

lemma setup_pages:
  assumes "layout R p va" and "pool_at p pool"
  obtains p1 p2 p3 where "ac_test_alloc_pt pool = (tab R p 2, p1)" and "ac_test_alloc_pt p1 = (tab R p 1, p2)"
    and "ac_test_alloc_pt p2 = (tab R p 0, p3)" and "pool_at (tab R p 0) p2" and "pool_at (tab R p 0 + 0x1000) p3"
proof -
  have l: "unat p + 0x3000 \<le> 0x7800000"
    using assms(1) by (simp add: layout_def)
  have t: "p = tab R p 2" "p + 0x1000 = tab R p 1" "tab R p 1 + 0x1000 = tab R p 0"
    by (simp_all add: numeral_2_eq_2)
  note u = unat_tab(1-3) [OF assms(1)]
  obtain p1 where p1: "ac_test_alloc_pt pool = (tab R p 2, p1)" "pool_at (tab R p 1) p1"
    using alloc_pt [OF assms(2)] l unfolding t(2) t(1) [symmetric] by auto
  obtain p2 where p2: "ac_test_alloc_pt p1 = (tab R p 1, p2)" "pool_at (tab R p 0) p2"
    using alloc_pt [OF p1(2)] l unfolding t(3) u by auto
  obtain p3 where "ac_test_alloc_pt p2 = (tab R p 0, p3)" "pool_at (tab R p 0 + 0x1000) p3"
    using alloc_pt [OF p2(2)] l unfolding u by auto
  then show thesis
    using that p1(1) p2 by blast
qed

lemma setup_spec:
  assumes "layout R p va" and "at_virt at = va" and "at_phys at = 0x2000000" and "at_flags at = fl" and "legal_flags fl" and "pool_at p pool"
    and "at_ptep at = q"
  obtains pool' p' where "ac_setup_loop 4 R True 0 0 at pool s =
      (at\<lparr>at_pdep := slot R p va 1, at_ptep := if F fl AC_PDE_PSE then q else slot R p va 0\<rparr>, pool',
       s\<lparr>sys_ram := tables (sys_ram s) R p va fl\<rparr>)"
    and "pool_at p' pool'"
proof -
  have i: "idx 3 va \<noteq> 0"
    using assms(1) by (simp add: layout_def)
  have B: "table_base (tab R p 3)" "table_base (tab R p 2)" "table_base (tab R p 1)" "table_base (tab R p 0)"
    by (rule table_base_tab [OF assms(1)], simp)+
  have R: "tab R p 3 = R"
    by (simp add: numeral_3_eq_3)
  obtain p1 p2 p3 where p: "ac_test_alloc_pt pool = (tab R p 2, p1)" "ac_test_alloc_pt p1 = (tab R p 1, p2)"
    "ac_test_alloc_pt p2 = (tab R p 0, p3)" "pool_at (tab R p 0) p2" "pool_at (tab R p 0 + 0x1000) p3"
    by (rule setup_pages [OF assms(1,6)])
  let ?m3 = "store64 (sys_ram s) (slot R p va 3) (tab R p 2 OR table_bits)"
  let ?m2 = "store64 ?m3 (slot R p va 2) (tab R p 1 OR table_bits)"
  let ?m1 = "store64 ?m2 (slot R p va 1) (ac_pde fl (tab R p 0) 0x2000000)"
  let ?at = "at\<lparr>at_pdep := slot R p va 1\<rparr>"
  have 4: "ac_setup_loop 4 (tab R p 3) True 0 0 at pool s
      = ac_setup_loop (4 - 1) (tab R p 2 OR table_bits) False 0 0 at p1 (s\<lparr>sys_ram := ?m3\<rparr>)"
    using i by (intro setup_next [OF _ base_of_table(1) [OF B(1)] _ _ setup_upper [OF p(1)], where a = "slot R p va 3"])
      (simp_all add: assms slot_def load64_store64_same del: tab.simps)
  have 3: "ac_setup_loop 3 (tab R p 2 OR table_bits) False 0 0 at p1 (s\<lparr>sys_ram := ?m3\<rparr>)
      = ac_setup_loop (3 - 1) (tab R p 1 OR table_bits) False 0 0 at p2 (s\<lparr>sys_ram := ?m2\<rparr>)"
    using setup_upper [OF p(2), of 3 "slot R p va 2" at "s\<lparr>sys_ram := ?m3\<rparr>"]
    by (intro setup_next [OF _ base_of_table(2) [OF B(2)], where a = "slot R p va 2"])
      (simp_all add: assms slot_def load64_store64_same del: tab.simps)
  have 2: "ac_setup_loop 2 (tab R p 1 OR table_bits) False 0 0 at p2 (s\<lparr>sys_ram := ?m2\<rparr>)
      = ac_setup_loop (2 - 1) (ac_pde fl (tab R p 0) 0x2000000) False 0 0 ?at (if F fl AC_PDE_PSE then p2 else p3) (s\<lparr>sys_ram := ?m1\<rparr>)"
    using setup_pde [OF p(3), of "slot R p va 1" at "s\<lparr>sys_ram := ?m2\<rparr>"]
    by (intro setup_next [OF _ base_of_table(2) [OF B(3)], where a = "slot R p va 1"])
      (simp_all add: assms slot_def load64_store64_same del: tab.simps)
  have n: "4 - 1 = (3 :: nat)" "3 - 1 = (2 :: nat)" "2 - 1 = (1 :: nat)"
    by simp_all
  note up = 4 [unfolded n R, unfolded 3 [unfolded n], unfolded 2 [unfolded n]]
  have "ac_setup_loop 1 (ac_pde fl (tab R p 0) 0x2000000) False 0 0 ?at (if F fl AC_PDE_PSE then p2 else p3) (s\<lparr>sys_ram := ?m1\<rparr>)
      = (if F fl AC_PDE_PSE then (?at, p2, s\<lparr>sys_ram := ?m1\<rparr>)
         else (?at\<lparr>at_ptep := slot R p va 0\<rparr>, p3, s\<lparr>sys_ram := store64 ?m1 (slot R p va 0) (ac_pte fl 0x2000000)\<rparr>))"
    using base_of_pde [OF B(4) _ assms(5)] by (subst setup_last [where tb = "tab R p 0"]) (auto simp: assms slot_def)
  then show thesis
    using that [OF _ p(4)] that [OF _ p(5)] up assms(7) by (cases "F fl AC_PDE_PSE") (simp_all add: tables_def Let_def del: tab.simps)
qed

end
