(* ===== verification/Access_Oracle.thy ===== *)
theory Access_Oracle
  imports Access_Step
begin

text \<open>
  The expectations of \<^verbatim>\<open>x86/access.c\<close> are right: on a processor with the memory management unit of
  \<open>Access_Mmu\<close> every test case of the main loop passes.
\<close>

section \<open>Configuring the processor\<close>

lemma bit_put:
  "bit (if b then (x AND NOT (push_bit k 1)) OR push_bit k 1 else x AND NOT (push_bit k 1)) n =
     (if n = k \<and> k < 64 then b else bit x n)" for x :: u64
proof -
  have "bit x n \<Longrightarrow> n < 64"
    using bit_imp_le_length [of x n] by simp
  then show ?thesis
    by (auto simp: bit_or_iff bit_and_iff bit_not_iff bit_single simp del: push_bit_of_1)
qed

lemma cr0_wp_spec:
  "set_cr0_wp b s = s\<lparr>sys_cr0 := sys_cr0 (set_cr0_wp b s)\<rparr>" "bit (sys_cr0 (set_cr0_wp b s)) 16 = b"
proof -
  show "set_cr0_wp b s = s\<lparr>sys_cr0 := sys_cr0 (set_cr0_wp b s)\<rparr>"
    by (simp add: set_cr0_wp_def Let_def)
  have "sys_cr0 (set_cr0_wp b s) = (if b then (sys_cr0 s AND NOT CR0_WP_MASK) OR CR0_WP_MASK else sys_cr0 s AND NOT CR0_WP_MASK)"
    by (simp add: set_cr0_wp_def Let_def)
  then show "bit (sys_cr0 (set_cr0_wp b s)) 16 = b"
    by (simp only: CR0_WP_MASK_def bit_put) simp
qed

lemma efer_nx_spec:
  "set_efer_nx b s = s\<lparr>sys_efer := sys_efer (set_efer_nx b s)\<rparr>" "bit (sys_efer (set_efer_nx b s)) 11 = b"
proof -
  show "set_efer_nx b s = s\<lparr>sys_efer := sys_efer (set_efer_nx b s)\<rparr>"
    by (simp add: set_efer_nx_def Let_def)
  have "sys_efer (set_efer_nx b s) = (if b then (sys_efer s AND NOT EFER_NX_MASK) OR EFER_NX_MASK else sys_efer s AND NOT EFER_NX_MASK)"
    by (simp add: set_efer_nx_def Let_def)
  then show "bit (sys_efer (set_efer_nx b s)) 11 = b"
    by (simp only: EFER_NX_MASK_def bit_put) simp
qed

lemma cr4_pke_spec:
  "set_cr4_pke b s = s\<lparr>sys_cr4 := sys_cr4 (set_cr4_pke b s), sys_pkru := sys_pkru (set_cr4_pke b s)\<rparr>"
  "bit (sys_cr4 (set_cr4_pke b s)) n = (if n = 22 then b else bit (sys_cr4 s) n)"
proof -
  have p: "X86_CR4_PKE = push_bit 22 1"
    by (simp add: X86_CR4_PKE_def)
  show "set_cr4_pke b s = s\<lparr>sys_cr4 := sys_cr4 (set_cr4_pke b s), sys_pkru := sys_pkru (set_cr4_pke b s)\<rparr>"
    by (simp add: set_cr4_pke_def Let_def)
  have "sys_cr4 (set_cr4_pke b s) = (if b then (sys_cr4 s AND NOT X86_CR4_PKE) OR X86_CR4_PKE else sys_cr4 s AND NOT X86_CR4_PKE)"
    by (simp add: set_cr4_pke_def Let_def)
  then show "bit (sys_cr4 (set_cr4_pke b s)) n = (if n = 22 then b else bit (sys_cr4 s) n)"
    by (simp only: p bit_put) simp
qed

lemma cr4_smep_spec:
  assumes "\<forall>v. hw_cr4_ok hw v" and "page_aligned (hw_ptl2 hw)"
  shows "\<exists>c m. snd (set_cr4_smep hw b s) = s\<lparr>sys_cr4 := c, sys_ram := m\<rparr> \<and> (\<forall>n. bit c n = (if n = 20 then b else bit (sys_cr4 s) n))
     \<and> (\<forall>a. aligned 3 a \<longrightarrow> a \<noteq> hw_ptl2 hw + 16 \<longrightarrow> load64 m a = load64 (sys_ram s) a)"
proof -
  let ?c = "if b then (sys_cr4 s AND NOT CR4_SMEP_MASK) OR CR4_SMEP_MASK else sys_cr4 s AND NOT CR4_SMEP_MASK"
  let ?m = "sys_ram (snd (set_cr4_smep hw b s))"
  have "snd (set_cr4_smep hw b s) = s\<lparr>sys_cr4 := ?c, sys_ram := ?m\<rparr>"
    using assms(1) by (simp add: set_cr4_smep_def write_cr4_checking_def ptl2_write_def Let_def)
  moreover have "bit ?c n = (if n = 20 then b else bit (sys_cr4 s) n)" for n
    by (simp only: CR4_SMEP_MASK_def bit_put) simp
  moreover have "aligned 3 (hw_ptl2 hw + 16)"
    using aligned_entry [OF assms(2), of 2] by (simp add: entry_def)
  then have "aligned 3 a \<Longrightarrow> a \<noteq> hw_ptl2 hw + 16 \<Longrightarrow> load64 ?m a = load64 (sys_ram s) a" for a
    using assms(1) by (simp add: set_cr4_smep_def write_cr4_checking_def ptl2_write_def Let_def load64_store64_other)
  ultimately show ?thesis
    by blast
qed

lemma cpu_spec:
  assumes "\<forall>v. hw_cr4_ok hw v" and "page_aligned (hw_ptl2 hw)" and "\<not> bit (sys_cr4 s) 12" and s'_def: "s' = ac_test_cpu hw fl s"
  shows "regs_ok fl s'" and "sys_cr3 s' = sys_cr3 s" and "page_table_levels s' = page_table_levels s" and "ac_verbose s' = ac_verbose s"
    and "\<And>a. aligned 3 a \<Longrightarrow> a \<noteq> hw_ptl2 hw + 16 \<Longrightarrow> load64 (sys_ram s') a = load64 (sys_ram s) a"
proof -
  define s1 where "s1 = set_efer_nx (F fl AC_CPU_EFER_NX) (set_cr0_wp (F fl AC_CPU_CR0_WP) s)"
  define s2 where "s2 = set_cr4_pke (F fl AC_CPU_CR4_PKE) s1"
  define s3 where "s3 = (if F fl AC_CPU_CR4_PKE
    then s2\<lparr>sys_pkru := 0x30 OR (if F fl AC_PKU_WD then 8 else 0) OR (if F fl AC_PKU_AD then 4 else 0)\<rparr> else s2)"
  obtain c m where s': "s' = s3\<lparr>sys_cr4 := c, sys_ram := m\<rparr>" "\<forall>n. bit c n = (if n = 20 then F fl AC_CPU_CR4_SMEP else bit (sys_cr4 s3) n)"
    "\<forall>a. aligned 3 a \<longrightarrow> a \<noteq> hw_ptl2 hw + 16 \<longrightarrow> load64 m a = load64 (sys_ram s3) a"
    using cr4_smep_spec [OF assms(1,2), of "F fl AC_CPU_CR4_SMEP" s3]
    unfolding s'_def ac_test_cpu_def Let_def s3_def s2_def s1_def by blast
  have f1: "sys_cr0 s1 = sys_cr0 (set_cr0_wp (F fl AC_CPU_CR0_WP) s)" "sys_cr4 s1 = sys_cr4 s" "sys_cr3 s1 = sys_cr3 s"
    "page_table_levels s1 = page_table_levels s" "ac_verbose s1 = ac_verbose s" "sys_ram s1 = sys_ram s"
    unfolding s1_def by (subst efer_nx_spec(1), subst cr0_wp_spec(1), simp)+
  have e1: "bit (sys_efer s1) 11 = F fl AC_CPU_EFER_NX"
    unfolding s1_def by (rule efer_nx_spec(2))
  have f2: "sys_cr0 s2 = sys_cr0 s1" "sys_efer s2 = sys_efer s1" "sys_cr3 s2 = sys_cr3 s1"
    "page_table_levels s2 = page_table_levels s1" "ac_verbose s2 = ac_verbose s1" "sys_ram s2 = sys_ram s1"
    unfolding s2_def by (subst cr4_pke_spec(1), simp)+
  have f3: "sys_cr0 s3 = sys_cr0 s2" "sys_efer s3 = sys_efer s2" "sys_cr3 s3 = sys_cr3 s2" "sys_cr4 s3 = sys_cr4 s2"
    "page_table_levels s3 = page_table_levels s2" "ac_verbose s3 = ac_verbose s2" "sys_ram s3 = sys_ram s2"
    by (simp_all add: s3_def)
  have "bit (sys_cr4 s2) n = (if n = 22 then F fl AC_CPU_CR4_PKE else bit (sys_cr4 s) n)" for n
    unfolding s2_def cr4_pke_spec(2) f1 ..
  moreover have "\<not> bit (sys_pkru s3) 0 \<and> \<not> bit (sys_pkru s3) 1 \<and> bit (sys_pkru s3) 2 = F fl AC_PKU_AD \<and> bit (sys_pkru s3) 3 = F fl AC_PKU_WD"
    if "F fl AC_CPU_CR4_PKE"
    using that by (simp add: s3_def)
  ultimately show "regs_ok fl s'"
    using s'(2) assms(3) cr0_wp_spec(2) e1 unfolding regs_ok_def s'(1) by (simp add: f1 f2 f3)
  show "sys_cr3 s' = sys_cr3 s" "page_table_levels s' = page_table_levels s" "ac_verbose s' = ac_verbose s"
    by (simp_all add: s' f1 f2 f3)
  show "\<And>a. aligned 3 a \<Longrightarrow> a \<noteq> hw_ptl2 hw + 16 \<Longrightarrow> load64 (sys_ram s') a = load64 (sys_ram s) a"
    using s'(3) by (simp add: s'(1) f1 f2 f3)
qed

section \<open>The expected status\<close>

lemma F_bit: "F fl f \<longleftrightarrow> bit fl (ac_bit f)"
proof -
  have "ac_bit f < 32"
    by (cases f) simp_all
  then show ?thesis
    unfolding F_def ac_mask_def by (simp add: and_exp_eq_0_iff_not_bit)
qed

lemma ac_bit_inj: "ac_bit f = ac_bit g \<longleftrightarrow> f = g"
  by (cases f; cases g) simp_all

text \<open>With \<open>AC_ACCESS_TWICE\<close> the first access is a supervisor read.\<close>

definition first_flags :: "u32 \<Rightarrow> u32" where
  "first_flags fl = fl AND NOT (ac_mask AC_ACCESS_WRITE) AND NOT (ac_mask AC_ACCESS_FETCH) AND NOT (ac_mask AC_ACCESS_USER)"

lemma bit_not_ac_mask: "bit (NOT (ac_mask g)) (ac_bit f) \<longleftrightarrow> f \<noteq> g"
proof -
  have "ac_bit g < 32" "ac_bit f < 32"
    by (cases g; simp) (cases f; simp)
  then show ?thesis
    by (auto simp: ac_mask_def bit_not_iff bit_exp_iff ac_bit_inj)
qed

lemma F_first: "F (first_flags fl) f \<longleftrightarrow> F fl f \<and> f \<noteq> AC_ACCESS_WRITE \<and> f \<noteq> AC_ACCESS_FETCH \<and> f \<noteq> AC_ACCESS_USER"
  unfolding F_bit first_flags_def bit_and_iff bit_not_ac_mask by auto

definition first_pde :: "u32 \<Rightarrow> u64" where
  "first_pde fl = (if F fl AC_ACCESS_TWICE then pde_used (first_flags fl) else 0)"

definition first_pte :: "u32 \<Rightarrow> u64" where
  "first_pte fl = (if F fl AC_ACCESS_TWICE then pte_used (first_flags fl) else 0)"

lemma status_spec:
  assumes "at_flags at = fl"
  shows "ac_set_expected_status at s =
    at\<lparr>at_expected_fault := faults fl, at_expected_error := code_of fl,
       at_expected_pde := load64 (sys_ram s) (at_pdep at) OR first_pde fl OR pde_used fl,
       at_expected_pte := (if at_ptep at \<noteq> 0 then load64 (sys_ram s) (at_ptep at) else at_expected_pte at) OR first_pte fl OR pte_used fl,
       at_ignore_pde := if faults fl \<and> \<not> F fl AC_PDE_ACCESSED then PT_ACCESSED_MASK else 0\<rparr>"
proof -
  have e: "PFERR_PRESENT_MASK = 1"
    by (simp add: PFERR_PRESENT_MASK_def)
  show ?thesis
    using assms unfolding ac_set_expected_status_def Let_def first_flags_def [symmetric] e
    by (cases at) (simp add: emulate_spec first_pde_def first_pte_def or.assoc)
qed

lemma first_access:
  "legal_flags fl \<Longrightarrow> legal_flags (first_flags fl)" "regs_ok (first_flags fl) s = regs_ok fl s"
  "entries m R p va (first_flags fl) d t = entries m R p va fl d t"
  "flag_access mp early (first_flags fl) s va r = mmu_access mp early s va False False False r"
  by (simp_all add: legal_flags_def regs_ok_def entries_def ac_pde_def ac_pte_def flag_access_def F_first del: tab.simps)

text \<open>Whichever way a faulting access leaves the accessed bit, the comparison accepts it.\<close>

lemma pde_match:
  assumes "d1 = d OR u \<or> d1 = d \<and> u = PT_ACCESSED_MASK" and "d2 = d1 OR pde_used fl \<or> d2 = d1 \<and> faults fl \<and> pde_used fl = PT_ACCESSED_MASK"
    and "F fl AC_PDE_ACCESSED \<Longrightarrow> d OR PT_ACCESSED_MASK = d"
  shows "pt_match d2 (d OR u OR pde_used fl) (if faults fl \<and> \<not> F fl AC_PDE_ACCESSED then PT_ACCESSED_MASK else 0)"
proof -
  have a: "bit PT_ACCESSED_MASK n \<longleftrightarrow> n = 5" for n
    unfolding PT_ACCESSED_MASK_def bit_single by simp
  have u: "bit (pde_used fl) 5" if "\<not> faults fl"
    using that by (auto simp: pde_used_def used_bits_def faults_def walk_ok_def bit_or_iff a)
  have d: "bit d 5" if "F fl AC_PDE_ACCESSED"
    using arg_cong [OF assms(3) [OF that], of "\<lambda>x. bit x 5"] by (simp add: bit_or_iff a)
  show ?thesis
    unfolding pt_match_def using assms(1,2) u d
    by (intro bit_word_eqI) (auto simp: bit_and_iff bit_or_iff bit_not_iff a)
qed

lemma check_false: "ac_test_check at ok False fmt va s = (ok, s)"
  by (simp add: ac_test_check_def)

lemma verdict_pass:
  assumes "fault = (if at_expected_fault at then Some (at_expected_error at) else None)"
    and "at_ptep at \<noteq> 0 \<Longrightarrow> load64 (sys_ram s) (at_ptep at) = at_expected_pte at"
    and "pt_match (load64 (sys_ram s) (at_pdep at)) (at_expected_pde at) (at_ignore_pde at)"
  shows "\<exists>t. ac_test_verdict at fault s = (True, s\<lparr>sys_out := t\<rparr>)"
proof -
  have c: "(fault \<noteq> None \<and> \<not> at_expected_fault at) = False" "(fault = None \<and> at_expected_fault at) = False"
    "(fault \<noteq> None \<and> (case fault of Some e \<Rightarrow> e | None \<Rightarrow> 0) \<noteq> at_expected_error at) = False"
    using assms(1) by auto
  have "\<exists>t. emit fmt va s = s\<lparr>sys_out := t\<rparr>" for fmt va
    by (cases "printf_out fmt va") (auto simp: emit_def intro: exI [of _ "sys_out s"])
  moreover have "\<exists>t. s = s\<lparr>sys_out := t\<rparr>"
    by (rule exI [of _ "sys_out s"]) simp
  ultimately show ?thesis
    using assms(2,3) unfolding ac_test_verdict_def Let_def c check_false prod.case by (auto simp: check_false)
qed

section \<open>A test case passes\<close>

text \<open>
  The processor has the memory management unit of \<open>Access_Mmu\<close> and accepts all values of control register 4;
  the boot code's page directory \<open>ptl2\<close> is a page below 32M other than the root of the tables at \<open>R\<close>.
\<close>

definition access_hw :: "ac_hw \<Rightarrow> nat \<Rightarrow> bool \<Rightarrow> u64 \<Rightarrow> bool" where
  "access_hw hw mp early R \<longleftrightarrow> hw_access hw = mmu_access mp early \<and> (\<forall>v. hw_cr4_ok hw v) \<and> 40 \<le> mp \<and> mp \<le> 51
     \<and> page_aligned (hw_ptl2 hw) \<and> unat (hw_ptl2 hw) + 4096 \<le> 0x2000000 \<and> hw_ptl2 hw \<noteq> R"

definition machine_ok :: "u64 \<Rightarrow> ac_sys \<Rightarrow> bool" where
  "machine_ok R s \<longleftrightarrow> sys_cr3 s = R \<and> \<not> bit (sys_cr4 s) 12 \<and> page_table_levels s = 4"

lemma slot_not_ptl2:
  assumes "access_hw hw mp early R" and "layout R p va" and "l < 4"
  shows "slot R p va l \<noteq> hw_ptl2 hw + 16"
proof
  assume e: "slot R p va l = hw_ptl2 hw + 16"
  have h: "page_aligned (hw_ptl2 hw)" "unat (hw_ptl2 hw) + 4096 \<le> 0x2000000" "hw_ptl2 hw \<noteq> R"
    using assms(1) by (simp_all add: access_hw_def)
  have "unat (hw_ptl2 hw + 16) = unat (hw_ptl2 hw) + 16"
    using h(2) by (subst unat_add_small) simp_all
  then have q: "unat (slot R p va l) = unat (hw_ptl2 hw) + 16"
    using e by simp
  obtain a where "unat (hw_ptl2 hw) = 4096 * a"
    using h(1) by (auto simp: aligned_iff_dvd)
  then have d: "unat (hw_ptl2 hw) div 4096 = unat (tab R p l) div 4096"
    using slot_props(4) [OF assms(2,3)] q by simp
  have "l = 3"
    using level_cases [OF assms(3)] d h(2) unat_tab [OF assms(2)] assms(2) by (auto simp: layout_def simp del: tab.simps)
  then have "unat (hw_ptl2 hw) div 4096 = unat R div 4096"
    using d unat_tab(4) [OF assms(2)] by simp
  moreover have "4096 dvd unat R" "4096 dvd unat (hw_ptl2 hw)"
    using assms(2) h(1) by (simp_all add: layout_def aligned_iff_dvd)
  ultimately have "unat (hw_ptl2 hw) = unat R"
    by (metis dvd_div_mult_self)
  then show False
    using h(3) by (simp add: word_unat_eq_iff)
qed

lemma entries_prepare:
  assumes "access_hw hw mp early R" and "layout R p va" and "\<not> bit (sys_cr4 s) 12" and "entries (sys_ram s) R p va fl d t"
    and "s' = ac_test_cpu hw fl (s\<lparr>sys_ram := (sys_ram s)(0x2000000 := x)\<rparr>)"
  shows "entries (sys_ram s') R p va fl d t"
proof -
  have h: "\<forall>v. hw_cr4_ok hw v" "page_aligned (hw_ptl2 hw)"
    using assms(1) by (simp_all add: access_hw_def)
  have "ucast (ucast x :: u64) = x"
    by (rule bit_word_eqI) (simp add: bit_ucast_iff)
  then have "entries (sys_ram s') R p va fl d t = entries (storen 1 (sys_ram s) 0x2000000 (ucast x)) R p va fl d t"
    using cpu_spec(5) [OF h _ assms(5)] assms(3) slot_props(1) [OF assms(2)] slot_not_ptl2 [OF assms(1,2)]
    by (intro entries_cong) simp_all
  also have "\<dots>"
    using entries_store_page [OF assms(2), where a = "0x2000000" and k = 1] assms(4) by (simp add: in_page_area_def)
  finally show ?thesis .
qed

lemma two_steps:
  assumes "layout R p va" and "40 \<le> mp" and "mp \<le> 51" and "legal_flags fl" and "regs_ok fl s" and "sys_cr3 s = R"
    and "entries (sys_ram s) R p va fl d t"
    and "(r1, s1) = (if F fl AC_ACCESS_TWICE then snd (mmu_access mp early s va False False False r) else (r, s))"
  shows "\<exists>d1 m r' m2 d2. s1 = s\<lparr>sys_ram := m\<rparr> \<and> (d1 = d OR first_pde fl \<or> d1 = d \<and> first_pde fl = PT_ACCESSED_MASK)
    \<and> flag_access mp early fl s1 va r1 = (if faults fl then Some (code_of fl) else None, r', s\<lparr>sys_ram := m2\<rparr>)
    \<and> entries m2 R p va fl d2 (t OR first_pte fl OR pte_used fl)
    \<and> (d2 = d1 OR pde_used fl \<or> d2 = d1 \<and> faults fl \<and> pde_used fl = PT_ACCESSED_MASK)"
proof -
  have "\<exists>d1 m. s1 = s\<lparr>sys_ram := m\<rparr> \<and> (d1 = d OR first_pde fl \<or> d1 = d \<and> first_pde fl = PT_ACCESSED_MASK)
      \<and> entries m R p va fl d1 (t OR first_pte fl)"
  proof (cases "F fl AC_ACCESS_TWICE")
    case True
    have "ready mp (first_flags fl) s R p va d t"
      using assms(1-7) by (simp add: ready_def first_access)
    from mmu_step [OF this, of early r] obtain r' m d1 where
      "snd (mmu_access mp early s va False False False r) = (r', s\<lparr>sys_ram := m\<rparr>)"
      "entries m R p va fl d1 (t OR pte_used (first_flags fl))"
      "d1 = d OR pde_used (first_flags fl) \<or> d1 = d \<and> pde_used (first_flags fl) = PT_ACCESSED_MASK"
      unfolding step_ok_def first_access by auto
    then show ?thesis
      using True assms(8) by (intro exI [of _ d1] exI [of _ m]) (simp add: first_pde_def first_pte_def)
  next
    case False
    then show ?thesis
      using assms(7,8) by (intro exI [of _ d] exI [of _ "sys_ram s"]) (simp add: first_pde_def first_pte_def)
  qed
  then obtain d1 m where 1: "s1 = s\<lparr>sys_ram := m\<rparr>" "d1 = d OR first_pde fl \<or> d1 = d \<and> first_pde fl = PT_ACCESSED_MASK"
    "entries m R p va fl d1 (t OR first_pte fl)"
    by blast
  then have "ready mp fl s1 R p va d1 (t OR first_pte fl)"
    using assms(1-6) by (simp add: ready_def regs_ok_def)
  from mmu_step [OF this, of early r1] show ?thesis
    using 1 unfolding step_ok_def by (fastforce simp: or.assoc)
qed

lemma do_access_pass:
  assumes "access_hw hw mp early R" and "layout R p va" and "machine_ok R s" and "legal_flags fl"
    and "entries (sys_ram s) R p va fl d t" and "F fl AC_PDE_ACCESSED \<Longrightarrow> d OR PT_ACCESSED_MASK = d"
    and "at_flags at = fl" and "at_virt at = va" and "at_phys at = 0x2000000" and "at_pdep at = slot R p va 1"
    and "at_ptep at = (if F fl AC_PDE_PSE then 0 else slot R p va 0)"
  shows "\<exists>s'. ac_test_do_access hw (ac_set_expected_status at s) s = (True, s') \<and> machine_ok R s'"
proof -
  define s0 where "s0 = (if (ac_unique s + 1) AND 65535 = 0 then ac_puts ''.'' (s\<lparr>ac_unique := ac_unique s + 1\<rparr>) else s\<lparr>ac_unique := ac_unique s + 1\<rparr>)"
  define s2 where "s2 = ac_test_cpu hw fl (s0\<lparr>sys_ram := (sys_ram s0)(0x2000000 := 0xc3)\<rparr>)"
  have m: "sys_cr3 s = R" "\<not> bit (sys_cr4 s) 12" "page_table_levels s = 4" and hw: "hw_access hw = mmu_access mp early"
    and h: "\<forall>v. hw_cr4_ok hw v" "page_aligned (hw_ptl2 hw)" "40 \<le> mp" "mp \<le> 51"
    using assms(1,3) by (simp_all add: machine_ok_def access_hw_def)
  have 0: "sys_ram s0 = sys_ram s" "sys_cr3 s0 = R" "sys_cr4 s0 = sys_cr4 s" "page_table_levels s0 = 4" "ac_unique s0 = ac_unique s + 1"
    by (simp_all add: s0_def ac_puts_def m)
  have 2: "regs_ok fl s2" "sys_cr3 s2 = R" "page_table_levels s2 = 4" "entries (sys_ram s2) R p va fl d t"
    using cpu_spec(1-3) [OF h(1,2) _ s2_def] entries_prepare [OF assms(1,2) _ _ s2_def] 0 m assms(5) by simp_all
  have c: "(if ac_unique (s\<lparr>ac_unique := ac_unique s + 1\<rparr>) AND 65535 = 0 then ac_puts ''.'' (s\<lparr>ac_unique := ac_unique s + 1\<rparr>)
      else s\<lparr>ac_unique := ac_unique s + 1\<rparr>) = s0"
    by (simp add: s0_def)
  obtain r1 s3 where 3: "(r1, s3) = (if F fl AC_ACCESS_TWICE then snd (mmu_access mp early s2 va False False False (ac_unique s + 1)) else (ac_unique s + 1, s2))"
    by (metis surj_pair)
  obtain d1 r' m2 d2 where 4: "d1 = d OR first_pde fl \<or> d1 = d \<and> first_pde fl = PT_ACCESSED_MASK"
    "flag_access mp early fl s3 va r1 = (if faults fl then Some (code_of fl) else None, r', s2\<lparr>sys_ram := m2\<rparr>)"
    "entries m2 R p va fl d2 (t OR first_pte fl OR pte_used fl)"
    "d2 = d1 OR pde_used fl \<or> d2 = d1 \<and> faults fl \<and> pde_used fl = PT_ACCESSED_MASK"
    using two_steps [OF assms(2) h(3,4) assms(4) 2(1,2,4) 3] by blast
  let ?at = "ac_set_expected_status at s"
  note st = status_spec [OF assms(7), of s]
  have k: "at_flags ?at = fl" "at_virt ?at = va" "at_phys ?at = 0x2000000"
    by (simp_all add: st assms)
  have "\<exists>o'. ac_test_verdict ?at (if faults fl then Some (code_of fl) else None) (s2\<lparr>sys_ram := m2\<rparr>) = (True, s2\<lparr>sys_ram := m2\<rparr>\<lparr>sys_out := o'\<rparr>)"
  proof (rule verdict_pass)
    show "at_ptep ?at \<noteq> 0 \<Longrightarrow> load64 (sys_ram (s2\<lparr>sys_ram := m2\<rparr>)) (at_ptep ?at) = at_expected_pte ?at"
      using assms(5,11) 4(3) by (simp add: st entries_def split: if_splits)
    have "load64 (sys_ram s) (slot R p va 1) = d" "load64 m2 (slot R p va 1) = d2"
      using assms(5) 4(3) by (simp_all add: entries_def)
    then show "pt_match (load64 (sys_ram (s2\<lparr>sys_ram := m2\<rparr>)) (at_pdep ?at)) (at_expected_pde ?at) (at_ignore_pde ?at)"
      using pde_match [OF 4(1,4) assms(6)] by (simp add: st assms(10))
  qed (simp add: st)
  moreover have "ac_test_do_access hw ?at s = ac_test_verdict ?at (if faults fl then Some (code_of fl) else None) (s2\<lparr>sys_ram := m2\<rparr>)"
    unfolding ac_test_do_access_def Let_def k hw c s2_def [symmetric] 0(5)
    using 3 [symmetric] 4(2) by (cases "F fl AC_ACCESS_TWICE") (simp_all add: flag_access_def 0(5))
  moreover have "machine_ok R (s2\<lparr>sys_ram := m2\<rparr>\<lparr>sys_out := o'\<rparr>)" for o'
    using 2 by (simp add: machine_ok_def regs_ok_def)
  ultimately show ?thesis
    by metis
qed

text \<open>The root of the tables and the tested address.\<close>

definition root_ok :: "u64 \<Rightarrow> u64 \<Rightarrow> bool" where
  "root_ok R va \<longleftrightarrow> page_aligned R \<and> unat R + 4096 \<le> 0x2000000 \<and> idx 3 va \<noteq> 0 \<and> unat (take_bit 21 va) + 4 \<le> 0x100000"

lemma enough_room:
  assumes "pool_at p0 pool" and "pool1 = (if \<not> ac_test_enough_room pool then ac_test_reset_pt_pool pool else pool)" and "root_ok R va"
  obtains p where "pool_at p pool1" and "layout R p va"
proof -
  let ?c = "pt_pool_current pool1"
  have c: "unat ?c + 0x5000 \<le> 0x5700000 \<and> 4096 dvd unat ?c \<and> pt_pool pool1 = 0x2100000 \<and> pt_pool_size pool1 = 0x5700000"
  proof (cases "ac_test_enough_room pool")
    case True
    have "unat (ucast (pt_pool_current pool) + 0x5000 :: u64) = unat (pt_pool_current pool) + 0x5000"
      using assms(1) by (subst unat_add_small) (simp_all add: pool_at_def unsigned_ucast_eq take_bit_nat_eq_self)
    then show ?thesis
      using True assms(1,2)
      by (simp add: ac_test_enough_room_def pool_at_def word_le_nat_alt PAGE_SIZE_def PAGE_SHIFT_def)
  qed (use assms(1,2) in \<open>simp add: ac_test_reset_pt_pool_def pool_at_def\<close>)
  let ?p = "0x2100000 + ucast ?c :: u64"
  have u: "unat ?p = 0x2100000 + unat ?c"
    using c by (subst unat_add_small) (simp_all add: unsigned_ucast_eq take_bit_nat_eq_self)
  then have "4096 dvd unat ?p"
    using c by (simp add: dvd_add)
  then show thesis
    using that [of ?p] c u assms(3) by (simp add: pool_at_def layout_def root_ok_def aligned_iff_dvd)
qed

lemma exec_pass:
  assumes "access_hw hw mp early R" and "root_ok R va" and "machine_ok R s" and "legal_flags (at_flags at)"
    and "at_virt at = va" and "at_phys at = 0x2000000" and "pool_at p0 pool"
  shows "\<exists>at' pool' p' s'. ac_test_exec hw at pool s = (True, at', pool', s') \<and> at_virt at' = va \<and> at_phys at' = 0x2000000
    \<and> pool_at p' pool' \<and> machine_ok R s'"
proof -
  define pool1 where "pool1 = (if \<not> ac_test_enough_room pool then ac_test_reset_pt_pool pool else pool)"
  define s0 where "s0 = (if ac_verbose s then ac_test_show at s else s)"
  let ?fl = "at_flags at"
  obtain p where p: "pool_at p pool1" "layout R p va"
    by (rule enough_room [OF assms(7) pool1_def assms(2)])
  have 0: "machine_ok R s0" "sys_cr3 s0 = R" "page_table_levels s0 = 4"
    using assms(3) by (auto simp: s0_def machine_ok_def ac_test_show_def emit_def split: outcome.splits)
  let ?at = "at\<lparr>at_pdep := slot R p va 1, at_ptep := if F ?fl AC_PDE_PSE then 0 else slot R p va 0\<rparr>"
  let ?s = "s0\<lparr>sys_ram := tables (sys_ram s0) R p va ?fl\<rparr>"
  obtain pool' p' where l: "ac_setup_loop 4 R True 0 0 (at\<lparr>at_ptep := 0\<rparr>) pool1 s0 = (?at, pool', ?s)" "pool_at p' pool'"
    by (rule setup_spec [OF p(2), of "at\<lparr>at_ptep := 0\<rparr>" ?fl pool1 0 s0]) (use assms(4-6) p(1) in simp_all)
  have a: "ac_pde ?fl q 0x2000000 OR PT_ACCESSED_MASK = ac_pde ?fl q 0x2000000" if "F ?fl AC_PDE_ACCESSED" for q
    using that by (intro bit_word_eqI) (auto simp: bit_or_iff bit_ac_pde PT_ACCESSED_MASK_def bit_single simp del: push_bit_of_1)
  have m: "machine_ok R ?s" and e: "entries (sys_ram ?s) R p va ?fl (ac_pde ?fl (tab R p 0) 0x2000000) (ac_pte ?fl 0x2000000)"
    using 0 tables_entries [OF p(2)] by (simp_all add: machine_ok_def)
  have "\<exists>s'. ac_test_do_access hw (ac_set_expected_status ?at ?s) ?s = (True, s') \<and> machine_ok R s'"
    by (rule do_access_pass [OF assms(1) p(2) m assms(4) e a]) (use assms(5,6) in simp_all)
  then obtain s' where "ac_test_do_access hw (ac_set_expected_status ?at ?s) ?s = (True, s')" "machine_ok R s'"
    by blast
  then have "ac_test_exec hw at pool s = (True, ac_set_expected_status ?at ?s, pool', s')"
    using l(1) 0 unfolding ac_test_exec_def ac_test_setup_pte_def ac_setup_pages_def Let_def s0_def [symmetric] pool1_def [symmetric] by simp
  moreover have "at_virt (ac_set_expected_status ?at ?s) = va" "at_phys (ac_set_expected_status ?at ?s) = 0x2000000"
    using assms(5,6) by (simp_all add: status_spec [OF refl])
  ultimately show ?thesis
    using l(2) \<open>machine_ok R s'\<close> by blast
qed

lemma run_cases_pass:
  assumes "access_hw hw mp early R" and "root_ok R va"
  shows "machine_ok R s \<Longrightarrow> \<forall>f \<in> set fs. legal_flags f \<Longrightarrow> at_virt at = va \<Longrightarrow> at_phys at = 0x2000000 \<Longrightarrow> pool_at p pool
    \<Longrightarrow> \<exists>pool' s'. run_cases hw fs at pool s t n = (t + int (length fs), n + int (length fs), pool', s')"
proof (induction fs arbitrary: at pool p s t n)
  case (Cons f fs)
  obtain at' pool' p' s' where x: "ac_test_exec hw (at\<lparr>at_flags := f\<rparr>) pool s = (True, at', pool', s')" "at_virt at' = va"
    "at_phys at' = 0x2000000" "pool_at p' pool'" "machine_ok R s'"
    using exec_pass [OF assms Cons.prems(1), of "at\<lparr>at_flags := f\<rparr>" p pool] Cons.prems by auto
  show ?case
    using Cons.IH [OF x(5) _ x(2,3,4), of "t + 1" "n + 1"] Cons.prems(2) by (auto simp: x(1))
qed simp

lemma mmu_keeps_mask: "invalid_mask (snd (snd (mmu_access mp early s a w u f r))) = invalid_mask s"
  by (simp add: mmu_access_def Let_def split: prod.splits walk_end.splits)

text \<open>
  C1: on a processor that accesses memory as the manuals say, every case of the main loop passes: the loop ends,
  and the counts of tests and of successes have both grown by the number of legal sets of flags that avoid the
  disabled bits. Hence \<open>ac_emulate_access\<close> predicts fault, error code and entries right for all of them.
\<close>

theorem ac_run_loop_all_pass:
  assumes "access_hw hw mp early R" and "root_ok R (at_virt at)" and "machine_ok R s" and "invalid_mask s < 2 ^ 27"
    and "at_flags at = 0" and "at_phys at = 32 * 1024 * 1024"
  shows "\<exists>pool' s'. ac_run_loop hw at ac_env_int s tests successes =
    Some (tests + int (card (test_flags (invalid_mask s))), successes + int (card (test_flags (invalid_mask s))), pool', s')"
proof -
  let ?fs = "sorted_list_of_set (test_flags (invalid_mask s))"
  have "hw_keeps_mask hw"
    using assms(1) mmu_keeps_mask by (simp add: hw_keeps_mask_def access_hw_def)
  then have "ac_run_loop hw at ac_env_int s tests successes = Some (run_cases hw ?fs at ac_env_int s tests successes)"
    using run_loop_cases [of hw "invalid_mask s" at s] test_flags_0 assms(4,5) by (simp add: cases_from_def)
  moreover have "pool_at 0x2100000 ac_env_int"
    by (simp add: pool_at_def ac_env_int_def)
  moreover have "\<forall>f \<in> set ?fs. legal_flags f"
    by (simp add: in_test_flags)
  ultimately show ?thesis
    using run_cases_pass [OF assms(1-3), of ?fs at] assms(6) by simp
qed

text \<open>A processor with 46 address bits, and the two cases that are left when all flags but the first are disabled.\<close>

definition mmu_hw :: ac_hw where
  "mmu_hw = idle_hw\<lparr>hw_access := mmu_access 46 True, hw_ptl2 := 0x3000\<rparr>"

theorem ac_run_loop_all_pass_witness:
  "\<exists>pool' s'. ac_run_loop mmu_hw (hw_stack idle_hw) ac_env_int idle_sys 0 0 = Some (2, 2, pool', s')"
proof -
  have "access_hw mmu_hw 46 True 0x1000"
    by (simp add: access_hw_def mmu_hw_def idle_hw_def aligned_def)
  moreover have "root_ok 0x1000 (at_virt (hw_stack idle_hw))"
    by (simp add: root_ok_def idle_hw_def idx_def aligned_def)
  moreover have "machine_ok 0x1000 idle_sys"
    by (simp add: machine_ok_def idle_sys_def)
  moreover have "invalid_mask idle_sys < 2 ^ 27" "at_flags (hw_stack idle_hw) = 0" "at_phys (hw_stack idle_hw) = 32 * 1024 * 1024"
    by (simp_all add: idle_sys_def idle_hw_def)
  moreover have "card (test_flags (invalid_mask idle_sys)) = 2"
    using arg_cong [OF idle_cases, of length] by simp
  ultimately show ?thesis
    using ac_run_loop_all_pass [of mmu_hw 46 True "0x1000" "hw_stack idle_hw" idle_sys 0 0] by simp
qed

end
