(* ===== verification/Pci.thy ===== *)
theory Pci
  imports Printf
begin

text \<open>
  The PCI library \<^verbatim>\<open>lib/pci.c\<close>: the capability walk, message signalled interrupts, the search for a
  device, and the base address registers (BARs) with their sizing. The code reaches the
  configuration space through six access functions and one address translation that each
  architecture provides; they are the fields of a \<open>pci_env\<close> over the state \<open>'b\<close> of the bus. The locale
  \<open>config_space\<close> is the contract of these functions.
\<close>

section \<open>Access to the configuration space\<close>

record 'b pci_env =
  cfg_readb :: "'b \<Rightarrow> u16 \<Rightarrow> u8 \<Rightarrow> u8 \<times> 'b"
  cfg_readw :: "'b \<Rightarrow> u16 \<Rightarrow> u8 \<Rightarrow> u16 \<times> 'b"
  cfg_readl :: "'b \<Rightarrow> u16 \<Rightarrow> u8 \<Rightarrow> u32 \<times> 'b"
  cfg_writeb :: "'b \<Rightarrow> u16 \<Rightarrow> u8 \<Rightarrow> u8 \<Rightarrow> 'b"
  cfg_writew :: "'b \<Rightarrow> u16 \<Rightarrow> u8 \<Rightarrow> u16 \<Rightarrow> 'b"
  cfg_writel :: "'b \<Rightarrow> u16 \<Rightarrow> u8 \<Rightarrow> u32 \<Rightarrow> 'b"
  cfg_translate :: "'b \<Rightarrow> u16 \<Rightarrow> u64 \<Rightarrow> u64"

record 'b pci_world =
  pci_bus :: 'b
  pci_out :: string

record pci_dev =
  bdf :: u16
  msi_offset :: u16
  resource :: "u64 list"

definition read8 :: "'b pci_env \<Rightarrow> u16 \<Rightarrow> u8 \<Rightarrow> 'b pci_world \<Rightarrow> u8 \<times> 'b pci_world" where
  "read8 E dev reg w = (case cfg_readb E (pci_bus w) dev reg of (v, b) \<Rightarrow> (v, w\<lparr>pci_bus := b\<rparr>))"

definition read16 :: "'b pci_env \<Rightarrow> u16 \<Rightarrow> u8 \<Rightarrow> 'b pci_world \<Rightarrow> u16 \<times> 'b pci_world" where
  "read16 E dev reg w = (case cfg_readw E (pci_bus w) dev reg of (v, b) \<Rightarrow> (v, w\<lparr>pci_bus := b\<rparr>))"

definition read32 :: "'b pci_env \<Rightarrow> u16 \<Rightarrow> u8 \<Rightarrow> 'b pci_world \<Rightarrow> u32 \<times> 'b pci_world" where
  "read32 E dev reg w = (case cfg_readl E (pci_bus w) dev reg of (v, b) \<Rightarrow> (v, w\<lparr>pci_bus := b\<rparr>))"

definition write16 :: "'b pci_env \<Rightarrow> u16 \<Rightarrow> u8 \<Rightarrow> u16 \<Rightarrow> 'b pci_world \<Rightarrow> 'b pci_world" where
  "write16 E dev reg v w = w\<lparr>pci_bus := cfg_writew E (pci_bus w) dev reg v\<rparr>"

definition write32 :: "'b pci_env \<Rightarrow> u16 \<Rightarrow> u8 \<Rightarrow> u32 \<Rightarrow> 'b pci_world \<Rightarrow> 'b pci_world" where
  "write32 E dev reg v w = w\<lparr>pci_bus := cfg_writel E (pci_bus w) dev reg v\<rparr>"

definition pci_printf :: "string \<Rightarrow> vararg list \<Rightarrow> 'b pci_world \<Rightarrow> 'b pci_world outcome" where
  "pci_printf fmt va w = bind_outcome (printf_out fmt va) (\<lambda>t. Ret (w\<lparr>pci_out := pci_out w @ t\<rparr>))"

definition INVALID_PHYS_ADDR :: u64 where
  "INVALID_PHYS_ADDR = - 1"

section \<open>Capabilities and interrupts\<close>

definition PCI_CAP_ID_MAX :: u8 where
  "PCI_CAP_ID_MAX = 0x14"

function pci_cap_loop ::
    "'b pci_env \<Rightarrow> (pci_dev \<Rightarrow> u8 \<Rightarrow> u8 \<Rightarrow> 'b pci_world \<Rightarrow> (pci_dev \<times> 'b pci_world) outcome)
     \<Rightarrow> pci_dev \<Rightarrow> u8 \<Rightarrow> nat \<Rightarrow> 'b pci_world \<Rightarrow> (pci_dev \<times> 'b pci_world) outcome" where
  "pci_cap_loop E handler dev cap_offset count w =
     (if cap_offset = 0 then Ret (dev, w)
      else
        let (cap_id, w) = read8 E (bdf dev) cap_offset w
        in if \<not> cap_id < PCI_CAP_ID_MAX + 1 then Abort ''cap_id < PCI_CAP_ID_MAX + 1''
           else bind_outcome (handler dev cap_offset cap_id w) (\<lambda>(dev, w).
             let (cap_offset, w) = read8 E (bdf dev) (cap_offset + 1) w
             in if \<not> count + 1 \<le> 255 then Abort ''++count <= 255''
                else pci_cap_loop E handler dev cap_offset (count + 1) w))"
  by pat_completeness auto
termination
  by (relation "measure (\<lambda>(E, handler, dev, cap_offset, count, w). 256 - count)") auto

declare pci_cap_loop.simps [simp del]

definition pci_cap_walk ::
    "'b pci_env \<Rightarrow> (pci_dev \<Rightarrow> u8 \<Rightarrow> u8 \<Rightarrow> 'b pci_world \<Rightarrow> (pci_dev \<times> 'b pci_world) outcome)
     \<Rightarrow> pci_dev \<Rightarrow> 'b pci_world \<Rightarrow> (pci_dev \<times> 'b pci_world) outcome" where
  "pci_cap_walk E handler dev w =
     (let (cap_offset, w) = read8 E (bdf dev) 0x34 w in pci_cap_loop E handler dev cap_offset 0 w)"

definition pci_msi_set_enable :: "'b pci_env \<Rightarrow> pci_dev \<Rightarrow> bool \<Rightarrow> 'b pci_world \<Rightarrow> 'b pci_world" where
  "pci_msi_set_enable E dev enabled w =
     (let offset = msi_offset dev;
          (msi_control, w) = read16 E (bdf dev) (ucast (offset + 2)) w;
          msi_control = (if enabled then msi_control OR 1 else msi_control AND NOT 1)
      in write16 E (bdf dev) (ucast (offset + 2)) msi_control w)"

definition pci_setup_msi ::
    "'b pci_env \<Rightarrow> pci_dev \<Rightarrow> u64 \<Rightarrow> u32 \<Rightarrow> 'b pci_world \<Rightarrow> (bool \<times> 'b pci_world) outcome" where
  "pci_setup_msi E dev msi_addr msi_data w =
     (if msi_offset dev = 0 then
        bind_outcome (pci_printf (''MSI: dev %#x does not support MSI.'' @ [NL]) [VInt (ucast (bdf dev))] w)
          (\<lambda>w. Ret (False, w))
      else
        let addr = bdf dev;
            offset = msi_offset dev;
            (msi_control, w) = read16 E addr (ucast (offset + 2)) w;
            w = write32 E addr (ucast (offset + 4)) (ucast msi_addr) w;
            w = (if msi_control AND 0x80 \<noteq> 0 then
                   write32 E addr (ucast (offset + 12)) msi_data
                     (write32 E addr (ucast (offset + 8)) (ucast (drop_bit 32 msi_addr)) w)
                 else write32 E addr (ucast (offset + 8)) msi_data w)
        in Ret (True, pci_msi_set_enable E dev True w))"

definition pci_cmd_set_clr ::
    "'b pci_env \<Rightarrow> pci_dev \<Rightarrow> u16 \<Rightarrow> u16 \<Rightarrow> 'b pci_world \<Rightarrow> 'b pci_world outcome" where
  "pci_cmd_set_clr E dev st clr w =
     (let (val, w) = read16 E (bdf dev) 4 w
      in if st AND clr \<noteq> 0 then Abort ''(set & clr) == 0''
         else Ret (write16 E (bdf dev) 4 ((val OR st) AND NOT clr) w))"

section \<open>Finding devices\<close>

definition pci_dev_exists :: "'b pci_env \<Rightarrow> u16 \<Rightarrow> 'b pci_world \<Rightarrow> bool \<times> 'b pci_world" where
  "pci_dev_exists E dev w =
     (let (v, w) = read16 E dev 0 w
      in if v = 0xffff then (False, w) else let (d, w) = read16 E dev 2 w in (d \<noteq> 0xffff, w))"

definition PCIDEVADDR_INVALID :: u16 where
  "PCIDEVADDR_INVALID = 0xffff"

text \<open>The loop over the device numbers still to be looked at.\<close>

fun pci_find_loop :: "'b pci_env \<Rightarrow> u16 \<Rightarrow> u16 \<Rightarrow> nat list \<Rightarrow> 'b pci_world \<Rightarrow> u16 \<times> 'b pci_world" where
  "pci_find_loop E vendor_id device_id [] w = (PCIDEVADDR_INVALID, w)"
| "pci_find_loop E vendor_id device_id (i # devs) w =
     (let dev = of_nat i;
          (v, w) = read16 E dev 0 w
      in if v \<noteq> vendor_id then pci_find_loop E vendor_id device_id devs w
         else let (d, w) = read16 E dev 2 w
              in if d = device_id then (dev, w) else pci_find_loop E vendor_id device_id devs w)"

definition PCI_DEVFN_MAX :: nat where
  "PCI_DEVFN_MAX = 256"

definition pci_find_dev :: "'b pci_env \<Rightarrow> u16 \<Rightarrow> u16 \<Rightarrow> 'b pci_world \<Rightarrow> u16 \<times> 'b pci_world" where
  "pci_find_dev E vendor_id device_id w = pci_find_loop E vendor_id device_id [0..<PCI_DEVFN_MAX] w"

section \<open>Base address registers\<close>

definition PCI_BAR_NUM :: int where
  "PCI_BAR_NUM = 6"

definition ASSERT_BAR_NUM :: "int \<Rightarrow> unit outcome" where
  "ASSERT_BAR_NUM bar_num = assert_that (bar_num \<ge> 0 \<and> bar_num < PCI_BAR_NUM) ''bar_num >= 0 && bar_num < PCI_BAR_NUM''"

definition bar_off :: "int \<Rightarrow> u8" where
  "bar_off bar_num = word_of_int (0x10 + bar_num * 4)"

definition pci_bar_mask :: "u32 \<Rightarrow> u32" where
  "pci_bar_mask bar = (if bar AND 1 \<noteq> 0 then NOT 3 else NOT 15)"

definition pci_bar_get :: "'b pci_env \<Rightarrow> pci_dev \<Rightarrow> int \<Rightarrow> 'b pci_world \<Rightarrow> (u32 \<times> 'b pci_world) outcome" where
  "pci_bar_get E dev bar_num w =
     bind_outcome (ASSERT_BAR_NUM bar_num) (\<lambda>_. Ret (read32 E (bdf dev) (bar_off bar_num) w))"

definition pci_bar_is64 :: "'b pci_env \<Rightarrow> pci_dev \<Rightarrow> int \<Rightarrow> 'b pci_world \<Rightarrow> (bool \<times> 'b pci_world) outcome" where
  "pci_bar_is64 E dev bar_num w =
     bind_outcome (pci_bar_get E dev bar_num w) (\<lambda>(bar, w).
       if bar AND 1 \<noteq> 0 then Ret (False, w) else Ret (bar AND 6 = 4, w))"

definition pci_bar_read_addr :: "'b pci_env \<Rightarrow> pci_dev \<Rightarrow> int \<Rightarrow> 'b pci_world \<Rightarrow> (u64 \<times> 'b pci_world) outcome" where
  "pci_bar_read_addr E dev bar_num w =
     bind_outcome (pci_bar_get E dev bar_num w) (\<lambda>(bar, w).
     let mask = pci_bar_mask bar;
         addr = (ucast (bar AND mask) :: u64)
     in bind_outcome (pci_bar_is64 E dev bar_num w) (\<lambda>(is64, w).
        bind_outcome
          (if is64 then bind_outcome (pci_bar_get E dev (bar_num + 1) w) (\<lambda>(hi, w). Ret (addr OR push_bit 32 (ucast hi), w))
           else Ret (addr, w))
          (\<lambda>(addr, w).
             let phys_addr = cfg_translate E (pci_bus w) (bdf dev) addr
             in if phys_addr = INVALID_PHYS_ADDR then Abort ''phys_addr != INVALID_PHYS_ADDR''
                else Ret (phys_addr, w))))"

text \<open>An access to \<^verbatim>\<open>dev->resource\<close> outside the array is undefined.\<close>

definition get_resource :: "pci_dev \<Rightarrow> int \<Rightarrow> u64 outcome" where
  "get_resource dev i =
     (if 0 \<le> i \<and> i < int (length (resource dev)) then Ret (resource dev ! nat i) else Abort ''resource index out of bounds'')"

definition set_resource :: "int \<Rightarrow> u64 \<Rightarrow> pci_dev \<Rightarrow> pci_dev" where
  "set_resource i v dev = dev\<lparr>resource := (resource dev)[nat i := v]\<rparr>"

definition pci_bar_get_addr :: "pci_dev \<Rightarrow> int \<Rightarrow> u64 outcome" where
  "pci_bar_get_addr dev bar_num = bind_outcome (ASSERT_BAR_NUM bar_num) (\<lambda>_. get_resource dev bar_num)"

definition pci_bar_set_addr ::
    "'b pci_env \<Rightarrow> pci_dev \<Rightarrow> int \<Rightarrow> u64 \<Rightarrow> 'b pci_world \<Rightarrow> (pci_dev \<times> 'b pci_world) outcome" where
  "pci_bar_set_addr E dev bar_num addr w =
     (let off = bar_off bar_num in
      bind_outcome (assert_that (addr \<noteq> INVALID_PHYS_ADDR) ''addr != INVALID_PHYS_ADDR'') (\<lambda>_.
      bind_outcome (get_resource dev bar_num) (\<lambda>r.
      bind_outcome (assert_that (r \<noteq> INVALID_PHYS_ADDR) ''dev->resource[bar_num] != INVALID_PHYS_ADDR'') (\<lambda>_.
      bind_outcome (ASSERT_BAR_NUM bar_num) (\<lambda>_.
      bind_outcome (pci_bar_is64 E dev bar_num w) (\<lambda>(is64, w).
      bind_outcome (if is64 then ASSERT_BAR_NUM (bar_num + 1) else assert_that (drop_bit 32 addr = 0) ''(addr >> 32) == 0'') (\<lambda>_.
      let w = write32 E (bdf dev) off (ucast addr) w;
          dev = set_resource bar_num addr dev
      in bind_outcome (pci_bar_is64 E dev bar_num w) (\<lambda>(is64, w).
         if is64 then
           let w = write32 E (bdf dev) (off + 4) (ucast (drop_bit 32 addr)) w
           in bind_outcome (get_resource dev bar_num) (\<lambda>r. Ret (set_resource (bar_num + 1) r dev, w))
         else Ret (dev, w)))))))))"

definition pci_bar_size_helper :: "'b pci_env \<Rightarrow> pci_dev \<Rightarrow> int \<Rightarrow> 'b pci_world \<Rightarrow> u32 \<times> 'b pci_world" where
  "pci_bar_size_helper E dev bar_num w =
     (let off = bar_off bar_num;
          (bar, w) = read32 E (bdf dev) off w;
          w = write32 E (bdf dev) off (- 1) w;
          (val, w) = read32 E (bdf dev) off w
      in (val, write32 E (bdf dev) off bar w))"

definition pci_bar_size :: "'b pci_env \<Rightarrow> pci_dev \<Rightarrow> int \<Rightarrow> 'b pci_world \<Rightarrow> (u64 \<times> 'b pci_world) outcome" where
  "pci_bar_size E dev bar_num w =
     (let (size, w) = pci_bar_size_helper E dev bar_num w
      in if size = 0 then Ret (0, w)
         else
           bind_outcome (pci_bar_get E dev bar_num w) (\<lambda>(bar, w).
           let size = size AND pci_bar_mask bar
           in bind_outcome (pci_bar_is64 E dev bar_num w) (\<lambda>(is64, w).
              if is64 then
                let (hi, w) = pci_bar_size_helper E dev (bar_num + 1) w;
                    size64 = push_bit 32 (ucast hi) OR (ucast size :: u64)
                in Ret (NOT size64 + 1, w)
              else Ret (ucast (NOT size + 1), w))))"

definition pci_bar_is_memory :: "'b pci_env \<Rightarrow> pci_dev \<Rightarrow> int \<Rightarrow> 'b pci_world \<Rightarrow> (bool \<times> 'b pci_world) outcome" where
  "pci_bar_is_memory E dev bar_num w =
     bind_outcome (pci_bar_get E dev bar_num w) (\<lambda>(bar, w). Ret (bar AND 1 = 0, w))"

definition pci_bar_is_valid :: "pci_dev \<Rightarrow> int \<Rightarrow> bool outcome" where
  "pci_bar_is_valid dev bar_num = bind_outcome (get_resource dev bar_num) (\<lambda>r. Ret (r \<noteq> INVALID_PHYS_ADDR))"

section \<open>Initialisation\<close>

text \<open>The loop of \<open>pci_dev_init\<close> from register \<open>i\<close> on; the second register of a 64-bit BAR is skipped.\<close>

function pci_dev_init_loop ::
    "'b pci_env \<Rightarrow> int \<Rightarrow> pci_dev \<Rightarrow> 'b pci_world \<Rightarrow> (pci_dev \<times> 'b pci_world) outcome" where
  "pci_dev_init_loop E i dev w =
     (if \<not> i < PCI_BAR_NUM then Ret (dev, w)
      else bind_outcome (pci_bar_size E dev i w) (\<lambda>(size, w).
        if size \<noteq> 0 then
          bind_outcome (pci_bar_read_addr E dev i w) (\<lambda>(addr, w).
          let dev = set_resource i addr dev
          in bind_outcome (pci_bar_is64 E dev i w) (\<lambda>(is64, w).
             if is64 then
               bind_outcome (assert_that (i + 1 < PCI_BAR_NUM) ''i + 1 < PCI_BAR_NUM'') (\<lambda>_.
               bind_outcome (get_resource dev i) (\<lambda>r.
               pci_dev_init_loop E (i + 2) (set_resource (i + 1) r dev) w))
             else pci_dev_init_loop E (i + 1) dev w))
        else pci_dev_init_loop E (i + 1) (set_resource i INVALID_PHYS_ADDR dev) w))"
  by pat_completeness auto
termination
  by (relation "measure (\<lambda>(E, i, dev, w). nat (PCI_BAR_NUM - i))") auto

declare pci_dev_init_loop.simps [simp del]

definition pci_dev_init :: "'b pci_env \<Rightarrow> u16 \<Rightarrow> 'b pci_world \<Rightarrow> (pci_dev \<times> 'b pci_world) outcome" where
  "pci_dev_init E dev w =
     pci_dev_init_loop E 0 \<lparr>bdf = dev, msi_offset = 0, resource = replicate (nat PCI_BAR_NUM) 0\<rparr> w"

definition pci_intx_line :: "'b pci_env \<Rightarrow> pci_dev \<Rightarrow> 'b pci_world \<Rightarrow> u8 \<times> 'b pci_world" where
  "pci_intx_line E dev w = read8 E (bdf dev) 0x3c w"

definition PCI_CAP_ID_MSI :: u8 where
  "PCI_CAP_ID_MSI = 5"

definition pci_cap_setup :: "pci_dev \<Rightarrow> u8 \<Rightarrow> u8 \<Rightarrow> 'b pci_world \<Rightarrow> (pci_dev \<times> 'b pci_world) outcome" where
  "pci_cap_setup dev cap_offset cap_id w =
     Ret (if cap_id = PCI_CAP_ID_MSI then dev\<lparr>msi_offset := ucast cap_offset\<rparr> else dev, w)"

definition pci_enable_defaults :: "'b pci_env \<Rightarrow> pci_dev \<Rightarrow> 'b pci_world \<Rightarrow> (pci_dev \<times> 'b pci_world) outcome" where
  "pci_enable_defaults E dev w =
     bind_outcome (pci_cmd_set_clr E dev 4 0 w) (\<lambda>w. pci_cap_walk E pci_cap_setup dev w)"

section \<open>Listing the devices\<close>

text \<open>The text after the address range of a BAR.\<close>

definition pci_bar_kind :: "u32 \<Rightarrow> string outcome" where
  "pci_bar_kind bar =
     bind_outcome
       (if bar AND 1 \<noteq> 0 then Ret ''PIO''
        else if bar AND 6 = 0 then Ret ''MEM32''
        else if bar AND 6 = 2 then Ret ''MEM1M''
        else if bar AND 6 = 4 then Ret ''MEM64''
        else Abort ''0'')
       (\<lambda>t. Ret (if bar AND 8 \<noteq> 0 then t @ ''/p'' else t))"

definition pci_bar_print :: "'b pci_env \<Rightarrow> pci_dev \<Rightarrow> int \<Rightarrow> 'b pci_world \<Rightarrow> 'b pci_world outcome" where
  "pci_bar_print E dev bar_num w =
     bind_outcome (pci_bar_is_valid dev bar_num) (\<lambda>valid.
     if \<not> valid then Ret w
     else
       bind_outcome (pci_bar_get E dev bar_num w) (\<lambda>(bar, w).
       bind_outcome (pci_bar_size E dev bar_num w) (\<lambda>(size, w).
       bind_outcome (pci_bar_get_addr dev bar_num) (\<lambda>start.
       let end_addr = start + size - 1
       in bind_outcome (pci_bar_is64 E dev bar_num w) (\<lambda>(is64, w).
          bind_outcome
            (if is64 then pci_printf ''BAR#%d,%d [%lx-%lx ''
                [VInt (word_of_int bar_num), VInt (word_of_int (bar_num + 1)), VInt start, VInt end_addr] w
             else pci_printf ''BAR#%d [%02x-%02x ''
                [VInt (word_of_int bar_num), VInt (take_bit 32 start), VInt (take_bit 32 end_addr)] w)
            (\<lambda>w. bind_outcome (pci_bar_kind bar) (\<lambda>kind. pci_printf (kind @ '']'') [] w)))))))"

definition pci_dev_print_id :: "'b pci_env \<Rightarrow> pci_dev \<Rightarrow> 'b pci_world \<Rightarrow> 'b pci_world outcome" where
  "pci_dev_print_id E dev w =
     (let (vendor, w) = read16 E (bdf dev) 0 w;
          (device, w) = read16 E (bdf dev) 2 w
      in pci_printf ''00.%02x.%1x %04x:%04x''
           [VInt (ucast (bdf dev div 8)), VInt (ucast (bdf dev mod 8)), VInt (ucast vendor), VInt (ucast device)] w)"

definition pci_cap_print ::
    "'b pci_env \<Rightarrow> pci_dev \<Rightarrow> u8 \<Rightarrow> u8 \<Rightarrow> 'b pci_world \<Rightarrow> (pci_dev \<times> 'b pci_world) outcome" where
  "pci_cap_print E dev cap_offset cap_id w =
     bind_outcome
       (if cap_id = PCI_CAP_ID_MSI then
          let (control, w) = read16 E (bdf dev) (cap_offset + 2) w
          in pci_printf (CHR 0x09 # ''MSI,%s-bit capability '') [VStr (if control AND 0x80 \<noteq> 0 then ''64'' else ''32'')] w
        else pci_printf (CHR 0x09 # ''capability %#04x '') [VInt (ucast cap_id)] w)
       (\<lambda>w. bind_outcome (pci_printf (''at offset %#04x'' @ [NL]) [VInt (ucast cap_offset)] w) (\<lambda>w. Ret (dev, w)))"

function pci_print_bars :: "'b pci_env \<Rightarrow> int \<Rightarrow> pci_dev \<Rightarrow> 'b pci_world \<Rightarrow> 'b pci_world outcome" where
  "pci_print_bars E i dev w =
     (if \<not> i < PCI_BAR_NUM then Ret w
      else bind_outcome (pci_bar_is_valid dev i) (\<lambda>valid.
        bind_outcome
          (if valid then
             bind_outcome (pci_printf [CHR 0x09] [] w) (\<lambda>w.
             bind_outcome (pci_bar_print E dev i w) (pci_printf [NL] []))
           else Ret w)
          (\<lambda>w. bind_outcome (pci_bar_is64 E dev i w) (\<lambda>(is64, w).
             pci_print_bars E (if is64 then i + 2 else i + 1) dev w))))"
  by pat_completeness auto
termination
  by (relation "measure (\<lambda>(E, i, dev, w). nat (PCI_BAR_NUM - i))") auto

declare pci_print_bars.simps [simp del]

definition pci_dev_print :: "'b pci_env \<Rightarrow> pci_dev \<Rightarrow> 'b pci_world \<Rightarrow> (pci_dev \<times> 'b pci_world) outcome" where
  "pci_dev_print E dev w =
     (let (header, w) = read8 E (bdf dev) 0x0e w;
          (progif, w) = read8 E (bdf dev) 0x09 w;
          (subclass, w) = read8 E (bdf dev) 0x0a w;
          (cls, w) = read8 E (bdf dev) 0x0b w
      in bind_outcome (pci_dev_print_id E dev w) (\<lambda>w.
         bind_outcome (pci_printf ('' type %02x progif %02x class %02x subclass %02x'' @ [NL])
             [VInt (ucast header), VInt (ucast progif), VInt (ucast cls), VInt (ucast subclass)] w) (\<lambda>w.
         bind_outcome (pci_cap_walk E (pci_cap_print E) dev w) (\<lambda>(dev, w).
         if header AND 0x7f \<noteq> 0 then Ret (dev, w)
         else bind_outcome (pci_print_bars E 0 dev w) (\<lambda>w. Ret (dev, w))))))"

fun pci_print_loop :: "'b pci_env \<Rightarrow> nat list \<Rightarrow> 'b pci_world \<Rightarrow> 'b pci_world outcome" where
  "pci_print_loop E [] w = Ret w"
| "pci_print_loop E (devfn # devs) w =
     (let (found, w) = pci_dev_exists E (of_nat devfn) w
      in bind_outcome
           (if found then
              bind_outcome (pci_dev_init E (of_nat devfn) w) (\<lambda>(dev, w).
              bind_outcome (pci_dev_print E dev w) (\<lambda>(dev, w). Ret w))
            else Ret w)
           (pci_print_loop E devs))"

definition pci_print :: "'b pci_env \<Rightarrow> 'b pci_world \<Rightarrow> 'b pci_world outcome" where
  "pci_print E w = pci_print_loop E [0..<PCI_DEVFN_MAX] w"

section \<open>The contract of the configuration space\<close>

lemma unat_bar_off: "0 \<le> i \<Longrightarrow> i \<le> 6 \<Longrightarrow> unat (bar_off i) = 16 + 4 * nat i"
  by (simp only: bar_off_def unsigned_of_int) (simp add: take_bit_int_eq_self nat_add_distrib nat_mult_distrib)

lemma bar_off_aligned: "0 \<le> i \<Longrightarrow> i \<le> 6 \<Longrightarrow> 4 dvd unat (bar_off i)"
  by (simp add: unat_bar_off)

lemma and_7_split: "v AND 1 = 0 \<and> v AND 6 = 4 \<longleftrightarrow> v AND 7 = (4 :: u32)"
proof -
  have "take_bit 3 v = of_bool (bit v 0) + 2 * of_bool (bit v 1) + 4 * of_bool (bit v 2)"
    by (simp add: eval_nat_numeral take_bit_Suc bit_Suc bit_0 mod_2_eq_odd)
  moreover have "take_bit 3 v = v AND 7"
    by (simp add: take_bit_eq_mask mask_numeral)
  ultimately have e: "v AND 7 = of_bool (bit v 0) + 2 * of_bool (bit v 1) + 4 * of_bool (bit v 2)"
    by simp
  have "v AND 1 = (v AND 7) AND 1" "v AND 6 = (v AND 7) AND 6"
    by (simp_all add: and.assoc)
  then show ?thesis
    unfolding e by (cases "bit v 0"; cases "bit v 1"; cases "bit v 2"; simp)
qed

text \<open>
  What a device decodes at a base address register: nothing, or a block of \<open>2 ^ k\<close> bytes of I/O or
  memory space, the latter with its attribute bits. The bits below the block size cannot be
  written, and read as the attribute.
\<close>

datatype bar_kind = BarNone | BarIo nat | BarMem32 nat u32 | BarMem64 nat u32

primrec bar_bytes :: "bar_kind \<Rightarrow> u64" where
  "bar_bytes BarNone = 0"
| "bar_bytes (BarIo k) = 2 ^ k"
| "bar_bytes (BarMem32 k t) = 2 ^ k"
| "bar_bytes (BarMem64 k t) = 2 ^ k"

primrec bar_at :: "(u8 \<Rightarrow> u32) \<Rightarrow> (u8 \<Rightarrow> u32) \<Rightarrow> int \<Rightarrow> bar_kind \<Rightarrow> bool" where
  "bar_at v m i BarNone \<longleftrightarrow> v (bar_off i) = 0 \<and> m (bar_off i) = 0"
| "bar_at v m i (BarIo k) \<longleftrightarrow>
     2 \<le> k \<and> k < 32 \<and> m (bar_off i) = NOT (mask k) \<and> v (bar_off i) AND mask k = 1"
| "bar_at v m i (BarMem32 k t) \<longleftrightarrow>
     4 \<le> k \<and> k < 32 \<and> t < 16 \<and> even t \<and> t AND 7 \<noteq> 4 \<and> m (bar_off i) = NOT (mask k) \<and> v (bar_off i) AND mask k = t"
| "bar_at v m i (BarMem64 k t) \<longleftrightarrow>
     i < 5 \<and> 4 \<le> k \<and> k < 64 \<and> t < 16 \<and> t AND 7 = 4
     \<and> m (bar_off i) = ucast (NOT (mask k) :: u64) \<and> v (bar_off i) AND NOT (m (bar_off i)) = t
     \<and> m (bar_off (i + 1)) = ucast (drop_bit 32 (NOT (mask k) :: u64)) \<and> v (bar_off (i + 1)) AND NOT (m (bar_off (i + 1))) = 0"

lemma bit_u32_small:
  assumes "(t :: u32) < 16" and "bit t n"
  shows "n < 4"
proof -
  have "unat t < 2 ^ 4"
    using assms(1) by (simp add: word_less_nat_alt)
  then have "take_bit 4 (unat t) = unat t"
    by (simp add: take_bit_nat_eq_self)
  moreover have "bit (unat t) n"
    using assms(2) by (simp add: bit_unsigned_iff)
  ultimately show ?thesis
    by (metis bit_take_bit_iff)
qed

lemma bar_block_size: "k < 32 \<Longrightarrow> ucast (NOT (NOT (mask k)) + 1 :: u32) = (2 ^ k :: u64)"
  by (rule bit_word_eqI) (auto simp: mask_eq_exp_minus_1 bit_simps)

text \<open>The sizing pattern with the attribute bits masked off is the complement of the block mask.\<close>

lemma size_pattern:
  fixes v m t :: u32
  assumes "v AND NOT m = t" and "\<forall>n. bit m n \<longrightarrow> n \<ge> j" and "\<forall>n. bit t n \<longrightarrow> n < j"
  shows "(m OR v) AND NOT (mask j) = m"
proof (rule bit_word_eqI)
  fix n assume "n < LENGTH(32)"
  then have "bit t n = (bit v n \<and> \<not> bit m n)"
    using assms(1) by (auto simp: bit_simps)
  then show "bit ((m OR v) AND NOT (mask j)) n = bit m n"
    using assms(2,3) \<open>n < LENGTH(32)\<close> by (auto simp: bit_simps)
qed

lemma and_1_even: "v AND 1 = 0 \<longleftrightarrow> even (v :: u32)"
  unfolding and_one_eq by (rule even_iff_mod_2_eq_zero [symmetric])

lemma pci_bar_mask_iff: "pci_bar_mask v = (if odd v then NOT (mask 2) else NOT (mask 4))"
  unfolding pci_bar_mask_def and_1_even by (simp add: mask_numeral)

lemma high_mask: "j \<le> k \<Longrightarrow> \<forall>n. bit (NOT (mask k) :: u32) n \<longrightarrow> n \<ge> j"
  "j \<le> k \<Longrightarrow> \<forall>n. bit (ucast (NOT (mask k) :: u64) :: u32) n \<longrightarrow> n \<ge> j"
  by (auto simp: bit_simps)

lemma and_7_low: "\<forall>n. bit m n \<longrightarrow> n \<ge> 4 \<Longrightarrow> (v AND NOT m) AND 7 = v AND (7 :: u32)"
proof (rule bit_word_eqI)
  fix n assume "\<forall>n. bit m n \<longrightarrow> n \<ge> 4" "n < LENGTH(32)"
  moreover have "7 = (mask 3 :: u32)"
    by (simp add: mask_numeral)
  ultimately show "bit ((v AND NOT m) AND 7) n = bit (v AND 7) n"
    by (auto simp only: bit_simps)
qed

lemma and_7_odd: "v AND 7 = (4 :: u32) \<Longrightarrow> even v"
  using and_7_split [of v] and_1_even [of v] by simp

lemma bar_nonzero:
  assumes "bar_at v m i kind" and "m (bar_off i) OR v (bar_off i) = 0"
  shows "kind = BarNone"
proof -
  have "x = 0 \<and> y = 0" if "x OR y = 0" for x y :: u32
  proof -
    have "\<not> bit x n \<and> \<not> bit y n" for n
      using arg_cong [OF that, of "\<lambda>z. bit z n"] by (simp add: bit_or_iff)
    then show ?thesis
      by (simp add: bit_eq_iff)
  qed
  then have z: "m (bar_off i) = 0" "v (bar_off i) = 0"
    using assms(2) by blast+
  have "NOT (mask k) \<noteq> (0 :: u32)" if "k < 32" for k
  proof
    assume "NOT (mask k) = (0 :: u32)"
    then have "bit (NOT (mask k) :: u32) 31 = bit (0 :: u32) 31"
      by simp
    then show False
      using that by (simp add: bit_simps)
  qed
  then show ?thesis
    using assms(1) z by (cases kind) auto
qed

lemma bar_size32:
  assumes "bar_at v m i kind" and "m (bar_off i) OR v (bar_off i) \<noteq> 0" and "v (bar_off i) AND 7 \<noteq> 4"
  shows "ucast (NOT ((m (bar_off i) OR v (bar_off i)) AND pci_bar_mask (v (bar_off i))) + 1) = bar_bytes kind"
proof (cases kind)
  case BarNone
  then show ?thesis
    using assms(1,2) by simp
next
  case (BarIo k)
  then have k: "2 \<le> k" "k < 32" "m (bar_off i) = NOT (mask k)" "v (bar_off i) AND NOT (NOT (mask k)) = 1"
    using assms(1) by auto
  have "odd (v (bar_off i) AND mask k)"
    using k(4) by simp
  then have "odd (v (bar_off i))"
    by (simp add: even_and_iff)
  then show ?thesis
    using size_pattern [OF k(4) high_mask(1) [OF k(1)]] bar_block_size [OF k(2)] k(3) BarIo
    by (simp add: pci_bar_mask_iff bit_1_iff del: bit.double_compl)
next
  case (BarMem32 k t)
  then have k: "4 \<le> k" "k < 32" "t < 16" "even t" "m (bar_off i) = NOT (mask k)" "v (bar_off i) AND NOT (NOT (mask k)) = t"
    using assms(1) by auto
  have "even (v (bar_off i) AND mask k)"
    using k(4,6) by simp
  then have "even (v (bar_off i))"
    using k(1) by (auto simp: even_and_iff even_mask_iff)
  then show ?thesis
    using size_pattern [OF k(6) high_mask(1) [OF k(1)]] bar_block_size [OF k(2)] k(3,5) BarMem32 bit_u32_small
    by (simp add: pci_bar_mask_iff del: bit.double_compl)
next
  case (BarMem64 k t)
  then have "v (bar_off i) AND 7 = 4"
    using assms(1) and_7_low [OF high_mask(2), of k "v (bar_off i)"] by auto
  then show ?thesis
    using assms(3) by simp
qed

lemma bar_size64_kind:
  assumes "bar_at v m i kind" and "v (bar_off i) AND 7 = 4"
  shows "\<exists>k t. kind = BarMem64 k t"
proof (cases kind)
  case (BarIo k)
  then have "odd (v (bar_off i) AND mask k)"
    using assms(1) by auto
  then show ?thesis
    using and_7_odd [OF assms(2)] by (simp add: even_and_iff)
next
  case (BarMem32 k t)
  then show ?thesis
    using assms and_7_low [OF high_mask(1), of k "v (bar_off i)"] by auto
qed (use assms in auto)

lemma bar_size64:
  assumes "bar_at v m i kind" and "v (bar_off i) AND 7 = 4"
  shows "i < 5"
    and "NOT (push_bit 32 (ucast (m (bar_off (i + 1)) OR v (bar_off (i + 1))))
          OR (ucast ((m (bar_off i) OR v (bar_off i)) AND pci_bar_mask (v (bar_off i))) :: u64)) + 1 = bar_bytes kind"
proof -
  obtain k t where kind: "kind = BarMem64 k t"
    using bar_size64_kind [OF assms] by blast
  let ?X = "NOT (mask k) :: u64"
  have k: "4 \<le> k" "k < 64" "t < 16" "m (bar_off i) = ucast ?X" "v (bar_off i) AND NOT (m (bar_off i)) = t"
    "m (bar_off (i + 1)) = ucast (drop_bit 32 ?X)" "v (bar_off (i + 1)) AND NOT (m (bar_off (i + 1))) = 0"
    using assms(1) kind by auto
  show "i < 5"
    using assms(1) kind by simp
  have lo: "(m (bar_off i) OR v (bar_off i)) AND pci_bar_mask (v (bar_off i)) = m (bar_off i)"
    using size_pattern [OF k(5) high_mask(2) [OF k(1), folded k(4)]] k(3) and_7_odd [OF assms(2)] bit_u32_small
    by (simp add: pci_bar_mask_iff)
  have hi: "m (bar_off (i + 1)) OR v (bar_off (i + 1)) = m (bar_off (i + 1))"
    using size_pattern [OF k(7), of 0] by simp
  have "push_bit 32 (ucast (ucast (drop_bit 32 x) :: u32)) OR (ucast (ucast x :: u32) :: u64) = x" for x :: u64
    by (rule bit_word_eqI) (auto simp: bit_simps)
  then have "push_bit 32 (ucast (m (bar_off (i + 1)))) OR ucast (m (bar_off i)) = ?X"
    by (simp only: k(4,6))
  then show "NOT (push_bit 32 (ucast (m (bar_off (i + 1)) OR v (bar_off (i + 1))))
          OR (ucast ((m (bar_off i) OR v (bar_off i)) AND pci_bar_mask (v (bar_off i))) :: u64)) + 1 = bar_bytes kind"
    unfolding lo hi by (simp add: kind mask_eq_exp_minus_1)
qed

text \<open>
  A register of a device is a 32-bit word with some writable bits. \<open>view b dev reg\<close> is what a read of
  the register returns in the state \<open>b\<close>; a write changes the writable bits \<open>wm dev reg\<close> of that
  register and nothing else. Reads may change the state but not what later reads return.
\<close>

locale config_space =
  fixes E :: "'b pci_env"
    and ok :: "'b \<Rightarrow> bool"
    and view :: "'b \<Rightarrow> u16 \<Rightarrow> u8 \<Rightarrow> u32"
    and wm :: "u16 \<Rightarrow> u8 \<Rightarrow> u32"
  assumes readl: "ok b \<Longrightarrow> 4 dvd unat reg \<Longrightarrow> cfg_readl E b dev reg = (v, b') \<Longrightarrow>
      v = view b dev reg \<and> view b' = view b \<and> ok b'"
    and readw: "ok b \<Longrightarrow> 2 dvd unat reg \<Longrightarrow> cfg_readw E b dev reg = (x, b') \<Longrightarrow>
      x = ucast (drop_bit (8 * (unat reg mod 4)) (view b dev (reg AND NOT 3))) \<and> view b' = view b \<and> ok b'"
    and readb: "ok b \<Longrightarrow> cfg_readb E b dev reg = (y, b') \<Longrightarrow>
      y = ucast (drop_bit (8 * (unat reg mod 4)) (view b dev (reg AND NOT 3))) \<and> view b' = view b \<and> ok b'"
    and writel: "ok b \<Longrightarrow> 4 dvd unat reg \<Longrightarrow>
      view (cfg_writel E b dev reg v) =
        (\<lambda>d r. if d = dev \<and> r = reg then (v AND wm dev reg) OR (view b dev reg AND NOT (wm dev reg)) else view b d r)
      \<and> ok (cfg_writel E b dev reg v)"
    and writew: "ok b \<Longrightarrow> 4 dvd unat reg \<Longrightarrow>
      view (cfg_writew E b dev reg h) =
        (\<lambda>d r. if d = dev \<and> r = reg
               then (ucast h AND wm dev reg) OR (view b dev reg AND NOT (wm dev reg AND 0xffff)) else view b d r)
      \<and> ok (cfg_writew E b dev reg h)"
begin

lemma read32_view:
  assumes "ok b" and "4 dvd unat reg"
  obtains b' where "read32 E dev reg (w\<lparr>pci_bus := b\<rparr>) = (view b dev reg, w\<lparr>pci_bus := b'\<rparr>)"
    and "view b' = view b" and "ok b'"
  using readl [OF assms, of dev] by (cases "cfg_readl E b dev reg") (auto simp: read32_def)

lemma read16_view:
  assumes "ok b" and "2 dvd unat reg"
  obtains b' where "read16 E dev reg (w\<lparr>pci_bus := b\<rparr>) =
      (ucast (drop_bit (8 * (unat reg mod 4)) (view b dev (reg AND NOT 3))), w\<lparr>pci_bus := b'\<rparr>)"
    and "view b' = view b" and "ok b'"
  using readw [OF assms, of dev] by (cases "cfg_readw E b dev reg") (auto simp: read16_def)

lemma read8_view:
  assumes "ok b"
  obtains b' where "read8 E dev reg (w\<lparr>pci_bus := b\<rparr>) =
      (ucast (drop_bit (8 * (unat reg mod 4)) (view b dev (reg AND NOT 3))), w\<lparr>pci_bus := b'\<rparr>)"
    and "view b' = view b" and "ok b'"
  using readb [OF assms, of dev reg] by (cases "cfg_readb E b dev reg") (auto simp: read8_def)

lemma write32_view:
  assumes "ok b" and "4 dvd unat reg"
  obtains b' where "write32 E dev reg v (w\<lparr>pci_bus := b\<rparr>) = w\<lparr>pci_bus := b'\<rparr>"
    and "view b' = (\<lambda>d r. if d = dev \<and> r = reg then (v AND wm dev reg) OR (view b dev reg AND NOT (wm dev reg))
                          else view b d r)" and "ok b'"
  using writel [OF assms, of dev v] by (auto simp: write32_def)

text \<open>Sizing a register shows its writable bits and restores the register.\<close>

lemma size_helper:
  assumes "ok b" and "4 dvd unat (bar_off i)"
  obtains b' where "pci_bar_size_helper E dev i (w\<lparr>pci_bus := b\<rparr>) =
      (wm (bdf dev) (bar_off i) OR view b (bdf dev) (bar_off i), w\<lparr>pci_bus := b'\<rparr>)"
    and "view b' = view b" and "ok b'"
proof -
  let ?d = "bdf dev" and ?r = "bar_off i"
  obtain b1 where r1: "read32 E ?d ?r (w\<lparr>pci_bus := b\<rparr>) = (view b ?d ?r, w\<lparr>pci_bus := b1\<rparr>)"
    and v1: "view b1 = view b" "ok b1"
    by (rule read32_view [OF assms])
  obtain b2 where w2: "write32 E ?d ?r (- 1) (w\<lparr>pci_bus := b1\<rparr>) = w\<lparr>pci_bus := b2\<rparr>"
    and v2: "view b2 = (\<lambda>d r. if d = ?d \<and> r = ?r then (- 1 AND wm ?d ?r) OR (view b1 ?d ?r AND NOT (wm ?d ?r)) else view b1 d r)" "ok b2"
    by (rule write32_view [OF v1(2) assms(2)])
  obtain b3 where r3: "read32 E ?d ?r (w\<lparr>pci_bus := b2\<rparr>) = (view b2 ?d ?r, w\<lparr>pci_bus := b3\<rparr>)"
    and v3: "view b3 = view b2" "ok b3"
    by (rule read32_view [OF v2(2) assms(2)])
  obtain b4 where w4: "write32 E ?d ?r (view b ?d ?r) (w\<lparr>pci_bus := b3\<rparr>) = w\<lparr>pci_bus := b4\<rparr>"
    and v4: "view b4 = (\<lambda>d r. if d = ?d \<and> r = ?r then (view b ?d ?r AND wm ?d ?r) OR (view b3 ?d ?r AND NOT (wm ?d ?r))
                              else view b3 d r)" "ok b4"
    by (rule write32_view [OF v3(2) assms(2)])
  have a: "m OR (v AND NOT m) = m OR v" "(v AND m) OR ((m OR v) AND NOT m) = v" for m v :: u32
    by (auto intro!: bit_word_eqI simp: bit_simps)
  show ?thesis
  proof (rule that [of b4])
    show "pci_bar_size_helper E dev i (w\<lparr>pci_bus := b\<rparr>) = (wm ?d ?r OR view b ?d ?r, w\<lparr>pci_bus := b4\<rparr>)"
      unfolding pci_bar_size_helper_def Let_def r1 prod.case w2 r3 w4 by (simp add: v2(1) v1(1) a)
    show "view b4 = view b"
      unfolding v4(1) v3(1) v2(1) v1(1) by (auto simp: a fun_eq_iff)
  qed (rule v4)
qed

lemma bar_get:
  assumes "ok b" and "0 \<le> i" and "i < 6"
  obtains b' where "pci_bar_get E dev i (w\<lparr>pci_bus := b\<rparr>) = Ret (view b (bdf dev) (bar_off i), w\<lparr>pci_bus := b'\<rparr>)"
    and "view b' = view b" and "ok b'"
proof -
  have d: "4 dvd unat (bar_off i)"
    using assms by (simp add: bar_off_aligned)
  obtain b' where b: "read32 E (bdf dev) (bar_off i) (w\<lparr>pci_bus := b\<rparr>) = (view b (bdf dev) (bar_off i), w\<lparr>pci_bus := b'\<rparr>)"
    and v: "view b' = view b" "ok b'"
    by (rule read32_view [OF assms(1) d])
  show ?thesis
    by (rule that [OF _ v]) (simp add: pci_bar_get_def ASSERT_BAR_NUM_def assert_that_def PCI_BAR_NUM_def b assms)
qed

lemma bar_is64:
  assumes "ok b" and "0 \<le> i" and "i < 6"
  obtains b' where "pci_bar_is64 E dev i (w\<lparr>pci_bus := b\<rparr>) =
      Ret (view b (bdf dev) (bar_off i) AND 7 = 4, w\<lparr>pci_bus := b'\<rparr>)"
    and "view b' = view b" and "ok b'"
proof -
  obtain b' where b: "pci_bar_get E dev i (w\<lparr>pci_bus := b\<rparr>) = Ret (view b (bdf dev) (bar_off i), w\<lparr>pci_bus := b'\<rparr>)"
    and v: "view b' = view b" "ok b'"
    by (rule bar_get [OF assms])
  have "pci_bar_is64 E dev i (w\<lparr>pci_bus := b\<rparr>) = Ret (view b (bdf dev) (bar_off i) AND 7 = 4, w\<lparr>pci_bus := b'\<rparr>)"
    using and_7_split [of "view b (bdf dev) (bar_off i)"] by (auto simp: pci_bar_is64_def b)
  then show ?thesis
    by (rule that [OF _ v])
qed

lemma bar_size:
  assumes "ok b" and "0 \<le> i" and "i < 6" and "bar_at (view b (bdf dev)) (wm (bdf dev)) i kind"
  obtains b' where "pci_bar_size E dev i (w\<lparr>pci_bus := b\<rparr>) = Ret (bar_bytes kind, w\<lparr>pci_bus := b'\<rparr>)"
    and "view b' = view b" and "ok b'"
proof -
  let ?v = "view b (bdf dev) (bar_off i)" and ?m = "wm (bdf dev) (bar_off i)"
  let ?s = "(?m OR ?v) AND pci_bar_mask ?v"
  have d: "4 dvd unat (bar_off i)"
    using assms by (simp add: bar_off_aligned)
  obtain b1 where h: "pci_bar_size_helper E dev i (w\<lparr>pci_bus := b\<rparr>) = (?m OR ?v, w\<lparr>pci_bus := b1\<rparr>)"
    and v1: "view b1 = view b" "ok b1"
    by (rule size_helper [OF assms(1) d])
  obtain b2 where g: "pci_bar_get E dev i (w\<lparr>pci_bus := b1\<rparr>) = Ret (view b1 (bdf dev) (bar_off i), w\<lparr>pci_bus := b2\<rparr>)"
    and v2: "view b2 = view b1" "ok b2"
    by (rule bar_get [OF v1(2) assms(2,3)])
  obtain b3 where i64: "pci_bar_is64 E dev i (w\<lparr>pci_bus := b2\<rparr>) =
      Ret (view b2 (bdf dev) (bar_off i) AND 7 = 4, w\<lparr>pci_bus := b3\<rparr>)" and v3: "view b3 = view b2" "ok b3"
    by (rule bar_is64 [OF v2(2) assms(2,3)])
  note start = pci_bar_size_def h Let_def prod.case g v1(1) bind_outcome.simps i64 v2(1)
  show ?thesis
  proof (cases "?m OR ?v = 0")
    case True
    then have "kind = BarNone"
      by (rule bar_nonzero [OF assms(4)])
    then show ?thesis
      by (intro that [OF _ v1]) (simp add: start True)
  next
    case nz: False
    show ?thesis
    proof (cases "?v AND 7 = 4")
      case False
      then have "ucast (NOT ?s + 1) = bar_bytes kind"
        using bar_size32 [OF assms(4) nz] by simp
      then show ?thesis
        using v3 v2 v1 by (intro that [of b3]) (simp_all add: start nz False)
    next
      case True
      then have i5: "i < 5"
        using bar_size64 [OF assms(4)] by simp
      then have d1: "4 dvd unat (bar_off (i + 1))"
        using assms by (simp add: bar_off_aligned)
      obtain b4 where h4: "pci_bar_size_helper E dev (i + 1) (w\<lparr>pci_bus := b3\<rparr>) =
          (wm (bdf dev) (bar_off (i + 1)) OR view b3 (bdf dev) (bar_off (i + 1)), w\<lparr>pci_bus := b4\<rparr>)"
        and v4: "view b4 = view b3" "ok b4"
        by (rule size_helper [OF v3(2) d1])
      show ?thesis
        using v4 v3 v2 v1 bar_size64 [OF assms(4) True]
        by (intro that [of b4]) (simp_all add: start nz True h4)
    qed
  qed
qed

end

end
