(* ===== verification/Pci_Bars.thy ===== *)
theory Pci_Bars
  imports Pci
begin

text \<open>
  What \<^verbatim>\<open>lib/pci.c\<close> does on a bus that keeps the contract \<open>config_space\<close>: an address that is programmed
  into a BAR reads back, the capability walk visits the chain of capabilities in order, and a
  device that is searched for is found.
\<close>

section \<open>Programming an address\<close>

text \<open>The address that the register pair of a BAR holds, without the attribute bits.\<close>

definition bar_addr :: "(u8 \<Rightarrow> u32) \<Rightarrow> int \<Rightarrow> u64" where
  "bar_addr v i =
     (let lo = v (bar_off i); a = ucast (lo AND pci_bar_mask lo)
      in if lo AND 7 = 4 then a OR push_bit 32 (ucast (v (bar_off (i + 1)))) else a)"

text \<open>An address that fits a BAR: aligned to the block, and below 4G for a 32-bit register.\<close>

text \<open>A BAR of two registers.\<close>

definition bar_wide :: "bar_kind \<Rightarrow> bool" where
  "bar_wide kind = (case kind of BarMem64 _ _ \<Rightarrow> True | _ \<Rightarrow> False)"

definition bar_fits :: "bar_kind \<Rightarrow> u64 \<Rightarrow> bool" where
  "bar_fits kind a = (case kind of
     BarNone \<Rightarrow> False
   | BarIo k \<Rightarrow> take_bit k a = 0 \<and> a < 2 ^ 32
   | BarMem32 k _ \<Rightarrow> take_bit k a = 0 \<and> a < 2 ^ 32
   | BarMem64 k _ \<Rightarrow> take_bit k a = 0)"

lemma written_bar:
  fixes v m t lo :: u32
  assumes "v AND NOT m = t" and "\<forall>n. bit m n \<longrightarrow> n \<ge> j" and "\<forall>n. bit t n \<longrightarrow> n < j" and "lo AND NOT m = 0"
  shows "((lo AND m) OR (v AND NOT m)) AND NOT (mask j) = lo" and "((lo AND m) OR (v AND NOT m)) AND NOT m = t"
proof -
  have b: "bit t n = (bit v n \<and> \<not> bit m n)" "bit lo n \<Longrightarrow> bit m n" if "n < LENGTH(32)" for n
    using assms(1) that arg_cong [OF assms(4), of "\<lambda>x. bit x n"] by (auto simp: bit_simps)
  show "((lo AND m) OR (v AND NOT m)) AND NOT (mask j) = lo"
  proof (rule bit_word_eqI)
    fix n assume n: "n < LENGTH(32)"
    show "bit (((lo AND m) OR (v AND NOT m)) AND NOT (mask j)) n = bit lo n"
      using b [OF n] n assms(2) [rule_format, of n] assms(3) [rule_format, of n] by (auto simp: bit_simps)
  qed
  show "((lo AND m) OR (v AND NOT m)) AND NOT m = t"
    by (rule bit_word_eqI) (use b in \<open>auto simp: bit_simps\<close>)
qed

lemma written_and_7:
  assumes "\<forall>n. bit m n \<longrightarrow> n \<ge> 4"
  shows "((lo AND m) OR (v AND NOT m)) AND 7 = v AND (7 :: u32)"
proof -
  have "(lo AND m) AND 7 = (0 :: u32)"
  proof (rule bit_word_eqI)
    fix n assume "n < LENGTH(32)"
    moreover have "7 = (mask 3 :: u32)"
      by (simp add: mask_numeral)
    ultimately show "bit ((lo AND m) AND 7) n = bit (0 :: u32) n"
      using assms by (auto simp only: bit_and_iff bit_mask_iff bit_0_eq bot_apply bot_bool_def)
  qed
  then show ?thesis
    using and_7_low [OF assms, of v] by (simp add: bit.conj_disj_distrib2)
qed

definition bar_write :: "(u8 \<Rightarrow> u32) \<Rightarrow> (u8 \<Rightarrow> u32) \<Rightarrow> u8 \<Rightarrow> u32 \<Rightarrow> u8 \<Rightarrow> u32" where
  "bar_write v m r x = v(r := (x AND m r) OR (v r AND NOT (m r)))"

lemma bar_off_next: "bar_off (i + 1) = bar_off i + 4" "bar_off (i + 1) \<noteq> bar_off i"
proof -
  show e: "bar_off (i + 1) = bar_off i + 4"
    by (simp add: bar_off_def algebra_simps)
  have "(4 :: u8) \<noteq> 0"
    by (simp add: word_unat_eq_iff)
  then show "bar_off (i + 1) \<noteq> bar_off i"
    by (simp add: e)
qed

lemma low_bits_clear:
  assumes "take_bit k (a :: u64) = 0"
  shows "k < 32 \<Longrightarrow> (ucast a :: u32) AND NOT (NOT (mask k)) = 0"
    and "(ucast a :: u32) AND NOT (ucast (NOT (mask k) :: u64)) = 0"
    and "(ucast (drop_bit 32 a) :: u32) AND NOT (ucast (drop_bit 32 (NOT (mask k) :: u64))) = 0"
proof -
  have b: "bit a n \<Longrightarrow> \<not> n < k" for n
    using arg_cong [OF assms, of "\<lambda>x. bit x n"] by (simp add: bit_simps)
  show "k < 32 \<Longrightarrow> (ucast a :: u32) AND NOT (NOT (mask k)) = 0"
    by (rule bit_word_eqI) (use b in \<open>auto simp: bit_simps\<close>)
  show "(ucast a :: u32) AND NOT (ucast (NOT (mask k) :: u64)) = 0"
    by (rule bit_word_eqI) (use b in \<open>auto simp: bit_simps\<close>)
  show "(ucast (drop_bit 32 a) :: u32) AND NOT (ucast (drop_bit 32 (NOT (mask k) :: u64))) = 0"
    by (rule bit_word_eqI) (use b in \<open>auto simp: bit_simps\<close>)
qed

lemma u64_below_4G:
  assumes "(a :: u64) < 2 ^ 32"
  shows "ucast (ucast a :: u32) = a" and "drop_bit 32 a = 0"
proof -
  have "unat (take_bit 32 a) = unat a"
    using assms unfolding unsigned_take_bit_eq by (simp add: take_bit_nat_eq_self word_less_nat_alt)
  then have t: "take_bit 32 a = a"
    by (simp add: word_unat_eq_iff)
  have "ucast (ucast a :: u32) = take_bit 32 a"
    by (rule bit_word_eqI) (auto simp: bit_simps)
  then show "ucast (ucast a :: u32) = a"
    by (simp add: t)
  have "drop_bit 32 (take_bit 32 a) = 0"
    by (rule bit_word_eqI) (auto simp: bit_simps)
  then show "drop_bit 32 a = 0"
    by (simp add: t)
qed

lemma bar_kinds32:
  assumes "bar_at v m i kind" and "bar_fits kind a" and "v (bar_off i) AND 7 \<noteq> 4"
  obtains (io) k where "kind = BarIo k" and "2 \<le> k" and "k < 32" | (mem) k t where "kind = BarMem32 k t" and "4 \<le> k" and "k < 32"
proof (cases kind)
  case (BarMem64 k t)
  then show ?thesis
    using assms and_7_low [OF high_mask(2), of k "v (bar_off i)"] by auto
qed (use assms in \<open>auto simp: bar_fits_def\<close>)

lemma bar_fits32:
  assumes "bar_at v m i kind" and "bar_fits kind a" and "v (bar_off i) AND 7 \<noteq> 4"
  shows "drop_bit 32 a = 0" and "ucast (ucast a :: u32) = a"
proof -
  have "a < 2 ^ 32"
    by (rule bar_kinds32 [OF assms]) (use assms(2) in \<open>auto simp: bar_fits_def\<close>)
  then show "drop_bit 32 a = 0" and "ucast (ucast a :: u32) = a"
    by (rule u64_below_4G)+
qed

lemma bar_written32:
  assumes "bar_at v m i kind" and "bar_fits kind a" and "v (bar_off i) AND 7 \<noteq> 4"
  shows "bar_at (bar_write v m (bar_off i) (ucast a)) m i kind"
    and "bar_addr (bar_write v m (bar_off i) (ucast a)) i = a"
    and "bar_write v m (bar_off i) (ucast a) (bar_off i) AND 7 \<noteq> 4"
proof -
  let ?x = "bar_write v m (bar_off i) (ucast a) (bar_off i)"
  have "bar_at (bar_write v m (bar_off i) (ucast a)) m i kind \<and> ?x AND 7 \<noteq> 4 \<and> ?x AND pci_bar_mask ?x = ucast a"
  proof (rule bar_kinds32 [OF assms], goal_cases io mem)
    case (io k)
    have m: "m (bar_off i) = NOT (mask k)" "v (bar_off i) AND NOT (m (bar_off i)) = 1"
      using assms(1) io by auto
    have lo: "(ucast a :: u32) AND NOT (m (bar_off i)) = 0"
      using low_bits_clear(1) [of k a] io assms(2) by (simp add: bar_fits_def m(1) del: bit.double_compl)
    have W: "?x AND NOT (mask 2) = ucast a" "?x AND mask k = 1"
      using written_bar [OF m(2) high_mask(1) [OF io(2), folded m(1)] _ lo] m(1)
      by (simp_all add: bar_write_def bit_1_iff)
    then have "odd (?x AND mask k)"
      by simp
    then have "odd ?x"
      by (simp add: even_and_iff)
    then show ?thesis
      using W io m(1) and_7_odd [of ?x] by (auto simp: pci_bar_mask_iff)
  next
    case (mem k t)
    have m: "m (bar_off i) = NOT (mask k)" "v (bar_off i) AND NOT (m (bar_off i)) = t" "t < 16" "even t"
      using assms(1) mem by auto
    have lo: "(ucast a :: u32) AND NOT (m (bar_off i)) = 0"
      using low_bits_clear(1) [of k a] mem assms(2) by (simp add: bar_fits_def m(1) del: bit.double_compl)
    have W: "?x AND NOT (mask 4) = ucast a" "?x AND mask k = t"
      using written_bar [OF m(2) high_mask(1) [OF mem(2), folded m(1)] _ lo] m(1,3) bit_u32_small
      by (simp_all add: bar_write_def)
    have "even (?x AND mask k)"
      using W m(4) by simp
    then have "even ?x"
      using mem(2) by (auto simp: even_and_iff even_mask_iff)
    moreover have "?x AND 7 \<noteq> 4"
      using written_and_7 [OF high_mask(1) [OF mem(2), folded m(1)]] assms(3) by (simp add: bar_write_def)
    ultimately show ?thesis
      using W mem m(1) assms(1) by (auto simp: pci_bar_mask_iff)
  qed
  then show "bar_at (bar_write v m (bar_off i) (ucast a)) m i kind"
    and "?x AND 7 \<noteq> 4" and "bar_addr (bar_write v m (bar_off i) (ucast a)) i = a"
    using bar_fits32(2) [OF assms] by (auto simp: bar_addr_def Let_def)
qed

lemma bar_written64:
  assumes "bar_at v m i kind" and "bar_fits kind a" and "v (bar_off i) AND 7 = 4"
  defines "v' \<equiv> bar_write (bar_write v m (bar_off i) (ucast a)) m (bar_off (i + 1)) (ucast (drop_bit 32 a))"
  shows "bar_at v' m i kind" and "bar_addr v' i = a"
    and "bar_write v m (bar_off i) (ucast a) (bar_off i) AND 7 = 4"
proof -
  let ?x = "bar_write v m (bar_off i) (ucast a) (bar_off i)"
  obtain k t where kind: "kind = BarMem64 k t"
    using bar_size64_kind [OF assms(1,3)] by blast
  let ?X = "NOT (mask k) :: u64"
  have k: "4 \<le> k" "k < 64" "t < 16" "m (bar_off i) = ucast ?X" "v (bar_off i) AND NOT (m (bar_off i)) = t"
    "m (bar_off (i + 1)) = ucast (drop_bit 32 ?X)" "v (bar_off (i + 1)) AND NOT (m (bar_off (i + 1))) = 0"
    using assms(1) kind by auto
  have c: "take_bit k a = 0"
    using assms(2) kind by (simp add: bar_fits_def)
  have L: "?x AND NOT (mask 4) = ucast a" "?x AND NOT (m (bar_off i)) = t"
    using written_bar [OF k(5) high_mask(2) [OF k(1), folded k(4)] _ low_bits_clear(2) [OF c, folded k(4)]] k(3) bit_u32_small
    by (simp_all add: bar_write_def)
  show x7: "?x AND 7 = 4"
    using written_and_7 [OF high_mask(2) [OF k(1), folded k(4)]] assms(3) by (simp add: bar_write_def)
  have H: "v' (bar_off (i + 1)) = ucast (drop_bit 32 a)"
    using written_bar(1) [OF k(7), of 0, OF _ _ low_bits_clear(3) [OF c, folded k(6)]] bar_off_next(2)
    by (simp add: v'_def bar_write_def)
  have x: "v' (bar_off i) = ?x"
    using bar_off_next(2) [of i] by (simp add: v'_def bar_write_def)
  show "bar_at v' m i kind"
    using assms(1) kind H x L(2) low_bits_clear(3) [OF c] by auto
  have "ucast (ucast a :: u32) OR push_bit 32 (ucast (ucast (drop_bit 32 a) :: u32)) = a"
    by (rule bit_word_eqI) (auto simp: bit_simps)
  then show "bar_addr v' i = a"
    using H x x7 L(1) and_7_odd [OF x7] by (simp add: bar_addr_def Let_def pci_bar_mask_iff)
qed

lemma bar_at_is64: "bar_at v m i kind \<Longrightarrow> v (bar_off i) AND 7 = 4 \<longleftrightarrow> (\<exists>k t. kind = BarMem64 k t)"
  using bar_size64_kind [of v m i kind] and_7_low [OF high_mask(2), of _ "v (bar_off i)"] by auto

lemma bar_at_wide: "bar_at v m i kind \<Longrightarrow> bar_wide kind \<longleftrightarrow> v (bar_off i) AND 7 = 4"
  using bar_at_is64 [of v m i kind] by (auto simp: bar_wide_def split: bar_kind.splits)

context config_space
begin

lemma write_bar:
  assumes "ok b" and "4 dvd unat r"
  obtains b' where "write32 E dev r v (w\<lparr>pci_bus := b\<rparr>) = w\<lparr>pci_bus := b'\<rparr>"
    and "view b' = (view b)(dev := bar_write (view b dev) (wm dev) r v)" and "ok b'"
proof -
  obtain b' where w: "write32 E dev r v (w\<lparr>pci_bus := b\<rparr>) = w\<lparr>pci_bus := b'\<rparr>"
    and v: "view b' = (\<lambda>d s. if d = dev \<and> s = r then (v AND wm dev r) OR (view b dev r AND NOT (wm dev r)) else view b d s)" "ok b'"
    by (rule write32_view [OF assms])
  show ?thesis
    by (rule that [OF w _ v(2)]) (auto simp: v(1) bar_write_def fun_eq_iff)
qed

lemma bar_read_addr:
  assumes "ok b" and "0 \<le> i" and "i < 6" and "view b (bdf dev) (bar_off i) AND 7 = 4 \<longrightarrow> i < 5"
    and "\<forall>b. cfg_translate E b (bdf dev) (bar_addr (view b0 (bdf dev)) i) = a" and "a \<noteq> INVALID_PHYS_ADDR"
    and "view b0 = view b"
  obtains b' where "pci_bar_read_addr E dev i (w\<lparr>pci_bus := b\<rparr>) = Ret (a, w\<lparr>pci_bus := b'\<rparr>)"
    and "view b' = view b" and "ok b'"
proof -
  let ?v = "view b (bdf dev) (bar_off i)"
  obtain b1 where g: "pci_bar_get E dev i (w\<lparr>pci_bus := b\<rparr>) = Ret (?v, w\<lparr>pci_bus := b1\<rparr>)"
    and v1: "view b1 = view b" "ok b1"
    by (rule bar_get [OF assms(1-3)])
  obtain b2 where i64: "pci_bar_is64 E dev i (w\<lparr>pci_bus := b1\<rparr>) = Ret (view b1 (bdf dev) (bar_off i) AND 7 = 4, w\<lparr>pci_bus := b2\<rparr>)"
    and v2: "view b2 = view b1" "ok b2"
    by (rule bar_is64 [OF v1(2) assms(2,3)])
  note start = pci_bar_read_addr_def g bind_outcome.simps Let_def prod.case i64 v1(1)
  show ?thesis
  proof (cases "?v AND 7 = 4")
    case True
    then have i5: "0 \<le> i + 1" "i + 1 < 6"
      using assms by auto
    obtain b3 where h: "pci_bar_get E dev (i + 1) (w\<lparr>pci_bus := b2\<rparr>) =
        Ret (view b2 (bdf dev) (bar_off (i + 1)), w\<lparr>pci_bus := b3\<rparr>)" and v3: "view b3 = view b2" "ok b3"
      by (rule bar_get [OF v2(2) i5])
    show ?thesis
      by (rule that [of b3])
        (use True v3 v2 v1 assms(5-7) in \<open>simp_all add: start h bar_addr_def Let_def\<close>)
  next
    case False
    show ?thesis
      by (rule that [of b2])
        (use False v2 v1 assms(5-7) in \<open>simp_all add: start bar_addr_def Let_def\<close>)
  qed
qed

lemma bar_set_addr:
  assumes "ok b" and "0 \<le> i" and "i < 6" and "bar_at (view b (bdf dev)) (wm (bdf dev)) i kind"
    and "bar_fits kind a" and "a \<noteq> INVALID_PHYS_ADDR" and "length (resource dev) = 6"
    and "resource dev ! nat i \<noteq> INVALID_PHYS_ADDR"
  obtains dev' b' where "pci_bar_set_addr E dev i a (w\<lparr>pci_bus := b\<rparr>) = Ret (dev', w\<lparr>pci_bus := b'\<rparr>)"
    and "bar_at (view b' (bdf dev)) (wm (bdf dev)) i kind" and "bar_addr (view b' (bdf dev)) i = a" and "ok b'"
    and "\<forall>d. d \<noteq> bdf dev \<longrightarrow> view b' d = view b d"
    and "\<forall>r. r \<noteq> bar_off i \<and> (r \<noteq> bar_off (i + 1) \<or> \<not> bar_wide kind) \<longrightarrow> view b' (bdf dev) r = view b (bdf dev) r"
    and "bdf dev' = bdf dev" and "resource dev' = (if bar_wide kind then (resource dev)[nat i := a, nat (i + 1) := a] else (resource dev)[nat i := a])"
proof -
  let ?d = "bdf dev" and ?r = "bar_off i"
  let ?dev = "set_resource i a dev"
  have d: "4 dvd unat ?r"
    using assms by (simp add: bar_off_aligned)
  obtain b1 where i1: "pci_bar_is64 E dev i (w\<lparr>pci_bus := b\<rparr>) = Ret (view b ?d ?r AND 7 = 4, w\<lparr>pci_bus := b1\<rparr>)"
    and v1: "view b1 = view b" "ok b1"
    by (rule bar_is64 [OF assms(1-3)])
  obtain b2 where w2: "write32 E ?d ?r (ucast a) (w\<lparr>pci_bus := b1\<rparr>) = w\<lparr>pci_bus := b2\<rparr>"
    and v2: "view b2 = (view b1)(?d := bar_write (view b1 ?d) (wm ?d) ?r (ucast a))" "ok b2"
    by (rule write_bar [OF v1(2) d])
  obtain b3 where i3: "pci_bar_is64 E ?dev i (w\<lparr>pci_bus := b2\<rparr>) = Ret (view b2 (bdf ?dev) ?r AND 7 = 4, w\<lparr>pci_bus := b3\<rparr>)"
    and v3: "view b3 = view b2" "ok b3"
    by (rule bar_is64 [OF v2(2) assms(2,3)])
  have r: "get_resource dev i = Ret (resource dev ! nat i)" "get_resource ?dev i = Ret a" "bdf ?dev = ?d"
    using assms by (simp_all add: get_resource_def set_resource_def)
  note start = pci_bar_set_addr_def Let_def r bind_outcome.simps assert_that_def ASSERT_BAR_NUM_def PCI_BAR_NUM_def
    i1 w2 i3 prod.case
  show ?thesis
  proof (cases "view b ?d ?r AND 7 = 4")
    case True
    note W = bar_written64 [OF assms(4,5) True]
    have wide: "bar_wide kind"
      using bar_at_wide [OF assms(4)] True by simp
    have i5: "i < 5"
      using bar_size64(1) [OF assms(4) True] .
    have d': "4 dvd unat (bar_off (i + 1))"
      using assms i5 by (simp add: bar_off_aligned)
    obtain b4 where w4: "write32 E ?d (bar_off (i + 1)) (ucast (drop_bit 32 a)) (w\<lparr>pci_bus := b3\<rparr>) = w\<lparr>pci_bus := b4\<rparr>"
      and v4: "view b4 = (view b3)(?d := bar_write (view b3 ?d) (wm ?d) (bar_off (i + 1)) (ucast (drop_bit 32 a)))" "ok b4"
      by (rule write_bar [OF v3(2) d'])
    show ?thesis
    proof (rule that [of "set_resource (i + 1) a ?dev" b4])
      show "pci_bar_set_addr E dev i a (w\<lparr>pci_bus := b\<rparr>) = Ret (set_resource (i + 1) a ?dev, w\<lparr>pci_bus := b4\<rparr>)"
        using True i5 assms W(3) v1(1) v2(1) by (simp add: start w4 [unfolded bar_off_next])
    qed (use assms i5 W v4 v3(1) v2(1) v1(1) wide in \<open>auto simp: set_resource_def bar_write_def\<close>)
  next
    case False
    note W = bar_written32 [OF assms(4,5) False]
    have narrow: "\<not> bar_wide kind"
      using bar_at_wide [OF assms(4)] False by simp
    have a: "drop_bit 32 a = 0"
      using bar_fits32(1) [OF assms(4,5) False] .
    show ?thesis
    proof (rule that [of ?dev b3])
      show "pci_bar_set_addr E dev i a (w\<lparr>pci_bus := b\<rparr>) = Ret (?dev, w\<lparr>pci_bus := b3\<rparr>)"
        using False assms W(3) v1(1) v2(1) a by (simp add: start)
    qed (use assms W v3 v2(1) v1(1) narrow in \<open>auto simp: set_resource_def bar_write_def\<close>)
  qed
qed

end

section \<open>The chain of capabilities\<close>

definition cfg_byte :: "(u8 \<Rightarrow> u32) \<Rightarrow> u8 \<Rightarrow> u8" where
  "cfg_byte v reg = ucast (drop_bit (8 * (unat reg mod 4)) (v (reg AND NOT 3)))"

definition cfg_half :: "(u8 \<Rightarrow> u32) \<Rightarrow> u8 \<Rightarrow> u16" where
  "cfg_half v reg = ucast (drop_bit (8 * (unat reg mod 4)) (v (reg AND NOT 3)))"

text \<open>
  \<open>cap_chain v c cs\<close>: the capabilities linked from offset \<open>c\<close> are at the offsets \<open>cs\<close>. Each lies behind the
  header, on a 4-byte boundary, and has a known identifier.
\<close>

fun cap_chain :: "(u8 \<Rightarrow> u32) \<Rightarrow> u8 \<Rightarrow> u8 list \<Rightarrow> bool" where
  "cap_chain v c [] \<longleftrightarrow> c = 0"
| "cap_chain v c (d # cs) \<longleftrightarrow>
     c = d \<and> 0x40 \<le> d \<and> 4 dvd unat d \<and> cfg_byte v d \<le> PCI_CAP_ID_MAX \<and> cap_chain v (cfg_byte v (d + 1)) cs"

text \<open>What \<open>pci_cap_setup\<close> makes of the capability at \<open>c\<close>.\<close>

definition cap_noted :: "(u8 \<Rightarrow> u32) \<Rightarrow> u8 \<Rightarrow> pci_dev \<Rightarrow> pci_dev" where
  "cap_noted v c dev = (if cfg_byte v c = PCI_CAP_ID_MSI then dev\<lparr>msi_offset := ucast c\<rparr> else dev)"

lemma cap_noted_bdf [simp]: "bdf (cap_noted v c dev) = bdf dev"
  by (simp add: cap_noted_def)

lemma bdf_fold_cap_noted [simp]: "bdf (fold (cap_noted v) cs dev) = bdf dev"
  by (induction cs arbitrary: dev) simp_all

text \<open>The offset after \<open>k\<close> links.\<close>

definition cap_at :: "(u8 \<Rightarrow> u32) \<Rightarrow> u8 \<Rightarrow> nat \<Rightarrow> u8" where
  "cap_at v c k = ((\<lambda>c. cfg_byte v (c + 1)) ^^ k) c"

lemma cap_at_simps: "cap_at v c 0 = c" "cap_at v c (Suc k) = cap_at v (cfg_byte v (c + 1)) k"
  by (simp_all add: cap_at_def funpow_Suc_right del: funpow.simps(2))

lemma unat_dword: "unat (x AND NOT 3 :: u8) = unat x div 4 * 4"
proof -
  have "2 \<le> n \<Longrightarrow> Suc (Suc (n - 2)) = n" for n :: nat
    by simp
  then have "x AND NOT (mask 2) = push_bit 2 (drop_bit 2 x)"
    by (intro bit_word_eqI) (auto simp: bit_simps)
  then have x: "x AND NOT 3 = drop_bit 2 x * 4"
    by (simp add: mask_numeral push_bit_eq_mult mult.commute)
  have d: "unat (drop_bit 2 x) = unat x div 4"
    by (simp add: drop_bit_eq_div unat_div)
  have "unat x < 256"
    using unsigned_less [of x] by simp
  then show ?thesis
    unfolding x by (subst unat_mult_lem [THEN iffD1]) (simp_all only: d, simp_all)
qed

lemma dword_of:
  assumes "4 dvd unat (c :: u8)"
  shows "c AND NOT 3 = c" and "(c + 1) AND NOT 3 = c"
proof -
  obtain q where q: "unat c = 4 * q"
    using assms by blast
  have "unat c < 256"
    using unsigned_less [of c] by simp
  then have "unat c + unat (1 :: u8) < 256"
    using q by simp
  then have "unat (c + 1) = unat c + unat (1 :: u8)"
    by (intro unat_add_lem [THEN iffD1]) simp
  then have n: "unat (c + 1) div 4 = q" "unat c div 4 = q"
    using q by simp_all
  show "c AND NOT 3 = c" and "(c + 1) AND NOT 3 = c"
    unfolding word_unat_eq_iff unat_dword n by (simp_all add: q)
qed

lemma cfg_byte_same:
  assumes "\<forall>r. r \<noteq> 4 \<longrightarrow> v' r = v r" and "0x40 \<le> c \<or> c = 0x34" and "4 dvd unat c"
  shows "cfg_byte v' c = cfg_byte v c" and "cfg_byte v' (c + 1) = cfg_byte v (c + 1)"
proof -
  have "c \<noteq> 4"
    using assms(2) by (auto simp: word_le_nat_alt)
  then have "v' c = v c"
    using assms(1) by simp
  then show "cfg_byte v' c = cfg_byte v c" and "cfg_byte v' (c + 1) = cfg_byte v (c + 1)"
    unfolding cfg_byte_def dword_of [OF assms(3)] by simp_all
qed

lemma cap_chain_same:
  assumes "\<forall>r. r \<noteq> 4 \<longrightarrow> v' r = v r" and "cap_chain v (cfg_byte v 0x34) cs"
  shows "cap_chain v' (cfg_byte v' 0x34) cs" and "fold (cap_noted v') cs dev = fold (cap_noted v) cs dev"
proof -
  note same = cfg_byte_same [OF assms(1)]
  have "cap_chain v' c ds \<and> fold (cap_noted v') ds dev = fold (cap_noted v) ds dev" if "cap_chain v c ds" for c ds
    using that by (induction ds arbitrary: c dev) (auto simp: same cap_noted_def)
  then show "cap_chain v' (cfg_byte v' 0x34) cs" and "fold (cap_noted v') cs dev = fold (cap_noted v) cs dev"
    using assms(2) same(1) [of "0x34"] by auto
qed

context config_space
begin

lemma cap_loop_chain:
  assumes "ok b" and "cap_chain (view b (bdf dev)) c cs" and "length cs + n \<le> 255"
  obtains b' where "pci_cap_loop E pci_cap_setup dev c n (w\<lparr>pci_bus := b\<rparr>) =
      Ret (fold (cap_noted (view b (bdf dev))) cs dev, w\<lparr>pci_bus := b'\<rparr>)"
    and "view b' = view b" and "ok b'"
  using assms
proof (induction cs arbitrary: b dev c n thesis)
  case Nil
  show ?case
    by (rule Nil(1) [of b]) (use Nil in \<open>simp_all add: pci_cap_loop.simps\<close>)
next
  case (Cons d cs)
  let ?v = "view b (bdf dev)"
  have c: "c = d" "d \<noteq> 0" "cfg_byte ?v d \<le> PCI_CAP_ID_MAX" "cap_chain ?v (cfg_byte ?v (d + 1)) cs"
    using Cons.prems(3) by auto
  obtain b1 where r1: "read8 E (bdf dev) d (w\<lparr>pci_bus := b\<rparr>) = (cfg_byte ?v d, w\<lparr>pci_bus := b1\<rparr>)"
    and v1: "view b1 = view b" "ok b1"
    unfolding cfg_byte_def by (rule read8_view [OF Cons.prems(2)])
  obtain b2 where r2: "read8 E (bdf dev) (d + 1) (w\<lparr>pci_bus := b1\<rparr>) = (cfg_byte (view b1 (bdf dev)) (d + 1), w\<lparr>pci_bus := b2\<rparr>)"
    and v2: "view b2 = view b1" "ok b2"
    unfolding cfg_byte_def by (rule read8_view [OF v1(2)])
  let ?dev = "cap_noted ?v d dev"
  have ch: "cap_chain (view b2 (bdf ?dev)) (cfg_byte ?v (d + 1)) cs" "length cs + (n + 1) \<le> 255"
    using c(4) v1 v2 Cons.prems(4) by simp_all
  obtain b3 where l: "pci_cap_loop E pci_cap_setup ?dev (cfg_byte ?v (d + 1)) (n + 1) (w\<lparr>pci_bus := b2\<rparr>) =
      Ret (fold (cap_noted (view b2 (bdf ?dev))) cs ?dev, w\<lparr>pci_bus := b3\<rparr>)"
    and v3: "view b3 = view b2" "ok b3"
    by (rule Cons.IH [OF _ v2(2) ch])
  have lt: "cfg_byte ?v d < PCI_CAP_ID_MAX + 1"
    using c(3) by (simp add: PCI_CAP_ID_MAX_def word_less_nat_alt word_le_nat_alt)
  have h: "pci_cap_setup dev d (cfg_byte ?v d) x = Ret (?dev, x)" for x :: "'a pci_world"
    by (simp add: pci_cap_setup_def cap_noted_def)
  have "pci_cap_loop E pci_cap_setup dev c n (w\<lparr>pci_bus := b\<rparr>) =
      Ret (fold (cap_noted ?v) (d # cs) dev, w\<lparr>pci_bus := b3\<rparr>)"
    using l c(1,2) lt r2 v2 v1 Cons.prems(4)
    by (subst pci_cap_loop.simps) (simp add: r1 h Let_def)
  then show ?case
    by (rule Cons.prems(1)) (simp_all add: v3 v2 v1)
qed

text \<open>A chain that does not end within 255 capabilities stops the machine.\<close>

lemma cap_loop_endless:
  assumes "ok b" and "n \<le> 255"
    and "\<forall>k. cap_at (view b (bdf dev)) c k \<noteq> 0 \<and> cfg_byte (view b (bdf dev)) (cap_at (view b (bdf dev)) c k) \<le> PCI_CAP_ID_MAX"
  shows "pci_cap_loop E pci_cap_setup dev c n (w\<lparr>pci_bus := b\<rparr>) = Abort ''++count <= 255''"
  using assms
proof (induction "255 - n" arbitrary: b dev c n rule: less_induct)
  case less
  let ?v = "view b (bdf dev)"
  obtain b1 where r1: "read8 E (bdf dev) c (w\<lparr>pci_bus := b\<rparr>) = (cfg_byte ?v c, w\<lparr>pci_bus := b1\<rparr>)"
    and v1: "view b1 = view b" "ok b1"
    unfolding cfg_byte_def by (rule read8_view [OF less.prems(1)])
  obtain b2 where r2: "read8 E (bdf dev) (c + 1) (w\<lparr>pci_bus := b1\<rparr>) = (cfg_byte (view b1 (bdf dev)) (c + 1), w\<lparr>pci_bus := b2\<rparr>)"
    and v2: "view b2 = view b1" "ok b2"
    unfolding cfg_byte_def by (rule read8_view [OF v1(2)])
  let ?dev = "cap_noted ?v c dev"
  have c0: "c \<noteq> 0" "cfg_byte ?v c < PCI_CAP_ID_MAX + 1"
    using less.prems(3) [rule_format, of 0]
    by (simp_all add: cap_at_simps PCI_CAP_ID_MAX_def word_less_nat_alt word_le_nat_alt)
  have h: "pci_cap_setup dev c (cfg_byte ?v c) x = Ret (?dev, x)" for x :: "'a pci_world"
    by (simp add: pci_cap_setup_def cap_noted_def)
  have nx: "\<forall>k. cap_at (view b2 (bdf ?dev)) (cfg_byte ?v (c + 1)) k \<noteq> 0
      \<and> cfg_byte (view b2 (bdf ?dev)) (cap_at (view b2 (bdf ?dev)) (cfg_byte ?v (c + 1)) k) \<le> PCI_CAP_ID_MAX"
    using less.prems(3) v1(1) v2(1) by (simp flip: cap_at_simps(2))
  show ?case
  proof (cases "n + 1 \<le> 255")
    case True
    then have "pci_cap_loop E pci_cap_setup ?dev (cfg_byte ?v (c + 1)) (n + 1) (w\<lparr>pci_bus := b2\<rparr>) = Abort ''++count <= 255''"
      by (intro less.hyps [OF _ v2(2) _ nx]) auto
    then show ?thesis
      using c0 True v1 by (subst pci_cap_loop.simps) (simp add: r1 r2 h Let_def)
  next
    case False
    then show ?thesis
      using c0 by (subst pci_cap_loop.simps) (simp add: r1 r2 h Let_def)
  qed
qed

text \<open>The command register gets the bus master bit, as far as it is writable.\<close>

lemma cmd_master:
  assumes "ok b"
  obtains b' where "pci_cmd_set_clr E dev 4 0 (w\<lparr>pci_bus := b\<rparr>) = Ret (w\<lparr>pci_bus := b'\<rparr>)"
    and "\<forall>d r. d \<noteq> bdf dev \<or> r \<noteq> 4 \<longrightarrow> view b' d r = view b d r"
    and "bit (wm (bdf dev) 4) 2 \<longrightarrow> bit (view b' (bdf dev) 4) 2" and "ok b'"
proof -
  have d: "2 dvd unat (4 :: u8)" "4 dvd unat (4 :: u8)"
    by simp_all
  obtain b1 where r1: "read16 E (bdf dev) 4 (w\<lparr>pci_bus := b\<rparr>) =
      (ucast (drop_bit (8 * (unat (4 :: u8) mod 4)) (view b (bdf dev) (4 AND NOT 3))), w\<lparr>pci_bus := b1\<rparr>)"
    and v1: "view b1 = view b" "ok b1"
    by (rule read16_view [OF assms d(1)])
  let ?h = "ucast (view b (bdf dev) 4) OR 4 :: u16"
  have x: "drop_bit (8 * (unat (4 :: u8) mod 4)) (view b (bdf dev) (4 AND NOT 3)) = view b (bdf dev) 4"
    by simp
  note v2 = writew [OF v1(2) d(2), of "bdf dev" ?h]
  have b4: "bit (4 :: u16) n = (n = 2)" for n
    using bit_exp_iff [where 'a = "16 word", of 2 n] by auto
  show ?thesis
    by (rule that [of "cfg_writew E b1 (bdf dev) 4 ?h"])
      (use v2 v1 in \<open>simp_all add: pci_cmd_set_clr_def r1 [unfolded x] Let_def write16_def bit_simps b4\<close>)
qed

lemma enable_defaults:
  assumes "ok b" and "cap_chain (view b (bdf dev)) (cfg_byte (view b (bdf dev)) 0x34) cs" and "length cs \<le> 255"
  obtains b' where "pci_enable_defaults E dev (w\<lparr>pci_bus := b\<rparr>) =
      Ret (fold (cap_noted (view b (bdf dev))) cs dev, w\<lparr>pci_bus := b'\<rparr>)"
    and "\<forall>d r. d \<noteq> bdf dev \<or> r \<noteq> 4 \<longrightarrow> view b' d r = view b d r"
    and "bit (wm (bdf dev) 4) 2 \<longrightarrow> bit (view b' (bdf dev) 4) 2" and "ok b'"
proof -
  obtain b1 where c: "pci_cmd_set_clr E dev 4 0 (w\<lparr>pci_bus := b\<rparr>) = Ret (w\<lparr>pci_bus := b1\<rparr>)"
    and k1: "\<forall>d r. d \<noteq> bdf dev \<or> r \<noteq> 4 \<longrightarrow> view b1 d r = view b d r"
      "bit (wm (bdf dev) 4) 2 \<longrightarrow> bit (view b1 (bdf dev) 4) 2" "ok b1"
    by (rule cmd_master [OF assms(1)])
  obtain b2 where r: "read8 E (bdf dev) 0x34 (w\<lparr>pci_bus := b1\<rparr>) = (cfg_byte (view b1 (bdf dev)) 0x34, w\<lparr>pci_bus := b2\<rparr>)"
    and k2: "view b2 = view b1" "ok b2"
    unfolding cfg_byte_def by (rule read8_view [OF k1(3)])
  have same: "\<forall>r. r \<noteq> 4 \<longrightarrow> view b1 (bdf dev) r = view b (bdf dev) r"
    using k1(1) by simp
  note C = cap_chain_same [OF same assms(2)]
  have ch: "cap_chain (view b2 (bdf dev)) (cfg_byte (view b1 (bdf dev)) 0x34) cs" "length cs + 0 \<le> 255"
    using C(1) assms(3) k2 by simp_all
  obtain b3 where l: "pci_cap_loop E pci_cap_setup dev (cfg_byte (view b1 (bdf dev)) 0x34) 0 (w\<lparr>pci_bus := b2\<rparr>) =
      Ret (fold (cap_noted (view b2 (bdf dev))) cs dev, w\<lparr>pci_bus := b3\<rparr>)" and k3: "view b3 = view b2" "ok b3"
    by (rule cap_loop_chain [OF k2(2) ch])
  show ?thesis
    by (rule that [of b3])
      (use k1 k2 k3 l C(2) in \<open>simp_all add: pci_enable_defaults_def c pci_cap_walk_def r Let_def\<close>)
qed

end

section \<open>Finding and initialising a device\<close>

text \<open>
  The registers a device's BARs start at: \<open>bar_next K\<close> steps over the second register of a 64-bit BAR.
\<close>

definition bar_next :: "(int \<Rightarrow> bar_kind) \<Rightarrow> int \<Rightarrow> int" where
  "bar_next K i = (case K i of BarMem64 _ _ \<Rightarrow> i + 2 | _ \<Rightarrow> i + 1)"

definition bar_reach :: "(int \<Rightarrow> bar_kind) \<Rightarrow> int \<Rightarrow> int \<Rightarrow> bool" where
  "bar_reach K = (\<lambda>i j. i < 6 \<and> j = bar_next K i)\<^sup>*\<^sup>*"

lemma bar_reach_step: "bar_reach K i j \<Longrightarrow> j = i \<or> i < 6 \<and> bar_reach K (bar_next K i) j"
  unfolding bar_reach_def by (erule converse_rtranclpE) auto

lemma bar_reach_trans: "i < 6 \<Longrightarrow> bar_reach K (bar_next K i) j \<Longrightarrow> bar_reach K i j"
  unfolding bar_reach_def by (rule converse_rtranclp_into_rtranclp) auto

lemma bar_reach_refl [simp]: "bar_reach K i i"
  by (simp add: bar_reach_def)

text \<open>The resources that match the BARs \<open>K\<close> of a device whose addresses the bus translates to \<open>A\<close>.\<close>

definition resources_match :: "(int \<Rightarrow> bar_kind) \<Rightarrow> (int \<Rightarrow> u64) \<Rightarrow> int \<Rightarrow> u64 list \<Rightarrow> bool" where
  "resources_match K A i rs \<longleftrightarrow>
     (\<forall>j. bar_reach K i j \<and> j < 6 \<longrightarrow>
        rs ! nat j = (if K j = BarNone then INVALID_PHYS_ADDR else A j)
        \<and> (bar_next K j = j + 2 \<longrightarrow> rs ! nat (j + 1) = A j))"

lemma resources_match_step:
  assumes "resources_match K A (bar_next K i) rs" and "rs ! nat i = (if K i = BarNone then INVALID_PHYS_ADDR else A i)"
    and "bar_next K i = i + 2 \<longrightarrow> rs ! nat (i + 1) = A i"
  shows "resources_match K A i rs"
  using assms bar_reach_step [of K i] unfolding resources_match_def by blast

lemma resources_match_end: "\<not> i < 6 \<Longrightarrow> resources_match K A i rs"
  using bar_reach_step [of K i] unfolding resources_match_def by blast

definition bars_ok ::
    "'b pci_env \<Rightarrow> u16 \<Rightarrow> (u8 \<Rightarrow> u32) \<Rightarrow> (u8 \<Rightarrow> u32) \<Rightarrow> (int \<Rightarrow> bar_kind) \<Rightarrow> (int \<Rightarrow> u64) \<Rightarrow> int \<Rightarrow> bool" where
  "bars_ok E dev v m K A i \<longleftrightarrow>
     (\<forall>j. bar_reach K i j \<and> j < 6 \<longrightarrow> bar_at v m j (K j)
        \<and> (K j \<noteq> BarNone \<longrightarrow> A j \<noteq> INVALID_PHYS_ADDR \<and> (\<forall>b. cfg_translate E b dev (bar_addr v j) = A j)))"

lemma bars_ok_step: "bars_ok E dev v m K A i \<Longrightarrow> i < 6 \<Longrightarrow> bars_ok E dev v m K A (bar_next K i)"
  unfolding bars_ok_def using bar_reach_trans [of i K] by blast

lemma update_above: "0 \<le> j \<Longrightarrow> j < k \<Longrightarrow> xs[nat k := x] ! nat j = xs ! nat j" for j k :: int
  by (rule nth_list_update_neq) simp

lemma bar_bytes_nonzero: "bar_at v m i kind \<Longrightarrow> bar_bytes kind = 0 \<longleftrightarrow> kind = BarNone"
  by (cases kind) auto

context config_space
begin

lemma find_loop:
  assumes "ok b"
  obtains b' where "pci_find_loop E ven did devs (w\<lparr>pci_bus := b\<rparr>) =
      (case find (\<lambda>i. cfg_half (view b (of_nat i)) 0 = ven \<and> cfg_half (view b (of_nat i)) 2 = did) devs of
         None \<Rightarrow> PCIDEVADDR_INVALID | Some i \<Rightarrow> of_nat i, w\<lparr>pci_bus := b'\<rparr>)"
    and "view b' = view b" and "ok b'"
  using assms
proof (induction devs arbitrary: b thesis)
  case Nil
  then show ?case
    by auto
next
  case (Cons i devs)
  have e: "2 dvd unat (0 :: u8)" "2 dvd unat (2 :: u8)"
    by simp_all
  obtain b1 where r1: "read16 E (of_nat i) 0 (w\<lparr>pci_bus := b\<rparr>) = (cfg_half (view b (of_nat i)) 0, w\<lparr>pci_bus := b1\<rparr>)"
    and v1: "view b1 = view b" "ok b1"
    unfolding cfg_half_def by (rule read16_view [OF Cons.prems(2) e(1)])
  obtain b2 where r2: "read16 E (of_nat i) 2 (w\<lparr>pci_bus := b1\<rparr>) = (cfg_half (view b1 (of_nat i)) 2, w\<lparr>pci_bus := b2\<rparr>)"
    and v2: "view b2 = view b1" "ok b2"
    unfolding cfg_half_def by (rule read16_view [OF v1(2) e(2)])
  obtain b3 where l1: "pci_find_loop E ven did devs (w\<lparr>pci_bus := b1\<rparr>) =
      (case find (\<lambda>i. cfg_half (view b1 (of_nat i)) 0 = ven \<and> cfg_half (view b1 (of_nat i)) 2 = did) devs of
         None \<Rightarrow> PCIDEVADDR_INVALID | Some i \<Rightarrow> of_nat i, w\<lparr>pci_bus := b3\<rparr>)" and v3: "view b3 = view b1" "ok b3"
    by (rule Cons.IH [OF _ v1(2)])
  obtain b4 where l2: "pci_find_loop E ven did devs (w\<lparr>pci_bus := b2\<rparr>) =
      (case find (\<lambda>i. cfg_half (view b2 (of_nat i)) 0 = ven \<and> cfg_half (view b2 (of_nat i)) 2 = did) devs of
         None \<Rightarrow> PCIDEVADDR_INVALID | Some i \<Rightarrow> of_nat i, w\<lparr>pci_bus := b4\<rparr>)" and v4: "view b4 = view b2" "ok b4"
    by (rule Cons.IH [OF _ v2(2)])
  consider "cfg_half (view b (of_nat i)) 0 \<noteq> ven"
    | "cfg_half (view b (of_nat i)) 0 = ven" "cfg_half (view b (of_nat i)) 2 = did"
    | "cfg_half (view b (of_nat i)) 0 = ven" "cfg_half (view b (of_nat i)) 2 \<noteq> did"
    by blast
  then show ?case
  proof cases
    case 1
    then show ?thesis
      by (intro Cons.prems(1) [of b3]) (simp_all add: r1 l1 v3 v1)
  next
    case 2
    then show ?thesis
      by (intro Cons.prems(1) [of b2]) (simp_all add: r1 r2 v2 v1)
  next
    case 3
    then show ?thesis
      by (intro Cons.prems(1) [of b4]) (simp_all add: r1 r2 l2 v4 v2 v1)
  qed
qed

lemma init_step:
  assumes "ok b" and "0 \<le> i" and "i < 6" and "bars_ok E (bdf dev) (view b (bdf dev)) (wm (bdf dev)) K A i"
    and "length (resource dev) = 6"
  obtains b1 rs0 where "pci_dev_init_loop E i dev (w\<lparr>pci_bus := b\<rparr>) =
        pci_dev_init_loop E (bar_next K i) (dev\<lparr>resource := rs0\<rparr>) (w\<lparr>pci_bus := b1\<rparr>)"
    and "view b1 = view b" and "ok b1" and "length rs0 = 6"
    and "rs0 ! nat i = (if K i = BarNone then INVALID_PHYS_ADDR else A i)" and "bar_next K i = i + 2 \<longrightarrow> rs0 ! nat (i + 1) = A i"
    and "\<forall>j. 0 \<le> j \<and> j < i \<longrightarrow> rs0 ! nat j = resource dev ! nat j"
proof -
  let ?d = "bdf dev" and ?v = "view b (bdf dev)"
  have at: "bar_at ?v (wm ?d) i (K i)"
    and A: "K i \<noteq> BarNone \<Longrightarrow> A i \<noteq> INVALID_PHYS_ADDR" "K i \<noteq> BarNone \<Longrightarrow> \<forall>b. cfg_translate E b ?d (bar_addr ?v i) = A i"
    using assms(3,4) by (auto simp: bars_ok_def)
  obtain b1 where sz: "pci_bar_size E dev i (w\<lparr>pci_bus := b\<rparr>) = Ret (bar_bytes (K i), w\<lparr>pci_bus := b1\<rparr>)"
    and v1: "view b1 = view b" "ok b1"
    by (rule bar_size [OF assms(1-3) at])
  note start = pci_dev_init_loop.simps [of E i] PCI_BAR_NUM_def sz bar_bytes_nonzero [OF at]
  show ?thesis
  proof (cases "K i = BarNone")
    case True
    show ?thesis
      by (rule that [of "(resource dev)[nat i := INVALID_PHYS_ADDR]" b1])
        (use assms True v1 in \<open>simp_all add: start bar_next_def set_resource_def update_above\<close>)
  next
    case False
    let ?dev = "set_resource i (A i) dev"
    have v1': "view b = view b1"
      using v1 by simp
    obtain b2 where ad: "pci_bar_read_addr E dev i (w\<lparr>pci_bus := b1\<rparr>) = Ret (A i, w\<lparr>pci_bus := b2\<rparr>)"
      and v2: "view b2 = view b1" "ok b2"
      by (rule bar_read_addr [OF v1(2) assms(2,3) _ A(2) [OF False] A(1) [OF False] v1'])
        (use bar_size64(1) [OF at] v1 in simp)
    obtain b3 where i64: "pci_bar_is64 E ?dev i (w\<lparr>pci_bus := b2\<rparr>) = Ret (view b2 (bdf ?dev) (bar_off i) AND 7 = 4, w\<lparr>pci_bus := b3\<rparr>)"
      and v3: "view b3 = view b2" "ok b3"
      by (rule bar_is64 [OF v2(2) assms(2,3)])
    have r: "get_resource ?dev i = Ret (A i)" "bdf ?dev = ?d"
      using assms by (simp_all add: get_resource_def set_resource_def)
    show ?thesis
    proof (cases "?v (bar_off i) AND 7 = 4")
      case True
      then have n: "bar_next K i = i + 2" "i < 5"
        using bar_at_is64 [OF at] bar_size64(1) [OF at] by (auto simp: bar_next_def)
      show ?thesis
        by (rule that [of "(resource dev)[nat i := A i, nat (i + 1) := A i]" b3])
          (use assms True False n v1 v2 v3 in
            \<open>simp_all add: start ad i64 r Let_def assert_that_def, simp_all add: set_resource_def update_above\<close>)
    next
      case not64: False
      then have n: "bar_next K i = i + 1"
        using bar_at_is64 [OF at] by (auto simp: bar_next_def split: bar_kind.split)
      show ?thesis
        by (rule that [of "(resource dev)[nat i := A i]" b3])
          (use assms not64 False n v1 v2 v3 in
            \<open>simp_all add: start ad i64 r Let_def, simp_all add: set_resource_def update_above\<close>)
    qed
  qed
qed

lemma init_loop:
  assumes "ok b" and "0 \<le> i" and "bars_ok E (bdf dev) (view b (bdf dev)) (wm (bdf dev)) K A i" and "length (resource dev) = 6"
  shows "\<exists>b' rs. pci_dev_init_loop E i dev (w\<lparr>pci_bus := b\<rparr>) = Ret (dev\<lparr>resource := rs\<rparr>, w\<lparr>pci_bus := b'\<rparr>)
    \<and> view b' = view b \<and> ok b' \<and> length rs = 6 \<and> resources_match K A i rs
    \<and> (\<forall>j. 0 \<le> j \<and> j < i \<longrightarrow> rs ! nat j = resource dev ! nat j)"
  using assms
proof (induction "nat (6 - i)" arbitrary: b i dev rule: less_induct)
  case less
  show ?case
  proof (cases "i < 6")
    case False
    then show ?thesis
      by (intro exI [of _ b] exI [of _ "resource dev"])
        (simp add: pci_dev_init_loop.simps less.prems resources_match_end PCI_BAR_NUM_def)
  next
    case i: True
    have up: "i < bar_next K i" "0 \<le> bar_next K i" "nat (6 - bar_next K i) < nat (6 - i)"
      using less.prems(2) i by (auto simp: bar_next_def split: bar_kind.split)
    obtain b1 rs0 where e: "pci_dev_init_loop E i dev (w\<lparr>pci_bus := b\<rparr>) =
        pci_dev_init_loop E (bar_next K i) (dev\<lparr>resource := rs0\<rparr>) (w\<lparr>pci_bus := b1\<rparr>)"
      and v1: "view b1 = view b" "ok b1" and r0: "length rs0 = 6"
        "rs0 ! nat i = (if K i = BarNone then INVALID_PHYS_ADDR else A i)" "bar_next K i = i + 2 \<longrightarrow> rs0 ! nat (i + 1) = A i"
        "\<forall>j. 0 \<le> j \<and> j < i \<longrightarrow> rs0 ! nat j = resource dev ! nat j"
      by (rule init_step [OF less.prems(1,2) i less.prems(3,4)])
    have next_ok: "bars_ok E (bdf (dev\<lparr>resource := rs0\<rparr>)) (view b1 (bdf (dev\<lparr>resource := rs0\<rparr>)))
        (wm (bdf (dev\<lparr>resource := rs0\<rparr>))) K A (bar_next K i)"
      using bars_ok_step [OF less.prems(3) i] v1 by simp
    obtain b2 rs where l: "pci_dev_init_loop E (bar_next K i) (dev\<lparr>resource := rs0\<rparr>) (w\<lparr>pci_bus := b1\<rparr>) =
        Ret (dev\<lparr>resource := rs\<rparr>, w\<lparr>pci_bus := b2\<rparr>)"
      and k: "view b2 = view b1" "ok b2" "length rs = 6" "resources_match K A (bar_next K i) rs"
        "\<forall>j. 0 \<le> j \<and> j < bar_next K i \<longrightarrow> rs ! nat j = rs0 ! nat j"
      using less.hyps [OF up(3) v1(2) up(2) next_ok] r0(1) by auto
    have "resources_match K A i rs"
      by (rule resources_match_step [OF k(4)]) (use k(5) r0 up(1) less.prems(2) in auto)
    moreover have "\<forall>j. 0 \<le> j \<and> j < i \<longrightarrow> rs ! nat j = resource dev ! nat j"
      using k(5) r0(4) up(1) by auto
    ultimately show ?thesis
      using e l k v1 by auto
  qed
qed

end

end
