(* ===== verification/Pci_Bus.thy ===== *)
theory Pci_Bus
  imports Pci_Bars
begin

text \<open>
  The two ways to the configuration space: the I/O ports 0xCF8 and 0xCFC of \<^verbatim>\<open>lib/x86/asm/pci.h\<close>, and
  the memory window of the generic host bridge in \<^verbatim>\<open>lib/pci-host-generic.c\<close>. For each there is a locale
  that says how the hardware decodes the accesses. The code for the window then keeps the
  contract \<open>config_space\<close> on which the lemmas about \<^verbatim>\<open>lib/pci.c\<close> rest. The port code does so only for registers whose two low
  bits are zero; the lemmas say what it accesses for the others.
\<close>

section \<open>Configuration mechanism 1\<close>

text \<open>The port instructions, over the state \<open>'p\<close> of what is behind the ports.\<close>

record 'p port_ops =
  port_inb :: "'p \<Rightarrow> u16 \<Rightarrow> u8 \<times> 'p"
  port_inw :: "'p \<Rightarrow> u16 \<Rightarrow> u16 \<times> 'p"
  port_inl :: "'p \<Rightarrow> u16 \<Rightarrow> u32 \<times> 'p"
  port_outb :: "'p \<Rightarrow> u8 \<Rightarrow> u16 \<Rightarrow> 'p"
  port_outw :: "'p \<Rightarrow> u16 \<Rightarrow> u16 \<Rightarrow> 'p"
  port_outl :: "'p \<Rightarrow> u32 \<Rightarrow> u16 \<Rightarrow> 'p"

definition PCI_CONF1_ADDRESS :: "u16 \<Rightarrow> u8 \<Rightarrow> u32" where
  "PCI_CONF1_ADDRESS dev reg = push_bit 31 1 OR push_bit 8 (ucast dev) OR ucast reg"

definition conf1_readb :: "'p port_ops \<Rightarrow> 'p \<Rightarrow> u16 \<Rightarrow> u8 \<Rightarrow> u8 \<times> 'p" where
  "conf1_readb P p dev reg = port_inb P (port_outl P p (PCI_CONF1_ADDRESS dev reg) 0xCF8) 0xCFC"

definition conf1_readw :: "'p port_ops \<Rightarrow> 'p \<Rightarrow> u16 \<Rightarrow> u8 \<Rightarrow> u16 \<times> 'p" where
  "conf1_readw P p dev reg = port_inw P (port_outl P p (PCI_CONF1_ADDRESS dev reg) 0xCF8) 0xCFC"

definition conf1_readl :: "'p port_ops \<Rightarrow> 'p \<Rightarrow> u16 \<Rightarrow> u8 \<Rightarrow> u32 \<times> 'p" where
  "conf1_readl P p dev reg = port_inl P (port_outl P p (PCI_CONF1_ADDRESS dev reg) 0xCF8) 0xCFC"

definition conf1_writeb :: "'p port_ops \<Rightarrow> 'p \<Rightarrow> u16 \<Rightarrow> u8 \<Rightarrow> u8 \<Rightarrow> 'p" where
  "conf1_writeb P p dev reg val = port_outb P (port_outl P p (PCI_CONF1_ADDRESS dev reg) 0xCF8) val 0xCFC"

definition conf1_writew :: "'p port_ops \<Rightarrow> 'p \<Rightarrow> u16 \<Rightarrow> u8 \<Rightarrow> u16 \<Rightarrow> 'p" where
  "conf1_writew P p dev reg val = port_outw P (port_outl P p (PCI_CONF1_ADDRESS dev reg) 0xCF8) val 0xCFC"

definition conf1_writel :: "'p port_ops \<Rightarrow> 'p \<Rightarrow> u16 \<Rightarrow> u8 \<Rightarrow> u32 \<Rightarrow> 'p" where
  "conf1_writel P p dev reg val = port_outl P (port_outl P p (PCI_CONF1_ADDRESS dev reg) 0xCF8) val 0xCFC"

definition conf1_translate :: "u16 \<Rightarrow> u64 \<Rightarrow> u64" where
  "conf1_translate dev addr = addr"

definition conf1_env :: "'p port_ops \<Rightarrow> 'p pci_env" where
  "conf1_env P =
     \<lparr>cfg_readb = conf1_readb P, cfg_readw = conf1_readw P, cfg_readl = conf1_readl P,
      cfg_writeb = conf1_writeb P, cfg_writew = conf1_writew P, cfg_writel = conf1_writel P,
      cfg_translate = (\<lambda>_. conf1_translate)\<rparr>"

text \<open>The device and the register that an address in port 0xCF8 selects.\<close>

definition conf1_dev :: "u32 \<Rightarrow> u16" where
  "conf1_dev a = ucast (drop_bit 8 a)"

definition conf1_reg :: "u32 \<Rightarrow> u8" where
  "conf1_reg a = ucast a"

lemma bit_conf1_address:
  "bit (PCI_CONF1_ADDRESS dev reg) n \<longleftrightarrow> n = 31 \<or> (8 \<le> n \<and> n < 32 \<and> bit dev (n - 8)) \<or> bit reg n"
proof -
  have "bit reg n \<Longrightarrow> n < 8"
    by (auto dest: bit_imp_le_length)
  then show ?thesis
    unfolding PCI_CONF1_ADDRESS_def bit_or_iff bit_push_bit_iff by (auto simp: bit_1_iff bit_unsigned_iff)
qed

text \<open>What is left of the address when its two low bits are not latched.\<close>

lemma conf1_latched:
  "conf1_dev (PCI_CONF1_ADDRESS dev reg AND NOT 3) = dev" "conf1_reg (PCI_CONF1_ADDRESS dev reg AND NOT 3) = reg AND NOT 3"
  "bit (PCI_CONF1_ADDRESS dev reg AND NOT 3) 31"
proof -
  have m: "NOT 3 = (NOT (mask 2) :: u32)" "NOT 3 = (NOT (mask 2) :: u8)"
    by (simp_all add: mask_numeral)
  have r: "n < 8" if "bit reg n" for n
    using that by (auto dest: bit_imp_le_length)
  have b: "bit (PCI_CONF1_ADDRESS dev reg AND NOT (mask 2)) n \<longleftrightarrow> bit (PCI_CONF1_ADDRESS dev reg) n \<and> 2 \<le> n" for n
    using bit_imp_le_length [of "PCI_CONF1_ADDRESS dev reg" n] by (auto simp: bit_and_iff bit_not_iff bit_mask_iff)
  show "conf1_dev (PCI_CONF1_ADDRESS dev reg AND NOT 3) = dev"
    unfolding m
  proof (rule bit_word_eqI)
    fix n assume "n < LENGTH(16)"
    then show "bit (conf1_dev (PCI_CONF1_ADDRESS dev reg AND NOT (mask 2))) n = bit dev n"
      using r [of "8 + n"] unfolding conf1_dev_def bit_unsigned_iff bit_drop_bit_eq o_def b bit_conf1_address by auto
  qed
  show "conf1_reg (PCI_CONF1_ADDRESS dev reg AND NOT 3) = reg AND NOT 3"
    unfolding m
  proof (rule bit_word_eqI)
    fix n assume "n < LENGTH(8)"
    then show "bit (conf1_reg (PCI_CONF1_ADDRESS dev reg AND NOT (mask 2))) n = bit (reg AND NOT (mask 2)) n"
      unfolding conf1_reg_def bit_unsigned_iff b bit_conf1_address bit_and_iff bit_not_iff bit_mask_iff by auto
  qed
  show "bit (PCI_CONF1_ADDRESS dev reg AND NOT 3) 31"
    unfolding m b by (simp add: bit_conf1_address)
qed

lemma and_half: "ucast h AND (m AND 0xffff) = ucast (h :: u16) AND (m :: u32)"
proof -
  have "ucast h AND (m AND mask 16) = ucast h AND m"
    by (rule bit_word_eqI) (auto simp: bit_simps dest: bit_imp_le_length)
  then show ?thesis
    by (simp add: mask_numeral)
qed

text \<open>
  The hardware, as the specification of configuration mechanism 1 has it: a write to 0xCF8 latches an address, whose two low bits are
  hard-wired to zero; with the enable bit set, an access to the ports 0xCFC to 0xCFF goes to the selected register, and the port
  selects the byte or the half of it.
\<close>

definition lane_write :: "(u8 \<Rightarrow> u32) \<Rightarrow> (u8 \<Rightarrow> u32) \<Rightarrow> u8 \<Rightarrow> nat \<Rightarrow> u32 \<Rightarrow> u32 \<Rightarrow> u8 \<Rightarrow> u32" where
  "lane_write v m r lane bits x = bar_write v (\<lambda>r. m r AND push_bit (8 * lane) bits) r (push_bit (8 * lane) x)"

locale conf1_ports =
  fixes P :: "'p port_ops"
    and ok :: "'p \<Rightarrow> bool"
    and latch :: "'p \<Rightarrow> u32"
    and view :: "'p \<Rightarrow> u16 \<Rightarrow> u8 \<Rightarrow> u32"
    and wm :: "u16 \<Rightarrow> u8 \<Rightarrow> u32"
  assumes select: "ok p \<Longrightarrow> ok (port_outl P p a 0xCF8) \<and> latch (port_outl P p a 0xCF8) = a AND NOT 3 \<and> view (port_outl P p a 0xCF8) = view p"
    and inl: "ok p \<Longrightarrow> bit (latch p) 31 \<Longrightarrow>
      port_inl P p 0xCFC = (view p (conf1_dev (latch p)) (conf1_reg (latch p)), p)"
    and inw: "ok p \<Longrightarrow> bit (latch p) 31 \<Longrightarrow> lane = 0 \<or> lane = 2 \<Longrightarrow>
      port_inw P p (0xCFC + of_nat lane) = (cfg_half (view p (conf1_dev (latch p))) (conf1_reg (latch p) + of_nat lane), p)"
    and inb: "ok p \<Longrightarrow> bit (latch p) 31 \<Longrightarrow> lane < 4 \<Longrightarrow>
      port_inb P p (0xCFC + of_nat lane) = (cfg_byte (view p (conf1_dev (latch p))) (conf1_reg (latch p) + of_nat lane), p)"
    and outl: "ok p \<Longrightarrow> bit (latch p) 31 \<Longrightarrow>
      ok (port_outl P p v 0xCFC) \<and> view (port_outl P p v 0xCFC) =
        (view p)(conf1_dev (latch p) := bar_write (view p (conf1_dev (latch p))) (wm (conf1_dev (latch p))) (conf1_reg (latch p)) v)"
    and outw: "ok p \<Longrightarrow> bit (latch p) 31 \<Longrightarrow> lane = 0 \<or> lane = 2 \<Longrightarrow>
      ok (port_outw P p h (0xCFC + of_nat lane)) \<and> view (port_outw P p h (0xCFC + of_nat lane)) =
        (view p)(conf1_dev (latch p) := lane_write (view p (conf1_dev (latch p))) (wm (conf1_dev (latch p))) (conf1_reg (latch p)) lane 0xffff (ucast h))"
    and outb: "ok p \<Longrightarrow> bit (latch p) 31 \<Longrightarrow> lane < 4 \<Longrightarrow>
      ok (port_outb P p y (0xCFC + of_nat lane)) \<and> view (port_outb P p y (0xCFC + of_nat lane)) =
        (view p)(conf1_dev (latch p) := lane_write (view p (conf1_dev (latch p))) (wm (conf1_dev (latch p))) (conf1_reg (latch p)) lane 0xff (ucast y))"
begin

text \<open>
  The code writes the whole register number to 0xCF8 and then always accesses port 0xCFC: it reaches the lowest byte or half of
  the register, whatever the low bits of the number.
\<close>

lemma conf1_reads:
  assumes "ok p"
  shows "\<exists>p'. ok p' \<and> view p' = view p \<and> conf1_readl P p dev reg = (view p dev (reg AND NOT 3), p')
    \<and> conf1_readw P p dev reg = (cfg_half (view p dev) (reg AND NOT 3), p')
    \<and> conf1_readb P p dev reg = (cfg_byte (view p dev) (reg AND NOT 3), p')"
proof -
  let ?p = "port_outl P p (PCI_CONF1_ADDRESS dev reg) 0xCF8"
  have s: "ok ?p" "latch ?p = PCI_CONF1_ADDRESS dev reg AND NOT 3" "view ?p = view p"
    using select [OF assms] by auto
  have l: "conf1_dev (latch ?p) = dev" "conf1_reg (latch ?p) = reg AND NOT 3" "bit (latch ?p) 31"
    unfolding s(2) by (rule conf1_latched)+
  show ?thesis
    using inl [OF s(1) l(3)] inw [OF s(1) l(3), of 0] inb [OF s(1) l(3), of 0] s(1,3)
    unfolding l conf1_readl_def conf1_readw_def conf1_readb_def by (intro exI [of _ ?p]) simp
qed

lemma conf1_writes:
  assumes "ok p"
  shows "ok (conf1_writel P p dev reg v)
      \<and> view (conf1_writel P p dev reg v) = (view p)(dev := bar_write (view p dev) (wm dev) (reg AND NOT 3) v)"
    and "ok (conf1_writew P p dev reg h)
      \<and> view (conf1_writew P p dev reg h) = (view p)(dev := lane_write (view p dev) (wm dev) (reg AND NOT 3) 0 0xffff (ucast h))"
    and "ok (conf1_writeb P p dev reg y)
      \<and> view (conf1_writeb P p dev reg y) = (view p)(dev := lane_write (view p dev) (wm dev) (reg AND NOT 3) 0 0xff (ucast y))"
proof -
  let ?p = "port_outl P p (PCI_CONF1_ADDRESS dev reg) 0xCF8"
  have s: "ok ?p" "latch ?p = PCI_CONF1_ADDRESS dev reg AND NOT 3" "view ?p = view p"
    using select [OF assms] by auto
  have l: "conf1_dev (latch ?p) = dev" "conf1_reg (latch ?p) = reg AND NOT 3" "bit (latch ?p) 31"
    unfolding s(2) by (rule conf1_latched)+
  note eqs = l s(3) conf1_writel_def conf1_writew_def conf1_writeb_def
  show "ok (conf1_writel P p dev reg v)
      \<and> view (conf1_writel P p dev reg v) = (view p)(dev := bar_write (view p dev) (wm dev) (reg AND NOT 3) v)"
    using outl [OF s(1) l(3), of v] unfolding eqs .
  show "ok (conf1_writew P p dev reg h)
      \<and> view (conf1_writew P p dev reg h) = (view p)(dev := lane_write (view p dev) (wm dev) (reg AND NOT 3) 0 0xffff (ucast h))"
    using outw [OF s(1) l(3), of 0 h] unfolding eqs by simp
  show "ok (conf1_writeb P p dev reg y)
      \<and> view (conf1_writeb P p dev reg y) = (view p)(dev := lane_write (view p dev) (wm dev) (reg AND NOT 3) 0 0xff (ucast y))"
    using outb [OF s(1) l(3), of 0 y] unfolding eqs by simp
qed

end

section \<open>The memory window of the generic host bridge\<close>

record 'm mmio_ops =
  mmio_readb :: "'m \<Rightarrow> u64 \<Rightarrow> u8 \<times> 'm"
  mmio_readw :: "'m \<Rightarrow> u64 \<Rightarrow> u16 \<times> 'm"
  mmio_readl :: "'m \<Rightarrow> u64 \<Rightarrow> u32 \<times> 'm"
  mmio_writeb :: "'m \<Rightarrow> u8 \<Rightarrow> u64 \<Rightarrow> 'm"
  mmio_writew :: "'m \<Rightarrow> u16 \<Rightarrow> u64 \<Rightarrow> 'm"
  mmio_writel :: "'m \<Rightarrow> u32 \<Rightarrow> u64 \<Rightarrow> 'm"

record pci_addr_space =
  as_pci_start :: u64
  as_start :: u64
  as_size :: u64
  as_allocated :: u64
  as_type :: u32

record pci_host_bridge =
  hb_start :: u64
  hb_size :: u64
  hb_bus :: u32
  hb_bus_max :: u32
  addr_space :: "pci_addr_space list"

definition PCI_ECAM_BUS_SHIFT :: nat where
  "PCI_ECAM_BUS_SHIFT = 20"

definition PCI_ECAM_DEVFN_SHIFT :: nat where
  "PCI_ECAM_DEVFN_SHIFT = 12"

definition pci_get_dev_conf :: "pci_host_bridge \<Rightarrow> u16 \<Rightarrow> u64" where
  "pci_get_dev_conf host devfn = hb_start host + push_bit PCI_ECAM_DEVFN_SHIFT (ucast devfn)"

definition ecam_readb :: "'m mmio_ops \<Rightarrow> pci_host_bridge \<Rightarrow> 'm \<Rightarrow> u16 \<Rightarrow> u8 \<Rightarrow> u8 \<times> 'm" where
  "ecam_readb M host m dev off = mmio_readb M m (pci_get_dev_conf host dev + ucast off)"

definition ecam_readw :: "'m mmio_ops \<Rightarrow> pci_host_bridge \<Rightarrow> 'm \<Rightarrow> u16 \<Rightarrow> u8 \<Rightarrow> u16 \<times> 'm" where
  "ecam_readw M host m dev off = mmio_readw M m (pci_get_dev_conf host dev + ucast off)"

definition ecam_readl :: "'m mmio_ops \<Rightarrow> pci_host_bridge \<Rightarrow> 'm \<Rightarrow> u16 \<Rightarrow> u8 \<Rightarrow> u32 \<times> 'm" where
  "ecam_readl M host m dev off = mmio_readl M m (pci_get_dev_conf host dev + ucast off)"

definition ecam_writeb :: "'m mmio_ops \<Rightarrow> pci_host_bridge \<Rightarrow> 'm \<Rightarrow> u16 \<Rightarrow> u8 \<Rightarrow> u8 \<Rightarrow> 'm" where
  "ecam_writeb M host m dev off val = mmio_writeb M m val (pci_get_dev_conf host dev + ucast off)"

definition ecam_writew :: "'m mmio_ops \<Rightarrow> pci_host_bridge \<Rightarrow> 'm \<Rightarrow> u16 \<Rightarrow> u8 \<Rightarrow> u16 \<Rightarrow> 'm" where
  "ecam_writew M host m dev off val = mmio_writew M m val (pci_get_dev_conf host dev + ucast off)"

definition ecam_writel :: "'m mmio_ops \<Rightarrow> pci_host_bridge \<Rightarrow> 'm \<Rightarrow> u16 \<Rightarrow> u8 \<Rightarrow> u32 \<Rightarrow> 'm" where
  "ecam_writel M host m dev off val = mmio_writel M m val (pci_get_dev_conf host dev + ucast off)"

fun paddr_loop :: "u64 \<Rightarrow> pci_addr_space list \<Rightarrow> u64" where
  "paddr_loop pci_addr [] = INVALID_PHYS_ADDR"
| "paddr_loop pci_addr (as # rest) =
     (if pci_addr \<ge> as_pci_start as \<and> pci_addr < as_pci_start as + as_size as
      then as_start as + (pci_addr - as_pci_start as)
      else paddr_loop pci_addr rest)"

definition pci_host_bridge_get_paddr :: "pci_host_bridge \<Rightarrow> u64 \<Rightarrow> u64" where
  "pci_host_bridge_get_paddr host pci_addr = paddr_loop pci_addr (addr_space host)"

definition ecam_translate :: "pci_host_bridge \<Rightarrow> u16 \<Rightarrow> u64 \<Rightarrow> u64" where
  "ecam_translate host dev addr = pci_host_bridge_get_paddr host addr"

definition ecam_env :: "'m mmio_ops \<Rightarrow> pci_host_bridge \<Rightarrow> 'm pci_env" where
  "ecam_env M host =
     \<lparr>cfg_readb = ecam_readb M host, cfg_readw = ecam_readw M host, cfg_readl = ecam_readl M host,
      cfg_writeb = ecam_writeb M host, cfg_writew = ecam_writew M host, cfg_writel = ecam_writel M host,
      cfg_translate = (\<lambda>_. ecam_translate host)\<rparr>"

text \<open>
  The hardware: the window starts at \<open>base\<close>; bits 12 to 27 of the offset select the device and function,
  the low bits the register.
\<close>

definition ecam_dev :: "u64 \<Rightarrow> u16" where
  "ecam_dev off = ucast (drop_bit 12 off)"

definition ecam_reg :: "u64 \<Rightarrow> u8" where
  "ecam_reg off = ucast off"

definition ecam_off :: "u64 \<Rightarrow> bool" where
  "ecam_off off \<longleftrightarrow> off < 2 ^ 28 \<and> take_bit 12 off < 256"

lemma take_bit_less_exp: "take_bit n (x :: u64) = x \<Longrightarrow> n < 64 \<Longrightarrow> x < 2 ^ n"
proof -
  assume x: "take_bit n x = x" and n: "n < 64"
  have "unat x = take_bit n (unat x)"
    using arg_cong [OF x, of unat] by (simp add: unsigned_take_bit_eq)
  then have "unat x < 2 ^ n"
    by (metis take_bit_nat_less_exp)
  then show "x < 2 ^ n"
    using n by (simp add: word_less_nat_alt)
qed

lemma ecam_decode:
  fixes dev :: u16 and reg :: u8
  defines "off \<equiv> push_bit PCI_ECAM_DEVFN_SHIFT (ucast dev) + ucast reg :: u64"
  shows "ecam_dev off = dev" and "ecam_reg off = reg" and "ecam_off off"
proof -
  have r: "n < 8" if "bit reg n" for n
    using that by (auto dest: bit_imp_le_length)
  have d: "n < 16" if "bit dev n" for n
    using that by (auto dest: bit_imp_le_length)
  have "off = push_bit 12 (ucast dev) OR ucast reg"
    unfolding off_def PCI_ECAM_DEVFN_SHIFT_def
    by (rule disjunctive_add_eq_or) (rule bit_word_eqI, use r in \<open>fastforce simp: bit_simps\<close>)
  then have b: "bit off n \<longleftrightarrow> 12 \<le> n \<and> n < 64 \<and> bit dev (n - 12) \<or> bit reg n" for n
    using r [of n] by (auto simp: bit_simps)
  show "ecam_dev off = dev"
    by (rule bit_word_eqI) (use r b in \<open>fastforce simp: ecam_dev_def bit_simps\<close>)
  show "ecam_reg off = reg"
    by (rule bit_word_eqI) (use b in \<open>auto simp: ecam_reg_def bit_simps\<close>)
  have "take_bit 28 off = off"
    by (rule bit_word_eqI) (use r d b in \<open>fastforce simp: bit_simps\<close>)
  moreover have "take_bit 8 (take_bit 12 off) = take_bit 12 off"
    by (rule bit_word_eqI) (use r b in \<open>fastforce simp: bit_simps\<close>)
  ultimately show "ecam_off off"
    unfolding ecam_off_def using take_bit_less_exp [of 28 off] take_bit_less_exp [of 8 "take_bit 12 off"] by simp
qed

locale ecam_window =
  fixes M :: "'m mmio_ops"
    and host :: pci_host_bridge
    and ok :: "'m \<Rightarrow> bool"
    and view :: "'m \<Rightarrow> u16 \<Rightarrow> u8 \<Rightarrow> u32"
    and wm :: "u16 \<Rightarrow> u8 \<Rightarrow> u32"
  assumes win_readl: "ok m \<Longrightarrow> ecam_off off \<Longrightarrow> 4 dvd unat (ecam_reg off) \<Longrightarrow>
      mmio_readl M m (hb_start host + off) = (view m (ecam_dev off) (ecam_reg off), m)"
    and win_readw: "ok m \<Longrightarrow> ecam_off off \<Longrightarrow> 2 dvd unat (ecam_reg off) \<Longrightarrow>
      mmio_readw M m (hb_start host + off) = (cfg_half (view m (ecam_dev off)) (ecam_reg off), m)"
    and win_readb: "ok m \<Longrightarrow> ecam_off off \<Longrightarrow>
      mmio_readb M m (hb_start host + off) = (cfg_byte (view m (ecam_dev off)) (ecam_reg off), m)"
    and win_writel: "ok m \<Longrightarrow> ecam_off off \<Longrightarrow> 4 dvd unat (ecam_reg off) \<Longrightarrow>
      ok (mmio_writel M m v (hb_start host + off)) \<and> view (mmio_writel M m v (hb_start host + off)) =
        (view m)(ecam_dev off := bar_write (view m (ecam_dev off)) (wm (ecam_dev off)) (ecam_reg off) v)"
    and win_writew: "ok m \<Longrightarrow> ecam_off off \<Longrightarrow> 4 dvd unat (ecam_reg off) \<Longrightarrow>
      ok (mmio_writew M m h (hb_start host + off)) \<and> view (mmio_writew M m h (hb_start host + off)) =
        (view m)(ecam_dev off := bar_write (view m (ecam_dev off)) (\<lambda>r. wm (ecam_dev off) r AND 0xffff) (ecam_reg off) (ucast h))"

sublocale ecam_window \<subseteq> ecam: config_space "ecam_env M host" ok view wm
proof unfold_locales
  fix b and dev :: u16 and reg :: u8
  assume b: "ok b"
  note sel = ecam_decode [of dev reg] pci_get_dev_conf_def add.assoc
  { fix v b' assume "4 dvd unat reg" "cfg_readl (ecam_env M host) b dev reg = (v, b')"
    then show "v = view b dev reg \<and> view b' = view b \<and> ok b'"
      using win_readl [OF b ecam_decode(3), of dev reg] b by (auto simp add: ecam_env_def ecam_readl_def sel) }
  { fix x b' assume "2 dvd unat reg" "cfg_readw (ecam_env M host) b dev reg = (x, b')"
    then show "x = ucast (drop_bit (8 * (unat reg mod 4)) (view b dev (reg AND NOT 3))) \<and> view b' = view b \<and> ok b'"
      using win_readw [OF b ecam_decode(3), of dev reg] b by (auto simp add: ecam_env_def ecam_readw_def sel cfg_half_def) }
  { fix y b' assume "cfg_readb (ecam_env M host) b dev reg = (y, b')"
    then show "y = ucast (drop_bit (8 * (unat reg mod 4)) (view b dev (reg AND NOT 3))) \<and> view b' = view b \<and> ok b'"
      using win_readb [OF b ecam_decode(3), of dev reg] b by (auto simp add: ecam_env_def ecam_readb_def sel cfg_byte_def) }
  { fix v assume "4 dvd unat reg"
    then show "view (cfg_writel (ecam_env M host) b dev reg v) =
        (\<lambda>d r. if d = dev \<and> r = reg then (v AND wm dev reg) OR (view b dev reg AND NOT (wm dev reg)) else view b d r)
      \<and> ok (cfg_writel (ecam_env M host) b dev reg v)"
      using win_writel [OF b ecam_decode(3), of dev reg]
      by (auto simp add: ecam_env_def ecam_writel_def sel bar_write_def fun_eq_iff) }
  { fix h assume "4 dvd unat reg"
    then show "view (cfg_writew (ecam_env M host) b dev reg h) =
        (\<lambda>d r. if d = dev \<and> r = reg then (ucast h AND wm dev reg) OR (view b dev reg AND NOT (wm dev reg AND 0xffff)) else view b d r)
      \<and> ok (cfg_writew (ecam_env M host) b dev reg h)"
      using win_writew [OF b ecam_decode(3), of dev reg]
      by (auto simp add: ecam_env_def ecam_writew_def sel bar_write_def and_half fun_eq_iff) }
qed

context ecam_window
begin

lemma ecam_space: "config_space (ecam_env M host) ok view wm"
  by (rule ecam.config_space_axioms)

end

section \<open>Simulated hardware\<close>

text \<open>
  Port hardware and a window that hold the registers of all devices as a function; \<open>W\<close> gives the
  writable bits. They show that the two contracts can be met.
\<close>

definition sim_ports :: "(u16 \<Rightarrow> u8 \<Rightarrow> u32) \<Rightarrow> (u32 \<times> (u16 \<Rightarrow> u8 \<Rightarrow> u32)) port_ops" where
  "sim_ports W =
     \<lparr>port_inb = (\<lambda>(a, v) port. (cfg_byte (v (conf1_dev a)) (conf1_reg a + ucast (port - 0xCFC)), (a, v))),
      port_inw = (\<lambda>(a, v) port. (cfg_half (v (conf1_dev a)) (conf1_reg a + ucast (port - 0xCFC)), (a, v))),
      port_inl = (\<lambda>(a, v) port. (v (conf1_dev a) (conf1_reg a), (a, v))),
      port_outb = (\<lambda>(a, v) y port.
        (a, v(conf1_dev a := lane_write (v (conf1_dev a)) (W (conf1_dev a)) (conf1_reg a) (unat (port - 0xCFC)) 0xff (ucast y)))),
      port_outw = (\<lambda>(a, v) h port.
        (a, v(conf1_dev a := lane_write (v (conf1_dev a)) (W (conf1_dev a)) (conf1_reg a) (unat (port - 0xCFC)) 0xffff (ucast h)))),
      port_outl = (\<lambda>(a, v) x port.
        if port = 0xCF8 then (x AND NOT 3, v) else (a, v(conf1_dev a := bar_write (v (conf1_dev a)) (W (conf1_dev a)) (conf1_reg a) x)))\<rparr>"

lemma lane_port:
  assumes "lane < 4"
  shows "unat (of_nat lane :: u16) = lane" "ucast (of_nat lane :: u16) = (of_nat lane :: u8)"
proof -
  show u: "unat (of_nat lane :: u16) = lane"
    using assms by (simp add: unat_of_nat)
  have "lane = 0 \<or> lane = 1 \<or> lane = 2 \<or> lane = 3"
    using assms by arith
  then show "ucast (of_nat lane :: u16) = (of_nat lane :: u8)"
    by auto
qed

interpretation conf1_sim: conf1_ports "sim_ports W" "\<lambda>_. True" fst snd W for W
  by unfold_locales (auto simp: sim_ports_def lane_port split: prod.splits)

definition sim_window :: "(u16 \<Rightarrow> u8 \<Rightarrow> u32) \<Rightarrow> u64 \<Rightarrow> (u16 \<Rightarrow> u8 \<Rightarrow> u32) mmio_ops" where
  "sim_window W base =
     \<lparr>mmio_readb = (\<lambda>v a. (cfg_byte (v (ecam_dev (a - base))) (ecam_reg (a - base)), v)),
      mmio_readw = (\<lambda>v a. (cfg_half (v (ecam_dev (a - base))) (ecam_reg (a - base)), v)),
      mmio_readl = (\<lambda>v a. (v (ecam_dev (a - base)) (ecam_reg (a - base)), v)),
      mmio_writeb = (\<lambda>v x a. v),
      mmio_writew = (\<lambda>v h a. v(ecam_dev (a - base) :=
        bar_write (v (ecam_dev (a - base))) (\<lambda>r. W (ecam_dev (a - base)) r AND 0xffff) (ecam_reg (a - base)) (ucast h))),
      mmio_writel = (\<lambda>v x a. v(ecam_dev (a - base) :=
        bar_write (v (ecam_dev (a - base))) (W (ecam_dev (a - base))) (ecam_reg (a - base)) x))\<rparr>"

interpretation ecam_sim: ecam_window "sim_window W (hb_start host)" host "\<lambda>_. True" "\<lambda>v. v" W for W host
  by unfold_locales (auto simp: sim_window_def)

end
