(* ===== verification/Pci_Props.thy ===== *)
theory Pci_Props
  imports Pci_Bus
begin

text \<open>
  The properties of \<^verbatim>\<open>lib/pci.c\<close> on any bus that keeps the contract \<open>config_space\<close>, that the window of the generic host bridge
  keeps it, and what the port code does. The witnesses run the code for the window on simulated hardware with one device.
\<close>

section \<open>A test device\<close>

text \<open>Device 3: a 4K memory BAR, a 256 byte I/O BAR, and one capability, message signalled interrupts.\<close>

definition testdev_regs :: "u16 \<Rightarrow> u8 \<Rightarrow> u32" where
  "testdev_regs d r =
     (if d \<noteq> 3 then 0xffffffff
      else if r = 0 then 0x00051b36
      else if r = 0x10 then 0xfebf1000
      else if r = 0x14 then 0xc001
      else if r = 0x34 then 0x40
      else if r = 0x40 then 0x05
      else 0)"

definition testdev_wm :: "u16 \<Rightarrow> u8 \<Rightarrow> u32" where
  "testdev_wm d r =
     (if d \<noteq> 3 then 0
      else if r = 4 then 7
      else if r = 0x10 then NOT (mask 12)
      else if r = 0x14 then NOT (mask 8)
      else 0)"

text \<open>A host bridge that translates the first 4 GiB of its memory to themselves.\<close>

definition testdev_host :: pci_host_bridge where
  "testdev_host = \<lparr>hb_start = 0x3f000000, hb_size = 0x1000000, hb_bus = 0, hb_bus_max = 15,
     addr_space = [\<lparr>as_pci_start = 0, as_start = 0, as_size = 0x100000000, as_allocated = 0, as_type = 0\<rparr>]\<rparr>"

definition testdev_env :: "(u16 \<Rightarrow> u8 \<Rightarrow> u32) pci_env" where
  "testdev_env = ecam_env (sim_window testdev_wm (hb_start testdev_host)) testdev_host"

definition testdev :: pci_dev where
  "testdev = \<lparr>bdf = 3, msi_offset = 0, resource = replicate 6 0\<rparr>"

definition testdev_world :: "(u16 \<Rightarrow> u8 \<Rightarrow> u32) pci_world" where
  "testdev_world = \<lparr>pci_bus = testdev_regs, pci_out = []\<rparr>"

lemma testdev_space: "config_space testdev_env (\<lambda>_. True) (\<lambda>v. v) testdev_wm"
  unfolding testdev_env_def by (rule ecam_sim.ecam.config_space_axioms)

lemma testdev_translate: "a < 0x100000000 \<Longrightarrow> cfg_translate testdev_env b d a = a"
  by (simp add: testdev_env_def ecam_env_def ecam_translate_def pci_host_bridge_get_paddr_def testdev_host_def)

lemma testdev_bars:
  "bar_at (testdev_regs 3) (testdev_wm 3) 0 (BarMem32 12 0)" "bar_at (testdev_regs 3) (testdev_wm 3) 1 (BarIo 8)"
  "2 \<le> i \<Longrightarrow> i < 6 \<Longrightarrow> bar_at (testdev_regs 3) (testdev_wm 3) i BarNone"
proof -
  show "bar_at (testdev_regs 3) (testdev_wm 3) 0 (BarMem32 12 0)"
    by (simp add: testdev_regs_def testdev_wm_def bar_off_def mask_numeral)
  show "bar_at (testdev_regs 3) (testdev_wm 3) 1 (BarIo 8)"
    by (simp add: testdev_regs_def testdev_wm_def bar_off_def mask_numeral)
  assume "2 \<le> i" "i < 6"
  then have "i = 2 \<or> i = 3 \<or> i = 4 \<or> i = 5"
    by arith
  then show "bar_at (testdev_regs 3) (testdev_wm 3) i BarNone"
    by (auto simp: testdev_regs_def testdev_wm_def bar_off_def)
qed

lemma world_bus: "testdev_world\<lparr>pci_bus := testdev_regs\<rparr> = testdev_world"
  by (simp add: testdev_world_def)

section \<open>Properties\<close>

text \<open>
  C28: \<open>pci_bar_size\<close> returns the size of the block that the device decodes at the register, 0 if it
  decodes none, for I/O, 32-bit and 64-bit memory BARs, and the registers of all devices read as
  before afterwards.
\<close>

theorem pci_bar_size_correct:
  assumes "config_space E ok view wm" and "ok b" and "0 \<le> i" and "i < 6"
    and "bar_at (view b (bdf dev)) (wm (bdf dev)) i kind"
  shows "\<exists>b'. pci_bar_size E dev i (w\<lparr>pci_bus := b\<rparr>) = Ret (bar_bytes kind, w\<lparr>pci_bus := b'\<rparr>) \<and> view b' = view b \<and> ok b'"
  by (rule config_space.bar_size [OF assms]) blast

theorem pci_bar_size_correct_witness:
  "\<exists>b'. pci_bar_size testdev_env testdev 0 testdev_world = Ret (4096, testdev_world\<lparr>pci_bus := b'\<rparr>) \<and> b' = testdev_regs"
  using pci_bar_size_correct [OF testdev_space, where b = "testdev_regs" and i = 0 and dev = testdev and kind = "BarMem32 12 0" and w = testdev_world]
    testdev_bars(1) by (simp add: testdev_def world_bus)

text \<open>
  C30: an address that fits a BAR and is programmed with \<open>pci_bar_set_addr\<close> reads back: the BAR decodes it and
  keeps its kind; the address is noted as the resource of the BAR, for both registers of a 64-bit BAR, and the other resources
  stay; and no register changes but the one of the BAR and, for a 64-bit BAR only, the next one.
\<close>

theorem pci_bar_set_addr_reads_back:
  assumes "config_space E ok view wm" and "ok b" and "0 \<le> i" and "i < 6"
    and "bar_at (view b (bdf dev)) (wm (bdf dev)) i kind" and "bar_fits kind a" and "a \<noteq> INVALID_PHYS_ADDR"
    and "length (resource dev) = 6" and "resource dev ! nat i \<noteq> INVALID_PHYS_ADDR"
    and "\<forall>b. cfg_translate E b (bdf dev) a = p" and "p \<noteq> INVALID_PHYS_ADDR"
  shows "\<exists>dev' b' b''. pci_bar_set_addr E dev i a (w\<lparr>pci_bus := b\<rparr>) = Ret (dev', w\<lparr>pci_bus := b'\<rparr>)
    \<and> pci_bar_read_addr E dev' i (w\<lparr>pci_bus := b'\<rparr>) = Ret (p, w\<lparr>pci_bus := b''\<rparr>)
    \<and> resource dev' = (if bar_wide kind then (resource dev)[nat i := a, nat (i + 1) := a] else (resource dev)[nat i := a])
    \<and> bar_at (view b' (bdf dev)) (wm (bdf dev)) i kind
    \<and> (\<forall>d r. d \<noteq> bdf dev \<or> r \<noteq> bar_off i \<and> (r \<noteq> bar_off (i + 1) \<or> \<not> bar_wide kind) \<longrightarrow> view b' d r = view b d r)"
proof -
  obtain dev' b' where s: "pci_bar_set_addr E dev i a (w\<lparr>pci_bus := b\<rparr>) = Ret (dev', w\<lparr>pci_bus := b'\<rparr>)"
    "bar_at (view b' (bdf dev)) (wm (bdf dev)) i kind" "bar_addr (view b' (bdf dev)) i = a" "ok b'"
    "\<forall>d. d \<noteq> bdf dev \<longrightarrow> view b' d = view b d"
    "\<forall>r. r \<noteq> bar_off i \<and> (r \<noteq> bar_off (i + 1) \<or> \<not> bar_wide kind) \<longrightarrow> view b' (bdf dev) r = view b (bdf dev) r"
    "bdf dev' = bdf dev" "resource dev' = (if bar_wide kind then (resource dev)[nat i := a, nat (i + 1) := a] else (resource dev)[nat i := a])"
    by (rule config_space.bar_set_addr [OF assms(1-9)])
  have t: "\<forall>b. cfg_translate E b (bdf dev') (bar_addr (view b' (bdf dev')) i) = p"
    using assms(10) s(3,7) by simp
  obtain b'' where r: "pci_bar_read_addr E dev' i (w\<lparr>pci_bus := b'\<rparr>) = Ret (p, w\<lparr>pci_bus := b''\<rparr>)"
    by (rule config_space.bar_read_addr [OF assms(1) s(4) assms(3,4) _ t assms(11) refl])
      (use bar_size64(1) [OF s(2)] s(7) in simp)
  have "\<forall>d r. d \<noteq> bdf dev \<or> r \<noteq> bar_off i \<and> (r \<noteq> bar_off (i + 1) \<or> \<not> bar_wide kind) \<longrightarrow> view b' d r = view b d r"
    using s(5,6) by (metis (full_types))
  then show ?thesis
    using s(1,2,8) r by blast
qed

theorem pci_bar_set_addr_reads_back_witness:
  "\<exists>dev' b' b''. pci_bar_set_addr testdev_env testdev 0 0xe0000000 testdev_world = Ret (dev', testdev_world\<lparr>pci_bus := b'\<rparr>)
    \<and> pci_bar_read_addr testdev_env dev' 0 (testdev_world\<lparr>pci_bus := b'\<rparr>) = Ret (0xe0000000, testdev_world\<lparr>pci_bus := b''\<rparr>)
    \<and> resource dev' = [0xe0000000, 0, 0, 0, 0, 0] \<and> b' 3 0x14 = 0xc001"
proof -
  have fits: "bar_fits (BarMem32 12 0) 0xe0000000"
    by (simp add: bar_fits_def take_bit_eq_mask mask_numeral)
  have tr: "\<forall>b. cfg_translate testdev_env b (bdf testdev) 0xe0000000 = 0xe0000000"
    by (simp add: testdev_translate)
  have dev: "bdf testdev = 3" "resource testdev = replicate 6 0" "length (resource testdev) = 6"
    by (simp_all add: testdev_def)
  have inv: "(0xe0000000 :: u64) \<noteq> INVALID_PHYS_ADDR" "resource testdev ! nat 0 \<noteq> INVALID_PHYS_ADDR"
    by (simp_all add: testdev_def INVALID_PHYS_ADDR_def)
  have bar: "bar_at (testdev_regs (bdf testdev)) (testdev_wm (bdf testdev)) 0 (BarMem32 12 0)"
    unfolding dev(1) by (rule testdev_bars(1))
  obtain dev' b' b'' where r: "pci_bar_set_addr testdev_env testdev 0 0xe0000000 testdev_world = Ret (dev', testdev_world\<lparr>pci_bus := b'\<rparr>)"
    "pci_bar_read_addr testdev_env dev' 0 (testdev_world\<lparr>pci_bus := b'\<rparr>) = Ret (0xe0000000, testdev_world\<lparr>pci_bus := b''\<rparr>)"
    "resource dev' = (resource testdev)[nat 0 := 0xe0000000]" "\<forall>d r. d \<noteq> bdf testdev \<or> r \<noteq> bar_off 0 \<longrightarrow> b' d r = testdev_regs d r"
    using pci_bar_set_addr_reads_back [where b = testdev_regs and i = 0 and dev = testdev and w = testdev_world,
        OF testdev_space TrueI order.refl _ bar fits inv(1) dev(3) inv(2) tr inv(1), unfolded world_bus]
    by (auto simp: bar_wide_def)
  moreover have "b' 3 0x14 = 0xc001"
    using r(4) by (simp add: bar_off_def testdev_regs_def)
  moreover have "(resource testdev)[nat 0 := 0xe0000000] = [0xe0000000, 0, 0, 0, 0, 0]"
    by (simp add: dev(2) numeral_eq_Suc)
  ultimately show ?thesis
    by auto
qed

text \<open>
  C29: \<open>pci_dev_init\<close> fills the resources of a device with the addresses its BARs decode, as the bus
  translates them; an absent BAR gets \<open>INVALID_PHYS_ADDR\<close>, and both halves of a 64-bit BAR get its address.
  The registers of all devices read as before.
\<close>

theorem pci_dev_init_resources:
  assumes "config_space E ok view wm" and "ok b" and "bars_ok E dev (view b dev) (wm dev) K A 0"
  shows "\<exists>b' rs. pci_dev_init E dev (w\<lparr>pci_bus := b\<rparr>) = Ret (\<lparr>bdf = dev, msi_offset = 0, resource = rs\<rparr>, w\<lparr>pci_bus := b'\<rparr>)
    \<and> view b' = view b \<and> ok b' \<and> length rs = 6 \<and> resources_match K A 0 rs"
  using config_space.init_loop [OF assms(1,2), of 0 "\<lparr>bdf = dev, msi_offset = 0, resource = replicate 6 0\<rparr>" K A w] assms(3)
  by (auto simp: pci_dev_init_def PCI_BAR_NUM_def)

definition testdev_kind :: "int \<Rightarrow> bar_kind" where
  "testdev_kind i = (if i = 0 then BarMem32 12 0 else if i = 1 then BarIo 8 else BarNone)"

definition testdev_addr :: "int \<Rightarrow> u64" where
  "testdev_addr i = (if i = 0 then 0xfebf1000 else 0xc000)"

lemma testdev_reach: "bar_reach testdev_kind i j \<Longrightarrow> 0 \<le> i \<Longrightarrow> 0 \<le> j"
  unfolding bar_reach_def
  by (induction rule: rtranclp_induct) (auto simp: bar_next_def testdev_kind_def split: bar_kind.split if_splits)

theorem pci_dev_init_resources_witness:
  "\<exists>b' rs. pci_dev_init testdev_env 3 testdev_world = Ret (\<lparr>bdf = 3, msi_offset = 0, resource = rs\<rparr>, testdev_world\<lparr>pci_bus := b'\<rparr>)
    \<and> rs ! 0 = 0xfebf1000 \<and> length rs = 6"
proof -
  have "bar_at (testdev_regs 3) (testdev_wm 3) j (testdev_kind j)" if "0 \<le> j" "j < 6" for j
    using testdev_bars that by (cases "j = 0"; cases "j = 1") (auto simp: testdev_kind_def)
  moreover have "bar_addr (testdev_regs 3) 0 = 0xfebf1000" "bar_addr (testdev_regs 3) 1 = 0xc000"
    by (simp_all add: bar_addr_def testdev_regs_def bar_off_def pci_bar_mask_def Let_def)
  ultimately have "bars_ok testdev_env 3 (testdev_regs 3) (testdev_wm 3) testdev_kind testdev_addr 0"
    using testdev_reach [of 0]
    by (auto simp: bars_ok_def testdev_addr_def testdev_kind_def testdev_translate INVALID_PHYS_ADDR_def
        split: if_splits)
  then obtain b' rs where "pci_dev_init testdev_env 3 testdev_world = Ret (\<lparr>bdf = 3, msi_offset = 0, resource = rs\<rparr>, testdev_world\<lparr>pci_bus := b'\<rparr>)"
    "length rs = 6" "resources_match testdev_kind testdev_addr 0 rs"
    using pci_dev_init_resources [OF testdev_space, where b = "testdev_regs" and dev = 3 and w = testdev_world
        and K = testdev_kind and A = testdev_addr, unfolded world_bus]
    by fastforce
  moreover have "rs ! 0 = 0xfebf1000"
    using \<open>resources_match testdev_kind testdev_addr 0 rs\<close> [unfolded resources_match_def, rule_format, of 0]
    by (simp add: testdev_kind_def testdev_addr_def)
  ultimately show ?thesis
    by blast
qed

text \<open>
  \<open>pci_enable_defaults\<close> walks the chain of capabilities and ends with \<open>msi_offset\<close> at the last
  capability for message signalled interrupts, unchanged if there is none; it turns bus mastering
  on if that bit can be written, and changes no other register.
\<close>

theorem pci_enable_defaults_finds_msi:
  assumes "config_space E ok view wm" and "ok b"
    and "cap_chain (view b (bdf dev)) (cfg_byte (view b (bdf dev)) 0x34) cs" and "length cs \<le> 255"
  shows "\<exists>b'. pci_enable_defaults E dev (w\<lparr>pci_bus := b\<rparr>) =
      Ret (case filter (\<lambda>c. cfg_byte (view b (bdf dev)) c = PCI_CAP_ID_MSI) cs of
             [] \<Rightarrow> dev | msis \<Rightarrow> dev\<lparr>msi_offset := ucast (last msis)\<rparr>, w\<lparr>pci_bus := b'\<rparr>)
    \<and> (\<forall>d r. d \<noteq> bdf dev \<or> r \<noteq> 4 \<longrightarrow> view b' d r = view b d r)
    \<and> (bit (wm (bdf dev) 4) 2 \<longrightarrow> bit (view b' (bdf dev) 4) 2)"
proof -
  let ?v = "view b (bdf dev)"
  have "fold (cap_noted v) cs d = (case filter (\<lambda>c. cfg_byte v c = PCI_CAP_ID_MSI) cs of
      [] \<Rightarrow> d | msis \<Rightarrow> d\<lparr>msi_offset := ucast (last msis)\<rparr>)" for v d
    by (induction cs arbitrary: d) (auto simp: cap_noted_def split: list.splits)
  note e = this [of ?v dev]
  show ?thesis
    by (rule config_space.enable_defaults [OF assms, of w]) (use e in auto)
qed

text \<open>
  C31: a chain of known capabilities that does not end, as a faulty device can present it, makes
  \<open>pci_enable_defaults\<close> stop with the assertion on the count instead of looping.
\<close>

theorem pci_cap_walk_endless:
  assumes "config_space E ok view wm" and "ok b"
    and "\<forall>k. cap_at (view b (bdf dev)) (cfg_byte (view b (bdf dev)) 0x34) k \<noteq> 0
      \<and> cfg_byte (view b (bdf dev)) (cap_at (view b (bdf dev)) (cfg_byte (view b (bdf dev)) 0x34) k) \<le> PCI_CAP_ID_MAX"
  shows "pci_cap_walk E pci_cap_setup dev (w\<lparr>pci_bus := b\<rparr>) = Abort ''++count <= 255''"
proof -
  obtain b1 where r: "read8 E (bdf dev) 0x34 (w\<lparr>pci_bus := b\<rparr>) = (cfg_byte (view b (bdf dev)) 0x34, w\<lparr>pci_bus := b1\<rparr>)"
    and v: "view b1 = view b" "ok b1"
    unfolding cfg_byte_def by (rule config_space.read8_view [OF assms(1,2)])
  show ?thesis
    using config_space.cap_loop_endless [OF assms(1) v(2), of 0 dev _ w] assms(3) v(1)
    by (simp add: pci_cap_walk_def r)
qed

text \<open>A device whose one capability points to itself.\<close>

definition loopdev_regs :: "u16 \<Rightarrow> u8 \<Rightarrow> u32" where
  "loopdev_regs d r = (if r = 0x34 then 0x40 else if r = 0x40 then 0x4005 else 0)"

theorem pci_cap_walk_endless_witness:
  "pci_cap_walk testdev_env pci_cap_setup testdev (testdev_world\<lparr>pci_bus := loopdev_regs\<rparr>) = Abort ''++count <= 255''"
proof -
  have b: "cfg_byte (loopdev_regs 3) 0x34 = 0x40" "cfg_byte (loopdev_regs 3) 0x40 = 5" "cfg_byte (loopdev_regs 3) 0x41 = 0x40"
    by (simp_all add: cfg_byte_def loopdev_regs_def)
  have "cap_at (loopdev_regs 3) 0x40 k = 0x40" for k
    by (induction k) (simp_all add: cap_at_simps b)
  then show ?thesis
    using pci_cap_walk_endless [OF testdev_space, where b = "loopdev_regs" and dev = testdev and w = testdev_world]
    by (simp add: testdev_def b PCI_CAP_ID_MAX_def)
qed

text \<open>
  \<open>pci_find_dev\<close> returns the first device number on bus 0 with the vendor and device
  identifiers, and \<open>PCIDEVADDR_INVALID\<close> if no device has them.
\<close>

theorem pci_find_dev_first:
  assumes "config_space E ok view wm" and "ok b"
  shows "\<exists>b'. pci_find_dev E ven did (w\<lparr>pci_bus := b\<rparr>) =
      (case find (\<lambda>i. cfg_half (view b (of_nat i)) 0 = ven \<and> cfg_half (view b (of_nat i)) 2 = did) [0..<256] of
         None \<Rightarrow> PCIDEVADDR_INVALID | Some i \<Rightarrow> of_nat i, w\<lparr>pci_bus := b'\<rparr>) \<and> view b' = view b"
  unfolding pci_find_dev_def PCI_DEVFN_MAX_def by (rule config_space.find_loop [OF assms]) blast



text \<open>
  C33: the port code of x86 on configuration mechanism 1. A double word access reaches the register that contains the offset. A byte
  or a half is always the lowest one of this register, because the code selects it by the low bits of the address, which
  the mechanism does not keep, and not by the port. So the functions do what their callers ask for at offsets whose two low
  bits are zero, and access another byte or half at all others.
\<close>

theorem conf1_access_lanes:
  assumes "conf1_ports P ok latch view wm" and "ok p"
  shows "(\<exists>p'. ok p' \<and> view p' = view p \<and> conf1_readl P p dev reg = (view p dev (reg AND NOT 3), p')
      \<and> conf1_readw P p dev reg = (cfg_half (view p dev) (reg AND NOT 3), p')
      \<and> conf1_readb P p dev reg = (cfg_byte (view p dev) (reg AND NOT 3), p'))
    \<and> view (conf1_writel P p dev reg v) = (view p)(dev := bar_write (view p dev) (wm dev) (reg AND NOT 3) v)
    \<and> view (conf1_writew P p dev reg h) = (view p)(dev := lane_write (view p dev) (wm dev) (reg AND NOT 3) 0 0xffff (ucast h))
    \<and> view (conf1_writeb P p dev reg y) = (view p)(dev := lane_write (view p dev) (wm dev) (reg AND NOT 3) 0 0xff (ucast y))"
  using conf1_ports.conf1_reads [OF assms] conf1_ports.conf1_writes [OF assms] by blast

theorem conf1_access_lanes_witness:
  "\<exists>p'. conf1_readw (sim_ports testdev_wm) (0, testdev_regs) 3 2 = (0x1b36, p') \<and> cfg_half (testdev_regs 3) 2 = 5"
proof -
  have "cfg_half (testdev_regs 3) (2 AND NOT 3) = 0x1b36" "cfg_half (testdev_regs 3) 2 = 5"
    by (simp_all add: cfg_half_def testdev_regs_def)
  then show ?thesis
    using conf1_access_lanes [OF conf1_sim.conf1_ports_axioms [of testdev_wm] TrueI, of "(0, testdev_regs)" 3 2 0 0 0] by auto
qed

end
