(* ===== verification/Pci_Host.thy ===== *)
theory Pci_Host
  imports Pci_Props Bitops
begin

text \<open>
  The generic PCI host bridge of \<^verbatim>\<open>lib/pci-host-generic.c\<close>: reading its windows from the device tree,
  assigning addresses to the BARs of all devices, and the lemmas that an assigned block is aligned,
  inside its window and apart from the blocks assigned before.
\<close>

section \<open>Probing the device tree\<close>

text \<open>
  What the device tree library answers to the queries of \<open>pci_dt_probe\<close>, in the order of the calls.
  A property is its cells or text with its length in bytes; \<open>Inr\<close> carries the error of a missing one.
  \<open>q_junk i\<close> is the content of the field \<^verbatim>\<open>allocated\<close> of entry \<open>i\<close> in the memory that \<^verbatim>\<open>malloc\<close> returns.
\<close>

record pci_dt =
  q_available :: bool
  q_root :: int
  q_root_cells :: "int \<times> u32 \<times> u32"
  q_node :: int
  q_device_type :: "(string \<times> int) option"
  q_base :: "int \<times> u64 \<times> u64"
  q_bus_range :: "u32 list + int"
  q_node_cells :: "int \<times> u32 \<times> u32"
  q_ranges :: "(u32 list \<times> int) option"
  q_malloc :: bool
  q_junk :: "nat \<Rightarrow> u64"

definition FDT_ERR_NOTFOUND :: int where
  "FDT_ERR_NOTFOUND = 1"

definition of_flags_to_pci_type :: "u32 \<Rightarrow> u32 outcome" where
  "of_flags_to_pci_type of_flags =
     (let idx = drop_bit 24 of_flags AND 3
      in if \<not> idx > 0 then Abort ''idx > 0''
         else
           let res = (if idx = 1 then 1 else if idx = 2 then 0 else 4)
           in Ret (if of_flags AND 0x40000000 \<noteq> 0 then res OR 8 else res))"

definition pci_bar_type :: "u32 \<Rightarrow> u32" where
  "pci_bar_type bar = (if bar AND 1 \<noteq> 0 then 1 else bar AND (6 OR 8))"

definition cells64 :: "u32 \<Rightarrow> u32 \<Rightarrow> u64" where
  "cells64 hi lo = push_bit 32 (ucast hi) OR ucast lo"

text \<open>One entry of \<^verbatim>\<open>ranges\<close>.\<close>

definition pci_dt_space :: "int \<Rightarrow> u64 \<Rightarrow> u32 list \<Rightarrow> pci_addr_space outcome" where
  "pci_dt_space nr_range_cells junk cells =
     bind_outcome (of_flags_to_pci_type (cells ! 0)) (\<lambda>ty.
     Ret (if nr_range_cells = 6
          then \<lparr>as_pci_start = cells64 (cells ! 1) (cells ! 2), as_start = ucast (cells ! 3),
                as_size = cells64 (cells ! 4) (cells ! 5), as_allocated = junk, as_type = ty\<rparr>
          else \<lparr>as_pci_start = cells64 (cells ! 1) (cells ! 2), as_start = cells64 (cells ! 3) (cells ! 4),
                as_size = cells64 (cells ! 5) (cells ! 6), as_allocated = junk, as_type = ty\<rparr>))"

fun pci_dt_spaces :: "nat \<Rightarrow> int \<Rightarrow> (nat \<Rightarrow> u64) \<Rightarrow> u32 list \<Rightarrow> pci_addr_space list outcome" where
  "pci_dt_spaces 0 nr_range_cells junk cells = Ret []"
| "pci_dt_spaces (Suc n) nr_range_cells junk cells =
     bind_outcome (pci_dt_space nr_range_cells (junk 0) cells) (\<lambda>as.
     bind_outcome (pci_dt_spaces n nr_range_cells (\<lambda>i. junk (Suc i)) (drop (nat nr_range_cells) cells)) (\<lambda>rest.
     Ret (as # rest)))"

text \<open>The bus numbers: the property \<^verbatim>\<open>bus-range\<close>, or all of them.\<close>

definition pci_dt_bus_range :: "u32 list + int \<Rightarrow> (u32 \<times> u32) outcome" where
  "pci_dt_bus_range prop = (case prop of
     Inr len \<Rightarrow> if len = - FDT_ERR_NOTFOUND then Ret (0, 0xff) else Abort ''len == -FDT_ERR_NOTFOUND''
   | Inl data \<Rightarrow> if data ! 0 \<le> data ! 1 then Ret (data ! 0, data ! 1) else Abort ''bus <= bus_max'')"

text \<open>The second part, after the controller node is found: windows and the bridge structure.\<close>

definition pci_dt_bridge :: "pci_dt \<Rightarrow> u32 \<Rightarrow> u64 \<Rightarrow> u64 \<Rightarrow> u32 \<Rightarrow> u32 \<Rightarrow> pci_host_bridge outcome" where
  "pci_dt_bridge q nac_root base_addr base_size bus bus_max =
     (case q_node_cells q of (ret, nac, nsc) \<Rightarrow>
      bind_outcome (assert_that (ret = 0) ''ret == 0'') (\<lambda>_.
      bind_outcome (assert_that (nac = 3 \<and> nsc = 2) ''nac == 3 && nsc == 2'') (\<lambda>_.
      case q_ranges q of
        None \<Rightarrow> Abort ''prop != NULL''
      | Some (cells, len) \<Rightarrow>
          let nr_range_cells = uint (nac + nsc + nac_root);
              nr_addr_spaces = len div 4 div nr_range_cells
          in bind_outcome (assert_that (nr_addr_spaces \<noteq> 0) ''nr_addr_spaces'') (\<lambda>_.
             bind_outcome (assert_that (q_malloc q) ''host != NULL'') (\<lambda>_.
             bind_outcome (pci_dt_spaces (nat nr_addr_spaces) nr_range_cells (q_junk q) cells) (\<lambda>spaces.
             Ret \<lparr>hb_start = base_addr, hb_size = base_size, hb_bus = bus, hb_bus_max = bus_max, addr_space = spaces\<rparr>))))))"

definition pci_dt_probe :: "pci_dt \<Rightarrow> 'm pci_world \<Rightarrow> (pci_host_bridge option \<times> 'm pci_world) outcome" where
  "pci_dt_probe q w =
     (if \<not> q_available q then
        bind_outcome (pci_printf (''No device tree found'' @ [NL]) [] w) (\<lambda>w. Ret (None, w))
      else
        bind_outcome (assert_that (q_root q \<ge> 0) ''node >= 0'') (\<lambda>_.
        case q_root_cells q of (ret, nac_root, nsc_root) \<Rightarrow>
        bind_outcome (assert_that (ret = 0) ''ret == 0'') (\<lambda>_.
        bind_outcome (assert_that (nac_root = 1 \<or> nac_root = 2) ''nac_root == 1 || nac_root == 2'') (\<lambda>_.
        if q_node q = - FDT_ERR_NOTFOUND then
          bind_outcome (pci_printf (''No PCIe ECAM compatible controller found'' @ [NL]) [] w) (\<lambda>w. Ret (None, w))
        else
          bind_outcome (assert_that (q_node q \<ge> 0) ''node >= 0'') (\<lambda>_.
          bind_outcome (assert_that (q_device_type q = Some (''pci'', 4)) ''prop && len == 4 && !strcmp(prop->data, pci)'') (\<lambda>_.
          case q_base q of (ret, base_addr, base_size) \<Rightarrow>
          bind_outcome (assert_that (ret = 0) ''ret == 0'') (\<lambda>_.
          bind_outcome (pci_dt_bus_range (q_bus_range q)) (\<lambda>(bus, bus_max).
          bind_outcome (assert_that (ucast bus_max < base_size div push_bit PCI_ECAM_BUS_SHIFT 1)
              ''bus_max < base.size / (1 << PCI_ECAM_BUS_SHIFT)'') (\<lambda>_.
          bind_outcome (pci_dt_bridge q nac_root base_addr base_size bus bus_max) (\<lambda>host.
          Ret (Some host, w)))))))))))"

section \<open>Assigning addresses\<close>

fun find_space :: "u32 \<Rightarrow> nat \<Rightarrow> pci_addr_space list \<Rightarrow> nat" where
  "find_space ty i [] = i"
| "find_space ty i (as # rest) = (if as_type as = ty then i else find_space ty (Suc i) rest)"

text \<open>The block taken from a window: its address and the window afterwards.\<close>

definition take_block :: "u64 \<Rightarrow> pci_addr_space \<Rightarrow> (u64 \<times> pci_addr_space) outcome" where
  "take_block sz as =
     (let pci_addr = ALIGN (as_pci_start as + as_allocated as) sz;
          sz = sz + (pci_addr - (as_pci_start as + as_allocated as))
      in if \<not> as_allocated as + sz \<le> as_size as then Abort ''as->allocated + size <= as->size''
         else Ret (pci_addr, as\<lparr>as_allocated := as_allocated as + sz\<rparr>))"

definition pci_alloc_resource ::
    "'m mmio_ops \<Rightarrow> pci_host_bridge \<Rightarrow> pci_dev \<Rightarrow> int \<Rightarrow> 'm pci_world
     \<Rightarrow> ((bool \<times> u64 \<times> pci_host_bridge) \<times> 'm pci_world) outcome" where
  "pci_alloc_resource M host dev bar_num w =
     (let E = ecam_env M host in
      bind_outcome (pci_bar_size E dev bar_num w) (\<lambda>(sz, w).
      if sz = 0 then Ret ((False, INVALID_PHYS_ADDR, host), w)
      else
        bind_outcome (pci_bar_get E dev bar_num w) (\<lambda>(bar, w).
        let ty = pci_bar_type bar;
            ty = (if ty AND 6 \<noteq> 0 then ty AND NOT 8 else ty);
            i = find_space ty 0 (addr_space host)
        in if i \<ge> length (addr_space host) then
             bind_outcome (pci_printf ''%s: warning: can't satisfy request for '' [VStr ''pci_alloc_resource''] w) (\<lambda>w.
             bind_outcome (pci_dev_print_id E dev w) (\<lambda>w.
             bind_outcome (pci_printf '' '' [] w) (\<lambda>w.
             bind_outcome (pci_bar_print E dev bar_num w) (\<lambda>w.
             bind_outcome (pci_printf [NL] [] w) (\<lambda>w.
             Ret ((False, INVALID_PHYS_ADDR, host), w))))))
           else
             bind_outcome (take_block sz (addr_space host ! i)) (\<lambda>(pci_addr, as).
             Ret ((True, pci_addr, host\<lparr>addr_space := (addr_space host)[i := as]\<rparr>), w)))))"

function pci_probe_bars ::
    "'m mmio_ops \<Rightarrow> int \<Rightarrow> pci_host_bridge \<Rightarrow> pci_dev \<Rightarrow> u32 \<Rightarrow> 'm pci_world
     \<Rightarrow> ((u32 \<times> pci_host_bridge) \<times> 'm pci_world) outcome" where
  "pci_probe_bars M i host dev cmd w =
     (if \<not> i < PCI_BAR_NUM then Ret ((cmd, host), w)
      else
        bind_outcome (pci_alloc_resource M host dev i w) (\<lambda>((found, addr, host), w).
        bind_outcome
          (if found then
             bind_outcome (pci_bar_set_addr (ecam_env M host) dev i addr w) (\<lambda>(dev, w).
             bind_outcome (pci_bar_is_memory (ecam_env M host) dev i w) (\<lambda>(memory, w).
             Ret ((dev, if memory then cmd OR 2 else cmd OR 1), w)))
           else Ret ((dev, cmd), w))
          (\<lambda>((dev, cmd), w).
             bind_outcome (pci_bar_is64 (ecam_env M host) dev i w) (\<lambda>(is64, w).
             pci_probe_bars M (if is64 then i + 2 else i + 1) host dev cmd w))))"
  by pat_completeness auto
termination
  by (relation "measure (\<lambda>(M, i, host, dev, cmd, w). nat (PCI_BAR_NUM - i))") auto

declare pci_probe_bars.simps [simp del]

fun pci_probe_loop ::
    "'m mmio_ops \<Rightarrow> nat list \<Rightarrow> pci_host_bridge \<Rightarrow> 'm pci_world \<Rightarrow> (pci_host_bridge \<times> 'm pci_world) outcome" where
  "pci_probe_loop M [] host w = Ret (host, w)"
| "pci_probe_loop M (i # devs) host w =
     (let dev = of_nat i;
          (found, w) = pci_dev_exists (ecam_env M host) dev w
      in if \<not> found then pci_probe_loop M devs host w
         else
           bind_outcome (pci_dev_init (ecam_env M host) dev w) (\<lambda>(pci_dev, w).
           let (header, w) = read8 (ecam_env M host) dev 0x0e w
           in if header AND 0x7f \<noteq> 0 then pci_probe_loop M devs host w
              else
                bind_outcome (pci_probe_bars M 0 host pci_dev (0x100 OR 0x40) w) (\<lambda>((cmd, host), w).
                pci_probe_loop M devs host (write16 (ecam_env M host) dev 4 (ucast cmd) w))))"

text \<open>\<open>pci_probe\<close>; the first argument is the static \<^verbatim>\<open>pci_host_bridge\<close>.\<close>

definition pci_probe ::
    "'m mmio_ops \<Rightarrow> pci_host_bridge option \<Rightarrow> pci_dt \<Rightarrow> 'm pci_world
     \<Rightarrow> ((bool \<times> pci_host_bridge option) \<times> 'm pci_world) outcome" where
  "pci_probe M bridge q w =
     bind_outcome (assert_that (bridge = None) ''!pci_host_bridge'') (\<lambda>_.
     bind_outcome (pci_dt_probe q w) (\<lambda>(bridge, w).
     case bridge of
       None \<Rightarrow> Ret ((False, None), w)
     | Some host \<Rightarrow>
         bind_outcome (pci_probe_loop M [0..<PCI_DEVFN_MAX] host w) (\<lambda>(host, w).
         Ret ((True, Some host), w))))"

section \<open>Assigned blocks\<close>

lemma take_block_room:
  assumes "k < 64" and "as_allocated as \<le> as_size as" and "unat (as_pci_start as) + unat (as_size as) + 2 * 2 ^ k \<le> 2 ^ 64"
  shows "case take_block (2 ^ k) as of
      Abort _ \<Rightarrow> unat (as_pci_start as) + unat (as_size as) < unat (ALIGN (as_pci_start as + as_allocated as) (2 ^ k)) + 2 ^ k
    | Ret (a, as') \<Rightarrow> 2 ^ k dvd unat a
        \<and> unat (as_pci_start as) + unat (as_allocated as) \<le> unat a
        \<and> unat a + 2 ^ k = unat (as_pci_start as) + unat (as_allocated as')
        \<and> as' = as\<lparr>as_allocated := as_allocated as'\<rparr> \<and> as_allocated as' \<le> as_size as"
proof -
  let ?x = "as_pci_start as + as_allocated as" and ?p = "2 ^ k :: u64"
  let ?a = "ALIGN ?x ?p"
  have p: "unat ?p = 2 ^ k"
    using assms(1) by simp
  have le: "unat (as_allocated as) \<le> unat (as_size as)"
    using assms(2) by (simp add: word_le_nat_alt)
  have k0: "0 < (2 :: nat) ^ k"
    by simp
  have "unat (as_pci_start as) + unat (as_allocated as) < 2 ^ 64"
    using assms(3) le k0 by linarith
  then have x: "unat ?x = unat (as_pci_start as) + unat (as_allocated as)"
    by (intro unat_add_lem [THEN iffD1]) simp
  have r: "unat ?x + 2 ^ k - 1 < 2 ^ 64"
    unfolding x using assms(3) le k0 by linarith
  note A = ALIGN_least(1,2) [OF assms(1) r] and D = aligned_ALIGN [of k ?x, unfolded aligned_iff_dvd]
  have d: "unat (?a - ?x) = unat ?a - unat ?x"
    using A(1) by (simp add: unat_sub word_le_nat_alt)
  have s: "unat (?p + (?a - ?x)) = 2 ^ k + (unat ?a - unat ?x)"
  proof -
    have "2 ^ k + (unat ?a - unat ?x) < 2 ^ 64"
      using A assms(3) k0 by linarith
    then show ?thesis
      using unat_add_lem [of ?p "?a - ?x"] by (simp add: d p)
  qed
  have t: "unat (as_allocated as + (?p + (?a - ?x))) = unat (as_allocated as) + (2 ^ k + (unat ?a - unat ?x))"
  proof -
    have "unat (as_allocated as) + (2 ^ k + (unat ?a - unat ?x)) < 2 ^ 64"
      using A assms(3) k0 le x by linarith
    then show ?thesis
      using unat_add_lem [of "as_allocated as" "?p + (?a - ?x)"] by (simp add: s)
  qed
  show ?thesis
    using A D x t by (auto simp: take_block_def Let_def word_le_nat_alt not_le)
qed

lemma find_space_first:
  assumes "find_space ty i spaces < i + length spaces"
  shows "i \<le> find_space ty i spaces \<and> as_type (spaces ! (find_space ty i spaces - i)) = ty"
  using assms
proof (induction spaces arbitrary: i)
  case (Cons as spaces)
  show ?case
  proof (cases "as_type as = ty")
    case False
    then have "find_space ty (Suc i) spaces < Suc i + length spaces"
      using Cons.prems by simp
    from Cons.IH [OF this] False show ?thesis
      by (simp add: nth_Cons' Suc_le_eq)
  qed simp
qed simp

text \<open>The window type that a BAR with the register value \<open>v\<close> is served from.\<close>

definition wanted_type :: "u32 \<Rightarrow> u32" where
  "wanted_type v = (let ty = pci_bar_type v in if ty AND 6 \<noteq> 0 then ty AND NOT 8 else ty)"

text \<open>
  C27: \<open>pci_alloc_resource\<close> gives a BAR a block of its size out of the first window of the wanted type:
  the address is aligned to the size, the block lies behind everything the window has given out
  before and inside the window, and the mark moves to its end; the code stops when the window has
  no room, and returns false when no window has the type.
\<close>

theorem pci_alloc_resource_block:
  assumes "ecam_window M host ok view wm" and "ok b" and "0 \<le> i" and "i < 6"
    and "bar_at (view b (bdf dev)) (wm (bdf dev)) i kind" and "bar_bytes kind = 2 ^ k" and "k < 64"
    and "j = find_space (wanted_type (view b (bdf dev) (bar_off i))) 0 (addr_space host)" and "j < length (addr_space host)"
    and "as = addr_space host ! j" and "as_allocated as \<le> as_size as"
    and "unat (as_pci_start as) + unat (as_size as) + 2 * 2 ^ k \<le> 2 ^ 64"
  shows "case pci_alloc_resource M host dev i (w\<lparr>pci_bus := b\<rparr>) of
      Abort msg \<Rightarrow> msg = ''as->allocated + size <= as->size''
        \<and> unat (as_pci_start as) + unat (as_size as) < unat (ALIGN (as_pci_start as + as_allocated as) (2 ^ k)) + 2 ^ k
    | Ret ((found, a, host'), w') \<Rightarrow> found \<and> 2 ^ k dvd unat a
        \<and> unat (as_pci_start as) + unat (as_allocated as) \<le> unat a
        \<and> unat a + 2 ^ k = unat (as_pci_start as) + unat (as_allocated (addr_space host' ! j))
        \<and> as_allocated (addr_space host' ! j) \<le> as_size as
        \<and> host' = host\<lparr>addr_space := (addr_space host)[j := as\<lparr>as_allocated := as_allocated (addr_space host' ! j)\<rparr>]\<rparr>
        \<and> view (pci_bus w') = view b"
proof -
  have cs: "config_space (ecam_env M host) ok view wm"
    using assms(1) by (rule ecam_window.ecam_space)
  obtain b1 where sz: "pci_bar_size (ecam_env M host) dev i (w\<lparr>pci_bus := b\<rparr>) = Ret (bar_bytes kind, w\<lparr>pci_bus := b1\<rparr>)"
    and v1: "view b1 = view b" "ok b1"
    by (rule config_space.bar_size [OF cs assms(2-5)])
  obtain b2 where g: "pci_bar_get (ecam_env M host) dev i (w\<lparr>pci_bus := b1\<rparr>) =
      Ret (view b1 (bdf dev) (bar_off i), w\<lparr>pci_bus := b2\<rparr>)" and v2: "view b2 = view b1" "ok b2"
    by (rule config_space.bar_get [OF cs v1(2) assms(3,4)])
  have p: "(2 :: u64) ^ k \<noteq> 0"
    using assms(7) by simp
  note T = take_block_room [OF assms(7,11,12)]
  have r: "pci_alloc_resource M host dev i (w\<lparr>pci_bus := b\<rparr>) =
      bind_outcome (take_block (2 ^ k) as) (\<lambda>(a, as'). Ret ((True, a, host\<lparr>addr_space := (addr_space host)[j := as']\<rparr>), w\<lparr>pci_bus := b2\<rparr>))"
    unfolding pci_alloc_resource_def Let_def sz bind_outcome.simps prod.case g v1(1) assms(6)
    using p assms(9) unfolding assms(8,10) wanted_type_def Let_def by simp
  show ?thesis
  proof (cases "take_block (2 ^ k) as")
    case (Abort msg)
    then have "msg = ''as->allocated + size <= as->size''"
      by (auto simp: take_block_def Let_def split: if_splits)
    then show ?thesis
      using T unfolding r by (simp add: Abort)
  next
    case (Ret x)
    obtain a as' where x: "x = (a, as')"
      by (cases x)
    show ?thesis
      using T v1 v2 assms(9) unfolding r by (auto simp: Ret x)
  qed
qed

definition test_bridge :: pci_host_bridge where
  "test_bridge = \<lparr>hb_start = 0x3f000000, hb_size = 0x1000000, hb_bus = 0, hb_bus_max = 15,
     addr_space = [\<lparr>as_pci_start = 0x10000000, as_start = 0x10000000, as_size = 0x2eff0000, as_allocated = 0x1800, as_type = 0\<rparr>]\<rparr>"

theorem pci_alloc_resource_block_witness:
  "case pci_alloc_resource (sim_window testdev_wm 0x3f000000) test_bridge testdev 0 \<lparr>pci_bus = testdev_regs, pci_out = []\<rparr> of
     Abort msg \<Rightarrow> False
   | Ret ((found, a, host'), w') \<Rightarrow> found \<and> 4096 dvd unat a \<and> 0x10001800 \<le> unat a"
proof -
  let ?as = "addr_space test_bridge ! 0"
  have w: "ecam_window (sim_window testdev_wm 0x3f000000) test_bridge (\<lambda>_. True) (\<lambda>v. v) testdev_wm"
    using ecam_sim.ecam_window_axioms [of testdev_wm test_bridge] by (simp add: test_bridge_def)
  have b: "bar_at (testdev_regs (bdf testdev)) (testdev_wm (bdf testdev)) 0 (BarMem32 12 0)"
    using testdev_bars(1) by (simp add: testdev_def)
  have j: "0 = find_space (wanted_type (testdev_regs (bdf testdev) (bar_off 0))) 0 (addr_space test_bridge)"
    by (simp add: test_bridge_def testdev_def testdev_regs_def bar_off_def wanted_type_def pci_bar_type_def Let_def)
  have a: "ALIGN (as_pci_start ?as + as_allocated ?as) (2 ^ 12) = 0x10002000"
    by (simp add: test_bridge_def ALIGN_def ALIGN_MASK_def)
  have u: "(\<lparr>pci_bus = undefined, pci_out = []\<rparr>)\<lparr>pci_bus := testdev_regs\<rparr> = \<lparr>pci_bus = testdev_regs, pci_out = []\<rparr>"
    by simp
  show ?thesis
    using pci_alloc_resource_block [OF w, where b = testdev_regs and i = 0 and dev = testdev and kind = "BarMem32 12 0" and k = 12
        and j = 0 and as = ?as and w = "\<lparr>pci_bus = undefined, pci_out = []\<rparr>", unfolded u] b j a
    by (auto simp: test_bridge_def split: outcome.splits)
qed

end
