(* ===== verification/Pci_Testdev.thy ===== *)
theory Pci_Testdev
  imports Pci_Host
begin

text \<open>
  The driver \<^verbatim>\<open>lib/pci-testdev.c\<close> for the test device of QEMU: it runs the tests that the device offers in a
  header at the start of its memory BAR and of its I/O BAR, and counts them. The hardware behind
  port and memory accesses is an argument. The loops over the tests and over a name end only if
  the device ends them, so they return an option.
\<close>

section \<open>Accessing the header\<close>

record 'h pci_testdev_ops =
  io_readb :: "'h \<Rightarrow> u64 \<Rightarrow> u8 \<times> 'h"
  io_readw :: "'h \<Rightarrow> u64 \<Rightarrow> u16 \<times> 'h"
  io_readl :: "'h \<Rightarrow> u64 \<Rightarrow> u32 \<times> 'h"
  io_writeb :: "'h \<Rightarrow> u8 \<Rightarrow> u64 \<Rightarrow> 'h"
  io_writew :: "'h \<Rightarrow> u16 \<Rightarrow> u64 \<Rightarrow> 'h"
  io_writel :: "'h \<Rightarrow> u32 \<Rightarrow> u64 \<Rightarrow> 'h"
  is_io :: bool

definition pio_readb :: "'h port_ops \<Rightarrow> 'h \<Rightarrow> u64 \<Rightarrow> u8 \<times> 'h" where
  "pio_readb P h addr = port_inb P h (ucast addr)"

definition pio_readw :: "'h port_ops \<Rightarrow> 'h \<Rightarrow> u64 \<Rightarrow> u16 \<times> 'h" where
  "pio_readw P h addr = port_inw P h (ucast addr)"

definition pio_readl :: "'h port_ops \<Rightarrow> 'h \<Rightarrow> u64 \<Rightarrow> u32 \<times> 'h" where
  "pio_readl P h addr = port_inl P h (ucast addr)"

definition pio_writeb :: "'h port_ops \<Rightarrow> 'h \<Rightarrow> u8 \<Rightarrow> u64 \<Rightarrow> 'h" where
  "pio_writeb P h v addr = port_outb P h v (ucast addr)"

definition pio_writew :: "'h port_ops \<Rightarrow> 'h \<Rightarrow> u16 \<Rightarrow> u64 \<Rightarrow> 'h" where
  "pio_writew P h v addr = port_outw P h v (ucast addr)"

definition pio_writel :: "'h port_ops \<Rightarrow> 'h \<Rightarrow> u32 \<Rightarrow> u64 \<Rightarrow> 'h" where
  "pio_writel P h v addr = port_outl P h v (ucast addr)"

definition pci_testdev_io_ops :: "'h port_ops \<Rightarrow> 'h pci_testdev_ops" where
  "pci_testdev_io_ops P =
     \<lparr>io_readb = pio_readb P, io_readw = pio_readw P, io_readl = pio_readl P,
      io_writeb = pio_writeb P, io_writew = pio_writew P, io_writel = pio_writel P, is_io = True\<rparr>"

text \<open>The functions \<^verbatim>\<open>mmio_readb\<close> to \<^verbatim>\<open>mmio_writel\<close> are plain volatile accesses.\<close>

definition pci_testdev_mem_ops :: "'h mmio_ops \<Rightarrow> 'h pci_testdev_ops" where
  "pci_testdev_mem_ops M =
     \<lparr>io_readb = mmio_readb M, io_readw = mmio_readw M, io_readl = mmio_readl M,
      io_writeb = mmio_writeb M, io_writew = mmio_writew M, io_writel = mmio_writel M, is_io = False\<rparr>"

text \<open>The offsets of the fields of \<^verbatim>\<open>struct pci_test_dev_hdr\<close>.\<close>

datatype hdr_field = F_test | F_width | F_offset | F_data | F_count | F_name

primrec hdr_off :: "hdr_field \<Rightarrow> u64" where
  "hdr_off F_test = 0"
| "hdr_off F_width = 1"
| "hdr_off F_offset = 4"
| "hdr_off F_data = 8"
| "hdr_off F_count = 12"
| "hdr_off F_name = 16"

section \<open>Running the tests\<close>

definition nr_writes :: nat where
  "nr_writes = 16"

definition testdev_write :: "'h pci_testdev_ops \<Rightarrow> u8 \<Rightarrow> u32 \<Rightarrow> u64 \<Rightarrow> 'h \<Rightarrow> 'h" where
  "testdev_write ops width sig addr h =
     (if width = 1 then io_writeb ops h (ucast sig) addr
      else if width = 2 then io_writew ops h (ucast sig) addr
      else io_writel ops h sig addr)"

definition pci_testdev_one :: "'h pci_testdev_ops \<Rightarrow> u64 \<Rightarrow> nat \<Rightarrow> 'h \<Rightarrow> bool \<times> 'h" where
  "pci_testdev_one ops test test_nr h =
     (let h = io_writeb ops h (of_nat test_nr) (test + hdr_off F_test);
          (count, h) = io_readl ops h (test + hdr_off F_count)
      in if count \<noteq> 0 then (False, h)
         else
           let (width, h) = io_readb ops h (test + hdr_off F_width)
           in if width \<noteq> 1 \<and> width \<noteq> 2 \<and> width \<noteq> 4 then (False, h)
              else
                let (sig, h) = io_readl ops h (test + hdr_off F_data);
                    (off, h) = io_readl ops h (test + hdr_off F_offset);
                    h = (testdev_write ops width sig (test + ucast off) ^^ nr_writes) h;
                    (count, h) = io_readl ops h (test + hdr_off F_count)
                in if count = 0 then (True, h) else (sint count = int nr_writes, h))"

partial_function (option) testdev_name_loop ::
    "'h pci_testdev_ops \<Rightarrow> u64 \<Rightarrow> nat \<Rightarrow> string \<Rightarrow> 'h \<Rightarrow> (string \<times> 'h) option" where
  "testdev_name_loop ops test i out h =
     (case io_readb ops h (test + hdr_off F_name + of_nat i) of
        (c, h) \<Rightarrow> if c = 0 then Some (out, h)
                  else testdev_name_loop ops test (i + 1) (out @ [char_of (unat c)]) h)"

definition pci_testdev_print :: "'h pci_testdev_ops \<Rightarrow> u64 \<Rightarrow> 'h pci_world \<Rightarrow> 'h pci_world option" where
  "pci_testdev_print ops test w =
     (let head = (if is_io ops then ''pci-testdev  io: '' else ''pci-testdev mem: '')
      in case testdev_name_loop ops test 0 (pci_out w @ head) (pci_bus w) of
           None \<Rightarrow> None
         | Some (out, h) \<Rightarrow> Some \<lparr>pci_bus = h, pci_out = out @ [NL]\<rparr>)"

partial_function (option) testdev_all_loop ::
    "'h pci_testdev_ops \<Rightarrow> u64 \<Rightarrow> nat \<Rightarrow> 'h pci_world \<Rightarrow> (nat \<times> 'h pci_world) option" where
  "testdev_all_loop ops test i w =
     (case pci_testdev_one ops test i (pci_bus w) of
        (ok, h) \<Rightarrow>
          if \<not> ok then Some (i, w\<lparr>pci_bus := h\<rparr>)
          else (case pci_testdev_print ops test (w\<lparr>pci_bus := h\<rparr>) of
                  None \<Rightarrow> None
                | Some w \<Rightarrow> testdev_all_loop ops test (i + 1) w))"

definition pci_testdev_all :: "'h pci_testdev_ops \<Rightarrow> u64 \<Rightarrow> 'h pci_world \<Rightarrow> (nat \<times> 'h pci_world) option" where
  "pci_testdev_all ops test w = testdev_all_loop ops test 0 w"

text \<open>\<open>remap\<close> is \<open>ioremap\<close> for the page of the memory BAR.\<close>

definition pci_testdev ::
    "'h pci_env \<Rightarrow> 'h port_ops \<Rightarrow> 'h mmio_ops \<Rightarrow> (u64 \<Rightarrow> u64) \<Rightarrow> 'h pci_world \<Rightarrow> (int \<times> 'h pci_world) outcome option" where
  "pci_testdev E P M remap w =
     (let (dev, w) = pci_find_dev E 0x1b36 0x0005 w
      in if dev = PCIDEVADDR_INVALID then
           Some (bind_outcome
             (pci_printf ([CHR 0x27] @ ''pci-testdev'' @ [CHR 0x27] @ '' device is not found, check QEMU '' @ [CHR 0x27]
               @ ''-device pci-testdev'' @ [CHR 0x27] @ '' parameter'' @ [NL]) [] w) (\<lambda>w. Ret (- 1, w)))
         else
           (case pci_dev_init E dev w of
              Abort e \<Rightarrow> Some (Abort e)
            | Ret (pci_dev, w) \<Rightarrow>
                (case bind_outcome (pci_bar_is_valid pci_dev 0) (\<lambda>v0.
                        if v0 then pci_bar_is_valid pci_dev 1 else Ret False) of
                   Abort e \<Rightarrow> Some (Abort e)
                 | Ret False \<Rightarrow> Some (Abort ''ret'')
                 | Ret True \<Rightarrow>
                     (case bind_outcome (pci_bar_get_addr pci_dev 0) (\<lambda>a0.
                             bind_outcome (pci_bar_get_addr pci_dev 1) (\<lambda>a1. Ret (remap a0, a1))) of
                        Abort e \<Rightarrow> Some (Abort e)
                      | Ret (mem_bar, io_bar) \<Rightarrow>
                          (case pci_testdev_all (pci_testdev_mem_ops M) mem_bar w of
                             None \<Rightarrow> None
                           | Some (n, w) \<Rightarrow>
                               (case pci_testdev_all (pci_testdev_io_ops P) io_bar w of
                                  None \<Rightarrow> None
                                | Some (k, w) \<Rightarrow> Some (Ret (int n + int k, w))))))))"

end
