(* ===== verification/Ept.thy ===== *)
theory Ept
  imports X86_Split Report
begin

text \<open>
  The extended page tables of \<^verbatim>\<open>x86/vmx.c\<close>, with the constants of \<^verbatim>\<open>x86/vmx.h\<close>: installing an entry, with the
  large pages on the way split, mapping a range one to one, reading and writing the entry of a level, and clearing and checking
  the accessed and dirty flags of the tables that a guest walk uses. Addresses are physical and mapped one to one.
\<close>

unbundle bit_operations_syntax

section \<open>Constants\<close>

definition EPT_RA :: u64 where
  "EPT_RA = 1"

definition EPT_WA :: u64 where
  "EPT_WA = 2"

definition EPT_EA :: u64 where
  "EPT_EA = 4"

definition EPT_PRESENT :: u64 where
  "EPT_PRESENT = EPT_RA OR EPT_WA OR EPT_EA"

definition EPT_ACCESS_FLAG :: u64 where
  "EPT_ACCESS_FLAG = push_bit 8 1"

definition EPT_DIRTY_FLAG :: u64 where
  "EPT_DIRTY_FLAG = push_bit 9 1"

definition EPT_LARGE_PAGE :: u64 where
  "EPT_LARGE_PAGE = push_bit 7 1"

definition EPT_PAGE_LEVEL :: nat where
  "EPT_PAGE_LEVEL = 4"

definition EPT_PGDIR_WIDTH :: nat where
  "EPT_PGDIR_WIDTH = 9"

definition EPT_PGDIR_MASK :: u64 where
  "EPT_PGDIR_MASK = 511"

definition EPT_PGDIR_ENTRIES :: nat where
  "EPT_PGDIR_ENTRIES = push_bit EPT_PGDIR_WIDTH 1"

definition EPT_LEVEL_SHIFT :: "nat \<Rightarrow> nat" where
  "EPT_LEVEL_SHIFT level = (level - 1) * EPT_PGDIR_WIDTH + 12"

definition EPT_ADDR_MASK :: u64 where
  "EPT_ADDR_MASK = GENMASK_ULL 51 12"

definition PAGE_SIZE_2M :: u64 where
  "PAGE_SIZE_2M = 512 * PAGE_SIZE"

definition PAGE_SIZE_1G :: u64 where
  "PAGE_SIZE_1G = 512 * PAGE_SIZE_2M"

definition ept_present :: "u64 \<Rightarrow> bool" where
  "ept_present pte \<longleftrightarrow> pte AND EPT_PRESENT \<noteq> 0"

definition ept_large :: "u64 \<Rightarrow> bool" where
  "ept_large pte \<longleftrightarrow> pte AND EPT_LARGE_PAGE \<noteq> 0"

definition ept_offset :: "u64 \<Rightarrow> nat \<Rightarrow> u64" where
  "ept_offset guest_addr level = drop_bit (EPT_LEVEL_SHIFT level) guest_addr AND EPT_PGDIR_MASK"

section \<open>Installing entries\<close>

primrec split_ept_loop :: "nat \<Rightarrow> u64 \<Rightarrow> u64 \<Rightarrow> nat \<Rightarrow> u64 \<Rightarrow> nat \<Rightarrow> mem \<Rightarrow> mem" where
  "split_ept_loop 0 new_pt prototype level gpa i m = m"
| "split_ept_loop (Suc k) new_pt prototype level gpa i m =
     split_ept_loop k new_pt prototype level (gpa + push_bit (EPT_LEVEL_SHIFT (level - 1)) 1) (i + 1)
       (store64 m (entry new_pt (of_nat i)) (prototype OR gpa))"

definition split_large_ept_entry :: "u64 \<Rightarrow> nat \<Rightarrow> machine \<Rightarrow> machine outcome" where
  "split_large_ept_entry ptep level s =
     (let pte = load64 (ram s) ptep in
      bind_outcome (assert_that (ept_present pte) ''pte & EPT_PRESENT'') (\<lambda>_.
      bind_outcome (assert_that (ept_large pte) ''pte & EPT_LARGE_PAGE'') (\<lambda>_.
      bind_outcome (assert_that (level = 2 \<or> level = 3) ''level == 2 || level == 3'') (\<lambda>_.
      let (new_pt, s) = alloc_page s in
      bind_outcome (assert_that (new_pt \<noteq> 0) ''new_pt'') (\<lambda>_.
      let prototype = pte AND NOT EPT_ADDR_MASK;
          prototype = (if level = 2 then prototype AND NOT EPT_LARGE_PAGE else prototype);
          m = split_ept_loop EPT_PGDIR_ENTRIES new_pt prototype level (pte AND EPT_ADDR_MASK) 0 (ram s);
          pte = ((pte AND NOT EPT_LARGE_PAGE) AND NOT EPT_ADDR_MASK) OR new_pt
      in Ret (s\<lparr>ram := store64 m ptep pte\<rparr>))))))"

text \<open>
  The loop of \<open>install_ept_entry\<close> returns the table that holds the entry. A page given by the caller is used for the
  first missing table only.
\<close>

function install_ept_walk :: "nat \<Rightarrow> nat \<Rightarrow> u64 \<Rightarrow> u64 \<Rightarrow> u64 \<Rightarrow> machine \<Rightarrow> (u64 \<times> machine) outcome" where
  "install_ept_walk level pte_level guest_addr pt pt_page s =
     (if level > pte_level then
        let a = entry pt (ept_offset guest_addr level) in
        bind_outcome
          (if \<not> ept_present (load64 (ram s) a) then
             let (new_pt, pt_page, s) =
                   (if pt_page = 0 then (let (p, s) = alloc_page s in (p, 0, s)) else (pt_page, 0, s));
                 s = s\<lparr>ram := memset (ram s) new_pt 0 PAGE_SIZE\<rparr>
             in Ret (pt_page, s\<lparr>ram := store64 (ram s) a (new_pt OR EPT_RA OR EPT_WA OR EPT_EA)\<rparr>)
           else if ept_large (load64 (ram s) a) then
             bind_outcome (split_large_ept_entry a level s) (\<lambda>s. Ret (pt_page, s))
           else Ret (pt_page, s))
          (\<lambda>(pt_page, s). install_ept_walk (level - 1) pte_level guest_addr (load64 (ram s) a AND EPT_ADDR_MASK) pt_page s)
      else Ret (pt, s))"
  by pat_completeness auto

termination
  by (relation "measure (\<lambda>(level, _). level)") auto

declare install_ept_walk.simps [simp del]

definition install_ept_entry :: "u64 \<Rightarrow> nat \<Rightarrow> u64 \<Rightarrow> u64 \<Rightarrow> u64 \<Rightarrow> machine \<Rightarrow> machine outcome" where
  "install_ept_entry pml4 pte_level guest_addr pte pt_page s =
     bind_outcome (assert_that (guest_addr < push_bit 48 1) ''guest_addr < (1ul << 48)'') (\<lambda>_.
     bind_outcome (install_ept_walk EPT_PAGE_LEVEL pte_level guest_addr pml4 pt_page s) (\<lambda>(pt, s).
     Ret (s\<lparr>ram := store64 (ram s) (entry pt (ept_offset guest_addr pte_level)) pte\<rparr>)))"

definition install_ept :: "u64 \<Rightarrow> u64 \<Rightarrow> u64 \<Rightarrow> u64 \<Rightarrow> machine \<Rightarrow> machine outcome" where
  "install_ept pml4 phys guest_addr perm s = install_ept_entry pml4 1 guest_addr ((phys AND PAGE_MASK) OR perm) 0 s"

definition install_1g_ept :: "u64 \<Rightarrow> u64 \<Rightarrow> u64 \<Rightarrow> u64 \<Rightarrow> machine \<Rightarrow> machine outcome" where
  "install_1g_ept pml4 phys guest_addr perm s =
     install_ept_entry pml4 3 guest_addr ((phys AND PAGE_MASK) OR perm OR EPT_LARGE_PAGE) 0 s"

definition install_2m_ept :: "u64 \<Rightarrow> u64 \<Rightarrow> u64 \<Rightarrow> u64 \<Rightarrow> machine \<Rightarrow> machine outcome" where
  "install_2m_ept pml4 phys guest_addr perm s =
     install_ept_entry pml4 2 guest_addr ((phys AND PAGE_MASK) OR perm OR EPT_LARGE_PAGE) 0 s"

text \<open>
  The three loops of \<open>setup_ept_range\<close> differ in the step and the routine called. The comparison wraps around, so a
  loop near the end of the address space need not end; not returning is \<open>None\<close>.
\<close>

partial_function (option) ept_range_loop ::
  "u64 \<Rightarrow> (u64 \<Rightarrow> machine \<Rightarrow> machine outcome) \<Rightarrow> u64 \<Rightarrow> u64 \<Rightarrow> machine \<Rightarrow> (u64 \<times> machine) outcome option" where
  "ept_range_loop step install phys limit s =
     (if phys + step \<le> limit then
        (case install phys s of
           Ret s \<Rightarrow> ept_range_loop step install (phys + step) limit s
         | Abort msg \<Rightarrow> Some (Abort msg))
      else Some (Ret (phys, s)))"

definition bind_loop :: "'a outcome option \<Rightarrow> ('a \<Rightarrow> 'b outcome option) \<Rightarrow> 'b outcome option" where
  "bind_loop r f = (case r of None \<Rightarrow> None | Some (Ret x) \<Rightarrow> f x | Some (Abort msg) \<Rightarrow> Some (Abort msg))"

definition setup_ept_range :: "u64 \<Rightarrow> u64 \<Rightarrow> u64 \<Rightarrow> bool \<Rightarrow> bool \<Rightarrow> u64 \<Rightarrow> machine \<Rightarrow> machine outcome option" where
  "setup_ept_range pml4 start len map_1g map_2m perm s =
     (let phys = start; limit = len + start in
      bind_loop (if map_1g then ept_range_loop PAGE_SIZE_1G (\<lambda>phys. install_1g_ept pml4 phys phys perm) phys limit s
                 else Some (Ret (phys, s))) (\<lambda>(phys, s).
      bind_loop (if map_2m then ept_range_loop PAGE_SIZE_2M (\<lambda>phys. install_2m_ept pml4 phys phys perm) phys limit s
                 else Some (Ret (phys, s))) (\<lambda>(phys, s).
      bind_loop (ept_range_loop PAGE_SIZE (\<lambda>phys. install_ept pml4 phys phys perm) phys limit s) (\<lambda>(phys, s).
      Some (Ret s)))))"

section \<open>Reading and writing the entry of a level\<close>

text \<open>\<open>None\<close> stands for the result \<^verbatim>\<open>false\<close>.\<close>

primrec get_ept_loop :: "mem \<Rightarrow> u64 \<Rightarrow> nat \<Rightarrow> nat \<Rightarrow> u64 \<Rightarrow> u64 option" where
  "get_ept_loop m guest_addr level 0 pt = None"
| "get_ept_loop m guest_addr level (Suc k) pt =
     (let l = Suc k; iter_pte = load64 m (entry pt (ept_offset guest_addr l)) in
      if l = level then Some iter_pte
      else if l < 4 \<and> ept_large iter_pte then None
      else if \<not> ept_present iter_pte then None
      else get_ept_loop m guest_addr level k (iter_pte AND EPT_ADDR_MASK))"

definition get_ept_pte :: "mem \<Rightarrow> u64 \<Rightarrow> u64 \<Rightarrow> nat \<Rightarrow> u64 option outcome" where
  "get_ept_pte m pml4 guest_addr level =
     bind_outcome (assert_that (level \<ge> 1 \<and> level \<le> 4) ''level >= 1 && level <= 4'') (\<lambda>_.
     Ret (get_ept_loop m guest_addr level EPT_PAGE_LEVEL pml4))"

primrec set_ept_loop :: "u64 \<Rightarrow> nat \<Rightarrow> nat \<Rightarrow> u64 \<Rightarrow> u64 \<Rightarrow> machine \<Rightarrow> machine outcome" where
  "set_ept_loop guest_addr level 0 pt pte_val s = Ret s"
| "set_ept_loop guest_addr level (Suc k) pt pte_val s =
     (let l = Suc k; a = entry pt (ept_offset guest_addr l) in
      if l = level then Ret (s\<lparr>ram := store64 (ram s) a pte_val\<rparr>)
      else bind_outcome (assert_that (ept_present (load64 (ram s) a)) ''pt[offset] & EPT_PRESENT'') (\<lambda>_.
        set_ept_loop guest_addr level k (load64 (ram s) a AND EPT_ADDR_MASK) pte_val s))"

definition set_ept_pte :: "u64 \<Rightarrow> u64 \<Rightarrow> nat \<Rightarrow> u64 \<Rightarrow> machine \<Rightarrow> machine outcome" where
  "set_ept_pte pml4 guest_addr level pte_val s =
     bind_outcome (assert_that (level \<ge> 1 \<and> level \<le> 4) ''level >= 1 && level <= 4'') (\<lambda>_.
     set_ept_loop guest_addr level EPT_PAGE_LEVEL pml4 pte_val s)"

section \<open>Accessed and dirty flags\<close>

primrec clear_ept_ad_loop :: "u64 \<Rightarrow> nat \<Rightarrow> u64 \<Rightarrow> mem \<Rightarrow> mem" where
  "clear_ept_ad_loop guest_addr 0 pt m = m"
| "clear_ept_ad_loop guest_addr (Suc k) pt m =
     (let l = Suc k; a = entry pt (ept_offset guest_addr l);
          m = store64 m a (load64 m a AND NOT (EPT_ACCESS_FLAG OR EPT_DIRTY_FLAG));
          pte = load64 m a in
      if l = 1 \<or> l < 4 \<and> ept_large pte then m else clear_ept_ad_loop guest_addr k (pte AND EPT_ADDR_MASK) m)"

definition clear_ept_ad_pte :: "u64 \<Rightarrow> u64 \<Rightarrow> mem \<Rightarrow> mem" where
  "clear_ept_ad_pte pml4 guest_addr m = clear_ept_ad_loop guest_addr EPT_PAGE_LEVEL pml4 m"

text \<open>The final guest physical address of a walk that ends with the entry \<open>pte\<close> of level \<open>l\<close>.\<close>

definition walk_gpa :: "nat \<Rightarrow> u64 \<Rightarrow> u64 \<Rightarrow> u64" where
  "walk_gpa l pte guest_addr =
     (let offset_in_page = guest_addr AND (push_bit (EPT_LEVEL_SHIFT l) 1 - 1)
      in (pte AND PT_ADDR_MASK) OR (guest_addr AND offset_in_page))"

primrec clear_ad_walk :: "u64 \<Rightarrow> u64 \<Rightarrow> nat \<Rightarrow> u64 \<Rightarrow> mem \<Rightarrow> mem" where
  "clear_ad_walk pml4 guest_addr 0 pt m = m"
| "clear_ad_walk pml4 guest_addr (Suc k) pt m =
     (let l = Suc k; a = entry pt (ept_offset guest_addr l);
          m = clear_ept_ad_pte pml4 a m;
          pte = load64 m a in
      if l = 1 \<or> l < 4 \<and> large pte then clear_ept_ad_pte pml4 (walk_gpa l pte guest_addr) m
      else if \<not> present pte then m
      else clear_ad_walk pml4 guest_addr k (pte AND PT_ADDR_MASK) m)"

definition clear_ept_ad :: "u64 \<Rightarrow> u64 \<Rightarrow> u64 \<Rightarrow> machine \<Rightarrow> machine" where
  "clear_ept_ad pml4 guest_cr3 guest_addr s = s\<lparr>ram := clear_ad_walk pml4 guest_addr EPT_PAGE_LEVEL guest_cr3 (ram s)\<rparr>"

definition flag_args :: "u64 \<Rightarrow> vararg list" where
  "flag_args ad = [VInt (of_bool (ad AND EPT_ACCESS_FLAG \<noteq> 0)), VInt (of_bool (ad AND EPT_DIRTY_FLAG \<noteq> 0))]"

text \<open>The part of \<open>check_ept_ad\<close> after its loop.\<close>

definition check_ad_end ::
  "mem \<Rightarrow> u64 \<Rightarrow> u64 \<Rightarrow> u64 \<Rightarrow> u64 \<Rightarrow> nat \<Rightarrow> u64 \<Rightarrow> bool \<Rightarrow> report_state \<Rightarrow> report_state outcome" where
  "check_ad_end m pml4 guest_addr expected_gpa_ad expected_pt_ad l pte bad_pt_ad r =
     bind_outcome (if \<not> bad_pt_ad then report r ''EPT - guest page table structures A=%d/D=%d'' True (flag_args expected_pt_ad)
                   else Ret r) (\<lambda>r.
     bind_outcome (get_ept_pte m pml4 (walk_gpa l pte guest_addr) 1) (\<lambda>g.
     case g of
       None \<Rightarrow> report r ''EPT - guest physical address is not mapped'' False []
     | Some ept_pte \<Rightarrow> report r ''EPT - guest physical address A=%d/D=%d''
         (ept_pte AND (EPT_ACCESS_FLAG OR EPT_DIRTY_FLAG) = expected_gpa_ad) (flag_args expected_gpa_ad)))"

primrec check_ad_walk ::
  "mem \<Rightarrow> u64 \<Rightarrow> u64 \<Rightarrow> u64 \<Rightarrow> u64 \<Rightarrow> nat \<Rightarrow> u64 \<Rightarrow> bool \<Rightarrow> report_state \<Rightarrow> report_state outcome" where
  "check_ad_walk m pml4 guest_addr expected_gpa_ad expected_pt_ad 0 pt bad_pt_ad r = Ret r"
| "check_ad_walk m pml4 guest_addr expected_gpa_ad expected_pt_ad (Suc k) pt bad_pt_ad r =
     (let l = Suc k; a = entry pt (ept_offset guest_addr l) in
      bind_outcome (get_ept_pte m pml4 a 1) (\<lambda>g.
      case g of
        None \<Rightarrow> bind_outcome (printf_out (''EPT - guest level %d page table is not mapped.'' @ [CHR 0x0A]) [VInt (of_nat l)])
          (\<lambda>t. Ret (puts r t))
      | Some ept_pte \<Rightarrow>
          let bad = bad_pt_ad \<or> ept_pte AND (EPT_ACCESS_FLAG OR EPT_DIRTY_FLAG) \<noteq> expected_pt_ad in
          bind_outcome (if \<not> bad_pt_ad \<and> bad then
              report r ''EPT - guest level %d page table A=%d/D=%d'' False (VInt (of_nat l) # flag_args expected_pt_ad)
            else Ret r) (\<lambda>r.
          let pte = load64 m a in
          if l = 1 \<or> l < 4 \<and> large pte then
            check_ad_end m pml4 guest_addr expected_gpa_ad expected_pt_ad l pte bad r
          else if \<not> present pte then Ret r
          else check_ad_walk m pml4 guest_addr expected_gpa_ad expected_pt_ad k (pte AND PT_ADDR_MASK) bad r)))"

definition check_ept_ad :: "mem \<Rightarrow> u64 \<Rightarrow> u64 \<Rightarrow> u64 \<Rightarrow> u64 \<Rightarrow> u64 \<Rightarrow> report_state \<Rightarrow> report_state outcome" where
  "check_ept_ad m pml4 guest_cr3 guest_addr expected_gpa_ad expected_pt_ad r =
     check_ad_walk m pml4 guest_addr expected_gpa_ad expected_pt_ad EPT_PAGE_LEVEL guest_cr3 False r"

section \<open>Capabilities and invalidation\<close>

text \<open>The capability register \<open>ept_vpid\<close> is an argument.\<close>

definition EPT_CAP_WT :: u64 where
  "EPT_CAP_WT = 1"

definition EPT_CAP_2M_PAGE :: u64 where
  "EPT_CAP_2M_PAGE = push_bit 16 1"

definition EPT_CAP_1G_PAGE :: u64 where
  "EPT_CAP_1G_PAGE = push_bit 17 1"

definition EPT_CAP_AD_FLAG :: u64 where
  "EPT_CAP_AD_FLAG = push_bit 21 1"

definition EPT_CAP_INVEPT_SINGLE :: u64 where
  "EPT_CAP_INVEPT_SINGLE = push_bit 25 1"

definition EPT_CAP_INVEPT_ALL :: u64 where
  "EPT_CAP_INVEPT_ALL = push_bit 26 1"

definition VPID_CAP_INVVPID_CXTGLB :: u64 where
  "VPID_CAP_INVVPID_CXTGLB = push_bit 41 1"

definition VPID_CAP_INVVPID_ALL :: u64 where
  "VPID_CAP_INVVPID_ALL = push_bit 42 1"

definition ept_2m_supported :: "u64 \<Rightarrow> bool" where
  "ept_2m_supported ept_vpid \<longleftrightarrow> ept_vpid AND EPT_CAP_2M_PAGE \<noteq> 0"

definition ept_1g_supported :: "u64 \<Rightarrow> bool" where
  "ept_1g_supported ept_vpid \<longleftrightarrow> ept_vpid AND EPT_CAP_1G_PAGE \<noteq> 0"

definition ept_huge_pages_supported :: "u64 \<Rightarrow> nat \<Rightarrow> bool" where
  "ept_huge_pages_supported ept_vpid level =
     (if level = 2 then ept_2m_supported ept_vpid else if level = 3 then ept_1g_supported ept_vpid else False)"

definition ept_execute_only_supported :: "u64 \<Rightarrow> bool" where
  "ept_execute_only_supported ept_vpid \<longleftrightarrow> ept_vpid AND EPT_CAP_WT \<noteq> 0"

definition ept_ad_bits_supported :: "u64 \<Rightarrow> bool" where
  "ept_ad_bits_supported ept_vpid \<longleftrightarrow> ept_vpid AND EPT_CAP_AD_FLAG \<noteq> 0"

text \<open>
  The operand of the invalidation that is executed, the type and the pointer or identifier, or \<open>None\<close> when only the
  warning is printed. The types are 1 and 2 for both instructions.
\<close>

definition ept_sync :: "u64 \<Rightarrow> nat \<Rightarrow> u64 \<Rightarrow> (nat \<times> u64) option" where
  "ept_sync ept_vpid ty eptp =
     (if ty = 1 \<and> ept_vpid AND EPT_CAP_INVEPT_SINGLE \<noteq> 0 then Some (1, eptp)
      else if (ty = 1 \<or> ty = 2) \<and> ept_vpid AND EPT_CAP_INVEPT_ALL \<noteq> 0 then Some (2, eptp)
      else None)"

definition vpid_sync :: "u64 \<Rightarrow> nat \<Rightarrow> u16 \<Rightarrow> (nat \<times> u64) option" where
  "vpid_sync ept_vpid ty vpid =
     (if ty = 1 \<and> ept_vpid AND VPID_CAP_INVVPID_CXTGLB \<noteq> 0 then Some (1, ucast vpid)
      else if (ty = 1 \<or> ty = 2) \<and> ept_vpid AND VPID_CAP_INVVPID_ALL \<noteq> 0 then Some (2, ucast vpid)
      else None)"

end
