(* ===== verification/Ept_Map.thy ===== *)
theory Ept_Map
  imports Ept
begin

text \<open>
  What the installation routines make of the extended page tables: the tables are a radix tree whose entries are present
  when one of the permissions is set, and \<open>install_ept_entry\<close> meets the contract of an installation that splits the
  large pages on its way.
\<close>

unbundle bit_operations_syntax

section \<open>The names of the constants\<close>

lemma ept_consts: "EPT_ADDR_MASK = PT_ADDR_MASK" "EPT_LARGE_PAGE = PT_PAGE_SIZE_MASK" "EPT_LEVEL_SHIFT = PGDIR_BITS"
    "ept_offset = PGDIR_OFFSET" "ept_large = large" "EPT_PGDIR_ENTRIES = 512" "EPT_PAGE_LEVEL = 4"
  unfolding fun_eq_iff EPT_ADDR_MASK_def PT_ADDR_MASK_def EPT_LARGE_PAGE_def PT_PAGE_SIZE_MASK_def EPT_LEVEL_SHIFT_def
    PGDIR_BITS_def ept_offset_def PGDIR_OFFSET_def ept_large_def large_def
  by (simp_all add: EPT_PGDIR_WIDTH_def PGDIR_WIDTH_def PAGE_SHIFT_def EPT_PGDIR_MASK_def PGDIR_MASK_def EPT_PGDIR_ENTRIES_def EPT_PAGE_LEVEL_def)

lemma bit_ept_flags: "bit EPT_RA n \<longleftrightarrow> n = 0" "bit EPT_WA n \<longleftrightarrow> n = 1" "bit EPT_EA n \<longleftrightarrow> n = 2"
  using bit_exp_iff [of 0 n] bit_exp_iff [of 1 n] bit_exp_iff [of 2 n]
  by (auto simp: EPT_RA_def EPT_WA_def EPT_EA_def bit_1_iff)

lemma ept_present_iff: "ept_present e \<longleftrightarrow> (\<exists>n < 3. bit e n)"
proof -
  have "ept_present e \<longleftrightarrow> (\<exists>n. bit (e AND EPT_PRESENT) n)"
    unfolding ept_present_def by (metis bit_eqI bit_0_eq bot_apply bot_bool_def)
  also have "\<dots> \<longleftrightarrow> (\<exists>n < 3. bit e n)"
    by (auto simp: EPT_PRESENT_def bit_and_iff bit_or_iff bit_ept_flags less_Suc_eq numeral_3_eq_3 numeral_2_eq_2)
  finally show ?thesis .
qed

lemma split_ept_loop_eq: "split_ept_loop k p proto t gpa i m = split_loop k p proto t gpa i m"
  by (induction k arbitrary: gpa i m) (simp_all add: ept_consts)

lemma split_large_ept_entry_result:
  assumes fl: "free_list s (p # fs)" and "p \<noteq> 0" and "load64 (ram s) a = e" and "ept_present e" and "large e" and "t = 2 \<or> t = 3"
  shows "split_large_ept_entry a t s = Ret (split_result t p e a (snd (alloc_page s)))"
  using assms alloc_page_pop(1) [OF fl]
  by (cases "alloc_page s") (auto simp: split_large_ept_entry_def split_result_def split_ept_loop_eq Let_def ept_consts)

section \<open>The installation as a walk from one table\<close>

definition ept_code :: "nat \<Rightarrow> nat \<Rightarrow> u64 \<Rightarrow> u64 \<Rightarrow> u64 \<Rightarrow> machine \<Rightarrow> machine outcome" where
  "ept_code level pte_level guest_addr pte pt s =
     bind_outcome (install_ept_walk level pte_level guest_addr pt 0 s) (\<lambda>(pt, s).
       Ret (s\<lparr>ram := store64 (ram s) (entry pt (ept_offset guest_addr pte_level)) pte\<rparr>))"

text \<open>The same walk, except that the page size bit is ignored in the top level table, as the processor does.\<close>

definition ept_from :: "nat \<Rightarrow> nat \<Rightarrow> u64 \<Rightarrow> u64 \<Rightarrow> u64 \<Rightarrow> machine \<Rightarrow> machine outcome" where
  "ept_from level pte_level guest_addr pte pt s =
     (let e = load64 (ram s) (entry pt (PGDIR_OFFSET guest_addr 4)) in
      if level = 4 \<and> pte_level < 4 \<and> ept_present e then ept_code 3 pte_level guest_addr pte (e AND PT_ADDR_MASK) s
      else ept_code level pte_level guest_addr pte pt s)"

lemma ept_code_here:
  "ept_code l l virt pte pt s = Ret (s\<lparr>ram := store64 (ram s) (entry pt (PGDIR_OFFSET virt l)) pte\<rparr>)"
  unfolding ept_code_def by (subst install_ept_walk.simps) (simp add: ept_consts)

lemma ept_code_down:
  assumes "t < Suc l" and "load64 (ram s) (entry pt (PGDIR_OFFSET virt (Suc l))) = e" and "ept_present e" and "\<not> large e"
  shows "ept_code (Suc l) t virt pte pt s = ept_code l t virt pte (e AND PT_ADDR_MASK) s"
  using assms unfolding ept_code_def by (subst install_ept_walk.simps) (simp add: ept_consts Let_def)

lemma ept_code_new:
  assumes "t < Suc l" and "a = entry pt (PGDIR_OFFSET virt (Suc l))" and "\<not> ept_present (load64 (ram s) a)" and "free_list s (p # fs)"
    and "s1 = new_table (EPT_RA OR EPT_WA OR EPT_EA) a s"
  shows "ept_code (Suc l) t virt pte pt s = ept_code l t virt pte (load64 (ram s1) a AND PT_ADDR_MASK) s1"
proof -
  obtain q s0 where q: "alloc_page s = (q, s0)"
    by (cases "alloc_page s")
  show ?thesis
    using assms(1-3,5) alloc_page_clear [OF assms(4)] q unfolding ept_code_def
    by (subst install_ept_walk.simps) (simp add: Let_def new_table_def ept_consts)
qed

lemma ept_code_split:
  assumes "t < Suc l" and "a = entry pt (PGDIR_OFFSET virt (Suc l))" and "load64 (ram s) a = e" and "ept_present e" and "huge (Suc l) e"
    and fl: "free_list s (p # fs)" and "p \<noteq> 0" and "s1 = split_result (Suc l) p e a (snd (alloc_page s))"
  shows "ept_code (Suc l) t virt pte pt s = ept_code l t virt pte (load64 (ram s1) a AND PT_ADDR_MASK) s1"
proof -
  have l: "Suc l = 2 \<or> Suc l = 3" and e: "large e"
    using assms(5) by (auto simp: huge_def)
  show ?thesis
    using assms(1-5,8) e split_large_ept_entry_result [OF fl assms(7,3,4) e l] unfolding ept_code_def
    by (subst install_ept_walk.simps) (simp add: Let_def ept_consts)
qed

interpretation ept_tree: radix ept_present "EPT_RA OR EPT_WA OR EPT_EA"
proof
  show "\<not> ept_present 0"
    by (simp add: ept_present_iff)
  show "ept_present (p OR (EPT_RA OR EPT_WA OR EPT_EA))" for p
    unfolding ept_present_iff by (rule exI [of _ 0]) (simp add: bit_or_iff bit_ept_flags)
  show "n < 7" if "bit (EPT_RA OR EPT_WA OR EPT_EA) n" for n
    using that by (auto simp: bit_or_iff bit_ept_flags)
  show "ept_present x = ept_present y" if "\<And>n. n < 3 \<Longrightarrow> bit x n = bit y n" for x y
    using that by (auto simp: ept_present_iff)
qed

interpretation ept_install: splitting_installer ept_present "EPT_RA OR EPT_WA OR EPT_EA" ept_from "\<lambda>_. Ret"
proof
  fix l t :: nat and virt pte pt e p :: u64 and s :: machine and fs
  let ?a = "entry pt (PGDIR_OFFSET virt (Suc l))"
  show "ept_from (Suc l) (Suc l) virt pte pt s = (let a = ?a in Ret (s\<lparr>ram := store64 (ram s) a pte\<rparr>))"
    by (auto simp: ept_from_def ept_code_here Let_def)
  assume t: "0 < t" "t < Suc l"
  show "ept_from (Suc l) t virt pte pt s = ept_from l t virt pte (e AND PT_ADDR_MASK) s"
    if "Suc l \<le> 4" "load64 (ram s) ?a = e" "ept_present e" "\<not> huge (Suc l) e"
  proof (cases "Suc l = 4")
    case True
    then have "l = 3"
      by simp
    then show ?thesis
      using that t by (simp add: ept_from_def)
  next
    case False
    then have "\<not> large e" "l \<noteq> 4"
      using that t by (auto simp: huge_def)
    then show ?thesis
      using False ept_code_down [OF t(2) that(2,3)] by (simp add: ept_from_def Let_def)
  qed
  show "let s1 = new_table (EPT_RA OR EPT_WA OR EPT_EA) ?a s
      in ept_from (Suc l) t virt pte pt s = ept_from l t virt pte (load64 (ram s1) ?a AND PT_ADDR_MASK) s1"
    if "Suc l \<le> 4" "\<not> ept_present (load64 (ram s) ?a)" "free_list s (p # fs)"
    using ept_code_new [OF t(2) refl that(2,3) refl] that t by (auto simp: ept_from_def Let_def)
  show "let a = ?a; s1 = split_result (Suc l) p e a (snd (alloc_page s))
      in ept_from (Suc l) t virt pte pt s = ept_from l t virt pte (load64 (ram s1) a AND PT_ADDR_MASK) s1"
    if "load64 (ram s) ?a = e" "ept_present e" "huge (Suc l) e" "free_list s (p # fs)" "p \<noteq> 0"
    using ept_code_split [OF t(2) refl that refl] that(3) by (auto simp: ept_from_def Let_def huge_def)
qed simp

lemma install_ept_entry_from:
  assumes "unat guest_addr < 2 ^ 48" and "t < 4"
    and "ept_present e \<longrightarrow> \<not> large e" and "e = load64 (ram s) (entry pml4 (PGDIR_OFFSET guest_addr 4))"
  shows "install_ept_entry pml4 t guest_addr pte 0 s = ept_from 4 t guest_addr pte pml4 s"
proof -
  have "guest_addr < push_bit 48 1"
    using assms(1) by (simp add: word_less_nat_alt)
  then have "install_ept_entry pml4 t guest_addr pte 0 s = ept_code 4 t guest_addr pte pml4 s"
    by (simp add: install_ept_entry_def ept_code_def ept_consts)
  also have "\<dots> = ept_from 4 t guest_addr pte pml4 s"
    using ept_code_down [of t 3 s pml4 guest_addr e pte] assms(2-4) by (simp add: ept_from_def Let_def)
  finally show ?thesis .
qed

abbreviation ept_tree_ok :: "mem \<Rightarrow> nat \<Rightarrow> u64 \<Rightarrow> u64 list \<Rightarrow> bool" where
  "ept_tree_ok \<equiv> gtree ept_present"

text \<open>
  The rights that the entries above level \<open>t\<close> leave a guest address: reading is bit 0, writing bit 1, fetching bit 2. The processor
  allows an access only when the entries of all levels do, so the rights of an address are those with \<open>t = 0\<close>. A missing table counts as one
  that restricts nothing.
\<close>

abbreviation ept_rights :: "mem \<Rightarrow> u64 \<Rightarrow> nat \<Rightarrow> u64 \<Rightarrow> u64" where
  "ept_rights m pml4 t ga \<equiv> grights 7 ept_present m 4 t pml4 ga"

text \<open>What the entry \<open>e\<close> of level \<open>t\<close> makes of a guest address, with the rights given: its host address, and the rights with the other attributes of the entry.\<close>

definition ept_page :: "nat \<Rightarrow> u64 \<Rightarrow> u64 \<Rightarrow> u64 \<Rightarrow> u64 \<times> u64" where
  "ept_page t e rights ga = (leaf t e ga, (e AND NOT PT_ADDR_MASK AND NOT PT_PAGE_SIZE_MASK AND NOT 7) OR rights)"

text \<open>The host address, the effective rights and the other attributes that the tables give a guest address.\<close>

definition ept_access :: "mem \<Rightarrow> u64 \<Rightarrow> u64 \<Rightarrow> (u64 \<times> u64) option" where
  "ept_access m pml4 ga = map_option (\<lambda>(l, e). ept_page l e (ept_rights m pml4 0 ga) ga) (glookup ept_present m 4 pml4 ga)"

lemma ept_access_leaf:
  "ept_access m pml4 ga = map_option (\<lambda>(a, x). (a, (x AND NOT 7) OR ept_rights m pml4 0 ga)) (access (glookup ept_present m 4 pml4 ga) ga)"
  by (simp add: ept_access_def ept_page_def access_def option.map_comp comp_def split_def and.assoc)

lemma ept_rwx: "EPT_RA OR EPT_WA OR EPT_EA = 7"
  by (simp add: EPT_RA_def EPT_WA_def EPT_EA_def)

lemma seven_mask: "(7 :: u64) = mask 3"
  by (simp add: mask_eq_exp_minus_1)

lemma ept_rights_above: "ept_rights m pml4 0 ga = 7 \<Longrightarrow> ept_rights m pml4 t ga = 7"
  using rights_upper [of 7 ept_present m 4 pml4 ga t] and_mask3(1) [of "ept_rights m pml4 t ga", folded seven_mask]
  unfolding rights_low by simp

lemma get_ept_loop_gfind:
  "1 \<le> t \<Longrightarrow> t \<le> lvl \<Longrightarrow> lvl \<le> 4 \<Longrightarrow> get_ept_loop m ga t lvl pt =
     (case gfind ept_present m lvl t ga pt of (l, a) \<Rightarrow> if l = t then Some (load64 m a) else None)"
proof (induction lvl arbitrary: pt)
  case 0
  then show ?case by simp
next
  case (Suc l)
  let ?e = "load64 m (entry pt (PGDIR_OFFSET ga (Suc l)))"
  show ?case
  proof (cases "t = Suc l")
    case False
    then have "t \<le> l" "Suc l < 4 \<and> large ?e \<longleftrightarrow> huge (Suc l) ?e"
      using Suc.prems by (auto simp: huge_def)
    then show ?thesis
      using Suc.IH [OF Suc.prems(1), of "?e AND PT_ADDR_MASK"] Suc.prems(3) False by (auto simp: ept_consts Let_def)
  qed (simp add: ept_consts Let_def)
qed

lemma install_ept_entry_splits:
  assumes "free_list s fs" and "ept_tree_ok (ram s) 4 pml4 fs" and ga: "unat ga < 2 ^ 48" and t: "0 < t" "t \<le> 3" and "7 - 2 * t \<le> length fs"
    and pte: "ept_present pte" "t = 1 \<or> large pte" and al: "galigned ept_present (ram s) t pml4 ga"
    and top: "groot_small ept_present (ram s) pml4"
  shows "\<exists>s' fs'. install_ept_entry pml4 t ga pte 0 s = Ret s' \<and> free_list s' fs' \<and> ept_tree_ok (ram s') 4 pml4 fs'
    \<and> length fs \<le> length fs' + (7 - 2 * t) \<and> groot_small ept_present (ram s') pml4
    \<and> (\<forall>gb. ept_access (ram s') pml4 gb = (if vpn t gb = vpn t ga
        then Some (ept_page t pte (ept_rights (ram s) pml4 t ga AND take_bit 3 pte) gb) else ept_access (ram s) pml4 gb))
    \<and> get_ept_pte (ram s') pml4 ga t = Ret (Some pte)"
proof -
  have h: "t = 1 \<or> huge t pte" and t4: "t \<le> 4"
    using t pte(2) by (auto simp: huge_def)
  obtain used fs' a s' where r: "ept_from 4 t ga pte pml4 s = Ret s'" "free_list s' fs'" "ept_tree_ok (ram s') 4 pml4 fs'"
      "\<forall>gb. access (glookup ept_present (ram s') 4 pml4 gb) gb =
        (if same_path t 4 gb ga then access (Some (t, pte)) gb else access (glookup ept_present (ram s) 4 pml4 gb) gb)"
      "gfind ept_present (ram s') 4 t ga pml4 = (t, a)" "load64 (ram s') a = pte" "fs = used @ fs'" "length used \<le> 7 - 2 * t"
      "groot_small ept_present (ram s') pml4" "\<forall>gb. ept_rights (ram s') pml4 0 gb =
        (if same_path t 4 gb ga then ept_rights (ram s) pml4 t ga AND take_bit 3 pte else ept_rights (ram s) pml4 0 gb)"
    using ept_install.inst_splits [OF assms(1,2) al t assms(6) pte(1) h] top unfolding ept_rwx by blast
  have "ept_access (ram s') pml4 gb = (if same_path t 4 gb ga
      then Some (ept_page t pte (ept_rights (ram s) pml4 t ga AND take_bit 3 pte) gb) else ept_access (ram s) pml4 gb)" for gb
    using r(4,10) unfolding ept_access_leaf by (simp add: access_def ept_page_def and.assoc)
  moreover
  have "get_ept_pte (ram s') pml4 ga t = Ret (Some pte)"
    using get_ept_loop_gfind [of t 4 "ram s'" ga pml4] r(5,6) t by (simp add: get_ept_pte_def ept_consts)
  moreover have "ept_present e \<longrightarrow> \<not> large e" if "e = load64 (ram s) (entry pml4 (PGDIR_OFFSET ga 4))" for e
    using top unat_offset_512 [of ga 4] that unfolding groot_small_def by (metis entry_offset)
  then have "install_ept_entry pml4 t ga pte 0 s = Ret s'"
    using install_ept_entry_from [OF ga _ _ refl] t r(1) by simp
  moreover have "length fs \<le> length fs' + (7 - 2 * t)"
    using r(7,8) by simp
  ultimately show ?thesis
    using r(2,3,9) unfolding same_path_vpn [OF t(1) t4] by blast
qed

lemma empty_ept_machine:
  "\<exists>s. free_list s (run 0x2000 8) \<and> ept_tree_ok (ram s) 4 0x1000 (run 0x2000 8)
     \<and> (\<forall>ga. glookup ept_present (ram s) 4 0x1000 ga = None) \<and> (\<forall>x. in_page x 0x1000 \<longrightarrow> ram s x = 0)"
proof -
  obtain s where s: "free_list s (run 0x2000 8)" "\<And>x. in_page x 0x1000 \<Longrightarrow> ram s x = 0"
      "\<forall>p \<in> set (0x1000 # run 0x2000 8). table_page p" "distinct (0x1000 # run 0x2000 8)"
    using empty_root_page by blast
  note z = ept_tree.zero_page_tree [of "0x1000" "ram s" 3, OF s(2), simplified]
  have "ept_tree_ok (ram s) 4 0x1000 (run 0x2000 8)"
    using s(3,4) z(1) by (simp add: gtree_def)
  then show ?thesis
    using s(1,2) z(2) by (intro exI [of _ s]) simp
qed

lemma empty_ept_rights:
  assumes "\<forall>x. in_page x pml4 \<longrightarrow> m x = 0"
  shows "ept_rights m pml4 0 ga = 7"
  using rights_entry [of 7 ept_present m 3 0 pml4 ga] zero_page_pte [of pml4 m, OF _ unat_offset_512 [of ga 4]] assms
  by (simp add: ept_present_def)

text \<open>
  C9: Installing an entry in the extended page tables. For a guest address below \<open>2 ^ 48\<close>, with the large pages on its path
  aligned to their size, no page size bit in the top level table, and pages left for the tables, \<open>install_ept_entry\<close> of a 4K, 2M or
  1G entry returns; the guest page of the entry gets its address and attributes, with those of its rights that the entries above it
  granted before (a table that was missing restricts nothing); every other guest address keeps its host address, its attributes and
  the rights that all levels together grant, also when a large page was split on the way; the tables stay well formed, and
  \<open>get_ept_pte\<close> reads the entry back.
\<close>

theorem install_ept_entry_maps:
  assumes "free_list s fs" and "ept_tree_ok (ram s) 4 pml4 fs" and "unat ga < 2 ^ 48" and "0 < t" and "t \<le> 3"
    and "7 - 2 * t \<le> length fs" and "ept_present pte" and "t = 1 \<or> large pte" and "galigned ept_present (ram s) t pml4 ga"
    and "groot_small ept_present (ram s) pml4"
  shows "\<exists>s' fs'. install_ept_entry pml4 t ga pte 0 s = Ret s' \<and> free_list s' fs' \<and> ept_tree_ok (ram s') 4 pml4 fs'
    \<and> length fs \<le> length fs' + (7 - 2 * t) \<and> groot_small ept_present (ram s') pml4
    \<and> (\<forall>gb. ept_access (ram s') pml4 gb = (if vpn t gb = vpn t ga
        then Some (ept_page t pte (ept_rights (ram s) pml4 t ga AND take_bit 3 pte) gb) else ept_access (ram s) pml4 gb))
    \<and> get_ept_pte (ram s') pml4 ga t = Ret (Some pte)"
  using assms by (rule install_ept_entry_splits)

theorem install_ept_entry_maps_witness:
  "\<exists>s s'. install_ept_entry 0x1000 3 0x40000000 0xC0000087 0 s = Ret s' \<and> ept_access (ram s') 0x1000 0x40001234 = Some (0xC0001234, 7)
    \<and> get_ept_pte (ram s') 0x1000 0x40000000 3 = Ret (Some 0xC0000087)"
proof -
  obtain s where s: "free_list s (run 0x2000 8)" "ept_tree_ok (ram s) 4 0x1000 (run 0x2000 8)"
      "\<forall>ga. glookup ept_present (ram s) 4 0x1000 ga = None" "\<forall>x. in_page x 0x1000 \<longrightarrow> ram s x = 0"
    using empty_ept_machine by blast
  have "groot_small ept_present (ram s) 0x1000"
    using zero_page_pte [of "0x1000" "ram s"] s(4) by (simp add: groot_small_def ept_present_def)
  moreover have "galigned ept_present (ram s) 3 0x1000 0x40000000"
    by (auto simp: galigned_def)
  moreover have "ept_present 0xC0000087" "large 0xC0000087" "vpn 3 0x40001234 = vpn 3 0x40000000"
    by (simp_all add: ept_present_def EPT_PRESENT_def EPT_RA_def EPT_WA_def EPT_EA_def large_def PT_PAGE_SIZE_MASK_def vpn_def PGDIR_BITS_simps)
  moreover have "ept_rights (ram s) 0x1000 3 0x40000000 = 7"
    using empty_ept_rights [OF s(4)] by (rule ept_rights_above)
  moreover have "ept_page 3 0xC0000087 (7 AND take_bit 3 0xC0000087) 0x40001234 = (0xC0001234, 7)"
    by (simp add: ept_page_def leaf_def PGDIR_BITS_simps PT_ADDR_MASK_eq PT_PAGE_SIZE_MASK_def mask_eq_exp_minus_1)
  ultimately obtain s' where "install_ept_entry 0x1000 3 0x40000000 0xC0000087 0 s = Ret s'"
      "ept_access (ram s') 0x1000 0x40001234 = Some (0xC0001234, 7)" "get_ept_pte (ram s') 0x1000 0x40000000 3 = Ret (Some 0xC0000087)"
    using install_ept_entry_maps [OF s(1,2), of "0x40000000" 3 "0xC0000087"] by (auto simp: run_def)
  then show ?thesis
    by blast
qed

section \<open>Mapping a range one to one\<close>

text \<open>Permissions and memory type: nothing in the address field, and no page size bit.\<close>

definition perm_ok :: "u64 \<Rightarrow> bool" where
  "perm_ok perm \<longleftrightarrow> ept_present perm \<and> perm AND PT_ADDR_MASK = 0 \<and> \<not> large perm"

definition ept_upto :: "u64 \<Rightarrow> u64 \<Rightarrow> u64 \<Rightarrow> u64 list \<Rightarrow> machine \<Rightarrow> bool" where
  "ept_upto pml4 perm p fs s \<longleftrightarrow> free_list s fs \<and> ept_tree_ok (ram s) 4 pml4 fs \<and> groot_small ept_present (ram s) pml4
     \<and> (\<forall>ga. ept_access (ram s) pml4 ga = (if take_bit 48 ga < p then Some (take_bit 48 ga, perm) else None))
     \<and> (\<forall>ga. \<not> take_bit 48 ga < p \<longrightarrow> ept_rights (ram s) pml4 0 ga = 7)"

definition ept_leaf :: "nat \<Rightarrow> u64 \<Rightarrow> u64 \<Rightarrow> u64" where
  "ept_leaf t phys perm = (phys AND PAGE_MASK) OR perm OR (if t = 1 then 0 else EPT_LARGE_PAGE)"

lemma ept_leaf_simps:
  assumes "perm_ok perm" and "frame_ok t phys" and "0 < t"
  shows "ept_present (ept_leaf t phys perm)" and "t = 1 \<or> large (ept_leaf t phys perm)"
    and "ept_page t (ept_leaf t phys perm) (7 AND take_bit 3 (ept_leaf t phys perm)) ga = (phys + take_bit (PGDIR_BITS t) ga, perm)"
proof -
  have p: "phys AND PT_ADDR_MASK = phys"
    using assms(2) by (simp add: frame_ok_def)
  have pb: "bit phys n \<Longrightarrow> 12 \<le> n \<and> n < 52" for n
    using p bit_and_iff [of phys PT_ADDR_MASK n] bit_PT_ADDR_MASK by metis
  have qb: "bit perm n \<Longrightarrow> \<not> (12 \<le> n \<and> n < 52) \<and> n \<noteq> 7" for n
    using assms(1) bit_and_iff [of perm PT_ADDR_MASK n] bit_PT_ADDR_MASK unfolding perm_ok_def large_iff by force
  have pm: "PAGE_MASK = NOT (mask 12)"
    by (simp add: PAGE_MASK_def PAGE_SIZE_def mask_eq_exp_minus_1)
  have "phys AND PAGE_MASK = phys"
    unfolding pm
  proof (rule bit_word_eqI)
    fix n :: nat
    show "bit (phys AND NOT (mask 12)) n = bit phys n"
      using pb [of n] unfolding bit_and_iff bit_not_iff bit_mask_iff possible_bit_word by auto
  qed
  then have bits: "bit (ept_leaf t phys perm) n \<longleftrightarrow> bit phys n \<or> bit perm n \<or> n = 7 \<and> t \<noteq> 1" for n
    by (auto simp: ept_leaf_def ept_consts bit_or_iff bit_flags)
  show "ept_present (ept_leaf t phys perm)"
    using assms(1) unfolding perm_ok_def ept_present_iff bits by blast
  show "t = 1 \<or> large (ept_leaf t phys perm)"
    by (auto simp: large_iff bits)
  have "leaf t (ept_leaf t phys perm) ga = phys + take_bit (PGDIR_BITS t) ga"
    using qb by (intro leaf_frame [OF assms(2,3)]) (auto simp: bits)
  moreover have "(ept_leaf t phys perm AND NOT PT_ADDR_MASK AND NOT PT_PAGE_SIZE_MASK AND NOT 7) OR (7 AND take_bit 3 (ept_leaf t phys perm)) = perm"
    unfolding seven_mask
  proof (rule bit_word_eqI)
    fix n :: nat
    assume "n < LENGTH(64)"
    then show "bit ((ept_leaf t phys perm AND NOT PT_ADDR_MASK AND NOT PT_PAGE_SIZE_MASK AND NOT (mask 3))
        OR (mask 3 AND take_bit 3 (ept_leaf t phys perm))) n = bit perm n"
      using pb [of n] qb [of n] by (auto simp: bit_and_iff bit_or_iff bit_not_iff bit_mask_iff bit_take_bit_iff bits bit_PT_ADDR_MASK bit_flags)
  qed
  ultimately show "ept_page t (ept_leaf t phys perm) (7 AND take_bit 3 (ept_leaf t phys perm)) ga = (phys + take_bit (PGDIR_BITS t) ga, perm)"
    by (simp add: ept_page_def)
qed

lemma ept_map_step:
  assumes inv: "ept_upto pml4 perm phys fs s" and t: "0 < t" "t \<le> 3" and len: "4 - t \<le> length fs" and perm: "perm_ok perm"
    and al: "aligned (PGDIR_BITS t) phys" and lim: "unat phys + 2 ^ PGDIR_BITS t \<le> 2 ^ 47"
  shows "\<exists>s' fs'. install_ept_entry pml4 t phys (ept_leaf t phys perm) 0 s = Ret s' \<and> ept_upto pml4 perm (phys + 2 ^ PGDIR_BITS t) fs' s'
    \<and> length fs \<le> 4 - t + length fs'"
proof -
  let ?e = "ept_leaf t phys perm"
  have i: "free_list s fs" "ept_tree_ok (ram s) 4 pml4 fs" "groot_small ept_present (ram s) pml4"
      "\<And>ga. ept_access (ram s) pml4 ga = (if take_bit 48 ga < phys then Some (take_bit 48 ga, perm) else None)"
      "\<And>ga. \<not> take_bit 48 ga < phys \<Longrightarrow> ept_rights (ram s) pml4 0 ga = 7"
    using inv unfolding ept_upto_def by blast+
  have u: "unat phys < 2 ^ 48" and t4: "t \<le> 4"
    using lim t by auto
  have ph: "take_bit 48 phys = phys"
    using u by (rule take_bit_word_small)
  then have "glookup ept_present (ram s) 4 pml4 phys = None"
    using i(4) [of phys] by (simp add: ept_access_def)
  note path = unmapped_path_free [OF this, of t]
  have r7: "ept_rights (ram s) pml4 t phys = 7"
    by (rule ept_rights_above [OF i(5)]) (simp add: ph)
  have "frame_ok t phys"
    using lim t by (intro frame_ok_small [OF al]) auto
  note e = ept_leaf_simps [OF perm this t(1)]
  have h: "t = 1 \<or> huge t ?e"
    using e(2) t by (auto simp: huge_def)
  then obtain used fs' a s' where r: "ept_from 4 t phys ?e pml4 s = Ret s'" "fs = used @ fs'" "length used \<le> 4 - t"
      "ginstalled ept_present t 4 pml4 phys ?e s used fs' a s'"
    using ept_install.inst_installed [OF i(1,2) t(1) t4 len path order.refl] by blast
  have up: "gupdated ept_present 4 pml4 s used fs' s' (\<lambda>ga. if vpn t ga = vpn t phys then Some (t, ?e) else glookup ept_present (ram s) 4 pml4 ga)"
      "groot_small ept_present (ram s') pml4"
    using r(4) e(1) i(3) t unfolding ginstalled_def gmaps_def same_path_vpn [OF t(1) t4] by (simp_all cong: if_cong)
  have rights: "ept_rights (ram s') pml4 0 ga = (if vpn t ga = vpn t phys then 7 AND take_bit 3 ?e else ept_rights (ram s) pml4 0 ga)" for ga
    using ept_install.inst_rights [where va = ga, OF _ i(1,2) t(1) t4 len path order.refl e(1) h r(1)]
    unfolding ept_rwx same_path_vpn [OF t(1) t4] r7 by simp
  have acc: "ept_access (ram s') pml4 ga = (if take_bit 48 ga < phys + 2 ^ PGDIR_BITS t then Some (take_bit 48 ga, perm) else None)" for ga
  proof -
    have "ept_access (ram s') pml4 ga = (if vpn t ga = vpn t phys then Some (ept_page t ?e (7 AND take_bit 3 ?e) ga) else ept_access (ram s) pml4 ga)"
      using up(1) rights [of ga] unfolding gupdated_def ept_access_def by simp
    also have "\<dots> = map_option (\<lambda>x. (x, perm)) (if vpn t ga = vpn t phys then Some (phys + take_bit (PGDIR_BITS t) ga)
        else if take_bit 48 ga < phys then Some (take_bit 48 ga) else None)"
      using e(3) i(4) by simp
    finally show ?thesis
      unfolding identity_extend [OF t al lim] by simp
  qed
  moreover have "ept_rights (ram s') pml4 0 ga = 7" if "\<not> take_bit 48 ga < phys + 2 ^ PGDIR_BITS t" for ga
    using rights [of ga] i(5) [of ga] identity_extend [OF t al lim, of ga] that by (auto split: if_splits)
  moreover have "ept_tree_ok (ram s') 4 pml4 fs'"
    by (rule updated_tree_ok [OF _ up(1)]) (use i(2) r(2) in simp)
  ultimately have "ept_upto pml4 perm (phys + 2 ^ PGDIR_BITS t) fs' s'"
    using up unfolding ept_upto_def gupdated_def by blast
  moreover have "ept_present x \<longrightarrow> \<not> large x" if "x = load64 (ram s) (entry pml4 (PGDIR_OFFSET phys 4))" for x
    using i(3) unat_offset_512 [of phys 4] that unfolding groot_small_def by (metis entry_offset)
  then have "install_ept_entry pml4 t phys ?e 0 s = Ret s'"
    using install_ept_entry_from [OF u _ _ refl] t r(1) by simp
  ultimately show ?thesis
    using r(2,3) by auto
qed

lemma ept_range_loop_maps:
  assumes "ept_upto pml4 perm phys fs s" and "aligned (PGDIR_BITS t) phys" and "unat mx \<le> 2 ^ 47" and "unat phys \<le> unat mx"
    and "n = (unat mx - unat phys) div 2 ^ PGDIR_BITS t" and "(4 - t) * n \<le> length fs"
    and t: "0 < t" "t \<le> 3" and perm: "perm_ok perm" and f: "\<And>phys. f phys = install_ept_entry pml4 t phys (ept_leaf t phys perm) 0"
  shows "\<exists>phys' s' fs'. ept_range_loop (2 ^ PGDIR_BITS t) f phys mx s = Some (Ret (phys', s')) \<and> ept_upto pml4 perm phys' fs' s'
    \<and> unat phys' = unat phys + n * 2 ^ PGDIR_BITS t \<and> aligned (PGDIR_BITS t) phys' \<and> length fs \<le> (4 - t) * n + length fs'"
  using assms(1-6)
proof (induction n arbitrary: phys fs s)
  define B where "B = PGDIR_BITS t"
  have B: "B \<le> 30"
    using t by (simp add: B_def PGDIR_BITS_def PGDIR_WIDTH_def PAGE_SHIFT_def)
  {
    case 0
    then have "\<not> phys + 2 ^ B \<le> mx"
      using loop_guard [OF B, of phys mx] by (simp add: B_def)
    then have "ept_range_loop (2 ^ B) f phys mx s = Some (Ret (phys, s))"
      by (simp add: ept_range_loop.simps)
    then show ?case
      using 0 by (auto simp: B_def)
  next
    case (Suc n)
    have g: "phys + 2 ^ B \<le> mx"
      using Suc.prems loop_guard [OF B, of phys mx] by (simp add: B_def)
    have sz: "unat phys + 2 ^ B \<le> unat mx"
      using Suc.prems(4,5) div_greater_zero_iff [of "unat mx - unat phys" "2 ^ B"] by (simp add: B_def)
    have u: "unat (phys + 2 ^ B) = unat phys + 2 ^ B"
      using sz Suc.prems(3) B by (intro unat_next_block) simp_all
    have "4 - t \<le> length fs" "unat phys + 2 ^ B \<le> 2 ^ 47"
      using Suc.prems(3,6) sz by auto
    then obtain s1 fs1 where s1: "f phys s = Ret s1" "ept_upto pml4 perm (phys + 2 ^ B) fs1 s1" "length fs \<le> 4 - t + length fs1"
      using ept_map_step [OF Suc.prems(1) t _ perm Suc.prems(2)] f [of phys] by (auto simp: B_def)
    have n: "n = (unat mx - unat (phys + 2 ^ B)) div 2 ^ B"
      using Suc.prems(5) sz le_div_geq [of "2 ^ B" "unat mx - unat phys"] unfolding u by (simp add: B_def)
    have al: "aligned B (phys + 2 ^ B)"
      using aligned_next_block [OF Suc.prems(2)] by (simp add: B_def)
    have "(4 - t) * n \<le> length fs1" "unat (phys + 2 ^ B) \<le> unat mx"
      using s1(3) Suc.prems(6) sz u by auto
    then obtain phys' s' fs' where r: "ept_range_loop (2 ^ B) f (phys + 2 ^ B) mx s1 = Some (Ret (phys', s'))" "ept_upto pml4 perm phys' fs' s'"
        "unat phys' = unat (phys + 2 ^ B) + n * 2 ^ B" "aligned B phys'" "length fs1 \<le> (4 - t) * n + length fs'"
      using Suc.IH [OF s1(2) [unfolded B_def] al [unfolded B_def] Suc.prems(3) _ n [unfolded B_def]] unfolding B_def by auto
    have "ept_range_loop (2 ^ B) f phys mx s = Some (Ret (phys', s'))"
      using g s1(1) r(1) by (subst ept_range_loop.simps) simp
    then show ?case
      using r(2-5) s1(3) u unfolding B_def [symmetric] by (intro exI [of _ phys'] exI [of _ s'] exI [of _ fs']) simp
  }
qed

text \<open>The pages that the tables of a range may need: one, two and three for each large page, small large page and page.\<close>

definition ept_pages :: "nat \<Rightarrow> bool \<Rightarrow> bool \<Rightarrow> nat" where
  "ept_pages len map_1g map_2m =
     (let n1 = (if map_1g then len div 2 ^ 30 else 0); r1 = len - n1 * 2 ^ 30;
          n2 = (if map_2m then r1 div 2 ^ 21 else 0); r2 = r1 - n2 * 2 ^ 21
      in n1 + 2 * n2 + 3 * (r2 div 2 ^ 12))"

lemma range_steps: "PAGE_SIZE_1G = 2 ^ PGDIR_BITS 3" "PAGE_SIZE_2M = 2 ^ PGDIR_BITS 2"
  by (simp_all add: PAGE_SIZE_1G_def PAGE_SIZE_2M_def PAGE_SIZE_def PGDIR_BITS_simps)

lemma range_installs: "install_1g_ept pml4 phys phys perm = install_ept_entry pml4 3 phys (ept_leaf 3 phys perm) 0"
    "install_2m_ept pml4 phys phys perm = install_ept_entry pml4 2 phys (ept_leaf 2 phys perm) 0"
    "install_ept pml4 phys phys perm = install_ept_entry pml4 1 phys (ept_leaf 1 phys perm) 0"
  by (simp_all add: fun_eq_iff install_1g_ept_def install_2m_ept_def install_ept_def ept_leaf_def)

lemma aligned_mono: "aligned k p \<Longrightarrow> j \<le> k \<Longrightarrow> aligned j p"
  unfolding aligned_dvd by (meson dvd_trans le_imp_power_dvd)

lemma setup_ept_range_maps:
  assumes "ept_upto pml4 perm 0 fs s" and lim: "unat len \<le> 2 ^ 47" and "aligned 12 len" and perm: "perm_ok perm"
    and pages: "ept_pages (unat len) map_1g map_2m \<le> length fs"
  shows "\<exists>s' fs'. setup_ept_range pml4 0 len map_1g map_2m perm s = Some (Ret s') \<and> ept_upto pml4 perm len fs' s'"
proof -
  define n1 where "n1 = (if map_1g then unat len div 2 ^ 30 else 0)"
  define n2 where "n2 = (if map_2m then (unat len - n1 * 2 ^ 30) div 2 ^ 21 else 0)"
  define n3 where "n3 = (unat len - n1 * 2 ^ 30 - n2 * 2 ^ 21) div 2 ^ 12"
  have p: "n1 + 2 * n2 + 3 * n3 \<le> length fs"
    using pages unfolding ept_pages_def n1_def n2_def n3_def Let_def by simp
  have b: "n1 * 2 ^ 30 \<le> unat len" "n2 * 2 ^ 21 \<le> unat len - n1 * 2 ^ 30"
    unfolding n1_def n2_def by (simp_all add: div_times_less_eq_dividend)
  obtain p1 s1 fs1 where s1: "(if map_1g then ept_range_loop PAGE_SIZE_1G (\<lambda>phys. install_1g_ept pml4 phys phys perm) 0 len s
        else Some (Ret (0, s))) = Some (Ret (p1, s1))" "ept_upto pml4 perm p1 fs1 s1" "unat p1 = n1 * 2 ^ 30" "aligned 30 p1"
      "length fs \<le> n1 + length fs1"
    using ept_range_loop_maps [OF assms(1) _ lim, of 3 n1 "\<lambda>phys. install_1g_ept pml4 phys phys perm"] assms(1) perm p
    unfolding range_steps range_installs PGDIR_BITS_simps n1_def by (cases map_1g) (auto simp: aligned_def)
  have a1: "aligned 21 p1"
    by (rule aligned_mono [OF s1(4)]) simp
  obtain p2 s2 fs2 where s2: "(if map_2m then ept_range_loop PAGE_SIZE_2M (\<lambda>phys. install_2m_ept pml4 phys phys perm) p1 len s1
        else Some (Ret (p1, s1))) = Some (Ret (p2, s2))" "ept_upto pml4 perm p2 fs2 s2" "unat p2 = n1 * 2 ^ 30 + n2 * 2 ^ 21" "aligned 21 p2"
      "length fs1 \<le> 2 * n2 + length fs2"
    using ept_range_loop_maps [OF s1(2) _ lim, of 2 n2 "\<lambda>phys. install_2m_ept pml4 phys phys perm"] a1 perm p s1(2,3,5) b(1)
    unfolding range_steps range_installs PGDIR_BITS_simps n2_def by (cases map_2m) auto
  have a2: "aligned 12 p2"
    by (rule aligned_mono [OF s2(4)]) simp
  have b3: "n1 * 2 ^ 30 + n2 * 2 ^ 21 \<le> unat len"
    using b by linarith
  obtain p3 s3 fs3 where s3: "ept_range_loop PAGE_SIZE (\<lambda>phys. install_ept pml4 phys phys perm) p2 len s2 = Some (Ret (p3, s3))"
      "ept_upto pml4 perm p3 fs3 s3" "unat p3 = n1 * 2 ^ 30 + n2 * 2 ^ 21 + n3 * 2 ^ 12"
    using ept_range_loop_maps [OF s2(2) _ lim, of 1 n3 "\<lambda>phys. install_ept pml4 phys phys perm"] a2 perm p s2(3,5) s1(5) b3
    unfolding page_sizes range_installs PGDIR_BITS_simps n3_def by auto
  have d: "(2 ^ 12 :: nat) dvd unat len - n1 * 2 ^ 30 - n2 * 2 ^ 21"
    using assms(3) unfolding aligned_dvd by (intro dvd_diff_nat dvd_mult le_imp_power_dvd) simp_all
  then have "n3 * 2 ^ 12 = unat len - n1 * 2 ^ 30 - n2 * 2 ^ 21"
    unfolding n3_def by (rule dvd_div_mult_self)
  then have "p3 = len"
    using s3(3) b by (simp add: word_unat_eq_iff)
  then show ?thesis
    using s1(1) s2(1) s3(1,2) by (auto simp: setup_ept_range_def bind_loop_def Let_def)
qed

text \<open>
  C10: The identity map of the guest. On an empty top level table, with permissions that leave the address field alone and enough free pages,
  \<open>setup_ept_range\<close> from address 0 returns, and afterwards exactly the guest addresses below the length are mapped, each to itself with the
  given permissions, which the entries of all levels grant, whether 1G and 2M pages are used or not.
\<close>

theorem setup_ept_range_identity:
  assumes "free_list s fs" and "ept_tree_ok (ram s) 4 pml4 fs" and empty: "\<forall>i < 512. \<not> ept_present (pte_at (ram s) pml4 i)"
    and "unat len \<le> 2 ^ 47" and "aligned 12 len" and "perm_ok perm" and "ept_pages (unat len) map_1g map_2m \<le> length fs"
  shows "\<exists>s'. setup_ept_range pml4 0 len map_1g map_2m perm s = Some (Ret s')
    \<and> (\<forall>ga. ept_access (ram s') pml4 ga = (if take_bit 48 ga < len then Some (take_bit 48 ga, perm) else None))"
proof -
  have e: "\<not> ept_present (pte_at (ram s) pml4 (unat (PGDIR_OFFSET ga (Suc 3))))" for ga
    using empty unat_offset_512 by blast
  have "glookup ept_present (ram s) (Suc 3) pml4 ga = None" "grights 7 ept_present (ram s) (Suc 3) 0 pml4 ga = 7" for ga
    using e [of ga] unfolding lookup_entry rights_entry by simp_all
  then have "ept_upto pml4 perm 0 fs s"
    using assms(1-3) by (simp add: ept_upto_def ept_access_def groot_small_def)
  then show ?thesis
    using setup_ept_range_maps [OF _ assms(4-7)] unfolding ept_upto_def by blast
qed

theorem setup_ept_range_identity_witness:
  "\<exists>s s'. setup_ept_range 0x1000 0 0x40201000 True True 7 s = Some (Ret s') \<and> ept_access (ram s') 0x1000 0x40200123 = Some (0x40200123, 7)
    \<and> ept_access (ram s') 0x1000 0x40201000 = None"
proof -
  obtain s where s: "free_list s (run 0x2000 8)" "ept_tree_ok (ram s) 4 0x1000 (run 0x2000 8)"
      "\<forall>ga. glookup ept_present (ram s) 4 0x1000 ga = None" "\<forall>x. in_page x 0x1000 \<longrightarrow> ram s x = 0"
    using empty_ept_machine by blast
  have "\<forall>i < 512. \<not> ept_present (pte_at (ram s) 0x1000 i)"
    using zero_page_pte [of "0x1000" "ram s"] s(4) by (simp add: ept_present_def)
  moreover have "perm_ok 7"
    by (simp add: perm_ok_def ept_present_def EPT_PRESENT_def EPT_RA_def EPT_WA_def EPT_EA_def PT_ADDR_MASK_eq large_def PT_PAGE_SIZE_MASK_def)
  moreover have "ept_pages (unat (0x40201000 :: u64)) True True \<le> length (run 0x2000 8)"
    by (simp add: ept_pages_def run_def)
  ultimately obtain s' where s': "setup_ept_range 0x1000 0 0x40201000 True True 7 s = Some (Ret s')"
      "\<forall>ga. ept_access (ram s') 0x1000 ga = (if take_bit 48 ga < 0x40201000 then Some (take_bit 48 ga, 7) else None)"
    using setup_ept_range_identity [OF s(1,2), of "0x40201000" 7 True True] by (auto simp: aligned_def)
  have "ept_access (ram s') 0x1000 0x40200123 = Some (0x40200123, 7)" "ept_access (ram s') 0x1000 0x40201000 = None"
    unfolding s'(2) [rule_format] by simp_all
  then show ?thesis
    using s'(1) by blast
qed

end
