(* ===== verification/Ept_Ad.thy ===== *)
theory Ept_Ad
  imports Ept_Map
begin

text \<open>
  The accessed and dirty flags of the extended page tables: what \<open>clear_ept_ad\<close> clears is what \<open>check_ept_ad\<close> looks at.
  The guest tables are read through the one to one mapping and lie outside the extended page tables.
\<close>

unbundle bit_operations_syntax

section \<open>Clearing the flags of one entry\<close>

definition clr :: "u64 \<Rightarrow> u64" where
  "clr e = e AND NOT (EPT_ACCESS_FLAG OR EPT_DIRTY_FLAG)"

lemma bit_clr: "bit (clr e) n \<longleftrightarrow> bit e n \<and> n \<noteq> 8 \<and> n \<noteq> 9"
  unfolding clr_def EPT_ACCESS_FLAG_def EPT_DIRTY_FLAG_def push_bit_of_1 bit_and_iff bit_not_iff bit_or_iff bit_exp_iff
  using bit_imp_le_length [of e n] by auto

lemma clr_simps [simp]: "ept_present (clr e) = ept_present e" "large (clr e) = large e" "huge l (clr e) = huge l e"
    "clr e AND PT_ADDR_MASK = e AND PT_ADDR_MASK" "clr (clr e) = clr e"
    "clr e AND (EPT_ACCESS_FLAG OR EPT_DIRTY_FLAG) = 0"
proof -
  show "ept_present (clr e) = ept_present e"
    unfolding ept_present_iff bit_clr by force
  show l: "large (clr e) = large e"
    by (simp add: large_iff bit_clr)
  show "huge l (clr e) = huge l e"
    unfolding huge_def l ..
  show "clr e AND PT_ADDR_MASK = e AND PT_ADDR_MASK"
    by (rule bit_word_eqI) (auto simp: bit_and_iff bit_clr bit_PT_ADDR_MASK)
  show "clr (clr e) = clr e"
    by (rule bit_word_eqI) (simp add: bit_clr)
  show "clr e AND (EPT_ACCESS_FLAG OR EPT_DIRTY_FLAG) = 0"
    unfolding clr_def by (metis and.assoc and.commute bit.conj_cancel_right bit.conj_zero_right)
qed

text \<open>In the tables of \<open>T\<close> some entries lost their flags, and nothing else changed.\<close>

definition ad_le :: "u64 set \<Rightarrow> mem \<Rightarrow> mem \<Rightarrow> bool" where
  "ad_le T m m' \<longleftrightarrow> (\<forall>p \<in> T. \<forall>i < 512. pte_at m' p i = pte_at m p i \<or> pte_at m' p i = clr (pte_at m p i))
     \<and> (\<forall>x. (\<forall>p \<in> T. \<not> in_page x p) \<longrightarrow> m' x = m x)"

lemma ad_le_refl: "ad_le T m m"
  by (simp add: ad_le_def)

lemma ad_le_trans: "ad_le T m m1 \<Longrightarrow> ad_le T m1 m2 \<Longrightarrow> ad_le T m m2"
  unfolding ad_le_def by (metis clr_simps(5))

lemma ad_le_entry: "ad_le T m m' \<Longrightarrow> p \<in> T \<Longrightarrow> e = load64 m (entry p (PGDIR_OFFSET ga l))
   \<Longrightarrow> load64 m' (entry p (PGDIR_OFFSET ga l)) = e \<or> load64 m' (entry p (PGDIR_OFFSET ga l)) = clr e"
  unfolding ad_le_def entry_offset [of p ga l] using unat_offset_512 [of ga l] by blast

lemma ad_le_store:
  assumes "p \<in> T" and "\<forall>q \<in> T. page_aligned q"
  shows "ad_le T m (store64 m (entry p (PGDIR_OFFSET ga l)) (clr (load64 m (entry p (PGDIR_OFFSET ga l)))))"
proof -
  let ?i = "unat (PGDIR_OFFSET ga l)"
  let ?m = "store64 m (entry p (of_nat ?i)) (clr (pte_at m p ?i))"
  have i: "?i < 512" and p: "page_aligned p"
    using unat_offset_512 assms by auto
  have out: "?m x = m x" if "\<not> in_page x p" for x
    using that by (rule store_entry_outside [OF p i])
  have "pte_at ?m q j = pte_at m q j \<or> pte_at ?m q j = clr (pte_at m q j)" if q: "q \<in> T" and j: "j < 512" for q j
  proof (cases "q = p")
    case True
    then show ?thesis
      using pte_at_store [OF p i j] by auto
  next
    case False
    then have "\<not> in_page x p" if "in_page x q" for x
      using in_page_unique [OF p _ _ that] assms(2) q by blast
    then have "pte_at ?m q j = pte_at m q j"
      by (intro pte_at_cong out j)
    then show ?thesis ..
  qed
  then show ?thesis
    using out assms(1) unfolding ad_le_def entry_offset [of p ga l] by blast
qed

section \<open>Walks through the extended page tables\<close>

text \<open>The walk of the address goes through tables of \<open>T\<close> to the entry \<open>e\<close> of a page.\<close>

primrec epath :: "u64 set \<Rightarrow> mem \<Rightarrow> u64 \<Rightarrow> nat \<Rightarrow> u64 \<Rightarrow> u64 \<Rightarrow> bool" where
  "epath T m ga 0 pt e = False"
| "epath T m ga (Suc k) pt e \<longleftrightarrow> pt \<in> T \<and> (let x = load64 m (entry pt (PGDIR_OFFSET ga (Suc k)))
     in if k = 0 then e = x else ept_present x \<and> \<not> huge (Suc k) x \<and> epath T m ga k (x AND PT_ADDR_MASK) e)"

lemma epath_get: "epath T m ga lvl pt e \<Longrightarrow> lvl \<le> 4 \<Longrightarrow> get_ept_loop m ga 1 lvl pt = Some e"
proof (induction lvl arbitrary: pt)
  case (Suc k)
  then show ?case
    by (cases "k = 0") (auto simp: Let_def ept_consts huge_def)
qed simp

lemma get_epath:
  "set (gtabs ept_present m lvl pt) \<subseteq> T \<Longrightarrow> lvl \<le> 4 \<Longrightarrow> get_ept_loop m ga 1 lvl pt = Some e \<Longrightarrow> epath T m ga lvl pt e"
proof (induction lvl arbitrary: pt)
  case (Suc k)
  let ?x = "load64 m (entry pt (PGDIR_OFFSET ga (Suc k)))"
  have pt: "pt \<in> T"
    using Suc.prems(1) root_in_tabs [of pt ept_present m k] by blast
  show ?case
  proof (cases "k = 0")
    case False
    then have x: "ept_present ?x" "\<not> huge (Suc k) ?x" "get_ept_loop m ga 1 k (?x AND PT_ADDR_MASK) = Some e"
      using Suc.prems(2,3) by (auto simp: Let_def ept_consts huge_def split: if_splits)
    have "set (gsubtree ept_present m k (pte_at m pt (unat (PGDIR_OFFSET ga (Suc k))))) \<subseteq> T"
      using subtree_subset [OF unat_offset_512] Suc.prems(1) by blast
    then have "set (gtabs ept_present m k (?x AND PT_ADDR_MASK)) \<subseteq> T"
      using x(1,2) by (simp add: gsubtree_def)
    then show ?thesis
      using Suc.IH x Suc.prems(2) pt False by (simp add: Let_def)
  qed (use Suc.prems pt in \<open>auto simp: Let_def ept_consts\<close>)
qed simp

lemma epath_ad_le:
  "ad_le T m m' \<Longrightarrow> epath T m ga lvl pt e \<Longrightarrow> epath T m' ga lvl pt e \<or> epath T m' ga lvl pt (clr e)"
proof (induction lvl arbitrary: pt)
  case (Suc k)
  let ?x = "load64 m (entry pt (PGDIR_OFFSET ga (Suc k)))" and ?x' = "load64 m' (entry pt (PGDIR_OFFSET ga (Suc k)))"
  have pt: "pt \<in> T"
    using Suc.prems(2) by simp
  have x': "?x' = ?x \<or> ?x' = clr ?x"
    by (rule ad_le_entry [OF Suc.prems(1) pt refl])
  then have "ept_present ?x' = ept_present ?x" "huge (Suc k) ?x' = huge (Suc k) ?x" "?x' AND PT_ADDR_MASK = ?x AND PT_ADDR_MASK"
    by auto
  then show ?case
    using x' pt Suc.prems Suc.IH [of "?x AND PT_ADDR_MASK"] by (cases "k = 0") (auto simp: Let_def)
qed simp

lemma clear_loop_Suc:
  assumes "load64 m (entry pt (PGDIR_OFFSET ga (Suc k))) = x" and "m1 = store64 m (entry pt (PGDIR_OFFSET ga (Suc k))) (clr x)"
  shows "clear_ept_ad_loop ga (Suc k) pt m = (if k = 0 \<or> huge (Suc k) x then m1 else clear_ept_ad_loop ga k (x AND PT_ADDR_MASK) m1)"
proof -
  have x: "load64 m1 (entry pt (PGDIR_OFFSET ga (Suc k))) = clr x"
    by (simp add: assms(2) load64_store64_same)
  have "Suc k < 4 \<and> large x \<longleftrightarrow> huge (Suc k) x" if "k \<noteq> 0"
    using that by (auto simp: huge_def)
  then show ?thesis
    unfolding clear_ept_ad_loop.simps Let_def ept_consts assms(1) clr_def [symmetric] assms(2) [symmetric] x clr_simps by auto
qed

lemma clear_loop_clears:
  "epath T m ga lvl pt e \<Longrightarrow> \<forall>q \<in> T. page_aligned q \<Longrightarrow> lvl \<le> 4
   \<Longrightarrow> ad_le T m (clear_ept_ad_loop ga lvl pt m) \<and> epath T (clear_ept_ad_loop ga lvl pt m) ga lvl pt (clr e)"
proof (induction lvl arbitrary: pt m e)
  case (Suc k)
  let ?a = "entry pt (PGDIR_OFFSET ga (Suc k))"
  define x where "x = load64 m ?a"
  define m1 where "m1 = store64 m ?a (clr x)"
  have pt: "pt \<in> T"
    using Suc.prems(1) by simp
  have le: "ad_le T m m1"
    unfolding m1_def x_def by (rule ad_le_store [OF pt Suc.prems(2)])
  have x1: "load64 m1 ?a = clr x"
    by (simp add: m1_def load64_store64_same)
  show ?case
  proof (cases "k = 0")
    case True
    then have "clear_ept_ad_loop ga (Suc k) pt m = m1"
      using clear_loop_Suc [OF x_def [symmetric] m1_def] by simp
    then show ?thesis
      using le x1 pt Suc.prems(1) True by (simp add: Let_def x_def)
  next
    case False
    have x: "ept_present x" "\<not> huge (Suc k) x" "epath T m ga k (x AND PT_ADDR_MASK) e"
      using Suc.prems(1) False by (simp_all add: Let_def x_def)
    let ?m = "clear_ept_ad_loop ga k (x AND PT_ADDR_MASK) m1"
    have eq: "clear_ept_ad_loop ga (Suc k) pt m = ?m"
      using clear_loop_Suc [OF x_def [symmetric] m1_def] x(2) False by simp
    obtain e1 where e1: "epath T m1 ga k (x AND PT_ADDR_MASK) e1" "clr e1 = clr e"
      using epath_ad_le [OF le x(3)] by force
    note IH = Suc.IH [OF e1(1) Suc.prems(2)]
    then have IH: "ad_le T m1 ?m" "epath T ?m ga k (x AND PT_ADDR_MASK) (clr e)"
      using Suc.prems(3) e1(2) by simp_all
    have "load64 ?m ?a = clr x"
      using ad_le_entry [OF IH(1) pt x1 [symmetric]] by simp
    then show ?thesis
      unfolding eq using ad_le_trans [OF le IH(1)] IH(2) x(1,2) pt False by (simp add: Let_def)
  qed
qed simp

section \<open>The walk of the guest\<close>

text \<open>The guest tables that the walk of a guest address visits, and the guest physical addresses that it uses.\<close>

primrec guest_walk :: "mem \<Rightarrow> u64 \<Rightarrow> nat \<Rightarrow> u64 \<Rightarrow> (u64 list \<times> u64 list) option" where
  "guest_walk m ga 0 pt = None"
| "guest_walk m ga (Suc k) pt =
     (let a = entry pt (PGDIR_OFFSET ga (Suc k)); pte = load64 m a in
      if k = 0 \<or> huge (Suc k) pte then Some ([pt], [a, walk_gpa (Suc k) pte ga])
      else if \<not> present pte then None
      else map_option (\<lambda>(ts, as). (pt # ts, a # as)) (guest_walk m ga k (pte AND PT_ADDR_MASK)))"

definition mapped_by :: "u64 set \<Rightarrow> mem \<Rightarrow> u64 \<Rightarrow> u64 \<Rightarrow> bool" where
  "mapped_by T m pml4 ga \<longleftrightarrow> (\<exists>e. epath T m ga 4 pml4 e)"

definition clean_by :: "u64 set \<Rightarrow> mem \<Rightarrow> u64 \<Rightarrow> u64 \<Rightarrow> bool" where
  "clean_by T m pml4 ga \<longleftrightarrow> (\<exists>e. epath T m ga 4 pml4 (clr e))"

lemma mapped_ad_le: "ad_le T m m' \<Longrightarrow> mapped_by T m pml4 ga \<Longrightarrow> mapped_by T m' pml4 ga"
  unfolding mapped_by_def using epath_ad_le by blast

lemma clean_ad_le: "ad_le T m m' \<Longrightarrow> clean_by T m pml4 ga \<Longrightarrow> clean_by T m' pml4 ga"
  unfolding clean_by_def using epath_ad_le by (metis clr_simps(5))

lemma clear_ept_ad_pte_clears:
  assumes "mapped_by T m pml4 ga" and "\<forall>q \<in> T. page_aligned q"
  shows "ad_le T m (clear_ept_ad_pte pml4 ga m)" and "clean_by T (clear_ept_ad_pte pml4 ga m) pml4 ga"
proof -
  obtain e where "epath T m ga 4 pml4 e"
    using assms(1) by (auto simp: mapped_by_def)
  from clear_loop_clears [OF this assms(2)]
  show "ad_le T m (clear_ept_ad_pte pml4 ga m)" "clean_by T (clear_ept_ad_pte pml4 ga m) pml4 ga"
    unfolding clear_ept_ad_pte_def clean_by_def ept_consts by auto
qed

lemma guest_entry_kept:
  assumes "ad_le T m m'" and "\<forall>q \<in> T. page_aligned q" and "page_aligned pt" and "pt \<notin> T"
  shows "load64 m' (entry pt (PGDIR_OFFSET ga l)) = load64 m (entry pt (PGDIR_OFFSET ga l))"
  unfolding entry_offset [of pt ga l]
proof (rule pte_at_cong [OF _ unat_offset_512])
  fix a
  assume "in_page a pt"
  then have "\<forall>p \<in> T. \<not> in_page a p"
    using in_page_unique [OF _ assms(3)] assms(2,4) by blast
  then show "m' a = m a"
    using assms(1) by (simp add: ad_le_def)
qed

lemma PT_ADDR_MASK_aligned: "page_aligned (e AND PT_ADDR_MASK)"
  unfolding aligned_def by (rule bit_word_eqI) (auto simp: bit_take_bit_iff bit_and_iff bit_PT_ADDR_MASK)

lemma tabs_aligned: "page_aligned pt \<Longrightarrow> q \<in> set (gtabs pr m lvl pt) \<Longrightarrow> page_aligned q"
proof (induction lvl arbitrary: pt)
  case (Suc l)
  then show ?case
    using PT_ADDR_MASK_aligned by (auto simp: set_tabs_Suc gsubtree_def split: if_splits simp del: gtabs.simps)
qed simp

lemma guest_walk_kept:
  assumes "ad_le T m m'" and "\<forall>q \<in> T. page_aligned q"
  shows "page_aligned pt \<Longrightarrow> guest_walk m ga lvl pt = Some (ts, as) \<Longrightarrow> set ts \<inter> T = {} \<Longrightarrow> guest_walk m' ga lvl pt = Some (ts, as)"
proof (induction lvl arbitrary: pt ts as)
  case (Suc k)
  have "pt \<notin> T"
    using Suc.prems(2,3) by (auto simp: Let_def split: if_splits)
  then have "load64 m' (entry pt (PGDIR_OFFSET ga (Suc k))) = load64 m (entry pt (PGDIR_OFFSET ga (Suc k)))"
    by (rule guest_entry_kept [OF assms Suc.prems(1)])
  then show ?case
    using Suc.prems(2,3) Suc.IH PT_ADDR_MASK_aligned by (auto simp: Let_def split: if_splits)
qed simp

lemma guest_leaf: "k \<le> 3 \<Longrightarrow> (Suc k = 1 \<or> Suc k < 4 \<and> large pte) \<longleftrightarrow> (k = 0 \<or> huge (Suc k) pte)"
  by (auto simp: huge_def)

lemma clear_ad_walk_clears:
  "page_aligned pt \<Longrightarrow> guest_walk m ga lvl pt = Some (ts, as) \<Longrightarrow> set ts \<inter> T = {} \<Longrightarrow> \<forall>q \<in> T. page_aligned q \<Longrightarrow> lvl \<le> 4
   \<Longrightarrow> \<forall>a \<in> set as. mapped_by T m pml4 a
   \<Longrightarrow> ad_le T m (clear_ad_walk pml4 ga lvl pt m) \<and> (\<forall>a \<in> set as. clean_by T (clear_ad_walk pml4 ga lvl pt m) pml4 a)"
proof (induction lvl arbitrary: pt ts as m)
  case (Suc k)
  let ?a = "entry pt (PGDIR_OFFSET ga (Suc k))"
  define m1 where "m1 = clear_ept_ad_pte pml4 ?a m"
  define pte where "pte = load64 m ?a"
  have a: "?a \<in> set as" and pt: "pt \<notin> T"
    using Suc.prems(2,3) by (auto simp: Let_def split: if_splits)
  note c = clear_ept_ad_pte_clears [of T m pml4 ?a, OF _ Suc.prems(4), folded m1_def]
  have m1: "ad_le T m m1" "clean_by T m1 pml4 ?a"
    using c Suc.prems(6) a by auto
  have l1: "load64 m1 ?a = pte"
    unfolding pte_def by (rule guest_entry_kept [OF m1(1) Suc.prems(4,1) pt])
  have w: "clear_ad_walk pml4 ga (Suc k) pt m =
      (if k = 0 \<or> huge (Suc k) pte then clear_ept_ad_pte pml4 (walk_gpa (Suc k) pte ga) m1
       else if \<not> present pte then m1 else clear_ad_walk pml4 ga k (pte AND PT_ADDR_MASK) m1)"
    using guest_leaf [of k pte] Suc.prems(5) l1 by (simp add: Let_def ept_consts m1_def)
  show ?case
  proof (cases "k = 0 \<or> huge (Suc k) pte")
    case True
    then have as: "as = [?a, walk_gpa (Suc k) pte ga]"
      using Suc.prems(2) by (auto simp: Let_def pte_def)
    then have "mapped_by T m1 pml4 (walk_gpa (Suc k) pte ga)"
      using Suc.prems(6) mapped_ad_le [OF m1(1)] by simp
    note d = clear_ept_ad_pte_clears [OF this Suc.prems(4)]
    show ?thesis
      using True d clean_ad_le [OF d(1) m1(2)] ad_le_trans [OF m1(1) d(1)] unfolding w as by simp
  next
    case False
    then obtain ts' as' where r: "present pte" "guest_walk m ga k (pte AND PT_ADDR_MASK) = Some (ts', as')" "ts = pt # ts'" "as = ?a # as'"
      using Suc.prems(2) by (auto simp: Let_def pte_def split: if_splits)
    have g: "guest_walk m1 ga k (pte AND PT_ADDR_MASK) = Some (ts', as')"
      using guest_walk_kept [OF m1(1) Suc.prems(4) PT_ADDR_MASK_aligned r(2)] Suc.prems(3) r(3) by simp
    have "ad_le T m1 (clear_ad_walk pml4 ga k (pte AND PT_ADDR_MASK) m1)
        \<and> (\<forall>a \<in> set as'. clean_by T (clear_ad_walk pml4 ga k (pte AND PT_ADDR_MASK) m1) pml4 a)"
      using Suc.prems(3-6) r(3,4) mapped_ad_le [OF m1(1)] by (intro Suc.IH [OF PT_ADDR_MASK_aligned g]) auto
    then show ?thesis
      using False r(1,4) clean_ad_le [OF _ m1(2)] ad_le_trans [OF m1(1)] unfolding w by auto
  qed
qed simp

section \<open>Checking what was cleared\<close>

lemma clean_get:
  assumes "clean_by T m pml4 a"
  shows "\<exists>e. get_ept_pte m pml4 a 1 = Ret (Some e) \<and> e AND (EPT_ACCESS_FLAG OR EPT_DIRTY_FLAG) = 0"
proof -
  obtain e where "epath T m a 4 pml4 (clr e)"
    using assms by (auto simp: clean_by_def)
  then have "get_ept_pte m pml4 a 1 = Ret (Some (clr e))"
    using epath_get [of T m a 4 pml4 "clr e"] by (simp add: get_ept_pte_def ept_consts)
  then show ?thesis
    by (metis clr_simps(6))
qed

text \<open>The two reports of a check that finds all flags clear.\<close>

definition check_passes :: "report_state \<Rightarrow> report_state outcome" where
  "check_passes r = bind_outcome (report r ''EPT - guest page table structures A=%d/D=%d'' True (flag_args 0))
     (\<lambda>r. report r ''EPT - guest physical address A=%d/D=%d'' True (flag_args 0))"

lemma check_ad_walk_passes:
  "guest_walk m ga lvl pt = Some (ts, as) \<Longrightarrow> lvl \<le> 4 \<Longrightarrow> \<forall>a \<in> set as. clean_by T m pml4 a
   \<Longrightarrow> check_ad_walk m pml4 ga 0 0 lvl pt False r = check_passes r"
proof (induction lvl arbitrary: pt ts as)
  case (Suc k)
  let ?a = "entry pt (PGDIR_OFFSET ga (Suc k))"
  define pte where "pte = load64 m ?a"
  have "?a \<in> set as"
    using Suc.prems(1) by (auto simp: Let_def split: if_splits)
  then obtain e where e: "get_ept_pte m pml4 ?a 1 = Ret (Some e)" "e AND (EPT_ACCESS_FLAG OR EPT_DIRTY_FLAG) = 0"
    using clean_get Suc.prems(3) by blast
  have w: "check_ad_walk m pml4 ga 0 0 (Suc k) pt False r =
      (if k = 0 \<or> huge (Suc k) pte then check_ad_end m pml4 ga 0 0 (Suc k) pte False r
       else if \<not> present pte then Ret r else check_ad_walk m pml4 ga 0 0 k (pte AND PT_ADDR_MASK) False r)"
    using guest_leaf [of k pte] Suc.prems(2) e by (simp add: Let_def ept_consts pte_def)
  show ?case
  proof (cases "k = 0 \<or> huge (Suc k) pte")
    case True
    then have "walk_gpa (Suc k) pte ga \<in> set as"
      using Suc.prems(1) by (auto simp: Let_def pte_def)
    then obtain g where "get_ept_pte m pml4 (walk_gpa (Suc k) pte ga) 1 = Ret (Some g)" "g AND (EPT_ACCESS_FLAG OR EPT_DIRTY_FLAG) = 0"
      using clean_get Suc.prems(3) by blast
    then show ?thesis
      unfolding w using True by (simp add: check_ad_end_def check_passes_def)
  next
    case False
    then obtain ts' as' where "present pte" "guest_walk m ga k (pte AND PT_ADDR_MASK) = Some (ts', as')" "as = ?a # as'"
      using Suc.prems(1) by (auto simp: Let_def pte_def split: if_splits)
    then show ?thesis
      unfolding w using False Suc.IH Suc.prems(2,3) by auto
  qed
qed simp

lemma flag_texts:
  "printf_out ''EPT - guest page table structures A=%d/D=%d'' (flag_args 0) = Ret ''EPT - guest page table structures A=0/D=0''"
  "printf_out ''EPT - guest physical address A=%d/D=%d'' (flag_args 0) = Ret ''EPT - guest physical address A=0/D=0''"
  by (simp_all add: flag_args_def printf_out_def vtext_def parse_simps conv_text_def props0_def int_text_def va_int_def pad_text_def nat_text.simps digits_def BUFSZ_def)

lemma check_passes_counts: "\<exists>r'. check_passes r = Ret r' \<and> tests r' = tests r + 2 \<and> failures r' = failures r"
  by (simp add: check_passes_def report_def va_report_def flag_texts status_text puts_def Let_def)

text \<open>
  C12: Clearing and checking the flags agree. When the guest walk of an address is complete, its tables lie outside the extended
  page tables, and each address that it uses is mapped by a 4K entry, \<open>check_ept_ad\<close> after \<open>clear_ept_ad\<close>, expecting all flags
  clear, makes two reports and both pass.
\<close>

theorem clear_ept_ad_checks:
  assumes "page_aligned pml4" and "page_aligned guest_cr3" and "guest_walk (ram s) ga 4 guest_cr3 = Some (ts, as)"
    and "set ts \<inter> set (gtabs ept_present (ram s) 4 pml4) = {}" and "\<forall>a \<in> set as. get_ept_pte (ram s) pml4 a 1 \<noteq> Ret None"
  shows "\<exists>r'. check_ept_ad (ram (clear_ept_ad pml4 guest_cr3 ga s)) pml4 guest_cr3 ga 0 0 r = Ret r'
    \<and> tests r' = tests r + 2 \<and> failures r' = failures r"
proof -
  let ?T = "set (gtabs ept_present (ram s) 4 pml4)" and ?m = "clear_ad_walk pml4 ga 4 guest_cr3 (ram s)"
  have al: "\<forall>q \<in> ?T. page_aligned q"
    using tabs_aligned [OF assms(1)] by blast
  have "mapped_by ?T (ram s) pml4 a" if "a \<in> set as" for a
    using assms(5) that get_epath [of "ram s" 4 pml4 ?T a] by (auto simp: get_ept_pte_def ept_consts mapped_by_def)
  then have c: "ad_le ?T (ram s) ?m" "\<forall>a \<in> set as. clean_by ?T ?m pml4 a"
    using clear_ad_walk_clears [OF assms(2,3,4) al] by simp_all
  then have "guest_walk ?m ga 4 guest_cr3 = Some (ts, as)"
    using guest_walk_kept [OF _ al assms(2,3,4)] by blast
  then show ?thesis
    using check_ad_walk_passes [OF _ _ c(2)] check_passes_counts [of r] by (simp add: check_ept_ad_def clear_ept_ad_def ept_consts)
qed

text \<open>A machine whose tables point to themselves: one guest table at address 0 and one extended page table at \<open>0x1000\<close>.\<close>

definition loop_machine :: machine where
  "loop_machine = reset_machine\<lparr>ram := store64 (store64 (\<lambda>_. 0) 0 1) 0x1000 0x1307\<rparr>"

lemma loop_machine_loads:
  "load64 (ram loop_machine) 0 = 1" "load64 (ram loop_machine) 0x1000 = 0x1307"
  by (simp_all add: loop_machine_def load64_store64_same load64_store64_other aligned_def)

lemma loop_tabs:
  assumes "\<forall>i < 512. pr (pte_at m p i) \<longrightarrow> pte_at m p i AND PT_ADDR_MASK = p"
  shows "set (gtabs pr m l p) \<subseteq> {p}"
  using assms by (induction l) (auto simp: set_tabs_Suc gsubtree_def split: if_splits simp del: gtabs.simps(2))

theorem clear_ept_ad_checks_witness:
  "\<exists>r'. check_ept_ad (ram (clear_ept_ad 0x1000 0 0x123 loop_machine)) 0x1000 0 0x123 0 0 report_init = Ret r'
    \<and> tests r' = tests report_init + 2 \<and> failures r' = failures report_init"
proof (rule clear_ept_ad_checks)
  have ga: "take_bit 12 ga = ga \<Longrightarrow> PGDIR_OFFSET ga l = 0" if "0 < l" for ga l
  proof (rule bit_word_eqI)
    fix n :: nat
    assume "take_bit 12 ga = ga"
    then show "bit (PGDIR_OFFSET ga l) n = bit (0 :: u64) n"
      using bit_take_bit_iff [of 12 ga "PGDIR_BITS l + n"]
      by (auto simp: PGDIR_OFFSET_def bit_and_iff bit_drop_bit_eq PGDIR_BITS_def PAGE_SHIFT_def)
  qed
  have off: "PGDIR_OFFSET 0x123 l = 0" "PGDIR_OFFSET 0 l = 0" if "0 < l" for l
    using that by (simp_all add: ga)
  have four: "4 = Suc (Suc (Suc (Suc 0)))"
    by simp
  have m: "PT_ADDR_MASK = 0xffffffffff000" "\<not> large 1" "present 1" "ept_present 0x1307" "\<not> large 0x1307"
    by (simp_all add: PT_ADDR_MASK_eq large_def PT_PAGE_SIZE_MASK_def present_def PT_PRESENT_MASK_def
        ept_present_def EPT_PRESENT_def EPT_RA_def EPT_WA_def EPT_EA_def)
  show "page_aligned 0x1000" "page_aligned 0"
    by (simp_all add: aligned_def)
  show "guest_walk (ram loop_machine) 0x123 4 0 = Some ([0, 0, 0, 0], [0, 0, 0, 0, 0x123])"
    unfolding four by (simp add: off loop_machine_loads Let_def huge_def m entry_def walk_gpa_def EPT_LEVEL_SHIFT_def)
  have "pte_at (ram loop_machine) 0x1000 i = (if i = 0 then 0x1307 else 0)" if "i < 512" for i
  proof -
    have p: "page_aligned 0x1000" "page_aligned (0 :: u64)"
      by (simp_all add: aligned_def)
    have "store64 (\<lambda>_. 0) 0 1 x = 0" if "in_page x 0x1000" for x
      using store64_other_page [OF p(2,1) _ that] by simp
    then have "pte_at (store64 (\<lambda>_. 0) 0 1) 0x1000 i = 0"
      by (rule zero_page_pte) (use that in simp_all)
    then show ?thesis
      using pte_at_store [OF p(1), of 0 i "store64 (\<lambda>_. 0) 0 1" "0x1307"] that by (simp add: loop_machine_def entry_def)
  qed
  then have "set (gtabs ept_present (ram loop_machine) 4 0x1000) \<subseteq> {0x1000}"
    by (intro loop_tabs) (simp add: m ept_present_def)
  then show "set [0, 0, 0, 0] \<inter> set (gtabs ept_present (ram loop_machine) 4 0x1000) = {}"
    by auto
  show "\<forall>a \<in> set [0, 0, 0, 0, 0x123]. get_ept_pte (ram loop_machine) 0x1000 a 1 \<noteq> Ret None"
    unfolding get_ept_pte_def ept_consts four by (simp add: off loop_machine_loads Let_def m entry_def ept_consts)
qed

end
