(* ===== verification/Vmcs.thy ===== *)
theory Vmcs
  imports Ept_Ad
begin

text \<open>
  The tests of the virtual machine control structure (VMCS) in \<^verbatim>\<open>x86/vmx.c\<close>. The VMX instructions, wrapped in
  \<^verbatim>\<open>x86/vmx.h\<close>, are the processor and a parameter of the model: a record of their effects on the state of the
  processor and on memory.
\<close>

unbundle bit_operations_syntax

section \<open>State\<close>

text \<open>Each instruction takes the state of the processor and the memory; \<open>vmread\<close> returns the flags and the value.\<close>

record 'h vmx_hw =
  i_vmptrld :: "u64 \<Rightarrow> 'h \<times> mem \<Rightarrow> bool \<times> 'h \<times> mem"
  i_vmclear :: "u64 \<Rightarrow> 'h \<times> mem \<Rightarrow> bool \<times> 'h \<times> mem"
  i_vmread :: "u64 \<Rightarrow> 'h \<times> mem \<Rightarrow> u64 \<times> u64 \<times> 'h \<times> mem"
  i_vmwrite :: "u64 \<Rightarrow> u64 \<Rightarrow> 'h \<times> mem \<Rightarrow> bool \<times> 'h \<times> mem"
  i_rdmsr :: "u32 \<Rightarrow> 'h \<Rightarrow> u64"

record 'h vmx_state =
  mach :: machine
  hwst :: 'h
  rep :: report_state
  basic :: u64

definition hw_view :: "'h vmx_state \<Rightarrow> 'h \<times> mem" where
  "hw_view s = (hwst s, ram (mach s))"

definition set_view :: "'h \<times> mem \<Rightarrow> 'h vmx_state \<Rightarrow> 'h vmx_state" where
  "set_view v s = s\<lparr>hwst := fst v, mach := (mach s)\<lparr>ram := snd v\<rparr>\<rparr>"

definition vmcs_clear :: "'h vmx_hw \<Rightarrow> u64 \<Rightarrow> 'h vmx_state \<Rightarrow> bool \<times> 'h vmx_state" where
  "vmcs_clear hw vmcs s = (case i_vmclear hw vmcs (hw_view s) of (ret, v) \<Rightarrow> (ret, set_view v s))"

definition make_vmcs_current :: "'h vmx_hw \<Rightarrow> u64 \<Rightarrow> 'h vmx_state \<Rightarrow> bool \<times> 'h vmx_state" where
  "make_vmcs_current hw vmcs s = (case i_vmptrld hw vmcs (hw_view s) of (ret, v) \<Rightarrow> (ret, set_view v s))"

definition vmcs_read_checking :: "'h vmx_hw \<Rightarrow> u64 \<Rightarrow> 'h vmx_state \<Rightarrow> u64 \<times> u64 \<times> 'h vmx_state" where
  "vmcs_read_checking hw enc s = (case i_vmread hw enc (hw_view s) of (flags, val, v) \<Rightarrow> (flags, val, set_view v s))"

definition vmcs_read :: "'h vmx_hw \<Rightarrow> u64 \<Rightarrow> 'h vmx_state \<Rightarrow> u64 \<times> 'h vmx_state" where
  "vmcs_read hw enc s = (case i_vmread hw enc (hw_view s) of (flags, val, v) \<Rightarrow> (val, set_view v s))"

definition vmcs_write :: "'h vmx_hw \<Rightarrow> u64 \<Rightarrow> u64 \<Rightarrow> 'h vmx_state \<Rightarrow> bool \<times> 'h vmx_state" where
  "vmcs_write hw enc val s = (case i_vmwrite hw enc val (hw_view s) of (ret, v) \<Rightarrow> (ret, set_view v s))"

definition rdmsr :: "'h vmx_hw \<Rightarrow> u32 \<Rightarrow> 'h vmx_state \<Rightarrow> u64" where
  "rdmsr hw idx s = i_rdmsr hw idx (hwst s)"

definition vm_printf :: "string \<Rightarrow> vararg list \<Rightarrow> 'h vmx_state \<Rightarrow> 'h vmx_state outcome" where
  "vm_printf fmt va s = bind_outcome (printf_out fmt va) (\<lambda>t. Ret (s\<lparr>rep := puts (rep s) t\<rparr>))"

definition vm_report :: "string \<Rightarrow> bool \<Rightarrow> vararg list \<Rightarrow> 'h vmx_state \<Rightarrow> 'h vmx_state outcome" where
  "vm_report fmt pass va s = bind_outcome (report (rep s) fmt pass va) (\<lambda>r. Ret (s\<lparr>rep := r\<rparr>))"

definition vm_alloc_page :: "'h vmx_state \<Rightarrow> u64 \<times> 'h vmx_state" where
  "vm_alloc_page s = (case alloc_page (mach s) of (p, m) \<Rightarrow> (p, s\<lparr>mach := m\<rparr>))"

definition vm_free_page :: "u64 \<Rightarrow> 'h vmx_state \<Rightarrow> 'h vmx_state" where
  "vm_free_page p s = s\<lparr>mach := free_page p (mach s)\<rparr>"

text \<open>The revision identifier in the header of a VMCS is a bit field of 31 bits.\<close>

definition revision :: "u64 \<Rightarrow> u64" where
  "revision b = take_bit 32 b"

definition set_revision_id :: "u64 \<Rightarrow> u64 \<Rightarrow> 'h vmx_state \<Rightarrow> 'h vmx_state" where
  "set_revision_id vmcs ident s =
     (let m = ram (mach s); w = (loadn 4 m vmcs AND 0x80000000) OR take_bit 31 ident
      in s\<lparr>mach := (mach s)\<lparr>ram := storen 4 m vmcs w\<rparr>\<rparr>)"

section \<open>Fields\<close>

type_synonym vmcs_field = "u64 \<times> u64"

abbreviation VPID :: u64 where "VPID \<equiv> 0x0000"
abbreviation PINV :: u64 where "PINV \<equiv> 0x0002"
abbreviation EPTP_IDX :: u64 where "EPTP_IDX \<equiv> 0x0004"
abbreviation GUEST_SEL_ES :: u64 where "GUEST_SEL_ES \<equiv> 0x0800"
abbreviation GUEST_SEL_CS :: u64 where "GUEST_SEL_CS \<equiv> 0x0802"
abbreviation GUEST_SEL_SS :: u64 where "GUEST_SEL_SS \<equiv> 0x0804"
abbreviation GUEST_SEL_DS :: u64 where "GUEST_SEL_DS \<equiv> 0x0806"
abbreviation GUEST_SEL_FS :: u64 where "GUEST_SEL_FS \<equiv> 0x0808"
abbreviation GUEST_SEL_GS :: u64 where "GUEST_SEL_GS \<equiv> 0x080a"
abbreviation GUEST_SEL_LDTR :: u64 where "GUEST_SEL_LDTR \<equiv> 0x080c"
abbreviation GUEST_SEL_TR :: u64 where "GUEST_SEL_TR \<equiv> 0x080e"
abbreviation GUEST_INT_STATUS :: u64 where "GUEST_INT_STATUS \<equiv> 0x0810"
abbreviation HOST_SEL_ES :: u64 where "HOST_SEL_ES \<equiv> 0x0c00"
abbreviation HOST_SEL_CS :: u64 where "HOST_SEL_CS \<equiv> 0x0c02"
abbreviation HOST_SEL_SS :: u64 where "HOST_SEL_SS \<equiv> 0x0c04"
abbreviation HOST_SEL_DS :: u64 where "HOST_SEL_DS \<equiv> 0x0c06"
abbreviation HOST_SEL_FS :: u64 where "HOST_SEL_FS \<equiv> 0x0c08"
abbreviation HOST_SEL_GS :: u64 where "HOST_SEL_GS \<equiv> 0x0c0a"
abbreviation HOST_SEL_TR :: u64 where "HOST_SEL_TR \<equiv> 0x0c0c"
abbreviation IO_BITMAP_A :: u64 where "IO_BITMAP_A \<equiv> 0x2000"
abbreviation IO_BITMAP_B :: u64 where "IO_BITMAP_B \<equiv> 0x2002"
abbreviation MSR_BITMAP :: u64 where "MSR_BITMAP \<equiv> 0x2004"
abbreviation EXIT_MSR_ST_ADDR :: u64 where "EXIT_MSR_ST_ADDR \<equiv> 0x2006"
abbreviation EXIT_MSR_LD_ADDR :: u64 where "EXIT_MSR_LD_ADDR \<equiv> 0x2008"
abbreviation ENTER_MSR_LD_ADDR :: u64 where "ENTER_MSR_LD_ADDR \<equiv> 0x200a"
abbreviation VMCS_EXEC_PTR :: u64 where "VMCS_EXEC_PTR \<equiv> 0x200c"
abbreviation TSC_OFFSET :: u64 where "TSC_OFFSET \<equiv> 0x2010"
abbreviation APIC_VIRT_ADDR :: u64 where "APIC_VIRT_ADDR \<equiv> 0x2012"
abbreviation APIC_ACCS_ADDR :: u64 where "APIC_ACCS_ADDR \<equiv> 0x2014"
abbreviation EPTP :: u64 where "EPTP \<equiv> 0x201a"
abbreviation INFO_PHYS_ADDR :: u64 where "INFO_PHYS_ADDR \<equiv> 0x2400"
abbreviation VMCS_LINK_PTR :: u64 where "VMCS_LINK_PTR \<equiv> 0x2800"
abbreviation GUEST_DEBUGCTL :: u64 where "GUEST_DEBUGCTL \<equiv> 0x2802"
abbreviation GUEST_EFER :: u64 where "GUEST_EFER \<equiv> 0x2806"
abbreviation GUEST_PAT :: u64 where "GUEST_PAT \<equiv> 0x2804"
abbreviation GUEST_PERF_GLOBAL_CTRL :: u64 where "GUEST_PERF_GLOBAL_CTRL \<equiv> 0x2808"
abbreviation GUEST_PDPTE :: u64 where "GUEST_PDPTE \<equiv> 0x280a"
abbreviation HOST_PAT :: u64 where "HOST_PAT \<equiv> 0x2c00"
abbreviation HOST_EFER :: u64 where "HOST_EFER \<equiv> 0x2c02"
abbreviation HOST_PERF_GLOBAL_CTRL :: u64 where "HOST_PERF_GLOBAL_CTRL \<equiv> 0x2c04"
abbreviation PIN_CONTROLS :: u64 where "PIN_CONTROLS \<equiv> 0x4000"
abbreviation CPU_EXEC_CTRL0 :: u64 where "CPU_EXEC_CTRL0 \<equiv> 0x4002"
abbreviation EXC_BITMAP :: u64 where "EXC_BITMAP \<equiv> 0x4004"
abbreviation PF_ERROR_MASK :: u64 where "PF_ERROR_MASK \<equiv> 0x4006"
abbreviation PF_ERROR_MATCH :: u64 where "PF_ERROR_MATCH \<equiv> 0x4008"
abbreviation CR3_TARGET_COUNT :: u64 where "CR3_TARGET_COUNT \<equiv> 0x400a"
abbreviation EXI_CONTROLS :: u64 where "EXI_CONTROLS \<equiv> 0x400c"
abbreviation EXI_MSR_ST_CNT :: u64 where "EXI_MSR_ST_CNT \<equiv> 0x400e"
abbreviation EXI_MSR_LD_CNT :: u64 where "EXI_MSR_LD_CNT \<equiv> 0x4010"
abbreviation ENT_CONTROLS :: u64 where "ENT_CONTROLS \<equiv> 0x4012"
abbreviation ENT_MSR_LD_CNT :: u64 where "ENT_MSR_LD_CNT \<equiv> 0x4014"
abbreviation ENT_INTR_INFO :: u64 where "ENT_INTR_INFO \<equiv> 0x4016"
abbreviation ENT_INTR_ERROR :: u64 where "ENT_INTR_ERROR \<equiv> 0x4018"
abbreviation ENT_INST_LEN :: u64 where "ENT_INST_LEN \<equiv> 0x401a"
abbreviation TPR_THRESHOLD :: u64 where "TPR_THRESHOLD \<equiv> 0x401c"
abbreviation CPU_EXEC_CTRL1 :: u64 where "CPU_EXEC_CTRL1 \<equiv> 0x401e"
abbreviation VMX_INST_ERROR :: u64 where "VMX_INST_ERROR \<equiv> 0x4400"
abbreviation EXI_REASON :: u64 where "EXI_REASON \<equiv> 0x4402"
abbreviation EXI_INTR_INFO :: u64 where "EXI_INTR_INFO \<equiv> 0x4404"
abbreviation EXI_INTR_ERROR :: u64 where "EXI_INTR_ERROR \<equiv> 0x4406"
abbreviation IDT_VECT_INFO :: u64 where "IDT_VECT_INFO \<equiv> 0x4408"
abbreviation IDT_VECT_ERROR :: u64 where "IDT_VECT_ERROR \<equiv> 0x440a"
abbreviation EXI_INST_LEN :: u64 where "EXI_INST_LEN \<equiv> 0x440c"
abbreviation EXI_INST_INFO :: u64 where "EXI_INST_INFO \<equiv> 0x440e"
abbreviation GUEST_LIMIT_ES :: u64 where "GUEST_LIMIT_ES \<equiv> 0x4800"
abbreviation GUEST_LIMIT_CS :: u64 where "GUEST_LIMIT_CS \<equiv> 0x4802"
abbreviation GUEST_LIMIT_SS :: u64 where "GUEST_LIMIT_SS \<equiv> 0x4804"
abbreviation GUEST_LIMIT_DS :: u64 where "GUEST_LIMIT_DS \<equiv> 0x4806"
abbreviation GUEST_LIMIT_FS :: u64 where "GUEST_LIMIT_FS \<equiv> 0x4808"
abbreviation GUEST_LIMIT_GS :: u64 where "GUEST_LIMIT_GS \<equiv> 0x480a"
abbreviation GUEST_LIMIT_LDTR :: u64 where "GUEST_LIMIT_LDTR \<equiv> 0x480c"
abbreviation GUEST_LIMIT_TR :: u64 where "GUEST_LIMIT_TR \<equiv> 0x480e"
abbreviation GUEST_LIMIT_GDTR :: u64 where "GUEST_LIMIT_GDTR \<equiv> 0x4810"
abbreviation GUEST_LIMIT_IDTR :: u64 where "GUEST_LIMIT_IDTR \<equiv> 0x4812"
abbreviation GUEST_AR_ES :: u64 where "GUEST_AR_ES \<equiv> 0x4814"
abbreviation GUEST_AR_CS :: u64 where "GUEST_AR_CS \<equiv> 0x4816"
abbreviation GUEST_AR_SS :: u64 where "GUEST_AR_SS \<equiv> 0x4818"
abbreviation GUEST_AR_DS :: u64 where "GUEST_AR_DS \<equiv> 0x481a"
abbreviation GUEST_AR_FS :: u64 where "GUEST_AR_FS \<equiv> 0x481c"
abbreviation GUEST_AR_GS :: u64 where "GUEST_AR_GS \<equiv> 0x481e"
abbreviation GUEST_AR_LDTR :: u64 where "GUEST_AR_LDTR \<equiv> 0x4820"
abbreviation GUEST_AR_TR :: u64 where "GUEST_AR_TR \<equiv> 0x4822"
abbreviation GUEST_INTR_STATE :: u64 where "GUEST_INTR_STATE \<equiv> 0x4824"
abbreviation GUEST_ACTV_STATE :: u64 where "GUEST_ACTV_STATE \<equiv> 0x4826"
abbreviation GUEST_SMBASE :: u64 where "GUEST_SMBASE \<equiv> 0x4828"
abbreviation GUEST_SYSENTER_CS :: u64 where "GUEST_SYSENTER_CS \<equiv> 0x482a"
abbreviation PREEMPT_TIMER_VALUE :: u64 where "PREEMPT_TIMER_VALUE \<equiv> 0x482e"
abbreviation HOST_SYSENTER_CS :: u64 where "HOST_SYSENTER_CS \<equiv> 0x4c00"
abbreviation CR0_MASK :: u64 where "CR0_MASK \<equiv> 0x6000"
abbreviation CR4_MASK :: u64 where "CR4_MASK \<equiv> 0x6002"
abbreviation CR0_READ_SHADOW :: u64 where "CR0_READ_SHADOW \<equiv> 0x6004"
abbreviation CR4_READ_SHADOW :: u64 where "CR4_READ_SHADOW \<equiv> 0x6006"
abbreviation CR3_TARGET_0 :: u64 where "CR3_TARGET_0 \<equiv> 0x6008"
abbreviation CR3_TARGET_1 :: u64 where "CR3_TARGET_1 \<equiv> 0x600a"
abbreviation CR3_TARGET_2 :: u64 where "CR3_TARGET_2 \<equiv> 0x600c"
abbreviation CR3_TARGET_3 :: u64 where "CR3_TARGET_3 \<equiv> 0x600e"
abbreviation EXI_QUALIFICATION :: u64 where "EXI_QUALIFICATION \<equiv> 0x6400"
abbreviation IO_RCX :: u64 where "IO_RCX \<equiv> 0x6402"
abbreviation IO_RSI :: u64 where "IO_RSI \<equiv> 0x6404"
abbreviation IO_RDI :: u64 where "IO_RDI \<equiv> 0x6406"
abbreviation IO_RIP :: u64 where "IO_RIP \<equiv> 0x6408"
abbreviation GUEST_LINEAR_ADDRESS :: u64 where "GUEST_LINEAR_ADDRESS \<equiv> 0x640a"
abbreviation GUEST_CR0 :: u64 where "GUEST_CR0 \<equiv> 0x6800"
abbreviation GUEST_CR3 :: u64 where "GUEST_CR3 \<equiv> 0x6802"
abbreviation GUEST_CR4 :: u64 where "GUEST_CR4 \<equiv> 0x6804"
abbreviation GUEST_BASE_ES :: u64 where "GUEST_BASE_ES \<equiv> 0x6806"
abbreviation GUEST_BASE_CS :: u64 where "GUEST_BASE_CS \<equiv> 0x6808"
abbreviation GUEST_BASE_SS :: u64 where "GUEST_BASE_SS \<equiv> 0x680a"
abbreviation GUEST_BASE_DS :: u64 where "GUEST_BASE_DS \<equiv> 0x680c"
abbreviation GUEST_BASE_FS :: u64 where "GUEST_BASE_FS \<equiv> 0x680e"
abbreviation GUEST_BASE_GS :: u64 where "GUEST_BASE_GS \<equiv> 0x6810"
abbreviation GUEST_BASE_LDTR :: u64 where "GUEST_BASE_LDTR \<equiv> 0x6812"
abbreviation GUEST_BASE_TR :: u64 where "GUEST_BASE_TR \<equiv> 0x6814"
abbreviation GUEST_BASE_GDTR :: u64 where "GUEST_BASE_GDTR \<equiv> 0x6816"
abbreviation GUEST_BASE_IDTR :: u64 where "GUEST_BASE_IDTR \<equiv> 0x6818"
abbreviation GUEST_DR7 :: u64 where "GUEST_DR7 \<equiv> 0x681a"
abbreviation GUEST_RSP :: u64 where "GUEST_RSP \<equiv> 0x681c"
abbreviation GUEST_RIP :: u64 where "GUEST_RIP \<equiv> 0x681e"
abbreviation GUEST_RFLAGS :: u64 where "GUEST_RFLAGS \<equiv> 0x6820"
abbreviation GUEST_PENDING_DEBUG :: u64 where "GUEST_PENDING_DEBUG \<equiv> 0x6822"
abbreviation GUEST_SYSENTER_ESP :: u64 where "GUEST_SYSENTER_ESP \<equiv> 0x6824"
abbreviation GUEST_SYSENTER_EIP :: u64 where "GUEST_SYSENTER_EIP \<equiv> 0x6826"
abbreviation HOST_CR0 :: u64 where "HOST_CR0 \<equiv> 0x6c00"
abbreviation HOST_CR3 :: u64 where "HOST_CR3 \<equiv> 0x6c02"
abbreviation HOST_CR4 :: u64 where "HOST_CR4 \<equiv> 0x6c04"
abbreviation HOST_BASE_FS :: u64 where "HOST_BASE_FS \<equiv> 0x6c06"
abbreviation HOST_BASE_GS :: u64 where "HOST_BASE_GS \<equiv> 0x6c08"
abbreviation HOST_BASE_TR :: u64 where "HOST_BASE_TR \<equiv> 0x6c0a"
abbreviation HOST_BASE_GDTR :: u64 where "HOST_BASE_GDTR \<equiv> 0x6c0c"
abbreviation HOST_BASE_IDTR :: u64 where "HOST_BASE_IDTR \<equiv> 0x6c0e"
abbreviation HOST_SYSENTER_ESP :: u64 where "HOST_SYSENTER_ESP \<equiv> 0x6c10"
abbreviation HOST_SYSENTER_EIP :: u64 where "HOST_SYSENTER_EIP \<equiv> 0x6c12"
abbreviation HOST_RSP :: u64 where "HOST_RSP \<equiv> 0x6c14"
abbreviation HOST_RIP :: u64 where "HOST_RIP \<equiv> 0x6c16"
abbreviation TSC_OFFSET_HI :: u64 where "TSC_OFFSET_HI \<equiv> 0x2011"

definition MASK :: "nat \<Rightarrow> u64" where
  "MASK bits = GENMASK_ULL (bits - 1) 0"

definition MASK_NATURAL :: u64 where
  "MASK_NATURAL = MASK (sizeof_long * 8)"

definition vmcs_fields :: "vmcs_field list" where
  "vmcs_fields = [
     (MASK 16, VPID), (MASK 16, PINV), (MASK 16, EPTP_IDX), (MASK 16, GUEST_SEL_ES), (MASK 16, GUEST_SEL_CS),
     (MASK 16, GUEST_SEL_SS), (MASK 16, GUEST_SEL_DS), (MASK 16, GUEST_SEL_FS), (MASK 16, GUEST_SEL_GS),
     (MASK 16, GUEST_SEL_LDTR), (MASK 16, GUEST_SEL_TR), (MASK 16, GUEST_INT_STATUS), (MASK 16, HOST_SEL_ES),
     (MASK 16, HOST_SEL_CS), (MASK 16, HOST_SEL_SS), (MASK 16, HOST_SEL_DS), (MASK 16, HOST_SEL_FS),
     (MASK 16, HOST_SEL_GS), (MASK 16, HOST_SEL_TR), (MASK 64, IO_BITMAP_A), (MASK 64, IO_BITMAP_B),
     (MASK 64, MSR_BITMAP), (MASK 64, EXIT_MSR_ST_ADDR), (MASK 64, EXIT_MSR_LD_ADDR), (MASK 64, ENTER_MSR_LD_ADDR),
     (MASK 64, VMCS_EXEC_PTR), (MASK 64, TSC_OFFSET), (MASK 64, APIC_VIRT_ADDR), (MASK 64, APIC_ACCS_ADDR),
     (MASK 64, EPTP), (MASK 64, INFO_PHYS_ADDR), (MASK 64, VMCS_LINK_PTR), (MASK 64, GUEST_DEBUGCTL),
     (MASK 64, GUEST_EFER), (MASK 64, GUEST_PAT), (MASK 64, GUEST_PERF_GLOBAL_CTRL), (MASK 64, GUEST_PDPTE),
     (MASK 64, HOST_PAT), (MASK 64, HOST_EFER), (MASK 64, HOST_PERF_GLOBAL_CTRL), (MASK 32, PIN_CONTROLS),
     (MASK 32, CPU_EXEC_CTRL0), (MASK 32, EXC_BITMAP), (MASK 32, PF_ERROR_MASK), (MASK 32, PF_ERROR_MATCH),
     (MASK 32, CR3_TARGET_COUNT), (MASK 32, EXI_CONTROLS), (MASK 32, EXI_MSR_ST_CNT), (MASK 32, EXI_MSR_LD_CNT),
     (MASK 32, ENT_CONTROLS), (MASK 32, ENT_MSR_LD_CNT), (MASK 32, ENT_INTR_INFO), (MASK 32, ENT_INTR_ERROR),
     (MASK 32, ENT_INST_LEN), (MASK 32, TPR_THRESHOLD), (MASK 32, CPU_EXEC_CTRL1), (MASK 32, VMX_INST_ERROR),
     (MASK 32, EXI_REASON), (MASK 32, EXI_INTR_INFO), (MASK 32, EXI_INTR_ERROR), (MASK 32, IDT_VECT_INFO),
     (MASK 32, IDT_VECT_ERROR), (MASK 32, EXI_INST_LEN), (MASK 32, EXI_INST_INFO), (MASK 32, GUEST_LIMIT_ES),
     (MASK 32, GUEST_LIMIT_CS), (MASK 32, GUEST_LIMIT_SS), (MASK 32, GUEST_LIMIT_DS), (MASK 32, GUEST_LIMIT_FS),
     (MASK 32, GUEST_LIMIT_GS), (MASK 32, GUEST_LIMIT_LDTR), (MASK 32, GUEST_LIMIT_TR), (MASK 32, GUEST_LIMIT_GDTR),
     (MASK 32, GUEST_LIMIT_IDTR), (0x1d0ff, GUEST_AR_ES), (0x1f0ff, GUEST_AR_CS), (0x1d0ff, GUEST_AR_SS),
     (0x1d0ff, GUEST_AR_DS), (0x1d0ff, GUEST_AR_FS), (0x1d0ff, GUEST_AR_GS), (0x1d0ff, GUEST_AR_LDTR),
     (0x1d0ff, GUEST_AR_TR), (MASK 32, GUEST_INTR_STATE), (MASK 32, GUEST_ACTV_STATE), (MASK 32, GUEST_SMBASE),
     (MASK 32, GUEST_SYSENTER_CS), (MASK 32, PREEMPT_TIMER_VALUE), (MASK 32, HOST_SYSENTER_CS),
     (MASK_NATURAL, CR0_MASK), (MASK_NATURAL, CR4_MASK), (MASK_NATURAL, CR0_READ_SHADOW),
     (MASK_NATURAL, CR4_READ_SHADOW), (MASK_NATURAL, CR3_TARGET_0), (MASK_NATURAL, CR3_TARGET_1),
     (MASK_NATURAL, CR3_TARGET_2), (MASK_NATURAL, CR3_TARGET_3), (MASK_NATURAL, EXI_QUALIFICATION),
     (MASK_NATURAL, IO_RCX), (MASK_NATURAL, IO_RSI), (MASK_NATURAL, IO_RDI), (MASK_NATURAL, IO_RIP),
     (MASK_NATURAL, GUEST_LINEAR_ADDRESS), (MASK_NATURAL, GUEST_CR0), (MASK_NATURAL, GUEST_CR3),
     (MASK_NATURAL, GUEST_CR4), (MASK_NATURAL, GUEST_BASE_ES), (MASK_NATURAL, GUEST_BASE_CS),
     (MASK_NATURAL, GUEST_BASE_SS), (MASK_NATURAL, GUEST_BASE_DS), (MASK_NATURAL, GUEST_BASE_FS),
     (MASK_NATURAL, GUEST_BASE_GS), (MASK_NATURAL, GUEST_BASE_LDTR), (MASK_NATURAL, GUEST_BASE_TR),
     (MASK_NATURAL, GUEST_BASE_GDTR), (MASK_NATURAL, GUEST_BASE_IDTR), (MASK_NATURAL, GUEST_DR7),
     (MASK_NATURAL, GUEST_RSP), (MASK_NATURAL, GUEST_RIP), (MASK_NATURAL, GUEST_RFLAGS),
     (MASK_NATURAL, GUEST_PENDING_DEBUG), (MASK_NATURAL, GUEST_SYSENTER_ESP), (MASK_NATURAL, GUEST_SYSENTER_EIP),
     (MASK_NATURAL, HOST_CR0), (MASK_NATURAL, HOST_CR3), (MASK_NATURAL, HOST_CR4), (MASK_NATURAL, HOST_BASE_FS),
     (MASK_NATURAL, HOST_BASE_GS), (MASK_NATURAL, HOST_BASE_TR), (MASK_NATURAL, HOST_BASE_GDTR),
     (MASK_NATURAL, HOST_BASE_IDTR), (MASK_NATURAL, HOST_SYSENTER_ESP), (MASK_NATURAL, HOST_SYSENTER_EIP),
     (MASK_NATURAL, HOST_RSP), (MASK_NATURAL, HOST_RIP)]"

definition VMCS_FIELD_INDEX_MASK :: u64 where
  "VMCS_FIELD_INDEX_MASK = GENMASK_ULL 9 1"

definition VMCS_FIELD_TYPE_SHIFT :: nat where
  "VMCS_FIELD_TYPE_SHIFT = 10"

definition VMCS_FIELD_TYPE_READ_ONLY_DATA :: u64 where
  "VMCS_FIELD_TYPE_READ_ONLY_DATA = 1"

definition MSR_IA32_VMX_MISC :: u32 where
  "MSR_IA32_VMX_MISC = 0x485"

definition MSR_IA32_VMX_VMCS_ENUM :: u32 where
  "MSR_IA32_VMX_VMCS_ENUM = 0x48a"

definition MSR_IA32_VMX_MISC_VMWRITE_SHADOW_RO_FIELDS :: u64 where
  "MSR_IA32_VMX_MISC_VMWRITE_SHADOW_RO_FIELDS = push_bit 29 1"

definition X86_EFLAGS_CF :: u64 where
  "X86_EFLAGS_CF = 1"

definition X86_EFLAGS_ZF :: u64 where
  "X86_EFLAGS_ZF = 0x40"

definition vmcs_field_type :: "vmcs_field \<Rightarrow> u64" where
  "vmcs_field_type f = drop_bit VMCS_FIELD_TYPE_SHIFT (snd f) AND 3"

definition vmcs_field_readonly :: "'h vmx_hw \<Rightarrow> vmcs_field \<Rightarrow> 'h vmx_state \<Rightarrow> bool" where
  "vmcs_field_readonly hw f s \<longleftrightarrow>
     rdmsr hw MSR_IA32_VMX_MISC s AND MSR_IA32_VMX_MISC_VMWRITE_SHADOW_RO_FIELDS = 0
     \<and> vmcs_field_type f = VMCS_FIELD_TYPE_READ_ONLY_DATA"

definition vmcs_field_value :: "vmcs_field \<Rightarrow> u8 \<Rightarrow> u64" where
  "vmcs_field_value f cookie = (ucast cookie OR push_bit 8 (snd f) OR push_bit 32 0xdeadbeef) AND fst f"

definition set_vmcs_field :: "'h vmx_hw \<Rightarrow> vmcs_field \<Rightarrow> u8 \<Rightarrow> 'h vmx_state \<Rightarrow> 'h vmx_state" where
  "set_vmcs_field hw f cookie s = snd (vmcs_write hw (snd f) (vmcs_field_value f cookie) s)"

text \<open>The highest index seen is \<open>None\<close> when the caller passes NULL.\<close>

definition check_vmcs_field ::
  "'h vmx_hw \<Rightarrow> vmcs_field \<Rightarrow> u8 \<Rightarrow> u32 option \<Rightarrow> 'h vmx_state \<Rightarrow> (bool \<times> u32 option \<times> 'h vmx_state) outcome" where
  "check_vmcs_field hw f cookie max_index s =
     (if snd f = VMX_INST_ERROR then
        bind_outcome (vm_printf (''Skipping volatile field %lx'' @ [CHR 0x0A]) [VInt (snd f)] s) (\<lambda>s. Ret (True, max_index, s))
      else
        let (ret, actual, s) = vmcs_read_checking hw (snd f) s in
        bind_outcome (assert_that (ret AND X86_EFLAGS_CF = 0) ''!(ret & X86_EFLAGS_CF)'') (\<lambda>_.
        if ret AND X86_EFLAGS_ZF \<noteq> 0 then Ret (True, max_index, s)
        else
          let index = ucast (snd f AND VMCS_FIELD_INDEX_MASK);
              max_index = map_option (\<lambda>m. if index > m then index else m) max_index
          in if vmcs_field_readonly hw f s then
            bind_outcome (vm_printf (''Skipping read-only field %lx'' @ [CHR 0x0A]) [VInt (snd f)] s) (\<lambda>s. Ret (True, max_index, s))
          else
            let expected = vmcs_field_value f cookie; actual = actual AND fst f
            in if expected = actual then Ret (True, max_index, s)
            else bind_outcome (vm_printf (''FAIL: VMWRITE/VMREAD %lx (expected: %lx, actual: %lx)'' @ [CHR 0x0A])
                [VInt (snd f), VInt expected, VInt actual] s) (\<lambda>s. Ret (False, max_index, s))))"

primrec set_fields :: "'h vmx_hw \<Rightarrow> u8 \<Rightarrow> vmcs_field list \<Rightarrow> 'h vmx_state \<Rightarrow> 'h vmx_state" where
  "set_fields hw cookie [] s = s"
| "set_fields hw cookie (f # fs) s = set_fields hw cookie fs (set_vmcs_field hw f cookie s)"

definition set_all_vmcs_fields :: "'h vmx_hw \<Rightarrow> u8 \<Rightarrow> 'h vmx_state \<Rightarrow> 'h vmx_state" where
  "set_all_vmcs_fields hw cookie s = set_fields hw cookie vmcs_fields s"

primrec check_fields ::
  "'h vmx_hw \<Rightarrow> u8 \<Rightarrow> vmcs_field list \<Rightarrow> bool \<Rightarrow> u32 option \<Rightarrow> 'h vmx_state \<Rightarrow> (bool \<times> u32 option \<times> 'h vmx_state) outcome" where
  "check_fields hw cookie [] pass max_index s = Ret (pass, max_index, s)"
| "check_fields hw cookie (f # fs) pass max_index s =
     bind_outcome (check_vmcs_field hw f cookie max_index s) (\<lambda>(ok, max_index, s).
     check_fields hw cookie fs (pass \<and> ok) max_index s)"

definition check_all_vmcs_fields_max ::
  "'h vmx_hw \<Rightarrow> u8 \<Rightarrow> u32 option \<Rightarrow> 'h vmx_state \<Rightarrow> (bool \<times> u32 option \<times> 'h vmx_state) outcome" where
  "check_all_vmcs_fields_max hw cookie max_index s = check_fields hw cookie vmcs_fields True max_index s"

definition check_all_vmcs_fields :: "'h vmx_hw \<Rightarrow> u8 \<Rightarrow> 'h vmx_state \<Rightarrow> (bool \<times> 'h vmx_state) outcome" where
  "check_all_vmcs_fields hw cookie s =
     bind_outcome (check_all_vmcs_fields_max hw cookie None s) (\<lambda>(pass, _, s). Ret (pass, s))"

section \<open>Tests\<close>

text \<open>A sequence of statements.\<close>

primrec seq :: "('s \<Rightarrow> 's outcome) list \<Rightarrow> 's \<Rightarrow> 's outcome" where
  "seq [] s = Ret s"
| "seq (f # fs) s = bind_outcome (f s) (seq fs)"

definition assert_clear :: "'h vmx_hw \<Rightarrow> u64 \<Rightarrow> 'h vmx_state \<Rightarrow> 'h vmx_state outcome" where
  "assert_clear hw vmcs s =
     (let (ret, s) = vmcs_clear hw vmcs s in bind_outcome (assert_that (\<not> ret) ''!vmcs_clear(vmcs)'') (\<lambda>_. Ret s))"

definition assert_current :: "'h vmx_hw \<Rightarrow> u64 \<Rightarrow> 'h vmx_state \<Rightarrow> 'h vmx_state outcome" where
  "assert_current hw vmcs s =
     (let (ret, s) = make_vmcs_current hw vmcs s in bind_outcome (assert_that (\<not> ret) ''!make_vmcs_current(vmcs)'') (\<lambda>_. Ret s))"

definition check_report :: "'h vmx_hw \<Rightarrow> string \<Rightarrow> u8 \<Rightarrow> 'h vmx_state \<Rightarrow> 'h vmx_state outcome" where
  "check_report hw msg cookie s = bind_outcome (check_all_vmcs_fields hw cookie s) (\<lambda>(pass, s). vm_report msg pass [] s)"

definition test_vmwrite_vmread :: "'h vmx_hw \<Rightarrow> 'h vmx_state \<Rightarrow> 'h vmx_state outcome" where
  "test_vmwrite_vmread hw s =
     (let (vmcs, s) = vm_alloc_page s; s = set_revision_id vmcs (revision (basic s)) s in
      bind_outcome (seq [assert_clear hw vmcs, assert_current hw vmcs, Ret \<circ> set_all_vmcs_fields hw 0x42] s) (\<lambda>s.
      bind_outcome (check_all_vmcs_fields_max hw 0x42 (Some 0) s) (\<lambda>(pass, max_index, s).
      bind_outcome (vm_report ''VMWRITE/VMREAD'' pass [] s) (\<lambda>s.
      let vmcs_enum_max = ucast (rdmsr hw MSR_IA32_VMX_VMCS_ENUM s AND VMCS_FIELD_INDEX_MASK);
          max_index = the max_index
      in seq [vm_report ''VMX_VMCS_ENUM.MAX_INDEX expected at least: %x, actual: %x'' (vmcs_enum_max \<ge> max_index)
                [VInt (ucast max_index), VInt (ucast vmcs_enum_max)],
              assert_clear hw vmcs, Ret \<circ> vm_free_page vmcs] s))))"

definition vmread_report :: "'h vmx_hw \<Rightarrow> string \<Rightarrow> u64 \<Rightarrow> u64 \<Rightarrow> 'h vmx_state \<Rightarrow> 'h vmx_state outcome" where
  "vmread_report hw msg enc expected s = (let (v, s) = vmcs_read hw enc s in vm_report msg (v = expected) [] s)"

definition test_vmcs_high :: "'h vmx_hw \<Rightarrow> 'h vmx_state \<Rightarrow> 'h vmx_state outcome" where
  "test_vmcs_high hw s =
     (let (vmcs, s) = vm_alloc_page s; s = set_revision_id vmcs (revision (basic s)) s in
      seq [assert_clear hw vmcs, assert_current hw vmcs,
           \<lambda>s. Ret (snd (vmcs_write hw TSC_OFFSET 0x0123456789ABCDEF s)),
           vmread_report hw ''VMREAD TSC_OFFSET after VMWRITE TSC_OFFSET'' TSC_OFFSET 0x0123456789ABCDEF,
           vmread_report hw ''VMREAD TSC_OFFSET_HI after VMWRITE TSC_OFFSET'' TSC_OFFSET_HI 0x01234567,
           \<lambda>s. Ret (snd (vmcs_write hw TSC_OFFSET_HI 0x76543210 s)),
           vmread_report hw ''VMREAD TSC_OFFSET_HI after VMWRITE TSC_OFFSET_HI'' TSC_OFFSET_HI 0x76543210,
           vmread_report hw ''VMREAD TSC_OFFSET after VMWRITE TSC_OFFSET_HI'' TSC_OFFSET 0x7654321089ABCDEF,
           assert_clear hw vmcs, Ret \<circ> vm_free_page vmcs] s)"

definition VMPTRLD :: "'h vmx_hw \<Rightarrow> u64 list \<Rightarrow> nat \<Rightarrow> 'h vmx_state \<Rightarrow> 'h vmx_state outcome" where
  "VMPTRLD hw vmcs i s =
     bind_outcome (assert_that (i < length vmcs) ''_i < ARRAY_SIZE(vmcs)'') (\<lambda>_.
     bind_outcome (assert_current hw (vmcs ! i) s) (\<lambda>s. vm_printf (''VMPTRLD VMCS%d'' @ [CHR 0x0A]) [VInt (of_nat i)] s))"

definition VMCLEAR :: "'h vmx_hw \<Rightarrow> u64 list \<Rightarrow> nat \<Rightarrow> 'h vmx_state \<Rightarrow> 'h vmx_state outcome" where
  "VMCLEAR hw vmcs i s =
     bind_outcome (assert_that (i < length vmcs) ''_i < ARRAY_SIZE(vmcs)'') (\<lambda>_.
     bind_outcome (assert_clear hw (vmcs ! i) s) (\<lambda>s. vm_printf (''VMCLEAR VMCS%d'' @ [CHR 0x0A]) [VInt (of_nat i)] s))"

primrec alloc_vmcs :: "nat \<Rightarrow> 'h vmx_state \<Rightarrow> u64 list \<times> 'h vmx_state" where
  "alloc_vmcs 0 s = ([], s)"
| "alloc_vmcs (Suc n) s =
     (let (p, s) = vm_alloc_page s; (ps, s) = alloc_vmcs n (set_revision_id p (revision (basic s)) s) in (p # ps, s))"

definition test_vmcs_lifecycle :: "'h vmx_hw \<Rightarrow> 'h vmx_state \<Rightarrow> 'h vmx_state outcome" where
  "test_vmcs_lifecycle hw s =
     (let (vmcs, s) = alloc_vmcs 2 s;
          LD = VMPTRLD hw vmcs; CL = VMCLEAR hw vmcs;
          set_all = (\<lambda>cookie. Ret \<circ> set_all_vmcs_fields hw cookie)
      in seq [CL 0, LD 0, set_all 0, check_report hw ''current:VMCS0 active:[VMCS0]'' 0,
          CL 0, LD 0, check_report hw ''current:VMCS0 active:[VMCS0]'' 0,
          CL 1, check_report hw ''current:VMCS0 active:[VMCS0]'' 0,
          LD 1, set_all 1, check_report hw ''current:VMCS1 active:[VMCS0,VCMS1]'' 1,
          LD 0, check_report hw ''current:VMCS0 active:[VMCS0,VCMS1]'' 0,
          LD 1, check_report hw ''current:VMCS1 active:[VMCS0,VCMS1]'' 1,
          LD 1, check_report hw ''current:VMCS1 active:[VMCS0,VCMS1]'' 1,
          CL 0, check_report hw ''current:VMCS1 active:[VCMS1]'' 1,
          set_all 2, LD 1, check_report hw ''current:VMCS1 active:[VCMS1]'' 2,
          CL 0, Ret \<circ> vm_free_page (vmcs ! 0), CL 1, Ret \<circ> vm_free_page (vmcs ! 1)] s)"

end
