(* ===== verification/Vmcs_Test.thy ===== *)
theory Vmcs_Test
  imports Vmcs
begin

text \<open>
  The VMCS tests pass on every processor that keeps the fields of each VMCS: \<open>vmx_conforms\<close> states what the
  instructions do, in terms of the current VMCS and of the values of the fields of the VMCS at an address.
\<close>

unbundle bit_operations_syntax

section \<open>The processor\<close>

text \<open>
  How the processor is seen: \<open>cur\<close> is the current VMCS and \<open>val\<close> the values of the fields. \<open>region\<close> are the addresses that it
  takes for a VMCS, \<open>has\<close> the fields that it has, \<open>keeps\<close> the bits of a field that it keeps, and \<open>ident\<close> its revision identifier. Only
  full accesses to the fields are covered. An instruction that fails may store its error number in the current VMCS.
\<close>

record 'h vmx_view =
  region :: "u64 \<Rightarrow> bool"
  ident :: u64
  curp :: "'h \<times> mem \<Rightarrow> u64 option"
  val :: "'h \<times> mem \<Rightarrow> u64 \<Rightarrow> u64 \<Rightarrow> u64"
  has :: "u64 set"
  keeps :: "u64 \<Rightarrow> u64"

definition revision_at :: "mem \<Rightarrow> u64 \<Rightarrow> u64" where
  "revision_at m p = loadn 4 m p"

definition read_only :: "'h vmx_hw \<Rightarrow> 'h \<Rightarrow> u64 \<Rightarrow> bool" where
  "read_only hw h e \<longleftrightarrow> i_rdmsr hw MSR_IA32_VMX_MISC h AND MSR_IA32_VMX_MISC_VMWRITE_SHADOW_RO_FIELDS = 0
     \<and> drop_bit VMCS_FIELD_TYPE_SHIFT e AND 3 = VMCS_FIELD_TYPE_READ_ONLY_DATA"

text \<open>The values outside the exceptions, the headers of the regions and the model specific registers stay.\<close>

definition keeps_rest :: "'h vmx_hw \<Rightarrow> 'h vmx_view \<Rightarrow> (u64 \<times> u64) set \<Rightarrow> 'h \<times> mem \<Rightarrow> 'h \<times> mem \<Rightarrow> bool" where
  "keeps_rest hw K except v v' \<longleftrightarrow> (\<forall>q e. even e \<longrightarrow> (q, e) \<notin> except \<longrightarrow> val K v' q e = val K v q e)
     \<and> (\<forall>q. region K q \<longrightarrow> revision_at (snd v') q = revision_at (snd v) q)
     \<and> (\<forall>i. i_rdmsr hw i (fst v') = i_rdmsr hw i (fst v))"

definition law_vmptrld :: "'h vmx_hw \<Rightarrow> 'h vmx_view \<Rightarrow> bool" where
  "law_vmptrld hw K \<longleftrightarrow> (\<forall>p v. region K p \<and> revision_at (snd v) p = ident K \<longrightarrow>
     (\<exists>v'. i_vmptrld hw p v = (False, v') \<and> curp K v' = Some p \<and> keeps_rest hw K {} v v'))"

definition law_vmclear :: "'h vmx_hw \<Rightarrow> 'h vmx_view \<Rightarrow> bool" where
  "law_vmclear hw K \<longleftrightarrow> (\<forall>p v. region K p \<longrightarrow> (\<exists>v'. i_vmclear hw p v = (False, v')
     \<and> curp K v' = (if curp K v = Some p then None else curp K v) \<and> keeps_rest hw K {} v v'))"

definition law_vmwrite :: "'h vmx_hw \<Rightarrow> 'h vmx_view \<Rightarrow> bool" where
  "law_vmwrite hw K \<longleftrightarrow> (\<forall>p e x v. curp K v = Some p \<and> even e \<longrightarrow> (\<exists>r v'. i_vmwrite hw e x v = (r, v') \<and> curp K v' = Some p
     \<and> keeps_rest hw K {(p, e), (p, VMX_INST_ERROR)} v v'
     \<and> (e \<in> has K \<and> \<not> read_only hw (fst v) e \<longrightarrow> val K v' p e AND keeps K e = x AND keeps K e)))"

definition law_vmread :: "'h vmx_hw \<Rightarrow> 'h vmx_view \<Rightarrow> bool" where
  "law_vmread hw K \<longleftrightarrow> (\<forall>p e v. curp K v = Some p \<and> even e \<longrightarrow> (\<exists>f x v'. i_vmread hw e v = (f, x, v') \<and> curp K v' = Some p
     \<and> keeps_rest hw K {(p, VMX_INST_ERROR)} v v' \<and> (if e \<in> has K then f = 0 \<and> x = val K v p e else f = X86_EFLAGS_ZF)))"

text \<open>A processor that meets the laws and keeps the bits that the tests compare.\<close>

definition vmx_conforms :: "'h vmx_hw \<Rightarrow> 'h vmx_view \<Rightarrow> bool" where
  "vmx_conforms hw K \<longleftrightarrow> law_vmptrld hw K \<and> law_vmclear hw K \<and> law_vmwrite hw K \<and> law_vmread hw K
     \<and> (\<forall>f \<in> set vmcs_fields. fst f AND keeps K (snd f) = fst f)"

section \<open>The table of fields\<close>

lemma vmcs_fields_even:
  assumes "f \<in> set vmcs_fields"
  shows "even (snd f)"
proof -
  have "list_all (\<lambda>f. even (snd f)) vmcs_fields"
    by (simp add: vmcs_fields_def)
  then show ?thesis
    using assms by (simp add: list_all_iff)
qed

lemma swap_distinct: "L = xs @ a # b # ys \<Longrightarrow> successively (<) (xs @ b # a # ys) \<Longrightarrow> distinct (L :: 'a :: linorder list)"
  using strict_sorted_iff [of "xs @ b # a # ys"] by (auto simp: successively_conv_sorted_wrt transp_on_less)

text \<open>The encodings increase along the table, except for one pair.\<close>

lemma vmcs_fields_distinct: "distinct (map snd vmcs_fields)"
proof (rule swap_distinct)
  let ?L = "map snd vmcs_fields"
  show "?L = take 33 ?L @ GUEST_EFER # GUEST_PAT # drop 35 ?L"
    by (simp add: vmcs_fields_def)
  show "successively (<) (take 33 ?L @ GUEST_PAT # GUEST_EFER # drop 35 ?L)"
    by (simp add: vmcs_fields_def)
qed

section \<open>What a VMCS holds\<close>

definition held :: "'h vmx_hw \<Rightarrow> 'h vmx_view \<Rightarrow> 'h \<times> mem \<Rightarrow> u64 \<Rightarrow> vmcs_field \<Rightarrow> u8 \<Rightarrow> bool" where
  "held hw K v p f k \<longleftrightarrow> (snd f \<noteq> VMX_INST_ERROR \<and> snd f \<in> has K \<and> \<not> read_only hw (fst v) (snd f)
     \<longrightarrow> val K v p (snd f) AND fst f = vmcs_field_value f k)"

lemma read_only_kept: "keeps_rest hw K X v v' \<Longrightarrow> read_only hw (fst v') e = read_only hw (fst v) e"
  by (simp add: keeps_rest_def read_only_def)

lemma held_kept:
  assumes "keeps_rest hw K X v v'" and "held hw K v p f k" and "even (snd f)" and "snd f \<noteq> VMX_INST_ERROR \<longrightarrow> (p, snd f) \<notin> X"
  shows "held hw K v' p f k"
  using assms unfolding held_def read_only_kept [OF assms(1)] by (auto simp: keeps_rest_def)

lemma view_set_view [simp]: "hw_view (set_view v s) = v" "rep (set_view v s) = rep s"
  by (simp_all add: hw_view_def set_view_def)

lemma view_rep [simp]: "hw_view (s\<lparr>rep := r\<rparr>) = hw_view s"
  by (simp add: hw_view_def)

text \<open>
  The state between two statements of a test: \<open>n\<close> tests and \<open>b\<close> failures reported, the VMCSs of \<open>R\<close> are ready to be
  loaded, \<open>c\<close> is the current one, and \<open>g\<close> gives the cookie whose values a VMCS holds.
\<close>

definition vst :: "'h vmx_hw \<Rightarrow> 'h vmx_view \<Rightarrow> u64 set \<Rightarrow> u32 \<Rightarrow> u32 \<Rightarrow> u64 option \<Rightarrow> (u64 \<Rightarrow> u8 option) \<Rightarrow> 'h vmx_state \<Rightarrow> bool" where
  "vst hw K R n b c g s \<longleftrightarrow> tests (rep s) = n \<and> failures (rep s) = b \<and> curp K (hw_view s) = c
     \<and> (\<forall>p \<in> R. region K p \<and> revision_at (snd (hw_view s)) p = ident K)
     \<and> (\<forall>p k. g p = Some k \<longrightarrow> (\<forall>f \<in> set vmcs_fields. held hw K (hw_view s) p f k))"

definition step_ok :: "('s \<Rightarrow> bool) \<Rightarrow> ('s \<Rightarrow> 's outcome) \<Rightarrow> ('s \<Rightarrow> bool) \<Rightarrow> bool" where
  "step_ok P f Q \<longleftrightarrow> (\<forall>s. P s \<longrightarrow> (\<exists>s'. f s = Ret s' \<and> Q s'))"

lemma step_ok_Nil: "step_ok P (seq []) P"
  by (simp add: step_ok_def)

lemma step_ok_Cons: "step_ok P f Q \<Longrightarrow> step_ok Q (seq fs) R \<Longrightarrow> step_ok P (seq (f # fs)) R"
  by (fastforce simp: step_ok_def)

lemma vst_set_view:
  assumes "vst hw K R n b c g s" and "keeps_rest hw K X (hw_view s) v" and "curp K v = c'" and "\<forall>p e. (p, e) \<in> X \<longrightarrow> e = VMX_INST_ERROR"
  shows "vst hw K R n b c' g (set_view v s)"
proof -
  have "held hw K v p f k" if "held hw K (hw_view s) p f k" "f \<in> set vmcs_fields" for p f k
    using assms(4) that by (intro held_kept [OF assms(2) that(1) vmcs_fields_even]) auto
  moreover have "\<forall>q. region K q \<longrightarrow> revision_at (snd v) q = revision_at (snd (hw_view s)) q"
    using assms(2) by (simp add: keeps_rest_def)
  ultimately show ?thesis
    using assms(1,3) unfolding vst_def by auto
qed

lemma vst_puts: "vst hw K R n b c g s \<Longrightarrow> vst hw K R n b c g (s\<lparr>rep := puts (rep s) t\<rparr>)"
  by (simp add: vst_def puts_def)

lemma step_clear:
  assumes "vmx_conforms hw K" and "p \<in> R"
  shows "step_ok (vst hw K R n b c g) (assert_clear hw p) (vst hw K R n b (if c = Some p then None else c) g)"
  unfolding step_ok_def
proof (intro allI impI)
  fix s
  assume s: "vst hw K R n b c g s"
  have "law_vmclear hw K" "region K p" "curp K (hw_view s) = c"
    using assms s by (simp_all add: vmx_conforms_def vst_def)
  then obtain v where v: "i_vmclear hw p (hw_view s) = (False, v)" "curp K v = (if c = Some p then None else c)" "keeps_rest hw K {} (hw_view s) v"
    unfolding law_vmclear_def by blast
  then show "\<exists>s'. assert_clear hw p s = Ret s' \<and> vst hw K R n b (if c = Some p then None else c) g s'"
    using vst_set_view [OF s v(3,2)] by (simp add: assert_clear_def vmcs_clear_def)
qed

lemma step_current:
  assumes "vmx_conforms hw K" and "p \<in> R"
  shows "step_ok (vst hw K R n b c g) (assert_current hw p) (vst hw K R n b (Some p) g)"
  unfolding step_ok_def
proof (intro allI impI)
  fix s
  assume s: "vst hw K R n b c g s"
  have "law_vmptrld hw K" "region K p" "revision_at (snd (hw_view s)) p = ident K"
    using assms s by (simp_all add: vmx_conforms_def vst_def)
  then obtain v where v: "i_vmptrld hw p (hw_view s) = (False, v)" "curp K v = Some p" "keeps_rest hw K {} (hw_view s) v"
    unfolding law_vmptrld_def by blast
  then show "\<exists>s'. assert_current hw p s = Ret s' \<and> vst hw K R n b (Some p) g s'"
    using vst_set_view [OF s v(3,2)] by (simp add: assert_current_def make_vmcs_current_def)
qed

lemma keeps_rest_trans: "keeps_rest hw K X v v1 \<Longrightarrow> keeps_rest hw K Y v1 v2 \<Longrightarrow> keeps_rest hw K (X \<union> Y) v v2"
  by (simp add: keeps_rest_def)

lemma masked_value:
  assumes "m AND k = m" and "v AND k = x AND k" and "x AND m = (x :: u64)"
  shows "v AND m = x"
  by (metis assms and.assoc and.commute)

lemma set_field_holds:
  fixes k :: u8
  assumes C: "vmx_conforms hw K" and p: "curp K (hw_view s) = Some p" and f: "f \<in> set vmcs_fields"
  defines "s' \<equiv> set_vmcs_field hw f k s"
  shows "curp K (hw_view s') = Some p" and "keeps_rest hw K {(p, snd f), (p, VMX_INST_ERROR)} (hw_view s) (hw_view s')"
    and "rep s' = rep s" and "held hw K (hw_view s') p f k"
proof -
  let ?x = "vmcs_field_value f k"
  have "law_vmwrite hw K"
    using C by (simp add: vmx_conforms_def)
  then obtain r v where v: "i_vmwrite hw (snd f) ?x (hw_view s) = (r, v)" "curp K v = Some p"
      "keeps_rest hw K {(p, snd f), (p, VMX_INST_ERROR)} (hw_view s) v"
      "snd f \<in> has K \<and> \<not> read_only hw (fst (hw_view s)) (snd f) \<longrightarrow> val K v p (snd f) AND keeps K (snd f) = ?x AND keeps K (snd f)"
    using p vmcs_fields_even [OF f] unfolding law_vmwrite_def by meson
  have s': "s' = set_view v s"
    using v(1) by (simp add: s'_def set_vmcs_field_def vmcs_write_def)
  show "curp K (hw_view s') = Some p" "rep s' = rep s"
    "keeps_rest hw K {(p, snd f), (p, VMX_INST_ERROR)} (hw_view s) (hw_view s')"
    using v(2,3) by (simp_all add: s')
  have "fst f AND keeps K (snd f) = fst f" "?x AND fst f = ?x"
    using C f by (simp_all add: vmx_conforms_def vmcs_field_value_def and.assoc)
  then show "held hw K (hw_view s') p f k"
    using v(4) masked_value unfolding held_def s' view_set_view read_only_kept [OF v(3)] by blast
qed

lemma set_fields_holds:
  assumes C: "vmx_conforms hw K"
  shows "curp K (hw_view s) = Some p \<Longrightarrow> set fs \<subseteq> set vmcs_fields \<Longrightarrow> distinct (map snd fs) \<Longrightarrow> s' = set_fields hw k fs s \<Longrightarrow>
    curp K (hw_view s') = Some p \<and> keeps_rest hw K (Pair p ` (snd ` set fs) \<union> {(p, VMX_INST_ERROR)}) (hw_view s) (hw_view s')
    \<and> rep s' = rep s \<and> (\<forall>f \<in> set fs. held hw K (hw_view s') p f k)"
proof (induction fs arbitrary: s)
  case Nil
  then show ?case
    by (simp add: keeps_rest_def)
next
  case (Cons f fs)
  have f: "f \<in> set vmcs_fields"
    using Cons.prems(2) by simp
  let ?s1 = "set_vmcs_field hw f k s"
  note s1 = set_field_holds [OF C Cons.prems(1) f, where k = k]
  have IH: "curp K (hw_view s') = Some p" "keeps_rest hw K (Pair p ` (snd ` set fs) \<union> {(p, VMX_INST_ERROR)}) (hw_view ?s1) (hw_view s')"
      "rep s' = rep ?s1" "\<forall>f \<in> set fs. held hw K (hw_view s') p f k"
    using Cons.IH [OF s1(1)] Cons.prems by auto
  have "snd f \<notin> snd ` set fs"
    using Cons.prems(3) by auto
  then have "held hw K (hw_view s') p f k"
    by (intro held_kept [OF IH(2) s1(4) vmcs_fields_even [OF f]]) auto
  moreover have "keeps_rest hw K (Pair p ` (snd ` set (f # fs)) \<union> {(p, VMX_INST_ERROR)}) (hw_view s) (hw_view s')"
    using keeps_rest_trans [OF s1(2) IH(2)] by (simp add: insert_commute)
  ultimately show ?case
    using IH s1(3) by simp
qed

lemma step_set_all:
  assumes C: "vmx_conforms hw K"
  shows "step_ok (vst hw K R n b (Some p) g) (Ret \<circ> set_all_vmcs_fields hw k) (vst hw K R n b (Some p) (g(p \<mapsto> k)))"
  unfolding step_ok_def
proof (intro allI impI)
  fix s
  assume s: "vst hw K R n b (Some p) g s"
  let ?s = "set_all_vmcs_fields hw k s"
  have r: "curp K (hw_view ?s) = Some p" "keeps_rest hw K (Pair p ` (snd ` set vmcs_fields) \<union> {(p, VMX_INST_ERROR)}) (hw_view s) (hw_view ?s)"
      "rep ?s = rep s" "\<forall>f \<in> set vmcs_fields. held hw K (hw_view ?s) p f k"
    using set_fields_holds [OF C _ order.refl vmcs_fields_distinct set_all_vmcs_fields_def] s by (simp_all add: vst_def)
  have "held hw K (hw_view ?s) q f j" if "q \<noteq> p" "f \<in> set vmcs_fields" "held hw K (hw_view s) q f j" for q f j
    using that by (intro held_kept [OF r(2) that(3) vmcs_fields_even]) auto
  moreover have "\<forall>q. region K q \<longrightarrow> revision_at (snd (hw_view ?s)) q = revision_at (snd (hw_view s)) q"
    using r(2) by (simp add: keeps_rest_def)
  ultimately have "vst hw K R n b (Some p) (g(p \<mapsto> k)) ?s"
    using s r unfolding vst_def by auto
  then show "\<exists>s'. (Ret \<circ> set_all_vmcs_fields hw k) s = Ret s' \<and> vst hw K R n b (Some p) (g(p \<mapsto> k)) s'"
    by simp
qed

section \<open>Checking the fields\<close>

lemma vm_printf_ok:
  assumes "printable (parse_fmt fmt) va" and "vst hw K R n b c g s"
  shows "\<exists>s'. vm_printf fmt va s = Ret s' \<and> vst hw K R n b c g s'"
  using printable_render [OF assms(1)] vst_puts [OF assms(2)] by (auto simp: vm_printf_def printf_out_def vtext_def)

lemma check_formats:
  "printable (parse_fmt (''Skipping volatile field %lx'' @ [CHR 0x0A])) [VInt e]"
  "printable (parse_fmt (''Skipping read-only field %lx'' @ [CHR 0x0A])) [VInt e]"
  by (simp_all add: parse_simps props0_def)

definition index_of :: "vmcs_field \<Rightarrow> u32" where
  "index_of f = ucast (snd f AND VMCS_FIELD_INDEX_MASK)"

definition index_below :: "'h vmx_view \<Rightarrow> u32 \<Rightarrow> bool" where
  "index_below K M \<longleftrightarrow> (\<forall>f \<in> set vmcs_fields. snd f \<in> has K \<longrightarrow> index_of f \<le> M)"

lemma check_field_ok:
  assumes C: "vmx_conforms hw K" and s: "vst hw K R n b (Some p) g s" and g: "g p = Some k" and f: "f \<in> set vmcs_fields"
    and M: "index_below K M" "\<forall>m. mi = Some m \<longrightarrow> m \<le> M"
  shows "\<exists>mi' s'. check_vmcs_field hw f k mi s = Ret (True, mi', s') \<and> vst hw K R n b (Some p) g s'
    \<and> (mi' = None \<longleftrightarrow> mi = None) \<and> (\<forall>m. mi' = Some m \<longrightarrow> m \<le> M)"
proof (cases "snd f = VMX_INST_ERROR")
  case True
  obtain s' where "vm_printf (''Skipping volatile field %lx'' @ [CHR 0x0A]) [VInt (snd f)] s = Ret s'" "vst hw K R n b (Some p) g s'"
    using vm_printf_ok [OF check_formats(1) s] by blast
  then show ?thesis
    using True M(2) by (intro exI [of _ mi] exI [of _ s']) (simp add: check_vmcs_field_def)
next
  case ne: False
  have "law_vmread hw K" "curp K (hw_view s) = Some p"
    using C s by (simp_all add: vmx_conforms_def vst_def)
  then obtain fl x v where v: "i_vmread hw (snd f) (hw_view s) = (fl, x, v)" "curp K v = Some p"
      "keeps_rest hw K {(p, VMX_INST_ERROR)} (hw_view s) v" "if snd f \<in> has K then fl = 0 \<and> x = val K (hw_view s) p (snd f) else fl = X86_EFLAGS_ZF"
    using vmcs_fields_even [OF f] unfolding law_vmread_def by meson
  have s1: "vst hw K R n b (Some p) g (set_view v s)"
    using vst_set_view [OF s v(3,2)] by simp
  have rd: "vmcs_read_checking hw (snd f) s = (fl, x, set_view v s)"
    using v(1) by (simp add: vmcs_read_checking_def)
  show ?thesis
  proof (cases "snd f \<in> has K")
    case False
    then have "fl = X86_EFLAGS_ZF"
      using v(4) by simp
    then have "check_vmcs_field hw f k mi s = Ret (True, mi, set_view v s)"
      using ne rd by (simp add: check_vmcs_field_def X86_EFLAGS_ZF_def X86_EFLAGS_CF_def)
    then show ?thesis
      using s1 M(2) by simp
  next
    case True
    let ?mi = "map_option (\<lambda>m. if index_of f > m then index_of f else m) mi"
    have fl: "fl = 0" "x = val K (hw_view s) p (snd f)"
      using v(4) True by simp_all
    have mi: "(?mi = None \<longleftrightarrow> mi = None) \<and> (\<forall>m. ?mi = Some m \<longrightarrow> m \<le> M)"
      using M f True by (auto simp: index_below_def)
    have ro: "vmcs_field_readonly hw f (set_view v s) \<longleftrightarrow> read_only hw (fst v) (snd f)"
      by (simp add: vmcs_field_readonly_def read_only_def rdmsr_def set_view_def vmcs_field_type_def)
    have w: "check_vmcs_field hw f k mi s = (if read_only hw (fst v) (snd f)
        then bind_outcome (vm_printf (''Skipping read-only field %lx'' @ [CHR 0x0A]) [VInt (snd f)] (set_view v s)) (\<lambda>s. Ret (True, ?mi, s))
        else Ret (True, ?mi, set_view v s))" if "\<not> read_only hw (fst v) (snd f) \<longrightarrow> x AND fst f = vmcs_field_value f k"
      using that ne rd fl(1) ro by (simp add: check_vmcs_field_def index_of_def [symmetric] Let_def)
    have "held hw K (hw_view s) p f k"
      using s g f by (simp add: vst_def)
    then have "\<not> read_only hw (fst v) (snd f) \<longrightarrow> x AND fst f = vmcs_field_value f k"
      using ne True fl(2) unfolding held_def read_only_kept [OF v(3)] by simp
    note w = w [OF this]
    obtain s2 where "vm_printf (''Skipping read-only field %lx'' @ [CHR 0x0A]) [VInt (snd f)] (set_view v s) = Ret s2" "vst hw K R n b (Some p) g s2"
      using vm_printf_ok [OF check_formats(2) s1] by blast
    then have "\<exists>s'. check_vmcs_field hw f k mi s = Ret (True, ?mi, s') \<and> vst hw K R n b (Some p) g s'"
      using s1 unfolding w by (cases "read_only hw (fst v) (snd f)") auto
    then show ?thesis
      using mi by blast
  qed
qed

lemma check_fields_ok:
  assumes C: "vmx_conforms hw K" and g: "g p = Some k" and M: "index_below K M"
  shows "vst hw K R n b (Some p) g s \<Longrightarrow> set fs \<subseteq> set vmcs_fields \<Longrightarrow> \<forall>m. mi = Some m \<longrightarrow> m \<le> M \<Longrightarrow>
    \<exists>mi' s'. check_fields hw k fs True mi s = Ret (True, mi', s') \<and> vst hw K R n b (Some p) g s'
      \<and> (mi' = None \<longleftrightarrow> mi = None) \<and> (\<forall>m. mi' = Some m \<longrightarrow> m \<le> M)"
proof (induction fs arbitrary: s mi)
  case (Cons f fs)
  then obtain mi1 s1 where "check_vmcs_field hw f k mi s = Ret (True, mi1, s1)" "vst hw K R n b (Some p) g s1"
      "mi1 = None \<longleftrightarrow> mi = None" "\<forall>m. mi1 = Some m \<longrightarrow> m \<le> M"
    using check_field_ok [OF C Cons.prems(1) g _ M Cons.prems(3), of f] Cons.prems(2) by auto
  then show ?case
    using Cons.IH [of s1 mi1] Cons.prems(2) by simp
qed simp

section \<open>The life cycle test\<close>

lemma step_report:
  assumes "printable (parse_fmt fmt) va"
  shows "step_ok (vst hw K R n b c g) (vm_report fmt True va) (vst hw K R (n + 1) b c g)"
  unfolding step_ok_def
proof (intro allI impI)
  fix s
  assume s: "vst hw K R n b c g s"
  obtain t where "printf_out fmt va = Ret t"
    using printable_render [OF assms] by (auto simp: printf_out_def vtext_def)
  then have "vm_report fmt True va s = Ret (s\<lparr>rep := (puts (puts (puts (puts (rep s\<lparr>tests := n + 1\<rparr>) ''PASS: '')
      (cstr_at (prefixes (rep s)) 0)) t) [CHR 0x0A])\<rparr>)"
    using s status_text by (simp add: vm_report_def report_def va_report_def Let_def puts_def vst_def)
  then show "\<exists>s'. vm_report fmt True va s = Ret s' \<and> vst hw K R (n + 1) b c g s'"
    using s by (simp add: vst_def puts_def)
qed

lemma step_check:
  assumes C: "vmx_conforms hw K" and g: "g p = Some k" and msg: "printable (parse_fmt msg) []"
  shows "step_ok (vst hw K R n b (Some p) g) (check_report hw msg k) (vst hw K R (n + 1) b (Some p) g)"
  unfolding step_ok_def
proof (intro allI impI)
  fix s
  assume s: "vst hw K R n b (Some p) g s"
  have "index_below K (- 1)"
    by (simp add: index_below_def)
  then obtain mi s1 where s1: "check_fields hw k vmcs_fields True None s = Ret (True, mi, s1)" "vst hw K R n b (Some p) g s1"
    using check_fields_ok [OF C g _ s order.refl, of "- 1" None] by auto
  then have "check_report hw msg k s = vm_report msg True [] s1"
    by (simp add: check_report_def check_all_vmcs_fields_def check_all_vmcs_fields_max_def)
  then show "\<exists>s'. check_report hw msg k s = Ret s' \<and> vst hw K R (n + 1) b (Some p) g s'"
    using step_report [OF msg, of hw K R n b "Some p" g] s1(2) by (simp add: step_ok_def)
qed

lemma step_bind: "step_ok P f Q \<Longrightarrow> step_ok Q h R \<Longrightarrow> step_ok P (\<lambda>s. bind_outcome (f s) h) R"
  by (fastforce simp: step_ok_def)

lemma step_printf:
  assumes "printable (parse_fmt fmt) va"
  shows "step_ok (vst hw K R n b c g) (vm_printf fmt va) (vst hw K R n b c g)"
  using vm_printf_ok [OF assms] by (auto simp: step_ok_def)

lemma life_formats: "i < 2 \<Longrightarrow> printable (parse_fmt (''VMPTRLD VMCS%d'' @ [CHR 0x0A])) [VInt (of_nat i)]"
    "i < 2 \<Longrightarrow> printable (parse_fmt (''VMCLEAR VMCS%d'' @ [CHR 0x0A])) [VInt (of_nat i)]"
  by (auto simp: parse_simps props0_def va_int_def less_2_cases_iff)

lemma step_index: "i < n \<Longrightarrow> step_ok P f Q \<Longrightarrow> step_ok P (\<lambda>s. bind_outcome (assert_that (i < n) msg) (\<lambda>_. f s)) Q"
  by (simp add: step_ok_def)

lemma step_VMPTRLD:
  "vmx_conforms hw K \<Longrightarrow> i < 2 \<Longrightarrow> length vmcs = 2 \<Longrightarrow> vmcs ! i \<in> R
   \<Longrightarrow> step_ok (vst hw K R n b c g) (VMPTRLD hw vmcs i) (vst hw K R n b (Some (vmcs ! i)) g)"
  unfolding VMPTRLD_def by (rule step_index [OF _ step_bind [OF step_current step_printf [OF life_formats(1)]]]) simp_all

lemma step_VMCLEAR:
  "vmx_conforms hw K \<Longrightarrow> i < 2 \<Longrightarrow> length vmcs = 2 \<Longrightarrow> vmcs ! i \<in> R
   \<Longrightarrow> step_ok (vst hw K R n b c g) (VMCLEAR hw vmcs i) (vst hw K R n b (if c = Some (vmcs ! i) then None else c) g)"
  unfolding VMCLEAR_def by (rule step_index [OF _ step_bind [OF step_clear step_printf [OF life_formats(2)]]]) simp_all

lemma life_messages:
  "printable (parse_fmt ''current:VMCS0 active:[VMCS0]'') []" "printable (parse_fmt ''current:VMCS1 active:[VMCS0,VCMS1]'') []"
  "printable (parse_fmt ''current:VMCS0 active:[VMCS0,VCMS1]'') []" "printable (parse_fmt ''current:VMCS1 active:[VCMS1]'') []"
  by (simp_all add: parse_simps)

text \<open>The counters alone, for the end of a test, when the pages of the VMCSs are given back.\<close>

definition counts :: "u32 \<Rightarrow> u32 \<Rightarrow> 'h vmx_state \<Rightarrow> bool" where
  "counts n b s \<longleftrightarrow> tests (rep s) = n \<and> failures (rep s) = b"

lemma step_clear_counts:
  fixes hw :: "'h vmx_hw"
  assumes C: "vmx_conforms hw K" and "region K p"
  shows "step_ok (counts n b) (assert_clear hw p) (counts n b)"
  unfolding step_ok_def
proof (intro allI impI)
  fix s :: "'h vmx_state"
  assume s: "counts n b s"
  have "law_vmclear hw K"
    using C by (simp add: vmx_conforms_def)
  then obtain v where "i_vmclear hw p (hw_view s) = (False, v)"
    using assms(2) unfolding law_vmclear_def by blast
  then show "\<exists>s'. assert_clear hw p s = Ret s' \<and> counts n b s'"
    using s by (simp add: assert_clear_def vmcs_clear_def counts_def)
qed

lemma step_VMCLEAR_counts:
  fixes hw :: "'h vmx_hw"
  assumes "vmx_conforms hw K" and "i < 2" and "region K (vmcs ! i)" and "length vmcs = 2"
  shows "step_ok (counts n b) (VMCLEAR hw vmcs i) (counts n b)"
proof -
  obtain t where "printf_out (''VMCLEAR VMCS%d'' @ [CHR 0x0A]) [VInt (of_nat i)] = Ret t"
    using printable_render [OF life_formats(2) [OF assms(2)]] by (auto simp: printf_out_def vtext_def)
  then have "step_ok (counts n b :: 'h vmx_state \<Rightarrow> bool) (vm_printf (''VMCLEAR VMCS%d'' @ [CHR 0x0A]) [VInt (of_nat i)]) (counts n b)"
    by (simp add: step_ok_def vm_printf_def counts_def puts_def)
  then show ?thesis
    unfolding VMCLEAR_def using assms by (intro step_index step_bind [OF step_clear_counts [OF assms(1,3)]]) simp_all
qed

lemma step_free_counts: "step_ok (counts n b) (Ret \<circ> vm_free_page p) (counts n b)"
  by (simp add: step_ok_def counts_def vm_free_page_def)

lemma step_weaken: "step_ok P f Q \<Longrightarrow> (\<And>s. P' s \<Longrightarrow> P s) \<Longrightarrow> step_ok P' f Q"
  by (auto simp: step_ok_def)

lemma step_end:
  assumes "vmx_conforms hw K" and "region K (vmcs ! 0)" and "region K (vmcs ! 1)" and "length vmcs = 2"
  shows "step_ok (vst hw K R n b c g)
    (seq [VMCLEAR hw vmcs 0, Ret \<circ> vm_free_page (vmcs ! 0), VMCLEAR hw vmcs 1, Ret \<circ> vm_free_page (vmcs ! 1)]) (counts n b)"
proof (rule step_weaken)
  show "step_ok (counts n b)
      (seq [VMCLEAR hw vmcs 0, Ret \<circ> vm_free_page (vmcs ! 0), VMCLEAR hw vmcs 1, Ret \<circ> vm_free_page (vmcs ! 1)]) (counts n b)"
    using assms by (intro step_ok_Cons [OF step_VMCLEAR_counts] step_ok_Cons [OF step_free_counts] step_ok_Nil) simp_all
qed (simp add: vst_def counts_def)

lemma life_steps_ok:
  assumes C: "vmx_conforms hw K" and ne: "p0 \<noteq> p1" and reg: "region K p0" "region K p1"
  defines "LD \<equiv> VMPTRLD hw [p0, p1]" and "CL \<equiv> VMCLEAR hw [p0, p1]" and "set_all \<equiv> \<lambda>cookie. Ret \<circ> set_all_vmcs_fields hw cookie"
  shows "step_ok (vst hw K {p0, p1} n b c Map.empty)
     (seq [CL 0, LD 0, set_all 0, check_report hw ''current:VMCS0 active:[VMCS0]'' 0,
          CL 0, LD 0, check_report hw ''current:VMCS0 active:[VMCS0]'' 0,
          CL 1, check_report hw ''current:VMCS0 active:[VMCS0]'' 0,
          LD 1, set_all 1, check_report hw ''current:VMCS1 active:[VMCS0,VCMS1]'' 1,
          LD 0, check_report hw ''current:VMCS0 active:[VMCS0,VCMS1]'' 0,
          LD 1, check_report hw ''current:VMCS1 active:[VMCS0,VCMS1]'' 1,
          LD 1, check_report hw ''current:VMCS1 active:[VMCS0,VCMS1]'' 1,
          CL 0, check_report hw ''current:VMCS1 active:[VCMS1]'' 1,
          set_all 2, LD 1, check_report hw ''current:VMCS1 active:[VCMS1]'' 2,
          CL 0, Ret \<circ> vm_free_page ([p0, p1] ! 0), CL 1, Ret \<circ> vm_free_page ([p0, p1] ! 1)])
     (counts (n + 9) b)"
proof -
  let ?R = "{p0, p1}" and ?v = "[p0, p1]"
  have LD: "step_ok (vst hw K ?R n b c g) (LD 0) (vst hw K ?R n b (Some p0) g)" "step_ok (vst hw K ?R n b c g) (LD 1) (vst hw K ?R n b (Some p1) g)" for n c g
    using step_VMPTRLD [OF C, of 0 ?v ?R n b c g] step_VMPTRLD [OF C, of 1 ?v ?R n b c g] by (simp_all add: LD_def)
  have CL: "step_ok (vst hw K ?R n b c g) (CL 0) (vst hw K ?R n b (if c = Some p0 then None else c) g)" for n c g
    using step_VMCLEAR [OF C, of 0 ?v ?R n b c g] by (simp add: CL_def)
  have CL': "step_ok (vst hw K ?R n b (Some p0) g) (CL 1) (vst hw K ?R n b (Some p0) g)"
      "step_ok (vst hw K ?R n b (Some p1) g) (CL 0) (vst hw K ?R n b (Some p1) g)" for n g
    using step_VMCLEAR [OF C, of 1 ?v ?R n b "Some p0" g] step_VMCLEAR [OF C, of 0 ?v ?R n b "Some p1" g] ne by (simp_all add: CL_def)
  have SA: "step_ok (vst hw K ?R n b (Some p) g) (set_all k) (vst hw K ?R n b (Some p) (g(p \<mapsto> k)))" for n p g k
    unfolding set_all_def by (rule step_set_all [OF C])
  have CH: "step_ok (vst hw K ?R n b (Some p) g) (check_report hw msg k) (vst hw K ?R (n + 1) b (Some p) g)"
    if "printable (parse_fmt msg) []" "g p = Some k" for n p g k msg
    by (rule step_check [where g = g and p = p, OF C that(2,1)])
  let ?g0 = "[p0 \<mapsto> 0 :: u8]" and ?g1 = "[p0 \<mapsto> 0, p1 \<mapsto> 1 :: u8]" and ?g2 = "[p0 \<mapsto> 0, p1 \<mapsto> 1, p1 \<mapsto> 2 :: u8]"
  have g: "?g0 p0 = Some 0" "?g1 p0 = Some 0" "?g1 p1 = Some 1" "?g2 p1 = Some 2"
    using ne by simp_all
  note m = life_messages
  have E: "step_ok (vst hw K ?R n b c g) (seq [CL 0, Ret \<circ> vm_free_page (?v ! 0), CL 1, Ret \<circ> vm_free_page (?v ! 1)]) (counts n b)" for n c g
    unfolding CL_def by (rule step_end [OF C]) (simp_all add: reg)
  have nine: "n + 9 = n + 1 + 1 + 1 + 1 + 1 + 1 + 1 + 1 + 1" for n :: u32
    by simp
  note C0 = CH [where g = ?g0 and p = p0, OF m(1) g(1)] and C0' = CH [where g = ?g1 and p = p0, OF m(3) g(2)]
    and C1 = CH [where g = ?g1 and p = p1, OF m(2) g(3)] and C1' = CH [where g = ?g1 and p = p1, OF m(4) g(3)]
    and C2 = CH [where g = ?g2 and p = p1, OF m(4) g(4)]
  show ?thesis
    unfolding nine
    by (rule step_ok_Cons [OF CL], rule step_ok_Cons [OF LD(1)], rule step_ok_Cons [OF SA], rule step_ok_Cons [OF C0], rule
        step_ok_Cons [OF CL], rule step_ok_Cons [OF LD(1)], rule step_ok_Cons [OF C0], rule step_ok_Cons [OF CL'(1)], rule
        step_ok_Cons [OF C0], rule step_ok_Cons [OF LD(2)], rule step_ok_Cons [OF SA], rule step_ok_Cons [OF C1], rule
        step_ok_Cons [OF LD(1)], rule step_ok_Cons [OF C0'], rule step_ok_Cons [OF LD(2)], rule step_ok_Cons [OF C1], rule
        step_ok_Cons [OF LD(2)], rule step_ok_Cons [OF C1], rule step_ok_Cons [OF CL'(2)], rule step_ok_Cons [OF C1'], rule
        step_ok_Cons [OF SA], rule step_ok_Cons [OF LD(2)], rule step_ok_Cons [OF C2], rule E)
qed

section \<open>Setting up the regions\<close>

lemma revision_set: "revision_at (ram (mach (set_revision_id p x s))) p = (revision_at (ram (mach s)) p AND 0x80000000) OR take_bit 31 x"
proof -
  let ?w = "(loadn 4 (ram (mach s)) p AND 0x80000000) OR take_bit 31 x"
  have "bit ((2 :: u64) ^ 31) n \<longleftrightarrow> n = 31" for n
    unfolding bit_exp_iff by auto
  then have b: "bit (0x80000000 :: u64) n \<longleftrightarrow> n = 31" for n
    by simp
  have "take_bit (8 * 4) ?w = ?w"
  proof (rule bit_word_eqI)
    fix n :: nat
    show "bit (take_bit (8 * 4) ?w) n = bit ?w n"
      unfolding bit_take_bit_iff bit_or_iff bit_and_iff b by auto
  qed
  then have "loadn 4 (storen 4 (ram (mach s)) p ?w) p = ?w"
    by (intro loadn_storen_same) simp_all
  then show ?thesis
    unfolding revision_at_def set_revision_id_def Let_def by (simp del: loadn.simps storen.simps)
qed

lemma alloc_set_revision:
  fixes x :: u64
  assumes fl: "free_list (mach s) (p # fs)"
  defines "s' \<equiv> set_revision_id p x (snd (vm_alloc_page s))"
  shows "fst (vm_alloc_page s) = p" and "free_list (mach s') fs" and "revision_at (ram (mach s')) p = take_bit 31 x"
    and "q \<noteq> p \<Longrightarrow> page_aligned q \<Longrightarrow> revision_at (ram (mach s')) q = revision_at (ram (mach s)) q"
    and "rep s' = rep s" and "basic s' = basic s"
proof -
  obtain m where m: "alloc_page (mach s) = (p, m)"
    using alloc_page_pop(1) [OF fl] by (cases "alloc_page (mach s)") simp
  note pop = alloc_page_pop [OF fl, unfolded m snd_conv]
  have al: "page_aligned p" "\<forall>q \<in> set fs. page_aligned q" "p \<notin> set fs"
    using fl by (simp_all add: free_list_def pages_ok_def)
  show "fst (vm_alloc_page s) = p" "rep s' = rep s" "basic s' = basic s"
    using m by (simp_all add: s'_def vm_alloc_page_def set_revision_id_def Let_def)
  have out: "ram (mach s') a = ram m a" if "\<not> in_page a p" for a
    using that m by (simp add: s'_def vm_alloc_page_def set_revision_id_def Let_def storen_apply in_page_def)
  have other: "\<not> in_page a p" if "in_page a q" "q \<noteq> p" "page_aligned q" for a q
    using in_page_unique [OF al(1) that(3) _ that(1)] that(2) by blast
  have "agree (set fs) (ram (mach s')) (ram m)"
    unfolding agree_def using out other al(2,3) by metis
  moreover have "freelist (mach s') = freelist m"
    using m by (simp add: s'_def vm_alloc_page_def set_revision_id_def Let_def)
  ultimately show "free_list (mach s') fs"
    by (rule free_list_kept [OF pop(2)])
  have "revision_at (ram m) p = 0"
    using pop(3) in_page_self [of _ p] unfolding revision_at_def by (intro bit_word_eqI) (simp add: bit_loadn)
  then show "revision_at (ram (mach s')) p = take_bit 31 x"
    using revision_set [of p x "snd (vm_alloc_page s)"] m by (simp add: s'_def vm_alloc_page_def)
  show "revision_at (ram (mach s')) q = revision_at (ram (mach s)) q" if "q \<noteq> p" "page_aligned q"
    unfolding revision_at_def
  proof (rule loadn_cong)
    fix i :: nat
    assume "i < 4"
    then have "in_page (q + of_nat i) q"
      by (intro in_page_self) simp
    from other [OF this that]
    show "ram (mach s') (q + of_nat i) = ram (mach s) (q + of_nat i)"
      using out pop(4) by simp
  qed
qed

lemma alloc_two:
  assumes "free_list (mach s) (p0 # p1 # fs)"
  shows "\<exists>s'. alloc_vmcs 2 s = ([p0, p1], s') \<and> p0 \<noteq> p1 \<and> rep s' = rep s
    \<and> (\<forall>p \<in> {p0, p1}. revision_at (ram (mach s')) p = take_bit 31 (revision (basic s)))"
proof -
  let ?x = "revision (basic s)"
  define s1 where "s1 = set_revision_id p0 ?x (snd (vm_alloc_page s))"
  define s2 where "s2 = set_revision_id p1 ?x (snd (vm_alloc_page s1))"
  note a = alloc_set_revision(2-6) [OF assms, where x = ?x, folded s1_def]
  note b = alloc_set_revision(2-6) [OF a(1), where x = ?x, folded s2_def]
  note f = alloc_set_revision(1) [OF assms] alloc_set_revision(1) [OF a(1)]
  have p: "p0 \<noteq> p1" "page_aligned p0"
    using assms by (auto simp: free_list_def pages_ok_def)
  have eq: "basic (snd (vm_alloc_page s)) = basic s" "basic (snd (vm_alloc_page s1)) = basic s1"
    by (simp_all add: vm_alloc_page_def split_def)
  have "alloc_vmcs 2 s = ([p0, p1], s2)"
    using f a(5) eq by (simp add: numeral_2_eq_2 split_def Let_def flip: s1_def s2_def)
  then show ?thesis
    using a(2,4) b(2-4) p by auto
qed

text \<open>
  C11: The life cycle test accepts every processor that keeps the fields of each VMCS. When the page allocator has two pages that the
  processor takes for VMCS regions, \<open>test_vmcs_lifecycle\<close> runs to its end and all nine checks pass, through every change of the
  current VMCS, clearing and reloading.
\<close>

theorem test_vmcs_lifecycle_passes:
  assumes "vmx_conforms hw K" and "free_list (mach s) fs" and "2 \<le> length fs" and "\<forall>p \<in> set fs. region K p"
    and "ident K = take_bit 31 (revision (basic s))"
  shows "\<exists>s'. test_vmcs_lifecycle hw s = Ret s' \<and> tests (rep s') = tests (rep s) + 9 \<and> failures (rep s') = failures (rep s)"
proof -
  obtain p0 p1 fs' where fs: "fs = p0 # p1 # fs'"
    using assms(3) by (metis Suc_le_length_iff numeral_2_eq_2)
  obtain s1 where s1: "alloc_vmcs 2 s = ([p0, p1], s1)" "p0 \<noteq> p1" "rep s1 = rep s"
      "\<forall>p \<in> {p0, p1}. revision_at (ram (mach s1)) p = take_bit 31 (revision (basic s))"
    using alloc_two [OF assms(2) [unfolded fs]] by blast
  have reg: "region K p0" "region K p1"
    using assms(4) fs by simp_all
  have "vst hw K {p0, p1} (tests (rep s)) (failures (rep s)) (curp K (hw_view s1)) Map.empty s1"
    using s1(3,4) reg assms(5) by (simp add: vst_def hw_view_def)
  then show ?thesis
    using life_steps_ok [OF assms(1) s1(2) reg, of "tests (rep s)" "failures (rep s)" "curp K (hw_view s1)"] s1(1)
    unfolding step_ok_def counts_def test_vmcs_lifecycle_def Let_def by (simp del: seq.simps)
qed

section \<open>The field test\<close>

lemma field_formats:
  "printable (parse_fmt ''VMWRITE/VMREAD'') []"
  "printable (parse_fmt ''VMX_VMCS_ENUM.MAX_INDEX expected at least: %x, actual: %x'') [VInt a, VInt b]"
  by (simp_all add: parse_simps props0_def)

text \<open>The test of all fields passes too, when the processor reports an index that covers its fields.\<close>

lemma test_vmwrite_vmread_passes:
  assumes C: "vmx_conforms hw K" and fl: "free_list (mach s) (p # fs)" and reg: "region K p"
    and id: "ident K = take_bit 31 (revision (basic s))"
    and msr: "\<And>h. index_below K (ucast (i_rdmsr hw MSR_IA32_VMX_VMCS_ENUM h AND VMCS_FIELD_INDEX_MASK))"
  shows "\<exists>s'. test_vmwrite_vmread hw s = Ret s' \<and> tests (rep s') = tests (rep s) + 2 \<and> failures (rep s') = failures (rep s)"
proof -
  let ?n = "tests (rep s)" and ?b = "failures (rep s)"
  obtain s0 where s0: "vm_alloc_page s = (p, s0)" "basic s0 = basic s"
    using alloc_set_revision(1) [OF fl] by (cases "vm_alloc_page s") (simp add: vm_alloc_page_def split_def)
  define s1 where "s1 = set_revision_id p (revision (basic s)) s0"
  note a = alloc_set_revision(2-6) [OF fl, where x = "revision (basic s)", unfolded s0 snd_conv, folded s1_def]
  have "vst hw K {p} ?n ?b (curp K (hw_view s1)) Map.empty s1"
    using a(2,4) reg id by (simp add: vst_def hw_view_def)
  moreover have "step_ok (vst hw K {p} ?n ?b c Map.empty)
      (seq [assert_clear hw p, assert_current hw p, Ret \<circ> set_all_vmcs_fields hw 0x42]) (vst hw K {p} ?n ?b (Some p) [p \<mapsto> 0x42])" for c
    by (rule step_ok_Cons [OF step_clear [OF C]], simp, rule step_ok_Cons [OF step_current [OF C]], simp,
        rule step_ok_Cons [OF step_set_all [OF C] step_ok_Nil])
  ultimately obtain s2 where s2: "seq [assert_clear hw p, assert_current hw p, Ret \<circ> set_all_vmcs_fields hw 0x42] s1 = Ret s2"
      "vst hw K {p} ?n ?b (Some p) [p \<mapsto> 0x42] s2"
    unfolding step_ok_def by blast
  have chk: "\<exists>mi s3. check_all_vmcs_fields_max hw 0x42 (Some 0) s2 = Ret (True, Some mi, s3) \<and> vst hw K {p} ?n ?b (Some p) [p \<mapsto> 0x42] s3 \<and> mi \<le> M"
    if "index_below K M" for M
    using check_fields_ok [where g = "[p \<mapsto> 0x42]" and p = p, OF C _ that s2(2) order.refl, of "0x42" "Some 0"]
    unfolding check_all_vmcs_fields_max_def by auto
  obtain mi s3 where s3: "check_all_vmcs_fields_max hw 0x42 (Some 0) s2 = Ret (True, Some mi, s3)" "vst hw K {p} ?n ?b (Some p) [p \<mapsto> 0x42] s3"
    using chk [of "- 1"] by (auto simp: index_below_def)
  obtain s4 where s4: "vm_report ''VMWRITE/VMREAD'' True [] s3 = Ret s4" "vst hw K {p} (?n + 1) ?b (Some p) [p \<mapsto> 0x42] s4"
    using step_report [OF field_formats(1)] s3(2) unfolding step_ok_def by meson
  let ?M = "ucast (rdmsr hw MSR_IA32_VMX_VMCS_ENUM s4 AND VMCS_FIELD_INDEX_MASK) :: u32"
  have "index_below K ?M"
    unfolding rdmsr_def by (rule msr)
  then have le: "mi \<le> ?M"
    using chk [of ?M] s3(1) by auto
  have "step_ok (vst hw K {p} (?n + 1) ?b (Some p) [p \<mapsto> 0x42])
      (seq [vm_report ''VMX_VMCS_ENUM.MAX_INDEX expected at least: %x, actual: %x'' True [VInt (ucast mi), VInt (ucast ?M)],
            assert_clear hw p, Ret \<circ> vm_free_page p]) (counts (?n + 1 + 1) ?b)"
    by (rule step_ok_Cons [OF step_report [OF field_formats(2)]], rule step_weaken,
        rule step_ok_Cons [OF step_clear_counts [OF C reg] step_ok_Cons [OF step_free_counts step_ok_Nil]]) (simp add: vst_def counts_def)
  then obtain s5 where "seq [vm_report ''VMX_VMCS_ENUM.MAX_INDEX expected at least: %x, actual: %x'' True [VInt (ucast mi), VInt (ucast ?M)],
      assert_clear hw p, Ret \<circ> vm_free_page p] s4 = Ret s5" "counts (?n + 1 + 1) ?b s5"
    using s4(2) unfolding step_ok_def by meson
  then show ?thesis
    using s0 s2(1) s3(1) s4(1) le by (simp add: test_vmwrite_vmread_def counts_def flip: s1_def del: seq.simps)
qed

text \<open>A processor that keeps the fields in registers of its own, one set for each address.\<close>

definition reg_cpu :: "(u64 option \<times> (u64 \<Rightarrow> u64 \<Rightarrow> u64)) vmx_hw" where
  "reg_cpu = \<lparr>i_vmptrld = \<lambda>p (h, m). if revision_at m p = 1 then (False, (Some p, snd h), m) else (True, h, m),
     i_vmclear = \<lambda>p (h, m). (False, (if fst h = Some p then None else fst h, snd h), m),
     i_vmread = \<lambda>e (h, m). (case fst h of Some p \<Rightarrow> (0, snd h p e, h, m) | None \<Rightarrow> (X86_EFLAGS_CF, 0, h, m)),
     i_vmwrite = \<lambda>e x (h, m). (case fst h of Some p \<Rightarrow> (False, (fst h, (snd h)(p := (snd h p)(e := x))), m) | None \<Rightarrow> (True, h, m)),
     i_rdmsr = \<lambda>_ _. 0\<rparr>"

definition reg_view :: "(u64 option \<times> (u64 \<Rightarrow> u64 \<Rightarrow> u64)) vmx_view" where
  "reg_view = \<lparr>region = page_aligned, ident = 1, curp = \<lambda>(h, m). fst h, val = \<lambda>(h, m). snd h, has = UNIV, keeps = \<lambda>_. - 1\<rparr>"

lemma reg_cpu_conforms: "vmx_conforms reg_cpu reg_view"
  unfolding vmx_conforms_def law_vmptrld_def law_vmclear_def law_vmread_def law_vmwrite_def
  by (auto simp: reg_cpu_def reg_view_def keeps_rest_def)

theorem test_vmcs_lifecycle_passes_witness:
  "\<exists>s s'. test_vmcs_lifecycle reg_cpu s = Ret s' \<and> tests (rep s') = 9 \<and> failures (rep s') = 0"
proof -
  obtain m where m: "free_list m (run 0x2000 8)" "\<forall>p \<in> set (run 0x2000 8). table_page p"
    using empty_root_page by auto
  let ?s = "\<lparr>mach = m, hwst = (None, \<lambda>_ _. 0), rep = report_init, basic = 1\<rparr> :: (u64 option \<times> (u64 \<Rightarrow> u64 \<Rightarrow> u64)) vmx_state"
  have "\<exists>s'. test_vmcs_lifecycle reg_cpu ?s = Ret s' \<and> tests (rep s') = tests (rep ?s) + 9 \<and> failures (rep s') = failures (rep ?s)"
    using m by (intro test_vmcs_lifecycle_passes [OF reg_cpu_conforms, where fs = "run 0x2000 8"])
      (simp_all add: run_def reg_view_def table_page_aligned revision_def)
  then show ?thesis
    by (auto simp: report_init_def)
qed

end
