(* ===== verification/Mmio.thy ===== *)
theory Mmio
  imports Alloc_Page Report
begin

text \<open>
  Access to devices through memory mapped registers: \<^verbatim>\<open>__raw_readl\<close> and its kin of \<^verbatim>\<open>lib/asm-generic/io.h\<close>. The devices are a parameter, a
  record of functions on their state and on the memory, which they access as well. The state of a driver extends
  \<open>io_state\<close>: the machine, the devices and the reports.
\<close>

unbundle bit_operations_syntax

section \<open>State and register accesses\<close>

record 'h io_hw =
  raw_readl :: "u64 \<Rightarrow> 'h \<times> mem \<Rightarrow> u32 \<times> 'h \<times> mem"
  raw_readq :: "u64 \<Rightarrow> 'h \<times> mem \<Rightarrow> u64 \<times> 'h \<times> mem"
  raw_writel :: "u32 \<Rightarrow> u64 \<Rightarrow> 'h \<times> mem \<Rightarrow> 'h \<times> mem"
  raw_writeq :: "u64 \<Rightarrow> u64 \<Rightarrow> 'h \<times> mem \<Rightarrow> 'h \<times> mem"

record 'h io_state =
  vm :: machine
  devs :: 'h
  rpt :: report_state

definition io_view :: "('h, 'z) io_state_scheme \<Rightarrow> 'h \<times> mem" where
  "io_view s = (devs s, ram (vm s))"

definition set_io_view :: "'h \<times> mem \<Rightarrow> ('h, 'z) io_state_scheme \<Rightarrow> ('h, 'z) io_state_scheme" where
  "set_io_view v s = s\<lparr>devs := fst v, vm := (vm s)\<lparr>ram := snd v\<rparr>\<rparr>"

definition dev_readl :: "('h, 'y) io_hw_scheme \<Rightarrow> u64 \<Rightarrow> ('h, 'z) io_state_scheme \<Rightarrow> u32 \<times> ('h, 'z) io_state_scheme" where
  "dev_readl hw a s = (case raw_readl hw a (io_view s) of (x, v) \<Rightarrow> (x, set_io_view v s))"

definition dev_readq :: "('h, 'y) io_hw_scheme \<Rightarrow> u64 \<Rightarrow> ('h, 'z) io_state_scheme \<Rightarrow> u64 \<times> ('h, 'z) io_state_scheme" where
  "dev_readq hw a s = (case raw_readq hw a (io_view s) of (x, v) \<Rightarrow> (x, set_io_view v s))"

definition dev_writel :: "('h, 'y) io_hw_scheme \<Rightarrow> u32 \<Rightarrow> u64 \<Rightarrow> ('h, 'z) io_state_scheme \<Rightarrow> ('h, 'z) io_state_scheme" where
  "dev_writel hw x a s = set_io_view (raw_writel hw x a (io_view s)) s"

definition dev_writeq :: "('h, 'y) io_hw_scheme \<Rightarrow> u64 \<Rightarrow> u64 \<Rightarrow> ('h, 'z) io_state_scheme \<Rightarrow> ('h, 'z) io_state_scheme" where
  "dev_writeq hw x a s = set_io_view (raw_writeq hw x a (io_view s)) s"

definition io_printf :: "string \<Rightarrow> vararg list \<Rightarrow> ('h, 'z) io_state_scheme \<Rightarrow> ('h, 'z) io_state_scheme outcome" where
  "io_printf fmt va s = bind_outcome (printf_out fmt va) (\<lambda>t. Ret (s\<lparr>rpt := puts (rpt s) t\<rparr>))"

definition io_alloc_page :: "('h, 'z) io_state_scheme \<Rightarrow> u64 \<times> ('h, 'z) io_state_scheme" where
  "io_alloc_page s = (case alloc_page (vm s) of (p, m) \<Rightarrow> (p, s\<lparr>vm := m\<rparr>))"

definition set_ram :: "mem \<Rightarrow> ('h, 'z) io_state_scheme \<Rightarrow> ('h, 'z) io_state_scheme" where
  "set_ram m s = s\<lparr>vm := (vm s)\<lparr>ram := m\<rparr>\<rparr>"

definition io_report :: "string \<Rightarrow> bool \<Rightarrow> vararg list \<Rightarrow> ('h, 'z) io_state_scheme \<Rightarrow> ('h, 'z) io_state_scheme outcome" where
  "io_report fmt pass va s = bind_outcome (report (rpt s) fmt pass va) (\<lambda>r. Ret (s\<lparr>rpt := r\<rparr>))"

text \<open>The state after \<open>n\<close> reads of a register.\<close>

definition poll :: "('h, 'y) io_hw_scheme \<Rightarrow> u64 \<Rightarrow> nat \<Rightarrow> 'h \<times> mem \<Rightarrow> 'h \<times> mem" where
  "poll hw a n v = ((\<lambda>v. snd (raw_readl hw a v)) ^^ n) v"

section \<open>Lemmas\<close>

lemma io_view_set [simp]: "io_view (set_io_view v s) = v" "set_io_view w (set_io_view v s) = set_io_view w s"
  by (simp_all add: io_view_def set_io_view_def)

lemma set_view_devs [simp]: "set_io_view (h, ram (vm s)) s = s\<lparr>devs := h\<rparr>"
  by (simp add: set_io_view_def)

lemma printable_io_printf:
  "printable (parse_fmt fmt) va \<Longrightarrow> \<exists>t. \<forall>s :: ('h, 'z) io_state_scheme. io_printf fmt va s = Ret (s\<lparr>rpt := puts (rpt s) t\<rparr>)"
  using printable_render [of "parse_fmt fmt" va] by (auto simp: io_printf_def printf_out_def vtext_def)

lemma prefix_pushed:
  assumes "holds (prefixes r) ps" and "first_occ PREFIX_DELIMITER t = None" and "NUL \<notin> set t" and "length (join ps) + length t + 2 < PREFIXES_SZ"
  obtains arr where "report_prefix_push r t = Ret (r\<lparr>prefixes := arr\<rparr>)" and "holds arr (ps @ [t])"
proof -
  have t: "vtext ''%s'' [VStr t] = Ret t"
    by (simp add: vtext_def parse_simps conv_text_def props0_def pad_text_def)
  have "\<not> sublist PREFIX_DELIMITER t"
    using assms(2) by (simp add: first_occ_None_iff)
  then obtain arr where a: "report_prefix_push r t = Ret (r\<lparr>prefixes := arr\<rparr>)"
    using pushf_holds [OF assms(1) t assms(3)] assms(4) by (simp add: report_prefix_push_def)
  have "holds (prefixes (r\<lparr>prefixes := arr\<rparr>)) (ps @ [t])"
    by (rule pushf_keeps_holds [OF assms(1) t assms(3)]) (use a in \<open>simp add: report_prefix_push_def\<close>)
  then show thesis
    using that a by simp
qed

lemma io_report_passes:
  assumes "printable (parse_fmt fmt) va"
  obtains t where "\<And>s :: ('h, 'z) io_state_scheme. io_report fmt True va s = Ret (s\<lparr>rpt := puts (rpt s\<lparr>tests := tests (rpt s) + 1\<rparr>) (t (rpt s))\<rparr>)"
proof -
  obtain t where "printf_out fmt va = Ret t"
    using printable_render [OF assms] by (auto simp: printf_out_def vtext_def)
  then show thesis
    using status_text by (intro that [of "\<lambda>r. ''PASS: '' @ cstr_at (prefixes r) 0 @ t @ [CHR 0x0A]"])
      (simp add: io_report_def report_def va_report_def Let_def puts_def)
qed

end
