(* ===== verification/Vtd.thy ===== *)
theory Vtd
  imports Vmalloc Pci Mmio
begin

text \<open>
  The driver of the Intel IOMMU, \<^verbatim>\<open>lib/x86/intel-iommu.c\<close>, with the driver of the EDU test device
  (\<^verbatim>\<open>lib/pci-edu.c\<close>), the I/O APIC registers of \<^verbatim>\<open>lib/x86/apic.c\<close> and the DMA test of \<^verbatim>\<open>x86/intel-iommu.c\<close>. The
  devices behind the memory mapped registers are a parameter; since they also access the memory, a register access
  takes their state together with the memory.
\<close>

unbundle bit_operations_syntax

section \<open>State\<close>

record 'h vtd_state = "'h io_state" +
  vtd_reg_base :: u64
  index_ctr :: u32
  live_count :: u32

text \<open>The functions of \<^verbatim>\<open>lib/pci.c\<close> reach the configuration space of the same devices.\<close>

definition with_pci :: "('h pci_world \<Rightarrow> ('a \<times> 'h pci_world) outcome) \<Rightarrow> 'h vtd_state \<Rightarrow> ('a \<times> 'h vtd_state) outcome" where
  "with_pci f s =
     bind_outcome (f \<lparr>pci_bus = devs s, pci_out = []\<rparr>) (\<lambda>(x, w).
     Ret (x, s\<lparr>devs := pci_bus w, rpt := puts (rpt s) (pci_out w)\<rparr>))"

section \<open>Bit fields\<close>

text \<open>A bit field is the offset of its 64-bit word in the structure, its lowest bit and its width.\<close>

type_synonym bitfield = "u64 \<times> nat \<times> nat"

definition put_bits :: "nat \<Rightarrow> nat \<Rightarrow> u64 \<Rightarrow> u64 \<Rightarrow> u64" where
  "put_bits off n v w = (w AND NOT (push_bit off (mask n))) OR push_bit off (take_bit n v)"

definition get_bits :: "nat \<Rightarrow> nat \<Rightarrow> u64 \<Rightarrow> u64" where
  "get_bits off n w = take_bit n (drop_bit off w)"

definition put_field :: "u64 \<Rightarrow> bitfield \<Rightarrow> u64 \<Rightarrow> mem \<Rightarrow> mem" where
  "put_field p f v m = (case f of (q, off, n) \<Rightarrow> store64 m (p + q) (put_bits off n v (load64 m (p + q))))"

definition get_field :: "u64 \<Rightarrow> bitfield \<Rightarrow> mem \<Rightarrow> u64" where
  "get_field p f m = (case f of (q, off, n) \<Rightarrow> get_bits off n (load64 m (p + q)))"

primrec put_fields :: "u64 \<Rightarrow> (bitfield \<times> u64) list \<Rightarrow> mem \<Rightarrow> mem" where
  "put_fields p [] m = m"
| "put_fields p (fv # fvs) m = put_fields p fvs (put_field p (fst fv) (snd fv) m)"

datatype vtd_root_entry = Re_present | Re_context_table_p

primrec re_field :: "vtd_root_entry \<Rightarrow> bitfield" where
  "re_field Re_present = (0, 0, 1)"
| "re_field Re_context_table_p = (0, 12, 52)"

datatype vtd_context_entry =
  Ce_present | Ce_disable_fault_report | Ce_trans_type | Ce_slptptr | Ce_addr_width | Ce_domain_id

primrec ce_field :: "vtd_context_entry \<Rightarrow> bitfield" where
  "ce_field Ce_present = (0, 0, 1)"
| "ce_field Ce_disable_fault_report = (0, 1, 1)"
| "ce_field Ce_trans_type = (0, 2, 2)"
| "ce_field Ce_slptptr = (0, 12, 52)"
| "ce_field Ce_addr_width = (8, 0, 3)"
| "ce_field Ce_domain_id = (8, 8, 16)"

datatype vtd_irte =
  Ir_present | Ir_fault_disable | Ir_dest_mode | Ir_redir_hint | Ir_trigger_mode | Ir_delivery_mode | Ir_irte_mode
| Ir_vector | Ir_dest_id | Ir_source_id | Ir_sid_q | Ir_sid_vtype

primrec ir_field :: "vtd_irte \<Rightarrow> bitfield" where
  "ir_field Ir_present = (0, 0, 1)"
| "ir_field Ir_fault_disable = (0, 1, 1)"
| "ir_field Ir_dest_mode = (0, 2, 1)"
| "ir_field Ir_redir_hint = (0, 3, 1)"
| "ir_field Ir_trigger_mode = (0, 4, 1)"
| "ir_field Ir_delivery_mode = (0, 5, 3)"
| "ir_field Ir_irte_mode = (0, 15, 1)"
| "ir_field Ir_vector = (0, 16, 8)"
| "ir_field Ir_dest_id = (0, 32, 32)"
| "ir_field Ir_source_id = (8, 0, 16)"
| "ir_field Ir_sid_q = (8, 16, 2)"
| "ir_field Ir_sid_vtype = (8, 18, 2)"

section \<open>Registers of the IOMMU\<close>

definition DMAR_VER_REG :: u64 where "DMAR_VER_REG = 0x0"

definition DMAR_CAP_REG :: u64 where "DMAR_CAP_REG = 0x8"

definition DMAR_ECAP_REG :: u64 where "DMAR_ECAP_REG = 0x10"

definition DMAR_GCMD_REG :: u64 where "DMAR_GCMD_REG = 0x18"

definition DMAR_GSTS_REG :: u64 where "DMAR_GSTS_REG = 0x1c"

definition DMAR_RTADDR_REG :: u64 where "DMAR_RTADDR_REG = 0x20"

definition DMAR_IRTA_REG :: u64 where "DMAR_IRTA_REG = 0xb8"

definition VTD_GCMD_IR_TABLE :: u32 where "VTD_GCMD_IR_TABLE = 0x1000000"

definition VTD_GCMD_IR :: u32 where "VTD_GCMD_IR = 0x2000000"

definition VTD_GCMD_QI :: u32 where "VTD_GCMD_QI = 0x4000000"

definition VTD_GCMD_WBF :: u32 where "VTD_GCMD_WBF = 0x8000000"

definition VTD_GCMD_SFL :: u32 where "VTD_GCMD_SFL = 0x20000000"

definition VTD_GCMD_ROOT :: u32 where "VTD_GCMD_ROOT = 0x40000000"

definition VTD_GCMD_DMAR :: u32 where "VTD_GCMD_DMAR = 0x80000000"

definition VTD_GCMD_ONE_SHOT_BITS :: u32 where
  "VTD_GCMD_ONE_SHOT_BITS = VTD_GCMD_IR_TABLE OR VTD_GCMD_WBF OR VTD_GCMD_SFL OR VTD_GCMD_ROOT"

definition VTD_PTE_R :: u64 where "VTD_PTE_R = 1"

definition VTD_PTE_W :: u64 where "VTD_PTE_W = 2"

definition VTD_PTE_RW :: u64 where "VTD_PTE_RW = VTD_PTE_R OR VTD_PTE_W"

definition VTD_PTE_ADDR :: u64 where "VTD_PTE_ADDR = GENMASK_ULL 63 12"

definition VTD_PTE_HUGE :: u64 where "VTD_PTE_HUGE = push_bit 7 1"

definition Q35_HOST_BRIDGE_IOMMU_ADDR :: u64 where "Q35_HOST_BRIDGE_IOMMU_ADDR = 0xfed90000"

definition VTD_PAGE_LEVEL :: nat where "VTD_PAGE_LEVEL = 3"

definition VTD_CE_AW_39BIT :: u64 where "VTD_CE_AW_39BIT = 1"

definition VTD_CONTEXT_TT_MULTI_LEVEL :: u64 where "VTD_CONTEXT_TT_MULTI_LEVEL = 0"

definition vtd_reg :: "u64 \<Rightarrow> 'h vtd_state \<Rightarrow> u64 outcome" where
  "vtd_reg reg s = bind_outcome (assert_that (vtd_reg_base s \<noteq> 0) ''vtd_reg_base'') (\<lambda>_. Ret (vtd_reg_base s + reg))"

definition vtd_writel :: "'h io_hw \<Rightarrow> u64 \<Rightarrow> u32 \<Rightarrow> 'h vtd_state \<Rightarrow> 'h vtd_state outcome" where
  "vtd_writel hw reg x s = bind_outcome (vtd_reg reg s) (\<lambda>a. Ret (dev_writel hw x a s))"

definition vtd_writeq :: "'h io_hw \<Rightarrow> u64 \<Rightarrow> u64 \<Rightarrow> 'h vtd_state \<Rightarrow> 'h vtd_state outcome" where
  "vtd_writeq hw reg x s = bind_outcome (vtd_reg reg s) (\<lambda>a. Ret (dev_writeq hw x a s))"

definition vtd_readl :: "'h io_hw \<Rightarrow> u64 \<Rightarrow> 'h vtd_state \<Rightarrow> (u32 \<times> 'h vtd_state) outcome" where
  "vtd_readl hw reg s = bind_outcome (vtd_reg reg s) (\<lambda>a. Ret (dev_readl hw a s))"

definition vtd_readq :: "'h io_hw \<Rightarrow> u64 \<Rightarrow> 'h vtd_state \<Rightarrow> (u64 \<times> 'h vtd_state) outcome" where
  "vtd_readq hw reg s = bind_outcome (vtd_reg reg s) (\<lambda>a. Ret (dev_readq hw a s))"

definition vtd_root_table :: "'h io_hw \<Rightarrow> 'h vtd_state \<Rightarrow> (u64 \<times> 'h vtd_state) outcome" where
  "vtd_root_table hw s = bind_outcome (vtd_readq hw DMAR_RTADDR_REG s) (\<lambda>(x, s). Ret (x AND PAGE_MASK, s))"

definition vtd_ir_table :: "'h io_hw \<Rightarrow> 'h vtd_state \<Rightarrow> (u64 \<times> 'h vtd_state) outcome" where
  "vtd_ir_table hw s = bind_outcome (vtd_readq hw DMAR_IRTA_REG s) (\<lambda>(x, s). Ret (x AND PAGE_MASK, s))"

section \<open>Commands and set-up\<close>

partial_function (option) gcmd_wait :: "'h io_hw \<Rightarrow> u32 \<Rightarrow> 'h vtd_state \<Rightarrow> 'h vtd_state outcome option" where
  "gcmd_wait hw cmd s =
     (case vtd_readl hw DMAR_GSTS_REG s of
        Abort e \<Rightarrow> Some (Abort e)
      | Ret (x, s) \<Rightarrow> if x AND cmd = 0 then gcmd_wait hw cmd s else Some (Ret s))"

definition vtd_gcmd_or :: "'h io_hw \<Rightarrow> u32 \<Rightarrow> 'h vtd_state \<Rightarrow> 'h vtd_state outcome" where
  "vtd_gcmd_or hw cmd s =
     bind_outcome (assert_that (is_power_of_2 (ucast cmd)) ''is_power_of_2(cmd)'') (\<lambda>_.
     bind_outcome (vtd_readl hw DMAR_GSTS_REG s) (\<lambda>(status, s).
     bind_outcome (vtd_writel hw DMAR_GCMD_REG (status OR cmd) s) (\<lambda>s.
     if cmd AND VTD_GCMD_ONE_SHOT_BITS \<noteq> 0 then Ret s
     else bind_outcome (returns (gcmd_wait hw cmd s)) (\<lambda>r. r))))"

definition vtd_dump_init_info :: "'h io_hw \<Rightarrow> 'h vtd_state \<Rightarrow> 'h vtd_state outcome" where
  "vtd_dump_init_info hw s =
     bind_outcome (vtd_readl hw DMAR_VER_REG s) (\<lambda>(version, s).
     bind_outcome (assert_that (drop_bit 3 version AND 0xf \<ge> 1) ''((version >> 3) & 0xf) >= 1'') (\<lambda>_.
     bind_outcome (io_printf (''VT-d version:   %#x'' @ [CHR 0x0A]) [VInt (ucast version)] s) (\<lambda>s.
     bind_outcome (vtd_readq hw DMAR_CAP_REG s) (\<lambda>(cap, s).
     bind_outcome (io_printf (''     cap:       %#018lx'' @ [CHR 0x0A]) [VInt cap] s) (\<lambda>s.
     bind_outcome (vtd_readq hw DMAR_ECAP_REG s) (\<lambda>(ecap, s).
     io_printf (''     ecap:      %#018lx'' @ [CHR 0x0A]) [VInt ecap] s))))))"

definition vtd_setup_root_table :: "'h io_hw \<Rightarrow> 'h vtd_state \<Rightarrow> 'h vtd_state outcome" where
  "vtd_setup_root_table hw s =
     (let (root, s) = io_alloc_page s in
      bind_outcome (vtd_writeq hw DMAR_RTADDR_REG root s) (\<lambda>s.
      bind_outcome (vtd_gcmd_or hw VTD_GCMD_ROOT s) (\<lambda>s.
      bind_outcome (vtd_root_table hw s) (\<lambda>(a, s).
      io_printf (''DMAR table address: %#018lx'' @ [CHR 0x0A]) [VInt a] s))))"

definition vtd_setup_ir_table :: "'h io_hw \<Rightarrow> 'h vtd_state \<Rightarrow> 'h vtd_state outcome" where
  "vtd_setup_ir_table hw s =
     (let (root, s) = io_alloc_page s in
      bind_outcome (vtd_writeq hw DMAR_IRTA_REG (root OR 0xf) s) (\<lambda>s.
      bind_outcome (vtd_gcmd_or hw VTD_GCMD_IR_TABLE s) (\<lambda>s.
      bind_outcome (vtd_ir_table hw s) (\<lambda>(a, s).
      io_printf (''IR table address: %#018lx'' @ [CHR 0x0A]) [VInt a] s))))"

definition vtd_init :: "'h io_hw \<Rightarrow> 'h vtd_state \<Rightarrow> 'h vtd_state outcome" where
  "vtd_init hw s =
     (let (base, m) = ioremap Q35_HOST_BRIDGE_IOMMU_ADDR PAGE_SIZE (vm s); s = s\<lparr>vm := m, vtd_reg_base := base\<rparr> in
      bind_outcome (vtd_dump_init_info hw s) (\<lambda>s.
      bind_outcome (vtd_gcmd_or hw VTD_GCMD_QI s) (\<lambda>s.
      bind_outcome (vtd_setup_root_table hw s) (\<lambda>s.
      bind_outcome (vtd_setup_ir_table hw s) (\<lambda>s.
      bind_outcome (vtd_gcmd_or hw VTD_GCMD_DMAR s) (\<lambda>s.
      vtd_gcmd_or hw VTD_GCMD_IR s))))))"

section \<open>DMA remapping\<close>

text \<open>The loop of \<open>vtd_install_pte\<close> returns the table, the level and the state it ends with.\<close>

function vtd_install_walk :: "nat \<Rightarrow> nat \<Rightarrow> u64 \<Rightarrow> u64 \<Rightarrow> machine \<Rightarrow> u64 \<times> nat \<times> machine" where
  "vtd_install_walk level level_target iova root s =
     (if level > level_target then
        let a = entry root (PGDIR_OFFSET iova level);
            s = (if load64 (ram s) a AND VTD_PTE_RW = 0 then
                   let (page, s) = alloc_page s in s\<lparr>ram := store64 (ram s) a (page OR VTD_PTE_RW)\<rparr>
                 else s)
        in vtd_install_walk (level - 1) level_target iova (load64 (ram s) a AND VTD_PTE_ADDR) s
      else (root, level, s))"
  by pat_completeness auto

termination
  by (relation "measure (\<lambda>(level, _). level)") auto

declare vtd_install_walk.simps [simp del]

definition vtd_install_pte :: "u64 \<Rightarrow> u64 \<Rightarrow> u64 \<Rightarrow> nat \<Rightarrow> machine \<Rightarrow> machine" where
  "vtd_install_pte root iova pa level_target s =
     (let (root, level, s) = vtd_install_walk VTD_PAGE_LEVEL level_target iova root s;
          a = entry root (PGDIR_OFFSET iova level);
          s = s\<lparr>ram := store64 (ram s) a (pa OR VTD_PTE_RW)\<rparr>
      in if level \<noteq> 1 then s\<lparr>ram := store64 (ram s) a (load64 (ram s) a OR VTD_PTE_HUGE)\<rparr> else s)"

definition PCI_BDF_GET_DEVFN :: "u16 \<Rightarrow> u8" where
  "PCI_BDF_GET_DEVFN x = ucast (x AND 0xff)"

definition PCI_BDF_GET_BUS :: "u16 \<Rightarrow> u8" where
  "PCI_BDF_GET_BUS x = ucast (drop_bit 8 x AND 0xff)"

text \<open>The root entry of the bus: the context table it points to, made if there is none.\<close>

definition vtd_get_context_table :: "u64 \<Rightarrow> u8 \<Rightarrow> 'h vtd_state \<Rightarrow> (u64 \<times> 'h vtd_state) outcome" where
  "vtd_get_context_table re bus_n s =
     (if get_field re (re_field Re_present) (ram (vm s)) = 0 then
        let (ce, s) = io_alloc_page s;
            m = memset (ram (vm s)) re 0 16;
            m = put_fields re [(re_field Re_context_table_p, drop_bit PAGE_SHIFT ce), (re_field Re_present, 1)] m
        in bind_outcome (io_printf (''allocated vt-d root entry for PCI bus %d'' @ [CHR 0x0A]) [VInt (ucast bus_n)] (set_ram m s))
             (\<lambda>s. Ret (ce, s))
      else Ret (push_bit PAGE_SHIFT (get_field re (re_field Re_context_table_p) (ram (vm s))), s))"

text \<open>The context entry of the device: the root of its second level tables, made if there is none.\<close>

definition vtd_get_slptptr :: "u64 \<Rightarrow> u16 \<Rightarrow> u8 \<Rightarrow> 'h vtd_state \<Rightarrow> (u64 \<times> 'h vtd_state) outcome" where
  "vtd_get_slptptr ce sid devfn s =
     (if get_field ce (ce_field Ce_present) (ram (vm s)) = 0 then
        let (slptptr, s) = io_alloc_page s;
            m = memset (ram (vm s)) ce 0 16;
            m = put_fields ce
              [(ce_field Ce_domain_id, ucast sid), (ce_field Ce_addr_width, VTD_CE_AW_39BIT),
               (ce_field Ce_slptptr, drop_bit PAGE_SHIFT slptptr), (ce_field Ce_trans_type, VTD_CONTEXT_TT_MULTI_LEVEL),
               (ce_field Ce_present, 1), (ce_field Ce_disable_fault_report, 1)] m
        in bind_outcome (io_printf (''allocated vt-d context entry for devfn %#x'' @ [CHR 0x0A]) [VInt (ucast devfn)] (set_ram m s))
             (\<lambda>s. Ret (slptptr, s))
      else Ret (push_bit PAGE_SHIFT (get_field ce (ce_field Ce_slptptr) (ram (vm s))), s))"

partial_function (option) vtd_map_loop :: "u16 \<Rightarrow> u64 \<Rightarrow> u64 \<Rightarrow> u64 \<Rightarrow> u64 \<Rightarrow> 'h vtd_state \<Rightarrow> 'h vtd_state outcome option" where
  "vtd_map_loop sid slptptr iova pa sz s =
     (if sz = 0 then Some (Ret s)
      else (case io_printf (''map 4K page IOVA %#lx to %#lx (sid=%#06x)'' @ [CHR 0x0A]) [VInt iova, VInt pa, VInt (ucast sid)] s of
              Abort e \<Rightarrow> Some (Abort e)
            | Ret s \<Rightarrow> vtd_map_loop sid slptptr (iova + PAGE_SIZE) (pa + PAGE_SIZE) (sz - PAGE_SIZE)
                (s\<lparr>vm := vtd_install_pte slptptr iova pa 1 (vm s)\<rparr>)))"

definition vtd_map_range :: "'h io_hw \<Rightarrow> u16 \<Rightarrow> u64 \<Rightarrow> u64 \<Rightarrow> u64 \<Rightarrow> 'h vtd_state \<Rightarrow> 'h vtd_state outcome" where
  "vtd_map_range hw sid iova pa sz s =
     bind_outcome (vtd_root_table hw s) (\<lambda>(re, s).
     bind_outcome (assert_that (IS_ALIGNED iova PAGE_SIZE) ''IS_ALIGNED(iova, SZ_4K)'') (\<lambda>_.
     bind_outcome (assert_that (IS_ALIGNED pa PAGE_SIZE) ''IS_ALIGNED(pa, SZ_4K)'') (\<lambda>_.
     bind_outcome (assert_that (IS_ALIGNED sz PAGE_SIZE) ''IS_ALIGNED(size, SZ_4K)'') (\<lambda>_.
     let bus_n = PCI_BDF_GET_BUS sid; devfn = PCI_BDF_GET_DEVFN sid in
     bind_outcome (vtd_get_context_table (re + 16 * ucast bus_n) bus_n s) (\<lambda>(ce, s).
     bind_outcome (vtd_get_slptptr (ce + 16 * ucast devfn) sid devfn s) (\<lambda>(slptptr, s).
     bind_outcome (returns (vtd_map_loop sid slptptr iova pa sz s)) (\<lambda>r. r)))))))"

section \<open>Interrupt remapping\<close>

definition TRIGGER_EDGE :: u32 where "TRIGGER_EDGE = 0"

definition vtd_intr_index_alloc :: "'h vtd_state \<Rightarrow> (u16 \<times> 'h vtd_state) outcome" where
  "vtd_intr_index_alloc s =
     bind_outcome (assert_that (sint (index_ctr s) < 65535) ''index_ctr < 65535'') (\<lambda>_.
     let ctr = index_ctr s + 1; s = s\<lparr>index_ctr := ctr\<rparr> in
     bind_outcome (io_printf (''INTR: alloc IRTE index %d'' @ [CHR 0x0A]) [VInt (ucast ctr)] s) (\<lambda>s.
     Ret (ucast ctr, s)))"

definition vtd_setup_irte :: "pci_dev \<Rightarrow> u64 \<Rightarrow> u32 \<Rightarrow> u32 \<Rightarrow> u32 \<Rightarrow> mem \<Rightarrow> mem" where
  "vtd_setup_irte dev irte vector dest_id trigger m =
     put_fields irte
       [(ir_field Ir_fault_disable, 1), (ir_field Ir_dest_mode, 0), (ir_field Ir_trigger_mode, ucast trigger),
        (ir_field Ir_delivery_mode, 0), (ir_field Ir_irte_mode, 0), (ir_field Ir_vector, ucast vector),
        (ir_field Ir_dest_id, ucast dest_id), (ir_field Ir_source_id, ucast (bdf dev)), (ir_field Ir_sid_q, 0),
        (ir_field Ir_sid_vtype, 1), (ir_field Ir_present, 1)]
       (memset m irte 0 16)"

text \<open>The fields of \<^verbatim>\<open>struct vtd_msi_addr\<close>: handle[15], shv, interrupt format, handle[0:14] and head.\<close>

definition msi_addr_of :: "u16 \<Rightarrow> u64" where
  "msi_addr_of index =
     put_bits 20 12 0xfee (put_bits 5 15 (ucast (index AND 0x7fff)) (put_bits 4 1 1 (put_bits 3 1 0
       (put_bits 2 1 (ucast (drop_bit 15 index AND 1)) 0))))"

text \<open>The field \<open>subhandle\<close> of \<^verbatim>\<open>struct vtd_msi_data\<close> is 0, as are the others.\<close>

definition vtd_setup_msi :: "'h io_hw \<Rightarrow> 'h pci_env \<Rightarrow> pci_dev \<Rightarrow> u32 \<Rightarrow> u32 \<Rightarrow> 'h vtd_state \<Rightarrow> (bool \<times> 'h vtd_state) outcome" where
  "vtd_setup_msi hw E dev vector dest_id s =
     bind_outcome (vtd_ir_table hw s) (\<lambda>(irte, s).
     bind_outcome (vtd_intr_index_alloc s) (\<lambda>(index, s).
     let s = set_ram (vtd_setup_irte dev (irte + 16 * ucast index) vector dest_id TRIGGER_EDGE (ram (vm s))) s;
         msi_addr = msi_addr_of index; msi_data = 0 in
     bind_outcome (io_printf (''%s: msi_addr=%#lx, msi_data=%#x'' @ [CHR 0x0A])
         [VStr ''vtd_setup_msi'', VInt msi_addr, VInt (ucast msi_data)] s) (\<lambda>s.
     with_pci (pci_setup_msi E dev msi_addr msi_data) s)))"

text \<open>The I/O APIC is reached through an index and a data register.\<close>

definition g_ioapic :: u64 where "g_ioapic = 0xfec00000"

definition ioapic_write_reg :: "'h io_hw \<Rightarrow> u32 \<Rightarrow> u32 \<Rightarrow> 'h vtd_state \<Rightarrow> 'h vtd_state" where
  "ioapic_write_reg hw reg x s = dev_writel hw x (g_ioapic + 0x10) (dev_writel hw reg g_ioapic s)"

definition ioapic_write_redir :: "'h io_hw \<Rightarrow> u32 \<Rightarrow> u64 \<Rightarrow> 'h vtd_state \<Rightarrow> 'h vtd_state" where
  "ioapic_write_redir hw line e s =
     ioapic_write_reg hw (0x10 + line * 2 + 1) (ucast (drop_bit 32 e)) (ioapic_write_reg hw (0x10 + line * 2 + 0) (ucast e) s)"

text \<open>The fields of \<^verbatim>\<open>struct vtd_ioapic_entry\<close>: vector, trigger mode, index[15], interrupt format and index[0:14].\<close>

definition ioapic_entry_of :: "u32 \<Rightarrow> u32 \<Rightarrow> u16 \<Rightarrow> u64" where
  "ioapic_entry_of vector trigger index =
     put_bits 49 15 (ucast (index AND 0x7fff)) (put_bits 48 1 1 (put_bits 11 1 (ucast (drop_bit 15 index AND 1))
       (put_bits 15 1 (ucast trigger) (put_bits 0 8 (ucast vector) 0))))"

definition vtd_setup_ioapic_irq ::
  "'h io_hw \<Rightarrow> 'h pci_env \<Rightarrow> pci_dev \<Rightarrow> u32 \<Rightarrow> u32 \<Rightarrow> u32 \<Rightarrow> 'h vtd_state \<Rightarrow> 'h vtd_state outcome" where
  "vtd_setup_ioapic_irq hw E dev vector dest_id trigger s =
     bind_outcome (vtd_ir_table hw s) (\<lambda>(irte, s).
     bind_outcome (vtd_intr_index_alloc s) (\<lambda>(index, s).
     let s = set_ram (vtd_setup_irte dev (irte + 16 * ucast index) vector dest_id trigger (ram (vm s))) s in
     bind_outcome (with_pci (\<lambda>w. Ret (pci_intx_line E dev w)) s) (\<lambda>(line, s).
     Ret (ioapic_write_redir hw (ucast line) (ioapic_entry_of vector trigger index) s))))"

section \<open>The EDU device and the DMA test\<close>

definition EDU_REG_ALIVE :: u64 where "EDU_REG_ALIVE = 0x4"

definition EDU_REG_DMA_SRC :: u64 where "EDU_REG_DMA_SRC = 0x80"

definition EDU_REG_DMA_DST :: u64 where "EDU_REG_DMA_DST = 0x88"

definition EDU_REG_DMA_COUNT :: u64 where "EDU_REG_DMA_COUNT = 0x90"

definition EDU_REG_DMA_CMD :: u64 where "EDU_REG_DMA_CMD = 0x98"

definition EDU_CMD_DMA_START :: u32 where "EDU_CMD_DMA_START = 0x01"

definition EDU_CMD_DMA_FROM :: u32 where "EDU_CMD_DMA_FROM = 0x02"

definition EDU_CMD_DMA_TO :: u32 where "EDU_CMD_DMA_TO = 0x00"

definition EDU_DMA_START :: u64 where "EDU_DMA_START = 0x40000"

definition EDU_DMA_SIZE_MAX :: u64 where "EDU_DMA_SIZE_MAX = 4096"

record pci_edu_dev =
  edu_pci_dev :: pci_dev
  edu_reg_base :: u64

definition edu_check_alive :: "'h io_hw \<Rightarrow> pci_edu_dev \<Rightarrow> 'h vtd_state \<Rightarrow> bool \<times> 'h vtd_state" where
  "edu_check_alive hw dev s =
     (let s = (dev_writel hw (live_count s) (edu_reg_base dev + EDU_REG_ALIVE) s)\<lparr>live_count := live_count s + 1\<rparr>;
          (value, s) = dev_readl hw (edu_reg_base dev + EDU_REG_ALIVE) s
      in (live_count s - 1 = NOT value, s))"

definition edu_init :: "'h io_hw \<Rightarrow> 'h pci_env \<Rightarrow> 'h vtd_state \<Rightarrow> (pci_edu_dev option \<times> 'h vtd_state) outcome" where
  "edu_init hw E s =
     bind_outcome (with_pci (\<lambda>w. Ret (pci_find_dev E 0x1234 0x11e8 w)) s) (\<lambda>(dev_addr, s).
     if dev_addr = PCIDEVADDR_INVALID then Ret (None, s)
     else bind_outcome (with_pci (\<lambda>w. bind_outcome (pci_dev_init E dev_addr w) (\<lambda>(dev, w). pci_enable_defaults E dev w)) s) (\<lambda>(dev, s).
       let (base, m) = ioremap (resource dev ! 0) PAGE_SIZE (vm s);
           d = \<lparr>edu_pci_dev = dev, edu_reg_base = base\<rparr>;
           (alive, s) = edu_check_alive hw d (s\<lparr>vm := m\<rparr>)
       in bind_outcome (assert_that alive ''edu_check_alive(dev)'') (\<lambda>_. Ret (Some d, s))))"

partial_function (option) edu_dma_wait :: "'h io_hw \<Rightarrow> pci_edu_dev \<Rightarrow> 'h vtd_state \<Rightarrow> 'h vtd_state option" where
  "edu_dma_wait hw dev s =
     (case dev_readl hw (edu_reg_base dev + EDU_REG_DMA_CMD) s of
        (x, s) \<Rightarrow> if x AND EDU_CMD_DMA_START \<noteq> 0 then edu_dma_wait hw dev s else Some s)"

definition edu_dma :: "'h io_hw \<Rightarrow> pci_edu_dev \<Rightarrow> u64 \<Rightarrow> u64 \<Rightarrow> u32 \<Rightarrow> bool \<Rightarrow> 'h vtd_state \<Rightarrow> 'h vtd_state outcome" where
  "edu_dma hw dev iova sz dev_offset from_device s =
     bind_outcome (assert_that (sz \<le> EDU_DMA_SIZE_MAX) ''size <= EDU_DMA_SIZE_MAX'') (\<lambda>_.
     bind_outcome (assert_that (ucast dev_offset < EDU_DMA_SIZE_MAX) ''dev_offset < EDU_DMA_SIZE_MAX'') (\<lambda>_.
     bind_outcome (io_printf (''edu device DMA start %s addr %#lx size %lu off %#x'' @ [CHR 0x0A])
         [VStr (if from_device then ''FROM'' else ''TO''), VInt iova, VInt sz, VInt (ucast dev_offset)] s) (\<lambda>s.
     let cmd = EDU_CMD_DMA_START;
         (src, dst, cmd) =
           (if from_device then (ucast (dev_offset + ucast EDU_DMA_START), iova, cmd OR EDU_CMD_DMA_FROM)
            else (iova, ucast (ucast EDU_DMA_START + dev_offset), cmd OR EDU_CMD_DMA_TO));
         s = dev_writeq hw src (edu_reg_base dev + EDU_REG_DMA_SRC) s;
         s = dev_writeq hw dst (edu_reg_base dev + EDU_REG_DMA_DST) s;
         s = dev_writeq hw sz (edu_reg_base dev + EDU_REG_DMA_COUNT) s;
         s = dev_writel hw cmd (edu_reg_base dev + EDU_REG_DMA_CMD) s
     in returns (edu_dma_wait hw dev s))))"

definition DMA_TEST_WORD :: u64 where "DMA_TEST_WORD = 0x12345678"

definition vtd_test_dmar :: "'h io_hw \<Rightarrow> pci_edu_dev \<Rightarrow> 'h vtd_state \<Rightarrow> 'h vtd_state outcome" where
  "vtd_test_dmar hw dev s =
     (let (page, s) = io_alloc_page s in
      bind_outcome (report_prefix_push (rpt s) ''vtd_dmar'') (\<lambda>r.
      let s = s\<lparr>rpt := r\<rparr>; s = set_ram (storen 4 (ram (vm s)) page DMA_TEST_WORD) s in
      bind_outcome (vtd_map_range hw (bdf (edu_pci_dev dev)) 0 page PAGE_SIZE s) (\<lambda>s.
      bind_outcome (edu_dma hw dev 0 4 0 False s) (\<lambda>s.
      bind_outcome (edu_dma hw dev 4 4 0 True s) (\<lambda>s.
      bind_outcome (io_report ''DMAR 4B memcpy test'' (loadn 4 (ram (vm s)) (page + 4) = DMA_TEST_WORD) [] s) (\<lambda>s.
      let s = s\<lparr>vm := free_page page (vm s)\<rparr> in
      bind_outcome (report_prefix_pop (rpt s)) (\<lambda>r. Ret (s\<lparr>rpt := r\<rparr>))))))))"

end
