(* ===== verification/Vtd_Map.thy ===== *)
theory Vtd_Map
  imports Vtd
begin

text \<open>
  DMA remapping: what \<open>vtd_map_range\<close> makes of the tables of the IOMMU. The specification \<open>vtd_translate\<close> is the lookup
  of the hardware, from the source identifier of the device through its root and context entry to its second level
  tables, which are a radix tree of three levels.
\<close>

unbundle bit_operations_syntax

section \<open>Second level tables\<close>

definition vpr :: "u64 \<Rightarrow> bool" where
  "vpr e \<longleftrightarrow> e AND VTD_PTE_RW \<noteq> 0"

lemma bit_vtd_flags: "bit VTD_PTE_R n \<longleftrightarrow> n = 0" "bit VTD_PTE_W n \<longleftrightarrow> n = 1" "bit VTD_PTE_RW n \<longleftrightarrow> n = 0 \<or> n = 1"
proof -
  show *: "bit VTD_PTE_R n \<longleftrightarrow> n = 0" "bit VTD_PTE_W n \<longleftrightarrow> n = 1"
    using bit_exp_iff [of 0 n, where 'a = u64] bit_exp_iff [of 1 n, where 'a = u64] by (auto simp: VTD_PTE_R_def VTD_PTE_W_def)
  then show "bit VTD_PTE_RW n \<longleftrightarrow> n = 0 \<or> n = 1"
    by (auto simp: VTD_PTE_RW_def bit_or_iff)
qed

lemma vpr_iff: "vpr e \<longleftrightarrow> bit e 0 \<or> bit e 1"
  unfolding vpr_def and_nonzero_iff by (auto simp: bit_vtd_flags)

text \<open>The entries that the driver makes: readable and writable or empty, no large page, and an address below \<open>2\<^sup>5\<^sup>2\<close>.\<close>

definition vtd_entry :: "u64 \<Rightarrow> bool" where
  "vtd_entry e \<longleftrightarrow> (bit e 0 \<longleftrightarrow> bit e 1) \<and> \<not> bit e 7 \<and> (\<forall>n \<ge> 52. \<not> bit e n)"

lemma vtd_entry_zero: "vtd_entry 0"
  by (simp add: vtd_entry_def)

lemma vtd_entry_page:
  assumes "\<And>n. bit p n \<Longrightarrow> 12 \<le> n \<and> n < 52"
  shows "vtd_entry (p OR VTD_PTE_RW)"
  using assms [of 0] assms [of 1] assms [of 7] assms by (fastforce simp: vtd_entry_def bit_or_iff bit_vtd_flags)

lemma vtd_entry_table: "table_page p \<Longrightarrow> vtd_entry (p OR VTD_PTE_RW)"
  by (rule vtd_entry_page) (rule table_page_bit)

lemma bit_VTD_PTE_ADDR: "bit VTD_PTE_ADDR n \<longleftrightarrow> 12 \<le> n \<and> n < 64"
  by (auto simp: VTD_PTE_ADDR_def bit_GENMASK_ULL)

lemma vtd_entry_addr: "vtd_entry e \<Longrightarrow> e AND VTD_PTE_ADDR = e AND PT_ADDR_MASK"
  by (rule bit_word_eqI) (auto simp: vtd_entry_def bit_and_iff bit_VTD_PTE_ADDR bit_PT_ADDR_MASK not_le)

lemma vtd_entry_small: "vtd_entry e \<Longrightarrow> \<not> huge l e"
  by (simp add: vtd_entry_def huge_def large_iff)

text \<open>The walk with the address field of the processor's entries; on the driver's own entries it is the same.\<close>

function masked_walk :: "nat \<Rightarrow> nat \<Rightarrow> u64 \<Rightarrow> u64 \<Rightarrow> machine \<Rightarrow> u64 \<times> nat \<times> machine" where
  "masked_walk level level_target iova root s =
     (if level > level_target then
        let a = entry root (PGDIR_OFFSET iova level);
            s = (if vpr (load64 (ram s) a) then s else new_table VTD_PTE_RW a s)
        in masked_walk (level - 1) level_target iova (load64 (ram s) a AND PT_ADDR_MASK) s
      else (root, level, s))"
  by pat_completeness auto

termination
  by (relation "measure (\<lambda>(level, _). level)") auto

declare masked_walk.simps [simp del]

definition vtd_inst :: "nat \<Rightarrow> nat \<Rightarrow> u64 \<Rightarrow> u64 \<Rightarrow> u64 \<Rightarrow> machine \<Rightarrow> u64 \<times> machine" where
  "vtd_inst level level_target iova pte root s =
     (let (root, level, s) = masked_walk level level_target iova root s; a = entry root (PGDIR_OFFSET iova level)
      in (a, s\<lparr>ram := store64 (ram s) a pte\<rparr>))"

interpretation vtd_tree: radix vpr VTD_PTE_RW
  by unfold_locales (auto simp: vpr_iff bit_or_iff bit_vtd_flags)

interpretation vtd_install: table_installer vpr VTD_PTE_RW vtd_inst Pair
proof
  fix l t :: nat and virt pte pt e p :: u64 and s :: machine and fs
  let ?a = "entry pt (PGDIR_OFFSET virt (Suc l))"
  show "vtd_inst (Suc l) (Suc l) virt pte pt s = (let a = ?a in (a, s\<lparr>ram := store64 (ram s) a pte\<rparr>))"
    unfolding vtd_inst_def by (subst masked_walk.simps) (simp add: Let_def)
  assume t: "t < Suc l"
  show "vtd_inst (Suc l) t virt pte pt s = vtd_inst l t virt pte (e AND PT_ADDR_MASK) s"
    if "load64 (ram s) ?a = e" "vpr e"
    using that t unfolding vtd_inst_def by (subst masked_walk.simps) (simp add: Let_def)
  show "let s1 = new_table VTD_PTE_RW ?a s
      in vtd_inst (Suc l) t virt pte pt s = vtd_inst l t virt pte (load64 (ram s1) ?a AND PT_ADDR_MASK) s1"
    if "\<not> vpr (load64 (ram s) ?a)"
    using that t unfolding vtd_inst_def by (subst masked_walk.simps) (simp add: Let_def)
qed

abbreviation vtabs :: "mem \<Rightarrow> u64 \<Rightarrow> u64 set" where
  "vtabs m root \<equiv> set (gtabs vpr m 3 root)"

lemma small_path_free:
  "entries_all vtd_entry (set (gtabs vpr m l root)) m \<Longrightarrow> gpath_free vpr m l t root iova"
proof (induction l arbitrary: root)
  case (Suc l)
  let ?e = "pte_at m root (unat (PGDIR_OFFSET iova (Suc l)))"
  have e: "vtd_entry ?e"
    using Suc.prems root_in_tabs unat_offset_512 unfolding entries_all_def by blast
  show ?case
  proof (cases "vpr ?e")
    case True
    then have "set (gtabs vpr m l (?e AND PT_ADDR_MASK)) \<subseteq> set (gtabs vpr m (Suc l) root)"
      using subtree_subset [OF unat_offset_512, of vpr m l root iova "Suc l"] vtd_entry_small [OF e] by (simp add: gsubtree_def del: gtabs.simps)
    then have "gpath_free vpr m l t (?e AND PT_ADDR_MASK) iova"
      using Suc.prems by (intro Suc.IH) (auto simp: entries_all_def simp del: gtabs.simps)
    then show ?thesis
      using vtd_entry_small [OF e] by (simp add: Let_def)
  qed (simp add: Let_def)
qed simp

lemma walk_masked:
  assumes "free_list s fs" and "gtree vpr (ram s) l root fs" and "entries_all vtd_entry (set (gtabs vpr (ram s) l root)) (ram s)"
    and "l - t \<le> length fs" and "0 < t"
  shows "vtd_install_walk l t iova root s = masked_walk l t iova root s"
  using assms
proof (induction l arbitrary: root s fs)
  case 0
  then show ?case
    by (subst vtd_install_walk.simps, subst masked_walk.simps) simp
next
  case (Suc l)
  let ?a = "entry root (PGDIR_OFFSET iova (Suc l))" and ?i = "unat (PGDIR_OFFSET iova (Suc l))"
  show ?case
  proof (cases "t < Suc l")
    case False
    then show ?thesis
      by (subst vtd_install_walk.simps, subst masked_walk.simps) simp
  next
    case t: True
    then obtain l' where l': "l = Suc l'"
      using Suc.prems(5) by (cases l) auto
    have e: "vtd_entry (load64 (ram s) ?a)"
      using Suc.prems(3) root_in_tabs unat_offset_512 [of iova "Suc l"] unfolding entries_all_def entry_offset by blast
    show ?thesis
    proof (cases "vpr (load64 (ram s) ?a)")
      case True
      let ?c = "load64 (ram s) ?a AND PT_ADDR_MASK"
      have pe: "vpr (pte_at (ram s) root ?i)" "\<not> huge (Suc l) (pte_at (ram s) root ?i)"
        using True vtd_entry_small [OF e] by simp_all
      have tr: "gtree vpr (ram s) l ?c fs"
        using tree_ok_subtree [OF Suc.prems(2) unat_offset_512 pe] by simp
      have "set (gtabs vpr (ram s) l ?c) \<subseteq> set (gtabs vpr (ram s) (Suc l) root)"
        using subtree_subset [OF unat_offset_512 [of iova "Suc l"], of vpr "ram s" l root] pe by (simp add: gsubtree_def del: gtabs.simps)
      then have "vtd_install_walk l t iova ?c s = masked_walk l t iova ?c s"
        using Suc.prems by (intro Suc.IH [OF Suc.prems(1) tr]) (auto simp: entries_all_def simp del: gtabs.simps)
      moreover have "load64 (ram s) ?a AND VTD_PTE_RW \<noteq> 0"
        using True by (simp add: vpr_def)
      ultimately show ?thesis
        using t True by (subst vtd_install_walk.simps, subst masked_walk.simps) (simp add: Let_def vtd_entry_addr [OF e])
    next
      case False
      obtain p fs1 where fs: "fs = p # fs1"
        using Suc.prems(4) t by (cases fs) auto
      define s1 where "s1 = new_table VTD_PTE_RW (entry root (of_nat ?i)) s"
      have np: "\<not> vpr (pte_at (ram s) root ?i)"
        using False by simp
      note b = vtd_tree.install_below_new [OF Suc.prems(1,2) [unfolded fs l'] unat_offset_512 np [unfolded l'],
          folded l', folded s1_def]
      have tp: "table_page p"
        using Suc.prems(2) unfolding fs gtree_def by simp
      have fl: "free_list s (p # fs1)" and pt: "page_aligned root" "root \<noteq> p" "root \<notin> set fs1"
        using Suc.prems(1,2) root_in_tabs [of root vpr "ram s" l] table_page_aligned unfolding fs gtree_def by (auto simp del: gtabs.simps)
      have z: "\<And>x. in_page x p \<Longrightarrow> ram s1 x = 0"
        using new_table_spec(2) [OF fl pt unat_offset_512] by (simp add: s1_def)
      have "vtd_install_walk l t iova p s1 = masked_walk l t iova p s1"
        using Suc.prems(4,5) t zero_page_pte [OF z] unfolding fs
        by (intro Suc.IH [OF b(1,2)]) (auto simp: b(4) entries_all_def vtd_entry_zero)
      moreover have "load64 (ram s1) ?a = p OR VTD_PTE_RW"
        using b(6) by simp
      moreover have "load64 (ram s) ?a AND VTD_PTE_RW = 0"
        using False by (simp add: vpr_def)
      ultimately show ?thesis
        using t False vtd_tree.table_entry_simps(3) [OF tp] vtd_entry_addr [OF vtd_entry_table [OF tp]]
        by (subst vtd_install_walk.simps, subst masked_walk.simps) (simp add: Let_def s1_def new_table_def case_prod_beta)
    qed
  qed
qed

lemma vtd_install_pte_effect:
  fixes iova pa :: u64
  assumes fl: "free_list s fs" and tree: "gtree vpr (ram s) 3 root fs" and all: "entries_all vtd_entry (vtabs (ram s) root) (ram s)"
    and len: "2 \<le> length fs" and pa: "\<And>n. bit pa n \<Longrightarrow> 12 \<le> n \<and> n < 52"
  defines "s' \<equiv> vtd_install_pte root iova pa 1 s"
  obtains used fs' where "fs = used @ fs'" and "length used \<le> 2"
    and "gupdated vpr 3 root s used fs' s'
      (\<lambda>va. if same_path 1 3 va iova then Some (1, pa OR VTD_PTE_RW) else glookup vpr (ram s) 3 root va)"
    and "entries_all vtd_entry (vtabs (ram s') root) (ram s')"
proof -
  let ?pte = "pa OR VTD_PTE_RW"
  have v: "vpr ?pte"
    by (simp add: vpr_iff bit_or_iff bit_vtd_flags)
  obtain used fs' a s1 where r: "vtd_inst 3 1 iova ?pte root s = (a, s1)" "fs = used @ fs'" "length used \<le> 3 - 1"
      "ginstalled vpr 1 3 root iova ?pte s used fs' a s1" "keeps_entries VTD_PTE_RW ?pte (vtabs (ram s) root) fs (ram s) used (ram s1)"
    using vtd_install.inst_installed_keeps [OF fl tree _ _ _ small_path_free [OF all], of 1 ?pte iova] len by auto
  have lvl: "fst (snd (masked_walk 3 1 iova root s)) = 1"
    by (simp add: masked_walk.simps numeral_eq_Suc Let_def)
  have "vtd_install_walk 3 1 iova root s = masked_walk 3 1 iova root s"
    using len by (intro walk_masked [OF fl tree all]) simp_all
  then have s': "s' = s1"
    using r(1) lvl unfolding s'_def vtd_install_pte_def vtd_inst_def VTD_PAGE_LEVEL_def
    by (auto simp: Let_def case_prod_beta)
  have up: "gupdated vpr 3 root s used fs' s' (\<lambda>va. if same_path 1 3 va iova then Some (1, ?pte) else glookup vpr (ram s) 3 root va)"
    using r(4) v unfolding ginstalled_def s' gmaps_def by (simp cong: if_cong)
  have al: "\<And>p. p \<in> vtabs (ram s) root \<Longrightarrow> page_aligned p" and d: "vtabs (ram s) root \<inter> set fs = {}"
    using tree table_page_aligned unfolding gtree_def by auto
  have "entries_all vtd_entry (vtabs (ram s) root \<union> set used) (ram s')"
    using keeps_entriesD [OF r(5) _ _ _ order.refl d al all] vtd_entry_zero vtd_entry_table vtd_entry_page [OF pa] by (simp add: s')
  then have "entries_all vtd_entry (vtabs (ram s') root) (ram s')"
    using up unfolding gupdated_def entries_all_def by blast
  then show thesis
    using that [OF r(2) _ up] r(3) by simp
qed

section \<open>Bit fields\<close>

lemma bit_put_bits: "bit (put_bits off n v w) k \<longleftrightarrow> (if off \<le> k \<and> k < off + n then k < 64 \<and> bit v (k - off) else bit w k)"
  by (auto simp: put_bits_def bit_or_iff bit_and_iff bit_not_iff bit_push_bit_iff bit_take_bit_iff bit_mask_iff dest: bit_imp_le_length)

lemma bit_get_bits: "bit (get_bits off n w) k \<longleftrightarrow> k < n \<and> bit w (off + k)"
  by (simp add: get_bits_def bit_take_bit_iff bit_drop_bit_eq)

primrec quad_fields :: "u64 \<Rightarrow> (bitfield \<times> u64) list \<Rightarrow> u64 \<Rightarrow> u64" where
  "quad_fields q [] w = w"
| "quad_fields q (fv # fvs) w = quad_fields q fvs
     (case fv of ((q', off, n), v) \<Rightarrow> if q' = q then put_bits off n v w else w)"

text \<open>The structures are pairs of 64-bit words, aligned to their size.\<close>

lemma load_put_fields:
  assumes "aligned 3 p" and "q \<in> {0, 8}" and "\<forall>fv \<in> set fvs. fst (fst fv) \<in> {0, 8}"
  shows "load64 (put_fields p fvs m) (p + q) = quad_fields q fvs (load64 m (p + q))"
  using assms(3)
proof (induction fvs arbitrary: m)
  case (Cons fv fvs)
  obtain q' off n v where fv: "fv = ((q', off, n), v)"
    by (metis prod.exhaust)
  have a: "aligned 3 (p + 8)" "aligned 3 (p + 0)"
    using assms(1) aligned_next_block [of 3 p] by simp_all
  show ?case
    using Cons assms(2) a load64_store64_other [of "p + q'" "p + q" m] by (auto simp: fv put_field_def load64_store64_same)
qed simp

lemma put_fields_outside:
  assumes "unat (x - p) \<ge> 16" and "\<forall>fv \<in> set fvs. fst (fst fv) \<in> {0, 8}"
  shows "put_fields p fvs m x = m x"
  using assms(2)
proof (induction fvs arbitrary: m)
  case (Cons fv fvs)
  obtain q' off n v where fv: "fv = ((q', off, n), v)"
    by (metis prod.exhaust)
  have "unat (x - p - 8) = unat (x - p) - 8"
    using assms(1) by (intro unat_sub [of 8 "x - p", simplified]) (simp add: word_le_nat_alt)
  then have "\<not> unat (x - (p + q')) < 8"
    using assms(1) Cons.prems by (auto simp: fv diff_diff_eq)
  then show ?case
    using Cons by (simp add: fv put_field_def store64_outside)
qed simp

section \<open>What the IOMMU does\<close>

text \<open>
  The root table at \<open>R\<close> has an entry for each bus, the context table of a bus an entry for each device. The entries
  are pairs of 64-bit words.
\<close>

definition bus_slot :: "u16 \<Rightarrow> nat" where
  "bus_slot sid = 2 * unat (PCI_BDF_GET_BUS sid)"

definition dev_slot :: "u16 \<Rightarrow> nat" where
  "dev_slot sid = 2 * unat (PCI_BDF_GET_DEVFN sid)"

definition context_of :: "mem \<Rightarrow> u64 \<Rightarrow> u16 \<Rightarrow> u64 option" where
  "context_of m R sid = (let e = pte_at m R (bus_slot sid) in if bit e 0 then Some (e AND NOT (mask 12)) else None)"

text \<open>The context entry of the device: its two words.\<close>

definition context_entry :: "mem \<Rightarrow> u64 \<Rightarrow> u16 \<Rightarrow> (u64 \<times> u64) option" where
  "context_entry m R sid =
     (case context_of m R sid of
        None \<Rightarrow> None
      | Some C \<Rightarrow> let lo = pte_at m C (dev_slot sid); hi = pte_at m C (dev_slot sid + 1)
                  in if bit lo 0 then Some (lo, hi) else None)"

text \<open>Translation type 0 is a lookup in the tables; address width 1 is 39 bits.\<close>

definition context_valid :: "u64 \<times> u64 \<Rightarrow> bool" where
  "context_valid ce \<longleftrightarrow> get_bits 2 2 (fst ce) = 0 \<and> get_bits 0 3 (snd ce) = 1"

definition slpt :: "u64 \<times> u64 \<Rightarrow> u64" where
  "slpt ce = fst ce AND NOT (mask 12)"

text \<open>
  The translation of a DMA access. The access right \<open>acc\<close>, the read or the write bit, must be set in the entry
  of every level.
\<close>

definition vtd_translate :: "u64 \<Rightarrow> mem \<Rightarrow> u64 \<Rightarrow> u16 \<Rightarrow> u64 \<Rightarrow> u64 option" where
  "vtd_translate acc m R sid iova =
     (case context_entry m R sid of
        None \<Rightarrow> None
      | Some ce \<Rightarrow> if context_valid ce \<and> iova < 2 ^ 39 then gtranslate (\<lambda>e. e AND acc \<noteq> 0) m 3 (slpt ce) iova else None)"

section \<open>The tables of the driver\<close>

definition dev_tabs :: "mem \<Rightarrow> u64 \<Rightarrow> u16 \<Rightarrow> u64 set" where
  "dev_tabs m R sid = (case context_entry m R sid of None \<Rightarrow> {} | Some ce \<Rightarrow> vtabs m (slpt ce))"

definition contexts :: "mem \<Rightarrow> u64 \<Rightarrow> u64 set" where
  "contexts m R = {C. \<exists>sid. context_of m R sid = Some C}"

definition vtd_pages :: "mem \<Rightarrow> u64 \<Rightarrow> u64 set" where
  "vtd_pages m R = insert R (contexts m R \<union> (\<Union>sid. dev_tabs m R sid))"

definition dev_wf :: "mem \<Rightarrow> u64 \<Rightarrow> u16 \<Rightarrow> bool" where
  "dev_wf m R sid \<longleftrightarrow> (\<forall>ce. context_entry m R sid = Some ce \<longrightarrow>
     context_valid ce \<and> distinct (gtabs vpr m 3 (slpt ce)) \<and> entries_all vtd_entry (vtabs m (slpt ce)) m)"

text \<open>
  All tables are different pages and not free. No two buses share a context table, no two devices share a table, and
  the entries have the form that the driver gives them.
\<close>

definition vtd_ok :: "mem \<Rightarrow> u64 \<Rightarrow> u64 list \<Rightarrow> bool" where
  "vtd_ok m R fs \<longleftrightarrow>
     (\<forall>p \<in> vtd_pages m R \<union> set fs. table_page p) \<and> vtd_pages m R \<inter> set fs = {} \<and> R \<notin> contexts m R
     \<and> (\<forall>sid sid'. context_of m R sid \<noteq> None \<longrightarrow> context_of m R sid = context_of m R sid' \<longrightarrow> bus_slot sid = bus_slot sid')
     \<and> (\<forall>sid. dev_wf m R sid)
     \<and> (\<forall>sid. dev_tabs m R sid \<inter> insert R (contexts m R) = {})
     \<and> (\<forall>sid sid'. sid \<noteq> sid' \<longrightarrow> dev_tabs m R sid \<inter> dev_tabs m R sid' = {})"

lemma dev_tabs_Some: "context_entry m R sid = Some ce \<Longrightarrow> dev_tabs m R sid = vtabs m (slpt ce)"
  by (simp add: dev_tabs_def)

lemma dev_tabs_pages: "dev_tabs m R sid \<subseteq> vtd_pages m R"
  by (auto simp: vtd_pages_def)

lemma vtd_ok_tree:
  assumes "vtd_ok m R fs" and "context_entry m R sid = Some ce" and "distinct fs"
  shows "gtree vpr m 3 (slpt ce) fs"
proof -
  have "vtabs m (slpt ce) \<subseteq> vtd_pages m R"
    using dev_tabs_pages [of m R sid] by (simp only: dev_tabs_Some [OF assms(2)])
  moreover have "distinct (gtabs vpr m 3 (slpt ce))" "\<forall>p \<in> vtd_pages m R \<union> set fs. table_page p" "vtd_pages m R \<inter> set fs = {}"
    using assms(1,2) unfolding vtd_ok_def dev_wf_def by blast+
  ultimately show ?thesis
    using assms(3) unfolding gtree_def by auto
qed

lemma slots_512: "bus_slot sid + 1 < 512" "dev_slot sid + 1 < 512" "bus_slot sid < 512" "dev_slot sid < 512"
proof -
  have "unat (x :: u8) < 256" for x
    using unsigned_less [of x] by simp
  then have "unat (PCI_BDF_GET_BUS sid) < 256" "unat (PCI_BDF_GET_DEVFN sid) < 256"
    by simp_all
  then show "bus_slot sid + 1 < 512" "dev_slot sid + 1 < 512" "bus_slot sid < 512" "dev_slot sid < 512"
    by (simp_all add: bus_slot_def dev_slot_def)
qed

lemma slots_inj: "bus_slot sid = bus_slot sid' \<Longrightarrow> dev_slot sid = dev_slot sid' \<Longrightarrow> sid = sid'"
proof (rule bit_word_eqI)
  fix n :: nat
  assume "bus_slot sid = bus_slot sid'" "dev_slot sid = dev_slot sid'" and n: "n < LENGTH(16)"
  then have b: "PCI_BDF_GET_BUS sid = PCI_BDF_GET_BUS sid'" and d: "PCI_BDF_GET_DEVFN sid = PCI_BDF_GET_DEVFN sid'"
    by (simp_all add: bus_slot_def dev_slot_def word_unat_eq_iff)
  have m: "(0xff :: u16) = mask 8"
    by (simp add: mask_eq_exp_minus_1)
  have low: "bit (PCI_BDF_GET_DEVFN x) n = (n < 8 \<and> bit x n)" and high: "bit (PCI_BDF_GET_BUS x) (n - 8) = (n - 8 < 8 \<and> bit x (8 + (n - 8)))" for x
    unfolding PCI_BDF_GET_DEVFN_def PCI_BDF_GET_BUS_def m by (auto simp: bit_ucast_iff bit_and_iff bit_mask_iff bit_drop_bit_eq)
  show "bit sid n = bit sid' n"
    using low [of sid] low [of sid'] high [of sid] high [of sid'] b d n by (cases "n < 8") auto
qed

text \<open>The driver's entries are readable exactly when they are writable, so both rights give the same translation.\<close>

lemma lookup_right:
  assumes "entries_all vtd_entry (set (gtabs vpr m l root)) m" and "acc \<in> {VTD_PTE_R, VTD_PTE_W}"
  shows "glookup (\<lambda>e. e AND acc \<noteq> 0) m l root iova = glookup vpr m l root iova"
  using assms(1)
proof (induction l arbitrary: root)
  case (Suc l)
  let ?e = "pte_at m root (unat (PGDIR_OFFSET iova (Suc l)))"
  have e: "vtd_entry ?e"
    using Suc.prems root_in_tabs unat_offset_512 unfolding entries_all_def by blast
  then have pr: "?e AND acc \<noteq> 0 \<longleftrightarrow> vpr ?e"
    using assms(2) unfolding and_nonzero_iff vpr_iff vtd_entry_def by (auto simp: bit_vtd_flags)
  show ?case
  proof (cases "vpr ?e")
    case True
    then have "set (gtabs vpr m l (?e AND PT_ADDR_MASK)) \<subseteq> set (gtabs vpr m (Suc l) root)"
      using subtree_subset [OF unat_offset_512, of vpr m l root iova "Suc l"] vtd_entry_small [OF e] by (simp add: gsubtree_def del: gtabs.simps)
    then have "glookup (\<lambda>e. e AND acc \<noteq> 0) m l (?e AND PT_ADDR_MASK) iova = glookup vpr m l (?e AND PT_ADDR_MASK) iova"
      using Suc.prems by (intro Suc.IH) (auto simp: entries_all_def simp del: gtabs.simps)
    then show ?thesis
      using pr True by (simp add: Let_def glookup.simps)
  qed (use pr in \<open>simp add: Let_def glookup.simps\<close>)
qed simp

definition dev_translate :: "mem \<Rightarrow> u64 \<Rightarrow> u16 \<Rightarrow> u64 \<Rightarrow> u64 option" where
  "dev_translate m R sid iova =
     (case context_entry m R sid of None \<Rightarrow> None | Some ce \<Rightarrow> if iova < 2 ^ 39 then gtranslate vpr m 3 (slpt ce) iova else None)"

lemma vtd_translate_dev:
  assumes "vtd_ok m R fs" and "acc \<in> {VTD_PTE_R, VTD_PTE_W}"
  shows "vtd_translate acc m R sid iova = dev_translate m R sid iova"
proof (cases "context_entry m R sid")
  case (Some ce)
  then have "context_valid ce" "entries_all vtd_entry (vtabs m (slpt ce)) m"
    using assms(1) unfolding vtd_ok_def dev_wf_def by blast+
  then show ?thesis
    using lookup_right [OF _ assms(2)] Some by (simp add: vtd_translate_def dev_translate_def gtranslate_def)
qed (simp add: vtd_translate_def dev_translate_def)

end
