(* ===== verification/Vtd_Range.thy ===== *)
theory Vtd_Range
  imports Vtd_Map
begin

text \<open>
  The three phases of \<open>vtd_map_range\<close>: it finds or makes the context table of the bus, then the second level tables of the
  device, and installs the pages of the range one by one. Each phase keeps the tables in order.
\<close>

unbundle bit_operations_syntax

section \<open>Writing an entry of two words\<close>

lemma slot_fields:
  fixes m :: mem
  assumes P: "page_aligned P" and i: "i + 1 < 512" and q: "\<forall>fv \<in> set fvs. fst (fst fv) \<in> {0, 8}"
  defines "m' \<equiv> put_fields (entry P (of_nat i)) fvs (memset m (entry P (of_nat i)) 0 16)"
  shows "pte_at m' P i = quad_fields 0 fvs 0" and "pte_at m' P (i + 1) = quad_fields 8 fvs 0"
    and "j < 512 \<Longrightarrow> j \<noteq> i \<Longrightarrow> j \<noteq> i + 1 \<Longrightarrow> pte_at m' P j = pte_at m P j" and "\<not> in_page x P \<Longrightarrow> m' x = m x"
proof -
  let ?a = "entry P (of_nat i)" and ?m = "memset m (entry P (of_nat i)) 0 16"
  have a8: "entry P (of_nat (i + 1)) = ?a + 8"
    by (simp add: entry_def algebra_simps)
  have load: "load64 m' (?a + q) = quad_fields q fvs (load64 ?m (?a + q))" if "q \<in> {0, 8}" for q
    unfolding m'_def using that assms(3) by (intro load_put_fields aligned_entry P)
  have off: "unat (x - ?a) = 8 * (j - i) + k" if "x = entry P (of_nat j) + of_nat k" "i \<le> j" "j < 512" "k < 8" for x j k
  proof -
    have "x - ?a = of_nat (8 * (j - i) + k)"
      using that by (simp add: entry_def of_nat_diff algebra_simps)
    moreover have "unat (of_nat (8 * (j - i) + k) :: u64) = 8 * (j - i) + k"
      using that by (intro unat_of_nat_u64) simp
    ultimately show ?thesis
      by (rule ssubst)
  qed
  have z: "load64 ?m (entry P (of_nat j)) = 0" if "j = i \<or> j = i + 1" for j
  proof -
    have "load64 ?m (entry P (of_nat j)) = load64 (\<lambda>_. 0) (entry P (of_nat j))"
      using off [OF refl, of j] that i by (intro loadn_cong) (auto simp: memset_apply)
    then show ?thesis
      by (simp add: numeral_eq_Suc)
  qed
  show "pte_at m' P i = quad_fields 0 fvs 0"
    using load [of 0] z [of i] by simp
  show "pte_at m' P (i + 1) = quad_fields 8 fvs 0"
    using load [of 8] z [of "i + 1"] unfolding a8 by simp
  have out: "m' x = m x" if "16 \<le> unat (x - ?a)" for x
    using put_fields_outside [OF that q] that by (simp add: m'_def memset_apply)
  have inside: "unat (x - P) = 8 * i + unat (x - ?a)" if u: "\<not> 16 \<le> unat (x - ?a)" for x
  proof -
    have "x - P = of_nat (8 * i + unat (x - ?a))"
      by (simp add: entry_def)
    moreover have "unat (of_nat (8 * i + unat (x - ?a)) :: u64) = 8 * i + unat (x - ?a)"
      using u i by (intro unat_of_nat_u64) simp
    ultimately show ?thesis
      by (rule trans [OF arg_cong])
  qed
  show "m' x = m x" if "\<not> in_page x P"
    using out [of x] inside [of x] that i by (fastforce simp: in_page_def)
  show "pte_at m' P j = pte_at m P j" if j: "j < 512" "j \<noteq> i" "j \<noteq> i + 1"
  proof (rule loadn_cong)
    fix k :: nat
    assume k: "k < 8"
    let ?x = "entry P (of_nat j) + of_nat k"
    have "unat (?x - P) = 8 * j + k"
      by (rule unat_entry [OF j(1) k])
    then have "16 \<le> unat (?x - ?a)"
      using inside [of ?x] j k by (cases "j < i") auto
    then show "m' ?x = m ?x"
      by (rule out)
  qed
qed

section \<open>What depends on which page\<close>

lemma context_same: "agree {R} m' m \<Longrightarrow> context_of m' R sid = context_of m R sid"
  using agree_pte_at [of "{R}" m' m R "bus_slot sid"] slots_512(3) by (simp add: context_of_def)

lemma entry_same:
  assumes "context_of m' R sid = context_of m R sid" and "\<And>C. context_of m R sid = Some C \<Longrightarrow> agree {C} m' m"
  shows "context_entry m' R sid = context_entry m R sid"
proof (cases "context_of m R sid")
  case (Some C)
  then show ?thesis
    using assms(1) agree_pte_at [OF assms(2) [OF Some] singletonI slots_512(2) [of sid]]
      agree_pte_at [OF assms(2) [OF Some] singletonI slots_512(4) [of sid]] by (simp add: context_entry_def)
qed (use assms(1) in \<open>simp add: context_entry_def\<close>)

lemma dev_same:
  assumes ce: "context_entry m' R sid = context_entry m R sid" and ag: "agree (dev_tabs m R sid) m' m"
  shows "dev_tabs m' R sid = dev_tabs m R sid" and "dev_wf m R sid \<Longrightarrow> dev_wf m' R sid"
    and "dev_translate m' R sid iova = dev_translate m R sid iova"
proof -
  have "dev_tabs m' R sid = dev_tabs m R sid \<and> (dev_wf m R sid \<longrightarrow> dev_wf m' R sid) \<and> dev_translate m' R sid iova = dev_translate m R sid iova"
  proof (cases "context_entry m R sid")
    case None
    then show ?thesis
      using ce by (simp add: dev_tabs_def dev_wf_def dev_translate_def)
  next
    case (Some c)
    have a: "agree (vtabs m (slpt c)) m' m"
      using ag by (simp only: dev_tabs_Some [OF Some])
    have t: "gtabs vpr m' 3 (slpt c) = gtabs vpr m 3 (slpt c)" and l: "\<And>va. glookup vpr m' 3 (slpt c) va = glookup vpr m 3 (slpt c) va"
      using tabs_cong [OF a] lookup_cong [OF a] by blast+
    have "entries_all vtd_entry (vtabs m (slpt c)) m' \<longleftrightarrow> entries_all vtd_entry (vtabs m (slpt c)) m"
      using agree_pte_at [OF a] by (simp add: entries_all_def)
    then show ?thesis
      using ce Some t l by (simp add: dev_tabs_def dev_wf_def dev_translate_def gtranslate_def)
  qed
  then show "dev_tabs m' R sid = dev_tabs m R sid" "dev_wf m R sid \<Longrightarrow> dev_wf m' R sid"
    "dev_translate m' R sid iova = dev_translate m R sid iova"
    by simp_all
qed

text \<open>
  The tables after one of the phases: the free pages in \<open>used\<close> may have become tables of the device \<open>sid\<close> or a context
  table, and every other device has the tables it had.
\<close>

lemma vtd_ok_update:
  assumes ok: "vtd_ok m R (used @ fs)" and d: "distinct (used @ fs)"
    and ctx: "contexts m' R \<subseteq> contexts m R \<union> set used"
    and inj: "\<And>sid sid'. context_of m' R sid \<noteq> None \<Longrightarrow> context_of m' R sid = context_of m' R sid' \<Longrightarrow> bus_slot sid = bus_slot sid'"
    and other: "\<And>sid'. sid' \<noteq> sid \<Longrightarrow> dev_tabs m' R sid' = dev_tabs m R sid' \<and> dev_wf m' R sid'"
    and own: "dev_tabs m' R sid \<subseteq> dev_tabs m R sid \<union> set used" "dev_wf m' R sid"
    and one: "contexts m' R \<subseteq> contexts m R \<or> dev_tabs m' R sid \<subseteq> dev_tabs m R sid"
  shows "vtd_ok m' R fs \<and> vtd_pages m' R \<subseteq> vtd_pages m R \<union> set used"
proof -
  have tabs: "dev_tabs m' R sid' \<subseteq> dev_tabs m R sid' \<union> (if sid' = sid then set used else {})" for sid'
    using other [of sid'] own(1) by auto
  then have "(\<Union>x. dev_tabs m' R x) \<subseteq> (\<Union>x. dev_tabs m R x) \<union> set used"
    by (fastforce split: if_splits)
  then have pages: "vtd_pages m' R \<subseteq> vtd_pages m R \<union> set used"
    using ctx unfolding vtd_pages_def by blast
  have p: "\<forall>p \<in> vtd_pages m R \<union> set (used @ fs). table_page p" "vtd_pages m R \<inter> set (used @ fs) = {}" "R \<notin> contexts m R"
      "\<And>x. dev_tabs m R x \<inter> insert R (contexts m R) = {}" "\<And>x y. x \<noteq> y \<Longrightarrow> dev_tabs m R x \<inter> dev_tabs m R y = {}"
    using ok unfolding vtd_ok_def by blast+
  have u: "set used \<inter> vtd_pages m R = {}" "set used \<inter> set fs = {}"
    using p(2) d by auto
  have wf: "dev_wf m' R x" for x
    using other [of x] own(2) by blast
  have R: "R \<notin> contexts m' R"
    using ctx p(3) u(1) by (auto simp: vtd_pages_def)
  have sub: "dev_tabs m R x \<subseteq> vtd_pages m R" for x
    by (rule dev_tabs_pages)
  have tc: "dev_tabs m' R x \<inter> insert R (contexts m' R) = {}" for x
  proof -
    have "R \<in> vtd_pages m R" "contexts m R \<subseteq> vtd_pages m R"
      by (auto simp: vtd_pages_def)
    moreover have "dev_tabs m' R x \<inter> contexts m' R = {}"
    proof (cases "x = sid")
      case True
      then show ?thesis
        using one p(4) [of x] ctx u(1) sub [of x] own(1) calculation(2) by blast
    next
      case False
      then show ?thesis
        using other [of x] p(4) [of x] ctx u(1) sub [of x] by blast
    qed
    ultimately show ?thesis
      using tabs [of x] p(4) [of x] u(1) by (auto split: if_splits)
  qed
  have tt: "dev_tabs m' R x \<inter> dev_tabs m' R y = {}" if "x \<noteq> y" for x y
  proof -
    have "set used \<inter> dev_tabs m R z = {}" for z
      using u(1) sub [of z] by blast
    then show ?thesis
      using tabs [of x] tabs [of y] p(5) [OF that] that by (fastforce split: if_splits)
  qed
  have "\<forall>p \<in> vtd_pages m' R \<union> set fs. table_page p" "vtd_pages m' R \<inter> set fs = {}"
    using pages p(1,2) u(2) by auto
  then have "vtd_ok m' R fs"
    unfolding vtd_ok_def using R inj wf tc tt by blast
  then show ?thesis
    using pages by simp
qed

section \<open>Phases\<close>

text \<open>Pages were taken from the free list for tables, the tables are in order, and nothing but tables changed.\<close>

definition vtd_moved :: "u64 \<Rightarrow> machine \<Rightarrow> u64 list \<Rightarrow> u64 list \<Rightarrow> machine \<Rightarrow> bool" where
  "vtd_moved R s used fs s' \<longleftrightarrow>
     free_list s' fs \<and> vtd_ok (ram s') R fs \<and> vtd_pages (ram s') R \<subseteq> vtd_pages (ram s) R \<union> set used
     \<and> (\<forall>x. (\<forall>p \<in> vtd_pages (ram s) R \<union> set used. \<not> in_page x p) \<longrightarrow> ram s' x = ram s x)"

lemma vtd_moved_refl: "free_list s fs \<Longrightarrow> vtd_ok (ram s) R fs \<Longrightarrow> vtd_moved R s [] fs s"
  by (simp add: vtd_moved_def)

lemma vtd_moved_trans:
  "vtd_moved R s u (v @ fs) s1 \<Longrightarrow> vtd_moved R s1 v fs s2 \<Longrightarrow> vtd_moved R s (u @ v) fs s2"
  unfolding vtd_moved_def
proof (elim conjE, intro conjI allI impI)
  fix x
  assume sub: "vtd_pages (ram s1) R \<subseteq> vtd_pages (ram s) R \<union> set u"
    and "\<forall>x. (\<forall>p \<in> vtd_pages (ram s) R \<union> set u. \<not> in_page x p) \<longrightarrow> ram s1 x = ram s x"
    and "\<forall>x. (\<forall>p \<in> vtd_pages (ram s1) R \<union> set v. \<not> in_page x p) \<longrightarrow> ram s2 x = ram s1 x"
    and out: "\<forall>p \<in> vtd_pages (ram s) R \<union> set (u @ v). \<not> in_page x p"
  moreover have "\<forall>p \<in> vtd_pages (ram s1) R \<union> set v. \<not> in_page x p"
    using out sub by auto
  moreover have "\<forall>p \<in> vtd_pages (ram s) R \<union> set u. \<not> in_page x p"
    using out by auto
  ultimately show "ram s2 x = ram s x"
    by simp
qed auto

text \<open>Apart from the memory only the console changed.\<close>

definition vtd_frame :: "'h vtd_state \<Rightarrow> 'h vtd_state \<Rightarrow> bool" where
  "vtd_frame s s' \<longleftrightarrow> (\<exists>m t. s' = s\<lparr>vm := m, rpt := puts (rpt s) t\<rparr>)"

lemma vtd_frame_refl: "vtd_frame s s"
  unfolding vtd_frame_def by (intro exI [of _ "vm s"] exI [of _ "[]"]) (simp add: puts_def)

lemma vtd_frame_vm: "vtd_frame s (s\<lparr>vm := m\<rparr>)"
  unfolding vtd_frame_def by (intro exI [of _ m] exI [of _ "[]"]) (simp add: puts_def)

lemma vtd_frame_trans: "vtd_frame s s1 \<Longrightarrow> vtd_frame s1 s2 \<Longrightarrow> vtd_frame s s2"
  unfolding vtd_frame_def puts_def by (fastforce simp: append_assoc)

lemma vtd_printable:
  "printable (parse_fmt (''allocated vt-d root entry for PCI bus %d'' @ [CHR 0x0A])) [VInt (ucast (b :: u8))]"
  "printable (parse_fmt (''allocated vt-d context entry for devfn %#x'' @ [CHR 0x0A])) [VInt x]"
  "printable (parse_fmt (''map 4K page IOVA %#lx to %#lx (sid=%#06x)'' @ [CHR 0x0A])) [VInt x, VInt y, VInt z]"
  using sint_greater_eq [of "ucast (ucast b :: u64) :: u32"] by (simp_all add: parse_simps props0_def va_int_def)

lemma slot_addr: "P + 16 * ucast (b :: u8) = entry P (of_nat (2 * unat b))"
  by (simp add: entry_def)

lemma field_addr: "push_bit PAGE_SHIFT (get_bits 12 52 e) = e AND NOT (mask 12)"
  by (rule bit_word_eqI) (auto simp: PAGE_SHIFT_def bit_push_bit_iff bit_get_bits bit_and_iff bit_not_iff bit_mask_iff)

lemma field_bit0: "get_bits 0 (Suc 0) e = 0 \<longleftrightarrow> \<not> bit e 0"
  by (simp add: get_bits_def take_bit_eq_mod bit_0 even_iff_mod_2_eq_zero)

lemma root_entry_words:
  assumes "page_aligned p"
  defines "fvs \<equiv> [(re_field Re_context_table_p, drop_bit PAGE_SHIFT p), (re_field Re_present, 1)]"
  shows "bit (quad_fields 0 fvs 0) 0" and "quad_fields 0 fvs 0 AND NOT (mask 12) = p"
proof -
  show "bit (quad_fields 0 fvs 0) 0"
    by (simp add: fvs_def bit_put_bits)
  show "quad_fields 0 fvs 0 AND NOT (mask 12) = p"
    using aligned_bit [OF assms(1), of 0] aligned_bit [OF assms(1)]
    by (intro bit_word_eqI) (auto simp: fvs_def bit_put_bits bit_and_iff bit_not_iff bit_mask_iff PAGE_SHIFT_def bit_drop_bit_eq)
qed

lemma context_entry_words:
  fixes sid :: u16
  assumes "page_aligned p"
  defines "fvs \<equiv> [(ce_field Ce_domain_id, ucast sid), (ce_field Ce_addr_width, VTD_CE_AW_39BIT),
               (ce_field Ce_slptptr, drop_bit PAGE_SHIFT p), (ce_field Ce_trans_type, VTD_CONTEXT_TT_MULTI_LEVEL),
               (ce_field Ce_present, 1), (ce_field Ce_disable_fault_report, 1)]"
  shows "bit (quad_fields 0 fvs 0) 0" and "slpt (quad_fields 0 fvs 0, x) = p"
    and "context_valid (quad_fields 0 fvs 0, quad_fields 8 fvs 0)"
proof -
  show "bit (quad_fields 0 fvs 0) 0"
    by (simp add: fvs_def bit_put_bits)
  show "slpt (quad_fields 0 fvs 0, x) = p"
    using aligned_bit [OF assms(1), of 0] aligned_bit [OF assms(1)] unfolding slpt_def
    by (intro bit_word_eqI) (auto simp: fvs_def bit_put_bits bit_and_iff bit_not_iff bit_mask_iff PAGE_SHIFT_def bit_drop_bit_eq)
  have "get_bits 2 2 (quad_fields 0 fvs 0) = 0"
    by (rule bit_word_eqI) (auto simp: fvs_def bit_put_bits bit_get_bits VTD_CONTEXT_TT_MULTI_LEVEL_def)
  moreover have "get_bits 0 3 (quad_fields 8 fvs 0) = 1"
    by (rule bit_word_eqI) (auto simp: fvs_def bit_put_bits bit_get_bits VTD_CE_AW_39BIT_def bit_1_iff)
  ultimately show "context_valid (quad_fields 0 fvs 0, quad_fields 8 fvs 0)"
    by (simp add: context_valid_def)
qed

lemma vtd_ok_pages:
  assumes "vtd_ok m R fs"
  shows "p \<in> vtd_pages m R \<union> set fs \<Longrightarrow> page_aligned p" and "vtd_pages m R \<inter> set fs = {}"
    and "R \<in> vtd_pages m R" and "context_of m R sid = Some C \<Longrightarrow> C \<in> contexts m R \<and> C \<in> vtd_pages m R \<and> C \<noteq> R"
proof -
  have t: "\<forall>p \<in> vtd_pages m R \<union> set fs. table_page p" and R: "R \<notin> contexts m R"
    using assms unfolding vtd_ok_def by blast+
  show "p \<in> vtd_pages m R \<union> set fs \<Longrightarrow> page_aligned p"
    using t table_page_aligned by blast
  show "vtd_pages m R \<inter> set fs = {}"
    using assms unfolding vtd_ok_def by blast
  show "R \<in> vtd_pages m R"
    by (simp add: vtd_pages_def)
  show "context_of m R sid = Some C \<Longrightarrow> C \<in> contexts m R \<and> C \<in> vtd_pages m R \<and> C \<noteq> R"
    using R by (auto simp: vtd_pages_def contexts_def)
qed

lemma agree_two:
  assumes "\<And>q. q \<in> S \<union> set (p # fs) \<Longrightarrow> page_aligned q" and "Q \<subseteq> S" and "P \<in> S" and "P \<notin> Q" and "p \<notin> S"
    and "\<And>x. \<not> in_page x P \<Longrightarrow> \<not> in_page x p \<Longrightarrow> m' x = m x"
  shows "agree Q m' m"
proof (rule outside_agree)
  show "\<forall>x. (\<forall>q \<in> {P, p}. \<not> in_page x q) \<longrightarrow> m' x = m x"
    using assms(6) by blast
  show "{P, p} \<inter> Q = {}"
    using assms(2-5) by blast
  show "\<forall>q \<in> {P, p} \<union> Q. page_aligned q"
    using assms(1-3) by auto
qed

lemma slot_parity: "bus_slot sid \<noteq> bus_slot sid' + 1" "dev_slot sid \<noteq> dev_slot sid' + 1"
  unfolding bus_slot_def dev_slot_def by presburger+

lemma new_context:
  assumes ok: "vtd_ok m R (p # fs)" and d: "distinct (p # fs)" and none: "context_of m R sid = None"
    and e: "bit (pte_at m' R (bus_slot sid)) 0" "pte_at m' R (bus_slot sid) AND NOT (mask 12) = p"
    and slots: "\<And>j. j < 512 \<Longrightarrow> j \<noteq> bus_slot sid \<Longrightarrow> j \<noteq> bus_slot sid + 1 \<Longrightarrow> pte_at m' R j = pte_at m R j"
    and z: "\<And>x. in_page x p \<Longrightarrow> m' x = 0" and out: "\<And>x. \<not> in_page x R \<Longrightarrow> \<not> in_page x p \<Longrightarrow> m' x = m x"
  shows "vtd_ok m' R fs" and "vtd_pages m' R \<subseteq> vtd_pages m R \<union> set [p]" and "context_of m' R sid = Some p"
    and "dev_translate m' R sid' iova = dev_translate m R sid' iova"
proof -
  note pg = vtd_ok_pages [OF ok]
  have ctx: "context_of m' R x = (if bus_slot x = bus_slot sid then Some p else context_of m R x)" for x
    using e slots [OF slots_512(3) _ slot_parity(1), of x] by (simp add: context_of_def)
  have p: "p \<notin> contexts m R" "p \<notin> vtd_pages m R"
    using pg(2) by (auto simp: vtd_pages_def)
  have ag: "agree Q m' m" if "Q \<subseteq> vtd_pages m R" "R \<notin> Q" for Q
    by (rule agree_two [OF pg(1) that(1) pg(3) that(2) p(2) out])
  have ce: "context_entry m' R x = context_entry m R x" for x
  proof (cases "bus_slot x = bus_slot sid")
    case True
    then have "context_of m R x = None"
      using none by (simp add: context_of_def)
    then show ?thesis
      using ctx [of x] True zero_page_pte [OF z slots_512(4) [of x]] by (simp add: context_entry_def)
  next
    case False
    show ?thesis
    proof (rule entry_same)
      show "context_of m' R x = context_of m R x"
        using ctx [of x] False by simp
      show "agree {D} m' m" if "context_of m R x = Some D" for D
        using pg(4) [OF that] by (intro ag) auto
    qed
  qed
  have tabs: "R \<notin> dev_tabs m R x" and wf: "dev_wf m R x" for x
    using ok unfolding vtd_ok_def by blast+
  note same = dev_same [OF ce ag [OF dev_tabs_pages tabs]]
  have inj: "bus_slot x = bus_slot y" if "context_of m' R x \<noteq> None" "context_of m' R x = context_of m' R y" for x y
  proof -
    have old: "bus_slot x = bus_slot y" if "context_of m R x \<noteq> None" "context_of m R x = context_of m R y"
      using ok that unfolding vtd_ok_def by blast
    have np: "context_of m R z \<noteq> Some p" for z
      using p(1) by (auto simp: contexts_def)
    show ?thesis
    proof (cases "bus_slot x = bus_slot sid \<or> bus_slot y = bus_slot sid")
      case True
      then show ?thesis
        using that(2) ctx [of x] ctx [of y] np [of x] np [of y] by (auto split: if_splits)
    next
      case False
      then show ?thesis
        using that ctx [of x] ctx [of y] old by simp
    qed
  qed
  have sub: "contexts m' R \<subseteq> contexts m R \<union> set [p]"
    using ctx by (auto simp: contexts_def split: if_splits)
  have "vtd_ok m' R fs \<and> vtd_pages m' R \<subseteq> vtd_pages m R \<union> set [p]"
  proof (rule vtd_ok_update [OF _ _ sub inj, where sid = sid])
    show "vtd_ok m R ([p] @ fs)" "distinct ([p] @ fs)"
      using ok d by simp_all
  qed (use same(1) same(2) [OF wf] in auto)
  then show "vtd_ok m' R fs" and "vtd_pages m' R \<subseteq> vtd_pages m R \<union> set [p]"
    by simp_all
  show "context_of m' R sid = Some p" "dev_translate m' R sid' iova = dev_translate m R sid' iova"
    using ctx same(3) by simp_all
qed

lemma new_domain:
  assumes ok: "vtd_ok m R (p # fs)" and d: "distinct (p # fs)" and C: "context_of m R sid = Some C" and none: "context_entry m R sid = None"
    and e: "bit (pte_at m' C (dev_slot sid)) 0" "slpt (pte_at m' C (dev_slot sid), 0) = p"
      "context_valid (pte_at m' C (dev_slot sid), pte_at m' C (dev_slot sid + 1))"
    and slots: "\<And>j. j < 512 \<Longrightarrow> j \<noteq> dev_slot sid \<Longrightarrow> j \<noteq> dev_slot sid + 1 \<Longrightarrow> pte_at m' C j = pte_at m C j"
    and z: "\<And>x. in_page x p \<Longrightarrow> m' x = 0" and out: "\<And>x. \<not> in_page x C \<Longrightarrow> \<not> in_page x p \<Longrightarrow> m' x = m x"
  shows "vtd_ok m' R fs" and "vtd_pages m' R \<subseteq> vtd_pages m R \<union> set [p]"
    and "\<exists>ce. context_entry m' R sid = Some ce \<and> slpt ce = p" and "dev_translate m' R sid' iova = dev_translate m R sid' iova"
proof -
  note pg = vtd_ok_pages [OF ok]
  have CR: "C \<in> contexts m R" "C \<in> vtd_pages m R" "C \<noteq> R"
    using pg(4) [OF C] by blast+
  have p: "p \<notin> vtd_pages m R"
    using pg(2) by auto
  have ag: "agree Q m' m" if "Q \<subseteq> vtd_pages m R" "C \<notin> Q" for Q
    by (rule agree_two [OF pg(1) that(1) CR(2) that(2) p out])
  have ctx: "context_of m' R x = context_of m R x" for x
    using CR(3) pg(3) by (intro context_same ag) auto
  have inj: "bus_slot x = bus_slot y" if "context_of m R x \<noteq> None" "context_of m R x = context_of m R y" for x y
    using ok that unfolding vtd_ok_def by blast
  have ce: "context_entry m' R x = context_entry m R x" if x: "x \<noteq> sid" for x
  proof (cases "context_of m R x = Some C")
    case True
    then have "dev_slot x \<noteq> dev_slot sid"
      using inj [of x sid] C slots_inj x by auto
    moreover from this have "dev_slot x + 1 \<noteq> dev_slot sid" "dev_slot x + 1 \<noteq> dev_slot sid + 1"
      using slot_parity(2) [of sid x] by auto
    ultimately show ?thesis
      using True ctx [of x] slots [OF slots_512(4) _ slot_parity(2), of x] slots [OF slots_512(2), of x]
      by (simp add: context_entry_def)
  next
    case False
    show ?thesis
    proof (rule entry_same [OF ctx])
      show "agree {D} m' m" if "context_of m R x = Some D" for D
        using pg(4) [OF that] that False by (intro ag) auto
    qed
  qed
  have tabs: "C \<notin> dev_tabs m R x" and wf: "dev_wf m R x" for x
    using ok CR(1) unfolding vtd_ok_def by blast+
  note same = dev_same [OF ce ag [OF dev_tabs_pages tabs]]
  let ?lo = "pte_at m' C (dev_slot sid)" and ?hi = "pte_at m' C (dev_slot sid + 1)"
  have own: "context_entry m' R sid = Some (?lo, ?hi)" and sl: "slpt (?lo, ?hi) = p"
    using ctx [of sid] C e by (simp_all add: context_entry_def slpt_def Let_def)
  have tp: "gtabs vpr m' 3 p = [p]" and lk: "glookup vpr m' 3 p va = None" for va
    unfolding numeral_3_eq_3 by (rule vtd_tree.zero_page_tree [OF z], assumption)+
  have "entries_all vtd_entry {p} m'"
    using zero_page_pte [OF z] by (simp add: entries_all_def vtd_entry_zero)
  then have wf': "dev_wf m' R sid" and tabs': "dev_tabs m' R sid = {p}"
    using own sl tp e(3) by (simp_all add: dev_wf_def dev_tabs_def)
  have sub: "contexts m' R = contexts m R"
    using ctx by (simp add: contexts_def)
  have "vtd_ok m' R fs \<and> vtd_pages m' R \<subseteq> vtd_pages m R \<union> set [p]"
  proof (rule vtd_ok_update [where sid = sid])
    show "vtd_ok m R ([p] @ fs)" "distinct ([p] @ fs)"
      using ok d by simp_all
    show "dev_tabs m' R x = dev_tabs m R x \<and> dev_wf m' R x" if "x \<noteq> sid" for x
      using same(1) [OF that] same(2) [OF that wf] by simp
    show "bus_slot x = bus_slot y" if "context_of m' R x \<noteq> None" "context_of m' R x = context_of m' R y" for x y
      using that inj [of x y] unfolding ctx by blast
  qed (use sub wf' tabs' in auto)
  then show "vtd_ok m' R fs" and "vtd_pages m' R \<subseteq> vtd_pages m R \<union> set [p]"
    by simp_all
  show "\<exists>ce. context_entry m' R sid = Some ce \<and> slpt ce = p"
    using own sl by blast
  show "dev_translate m' R sid' iova = dev_translate m R sid' iova"
    using same(3) [of sid'] own sl lk none by (cases "sid' = sid") (simp_all add: dev_translate_def)
qed

lemma alloc_slot:
  fixes s :: "'h vtd_state" and fvs :: "(bitfield \<times> u64) list"
  assumes fl: "free_list (vm s) (p # fs)" and P: "page_aligned P" "P \<notin> set (p # fs)" and i: "i + 1 < 512"
    and q: "\<forall>fv \<in> set fvs. fst (fst fv) \<in> {0, 8}"
  defines "m1 \<equiv> snd (alloc_page (vm s))"
  defines "m' \<equiv> put_fields (entry P (of_nat i)) fvs (memset (ram m1) (entry P (of_nat i)) 0 16)"
  shows "io_alloc_page s = (p, s\<lparr>vm := m1\<rparr>)" and "free_list (m1\<lparr>ram := m'\<rparr>) fs"
    and "pte_at m' P i = quad_fields 0 fvs 0" and "pte_at m' P (i + 1) = quad_fields 8 fvs 0"
    and "j < 512 \<Longrightarrow> j \<noteq> i \<Longrightarrow> j \<noteq> i + 1 \<Longrightarrow> pte_at m' P j = pte_at (ram (vm s)) P j"
    and "in_page x p \<Longrightarrow> m' x = 0" and "\<not> in_page x P \<Longrightarrow> \<not> in_page x p \<Longrightarrow> m' x = ram (vm s) x"
proof -
  note al = alloc_page_pop [OF fl, folded m1_def]
  note sf = slot_fields [OF P(1) i q, where m = "ram m1", folded m'_def]
  have pok: "page_aligned p" "\<forall>q \<in> set fs. page_aligned q"
    using fl by (simp_all add: free_list_def pages_ok_def)
  have nP: "\<not> in_page x P" if "in_page x r" "r \<in> set (p # fs)" for x r
    using in_page_unique [OF P(1), of r x] that pok P(2) by auto
  show "io_alloc_page s = (p, s\<lparr>vm := m1\<rparr>)"
    using al(1) by (simp add: io_alloc_page_def m1_def case_prod_beta)
  show "free_list (m1\<lparr>ram := m'\<rparr>) fs"
    using al(2) sf(4) nP by (intro free_list_kept [OF al(2)]) (auto simp: agree_def)
  show "pte_at m' P i = quad_fields 0 fvs 0" "pte_at m' P (i + 1) = quad_fields 8 fvs 0"
    by (rule sf)+
  show "in_page x p \<Longrightarrow> m' x = 0"
    using sf(4) [of x] nP [of x p] al(3) [of x] by simp
  show "\<not> in_page x P \<Longrightarrow> \<not> in_page x p \<Longrightarrow> m' x = ram (vm s) x"
    using sf(4) [of x] al(4) [of x] by simp
  have "pte_at (ram m1) P j = pte_at (ram (vm s)) P j" if "j < 512"
    using al(4) nP that by (intro pte_at_cong) auto
  then show "j < 512 \<Longrightarrow> j \<noteq> i \<Longrightarrow> j \<noteq> i + 1 \<Longrightarrow> pte_at m' P j = pte_at (ram (vm s)) P j"
    using sf(3) by simp
qed

lemma moved_one:
  assumes "free_list s' fs" and "vtd_ok (ram s') R fs" and "vtd_pages (ram s') R \<subseteq> vtd_pages (ram s) R \<union> set [p]"
    and "P \<in> vtd_pages (ram s) R" and "\<And>x. \<not> in_page x P \<Longrightarrow> \<not> in_page x p \<Longrightarrow> ram s' x = ram s x"
  shows "vtd_moved R s [p] fs s'"
  unfolding vtd_moved_def using assms by auto

lemma get_context_table:
  fixes s :: "'h vtd_state"
  assumes fl: "free_list (vm s) fs" and ok: "vtd_ok (ram (vm s)) R fs" and len: "1 \<le> length fs"
  obtains C s' used fs' where "vtd_get_context_table (R + 16 * ucast (PCI_BDF_GET_BUS sid)) (PCI_BDF_GET_BUS sid) s = Ret (C, s')"
    and "fs = used @ fs'" and "length used \<le> 1" and "context_of (ram (vm s')) R sid = Some C" and "vtd_moved R (vm s) used fs' (vm s')"
    and "vtd_frame s s'" and "\<And>x iova. dev_translate (ram (vm s')) R x iova = dev_translate (ram (vm s)) R x iova"
proof (cases "context_of (ram (vm s)) R sid")
  case (Some C)
  have "vtd_get_context_table (R + 16 * ucast (PCI_BDF_GET_BUS sid)) (PCI_BDF_GET_BUS sid) s = Ret (C, s)"
    using Some unfolding vtd_get_context_table_def slot_addr
    by (auto simp: get_field_def field_bit0 field_addr context_of_def bus_slot_def Let_def split: if_splits)
  then show thesis
    using that [of C s "[]" fs] Some vtd_moved_refl [OF fl ok] vtd_frame_refl [of s] by simp
next
  case None
  obtain p fs' where fs: "fs = p # fs'"
    using len by (cases fs) auto
  note pg = vtd_ok_pages [OF ok]
  let ?fvs = "[(re_field Re_context_table_p, drop_bit PAGE_SHIFT p), (re_field Re_present, 1)]"
  let ?m1 = "snd (alloc_page (vm s))"
  let ?m = "put_fields (entry R (of_nat (bus_slot sid))) ?fvs (memset (ram ?m1) (entry R (of_nat (bus_slot sid))) 0 16)"
  have R: "page_aligned R" "R \<notin> set (p # fs')" and p: "page_aligned p"
    using pg fs by auto
  have d: "distinct (p # fs')"
    using fl unfolding fs by (simp add: free_list_def pages_ok_def)
  have a: "\<forall>fv \<in> set ?fvs. fst (fst fv) \<in> {0, 8}"
    by simp
  note sl = alloc_slot [OF fl [unfolded fs] R slots_512(1) [of sid] a]
  have e: "bit (pte_at ?m R (bus_slot sid)) 0" "pte_at ?m R (bus_slot sid) AND NOT (mask 12) = p"
    unfolding sl(3) by (rule root_entry_words [OF p])+
  note nc = new_context [OF ok [unfolded fs] d None e sl(5) sl(6) sl(7)]
  obtain t where t: "\<And>s :: 'h vtd_state. io_printf (''allocated vt-d root entry for PCI bus %d'' @ [CHR 0x0A]) [VInt (ucast (PCI_BDF_GET_BUS sid))] s
      = Ret (s\<lparr>rpt := puts (rpt s) t\<rparr>)"
    using printable_io_printf [OF vtd_printable(1) [of "PCI_BDF_GET_BUS sid"]] by blast
  define s' where "s' = s\<lparr>vm := ?m1\<lparr>ram := ?m\<rparr>, rpt := puts (rpt s) t\<rparr>"
  have "vtd_get_context_table (R + 16 * ucast (PCI_BDF_GET_BUS sid)) (PCI_BDF_GET_BUS sid) s = Ret (p, s')"
    using None t sl(1) unfolding vtd_get_context_table_def slot_addr s'_def
    by (auto simp: get_field_def field_bit0 context_of_def bus_slot_def set_ram_def Let_def split: if_splits)
  moreover have "vtd_moved R (vm s) [p] fs' (vm s')"
    using sl(2,7) nc(1,2) pg(3) by (intro moved_one [of _ _ _ _ _ R]) (simp_all add: s'_def)
  moreover have "vtd_frame s s'"
    by (auto simp: s'_def vtd_frame_def)
  ultimately show thesis
    using that [of p s' "[p]" fs'] nc(3,4) fs by (simp add: s'_def)
qed

lemma get_slptptr:
  fixes s :: "'h vtd_state"
  assumes fl: "free_list (vm s) fs" and ok: "vtd_ok (ram (vm s)) R fs" and len: "1 \<le> length fs" and C: "context_of (ram (vm s)) R sid = Some C"
  obtains ce s' used fs' where "vtd_get_slptptr (C + 16 * ucast (PCI_BDF_GET_DEVFN sid)) sid (PCI_BDF_GET_DEVFN sid) s = Ret (slpt ce, s')"
    and "fs = used @ fs'" and "length used \<le> 1" and "context_entry (ram (vm s')) R sid = Some ce" and "vtd_moved R (vm s) used fs' (vm s')"
    and "vtd_frame s s'" and "\<And>x iova. dev_translate (ram (vm s')) R x iova = dev_translate (ram (vm s)) R x iova"
proof (cases "context_entry (ram (vm s)) R sid")
  case (Some ce)
  have "vtd_get_slptptr (C + 16 * ucast (PCI_BDF_GET_DEVFN sid)) sid (PCI_BDF_GET_DEVFN sid) s = Ret (slpt ce, s)"
    using Some C unfolding vtd_get_slptptr_def slot_addr
    by (auto simp: get_field_def field_bit0 field_addr context_entry_def slpt_def dev_slot_def Let_def split: if_splits)
  then show thesis
    using that [of ce s "[]" fs] Some vtd_moved_refl [OF fl ok] vtd_frame_refl [of s] by simp
next
  case None
  obtain p fs' where fs: "fs = p # fs'"
    using len by (cases fs) auto
  note pg = vtd_ok_pages [OF ok]
  let ?fvs = "[(ce_field Ce_domain_id, ucast sid), (ce_field Ce_addr_width, VTD_CE_AW_39BIT),
               (ce_field Ce_slptptr, drop_bit PAGE_SHIFT p), (ce_field Ce_trans_type, VTD_CONTEXT_TT_MULTI_LEVEL),
               (ce_field Ce_present, 1), (ce_field Ce_disable_fault_report, 1)]"
  let ?m1 = "snd (alloc_page (vm s))"
  let ?m = "put_fields (entry C (of_nat (dev_slot sid))) ?fvs (memset (ram ?m1) (entry C (of_nat (dev_slot sid))) 0 16)"
  have Cp: "C \<in> vtd_pages (ram (vm s)) R"
    using pg(4) [OF C] by blast
  then have CA: "page_aligned C" "C \<notin> set (p # fs')" and p: "page_aligned p"
    using pg(1,2) fs by auto
  have d: "distinct (p # fs')"
    using fl unfolding fs by (simp add: free_list_def pages_ok_def)
  have a: "\<forall>fv \<in> set ?fvs. fst (fst fv) \<in> {0, 8}"
    by simp
  note sl = alloc_slot [OF fl [unfolded fs] CA slots_512(2) [of sid] a]
  have e: "bit (pte_at ?m C (dev_slot sid)) 0" "slpt (pte_at ?m C (dev_slot sid), 0) = p"
      "context_valid (pte_at ?m C (dev_slot sid), pte_at ?m C (dev_slot sid + 1))"
    unfolding sl(3,4) by (rule context_entry_words [OF p])+
  note nc = new_domain [OF ok [unfolded fs] d C None e sl(5) sl(6) sl(7)]
  obtain t where t: "\<And>s :: 'h vtd_state. io_printf (''allocated vt-d context entry for devfn %#x'' @ [CHR 0x0A]) [VInt (ucast (PCI_BDF_GET_DEVFN sid))] s
      = Ret (s\<lparr>rpt := puts (rpt s) t\<rparr>)"
    using printable_io_printf [OF vtd_printable(2) [of "ucast (PCI_BDF_GET_DEVFN sid)"]] by blast
  define s' where "s' = s\<lparr>vm := ?m1\<lparr>ram := ?m\<rparr>, rpt := puts (rpt s) t\<rparr>"
  obtain ce where ce: "context_entry ?m R sid = Some ce" "slpt ce = p"
    using nc(3) by blast
  have "vtd_get_slptptr (C + 16 * ucast (PCI_BDF_GET_DEVFN sid)) sid (PCI_BDF_GET_DEVFN sid) s = Ret (slpt ce, s')"
    using None C t sl(1) unfolding vtd_get_slptptr_def slot_addr s'_def ce(2)
    by (auto simp: get_field_def field_bit0 context_entry_def dev_slot_def set_ram_def Let_def split: if_splits)
  moreover have "vtd_moved R (vm s) [p] fs' (vm s')"
    using sl(2,7) nc(1,2) Cp by (intro moved_one [of _ _ _ _ _ C]) (simp_all add: s'_def)
  moreover have "vtd_frame s s'"
    by (auto simp: s'_def vtd_frame_def)
  ultimately show thesis
    using that [of ce s' "[p]" fs'] nc(4) ce(1) fs by (simp add: s'_def)
qed

end
