(* ===== verification/Vtd_Props.thy ===== *)
theory Vtd_Props
  imports Vtd_Range
begin

text \<open>
  The properties of DMA remapping: \<open>vtd_map_range\<close> maps exactly the range for exactly the device.
\<close>

unbundle bit_operations_syntax

lemma install_phase:
  fixes s :: machine and pa iova :: u64
  assumes fl: "free_list s fs" and ok: "vtd_ok (ram s) R fs" and len: "2 \<le> length fs" and ce: "context_entry (ram s) R sid = Some ce"
    and pa: "\<And>n. bit pa n \<Longrightarrow> 12 \<le> n \<and> n < 52"
  defines "s' \<equiv> vtd_install_pte (slpt ce) iova pa 1 s"
  obtains used fs' where "fs = used @ fs'" and "length used \<le> 2" and "vtd_moved R s used fs' s'" and "context_entry (ram s') R sid = Some ce"
    and "\<And>x va. dev_translate (ram s') R x va =
      (if x = sid \<and> va < 2 ^ 39 \<and> same_path 1 3 va iova then Some (leaf 1 (pa OR VTD_PTE_RW) va) else dev_translate (ram s) R x va)"
proof -
  let ?m = "ram s" and ?m' = "ram s'" and ?T = "vtabs (ram s) (slpt ce)"
  note pg = vtd_ok_pages [OF ok]
  have d: "distinct fs"
    using fl by (simp add: free_list_def pages_ok_def)
  have wf: "dev_wf ?m R x" and tabs: "dev_tabs ?m R x \<inter> insert R (contexts ?m R) = {}" for x
    using ok unfolding vtd_ok_def by blast+
  have all: "entries_all vtd_entry ?T ?m"
    using wf [of sid] ce by (simp add: dev_wf_def)
  obtain used fs' where u: "fs = used @ fs'" "length used \<le> 2" "gupdated vpr 3 (slpt ce) s used fs' s'
      (\<lambda>va. if same_path 1 3 va iova then Some (1, pa OR VTD_PTE_RW) else glookup vpr ?m 3 (slpt ce) va)"
      "entries_all vtd_entry (vtabs ?m' (slpt ce)) ?m'"
    by (rule vtd_install_pte_effect [where iova = iova and pa = pa, OF fl vtd_ok_tree [OF ok ce d] all len pa, folded s'_def])
  have g: "free_list s' fs'" "distinct (gtabs vpr ?m' 3 (slpt ce))" "vtabs ?m' (slpt ce) \<subseteq> ?T \<union> set used"
      "\<And>x. (\<forall>p \<in> ?T \<union> set used. \<not> in_page x p) \<Longrightarrow> ?m' x = ?m x"
      "\<And>va. glookup vpr ?m' 3 (slpt ce) va = (if same_path 1 3 va iova then Some (1, pa OR VTD_PTE_RW) else glookup vpr ?m 3 (slpt ce) va)"
    using u(3) unfolding gupdated_def by blast+
  have T: "?T = dev_tabs ?m R sid" "?T \<subseteq> vtd_pages ?m R"
    using dev_tabs_pages [of ?m R sid] dev_tabs_Some [OF ce] by simp_all
  have ag: "agree Q ?m' ?m" if "Q \<subseteq> vtd_pages ?m R" "Q \<inter> ?T = {}" for Q
  proof (rule outside_agree)
    show "\<forall>x. (\<forall>p \<in> ?T \<union> set used. \<not> in_page x p) \<longrightarrow> ?m' x = ?m x"
      using g(4) by blast
    show "(?T \<union> set used) \<inter> Q = {}"
      using that pg(2) u(1) by auto
    show "\<forall>p \<in> ?T \<union> set used \<union> Q. page_aligned p"
      using that(1) T(2) pg(1) u(1) by auto
  qed
  have ctx: "context_of ?m' R x = context_of ?m R x" for x
    using tabs [of sid] T(1) pg(3) by (intro context_same ag) auto
  have ces: "context_entry ?m' R x = context_entry ?m R x" for x
  proof (rule entry_same [OF ctx])
    show "agree {D} ?m' ?m" if "context_of ?m R x = Some D" for D
      using pg(4) [OF that] tabs [of sid] T(1) by (intro ag) auto
  qed
  have disj: "dev_tabs ?m R x \<inter> ?T = {}" if "x \<noteq> sid" for x
    using ok that unfolding vtd_ok_def T(1) by blast
  note same = dev_same [OF ces ag [OF dev_tabs_pages disj]]
  have ce': "context_entry ?m' R sid = Some ce"
    using ces [of sid] ce by simp
  have ctxs: "contexts ?m' R = contexts ?m R"
    using ctx by (simp add: contexts_def)
  have ok': "vtd_ok ?m' R fs' \<and> vtd_pages ?m' R \<subseteq> vtd_pages ?m R \<union> set used"
  proof (rule vtd_ok_update [where sid = sid])
    show "vtd_ok ?m R (used @ fs')" "distinct (used @ fs')"
      using ok d u(1) by simp_all
    show "dev_tabs ?m' R x = dev_tabs ?m R x \<and> dev_wf ?m' R x" if "x \<noteq> sid" for x
      using same(1) [OF that] same(2) [OF that wf] by simp
    show "bus_slot x = bus_slot y" if "context_of ?m' R x \<noteq> None" "context_of ?m' R x = context_of ?m' R y" for x y
      using ok that unfolding ctx vtd_ok_def by blast
    show "dev_tabs ?m' R sid \<subseteq> dev_tabs ?m R sid \<union> set used"
      using g(3) dev_tabs_Some [OF ce'] T(1) by simp
    show "dev_wf ?m' R sid"
      using ce' g(2) u(4) wf [of sid] ce by (simp add: dev_wf_def)
  qed (simp_all add: ctxs)
  then have "vtd_moved R s used fs' s'"
    unfolding vtd_moved_def using g(1,4) T(2) by auto
  moreover have "dev_translate ?m' R x va =
      (if x = sid \<and> va < 2 ^ 39 \<and> same_path 1 3 va iova then Some (leaf 1 (pa OR VTD_PTE_RW) va) else dev_translate ?m R x va)" for x va
  proof (cases "x = sid")
    case True
    then show ?thesis
      using ce ce' g(5) [of va] by (simp add: dev_translate_def gtranslate_def frame_of_def)
  qed (use same(3) in simp)
  ultimately show thesis
    using that u(1,2) ce' by blast
qed

section \<open>Pages of a range\<close>

lemma same_path_page:
  assumes "page_aligned iova" and "iova < 2 ^ 39" and "va < 2 ^ 39"
  shows "same_path 1 3 va iova \<longleftrightarrow> in_page va iova"
proof -
  have z: "n < 39" if "x < 2 ^ 39" "bit x n" for x :: u64 and n
  proof -
    have "unat x < unat (2 ^ 39 :: u64)"
      using that by (simp only: word_less_nat_alt)
    then have "unat x < 2 ^ 39"
      by simp
    then have "take_bit 39 x = x"
      by (rule take_bit_word_small)
    then show ?thesis
      using that(2) bit_take_bit_iff [of 39 x n] by simp
  qed
  have "PGDIR_OFFSET x 4 = 0" if "x < 2 ^ 39" for x
  proof -
    have "drop_bit 39 x = 0"
    proof (rule bit_word_eqI)
      fix n :: nat
      show "bit (drop_bit 39 x) n = bit 0 n"
        using z [OF that, of "39 + n"] by (auto simp: bit_drop_bit_eq)
    qed
    then show ?thesis
      by (simp add: PGDIR_OFFSET_def PGDIR_BITS_def PGDIR_WIDTH_def PAGE_SHIFT_def)
  qed
  then have "same_path 1 3 va iova \<longleftrightarrow> same_path 1 4 va iova"
    using assms(2,3) same_path_Suc [of 1 3 va iova] by simp
  also have "\<dots> \<longleftrightarrow> vpn 1 va = vpn 1 iova"
    by (rule same_path_vpn) simp_all
  also have "\<dots> \<longleftrightarrow> in_page va iova"
  proof
    assume eq: "vpn 1 va = vpn 1 iova"
    have "va = iova OR take_bit 12 va"
    proof (rule bit_word_eqI)
      fix n :: nat
      have "bit (vpn 1 va) (n - 12) = bit (vpn 1 iova) (n - 12)"
        using eq by simp
      then show "bit va n = bit (iova OR take_bit 12 va) n"
        using aligned_bit [OF assms(1), of n] z [OF assms(2), of n] z [OF assms(3), of n]
        by (cases "12 \<le> n") (auto simp: vpn_def PGDIR_BITS_simps bit_take_bit_iff bit_drop_bit_eq bit_or_iff)
    qed
    then have "va = iova + take_bit 12 va"
      by (rule trans) (simp add: aligned_plus_take_bit [OF assms(1)])
    then have "va - iova = (iova + take_bit 12 va) - iova"
      by (rule arg_cong)
    then show "in_page va iova"
      using take_bit_nat_less_exp [of 12 "unat va"] by (simp add: in_page_def unsigned_take_bit_eq)
  next
    assume "in_page va iova"
    then have "iova = va - take_bit 12 va"
      using aligned_base [OF assms(1), of va] by (simp add: in_page_def)
    then have "va = iova OR take_bit 12 va"
      using aligned_plus_take_bit [OF assms(1), of va] by simp
    then have "bit va n = bit (iova OR take_bit 12 va) n" for n
      by (rule arg_cong)
    then have "bit va n = bit iova n" if "12 \<le> n" for n
      using that bit_or_iff [of iova "take_bit 12 va" n] bit_take_bit_iff [of 12 va n] by (simp only: ) simp
    then show "vpn 1 va = vpn 1 iova"
      by (intro bit_word_eqI) (auto simp: vpn_def PGDIR_BITS_simps bit_take_bit_iff bit_drop_bit_eq)
  qed
  finally show ?thesis .
qed

lemma leaf_page:
  assumes "\<And>n. bit pa n \<Longrightarrow> 12 \<le> n \<and> n < 52" and "page_aligned iova" and "in_page va iova"
  shows "leaf 1 (pa OR VTD_PTE_RW) va = pa + (va - iova)"
proof -
  have pa: "page_aligned pa"
    unfolding aligned_def
  proof (rule bit_word_eqI)
    fix n :: nat
    show "bit (take_bit 12 pa) n = bit 0 n"
      using assms(1) [of n] by (auto simp: bit_take_bit_iff)
  qed
  have "va - iova = take_bit 12 va"
    using aligned_base [OF assms(2), of va] assms(3) by (simp add: in_page_def)
  moreover have "leaf 1 (pa OR VTD_PTE_RW) va = pa OR take_bit 12 va"
  proof (rule bit_word_eqI)
    fix n :: nat
    show "bit (leaf 1 (pa OR VTD_PTE_RW) va) n = bit (pa OR take_bit 12 va) n"
      using assms(1) [of n] by (auto simp: bit_leaf PGDIR_BITS_simps bit_or_iff bit_take_bit_iff bit_vtd_flags)
  qed
  ultimately show ?thesis
    using aligned_plus_take_bit [OF pa, of va] by simp
qed

section \<open>The loop over the pages\<close>

lemma bit_page_below:
  assumes "page_aligned pa" and "unat pa < 2 ^ 52" and "bit pa n"
  shows "12 \<le> n \<and> n < 52"
  using aligned_bit [OF assms(1,3)] take_bit_word_small [OF assms(2)] assms(3) bit_take_bit_iff [of 52 pa n] by simp

lemma range_step:
  fixes iova va :: u64
  assumes "unat iova + Suc k * 4096 \<le> 2 ^ 39"
  shows "unat (iova + PAGE_SIZE) = unat iova + 4096" and "in_page va iova \<longleftrightarrow> unat iova \<le> unat va \<and> unat va < unat iova + 4096"
proof -
  show "unat (iova + PAGE_SIZE) = unat iova + 4096"
    using assms by (subst unat_plus_simple [THEN iffD1]) (simp_all add: PAGE_SIZE_def word_le_nat_alt unat_word_ariths)
  show "in_page va iova \<longleftrightarrow> unat iova \<le> unat va \<and> unat va < unat iova + 4096"
    using assms unsigned_less [of va] by (auto simp: in_page_def unat_sub_if' split: if_splits)
qed

lemma map_loop:
  fixes s :: "'h vtd_state"
  assumes "free_list (vm s) fs" and "vtd_ok (ram (vm s)) R fs" and "2 * k \<le> length fs" and "context_entry (ram (vm s)) R sid = Some ce"
    and "page_aligned iova" and "page_aligned pa" and "unat iova + k * 4096 \<le> 2 ^ 39" and "unat pa + k * 4096 \<le> 2 ^ 52"
    and "sz = of_nat k * PAGE_SIZE"
  shows "\<exists>s' used fs'. vtd_map_loop sid (slpt ce) iova pa sz s = Some (Ret s') \<and> fs = used @ fs' \<and> length used \<le> 2 * k
    \<and> vtd_moved R (vm s) used fs' (vm s') \<and> vtd_frame s s'
    \<and> (\<forall>x va. dev_translate (ram (vm s')) R x va = (if x = sid \<and> unat iova \<le> unat va \<and> unat va < unat iova + k * 4096
        then Some (pa + (va - iova)) else dev_translate (ram (vm s)) R x va))"
  using assms
proof (induction k arbitrary: s fs iova pa sz)
  case 0
  then show ?case
    using vtd_moved_refl [OF 0(1,2)] vtd_frame_refl [of s] by (subst vtd_map_loop.simps) auto
next
  case (Suc k)
  note st = range_step [of iova k, OF Suc.prems(7)]
  have pa: "unat (pa + PAGE_SIZE) = unat pa + 4096"
    using Suc.prems(8) by (subst unat_plus_simple [THEN iffD1]) (simp_all add: PAGE_SIZE_def word_le_nat_alt unat_word_ariths)
  have below: "12 \<le> n \<and> n < 52" if "bit pa n" for n
    using bit_page_below [OF Suc.prems(6) _ that] Suc.prems(8) by simp
  have nz: "sz \<noteq> 0" and sz': "sz - PAGE_SIZE = of_nat k * PAGE_SIZE"
    using Suc.prems(7) unat_page_offset [of "Suc k"] unfolding Suc.prems(9) by (auto simp: algebra_simps)
  have "printable (parse_fmt (''map 4K page IOVA %#lx to %#lx (sid=%#06x)'' @ [CHR 0x0A])) [VInt iova, VInt pa, VInt (ucast sid)]"
    by (rule vtd_printable)
  then obtain t where t: "io_printf (''map 4K page IOVA %#lx to %#lx (sid=%#06x)'' @ [CHR 0x0A]) [VInt iova, VInt pa, VInt (ucast sid)] s
      = Ret (s\<lparr>rpt := puts (rpt s) t\<rparr>)"
    using printable_io_printf by blast
  have len: "2 \<le> length fs"
    using Suc.prems(3) by simp
  let ?s1 = "s\<lparr>rpt := puts (rpt s) t, vm := vtd_install_pte (slpt ce) iova pa 1 (vm s)\<rparr>"
  obtain u fs1 where u: "fs = u @ fs1" "length u \<le> 2" "vtd_moved R (vm s) u fs1 (vm ?s1)" "context_entry (ram (vm ?s1)) R sid = Some ce"
      "\<And>x va. dev_translate (ram (vm ?s1)) R x va =
        (if x = sid \<and> va < 2 ^ 39 \<and> same_path 1 3 va iova then Some (leaf 1 (pa OR VTD_PTE_RW) va) else dev_translate (ram (vm s)) R x va)"
    using install_phase [where pa = pa and iova = iova, OF Suc.prems(1,2) len Suc.prems(4) below] by auto
  obtain s' v fs' where r: "vtd_map_loop sid (slpt ce) (iova + PAGE_SIZE) (pa + PAGE_SIZE) (sz - PAGE_SIZE) ?s1 = Some (Ret s')"
      "fs1 = v @ fs'" "length v \<le> 2 * k" "vtd_moved R (vm ?s1) v fs' (vm s')" "vtd_frame ?s1 s'"
      "\<And>x va. dev_translate (ram (vm s')) R x va = (if x = sid \<and> unat (iova + PAGE_SIZE) \<le> unat va \<and> unat va < unat (iova + PAGE_SIZE) + k * 4096
        then Some (pa + PAGE_SIZE + (va - (iova + PAGE_SIZE))) else dev_translate (ram (vm ?s1)) R x va)"
  proof -
    have "free_list (vm ?s1) fs1" "vtd_ok (ram (vm ?s1)) R fs1" "2 * k \<le> length fs1"
      using u(1-3) Suc.prems(3) by (auto simp: vtd_moved_def)
    moreover have "page_aligned (iova + PAGE_SIZE)" "page_aligned (pa + PAGE_SIZE)"
      using aligned_next_block [OF Suc.prems(5)] aligned_next_block [OF Suc.prems(6)] by (simp_all add: PAGE_SIZE_def)
    ultimately show ?thesis
      using Suc.IH [of ?s1 fs1 "iova + PAGE_SIZE" "pa + PAGE_SIZE" "sz - PAGE_SIZE"] u(4) st(1) pa sz' Suc.prems(7,8) that by auto
  qed
  have own: "dev_translate (ram (vm ?s1)) R x va =
      (if x = sid \<and> unat iova \<le> unat va \<and> unat va < unat iova + 4096 then Some (pa + (va - iova)) else dev_translate (ram (vm s)) R x va)" for x va
  proof -
    have i39: "iova < 2 ^ 39"
      using Suc.prems(7) by (simp add: word_less_nat_alt)
    have "va < 2 ^ 39 \<and> same_path 1 3 va iova \<longleftrightarrow> unat iova \<le> unat va \<and> unat va < unat iova + 4096"
      using same_path_page [OF Suc.prems(5) i39, of va] st(2) [of va] Suc.prems(7) by (auto simp: word_less_nat_alt)
    then show ?thesis
      using u(5) [of x va] leaf_page [where pa = pa and iova = iova and va = va, OF below Suc.prems(5)] st(2) [of va] by auto
  qed
  have "dev_translate (ram (vm s')) R x va = (if x = sid \<and> unat iova \<le> unat va \<and> unat va < unat iova + Suc k * 4096
      then Some (pa + (va - iova)) else dev_translate (ram (vm s)) R x va)" for x va
    using r(6) [of x va] own [of x va] st(1) by auto
  moreover have "vtd_map_loop sid (slpt ce) iova pa sz s = Some (Ret s')"
    using nz t r(1) by (subst vtd_map_loop.simps) simp
  moreover have "fs = (u @ v) @ fs'" "length (u @ v) \<le> 2 * Suc k" "vtd_moved R (vm s) (u @ v) fs' (vm s')"
    using u(1-3) r(2-4) vtd_moved_trans [of R "vm s" u v fs' "vm ?s1" "vm s'"] by simp_all
  moreover have "vtd_frame s s'"
    using r(5)
    by (rule vtd_frame_trans [rotated]) (simp add: vtd_frame_def, intro exI [of _ "vtd_install_pte (slpt ce) iova pa 1 (vm s)"] exI [of _ t], simp)
  ultimately show ?case
    by blast
qed

lemma map_range_effect:
  fixes s :: "'h vtd_state"
  assumes rt: "vtd_root_table hw s = Ret (R, s0)" and fl: "free_list (vm s0) fs" and ok: "vtd_ok (ram (vm s0)) R fs"
    and al: "IS_ALIGNED iova PAGE_SIZE" "IS_ALIGNED pa PAGE_SIZE" "IS_ALIGNED sz PAGE_SIZE"
    and fits: "unat iova + unat sz \<le> 2 ^ 39" "unat pa + unat sz \<le> 2 ^ 52" and len: "2 + 2 * (unat sz div 4096) \<le> length fs"
  obtains s' used fs' where "vtd_map_range hw sid iova pa sz s = Ret s'" and "fs = used @ fs'" and "length used \<le> 2 + 2 * (unat sz div 4096)"
    and "vtd_moved R (vm s0) used fs' (vm s')" and "vtd_frame s0 s'"
    and "\<And>x va. dev_translate (ram (vm s')) R x va = (if x = sid \<and> unat iova \<le> unat va \<and> unat va < unat iova + unat sz
        then Some (pa + (va - iova)) else dev_translate (ram (vm s0)) R x va)"
proof -
  define k where "k = unat sz div 4096"
  have a12: "page_aligned iova" "page_aligned pa" "page_aligned sz"
    using al IS_ALIGNED_iff [of 12] by (simp_all add: PAGE_SIZE_def)
  then have k: "unat sz = k * 4096"
    using aligned_dvd [of 12 sz] by (simp add: k_def)
  then have sz: "sz = of_nat k * PAGE_SIZE"
    using unat_page_offset [of k] fits(1) by (simp add: word_unat_eq_iff)
  have "1 \<le> length fs"
    using len by simp
  then obtain C s1 u1 fs1 where A: "vtd_get_context_table (R + 16 * ucast (PCI_BDF_GET_BUS sid)) (PCI_BDF_GET_BUS sid) s0 = Ret (C, s1)"
      "fs = u1 @ fs1" "length u1 \<le> 1" "context_of (ram (vm s1)) R sid = Some C" "vtd_moved R (vm s0) u1 fs1 (vm s1)"
      "vtd_frame s0 s1" "\<And>x va. dev_translate (ram (vm s1)) R x va = dev_translate (ram (vm s0)) R x va"
    by (rule get_context_table [OF fl ok, of sid]) blast
  have "free_list (vm s1) fs1" "vtd_ok (ram (vm s1)) R fs1" "1 \<le> length fs1"
    using A(2,3,5) len by (auto simp: vtd_moved_def)
  then obtain ce s2 u2 fs2 where B: "vtd_get_slptptr (C + 16 * ucast (PCI_BDF_GET_DEVFN sid)) sid (PCI_BDF_GET_DEVFN sid) s1 = Ret (slpt ce, s2)"
      "fs1 = u2 @ fs2" "length u2 \<le> 1" "context_entry (ram (vm s2)) R sid = Some ce" "vtd_moved R (vm s1) u2 fs2 (vm s2)"
      "vtd_frame s1 s2" "\<And>x va. dev_translate (ram (vm s2)) R x va = dev_translate (ram (vm s1)) R x va"
    by (rule get_slptptr [OF _ _ _ A(4)]) blast
  have "free_list (vm s2) fs2" "vtd_ok (ram (vm s2)) R fs2" "2 * k \<le> length fs2"
    using A(2,3) B(2,3,5) len by (auto simp: vtd_moved_def k_def)
  then obtain s' u3 fs' where D: "vtd_map_loop sid (slpt ce) iova pa sz s2 = Some (Ret s')" "fs2 = u3 @ fs'" "length u3 \<le> 2 * k"
      "vtd_moved R (vm s2) u3 fs' (vm s')" "vtd_frame s2 s'"
      "\<And>x va. dev_translate (ram (vm s')) R x va = (if x = sid \<and> unat iova \<le> unat va \<and> unat va < unat iova + k * 4096
        then Some (pa + (va - iova)) else dev_translate (ram (vm s2)) R x va)"
    using map_loop [of s2 fs2 R k sid ce iova pa sz] B(4) a12 fits sz unfolding k by blast
  have "vtd_map_range hw sid iova pa sz s = Ret s'"
    using rt al A(1) B(1) D(1) by (simp add: vtd_map_range_def Let_def)
  moreover have "vtd_moved R (vm s0) (u1 @ u2 @ u3) fs' (vm s')"
  proof (rule vtd_moved_trans)
    show "vtd_moved R (vm s0) u1 ((u2 @ u3) @ fs') (vm s1)"
      using A(5) B(2) D(2) by simp
    show "vtd_moved R (vm s1) (u2 @ u3) fs' (vm s')"
      by (rule vtd_moved_trans [OF B(5) [unfolded D(2)] D(4)])
  qed
  moreover have "vtd_frame s0 s'"
    using A(6) B(6) D(5) vtd_frame_trans by blast
  moreover have "fs = (u1 @ u2 @ u3) @ fs'" "length (u1 @ u2 @ u3) \<le> 2 + 2 * (unat sz div 4096)"
    using A(2,3) B(2,3) D(2,3) by (auto simp: k_def)
  ultimately show thesis
    using that [of s' "u1 @ u2 @ u3" fs'] D(6) B(7) A(7) k by simp
qed

text \<open>
  C13: Mapping a range for a device. When the tables of the IOMMU are in order and enough pages are free, \<open>vtd_map_range\<close>
  returns, the tables are in order again, and the IOMMU lets the device with the identifier \<open>sid\<close> read and write the
  range at \<open>iova\<close> as the memory at \<open>pa\<close>. It translates every other address of the device, and every address of every
  other device, as before.
\<close>

theorem vtd_map_range_maps:
  fixes s :: "'h vtd_state"
  assumes "vtd_root_table hw s = Ret (R, s0)" and "free_list (vm s0) fs" and "vtd_ok (ram (vm s0)) R fs"
    and "IS_ALIGNED iova PAGE_SIZE" and "IS_ALIGNED pa PAGE_SIZE" and "IS_ALIGNED sz PAGE_SIZE"
    and "unat iova + unat sz \<le> 2 ^ 39" and "unat pa + unat sz \<le> 2 ^ 52" and "2 + 2 * (unat sz div 4096) \<le> length fs"
    and "acc \<in> {VTD_PTE_R, VTD_PTE_W}"
  shows "\<exists>s' used fs'. vtd_map_range hw sid iova pa sz s = Ret s' \<and> fs = used @ fs' \<and> free_list (vm s') fs'
    \<and> vtd_ok (ram (vm s')) R fs'
    \<and> (\<forall>x va. vtd_translate acc (ram (vm s')) R x va =
        (if x = sid \<and> unat iova \<le> unat va \<and> unat va < unat iova + unat sz then Some (pa + (va - iova))
         else vtd_translate acc (ram (vm s0)) R x va))"
proof -
  obtain s' used fs' where r: "vtd_map_range hw sid iova pa sz s = Ret s'" "fs = used @ fs'" "vtd_moved R (vm s0) used fs' (vm s')"
      "\<And>x va. dev_translate (ram (vm s')) R x va = (if x = sid \<and> unat iova \<le> unat va \<and> unat va < unat iova + unat sz
        then Some (pa + (va - iova)) else dev_translate (ram (vm s0)) R x va)"
    by (rule map_range_effect [OF assms(1-9)]) blast
  moreover have "free_list (vm s') fs'" "vtd_ok (ram (vm s')) R fs'"
    using r(3) by (simp_all add: vtd_moved_def)
  ultimately show ?thesis
    using vtd_translate_dev [OF _ assms(10)] assms(3) by (intro exI [of _ s'] exI [of _ used] exI [of _ fs']) simp
qed

text \<open>An empty root table maps nothing.\<close>

lemma zero_root_ok:
  assumes "\<And>x. in_page x R \<Longrightarrow> m x = 0" and "\<forall>p \<in> set (R # fs). table_page p" and "R \<notin> set fs"
  shows "vtd_ok m R fs" and "context_entry m R sid = None"
proof -
  have c: "context_of m R x = None" for x
    using zero_page_pte [OF assms(1) slots_512(3) [of x]] by (simp add: context_of_def)
  then have ce: "context_entry m R x = None" for x
    by (simp add: context_entry_def)
  then show "context_entry m R sid = None" .
  have "contexts m R = {}" "dev_tabs m R x = {}" for x
    using c ce by (simp_all add: contexts_def dev_tabs_def)
  then show "vtd_ok m R fs"
    using assms(2,3) c ce by (simp add: vtd_ok_def vtd_pages_def dev_wf_def)
qed

definition rta_hw :: "u64 \<Rightarrow> unit io_hw" where
  "rta_hw R = \<lparr>raw_readl = (\<lambda>a v. (0, v)), raw_readq = (\<lambda>a v. (R, v)), raw_writel = (\<lambda>x a v. v), raw_writeq = (\<lambda>x a v. v)\<rparr>"

definition vtd_start :: "'h \<Rightarrow> machine \<Rightarrow> 'h vtd_state" where
  "vtd_start h m = \<lparr>vm = m, devs = h, rpt = report_init, vtd_reg_base = 0xfed90000, index_ctr = 0, live_count = 1\<rparr>"

theorem vtd_map_range_maps_witness:
  "\<exists>s s'. vtd_map_range (rta_hw 0x1000) 0x18 0 0x123000 0x2000 s = Ret s' \<and> vtd_translate VTD_PTE_W (ram (vm s')) 0x1000 0x18 0x1004 = Some 0x124004
    \<and> vtd_translate VTD_PTE_W (ram (vm s')) 0x1000 0x18 0x2000 = None \<and> vtd_translate VTD_PTE_W (ram (vm s')) 0x1000 0x19 0x1004 = None"
proof -
  obtain m where m: "free_list m (run 0x2000 8)" "\<And>x. in_page x 0x1000 \<Longrightarrow> ram m x = 0"
      "\<forall>p \<in> set (0x1000 # run 0x2000 8). table_page p" "distinct (0x1000 # run 0x2000 8)"
    using empty_root_page by blast
  let ?s = "vtd_start () m"
  have ok: "vtd_ok (ram m) 0x1000 (run 0x2000 8)" "\<And>x. context_entry (ram m) 0x1000 x = None"
    using zero_root_ok [OF m(2,3)] m(4) by simp_all
  have "vtd_root_table (rta_hw 0x1000) ?s = Ret (0x1000, ?s)"
    by (simp add: vtd_root_table_def vtd_readq_def vtd_reg_def dev_readq_def rta_hw_def vtd_start_def io_view_def set_io_view_def
        PAGE_MASK_def PAGE_SIZE_def)
  then obtain s' where "vtd_map_range (rta_hw 0x1000) 0x18 0 0x123000 0x2000 ?s = Ret s'"
      "\<forall>x va. vtd_translate VTD_PTE_W (ram (vm s')) 0x1000 x va =
        (if x = 0x18 \<and> unat (0 :: u64) \<le> unat va \<and> unat va < unat (0 :: u64) + unat (0x2000 :: u64) then Some (0x123000 + (va - 0))
         else vtd_translate VTD_PTE_W (ram (vm ?s)) 0x1000 x va)"
    using vtd_map_range_maps [of "rta_hw 0x1000" ?s "0x1000" ?s "run 0x2000 8" 0 "0x123000" "0x2000" VTD_PTE_W "0x18"] m(1) ok(1)
    by (auto simp: vtd_start_def IS_ALIGNED_def PAGE_SIZE_def run_def)
  moreover have "vtd_translate VTD_PTE_W (ram m) 0x1000 x va = None" for x va
    by (simp add: vtd_translate_def ok(2))
  ultimately show ?thesis
    by (intro exI [of _ ?s] exI [of _ s']) (simp add: vtd_start_def)
qed

end
