(* ===== verification/Vtd_Test.thy ===== *)
theory Vtd_Test
  imports Vtd_Props
begin

text \<open>
  The DMA test of \<^verbatim>\<open>x86/intel-iommu.c\<close> on an IOMMU and an EDU device that behave as documented: the device accesses
  the memory through the translation \<open>vtd_translate\<close>.
\<close>

unbundle bit_operations_syntax

section \<open>The EDU device behind the IOMMU\<close>

text \<open>What the registers and the buffer of the device hold, and the root table address of the IOMMU.\<close>

record edu_regs =
  e_rta :: u64
  e_src :: u64
  e_dst :: u64
  e_cnt :: u64
  e_buf :: "nat \<Rightarrow> u8"

abbreviation edu_root :: "edu_regs \<Rightarrow> u64" where
  "edu_root k \<equiv> e_rta k AND PAGE_MASK"

text \<open>
  A transfer of \<open>e_cnt\<close> bytes. The buffer of the device is at the device address \<open>EDU_DMA_START\<close>, the other end is an
  address of the I/O address space that the IOMMU translates.
\<close>

definition dma_to_device :: "u16 \<Rightarrow> edu_regs \<Rightarrow> mem \<Rightarrow> edu_regs" where
  "dma_to_device sid k m =
     (let off = unat (e_dst k - EDU_DMA_START) in
      k\<lparr>e_buf := \<lambda>j. if off \<le> j \<and> j - off < unat (e_cnt k)
        then m (the (vtd_translate VTD_PTE_R m (edu_root k) sid (e_src k + of_nat (j - off)))) else e_buf k j\<rparr>)"

definition dma_from_device :: "u16 \<Rightarrow> edu_regs \<Rightarrow> mem \<Rightarrow> mem" where
  "dma_from_device sid k m =
     (let off = unat (e_src k - EDU_DMA_START) in
      fold (\<lambda>i m'. m'(the (vtd_translate VTD_PTE_W m (edu_root k) sid (e_dst k + of_nat i)) := e_buf k (off + i))) [0..<unat (e_cnt k)] m)"

text \<open>The transfers that the device makes: in its buffer of 4096 bytes, and with the other end below its address mask of 28 bits.\<close>

definition dma_fits :: "u32 \<Rightarrow> edu_regs \<Rightarrow> bool" where
  "dma_fits c k \<longleftrightarrow>
     (let (here, there) = (if c AND EDU_CMD_DMA_FROM \<noteq> 0 then (e_src k, e_dst k) else (e_dst k, e_src k)) in
      0 < unat (e_cnt k) \<and> unat (here - EDU_DMA_START) + unat (e_cnt k) \<le> unat EDU_DMA_SIZE_MAX \<and> unat there + unat (e_cnt k) \<le> 2 ^ 28)"

definition dma_mapped :: "u16 \<Rightarrow> u32 \<Rightarrow> edu_regs \<Rightarrow> mem \<Rightarrow> bool" where
  "dma_mapped sid c k m \<longleftrightarrow>
     (\<forall>i < unat (e_cnt k). if c AND EDU_CMD_DMA_FROM \<noteq> 0 then vtd_translate VTD_PTE_W m (edu_root k) sid (e_dst k + of_nat i) \<noteq> None
        else vtd_translate VTD_PTE_R m (edu_root k) sid (e_src k + of_nat i) \<noteq> None)"

definition dma_done :: "u16 \<Rightarrow> u32 \<Rightarrow> edu_regs \<times> mem \<Rightarrow> edu_regs \<times> mem" where
  "dma_done sid c km =
     (case km of (k, m) \<Rightarrow> if c AND EDU_CMD_DMA_FROM \<noteq> 0 then (k, dma_from_device sid k m) else (dma_to_device sid k m, m))"

text \<open>
  The contract: \<open>K\<close> reads the registers off the state of the devices, the IOMMU registers are at \<open>b\<close> and the device
  is at \<open>d\<close>. After a command the busy bit of the command register is set until the transfer is complete, which it is
  after some number of reads of that register.
\<close>

definition law_rta :: "'h io_hw \<Rightarrow> u64 \<Rightarrow> ('h \<Rightarrow> edu_regs) \<Rightarrow> bool" where
  "law_rta hw b K \<longleftrightarrow> (\<forall>h m. \<exists>h'. raw_readq hw (b + DMAR_RTADDR_REG) (h, m) = (e_rta (K h), h', m) \<and> K h' = K h)"

definition law_regs :: "'h io_hw \<Rightarrow> u64 \<Rightarrow> ('h \<Rightarrow> edu_regs) \<Rightarrow> bool" where
  "law_regs hw d K \<longleftrightarrow> (\<forall>h m x.
     (\<exists>h'. raw_writeq hw x (d + EDU_REG_DMA_SRC) (h, m) = (h', m) \<and> K h' = (K h)\<lparr>e_src := x\<rparr>)
     \<and> (\<exists>h'. raw_writeq hw x (d + EDU_REG_DMA_DST) (h, m) = (h', m) \<and> K h' = (K h)\<lparr>e_dst := x\<rparr>)
     \<and> (\<exists>h'. raw_writeq hw x (d + EDU_REG_DMA_COUNT) (h, m) = (h', m) \<and> K h' = (K h)\<lparr>e_cnt := x\<rparr>))"

definition law_dma :: "'h io_hw \<Rightarrow> u64 \<Rightarrow> u16 \<Rightarrow> ('h \<Rightarrow> edu_regs) \<Rightarrow> bool" where
  "law_dma hw d sid K \<longleftrightarrow> (\<forall>h m c. c AND EDU_CMD_DMA_START \<noteq> 0 \<longrightarrow> dma_fits c (K h) \<longrightarrow> dma_mapped sid c (K h) m \<longrightarrow>
     (let a = d + EDU_REG_DMA_CMD; v = raw_writel hw c a (h, m) in
      \<exists>n. (\<forall>j < n. fst (raw_readl hw a (poll hw a j v)) AND EDU_CMD_DMA_START \<noteq> 0)
        \<and> fst (raw_readl hw a (poll hw a n v)) AND EDU_CMD_DMA_START = 0
        \<and> (case poll hw a (Suc n) v of (h', m') \<Rightarrow> (K h', m') = dma_done sid c (K h, m))))"

definition edu_conforms :: "'h io_hw \<Rightarrow> u64 \<Rightarrow> u64 \<Rightarrow> u16 \<Rightarrow> ('h \<Rightarrow> edu_regs) \<Rightarrow> bool" where
  "edu_conforms hw b d sid K \<longleftrightarrow> law_rta hw b K \<and> law_regs hw d K \<and> law_dma hw d sid K"

section \<open>A transfer\<close>

lemma edu_dma_wait_poll:
  assumes "\<forall>j < n. fst (raw_readl hw a (poll hw a j (io_view s))) AND EDU_CMD_DMA_START \<noteq> 0"
    and "fst (raw_readl hw a (poll hw a n (io_view s))) AND EDU_CMD_DMA_START = 0" and "a = edu_reg_base dev + EDU_REG_DMA_CMD"
  shows "edu_dma_wait hw dev s = Some (set_io_view (poll hw a (Suc n) (io_view s)) s)"
  using assms(1,2)
proof (induction n arbitrary: s)
  case 0
  then show ?case
    using assms(3) by (subst edu_dma_wait.simps) (simp add: dev_readl_def poll_def case_prod_beta)
next
  case (Suc n)
  let ?s = "set_io_view (snd (raw_readl hw a (io_view s))) s"
  have p: "poll hw a (Suc j) (io_view s) = poll hw a j (io_view ?s)" for j
    by (simp add: poll_def funpow_Suc_right del: funpow.simps)
  have "fst (raw_readl hw a (io_view s)) AND EDU_CMD_DMA_START \<noteq> 0"
    using Suc.prems(1) by (auto simp: poll_def)
  then have "edu_dma_wait hw dev s = edu_dma_wait hw dev ?s"
    using assms(3) by (subst edu_dma_wait.simps) (simp add: dev_readl_def case_prod_beta)
  also have "\<dots> = Some (set_io_view (poll hw a (Suc n) (io_view ?s)) ?s)"
  proof (rule Suc.IH)
    show "\<forall>j < n. fst (raw_readl hw a (poll hw a j (io_view ?s))) AND EDU_CMD_DMA_START \<noteq> 0"
      using Suc.prems(1) unfolding p [symmetric] by simp
    show "fst (raw_readl hw a (poll hw a n (io_view ?s))) AND EDU_CMD_DMA_START = 0"
      using Suc.prems(2) unfolding p [symmetric] by simp
  qed
  finally show ?case
    by (simp add: p)
qed

lemma edu_dma_effect:
  fixes s :: "'h vtd_state" and iova :: u64 and from_device :: bool
  assumes C: "edu_conforms hw b (edu_reg_base dev) sid K" and sz: "sz \<le> EDU_DMA_SIZE_MAX" and off: "ucast dev_offset < EDU_DMA_SIZE_MAX"
  defines "c \<equiv> (if from_device then EDU_CMD_DMA_START OR EDU_CMD_DMA_FROM else EDU_CMD_DMA_START OR EDU_CMD_DMA_TO)"
    and "k \<equiv> (K (devs s))\<lparr>e_src := if from_device then ucast (dev_offset + ucast EDU_DMA_START) else iova,
        e_dst := if from_device then iova else ucast (ucast EDU_DMA_START + dev_offset), e_cnt := sz\<rparr>"
  assumes fits: "dma_fits c k" and map: "dma_mapped sid c k (ram (vm s))"
  shows "\<exists>h' m' t. edu_dma hw dev iova sz dev_offset from_device s = Ret (set_io_view (h', m') (s\<lparr>rpt := puts (rpt s) t\<rparr>))
    \<and> (K h', m') = dma_done sid c (k, ram (vm s))"
proof -
  let ?d = "edu_reg_base dev" and ?m = "ram (vm s)"
  let ?src = "if from_device then ucast (dev_offset + ucast EDU_DMA_START) else iova"
  let ?dst = "if from_device then iova else ucast (ucast EDU_DMA_START + dev_offset)"
  let ?va = "[VStr (if from_device then ''FROM'' else ''TO''), VInt iova, VInt sz, VInt (ucast dev_offset)]"
  have "printable (parse_fmt (''edu device DMA start %s addr %#lx size %lu off %#x'' @ [CHR 0x0A])) ?va"
    by (simp add: parse_simps props0_def)
  then obtain t where t: "\<And>s :: 'h vtd_state. io_printf (''edu device DMA start %s addr %#lx size %lu off %#x'' @ [CHR 0x0A]) ?va s
      = Ret (s\<lparr>rpt := puts (rpt s) t\<rparr>)"
    using printable_io_printf by blast
  define s1 where "s1 = s\<lparr>rpt := puts (rpt s) t\<rparr>"
  have regs: "law_regs hw ?d K" and dma: "law_dma hw ?d sid K"
    using C by (simp_all add: edu_conforms_def)
  obtain h1 where h1: "raw_writeq hw ?src (?d + EDU_REG_DMA_SRC) (devs s, ?m) = (h1, ?m)" "K h1 = (K (devs s))\<lparr>e_src := ?src\<rparr>"
    using regs unfolding law_regs_def by blast
  obtain h2 where h2: "raw_writeq hw ?dst (?d + EDU_REG_DMA_DST) (h1, ?m) = (h2, ?m)" "K h2 = (K h1)\<lparr>e_dst := ?dst\<rparr>"
    using regs unfolding law_regs_def by blast
  obtain h3 where h3: "raw_writeq hw sz (?d + EDU_REG_DMA_COUNT) (h2, ?m) = (h3, ?m)" "K h3 = (K h2)\<lparr>e_cnt := sz\<rparr>"
    using regs unfolding law_regs_def by blast
  have k: "K h3 = k"
    by (simp add: k_def h1 h2 h3)
  let ?a = "?d + EDU_REG_DMA_CMD"
  let ?v = "raw_writel hw c ?a (h3, ?m)"
  have "c AND EDU_CMD_DMA_START \<noteq> 0"
    by (simp add: c_def EDU_CMD_DMA_START_def EDU_CMD_DMA_FROM_def EDU_CMD_DMA_TO_def)
  then obtain n where n: "\<forall>j < n. fst (raw_readl hw ?a (poll hw ?a j ?v)) AND EDU_CMD_DMA_START \<noteq> 0"
      "fst (raw_readl hw ?a (poll hw ?a n ?v)) AND EDU_CMD_DMA_START = 0"
      "case poll hw ?a (Suc n) ?v of (h', m') \<Rightarrow> (K h', m') = dma_done sid c (K h3, ?m)"
    using dma fits map k unfolding law_dma_def Let_def by metis
  obtain h' m' where v': "poll hw ?a (Suc n) ?v = (h', m')"
    by (cases "poll hw ?a (Suc n) ?v")
  let ?s2 = "set_io_view ?v s1"
  have "edu_dma_wait hw dev ?s2 = Some (set_io_view (h', m') ?s2)"
    using edu_dma_wait_poll [of n hw ?a ?s2 dev] n(1,2) v' by simp
  then have "edu_dma hw dev iova sz dev_offset from_device s = Ret (set_io_view (h', m') s1)"
    using sz off t h1(1) h2(1) h3(1)
    by (simp add: edu_dma_def dev_writeq_def dev_writel_def io_view_def s1_def c_def Let_def split del: if_split) (auto simp: set_io_view_def)
  then show ?thesis
    using n(3) v' k unfolding s1_def by fastforce
qed

section \<open>The test\<close>

text \<open>Writing to pages that hold no table changes nothing for the IOMMU.\<close>

lemma vtd_ok_agree:
  assumes ok: "vtd_ok m R (used @ fs)" and d: "distinct (used @ fs)" and ag: "agree (vtd_pages m R) m' m"
  shows "vtd_ok m' R fs" and "vtd_pages m' R = vtd_pages m R" and "dev_translate m' R sid va = dev_translate m R sid va"
proof -
  note pg = vtd_ok_pages [OF ok]
  have ctx: "context_of m' R x = context_of m R x" for x
    using pg(3) by (intro context_same agree_subset [OF ag]) simp
  have ce: "context_entry m' R x = context_entry m R x" for x
    using pg(4) by (intro entry_same [OF ctx] agree_subset [OF ag]) auto
  note same = dev_same [OF ce agree_subset [OF ag dev_tabs_pages]]
  have wf: "dev_wf m R x" for x
    using ok unfolding vtd_ok_def by blast
  have c: "contexts m' R = contexts m R"
    using ctx by (simp add: contexts_def)
  have "vtd_ok m' R fs \<and> vtd_pages m' R \<subseteq> vtd_pages m R \<union> set used"
  proof (rule vtd_ok_update [OF ok d, where sid = sid])
    show "bus_slot x = bus_slot y" if "context_of m' R x \<noteq> None" "context_of m' R x = context_of m' R y" for x y
      using ok that unfolding ctx vtd_ok_def by blast
  qed (use same(1) same(2) [OF wf] c in auto)
  then show "vtd_ok m' R fs"
    by blast
  show "vtd_pages m' R = vtd_pages m R"
    using c same(1) by (simp add: vtd_pages_def)
  show "dev_translate m' R sid va = dev_translate m R sid va"
    by (rule same)
qed

lemma root_table_law:
  assumes "law_rta hw (vtd_reg_base s) K" and "vtd_reg_base s \<noteq> 0"
  obtains h' where "vtd_root_table hw s = Ret (edu_root (K (devs s)), s\<lparr>devs := h'\<rparr>)" and "K h' = K (devs s)"
proof -
  obtain h' where h: "raw_readq hw (vtd_reg_base s + DMAR_RTADDR_REG) (devs s, ram (vm s)) = (e_rta (K (devs s)), h', ram (vm s))" "K h' = K (devs s)"
    using assms(1) unfolding law_rta_def by blast
  have "vtd_root_table hw s = Ret (edu_root (K (devs s)), s\<lparr>devs := h'\<rparr>)"
    using h(1) assms(2) by (simp add: vtd_root_table_def vtd_readq_def vtd_reg_def dev_readq_def io_view_def set_io_view_def)
  then show thesis
    using that h(2) by blast
qed

text \<open>A page of its own, mapped at address 0 of the device.\<close>

lemma dmar_maps_page:
  fixes s :: "'h vtd_state"
  assumes C: "law_rta hw (vtd_reg_base s) K" and base: "vtd_reg_base s \<noteq> 0" and fl: "free_list (vm s) fs"
    and ok: "vtd_ok (ram (vm s)) (edu_root (K (devs s))) fs" and len: "4 \<le> length fs"
    and p: "table_page p" "p \<notin> set fs" "p \<notin> vtd_pages (ram (vm s)) (edu_root (K (devs s)))"
  obtains s' t where "vtd_map_range hw sid 0 p PAGE_SIZE s = Ret s'" and "K (devs s') = K (devs s)" and "rpt s' = puts (rpt s) t"
    and "vtd_reg_base s' = vtd_reg_base s" and "\<And>x. in_page x p \<Longrightarrow> ram (vm s') x = ram (vm s) x"
    and "\<exists>fs'. vtd_ok (ram (vm s')) (edu_root (K (devs s))) fs' \<and> distinct fs'"
    and "p \<notin> vtd_pages (ram (vm s')) (edu_root (K (devs s)))"
    and "\<And>i. i < 4096 \<Longrightarrow> dev_translate (ram (vm s')) (edu_root (K (devs s))) sid (of_nat i) = Some (p + of_nat i)"
proof -
  let ?R = "edu_root (K (devs s))"
  obtain h' where h: "vtd_root_table hw s = Ret (?R, s\<lparr>devs := h'\<rparr>)" "K h' = K (devs s)"
    by (rule root_table_law [OF C base])
  have p52: "unat p < 2 ^ 52"
  proof -
    have "take_bit 52 p = p"
      using table_page_bit [OF p(1)] by (intro bit_word_eqI) (auto simp: bit_take_bit_iff)
    moreover have "unat (take_bit 52 p) < 2 ^ 52"
      unfolding unsigned_take_bit_eq by (rule take_bit_nat_less_exp)
    ultimately show ?thesis
      by simp
  qed
  have pal: "page_aligned p"
    using p(1) by (rule table_page_aligned)
  then obtain q where q: "unat p = 4096 * q"
    using aligned_dvd [of 12 p] by (auto simp: dvd_def)
  have fit: "unat p + unat PAGE_SIZE \<le> 2 ^ 52"
    using p52 unfolding q by (simp add: PAGE_SIZE_def)
  have al: "IS_ALIGNED 0 PAGE_SIZE" "IS_ALIGNED p PAGE_SIZE" "IS_ALIGNED PAGE_SIZE PAGE_SIZE"
    using pal IS_ALIGNED_iff [of 12 p] by (simp_all add: PAGE_SIZE_def IS_ALIGNED_def)
  obtain s' used fs' where r: "vtd_map_range hw sid 0 p PAGE_SIZE s = Ret s'" "fs = used @ fs'"
      "vtd_moved ?R (vm (s\<lparr>devs := h'\<rparr>)) used fs' (vm s')" "vtd_frame (s\<lparr>devs := h'\<rparr>) s'"
      "\<And>x va. dev_translate (ram (vm s')) ?R x va = (if x = sid \<and> unat (0 :: u64) \<le> unat va \<and> unat va < unat (0 :: u64) + unat PAGE_SIZE
        then Some (p + (va - 0)) else dev_translate (ram (vm (s\<lparr>devs := h'\<rparr>))) ?R x va)"
  proof (rule map_range_effect [OF h(1) _ _ al, of fs sid])
    show "2 + 2 * (unat PAGE_SIZE div 4096) \<le> length fs"
      using len by (simp add: PAGE_SIZE_def)
  qed (use fl ok fit in \<open>simp_all add: PAGE_SIZE_def\<close>)
  obtain m t where f: "s' = s\<lparr>devs := h', vm := m, rpt := puts (rpt s) t\<rparr>"
    using r(4) by (auto simp: vtd_frame_def)
  have out: "p \<notin> vtd_pages (ram (vm s)) ?R \<union> set used"
    using p(2,3) r(2) by simp
  have "ram (vm s') x = ram (vm s) x" if "in_page x p" for x
  proof -
    have "\<not> in_page x q" if q: "q \<in> vtd_pages (ram (vm s)) ?R \<union> set used" for q
      using in_page_unique [OF pal _ \<open>in_page x p\<close>, of q] vtd_ok_pages(1) [OF ok, of q] q out r(2) by auto
    then show ?thesis
      using r(3) by (simp add: vtd_moved_def)
  qed
  note kept = this
  have ok': "vtd_ok (ram (vm s')) ?R fs'" "p \<notin> vtd_pages (ram (vm s')) ?R" "distinct fs'"
    using r(3) out by (auto simp: vtd_moved_def free_list_def pages_ok_def)
  have tr: "dev_translate (ram (vm s')) ?R sid (of_nat i) = Some (p + of_nat i)" if "i < 4096" for i
    using r(5) [of sid "of_nat i"] that by (simp add: PAGE_SIZE_def)
  show thesis
  proof (rule that [OF r(1), of t])
    show "\<exists>fs'. vtd_ok (ram (vm s')) ?R fs' \<and> distinct fs'"
      using ok' by blast
  qed (use kept ok'(2) tr f h(2) in simp_all)
qed

lemma dma_to_buf:
  assumes "e_dst k = EDU_DMA_START" and "e_cnt k = 4" and "e_src k = 0" and "i < 4"
    and "\<And>i. i < 4096 \<Longrightarrow> vtd_translate VTD_PTE_R m (edu_root k) sid (of_nat i) = Some (p + of_nat i)"
  shows "e_buf (dma_to_device sid k m) i = m (p + of_nat i)"
  using assms by (simp add: dma_to_device_def Let_def)

lemma dma_from_buf:
  assumes "e_src k = EDU_DMA_START" and "e_cnt k = 4" and "e_dst k = 4" and "i < 4"
    and tr: "\<And>i. i < 4096 \<Longrightarrow> vtd_translate VTD_PTE_W m (edu_root k) sid (of_nat i) = Some (p + of_nat i)"
  shows "dma_from_device sid k m (p + 4 + of_nat i) = e_buf k i"
proof -
  have n: "p + 4 + of_nat i = p + of_nat (4 + i)" for i
    by simp
  have t: "vtd_translate VTD_PTE_W m (edu_root k) sid (4 + of_nat i) = Some (p + of_nat (4 + i))" if "i < 4" for i
    using tr [of "4 + i"] that by simp
  have "[0..<unat (4 :: u64)] = [0, 1, 2, 3]"
    by (simp add: upt_rec)
  moreover have "i = 0 \<or> i = 1 \<or> i = 2 \<or> i = 3"
    using assms(4) by auto
  ultimately show ?thesis
    using assms(1-3) t [of 0] t [of 1] t [of 2] t [of 3] unfolding n by (auto simp: dma_from_device_def simp flip: numeral_2_eq_2)
qed

lemma dmar_transfers:
  fixes s :: "'h vtd_state"
  assumes C: "edu_conforms hw b (edu_reg_base dev) sid K"
    and tr: "\<And>acc i. acc \<in> {VTD_PTE_R, VTD_PTE_W} \<Longrightarrow> i < 4096
      \<Longrightarrow> vtd_translate acc (ram (vm s)) (edu_root (K (devs s))) sid (of_nat i) = Some (p + of_nat i)"
  obtains s1 s2 t where "edu_dma hw dev 0 4 0 False s = Ret s1" and "edu_dma hw dev 4 4 0 True s1 = Ret s2"
    and "rpt s2 = puts (rpt s) t" and "loadn 4 (ram (vm s2)) (p + 4) = loadn 4 (ram (vm s)) p"
proof -
  let ?m = "ram (vm s)" and ?k = "(K (devs s))\<lparr>e_src := 0, e_dst := EDU_DMA_START, e_cnt := 4\<rparr>"
  have o: "ucast (0 :: u32) < EDU_DMA_SIZE_MAX" "4 \<le> EDU_DMA_SIZE_MAX" "ucast (ucast EDU_DMA_START + (0 :: u32)) = EDU_DMA_START"
      "ucast (0 + ucast EDU_DMA_START :: u32) = EDU_DMA_START"
    by (simp_all add: EDU_DMA_SIZE_MAX_def EDU_DMA_START_def)
  have f: "(EDU_CMD_DMA_START OR EDU_CMD_DMA_TO) AND EDU_CMD_DMA_FROM = 0" "(EDU_CMD_DMA_START OR EDU_CMD_DMA_FROM) AND EDU_CMD_DMA_FROM \<noteq> 0"
    by (simp_all add: EDU_CMD_DMA_START_def EDU_CMD_DMA_FROM_def EDU_CMD_DMA_TO_def)
  have "dma_mapped sid (EDU_CMD_DMA_START OR EDU_CMD_DMA_TO) ?k ?m" "dma_fits (EDU_CMD_DMA_START OR EDU_CMD_DMA_TO) ?k"
    using tr [of VTD_PTE_R] f(1) by (simp_all add: dma_mapped_def dma_fits_def EDU_DMA_SIZE_MAX_def)
  then obtain h1 t1 where A: "edu_dma hw dev 0 4 0 False s = Ret (set_io_view (h1, ?m) (s\<lparr>rpt := puts (rpt s) t1\<rparr>))"
      "K h1 = dma_to_device sid ?k ?m"
    using edu_dma_effect [OF C o(2,1), where from_device = False and s = s and iova = 0] o(3) f(1) by (auto simp: dma_done_def)
  let ?s1 = "set_io_view (h1, ?m) (s\<lparr>rpt := puts (rpt s) t1\<rparr>)" and ?k2 = "(K h1)\<lparr>e_src := EDU_DMA_START, e_dst := 4, e_cnt := 4\<rparr>"
  have s1: "devs ?s1 = h1" "ram (vm ?s1) = ?m" "rpt ?s1 = puts (rpt s) t1"
    by (simp_all add: set_io_view_def)
  have rta: "e_rta (K h1) = e_rta (K (devs s))"
    by (simp add: A(2) dma_to_device_def Let_def)
  have "vtd_translate VTD_PTE_W ?m (edu_root (K (devs s))) sid (4 + of_nat i) \<noteq> None" if "i < 4" for i
    using tr [of VTD_PTE_W "4 + i"] that by simp
  then have "dma_mapped sid (EDU_CMD_DMA_START OR EDU_CMD_DMA_FROM) ?k2 ?m" "dma_fits (EDU_CMD_DMA_START OR EDU_CMD_DMA_FROM) ?k2"
    using f(2) rta by (simp_all add: dma_mapped_def dma_fits_def EDU_DMA_SIZE_MAX_def)
  then obtain h2 t2 where B: "edu_dma hw dev 4 4 0 True ?s1 = Ret (set_io_view (h2, dma_from_device sid ?k2 ?m) (?s1\<lparr>rpt := puts (rpt ?s1) t2\<rparr>))"
    using edu_dma_effect [OF C o(2,1), where from_device = True and s = ?s1 and iova = 4] s1 o(4) f(2) by (auto simp: dma_done_def)
  have "dma_from_device sid ?k2 ?m (p + 4 + of_nat i) = ?m (p + of_nat i)" if "i < 4" for i
  proof -
    have "dma_from_device sid ?k2 ?m (p + 4 + of_nat i) = e_buf ?k2 i"
      using tr [of VTD_PTE_W] rta that by (intro dma_from_buf) simp_all
    also have "\<dots> = e_buf (dma_to_device sid ?k ?m) i"
      by (simp add: A(2))
    also have "\<dots> = ?m (p + of_nat i)"
      using tr [of VTD_PTE_R] that by (intro dma_to_buf) simp_all
    finally show ?thesis .
  qed
  then have "loadn 4 (dma_from_device sid ?k2 ?m) (p + 4) = loadn 4 ?m p"
    by (intro loadn_shift) simp
  then show thesis
    using that [OF A(1) B, of "t1 @ t2"] by (simp add: set_io_view_def puts_def)
qed

text \<open>The page of the test, with the word in it, is no table.\<close>

lemma dmar_page:
  fixes s :: "'h vtd_state"
  assumes fl: "free_list (vm s) fs" and ok: "vtd_ok (ram (vm s)) R fs" and len: "5 \<le> length fs"
  obtains p fs1 m1 where "io_alloc_page s = (p, s\<lparr>vm := m1\<rparr>)" and "free_list (m1\<lparr>ram := storen 4 (ram m1) p w\<rparr>) fs1"
    and "vtd_ok (storen 4 (ram m1) p w) R fs1" and "4 \<le> length fs1" and "table_page p" and "p \<notin> set fs1"
    and "p \<notin> vtd_pages (storen 4 (ram m1) p w) R"
proof -
  obtain p fs1 where fs: "fs = p # fs1"
    using len by (cases fs) auto
  define m1 where "m1 = snd (alloc_page (vm s))"
  have al: "fst (alloc_page (vm s)) = p" "free_list m1 fs1" "\<And>a. \<not> in_page a p \<Longrightarrow> ram m1 a = ram (vm s) a"
    using alloc_page_pop [OF fl [unfolded fs]] by (simp_all add: m1_def)
  have d: "distinct ([p] @ fs1)" "p \<notin> set fs1" "\<forall>q \<in> set fs1. page_aligned q"
    using fl unfolding fs by (simp_all add: free_list_def pages_ok_def)
  have pv: "p \<notin> vtd_pages (ram (vm s)) R" "table_page p"
    using ok unfolding fs vtd_ok_def by auto
  then have pal: "page_aligned p"
    by (intro table_page_aligned)
  let ?m = "storen 4 (ram m1) p w"
  have m: "?m x = ram m1 x" if "\<not> in_page x p" for x
    using that by (simp add: storen_apply in_page_def)
  have ag: "agree (vtd_pages (ram (vm s)) R) ?m (ram (vm s))"
  proof (rule outside_agree [of "{p}"])
    show "\<forall>q \<in> {p} \<union> vtd_pages (ram (vm s)) R. page_aligned q"
      using vtd_ok_pages(1) [OF ok] pal by auto
  qed (use m al(3) pv in auto)
  have "agree (set fs1) ?m (ram m1)"
    using d(2,3) pal m by (intro outside_agree [of "{p}"]) auto
  then have "free_list (m1\<lparr>ram := ?m\<rparr>) fs1"
    by (intro free_list_kept [OF al(2)]) simp_all
  moreover have "vtd_ok ?m R fs1" "vtd_pages ?m R = vtd_pages (ram (vm s)) R"
    using vtd_ok_agree [OF _ d(1) ag] ok fs by simp_all
  moreover have "io_alloc_page s = (p, s\<lparr>vm := m1\<rparr>)"
    using al(1) by (simp add: io_alloc_page_def case_prod_beta m1_def)
  ultimately show thesis
    using that pv d(2) len fs by simp
qed

text \<open>
  C14: The DMA test passes. On an IOMMU that translates the accesses of the EDU device through the tables, and with five free
  pages, \<open>vtd_test_dmar\<close> ends, having made one report, and the report is a pass: the word that the device reads through
  the mapping at address 0 and writes back through it at address 4 arrives in the page of the test.
\<close>

theorem vtd_test_dmar_passes:
  fixes s :: "'h vtd_state"
  assumes "edu_conforms hw (vtd_reg_base s) (edu_reg_base dev) (bdf (edu_pci_dev dev)) K" and "vtd_reg_base s \<noteq> 0"
    and "free_list (vm s) fs" and "vtd_ok (ram (vm s)) (edu_root (K (devs s))) fs" and "5 \<le> length fs"
    and "holds (prefixes (rpt s)) ps" and "length (join ps) + 10 < PREFIXES_SZ"
  shows "\<exists>s'. vtd_test_dmar hw dev s = Ret s' \<and> tests (rpt s') = tests (rpt s) + 1 \<and> failures (rpt s') = failures (rpt s)
    \<and> skipped (rpt s') = skipped (rpt s) \<and> holds (prefixes (rpt s')) ps"
proof -
  let ?R = "edu_root (K (devs s))" and ?sid = "bdf (edu_pci_dev dev)"
  obtain p fs1 m1 where pg: "io_alloc_page s = (p, s\<lparr>vm := m1\<rparr>)" "free_list (m1\<lparr>ram := storen 4 (ram m1) p DMA_TEST_WORD\<rparr>) fs1"
      "vtd_ok (storen 4 (ram m1) p DMA_TEST_WORD) ?R fs1" "4 \<le> length fs1" "table_page p" "p \<notin> set fs1"
      "p \<notin> vtd_pages (storen 4 (ram m1) p DMA_TEST_WORD) ?R"
    by (rule dmar_page [OF assms(3-5)])
  obtain arr where arr: "report_prefix_push (rpt s) ''vtd_dmar'' = Ret (rpt s\<lparr>prefixes := arr\<rparr>)" "holds arr (ps @ [''vtd_dmar''])"
    by (rule prefix_pushed [OF assms(6), of "''vtd_dmar''"]) (use assms(7) in \<open>simp_all add: PREFIX_DELIMITER_def\<close>)
  let ?m = "storen 4 (ram m1) p DMA_TEST_WORD"
  define s2 where "s2 = s\<lparr>rpt := rpt s\<lparr>prefixes := arr\<rparr>, vm := m1\<lparr>ram := ?m\<rparr>\<rparr>"
  have C: "law_rta hw (vtd_reg_base s2) K" "vtd_reg_base s2 \<noteq> 0" "vtd_ok (ram (vm s2)) (edu_root (K (devs s2))) fs1" "4 \<le> length fs1"
      "p \<notin> vtd_pages (ram (vm s2)) (edu_root (K (devs s2)))" "free_list (vm s2) fs1"
    using assms(1,2) pg by (simp_all add: s2_def edu_conforms_def)
  obtain s3 t1 where r: "vtd_map_range hw ?sid 0 p PAGE_SIZE s2 = Ret s3" "K (devs s3) = K (devs s2)" "rpt s3 = puts (rpt s2) t1"
      "\<And>x. in_page x p \<Longrightarrow> ram (vm s3) x = ram (vm s2) x" "\<exists>fs'. vtd_ok (ram (vm s3)) (edu_root (K (devs s2))) fs' \<and> distinct fs'"
      "\<And>i. i < 4096 \<Longrightarrow> dev_translate (ram (vm s3)) (edu_root (K (devs s2))) ?sid (of_nat i) = Some (p + of_nat i)"
    by (rule dmar_maps_page [OF C(1,2,6,3,4) pg(5,6) C(5), of ?sid]) blast
  have tr: "vtd_translate acc (ram (vm s3)) (edu_root (K (devs s3))) ?sid (of_nat i) = Some (p + of_nat i)"
    if "acc \<in> {VTD_PTE_R, VTD_PTE_W}" "i < 4096" for acc i
    using r(5) r(6) [OF that(2)] vtd_translate_dev [OF _ that(1)] unfolding r(2) by metis
  obtain s4 s5 t2 where e: "edu_dma hw dev 0 4 0 False s3 = Ret s4" "edu_dma hw dev 4 4 0 True s4 = Ret s5"
      "rpt s5 = puts (rpt s3) t2" "loadn 4 (ram (vm s5)) (p + 4) = loadn 4 (ram (vm s3)) p"
    by (rule dmar_transfers [OF assms(1) tr])
  have "loadn 4 (ram (vm s3)) p = loadn 4 ?m p"
    using r(4) in_page_self [of _ p] by (intro loadn_cong) (simp add: s2_def)
  also have "\<dots> = DMA_TEST_WORD"
    by (rule loadn_storen_same) (simp_all add: DMA_TEST_WORD_def)
  finally have word: "loadn 4 (ram (vm s5)) (p + 4) = DMA_TEST_WORD"
    using e(4) by simp
  obtain t3 where rep: "\<And>s :: 'h vtd_state. io_report ''DMAR 4B memcpy test'' True [] s = Ret (s\<lparr>rpt := puts (rpt s\<lparr>tests := tests (rpt s) + 1\<rparr>) (t3 (rpt s))\<rparr>)"
    by (rule io_report_passes [of "''DMAR 4B memcpy test''" "[]"]) (simp add: parse_simps, blast)
  define s6 where "s6 = s5\<lparr>rpt := puts (rpt s5\<lparr>tests := tests (rpt s5) + 1\<rparr>) (t3 (rpt s5)), vm := free_page p (vm s5)\<rparr>"
  have "prefixes (rpt s6) = arr"
    by (simp add: s6_def e(3) r(3) s2_def)
  then have pop: "report_prefix_pop (rpt s6) = Ret (rpt s6\<lparr>prefixes := arr[length (join ps) := NUL]\<rparr>)" "holds (arr[length (join ps) := NUL]) ps"
    using pop_holds [of "rpt s6" ps "''vtd_dmar''"] arr(2) by simp_all
  have "vtd_test_dmar hw dev s = Ret (s6\<lparr>rpt := rpt s6\<lparr>prefixes := arr[length (join ps) := NUL]\<rparr>\<rparr>)"
    using arr(1) pg(1) r(1) e(1,2) word rep pop(1) by (simp add: vtd_test_dmar_def set_ram_def s2_def s6_def)
  then show ?thesis
    using pop(2) by (simp add: s6_def e(3) r(3) s2_def)
qed

text \<open>A simulated device that completes a transfer at once.\<close>

definition edu_sim :: "u64 \<Rightarrow> u64 \<Rightarrow> u16 \<Rightarrow> edu_regs io_hw" where
  "edu_sim b d sid =
     \<lparr>raw_readl = \<lambda>a v. (0, v),
      raw_readq = \<lambda>a v. (if a = b + DMAR_RTADDR_REG then e_rta (fst v) else 0, v),
      raw_writel = \<lambda>c a v. if a = d + EDU_REG_DMA_CMD \<and> c AND EDU_CMD_DMA_START \<noteq> 0 then dma_done sid c v else v,
      raw_writeq = \<lambda>x a (k, m).
        (if a = d + EDU_REG_DMA_SRC then k\<lparr>e_src := x\<rparr>
         else if a = d + EDU_REG_DMA_DST then k\<lparr>e_dst := x\<rparr>
         else if a = d + EDU_REG_DMA_COUNT then k\<lparr>e_cnt := x\<rparr> else k, m)\<rparr>"

lemma edu_sim_conforms: "edu_conforms (edu_sim b d sid) b d sid id"
proof -
  have "law_regs (edu_sim b d sid) d id"
    by (simp add: law_regs_def edu_sim_def EDU_REG_DMA_SRC_def EDU_REG_DMA_DST_def EDU_REG_DMA_COUNT_def)
  moreover have "law_dma (edu_sim b d sid) d sid id"
    by (auto simp: law_dma_def edu_sim_def poll_def intro!: exI [of _ 0])
  ultimately show ?thesis
    by (simp add: edu_conforms_def law_rta_def edu_sim_def)
qed

theorem vtd_test_dmar_passes_witness:
  "\<exists>(s :: edu_regs vtd_state) s'.
     vtd_test_dmar (edu_sim 0xfed90000 0x5000000 0x18) \<lparr>edu_pci_dev = \<lparr>bdf = 0x18, msi_offset = 0, resource = []\<rparr>, edu_reg_base = 0x5000000\<rparr> s = Ret s'
     \<and> rpt s = report_init \<and> tests (rpt s') = 1 \<and> failures (rpt s') = 0"
proof -
  obtain m where m: "free_list m (run 0x2000 8)" "\<And>x. in_page x 0x1000 \<Longrightarrow> ram m x = 0"
      "\<forall>p \<in> set (0x1000 # run 0x2000 8). table_page p" "distinct (0x1000 # run 0x2000 8)"
    using empty_root_page by blast
  let ?dev = "\<lparr>edu_pci_dev = \<lparr>bdf = 0x18, msi_offset = 0, resource = []\<rparr>, edu_reg_base = 0x5000000\<rparr>"
  let ?h = "\<lparr>e_rta = 0x1000, e_src = 0, e_dst = 0, e_cnt = 0, e_buf = \<lambda>_. 0\<rparr>"
  have "vtd_ok (ram m) 0x1000 (run 0x2000 8)"
    using zero_root_ok [OF m(2,3)] m(4) by simp
  moreover have "holds (prefixes report_init) []"
    by (simp add: holds_def report_init_def PREFIXES_SZ_def)
  ultimately obtain s' where "vtd_test_dmar (edu_sim 0xfed90000 0x5000000 0x18) ?dev (vtd_start ?h m) = Ret s'"
      "tests (rpt s') = tests report_init + 1" "failures (rpt s') = failures report_init"
    using vtd_test_dmar_passes [of "edu_sim 0xfed90000 0x5000000 0x18" "vtd_start ?h m" ?dev id "run 0x2000 8" "[]"] m(1) edu_sim_conforms
    by (auto simp: vtd_start_def PAGE_MASK_def PAGE_SIZE_def run_def PREFIXES_SZ_def)
  then show ?thesis
    by (intro exI [of _ "vtd_start ?h m"] exI [of _ s']) (simp add: vtd_start_def report_init_def)
qed

end
