(* ===== verification/Vtd_Irq.thy ===== *)
theory Vtd_Irq
  imports Vtd_Test
begin

text \<open>
  Interrupt remapping: the message that \<open>vtd_setup_msi\<close> gives the device, and the entry that \<open>vtd_setup_ioapic_irq\<close> gives
  the I/O APIC, lead the IOMMU to a new table entry with the vector asked for. The lemmas also say to which processor the interrupt goes, and whose requests the
  entry admits: the identifier of the destination is stored where the IOMMU looks for it in extended mode only, which the code does not
  turn on, and the entry of an I/O APIC line admits the PCI device and not the I/O APIC.
\<close>

unbundle bit_operations_syntax

section \<open>What the IOMMU does with an interrupt request\<close>

definition irte_at :: "u64 \<Rightarrow> u64 \<Rightarrow> u64" where
  "irte_at T i = T + 16 * i"

text \<open>
  \<open>irta\<close> is the address register of the table: bits 0 to 3 give its size, bit 11 the extended interrupt mode, the bits from 12 on the address.
  A present entry in remapped format gives the vector, the destination mode, the destination, the trigger mode and the delivery mode. The destination is the
  32-bit field at bit 32 in extended mode, and otherwise bits 8 to 15 of this field, at bit 40. With validation type 1 and
  qualifier 0 the request must come from the device with the identifier in the entry; entries with other checks are counted as refusing.
\<close>

definition remap_entry :: "u64 \<Rightarrow> mem \<Rightarrow> u16 \<Rightarrow> u64 \<Rightarrow> (u64 \<times> u64 \<times> u64 \<times> u64 \<times> u64) option" where
  "remap_entry irta m sid i =
     (let T = irta AND NOT (mask 12); lo = load64 m (irte_at T i); hi = load64 m (irte_at T i + 8) in
      if unat i < 2 ^ (unat (get_bits 0 4 irta) + 1) \<and> bit lo 0 \<and> \<not> bit lo 15
        \<and> (get_bits 18 2 hi = 0 \<or> get_bits 18 2 hi = 1 \<and> get_bits 16 2 hi = 0 \<and> get_bits 0 16 hi = ucast sid)
      then Some (get_bits 16 8 lo, get_bits 2 1 lo, if bit irta 11 then get_bits 32 32 lo else get_bits 40 8 lo, get_bits 4 1 lo, get_bits 5 3 lo) else None)"

text \<open>The address of a message in remappable format; without the subhandle bit the handle is the index.\<close>

definition msi_remap :: "u64 \<Rightarrow> mem \<Rightarrow> u16 \<Rightarrow> u64 \<Rightarrow> (u64 \<times> u64 \<times> u64 \<times> u64 \<times> u64) option" where
  "msi_remap irta m sid a =
     (if bit a 4 \<and> \<not> bit a 3 \<and> get_bits 20 12 a = 0xfee
      then remap_entry irta m sid (get_bits 5 15 a OR push_bit 15 (get_bits 2 1 a)) else None)"

text \<open>A request of the I/O APIC for an entry in remappable format; \<open>sid\<close> is the identifier that the I/O APIC sends.\<close>

definition ioapic_remap :: "u64 \<Rightarrow> mem \<Rightarrow> u16 \<Rightarrow> u64 \<Rightarrow> (u64 \<times> u64 \<times> u64 \<times> u64 \<times> u64) option" where
  "ioapic_remap irta m sid e =
     (if bit e 48 then remap_entry irta m sid (get_bits 49 15 e OR push_bit 15 (get_bits 11 1 e)) else None)"

text \<open>The register as \<open>vtd_setup_ir_table\<close> programs it for the table \<open>T\<close>: 65536 entries, no extended mode.\<close>

lemma irta_programmed:
  assumes "page_aligned T"
  shows "(T OR 0xf) AND NOT (mask 12) = T" and "get_bits 0 4 (T OR 0xf) = 15" and "\<not> bit (T OR 0xf) 11"
proof -
  have m: "(0xf :: u64) = mask 4"
    by (simp add: mask_eq_exp_minus_1)
  have b: "\<not> bit T n" if "n < 12" for n
    using arg_cong [OF assms [unfolded aligned_def], of "\<lambda>x. bit x n"] that by (simp add: bit_take_bit_iff)
  show "(T OR 0xf) AND NOT (mask 12) = T"
    unfolding m
  proof (rule bit_word_eqI)
    fix n :: nat
    assume "n < LENGTH(64)"
    then show "bit ((T OR mask 4) AND NOT (mask 12)) n = bit T n"
      using b [of n] by (auto simp: bit_and_iff bit_or_iff bit_not_iff bit_mask_iff)
  qed
  have "get_bits 0 4 (T OR mask 4) = mask 4"
    by (rule bit_word_eqI) (use b in \<open>auto simp: bit_get_bits bit_or_iff bit_mask_iff\<close>)
  then show "get_bits 0 4 (T OR 0xf) = 15"
    unfolding m by simp
  show "\<not> bit (T OR 0xf) 11"
    using b [of 11] unfolding m by (simp add: bit_or_iff bit_mask_iff)
qed

lemma unat_u16_u64: "unat (ucast (i :: u16) :: u64) = unat i"
proof -
  have "unat i < 2 ^ 16"
    using unsigned_less [of i] by simp
  then show ?thesis
    by (simp add: unsigned_ucast_eq take_bit_nat_eq_self)
qed

lemma remap_programmed:
  fixes i :: u16
  assumes "page_aligned T"
  shows "remap_entry (T OR 0xf) m sid (ucast i) =
     (let lo = load64 m (irte_at T (ucast i)); hi = load64 m (irte_at T (ucast i) + 8) in
      if bit lo 0 \<and> \<not> bit lo 15 \<and> (get_bits 18 2 hi = 0 \<or> get_bits 18 2 hi = 1 \<and> get_bits 16 2 hi = 0 \<and> get_bits 0 16 hi = ucast sid)
      then Some (get_bits 16 8 lo, get_bits 2 1 lo, get_bits 40 8 lo, get_bits 4 1 lo, get_bits 5 3 lo) else None)"
proof -
  have "unat (ucast i :: u64) < 2 ^ (unat (get_bits 0 4 (T OR 0xf)) + 1)"
    unfolding irta_programmed(2) [OF assms] unat_u16_u64 using unsigned_less [of i] by simp
  then show ?thesis
    using irta_programmed(3) [OF assms] unfolding remap_entry_def Let_def irta_programmed(1) [OF assms] by auto
qed

section \<open>The message and the entry\<close>

lemma mask_u16: "(0x7fff :: u16) = mask 15" "(1 :: u16) = mask 1"
  by (simp_all add: mask_eq_exp_minus_1)

lemma bit_0xfee: "bit (0xfee :: u64) n \<Longrightarrow> n < 12"
proof -
  have "take_bit 12 (0xfee :: u64) = 0xfee"
    by simp
  then show "bit (0xfee :: u64) n \<Longrightarrow> n < 12"
    using bit_take_bit_iff [of 12 "0xfee :: u64" n] by simp
qed

lemma msi_addr_index:
  fixes index :: u16
  shows "bit (msi_addr_of index) 4" and "\<not> bit (msi_addr_of index) 3" and "get_bits 20 12 (msi_addr_of index) = 0xfee"
    and "get_bits 5 15 (msi_addr_of index) OR push_bit 15 (get_bits 2 1 (msi_addr_of index)) = ucast index"
  unfolding msi_addr_of_def mask_u16
  subgoal by (simp add: bit_put_bits bit_1_iff)
  subgoal by (simp add: bit_put_bits)
  subgoal by (rule bit_word_eqI) (use bit_0xfee in \<open>auto simp: bit_put_bits bit_get_bits\<close>)
  subgoal
    by (rule bit_word_eqI) (auto simp: bit_put_bits bit_get_bits bit_or_iff bit_push_bit_iff bit_ucast_iff bit_and_iff bit_mask_iff bit_drop_bit_eq
        dest: bit_imp_le_length)
  done

lemma ioapic_entry_index:
  fixes index :: u16
  shows "bit (ioapic_entry_of vector trigger index) 48"
    and "get_bits 49 15 (ioapic_entry_of vector trigger index) OR push_bit 15 (get_bits 11 1 (ioapic_entry_of vector trigger index)) = ucast index"
  unfolding ioapic_entry_of_def mask_u16
  subgoal by (simp add: bit_put_bits bit_1_iff)
  subgoal
    by (rule bit_word_eqI) (auto simp: bit_put_bits bit_get_bits bit_or_iff bit_push_bit_iff bit_ucast_iff bit_and_iff bit_mask_iff bit_drop_bit_eq
        dest: bit_imp_le_length)
  done

lemma load_cleared: "q \<in> {0, 8} \<Longrightarrow> load64 (memset m p 0 16) (p + q) = 0"
proof -
  assume q: "q \<in> {0, 8}"
  have "load64 (memset m p 0 16) (p + q) = load64 (\<lambda>_. 0) (p + q)"
  proof (rule loadn_cong)
    fix i :: nat
    assume i: "i < 8"
    have "unat (q + of_nat i) = unat q + i"
      using q i unat_of_nat_u64 [of "8 + i"] by auto
    then show "memset m p 0 16 (p + q + of_nat i) = 0"
      using q i by (auto simp: memset_apply add.assoc)
  qed
  then show ?thesis
    by (simp add: numeral_eq_Suc)
qed

lemma irte_words:
  fixes vector dest_id trigger :: u32 and m :: mem and dev :: pci_dev
  assumes "aligned 3 p"
  defines "m' \<equiv> vtd_setup_irte dev p vector dest_id trigger m"
  shows "bit (load64 m' p) 0" and "get_bits 16 8 (load64 m' p) = take_bit 8 (ucast vector)" and "get_bits 32 32 (load64 m' p) = ucast dest_id"
    and "get_bits 4 1 (load64 m' p) = get_bits 0 1 (ucast trigger)" and "get_bits 5 3 (load64 m' p) = 0"
    and "get_bits 2 1 (load64 m' p) = 0" and "\<not> bit (load64 m' p) 15" and "get_bits 40 8 (load64 m' p) = get_bits 8 8 (ucast dest_id)"
    and "get_bits 18 2 (load64 m' (p + 8)) = 1" and "get_bits 16 2 (load64 m' (p + 8)) = 0" and "get_bits 0 16 (load64 m' (p + 8)) = ucast (bdf dev)"
    and "16 \<le> unat (x - p) \<Longrightarrow> m' x = m x"
proof -
  let ?f = "[(ir_field Ir_fault_disable, 1), (ir_field Ir_dest_mode, 0), (ir_field Ir_trigger_mode, ucast trigger),
        (ir_field Ir_delivery_mode, 0), (ir_field Ir_irte_mode, 0), (ir_field Ir_vector, ucast vector),
        (ir_field Ir_dest_id, ucast dest_id), (ir_field Ir_source_id, ucast (bdf dev)), (ir_field Ir_sid_q, 0),
        (ir_field Ir_sid_vtype, 1), (ir_field Ir_present, 1)] :: (bitfield \<times> u64) list"
  have q: "\<forall>fv \<in> set ?f. fst (fst fv) \<in> {0, 8}"
    by simp
  have w: "load64 m' (p + q) = quad_fields q ?f 0" if "q \<in> {0, 8}" for q
    by (simp only: m'_def vtd_setup_irte_def load_put_fields [OF assms(1) that q] load_cleared [OF that])
  note lo = w [of 0, simplified] and hi = w [of 8, simplified]
  note b = bit_put_bits bit_get_bits bit_1_iff bit_take_bit_iff bit_ucast_iff
  show "bit (load64 m' p) 0"
    by (simp add: lo bit_put_bits)
  show "get_bits 16 8 (load64 m' p) = take_bit 8 (ucast vector)"
    by (rule bit_word_eqI) (auto simp: lo b)
  show "get_bits 32 32 (load64 m' p) = ucast dest_id"
    by (rule bit_word_eqI) (auto simp: lo b dest: bit_imp_le_length)
  show "get_bits 4 1 (load64 m' p) = get_bits 0 1 (ucast trigger)"
    by (rule bit_word_eqI) (auto simp: lo b)
  show "get_bits 5 3 (load64 m' p) = 0"
    by (rule bit_word_eqI) (auto simp: lo b)
  show "get_bits 2 1 (load64 m' p) = 0"
    by (rule bit_word_eqI) (auto simp: lo b)
  show "\<not> bit (load64 m' p) 15"
    by (simp add: lo bit_put_bits)
  show "get_bits 40 8 (load64 m' p) = get_bits 8 8 (ucast dest_id)"
    by (rule bit_word_eqI) (auto simp: lo b)
  show "get_bits 18 2 (load64 m' (p + 8)) = 1"
    by (rule bit_word_eqI) (auto simp: hi b)
  show "get_bits 16 2 (load64 m' (p + 8)) = 0"
    by (rule bit_word_eqI) (auto simp: hi b)
  show "get_bits 0 16 (load64 m' (p + 8)) = ucast (bdf dev)"
    by (rule bit_word_eqI) (auto simp: hi b dest: bit_imp_le_length)
  show "16 \<le> unat (x - p) \<Longrightarrow> m' x = m x"
    using put_fields_outside [of x p ?f] q by (simp add: m'_def vtd_setup_irte_def memset_apply)
qed

lemma irte_apart:
  fixes i j :: u16
  assumes "j \<noteq> i" and "k < 16"
  shows "16 \<le> unat (irte_at T (ucast j) + of_nat k - irte_at T (ucast i))"
proof -
  have lt: "unat i < 65536" "unat j < 65536"
    using unsigned_less [of i] unsigned_less [of j] by simp_all
  have ne: "unat i \<noteq> unat j"
    using assms(1) by (simp add: word_unat_eq_iff)
  have u: "(ucast x :: u64) = of_nat (unat x)" for x :: u16
    by simp
  show ?thesis
  proof (cases "unat i < unat j")
    case True
    then have "irte_at T (ucast j) + of_nat k - irte_at T (ucast i) = of_nat (16 * (unat j - unat i) + k)"
      by (simp add: irte_at_def of_nat_diff algebra_simps)
    moreover have "unat (of_nat (16 * (unat j - unat i) + k) :: u64) = 16 * (unat j - unat i) + k"
      using lt assms(2) by (intro unat_of_nat_u64) simp
    ultimately show ?thesis
      using True by (simp only:)
  next
    case False
    define n where "n = 16 * (unat i - unat j) - k"
    have n: "0 < n" "n < 2 ^ 30"
      using False ne lt assms(2) by (auto simp: n_def)
    have "irte_at T (ucast j) + of_nat k - irte_at T (ucast i) = - of_nat n"
      using False ne assms(2) by (simp add: n_def irte_at_def of_nat_diff algebra_simps)
    moreover have "unat (- of_nat n :: u64) + unat (of_nat n :: u64) = 2 ^ 64"
      using n by (intro unat_uminus) (auto simp: word_unat_eq_iff)
    moreover have "unat (of_nat n :: u64) = n"
      using n by (intro unat_of_nat_u64) simp
    ultimately show ?thesis
      using n by simp
  qed
qed

lemma irte_aligned:
  assumes "page_aligned T"
  shows "aligned 3 (irte_at T i)"
proof -
  have "irte_at T i = entry T (2 * i)"
    by (simp add: irte_at_def entry_def)
  then show ?thesis
    using aligned_entry [OF assms] by simp
qed

lemma setup_irte_remaps:
  fixes i :: u16 and dev :: pci_dev and vector dest_id trigger :: u32 and m :: mem
  assumes "page_aligned T"
  defines "m' \<equiv> vtd_setup_irte dev (irte_at T (ucast i)) vector dest_id trigger m"
  shows "remap_entry (T OR 0xf) m' sid (ucast i) =
      (if sid = bdf dev then Some (take_bit 8 (ucast vector), 0, get_bits 8 8 (ucast dest_id), get_bits 0 1 (ucast trigger), 0) else None)"
    and "j \<noteq> i \<Longrightarrow> remap_entry (T OR 0xf) m' sid (ucast j) = remap_entry (T OR 0xf) m sid (ucast j)"
proof -
  note a = irte_aligned [OF assms(1), of "ucast i"]
  note w = irte_words [OF a, where dev = dev and vector = vector and dest_id = dest_id and trigger = trigger and m = m, folded m'_def]
  have "(ucast (bdf dev) :: u64) = ucast sid \<longleftrightarrow> sid = bdf dev"
    by (auto simp: word_unat_eq_iff unat_u16_u64)
  then show "remap_entry (T OR 0xf) m' sid (ucast i) =
      (if sid = bdf dev then Some (take_bit 8 (ucast vector), 0, get_bits 8 8 (ucast dest_id), get_bits 0 1 (ucast trigger), 0) else None)"
    using w(1-11) unfolding remap_programmed [OF assms(1)] Let_def by simp
  assume j: "j \<noteq> i"
  have "load64 m' (irte_at T (ucast j)) = load64 m (irte_at T (ucast j))"
    using w(12) [OF irte_apart [OF j]] by (intro loadn_cong) simp
  moreover have "load64 m' (irte_at T (ucast j) + 8) = load64 m (irte_at T (ucast j) + 8)"
  proof (rule loadn_cong)
    fix k :: nat
    assume "k < 8"
    then show "m' (irte_at T (ucast j) + 8 + of_nat k) = m (irte_at T (ucast j) + 8 + of_nat k)"
      using w(12) [OF irte_apart [OF j, of "8 + k"]] by (simp add: add.assoc)
  qed
  ultimately show "remap_entry (T OR 0xf) m' sid (ucast j) = remap_entry (T OR 0xf) m sid (ucast j)"
    unfolding remap_programmed [OF assms(1)] by simp
qed

section \<open>Setting up an interrupt\<close>

lemma ir_table_aligned:
  assumes "vtd_ir_table hw s = Ret (T, s0)"
  shows "page_aligned T"
proof -
  obtain x where "T = x AND PAGE_MASK"
    using assms by (auto simp: vtd_ir_table_def bind_outcome_Ret_iff)
  moreover have "PAGE_MASK = NOT (mask 12)"
    by (simp add: PAGE_MASK_def PAGE_SIZE_def mask_eq_exp_minus_1)
  ultimately have "T = x AND NOT (mask 12)"
    by (simp only:)
  then show ?thesis
    unfolding aligned_def by (simp only:) (rule bit_word_eqI, auto simp: bit_take_bit_iff bit_and_iff bit_not_iff bit_mask_iff)
qed

lemma irq_printable:
  "printable (parse_fmt (''INTR: alloc IRTE index %d'' @ [CHR 0x0A])) [VInt w]"
  "printable (parse_fmt (''%s: msi_addr=%#lx, msi_data=%#x'' @ [CHR 0x0A])) [VStr ''vtd_setup_msi'', VInt x, VInt y]"
  using sint_greater_eq [of "ucast w :: u32"] by (simp_all add: parse_simps props0_def va_int_def)

lemma index_alloc:
  fixes s :: "'h vtd_state"
  assumes "unat (index_ctr s) < 65535"
  shows "\<exists>t. vtd_intr_index_alloc s = Ret (ucast (index_ctr s + 1), s\<lparr>index_ctr := index_ctr s + 1, rpt := puts (rpt s) t\<rparr>)"
proof -
  have u: "uint (index_ctr s) < 65535"
    using assms unfolding uint_nat by linarith
  have "- (2 ^ 31) \<le> uint (index_ctr s)"
    by (rule order_trans [of _ 0]) simp_all
  then have "signed_take_bit 31 (uint (index_ctr s)) = uint (index_ctr s)"
    using u by (intro signed_take_bit_int_eq_self) auto
  then have a: "sint (index_ctr s) < 65535"
    using u by (simp add: sint_uint)
  obtain t where t: "\<forall>s' :: 'h vtd_state. io_printf (''INTR: alloc IRTE index %d'' @ [CHR 0x0A]) [VInt (ucast (index_ctr s + 1))] s' = Ret (s'\<lparr>rpt := puts (rpt s') t\<rparr>)"
    using printable_io_printf [OF irq_printable(1) [of "ucast (index_ctr s + 1)"]] by (rule exE)
  show ?thesis
    using a t by (intro exI [of _ t]) (simp add: vtd_intr_index_alloc_def Let_def)
qed

lemma setup_msi_effect:
  fixes s :: "'h vtd_state"
  assumes "vtd_ir_table hw s = Ret (T, s0)" and "unat (index_ctr s0) < 65535"
  defines "i \<equiv> ucast (index_ctr s0 + 1)"
  shows "\<exists>s1. vtd_setup_msi hw E dev vector dest_id s = with_pci (pci_setup_msi E dev (msi_addr_of i) 0) s1 \<and> index_ctr s1 = index_ctr s0 + 1
    \<and> ram (vm s1) = vtd_setup_irte dev (irte_at T (ucast i)) vector dest_id TRIGGER_EDGE (ram (vm s0))"
proof -
  let ?m = "vtd_setup_irte dev (irte_at T (ucast i)) vector dest_id TRIGGER_EDGE (ram (vm s0))"
  obtain t where t: "vtd_intr_index_alloc s0 = Ret (i, s0\<lparr>index_ctr := index_ctr s0 + 1, rpt := puts (rpt s0) t\<rparr>)"
    using index_alloc [OF assms(2)] unfolding i_def by blast
  obtain u where u: "\<forall>s :: 'h vtd_state. io_printf (''%s: msi_addr=%#lx, msi_data=%#x'' @ [CHR 0x0A]) [VStr ''vtd_setup_msi'', VInt (msi_addr_of i), VInt 0] s
      = Ret (s\<lparr>rpt := puts (rpt s) u\<rparr>)"
    using printable_io_printf [OF irq_printable(2) [of "msi_addr_of i" 0]] by (rule exE)
  define s1 where "s1 = (set_ram ?m (s0\<lparr>index_ctr := index_ctr s0 + 1, rpt := puts (rpt s0) t\<rparr>))\<lparr>rpt := puts (puts (rpt s0) t) u\<rparr>"
  have "ram (vm s1) = ?m" "index_ctr s1 = index_ctr s0 + 1"
    by (simp_all add: s1_def set_ram_def)
  moreover have "vtd_setup_msi hw E dev vector dest_id s = with_pci (pci_setup_msi E dev (msi_addr_of i) 0) s1"
    using assms(1) t u by (simp add: vtd_setup_msi_def Let_def s1_def set_ram_def irte_at_def)
  ultimately show ?thesis
    by blast
qed

text \<open>
  C24: Remapping of message signalled interrupts. When the counter of table entries is not exhausted, \<open>vtd_setup_msi\<close>
  gives the device, through \<open>pci_setup_msi\<close>, an address with which its message selects a new table entry. With the table register as
  \<open>vtd_setup_ir_table\<close> programs it, the IOMMU turns a message of this device, and of no other, into the vector of the call, fixed, edge triggered and
  physical; every other entry is kept. The destination is not the one of the call but its bits 8 to 15: the code stores the identifier
  as extended interrupt mode has it and leaves this mode off. So destination 0, which the tests use, is right, and every other identifier below
  256 leads to processor 0.
\<close>

theorem vtd_setup_msi_remaps:
  fixes s :: "'h vtd_state"
  assumes "vtd_ir_table hw s = Ret (T, s0)" and "unat (index_ctr s0) < 65535"
  shows "\<exists>a s1. vtd_setup_msi hw E dev vector dest_id s = with_pci (pci_setup_msi E dev a 0) s1 \<and> index_ctr s1 = index_ctr s0 + 1
    \<and> (\<forall>sid. msi_remap (T OR 0xf) (ram (vm s1)) sid a =
        (if sid = bdf dev then Some (take_bit 8 (ucast vector), 0, get_bits 8 8 (ucast dest_id), 0, 0) else None))
    \<and> (\<forall>sid j. j \<noteq> ucast (index_ctr s0 + 1)
        \<longrightarrow> remap_entry (T OR 0xf) (ram (vm s1)) sid (ucast (j :: u16)) = remap_entry (T OR 0xf) (ram (vm s0)) sid (ucast j))"
proof -
  let ?i = "ucast (index_ctr s0 + 1) :: u16"
  obtain s1 where s1: "vtd_setup_msi hw E dev vector dest_id s = with_pci (pci_setup_msi E dev (msi_addr_of ?i) 0) s1" "index_ctr s1 = index_ctr s0 + 1"
      "ram (vm s1) = vtd_setup_irte dev (irte_at T (ucast ?i)) vector dest_id TRIGGER_EDGE (ram (vm s0))"
    using setup_msi_effect [OF assms] by blast
  note r = setup_irte_remaps [OF ir_table_aligned [OF assms(1)], where i = ?i and dev = dev and vector = vector and dest_id = dest_id
      and trigger = TRIGGER_EDGE and m = "ram (vm s0)", folded s1(3)]
  have "msi_remap (T OR 0xf) (ram (vm s1)) sid (msi_addr_of ?i) =
      (if sid = bdf dev then Some (take_bit 8 (ucast vector), 0, get_bits 8 8 (ucast dest_id), 0, 0) else None)" for sid
    unfolding msi_remap_def msi_addr_index(4) r(1) using msi_addr_index(1-3) [of ?i] by (simp add: TRIGGER_EDGE_def get_bits_def)
  then show ?thesis
    using s1(1,2) r(2) by blast
qed

lemma rta_ir:
  "vtd_ir_table (rta_hw 0x1000) ((vtd_start () m)\<lparr>index_ctr := n\<rparr>) = Ret (0x1000, (vtd_start () m)\<lparr>index_ctr := n\<rparr>)"
  by (simp add: vtd_ir_table_def vtd_readq_def vtd_reg_def dev_readq_def rta_hw_def vtd_start_def io_view_def set_io_view_def
      PAGE_MASK_def PAGE_SIZE_def)

theorem vtd_setup_msi_remaps_witness:
  "\<forall>E dev m. \<exists>a s1. vtd_setup_msi (rta_hw 0x1000) E dev 0xee 2 ((vtd_start () m)\<lparr>index_ctr := 5\<rparr>) = with_pci (pci_setup_msi E dev a 0) s1
    \<and> index_ctr s1 = 6 \<and> msi_remap 0x100f (ram (vm s1)) (bdf dev) a = Some (0xee, 0, 0, 0, 0)
    \<and> remap_entry 0x100f (ram (vm s1)) 7 2 = remap_entry 0x100f (ram m) 7 2"
proof (intro allI)
  fix E dev m
  have "get_bits 8 8 (2 :: u64) = 0"
    by (simp add: get_bits_def)
  then obtain a s1 where r: "vtd_setup_msi (rta_hw 0x1000) E dev 0xee 2 ((vtd_start () m)\<lparr>index_ctr := 5\<rparr>) = with_pci (pci_setup_msi E dev a 0) s1"
      "index_ctr s1 = 6" "msi_remap 0x100f (ram (vm s1)) (bdf dev) a = Some (0xee, 0, 0, 0, 0)"
      "\<forall>sid j. j \<noteq> 6 \<longrightarrow> remap_entry 0x100f (ram (vm s1)) sid (ucast (j :: u16)) = remap_entry 0x100f (ram m) sid (ucast j)"
    using vtd_setup_msi_remaps [OF rta_ir [of 5 m], of E dev "0xee" 2] by (auto simp: vtd_start_def)
  then show "\<exists>a s1. vtd_setup_msi (rta_hw 0x1000) E dev 0xee 2 ((vtd_start () m)\<lparr>index_ctr := 5\<rparr>) = with_pci (pci_setup_msi E dev a 0) s1
      \<and> index_ctr s1 = 6 \<and> msi_remap 0x100f (ram (vm s1)) (bdf dev) a = Some (0xee, 0, 0, 0, 0)
      \<and> remap_entry 0x100f (ram (vm s1)) 7 2 = remap_entry 0x100f (ram m) 7 2"
    using spec [OF spec [OF r(4), of 7], of 2] by (intro exI [of _ a] exI [of _ s1]) simp
qed

text \<open>
  The I/O APIC. \<open>vtd_setup_ioapic_irq\<close> writes the two halves of an entry to the redirection register of the line of the device, and the entry
  selects a new table entry with the vector and the trigger mode of the call. The table entry checks the identifier of the PCI device: a request
  in which the I/O APIC sends an identifier of its own is refused. The destination is taken as for messages.
\<close>

theorem vtd_setup_ioapic_remaps:
  fixes s :: "'h vtd_state"
  assumes "vtd_ir_table hw s = Ret (T, s0)" and "unat (index_ctr s0) < 65535"
  shows "\<exists>e s1. vtd_setup_ioapic_irq hw E dev vector dest_id trigger s =
      bind_outcome (with_pci (\<lambda>w. Ret (pci_intx_line E dev w)) s1) (\<lambda>(line, s).
        Ret (dev_writel hw (ucast (drop_bit 32 e)) 0xfec00010 (dev_writel hw (0x11 + 2 * ucast line) 0xfec00000
          (dev_writel hw (ucast e) 0xfec00010 (dev_writel hw (0x10 + 2 * ucast line) 0xfec00000 s)))))
    \<and> index_ctr s1 = index_ctr s0 + 1
    \<and> (\<forall>sid. ioapic_remap (T OR 0xf) (ram (vm s1)) sid e = (if sid = bdf dev
        then Some (take_bit 8 (ucast vector), 0, get_bits 8 8 (ucast dest_id), get_bits 0 1 (ucast trigger), 0) else None))"
proof -
  let ?i = "ucast (index_ctr s0 + 1) :: u16"
  let ?m = "vtd_setup_irte dev (irte_at T (ucast ?i)) vector dest_id trigger (ram (vm s0))"
  obtain t where t: "vtd_intr_index_alloc s0 = Ret (?i, s0\<lparr>index_ctr := index_ctr s0 + 1, rpt := puts (rpt s0) t\<rparr>)"
    using index_alloc [OF assms(2)] by blast
  define s1 where "s1 = set_ram ?m (s0\<lparr>index_ctr := index_ctr s0 + 1, rpt := puts (rpt s0) t\<rparr>)"
  have s1: "ram (vm s1) = ?m" "index_ctr s1 = index_ctr s0 + 1"
    by (simp_all add: s1_def set_ram_def)
  let ?e = "ioapic_entry_of vector trigger ?i"
  have redir: "ioapic_write_redir hw line e s = dev_writel hw (ucast (drop_bit 32 e)) 0xfec00010 (dev_writel hw (0x11 + 2 * line) 0xfec00000
      (dev_writel hw (ucast e) 0xfec00010 (dev_writel hw (0x10 + 2 * line) 0xfec00000 s)))" for line e and s :: "'h vtd_state"
    by (simp add: ioapic_write_redir_def ioapic_write_reg_def g_ioapic_def ac_simps)
  have "vtd_setup_ioapic_irq hw E dev vector dest_id trigger s =
      bind_outcome (with_pci (\<lambda>w. Ret (pci_intx_line E dev w)) s1) (\<lambda>(line, s). Ret (ioapic_write_redir hw (ucast line) ?e s))"
    using assms(1) t by (simp add: vtd_setup_ioapic_irq_def Let_def s1_def irte_at_def)
  moreover have "ioapic_remap (T OR 0xf) (ram (vm s1)) sid ?e = (if sid = bdf dev
      then Some (take_bit 8 (ucast vector), 0, get_bits 8 8 (ucast dest_id), get_bits 0 1 (ucast trigger), 0) else None)" for sid
    unfolding s1 ioapic_remap_def ioapic_entry_index(2) setup_irte_remaps(1) [OF ir_table_aligned [OF assms(1)]]
    using ioapic_entry_index(1) [of vector trigger ?i] by simp
  ultimately show ?thesis
    using s1(2) unfolding redir by blast
qed

text \<open>
  C39: The table of interrupt entries overruns its page. \<open>vtd_setup_ir_table\<close> allocates one page, which has room for 256 entries, and
  tells the IOMMU that there are 65536; the counter of entries is checked against 65535 only. From the 256th interrupt on
  \<open>vtd_setup_msi\<close> writes an entry to memory behind the page.
\<close>

theorem vtd_setup_msi_overrun:
  fixes s :: "'h vtd_state"
  assumes "vtd_ir_table hw s = Ret (T, s0)" and "255 \<le> unat (index_ctr s0)" and "unat (index_ctr s0) < 65535"
  shows "\<exists>a s1 x. vtd_setup_msi hw E dev vector dest_id s = with_pci (pci_setup_msi E dev a 0) s1
    \<and> unat PAGE_SIZE \<le> unat (x - T) \<and> get_bits 16 8 (load64 (ram (vm s1)) x) = take_bit 8 (ucast vector)
    \<and> get_bits 32 32 (load64 (ram (vm s1)) x) = ucast dest_id"
proof -
  let ?i = "ucast (index_ctr s0 + 1) :: u16"
  obtain s1 where s1: "vtd_setup_msi hw E dev vector dest_id s = with_pci (pci_setup_msi E dev (msi_addr_of ?i) 0) s1"
      "ram (vm s1) = vtd_setup_irte dev (irte_at T (ucast ?i)) vector dest_id TRIGGER_EDGE (ram (vm s0))"
    using setup_msi_effect [OF assms(1,3)] by blast
  have "unat (index_ctr s0 + 1) = unat (index_ctr s0) + 1"
    using assms(3) by (simp add: unat_word_ariths)
  then have i: "256 \<le> unat ?i" "unat ?i < 65536"
    using assms(2,3) by (simp_all add: unsigned_ucast_eq take_bit_nat_eq_self)
  have "irte_at T (ucast ?i) - T = of_nat (16 * unat ?i)"
    by (simp add: irte_at_def)
  then have "unat PAGE_SIZE \<le> unat (irte_at T (ucast ?i) - T)"
    using i unat_of_nat_u64 [of "16 * unat ?i"] by (simp add: PAGE_SIZE_def)
  then show ?thesis
    using s1 irte_words(2,3) [OF irte_aligned [OF ir_table_aligned [OF assms(1)]]] by (metis (no_types))
qed

theorem vtd_setup_msi_overrun_witness:
  "\<forall>E dev m. \<exists>a s1 x. vtd_setup_msi (rta_hw 0x1000) E dev 0xee 2 ((vtd_start () m)\<lparr>index_ctr := 255\<rparr>) = with_pci (pci_setup_msi E dev a 0) s1
    \<and> 4096 \<le> unat (x - 0x1000) \<and> get_bits 16 8 (load64 (ram (vm s1)) x) = 0xee"
proof (intro allI)
  fix E dev m
  show "\<exists>a s1 x. vtd_setup_msi (rta_hw 0x1000) E dev 0xee 2 ((vtd_start () m)\<lparr>index_ctr := 255\<rparr>) = with_pci (pci_setup_msi E dev a 0) s1
      \<and> 4096 \<le> unat (x - 0x1000) \<and> get_bits 16 8 (load64 (ram (vm s1)) x) = 0xee"
    using vtd_setup_msi_overrun [OF rta_ir [of 255 m], of E dev "0xee" 2] by (auto simp: PAGE_SIZE_def)
qed

end
