(* ===== verification/Vtd_Init.thy ===== *)
theory Vtd_Init
  imports Vtd_Irq
begin

text \<open>
  The start-up of the IOMMU: \<open>vtd_init\<close>, and the checks of \<^verbatim>\<open>x86/intel-iommu.c\<close> that follow it. The registers of the IOMMU
  have the contract \<open>iommu_conforms\<close>, with a status register that follows the commands after any number of reads.
\<close>

unbundle bit_operations_syntax

section \<open>The checks of the test\<close>

definition DMAR_FSTS_REG :: u64 where "DMAR_FSTS_REG = 0x34"

definition VTD_CAP_SAGAW_SHIFT :: nat where "VTD_CAP_SAGAW_SHIFT = 8"

definition VTD_CAP_SAGAW :: u64 where "VTD_CAP_SAGAW = push_bit VTD_CAP_SAGAW_SHIFT 0x2"

definition VTD_CAP_SLLPS :: u64 where "VTD_CAP_SLLPS = push_bit 34 1 OR push_bit 35 1"

text \<open>A report on some bits of the status or of the capability register.\<close>

definition report_status :: "'h io_hw \<Rightarrow> string \<Rightarrow> u32 \<Rightarrow> 'h vtd_state \<Rightarrow> 'h vtd_state outcome" where
  "report_status hw msg b s = bind_outcome (vtd_readl hw DMAR_GSTS_REG s) (\<lambda>(x, s). io_report msg (x AND b \<noteq> 0) [] s)"

definition report_cap :: "'h io_hw \<Rightarrow> string \<Rightarrow> u64 \<Rightarrow> 'h vtd_state \<Rightarrow> 'h vtd_state outcome" where
  "report_cap hw msg b s = bind_outcome (vtd_readq hw DMAR_CAP_REG s) (\<lambda>(x, s). io_report msg (x AND b \<noteq> 0) [] s)"

definition vtd_main_init :: "'h io_hw \<Rightarrow> 'h vtd_state \<Rightarrow> 'h vtd_state outcome" where
  "vtd_main_init hw s =
     bind_outcome (vtd_init hw s) (\<lambda>s.
     bind_outcome (report_prefix_push (rpt s) ''vtd_init'') (\<lambda>r.
     bind_outcome (vtd_readl hw DMAR_FSTS_REG (s\<lparr>rpt := r\<rparr>)) (\<lambda>(x, s).
     bind_outcome (io_report ''fault status check'' (x = 0) [] s) (\<lambda>s.
     bind_outcome (report_status hw ''QI enablement'' VTD_GCMD_QI s) (\<lambda>s.
     bind_outcome (report_status hw ''DMAR table setup'' VTD_GCMD_ROOT s) (\<lambda>s.
     bind_outcome (report_status hw ''IR table setup'' VTD_GCMD_IR_TABLE s) (\<lambda>s.
     bind_outcome (report_status hw ''DMAR enablement'' VTD_GCMD_DMAR s) (\<lambda>s.
     bind_outcome (report_status hw ''IR enablement'' VTD_GCMD_IR s) (\<lambda>s.
     bind_outcome (report_cap hw ''DMAR support 39 bits address width'' VTD_CAP_SAGAW s) (\<lambda>s.
     bind_outcome (report_cap hw ''DMAR support huge pages'' VTD_CAP_SLLPS s) (\<lambda>s.
     bind_outcome (report_prefix_pop (rpt s)) (\<lambda>r. Ret (s\<lparr>rpt := r\<rparr>)))))))))))))"

section \<open>The registers of the IOMMU\<close>

text \<open>The status, the status that the commands ask for, and the two table addresses.\<close>

record iommu =
  i_gsts :: u32
  i_goal :: u32
  i_rta :: u64
  i_irta :: u64

definition bits_in :: "u32 \<Rightarrow> u32 \<Rightarrow> bool" where
  "bits_in x y \<longleftrightarrow> (\<forall>n. bit x n \<longrightarrow> bit y n)"

text \<open>Reading a register gives its value and changes no register. There is no fault.\<close>

definition law_const :: "'h io_hw \<Rightarrow> u64 \<Rightarrow> ('h \<Rightarrow> iommu) \<Rightarrow> u32 \<Rightarrow> u64 \<Rightarrow> bool" where
  "law_const hw b A ver cap \<longleftrightarrow> (\<forall>h m.
     (\<exists>h'. raw_readl hw (b + DMAR_VER_REG) (h, m) = (ver, h', m) \<and> A h' = A h)
     \<and> (\<exists>h'. raw_readl hw (b + DMAR_FSTS_REG) (h, m) = (0, h', m) \<and> A h' = A h)
     \<and> (\<exists>h'. raw_readq hw (b + DMAR_CAP_REG) (h, m) = (cap, h', m) \<and> A h' = A h)
     \<and> (\<exists>x h'. raw_readq hw (b + DMAR_ECAP_REG) (h, m) = (x, h', m) \<and> A h' = A h))"

definition law_tables :: "'h io_hw \<Rightarrow> u64 \<Rightarrow> ('h \<Rightarrow> iommu) \<Rightarrow> bool" where
  "law_tables hw b A \<longleftrightarrow> (\<forall>h m x.
     (\<exists>h'. raw_readq hw (b + DMAR_RTADDR_REG) (h, m) = (i_rta (A h), h', m) \<and> A h' = A h)
     \<and> (\<exists>h'. raw_readq hw (b + DMAR_IRTA_REG) (h, m) = (i_irta (A h), h', m) \<and> A h' = A h)
     \<and> (\<exists>h'. raw_writeq hw x (b + DMAR_RTADDR_REG) (h, m) = (h', m) \<and> A h' = (A h)\<lparr>i_rta := x\<rparr>)
     \<and> (\<exists>h'. raw_writeq hw x (b + DMAR_IRTA_REG) (h, m) = (h', m) \<and> A h' = (A h)\<lparr>i_irta := x\<rparr>))"

text \<open>
  The status moves towards the goal and gets there. A command sets the goal to the command and the one-shot bits set
  before; one-shot bits show at once, and what the status and the command have in common stays.
\<close>

definition law_status :: "'h io_hw \<Rightarrow> u64 \<Rightarrow> ('h \<Rightarrow> iommu) \<Rightarrow> bool" where
  "law_status hw b A \<longleftrightarrow> (\<forall>h m.
     (\<exists>h' st. raw_readl hw (b + DMAR_GSTS_REG) (h, m) = (i_gsts (A h), h', m) \<and> A h' = (A h)\<lparr>i_gsts := st\<rparr>
        \<and> (bits_in (i_gsts (A h)) (i_goal (A h)) \<longrightarrow> bits_in (i_gsts (A h)) st \<and> bits_in st (i_goal (A h))))
     \<and> (\<exists>n. case poll hw (b + DMAR_GSTS_REG) n (h, m) of (h', m') \<Rightarrow> i_gsts (A h') = i_goal (A h)))"

definition law_command :: "'h io_hw \<Rightarrow> u64 \<Rightarrow> ('h \<Rightarrow> iommu) \<Rightarrow> bool" where
  "law_command hw b A \<longleftrightarrow> (\<forall>h m x. \<exists>h' st.
     raw_writel hw x (b + DMAR_GCMD_REG) (h, m) = (h', m)
     \<and> A h' = (A h)\<lparr>i_goal := x OR (i_goal (A h) AND VTD_GCMD_ONE_SHOT_BITS), i_gsts := st\<rparr>
     \<and> bits_in st (i_goal (A h')) \<and> bits_in (x AND (i_gsts (A h) OR VTD_GCMD_ONE_SHOT_BITS)) st)"

definition iommu_conforms :: "'h io_hw \<Rightarrow> u64 \<Rightarrow> ('h \<Rightarrow> iommu) \<Rightarrow> u32 \<Rightarrow> u64 \<Rightarrow> bool" where
  "iommu_conforms hw b A ver cap \<longleftrightarrow> law_const hw b A ver cap \<and> law_tables hw b A \<and> law_status hw b A \<and> law_command hw b A"

section \<open>Commands\<close>

lemma bits_in_refl [simp]: "bits_in x x" "bits_in 0 x"
  by (simp_all add: bits_in_def)

lemma bits_in_trans: "bits_in x y \<Longrightarrow> bits_in y z \<Longrightarrow> bits_in x z"
  by (simp add: bits_in_def)

lemma bits_in_or: "bits_in (x OR y) z \<longleftrightarrow> bits_in x z \<and> bits_in y z" "bits_in x y \<Longrightarrow> bits_in x (y OR z)" "bits_in x z \<Longrightarrow> bits_in x (y OR z)"
  by (auto simp: bits_in_def bit_or_iff)

lemma bits_in_and: "bits_in x y \<Longrightarrow> bits_in x z \<Longrightarrow> bits_in x (y AND z)"
  by (auto simp: bits_in_def bit_and_iff)

lemma bits_in_nonzero: "bits_in x y \<Longrightarrow> x \<noteq> 0 \<Longrightarrow> y AND x \<noteq> 0"
proof -
  assume "bits_in x y" "x \<noteq> 0"
  then have "y AND x = x"
    by (intro bit_word_eqI) (auto simp: bits_in_def bit_and_iff)
  then show "y AND x \<noteq> 0"
    using \<open>x \<noteq> 0\<close> by simp
qed

text \<open>What the status has in common with a command of one bit.\<close>

lemma bits_in_single: "x AND push_bit k 1 \<noteq> 0 \<Longrightarrow> bits_in (push_bit k 1) x"
  using bit_iff_and_push_bit_not_eq_0 [of x k] by (auto simp: bits_in_def bit_push_bit_iff bit_1_iff simp del: push_bit_of_1)

lemma gcmd_bits:
  assumes "cmd \<in> {VTD_GCMD_QI, VTD_GCMD_ROOT, VTD_GCMD_IR_TABLE, VTD_GCMD_DMAR, VTD_GCMD_IR}"
  shows "cmd \<noteq> 0" and "is_power_of_2 (ucast cmd)" and "x AND cmd \<noteq> 0 \<Longrightarrow> bits_in cmd x"
    and "cmd AND VTD_GCMD_ONE_SHOT_BITS \<noteq> 0 \<Longrightarrow> bits_in cmd VTD_GCMD_ONE_SHOT_BITS"
proof -
  have "\<exists>k < 32. cmd = push_bit k 1"
    using assms by (auto simp: VTD_GCMD_QI_def VTD_GCMD_ROOT_def VTD_GCMD_IR_TABLE_def VTD_GCMD_DMAR_def VTD_GCMD_IR_def
        intro: exI [of _ 26] exI [of _ 30] exI [of _ 24] exI [of _ 31] exI [of _ 25])
  then obtain k where k: "k < 32" "cmd = push_bit k 1"
    by blast
  show "x AND cmd \<noteq> 0 \<Longrightarrow> bits_in cmd x" for x
    unfolding k(2) by (rule bits_in_single)
  then show "cmd AND VTD_GCMD_ONE_SHOT_BITS \<noteq> 0 \<Longrightarrow> bits_in cmd VTD_GCMD_ONE_SHOT_BITS"
    by (simp add: and.commute)
  show "cmd \<noteq> 0" "is_power_of_2 (ucast cmd)"
    using assms by (auto simp: is_power_of_2_def VTD_GCMD_QI_def VTD_GCMD_ROOT_def VTD_GCMD_IR_TABLE_def VTD_GCMD_DMAR_def VTD_GCMD_IR_def)
qed

lemma status_read:
  assumes "law_status hw b A" and "vtd_reg_base s = b" and "b \<noteq> 0"
    and "bits_in (i_gsts (A (devs s))) (i_goal (A (devs s)))"
  obtains h' st where "vtd_readl hw DMAR_GSTS_REG s = Ret (i_gsts (A (devs s)), s\<lparr>devs := h'\<rparr>)"
    and "A h' = (A (devs s))\<lparr>i_gsts := st\<rparr>" and "bits_in (i_gsts (A (devs s))) st" and "bits_in st (i_goal (A (devs s)))"
    and "snd (raw_readl hw (b + DMAR_GSTS_REG) (devs s, ram (vm s))) = (h', ram (vm s))"
proof -
  obtain h' st where r: "raw_readl hw (b + DMAR_GSTS_REG) (devs s, ram (vm s)) = (i_gsts (A (devs s)), h', ram (vm s))"
      "A h' = (A (devs s))\<lparr>i_gsts := st\<rparr>" "bits_in (i_gsts (A (devs s))) st" "bits_in st (i_goal (A (devs s)))"
    using assms(1,4) unfolding law_status_def by blast
  show thesis
    by (rule that [of h' st]) (use r assms(2,3) in \<open>simp_all add: vtd_readl_def vtd_reg_def dev_readl_def io_view_def\<close>)
qed

lemma gcmd_wait_ends:
  assumes "law_status hw b A" and "vtd_reg_base s = b" and "b \<noteq> 0"
    and "bits_in (i_gsts (A (devs s))) (i_goal (A (devs s)))" and "bits_in S (i_gsts (A (devs s)))"
    and "case poll hw (b + DMAR_GSTS_REG) n (devs s, ram (vm s)) of (h', m') \<Rightarrow> i_gsts (A h') AND cmd \<noteq> 0"
    and "\<And>x. x AND cmd \<noteq> 0 \<Longrightarrow> bits_in cmd x"
  shows "\<exists>h' st. gcmd_wait hw cmd s = Some (Ret (s\<lparr>devs := h'\<rparr>)) \<and> A h' = (A (devs s))\<lparr>i_gsts := st\<rparr>
    \<and> bits_in (S OR cmd) st \<and> bits_in st (i_goal (A (devs s)))"
  using assms(2,4-6)
proof (induction n arbitrary: s)
  case 0
  obtain h' st where r: "vtd_readl hw DMAR_GSTS_REG s = Ret (i_gsts (A (devs s)), s\<lparr>devs := h'\<rparr>)"
      "A h' = (A (devs s))\<lparr>i_gsts := st\<rparr>" "bits_in (i_gsts (A (devs s))) st" "bits_in st (i_goal (A (devs s)))"
    by (rule status_read [OF assms(1) 0(1) assms(3) 0(2)])
  have c: "i_gsts (A (devs s)) AND cmd \<noteq> 0"
    using 0(4) by (simp add: poll_def)
  have "bits_in (S OR cmd) st"
    using bits_in_trans [OF 0(3) r(3)] bits_in_trans [OF assms(7) [OF c] r(3)] by (simp add: bits_in_or(1))
  moreover have "gcmd_wait hw cmd s = Some (Ret (s\<lparr>devs := h'\<rparr>))"
    using c by (simp add: gcmd_wait.simps r(1))
  ultimately show ?case
    using r(2,4) by blast
next
  case (Suc n)
  obtain h' st where r: "vtd_readl hw DMAR_GSTS_REG s = Ret (i_gsts (A (devs s)), s\<lparr>devs := h'\<rparr>)"
      "A h' = (A (devs s))\<lparr>i_gsts := st\<rparr>" "bits_in (i_gsts (A (devs s))) st" "bits_in st (i_goal (A (devs s)))"
      "snd (raw_readl hw (b + DMAR_GSTS_REG) (devs s, ram (vm s))) = (h', ram (vm s))"
    by (rule status_read [OF assms(1) Suc.prems(1) assms(3) Suc.prems(2)])
  show ?case
  proof (cases "i_gsts (A (devs s)) AND cmd = 0")
    case True
    have "\<exists>h'' st'. gcmd_wait hw cmd (s\<lparr>devs := h'\<rparr>) = Some (Ret (s\<lparr>devs := h'\<rparr>\<lparr>devs := h''\<rparr>))
        \<and> A h'' = (A (devs (s\<lparr>devs := h'\<rparr>)))\<lparr>i_gsts := st'\<rparr> \<and> bits_in (S OR cmd) st' \<and> bits_in st' (i_goal (A (devs (s\<lparr>devs := h'\<rparr>))))"
    proof (rule Suc.IH)
      show "case poll hw (b + DMAR_GSTS_REG) n (devs (s\<lparr>devs := h'\<rparr>), ram (vm (s\<lparr>devs := h'\<rparr>))) of (h', m') \<Rightarrow> i_gsts (A h') AND cmd \<noteq> 0"
        using Suc.prems(4) r(5) by (simp add: poll_def funpow_Suc_right del: funpow.simps)
    qed (use Suc.prems(1) r(2,4) bits_in_trans [OF Suc.prems(3) r(3)] in simp_all)
    moreover have "gcmd_wait hw cmd s = gcmd_wait hw cmd (s\<lparr>devs := h'\<rparr>)"
      using True by (subst gcmd_wait.simps) (simp add: r(1))
    ultimately show ?thesis
      using r(2) by auto
  next
    case False
    have "bits_in (S OR cmd) st"
      using bits_in_trans [OF Suc.prems(3) r(3)] bits_in_trans [OF assms(7) [OF False] r(3)] by (simp add: bits_in_or(1))
    moreover have "gcmd_wait hw cmd s = Some (Ret (s\<lparr>devs := h'\<rparr>))"
      using False by (simp add: gcmd_wait.simps r(1))
    ultimately show ?thesis
      using r(2,4) by blast
  qed
qed

text \<open>A command returns; the status then has its bit and all bits it had.\<close>

lemma gcmd_or_sets:
  fixes s :: "'h vtd_state"
  assumes C: "law_status hw b A" "law_command hw b A" and b: "vtd_reg_base s = b" "b \<noteq> 0"
    and st: "bits_in (i_gsts (A (devs s))) (i_goal (A (devs s)))" "bits_in S (i_gsts (A (devs s)))"
    and cmd: "cmd \<in> {VTD_GCMD_QI, VTD_GCMD_ROOT, VTD_GCMD_IR_TABLE, VTD_GCMD_DMAR, VTD_GCMD_IR}"
  obtains h' where "vtd_gcmd_or hw cmd s = Ret (s\<lparr>devs := h'\<rparr>)" and "bits_in (S OR cmd) (i_gsts (A h'))"
    and "bits_in (i_gsts (A h')) (i_goal (A h'))" and "i_rta (A h') = i_rta (A (devs s))" and "i_irta (A h') = i_irta (A (devs s))"
proof -
  obtain h1 st1 where r: "vtd_readl hw DMAR_GSTS_REG s = Ret (i_gsts (A (devs s)), s\<lparr>devs := h1\<rparr>)"
      "A h1 = (A (devs s))\<lparr>i_gsts := st1\<rparr>" "bits_in (i_gsts (A (devs s))) st1" "bits_in st1 (i_goal (A (devs s)))"
    by (rule status_read [OF C(1) b st(1)])
  let ?x = "i_gsts (A (devs s)) OR cmd"
  obtain h2 st2 where w: "raw_writel hw ?x (b + DMAR_GCMD_REG) (h1, ram (vm s)) = (h2, ram (vm s))"
      "A h2 = (A h1)\<lparr>i_goal := ?x OR (i_goal (A h1) AND VTD_GCMD_ONE_SHOT_BITS), i_gsts := st2\<rparr>"
      "bits_in st2 (i_goal (A h2))" "bits_in (?x AND (i_gsts (A h1) OR VTD_GCMD_ONE_SHOT_BITS)) st2"
    using C(2) unfolding law_command_def by blast
  have pre: "vtd_gcmd_or hw cmd s = (if cmd AND VTD_GCMD_ONE_SHOT_BITS \<noteq> 0 then Ret (s\<lparr>devs := h2\<rparr>)
      else bind_outcome (returns (gcmd_wait hw cmd (s\<lparr>devs := h2\<rparr>))) (\<lambda>r. r))"
    using r(1) w(1) b gcmd_bits(2) [OF cmd]
    by (simp add: vtd_gcmd_or_def vtd_writel_def vtd_reg_def dev_writel_def io_view_def set_io_view_def)
  have S: "bits_in S st2"
    by (rule bits_in_trans [OF _ w(4)]) (use st(2) r(2,3) bits_in_trans in \<open>auto intro!: bits_in_and bits_in_or(2)\<close>)
  have g2: "i_gsts (A h2) = st2" "i_rta (A h2) = i_rta (A (devs s))" "i_irta (A h2) = i_irta (A (devs s))"
    using w(2) r(2) by simp_all
  show thesis
  proof (cases "cmd AND VTD_GCMD_ONE_SHOT_BITS = 0")
    case False
    have "bits_in cmd st2"
      by (rule bits_in_trans [OF _ w(4)]) (use gcmd_bits(4) [OF cmd False] in \<open>auto intro!: bits_in_and bits_in_or(3)\<close>)
    then show thesis
      using False pre S g2 w(3) by (intro that [of h2]) (simp_all add: bits_in_or(1))
  next
    case True
    have "\<exists>n. case poll hw (b + DMAR_GSTS_REG) n (h2, ram (vm s)) of (h', m') \<Rightarrow> i_gsts (A h') = i_goal (A h2)"
      using spec [OF spec [OF C(1) [unfolded law_status_def], of h2], of "ram (vm s)"] by (rule conjunct2)
    then obtain n where "case poll hw (b + DMAR_GSTS_REG) n (h2, ram (vm s)) of (h', m') \<Rightarrow> i_gsts (A h') = i_goal (A h2)" ..
    moreover have "i_goal (A h2) AND cmd \<noteq> 0"
      by (rule bits_in_nonzero [OF _ gcmd_bits(1) [OF cmd]]) (simp add: w(2) bits_in_or(2,3))
    ultimately have n: "case poll hw (b + DMAR_GSTS_REG) n (devs (s\<lparr>devs := h2\<rparr>), ram (vm (s\<lparr>devs := h2\<rparr>))) of (h', m') \<Rightarrow> i_gsts (A h') AND cmd \<noteq> 0"
      by auto
    have "\<exists>h' st. gcmd_wait hw cmd (s\<lparr>devs := h2\<rparr>) = Some (Ret (s\<lparr>devs := h2\<rparr>\<lparr>devs := h'\<rparr>)) \<and> A h' = (A (devs (s\<lparr>devs := h2\<rparr>)))\<lparr>i_gsts := st\<rparr>
        \<and> bits_in (S OR cmd) st \<and> bits_in st (i_goal (A (devs (s\<lparr>devs := h2\<rparr>))))"
      by (rule gcmd_wait_ends [OF C(1) _ b(2) _ _ n gcmd_bits(3) [OF cmd]]) (use b(1) S w(3) g2 in simp_all)
    then obtain h3 st3 where "gcmd_wait hw cmd (s\<lparr>devs := h2\<rparr>) = Some (Ret (s\<lparr>devs := h3\<rparr>))" "A h3 = (A h2)\<lparr>i_gsts := st3\<rparr>"
        "bits_in (S OR cmd) st3" "bits_in st3 (i_goal (A h2))"
      by auto
    then show thesis
      using True pre g2 by (intro that [of h3]) simp_all
  qed
qed

section \<open>Set-up\<close>

text \<open>What holds between the steps: the status has the bits \<open>S\<close>, and the table addresses are \<open>r\<close> and \<open>ir\<close>.\<close>

definition iommu_at :: "('h \<Rightarrow> iommu) \<Rightarrow> u32 \<Rightarrow> u64 \<Rightarrow> u64 \<Rightarrow> 'h \<Rightarrow> bool" where
  "iommu_at A S r ir h \<longleftrightarrow> bits_in S (i_gsts (A h)) \<and> bits_in (i_gsts (A h)) (i_goal (A h)) \<and> i_rta (A h) = r \<and> i_irta (A h) = ir"

lemma gcmd_or_at:
  fixes s :: "'h vtd_state"
  assumes "iommu_conforms hw b A ver cap" and "vtd_reg_base s = b" and "b \<noteq> 0" and "iommu_at A S r ir (devs s)"
    and "cmd \<in> {VTD_GCMD_QI, VTD_GCMD_ROOT, VTD_GCMD_IR_TABLE, VTD_GCMD_DMAR, VTD_GCMD_IR}"
  shows "\<exists>h'. vtd_gcmd_or hw cmd s = Ret (s\<lparr>devs := h'\<rparr>) \<and> iommu_at A (S OR cmd) r ir h'"
proof -
  have l: "law_status hw b A" "law_command hw b A"
    using assms(1) by (simp_all add: iommu_conforms_def)
  have st: "bits_in (i_gsts (A (devs s))) (i_goal (A (devs s)))" "bits_in S (i_gsts (A (devs s)))"
    using assms(4) by (simp_all add: iommu_at_def)
  obtain h' where "vtd_gcmd_or hw cmd s = Ret (s\<lparr>devs := h'\<rparr>)" "bits_in (S OR cmd) (i_gsts (A h'))"
      "bits_in (i_gsts (A h')) (i_goal (A h'))" "i_rta (A h') = i_rta (A (devs s))" "i_irta (A h') = i_irta (A (devs s))"
    by (rule gcmd_or_sets [OF l assms(2,3) st assms(5)])
  then show ?thesis
    using assms(4) by (auto simp: iommu_at_def)
qed

lemma init_printable:
  "printable (parse_fmt (''VT-d version:   %#x'' @ [CHR 0x0A])) [VInt x]"
  "printable (parse_fmt (''     cap:       %#018lx'' @ [CHR 0x0A])) [VInt x]"
  "printable (parse_fmt (''     ecap:      %#018lx'' @ [CHR 0x0A])) [VInt x]"
  "printable (parse_fmt (''DMAR table address: %#018lx'' @ [CHR 0x0A])) [VInt x]"
  "printable (parse_fmt (''IR table address: %#018lx'' @ [CHR 0x0A])) [VInt x]"
  by (simp_all add: parse_simps props0_def)

lemma reg_read:
  assumes "raw_readl hw (vtd_reg_base s + r) (devs s, ram (vm s)) = (x, h', ram (vm s))" and "vtd_reg_base s \<noteq> 0"
  shows "vtd_readl hw r s = Ret (x, s\<lparr>devs := h'\<rparr>)"
  using assms by (simp add: vtd_readl_def vtd_reg_def dev_readl_def io_view_def)

lemma reg_readq:
  assumes "raw_readq hw (vtd_reg_base s + r) (devs s, ram (vm s)) = (x, h', ram (vm s))" and "vtd_reg_base s \<noteq> 0"
  shows "vtd_readq hw r s = Ret (x, s\<lparr>devs := h'\<rparr>)"
  using assms by (simp add: vtd_readq_def vtd_reg_def dev_readq_def io_view_def)

lemma reg_writeq:
  assumes "raw_writeq hw x (vtd_reg_base s + r) (devs s, ram (vm s)) = (h', ram (vm s))" and "vtd_reg_base s \<noteq> 0"
  shows "vtd_writeq hw r x s = Ret (s\<lparr>devs := h'\<rparr>)"
  using assms by (simp add: vtd_writeq_def vtd_reg_def dev_writeq_def io_view_def)

lemma dump_info_at:
  fixes s :: "'h vtd_state"
  assumes "iommu_conforms hw b A ver cap" and "vtd_reg_base s = b" and "b \<noteq> 0" and "iommu_at A S r ir (devs s)" and "drop_bit 3 ver AND 0xf \<ge> 1"
  shows "\<exists>h' t. vtd_dump_init_info hw s = Ret (s\<lparr>devs := h', rpt := puts (rpt s) t\<rparr>) \<and> iommu_at A S r ir h'"
proof -
  have l: "law_const hw b A ver cap"
    using assms(1) by (simp add: iommu_conforms_def)
  obtain h1 where h1: "raw_readl hw (b + DMAR_VER_REG) (devs s, ram (vm s)) = (ver, h1, ram (vm s))" "A h1 = A (devs s)"
    using l unfolding law_const_def by blast
  obtain h2 where h2: "raw_readq hw (b + DMAR_CAP_REG) (h1, ram (vm s)) = (cap, h2, ram (vm s))" "A h2 = A h1"
    using l unfolding law_const_def by blast
  obtain x h3 where h3: "raw_readq hw (b + DMAR_ECAP_REG) (h2, ram (vm s)) = (x, h3, ram (vm s))" "A h3 = A h2"
    using l unfolding law_const_def by blast
  obtain t1 where t1: "\<forall>s :: 'h vtd_state. io_printf (''VT-d version:   %#x'' @ [CHR 0x0A]) [VInt (ucast ver)] s = Ret (s\<lparr>rpt := puts (rpt s) t1\<rparr>)"
    using printable_io_printf [OF init_printable(1) [of "ucast ver"]] by (rule exE)
  obtain t2 where t2: "\<forall>s :: 'h vtd_state. io_printf (''     cap:       %#018lx'' @ [CHR 0x0A]) [VInt cap] s = Ret (s\<lparr>rpt := puts (rpt s) t2\<rparr>)"
    using printable_io_printf [OF init_printable(2) [of cap]] by (rule exE)
  obtain t3 where t3: "\<forall>s :: 'h vtd_state. io_printf (''     ecap:      %#018lx'' @ [CHR 0x0A]) [VInt x] s = Ret (s\<lparr>rpt := puts (rpt s) t3\<rparr>)"
    using printable_io_printf [OF init_printable(3) [of x]] by (rule exE)
  have "vtd_dump_init_info hw s = Ret (s\<lparr>devs := h3, rpt := puts (puts (puts (rpt s) t1) t2) t3\<rparr>)"
    using assms(2,3,5) h1(1) h2(1) h3(1) t1 t2 t3 by (simp add: vtd_dump_init_info_def reg_read reg_readq)
  moreover have "puts (puts (puts (rpt s) t1) t2) t3 = puts (rpt s) (t1 @ t2 @ t3)"
    by (simp add: puts_def)
  ultimately show ?thesis
    using assms(4) h1(2) h2(2) h3(2) by (auto simp: iommu_at_def)
qed

lemma setup_root_at:
  fixes s :: "'h vtd_state"
  assumes "iommu_conforms hw b A ver cap" and "vtd_reg_base s = b" and "b \<noteq> 0" and "iommu_at A S r ir (devs s)"
  shows "\<exists>h' t. vtd_setup_root_table hw s = Ret (s\<lparr>vm := snd (alloc_page (vm s)), devs := h', rpt := puts (rpt s) t\<rparr>)
    \<and> iommu_at A (S OR VTD_GCMD_ROOT) (fst (alloc_page (vm s))) ir h'"
proof -
  let ?p = "fst (alloc_page (vm s))" and ?m = "snd (alloc_page (vm s))"
  have l: "law_tables hw b A"
    using assms(1) by (simp add: iommu_conforms_def)
  obtain h1 where h1: "raw_writeq hw ?p (b + DMAR_RTADDR_REG) (devs s, ram ?m) = (h1, ram ?m)" "A h1 = (A (devs s))\<lparr>i_rta := ?p\<rparr>"
    using l unfolding law_tables_def by blast
  have "iommu_at A S ?p ir h1"
    using assms(4) h1(2) by (simp add: iommu_at_def)
  then obtain h2 where h2: "vtd_gcmd_or hw VTD_GCMD_ROOT (s\<lparr>vm := ?m, devs := h1\<rparr>) = Ret (s\<lparr>vm := ?m, devs := h2\<rparr>)"
      "iommu_at A (S OR VTD_GCMD_ROOT) ?p ir h2"
    using gcmd_or_at [OF assms(1) _ assms(3), of "s\<lparr>vm := ?m, devs := h1\<rparr>" S ?p ir VTD_GCMD_ROOT] assms(2) by auto
  obtain h3 where h3: "raw_readq hw (b + DMAR_RTADDR_REG) (h2, ram ?m) = (i_rta (A h2), h3, ram ?m)" "A h3 = A h2"
    using l unfolding law_tables_def by blast
  obtain t where t: "\<forall>s :: 'h vtd_state. io_printf (''DMAR table address: %#018lx'' @ [CHR 0x0A]) [VInt (i_rta (A h2) AND PAGE_MASK)] s = Ret (s\<lparr>rpt := puts (rpt s) t\<rparr>)"
    using printable_io_printf [OF init_printable(4) [of "i_rta (A h2) AND PAGE_MASK"]] by (rule exE)
  have "vtd_setup_root_table hw s = Ret (s\<lparr>vm := ?m, devs := h3, rpt := puts (rpt s) t\<rparr>)"
    using assms(2,3) h1(1) h2(1) h3(1) t
    by (simp add: vtd_setup_root_table_def io_alloc_page_def case_prod_beta reg_writeq vtd_root_table_def reg_readq)
  then show ?thesis
    using h2(2) h3(2) by (auto simp: iommu_at_def)
qed

lemma setup_ir_at:
  fixes s :: "'h vtd_state"
  assumes "iommu_conforms hw b A ver cap" and "vtd_reg_base s = b" and "b \<noteq> 0" and "iommu_at A S r ir (devs s)"
  shows "\<exists>h' t. vtd_setup_ir_table hw s = Ret (s\<lparr>vm := snd (alloc_page (vm s)), devs := h', rpt := puts (rpt s) t\<rparr>)
    \<and> iommu_at A (S OR VTD_GCMD_IR_TABLE) r (fst (alloc_page (vm s)) OR 0xf) h'"
proof -
  let ?p = "fst (alloc_page (vm s)) OR 0xf" and ?m = "snd (alloc_page (vm s))"
  have l: "law_tables hw b A"
    using assms(1) by (simp add: iommu_conforms_def)
  obtain h1 where h1: "raw_writeq hw ?p (b + DMAR_IRTA_REG) (devs s, ram ?m) = (h1, ram ?m)" "A h1 = (A (devs s))\<lparr>i_irta := ?p\<rparr>"
    using l unfolding law_tables_def by blast
  have "iommu_at A S r ?p h1"
    using assms(4) h1(2) by (simp add: iommu_at_def)
  then obtain h2 where h2: "vtd_gcmd_or hw VTD_GCMD_IR_TABLE (s\<lparr>vm := ?m, devs := h1\<rparr>) = Ret (s\<lparr>vm := ?m, devs := h2\<rparr>)"
      "iommu_at A (S OR VTD_GCMD_IR_TABLE) r ?p h2"
    using gcmd_or_at [OF assms(1) _ assms(3), of "s\<lparr>vm := ?m, devs := h1\<rparr>" S r ?p VTD_GCMD_IR_TABLE] assms(2) by auto
  obtain h3 where h3: "raw_readq hw (b + DMAR_IRTA_REG) (h2, ram ?m) = (i_irta (A h2), h3, ram ?m)" "A h3 = A h2"
    using l unfolding law_tables_def by blast
  obtain t where t: "\<forall>s :: 'h vtd_state. io_printf (''IR table address: %#018lx'' @ [CHR 0x0A]) [VInt (i_irta (A h2) AND PAGE_MASK)] s = Ret (s\<lparr>rpt := puts (rpt s) t\<rparr>)"
    using printable_io_printf [OF init_printable(5) [of "i_irta (A h2) AND PAGE_MASK"]] by (rule exE)
  have "vtd_setup_ir_table hw s = Ret (s\<lparr>vm := ?m, devs := h3, rpt := puts (rpt s) t\<rparr>)"
    using assms(2,3) h1(1) h2(1) h3(1) t
    by (simp add: vtd_setup_ir_table_def io_alloc_page_def case_prod_beta reg_writeq vtd_ir_table_def reg_readq)
  then show ?thesis
    using h2(2) h3(2) by (auto simp: iommu_at_def)
qed

definition VTD_READY :: u32 where
  "VTD_READY = VTD_GCMD_QI OR VTD_GCMD_ROOT OR VTD_GCMD_IR_TABLE OR VTD_GCMD_DMAR OR VTD_GCMD_IR"

text \<open>The start-up as a whole, from the mapping of the registers on.\<close>

lemma vtd_init_effect:
  fixes s :: "'h vtd_state"
  assumes io: "ioremap Q35_HOST_BRIDGE_IOMMU_ADDR PAGE_SIZE (vm s) = (b, m1)" and b: "b \<noteq> 0" and C: "iommu_conforms hw b A ver cap"
    and ver: "drop_bit 3 ver AND 0xf \<ge> 1" and st: "bits_in (i_gsts (A (devs s))) (i_goal (A (devs s)))" and fl: "free_list m1 (p # q # fs)"
  shows "\<exists>s' t. vtd_init hw s = Ret s' \<and> vtd_reg_base s' = b \<and> rpt s' = puts (rpt s) t \<and> iommu_at A VTD_READY p (q OR 0xf) (devs s')
    \<and> vm s' = snd (alloc_page (snd (alloc_page m1)))"
proof -
  let ?s1 = "s\<lparr>vm := m1, vtd_reg_base := b\<rparr>"
  have s1: "iommu_at A 0 (i_rta (A (devs s))) (i_irta (A (devs s))) (devs ?s1)" "vtd_reg_base ?s1 = b"
    using st by (simp_all add: iommu_at_def)
  have pq: "fst (alloc_page m1) = p" "fst (alloc_page (snd (alloc_page m1))) = q"
    using alloc_page_pop(1,2) [OF fl] alloc_page_pop(1) by blast+
  obtain s2 t2 where s2: "vtd_dump_init_info hw ?s1 = Ret s2" "vtd_reg_base s2 = b" "vm s2 = m1" "rpt s2 = puts (rpt s) t2"
      "iommu_at A 0 (i_rta (A (devs s))) (i_irta (A (devs s))) (devs s2)"
    using dump_info_at [OF C s1(2) b s1(1) ver] by auto
  obtain s3 where s3: "vtd_gcmd_or hw VTD_GCMD_QI s2 = Ret s3" "vtd_reg_base s3 = b" "vm s3 = m1" "rpt s3 = rpt s2"
      "iommu_at A (0 OR VTD_GCMD_QI) (i_rta (A (devs s))) (i_irta (A (devs s))) (devs s3)"
    using gcmd_or_at [OF C s2(2) b s2(5), of VTD_GCMD_QI] s2(2,3) by auto
  obtain s4 t4 where s4: "vtd_setup_root_table hw s3 = Ret s4" "vtd_reg_base s4 = b" "vm s4 = snd (alloc_page m1)" "rpt s4 = puts (rpt s3) t4"
      "iommu_at A (0 OR VTD_GCMD_QI OR VTD_GCMD_ROOT) p (i_irta (A (devs s))) (devs s4)"
    using setup_root_at [OF C s3(2) b s3(5)] s3(2,3) pq(1) by (auto simp: or.assoc)
  obtain s5 t5 where s5: "vtd_setup_ir_table hw s4 = Ret s5" "vtd_reg_base s5 = b" "vm s5 = snd (alloc_page (snd (alloc_page m1)))"
      "rpt s5 = puts (rpt s4) t5" "iommu_at A (0 OR VTD_GCMD_QI OR VTD_GCMD_ROOT OR VTD_GCMD_IR_TABLE) p (q OR 0xf) (devs s5)"
    using setup_ir_at [OF C s4(2) b s4(5)] s4(2,3) pq(2) by (auto simp: or.assoc)
  obtain s6 where s6: "vtd_gcmd_or hw VTD_GCMD_DMAR s5 = Ret s6" "vtd_reg_base s6 = b" "vm s6 = vm s5" "rpt s6 = rpt s5"
      "iommu_at A (0 OR VTD_GCMD_QI OR VTD_GCMD_ROOT OR VTD_GCMD_IR_TABLE OR VTD_GCMD_DMAR) p (q OR 0xf) (devs s6)"
    using gcmd_or_at [OF C s5(2) b s5(5), of VTD_GCMD_DMAR] s5(2) by (auto simp: or.assoc)
  obtain s7 where s7: "vtd_gcmd_or hw VTD_GCMD_IR s6 = Ret s7" "vtd_reg_base s7 = b" "vm s7 = vm s6" "rpt s7 = rpt s6"
      "iommu_at A VTD_READY p (q OR 0xf) (devs s7)"
    using gcmd_or_at [OF C s6(2) b s6(5), of VTD_GCMD_IR] s6(2) by (auto simp: or.assoc VTD_READY_def)
  have "vtd_init hw s = Ret s7"
    using io s2(1) s3(1) s4(1) s5(1) s6(1) s7(1) by (simp add: vtd_init_def)
  moreover have "rpt s7 = puts (rpt s) (t2 @ t4 @ t5)"
    by (simp add: s2(4) s3(4) s4(4) s5(4) s6(4) s7(4) puts_def)
  ultimately show ?thesis
    using s7(2,3,5) s6(3) s5(3) by auto
qed

text \<open>Mapping the registers of a device: one page of addresses, with tables from the free list.\<close>

lemma ioremap_page:
  assumes fl: "free_list s fs" and tr: "tree_ok (ram s) 4 (page_root s) fs" and len: "3 \<le> length fs" and al: "page_aligned (vfree_top s)"
    and un: "translate (ram s) 4 (page_root s) (vfree_top s - PAGE_SIZE) = None" and ph: "phys AND PT_ADDR_MASK = phys"
  shows "\<exists>used fs' s'. ioremap phys PAGE_SIZE s = (vfree_top s - PAGE_SIZE, s') \<and> fs = used @ fs' \<and> length used \<le> 3 \<and> free_list s' fs'
    \<and> tree_ok (ram s') 4 (page_root s) fs' \<and> page_root s' = page_root s
    \<and> translate (ram s') 4 (page_root s) (vfree_top s - PAGE_SIZE) = Some phys"
proof -
  let ?root = "page_root s" and ?p = "vfree_top s - PAGE_SIZE"
  let ?s1 = "s\<lparr>vfree_top := ?p\<rparr>"
  have bits: "12 \<le> n" if "bit phys n" for n
    using that bit_and_iff [of phys PT_ADDR_MASK n] by (simp add: ph bit_PT_ADDR_MASK)
  then have low: "take_bit 12 phys = 0"
    by (intro bit_word_eqI) (auto simp: bit_take_bit_iff not_le dest!: bits)
  then have fo: "frame_ok 1 phys"
    using ph by (simp add: frame_ok_def aligned_def PGDIR_BITS_simps)
  have pf: "path_free (ram ?s1) 4 1 ?root ?p"
    using un by (intro unmapped_path_free) simp
  have s1: "free_list ?s1 fs" "tree_ok (ram ?s1) 4 ?root fs"
    using fl tr by (simp_all add: free_list_def)
  obtain used fs' a s' T where r: "install_page ?root phys ?p ?s1 = (a, s')" "fs = used @ fs'" "length used \<le> 3" "tree_ok (ram s') 4 ?root fs'"
      "updated 4 ?root ?s1 used fs' s' T"
      "\<forall>va. translate (ram s') 4 ?root va = (if vpn 1 va = vpn 1 ?p then Some (phys + take_bit (PGDIR_BITS 1) va) else translate (ram ?s1) 4 ?root va)"
    using install_page_maps [OF s1 _ _ pf fo fo] len by auto
  have mask: "phys AND PAGE_MASK = phys" "phys AND NOT (PAGE_SIZE - 1) = phys"
  proof -
    have "phys AND NOT (mask 12) = phys"
      using bits by (intro bit_word_eqI) (auto simp: bit_and_iff bit_not_iff bit_mask_iff not_less dest: bit_imp_le_length)
    then show "phys AND PAGE_MASK = phys" "phys AND NOT (PAGE_SIZE - 1) = phys"
      by (simp_all add: PAGE_MASK_def PAGE_SIZE_def mask_eq_exp_minus_1)
  qed
  have "vmap phys PAGE_SIZE s = (?p, s')"
    unfolding vmap_def page_count [of PAGE_SIZE 1, simplified PAGE_SIZE_def, simplified] mask
    using r(1) by (simp add: alloc_vpages_def PAGE_SIZE_def)
  then have "ioremap phys PAGE_SIZE s = (?p, s')"
    by (simp add: ioremap_def mask)
  moreover have "free_list s' fs'" "page_root s' = ?root"
    using r(5) arg_cong [of s' _ page_root] unfolding gupdated_def by (auto dest: arg_cong [of s' _ page_root])
  moreover have "take_bit 12 ?p = 0"
    using page_range_aligned [OF al, of 1] by (simp add: aligned_def)
  then have "translate (ram s') 4 ?root ?p = Some phys"
    by (simp only: r(6)) (simp add: PGDIR_BITS_simps)
  ultimately show ?thesis
    using r(2-4) by blast
qed

section \<open>The checks pass\<close>

text \<open>One more test was reported, without a failure, and the IOMMU is ready.\<close>

definition check_passed :: "('h \<Rightarrow> iommu) \<Rightarrow> u64 \<Rightarrow> u64 \<Rightarrow> 'h vtd_state \<Rightarrow> 'h vtd_state \<Rightarrow> bool" where
  "check_passed A r ir s s' \<longleftrightarrow> tests (rpt s') = tests (rpt s) + 1 \<and> failures (rpt s') = failures (rpt s) \<and> skipped (rpt s') = skipped (rpt s)
     \<and> prefixes (rpt s') = prefixes (rpt s) \<and> vtd_reg_base s' = vtd_reg_base s \<and> vm s' = vm s \<and> iommu_at A VTD_READY r ir (devs s')"

lemma report_status_passes:
  fixes s :: "'h vtd_state"
  assumes "iommu_conforms hw b A ver cap" and "vtd_reg_base s = b" and "b \<noteq> 0" and "iommu_at A VTD_READY r ir (devs s)"
    and "printable (parse_fmt msg) []" and "bits_in c VTD_READY" and "c \<noteq> 0"
  shows "\<exists>s'. report_status hw msg c s = Ret s' \<and> check_passed A r ir s s'"
proof -
  have l: "law_status hw b A" and st: "bits_in (i_gsts (A (devs s))) (i_goal (A (devs s)))" "bits_in VTD_READY (i_gsts (A (devs s)))"
    using assms(1,4) by (simp_all add: iommu_conforms_def iommu_at_def)
  obtain h' st' where h: "vtd_readl hw DMAR_GSTS_REG s = Ret (i_gsts (A (devs s)), s\<lparr>devs := h'\<rparr>)" "A h' = (A (devs s))\<lparr>i_gsts := st'\<rparr>"
      "bits_in (i_gsts (A (devs s))) st'" "bits_in st' (i_goal (A (devs s)))"
    by (rule status_read [OF l assms(2,3) st(1)])
  obtain t where t: "\<And>s :: 'h vtd_state. io_report msg True [] s = Ret (s\<lparr>rpt := puts (rpt s\<lparr>tests := tests (rpt s) + 1\<rparr>) (t (rpt s))\<rparr>)"
    by (rule io_report_passes [OF assms(5)]) blast
  have "i_gsts (A (devs s)) AND c \<noteq> 0"
    by (rule bits_in_nonzero [OF bits_in_trans [OF assms(6) st(2)] assms(7)])
  then have "report_status hw msg c s = Ret (s\<lparr>devs := h', rpt := puts (rpt s\<lparr>tests := tests (rpt s) + 1\<rparr>) (t (rpt s))\<rparr>)"
    by (simp add: report_status_def h(1) t)
  moreover have "iommu_at A VTD_READY r ir h'"
    using assms(4) h(2-4) bits_in_trans [OF st(2)] by (simp add: iommu_at_def)
  ultimately show ?thesis
    by (auto simp: check_passed_def)
qed

lemma report_cap_passes:
  fixes s :: "'h vtd_state"
  assumes "iommu_conforms hw b A ver cap" and "vtd_reg_base s = b" and "b \<noteq> 0" and "iommu_at A VTD_READY r ir (devs s)"
    and "printable (parse_fmt msg) []" and "cap AND c \<noteq> 0"
  shows "\<exists>s'. report_cap hw msg c s = Ret s' \<and> check_passed A r ir s s'"
proof -
  obtain h' where h: "raw_readq hw (b + DMAR_CAP_REG) (devs s, ram (vm s)) = (cap, h', ram (vm s))" "A h' = A (devs s)"
    using assms(1) unfolding iommu_conforms_def law_const_def by blast
  obtain t where t: "\<And>s :: 'h vtd_state. io_report msg True [] s = Ret (s\<lparr>rpt := puts (rpt s\<lparr>tests := tests (rpt s) + 1\<rparr>) (t (rpt s))\<rparr>)"
    by (rule io_report_passes [OF assms(5)]) blast
  have "report_cap hw msg c s = Ret (s\<lparr>devs := h', rpt := puts (rpt s\<lparr>tests := tests (rpt s) + 1\<rparr>) (t (rpt s))\<rparr>)"
    using assms(2,3,6) h(1) by (simp add: report_cap_def reg_readq t)
  then show ?thesis
    using assms(4) h(2) by (auto simp: check_passed_def iommu_at_def)
qed

lemma check_passed_next: "check_passed A r ir s s' \<Longrightarrow> vtd_reg_base s' = vtd_reg_base s" "check_passed A r ir s s' \<Longrightarrow> iommu_at A VTD_READY r ir (devs s')"
  by (simp_all add: check_passed_def)

lemma ready_bits:
  "bits_in VTD_GCMD_QI VTD_READY" "bits_in VTD_GCMD_ROOT VTD_READY" "bits_in VTD_GCMD_IR_TABLE VTD_READY"
  "bits_in VTD_GCMD_DMAR VTD_READY" "bits_in VTD_GCMD_IR VTD_READY"
  by (simp_all add: VTD_READY_def bits_in_def bit_or_iff)

lemma check_msgs:
  "printable (parse_fmt ''QI enablement'') []" "printable (parse_fmt ''DMAR table setup'') []" "printable (parse_fmt ''IR table setup'') []"
  "printable (parse_fmt ''DMAR enablement'') []" "printable (parse_fmt ''IR enablement'') []"
  "printable (parse_fmt ''DMAR support 39 bits address width'') []" "printable (parse_fmt ''DMAR support huge pages'') []"
  by (simp_all add: parse_simps)

lemma reports_after_init:
  fixes s :: "'h vtd_state"
  assumes C: "iommu_conforms hw b A ver cap" and b: "vtd_reg_base s = b" "b \<noteq> 0" and at: "iommu_at A VTD_READY r ir (devs s)"
    and cap: "cap AND VTD_CAP_SAGAW \<noteq> 0" "cap AND VTD_CAP_SLLPS \<noteq> 0"
    and init: "vtd_init hw s0 = Ret s" and hold: "holds (prefixes (rpt s)) ps" "length (join ps) + 10 < PREFIXES_SZ"
  shows "\<exists>s'. vtd_main_init hw s0 = Ret s' \<and> tests (rpt s') = tests (rpt s) + 8 \<and> failures (rpt s') = failures (rpt s)
    \<and> skipped (rpt s') = skipped (rpt s) \<and> holds (prefixes (rpt s')) ps \<and> vtd_reg_base s' = b \<and> vm s' = vm s \<and> iommu_at A VTD_READY r ir (devs s')"
proof -
  obtain arr where arr: "report_prefix_push (rpt s) ''vtd_init'' = Ret (rpt s\<lparr>prefixes := arr\<rparr>)" "holds arr (ps @ [''vtd_init''])"
    by (rule prefix_pushed [OF hold(1), of "''vtd_init''"]) (use hold(2) in \<open>simp_all add: PREFIX_DELIMITER_def\<close>)
  obtain h0 where h0: "raw_readl hw (b + DMAR_FSTS_REG) (devs s, ram (vm s)) = (0, h0, ram (vm s))" "A h0 = A (devs s)"
    using C unfolding iommu_conforms_def law_const_def by blast
  obtain t where t: "\<And>s :: 'h vtd_state. io_report ''fault status check'' True [] s = Ret (s\<lparr>rpt := puts (rpt s\<lparr>tests := tests (rpt s) + 1\<rparr>) (t (rpt s))\<rparr>)"
    by (rule io_report_passes [of "''fault status check''" "[]"]) (simp add: parse_simps, blast)
  define r1 where "r1 = rpt s\<lparr>prefixes := arr\<rparr>"
  define s1 where "s1 = s\<lparr>devs := h0, rpt := puts (r1\<lparr>tests := tests r1 + 1\<rparr>) (t r1)\<rparr>"
  have fsts: "vtd_readl hw DMAR_FSTS_REG (s\<lparr>rpt := r1\<rparr>) = Ret (0, s\<lparr>rpt := r1, devs := h0\<rparr>)"
    using h0(1) b by (simp add: reg_read)
  have s1: "io_report ''fault status check'' True [] (s\<lparr>rpt := r1, devs := h0\<rparr>) = Ret s1"
      "vtd_reg_base s1 = b" "iommu_at A VTD_READY r ir (devs s1)" "tests (rpt s1) = tests (rpt s) + 1" "failures (rpt s1) = failures (rpt s)"
      "skipped (rpt s1) = skipped (rpt s)" "prefixes (rpt s1) = arr" "vm s1 = vm s"
    using h0 b at by (simp_all add: s1_def r1_def reg_read t iommu_at_def)
  obtain s2 where s2: "report_status hw ''QI enablement'' VTD_GCMD_QI s1 = Ret s2" "check_passed A r ir s1 s2"
    using report_status_passes [OF C s1(2) b(2) s1(3) check_msgs(1) ready_bits(1) gcmd_bits(1)] by auto
  have b2: "vtd_reg_base s2 = b"
    using check_passed_next(1) [OF s2(2)] s1(2) by simp
  obtain s3 where s3: "report_status hw ''DMAR table setup'' VTD_GCMD_ROOT s2 = Ret s3" "check_passed A r ir s2 s3"
    using report_status_passes [OF C b2 b(2) check_passed_next(2) [OF s2(2)] check_msgs(2) ready_bits(2) gcmd_bits(1)] by auto
  have b3: "vtd_reg_base s3 = b"
    using check_passed_next(1) [OF s3(2)] b2 by simp
  obtain s4 where s4: "report_status hw ''IR table setup'' VTD_GCMD_IR_TABLE s3 = Ret s4" "check_passed A r ir s3 s4"
    using report_status_passes [OF C b3 b(2) check_passed_next(2) [OF s3(2)] check_msgs(3) ready_bits(3) gcmd_bits(1)] by auto
  have b4: "vtd_reg_base s4 = b"
    using check_passed_next(1) [OF s4(2)] b3 by simp
  obtain s5 where s5: "report_status hw ''DMAR enablement'' VTD_GCMD_DMAR s4 = Ret s5" "check_passed A r ir s4 s5"
    using report_status_passes [OF C b4 b(2) check_passed_next(2) [OF s4(2)] check_msgs(4) ready_bits(4) gcmd_bits(1)] by auto
  have b5: "vtd_reg_base s5 = b"
    using check_passed_next(1) [OF s5(2)] b4 by simp
  obtain s6 where s6: "report_status hw ''IR enablement'' VTD_GCMD_IR s5 = Ret s6" "check_passed A r ir s5 s6"
    using report_status_passes [OF C b5 b(2) check_passed_next(2) [OF s5(2)] check_msgs(5) ready_bits(5) gcmd_bits(1)] by auto
  have b6: "vtd_reg_base s6 = b"
    using check_passed_next(1) [OF s6(2)] b5 by simp
  obtain s7 where s7: "report_cap hw ''DMAR support 39 bits address width'' VTD_CAP_SAGAW s6 = Ret s7" "check_passed A r ir s6 s7"
    using report_cap_passes [OF C b6 b(2) check_passed_next(2) [OF s6(2)] check_msgs(6) cap(1)] by auto
  have b7: "vtd_reg_base s7 = b"
    using check_passed_next(1) [OF s7(2)] b6 by simp
  obtain s8 where s8: "report_cap hw ''DMAR support huge pages'' VTD_CAP_SLLPS s7 = Ret s8" "check_passed A r ir s7 s8"
    using report_cap_passes [OF C b7 b(2) check_passed_next(2) [OF s7(2)] check_msgs(7) cap(2)] by auto
  have b8: "vtd_reg_base s8 = b"
    using check_passed_next(1) [OF s8(2)] b7 by simp
  have prefix: "prefixes (rpt s8) = arr"
    using s1(7) s2(2) s3(2) s4(2) s5(2) s6(2) s7(2) s8(2) by (simp add: check_passed_def)
  then have pop: "report_prefix_pop (rpt s8) = Ret (rpt s8\<lparr>prefixes := arr[length (join ps) := NUL]\<rparr>)" "holds (arr[length (join ps) := NUL]) ps"
    using pop_holds [of "rpt s8" ps "''vtd_init''"] arr(2) by simp_all
  have "vtd_main_init hw s0 = Ret (s8\<lparr>rpt := rpt s8\<lparr>prefixes := arr[length (join ps) := NUL]\<rparr>\<rparr>)"
    using init arr(1) fsts s1(1) s2(1) s3(1) s4(1) s5(1) s6(1) s7(1) s8(1) pop(1)
    by (simp add: vtd_main_init_def flip: r1_def)
  moreover have "tests (rpt s8) = tests (rpt s) + 8" "failures (rpt s8) = failures (rpt s)" "skipped (rpt s8) = skipped (rpt s)" "vm s8 = vm s"
    using s1(4-6,8) s2(2) s3(2) s4(2) s5(2) s6(2) s7(2) s8(2) by (simp_all add: check_passed_def)
  ultimately show ?thesis
    using pop(2) b8 check_passed_next(2) [OF s8(2)] by simp
qed

text \<open>
  C15: The IOMMU starts up and the checks pass. With page tables in order, five free pages and a free virtual page for the registers, on an IOMMU
  whose status register follows the commands, \<open>vtd_init\<close> and the eight checks after it return, and every check passes. At the end the
  registers are mapped, translation, interrupt remapping and queued invalidation are enabled, the root table register holds a new root
  table that maps nothing, and the tables satisfy the invariant on which \<open>vtd_map_range\<close> relies.
\<close>

theorem vtd_main_init_passes:
  fixes s :: "'h vtd_state"
  assumes "free_list (vm s) fs" and "tree_ok (ram (vm s)) 4 (page_root (vm s)) fs" and "5 \<le> length fs"
    and "page_aligned (vfree_top (vm s))" and "b = vfree_top (vm s) - PAGE_SIZE" and "b \<noteq> 0"
    and "translate (ram (vm s)) 4 (page_root (vm s)) b = None"
    and "iommu_conforms hw b A ver cap" and "bits_in (i_gsts (A (devs s))) (i_goal (A (devs s)))"
    and "drop_bit 3 ver AND 0xf \<ge> 1" and "cap AND VTD_CAP_SAGAW \<noteq> 0" and "cap AND VTD_CAP_SLLPS \<noteq> 0"
    and "holds (prefixes (rpt s)) ps" and "length (join ps) + 10 < PREFIXES_SZ"
  shows "\<exists>s' R ir fs'. vtd_main_init hw s = Ret s' \<and> tests (rpt s') = tests (rpt s) + 8 \<and> failures (rpt s') = failures (rpt s)
    \<and> skipped (rpt s') = skipped (rpt s) \<and> holds (prefixes (rpt s')) ps \<and> vtd_reg_base s' = b
    \<and> iommu_at A VTD_READY R ir (devs s') \<and> free_list (vm s') fs' \<and> vtd_ok (ram (vm s')) R fs'
    \<and> (\<forall>acc sid iova. vtd_translate acc (ram (vm s')) R sid iova = None)
    \<and> translate (ram (vm s')) 4 (page_root (vm s')) b = Some Q35_HOST_BRIDGE_IOMMU_ADDR"
proof -
  let ?root = "page_root (vm s)"
  have len: "3 \<le> length fs"
    using assms(3) by simp
  have un: "translate (ram (vm s)) 4 ?root (vfree_top (vm s) - PAGE_SIZE) = None" and ph: "Q35_HOST_BRIDGE_IOMMU_ADDR AND PT_ADDR_MASK = Q35_HOST_BRIDGE_IOMMU_ADDR"
    using assms(5,7) by (simp_all add: Q35_HOST_BRIDGE_IOMMU_ADDR_def PT_ADDR_MASK_eq)
  obtain used fs1 m1 where io: "ioremap Q35_HOST_BRIDGE_IOMMU_ADDR PAGE_SIZE (vm s) = (b, m1)" "fs = used @ fs1" "length used \<le> 3"
      "free_list m1 fs1" "tree_ok (ram m1) 4 ?root fs1" "page_root m1 = ?root" "translate (ram m1) 4 ?root b = Some Q35_HOST_BRIDGE_IOMMU_ADDR"
    using ioremap_page [OF assms(1,2) len assms(4) un ph] unfolding assms(5) by blast
  obtain p q fs2 where fs1: "fs1 = p # q # fs2"
    using io(2,3) assms(3) by (cases fs1; cases "tl fs1") auto
  note fl1 = io(4) [unfolded fs1] and tr1 = io(5) [unfolded fs1]
  let ?m2 = "snd (alloc_page m1)" and ?m3 = "snd (alloc_page (snd (alloc_page m1)))"
  obtain s1 t where s1: "vtd_init hw s = Ret s1" "vtd_reg_base s1 = b" "rpt s1 = puts (rpt s) t" "iommu_at A VTD_READY p (q OR 0xf) (devs s1)" "vm s1 = ?m3"
    using vtd_init_effect [OF io(1) assms(6,8,10,9) fl1] by blast
  have hold: "holds (prefixes (rpt s1)) ps"
    using assms(13) by (simp add: s1(3))
  obtain s' where s': "vtd_main_init hw s = Ret s'" "tests (rpt s') = tests (rpt s) + 8" "failures (rpt s') = failures (rpt s)"
      "skipped (rpt s') = skipped (rpt s)" "holds (prefixes (rpt s')) ps" "vtd_reg_base s' = b" "vm s' = ?m3" "iommu_at A VTD_READY p (q OR 0xf) (devs s')"
    using reports_after_init [OF assms(8) s1(2) assms(6) s1(4) assms(11,12) s1(1) hold assms(14)] s1(3,5) by auto
  note p1 = alloc_page_pop [OF fl1] and p2 = alloc_page_pop [OF alloc_page_pop(2) [OF fl1]]
  have pages: "p \<noteq> q" "\<forall>x \<in> set (p # fs2). table_page x" "p \<notin> set fs2" "table_page q"
    using tr1 by (auto simp: gtree_def)
  have zero: "ram ?m3 x = 0" if "in_page x p" for x
  proof -
    have "\<not> in_page x q"
      using in_page_unique [of p q x] that pages table_page_aligned by auto
    then show ?thesis
      using p1(3) [OF that] p2(4) [of x] by simp
  qed
  have "vtd_ok (ram ?m3) p fs2" "\<And>sid. context_entry (ram ?m3) p sid = None"
    by (rule zero_root_ok [where m = "ram ?m3", OF _ pages(2,3)], erule zero)+
  moreover have "lookup (ram ?m3) 4 ?root b = lookup (ram m1) 4 ?root b"
  proof -
    have t0: "tree_ok (ram m1) 4 ?root ([] @ p # q # fs2)"
      using tr1 by simp
    note t2 = tree_ok_agree [OF t0 alloc_page_tree [OF fl1 t0]]
    have t3: "tree_ok (ram ?m2) 4 ?root ([p] @ q # fs2)"
      using t2(1) by simp
    show ?thesis
      using tree_ok_agree(2) [OF t3 alloc_page_tree [OF p1(2) t3]] t2(2) by simp
  qed
  moreover have "page_root ?m3 = ?root"
    using arg_cong [OF alloc_page_fields [of ?m2], of page_root] arg_cong [OF alloc_page_fields [of m1], of page_root] io(6) by simp
  ultimately show ?thesis
    using s' p2(2) io(7) by (intro exI [of _ s'] exI [of _ p] exI [of _ "q OR 0xf"] exI [of _ fs2]) (simp add: vtd_translate_def gtranslate_def)
qed

text \<open>A simulated IOMMU: one-shot bits show at once, the others after the next read of the status.\<close>

definition iommu_sim :: "u64 \<Rightarrow> iommu io_hw" where
  "iommu_sim b = \<lparr>
     raw_readl = (\<lambda>a (h, m). if a = b + DMAR_GSTS_REG then (i_gsts h, h\<lparr>i_gsts := i_goal h\<rparr>, m) else if a = b + DMAR_VER_REG then (0x10, h, m) else (0, h, m)),
     raw_readq = (\<lambda>a (h, m). if a = b + DMAR_RTADDR_REG then (i_rta h, h, m) else if a = b + DMAR_IRTA_REG then (i_irta h, h, m)
       else (VTD_CAP_SAGAW OR VTD_CAP_SLLPS, h, m)),
     raw_writel = (\<lambda>x a (h, m). if a = b + DMAR_GCMD_REG
       then (h\<lparr>i_goal := x OR (i_goal h AND VTD_GCMD_ONE_SHOT_BITS), i_gsts := x AND (i_gsts h OR VTD_GCMD_ONE_SHOT_BITS)\<rparr>, m) else (h, m)),
     raw_writeq = (\<lambda>x a (h, m). if a = b + DMAR_RTADDR_REG then (h\<lparr>i_rta := x\<rparr>, m) else if a = b + DMAR_IRTA_REG then (h\<lparr>i_irta := x\<rparr>, m) else (h, m))\<rparr>"

lemma iommu_sim_conforms: "iommu_conforms (iommu_sim b) b id 0x10 (VTD_CAP_SAGAW OR VTD_CAP_SLLPS)"
proof -
  note regs = DMAR_GSTS_REG_def DMAR_VER_REG_def DMAR_FSTS_REG_def DMAR_RTADDR_REG_def DMAR_IRTA_REG_def DMAR_CAP_REG_def DMAR_ECAP_REG_def DMAR_GCMD_REG_def
  have "law_const (iommu_sim b) b id 0x10 (VTD_CAP_SAGAW OR VTD_CAP_SLLPS)" "law_tables (iommu_sim b) b id"
    by (simp_all add: law_const_def law_tables_def iommu_sim_def regs)
  moreover have "law_status (iommu_sim b) b id"
    unfolding law_status_def by (auto simp: iommu_sim_def poll_def regs intro!: exI [of _ "Suc 0"])
  moreover have "law_command (iommu_sim b) b id"
    by (auto simp: law_command_def iommu_sim_def regs bits_in_def bit_and_iff bit_or_iff)
  ultimately show ?thesis
    by (simp add: iommu_conforms_def)
qed

theorem vtd_main_init_passes_witness:
  "\<exists>s s' R ir. vtd_main_init (iommu_sim 0x8000000000) s = Ret s' \<and> tests (rpt s) = 0 \<and> tests (rpt s') = 8 \<and> failures (rpt s') = 0
    \<and> iommu_at id VTD_READY R ir (devs s') \<and> translate (ram (vm s')) 4 (page_root (vm s')) 0x8000000000 = Some 0xfed90000"
proof -
  obtain m0 where m0: "free_list m0 (run 0x2000 8)" "tree_ok (ram m0) 4 0x1000 (run 0x2000 8)" "\<forall>va. translate (ram m0) 4 0x1000 va = None"
    using empty_root_machine by blast
  define m where "m = m0\<lparr>vfree_top := 0x8000001000, page_root := 0x1000\<rparr>"
  let ?h = "\<lparr>i_gsts = 0, i_goal = 0, i_rta = 0, i_irta = 0\<rparr>"
  have m: "free_list (vm (vtd_start ?h m)) (run 0x2000 8)" "tree_ok (ram (vm (vtd_start ?h m))) 4 (page_root (vm (vtd_start ?h m))) (run 0x2000 8)"
      "5 \<le> length (run 0x2000 8)" "page_aligned (vfree_top (vm (vtd_start ?h m)))" "0x8000000000 = vfree_top (vm (vtd_start ?h m)) - PAGE_SIZE"
      "(0x8000000000 :: u64) \<noteq> 0" "translate (ram (vm (vtd_start ?h m))) 4 (page_root (vm (vtd_start ?h m))) 0x8000000000 = None"
    using m0 by (simp_all add: m_def vtd_start_def free_list_def aligned_def PAGE_SIZE_def run_def)
  have "holds (prefixes report_init) []"
    by (simp add: holds_def report_init_def PREFIXES_SZ_def)
  then obtain s' R ir where "vtd_main_init (iommu_sim 0x8000000000) (vtd_start ?h m) = Ret s'" "tests (rpt s') = tests report_init + 8"
      "failures (rpt s') = failures report_init" "iommu_at id VTD_READY R ir (devs s')"
      "translate (ram (vm s')) 4 (page_root (vm s')) 0x8000000000 = Some Q35_HOST_BRIDGE_IOMMU_ADDR"
    using vtd_main_init_passes [OF m iommu_sim_conforms, of "[]"]
    by (auto simp: vtd_start_def PREFIXES_SZ_def VTD_CAP_SAGAW_def VTD_CAP_SLLPS_def VTD_CAP_SAGAW_SHIFT_def)
  then show ?thesis
    by (intro exI [of _ "vtd_start ?h m"] exI [of _ s'] exI [of _ R] exI [of _ ir]) (simp add: vtd_start_def report_init_def Q35_HOST_BRIDGE_IOMMU_ADDR_def)
qed

end
