(* ===== verification/Virtio.thy ===== *)
theory Virtio
  imports Mmio Alloc
begin

text \<open>
  Virtio queues, \<^verbatim>\<open>lib/virtio.c\<close>, with the devices on the memory bus of \<^verbatim>\<open>lib/virtio-mmio.c\<close> and the driver \<^verbatim>\<open>lib/chr-testdev.c\<close> of the test
  device behind a virtio console. The rings are in memory, where the device reads and writes them; the structures that
  only the driver uses are records. A function pointer is a value that names the function. The code is shared by the
  architectures; as in the rest of the development pages have 4096 bytes and addresses are mapped one to one.
\<close>

unbundle bit_operations_syntax

section \<open>Rings\<close>

definition VRING_DESC_F_NEXT :: u64 where "VRING_DESC_F_NEXT = 1"

record vring =
  vr_num :: u32
  vr_desc :: u64
  vr_avail :: u64
  vr_used :: u64

text \<open>The fields of a structure are given by their offset and size.\<close>

datatype vring_desc = Desc_addr | Desc_len | Desc_flags | Desc_next

primrec desc_field :: "vring_desc \<Rightarrow> u64 \<times> nat" where
  "desc_field Desc_addr = (0, 8)"
| "desc_field Desc_len = (8, 4)"
| "desc_field Desc_flags = (12, 2)"
| "desc_field Desc_next = (14, 2)"

definition desc_at :: "vring \<Rightarrow> u32 \<Rightarrow> u64" where
  "desc_at vr i = vr_desc vr + 16 * ucast i"

definition get_desc :: "mem \<Rightarrow> vring \<Rightarrow> u32 \<Rightarrow> vring_desc \<Rightarrow> u64" where
  "get_desc m vr i f = loadn (snd (desc_field f)) m (desc_at vr i + fst (desc_field f))"

definition put_desc :: "vring \<Rightarrow> u32 \<Rightarrow> vring_desc \<Rightarrow> u64 \<Rightarrow> mem \<Rightarrow> mem" where
  "put_desc vr i f x m = storen (snd (desc_field f)) m (desc_at vr i + fst (desc_field f)) x"

definition avail_idx_at :: "vring \<Rightarrow> u64" where
  "avail_idx_at vr = vr_avail vr + 2"

definition avail_ring_at :: "vring \<Rightarrow> u32 \<Rightarrow> u64" where
  "avail_ring_at vr i = vr_avail vr + 4 + 2 * ucast i"

definition used_idx_at :: "vring \<Rightarrow> u64" where
  "used_idx_at vr = vr_used vr + 2"

definition used_ring_at :: "vring \<Rightarrow> u32 \<Rightarrow> u64" where
  "used_ring_at vr i = vr_used vr + 4 + 8 * ucast i"

definition vring_init :: "u32 \<Rightarrow> u64 \<Rightarrow> u64 \<Rightarrow> vring" where
  "vring_init num p align =
     (let avail = p + ucast num * 16 in
      \<lparr>vr_num = num, vr_desc = p, vr_avail = avail, vr_used = (avail + 4 + 2 * ucast num + 2 + align - 1) AND NOT (align - 1)\<rparr>)"

section \<open>Queues\<close>

datatype notify_fn = Vm_notify

record virtio_device_id =
  id_device :: u32
  id_vendor :: u32

text \<open>The device on the memory bus: \<^verbatim>\<open>struct virtio_mmio_device\<close>, in which the generic \<^verbatim>\<open>struct virtio_device\<close> is embedded.\<close>

record virtio_mmio_device =
  vdev_id :: virtio_device_id
  vdev_base :: u64

text \<open>The array \<^verbatim>\<open>data\<close> at the end of the structure has no size.\<close>

record vring_virtqueue =
  vq_callback :: u64
  vq_name :: string
  vq_vdev :: virtio_mmio_device
  vq_index :: u32
  vq_num_free :: u32
  vq_vring :: vring
  vq_free_head :: u32
  vq_num_added :: u32
  vq_last_used_idx :: u16
  vq_notify :: notify_fn
  vq_data :: "u32 \<Rightarrow> u64"

primrec init_desc_loop :: "nat \<Rightarrow> u32 \<Rightarrow> vring_virtqueue \<Rightarrow> mem \<Rightarrow> u32 \<times> vring_virtqueue \<times> mem" where
  "init_desc_loop 0 i vq m = (i, vq, m)"
| "init_desc_loop (Suc n) i vq m =
     init_desc_loop n (i + 1) (vq\<lparr>vq_data := (vq_data vq)(i := 0)\<rparr>) (put_desc (vq_vring vq) i Desc_next (ucast (i + 1)) m)"

definition vring_init_virtqueue ::
  "vring_virtqueue \<Rightarrow> u32 \<Rightarrow> u32 \<Rightarrow> u32 \<Rightarrow> virtio_mmio_device \<Rightarrow> u64 \<Rightarrow> notify_fn \<Rightarrow> u64 \<Rightarrow> string \<Rightarrow> mem \<Rightarrow> vring_virtqueue \<times> mem" where
  "vring_init_virtqueue vq index num vring_align vdev pages notify callback name m =
     (let vq = vq\<lparr>vq_vring := vring_init num pages (ucast vring_align), vq_callback := callback, vq_vdev := vdev, vq_name := name,
            vq_num_free := num, vq_index := index, vq_notify := notify, vq_last_used_idx := 0, vq_num_added := 0, vq_free_head := 0\<rparr>;
          (i, vq, m) = init_desc_loop (unat (num - 1)) 0 vq m
      in (vq\<lparr>vq_data := (vq_data vq)(i := 0)\<rparr>, m))"

definition virtqueue_add_outbuf :: "u64 \<Rightarrow> u32 \<Rightarrow> vring_virtqueue \<Rightarrow> mem \<Rightarrow> (int \<times> vring_virtqueue \<times> mem) outcome" where
  "virtqueue_add_outbuf buf len vq m =
     bind_outcome (assert_that (buf \<noteq> 0) ''buf != NULL'') (\<lambda>_.
     bind_outcome (assert_that (len \<noteq> 0) ''len != 0'') (\<lambda>_.
     if vq_num_free vq = 0 then Ret (- 1, vq, m)
     else
       let vq = vq\<lparr>vq_num_free := vq_num_free vq - 1\<rparr>;
           head = vq_free_head vq; vr = vq_vring vq;
           m = put_desc vr head Desc_flags 0 m;
           m = put_desc vr head Desc_addr buf m;
           m = put_desc vr head Desc_len (ucast len) m;
           vq = vq\<lparr>vq_free_head := ucast (get_desc m vr head Desc_next)\<rparr>;
           vq = vq\<lparr>vq_data := (vq_data vq)(head := buf)\<rparr>;
           avail = ucast (loadn 2 m (avail_idx_at vr)) AND (vr_num vr - 1);
           m = storen 2 m (avail_ring_at vr avail) (ucast head);
           m = storen 2 m (avail_idx_at vr) (loadn 2 m (avail_idx_at vr) + 1);
           vq = vq\<lparr>vq_num_added := vq_num_added vq + 1\<rparr>
       in Ret (0, vq, m)))"

partial_function (option) detach_loop :: "u32 \<Rightarrow> vring_virtqueue \<Rightarrow> mem \<Rightarrow> (u32 \<times> vring_virtqueue) option" where
  "detach_loop i vq m =
     (if get_desc m (vq_vring vq) i Desc_flags AND VRING_DESC_F_NEXT \<noteq> 0
      then detach_loop (ucast (get_desc m (vq_vring vq) i Desc_next)) (vq\<lparr>vq_num_free := vq_num_free vq + 1\<rparr>) m
      else Some (i, vq))"

definition detach_buf :: "vring_virtqueue \<Rightarrow> u32 \<Rightarrow> mem \<Rightarrow> (vring_virtqueue \<times> mem) outcome" where
  "detach_buf vq head m =
     bind_outcome (returns (detach_loop head (vq\<lparr>vq_data := (vq_data vq)(head := 0)\<rparr>) m)) (\<lambda>(i, vq).
     let m = put_desc (vq_vring vq) i Desc_next (ucast (vq_free_head vq)) m
     in Ret (vq\<lparr>vq_free_head := head, vq_num_free := vq_num_free vq + 1\<rparr>, m))"

text \<open>The result is the buffer and the length that the device stored.\<close>

definition virtqueue_get_buf :: "vring_virtqueue \<Rightarrow> mem \<Rightarrow> (u64 \<times> u32 \<times> vring_virtqueue \<times> mem) outcome" where
  "virtqueue_get_buf vq m =
     (let vr = vq_vring vq;
          last_used = ucast (vq_last_used_idx vq) AND (vr_num vr - 1);
          i = ucast (loadn 4 m (used_ring_at vr last_used));
          len = ucast (loadn 4 m (used_ring_at vr last_used + 4));
          ret = vq_data vq i
      in bind_outcome (detach_buf vq i m) (\<lambda>(vq, m).
         Ret (ret, len, vq\<lparr>vq_last_used_idx := vq_last_used_idx vq + 1\<rparr>, m)))"

section \<open>Devices on the memory bus\<close>

definition VIRTIO_MMIO_MAGIC_VALUE :: u64 where "VIRTIO_MMIO_MAGIC_VALUE = 0x000"

definition VIRTIO_MMIO_DEVICE_ID :: u64 where "VIRTIO_MMIO_DEVICE_ID = 0x008"

definition VIRTIO_MMIO_VENDOR_ID :: u64 where "VIRTIO_MMIO_VENDOR_ID = 0x00c"

definition VIRTIO_MMIO_GUEST_PAGE_SIZE :: u64 where "VIRTIO_MMIO_GUEST_PAGE_SIZE = 0x028"

definition VIRTIO_MMIO_QUEUE_SEL :: u64 where "VIRTIO_MMIO_QUEUE_SEL = 0x030"

definition VIRTIO_MMIO_QUEUE_NUM_MAX :: u64 where "VIRTIO_MMIO_QUEUE_NUM_MAX = 0x034"

definition VIRTIO_MMIO_QUEUE_NUM :: u64 where "VIRTIO_MMIO_QUEUE_NUM = 0x038"

definition VIRTIO_MMIO_QUEUE_ALIGN :: u64 where "VIRTIO_MMIO_QUEUE_ALIGN = 0x03c"

definition VIRTIO_MMIO_QUEUE_PFN :: u64 where "VIRTIO_MMIO_QUEUE_PFN = 0x040"

definition VIRTIO_MMIO_QUEUE_NOTIFY :: u64 where "VIRTIO_MMIO_QUEUE_NOTIFY = 0x050"

definition VIRTIO_MMIO_CONFIG :: u64 where "VIRTIO_MMIO_CONFIG = 0x100"

definition VIRTIO_MMIO_VRING_ALIGN :: u64 where "VIRTIO_MMIO_VRING_ALIGN = PAGE_SIZE"

definition VIRTIO_MMIO_QUEUE_SIZE_MIN :: u64 where "VIRTIO_MMIO_QUEUE_SIZE_MIN = 2 * VIRTIO_MMIO_VRING_ALIGN"

definition VIRTIO_MMIO_QUEUE_NUM_MIN :: u32 where "VIRTIO_MMIO_QUEUE_NUM_MIN = 128"

definition VIRTIO_ID_CONSOLE :: u32 where "VIRTIO_ID_CONSOLE = 3"

text \<open>
  The configuration space of a device is accessed byte by byte. \<open>raw_idle\<close> is what the devices do on their own while the driver waits.
\<close>

record 'h virtio_hw = "'h io_hw" +
  raw_readb :: "u64 \<Rightarrow> 'h \<times> mem \<Rightarrow> u8 \<times> 'h \<times> mem"
  raw_writeb :: "u8 \<Rightarrow> u64 \<Rightarrow> 'h \<times> mem \<Rightarrow> 'h \<times> mem"
  raw_idle :: "'h \<times> mem \<Rightarrow> 'h \<times> mem"

definition dev_readb :: "'h virtio_hw \<Rightarrow> u64 \<Rightarrow> ('h, 'z) io_state_scheme \<Rightarrow> u8 \<times> ('h, 'z) io_state_scheme" where
  "dev_readb hw a s = (case raw_readb hw a (io_view s) of (x, v) \<Rightarrow> (x, set_io_view v s))"

definition dev_writeb :: "'h virtio_hw \<Rightarrow> u8 \<Rightarrow> u64 \<Rightarrow> ('h, 'z) io_state_scheme \<Rightarrow> ('h, 'z) io_state_scheme" where
  "dev_writeb hw x a s = set_io_view (raw_writeb hw x a (io_view s)) s"

definition dev_idle :: "'h virtio_hw \<Rightarrow> ('h, 'z) io_state_scheme \<Rightarrow> ('h, 'z) io_state_scheme" where
  "dev_idle hw s = set_io_view (raw_idle hw (io_view s)) s"

primrec vm_get_loop :: "'h virtio_hw \<Rightarrow> nat \<Rightarrow> u64 \<Rightarrow> ('h, 'z) io_state_scheme \<Rightarrow> u8 list \<times> ('h, 'z) io_state_scheme" where
  "vm_get_loop hw 0 a s = ([], s)"
| "vm_get_loop hw (Suc n) a s =
     (let (x, s) = dev_readb hw a s; (xs, s) = vm_get_loop hw n (a + 1) s in (x # xs, s))"

definition vm_get :: "'h virtio_hw \<Rightarrow> virtio_mmio_device \<Rightarrow> u32 \<Rightarrow> nat \<Rightarrow> ('h, 'z) io_state_scheme \<Rightarrow> u8 list \<times> ('h, 'z) io_state_scheme" where
  "vm_get hw vdev offset len s = vm_get_loop hw len (vdev_base vdev + VIRTIO_MMIO_CONFIG + ucast offset) s"

primrec vm_set_loop :: "'h virtio_hw \<Rightarrow> u8 list \<Rightarrow> u64 \<Rightarrow> ('h, 'z) io_state_scheme \<Rightarrow> ('h, 'z) io_state_scheme" where
  "vm_set_loop hw [] a s = s"
| "vm_set_loop hw (x # xs) a s = vm_set_loop hw xs (a + 1) (dev_writeb hw x a s)"

definition vm_set :: "'h virtio_hw \<Rightarrow> virtio_mmio_device \<Rightarrow> u32 \<Rightarrow> u8 list \<Rightarrow> ('h, 'z) io_state_scheme \<Rightarrow> ('h, 'z) io_state_scheme" where
  "vm_set hw vdev offset buf s = vm_set_loop hw buf (vdev_base vdev + VIRTIO_MMIO_CONFIG + ucast offset) s"

text \<open>Values of the configuration space are little-endian.\<close>

primrec bytes_value :: "u8 list \<Rightarrow> u64" where
  "bytes_value [] = 0"
| "bytes_value (b # bs) = ucast b OR push_bit 8 (bytes_value bs)"

primrec value_bytes :: "nat \<Rightarrow> u64 \<Rightarrow> u8 list" where
  "value_bytes 0 x = []"
| "value_bytes (Suc n) x = ucast x # value_bytes n (drop_bit 8 x)"

definition virtio_config_readb :: "'h virtio_hw \<Rightarrow> virtio_mmio_device \<Rightarrow> u32 \<Rightarrow> ('h, 'z) io_state_scheme \<Rightarrow> u8 \<times> ('h, 'z) io_state_scheme" where
  "virtio_config_readb hw vdev offset s = (let (bs, s) = vm_get hw vdev offset 1 s in (ucast (bytes_value bs), s))"

definition virtio_config_readw :: "'h virtio_hw \<Rightarrow> virtio_mmio_device \<Rightarrow> u32 \<Rightarrow> ('h, 'z) io_state_scheme \<Rightarrow> u16 \<times> ('h, 'z) io_state_scheme" where
  "virtio_config_readw hw vdev offset s = (let (bs, s) = vm_get hw vdev offset 2 s in (ucast (bytes_value bs), s))"

definition virtio_config_readl :: "'h virtio_hw \<Rightarrow> virtio_mmio_device \<Rightarrow> u32 \<Rightarrow> ('h, 'z) io_state_scheme \<Rightarrow> u32 \<times> ('h, 'z) io_state_scheme" where
  "virtio_config_readl hw vdev offset s = (let (bs, s) = vm_get hw vdev offset 4 s in (ucast (bytes_value bs), s))"

definition virtio_config_writeb :: "'h virtio_hw \<Rightarrow> virtio_mmio_device \<Rightarrow> u32 \<Rightarrow> u8 \<Rightarrow> ('h, 'z) io_state_scheme \<Rightarrow> ('h, 'z) io_state_scheme" where
  "virtio_config_writeb hw vdev offset x s = vm_set hw vdev offset (value_bytes 1 (ucast x)) s"

definition virtio_config_writew :: "'h virtio_hw \<Rightarrow> virtio_mmio_device \<Rightarrow> u32 \<Rightarrow> u16 \<Rightarrow> ('h, 'z) io_state_scheme \<Rightarrow> ('h, 'z) io_state_scheme" where
  "virtio_config_writew hw vdev offset x s = vm_set hw vdev offset (value_bytes 2 (ucast x)) s"

definition virtio_config_writel :: "'h virtio_hw \<Rightarrow> virtio_mmio_device \<Rightarrow> u32 \<Rightarrow> u32 \<Rightarrow> ('h, 'z) io_state_scheme \<Rightarrow> ('h, 'z) io_state_scheme" where
  "virtio_config_writel hw vdev offset x s = vm_set hw vdev offset (value_bytes 4 (ucast x)) s"

definition vm_notify :: "'h virtio_hw \<Rightarrow> vring_virtqueue \<Rightarrow> ('h, 'z) io_state_scheme \<Rightarrow> bool \<times> ('h, 'z) io_state_scheme" where
  "vm_notify hw vq s = (True, dev_writel hw (vq_index vq) (vdev_base (vq_vdev vq) + VIRTIO_MMIO_QUEUE_NOTIFY) s)"

definition virtqueue_kick :: "'h virtio_hw \<Rightarrow> vring_virtqueue \<Rightarrow> ('h, 'z) io_state_scheme \<Rightarrow> bool \<times> ('h, 'z) io_state_scheme" where
  "virtqueue_kick hw vq s = (case vq_notify vq of Vm_notify \<Rightarrow> vm_notify hw vq s)"

text \<open>
  Allocation goes through \<open>calloc\<close> with the allocator \<open>ops\<close>; the queue structure is the record that begins with all fields zero, and its size without
  the array is 96.
\<close>

definition zero_queue :: "virtio_mmio_device \<Rightarrow> vring_virtqueue" where
  "zero_queue vdev = \<lparr>vq_callback = 0, vq_name = [], vq_vdev = vdev, vq_index = 0, vq_num_free = 0,
     vq_vring = \<lparr>vr_num = 0, vr_desc = 0, vr_avail = 0, vr_used = 0\<rparr>, vq_free_head = 0, vq_num_added = 0, vq_last_used_idx = 0,
     vq_notify = Vm_notify, vq_data = \<lambda>_. 0\<rparr>"

definition vm_setup_vq ::
  "'h virtio_hw \<Rightarrow> alloc_ops \<Rightarrow> translation \<Rightarrow> virtio_mmio_device \<Rightarrow> u32 \<Rightarrow> u64 \<Rightarrow> string \<Rightarrow> ('h, 'z) io_state_scheme
     \<Rightarrow> (vring_virtqueue option \<times> ('h, 'z) io_state_scheme) outcome" where
  "vm_setup_vq hw ops tr vdev index callback name s =
     (let num = VIRTIO_MMIO_QUEUE_NUM_MIN; base = vdev_base vdev in
      bind_outcome (calloc ops tr 1 96 (vm s)) (\<lambda>(vq, m).
      bind_outcome (assert_that (VIRTIO_MMIO_QUEUE_SIZE_MIN \<le> 2 * PAGE_SIZE) ''VIRTIO_MMIO_QUEUE_SIZE_MIN <= 2*PAGE_SIZE'') (\<lambda>_.
      bind_outcome (alloc_pages 1 m) (\<lambda>(queue, m).
      bind_outcome (assert_that (vq \<noteq> 0 \<and> queue \<noteq> 0) ''vq && queue'') (\<lambda>_.
      let s = dev_writel hw index (base + VIRTIO_MMIO_QUEUE_SEL) (s\<lparr>vm := m\<rparr>);
          (num_max, s) = dev_readl hw (base + VIRTIO_MMIO_QUEUE_NUM_MAX) s in
      bind_outcome (assert_that (num_max \<ge> num) ''readl(vm_dev->base + VIRTIO_MMIO_QUEUE_NUM_MAX) >= num'') (\<lambda>_.
      let (pfn, s) = dev_readl hw (base + VIRTIO_MMIO_QUEUE_PFN) s in
      if pfn \<noteq> 0 then
        bind_outcome (io_printf (''%s: virtqueue %d already setup! base=%p'' @ [CHR 0x0A]) [VStr ''vm_setup_vq'', VInt (ucast index), VInt base] s) (\<lambda>s.
        Ret (None, s))
      else
        let s = dev_writel hw num (base + VIRTIO_MMIO_QUEUE_NUM) s;
            s = dev_writel hw (ucast VIRTIO_MMIO_VRING_ALIGN) (base + VIRTIO_MMIO_QUEUE_ALIGN) s;
            s = dev_writel hw (ucast (drop_bit PAGE_SHIFT queue)) (base + VIRTIO_MMIO_QUEUE_PFN) s;
            (vq, m) = vring_init_virtqueue (zero_queue vdev) index num (ucast VIRTIO_MMIO_VRING_ALIGN) vdev queue Vm_notify callback name (ram (vm s))
        in Ret (Some vq, set_ram m s)))))))"

text \<open>The callbacks are \<^verbatim>\<open>NULL\<close> in every call, so the list of names is the argument. The queues that were set up are returned with the code.\<close>

primrec vm_find_loop ::
  "'h virtio_hw \<Rightarrow> alloc_ops \<Rightarrow> translation \<Rightarrow> virtio_mmio_device \<Rightarrow> string list \<Rightarrow> u32 \<Rightarrow> vring_virtqueue list \<Rightarrow> ('h, 'z) io_state_scheme
     \<Rightarrow> (int \<times> vring_virtqueue list \<times> ('h, 'z) io_state_scheme) outcome" where
  "vm_find_loop hw ops tr vdev [] i vqs s = Ret (0, vqs, s)"
| "vm_find_loop hw ops tr vdev (name # names) i vqs s =
     bind_outcome (vm_setup_vq hw ops tr vdev i 0 name s) (\<lambda>(vq, s).
     case vq of None \<Rightarrow> Ret (- 1, vqs, s) | Some q \<Rightarrow> vm_find_loop hw ops tr vdev names (i + 1) (vqs @ [q]) s)"

definition vm_find_vqs ::
  "'h virtio_hw \<Rightarrow> alloc_ops \<Rightarrow> translation \<Rightarrow> virtio_mmio_device \<Rightarrow> string list \<Rightarrow> ('h, 'z) io_state_scheme
     \<Rightarrow> (int \<times> vring_virtqueue list \<times> ('h, 'z) io_state_scheme) outcome" where
  "vm_find_vqs hw ops tr vdev names s = vm_find_loop hw ops tr vdev names 0 [] s"

definition vm_device_init :: "'h virtio_hw \<Rightarrow> u64 \<Rightarrow> ('h, 'z) io_state_scheme \<Rightarrow> virtio_mmio_device \<times> ('h, 'z) io_state_scheme" where
  "vm_device_init hw base s =
     (let (device, s) = dev_readl hw (base + VIRTIO_MMIO_DEVICE_ID) s;
          (vendor, s) = dev_readl hw (base + VIRTIO_MMIO_VENDOR_ID) s;
          s = dev_writel hw (ucast PAGE_SIZE) (base + VIRTIO_MMIO_GUEST_PAGE_SIZE) s
      in (\<lparr>vdev_id = \<lparr>id_device = device, id_vendor = vendor\<rparr>, vdev_base = base\<rparr>, s))"

section \<open>The test device behind a console\<close>

record 'h chr_state = "'h io_state" +
  vcon :: "virtio_mmio_device option"
  in_vq :: "vring_virtqueue option"
  out_vq :: "vring_virtqueue option"

partial_function (option) send_wait :: "'h virtio_hw \<Rightarrow> vring_virtqueue \<Rightarrow> 'h chr_state \<Rightarrow> (vring_virtqueue \<times> 'h chr_state) outcome option" where
  "send_wait hw vq s =
     (let s = dev_idle hw s in
      case virtqueue_get_buf vq (ram (vm s)) of
        Abort e \<Rightarrow> Some (Abort e)
      | Ret (ret, len, vq, m) \<Rightarrow> if ret = 0 then send_wait hw vq (set_ram m s) else Some (Ret (vq, set_ram m s)))"

definition testdev_send :: "'h virtio_hw \<Rightarrow> u64 \<Rightarrow> u32 \<Rightarrow> 'h chr_state \<Rightarrow> 'h chr_state outcome" where
  "testdev_send hw buf len s =
     (case out_vq s of
        None \<Rightarrow> Abort ''NULL pointer: out_vq''
      | Some vq \<Rightarrow>
          bind_outcome (virtqueue_add_outbuf buf len vq (ram (vm s))) (\<lambda>(ret, vq, m).
          let s = snd (virtqueue_kick hw vq (set_ram m s)) in
          if ret < 0 then Ret (s\<lparr>out_vq := Some vq\<rparr>)
          else bind_outcome (returns (send_wait hw vq s)) (\<lambda>r.
               bind_outcome r (\<lambda>(vq, s). Ret (s\<lparr>out_vq := Some vq\<rparr>)))))"

text \<open>\<open>buf\<close> is the address of the static buffer of eight characters.\<close>

definition chr_testdev_exit :: "'h virtio_hw \<Rightarrow> u64 \<Rightarrow> u32 \<Rightarrow> 'h chr_state \<Rightarrow> 'h chr_state outcome" where
  "chr_testdev_exit hw buf code s =
     (case vcon s of
        None \<Rightarrow> Ret s
      | Some _ \<Rightarrow>
          bind_outcome (snprintf (ram (vm s)) buf 8 ''%dq'' [VInt (ucast code)]) (\<lambda>(m, _).
          bind_outcome (returns (strlen m buf)) (\<lambda>len.
          testdev_send hw buf (ucast len) (set_ram m s))))"

end
