(* ===== verification/Virtio_Queue.thy ===== *)
theory Virtio_Queue
  imports Virtio
begin

text \<open>
  The invariant of a virtio queue: the free descriptors are a chain in memory, every other descriptor holds a buffer that
  the device works on, and the three parts of the ring do not overlap. Every operation keeps it.
\<close>

unbundle bit_operations_syntax

section \<open>Layout\<close>

definition vring_ok :: "vring \<Rightarrow> nat \<Rightarrow> nat \<Rightarrow> bool" where
  "vring_ok vr A U \<longleftrightarrow> (\<exists>k \<le> 15. vr_num vr = push_bit k 1) \<and> vr_avail vr = vr_desc vr + of_nat A \<and> vr_used vr = vr_desc vr + of_nat U
     \<and> 16 * unat (vr_num vr) \<le> A \<and> A + 6 + 2 * unat (vr_num vr) \<le> U \<and> U + 6 + 8 * unat (vr_num vr) \<le> 2 ^ 64"

text \<open>Offset and size of the fields of a descriptor.\<close>

primrec doff :: "vring_desc \<Rightarrow> nat" where
  "doff Desc_addr = 0"
| "doff Desc_len = 8"
| "doff Desc_flags = 12"
| "doff Desc_next = 14"

primrec dsize :: "vring_desc \<Rightarrow> nat" where
  "dsize Desc_addr = 8"
| "dsize Desc_len = 4"
| "dsize Desc_flags = 2"
| "dsize Desc_next = 2"

lemma desc_field_eq: "desc_field f = (of_nat (doff f), dsize f)"
  by (cases f) simp_all

lemma dsize_bounds: "dsize f \<le> 8" "doff f + dsize f \<le> 16"
  by (cases f; simp)+

lemma desc_fields_apart: "f \<noteq> g \<Longrightarrow> doff f + dsize f \<le> doff g \<or> doff g + dsize g \<le> doff f"
  by (cases f; cases g) simp_all

lemma desc_addr: "desc_at vr i + of_nat o' = vr_desc vr + of_nat (16 * unat i + o')"
  by (simp add: desc_at_def algebra_simps)

lemma ring_addrs:
  assumes "vring_ok vr A U"
  shows "avail_idx_at vr = vr_desc vr + of_nat (A + 2)" and "avail_ring_at vr i = vr_desc vr + of_nat (A + 4 + 2 * unat i)"
    and "used_ring_at vr i = vr_desc vr + of_nat (U + 4 + 8 * unat i)" and "used_idx_at vr = vr_desc vr + of_nat (U + 2)"
  using assms by (simp_all add: vring_ok_def avail_idx_at_def avail_ring_at_def used_ring_at_def used_idx_at_def algebra_simps)

lemma loadn_storen_trunc:
  assumes "k \<le> 8"
  shows "loadn k (storen k m a v) a = take_bit (8 * k) v"
proof -
  have "storen k m a v = storen k m a (take_bit (8 * k) v)"
  proof
    fix x
    show "storen k m a v x = storen k m a (take_bit (8 * k) v) x"
    proof (cases "unat (x - a) < k")
      case True
      have "(ucast (drop_bit (8 * unat (x - a)) v) :: u8) = ucast (drop_bit (8 * unat (x - a)) (take_bit (8 * k) v))"
        by (rule bit_word_eqI) (use True in \<open>auto simp: bit_ucast_iff bit_drop_bit_eq bit_take_bit_iff\<close>)
      then show ?thesis
        using True assms by (simp add: storen_apply)
    qed (simp add: storen_apply assms)
  qed
  then show ?thesis
    using loadn_storen_same [OF assms, of "take_bit (8 * k) v" m a] by simp
qed

section \<open>Reads after writes\<close>

lemma put_desc_same: "get_desc (put_desc vr i f x m) vr i f = take_bit (8 * dsize f) x"
  by (simp add: get_desc_def put_desc_def desc_field_eq loadn_storen_trunc dsize_bounds)

lemma put_desc_other:
  assumes "vring_ok vr A U" and "unat i < unat (vr_num vr)" and "unat j < unat (vr_num vr)" and "i \<noteq> j \<or> f \<noteq> g"
  shows "get_desc (put_desc vr i f x m) vr j g = get_desc m vr j g"
proof -
  have n: "16 * unat (vr_num vr) \<le> 2 ^ 64"
    using assms(1) by (simp add: vring_ok_def)
  have "16 * unat j + doff g + dsize g \<le> 16 * unat i + doff f \<or> 16 * unat i + doff f + dsize f \<le> 16 * unat j + doff g"
  proof (cases "i = j")
    case True
    then show ?thesis
      using assms(4) desc_fields_apart [of f g] by auto
  next
    case False
    then have "unat i < unat j \<or> unat j < unat i"
      by (metis linorder_less_linear word_unat_eq_iff)
    then show ?thesis
      using dsize_bounds(2) [of f] dsize_bounds(2) [of g] by auto
  qed
  then show ?thesis
    using n assms(2,3) dsize_bounds [of f] dsize_bounds(2) [of g]
    by (simp only: get_desc_def put_desc_def desc_field_eq fst_conv snd_conv desc_addr) (rule loadn_storen_apart, auto)
qed

text \<open>A store behind the descriptors keeps them, and a store to a descriptor keeps what is behind them.\<close>

lemma get_desc_store:
  assumes "16 * unat (vr_num vr) \<le> y" and "unat j < unat (vr_num vr)" and "k \<le> 8" and "y + k \<le> 2 ^ 64"
  shows "get_desc (storen k m (vr_desc vr + of_nat y) x) vr j g = get_desc m vr j g"
  using assms dsize_bounds [of g]
  by (simp only: get_desc_def desc_field_eq fst_conv snd_conv desc_addr) (rule loadn_storen_apart, auto)

lemma put_desc_load:
  assumes "16 * unat (vr_num vr) \<le> y" and "unat i < unat (vr_num vr)" and "y + k \<le> 2 ^ 64"
  shows "loadn k (put_desc vr i f x m) (vr_desc vr + of_nat y) = loadn k m (vr_desc vr + of_nat y)"
  using assms dsize_bounds [of f]
  by (simp only: put_desc_def desc_field_eq fst_conv snd_conv desc_addr) (rule loadn_storen_apart, auto)

lemma put_desc_outside:
  assumes "16 * unat (vr_num vr) \<le> unat (x - vr_desc vr)" and "unat i < unat (vr_num vr)"
  shows "put_desc vr i f v m x = m x"
proof -
  have "x = vr_desc vr + of_nat (unat (x - vr_desc vr))"
    by simp
  moreover have "storen (dsize f) m (vr_desc vr + of_nat (16 * unat i + doff f)) v (vr_desc vr + of_nat (unat (x - vr_desc vr)))
      = m (vr_desc vr + of_nat (unat (x - vr_desc vr)))"
    using assms dsize_bounds [of f] unat_less_u64 [of "x - vr_desc vr"] by (intro storen_apart) auto
  ultimately show ?thesis
    by (simp only: put_desc_def desc_field_eq fst_conv snd_conv desc_addr)
qed

lemma ring_index:
  assumes "vring_ok vr A U"
  shows "unat (x AND (vr_num vr - 1)) < unat (vr_num vr)"
proof -
  obtain k where k: "k \<le> 15" "vr_num vr = push_bit k 1"
    using assms by (auto simp: vring_ok_def)
  then have "vr_num vr - 1 = mask k"
    by (simp add: mask_eq_exp_minus_1)
  moreover have "unat (vr_num vr) = 2 ^ k"
  proof -
    have "(2 :: nat) ^ k < 2 ^ 32"
      using k(1) by (intro power_strict_increasing) auto
    moreover have "vr_num vr = of_nat (2 ^ k)"
      using k(2) by simp
    ultimately show ?thesis
      by (simp only: unat_of_nat) (simp add: take_bit_nat_eq_self)
  qed
  ultimately show ?thesis
    using k(1) by (simp add: take_bit_eq_mask [symmetric] unsigned_take_bit_eq take_bit_nat_less_exp)
qed

section \<open>The invariant\<close>

primrec free_chain :: "mem \<Rightarrow> vring \<Rightarrow> u32 \<Rightarrow> u32 list \<Rightarrow> bool" where
  "free_chain m vr h [] \<longleftrightarrow> True"
| "free_chain m vr h (i # is) \<longleftrightarrow> h = i \<and> i < vr_num vr \<and> free_chain m vr (ucast (get_desc m vr i Desc_next)) is"

definition queue_ok :: "vring_virtqueue \<Rightarrow> mem \<Rightarrow> u32 list \<Rightarrow> bool" where
  "queue_ok vq m fs \<longleftrightarrow> (\<exists>A U. vring_ok (vq_vring vq) A U) \<and> free_chain m (vq_vring vq) (vq_free_head vq) fs \<and> distinct fs
     \<and> vq_num_free vq = of_nat (length fs)
     \<and> (\<forall>i < vr_num (vq_vring vq). vq_data vq i \<noteq> 0 \<longleftrightarrow> i \<notin> set fs)
     \<and> (\<forall>i < vr_num (vq_vring vq). i \<notin> set fs \<longrightarrow> get_desc m (vq_vring vq) i Desc_flags = 0)"

lemma free_chain_cong:
  assumes "free_chain m vr h fs" and "\<And>i. i \<in> set fs \<Longrightarrow> i < vr_num vr \<Longrightarrow> get_desc m' vr i Desc_next = get_desc m vr i Desc_next"
  shows "free_chain m' vr h fs"
  using assms by (induction fs arbitrary: h) auto

lemma free_chain_bound: "free_chain m vr h fs \<Longrightarrow> i \<in> set fs \<Longrightarrow> i < vr_num vr"
  by (induction fs arbitrary: h) auto

lemma num_bound: "vring_ok vr A U \<Longrightarrow> unat (vr_num vr) \<le> 2 ^ 15" "vring_ok vr A U \<Longrightarrow> 0 < unat (vr_num vr)"
proof -
  assume "vring_ok vr A U"
  then obtain k where k: "k \<le> 15" "vr_num vr = of_nat (2 ^ k)"
    by (auto simp: vring_ok_def)
  have le: "(2 :: nat) ^ k \<le> 2 ^ 15"
    using k(1) by (intro power_increasing) auto
  then have "unat (vr_num vr) = 2 ^ k"
    unfolding k(2) unat_of_nat by (simp add: take_bit_nat_eq_self)
  then show "unat (vr_num vr) \<le> 2 ^ 15" "0 < unat (vr_num vr)"
    using le by simp_all
qed

lemma free_chain_length:
  assumes "free_chain m vr h fs" and "distinct fs" and "vring_ok vr A U"
  shows "length fs \<le> unat (vr_num vr)"
proof -
  have "card (unat ` set fs) \<le> card {..<unat (vr_num vr)}"
    using free_chain_bound [OF assms(1)] by (intro card_mono) (auto simp: word_less_nat_alt)
  moreover have "inj_on unat (set fs)"
    by (rule inj_onI) (simp add: word_unat_eq_iff)
  ultimately show ?thesis
    using assms(2) by (simp add: card_image distinct_card)
qed

text \<open>What the driver keeps of a queue when it adds or gets a buffer.\<close>

definition same_queue :: "vring_virtqueue \<Rightarrow> vring_virtqueue \<Rightarrow> bool" where
  "same_queue vq vq' \<longleftrightarrow> vq_vring vq' = vq_vring vq \<and> vq_index vq' = vq_index vq \<and> vq_vdev vq' = vq_vdev vq \<and> vq_notify vq' = vq_notify vq
     \<and> vq_name vq' = vq_name vq \<and> vq_callback vq' = vq_callback vq"

text \<open>Filling in a descriptor, and publishing it in the available ring.\<close>

lemma fill_desc:
  fixes vr :: vring and m :: mem and buf :: u64 and len h :: u32
  assumes vr: "vring_ok vr A U" and un: "unat h < unat (vr_num vr)"
  defines "m1 \<equiv> put_desc vr h Desc_len (ucast len) (put_desc vr h Desc_addr buf (put_desc vr h Desc_flags 0 m))"
  shows "unat i < unat (vr_num vr) \<Longrightarrow> get_desc m1 vr i Desc_next = get_desc m vr i Desc_next"
    and "unat i < unat (vr_num vr) \<Longrightarrow> i \<noteq> h \<Longrightarrow> get_desc m1 vr i f = get_desc m vr i f"
    and "get_desc m1 vr h Desc_addr = buf" and "get_desc m1 vr h Desc_len = ucast len" and "get_desc m1 vr h Desc_flags = 0"
    and "A \<le> y \<Longrightarrow> y + k \<le> 2 ^ 64 \<Longrightarrow> loadn k m1 (vr_desc vr + of_nat y) = loadn k m (vr_desc vr + of_nat y)"
    and "U \<le> unat (x - vr_desc vr) \<Longrightarrow> m1 x = m x"
proof -
  have lay: "16 * unat (vr_num vr) \<le> A" "A \<le> U"
    using vr by (simp_all add: vring_ok_def)
  show "get_desc m1 vr i Desc_next = get_desc m vr i Desc_next" if "unat i < unat (vr_num vr)"
    unfolding m1_def using put_desc_other [OF vr un that] by simp
  show "get_desc m1 vr i f = get_desc m vr i f" if "unat i < unat (vr_num vr)" "i \<noteq> h"
    unfolding m1_def using put_desc_other [OF vr un that(1)] that(2) by simp
  have "take_bit 32 (ucast len :: u64) = ucast len" "take_bit 64 buf = buf"
    by (rule bit_word_eqI; auto simp: bit_take_bit_iff bit_ucast_iff dest: bit_imp_le_length)+
  then show "get_desc m1 vr h Desc_addr = buf" "get_desc m1 vr h Desc_len = ucast len" "get_desc m1 vr h Desc_flags = 0"
    unfolding m1_def by (simp_all add: put_desc_same put_desc_other [OF vr un un])
  show "loadn k m1 (vr_desc vr + of_nat y) = loadn k m (vr_desc vr + of_nat y)" if "A \<le> y" "y + k \<le> 2 ^ 64"
    unfolding m1_def using put_desc_load [of vr y h k] un that lay(1) by simp
  show "m1 x = m x" if "U \<le> unat (x - vr_desc vr)"
    unfolding m1_def using put_desc_outside [of vr x h] un that lay by simp
qed

lemma publish:
  fixes vr :: vring and m1 :: mem and h x :: u64 and a :: u32
  assumes vr: "vring_ok vr A U" and a: "unat a < unat (vr_num vr)"
  defines "m2 \<equiv> storen 2 m1 (avail_ring_at vr a) h"
  defines "m3 \<equiv> storen 2 m2 (avail_idx_at vr) x"
  shows "loadn 2 m2 (avail_idx_at vr) = loadn 2 m1 (avail_idx_at vr)"
    and "unat i < unat (vr_num vr) \<Longrightarrow> get_desc m3 vr i f = get_desc m1 vr i f"
    and "loadn 2 m3 (avail_ring_at vr a) = take_bit 16 h" and "loadn 2 m3 (avail_idx_at vr) = take_bit 16 x"
    and "U \<le> unat (y - vr_desc vr) \<Longrightarrow> m3 y = m1 y"
proof -
  note ra = ring_addrs(1,2) [OF vr]
  have lay: "16 * unat (vr_num vr) \<le> A" "A + 6 + 2 * unat (vr_num vr) \<le> U" "U + 6 + 8 * unat (vr_num vr) \<le> 2 ^ 64"
    using vr by (simp_all add: vring_ok_def)
  show "loadn 2 m2 (avail_idx_at vr) = loadn 2 m1 (avail_idx_at vr)"
    unfolding m2_def ra by (rule loadn_storen_apart) (use lay a in auto)
  show "get_desc m3 vr i f = get_desc m1 vr i f" if "unat i < unat (vr_num vr)"
  proof -
    have "get_desc m3 vr i f = get_desc m2 vr i f"
      unfolding m3_def ra by (rule get_desc_store) (use lay a that in auto)
    also have "\<dots> = get_desc m1 vr i f"
      unfolding m2_def ra by (rule get_desc_store) (use lay a that in auto)
    finally show ?thesis .
  qed
  have "loadn 2 m3 (avail_ring_at vr a) = loadn 2 m2 (avail_ring_at vr a)"
    unfolding m3_def ra by (rule loadn_storen_apart) (use lay a in auto)
  then show "loadn 2 m3 (avail_ring_at vr a) = take_bit 16 h"
    by (simp add: m2_def loadn_storen_trunc)
  show "loadn 2 m3 (avail_idx_at vr) = take_bit 16 x"
    by (simp add: m3_def loadn_storen_trunc)
  show "m3 y = m1 y" if "U \<le> unat (y - vr_desc vr)"
  proof -
    define z where "z = unat (y - vr_desc vr)"
    have "z < 2 ^ 64"
      unfolding z_def by (rule unat_less_u64)
    then have y: "y = vr_desc vr + of_nat z" "z < 2 ^ 64" "U \<le> z"
      using that by (simp_all add: z_def)
    have "m3 y = m2 y"
      unfolding m3_def ra y(1) by (rule storen_apart) (use lay y a in auto)
    also have "\<dots> = m1 y"
      unfolding m2_def ra y(1) by (rule storen_apart) (use lay y a in auto)
    finally show ?thesis .
  qed
qed

text \<open>
  Adding a buffer takes the first free descriptor, fills it in and makes it available to the device in the next slot of the ring.
  The driver writes neither to the used ring nor to memory outside the rings.
\<close>

lemma add_outbuf_effect:
  assumes ok: "queue_ok vq m (h # fs)" and vr: "vring_ok (vq_vring vq) A U" and buf: "buf \<noteq> 0" "len \<noteq> 0"
  obtains vq' m' where "virtqueue_add_outbuf buf len vq m = Ret (0, vq', m')" and "queue_ok vq' m' fs" and "same_queue vq vq'"
    and "vq_last_used_idx vq' = vq_last_used_idx vq" and "vq_data vq' = (vq_data vq)(h := buf)" and "h < vr_num (vq_vring vq)"
    and "get_desc m' (vq_vring vq) h Desc_addr = buf" and "get_desc m' (vq_vring vq) h Desc_len = ucast len"
    and "get_desc m' (vq_vring vq) h Desc_flags = 0"
    and "loadn 2 m' (avail_ring_at (vq_vring vq) (ucast (loadn 2 m (avail_idx_at (vq_vring vq))) AND (vr_num (vq_vring vq) - 1))) = ucast h"
    and "loadn 2 m' (avail_idx_at (vq_vring vq)) = take_bit 16 (loadn 2 m (avail_idx_at (vq_vring vq)) + 1)"
    and "\<And>x. U \<le> unat (x - vr_desc (vq_vring vq)) \<Longrightarrow> m' x = m x"
proof -
  let ?vr = "vq_vring vq"
  have hd: "vq_free_head vq = h" "h < vr_num ?vr" and un: "unat h < unat (vr_num ?vr)"
    using ok by (auto simp: queue_ok_def word_less_nat_alt)
  define m1 where "m1 = put_desc ?vr h Desc_len (ucast len) (put_desc ?vr h Desc_addr buf (put_desc ?vr h Desc_flags 0 m))"
  note fill = fill_desc [OF vr un, where len = len and buf = buf and m = m, folded m1_def]
  define idx where "idx = loadn 2 m (avail_idx_at ?vr)"
  define a where "a = ucast idx AND (vr_num ?vr - 1)"
  have a: "unat a < unat (vr_num ?vr)"
    unfolding a_def by (rule ring_index [OF vr])
  have "A + 2 + 2 \<le> 2 ^ 64"
    using vr by (simp add: vring_ok_def)
  then have i1: "loadn 2 m1 (avail_idx_at ?vr) = idx"
    unfolding idx_def ring_addrs(1) [OF vr] by (intro fill(6)) auto
  define m' where "m' = storen 2 (storen 2 m1 (avail_ring_at ?vr a) (ucast h)) (avail_idx_at ?vr) (idx + 1)"
  note pub1 = publish(1) [OF vr a, of m1 "ucast h"] and pub = publish(2-) [OF vr a, where ?m1.0 = m1 and h = "ucast h" and x = "idx + 1", folded m'_def]
  define vq' where "vq' = vq\<lparr>vq_num_free := vq_num_free vq - 1, vq_free_head := ucast (get_desc m1 ?vr h Desc_next), vq_data := (vq_data vq)(h := buf),
     vq_num_added := vq_num_added vq + 1\<rparr>"
  have len: "Suc (length fs) \<le> 2 ^ 15"
    using free_chain_length [of m ?vr _ "h # fs", OF _ _ vr] num_bound(1) [OF vr] ok by (fastforce simp: queue_ok_def)
  then have "unat (vq_num_free vq) = Suc (length fs)"
    using ok by (simp add: queue_ok_def unat_of_nat take_bit_nat_eq_self del: of_nat_Suc)
  then have nf: "vq_num_free vq \<noteq> 0"
    by (metis nat.distinct(1) unat_0)
  have add: "virtqueue_add_outbuf buf len vq m = Ret (0, vq', m')"
    using buf nf hd(1) i1 pub1
    by (simp add: virtqueue_add_outbuf_def Let_def flip: m1_def) (simp add: i1 a_def [symmetric] m'_def vq'_def)
  have g: "get_desc m' ?vr i Desc_next = get_desc m ?vr i Desc_next" if "i < vr_num ?vr" for i
    using pub(1) fill(1) that by (simp add: word_less_nat_alt)
  have "free_chain m' ?vr (vq_free_head vq') fs"
    by (rule free_chain_cong [OF _ g]) (use ok fill(1) [OF un] in \<open>simp_all add: queue_ok_def vq'_def\<close>)
  moreover have "get_desc m' ?vr i Desc_flags = 0" if "i < vr_num ?vr" "i \<notin> set fs" for i
    using that ok pub(1) fill(2,5) by (cases "i = h") (simp_all add: queue_ok_def word_less_nat_alt)
  moreover have "vq_data vq' i \<noteq> 0 \<longleftrightarrow> i \<notin> set fs" if "i < vr_num ?vr" for i
    using that ok buf(1) by (cases "i = h") (simp_all add: queue_ok_def vq'_def)
  ultimately have "queue_ok vq' m' fs"
    using ok vr by (auto simp: queue_ok_def vq'_def)
  moreover have "same_queue vq vq'" "vq_last_used_idx vq' = vq_last_used_idx vq" "vq_data vq' = (vq_data vq)(h := buf)"
    by (simp_all add: same_queue_def vq'_def)
  moreover have "take_bit 16 (ucast h) = (ucast h :: u64)"
  proof -
    have "unat h < 2 ^ 16"
      using un num_bound(1) [OF vr] by simp
    then show ?thesis
      by (simp add: take_bit_word_small unsigned_ucast_eq take_bit_nat_eq_self)
  qed
  ultimately show thesis
    using that [of vq' m'] add hd(2) pub(1) [OF un] pub(2-4) fill(3-5,7) by (simp add: idx_def a_def)
qed

text \<open>
  Getting back a buffer that the device has returned in the next slot of the used ring: its descriptor becomes the first
  free one. Only the link of the descriptor is written.
\<close>

lemma get_buf_effect:
  assumes ok: "queue_ok vq m fs" and vr: "vring_ok (vq_vring vq) A U" and i: "i < vr_num (vq_vring vq)" "i \<notin> set fs"
    and used: "loadn 4 m (used_ring_at (vq_vring vq) (ucast (vq_last_used_idx vq) AND (vr_num (vq_vring vq) - 1))) = ucast i"
  obtains vq' m' len where "virtqueue_get_buf vq m = Ret (vq_data vq i, len, vq', m')" and "queue_ok vq' m' (i # fs)" and "same_queue vq vq'"
    and "vq_last_used_idx vq' = vq_last_used_idx vq + 1" and "vq_data vq' = (vq_data vq)(i := 0)"
    and "\<And>y k. 16 * unat (vr_num (vq_vring vq)) \<le> y \<Longrightarrow> y + k \<le> 2 ^ 64 \<Longrightarrow> loadn k m' (vr_desc (vq_vring vq) + of_nat y) = loadn k m (vr_desc (vq_vring vq) + of_nat y)"
    and "\<And>x. U \<le> unat (x - vr_desc (vq_vring vq)) \<Longrightarrow> m' x = m x"
proof -
  let ?vr = "vq_vring vq"
  have un: "unat i < unat (vr_num ?vr)"
    using i(1) by (simp add: word_less_nat_alt)
  have fl: "get_desc m ?vr i Desc_flags = 0"
    using ok i by (simp add: queue_ok_def)
  define m' where "m' = put_desc ?vr i Desc_next (ucast (vq_free_head vq)) m"
  define vq' where "vq' = vq\<lparr>vq_data := (vq_data vq)(i := 0), vq_free_head := i, vq_num_free := vq_num_free vq + 1, vq_last_used_idx := vq_last_used_idx vq + 1\<rparr>"
  have "detach_loop i (vq\<lparr>vq_data := (vq_data vq)(i := 0)\<rparr>) m = Some (i, vq\<lparr>vq_data := (vq_data vq)(i := 0)\<rparr>)"
    using fl by (simp add: detach_loop.simps)
  moreover have "(ucast (ucast i :: u64) :: u32) = i"
    by (rule bit_word_eqI) (auto simp: bit_ucast_iff)
  ultimately have get: "virtqueue_get_buf vq m = Ret (vq_data vq i, ucast (loadn 4 m (used_ring_at ?vr (ucast (vq_last_used_idx vq) AND (vr_num ?vr - 1)) + 4)), vq', m')"
    using used by (simp add: virtqueue_get_buf_def detach_buf_def Let_def returns_def m'_def vq'_def)
  have f: "get_desc m' ?vr j Desc_flags = get_desc m ?vr j Desc_flags" if "j < vr_num ?vr" for j
    unfolding m'_def using put_desc_other [OF vr un] that by (simp add: word_less_nat_alt)
  have n: "get_desc m' ?vr j Desc_next = get_desc m ?vr j Desc_next" if "j < vr_num ?vr" "j \<noteq> i" for j
    unfolding m'_def using put_desc_other [OF vr un] that by (simp add: word_less_nat_alt)
  have "free_chain m' ?vr i (i # fs)"
  proof (cases fs)
    case (Cons h fs')
    then have h: "vq_free_head vq = h" "h < vr_num ?vr"
      using ok by (simp_all add: queue_ok_def)
    have "unat h < 2 ^ 16"
      using h(2) num_bound(1) [OF vr] by (simp add: word_less_nat_alt)
    then have "ucast (get_desc m' ?vr i Desc_next) = h"
      by (simp add: m'_def put_desc_same h(1) take_bit_word_small unsigned_ucast_eq take_bit_nat_eq_self)
    moreover have "free_chain m' ?vr h fs"
      by (rule free_chain_cong [OF _ n]) (use ok i h(1) in \<open>auto simp: queue_ok_def\<close>)
    ultimately show ?thesis
      using i(1) by simp
  qed (use i(1) in simp)
  then have "queue_ok vq' m' (i # fs)"
    using ok i vr f unfolding queue_ok_def vq'_def by auto
  moreover have "same_queue vq vq'" "vq_last_used_idx vq' = vq_last_used_idx vq + 1" "vq_data vq' = (vq_data vq)(i := 0)"
    by (simp_all add: same_queue_def vq'_def)
  moreover have "loadn k m' (vr_desc ?vr + of_nat y) = loadn k m (vr_desc ?vr + of_nat y)" if "16 * unat (vr_num ?vr) \<le> y" "y + k \<le> 2 ^ 64" for y k
    unfolding m'_def by (rule put_desc_load [OF that(1) un that(2)])
  moreover have "m' x = m x" if "U \<le> unat (x - vr_desc ?vr)" for x
    unfolding m'_def using that un vr by (intro put_desc_outside) (auto simp: vring_ok_def)
  ultimately show thesis
    using that [OF get] by blast
qed

section \<open>A new queue\<close>

lemma round_up_offset:
  assumes "aligned c p"
  shows "(p + of_nat y) AND NOT (push_bit c 1 - 1) = p + of_nat (y div 2 ^ c * 2 ^ c)"
proof -
  let ?x = "p + of_nat y"
  have "?x AND NOT (push_bit c 1 - 1) = ?x AND NOT (take_bit c ?x)"
    by (rule bit_word_eqI) (auto simp: bit_and_iff bit_not_iff bit_take_bit_iff bit_mask_iff simp flip: mask_eq_exp_minus_1)
  also have "\<dots> = ?x - take_bit c ?x"
    by (rule disjunctive_diff [symmetric]) (simp add: bit_take_bit_iff)
  also have "take_bit c ?x = of_nat (y mod 2 ^ c)"
  proof -
    have "take_bit c ?x = take_bit c (of_nat y)"
      using assms take_bit_word_add [of c p "of_nat y"] by (simp add: aligned_def)
    also have "\<dots> = of_nat (take_bit c y)"
      by (simp add: take_bit_of_nat)
    finally show ?thesis
      by (simp only: take_bit_eq_mod)
  qed
  also have "?x - of_nat (y mod 2 ^ c) = p + of_nat (y - y mod 2 ^ c)"
    by (simp add: of_nat_diff)
  finally show ?thesis
    by (simp only: minus_mod_eq_div_mult)
qed

lemma vring_init_ok:
  assumes "k \<le> 15" and "c \<le> 31" and "aligned c p"
  shows "vring_ok (vring_init (push_bit k 1) p (push_bit c 1)) (16 * 2 ^ k) ((18 * 2 ^ k + 5 + 2 ^ c) div 2 ^ c * 2 ^ c)"
proof -
  have kc: "(2 :: nat) ^ k \<le> 2 ^ 15" "(2 :: nat) ^ c \<le> 2 ^ 31"
    using assms(1,2) by (intro power_increasing; simp)+
  have num: "unat (push_bit k 1 :: u32) = 2 ^ k"
  proof -
    have "(push_bit k 1 :: u32) = of_nat (2 ^ k)"
      by simp
    then show ?thesis
      using kc(1) by (simp only: unat_of_nat) (simp add: take_bit_nat_eq_self)
  qed
  define n where "n = (2 :: nat) ^ k"
  define N where "N = (push_bit k 1 :: u32)"
  define al where "al = (2 :: nat) ^ c"
  have uc: "(ucast N :: u64) = of_nat n" "unat N = n" "n \<le> 2 ^ 15" "0 < al" "al \<le> 2 ^ 31"
    using num kc of_nat_unat [of N, where ?'a = "64 word"] by (simp_all add: N_def n_def al_def)
  have ac: "push_bit c 1 = (of_nat al :: u64)"
    by (simp add: al_def)
  let ?y = "18 * n + 5 + al"
  have "p + of_nat n * 16 + 4 + 2 * of_nat n + 2 + of_nat al - 1 = p + of_nat ?y"
    by (simp add: algebra_simps)
  then have "(p + of_nat n * 16 + 4 + 2 * of_nat n + 2 + of_nat al - 1) AND NOT (of_nat al - 1) = p + of_nat (?y div al * al)"
    using round_up_offset [OF assms(3), of ?y] unfolding ac by (simp only: al_def)
  then have used: "vr_used (vring_init N p (of_nat al)) = p + of_nat (?y div al * al)"
    by (simp only: vring_init_def Let_def vring.simps uc(1))
  have "?y mod al < al"
    using uc(4) by simp
  then have "18 * n + 6 \<le> ?y div al * al" "?y div al * al \<le> ?y"
    using div_mult_mod_eq [of ?y al] by linarith+
  moreover have "n \<le> 32768" "al \<le> 2147483648" "(18446744073709551616 :: nat) = 2 ^ 64"
    using uc(3,5) by simp_all
  ultimately have "16 * n + 6 + 2 * n \<le> ?y div al * al" "?y div al * al + 6 + 8 * n \<le> 2 ^ 64"
    by linarith+
  moreover have "vr_avail (vring_init N p (of_nat al)) = p + of_nat (16 * n)" "vr_num (vring_init N p (of_nat al)) = N" "vr_desc (vring_init N p (of_nat al)) = p"
    by (simp_all add: vring_init_def Let_def uc(1) mult.commute)
  ultimately have "vring_ok (vring_init N p (of_nat al)) (16 * n) (?y div al * al)"
    unfolding vring_ok_def using used uc(2) assms(1) N_def by auto
  then show ?thesis
    by (simp only: N_def n_def al_def ac [symmetric, unfolded al_def])
qed

text \<open>The loop over the descriptors links them in order.\<close>

lemma init_desc_loop_links:
  assumes "vring_ok (vq_vring vq) A U" and "unat i + n < unat (vr_num (vq_vring vq))"
  shows "\<exists>d m'. init_desc_loop n i vq m = (i + of_nat n, vq\<lparr>vq_data := d\<rparr>, m')
    \<and> (\<forall>j. j < vr_num (vq_vring vq) \<longrightarrow> get_desc m' (vq_vring vq) j Desc_next
          = (if unat i \<le> unat j \<and> unat j < unat i + n then ucast (j + 1) else get_desc m (vq_vring vq) j Desc_next)
        \<and> get_desc m' (vq_vring vq) j Desc_flags = get_desc m (vq_vring vq) j Desc_flags
        \<and> d j = (if unat i \<le> unat j \<and> unat j < unat i + n then 0 else vq_data vq j))
    \<and> (\<forall>x. 16 * unat (vr_num (vq_vring vq)) \<le> unat (x - vr_desc (vq_vring vq)) \<longrightarrow> m' x = m x)"
  using assms
proof (induction n arbitrary: i vq m)
  case 0
  then show ?case
    by (intro exI [of _ "vq_data vq"] exI [of _ m]) auto
next
  case (Suc n)
  let ?vr = "vq_vring vq"
  let ?vq1 = "vq\<lparr>vq_data := (vq_data vq)(i := 0)\<rparr>" and ?m1 = "put_desc ?vr i Desc_next (ucast (i + 1)) m"
  have un: "unat i < unat (vr_num ?vr)"
    using Suc.prems(2) by simp
  have i1: "unat (i + 1) = unat i + 1"
    using un num_bound(1) [OF Suc.prems(1)] by (simp add: unat_word_ariths)
  then have pre: "vring_ok (vq_vring ?vq1) A U" "unat (i + 1) + n < unat (vr_num (vq_vring ?vq1))"
    using Suc.prems by simp_all
  obtain d m' where r: "init_desc_loop n (i + 1) ?vq1 ?m1 = (i + 1 + of_nat n, ?vq1\<lparr>vq_data := d\<rparr>, m')"
      "\<And>j. j < vr_num ?vr \<Longrightarrow> get_desc m' ?vr j Desc_next
          = (if unat (i + 1) \<le> unat j \<and> unat j < unat (i + 1) + n then ucast (j + 1) else get_desc ?m1 ?vr j Desc_next)
        \<and> get_desc m' ?vr j Desc_flags = get_desc ?m1 ?vr j Desc_flags
        \<and> d j = (if unat (i + 1) \<le> unat j \<and> unat j < unat (i + 1) + n then 0 else vq_data ?vq1 j)"
      "\<And>x. 16 * unat (vr_num ?vr) \<le> unat (x - vr_desc ?vr) \<Longrightarrow> m' x = ?m1 x"
    using Suc.IH [OF pre, of ?m1] by auto
  have s16: "take_bit 16 (ucast (i + 1) :: u64) = ucast (i + 1)"
    using i1 un num_bound(1) [OF Suc.prems(1)] by (intro take_bit_word_small) (simp add: unsigned_ucast_eq take_bit_nat_eq_self)
  have g1: "get_desc ?m1 ?vr j Desc_next = (if j = i then ucast (i + 1) else get_desc m ?vr j Desc_next)"
      "get_desc ?m1 ?vr j Desc_flags = get_desc m ?vr j Desc_flags" if "j < vr_num ?vr" for j
    using that s16 put_desc_other [OF Suc.prems(1) un] put_desc_same [of ?vr i Desc_next] by (auto simp: word_less_nat_alt)
  have eq: "j = i \<longleftrightarrow> unat j = unat i" for j
    by (simp add: word_unat_eq_iff)
  show ?case
  proof (intro exI [of _ d] exI [of _ m'] conjI allI impI)
    fix j
    assume j: "j < vr_num ?vr"
    show "get_desc m' ?vr j Desc_next = (if unat i \<le> unat j \<and> unat j < unat i + Suc n then ucast (j + 1) else get_desc m ?vr j Desc_next)"
      "get_desc m' ?vr j Desc_flags = get_desc m ?vr j Desc_flags"
      "d j = (if unat i \<le> unat j \<and> unat j < unat i + Suc n then 0 else vq_data vq j)"
      using r(2) [OF j] g1 [OF j] eq [of j] i1 by auto
  next
    fix x
    assume "16 * unat (vr_num ?vr) \<le> unat (x - vr_desc ?vr)"
    then show "m' x = m x"
      using r(3) put_desc_outside [OF _ un] by simp
  qed (use r(1) in \<open>simp add: add.assoc\<close>)
qed

lemma of_nat_eq_iff_u32: "x < 2 ^ 32 \<Longrightarrow> y < 2 ^ 32 \<Longrightarrow> (of_nat x :: u32) = of_nat y \<longleftrightarrow> x = y"
  using word_of_nat_eq_iff [of x y, where ?'a = 32] by (simp add: take_bit_nat_eq_self)

lemma linked_chain:
  assumes "\<And>j. j < vr_num vr \<Longrightarrow> unat j + 1 < unat (vr_num vr) \<Longrightarrow> get_desc m vr j Desc_next = ucast (j + 1)" and "j \<le> unat (vr_num vr)"
    and "unat (vr_num vr) \<le> 2 ^ 15"
  shows "free_chain m vr (of_nat j) (map of_nat [j..<unat (vr_num vr)])"
  using assms(2)
proof (induction rule: inc_induct)
  case (step j)
  have u: "unat (of_nat j :: u32) = j"
    using step(2) assms(3) by (simp add: unat_of_nat take_bit_nat_eq_self)
  have l: "(of_nat j :: u32) < vr_num vr"
    using u step(2) by (simp add: word_less_nat_alt)
  have "free_chain m vr (ucast (get_desc m vr (of_nat j) Desc_next)) (map of_nat [Suc j..<unat (vr_num vr)])"
  proof (cases "Suc j = unat (vr_num vr)")
    case False
    have "(ucast (ucast (of_nat j + 1 :: u32) :: u64) :: u32) = of_nat j + 1"
      by (rule bit_word_eqI) (auto simp: bit_ucast_iff)
    then have "ucast (get_desc m vr (of_nat j) Desc_next) = (of_nat (Suc j) :: u32)"
      using assms(1) [OF l] u step(2) False by (simp add: add.commute)
    then show ?thesis
      using step.IH by simp
  qed simp
  then show ?case
    using l step(2) by (simp add: upt_conv_Cons)
qed simp

lemma zero_desc:
  assumes "\<And>x. unat (x - vr_desc vr) < 16 * unat (vr_num vr) \<Longrightarrow> m x = 0" and "unat (vr_num vr) \<le> 2 ^ 15" and "j < vr_num vr"
  shows "get_desc m vr j f = 0"
proof -
  have j: "unat j < unat (vr_num vr)"
    using assms(3) by (simp add: word_less_nat_alt)
  have "m (vr_desc vr + of_nat (16 * unat j + doff f) + of_nat i) = 0" if "i < dsize f" for i
  proof (rule assms(1))
    have "vr_desc vr + of_nat (16 * unat j + doff f) + of_nat i - vr_desc vr = of_nat (16 * unat j + doff f + i)"
      by simp
    moreover have "16 * unat j + doff f + i < 16 * unat (vr_num vr)"
      using that j dsize_bounds(2) [of f] by simp
    moreover from this have "unat (of_nat (16 * unat j + doff f + i) :: u64) = 16 * unat j + doff f + i"
      using assms(2) by (intro unat_of_nat_u64) simp
    ultimately show "unat (vr_desc vr + of_nat (16 * unat j + doff f) + of_nat i - vr_desc vr) < 16 * unat (vr_num vr)"
      by (simp only:)
  qed
  then have "loadn (dsize f) m (vr_desc vr + of_nat (16 * unat j + doff f)) = loadn (dsize f) (\<lambda>_. 0) (vr_desc vr + of_nat (16 * unat j + doff f))"
    by (rule loadn_cong)
  also have "\<dots> = 0"
    by (rule bit_word_eqI) (simp add: bit_loadn)
  finally show ?thesis
    by (simp only: get_desc_def desc_field_eq fst_conv snd_conv desc_addr)
qed

lemma linked_queue_ok:
  fixes vq :: vring_virtqueue
  defines "n \<equiv> vr_num (vq_vring vq)"
  assumes vr: "vring_ok (vq_vring vq) A U" and start: "vq_num_free vq = n" "vq_free_head vq = 0"
    and zero: "\<And>x. unat (x - vr_desc (vq_vring vq)) < 16 * unat n \<Longrightarrow> m x = 0"
  shows "\<exists>d m'. init_desc_loop (unat n - 1) 0 vq m = (n - 1, vq\<lparr>vq_data := d\<rparr>, m')
    \<and> queue_ok (vq\<lparr>vq_data := d(n - 1 := 0)\<rparr>) m' (map of_nat [0..<unat n])
    \<and> (\<forall>x. 16 * unat n \<le> unat (x - vr_desc (vq_vring vq)) \<longrightarrow> m' x = m x)"
proof -
  let ?vr = "vq_vring vq"
  have nb: "unat n \<le> 2 ^ 15" "0 < unat n"
    using num_bound [OF vr] by (simp_all add: n_def)
  then have lst: "unat (n - 1) = unat n - 1"
    by (simp add: unat_minus_one unat_gt_0)
  then have lst': "of_nat (unat n - 1) = n - 1"
    by (metis of_nat_unat ucast_id)
  obtain d m' where r: "init_desc_loop (unat n - 1) 0 vq m = (0 + of_nat (unat n - 1), vq\<lparr>vq_data := d\<rparr>, m')"
      "\<forall>j. j < n \<longrightarrow> get_desc m' ?vr j Desc_next = (if unat (0 :: u32) \<le> unat j \<and> unat j < unat (0 :: u32) + (unat n - 1) then ucast (j + 1) else get_desc m ?vr j Desc_next)
        \<and> get_desc m' ?vr j Desc_flags = get_desc m ?vr j Desc_flags
        \<and> d j = (if unat (0 :: u32) \<le> unat j \<and> unat j < unat (0 :: u32) + (unat n - 1) then 0 else vq_data vq j)"
      "\<forall>x. 16 * unat n \<le> unat (x - vr_desc ?vr) \<longrightarrow> m' x = m x"
    using init_desc_loop_links [OF vr, of 0 "unat n - 1" m] nb(2) unfolding n_def by fastforce
  have j: "unat j < unat n" if "j < n" for j
    using that by (simp add: word_less_nat_alt)
  have "free_chain m' ?vr (of_nat 0) (map of_nat [0..<unat (vr_num ?vr)])"
    using r(2) nb by (intro linked_chain) (auto simp: n_def)
  then have chain: "free_chain m' ?vr 0 (map of_nat [0..<unat n])"
    by (simp add: n_def)
  have mem: "j \<in> set (map of_nat [0..<unat n])" if "j < n" for j :: u32
    using j [OF that] by (auto simp: image_iff intro!: bexI [of _ "unat j"])
  have data: "(d(n - 1 := 0)) j = 0" if "j < n" for j
  proof (cases "unat j < unat n - 1")
    case False
    then have "j = n - 1"
      using j [OF that] lst by (intro word_unat_eq_iff [THEN iffD2]) simp
    then show ?thesis
      by simp
  qed (use r(2) that in auto)
  have dist: "distinct (map (of_nat :: nat \<Rightarrow> u32) [0..<unat n])"
    using nb by (auto simp: distinct_map inj_on_def of_nat_eq_iff_u32)
  have "queue_ok (vq\<lparr>vq_data := d(n - 1 := 0)\<rparr>) m' (map of_nat [0..<unat n])"
    unfolding queue_ok_def using vr chain dist mem data start by (auto simp: n_def)
  then show ?thesis
    using r(1,3) lst' by auto
qed

lemma new_queue_ok:
  assumes "k \<le> 15" and "c \<le> 31" and "aligned c pages" and "\<And>x. unat (x - pages) < 16 * 2 ^ k \<Longrightarrow> m x = 0"
  shows "\<exists>vq' m'. vring_init_virtqueue vq index (push_bit k 1) (push_bit c 1) vdev pages notify callback name m = (vq', m')
    \<and> queue_ok vq' m' (map of_nat [0..<2 ^ k]) \<and> vq_vring vq' = vring_init (push_bit k 1) pages (push_bit c 1)
    \<and> vq_last_used_idx vq' = 0 \<and> vq_index vq' = index \<and> vq_vdev vq' = vdev \<and> vq_notify vq' = notify
    \<and> (\<forall>x. 16 * 2 ^ k \<le> unat (x - pages) \<longrightarrow> m' x = m x)"
proof -
  have uc: "(ucast (push_bit c 1 :: u32) :: u64) = push_bit c 1"
    using assms(2) by (intro bit_word_eqI) (auto simp: bit_ucast_iff bit_push_bit_iff bit_1_iff simp del: push_bit_of_1)
  let ?vr = "vring_init (push_bit k 1) pages (push_bit c 1)"
  define vq0 where "vq0 = vq\<lparr>vq_vring := ?vr, vq_callback := callback, vq_vdev := vdev, vq_name := name, vq_num_free := push_bit k 1, vq_index := index,
     vq_notify := notify, vq_last_used_idx := 0, vq_num_added := 0, vq_free_head := 0\<rparr>"
  obtain A U where vr: "vring_ok (vq_vring vq0) A U"
    using vring_init_ok [OF assms(1-3)] by (auto simp: vq0_def)
  have "(2 :: nat) ^ k \<le> 2 ^ 15"
    using assms(1) by (intro power_increasing) auto
  then have u: "unat (push_bit k 1 :: u32) = 2 ^ k"
    using unat_of_nat [of "2 ^ k", where ?'a = 32] by (simp add: take_bit_nat_eq_self)
  have n: "vr_num (vq_vring vq0) = push_bit k 1" "vr_desc (vq_vring vq0) = pages" "vq_num_free vq0 = push_bit k 1" "vq_free_head vq0 = 0"
    by (simp_all add: vq0_def vring_init_def Let_def)
  have u1: "unat (push_bit k 1 - 1 :: u32) = unat (push_bit k 1 :: u32) - 1"
    using num_bound(2) [OF vr] by (simp add: n(1) unat_minus_one unat_gt_0 del: push_bit_of_1)
  obtain d m' where r: "init_desc_loop (unat (push_bit k 1 :: u32) - 1) 0 vq0 m = (push_bit k 1 - 1, vq0\<lparr>vq_data := d\<rparr>, m')"
      "queue_ok (vq0\<lparr>vq_data := d(push_bit k 1 - 1 := 0)\<rparr>) m' (map of_nat [0..<unat (push_bit k 1 :: u32)])"
      "\<forall>x. 16 * unat (push_bit k 1 :: u32) \<le> unat (x - pages) \<longrightarrow> m' x = m x"
    using linked_queue_ok [OF vr, unfolded n, OF refl refl, of m] assms(4) unfolding u by blast
  have "vring_init_virtqueue vq index (push_bit k 1) (push_bit c 1) vdev pages notify callback name m = (vq0\<lparr>vq_data := d(push_bit k 1 - 1 := 0)\<rparr>, m')"
    unfolding vring_init_virtqueue_def Let_def uc u1 vq0_def [symmetric] r(1) by simp
  then show ?thesis
    using r(2,3) unfolding u by (intro exI [of _ "vq0\<lparr>vq_data := d(push_bit k 1 - 1 := 0)\<rparr>"] exI [of _ m']) (simp add: vq0_def del: push_bit_of_1)
qed

text \<open>
  C18: A new queue is in order. On pages of zeros, aligned as asked, with a power of two of at most 32768 descriptors,
  \<open>vring_init_virtqueue\<close> lays out the three parts of the ring one after the other, makes every descriptor free, in ascending order,
  and writes only to the descriptors.
\<close>

theorem vring_init_virtqueue_ok:
  assumes "k \<le> 15" and "c \<le> 31" and "aligned c pages" and "\<And>x. unat (x - pages) < 16 * 2 ^ k \<Longrightarrow> m x = 0"
  shows "\<exists>vq' m'. vring_init_virtqueue vq index (push_bit k 1) (push_bit c 1) vdev pages notify callback name m = (vq', m')
    \<and> queue_ok vq' m' (map of_nat [0..<2 ^ k]) \<and> vq_vring vq' = vring_init (push_bit k 1) pages (push_bit c 1)
    \<and> vq_last_used_idx vq' = 0 \<and> vq_index vq' = index \<and> vq_vdev vq' = vdev \<and> vq_notify vq' = notify
    \<and> (\<forall>x. 16 * 2 ^ k \<le> unat (x - pages) \<longrightarrow> m' x = m x)"
  using assms by (rule new_queue_ok)

definition sample_vdev :: virtio_mmio_device where
  "sample_vdev = \<lparr>vdev_id = \<lparr>id_device = 3, id_vendor = 0\<rparr>, vdev_base = 0xa000000\<rparr>"

theorem vring_init_virtqueue_ok_witness:
  "\<exists>vq' m'. vring_init_virtqueue (zero_queue sample_vdev) 0 2 4096 sample_vdev 0x2000 Vm_notify 0 [] (\<lambda>_. 0) = (vq', m')
    \<and> queue_ok vq' m' [0, 1] \<and> vq_last_used_idx vq' = 0"
proof -
  have "push_bit 1 1 = (2 :: u32)" "push_bit 12 1 = (4096 :: u32)" "map of_nat [0..<2 ^ 1] = [0, 1 :: u32]"
    by (simp_all add: numeral_2_eq_2)
  then show ?thesis
    using vring_init_virtqueue_ok [of 1 12 "0x2000" "\<lambda>_. 0" "zero_queue sample_vdev" 0 sample_vdev Vm_notify 0 "[]"] by (auto simp: aligned_def)
qed

section \<open>The device\<close>

text \<open>The descriptors are below the used ring, so the invariant does not depend on what the device writes.\<close>

lemma get_desc_cong:
  assumes "\<And>x. unat (x - vr_desc vr) < 16 * unat (vr_num vr) \<Longrightarrow> m' x = m x" and "unat (vr_num vr) \<le> 2 ^ 15" and "i < vr_num vr"
  shows "get_desc m' vr i f = get_desc m vr i f"
proof -
  have "loadn (dsize f) m' (vr_desc vr + of_nat (16 * unat i + doff f)) = loadn (dsize f) m (vr_desc vr + of_nat (16 * unat i + doff f))"
  proof (rule loadn_cong, rule assms(1))
    fix j
    assume "j < dsize f"
    then have l: "16 * unat i + doff f + j < 16 * unat (vr_num vr)"
      using assms(3) dsize_bounds(2) [of f] by (simp add: word_less_nat_alt)
    then have "unat (of_nat (16 * unat i + doff f + j) :: u64) = 16 * unat i + doff f + j"
      using assms(2) by (intro unat_of_nat_u64) simp
    moreover have "vr_desc vr + of_nat (16 * unat i + doff f) + of_nat j - vr_desc vr = of_nat (16 * unat i + doff f + j)"
      by simp
    ultimately show "unat (vr_desc vr + of_nat (16 * unat i + doff f) + of_nat j - vr_desc vr) < 16 * unat (vr_num vr)"
      using l by (simp only:)
  qed
  then show ?thesis
    by (simp only: get_desc_def desc_field_eq fst_conv snd_conv desc_addr)
qed

lemma queue_ok_cong:
  assumes "queue_ok vq m fs" and "vring_ok (vq_vring vq) A U" and "\<And>x. unat (x - vr_desc (vq_vring vq)) < A \<Longrightarrow> m' x = m x"
  shows "queue_ok vq m' fs"
proof -
  have "get_desc m' (vq_vring vq) i f = get_desc m (vq_vring vq) i f" if "i < vr_num (vq_vring vq)" for i f
    using assms(2,3) num_bound(1) [OF assms(2)] that by (intro get_desc_cong) (auto simp: vring_ok_def)
  then show ?thesis
    using assms(1) free_chain_cong [of m "vq_vring vq" _ fs m'] by (auto simp: queue_ok_def)
qed

section \<open>A buffer that goes round\<close>

text \<open>The slot of a ring that an index stands for.\<close>

definition ring_slot :: "vring \<Rightarrow> u16 \<Rightarrow> u32" where
  "ring_slot vr i = ucast i AND (vr_num vr - 1)"

text \<open>Driver and device agree on how many buffers went through the output queue, and the driver holds them all.\<close>

definition in_step :: "vring_virtqueue \<Rightarrow> mem \<Rightarrow> u16 \<Rightarrow> bool" where
  "in_step vq m i \<longleftrightarrow> loadn 2 m (avail_idx_at (vq_vring vq)) = ucast i \<and> loadn 2 m (used_idx_at (vq_vring vq)) = ucast (vq_last_used_idx vq)"

lemma ucast_u16 [simp]: "(ucast (ucast (i :: u16) :: u64) :: u32) = ucast i"
  by (rule bit_word_eqI) (auto simp: bit_ucast_iff)

lemma ucast_u16_u64: "(ucast (ucast (i :: u16) :: u64) :: u16) = i"
  by (rule bit_word_eqI) (auto simp: bit_ucast_iff)

lemma take_bit_u16 [simp]: "take_bit 16 (ucast (i :: u16) + 1 :: u64) = ucast (i + 1)"
  by transfer (simp add: take_bit_take_bit take_bit_eq_mod mod_add_left_eq)

lemma loadn_offset_cong:
  assumes "\<And>x. lo \<le> unat (x - b) \<Longrightarrow> unat (x - b) < hi \<Longrightarrow> m' x = m x" and "lo \<le> y" and "y + k \<le> hi" and "hi \<le> 2 ^ 64"
  shows "loadn k m' (b + of_nat y) = loadn k m (b + of_nat y)"
proof (rule loadn_cong, rule assms(1))
  fix j
  assume j: "j < k"
  then have "b + of_nat y + of_nat j - b = (of_nat (y + j) :: u64)" "unat (of_nat (y + j) :: u64) = y + j"
    using assms(3,4) by (simp_all add: unat_of_nat_u64 del: of_nat_add) (simp add: of_nat_add)
  then show "lo \<le> unat (b + of_nat y + of_nat j - b)" "unat (b + of_nat y + of_nat j - b) < hi"
    using j assms(2,3) by simp_all
qed

text \<open>
  C17: A buffer that goes round. Driver and device have the same index of the used ring, and the index of the available ring is \<open>i\<close>.
  Adding a buffer to a queue with a free descriptor succeeds and publishes it: the index of the available ring is \<open>i + 1\<close>, slot \<open>i\<close> names the
  descriptor, this has the address and the length of the buffer and no successor, and memory from the used ring on is as before. Once the device has put this descriptor into
  the slot of its own used index, has advanced this index by one, and has not written to the descriptors and the available ring, getting a buffer returns the same buffer,
  the same descriptors are free as before, and driver and device have the same index again.
\<close>

theorem virtqueue_roundtrip:
  assumes "queue_ok vq m (h # fs)" and "vring_ok (vq_vring vq) A U" and "buf \<noteq> 0" and "len \<noteq> 0" and "vr = vq_vring vq" and "in_step vq m i"
  shows "\<exists>vq1 m1. virtqueue_add_outbuf buf len vq m = Ret (0, vq1, m1) \<and> queue_ok vq1 m1 fs
    \<and> loadn 2 m1 (avail_idx_at vr) = ucast (i + 1) \<and> loadn 2 m1 (avail_ring_at vr (ring_slot vr i)) = ucast h
    \<and> get_desc m1 vr h Desc_addr = buf \<and> get_desc m1 vr h Desc_len = ucast len \<and> get_desc m1 vr h Desc_flags = 0
    \<and> (\<forall>x. U \<le> unat (x - vr_desc vr) \<longrightarrow> m1 x = m x)
    \<and> (\<forall>m2 u. (\<forall>x. unat (x - vr_desc vr) < U \<longrightarrow> m2 x = m1 x) \<and> loadn 2 m1 (used_idx_at vr) = ucast u
        \<and> loadn 4 m2 (used_ring_at vr (ring_slot vr u)) = ucast h \<and> loadn 2 m2 (used_idx_at vr) = ucast (u + 1)
      \<longrightarrow> (\<exists>len' vq2 m3. virtqueue_get_buf vq1 m2 = Ret (buf, len', vq2, m3) \<and> queue_ok vq2 m3 (h # fs)
        \<and> same_queue vq vq2 \<and> in_step vq2 m3 (i + 1)))"
proof -
  obtain vq1 m1 where a: "virtqueue_add_outbuf buf len vq m = Ret (0, vq1, m1)" "queue_ok vq1 m1 fs" "same_queue vq vq1"
      "vq_last_used_idx vq1 = vq_last_used_idx vq" "vq_data vq1 = (vq_data vq)(h := buf)" "h < vr_num vr"
      "get_desc m1 vr h Desc_addr = buf" "get_desc m1 vr h Desc_len = ucast len" "get_desc m1 vr h Desc_flags = 0"
      "loadn 2 m1 (avail_ring_at vr (ucast (loadn 2 m (avail_idx_at vr)) AND (vr_num vr - 1))) = ucast h"
      "loadn 2 m1 (avail_idx_at vr) = take_bit 16 (loadn 2 m (avail_idx_at vr) + 1)" "\<And>x. U \<le> unat (x - vr_desc vr) \<Longrightarrow> m1 x = m x"
    unfolding assms(5) by (rule add_outbuf_effect [OF assms(1-4)]) blast
  have idx: "loadn 2 m (avail_idx_at vr) = ucast i" "loadn 2 m (used_idx_at vr) = ucast (vq_last_used_idx vq)"
    using assms(5,6) by (simp_all add: in_step_def)
  have vr: "vring_ok vr A U" and vr1: "vq_vring vq1 = vr" "vring_ok (vq_vring vq1) A U"
    and U: "A \<le> U" "U + 6 + 8 * unat (vr_num vr) \<le> 2 ^ 64" "A + 6 + 2 * unat (vr_num vr) \<le> U" "16 * unat (vr_num vr) \<le> A"
    using a(3) assms(2,5) by (auto simp: same_queue_def vring_ok_def)
  have h: "h \<notin> set fs" "h < vr_num (vq_vring vq1)"
    using assms(1) a(6) vr1(1) by (auto simp: queue_ok_def)
  have u1: "loadn 2 m1 (used_idx_at vr) = ucast (vq_last_used_idx vq)"
    unfolding idx(2) [symmetric] ring_addrs(4) [OF vr] by (rule loadn_offset_cong [of U _ "2 ^ 64"]) (use a(12) U in auto)
  have "\<exists>len' vq2 m3. virtqueue_get_buf vq1 m2 = Ret (buf, len', vq2, m3) \<and> queue_ok vq2 m3 (h # fs) \<and> same_queue vq vq2 \<and> in_step vq2 m3 (i + 1)"
    if m2: "\<forall>x. unat (x - vr_desc vr) < U \<longrightarrow> m2 x = m1 x" and u: "loadn 2 m1 (used_idx_at vr) = ucast u"
      and used: "loadn 4 m2 (used_ring_at vr (ring_slot vr u)) = ucast h" "loadn 2 m2 (used_idx_at vr) = ucast (u + 1)" for m2 and u :: u16
  proof -
    have "(ucast (ucast u :: u64) :: u16) = ucast (ucast (vq_last_used_idx vq) :: u64)"
      using u u1 by (simp only:)
    then have eq: "u = vq_last_used_idx vq"
      by (simp only: ucast_u16_u64)
    have "queue_ok vq1 m2 fs"
      by (rule queue_ok_cong [OF a(2) vr1(2)]) (use m2 vr1(1) U(1) in auto)
    moreover have "loadn 4 m2 (used_ring_at (vq_vring vq1) (ucast (vq_last_used_idx vq1) AND (vr_num (vq_vring vq1) - 1))) = ucast h"
      using used by (simp add: vr1(1) a(4) eq ring_slot_def)
    ultimately obtain vq2 m3 len' where g: "virtqueue_get_buf vq1 m2 = Ret (vq_data vq1 h, len', vq2, m3)" "queue_ok vq2 m3 (h # fs)" "same_queue vq1 vq2"
        "vq_last_used_idx vq2 = vq_last_used_idx vq1 + 1"
        "\<And>y k. 16 * unat (vr_num vr) \<le> y \<Longrightarrow> y + k \<le> 2 ^ 64 \<Longrightarrow> loadn k m3 (vr_desc vr + of_nat y) = loadn k m2 (vr_desc vr + of_nat y)"
      unfolding vr1(1) [symmetric] by (rule get_buf_effect [OF _ vr1(2) h(2,1)]) blast
    have "loadn 2 m2 (avail_idx_at vr) = loadn 2 m1 (avail_idx_at vr)"
      unfolding ring_addrs(1) [OF vr] by (rule loadn_offset_cong [of 0 _ U]) (use m2 U in auto)
    then have "loadn 2 m3 (avail_idx_at vr) = ucast (i + 1)" "loadn 2 m3 (used_idx_at vr) = ucast (vq_last_used_idx vq2)"
      using g(4) g(5) [of "A + 2" 2] g(5) [of "U + 2" 2] a(4,11) idx(1) used(2) U eq
      by (simp_all add: ring_addrs [OF vr] del: of_nat_add)
    moreover have "same_queue vq vq2"
      using a(3) g(3) by (simp add: same_queue_def)
    moreover have "vq_vring vq2 = vr"
      using g(3) vr1(1) by (simp add: same_queue_def)
    ultimately show ?thesis
      using g(1,2) a(5) unfolding in_step_def by auto
  qed
  then show ?thesis
    using a(1,2,7-12) idx(1) by (intro exI [of _ vq1] exI [of _ m1]) (simp add: ring_slot_def)
qed

text \<open>What a device writes that puts a descriptor into the used ring.\<close>

lemma served_ring:
  assumes vr: "vring_ok vr A U" and slot: "unat slot < unat (vr_num vr)"
    and m': "m' = storen 2 (storen 4 m (used_ring_at vr slot) (ucast (head :: u32))) (used_idx_at vr) (ucast (u :: u16))"
  shows "loadn 4 m' (used_ring_at vr slot) = ucast head" and "loadn 2 m' (used_idx_at vr) = ucast u"
    and "unat (x - vr_desc vr) < U \<or> U + 6 + 8 * unat (vr_num vr) \<le> unat (x - vr_desc vr) \<Longrightarrow> m' x = m x"
proof -
  have U: "U + 6 + 8 * unat (vr_num vr) \<le> 2 ^ 64"
    using vr by (simp add: vring_ok_def)
  have t: "take_bit 32 (ucast head :: u64) = ucast head" "take_bit 16 (ucast u :: u64) = ucast u"
    by (rule bit_word_eqI, auto simp: bit_take_bit_iff bit_ucast_iff dest: bit_imp_le_length)+
  show "loadn 4 m' (used_ring_at vr slot) = ucast head"
    unfolding m' ring_addrs(3,4) [OF vr] using loadn_storen_trunc [of 4] t U slot by (subst loadn_storen_apart) auto
  show "loadn 2 m' (used_idx_at vr) = ucast u"
    unfolding m' using loadn_storen_trunc [of 2] t by simp
  assume x: "unat (x - vr_desc vr) < U \<or> U + 6 + 8 * unat (vr_num vr) \<le> unat (x - vr_desc vr)"
  have "m' (vr_desc vr + of_nat (unat (x - vr_desc vr))) = m (vr_desc vr + of_nat (unat (x - vr_desc vr)))"
    unfolding m' ring_addrs(3,4) [OF vr] using x U slot unat_less_u64 [of "x - vr_desc vr"]
    by (subst storen_apart, simp, linarith, linarith, linarith, subst storen_apart, simp, linarith, linarith, linarith) (rule refl)
  then show "m' x = m x"
    by simp
qed

text \<open>A new queue of two descriptors.\<close>

lemma sample_ready:
  obtains vq m where "vring_ok (vq_vring vq) 32 4096" and "vq_vring vq = vring_init 2 0x2000 4096" and "vq_vdev vq = sample_vdev" and "vq_last_used_idx vq = 0"
    and "queue_ok vq m [0, 1]" and "in_step vq m 0"
    and "loadn 4 m (used_ring_at (vq_vring vq) 0) = 0"
proof -
  have e: "push_bit 1 1 = (2 :: u32)" "push_bit 12 1 = (4096 :: u32)" "push_bit 12 1 = (4096 :: u64)" "map of_nat [0..<2 ^ 1] = [0, 1 :: u32]"
    by (simp_all add: numeral_2_eq_2)
  obtain vq m where q: "queue_ok vq m [0, 1]" "vq_vring vq = vring_init 2 0x2000 4096" "vq_last_used_idx vq = 0" "vq_vdev vq = sample_vdev"
      "\<And>x. 32 \<le> unat (x - 0x2000) \<Longrightarrow> m x = 0"
    using new_queue_ok [of 1 12 "0x2000" "\<lambda>_. 0" "zero_queue sample_vdev" 0 sample_vdev Vm_notify 0 "[]"] e by (auto simp: aligned_def)
  have vr: "vring_ok (vq_vring vq) 32 4096"
    using vring_init_ok [of 1 12 "0x2000"] e by (simp add: q(2) aligned_def)
  have d: "vr_desc (vq_vring vq) = 0x2000"
    by (simp add: q(2) vring_init_def)
  have z: "loadn k m (0x2000 + of_nat y) = loadn k (\<lambda>_. 0) (0x2000 + of_nat y)" if "32 \<le> y" "y \<le> 5000" "k \<le> 8" for y k
    by (rule loadn_offset_cong [of 32 _ "2 ^ 64"]) (use q(5) that in auto)
  have "in_step vq m 0"
    using q(3) z [of 34 2] z [of 4098 2] by (simp add: in_step_def ring_addrs [OF vr] d numeral_2_eq_2)
  moreover have "loadn 4 m (used_ring_at (vq_vring vq) 0) = 0"
    using z [of 4100 4] by (simp add: ring_addrs [OF vr] d numeral_eq_Suc)
  ultimately show thesis
    using that vr q by blast
qed

theorem virtqueue_roundtrip_witness:
  "\<exists>vq m vq1 m1 m2 len' vq2 m3. virtqueue_add_outbuf 0x5000 5 vq m = Ret (0, vq1, m1) \<and> loadn 2 m1 (avail_idx_at (vq_vring vq)) = 1
    \<and> virtqueue_get_buf vq1 m2 = Ret (0x5000, len', vq2, m3) \<and> queue_ok vq2 m3 [0, 1] \<and> in_step vq2 m3 1"
proof -
  obtain vq m where q: "vring_ok (vq_vring vq) 32 4096" "queue_ok vq m [0, 1]" "in_step vq m 0" "vq_last_used_idx vq = 0"
    by (rule sample_ready) blast
  let ?vr = "vq_vring vq"
  obtain vq1 m1 where a: "virtqueue_add_outbuf 0x5000 5 vq m = Ret (0, vq1, m1)" "loadn 2 m1 (avail_idx_at ?vr) = ucast (0 + 1 :: u16)"
      "\<forall>x. 4096 \<le> unat (x - vr_desc ?vr) \<longrightarrow> m1 x = m x"
      "\<forall>m2 u. (\<forall>x. unat (x - vr_desc ?vr) < 4096 \<longrightarrow> m2 x = m1 x) \<and> loadn 2 m1 (used_idx_at ?vr) = ucast u
        \<and> loadn 4 m2 (used_ring_at ?vr (ring_slot ?vr u)) = ucast (0 :: u32) \<and> loadn 2 m2 (used_idx_at ?vr) = ucast (u + 1)
      \<longrightarrow> (\<exists>len' vq2 m3. virtqueue_get_buf vq1 m2 = Ret (0x5000, len', vq2, m3) \<and> queue_ok vq2 m3 [0, 1]
        \<and> same_queue vq vq2 \<and> in_step vq2 m3 (0 + 1))"
    using virtqueue_roundtrip [OF q(2,1) _ _ refl q(3), of "0x5000" 5] by (auto simp del: ucast_0)
  let ?slot = "ring_slot ?vr 0"
  let ?m2 = "storen 2 (storen 4 m1 (used_ring_at ?vr ?slot) (ucast (0 :: u32))) (used_idx_at ?vr) (ucast (0 + 1 :: u16))"
  have slot: "unat ?slot < unat (vr_num ?vr)"
    unfolding ring_slot_def by (rule ring_index [OF q(1)])
  have "loadn 2 m1 (used_idx_at ?vr) = ucast (0 :: u16)"
  proof -
    have "loadn 2 m1 (used_idx_at ?vr) = loadn 2 m (used_idx_at ?vr)"
      unfolding ring_addrs(4) [OF q(1)] by (rule loadn_offset_cong [of 4096 _ "2 ^ 64"]) (use a(3) in auto)
    then show ?thesis
      using q(3,4) by (simp add: in_step_def)
  qed
  then obtain len' vq2 m3 where "virtqueue_get_buf vq1 ?m2 = Ret (0x5000, len', vq2, m3)" "queue_ok vq2 m3 [0, 1]" "in_step vq2 m3 (0 + 1)"
    using a(4) served_ring [where m = m1 and head = 0 and u = "0 + 1", OF q(1) slot refl] by blast
  then show ?thesis
    using a(1,2) by (intro exI [of _ vq] exI [of _ m] exI [of _ vq1] exI [of _ m1] exI [of _ ?m2]) auto
qed

end
