(* ===== verification/Chr_Testdev.thy ===== *)
theory Chr_Testdev
  imports Virtio_Queue
begin

text \<open>
  Sending to the test device behind a virtio console. What the driver publishes before it notifies the device is shown for every device. What
  happens then depends on the device: a device that serves the queue before the driver looks at the used ring for the first time
  (\<open>serves_at_once\<close>) gets the message. Virtio allows a device to serve it later, and the driver is not prepared for that.
\<close>

unbundle bit_operations_syntax

section \<open>The device's side of a queue\<close>

definition notified :: "'h virtio_hw \<Rightarrow> vring_virtqueue \<Rightarrow> 'h \<times> mem \<Rightarrow> 'h \<times> mem" where
  "notified hw vq v = raw_idle hw (raw_writel hw (vq_index vq) (vdev_base (vq_vdev vq) + VIRTIO_MMIO_QUEUE_NOTIFY) v)"

text \<open>
  A device that serves a queue of one new buffer by the time of the driver's first look at the used ring. This is more than virtio asks of a device.
  \<open>received\<close> is what the device has taken over so far, and \<open>seen\<close> how many buffers that were, modulo the range of the index.
\<close>

definition serves_at_once :: "'h virtio_hw \<Rightarrow> vring_virtqueue \<Rightarrow> nat \<Rightarrow> ('h \<Rightarrow> u8 list) \<Rightarrow> ('h \<Rightarrow> u16) \<Rightarrow> bool" where
  "serves_at_once hw vq U received seen \<longleftrightarrow>
     (\<forall>h m head u. let vr = vq_vring vq; (h', m') = notified hw vq (h, m) in
        loadn 2 m (avail_idx_at vr) = ucast (seen h + 1) \<and> loadn 2 m (avail_ring_at vr (ring_slot vr (seen h))) = ucast head
        \<and> loadn 2 m (used_idx_at vr) = ucast u \<and> head < vr_num vr \<and> get_desc m vr head Desc_flags = 0
      \<longrightarrow> received h' = received h @ bytes_at m (get_desc m vr head Desc_addr) (unat (get_desc m vr head Desc_len)) \<and> seen h' = seen h + 1
        \<and> loadn 4 m' (used_ring_at vr (ring_slot vr u)) = ucast head \<and> loadn 2 m' (used_idx_at vr) = ucast (u + 1)
        \<and> (\<forall>x. unat (x - vr_desc vr) < U \<or> U + 6 + 8 * unat (vr_num vr) \<le> unat (x - vr_desc vr) \<longrightarrow> m' x = m x))"

definition console_ready :: "('h \<Rightarrow> u16) \<Rightarrow> vring_virtqueue \<Rightarrow> u32 list \<Rightarrow> 'h chr_state \<Rightarrow> bool" where
  "console_ready seen vq fs s \<longleftrightarrow> out_vq s = Some vq \<and> queue_ok vq (ram (vm s)) fs \<and> in_step vq (ram (vm s)) (seen (devs s))"

section \<open>Sending\<close>

text \<open>After a buffer was added and the device notified, the device has served it and the queue is as before.\<close>

lemma added_is_served:
  assumes conf: "serves_at_once hw vq U received seen" and vr: "vring_ok (vq_vring vq) A U" and q: "queue_ok vq m (h # fs)" "in_step vq m (seen d)"
    and buf: "buf \<noteq> 0" "len \<noteq> 0" "\<And>i. i < unat len \<Longrightarrow> U \<le> unat (buf + of_nat i - vr_desc (vq_vring vq))"
  obtains vq1 m1 d' m2 where "virtqueue_add_outbuf buf len vq m = Ret (0, vq1, m1)" and "notified hw vq (d, m1) = (d', m2)" and "queue_ok vq1 m2 fs"
    and "same_queue vq vq1" and "vq_last_used_idx vq1 = vq_last_used_idx vq" and "vq_data vq1 = (vq_data vq)(h := buf)" and "h < vr_num (vq_vring vq)"
    and "received d' = received d @ bytes_at m buf (unat len)"
    and "loadn 4 m2 (used_ring_at (vq_vring vq) (ring_slot (vq_vring vq) (vq_last_used_idx vq))) = ucast h"
    and "loadn 2 m2 (avail_idx_at (vq_vring vq)) = ucast (seen d')" and "loadn 2 m2 (used_idx_at (vq_vring vq)) = ucast (vq_last_used_idx vq + 1)"
    and "\<And>x. U + 6 + 8 * unat (vr_num (vq_vring vq)) \<le> unat (x - vr_desc (vq_vring vq)) \<Longrightarrow> m2 x = m x"
proof -
  let ?vr = "vq_vring vq" and ?i = "seen d"
  obtain vq1 m1 where a: "virtqueue_add_outbuf buf len vq m = Ret (0, vq1, m1)" "queue_ok vq1 m1 fs" "same_queue vq vq1"
      "vq_last_used_idx vq1 = vq_last_used_idx vq" "vq_data vq1 = (vq_data vq)(h := buf)" "h < vr_num ?vr"
      "get_desc m1 ?vr h Desc_addr = buf" "get_desc m1 ?vr h Desc_len = ucast len" "get_desc m1 ?vr h Desc_flags = 0"
      "loadn 2 m1 (avail_ring_at ?vr (ucast (loadn 2 m (avail_idx_at ?vr)) AND (vr_num ?vr - 1))) = ucast h"
      "loadn 2 m1 (avail_idx_at ?vr) = take_bit 16 (loadn 2 m (avail_idx_at ?vr) + 1)"
      "\<And>x. U \<le> unat (x - vr_desc ?vr) \<Longrightarrow> m1 x = m x"
    by (rule add_outbuf_effect [OF q(1) vr buf(1,2)], blast)
  obtain d' m2 where n: "notified hw vq (d, m1) = (d', m2)"
    by fastforce
  have i1: "loadn 2 m1 (avail_idx_at ?vr) = ucast (?i + 1)" "loadn 2 m1 (avail_ring_at ?vr (ring_slot ?vr ?i)) = ucast h"
    using a(10,11) q(2) by (simp_all add: in_step_def ring_slot_def)
  have u: "U + 6 + 8 * unat (vr_num ?vr) \<le> 2 ^ 64" "A + 6 + 2 * unat (vr_num ?vr) \<le> U" "16 * unat (vr_num ?vr) \<le> A"
    using vr by (simp_all add: vring_ok_def)
  have "loadn 2 m1 (used_idx_at ?vr) = loadn 2 m (used_idx_at ?vr)"
    unfolding ring_addrs(4) [OF vr] by (rule loadn_offset_cong [of U _ "2 ^ 64"]) (use a(12) u(1) in auto)
  then have i2: "loadn 2 m1 (used_idx_at ?vr) = ucast (vq_last_used_idx vq)"
    using q(2) by (simp add: in_step_def)
  have len: "unat (ucast len :: u64) = unat len"
    using unsigned_less [of len, where ?'a = nat] by (simp add: unsigned_ucast_eq take_bit_nat_eq_self)
  have r: "received d' = received d @ bytes_at m1 buf (unat len)" "seen d' = ?i + 1"
      "loadn 4 m2 (used_ring_at ?vr (ring_slot ?vr (vq_last_used_idx vq))) = ucast h" "loadn 2 m2 (used_idx_at ?vr) = ucast (vq_last_used_idx vq + 1)"
      "\<And>x. unat (x - vr_desc ?vr) < U \<or> U + 6 + 8 * unat (vr_num ?vr) \<le> unat (x - vr_desc ?vr) \<Longrightarrow> m2 x = m1 x"
    using conf [unfolded serves_at_once_def, rule_format, of d m1 h "vq_last_used_idx vq"] i1 i2 a(6-9) unfolding n Let_def prod.case
    by (auto simp: len)
  have "queue_ok vq1 m2 fs"
    by (rule queue_ok_cong [OF a(2), of A U]) (use r(5) u a(3) vr in \<open>auto simp: same_queue_def\<close>)
  moreover have "bytes_at m1 buf (unat len) = bytes_at m buf (unat len)"
    using a(12) buf(3) by (intro bytes_at_cong) simp
  moreover have "loadn 2 m2 (avail_idx_at ?vr) = loadn 2 m1 (avail_idx_at ?vr)"
    unfolding ring_addrs(1) [OF vr] by (rule loadn_offset_cong [of 0 _ U]) (use r(5) u in auto)
  ultimately show thesis
    using a(3-6) r i1(1) u a(12) by (intro that [OF a(1) n]) auto
qed

text \<open>The loop of \<open>testdev_send\<close> ends with the first buffer that is returned.\<close>

lemma send_once:
  assumes "out_vq s = Some vq" and "virtqueue_add_outbuf buf len vq (ram (vm s)) = Ret (0, vq1, m1)" and "same_queue vq vq1"
    and "notified hw vq (devs s, m1) = (d', m2)" and "virtqueue_get_buf vq1 m2 = Ret (b, len', vq2, m3)" and "b \<noteq> 0"
  shows "testdev_send hw buf len s = Ret ((set_ram m3 (set_io_view (d', m2) (set_ram m1 s)))\<lparr>out_vq := Some vq2\<rparr>)"
proof -
  let ?s2 = "set_io_view (d', m2) (set_ram m1 s)"
  have "dev_idle hw (snd (virtqueue_kick hw vq1 (set_ram m1 s))) = ?s2"
    using assms(3,4)
    by (simp add: notified_def same_queue_def dev_idle_def dev_writel_def virtqueue_kick_def vm_notify_def io_view_def set_ram_def set_io_view_def split: notify_fn.split)
  then have "send_wait hw vq1 (snd (virtqueue_kick hw vq1 (set_ram m1 s))) = Some (Ret (vq2, set_ram m3 ?s2))"
    using assms(5,6) by (subst send_wait.simps) (simp add: Let_def set_io_view_def)
  then show ?thesis
    by (simp add: testdev_send_def assms(1,2) Let_def)
qed

lemma send_delivers:
  assumes conf: "serves_at_once hw vq U received seen" and vr: "vring_ok (vq_vring vq) A U" and ready: "console_ready seen vq (h # fs) s"
    and buf: "buf \<noteq> 0" "len \<noteq> 0" "\<And>i. i < unat len \<Longrightarrow> U \<le> unat (buf + of_nat i - vr_desc (vq_vring vq))"
  obtains s' vq' where "testdev_send hw buf len s = Ret s'" and "console_ready seen vq' (h # fs) s'" and "same_queue vq vq'" and "vcon s' = vcon s"
    and "received (devs s') = received (devs s) @ bytes_at (ram (vm s)) buf (unat len)"
    and "\<And>x. U + 6 + 8 * unat (vr_num (vq_vring vq)) \<le> unat (x - vr_desc (vq_vring vq)) \<Longrightarrow> ram (vm s') x = ram (vm s) x"
proof -
  let ?vr = "vq_vring vq" and ?m = "ram (vm s)"
  have q: "queue_ok vq ?m (h # fs)" "in_step vq ?m (seen (devs s))" "out_vq s = Some vq"
    using ready by (simp_all add: console_ready_def)
  obtain vq1 m1 d' m2 where a: "virtqueue_add_outbuf buf len vq ?m = Ret (0, vq1, m1)" "notified hw vq (devs s, m1) = (d', m2)" "queue_ok vq1 m2 fs"
      "same_queue vq vq1" "vq_last_used_idx vq1 = vq_last_used_idx vq" "vq_data vq1 = (vq_data vq)(h := buf)" "h < vr_num ?vr"
      "received d' = received (devs s) @ bytes_at ?m buf (unat len)"
      "loadn 4 m2 (used_ring_at ?vr (ring_slot ?vr (vq_last_used_idx vq))) = ucast h"
      "loadn 2 m2 (avail_idx_at ?vr) = ucast (seen d')" "loadn 2 m2 (used_idx_at ?vr) = ucast (vq_last_used_idx vq + 1)"
      "\<And>x. U + 6 + 8 * unat (vr_num ?vr) \<le> unat (x - vr_desc ?vr) \<Longrightarrow> m2 x = ?m x"
    by (rule added_is_served [OF conf vr q(1,2) buf], assumption, blast)
  have v: "vq_vring vq1 = ?vr" "notified hw vq1 = notified hw vq"
    using a(4) by (auto simp: same_queue_def notified_def fun_eq_iff)
  have "vring_ok (vq_vring vq1) A U" "h < vr_num (vq_vring vq1)" "h \<notin> set fs"
      "loadn 4 m2 (used_ring_at (vq_vring vq1) (ucast (vq_last_used_idx vq1) AND (vr_num (vq_vring vq1) - 1))) = ucast h"
    using vr a(5,7,9) q(1) by (simp_all add: v queue_ok_def ring_slot_def)
  then obtain vq2 m3 len' where g: "virtqueue_get_buf vq1 m2 = Ret (buf, len', vq2, m3)" "queue_ok vq2 m3 (h # fs)" "same_queue vq1 vq2"
      "vq_last_used_idx vq2 = vq_last_used_idx vq + 1"
      "\<And>y k. 16 * unat (vr_num ?vr) \<le> y \<Longrightarrow> y + k \<le> 2 ^ 64 \<Longrightarrow> loadn k m3 (vr_desc ?vr + of_nat y) = loadn k m2 (vr_desc ?vr + of_nat y)"
      "\<And>x. U \<le> unat (x - vr_desc ?vr) \<Longrightarrow> m3 x = m2 x"
    using a(5,6) v(1) by (elim get_buf_effect [OF a(3)]) auto
  let ?s2 = "set_io_view (d', m2) (set_ram m1 s)"
  have "testdev_send hw buf len s = Ret ((set_ram m3 ?s2)\<lparr>out_vq := Some vq2\<rparr>)"
    by (rule send_once [OF q(3) a(1) _ _ g(1) buf(1)]) (use a(2,4) in \<open>simp_all add: v(2) same_queue_def\<close>)
  moreover have "same_queue vq vq2"
    using a(4) g(3) by (simp add: same_queue_def)
  moreover from this have "in_step vq2 m3 (seen d')"
    using a(10,11) g(4) g(5) [of "A + 2" 2] g(5) [of "U + 2" 2] vr unfolding in_step_def same_queue_def
    by (simp add: ring_addrs [OF vr] vring_ok_def del: of_nat_add)
  ultimately show thesis
    using g(2,6) a(8,12) by (intro that [of "(set_ram m3 ?s2)\<lparr>out_vq := Some vq2\<rparr>" vq2]) (auto simp: console_ready_def set_ram_def set_io_view_def)
qed

section \<open>The exit code\<close>

lemma exit_text: "vtext ''%dq'' [VInt (ucast (code :: u32))] = Ret (int_text (sint code) @ ''q'')"
proof -
  have "parse_fmt ''%dq'' = [Conv (CHR ''d'') 0 props0, Lit (CHR ''q'')]"
    by (simp add: parse_simps)
  moreover have "(ucast (ucast code :: u64) :: u32) = code"
    by (rule bit_word_eqI) (auto simp: bit_ucast_iff)
  moreover have "sint code \<noteq> - (2 ^ 63)"
    using sint_greater_eq [of code] by auto
  ultimately show ?thesis
    by (simp add: vtext_def conv_text_def va_int_def pad_text_def props0_def)
qed

lemma exit_text_no_NUL: "NUL \<notin> set (int_text n @ ''q'')"
  using nat_text_digits not_is_digit_NUL by (auto simp: int_text_def list_all_iff)

lemma console_ready_outside:
  assumes "vring_ok (vq_vring vq) A U" and "console_ready seen vq fs s"
    and "\<And>x. unat (x - vr_desc (vq_vring vq)) < U + 6 + 8 * unat (vr_num (vq_vring vq)) \<Longrightarrow> m' x = ram (vm s) x"
  shows "console_ready seen vq fs (set_ram m' s)"
proof -
  let ?vr = "vq_vring vq"
  have u: "U + 6 + 8 * unat (vr_num ?vr) \<le> 2 ^ 64" "A + 6 + 2 * unat (vr_num ?vr) \<le> U"
    using assms(1) by (simp_all add: vring_ok_def)
  have "queue_ok vq m' fs"
    by (rule queue_ok_cong [of _ "ram (vm s)" _ A U]) (use assms u in \<open>auto simp: console_ready_def\<close>)
  moreover have "loadn 2 m' (vr_desc ?vr + of_nat y) = loadn 2 (ram (vm s)) (vr_desc ?vr + of_nat y)" if "y + 2 \<le> U + 6" for y
    by (rule loadn_offset_cong [of 0 _ "U + 6 + 8 * unat (vr_num ?vr)"]) (use assms(3) u that in auto)
  from this [of "A + 2"] this [of "U + 2"] have "in_step vq m' (seen (devs s))"
    using assms(2) u by (simp add: console_ready_def in_step_def ring_addrs [OF assms(1)] del: of_nat_add)
  ultimately show ?thesis
    using assms(2) by (simp add: console_ready_def set_ram_def)
qed

text \<open>What \<open>chr_testdev_exit\<close> puts into its buffer.\<close>

lemma exit_buffer:
  fixes code :: u32
  defines "bs \<equiv> map byte (take 7 (int_text (sint code) @ ''q''))"
  obtains m' r where "snprintf m buf 8 ''%dq'' [VInt (ucast code)] = Ret (m', r)" and "strlen m' buf = Some (of_nat (length bs))"
    and "bytes_at m' buf (length bs) = bs" and "0 < length bs" and "length bs \<le> 7" and "\<And>x. 8 \<le> unat (x - buf) \<Longrightarrow> m' x = m x"
proof -
  let ?m = "put m buf (bs @ [0])"
  have len: "0 < length bs" "length bs \<le> 7"
    by (simp_all add: bs_def)
  have "snprintf m buf 8 ''%dq'' [VInt (ucast code)] = Ret (?m, s32 (int (length (int_text (sint code) @ ''q''))))"
    using vsnprintf_refines [of "[VInt (ucast code)]" 8 m buf "''%dq''"] by (simp add: snprintf_def exit_text bs_def)
  moreover have "0 \<notin> set bs"
    using exit_text_no_NUL [of "sint code"] unfolding bs_def by (auto simp: byte_NUL_iff dest: in_set_takeD)
  then have "cstr ?m buf bs"
    using len by (intro cstr_put) auto
  moreover have "?m x = m x" if "8 \<le> unat (x - buf)" for x
    using that len by (intro put_other) (subst in_span_iff; simp)
  ultimately show thesis
    using len strlen_cstr bytes_at_cstr by (intro that [of ?m "s32 (int (length (int_text (sint code) @ ''q'')))"]) auto
qed

lemma unat_u32_u64: "unat (ucast (x :: u32) :: u64) = unat x"
  using unsigned_less [of x, where ?'a = nat] by (simp add: unsigned_ucast_eq take_bit_nat_eq_self)

lemma exit_published:
  fixes code :: u32
  defines "bs \<equiv> map byte (take 7 (int_text (sint code) @ ''q''))"
  assumes "queue_ok vq (ram (vm s)) (h # fs)" and vr: "vring_ok (vq_vring vq) A U" and "out_vq s = Some vq" and "vcon s = Some d"
    and i: "loadn 2 (ram (vm s)) (avail_idx_at (vq_vring vq)) = ucast i" and "buf \<noteq> 0"
    and buf: "\<And>i. i < 8 \<Longrightarrow> U + 6 + 8 * unat (vr_num (vq_vring vq)) \<le> unat (buf + of_nat i - vr_desc (vq_vring vq))"
  shows "\<exists>vq1 m1. chr_testdev_exit hw buf code s =
      bind_outcome (returns (send_wait hw vq1
        (set_io_view (raw_writel hw (vq_index vq) (vdev_base (vq_vdev vq) + VIRTIO_MMIO_QUEUE_NOTIFY) (devs s, m1)) s))) (\<lambda>r.
      bind_outcome r (\<lambda>(vq, s). Ret (s\<lparr>out_vq := Some vq\<rparr>)))
    \<and> queue_ok vq1 m1 fs \<and> same_queue vq vq1 \<and> vq_last_used_idx vq1 = vq_last_used_idx vq
    \<and> loadn 2 m1 (avail_idx_at (vq_vring vq)) = ucast (i + 1) \<and> loadn 2 m1 (avail_ring_at (vq_vring vq) (ring_slot (vq_vring vq) i)) = ucast h
    \<and> get_desc m1 (vq_vring vq) h Desc_addr = buf \<and> get_desc m1 (vq_vring vq) h Desc_len = of_nat (length bs) \<and> get_desc m1 (vq_vring vq) h Desc_flags = 0
    \<and> bytes_at m1 buf (length bs) = bs"
proof -
  let ?vr = "vq_vring vq" and ?m = "ram (vm s)"
  obtain m' r where b: "snprintf ?m buf 8 ''%dq'' [VInt (ucast code)] = Ret (m', r)" "strlen m' buf = Some (of_nat (length bs))"
      "bytes_at m' buf (length bs) = bs" "0 < length bs" "length bs \<le> 7" "\<And>x. 8 \<le> unat (x - buf) \<Longrightarrow> m' x = ?m x"
    using exit_buffer [of ?m buf code] unfolding bs_def by blast
  have u: "U + 6 + 8 * unat (vr_num ?vr) \<le> 2 ^ 64" "A + 6 + 2 * unat (vr_num ?vr) \<le> U"
    using vr by (simp_all add: vring_ok_def)
  have low: "m' x = ?m x" if "unat (x - vr_desc ?vr) < U + 6 + 8 * unat (vr_num ?vr)" for x
    by (rule b(6), rule ccontr) (use buf [of "unat (x - buf)"] that in simp)
  have q: "queue_ok vq m' (h # fs)"
    by (rule queue_ok_cong [OF assms(2) vr]) (use low u in auto)
  have i': "loadn 2 m' (avail_idx_at ?vr) = ucast i"
    unfolding i [symmetric] ring_addrs(1) [OF vr] by (rule loadn_offset_cong [of 0 _ U]) (use low u in auto)
  let ?len = "ucast (of_nat (length bs) :: u64) :: u32"
  have l: "unat ?len = length bs"
    using b(5) by (simp add: unsigned_ucast_eq unat_of_nat take_bit_nat_eq_self)
  have "unat (of_nat (length bs) :: u64) = length bs"
    using b(5) by (intro unat_of_nat_u64) simp
  then have "unat (ucast ?len :: u64) = unat (of_nat (length bs) :: u64)"
    using l by (simp only: unat_u32_u64)
  then have len: "?len \<noteq> 0" "(ucast ?len :: u64) = of_nat (length bs)"
    using l b(4) unat_0 [where ?'a = 32] by (metis less_numeral_extra(3), simp only: word_unat_eq_iff)
  obtain vq1 m1 where a: "virtqueue_add_outbuf buf ?len vq m' = Ret (0, vq1, m1)" "queue_ok vq1 m1 fs" "same_queue vq vq1"
      "vq_last_used_idx vq1 = vq_last_used_idx vq" "get_desc m1 ?vr h Desc_addr = buf" "get_desc m1 ?vr h Desc_len = ucast ?len" "get_desc m1 ?vr h Desc_flags = 0"
      "loadn 2 m1 (avail_ring_at ?vr (ucast (loadn 2 m' (avail_idx_at ?vr)) AND (vr_num ?vr - 1))) = ucast h"
      "loadn 2 m1 (avail_idx_at ?vr) = take_bit 16 (loadn 2 m' (avail_idx_at ?vr) + 1)"
      "\<And>x. U \<le> unat (x - vr_desc ?vr) \<Longrightarrow> m1 x = m' x"
    by (rule add_outbuf_effect [OF q vr assms(7) len(1)], blast)
  have "m1 (buf + of_nat j) = m' (buf + of_nat j)" if "j < length bs" for j
    using a(10) [of "buf + of_nat j"] buf [of j] that b(5) by simp
  then have "bytes_at m1 buf (length bs) = bs"
    using bytes_at_cong [of "length bs" m1 buf m'] b(3) by simp
  moreover have "snd (virtqueue_kick hw vq1 (set_ram m1 (set_ram m' s))) =
      set_io_view (raw_writel hw (vq_index vq) (vdev_base (vq_vdev vq) + VIRTIO_MMIO_QUEUE_NOTIFY) (devs s, m1)) s"
    using a(3) by (simp add: same_queue_def dev_writel_def virtqueue_kick_def vm_notify_def io_view_def set_ram_def set_io_view_def split: notify_fn.split)
  then have "chr_testdev_exit hw buf code s = bind_outcome (returns (send_wait hw vq1
        (set_io_view (raw_writel hw (vq_index vq) (vdev_base (vq_vdev vq) + VIRTIO_MMIO_QUEUE_NOTIFY) (devs s, m1)) s))) (\<lambda>r.
      bind_outcome r (\<lambda>(vq, s). Ret (s\<lparr>out_vq := Some vq\<rparr>)))"
    using b(1,2) a(1) assms(4,5) by (simp add: chr_testdev_exit_def testdev_send_def set_ram_def Let_def)
  ultimately show ?thesis
    using a(2-9) i' len(2) by (intro exI [of _ vq1] exI [of _ m1]) (simp add: ring_slot_def)
qed

text \<open>
  C16: What the driver tells the test device on exit, whatever the device does. With a console, a free descriptor and the buffer outside of the rings,
  \<open>chr_testdev_exit\<close> writes the exit code in decimal and a \<^verbatim>\<open>q\<close>, cut off after the seven characters that fit into the buffer, and
  publishes exactly these bytes: in the memory that the device finds when it is notified, the index of the available ring has advanced by one, the
  slot that became available names a descriptor, and this has the address of the buffer, the length of the text and no successor. Everything that
  the function does after the notification is the loop that waits for the buffer.
\<close>

theorem chr_testdev_exit_publishes:
  assumes "queue_ok vq (ram (vm s)) (h # fs)" and "vring_ok (vq_vring vq) A U" and "out_vq s = Some vq" and "vcon s = Some d"
    and "loadn 2 (ram (vm s)) (avail_idx_at (vq_vring vq)) = ucast i" and "buf \<noteq> 0"
    and "\<And>i. i < 8 \<Longrightarrow> U + 6 + 8 * unat (vr_num (vq_vring vq)) \<le> unat (buf + of_nat i - vr_desc (vq_vring vq))"
    and "bs = map byte (take 7 (int_text (sint code) @ ''q''))"
  shows "\<exists>vq1 m1. chr_testdev_exit hw buf code s =
      bind_outcome (returns (send_wait hw vq1
        (set_io_view (raw_writel hw (vq_index vq) (vdev_base (vq_vdev vq) + VIRTIO_MMIO_QUEUE_NOTIFY) (devs s, m1)) s))) (\<lambda>r.
      bind_outcome r (\<lambda>(vq, s). Ret (s\<lparr>out_vq := Some vq\<rparr>)))
    \<and> queue_ok vq1 m1 fs \<and> same_queue vq vq1 \<and> vq_last_used_idx vq1 = vq_last_used_idx vq
    \<and> loadn 2 m1 (avail_idx_at (vq_vring vq)) = ucast (i + 1) \<and> loadn 2 m1 (avail_ring_at (vq_vring vq) (ring_slot (vq_vring vq) i)) = ucast h
    \<and> get_desc m1 (vq_vring vq) h Desc_addr = buf \<and> get_desc m1 (vq_vring vq) h Desc_len = of_nat (length bs) \<and> get_desc m1 (vq_vring vq) h Desc_flags = 0
    \<and> bytes_at m1 buf (length bs) = bs"
  unfolding assms(8) by (rule exit_published [OF assms(1-6)]) (rule assms(7))

text \<open>
  On a device that serves the queue at once, \<open>chr_testdev_exit\<close> returns, the device has
  received the text, and the queue is in order again, with the same free descriptors, so that the next exit goes the same way.
\<close>

lemma exit_received:
  assumes "serves_at_once hw vq U received seen" and "vring_ok (vq_vring vq) A U" and "console_ready seen vq (h # fs) s" and "vcon s = Some d"
    and "buf \<noteq> 0" and "\<And>i. i < 8 \<Longrightarrow> U + 6 + 8 * unat (vr_num (vq_vring vq)) \<le> unat (buf + of_nat i - vr_desc (vq_vring vq))"
  shows "\<exists>s' vq'. chr_testdev_exit hw buf code s = Ret s' \<and> console_ready seen vq' (h # fs) s' \<and> same_queue vq vq' \<and> vcon s' = Some d
    \<and> received (devs s') = received (devs s) @ map byte (take 7 (int_text (sint code) @ ''q''))"
proof -
  define bs where "bs = map byte (take 7 (int_text (sint code) @ ''q''))"
  let ?vr = "vq_vring vq"
  obtain m' r where b: "snprintf (ram (vm s)) buf 8 ''%dq'' [VInt (ucast code)] = Ret (m', r)" "strlen m' buf = Some (of_nat (length bs))"
      "bytes_at m' buf (length bs) = bs" "0 < length bs" "length bs \<le> 7" "\<And>x. 8 \<le> unat (x - buf) \<Longrightarrow> m' x = ram (vm s) x"
    using exit_buffer [of "ram (vm s)" buf code] unfolding bs_def by blast
  have low: "m' x = ram (vm s) x" if "unat (x - vr_desc ?vr) < U + 6 + 8 * unat (vr_num ?vr)" for x
  proof (rule b(6), rule ccontr)
    assume "\<not> 8 \<le> unat (x - buf)"
    then have "U + 6 + 8 * unat (vr_num ?vr) \<le> unat (x - vr_desc ?vr)"
      using assms(6) [of "unat (x - buf)"] by simp
    then show False
      using that by simp
  qed
  have ready: "console_ready seen vq (h # fs) (set_ram m' s)"
    by (rule console_ready_outside [OF assms(2,3) low])
  let ?len = "ucast (of_nat (length bs) :: u64) :: u32"
  have l: "unat ?len = length bs"
    using b(5) by (simp add: unsigned_ucast_eq unat_of_nat take_bit_nat_eq_self)
  have "?len \<noteq> 0" "U \<le> unat (buf + of_nat i - vr_desc ?vr)" if "i < unat ?len" for i
    using assms(6) [of i] that l b(4,5) by auto
  then obtain s' vq' where "testdev_send hw buf ?len (set_ram m' s) = Ret s'" "console_ready seen vq' (h # fs) s'" "same_queue vq vq'"
      "vcon s' = vcon (set_ram m' s)" "received (devs s') = received (devs (set_ram m' s)) @ bytes_at (ram (vm (set_ram m' s))) buf (unat ?len)"
    using send_delivers [OF assms(1,2) ready assms(5), of ?len] l b(4) by (metis length_greater_0_conv unat_eq_zero)
  then show ?thesis
    using b(1-3) assms(4) l by (auto simp: chr_testdev_exit_def set_ram_def bs_def)
qed

section \<open>A simulated console\<close>

text \<open>A device that serves the output queue when it is notified.\<close>

definition serve :: "vring \<Rightarrow> (u16 \<times> u8 list) \<times> mem \<Rightarrow> (u16 \<times> u8 list) \<times> mem" where
  "serve vr v = (let ((i, t), m) = v;
       head = ucast (loadn 2 m (avail_ring_at vr (ring_slot vr i)));
       u = ucast (loadn 2 m (used_idx_at vr)) :: u16;
       m' = storen 4 m (used_ring_at vr (ring_slot vr u)) (ucast head);
       m' = storen 2 m' (used_idx_at vr) (ucast (u + 1))
     in ((i + 1, t @ bytes_at m (get_desc m vr head Desc_addr) (unat (get_desc m vr head Desc_len))), m'))"

definition console_sim :: "vring \<Rightarrow> u64 \<Rightarrow> (u16 \<times> u8 list) virtio_hw" where
  "console_sim vr base = \<lparr>raw_readl = \<lambda>a v. (0, v), raw_readq = \<lambda>a v. (0, v),
     raw_writel = \<lambda>x a v. if a = base + VIRTIO_MMIO_QUEUE_NOTIFY then serve vr v else v, raw_writeq = \<lambda>x a v. v,
     raw_readb = \<lambda>a v. (0, v), raw_writeb = \<lambda>x a v. v, raw_idle = \<lambda>v. v\<rparr>"

lemma console_sim_serves:
  assumes vr: "vring_ok (vq_vring vq) A U" and base: "vdev_base (vq_vdev vq) = base"
  shows "serves_at_once (console_sim (vq_vring vq) base) vq U snd fst"
proof -
  let ?vr = "vq_vring vq"
  have hd: "(ucast (ucast head :: u64) :: u32) = head" for head :: u32
    by (rule bit_word_eqI) (auto simp: bit_ucast_iff)
  have u: "(ucast (ucast u :: u64) :: u16) = u" for u :: u16
    by (rule bit_word_eqI) (auto simp: bit_ucast_iff)
  have n: "notified (console_sim ?vr base) vq v = serve ?vr v" for v
    by (simp add: notified_def console_sim_def base)
  have slot: "unat (ring_slot ?vr u) < unat (vr_num ?vr)" for u
    unfolding ring_slot_def by (rule ring_index [OF vr])
  note ring = served_ring [OF vr slot refl]
  show ?thesis
    unfolding serves_at_once_def n by (simp add: serve_def Let_def split_beta hd u ring)
qed

text \<open>A device that does nothing.\<close>

definition quiet :: "'h virtio_hw" where
  "quiet = \<lparr>raw_readl = \<lambda>a v. (0, v), raw_readq = \<lambda>a v. (0, v), raw_writel = \<lambda>x a v. v, raw_writeq = \<lambda>x a v. v,
     raw_readb = \<lambda>a v. (0, v), raw_writeb = \<lambda>x a v. v, raw_idle = \<lambda>v. v\<rparr>"

section \<open>Examples\<close>

text \<open>A console with a queue of two descriptors, where nothing was sent so far.\<close>

definition sample_state :: "vring_virtqueue \<Rightarrow> mem \<Rightarrow> (u16 \<times> u8 list) chr_state" where
  "sample_state vq m = \<lparr>vm = reset_machine\<lparr>ram := m\<rparr>, devs = (0, []), rpt = report_init, vcon = Some sample_vdev, in_vq = None, out_vq = Some vq\<rparr>"

lemma sample_buffer:
  assumes "vq_vring vq = vring_init 2 0x2000 4096" and "i < 8"
  shows "4096 + 6 + 8 * unat (vr_num (vq_vring vq)) \<le> unat (0x8000 + of_nat i - vr_desc (vq_vring vq))"
proof -
  have "0x8000 + of_nat i - 0x2000 = (of_nat (0x6000 + i) :: u64)" "unat (of_nat (0x6000 + i) :: u64) = 0x6000 + i"
    using assms(2) by (simp, intro unat_of_nat_u64, simp)
  then show ?thesis
    by (simp only: assms(1)) (simp add: vring_init_def)
qed

lemma sample_text: "int_text 3 = ''3''"
  by (simp add: int_text_def nat_text.simps digits_def)

theorem chr_testdev_exit_publishes_witness:
  "\<exists>vq m m1. loadn 2 m1 (avail_idx_at (vq_vring vq)) = 1 \<and> get_desc m1 (vq_vring vq) 0 Desc_len = 2 \<and> bytes_at m1 0x8000 2 = map byte ''3q''
    \<and> (\<exists>vq1. chr_testdev_exit quiet 0x8000 3 (sample_state vq m) =
        bind_outcome (returns (send_wait quiet vq1 (set_io_view ((0, []), m1) (sample_state vq m)))) (\<lambda>r. bind_outcome r (\<lambda>(vq, s). Ret (s\<lparr>out_vq := Some vq\<rparr>))))"
proof -
  obtain vq m where q: "vring_ok (vq_vring vq) 32 4096" "vq_vring vq = vring_init 2 0x2000 4096" "queue_ok vq m [0, 1]" "in_step vq m 0"
    by (rule sample_ready) blast
  have "queue_ok vq (ram (vm (sample_state vq m))) [0, 1]" "out_vq (sample_state vq m) = Some vq" "vcon (sample_state vq m) = Some sample_vdev"
      "loadn 2 (ram (vm (sample_state vq m))) (avail_idx_at (vq_vring vq)) = ucast (0 :: u16)"
    using q(3,4) by (simp_all add: sample_state_def in_step_def)
  moreover have "map byte ''3q'' = map byte (take 7 (int_text (sint (3 :: u32)) @ ''q''))" "(0x8000 :: u64) \<noteq> 0"
    by (simp_all add: sample_text)
  moreover have "raw_writel quiet x a v = v" "devs (sample_state vq m) = (0, [])" for x a and v :: "(u16 \<times> u8 list) \<times> mem"
    by (simp_all add: quiet_def sample_state_def)
  ultimately obtain vq1 m1 where r: "chr_testdev_exit quiet 0x8000 3 (sample_state vq m) =
        bind_outcome (returns (send_wait quiet vq1 (set_io_view ((0, []), m1) (sample_state vq m)))) (\<lambda>r. bind_outcome r (\<lambda>(vq, s). Ret (s\<lparr>out_vq := Some vq\<rparr>)))"
      "loadn 2 m1 (avail_idx_at (vq_vring vq)) = ucast (0 + 1 :: u16)" "get_desc m1 (vq_vring vq) 0 Desc_len = of_nat (length (map byte ''3q''))"
      "bytes_at m1 0x8000 (length (map byte ''3q'')) = map byte ''3q''"
    using chr_testdev_exit_publishes [of vq "sample_state vq m" 0 "[1]" 32 4096 sample_vdev 0 "0x8000" "map byte ''3q''" 3 quiet, OF _ q(1) _ _ _ _ sample_buffer [OF q(2)]]
    by (metis (no_types, lifting))
  then show ?thesis
    by (intro exI [of _ vq] exI [of _ m] exI [of _ m1]) (auto simp: numeral_2_eq_2)
qed

lemma sample_received:
  "\<exists>vq m s'. chr_testdev_exit (console_sim (vq_vring vq) 0xa000000) 0x8000 3 (sample_state vq m) = Ret s' \<and> snd (devs s') = map byte ''3q''"
proof -
  obtain vq m where q: "vring_ok (vq_vring vq) 32 4096" "vq_vring vq = vring_init 2 0x2000 4096" "vq_vdev vq = sample_vdev" "queue_ok vq m [0, 1]" "in_step vq m 0"
    by (rule sample_ready) blast
  have "serves_at_once (console_sim (vq_vring vq) 0xa000000) vq 4096 snd fst"
    by (rule console_sim_serves [OF q(1)]) (simp add: q(3) sample_vdev_def)
  moreover have "console_ready fst vq [0, 1] (sample_state vq m)"
    using q(4,5) by (simp add: console_ready_def sample_state_def)
  ultimately show ?thesis
    using exit_received [of "console_sim (vq_vring vq) 0xa000000" vq 4096 snd fst 32 0 "[1]" "sample_state vq m" sample_vdev "0x8000" 3] q(1)
      sample_buffer [OF q(2)] by (auto simp: sample_state_def sample_text)
qed

text \<open>
  C38: The driver does not wait for the device. \<^verbatim>\<open>virtqueue_get_buf\<close> does not compare its index with the one of the used ring, so on a used ring
  of zeros it takes the buffer of descriptor 0 for used: the first send returns even if the device has not done anything yet.
\<close>

theorem testdev_send_does_not_wait:
  assumes "queue_ok vq (ram (vm s)) (0 # fs)" and "vring_ok (vq_vring vq) A U" and "out_vq s = Some vq" and "buf \<noteq> 0" and "len \<noteq> 0"
    and "\<And>v. notified hw vq v = v" and "loadn 4 (ram (vm s)) (used_ring_at (vq_vring vq) (ring_slot (vq_vring vq) (vq_last_used_idx vq))) = 0"
  shows "\<exists>s'. testdev_send hw buf len s = Ret s' \<and> devs s' = devs s"
proof -
  let ?vr = "vq_vring vq" and ?m = "ram (vm s)"
  obtain vq1 m1 where a: "virtqueue_add_outbuf buf len vq ?m = Ret (0, vq1, m1)" "queue_ok vq1 m1 fs" "same_queue vq vq1"
      "vq_last_used_idx vq1 = vq_last_used_idx vq" "vq_data vq1 = (vq_data vq)(0 := buf)" "0 < vr_num ?vr" "\<And>x. U \<le> unat (x - vr_desc ?vr) \<Longrightarrow> m1 x = ?m x"
    by (rule add_outbuf_effect [OF assms(1,2,4,5)], blast)
  have slot: "unat (ring_slot ?vr (vq_last_used_idx vq)) < unat (vr_num ?vr)"
    unfolding ring_slot_def by (rule ring_index [OF assms(2)])
  have "loadn 4 m1 (used_ring_at ?vr (ring_slot ?vr (vq_last_used_idx vq))) = loadn 4 ?m (used_ring_at ?vr (ring_slot ?vr (vq_last_used_idx vq)))"
    unfolding ring_addrs(3) [OF assms(2)]
    by (rule loadn_offset_cong [of U _ "2 ^ 64"]) (use a(7) assms(2) slot in \<open>auto simp: vring_ok_def\<close>)
  then have "loadn 4 m1 (used_ring_at (vq_vring vq1) (ucast (vq_last_used_idx vq1) AND (vr_num (vq_vring vq1) - 1))) = ucast (0 :: u32)"
      and v: "vring_ok (vq_vring vq1) A U" "0 < vr_num (vq_vring vq1)" "0 \<notin> set fs"
    using a(3,4,6) assms(1,2,7) by (simp_all add: same_queue_def ring_slot_def queue_ok_def)
  then obtain vq2 m2 len' where "virtqueue_get_buf vq1 m1 = Ret (vq_data vq1 0, len', vq2, m2)"
    by (elim get_buf_effect [OF a(2) v])
  then have "testdev_send hw buf len s = Ret ((set_ram m2 (set_io_view (devs s, m1) (set_ram m1 s)))\<lparr>out_vq := Some vq2\<rparr>)"
    using assms(4,6) a(5) by (intro send_once [OF assms(3) a(1,3)]) auto
  then show ?thesis
    by (simp add: set_ram_def set_io_view_def)
qed

theorem testdev_send_does_not_wait_witness:
  "\<exists>vq m s'. testdev_send quiet 0x8000 2 (sample_state vq m) = Ret s' \<and> devs s' = (0, [])"
proof -
  obtain vq m where q: "vring_ok (vq_vring vq) 32 4096" "vq_last_used_idx vq = 0" "queue_ok vq m [0, 1]" "loadn 4 m (used_ring_at (vq_vring vq) 0) = 0"
    by (rule sample_ready) blast
  then show ?thesis
    using testdev_send_does_not_wait [of vq "sample_state vq m" "[1]" 32 4096 "0x8000" 2 quiet]
    by (auto simp: sample_state_def notified_def quiet_def ring_slot_def)
qed

end
