(* ===== verification/Fdt.thy ===== *)
theory Fdt
  imports Printf "HOL-Library.Monad_Syntax"
begin

text \<open>
  Reading of flattened device trees: \<^verbatim>\<open>lib/libfdt/fdt.c\<close> and \<^verbatim>\<open>lib/libfdt/fdt_ro.c\<close>. The blob is in memory, at the address \<open>fdt\<close>. A C \<^verbatim>\<open>int\<close>
  is an integer, with the conversions from wider and unsigned types written out; a negative one is an error code. A function that
  follows the blob may not return, and then its value is \<open>None\<close>. A pointer result is an address, \<^verbatim>\<open>NULL\<close> is 0. Names that a caller passes
  with their length are lists of bytes; the C functions pass the length on as an \<^verbatim>\<open>int\<close>, so the lists stand for names of less than \<open>2 ^ 31\<close> bytes.
\<close>

unbundle bit_operations_syntax

section \<open>The format\<close>

datatype fdt_error = NOTFOUND | EXISTS | NOSPACE | BADOFFSET | BADPATH | BADPHANDLE | BADSTATE | TRUNCATED | BADMAGIC | BADVERSION | BADSTRUCTURE
  | BADLAYOUT | INTERNAL

primrec FDT_ERR :: "fdt_error \<Rightarrow> int" where
  "FDT_ERR NOTFOUND = 1"
| "FDT_ERR EXISTS = 2"
| "FDT_ERR NOSPACE = 3"
| "FDT_ERR BADOFFSET = 4"
| "FDT_ERR BADPATH = 5"
| "FDT_ERR BADPHANDLE = 6"
| "FDT_ERR BADSTATE = 7"
| "FDT_ERR TRUNCATED = 8"
| "FDT_ERR BADMAGIC = 9"
| "FDT_ERR BADVERSION = 10"
| "FDT_ERR BADSTRUCTURE = 11"
| "FDT_ERR BADLAYOUT = 12"
| "FDT_ERR INTERNAL = 13"

definition FDT_MAGIC :: u32 where "FDT_MAGIC = 0xd00dfeed"

definition FDT_SW_MAGIC :: u32 where "FDT_SW_MAGIC = NOT FDT_MAGIC"

definition FDT_BEGIN_NODE :: u32 where "FDT_BEGIN_NODE = 1"

definition FDT_END_NODE :: u32 where "FDT_END_NODE = 2"

definition FDT_PROP :: u32 where "FDT_PROP = 3"

definition FDT_NOP :: u32 where "FDT_NOP = 4"

definition FDT_END :: u32 where "FDT_END = 9"

text \<open>Numbers in the blob are big-endian.\<close>

definition fdt32_to_cpu :: "mem \<Rightarrow> u64 \<Rightarrow> u32" where
  "fdt32_to_cpu m p = push_bit 24 (ucast (m p)) OR push_bit 16 (ucast (m (p + 1))) OR push_bit 8 (ucast (m (p + 2))) OR ucast (m (p + 3))"

definition fdt64_to_cpu :: "mem \<Rightarrow> u64 \<Rightarrow> u64" where
  "fdt64_to_cpu m p = push_bit 32 (ucast (fdt32_to_cpu m p)) OR ucast (fdt32_to_cpu m (p + 4))"

datatype fdt_header = Magic | Totalsize | Off_dt_struct | Off_dt_strings | Off_mem_rsvmap | Version | Last_comp_version | Boot_cpuid_phys
  | Size_dt_strings | Size_dt_struct

primrec header_offset :: "fdt_header \<Rightarrow> u64" where
  "header_offset Magic = 0"
| "header_offset Totalsize = 4"
| "header_offset Off_dt_struct = 8"
| "header_offset Off_dt_strings = 12"
| "header_offset Off_mem_rsvmap = 16"
| "header_offset Version = 20"
| "header_offset Last_comp_version = 24"
| "header_offset Boot_cpuid_phys = 28"
| "header_offset Size_dt_strings = 32"
| "header_offset Size_dt_struct = 36"

definition fdt_get_header :: "mem \<Rightarrow> u64 \<Rightarrow> fdt_header \<Rightarrow> u32" where
  "fdt_get_header m fdt f = fdt32_to_cpu m (fdt + header_offset f)"

definition FDT_TAGALIGN :: "int \<Rightarrow> int" where
  "FDT_TAGALIGN x = s32 ((x + 4 - 1) AND NOT (4 - 1))"

definition offset_ptr :: "mem \<Rightarrow> u64 \<Rightarrow> int \<Rightarrow> u64" where
  "offset_ptr m fdt offset = fdt + ucast (fdt_get_header m fdt Off_dt_struct) + of_int offset"

definition mem_rsv :: "mem \<Rightarrow> u64 \<Rightarrow> int \<Rightarrow> u64" where
  "mem_rsv m fdt n = fdt + ucast (fdt_get_header m fdt Off_mem_rsvmap) + 16 * of_int n"

definition lit :: "string \<Rightarrow> u8 list" where
  "lit s = map byte s"

section \<open>Walking through the structure block\<close>

definition fdt_check_header :: "mem \<Rightarrow> u64 \<Rightarrow> int" where
  "fdt_check_header m fdt =
     (if fdt_get_header m fdt Magic = FDT_MAGIC then
        if fdt_get_header m fdt Version < 0x10 then - FDT_ERR BADVERSION
        else if fdt_get_header m fdt Last_comp_version > 0x11 then - FDT_ERR BADVERSION
        else 0
      else if fdt_get_header m fdt Magic = FDT_SW_MAGIC then
        if fdt_get_header m fdt Size_dt_struct = 0 then - FDT_ERR BADSTATE else 0
      else - FDT_ERR BADMAGIC)"

definition fdt_offset_ptr :: "mem \<Rightarrow> u64 \<Rightarrow> int \<Rightarrow> u32 \<Rightarrow> u64" where
  "fdt_offset_ptr m fdt offset len =
     (let e = of_int offset + len in
      if fdt_get_header m fdt Version \<ge> 0x11 \<and> (e < of_int offset \<or> e > fdt_get_header m fdt Size_dt_struct) then 0
      else let p = offset_ptr m fdt offset in if p + ucast len < p then 0 else p)"

partial_function (option) skip_name :: "mem \<Rightarrow> u64 \<Rightarrow> int \<Rightarrow> (u64 \<times> int) option" where
  "skip_name m fdt offset =
     (let p = fdt_offset_ptr m fdt offset 1; offset = s32 (offset + 1) in
      if p \<noteq> 0 \<and> m p \<noteq> 0 then skip_name m fdt offset else Some (p, offset))"

text \<open>The end of the token, without the padding behind it. \<open>None\<close> inside stands for a premature end.\<close>

definition tag_end :: "mem \<Rightarrow> u64 \<Rightarrow> u32 \<Rightarrow> int \<Rightarrow> int option option" where
  "tag_end m fdt tag offset =
     (if tag = FDT_BEGIN_NODE then
        do { (p, offset) \<leftarrow> skip_name m fdt offset; Some (if p = 0 then None else Some offset) }
      else if tag = FDT_PROP then
        let lenp = fdt_offset_ptr m fdt offset 4 in
        Some (if lenp = 0 then None else Some (s32 (offset + (12 - 4 + uint (fdt32_to_cpu m lenp)))))
      else if tag = FDT_END \<or> tag = FDT_END_NODE \<or> tag = FDT_NOP then Some (Some offset)
      else Some None)"

definition fdt_next_tag :: "mem \<Rightarrow> u64 \<Rightarrow> int \<Rightarrow> (u32 \<times> int) option" where
  "fdt_next_tag m fdt startoffset =
     (let tagp = fdt_offset_ptr m fdt startoffset 4 in
      if tagp = 0 then Some (FDT_END, - FDT_ERR TRUNCATED)
      else
        let tag = fdt32_to_cpu m tagp in
        do { e \<leftarrow> tag_end m fdt tag (s32 (startoffset + 4));
             Some (case e of
               None \<Rightarrow> (FDT_END, - FDT_ERR BADSTRUCTURE)
             | Some offset \<Rightarrow>
                 if fdt_offset_ptr m fdt startoffset (of_int (offset - startoffset)) = 0 then (FDT_END, - FDT_ERR BADSTRUCTURE)
                 else (tag, FDT_TAGALIGN offset)) })"

text \<open>\<open>_fdt_check_node_offset\<close> and \<open>_fdt_check_prop_offset\<close> differ in the tag.\<close>

definition check_tag_offset :: "mem \<Rightarrow> u64 \<Rightarrow> u32 \<Rightarrow> int \<Rightarrow> int option" where
  "check_tag_offset m fdt tag offset =
     (if offset < 0 \<or> offset mod 4 \<noteq> 0 then Some (- FDT_ERR BADOFFSET)
      else do { (t, nextoffset) \<leftarrow> fdt_next_tag m fdt offset; Some (if t \<noteq> tag then - FDT_ERR BADOFFSET else nextoffset) })"

definition check_node_offset :: "mem \<Rightarrow> u64 \<Rightarrow> int \<Rightarrow> int option" where
  "check_node_offset m fdt offset = check_tag_offset m fdt FDT_BEGIN_NODE offset"

definition check_prop_offset :: "mem \<Rightarrow> u64 \<Rightarrow> int \<Rightarrow> int option" where
  "check_prop_offset m fdt offset = check_tag_offset m fdt FDT_PROP offset"

text \<open>The pointer to the depth may be \<^verbatim>\<open>NULL\<close>; the result has the offset and the depth.\<close>

partial_function (option) next_node_loop :: "mem \<Rightarrow> u64 \<Rightarrow> int \<Rightarrow> int option \<Rightarrow> (int \<times> int option) option" where
  "next_node_loop m fdt offset depth =
     do { (tag, nextoffset) \<leftarrow> fdt_next_tag m fdt offset;
          if tag = FDT_BEGIN_NODE then Some (offset, map_option (\<lambda>d. d + 1) depth)
          else if tag = FDT_END_NODE then
            (case depth of
               None \<Rightarrow> next_node_loop m fdt nextoffset None
             | Some d \<Rightarrow> if d - 1 < 0 then Some (nextoffset, Some (d - 1)) else next_node_loop m fdt nextoffset (Some (d - 1)))
          else if tag = FDT_END then
            Some (if nextoffset \<ge> 0 \<or> nextoffset = - FDT_ERR TRUNCATED \<and> depth = None then - FDT_ERR NOTFOUND else nextoffset, depth)
          else next_node_loop m fdt nextoffset depth }"

definition fdt_next_node :: "mem \<Rightarrow> u64 \<Rightarrow> int \<Rightarrow> int option \<Rightarrow> (int \<times> int option) option" where
  "fdt_next_node m fdt offset depth =
     do { nextoffset \<leftarrow> (if offset \<ge> 0 then check_node_offset m fdt offset else Some 0);
          if nextoffset < 0 then Some (nextoffset, depth) else next_node_loop m fdt nextoffset depth }"

definition fdt_first_subnode :: "mem \<Rightarrow> u64 \<Rightarrow> int \<Rightarrow> int option" where
  "fdt_first_subnode m fdt offset =
     do { (offset, depth) \<leftarrow> fdt_next_node m fdt offset (Some 0);
          Some (if offset < 0 \<or> depth \<noteq> Some 1 then - FDT_ERR NOTFOUND else offset) }"

partial_function (option) next_subnode_loop :: "mem \<Rightarrow> u64 \<Rightarrow> int \<Rightarrow> int option \<Rightarrow> int option" where
  "next_subnode_loop m fdt offset depth =
     do { (offset, depth) \<leftarrow> fdt_next_node m fdt offset depth;
          if offset < 0 \<or> the depth < 1 then Some (- FDT_ERR NOTFOUND)
          else if the depth > 1 then next_subnode_loop m fdt offset depth
          else Some offset }"

definition fdt_next_subnode :: "mem \<Rightarrow> u64 \<Rightarrow> int \<Rightarrow> int option" where
  "fdt_next_subnode m fdt offset = next_subnode_loop m fdt offset (Some 1)"

definition fdt_move :: "mem \<Rightarrow> u64 \<Rightarrow> u64 \<Rightarrow> u32 \<Rightarrow> int \<times> mem" where
  "fdt_move m fdt buf bufsize =
     (if fdt_check_header m fdt \<noteq> 0 then (fdt_check_header m fdt, m)
      else if fdt_get_header m fdt Totalsize > bufsize then (- FDT_ERR NOSPACE, m)
      else (0, memmove m buf fdt (ucast (fdt_get_header m fdt Totalsize))))"

section \<open>Nodes and properties\<close>

definition nodename_eq :: "mem \<Rightarrow> u64 \<Rightarrow> int \<Rightarrow> u8 list \<Rightarrow> bool" where
  "nodename_eq m fdt offset s =
     (let p = fdt_offset_ptr m fdt (s32 (offset + 4)) (of_nat (length s + 1)); c = m (p + of_nat (length s)) in
      p \<noteq> 0 \<and> bytes_at m p (length s) = s \<and> (c = 0 \<or> byte CHR ''@'' \<notin> set s \<and> c = byte CHR ''@''))"

definition fdt_string :: "mem \<Rightarrow> u64 \<Rightarrow> int \<Rightarrow> u64" where
  "fdt_string m fdt stroffset = fdt + ucast (fdt_get_header m fdt Off_dt_strings) + of_int stroffset"

definition string_eq :: "mem \<Rightarrow> u64 \<Rightarrow> int \<Rightarrow> u8 list \<Rightarrow> bool option" where
  "string_eq m fdt stroffset s =
     (let p = fdt_string m fdt stroffset in
      do { l \<leftarrow> strlen m p; Some (l = of_nat (length s) \<and> bytes_at m p (length s) = s) })"

text \<open>The result has the error code, the address and the size of the entry.\<close>

definition fdt_get_mem_rsv :: "mem \<Rightarrow> u64 \<Rightarrow> int \<Rightarrow> int \<times> u64 \<times> u64" where
  "fdt_get_mem_rsv m fdt n =
     (if fdt_check_header m fdt \<noteq> 0 then (fdt_check_header m fdt, 0, 0)
      else (0, fdt64_to_cpu m (mem_rsv m fdt n), fdt64_to_cpu m (mem_rsv m fdt n + 8)))"

partial_function (option) num_mem_rsv_loop :: "mem \<Rightarrow> u64 \<Rightarrow> int \<Rightarrow> int option" where
  "num_mem_rsv_loop m fdt i = (if fdt64_to_cpu m (mem_rsv m fdt i + 8) \<noteq> 0 then num_mem_rsv_loop m fdt (i + 1) else Some i)"

definition fdt_num_mem_rsv :: "mem \<Rightarrow> u64 \<Rightarrow> int option" where
  "fdt_num_mem_rsv m fdt = num_mem_rsv_loop m fdt 0"

partial_function (option) nextprop :: "mem \<Rightarrow> u64 \<Rightarrow> int \<Rightarrow> int option" where
  "nextprop m fdt offset =
     do { (tag, nextoffset) \<leftarrow> fdt_next_tag m fdt offset;
          if tag = FDT_END then Some (if nextoffset \<ge> 0 then - FDT_ERR BADSTRUCTURE else nextoffset)
          else if tag = FDT_PROP then Some offset
          else if tag = FDT_NOP then nextprop m fdt nextoffset
          else Some (- FDT_ERR NOTFOUND) }"

partial_function (option) subnode_loop :: "mem \<Rightarrow> u64 \<Rightarrow> u8 list \<Rightarrow> int \<Rightarrow> int option \<Rightarrow> int option" where
  "subnode_loop m fdt name offset depth =
     (if offset \<ge> 0 \<and> the depth \<ge> 0 then
        if depth = Some 1 \<and> nodename_eq m fdt offset name then Some offset
        else do { (offset, depth) \<leftarrow> fdt_next_node m fdt offset depth; subnode_loop m fdt name offset depth }
      else if the depth < 0 then Some (- FDT_ERR NOTFOUND)
      else Some offset)"

definition fdt_subnode_offset_namelen :: "mem \<Rightarrow> u64 \<Rightarrow> int \<Rightarrow> u8 list \<Rightarrow> int option" where
  "fdt_subnode_offset_namelen m fdt offset name =
     (if fdt_check_header m fdt \<noteq> 0 then Some (fdt_check_header m fdt) else subnode_loop m fdt name offset (Some 0))"

definition fdt_subnode_offset :: "mem \<Rightarrow> u64 \<Rightarrow> int \<Rightarrow> string \<Rightarrow> int option" where
  "fdt_subnode_offset m fdt parentoffset name = fdt_subnode_offset_namelen m fdt parentoffset (lit name)"

text \<open>The name and its length, or \<^verbatim>\<open>NULL\<close> and the error code.\<close>

definition fdt_get_name :: "mem \<Rightarrow> u64 \<Rightarrow> int \<Rightarrow> (u64 \<times> int) option" where
  "fdt_get_name m fdt nodeoffset =
     (if fdt_check_header m fdt \<noteq> 0 then Some (0, fdt_check_header m fdt)
      else do { err \<leftarrow> check_node_offset m fdt nodeoffset;
                if err < 0 then Some (0, err)
                else do { l \<leftarrow> strlen m (offset_ptr m fdt nodeoffset + 4); Some (offset_ptr m fdt nodeoffset + 4, s32 (uint l)) } })"

definition fdt_first_property_offset :: "mem \<Rightarrow> u64 \<Rightarrow> int \<Rightarrow> int option" where
  "fdt_first_property_offset m fdt nodeoffset =
     do { offset \<leftarrow> check_node_offset m fdt nodeoffset; if offset < 0 then Some offset else nextprop m fdt offset }"

definition fdt_next_property_offset :: "mem \<Rightarrow> u64 \<Rightarrow> int \<Rightarrow> int option" where
  "fdt_next_property_offset m fdt offset =
     do { offset \<leftarrow> check_prop_offset m fdt offset; if offset < 0 then Some offset else nextprop m fdt offset }"

text \<open>A property is given by the address of its \<^verbatim>\<open>struct fdt_property\<close> and the length that is stored through \<^verbatim>\<open>lenp\<close>.\<close>

definition prop_nameoff :: "mem \<Rightarrow> u64 \<Rightarrow> int" where
  "prop_nameoff m prop = s32 (uint (fdt32_to_cpu m (prop + 8)))"

definition prop_data :: "u64 \<Rightarrow> u64" where
  "prop_data prop = prop + 12"

definition fdt_get_property_by_offset :: "mem \<Rightarrow> u64 \<Rightarrow> int \<Rightarrow> (u64 \<times> int) option" where
  "fdt_get_property_by_offset m fdt offset =
     do { err \<leftarrow> check_prop_offset m fdt offset;
          if err < 0 then Some (0, err)
          else let prop = offset_ptr m fdt offset in Some (prop, s32 (uint (fdt32_to_cpu m (prop + 4)))) }"

partial_function (option) get_property_loop :: "mem \<Rightarrow> u64 \<Rightarrow> u8 list \<Rightarrow> int \<Rightarrow> (u64 \<times> int) option" where
  "get_property_loop m fdt name offset =
     (if offset \<ge> 0 then
        do { (prop, len) \<leftarrow> fdt_get_property_by_offset m fdt offset;
             if prop = 0 then Some (0, - FDT_ERR INTERNAL)
             else do { eq \<leftarrow> string_eq m fdt (prop_nameoff m prop) name;
                       if eq then Some (prop, len)
                       else do { offset \<leftarrow> fdt_next_property_offset m fdt offset; get_property_loop m fdt name offset } } }
      else Some (0, offset))"

definition fdt_get_property_namelen :: "mem \<Rightarrow> u64 \<Rightarrow> int \<Rightarrow> u8 list \<Rightarrow> (u64 \<times> int) option" where
  "fdt_get_property_namelen m fdt offset name =
     do { offset \<leftarrow> fdt_first_property_offset m fdt offset; get_property_loop m fdt name offset }"

definition fdt_get_property :: "mem \<Rightarrow> u64 \<Rightarrow> int \<Rightarrow> string \<Rightarrow> (u64 \<times> int) option" where
  "fdt_get_property m fdt nodeoffset name = fdt_get_property_namelen m fdt nodeoffset (lit name)"

definition fdt_getprop_namelen :: "mem \<Rightarrow> u64 \<Rightarrow> int \<Rightarrow> u8 list \<Rightarrow> (u64 \<times> int) option" where
  "fdt_getprop_namelen m fdt nodeoffset name =
     do { (prop, len) \<leftarrow> fdt_get_property_namelen m fdt nodeoffset name; Some (if prop = 0 then 0 else prop_data prop, len) }"

definition fdt_getprop_by_offset :: "mem \<Rightarrow> u64 \<Rightarrow> int \<Rightarrow> (u64 \<times> u64 \<times> int) option" where
  "fdt_getprop_by_offset m fdt offset =
     do { (prop, len) \<leftarrow> fdt_get_property_by_offset m fdt offset;
          Some (if prop = 0 then (0, 0, len) else (prop_data prop, fdt_string m fdt (prop_nameoff m prop), len)) }"

definition fdt_getprop :: "mem \<Rightarrow> u64 \<Rightarrow> int \<Rightarrow> string \<Rightarrow> (u64 \<times> int) option" where
  "fdt_getprop m fdt nodeoffset name = fdt_getprop_namelen m fdt nodeoffset (lit name)"

definition fdt_get_phandle :: "mem \<Rightarrow> u64 \<Rightarrow> int \<Rightarrow> u32 option" where
  "fdt_get_phandle m fdt nodeoffset =
     do { (php, len) \<leftarrow> fdt_getprop m fdt nodeoffset ''phandle'';
          if php = 0 \<or> len \<noteq> 4 then
            do { (php, len) \<leftarrow> fdt_getprop m fdt nodeoffset ''linux,phandle'';
                 if php = 0 \<or> len \<noteq> 4 then Some 0 else Some (fdt32_to_cpu m php) }
          else Some (fdt32_to_cpu m php) }"

section \<open>Paths\<close>

definition slash :: u8 where "slash = byte CHR ''/''"

lemma component_shorter:
  assumes "dropWhile (\<lambda>c. c = a) p \<noteq> []"
  shows "length (dropWhile (\<lambda>c. c \<noteq> a) (dropWhile (\<lambda>c. c = a) p)) < length p"
  using assms
proof (induction p)
  case (Cons c p)
  then show ?case
    using length_dropWhile_le [of "\<lambda>c. c \<noteq> a" p] by (cases "c = a") auto
qed simp

text \<open>The loop over the components of a path, a list of bytes without NUL.\<close>

function path_loop :: "mem \<Rightarrow> u64 \<Rightarrow> u8 list \<Rightarrow> int \<Rightarrow> int option" where
  "path_loop m fdt p offset =
     (let p = dropWhile (\<lambda>c. c = slash) p in
      if p = [] then Some offset
      else do { offset \<leftarrow> fdt_subnode_offset_namelen m fdt offset (takeWhile (\<lambda>c. c \<noteq> slash) p);
                if offset < 0 then Some offset else path_loop m fdt (dropWhile (\<lambda>c. c \<noteq> slash) p) offset })"
  by pat_completeness auto

termination
  by (relation "measure (\<lambda>(m, fdt, p, offset). length p)") (simp_all add: component_shorter)

declare path_loop.simps [simp del]

definition cstr_list :: "mem \<Rightarrow> u64 \<Rightarrow> u8 list option" where
  "cstr_list m p = do { l \<leftarrow> strlen m p; Some (bytes_at m p (unat l)) }"

text \<open>A path that does not begin with a slash begins with an alias, which is looked up with the same function.\<close>

partial_function (option) fdt_path_offset :: "mem \<Rightarrow> u64 \<Rightarrow> u8 list \<Rightarrow> int option" where
  "fdt_path_offset m fdt path =
     (if fdt_check_header m fdt \<noteq> 0 then Some (fdt_check_header m fdt)
      else if path = [] \<or> hd path \<noteq> slash then
        do { aliasoffset \<leftarrow> fdt_path_offset m fdt (lit ''/aliases'');
             (p, len) \<leftarrow> (if aliasoffset < 0 then Some (0, 0) else fdt_getprop_namelen m fdt aliasoffset (takeWhile (\<lambda>c. c \<noteq> slash) path));
             if p = 0 then Some (- FDT_ERR BADPATH)
             else do { s \<leftarrow> cstr_list m p;
                       offset \<leftarrow> fdt_path_offset m fdt s;
                       path_loop m fdt (dropWhile (\<lambda>c. c \<noteq> slash) path) offset } }
      else path_loop m fdt path 0)"

definition fdt_get_alias_namelen :: "mem \<Rightarrow> u64 \<Rightarrow> u8 list \<Rightarrow> u64 option" where
  "fdt_get_alias_namelen m fdt name =
     do { aliasoffset \<leftarrow> fdt_path_offset m fdt (lit ''/aliases'');
          if aliasoffset < 0 then Some 0 else do { (p, len) \<leftarrow> fdt_getprop_namelen m fdt aliasoffset name; Some p } }"

definition fdt_get_alias :: "mem \<Rightarrow> u64 \<Rightarrow> string \<Rightarrow> u64 option" where
  "fdt_get_alias m fdt name = fdt_get_alias_namelen m fdt (lit name)"

text \<open>\<open>get_path_back\<close> is the inner loop over the buffer, \<open>get_path_up\<close> the loop that removes the components below the depth.\<close>

partial_function (option) get_path_back :: "mem \<Rightarrow> u64 \<Rightarrow> int \<Rightarrow> int option" where
  "get_path_back m buf p = (let p = p - 1 in if m (buf + of_int (p - 1)) \<noteq> slash then get_path_back m buf p else Some p)"

partial_function (option) get_path_up :: "mem \<Rightarrow> u64 \<Rightarrow> int \<Rightarrow> int \<Rightarrow> int \<Rightarrow> (int \<times> int) option" where
  "get_path_up m buf depth pdepth p =
     (if pdepth > depth then do { p \<leftarrow> get_path_back m buf p; get_path_up m buf depth (pdepth - 1) p } else Some (pdepth, p))"

definition get_path_add :: "mem \<Rightarrow> u64 \<Rightarrow> u64 \<Rightarrow> int \<Rightarrow> u64 \<Rightarrow> int \<Rightarrow> int \<Rightarrow> int \<Rightarrow> int \<times> int \<times> mem" where
  "get_path_add m fdt buf buflen name namelen pdepth p =
     (if p + namelen + 1 \<le> buflen then
        let m = memcpy m (buf + of_int p) name (of_int namelen); p = p + namelen; m = m(buf + of_int p := slash)
        in (pdepth + 1, p + 1, m)
      else (pdepth, p, m))"

partial_function (option) get_path_loop ::
  "mem \<Rightarrow> u64 \<Rightarrow> int \<Rightarrow> u64 \<Rightarrow> int \<Rightarrow> int \<Rightarrow> int option \<Rightarrow> int \<Rightarrow> int \<Rightarrow> (int \<times> mem) option" where
  "get_path_loop m fdt nodeoffset buf buflen offset depth pdepth p =
     (if offset \<ge> 0 \<and> offset \<le> nodeoffset then
        do { (pdepth, p) \<leftarrow> get_path_up m buf (the depth) pdepth p;
             (name, namelen) \<leftarrow> (if pdepth \<ge> the depth then fdt_get_name m fdt offset else Some (1, 0));
             if name = 0 then Some (namelen, m)
             else
               let (pdepth, p, m) = (if pdepth \<ge> the depth then get_path_add m fdt buf buflen name namelen pdepth p else (pdepth, p, m)) in
               if offset = nodeoffset then
                 if pdepth < the depth + 1 then Some (- FDT_ERR NOSPACE, m)
                 else let p = (if p > 1 then p - 1 else p) in Some (0, m(buf + of_int p := 0))
               else do { (offset, depth) \<leftarrow> fdt_next_node m fdt offset depth;
                         get_path_loop m fdt nodeoffset buf buflen offset depth pdepth p } }
      else if offset = - FDT_ERR NOTFOUND \<or> offset \<ge> 0 then Some (- FDT_ERR BADOFFSET, m)
      else if offset = - FDT_ERR BADOFFSET then Some (- FDT_ERR BADSTRUCTURE, m)
      else Some (offset, m))"

definition fdt_get_path :: "mem \<Rightarrow> u64 \<Rightarrow> int \<Rightarrow> u64 \<Rightarrow> int \<Rightarrow> (int \<times> mem) option" where
  "fdt_get_path m fdt nodeoffset buf buflen =
     (if fdt_check_header m fdt \<noteq> 0 then Some (fdt_check_header m fdt, m)
      else if buflen < 2 then Some (- FDT_ERR NOSPACE, m)
      else get_path_loop m fdt nodeoffset buf buflen 0 (Some 0) 0 0)"

section \<open>Searching\<close>

text \<open>The result has the offset of the node at the given depth and the depth of the node itself.\<close>

partial_function (option) supernode_loop :: "mem \<Rightarrow> u64 \<Rightarrow> int \<Rightarrow> int \<Rightarrow> int \<Rightarrow> int option \<Rightarrow> int \<Rightarrow> (int \<times> int option) option" where
  "supernode_loop m fdt nodeoffset supernodedepth offset depth supernodeoffset =
     (if offset \<ge> 0 \<and> offset \<le> nodeoffset then
        let supernodeoffset = (if depth = Some supernodedepth then offset else supernodeoffset) in
        if offset = nodeoffset then Some (if supernodedepth > the depth then - FDT_ERR NOTFOUND else supernodeoffset, depth)
        else do { (offset, depth) \<leftarrow> fdt_next_node m fdt offset depth;
                  supernode_loop m fdt nodeoffset supernodedepth offset depth supernodeoffset }
      else if offset = - FDT_ERR NOTFOUND \<or> offset \<ge> 0 then Some (- FDT_ERR BADOFFSET, None)
      else if offset = - FDT_ERR BADOFFSET then Some (- FDT_ERR BADSTRUCTURE, None)
      else Some (offset, None))"

definition fdt_supernode_atdepth_offset :: "mem \<Rightarrow> u64 \<Rightarrow> int \<Rightarrow> int \<Rightarrow> (int \<times> int option) option" where
  "fdt_supernode_atdepth_offset m fdt nodeoffset supernodedepth =
     (if fdt_check_header m fdt \<noteq> 0 then Some (fdt_check_header m fdt, None)
      else if supernodedepth < 0 then Some (- FDT_ERR NOTFOUND, None)
      else supernode_loop m fdt nodeoffset supernodedepth 0 (Some 0) (- FDT_ERR INTERNAL))"

definition fdt_node_depth :: "mem \<Rightarrow> u64 \<Rightarrow> int \<Rightarrow> int option" where
  "fdt_node_depth m fdt nodeoffset =
     do { (err, nodedepth) \<leftarrow> fdt_supernode_atdepth_offset m fdt nodeoffset 0;
          Some (if err \<noteq> 0 then if err < 0 then err else - FDT_ERR INTERNAL else the nodedepth) }"

definition fdt_parent_offset :: "mem \<Rightarrow> u64 \<Rightarrow> int \<Rightarrow> int option" where
  "fdt_parent_offset m fdt nodeoffset =
     do { nodedepth \<leftarrow> fdt_node_depth m fdt nodeoffset;
          if nodedepth < 0 then Some nodedepth
          else do { (offset, d) \<leftarrow> fdt_supernode_atdepth_offset m fdt nodeoffset (nodedepth - 1); Some offset } }"

partial_function (option) prop_value_loop :: "mem \<Rightarrow> u64 \<Rightarrow> string \<Rightarrow> u8 list \<Rightarrow> int \<Rightarrow> int option" where
  "prop_value_loop m fdt propname propval offset =
     (if offset \<ge> 0 then
        do { (val, len) \<leftarrow> fdt_getprop m fdt offset propname;
             if val \<noteq> 0 \<and> len = int (length propval) \<and> bytes_at m val (length propval) = propval then Some offset
             else do { (offset, d) \<leftarrow> fdt_next_node m fdt offset None; prop_value_loop m fdt propname propval offset } }
      else Some offset)"

definition fdt_node_offset_by_prop_value :: "mem \<Rightarrow> u64 \<Rightarrow> int \<Rightarrow> string \<Rightarrow> u8 list \<Rightarrow> int option" where
  "fdt_node_offset_by_prop_value m fdt startoffset propname propval =
     (if fdt_check_header m fdt \<noteq> 0 then Some (fdt_check_header m fdt)
      else do { (offset, d) \<leftarrow> fdt_next_node m fdt startoffset None; prop_value_loop m fdt propname propval offset })"

partial_function (option) phandle_loop :: "mem \<Rightarrow> u64 \<Rightarrow> u32 \<Rightarrow> int \<Rightarrow> int option" where
  "phandle_loop m fdt phandle offset =
     (if offset \<ge> 0 then
        do { h \<leftarrow> fdt_get_phandle m fdt offset;
             if h = phandle then Some offset
             else do { (offset, d) \<leftarrow> fdt_next_node m fdt offset None; phandle_loop m fdt phandle offset } }
      else Some offset)"

definition fdt_node_offset_by_phandle :: "mem \<Rightarrow> u64 \<Rightarrow> u32 \<Rightarrow> int option" where
  "fdt_node_offset_by_phandle m fdt phandle =
     (if phandle = 0 \<or> phandle = - 1 then Some (- FDT_ERR BADPHANDLE)
      else if fdt_check_header m fdt \<noteq> 0 then Some (fdt_check_header m fdt)
      else do { (offset, d) \<leftarrow> fdt_next_node m fdt (- 1) None; phandle_loop m fdt phandle offset })"

partial_function (option) fdt_stringlist_contains :: "mem \<Rightarrow> u64 \<Rightarrow> int \<Rightarrow> u8 list \<Rightarrow> bool option" where
  "fdt_stringlist_contains m strlist listlen str =
     (if listlen \<ge> int (length str) then
        if bytes_at m strlist (length str + 1) = str @ [0] then Some True
        else let p = memchr m strlist 0 (of_int listlen) in
          if p = 0 then Some False
          else fdt_stringlist_contains m (p + 1) (listlen - (uint (p - strlist) + 1)) str
      else Some False)"

definition fdt_node_check_compatible :: "mem \<Rightarrow> u64 \<Rightarrow> int \<Rightarrow> string \<Rightarrow> int option" where
  "fdt_node_check_compatible m fdt nodeoffset compatible =
     do { (prop, len) \<leftarrow> fdt_getprop m fdt nodeoffset ''compatible'';
          if prop = 0 then Some len
          else do { c \<leftarrow> fdt_stringlist_contains m prop len (lit compatible); Some (if c then 0 else 1) } }"

partial_function (option) compatible_loop :: "mem \<Rightarrow> u64 \<Rightarrow> string \<Rightarrow> int \<Rightarrow> int option" where
  "compatible_loop m fdt compatible offset =
     (if offset \<ge> 0 then
        do { err \<leftarrow> fdt_node_check_compatible m fdt offset compatible;
             if err < 0 \<and> err \<noteq> - FDT_ERR NOTFOUND then Some err
             else if err = 0 then Some offset
             else do { (offset, d) \<leftarrow> fdt_next_node m fdt offset None; compatible_loop m fdt compatible offset } }
      else Some offset)"

definition fdt_node_offset_by_compatible :: "mem \<Rightarrow> u64 \<Rightarrow> int \<Rightarrow> string \<Rightarrow> int option" where
  "fdt_node_offset_by_compatible m fdt startoffset compatible =
     (if fdt_check_header m fdt \<noteq> 0 then Some (fdt_check_header m fdt)
      else do { (offset, d) \<leftarrow> fdt_next_node m fdt startoffset None; compatible_loop m fdt compatible offset })"

end
