(* ===== verification/Fdt_Tokens.thy ===== *)
theory Fdt_Tokens
  imports Fdt
begin

text \<open>
  The structure block as a list of tokens. \<open>block_ok\<close> says that the blob is valid and that its structure block has the tokens; then
  \<open>fdt_next_tag\<close> goes from one token to the next.
\<close>

unbundle bit_operations_syntax

section \<open>Tokens\<close>

datatype token = T_begin "u8 list" | T_prop u32 "u8 list" | T_end_node | T_nop | T_end

primrec tok_tag :: "token \<Rightarrow> u32" where
  "tok_tag (T_begin s) = FDT_BEGIN_NODE"
| "tok_tag (T_prop n d) = FDT_PROP"
| "tok_tag T_end_node = FDT_END_NODE"
| "tok_tag T_nop = FDT_NOP"
| "tok_tag T_end = FDT_END"

definition be32_bytes :: "u32 \<Rightarrow> u8 list" where
  "be32_bytes x = [ucast (drop_bit 24 x), ucast (drop_bit 16 x), ucast (drop_bit 8 x), ucast x]"

text \<open>The bytes of a token up to its padding.\<close>

primrec tok_raw :: "token \<Rightarrow> u8 list" where
  "tok_raw (T_begin s) = be32_bytes FDT_BEGIN_NODE @ s @ [0]"
| "tok_raw (T_prop n d) = be32_bytes FDT_PROP @ be32_bytes (of_nat (length d)) @ be32_bytes n @ d"
| "tok_raw T_end_node = be32_bytes FDT_END_NODE"
| "tok_raw T_nop = be32_bytes FDT_NOP"
| "tok_raw T_end = be32_bytes FDT_END"

definition pad4 :: "u8 list \<Rightarrow> u8 list" where
  "pad4 bs = bs @ replicate (3 * length bs mod 4) 0"

definition tok_bytes :: "token \<Rightarrow> u8 list" where
  "tok_bytes t = pad4 (tok_raw t)"

primrec tok_ok :: "token \<Rightarrow> bool" where
  "tok_ok (T_begin s) \<longleftrightarrow> 0 \<notin> set s"
| "tok_ok (T_prop n d) \<longleftrightarrow> True"
| "tok_ok T_end_node \<longleftrightarrow> True"
| "tok_ok T_nop \<longleftrightarrow> True"
| "tok_ok T_end \<longleftrightarrow> True"

definition tok_size :: "token \<Rightarrow> nat" where
  "tok_size t = length (tok_bytes t)"

definition toks_size :: "token list \<Rightarrow> nat" where
  "toks_size ts = sum_list (map tok_size ts)"

definition struct_base :: "mem \<Rightarrow> u64 \<Rightarrow> u64" where
  "struct_base m fdt = fdt + ucast (fdt_get_header m fdt Off_dt_struct)"

definition block_ok :: "mem \<Rightarrow> u64 \<Rightarrow> token list \<Rightarrow> bool" where
  "block_ok m fdt ts \<longleftrightarrow> fdt_check_header m fdt = 0 \<and> list_all tok_ok ts
     \<and> bytes_at m (struct_base m fdt) (toks_size ts) = concat (map tok_bytes ts) \<and> toks_size ts < 2 ^ 31
     \<and> struct_base m fdt \<noteq> 0 \<and> unat (struct_base m fdt) + toks_size ts < 2 ^ 64
     \<and> (fdt_get_header m fdt Version \<ge> 0x11 \<longrightarrow> unat (fdt_get_header m fdt Size_dt_struct) = toks_size ts)"

lemma length_be32 [simp]: "length (be32_bytes x) = 4"
  by (simp add: be32_bytes_def)

lemma length_pad4: "length (pad4 bs) = (length bs + 3) div 4 * 4"
proof -
  define q r where "q = length bs div 4" and "r = length bs mod 4"
  then have n: "length bs = 4 * q + r" and "r < 4"
    by auto
  then consider "r = 0" | "r = 1" | "r = 2" | "r = 3"
    by linarith
  then show ?thesis
    by cases (simp_all add: pad4_def n algebra_simps, presburger+)
qed

lemma tok_raw_min: "4 \<le> length (tok_raw t)"
  by (cases t) simp_all

lemma tok_size_raw: "tok_size t = (length (tok_raw t) + 3) div 4 * 4"
  by (simp add: tok_size_def tok_bytes_def length_pad4)

lemma tok_size_props: "4 dvd tok_size t" "length (tok_raw t) \<le> tok_size t" "4 \<le> tok_size t"
  using tok_raw_min [of t] unfolding tok_size_raw by presburger+

lemma toks_size_simps [simp]: "toks_size [] = 0" "toks_size (t # ts) = tok_size t + toks_size ts" "toks_size (ts @ us) = toks_size ts + toks_size us"
  by (simp_all add: toks_size_def)

lemma length_concat_toks: "length (concat (map tok_bytes ts)) = toks_size ts"
  by (induction ts) (simp_all add: tok_size_def)

lemma toks_size_dvd: "4 dvd toks_size ts"
  by (induction ts) (simp_all add: tok_size_props)

lemma fdt32_bytes:
  assumes "bytes_at m p 4 = be32_bytes x"
  shows "fdt32_to_cpu m p = x"
proof -
  have "m p = ucast (drop_bit 24 x)" "m (p + 1) = ucast (drop_bit 16 x)" "m (p + 2) = ucast (drop_bit 8 x)" "m (p + 3) = ucast x"
    using assms by (simp_all add: be32_bytes_def bytes_at_Suc numeral_eq_Suc ac_simps)
  moreover have "bit y n \<longleftrightarrow> bit x n"
    if y: "y = push_bit 24 (ucast (ucast (drop_bit 24 x) :: u8)) OR push_bit 16 (ucast (ucast (drop_bit 16 x) :: u8))
        OR push_bit 8 (ucast (ucast (drop_bit 8 x) :: u8)) OR (ucast (ucast x :: u8) :: u32)" and n: "n < 32" for y n
  proof -
    have "n < 8 \<or> 8 \<le> n \<and> n < 16 \<or> 16 \<le> n \<and> n < 24 \<or> 24 \<le> n"
      by linarith
    then show ?thesis
      using n unfolding y by (elim disjE) (auto simp: bit_or_iff bit_push_bit_iff bit_ucast_iff bit_drop_bit_eq)
  qed
  ultimately show ?thesis
    unfolding fdt32_to_cpu_def by (intro bit_word_eqI) simp
qed

text \<open>Addresses of the tokens.\<close>

lemma offset_ptr_base: "offset_ptr m fdt (int k) = struct_base m fdt + of_nat k"
  by (simp add: offset_ptr_def struct_base_def)

lemma fdt_offset_ptr_in:
  assumes "block_ok m fdt ts" and "k + n \<le> toks_size ts"
  shows "fdt_offset_ptr m fdt (int k) (of_nat n) = struct_base m fdt + of_nat k" and "struct_base m fdt + of_nat k \<noteq> 0"
proof -
  let ?b = "struct_base m fdt"
  have t: "toks_size ts < 2 ^ 31" "unat ?b + toks_size ts < 2 ^ 64" "?b \<noteq> 0"
    using assms(1) by (simp_all add: block_ok_def)
  have u: "unat (of_nat k :: u32) = k" "unat (of_nat k + of_nat n :: u32) = k + n"
    using t(1) assms(2) unat_of_nat [of "k + n", where ?'a = 32] by (simp_all add: unat_of_nat take_bit_nat_eq_self)
  have b: "unat (?b + of_nat k) = unat ?b + k" "unat (?b + of_nat k + ucast (of_nat n :: u32)) = unat ?b + k + n"
  proof -
    have "unat (ucast (of_nat n :: u32) :: u64) = n"
      using t(1) assms(2) by (simp add: unsigned_ucast_eq unat_of_nat take_bit_nat_eq_self)
    moreover show "unat (?b + of_nat k) = unat ?b + k"
      using t assms(2) by (subst unat_word_ariths(1)) simp
    ultimately show "unat (?b + of_nat k + ucast (of_nat n :: u32)) = unat ?b + k + n"
      using t(2) assms(2) by (subst unat_word_ariths(1)) simp
  qed
  then show "?b + of_nat k \<noteq> 0"
    using t(3) by (metis add_is_0 unat_0 unat_eq_zero)
  have "\<not> ?b + of_nat k + ucast (of_nat n :: u32) < ?b + of_nat k"
    using b by (simp add: word_less_nat_alt)
  moreover have "\<not> (of_nat k + of_nat n < (of_nat k :: u32))"
    using u by (simp add: word_less_nat_alt)
  moreover have "\<not> of_nat k + of_nat n > fdt_get_header m fdt Size_dt_struct" if "fdt_get_header m fdt Version \<ge> 0x11"
    using u assms that by (simp add: word_less_nat_alt block_ok_def)
  ultimately show "fdt_offset_ptr m fdt (int k) (of_nat n) = ?b + of_nat k"
    by (auto simp: fdt_offset_ptr_def offset_ptr_base Let_def)
qed

section \<open>The next token\<close>

lemma s32_small: "0 \<le> x \<Longrightarrow> x < 2 ^ 31 \<Longrightarrow> s32 x = x"
  unfolding s32_def by (rule signed_take_bit_int_eq_self) simp_all

lemma FDT_TAGALIGN_int:
  assumes "x + 3 < 2 ^ 31"
  shows "FDT_TAGALIGN (int x) = int ((x + 3) div 4 * 4)"
proof -
  have "(int x + 3) AND NOT 3 = (int x + 3) AND NOT (mask 2)"
    by (simp add: mask_eq_exp_minus_1)
  also have "\<dots> = push_bit 2 (drop_bit 2 (int x + 3))"
    by (rule bit_eqI) (auto simp: bit_and_iff bit_not_iff bit_mask_iff bit_push_bit_iff bit_drop_bit_eq not_less simp flip: add_2_eq_Suc)
  also have "\<dots> = int ((x + 3) div 4 * 4)"
    by (simp add: push_bit_eq_mult drop_bit_eq_div zdiv_int)
  finally show ?thesis
    using assms by (simp add: FDT_TAGALIGN_def s32_small add.commute)
qed

lemma token_at:
  assumes "block_ok m fdt (pre @ t # post)"
  shows "bytes_at m (struct_base m fdt + of_nat (toks_size pre)) (length (tok_raw t)) = tok_raw t"
proof -
  have "bytes_at m (struct_base m fdt) (toks_size pre + (tok_size t + toks_size post)) = concat (map tok_bytes pre) @ tok_bytes t @ concat (map tok_bytes post)"
    using assms by (simp add: block_ok_def)
  then have "bytes_at m (struct_base m fdt + of_nat (toks_size pre)) (tok_size t) = tok_bytes t"
    unfolding bytes_at_add by (simp add: length_concat_toks tok_size_def)
  then show ?thesis
    unfolding tok_size_def tok_bytes_def pad4_def by (rule bytes_at_append(1))
qed

lemma skip_name_at:
  assumes "block_ok m fdt ts" and "bytes_at m (struct_base m fdt + of_nat k) (Suc (length s)) = s @ [0]" and "0 \<notin> set s" and "k + length s + 1 \<le> toks_size ts"
  shows "skip_name m fdt (int k) = Some (struct_base m fdt + of_nat (k + length s), int (k + length s + 1))"
  using assms(2-)
proof (induction s arbitrary: k)
  case Nil
  have "toks_size ts < 2 ^ 31"
    using assms(1) by (simp add: block_ok_def)
  then have "s32 (int k + 1) = int k + 1"
    using Nil by (simp add: s32_small)
  then show ?case
    using Nil fdt_offset_ptr_in(1) [OF assms(1), of k 1] by (subst skip_name.simps) (simp add: Let_def bytes_at_Suc)
next
  case (Cons c s)
  have "toks_size ts < 2 ^ 31"
    using assms(1) by (simp add: block_ok_def)
  then have "s32 (int k + 1) = int (Suc k)"
    using Cons.prems by (simp add: s32_small)
  moreover have "bytes_at m (struct_base m fdt + of_nat (Suc k)) (Suc (length s)) = s @ [0]"
    using Cons.prems by (simp add: bytes_at_Suc ac_simps)
  then have "skip_name m fdt (int (Suc k)) = Some (struct_base m fdt + of_nat (Suc k + length s), int (Suc k + length s + 1))"
    using Cons.prems by (intro Cons.IH) simp_all
  moreover have "m (struct_base m fdt + of_nat k) \<noteq> 0"
    using Cons.prems by (auto simp: bytes_at_Suc)
  ultimately show ?case
    using Cons.prems fdt_offset_ptr_in [OF assms(1), of k 1] by (subst skip_name.simps) (simp add: Let_def)
qed

lemma tag_end_at:
  assumes "block_ok m fdt (pre @ t # post)" and "k = toks_size pre"
  shows "tag_end m fdt (tok_tag t) (int (k + 4)) = Some (Some (int (k + length (tok_raw t))))"
proof -
  let ?b = "struct_base m fdt" and ?ts = "pre @ t # post"
  have sz: "k + length (tok_raw t) \<le> toks_size ?ts" "toks_size ?ts < 2 ^ 31"
    using assms tok_size_props(2) [of t] by (simp_all add: block_ok_def)
  have raw: "bytes_at m (?b + of_nat k) (length (tok_raw t)) = tok_raw t"
    using token_at [OF assms(1)] assms(2) by simp
  show ?thesis
  proof (cases t)
    case (T_begin s)
    have "bytes_at m (?b + of_nat (k + 4)) (Suc (length s)) = s @ [0]"
      using bytes_at_append(2) [of m "?b + of_nat k" "be32_bytes FDT_BEGIN_NODE" "s @ [0]"] raw by (simp add: T_begin add.assoc)
    moreover have "0 \<notin> set s"
      using assms(1) by (simp add: block_ok_def T_begin)
    ultimately have "skip_name m fdt (int (k + 4)) = Some (?b + of_nat (k + 4 + length s), int (k + 4 + length s + 1))"
      using sz(1) by (intro skip_name_at [OF assms(1)]) (simp_all add: T_begin)
    then show ?thesis
      using fdt_offset_ptr_in(2) [OF assms(1), of "k + 4 + length s" 0] sz(1) by (simp add: tag_end_def T_begin)
  next
    case (T_prop n d)
    have "bytes_at m (?b + of_nat (k + 4)) 4 = be32_bytes (of_nat (length d))"
      using bytes_at_append(2) [of m "?b + of_nat k" "be32_bytes FDT_PROP" "be32_bytes (of_nat (length d)) @ be32_bytes n @ d"]
        bytes_at_append(1) [of m "?b + of_nat (k + 4)" "be32_bytes (of_nat (length d))" "be32_bytes n @ d"] raw by (simp add: T_prop add.assoc)
    then have "fdt32_to_cpu m (?b + of_nat (k + 4)) = of_nat (length d)"
      by (rule fdt32_bytes)
    moreover have "uint (of_nat (length d) :: u32) = int (length d)"
      using sz by (simp add: T_prop uint_word_of_int unsigned_of_nat take_bit_nat_eq_self)
    moreover have "s32 (int (k + 4) + (8 + int (length d))) = int (k + 12 + length d)"
      using sz by (subst s32_small) (simp_all add: T_prop)
    ultimately show ?thesis
      using fdt_offset_ptr_in [OF assms(1), of "k + 4" 4] sz(1) by (simp add: tag_end_def T_prop FDT_PROP_def FDT_BEGIN_NODE_def)
  qed (simp_all add: tag_end_def FDT_PROP_def FDT_BEGIN_NODE_def FDT_END_NODE_def FDT_NOP_def FDT_END_def)
qed

theorem fdt_next_tag_at:
  assumes "block_ok m fdt (pre @ t # post)" and "k = toks_size pre"
  shows "fdt_next_tag m fdt (int k) = Some (tok_tag t, int (k + tok_size t))"
proof -
  let ?b = "struct_base m fdt" and ?r = "length (tok_raw t)"
  have sz: "k + ?r \<le> toks_size (pre @ t # post)" "toks_size (pre @ t # post) < 2 ^ 31" "k + tok_size t \<le> toks_size (pre @ t # post)" "4 \<le> ?r"
    using assms tok_size_props(2) [of t] tok_raw_min by (simp_all add: block_ok_def)
  obtain ys where "tok_raw t = be32_bytes (tok_tag t) @ ys"
    by (cases t) auto
  then have "bytes_at m (?b + of_nat k) 4 = be32_bytes (tok_tag t)"
    using token_at [OF assms(1)] bytes_at_append(1) [of m "?b + of_nat k" "be32_bytes (tok_tag t)" ys] assms(2) by simp
  then have tag: "fdt32_to_cpu m (?b + of_nat k) = tok_tag t"
    by (rule fdt32_bytes)
  have "toks_size (pre @ t # post) + 4 \<le> 2 ^ 31"
    using sz(2) toks_size_dvd [of "pre @ t # post"] by (elim dvdE) simp
  then have "FDT_TAGALIGN (int (k + ?r)) = int ((k + ?r + 3) div 4 * 4)"
    using sz(1) by (intro FDT_TAGALIGN_int) linarith
  also have "(k + ?r + 3) div 4 * 4 = k + tok_size t"
    using toks_size_dvd [of pre] unfolding tok_size_raw assms(2) by presburger
  finally have al: "FDT_TAGALIGN (int (k + ?r)) = int (k + tok_size t)" .
  have "of_int (int (k + ?r) - int k) = (of_nat ?r :: u32)"
    by simp
  then show ?thesis
    using tag_end_at [OF assms] al tag fdt_offset_ptr_in [OF assms(1), of k 4] fdt_offset_ptr_in [OF assms(1), of k ?r] sz
    by (simp add: fdt_next_tag_def Let_def s32_small)
qed

section \<open>Walking over the tokens\<close>

lemmas tag_defs = FDT_BEGIN_NODE_def FDT_END_NODE_def FDT_PROP_def FDT_NOP_def FDT_END_def

lemma check_tag_at:
  assumes "block_ok m fdt (pre @ t # post)"
  shows "check_tag_offset m fdt tag (int (toks_size pre)) = Some (if tok_tag t = tag then int (toks_size pre + tok_size t) else - FDT_ERR BADOFFSET)"
proof -
  have "int (toks_size pre) mod 4 = 0"
    using toks_size_dvd [of pre] by (simp flip: zmod_int add: mod_eq_0_iff_dvd) presburger
  then show ?thesis
    using fdt_next_tag_at [OF assms refl] by (simp add: check_tag_offset_def)
qed

text \<open>What the loop of \<open>fdt_next_node\<close> finds from a token list on that begins at the offset \<open>k\<close>.\<close>

fun next_begin :: "token list \<Rightarrow> nat \<Rightarrow> int option \<Rightarrow> int \<times> int option" where
  "next_begin [] k d = (- FDT_ERR NOTFOUND, d)"
| "next_begin (T_begin s # ts) k d = (int k, map_option (\<lambda>d. d + 1) d)"
| "next_begin (T_end_node # ts) k d =
     (case d of
        None \<Rightarrow> next_begin ts (k + tok_size T_end_node) None
      | Some i \<Rightarrow> if i < 1 then (int (k + tok_size T_end_node), Some (i - 1)) else next_begin ts (k + tok_size T_end_node) (Some (i - 1)))"
| "next_begin (T_end # ts) k d = (- FDT_ERR NOTFOUND, d)"
| "next_begin (T_prop n x # ts) k d = next_begin ts (k + tok_size (T_prop n x)) d"
| "next_begin (T_nop # ts) k d = next_begin ts (k + tok_size T_nop) d"

lemma next_node_loop_at:
  assumes "block_ok m fdt (pre @ ts)" and "T_end \<in> set ts" and "k = toks_size pre"
  shows "next_node_loop m fdt (int k) d = Some (next_begin ts k d)"
  using assms
proof (induction ts arbitrary: pre k d)
  case (Cons t ts)
  have tag: "fdt_next_tag m fdt (int k) = Some (tok_tag t, int (k + tok_size t))"
    using Cons.prems by (intro fdt_next_tag_at) auto
  have IH: "next_node_loop m fdt (int (k + tok_size t)) d' = Some (next_begin ts (k + tok_size t) d')" if "t \<noteq> T_end" for d'
    using Cons.prems that by (intro Cons.IH [of "pre @ [t]"]) auto
  show ?case
    by (cases t; subst next_node_loop.simps)
      (use tag IH in \<open>auto simp: tag_defs simp del: of_nat_add split: option.split\<close>)
qed simp

lemma fdt_next_node_at:
  assumes "block_ok m fdt (pre @ T_begin s # ts)" and "T_end \<in> set ts" and "k = toks_size pre"
  shows "fdt_next_node m fdt (int k) d = Some (next_begin ts (k + tok_size (T_begin s)) d)"
proof -
  have "check_node_offset m fdt (int k) = Some (int (k + tok_size (T_begin s)))"
    using check_tag_at [OF assms(1), of FDT_BEGIN_NODE] by (simp add: check_node_offset_def assms(3))
  moreover have "next_node_loop m fdt (int (k + tok_size (T_begin s))) d = Some (next_begin ts (k + tok_size (T_begin s)) d)"
    using assms by (intro next_node_loop_at [of _ _ "pre @ [T_begin s]"]) auto
  ultimately show ?thesis
    by (simp add: fdt_next_node_def del: of_nat_add)
qed

lemma fdt_next_node_first:
  assumes "block_ok m fdt ts" and "T_end \<in> set ts"
  shows "fdt_next_node m fdt (- 1) d = Some (next_begin ts 0 d)"
  using next_node_loop_at [of m fdt "[]" ts 0 d] assms by (simp add: fdt_next_node_def)

text \<open>Without a depth the loop goes through all nodes.\<close>

fun begins :: "token list \<Rightarrow> nat \<Rightarrow> nat list" where
  "begins [] k = []"
| "begins (T_begin s # ts) k = k # begins ts (k + tok_size (T_begin s))"
| "begins (T_end # ts) k = []"
| "begins (t # ts) k = begins ts (k + tok_size t)"

lemma next_begin_None: "next_begin ts k None = (case begins ts k of [] \<Rightarrow> (- FDT_ERR NOTFOUND, None) | b # bs \<Rightarrow> (int b, None))"
  by (induction ts k rule: begins.induct) auto

lemma begins_append: "T_end \<notin> set ts \<Longrightarrow> begins (ts @ us) k = begins ts k @ begins us (k + toks_size ts)"
  by (induction ts k rule: begins.induct) (auto simp: add.assoc)

end
