(* ===== verification/Fdt_Tree.thy ===== *)
theory Fdt_Tree
  imports Fdt_Tokens
begin

text \<open>
  Device trees and their flattened form. A node has a name, properties and subnodes; \<open>flat\<close> is its token list and \<open>place\<close> lists the nodes
  in the order of the blob with their offsets and depths. The names of properties are in the strings block, at the offsets that \<open>so\<close> gives.
  \<open>fdt_holds\<close> says that a blob holds a tree, and then the functions of \<^verbatim>\<open>fdt_ro.c\<close> are operations on the tree.
\<close>

section \<open>Trees\<close>

datatype dt_node = Node (dt_name: "u8 list") (dt_props: "(u8 list \<times> u8 list) list") (dt_subs: "dt_node list")

type_synonym string_table = "u8 list \<Rightarrow> u32"

definition prop_tok :: "string_table \<Rightarrow> u8 list \<times> u8 list \<Rightarrow> token" where
  "prop_tok so p = T_prop (so (fst p)) (snd p)"

primrec flat :: "string_table \<Rightarrow> dt_node \<Rightarrow> token list" where
  "flat so (Node s ps cs) = T_begin s # map (prop_tok so) ps @ concat (map (flat so) cs) @ [T_end_node]"

definition flats :: "string_table \<Rightarrow> dt_node list \<Rightarrow> token list" where
  "flats so cs = concat (map (flat so) cs)"

text \<open>The size of a node up to its first subnode, and its whole size.\<close>

definition head_size :: "string_table \<Rightarrow> dt_node \<Rightarrow> nat" where
  "head_size so n = tok_size (T_begin (dt_name n)) + toks_size (map (prop_tok so) (dt_props n))"

definition node_size :: "string_table \<Rightarrow> dt_node \<Rightarrow> nat" where
  "node_size so n = toks_size (flat so n)"

fun place :: "string_table \<Rightarrow> nat \<Rightarrow> nat \<Rightarrow> dt_node \<Rightarrow> (nat \<times> nat \<times> dt_node) list"
  and places :: "string_table \<Rightarrow> nat \<Rightarrow> nat \<Rightarrow> dt_node list \<Rightarrow> (nat \<times> nat \<times> dt_node) list" where
  "place so k d (Node s ps cs) = (k, d, Node s ps cs) # places so (k + head_size so (Node s ps cs)) (Suc d) cs"
| "places so k d [] = []"
| "places so k d (c # cs) = place so k d c @ places so (k + node_size so c) d cs"

text \<open>The subnodes of a node with their offsets.\<close>

primrec subs_at :: "string_table \<Rightarrow> nat \<Rightarrow> dt_node list \<Rightarrow> (nat \<times> dt_node) list" where
  "subs_at so k [] = []"
| "subs_at so k (c # cs) = (k, c) # subs_at so (k + node_size so c) cs"

definition subnodes_at :: "string_table \<Rightarrow> nat \<Rightarrow> dt_node \<Rightarrow> (nat \<times> dt_node) list" where
  "subnodes_at so k n = subs_at so (k + head_size so n) (dt_subs n)"

primrec prop_names :: "dt_node \<Rightarrow> u8 list list" where
  "prop_names (Node s ps cs) = map fst ps @ concat (map prop_names cs)"

definition fdt_holds :: "mem \<Rightarrow> u64 \<Rightarrow> string_table \<Rightarrow> dt_node \<Rightarrow> bool" where
  "fdt_holds m fdt so root \<longleftrightarrow> block_ok m fdt (flat so root @ [T_end])
     \<and> (\<forall>n \<in> set (prop_names root). cstr m (fdt_string m fdt (s32 (uint (so n)))) n)"

lemma flat_Node: "flat so (Node s ps cs) = T_begin s # map (prop_tok so) ps @ flats so cs @ [T_end_node]"
  by (simp add: flats_def)

lemma flats_simps [simp]: "flats so [] = []" "flats so (c # cs) = flat so c @ flats so cs"
  by (simp_all add: flats_def)

declare flat.simps [simp del]

lemma node_size_Node: "node_size so (Node s ps cs) = head_size so (Node s ps cs) + toks_size (flats so cs) + tok_size T_end_node"
  by (simp add: node_size_def head_size_def flat_Node)

lemma flat_no_end: "T_end \<notin> set (flat so n)"
  by (induction n) (auto simp: flat_Node flats_def prop_tok_def)

text \<open>Where a node stands in the token list of the tree.\<close>

lemma place_split:
  "(k', d', n) \<in> set (place so k d root) \<Longrightarrow> \<exists>pre post. flat so root = pre @ flat so n @ post \<and> k' = k + toks_size pre \<and> d \<le> d'"
  "(k', d', n) \<in> set (places so k d cs) \<Longrightarrow> \<exists>pre post. flats so cs = pre @ flat so n @ post \<and> k' = k + toks_size pre \<and> d \<le> d'"
proof (induction so k d root and so k d cs arbitrary: k' d' n and k' d' n rule: place_places.induct)
  case (1 so k d s ps cs)
  show ?case
  proof (cases "(k', d', n) \<in> set (places so (k + head_size so (Node s ps cs)) (Suc d) cs)")
    case True
    then obtain pre post where "flats so cs = pre @ flat so n @ post" "k' = k + head_size so (Node s ps cs) + toks_size pre" "Suc d \<le> d'"
      using 1 by blast
    then show ?thesis
      by (intro exI [of _ "T_begin s # map (prop_tok so) ps @ pre"] exI [of _ "post @ [T_end_node]"]) (simp add: flat_Node head_size_def)
  next
    case False
    then show ?thesis
      using 1 by (intro exI [of _ "[]"]) auto
  qed
next
  case (3 so k d c cs)
  then consider "(k', d', n) \<in> set (place so k d c)" | "(k', d', n) \<in> set (places so (k + node_size so c) d cs)"
    by auto
  then show ?case
  proof cases
    case 1
    then obtain pre post where "flat so c = pre @ flat so n @ post" "k' = k + toks_size pre" "d \<le> d'"
      using 3(1) by blast
    then show ?thesis
      by (intro exI [of _ pre] exI [of _ "post @ flats so cs"]) simp
  next
    case 2
    then obtain pre post where "flats so cs = pre @ flat so n @ post" "k' = k + node_size so c + toks_size pre" "d \<le> d'"
      using 3(2) by blast
    then show ?thesis
      by (intro exI [of _ "flat so c @ pre"] exI [of _ post]) (simp add: node_size_def)
  qed
qed simp

lemma place_names: "(k', d', n) \<in> set (place so k d root) \<Longrightarrow> set (prop_names n) \<subseteq> set (prop_names root)"
  "(k', d', n) \<in> set (places so k d cs) \<Longrightarrow> set (prop_names n) \<subseteq> set (concat (map prop_names cs))"
  by (induction so k d root and so k d cs arbitrary: k' d' n and k' d' n rule: place_places.induct) fastforce+

text \<open>The nodes of the tree are the begin tokens of its token list.\<close>

lemma begins_place:
  "begins (flat so root) k = map fst (place so k d root)"
  "begins (flats so cs) k = map fst (places so k d cs)"
proof (induction so k d root and so k d cs rule: place_places.induct)
  case (1 so k d s ps cs)
  have "begins (map (prop_tok so) ps @ ts) k' = begins ts (k' + toks_size (map (prop_tok so) ps))" for ts k'
    by (induction ps arbitrary: k') (simp_all add: prop_tok_def add.assoc)
  moreover have "T_end \<notin> set (flats so cs)"
    using flat_no_end by (auto simp: flats_def)
  ultimately show ?case
    using 1 by (simp add: flat_Node begins_append head_size_def add.assoc)
next
  case (3 so k d c cs)
  then show ?case
    using flat_no_end by (simp add: begins_append node_size_def)
qed simp

section \<open>Properties of a node\<close>

lemma string_eq_cstr:
  assumes "cstr m (fdt_string m fdt o') n" and "length s < 2 ^ 64"
  shows "string_eq m fdt o' s = Some (n = s)"
proof -
  have "length n = length s" if "of_nat (length n) = (of_nat (length s) :: u64)"
    using arg_cong [OF that, of unat] unfolding unat_of_nat_u64 [OF cstr_length [OF assms(1)]] unat_of_nat_u64 [OF assms(2)] .
  then have "of_nat (length n) = (of_nat (length s) :: u64) \<and> bytes_at m (fdt_string m fdt o') (length s) = s \<longleftrightarrow> n = s"
    using bytes_at_cstr [OF assms(1)] by metis
  then show ?thesis
    by (simp only: string_eq_def Let_def strlen_cstr [OF assms(1)] bind.bind_lunit)
qed

lemma prop_at:
  assumes "block_ok m fdt (pre @ prop_tok so p # post)" and "k = toks_size pre"
  shows "fdt_get_property_by_offset m fdt (int k) = Some (struct_base m fdt + of_nat k, int (length (snd p)))"
    and "prop_nameoff m (struct_base m fdt + of_nat k) = s32 (uint (so (fst p)))"
    and "bytes_at m (prop_data (struct_base m fdt + of_nat k)) (length (snd p)) = snd p"
    and "struct_base m fdt + of_nat k \<noteq> 0" and "prop_data (struct_base m fdt + of_nat k) \<noteq> 0"
    and "unat (prop_data (struct_base m fdt + of_nat k)) + length (snd p) < 2 ^ 64"
proof -
  let ?p = "struct_base m fdt + of_nat k"
  have raw: "bytes_at m ?p (4 + (4 + (4 + length (snd p)))) = be32_bytes FDT_PROP @ be32_bytes (of_nat (length (snd p))) @ be32_bytes (so (fst p)) @ snd p"
    using token_at [OF assms(1)] by (simp add: prop_tok_def assms(2) numeral_eq_Suc)
  then have b: "bytes_at m (?p + 4) 4 = be32_bytes (of_nat (length (snd p)))" "bytes_at m (?p + 8) 4 = be32_bytes (so (fst p))"
      and d: "bytes_at m (?p + 12) (length (snd p)) = snd p"
    unfolding bytes_at_add by (simp_all add: add.assoc)
  have sz: "k + (12 + length (snd p)) \<le> toks_size (pre @ prop_tok so p # post)" "toks_size (pre @ prop_tok so p # post) < 2 ^ 31"
    using assms tok_size_props(2) [of "prop_tok so p"] by (simp_all add: prop_tok_def block_ok_def)
  then have "s32 (uint (of_nat (length (snd p)) :: u32)) = int (length (snd p))"
    by (simp add: unsigned_of_nat take_bit_nat_eq_self s32_small)
  moreover have "check_prop_offset m fdt (int k) = Some (int (k + tok_size (prop_tok so p)))"
    using check_tag_at [OF assms(1), of FDT_PROP] by (simp add: check_prop_offset_def assms(2) prop_tok_def)
  ultimately show "fdt_get_property_by_offset m fdt (int k) = Some (?p, int (length (snd p)))"
    by (simp add: fdt_get_property_by_offset_def Let_def offset_ptr_base fdt32_bytes [OF b(1)] del: of_nat_add)
  show "prop_nameoff m ?p = s32 (uint (so (fst p)))"
    by (simp add: prop_nameoff_def fdt32_bytes [OF b(2)])
  show "bytes_at m (prop_data ?p) (length (snd p)) = snd p"
    using d by (simp add: prop_data_def)
  show "?p \<noteq> 0" "prop_data ?p \<noteq> 0"
    using fdt_offset_ptr_in(2) [OF assms(1), of k 0] fdt_offset_ptr_in(2) [OF assms(1), of "k + 12" 0] sz(1) by (simp_all add: prop_data_def add.assoc)
  have "unat (struct_base m fdt + of_nat (k + 12)) = unat (struct_base m fdt) + (k + 12)"
    using assms(1) sz by (subst unat_word_ariths(1)) (simp add: block_ok_def del: of_nat_add)
  then show "unat (prop_data ?p) + length (snd p) < 2 ^ 64"
    using assms(1) sz by (simp add: prop_data_def block_ok_def add.assoc)
qed

text \<open>The search through the properties \<open>ps\<close>, which begin at the offset \<open>k\<close>.\<close>

primrec find_prop :: "string_table \<Rightarrow> u64 \<Rightarrow> nat \<Rightarrow> u8 list \<Rightarrow> (u8 list \<times> u8 list) list \<Rightarrow> u64 \<times> int" where
  "find_prop so b k name [] = (0, - FDT_ERR NOTFOUND)"
| "find_prop so b k name (p # ps) =
     (if fst p = name then (b + of_nat k, int (length (snd p))) else find_prop so b (k + tok_size (prop_tok so p)) name ps)"

lemma nextprop_at:
  assumes "block_ok m fdt (pre @ t # post)" and "k = toks_size pre"
  shows "nextprop m fdt (int k) =
    (case t of T_prop n d \<Rightarrow> Some (int k) | T_nop \<Rightarrow> nextprop m fdt (int (k + tok_size t)) | T_end \<Rightarrow> Some (- FDT_ERR BADSTRUCTURE) | _ \<Rightarrow> Some (- FDT_ERR NOTFOUND))"
  using fdt_next_tag_at [OF assms] by (subst nextprop.simps) (auto simp: tag_defs simp del: of_nat_add split: token.split)

lemma get_property_loop_at:
  assumes "block_ok m fdt (pre @ map (prop_tok so) ps @ t # post)" and "k = toks_size pre" and "t = T_end_node \<or> (\<exists>s. t = T_begin s)"
    and "\<And>n. n \<in> fst ` set ps \<Longrightarrow> cstr m (fdt_string m fdt (s32 (uint (so n)))) n" and "length name < 2 ^ 64"
  shows "do { offset \<leftarrow> nextprop m fdt (int k); get_property_loop m fdt name offset } = Some (find_prop so (struct_base m fdt) k name ps)"
  using assms(1,2,4)
proof (induction ps arbitrary: pre k)
  case Nil
  then have "nextprop m fdt (int k) = Some (- FDT_ERR NOTFOUND)"
    using assms(3) by (subst nextprop_at [of m fdt pre t post]) auto
  then show ?case
    by (subst get_property_loop.simps) simp
next
  case (Cons p ps)
  have b: "block_ok m fdt (pre @ prop_tok so p # map (prop_tok so) ps @ t # post)"
    using Cons.prems by simp
  have "nextprop m fdt (int k) = Some (int k)"
    by (subst nextprop_at [OF b Cons.prems(2)]) (simp add: prop_tok_def)
  moreover have "string_eq m fdt (s32 (uint (so (fst p)))) name = Some (fst p = name)"
    using Cons.prems(3) assms(5) by (intro string_eq_cstr) auto
  moreover have "fdt_next_property_offset m fdt (int k) = nextprop m fdt (int (k + tok_size (prop_tok so p)))"
    using check_tag_at [OF b, of FDT_PROP]
    by (simp add: fdt_next_property_offset_def check_prop_offset_def Cons.prems(2) prop_tok_def del: of_nat_add)
  moreover have "do { offset \<leftarrow> nextprop m fdt (int (k + tok_size (prop_tok so p))); get_property_loop m fdt name offset }
      = Some (find_prop so (struct_base m fdt) (k + tok_size (prop_tok so p)) name ps)"
    using Cons.prems by (intro Cons.IH [of "pre @ [prop_tok so p]"]) auto
  ultimately show ?case
    using prop_at [OF b Cons.prems(2)] by (simp add: get_property_loop.simps [of m fdt name "int k"] del: of_nat_add)
qed

text \<open>The context of a node in the tokens of the tree.\<close>

lemma node_tokens:
  assumes "fdt_holds m fdt so root" and "(k, d, Node s ps cs) \<in> set (place so 0 0 root)"
  obtains pre post where "block_ok m fdt (pre @ T_begin s # map (prop_tok so) ps @ flats so cs @ T_end_node # post @ [T_end])" and "k = toks_size pre"
    and "\<And>n. n \<in> fst ` set ps \<Longrightarrow> cstr m (fdt_string m fdt (s32 (uint (so n)))) n"
proof -
  obtain pre post where "flat so root = pre @ flat so (Node s ps cs) @ post" "k = toks_size pre"
    using place_split(1) [OF assms(2)] by auto
  moreover have "fst ` set ps \<subseteq> set (prop_names root)"
    using place_names(1) [OF assms(2)] by auto
  ultimately show thesis
    using assms(1) that [of pre post] by (auto simp: fdt_holds_def flat_Node)
qed

lemma get_property_at:
  assumes "fdt_holds m fdt so root" and "(k, d, n) \<in> set (place so 0 0 root)" and "length name < 2 ^ 64"
  shows "fdt_get_property_namelen m fdt (int k) name = Some (find_prop so (struct_base m fdt) (k + tok_size (T_begin (dt_name n))) name (dt_props n))"
proof -
  obtain s ps cs where n: "n = Node s ps cs"
    by (cases n)
  obtain pre post where b: "block_ok m fdt (pre @ T_begin s # map (prop_tok so) ps @ flats so cs @ T_end_node # post @ [T_end])" "k = toks_size pre"
      "\<And>n. n \<in> fst ` set ps \<Longrightarrow> cstr m (fdt_string m fdt (s32 (uint (so n)))) n"
    using node_tokens [OF assms(1), of k d s ps cs] assms(2) n by blast
  have "check_node_offset m fdt (int k) = Some (int (k + tok_size (T_begin s)))"
    using check_tag_at [OF b(1), of FDT_BEGIN_NODE] by (simp add: check_node_offset_def b(2))
  then have "fdt_first_property_offset m fdt (int k) = nextprop m fdt (int (k + tok_size (T_begin s)))"
    by (simp add: fdt_first_property_offset_def del: of_nat_add)
  moreover obtain t rest where "flats so cs @ T_end_node # post @ [T_end] = t # rest" "t = T_end_node \<or> (\<exists>s. t = T_begin s)"
  proof (cases cs)
    case (Cons c cs')
    then show thesis
      using that by (cases c) (auto simp: flat_Node)
  qed (use that in auto)
  ultimately show ?thesis
    using get_property_loop_at [of m fdt "pre @ [T_begin s]" so ps t rest "k + tok_size (T_begin s)" name] b assms(3)
    by (simp add: fdt_get_property_namelen_def n del: of_nat_add)
qed

lemma find_prop_at:
  assumes "block_ok m fdt (pre @ map (prop_tok so) ps @ post)" and "k = toks_size pre"
  shows "map_of ps name = None \<Longrightarrow> find_prop so (struct_base m fdt) k name ps = (0, - FDT_ERR NOTFOUND)"
    and "map_of ps name = Some x \<Longrightarrow> \<exists>p. find_prop so (struct_base m fdt) k name ps = (p, int (length x)) \<and> p \<noteq> 0 \<and> prop_data p \<noteq> 0
      \<and> bytes_at m (prop_data p) (length x) = x \<and> unat (prop_data p) + length x < 2 ^ 64"
proof -
  show "map_of ps name = None \<Longrightarrow> find_prop so (struct_base m fdt) k name ps = (0, - FDT_ERR NOTFOUND)"
    by (induction ps arbitrary: k) (auto split: if_splits)
  show "\<exists>p. find_prop so (struct_base m fdt) k name ps = (p, int (length x)) \<and> p \<noteq> 0 \<and> prop_data p \<noteq> 0 \<and> bytes_at m (prop_data p) (length x) = x
      \<and> unat (prop_data p) + length x < 2 ^ 64"
    if "map_of ps name = Some x"
    using assms that
  proof (induction ps arbitrary: pre k)
    case (Cons p ps)
    have b: "block_ok m fdt (pre @ prop_tok so p # map (prop_tok so) ps @ post)"
      using Cons.prems by simp
    show ?case
    proof (cases "fst p = name")
      case True
      then show ?thesis
        using prop_at [OF b Cons.prems(2)] Cons.prems(3) by (cases p) simp
    next
      case False
      then show ?thesis
        using Cons.IH [of "pre @ [prop_tok so p]" "k + tok_size (prop_tok so p)"] Cons.prems by (cases p) simp
    qed
  qed simp
qed

lemma property_at:
  assumes "fdt_holds m fdt so root" and "(k, d, n) \<in> set (place so 0 0 root)" and "length name < 2 ^ 64"
  shows "map_of (dt_props n) name = None \<Longrightarrow> fdt_get_property_namelen m fdt (int k) name = Some (0, - FDT_ERR NOTFOUND)"
    and "map_of (dt_props n) name = Some x \<Longrightarrow> \<exists>p. fdt_get_property_namelen m fdt (int k) name = Some (p, int (length x)) \<and> p \<noteq> 0 \<and> prop_data p \<noteq> 0
      \<and> bytes_at m (prop_data p) (length x) = x \<and> unat (prop_data p) + length x < 2 ^ 64"
proof -
  obtain s ps cs where n: "n = Node s ps cs"
    by (cases n)
  obtain pre post where b: "block_ok m fdt (pre @ T_begin s # map (prop_tok so) ps @ flats so cs @ T_end_node # post @ [T_end])" "k = toks_size pre"
    using node_tokens [OF assms(1), of k d s ps cs] assms(2) n by blast
  note f = find_prop_at [of m fdt "pre @ [T_begin s]" so ps "flats so cs @ T_end_node # post @ [T_end]" "k + tok_size (T_begin s)" name]
  show "map_of (dt_props n) name = None \<Longrightarrow> fdt_get_property_namelen m fdt (int k) name = Some (0, - FDT_ERR NOTFOUND)"
    using get_property_at [OF assms] f(1) b by (simp add: n)
  show "map_of (dt_props n) name = Some x \<Longrightarrow> \<exists>p. fdt_get_property_namelen m fdt (int k) name = Some (p, int (length x)) \<and> p \<noteq> 0 \<and> prop_data p \<noteq> 0
      \<and> bytes_at m (prop_data p) (length x) = x \<and> unat (prop_data p) + length x < 2 ^ 64"
    using get_property_at [OF assms] f(2) [of x] b by (simp add: n)
qed

lemma length_lit [simp]: "length (lit s) = length s"
  by (simp add: lit_def)

lemma getprop_at:
  assumes "fdt_holds m fdt so root" and "(k, d, n) \<in> set (place so 0 0 root)" and "length name < 2 ^ 64"
  shows "map_of (dt_props n) (lit name) = None \<Longrightarrow> fdt_getprop m fdt (int k) name = Some (0, - FDT_ERR NOTFOUND)"
    and "map_of (dt_props n) (lit name) = Some x \<Longrightarrow> \<exists>p. fdt_getprop m fdt (int k) name = Some (p, int (length x)) \<and> p \<noteq> 0 \<and> bytes_at m p (length x) = x
      \<and> unat p + length x < 2 ^ 64"
  using property_at [OF assms(1,2), of "lit name"] assms(3) by (auto simp: fdt_getprop_def fdt_getprop_namelen_def)

section \<open>From one node to the next\<close>

text \<open>The begin tokens with their offset and depth, and the depth at the end of a token list.\<close>

fun levels :: "token list \<Rightarrow> nat \<Rightarrow> int \<Rightarrow> (nat \<times> int) list" where
  "levels [] k l = []"
| "levels (T_begin s # ts) k l = (k, l) # levels ts (k + tok_size (T_begin s)) (l + 1)"
| "levels (T_end_node # ts) k l = levels ts (k + tok_size T_end_node) (l - 1)"
| "levels (t # ts) k l = levels ts (k + tok_size t) l"

fun tok_level :: "token \<Rightarrow> int" where
  "tok_level (T_begin s) = 1"
| "tok_level T_end_node = - 1"
| "tok_level _ = 0"

definition toks_level :: "token list \<Rightarrow> int" where
  "toks_level ts = sum_list (map tok_level ts)"

lemma toks_level_simps [simp]: "toks_level [] = 0" "toks_level (t # ts) = tok_level t + toks_level ts" "toks_level (ts @ us) = toks_level ts + toks_level us"
  by (simp_all add: toks_level_def)

lemma levels_append: "levels (ts @ us) k l = levels ts k l @ levels us (k + toks_size ts) (l + toks_level ts)"
  by (induction ts k l rule: levels.induct) (auto simp: add.assoc algebra_simps)

lemma toks_level_props [simp]: "toks_level (map (prop_tok so) ps) = 0"
  by (induction ps) (simp_all add: prop_tok_def)

lemma levels_props [simp]: "levels (map (prop_tok so) ps) k l = []"
  by (induction ps arbitrary: k) (simp_all add: prop_tok_def)

lemma toks_level_flat [simp]: "toks_level (flat so n) = 0"
proof (induction n)
  case (Node s ps cs)
  then have "toks_level (flats so cs) = 0"
    by (induction cs) simp_all
  then show ?case
    by (simp add: flat_Node)
qed

lemma toks_level_flats [simp]: "toks_level (flats so cs) = 0"
  by (induction cs) simp_all

lemma levels_place:
  "levels (flat so root) k (int d) = map (\<lambda>(k, d, n). (k, int d)) (place so k d root)"
  "levels (flats so cs) k (int d) = map (\<lambda>(k, d, n). (k, int d)) (places so k d cs)"
proof (induction so k d root and so k d cs rule: place_places.induct)
  case (1 so k d s ps cs)
  have "int d + 1 = int (Suc d)"
    by simp
  then show ?case
    using 1 by (simp only: flat_Node) (simp add: levels_append head_size_def ac_simps)
qed (simp_all add: levels_append node_size_def)

text \<open>\<open>next_begin\<close> with a depth \<open>e\<close>: it follows the levels, and stops early when the depth becomes negative.\<close>

lemma levels_first: "levels ts k l = (k', l') # r \<Longrightarrow> l' \<le> l"
  by (induction ts k l rule: levels.induct) auto

lemma next_begin_level:
  assumes "levels ts k l = (k', l') # r" and "T_end \<notin> set ts" and "0 \<le> e"
  shows "0 \<le> e + l' - l \<Longrightarrow> next_begin (ts @ us) k (Some e) = (int k', Some (e + l' - l + 1))"
    and "e + l' - l < 0 \<Longrightarrow> \<exists>x \<ge> 0. next_begin (ts @ us) k (Some e) = (x, Some (- 1))"
  using assms
proof (induction ts k l arbitrary: e rule: levels.induct)
  case (3 ts k l)
  {
    case 1
    then have "l' \<le> l - 1"
      using levels_first [of ts "k + tok_size T_end_node" "l - 1"] by simp
    with 1 "3.IH"(1) [of "e - 1"] show ?case
      by auto
  next
    case 2
    with "3.IH"(2) [of "e - 1"] show ?case
      by (cases "e < 1") auto
  }
qed auto

lemma next_begin_out:
  assumes "levels ts k l = []" and "T_end \<notin> set ts" and "0 \<le> e" and "e + toks_level ts < 0"
  shows "\<exists>x \<ge> 0. next_begin (ts @ us) k (Some e) = (x, Some (- 1))"
  using assms
proof (induction ts k l arbitrary: e rule: levels.induct)
  case (3 ts k l)
  then show ?case
    by (cases "e < 1") auto
qed auto

lemma levels_sorted: "sorted_wrt (<) (map fst (levels ts k l)) \<and> (\<forall>x \<in> set (levels ts k l). k \<le> fst x)"
proof (induction ts k l rule: levels.induct)
  case (2 s ts k l)
  then show ?case
    using tok_size_props(3) [of "T_begin s"] by fastforce
qed (use trans_le_add1 in \<open>auto intro: trans_le_add1 dest: add_leD1\<close>)

text \<open>The rest of the tokens after the begin of the \<open>i\<close>-th node has the rest of the nodes.\<close>

lemma nth_node_tokens:
  assumes "fdt_holds m fdt so root" and "i < length (place so 0 0 root)" and "place so 0 0 root ! i = (k, d, n)"
  obtains pre ts where "block_ok m fdt (pre @ T_begin (dt_name n) # ts @ [T_end])" and "k = toks_size pre" and "T_end \<notin> set ts"
    and "levels ts (k + tok_size (T_begin (dt_name n))) (int d + 1) = map (\<lambda>(k, d, n). (k, int d)) (drop (Suc i) (place so 0 0 root))"
    and "int d + 1 + toks_level ts = 0"
proof -
  let ?ns = "place so 0 0 root" and ?f = "\<lambda>(k :: nat, d :: nat, n :: dt_node). (k, int d)"
  obtain s ps cs where n: "n = Node s ps cs"
    by (cases n)
  obtain pre post where root: "flat so root = pre @ flat so n @ post" "k = toks_size pre"
    using place_split(1) [of k d n so 0 0 root] nth_mem [OF assms(2)] assms(3) by auto
  define ts where "ts = map (prop_tok so) ps @ flats so cs @ T_end_node # post"
  have flat: "flat so root = pre @ T_begin s # ts"
    by (simp add: root(1) n flat_Node ts_def)
  let ?ls = "levels (flat so root) 0 0"
  have ls: "?ls = map ?f ?ns"
    using levels_place(1) [of so root 0 0] by simp
  have l: "?ls = levels pre 0 0 @ (k, toks_level pre) # levels ts (k + tok_size (T_begin s)) (toks_level pre + 1)"
    by (simp add: flat levels_append root(2))
  have dist: "distinct (map fst ?ls)"
    using levels_sorted [of "flat so root" 0 0] strict_sorted_iff by blast
  have li: "i < length ?ls" "?ls ! i = (k, int d)"
    using assms(2,3) by (simp_all add: ls)
  have "map fst ?ls ! i = k" "map fst ?ls ! length (levels pre 0 0) = k"
    using li by simp (simp add: l nth_append)
  then have i: "i = length (levels pre 0 0)"
    using nth_eq_iff_index_eq [OF dist, of i "length (levels pre 0 0)"] li(1) by (simp add: l)
  then have d: "toks_level pre = int d"
    using li(2) unfolding l by simp
  have "drop (Suc i) ?ls = levels ts (k + tok_size (T_begin s)) (int d + 1)"
    using i d by (simp add: l)
  then have "levels ts (k + tok_size (T_begin s)) (int d + 1) = map ?f (drop (Suc i) ?ns)"
    by (simp add: ls drop_map)
  moreover have "int d + 1 + toks_level ts = 0"
    using toks_level_flat [of so root] d unfolding flat by simp
  moreover have "T_end \<notin> set ts"
    using flat_no_end [of so root] unfolding flat by auto
  ultimately show thesis
    using assms(1) root(2) that [of pre ts] by (simp add: fdt_holds_def flat n)
qed

lemma begins_levels: "T_end \<notin> set ts \<Longrightarrow> begins (ts @ [T_end]) k = map fst (levels ts k l)"
  by (induction ts k l rule: levels.induct) auto

lemma next_node_none:
  assumes "fdt_holds m fdt so root" and "i < length (place so 0 0 root)" and "place so 0 0 root ! i = (k, d, n)"
  shows "fdt_next_node m fdt (int k) None
    = Some (case drop (Suc i) (place so 0 0 root) of [] \<Rightarrow> (- FDT_ERR NOTFOUND, None) | (k', d', n') # r \<Rightarrow> (int k', None))"
proof -
  obtain pre ts where t: "block_ok m fdt (pre @ T_begin (dt_name n) # ts @ [T_end])" "k = toks_size pre" "T_end \<notin> set ts"
      "levels ts (k + tok_size (T_begin (dt_name n))) (int d + 1) = map (\<lambda>(k, d, n). (k, int d)) (drop (Suc i) (place so 0 0 root))"
    by (rule nth_node_tokens [OF assms], assumption)
  have "begins (ts @ [T_end]) (k + tok_size (T_begin (dt_name n))) = map fst (drop (Suc i) (place so 0 0 root))"
    unfolding begins_levels [OF t(3), of _ "int d + 1"] t(4) by (simp add: case_prod_beta comp_def)
  then show ?thesis
    using fdt_next_node_at [OF t(1) _ t(2), of None] by (simp add: next_begin_None case_prod_beta split: list.split)
qed

lemma next_node_some:
  assumes "fdt_holds m fdt so root" and "i < length (place so 0 0 root)" and "place so 0 0 root ! i = (k, d, n)" and "0 \<le> e"
  shows "drop (Suc i) (place so 0 0 root) = (k', d', n') # r \<Longrightarrow> int d + 1 \<le> e + int d'
      \<Longrightarrow> fdt_next_node m fdt (int k) (Some e) = Some (int k', Some (e + int d' - int d))"
    and "drop (Suc i) (place so 0 0 root) = (k', d', n') # r \<Longrightarrow> e + int d' < int d + 1 \<Longrightarrow> \<exists>x \<ge> 0. fdt_next_node m fdt (int k) (Some e) = Some (x, Some (- 1))"
    and "drop (Suc i) (place so 0 0 root) = [] \<Longrightarrow> e \<le> int d \<Longrightarrow> \<exists>x \<ge> 0. fdt_next_node m fdt (int k) (Some e) = Some (x, Some (- 1))"
proof -
  obtain pre ts where t: "block_ok m fdt (pre @ T_begin (dt_name n) # ts @ [T_end])" "k = toks_size pre" "T_end \<notin> set ts"
      "levels ts (k + tok_size (T_begin (dt_name n))) (int d + 1) = map (\<lambda>(k, d, n). (k, int d)) (drop (Suc i) (place so 0 0 root))"
      "int d + 1 + toks_level ts = 0"
    by (rule nth_node_tokens [OF assms(1-3)])
  have n: "fdt_next_node m fdt (int k) (Some e) = Some (next_begin (ts @ [T_end]) (k + tok_size (T_begin (dt_name n))) (Some e))"
    using fdt_next_node_at [OF t(1) _ t(2)] by simp
  show "fdt_next_node m fdt (int k) (Some e) = Some (int k', Some (e + int d' - int d))"
    if "drop (Suc i) (place so 0 0 root) = (k', d', n') # r" "int d + 1 \<le> e + int d'"
    unfolding n using next_begin_level(1) [OF _ t(3) assms(4), of _ "int d + 1" k' "int d'"] t(4) that by simp
  show "\<exists>x \<ge> 0. fdt_next_node m fdt (int k) (Some e) = Some (x, Some (- 1))"
    if "drop (Suc i) (place so 0 0 root) = (k', d', n') # r" "e + int d' < int d + 1"
    unfolding n using next_begin_level(2) [OF _ t(3) assms(4), of _ "int d + 1" k' "int d'"] t(4) that by simp
  show "\<exists>x \<ge> 0. fdt_next_node m fdt (int k) (Some e) = Some (x, Some (- 1))" if "drop (Suc i) (place so 0 0 root) = []" "e \<le> int d"
    unfolding n using next_begin_out [OF _ t(3) assms(4)] t(4,5) that by simp
qed

lemma next_node_start:
  assumes "fdt_holds m fdt so root"
  shows "fdt_next_node m fdt (- 1) None = Some (0, None)"
  using assms fdt_next_node_first [of m fdt "flat so root @ [T_end]" None] by (cases root) (simp add: fdt_holds_def flat_Node)

end
