(* ===== verification/Fdt_Find.thy ===== *)
theory Fdt_Find
  imports Fdt_Tree
begin

text \<open>
  Searching a blob that holds a tree: for the first node with a given property, and for the nodes that are compatible with a device.
\<close>

section \<open>Lists of strings\<close>

text \<open>The strings in the value of a property, each with a NUL at its end.\<close>

function strings :: "u8 list \<Rightarrow> u8 list list" where
  "strings d = (if d = [] then [] else takeWhile (\<lambda>c. c \<noteq> 0) d # strings (drop (Suc (length (takeWhile (\<lambda>c. c \<noteq> 0) d))) d))"
  by pat_completeness auto

termination
  by (relation "measure length") auto

declare strings.simps [simp del]

definition ends_in_nul :: "u8 list \<Rightarrow> bool" where
  "ends_in_nul d \<longleftrightarrow> d = [] \<or> last d = 0"

lemma strings_Cons: "0 \<notin> set s \<Longrightarrow> strings (s @ 0 # d) = s # strings d"
  by (subst strings.simps) (auto simp: takeWhile_append takeWhile_eq_all_conv)

lemma ends_in_nul_split:
  assumes "ends_in_nul d" and "d \<noteq> []"
  obtains s d' where "d = s @ 0 # d'" and "0 \<notin> set s" and "ends_in_nul d'"
proof -
  have "0 \<in> set d"
    using assms last_in_set by (fastforce simp: ends_in_nul_def)
  then obtain s d' where d: "d = s @ 0 # d'" "0 \<notin> set s"
    by (auto dest: split_list_first)
  moreover have "ends_in_nul d'"
    using assms(1) d(1) by (auto simp: ends_in_nul_def split: if_splits)
  ultimately show thesis
    by (rule that)
qed

lemma strings_length: "x \<in> set (strings d) \<Longrightarrow> length x \<le> length d"
proof (induction d rule: strings.induct)
  case (1 d)
  then show ?case
    using length_takeWhile_le [of _ d] by (subst (asm) (2) strings.simps) (auto split: if_splits)
qed

text \<open>The comparison of one string with the beginning of the list.\<close>

lemma first_string_eq:
  assumes "bytes_at m p (length (s @ 0 # d)) = s @ 0 # d" and "0 \<notin> set s" and "0 \<notin> set str"
  shows "bytes_at m p (length str + 1) = str @ [0] \<longleftrightarrow> str = s"
proof
  assume r: "bytes_at m p (length str + 1) = str @ [0]"
  have "m (p + of_nat i) = (str @ [0]) ! i" if "i \<le> length str" for i
    using bytes_at_nth [OF r, of i] that by simp
  moreover have l: "m (p + of_nat i) = (s @ 0 # d) ! i" if "i \<le> length s" for i
    using bytes_at_nth [OF assms(1), of i] that by simp
  ultimately have e: "(str @ [0]) ! i = (s @ 0 # d) ! i" if "i \<le> length str" "i \<le> length s" for i
    using that by metis
  then have "length str = length s"
    using e [of "length str"] e [of "length s"] assms(2,3) by (cases "length str" "length s" rule: linorder_cases) (auto simp: nth_append in_set_conv_nth)
  then show "str = s"
    using e by (intro nth_equalityI) (auto simp: nth_append, metis less_imp_le)
next
  assume "str = s"
  then show "bytes_at m p (length str + 1) = str @ [0]"
    using bytes_at_append(1) [of m p "s @ [0]" d] assms(1) by simp
qed

lemma memchr_loop_at:
  assumes "bytes_at m p (length s) = s" and "c \<notin> set s" and "m (p + of_nat (length s)) = c" and "length s < n"
  shows "memchr_loop m p c n = p + of_nat (length s)"
  using assms
proof (induction s arbitrary: p n)
  case (Cons x s)
  then show ?case
    by (cases n) (auto simp: bytes_at_Suc ac_simps)
qed (auto simp: gr0_conv_Suc)

lemma stringlist_contains_at:
  assumes "bytes_at m p (length d) = d" and "ends_in_nul d" and "0 \<notin> set str" and "str \<noteq> []" and "p \<noteq> 0" and "unat p + length d < 2 ^ 64"
  shows "fdt_stringlist_contains m p (int (length d)) str = Some (str \<in> set (strings d))"
  using assms(1,2,5,6)
proof (induction "length d" arbitrary: d p rule: less_induct)
  case less
  show ?case
  proof (cases "d = []")
    case True
    then show ?thesis
      using assms(4) by (subst fdt_stringlist_contains.simps) (simp add: strings.simps)
  next
    case False
    then obtain s d' where d: "d = s @ 0 # d'" "0 \<notin> set s" "ends_in_nul d'"
      using less.prems(2) ends_in_nul_split by blast
    have len: "length d = length s + Suc (length d')"
      by (simp add: d(1))
    let ?q = "p + of_nat (length s)"
    have u: "unat ?q = unat p + length s" "unat (?q + 1) = unat p + length s + 1"
    proof -
      show q: "unat ?q = unat p + length s"
        using less.prems(4) len by (subst unat_word_ariths(1)) simp
      show "unat (?q + 1) = unat p + length s + 1"
        using less.prems(4) len q by (subst unat_word_ariths(1)) simp
    qed
    then have nz: "?q \<noteq> 0" "?q + 1 \<noteq> 0"
      using less.prems(3) by (metis add_is_0 unat_0 unat_eq_zero) (metis add_is_0 one_neq_zero u(2) unat_0)
    have "bytes_at m p (length s) = s" and m0: "m ?q = 0" and rest: "bytes_at m (?q + 1) (length d') = d'"
      using less.prems(1) unfolding len bytes_at_add by (simp_all add: d(1) bytes_at_Suc)
    then have "memchr_loop m p 0 (length d) = ?q"
      using d(2) len by (intro memchr_loop_at) auto
    moreover have "unat (of_int (int (length d)) :: u64) = length d"
      using less.prems(4) by simp
    ultimately have m: "memchr m p 0 (of_int (int (length d))) = ?q"
      by (simp only: memchr_def ucast_0)
    have "fdt_stringlist_contains m (?q + 1) (int (length d')) str = Some (str \<in> set (strings d'))"
      using d(3) rest nz(2) u(2) less.prems(4) len by (intro less.hyps) auto
    moreover have "int (length d) - (uint (?q - p) + 1) = int (length d')"
      using less.prems(4) len by (simp add: uint_nat)
    moreover have "bytes_at m p (length str + 1) = str @ [0] \<longleftrightarrow> str = s"
      using less.prems(1) d assms(3) by (intro first_string_eq) auto
    moreover have "str \<notin> set (strings d)" if "length d < length str"
      using strings_length [of str d] that by auto
    ultimately show ?thesis
      using m nz(1) strings_Cons [OF d(2), of d'] unfolding d(1) [symmetric]
      by (subst fdt_stringlist_contains.simps) (auto simp: Let_def)
  qed
qed

section \<open>The first node with a property\<close>

text \<open>The offset of the first node in a list that satisfies a condition.\<close>

definition found :: "(dt_node \<Rightarrow> bool) \<Rightarrow> (nat \<times> nat \<times> dt_node) list \<Rightarrow> int" where
  "found P xs = (case find (\<lambda>(k, d, n). P n) xs of None \<Rightarrow> - FDT_ERR NOTFOUND | Some (k, d, n) \<Rightarrow> int k)"

text \<open>Every search is a loop \<open>L\<close> that tests the node and goes on to the next one.\<close>

lemma search_walk:
  fixes L :: "int \<Rightarrow> int option"
  assumes "fdt_holds m fdt so root" and stop: "L (- FDT_ERR NOTFOUND) = Some (- FDT_ERR NOTFOUND)"
    and step: "\<And>k d n. (k, d, n) \<in> set (place so 0 0 root) \<Longrightarrow> L (int k) = (if P n then Some (int k) else do { (x, y) \<leftarrow> fdt_next_node m fdt (int k) None; L x })"
  shows "i \<le> length (place so 0 0 root) \<Longrightarrow>
    (case drop i (place so 0 0 root) of [] \<Rightarrow> L (- FDT_ERR NOTFOUND) | (k, d, n) # r \<Rightarrow> L (int k)) = Some (found P (drop i (place so 0 0 root)))"
proof (induction rule: inc_induct)
  case base
  then show ?case
    using stop by (simp add: found_def)
next
  case (step i)
  obtain k d n where x: "place so 0 0 root ! i = (k, d, n)"
    by (cases "place so 0 0 root ! i")
  then have dr: "drop i (place so 0 0 root) = (k, d, n) # drop (Suc i) (place so 0 0 root)"
    using step.hyps(2) Cons_nth_drop_Suc by metis
  have "L (int k) = (if P n then Some (int k) else do { (x, y) \<leftarrow> fdt_next_node m fdt (int k) None; L x })"
    using nth_mem [OF step.hyps(2)] x by (intro assms(3)) auto
  then show ?case
    using step.IH next_node_none [OF assms(1) step.hyps(2) x] unfolding dr by (auto simp: found_def split: list.splits)
qed

lemma search_from:
  assumes "fdt_holds m fdt so root" and "L (- FDT_ERR NOTFOUND) = Some (- FDT_ERR NOTFOUND)"
    and "\<And>k d n. (k, d, n) \<in> set (place so 0 0 root) \<Longrightarrow> L (int k) = (if P n then Some (int k) else do { (x, y) \<leftarrow> fdt_next_node m fdt (int k) None; L x })"
  shows "do { (x, y) \<leftarrow> fdt_next_node m fdt (- 1) None; L x } = Some (found P (place so 0 0 root))"
    and "i < length (place so 0 0 root) \<Longrightarrow> place so 0 0 root ! i = (k, d, n)
      \<Longrightarrow> do { (x, y) \<leftarrow> fdt_next_node m fdt (int k) None; L x } = Some (found P (drop (Suc i) (place so 0 0 root)))"
proof -
  note w = search_walk [where L = L and P = P, OF assms]
  show "do { (x, y) \<leftarrow> fdt_next_node m fdt (- 1) None; L x } = Some (found P (place so 0 0 root))"
    using w [where i = 0] next_node_start [OF assms(1)] by (cases root) simp
  show "do { (x, y) \<leftarrow> fdt_next_node m fdt (int k) None; L x } = Some (found P (drop (Suc i) (place so 0 0 root)))"
    if "i < length (place so 0 0 root)" "place so 0 0 root ! i = (k, d, n)"
    using w [where i = "Suc i"] that next_node_none [OF assms(1) that] by (auto split: list.splits)
qed

primrec all_nodes :: "dt_node \<Rightarrow> dt_node list" where
  "all_nodes (Node s ps cs) = Node s ps cs # concat (map all_nodes cs)"

lemma place_all_nodes: "map (\<lambda>(k, d, n). n) (place so k d root) = all_nodes root" "map (\<lambda>(k, d, n). n) (places so k d cs) = concat (map all_nodes cs)"
  by (induction so k d root and so k d cs rule: place_places.induct) simp_all

lemma place_in_nodes: "(k, d, n) \<in> set (place so 0 0 root) \<Longrightarrow> n \<in> set (all_nodes root)"
  unfolding place_all_nodes(1) [of so 0 0 root, symmetric] by force

definition compatible :: "string \<Rightarrow> dt_node \<Rightarrow> bool" where
  "compatible c n \<longleftrightarrow> (case map_of (dt_props n) (lit ''compatible'') of None \<Rightarrow> False | Some x \<Rightarrow> lit c \<in> set (strings x))"

text \<open>Every value of a property \<^verbatim>\<open>compatible\<close> is a list of strings.\<close>

definition compatible_ok :: "dt_node \<Rightarrow> bool" where
  "compatible_ok root \<longleftrightarrow> (\<forall>n \<in> set (all_nodes root). \<forall>x. map_of (dt_props n) (lit ''compatible'') = Some x \<longrightarrow> ends_in_nul x)"

lemma check_compatible_at:
  assumes "fdt_holds m fdt so root" and "(k, d, n) \<in> set (place so 0 0 root)" and "compatible_ok root" and "NUL \<notin> set c" and "c \<noteq> []"
  shows "\<exists>err. fdt_node_check_compatible m fdt (int k) c = Some err \<and> (err = 0 \<longleftrightarrow> compatible c n) \<and> (err < 0 \<longrightarrow> err = - FDT_ERR NOTFOUND)"
proof (cases "map_of (dt_props n) (lit ''compatible'')")
  case None
  then show ?thesis
    using getprop_at(1) [OF assms(1,2), of "''compatible''"] by (simp add: fdt_node_check_compatible_def compatible_def)
next
  case (Some x)
  then obtain p where p: "fdt_getprop m fdt (int k) ''compatible'' = Some (p, int (length x))" "p \<noteq> 0" "bytes_at m p (length x) = x" "unat p + length x < 2 ^ 64"
    using getprop_at(2) [OF assms(1,2), of "''compatible''" x] by auto
  have "ends_in_nul x"
    using assms(3) place_in_nodes [OF assms(2)] Some by (auto simp: compatible_ok_def)
  moreover have "0 \<notin> set (lit c)" "lit c \<noteq> []"
    using assms(4,5) by (auto simp: lit_def byte_NUL_iff)
  ultimately have "fdt_stringlist_contains m p (int (length x)) (lit c) = Some (lit c \<in> set (strings x))"
    using p by (intro stringlist_contains_at) auto
  then show ?thesis
    using p Some by (simp add: fdt_node_check_compatible_def compatible_def)
qed

lemma compatible_search:
  assumes "fdt_holds m fdt so root" and "compatible_ok root" and "NUL \<notin> set c" and "c \<noteq> []"
  shows "fdt_node_offset_by_compatible m fdt (- 1) c = Some (found (compatible c) (place so 0 0 root))"
    and "i < length (place so 0 0 root) \<Longrightarrow> place so 0 0 root ! i = (k, d, n)
      \<Longrightarrow> fdt_node_offset_by_compatible m fdt (int k) c = Some (found (compatible c) (drop (Suc i) (place so 0 0 root)))"
proof -
  let ?L = "compatible_loop m fdt c"
  have stop: "?L (- FDT_ERR NOTFOUND) = Some (- FDT_ERR NOTFOUND)"
    by (subst compatible_loop.simps) simp
  have step: "?L (int k) = (if compatible c n then Some (int k) else do { (x, y) \<leftarrow> fdt_next_node m fdt (int k) None; ?L x })"
    if "(k, d, n) \<in> set (place so 0 0 root)" for k d n
    using check_compatible_at [OF assms(1) that assms(2-4)] by (subst compatible_loop.simps) auto
  have h: "fdt_check_header m fdt = 0"
    using assms(1) by (simp add: fdt_holds_def block_ok_def)
  note f = search_from [where L = ?L and P = "compatible c", OF assms(1) stop step]
  show "fdt_node_offset_by_compatible m fdt (- 1) c = Some (found (compatible c) (place so 0 0 root))"
    using f(1) h by (simp add: fdt_node_offset_by_compatible_def)
  show "fdt_node_offset_by_compatible m fdt (int k) c = Some (found (compatible c) (drop (Suc i) (place so 0 0 root)))"
    if "i < length (place so 0 0 root)" "place so 0 0 root ! i = (k, d, n)"
    using f(2) [OF _ that] h by (simp add: fdt_node_offset_by_compatible_def)
qed

lemma prop_value_search:
  assumes "fdt_holds m fdt so root" and "length name < 2 ^ 64"
  shows "fdt_node_offset_by_prop_value m fdt (- 1) name v = Some (found (\<lambda>n. map_of (dt_props n) (lit name) = Some v) (place so 0 0 root))"
    and "i < length (place so 0 0 root) \<Longrightarrow> place so 0 0 root ! i = (k, d, n) \<Longrightarrow> fdt_node_offset_by_prop_value m fdt (int k) name v
      = Some (found (\<lambda>n. map_of (dt_props n) (lit name) = Some v) (drop (Suc i) (place so 0 0 root)))"
proof -
  let ?L = "prop_value_loop m fdt name v" and ?P = "\<lambda>n. map_of (dt_props n) (lit name) = Some v"
  have stop: "?L (- FDT_ERR NOTFOUND) = Some (- FDT_ERR NOTFOUND)"
    by (subst prop_value_loop.simps) simp
  have step: "?L (int k) = (if ?P n then Some (int k) else do { (x, y) \<leftarrow> fdt_next_node m fdt (int k) None; ?L x })"
    if n: "(k, d, n) \<in> set (place so 0 0 root)" for k d n
  proof (cases "map_of (dt_props n) (lit name)")
    case None
    then show ?thesis
      using getprop_at(1) [OF assms(1) n assms(2)] by (subst prop_value_loop.simps) simp
  next
    case (Some x)
    then show ?thesis
      using getprop_at(2) [OF assms(1) n assms(2) Some] by (subst prop_value_loop.simps) auto
  qed
  have h: "fdt_check_header m fdt = 0"
    using assms(1) by (simp add: fdt_holds_def block_ok_def)
  note f = search_from [where L = ?L and P = ?P, OF assms(1) stop step]
  show "fdt_node_offset_by_prop_value m fdt (- 1) name v = Some (found ?P (place so 0 0 root))"
    using f(1) h by (simp add: fdt_node_offset_by_prop_value_def)
  show "fdt_node_offset_by_prop_value m fdt (int k) name v = Some (found ?P (drop (Suc i) (place so 0 0 root)))"
    if "i < length (place so 0 0 root)" "place so 0 0 root ! i = (k, d, n)"
    using f(2) [OF _ that] h by (simp add: fdt_node_offset_by_prop_value_def)
qed

end
