(* ===== verification/Fdt_Path.thy ===== *)
theory Fdt_Path
  imports Fdt_Find
begin

text \<open>
  Subnodes, paths and parents in a blob that holds a tree.
\<close>

section \<open>Where the subnodes are\<close>

lemma places_depth: "(k', d', n) \<in> set (places so k d cs) \<Longrightarrow> d \<le> d'"
  using place_split(2) [of k' d' n so k d cs] by auto

text \<open>The nodes below a node follow it, and what comes behind them is not deeper than the node.\<close>

lemma place_inside:
  "(k', d', n) \<in> set (place so k d root) \<Longrightarrow> \<exists>A C. place so k d root = A @ place so k' d' n @ C \<and> (\<forall>x r. C = x # r \<longrightarrow> fst (snd x) \<le> d')"
  "(k', d', n) \<in> set (places so k d cs) \<Longrightarrow> \<exists>A C. places so k d cs = A @ place so k' d' n @ C \<and> (\<forall>x r. C = x # r \<longrightarrow> fst (snd x) \<le> d')"
proof (induction so k d root and so k d cs arbitrary: k' d' n and k' d' n rule: place_places.induct)
  case (1 so k d s ps cs)
  let ?N = "Node s ps cs"
  show ?case
  proof (cases "(k', d', n) \<in> set (places so (k + head_size so ?N) (Suc d) cs)")
    case True
    then obtain A C where "places so (k + head_size so ?N) (Suc d) cs = A @ place so k' d' n @ C" "\<forall>x r. C = x # r \<longrightarrow> fst (snd x) \<le> d'"
      using 1(1) by blast
    then show ?thesis
      by (intro exI [of _ "(k, d, ?N) # A"] exI [of _ C]) simp
  next
    case False
    then show ?thesis
      using 1(2) by (intro exI [of _ "[]"]) auto
  qed
next
  case (3 so k d c cs)
  then consider "(k', d', n) \<in> set (place so k d c)" | "(k', d', n) \<in> set (places so (k + node_size so c) d cs)"
    by auto
  then show ?case
  proof cases
    case 1
    then obtain A C where C: "place so k d c = A @ place so k' d' n @ C" "\<forall>x r. C = x # r \<longrightarrow> fst (snd x) \<le> d'"
      using 3(1) by blast
    have "d \<le> d'"
      using place_split(1) [OF 1] by auto
    moreover have "\<forall>x r. places so (k + node_size so c) d cs = x # r \<longrightarrow> fst (snd x) = d"
    proof (cases cs)
      case (Cons b bs)
      then show ?thesis
        by (cases b) simp
    qed simp
    ultimately show ?thesis
      using C by (intro exI [of _ A] exI [of _ "C @ places so (k + node_size so c) d cs"]) (auto simp: append_eq_Cons_conv)
  next
    case 2
    then obtain A C where "places so (k + node_size so c) d cs = A @ place so k' d' n @ C" "\<forall>x r. C = x # r \<longrightarrow> fst (snd x) \<le> d'"
      using 3(2) by blast
    then show ?thesis
      by (intro exI [of _ "place so k d c @ A"] exI [of _ C]) simp
  qed
qed simp

lemma subs_filter: "filter (\<lambda>(k, e, n). e = d) (places so k d cs) = map (\<lambda>(k, c). (k, d, c)) (subs_at so k cs)"
proof (induction cs arbitrary: k)
  case (Cons c cs)
  obtain s ps bs where c: "c = Node s ps bs"
    by (cases c)
  have "filter (\<lambda>(k, e, n). e = d) (places so k' (Suc d) bs) = []" for k'
    using places_depth by (force simp: filter_empty_conv)
  then show ?case
    using Cons by (simp add: c)
qed simp

lemma subnodes_filter: "filter (\<lambda>(k, e, n). e = Suc d) (place so k d n) = map (\<lambda>(k, c). (k, Suc d, c)) (subnodes_at so k n)"
  by (cases n) (simp add: subs_filter subnodes_at_def)

lemma subnode_place:
  assumes "(k, d, n) \<in> set (place so 0 0 root)" and "(k', c) \<in> set (subnodes_at so k n)"
  shows "(k', Suc d, c) \<in> set (place so 0 0 root)"
proof -
  have "(k', Suc d, c) \<in> set (filter (\<lambda>(k, e, n). e = Suc d) (place so k d n))"
    unfolding subnodes_filter using assms(2) by force
  then show ?thesis
    using place_inside(1) [OF assms(1)] by auto
qed

section \<open>Names\<close>

text \<open>A name in a path may leave out the unit address.\<close>

definition name_matches :: "u8 list \<Rightarrow> u8 list \<Rightarrow> bool" where
  "name_matches s nm \<longleftrightarrow> nm = s \<or> byte CHR ''@'' \<notin> set s \<and> (\<exists>u. nm = s @ byte CHR ''@'' # u)"

lemma name_matches_take:
  assumes "0 \<notin> set nm" and "length s \<le> length nm"
  shows "take (length s) nm = s \<and> ((nm @ [0]) ! length s = 0 \<or> byte CHR ''@'' \<notin> set s \<and> (nm @ [0]) ! length s = byte CHR ''@'') \<longleftrightarrow> name_matches s nm"
proof (cases "length s = length nm")
  case True
  then show ?thesis
    by (auto simp: name_matches_def nth_append)
next
  case False
  then have l: "length s < length nm"
    using assms(2) by simp
  then have "nm ! length s \<noteq> 0"
    using assms(1) by (auto simp: in_set_conv_nth)
  moreover have "(\<exists>u. nm = s @ x # u) \<longleftrightarrow> take (length s) nm = s \<and> nm ! length s = x" for x
    using l id_take_nth_drop [OF l] by (metis append_eq_conv_conj nth_append_length)
  ultimately show ?thesis
    using l by (auto simp: name_matches_def nth_append)
qed

lemma nodename_eq_at:
  assumes "block_ok m fdt (pre @ T_begin nm # post)" and "k = toks_size pre" and "0 \<notin> set s"
  shows "nodename_eq m fdt (int k) s \<longleftrightarrow> name_matches s nm"
proof -
  let ?b = "struct_base m fdt" and ?ts = "pre @ T_begin nm # post"
  have nul: "0 \<notin> set nm"
    using assms(1) by (simp add: block_ok_def)
  have sz: "k + (4 + (length nm + 1)) \<le> toks_size ?ts" "toks_size ?ts < 2 ^ 31"
    using assms tok_size_props(2) [of "T_begin nm"] by (simp_all add: block_ok_def)
  have "bytes_at m (?b + of_nat k) (4 + Suc (length nm)) = be32_bytes FDT_BEGIN_NODE @ nm @ [0]"
    using token_at [OF assms(1)] by (simp add: assms(2))
  then have nm: "bytes_at m (?b + of_nat (k + 4)) (Suc (length nm)) = nm @ [0]"
    unfolding bytes_at_add by (simp add: add.assoc)
  have off: "s32 (int k + 4) = int (k + 4)"
    using sz by (simp add: s32_small)
  show ?thesis
  proof (cases "length s \<le> length nm")
    case True
    then have p: "fdt_offset_ptr m fdt (int (k + 4)) (of_nat (length s + 1)) = ?b + of_nat (k + 4)" "?b + of_nat (k + 4) \<noteq> 0"
      using sz(1) fdt_offset_ptr_in [OF assms(1), of "k + 4" "length s + 1"] by simp_all
    have "bytes_at m (?b + of_nat (k + 4)) (length s) = take (length s) nm"
    proof -
      have "bytes_at m (?b + of_nat (k + 4)) (length s) = take (length s) (bytes_at m (?b + of_nat (k + 4)) (Suc (length nm)))"
        using True bytes_at_add [of m "?b + of_nat (k + 4)" "length s" "Suc (length nm) - length s"] by simp
      then show ?thesis
        unfolding nm using True by simp
    qed
    moreover have "m (?b + of_nat (k + 4) + of_nat (length s)) = (nm @ [0]) ! length s"
      using bytes_at_nth [OF nm, of "length s"] True by simp
    ultimately show ?thesis
      unfolding nodename_eq_def off p(1) Let_def using p(2) name_matches_take [OF nul True] by simp
  next
    case False
    have "bytes_at m (?b + of_nat (k + 4)) (length s) \<noteq> s"
    proof
      assume "bytes_at m (?b + of_nat (k + 4)) (length s) = s"
      then have "s ! length nm = m (?b + of_nat (k + 4) + of_nat (length nm))"
        using False bytes_at_nth by (metis not_le_imp_less)
      also have "\<dots> = 0"
        using bytes_at_nth [OF nm, of "length nm"] by simp
      finally show False
        using assms(3) False by (metis in_set_conv_nth not_le_imp_less)
    qed
    moreover have "fdt_offset_ptr m fdt (int (k + 4)) l \<noteq> 0 \<Longrightarrow> fdt_offset_ptr m fdt (int (k + 4)) l = ?b + of_nat (k + 4)" for l
      unfolding fdt_offset_ptr_def Let_def offset_ptr_base by (simp split: if_splits)
    moreover have "\<not> name_matches s nm"
      using False by (auto simp: name_matches_def)
    ultimately show ?thesis
      unfolding nodename_eq_def off Let_def by metis
  qed
qed

lemma nodename_eq_place:
  assumes "fdt_holds m fdt so root" and "(k, d, n) \<in> set (place so 0 0 root)" and "0 \<notin> set s"
  shows "nodename_eq m fdt (int k) s \<longleftrightarrow> name_matches s (dt_name n)"
proof -
  obtain nm ps cs where n: "n = Node nm ps cs"
    by (cases n)
  obtain pre post where "block_ok m fdt (pre @ T_begin nm # map (prop_tok so) ps @ flats so cs @ T_end_node # post @ [T_end])" "k = toks_size pre"
    using node_tokens [OF assms(1), of k d nm ps cs] assms(2) n by blast
  then show ?thesis
    using nodename_eq_at [OF _ _ assms(3)] by (simp add: n)
qed

section \<open>Subnodes\<close>

text \<open>The walk through the nodes below a node at depth \<open>d\<close>, from the \<open>j\<close>-th of them on.\<close>

definition first_offset :: "(nat \<times> nat \<times> dt_node) list \<Rightarrow> int" where
  "first_offset xs = (case xs of [] \<Rightarrow> - FDT_ERR NOTFOUND | (k, d, n) # r \<Rightarrow> int k)"

lemma below_deeper: "Suc j < length (place so k d n) \<Longrightarrow> place so k d n ! Suc j = (k', d', n') \<Longrightarrow> Suc d \<le> d'"
  using places_depth by (cases n) (auto dest!: nth_mem)

lemma subnode_step:
  assumes "fdt_holds m fdt so root" and root: "place so 0 0 root = A @ place so k d n @ C" and s: "0 \<notin> set s"
    and j: "j < length (place so k d n)" "place so k d n ! j = (kj, dj, nj)"
  shows "length A + j < length (place so 0 0 root) \<and> place so 0 0 root ! (length A + j) = (kj, dj, nj) \<and> d \<le> dj
      \<and> drop (Suc (length A + j)) (place so 0 0 root) = drop (Suc j) (place so k d n) @ C \<and> drop j (place so k d n) = (kj, dj, nj) # drop (Suc j) (place so k d n)
      \<and> subnode_loop m fdt s (int kj) (Some (int dj - int d)) = (if dj = Suc d \<and> name_matches s (dt_name nj) then Some (int kj)
         else do { (x, y) \<leftarrow> fdt_next_node m fdt (int kj) (Some (int dj - int d)); subnode_loop m fdt s x y })"
proof -
  have i: "length A + j < length (place so 0 0 root)" "place so 0 0 root ! (length A + j) = (kj, dj, nj)"
    using j by (simp_all add: root nth_append)
  have "d \<le> dj"
    using place_split(1) [of kj dj nj so k d n] nth_mem [OF j(1)] j(2) by auto
  moreover have "nodename_eq m fdt (int kj) s \<longleftrightarrow> name_matches s (dt_name nj)"
    using nodename_eq_place [OF assms(1) _ s, of kj dj nj] nth_mem [OF i(1)] i(2) by auto
  ultimately have "subnode_loop m fdt s (int kj) (Some (int dj - int d)) = (if dj = Suc d \<and> name_matches s (dt_name nj) then Some (int kj)
       else do { (x, y) \<leftarrow> fdt_next_node m fdt (int kj) (Some (int dj - int d)); subnode_loop m fdt s x y })"
    by (subst subnode_loop.simps) auto
  then show ?thesis
    using i j \<open>d \<le> dj\<close> Cons_nth_drop_Suc [OF j(1)] by (simp add: root)
qed

lemma subnode_loop_at:
  assumes "fdt_holds m fdt so root" and root: "place so 0 0 root = A @ place so k d n @ C" and C: "\<And>x r. C = x # r \<Longrightarrow> fst (snd x) \<le> d"
    and "j < length (place so k d n)" and "place so k d n ! j = (kj, dj, nj)" and s: "0 \<notin> set s"
  shows "subnode_loop m fdt s (int kj) (Some (int dj - int d))
    = Some (first_offset (filter (\<lambda>(k', e, n'). e = Suc d \<and> name_matches s (dt_name n')) (drop j (place so k d n))))"
proof -
  let ?W = "place so k d n" and ?P = "\<lambda>(k', e, n'). e = Suc d \<and> name_matches s (dt_name n')"
  note at = subnode_step [OF assms(1) root s]
  have "j \<le> length ?W - 1" "length ?W - 1 < length ?W"
    using assms(4) by auto
  then show ?thesis
    using assms(5)
  proof (induction arbitrary: kj dj nj rule: inc_induct)
    case base
    note b = at [OF base(1,2)]
    have "\<exists>x \<ge> 0. fdt_next_node m fdt (int kj) (Some (int dj - int d)) = Some (x, Some (- 1))"
    proof (cases C)
      case Nil
      then show ?thesis
        using b by (intro next_node_some(3) [OF assms(1), of "length A + (length ?W - 1)" kj dj nj]) auto
    next
      case (Cons x r)
      obtain k' d' n' where x: "x = (k', d', n')"
        by (cases x)
      show ?thesis
        using b C [OF Cons] Cons x by (intro next_node_some(2) [OF assms(1), of "length A + (length ?W - 1)" kj dj nj _ k' d' n' r]) auto
    qed
    then show ?case
      using b base(1) by (auto simp: first_offset_def subnode_loop.simps [of m fdt s _ "Some (- 1)"])
  next
    case (step j)
    obtain k' d' n' where x: "?W ! Suc j = (k', d', n')"
      by (cases "?W ! Suc j")
    have j: "j < length ?W" "Suc j < length ?W"
      using step.hyps step.prems(1) by auto
    note b = at [OF j(1) step.prems(2)] and b' = at [OF j(2) x]
    have "Suc d \<le> d'"
      using below_deeper [OF _ x] j(2) by simp
    then have "fdt_next_node m fdt (int kj) (Some (int dj - int d)) = Some (int k', Some (int dj - int d + int d' - int dj))"
      using b b' by (intro next_node_some(1) [OF assms(1), of "length A + j" kj dj nj _ k' d' n']) auto
    then show ?case
      using b step.IH [OF step.prems(1) x] by (auto simp: first_offset_def)
  qed
qed

definition find_sub :: "string_table \<Rightarrow> u8 list \<Rightarrow> nat \<Rightarrow> dt_node \<Rightarrow> (nat \<times> dt_node) option" where
  "find_sub so s k n = find (\<lambda>(k', c). name_matches s (dt_name c)) (subnodes_at so k n)"

lemma find_sub_place:
  assumes "(k, d, n) \<in> set (place so 0 0 root)" and "find_sub so s k n = Some (k', c)"
  shows "(k', Suc d, c) \<in> set (place so 0 0 root)"
proof -
  obtain i where "i < length (subnodes_at so k n)" "subnodes_at so k n ! i = (k', c)"
    using assms(2) by (auto simp: find_sub_def find_Some_iff)
  then have "(k', c) \<in> set (subnodes_at so k n)"
    by (metis nth_mem)
  then show ?thesis
    by (rule subnode_place [OF assms(1)])
qed

lemma subnode_at:
  assumes "fdt_holds m fdt so root" and "(k, d, n) \<in> set (place so 0 0 root)" and "0 \<notin> set s"
  shows "fdt_subnode_offset_namelen m fdt (int k) s = Some (case find_sub so s k n of None \<Rightarrow> - FDT_ERR NOTFOUND | Some (k', c) \<Rightarrow> int k')"
proof -
  obtain A C where W: "place so 0 0 root = A @ place so k d n @ C" and C: "\<And>x r. C = x # r \<Longrightarrow> fst (snd x) \<le> d"
    using place_inside(1) [OF assms(2)] by blast
  have "subnode_loop m fdt s (int k) (Some (int d - int d))
      = Some (first_offset (filter (\<lambda>(k', e, n'). e = Suc d \<and> name_matches s (dt_name n')) (drop 0 (place so k d n))))"
    by (rule subnode_loop_at [OF assms(1) W C, where nj = n]) (use assms(3) in \<open>cases n; auto\<close>)+
  also have "filter (\<lambda>(k', e, n'). e = Suc d \<and> name_matches s (dt_name n')) (drop 0 (place so k d n))
      = filter (\<lambda>(k', e, n'). name_matches s (dt_name n')) (filter (\<lambda>(k', e, n'). e = Suc d) (place so k d n))"
    by (auto intro!: filter_cong)
  also have "first_offset \<dots> = (case find_sub so s k n of None \<Rightarrow> - FDT_ERR NOTFOUND | Some (k', c) \<Rightarrow> int k')"
  proof -
    have "first_offset (filter (\<lambda>(k', e, n'). name_matches s (dt_name n')) (map (\<lambda>(k, c). (k, Suc d, c)) xs))
        = (case find (\<lambda>(k', c). name_matches s (dt_name c)) xs of None \<Rightarrow> - FDT_ERR NOTFOUND | Some (k', c) \<Rightarrow> int k')" for xs
      by (induction xs) (auto simp: first_offset_def)
    then show ?thesis
      by (simp add: subnodes_filter find_sub_def)
  qed
  finally show ?thesis
    using assms(1) by (simp add: fdt_subnode_offset_namelen_def fdt_holds_def block_ok_def)
qed

section \<open>Paths\<close>

function components :: "u8 list \<Rightarrow> u8 list list" where
  "components p =
     (let p = dropWhile (\<lambda>c. c = slash) p in
      if p = [] then [] else takeWhile (\<lambda>c. c \<noteq> slash) p # components (dropWhile (\<lambda>c. c \<noteq> slash) p))"
  by pat_completeness auto

termination
  by (relation "measure length") (simp_all add: component_shorter)

declare components.simps [simp del]

primrec resolve :: "string_table \<Rightarrow> nat \<Rightarrow> dt_node \<Rightarrow> u8 list list \<Rightarrow> (nat \<times> dt_node) option" where
  "resolve so k n [] = Some (k, n)"
| "resolve so k n (s # ss) = (case find_sub so s k n of None \<Rightarrow> None | Some (k', c) \<Rightarrow> resolve so k' c ss)"

lemma path_loop_at:
  assumes "fdt_holds m fdt so root" and "(k, d, n) \<in> set (place so 0 0 root)" and "0 \<notin> set p"
  shows "path_loop m fdt p (int k) = Some (case resolve so k n (components p) of None \<Rightarrow> - FDT_ERR NOTFOUND | Some (k', n') \<Rightarrow> int k')"
  using assms(2,3)
proof (induction p arbitrary: k d n rule: components.induct)
  case (1 p)
  let ?q = "dropWhile (\<lambda>c. c = slash) p"
  show ?case
  proof (cases "?q = []")
    case True
    then show ?thesis
      by (simp add: path_loop.simps [of m fdt p] components.simps [of p])
  next
    case False
    let ?s = "takeWhile (\<lambda>c. c \<noteq> slash) ?q" and ?r = "dropWhile (\<lambda>c. c \<noteq> slash) ?q"
    have nul: "0 \<notin> set ?s" "0 \<notin> set ?r"
      using "1.prems"(2) by (auto dest!: set_takeWhileD set_dropWhileD)
    have sub: "fdt_subnode_offset_namelen m fdt (int k) ?s = Some (case find_sub so ?s k n of None \<Rightarrow> - FDT_ERR NOTFOUND | Some (k', c) \<Rightarrow> int k')"
      by (rule subnode_at [OF assms(1) "1.prems"(1) nul(1)])
    show ?thesis
    proof (cases "find_sub so ?s k n")
      case None
      then show ?thesis
        using False sub by (simp add: path_loop.simps [of m fdt p] components.simps [of p] Let_def)
    next
      case (Some x)
      obtain k' c where x: "x = (k', c)"
        by (cases x)
      have "path_loop m fdt ?r (int k') = Some (case resolve so k' c (components ?r) of None \<Rightarrow> - FDT_ERR NOTFOUND | Some (k', n') \<Rightarrow> int k')"
        using find_sub_place [OF "1.prems"(1)] Some x nul(2) by (intro "1.IH" [OF refl False]) auto
      then show ?thesis
        using False sub Some x unfolding path_loop.simps [of m fdt p] components.simps [of p] Let_def by auto
    qed
  qed
qed

lemma path_at:
  assumes "fdt_holds m fdt so root" and "0 \<notin> set path" and "path \<noteq> []" and "hd path = slash"
  shows "fdt_path_offset m fdt path = Some (case resolve so 0 root (components path) of None \<Rightarrow> - FDT_ERR NOTFOUND | Some (k, n) \<Rightarrow> int k)"
proof -
  have "(0, 0, root) \<in> set (place so 0 0 root)"
    by (cases root) simp
  then show ?thesis
    using path_loop_at [OF assms(1) _ assms(2), of 0 0 root] assms by (subst fdt_path_offset.simps) (simp add: fdt_holds_def block_ok_def)
qed

section \<open>Parents\<close>

definition super_of :: "int \<Rightarrow> int \<Rightarrow> (nat \<times> nat \<times> dt_node) list \<Rightarrow> int" where
  "super_of sd a xs = foldl (\<lambda>a (k, d, n). if int d = sd then int k else a) a xs"

lemma place_offsets: "sorted_wrt (<) (map fst (place so 0 0 root))"
proof -
  have "map fst (levels (flat so root) 0 0) = map fst (place so 0 0 root)"
    using levels_place(1) [of so root 0 0] by (simp add: case_prod_beta comp_def)
  then show ?thesis
    using levels_sorted [of "flat so root" 0 0] by simp
qed

lemma supernode_loop_at:
  assumes "fdt_holds m fdt so root" and t: "t < length (place so 0 0 root)" "place so 0 0 root ! t = (kt, dt, nt)"
    and "i \<le> t" and "place so 0 0 root ! i = (k, d, n)"
  shows "supernode_loop m fdt (int kt) sd (int k) (Some (int d)) a
    = Some (if sd > int dt then - FDT_ERR NOTFOUND else super_of sd a (take (Suc t - i) (drop i (place so 0 0 root))), Some (int dt))"
  using assms(4,5)
proof (induction arbitrary: k d n a rule: inc_induct)
  case base
  then show ?case
    using t by (subst supernode_loop.simps) (simp add: super_of_def take_Suc_conv_app_nth Let_def)
next
  case (step i)
  let ?ns = "place so 0 0 root"
  obtain k' d' n' where x: "?ns ! Suc i = (k', d', n')"
    by (cases "?ns ! Suc i")
  have i: "Suc i < length ?ns"
    using step.hyps(2) t(1) by simp
  have "k < kt"
    using sorted_wrt_nth_less [OF place_offsets [of so root] step.hyps(2)] t i step.prems step.hyps by simp
  have dr: "drop (Suc i) ?ns = (k', d', n') # drop (Suc (Suc i)) ?ns" "drop i ?ns = (k, d, n) # drop (Suc i) ?ns"
    using Cons_nth_drop_Suc [OF i] Cons_nth_drop_Suc [of i ?ns] i x step.prems by simp_all
  have "Suc 0 \<le> d'"
    using below_deeper [OF i x] .
  then have "fdt_next_node m fdt (int k) (Some (int d)) = Some (int k', Some (int d + int d' - int d))"
    using i dr(1) step.prems by (intro next_node_some(1) [OF assms(1), of i k d n _ k' d' n']) auto
  then have "supernode_loop m fdt (int kt) sd (int k) (Some (int d)) a = supernode_loop m fdt (int kt) sd (int k') (Some (int d')) (if int d = sd then int k else a)"
    using \<open>k < kt\<close> by (subst supernode_loop.simps) (simp add: Let_def)
  then show ?case
    using step.IH [OF x, of "if int d = sd then int k else a"] step.hyps dr(2) by (simp add: super_of_def Suc_diff_le)
qed

lemma super_of_last:
  assumes "\<And>x. x \<in> set ys \<Longrightarrow> fst (snd x) \<noteq> d"
  shows "super_of (int d) a (xs @ (k, d, n) # ys) = int k"
proof -
  have "foldl (\<lambda>a (k, e, n). if int e = int d then int k else a) b ys = b" for b
    using assms
  proof (induction ys arbitrary: b)
    case (Cons x ys)
    then show ?case
      using Cons.prems [of x] by (cases x) auto
  qed simp
  then show ?thesis
    by (simp add: super_of_def)
qed

lemma supernode_at:
  assumes "fdt_holds m fdt so root" and "place so 0 0 root = xs @ (k, d, n) # ys" and "0 \<le> sd"
  shows "fdt_supernode_atdepth_offset m fdt (int k) sd
    = Some (if sd > int d then - FDT_ERR NOTFOUND else super_of sd (- FDT_ERR INTERNAL) (xs @ [(k, d, n)]), Some (int d))"
proof -
  have t: "length xs < length (place so 0 0 root)" "place so 0 0 root ! length xs = (k, d, n)"
    by (simp_all add: assms(2))
  have "place so 0 0 root ! 0 = (0, 0, root)"
    by (cases root) simp
  note w = supernode_loop_at [OF assms(1) t le0 this, of sd "- FDT_ERR INTERNAL"]
  have "take (Suc (length xs) - 0) (drop 0 (place so 0 0 root)) = xs @ [(k, d, n)]"
    by (simp add: assms(2))
  moreover have "fdt_check_header m fdt = 0"
    using assms(1) by (simp add: fdt_holds_def block_ok_def)
  ultimately show ?thesis
    using w assms(3) by (simp add: fdt_supernode_atdepth_offset_def)
qed

lemma node_depth_at:
  assumes "fdt_holds m fdt so root" and "(k, d, n) \<in> set (place so 0 0 root)"
  shows "fdt_node_depth m fdt (int k) = Some (int d)"
proof -
  obtain xs ys where ns: "place so 0 0 root = xs @ (k, d, n) # ys"
    using split_list [OF assms(2)] by blast
  obtain W where W: "place so 0 0 root = (0, 0, root) # W" and deep: "\<And>k d n. (k, d, n) \<in> set W \<Longrightarrow> 0 < d"
    using places_depth by (cases root) fastforce
  have "super_of 0 (- FDT_ERR INTERNAL) (xs @ [(k, d, n)]) = 0"
  proof (cases xs)
    case Nil
    then show ?thesis
      using ns W super_of_last [of "[]" 0 "- FDT_ERR INTERNAL" "[]" 0 root] by simp
  next
    case (Cons x xs')
    then have "xs @ [(k, d, n)] = [] @ (0, 0, root) # xs' @ [(k, d, n)]" "set (xs' @ [(k, d, n)]) \<subseteq> set W"
      using ns W by auto
    then show ?thesis
      using deep super_of_last [of "xs' @ [(k, d, n)]" 0 _ "[]" 0 root] by fastforce
  qed
  then show ?thesis
    using supernode_at [OF assms(1) ns, of 0] by (simp add: fdt_node_depth_def)
qed

lemma parent_at:
  assumes "fdt_holds m fdt so root" and "(k, d, n) \<in> set (place so 0 0 root)" and "(k', c) \<in> set (subnodes_at so k n)"
  shows "fdt_parent_offset m fdt (int k') = Some (int k)"
proof -
  obtain A C where root: "place so 0 0 root = A @ place so k d n @ C"
    using place_inside(1) [OF assms(2)] by blast
  obtain W where W: "place so k d n = (k, d, n) # W" and deep: "\<And>k' d' n'. (k', d', n') \<in> set W \<Longrightarrow> d < d'"
    using places_depth by (cases n) fastforce
  have "(k', Suc d, c) \<in> set (filter (\<lambda>(k, e, n). e = Suc d) (place so k d n))"
    unfolding subnodes_filter using assms(3) by force
  then have "(k', Suc d, c) \<in> set W"
    by (simp add: W)
  then obtain B R where B: "W = B @ (k', Suc d, c) # R"
    using split_list by fast
  have ns: "place so 0 0 root = (A @ (k, d, n) # B) @ (k', Suc d, c) # R @ C"
    by (simp add: root W B)
  have "super_of (int d) a ((A @ (k, d, n) # B) @ [(k', Suc d, c)]) = int k" for a
    using deep super_of_last [of "B @ [(k', Suc d, c)]" d a A k n] by (fastforce simp: B)
  then have "fdt_supernode_atdepth_offset m fdt (int k') (int d) = Some (int k, Some (int (Suc d)))"
    using supernode_at [OF assms(1) ns, of "int d"] by simp
  moreover have "fdt_node_depth m fdt (int k') = Some (int (Suc d))"
    using node_depth_at [OF assms(1), of k' "Suc d" c] ns by simp
  ultimately show ?thesis
    by (simp add: fdt_parent_offset_def)
qed

end
