(* ===== verification/Fdt_Blob.thy ===== *)
theory Fdt_Blob
  imports Fdt_Path
begin

text \<open>
  A blob for a tree. \<open>fdt_blob\<close> puts the header, an empty memory reservation block, the structure block and the strings block together, as version 17 of
  the format has them, and a memory with these bytes holds the tree. The results on the functions of \<^verbatim>\<open>lib/libfdt\<close> are collected here.
\<close>

section \<open>Blobs\<close>

definition blob_fields :: "nat \<Rightarrow> nat \<Rightarrow> u32 list" where
  "blob_fields n k = [FDT_MAGIC, of_nat (56 + n + k), 56, of_nat (56 + n), 40, 17, 16, 0, of_nat k, of_nat n]"

definition fdt_blob :: "string_table \<Rightarrow> u8 list \<Rightarrow> dt_node \<Rightarrow> u8 list" where
  "fdt_blob so strs root =
     (let ts = flat so root @ [T_end] in
      concat (map be32_bytes (blob_fields (toks_size ts) (length strs))) @ replicate 16 0 @ concat (map tok_bytes ts) @ strs)"

lemma bytes_at_part: "bytes_at m p (length (xs @ ys @ zs)) = xs @ ys @ zs \<Longrightarrow> bytes_at m (p + of_nat (length xs)) (length ys) = ys"
  using bytes_at_append(2) [of m p xs "ys @ zs"] bytes_at_append(1) [of m "p + of_nat (length xs)" ys zs] by simp

lemma concat_be32_length: "length (concat (map be32_bytes ws)) = 4 * length ws"
  by (induction ws) simp_all

lemma be32_fields:
  assumes "bytes_at m p (4 * length ws) = concat (map be32_bytes ws)" and "i < length ws"
  shows "fdt32_to_cpu m (p + 4 * of_nat i) = ws ! i"
proof -
  have "ws = take i ws @ ws ! i # drop (Suc i) ws"
    using assms(2) by (rule id_take_nth_drop)
  then have "concat (map be32_bytes ws) = concat (map be32_bytes (take i ws)) @ be32_bytes (ws ! i) @ concat (map be32_bytes (drop (Suc i) ws))"
    by (metis concat.simps(2) concat_append list.simps(9) map_append)
  then have "bytes_at m (p + of_nat (4 * i)) 4 = be32_bytes (ws ! i)"
    using bytes_at_part [of m p "concat (map be32_bytes (take i ws))" "be32_bytes (ws ! i)" "concat (map be32_bytes (drop (Suc i) ws))"]
      assms concat_be32_length [of ws] by (simp add: concat_be32_length)
  then show ?thesis
    by (intro fdt32_bytes) simp
qed

lemma blob_header:
  assumes "bytes_at m fdt 40 = concat (map be32_bytes (blob_fields n k))"
  shows "fdt_get_header m fdt Magic = FDT_MAGIC" "fdt_get_header m fdt Off_dt_struct = 56" "fdt_get_header m fdt Off_dt_strings = of_nat (56 + n)"
    "fdt_get_header m fdt Version = 17" "fdt_get_header m fdt Last_comp_version = 16" "fdt_get_header m fdt Size_dt_struct = of_nat n"
  using be32_fields [of m fdt "blob_fields n k" 0] be32_fields [of m fdt "blob_fields n k" 2] be32_fields [of m fdt "blob_fields n k" 3]
    be32_fields [of m fdt "blob_fields n k" 5] be32_fields [of m fdt "blob_fields n k" 6] be32_fields [of m fdt "blob_fields n k" 9] assms
  by (simp_all add: fdt_get_header_def blob_fields_def)

text \<open>A name in the strings block.\<close>

lemma blob_string:
  assumes "bytes_at m p (length strs) = strs" and "0 \<notin> set n \<and> (\<exists>u. drop k strs = n @ 0 # u)"
  shows "cstr m (p + of_nat k) n" and "k < length strs"
proof -
  obtain u where u: "drop k strs = n @ 0 # u"
    using assms(2) by blast
  then show k: "k < length strs"
    by (metis append_is_Nil_conv drop_eq_Nil leI list.distinct(1))
  have "strs = take k strs @ (n @ [0]) @ u"
    using u by (metis append.assoc append_Cons append_Nil append_take_drop_id)
  then have "bytes_at m (p + of_nat k) (length (n @ [0])) = n @ [0]"
    using bytes_at_part [of m p "take k strs" "n @ [0]" u] assms(1) k by simp
  then show "cstr m (p + of_nat k) n"
    using assms(2) by (intro cstr_bytes_at) simp_all
qed

lemma s32_nat: "k < 2 ^ 31 \<Longrightarrow> s32 (int k) = int k"
  by (simp add: s32_small)

lemma fdt_blob_holds:
  assumes toks: "list_all tok_ok (flat so root)" and len: "length (fdt_blob so strs root) < 2 ^ 31"
    and fdt: "fdt \<noteq> 0" "unat fdt + length (fdt_blob so strs root) < 2 ^ 64"
    and names: "\<And>n. n \<in> set (prop_names root) \<Longrightarrow> 0 \<notin> set n \<and> (\<exists>u. drop (unat (so n)) strs = n @ 0 # u)"
  shows "fdt_holds (put m fdt (fdt_blob so strs root)) fdt so root"
proof -
  let ?ts = "flat so root @ [T_end]" and ?m = "put m fdt (fdt_blob so strs root)"
  let ?n = "toks_size ?ts" and ?h = "concat (map be32_bytes (blob_fields (toks_size ?ts) (length strs)))"
  have blob: "fdt_blob so strs root = ?h @ replicate 16 0 @ concat (map tok_bytes ?ts) @ strs"
    by (simp add: fdt_blob_def)
  have h: "length ?h = 40"
    by (simp add: concat_be32_length blob_fields_def)
  have l: "length (fdt_blob so strs root) = 56 + ?n + length strs"
    unfolding blob length_append length_concat_toks h by simp
  have all: "bytes_at ?m fdt (length (fdt_blob so strs root)) = fdt_blob so strs root"
    using len by (intro bytes_at_put) simp
  have "bytes_at ?m fdt 40 = ?h"
    using bytes_at_part [of ?m fdt "[]" ?h "replicate 16 0 @ concat (map tok_bytes ?ts) @ strs"] all h unfolding blob by simp
  note hd = blob_header [OF this]
  have base: "struct_base ?m fdt = fdt + 56"
    by (simp add: struct_base_def hd)
  have st: "bytes_at ?m (fdt + 56) ?n = concat (map tok_bytes ?ts)"
    using bytes_at_part [of ?m fdt "?h @ replicate 16 0" "concat (map tok_bytes ?ts)" strs] all h length_concat_toks [of ?ts] unfolding blob by simp
  have u56: "unat (fdt + 56) = unat fdt + 56"
    using fdt(2) l by (subst unat_word_ariths(1)) simp
  have un: "unat (of_nat ?n :: u32) = ?n"
    using len l by (simp add: unat_of_nat take_bit_nat_eq_self del: of_nat_add toks_size_simps)
  have "fdt_check_header ?m fdt = 0"
    by (simp add: fdt_check_header_def hd)
  moreover have "fdt + 56 \<noteq> 0"
    using u56 by (metis add_is_0 unat_0 zero_neq_numeral)
  ultimately have "block_ok ?m fdt ?ts"
    unfolding block_ok_def base hd un using st toks len l fdt(2) u56 by (simp add: hd)
  moreover have "cstr ?m (fdt_string ?m fdt (s32 (uint (so n)))) n" if "n \<in> set (prop_names root)" for n
  proof -
    have e: "length (?h @ replicate 16 0 @ concat (map tok_bytes ?ts)) = 56 + ?n"
      unfolding length_append length_concat_toks h by simp
    have "bytes_at ?m (fdt + of_nat (56 + ?n)) (length strs) = strs"
      using bytes_at_part [of ?m fdt "?h @ replicate 16 0 @ concat (map tok_bytes ?ts)" strs "[]", unfolded e] all unfolding blob
      by (simp del: of_nat_add toks_size_simps map_append concat_append)
    note s = blob_string [OF this names [OF that]]
    have "unat (of_nat (56 + ?n) :: u32) = 56 + ?n"
      using len l by (simp add: unat_of_nat take_bit_nat_eq_self del: of_nat_add toks_size_simps)
    then have "ucast (of_nat (56 + ?n) :: u32) = (of_nat (56 + ?n) :: u64)"
      by (metis of_nat_unat)
    moreover have "of_int (s32 (uint (so n))) = (of_nat (unat (so n)) :: u64)"
    proof -
      have "unat (so n) < 2 ^ 31"
        using s(2) len l by linarith
      then show ?thesis
        using s32_nat [of "unat (so n)"] by (metis of_int_of_nat_eq uint_nat)
    qed
    ultimately show ?thesis
      using s(1) unfolding fdt_string_def hd by simp
  qed
  ultimately show ?thesis
    by (simp add: fdt_holds_def)
qed

section \<open>A tree\<close>

definition demo_tree :: dt_node where
  "demo_tree = Node [] [(lit ''compatible'', lit ''b'' @ [0])]
     [Node (lit ''s@1'') [] [Node (lit ''d'') [(lit ''compatible'', lit ''a'' @ 0 # lit ''b'' @ [0])] []], Node (lit ''t'') [] []]"

definition demo_mem :: mem where
  "demo_mem = put (\<lambda>_. 0) 0x1000 (fdt_blob (\<lambda>_. 0) (lit ''compatible'' @ [0]) demo_tree)"

lemma demo_holds: "fdt_holds demo_mem 0x1000 (\<lambda>_. 0) demo_tree"
  unfolding demo_mem_def
proof (rule fdt_blob_holds)
  let ?b = "fdt_blob (\<lambda>_. 0) (lit ''compatible'' @ [0]) demo_tree"
  have "length ?b = 151"
    by (simp add: fdt_blob_def demo_tree_def blob_fields_def flat_Node prop_tok_def tok_size_raw flip: tok_size_def)
  then show "length ?b < 2 ^ 31" "unat (0x1000 :: u64) + length ?b < 2 ^ 64"
    by simp_all
qed (simp_all add: demo_tree_def flat_Node prop_tok_def lit_def byte_NUL_iff)

lemma demo_place: "place (\<lambda>_. 0) 0 0 demo_tree =
    [(0, 0, demo_tree), (24, 1, dt_subs demo_tree ! 0), (32, 2, dt_subs (dt_subs demo_tree ! 0) ! 0), (64, 1, dt_subs demo_tree ! 1)]"
  by (simp add: demo_tree_def head_size_def node_size_def flat_Node prop_tok_def tok_size_raw)

lemma demo_path: "0 \<notin> set (lit ''/s/d'')" "0 \<notin> set (lit ''/d'')"
  by (simp_all add: lit_def byte_NUL_iff)

lemma demo_components: "components (lit ''/s/d'') = [lit ''s'', lit ''d'']" "components (lit ''/d'') = [lit ''d'']"
  by (simp_all add: components.simps [of "_ # _"] components.simps [of "[]"] lit_def slash_def byte_def)

lemma demo_resolve: "resolve (\<lambda>_. 0) 0 demo_tree [lit ''s'', lit ''d''] = Some (32, dt_subs (dt_subs demo_tree ! 0) ! 0)"
    "resolve (\<lambda>_. 0) 0 demo_tree [lit ''d''] = None"
  by (simp_all add: demo_tree_def find_sub_def subnodes_at_def head_size_def node_size_def flat_Node prop_tok_def tok_size_raw name_matches_def lit_def byte_def)

lemma demo_strings: "strings (lit ''b'' @ [0]) = [lit ''b'']" "strings (lit ''a'' @ 0 # lit ''b'' @ [0]) = [lit ''a'', lit ''b'']"
  using strings_Cons [of "lit ''b''" "[]"] strings_Cons [of "lit ''a''" "lit ''b'' @ [0]"] by (simp_all add: lit_def byte_NUL_iff strings.simps [of "[]"])

lemma demo_compatible: "compatible_ok demo_tree" "compatible c demo_tree \<longleftrightarrow> lit c = lit ''b''"
    "compatible c (dt_subs demo_tree ! 0) \<longleftrightarrow> False" "compatible c (dt_subs demo_tree ! Suc 0) \<longleftrightarrow> False"
    "compatible c (dt_subs (dt_subs demo_tree ! 0) ! 0) \<longleftrightarrow> lit c = lit ''a'' \<or> lit c = lit ''b''" "lit ''a'' \<noteq> lit ''b''"
  by (simp_all add: demo_tree_def compatible_def compatible_ok_def ends_in_nul_def demo_strings) (simp add: lit_def byte_def)

section \<open>Properties\<close>

text \<open>
  C21: A lookup of a property in a blob that holds a tree returns the data of the first property of the node with this name, and its length;
  the length of the name must be an \<^verbatim>\<open>int\<close>. If the node has no such property, it returns \<^verbatim>\<open>NULL\<close> and the code for not found.
\<close>

theorem fdt_getprop_finds:
  assumes "fdt_holds m fdt so root" and "(k, d, n) \<in> set (place so 0 0 root)" and "length name < 2 ^ 31"
  shows "case map_of (dt_props n) (lit name) of
      None \<Rightarrow> fdt_getprop m fdt (int k) name = Some (0, - FDT_ERR NOTFOUND)
    | Some x \<Rightarrow> \<exists>p. fdt_getprop m fdt (int k) name = Some (p, int (length x)) \<and> p \<noteq> 0 \<and> bytes_at m p (length x) = x"
  using property_at [OF assms(1,2), of "lit name"] assms(3)
  by (cases "map_of (dt_props n) (lit name)") (auto simp: fdt_getprop_def fdt_getprop_namelen_def)

theorem fdt_getprop_finds_witness:
  "(\<exists>p. fdt_getprop demo_mem 0x1000 32 ''compatible'' = Some (p, 4) \<and> p \<noteq> 0 \<and> bytes_at demo_mem p 4 = lit ''a'' @ 0 # lit ''b'' @ [0])
    \<and> fdt_getprop demo_mem 0x1000 32 ''reg'' = Some (0, - FDT_ERR NOTFOUND)"
  using fdt_getprop_finds [OF demo_holds, of 32 2 "dt_subs (dt_subs demo_tree ! 0) ! 0" "''compatible''"]
    fdt_getprop_finds [OF demo_holds, of 32 2 "dt_subs (dt_subs demo_tree ! 0) ! 0" "''reg''"]
  by (simp add: demo_place) (simp add: demo_tree_def lit_def eval_nat_numeral)

text \<open>
  C23: The walk over the nodes. In a blob that holds a tree, \<open>fdt_next_node\<close> goes from each node to the next one in the order of the blob and adds to the depth
  what the next node is deeper, as long as it stays below the node where the count began; behind the last node it finds nothing.
\<close>

theorem fdt_next_node_preorder:
  assumes "fdt_holds m fdt so root" and "i < length (place so 0 0 root)" and "place so 0 0 root ! i = (k, d, n)" and "0 \<le> e"
  shows "case drop (Suc i) (place so 0 0 root) of
      [] \<Rightarrow> fdt_next_node m fdt (int k) None = Some (- FDT_ERR NOTFOUND, None)
    | (k', d', n') # r \<Rightarrow> fdt_next_node m fdt (int k) None = Some (int k', None)
        \<and> (if int d + 1 \<le> e + int d' then fdt_next_node m fdt (int k) (Some e) = Some (int k', Some (e + int d' - int d))
           else \<exists>x. fdt_next_node m fdt (int k) (Some e) = Some (x, Some (- 1)))"
proof (cases "drop (Suc i) (place so 0 0 root)")
  case Nil
  then show ?thesis
    using next_node_none [OF assms(1-3)] by simp
next
  case (Cons x r)
  obtain k' d' n' where x: "x = (k', d', n')"
    by (cases x)
  show ?thesis
    using next_node_none [OF assms(1-3)] next_node_some(1,2) [OF assms Cons [unfolded x]] unfolding Cons x by auto
qed

theorem fdt_next_node_preorder_witness:
  "fdt_next_node demo_mem 0x1000 32 None = Some (64, None) \<and> fdt_next_node demo_mem 0x1000 32 (Some 2) = Some (64, Some 1)
    \<and> (\<exists>x. fdt_next_node demo_mem 0x1000 32 (Some 1) = Some (x, Some (- 1))) \<and> fdt_next_node demo_mem 0x1000 64 None = Some (- FDT_ERR NOTFOUND, None)"
  using fdt_next_node_preorder [OF demo_holds, of 2 32 2 "dt_subs (dt_subs demo_tree ! 0) ! 0" 2]
    fdt_next_node_preorder [OF demo_holds, of 2 32 2 "dt_subs (dt_subs demo_tree ! 0) ! 0" 1]
    fdt_next_node_preorder [OF demo_holds, of 3 64 1 "dt_subs demo_tree ! 1" 0]
  by (simp add: demo_place)

text \<open>
  C19: An absolute path, shorter than \<open>2 ^ 31\<close> bytes, is resolved from the root: in a blob that holds a tree \<open>fdt_path_offset\<close> follows the components of the path, at each
  step to the first subnode that matches, where a component without a unit address matches any, and fails if there is none.
\<close>

theorem fdt_path_offset_resolves:
  assumes "fdt_holds m fdt so root" and "0 \<notin> set path" and "path \<noteq> []" and "hd path = slash" and "length path < 2 ^ 31"
  shows "fdt_path_offset m fdt path = Some (case resolve so 0 root (components path) of None \<Rightarrow> - FDT_ERR NOTFOUND | Some (k, n) \<Rightarrow> int k)"
  using assms(1-4) by (rule path_at)

theorem fdt_path_offset_resolves_witness:
  "fdt_path_offset demo_mem 0x1000 (lit ''/s/d'') = Some 32 \<and> fdt_path_offset demo_mem 0x1000 (lit ''/d'') = Some (- FDT_ERR NOTFOUND)"
  using fdt_path_offset_resolves [OF demo_holds demo_path(1), unfolded demo_components demo_resolve]
    fdt_path_offset_resolves [OF demo_holds demo_path(2), unfolded demo_components demo_resolve]
  by (simp add: lit_def slash_def)

text \<open>
  C22: From a node back to its parent: in a blob that holds a tree \<open>fdt_node_depth\<close> returns the depth of each node, and \<open>fdt_parent_offset\<close> applied to
  a subnode of a node returns that node. The root has no parent.
\<close>

theorem fdt_parent_offset_correct:
  assumes "fdt_holds m fdt so root" and "(k, d, n) \<in> set (place so 0 0 root)"
  shows "fdt_node_depth m fdt (int k) = Some (int d) \<and> (\<forall>(k', c) \<in> set (subnodes_at so k n). fdt_parent_offset m fdt (int k') = Some (int k))
    \<and> fdt_parent_offset m fdt 0 = Some (- FDT_ERR NOTFOUND)"
proof (intro conjI)
  show "fdt_node_depth m fdt (int k) = Some (int d)"
    by (rule node_depth_at [OF assms])
  show "\<forall>(k', c) \<in> set (subnodes_at so k n). fdt_parent_offset m fdt (int k') = Some (int k)"
    using parent_at [OF assms] by blast
  have "(0, 0, root) \<in> set (place so 0 0 root)"
    by (cases root) simp
  from node_depth_at [OF assms(1) this] show "fdt_parent_offset m fdt 0 = Some (- FDT_ERR NOTFOUND)"
    using assms(1) by (simp add: fdt_parent_offset_def fdt_supernode_atdepth_offset_def fdt_holds_def block_ok_def)
qed

theorem fdt_parent_offset_correct_witness:
  "fdt_node_depth demo_mem 0x1000 24 = Some 1 \<and> fdt_parent_offset demo_mem 0x1000 32 = Some 24 \<and> fdt_parent_offset demo_mem 0x1000 0 = Some (- FDT_ERR NOTFOUND)"
  using fdt_parent_offset_correct [OF demo_holds, of 24 1 "dt_subs demo_tree ! 0"]
  by (simp add: demo_place) (simp add: demo_tree_def subnodes_at_def head_size_def tok_size_raw)

text \<open>
  C20: The search for a compatible node. In a blob that holds a tree whose \<^verbatim>\<open>compatible\<close> properties are lists of strings, \<open>fdt_node_offset_by_compatible\<close>
  for a string shorter than \<open>2 ^ 31\<close> bytes returns the first node in the order of the blob that has the string in its list, from the beginning or behind the node where the search
  starts, and not found if there is none.
\<close>

theorem fdt_node_offset_by_compatible_first:
  assumes "fdt_holds m fdt so root" and "compatible_ok root" and "NUL \<notin> set c" and "c \<noteq> []" and "length c < 2 ^ 31"
    and "i < length (place so 0 0 root)" and "place so 0 0 root ! i = (k, d, n)"
  shows "fdt_node_offset_by_compatible m fdt (- 1) c = Some (found (compatible c) (place so 0 0 root))
    \<and> fdt_node_offset_by_compatible m fdt (int k) c = Some (found (compatible c) (drop (Suc i) (place so 0 0 root)))"
  using compatible_search [OF assms(1-4)] assms(6,7) by blast

theorem fdt_node_offset_by_compatible_first_witness:
  "fdt_node_offset_by_compatible demo_mem 0x1000 (- 1) ''a'' = Some 32 \<and> fdt_node_offset_by_compatible demo_mem 0x1000 0 ''b'' = Some 32
    \<and> fdt_node_offset_by_compatible demo_mem 0x1000 32 ''b'' = Some (- FDT_ERR NOTFOUND)"
  using fdt_node_offset_by_compatible_first [OF demo_holds demo_compatible(1), of "''a''" 0 0 0 demo_tree]
    fdt_node_offset_by_compatible_first [OF demo_holds demo_compatible(1), of "''b''" 0 0 0 demo_tree]
    fdt_node_offset_by_compatible_first [OF demo_holds demo_compatible(1), of "''b''" 2 32 2 "dt_subs (dt_subs demo_tree ! 0) ! 0"]
  by (simp add: demo_place found_def demo_compatible)

end
