(* ===== verification/Spec2Isabelle.thy ===== *)
theory Spec2Isabelle
  imports Argv Vmalloc Access_Oracle Pci_Testdev Vmcs_Test Vtd_Init Chr_Testdev Fdt_Blob
begin

text \<open>
  A verification development for kvm-unit-tests: small guest kernels that test the KVM hypervisor, and the C
  library that they are linked with. All paths are below \<^verbatim>\<open>src/\<close>. The model is that of the 64-bit x86 configuration.

  \<^bold>\<open>The program.\<close> A guest is loaded with a string of arguments and a text of environment variables
  (\<^verbatim>\<open>lib/argv.c\<close>). It sets up the early allocator (\<^verbatim>\<open>lib/alloc_phys.c\<close>), hands the rest of the memory to the page allocator
  (\<^verbatim>\<open>lib/alloc_page.c\<close>), builds the page tables (\<^verbatim>\<open>lib/x86/vm.c\<close>) and uses the virtual memory allocator (\<^verbatim>\<open>lib/vmalloc.c\<close>);
  \<^verbatim>\<open>lib/alloc.c\<close> is the C heap over whichever allocator is active. It finds its devices on the PCI bus (\<^verbatim>\<open>lib/pci.c\<close>), runs its tests
  and prints the results (\<^verbatim>\<open>lib/printf.c\<close>, \<^verbatim>\<open>lib/report.c\<close>), whose number decides the exit code;
  ports without an exit register send it to a device behind a virtio console (\<^verbatim>\<open>lib/chr-testdev.c\<close> over \<^verbatim>\<open>lib/virtio.c\<close>). The tests that are modelled are
  the page fault test (\<^verbatim>\<open>x86/access.c\<close>), the extended page tables and the VMCS tests of the virtualisation framework
  (\<^verbatim>\<open>x86/vmx.c\<close>) and the DMA test of the IOMMU (\<^verbatim>\<open>x86/intel-iommu.c\<close>).

  \<^bold>\<open>Conventions.\<close> \<open>KUT_Prelude\<close> has the words \<open>u8\<close> to \<open>u64\<close>, the byte-addressed memory \<open>mem\<close>, little-endian loads and stores, and
  \<open>'a outcome\<close>: \<open>Ret\<close> is a normal return, \<open>Abort\<close> a failed \<^verbatim>\<open>assert\<close> or an explicit abort. C integers are words where they can wrap. A loop that
  may run for ever is a \<^theory_text>\<open>partial_function\<close> into \<open>option\<close>; \<open>returns\<close> turns the missing result into an abort, so a theorem with \<open>Ret\<close> in its
  conclusion says that the loop ends. No definition has fuel. The state of the allocators and of the page tables is the record \<open>machine\<close>
  (theory \<open>Machine\<close>), that of the reports \<open>report_state\<close>. Code is translated function by function under its own name; an inner loop is
  a definition of its own. Physical and virtual addresses of the tables are equal, as \<^verbatim>\<open>lib/x86\<close> sets them up. Spinlocks make a call one
  atomic step. Hardware is a parameter: a record of functions on a state of any type, with what the code relies on stated in
  locales (\<open>config_space\<close>, \<open>conf1_ports\<close>, \<open>ecam_window\<close>) or predicates (\<open>vmx_conforms\<close>, \<open>edu_conforms\<close>, \<open>iommu_conforms\<close>, \<open>serves_at_once\<close>), and a simulated device that has it.

  \<^bold>\<open>Theories and what they show.\<close>

  \<^item> \<open>Bitops\<close> (\<^verbatim>\<open>lib/bitops.h\<close>, \<^verbatim>\<open>lib/libcflat.h\<close>): alignment, powers of two; the two versions of \<open>fls\<close> agree.
  \<^item> \<open>Cmem\<close>, \<open>Cstring\<close> (\<^verbatim>\<open>lib/string.c\<close>, \<^verbatim>\<open>lib/util.c\<close>, \<^verbatim>\<open>lib/errata.h\<close>): the memory and string functions against the operations on
    lists that they implement, \<open>memmove\<close> on overlapping blocks, \<open>strstr\<close>, \<open>getenv\<close> with its prefix match, globbing.
  \<^item> \<open>Printf\<close> (\<^verbatim>\<open>lib/printf.c\<close>): \<open>vsnprintf\<close> refines the text \<open>vtext\<close> that a format denotes, cut off at the size, with the counters at the width of an \<^verbatim>\<open>int\<close>; printed numbers read back.
  \<^item> \<open>Report\<close> (\<^verbatim>\<open>lib/report.c\<close>), \<open>Argv\<close> (\<^verbatim>\<open>lib/argv.c\<close>): the prefix stack, the exit code; arguments and environment are the words and the
    well-formed lines of their texts.
  \<^item> \<open>Alloc_Phys\<close>, \<open>Alloc_Page\<close>, \<open>Alloc\<close> (\<^verbatim>\<open>lib/alloc_phys.c\<close>, \<^verbatim>\<open>lib/alloc_page.c\<close>, \<^verbatim>\<open>lib/alloc.c\<close>): the free list as a list of pages, the search for a
    run of pages against a search on the abstract list; the locale \<open>block_provider\<close> is what the heap relies on, it is interpreted on both
    allocators, and in it the heap invariant (live blocks are intact and apart) is kept by \<open>memalign\<close> and \<open>free\<close>.
  \<^item> \<open>X86_Vm\<close> (\<^verbatim>\<open>lib/x86/vm.c\<close>) with \<open>Radix\<close>, \<open>Radix_Rights\<close>, \<open>Radix_Split\<close>, \<open>X86_Tree\<close>, \<open>X86_Map\<close>, \<open>X86_Split\<close>: the locales \<open>radix\<close>, \<open>table_installer\<close> and \<open>splitting_installer\<close>
    have the theory of trees of tables once, for the page tables, the extended page tables and the tables of the IOMMU.
    \<open>grights\<close> is what the entries above a level grant together.
    \<open>translate\<close> is what the processor makes of an address; installing maps one page and keeps the rest, \<open>setup_mmu\<close> maps
    the memory one to one, splitting a large page changes no translation.
  \<^item> \<open>Vmalloc\<close> (\<^verbatim>\<open>lib/vmalloc.c\<close>, \<open>ioremap\<close> of \<^verbatim>\<open>lib/x86/io.c\<close>): an allocation takes unmapped addresses, is backed by its own frames and leaves the next addresses
    to the next allocation; freeing returns the frames.
  \<^item> \<open>Access\<close> (\<^verbatim>\<open>x86/access.c\<close>) with \<open>Access_Enum\<close>, \<open>Access_Mmu\<close>, \<open>Access_Walk\<close>, \<open>Access_Step\<close>, \<open>Access_Oracle\<close>: the enumeration of the cases visits every
    legal one once; on a processor with the architectural memory management unit each case passes.
  \<^item> \<open>Pci\<close> (\<^verbatim>\<open>lib/pci.c\<close>) with \<open>Pci_Bars\<close>, \<open>Pci_Bus\<close> (\<^verbatim>\<open>lib/x86/asm/pci.h\<close>), \<open>Pci_Props\<close>, \<open>Pci_Host\<close> (\<^verbatim>\<open>lib/pci-host-generic.c\<close>), \<open>Pci_Testdev\<close> (\<^verbatim>\<open>lib/pci-testdev.c\<close>): the locale
    \<open>config_space\<close> is the contract of the access functions; those of the generic host bridge keep it on the window \<open>ecam_window\<close>, those of x86 on
    the ports \<open>conf1_ports\<close> for aligned offsets only, and what they access otherwise is shown; sizing, programming and
    assigning of base address registers, the walk through the capabilities.
  \<^item> \<open>Ept\<close>, \<open>Ept_Map\<close>, \<open>Ept_Ad\<close>, \<open>Vmcs\<close>, \<open>Vmcs_Test\<close> (\<^verbatim>\<open>x86/vmx.c\<close>, \<^verbatim>\<open>x86/vmx.h\<close>): the extended page tables as radix trees, identity mapping of a range with the rights
    that all levels grant,
    accessed and dirty flags; the VMCS tests pass on a processor that keeps the fields of each VMCS.
  \<^item> \<open>Mmio\<close> (\<^verbatim>\<open>lib/asm-generic/io.h\<close>): the state of a driver of memory mapped devices and its register accesses.
  \<^item> \<open>Vtd\<close>, \<open>Vtd_Map\<close>, \<open>Vtd_Range\<close>, \<open>Vtd_Props\<close>, \<open>Vtd_Test\<close>, \<open>Vtd_Irq\<close>, \<open>Vtd_Init\<close> (\<^verbatim>\<open>lib/x86/intel-iommu.c\<close>, \<^verbatim>\<open>lib/pci-edu.c\<close>): \<open>vtd_translate\<close> is what the IOMMU makes of an
    address of a device; \<open>vtd_map_range\<close> maps exactly the range for exactly the device, the DMA test passes,
    messages of a device select the entry made for them, whose destination the hardware takes from bits 8 to 15 of the one asked for, and the start-up enables the IOMMU and passes its checks.
  \<^item> \<open>Virtio\<close> (\<^verbatim>\<open>lib/virtio.c\<close>, \<^verbatim>\<open>lib/virtio-mmio.c\<close>, \<^verbatim>\<open>lib/chr-testdev.c\<close>), \<open>Virtio_Queue\<close>, \<open>Chr_Testdev\<close>: \<open>queue_ok\<close> is the invariant of a queue (the parts of the ring are apart, the free
    descriptors form a list); a new queue has it, adding and getting a buffer keep it, a buffer goes round with the indices of driver and device in step; the
    exit code is published for every device and reaches one that serves its queue at once, and the driver does not wait for one that does not.
  \<^item> \<open>Fdt\<close> (\<^verbatim>\<open>lib/libfdt/fdt.c\<close>, \<^verbatim>\<open>lib/libfdt/fdt_ro.c\<close>): the functions that read a flattened device tree. \<open>Fdt_Tokens\<close> has the structure block as a list of tokens,
    \<open>Fdt_Tree\<close> the trees with the offsets of their nodes; \<open>fdt_holds\<close> says that a blob in memory holds a tree. Then, for names and paths shorter than \<open>2 ^ 31\<close>, the walk, the lookup of
    properties, the search for compatible nodes (\<open>Fdt_Find\<close>), paths and parents (\<open>Fdt_Path\<close>) return and are the operations on
    the tree; \<open>Fdt_Blob\<close> builds a blob for a tree, shows that it holds the tree, and has the results. Phandles, aliases, \<open>fdt_get_path\<close> and the reservation
    entries are translated, without results about them.

  \<^bold>\<open>Not modelled.\<close> Inline assembly and what the processor does in it (entering a guest, exceptions, interrupts, starting other processors); the tests
  whose outcome is the behaviour of the processor or of the hypervisor and not of the code (most of \<^verbatim>\<open>x86/\<close>); device output without state
  (console, exit ports); the ports to ARM, PowerPC and s390x, which repeat the components above over other hardware; the functions
  of \<^verbatim>\<open>lib/libfdt\<close> that write or build a tree, and \<^verbatim>\<open>lib/devicetree.c\<close>, whose results are arguments of \<open>pci_dt_probe\<close>; the host programs in \<^verbatim>\<open>api/\<close>, and the scripts.
\<close>

end
